(* ===== verification/Prelude.thy ===== *)
theory Prelude
  imports Main "HOL-Library.Monad_Syntax"
begin

text \<open>
  Shared vocabulary of the development.

  An operation of the C++ code that can abort is modelled by a function into \<open>option\<close>:
  \<open>None\<close> means that an \<open>assert\<close> or \<open>GGML_ASSERT\<close> fails, that the standard library throws
  out of a call the code never guards, or that the behaviour is undefined (an index outside
  a vector, a signed overflow). \<open>Some x\<close> is a normal return with value \<open>x\<close>.  Values the
  code returns to report an error (\<open>false\<close>, an empty slot, a failed status) are ordinary
  values inside \<open>Some\<close>.

  \<open>guard\<close> is an assertion, \<open>vget\<close> a checked \<open>operator[]\<close>, \<open>foldM\<close> a counting loop whose
  body may abort, \<open>vset\<close> a checked assignment to an element.
\<close>

named_theorems bind_simps "unfolding the option monad"

type_synonym llama_pos = int
type_synonym llama_seq_id = int
type_synonym llama_token = int

subsection \<open>Machine integers\<close>

definition INT32_MAX :: int where
  "INT32_MAX = 2147483647"

definition INT32_MIN :: int where
  "INT32_MIN = - 2147483648"

definition i32_ok :: "int \<Rightarrow> bool" where
  "i32_ok x \<longleftrightarrow> INT32_MIN \<le> x \<and> x \<le> INT32_MAX"

text \<open>The wrap-around of \<open>uint32_t\<close> arithmetic, where the code can leave the range.\<close>

definition u32 :: "int \<Rightarrow> nat" where
  "u32 x = nat (x mod 2 ^ 32)"

text \<open>C++ division of signed integers truncates towards zero.\<close>

definition cdiv :: "int \<Rightarrow> int \<Rightarrow> int" where
  "cdiv a b = sgn a * sgn b * (\<bar>a\<bar> div \<bar>b\<bar>)"

lemma cdiv_nonneg: "0 \<le> a \<Longrightarrow> 0 < b \<Longrightarrow> cdiv a b = a div b"
  by (cases "a = 0") (auto simp: cdiv_def sgn_if)

lemma cdiv_nonneg_bounds: "0 \<le> a \<Longrightarrow> 0 < b \<Longrightarrow> 0 \<le> cdiv a b \<and> cdiv a b \<le> a"
proof -
  assume a: "0 \<le> a" and b: "0 < b"
  have "a div b \<le> a div 1" using a b by (intro zdiv_mono2) auto
  then show ?thesis using a b by (simp add: cdiv_nonneg pos_imp_zdiv_nonneg_iff)
qed

lemma u32_id: "x < 2 ^ 32 \<Longrightarrow> u32 (int x) = x"
  by (simp add: u32_def nat_mod_as_int [symmetric] flip: of_nat_mod)

lemma u32_less: "u32 x < 2 ^ 32"
  by (simp add: u32_def nat_less_iff)

subsection \<open>Assertions, checked reads and loops\<close>

definition guard :: "bool \<Rightarrow> unit option" where
  "guard b = (if b then Some () else None)"

definition vget :: "'a list \<Rightarrow> nat \<Rightarrow> 'a option" where
  "vget xs i = (if i < length xs then Some (xs ! i) else None)"

definition vset :: "'a list \<Rightarrow> nat \<Rightarrow> 'a \<Rightarrow> 'a list option" where
  "vset xs i x = (if i < length xs then Some (xs[i := x]) else None)"

fun foldM :: "('a \<Rightarrow> 's \<Rightarrow> 's option) \<Rightarrow> 'a list \<Rightarrow> 's \<Rightarrow> 's option" where
  "foldM f [] s = Some s"
| "foldM f (x # xs) s = (case f x s of None \<Rightarrow> None | Some s' \<Rightarrow> foldM f xs s')"

lemma guard_True [simp, bind_simps]: "guard True = Some ()"
  and guard_False [simp, bind_simps]: "guard False = None"
  by (simp_all add: guard_def)

lemma guard_eq_Some [simp]: "guard b = Some u \<longleftrightarrow> b"
  by (simp add: guard_def)

lemma guard_eq_None [simp]: "guard b = None \<longleftrightarrow> \<not> b"
  by (simp add: guard_def)

lemma bind_guard_eq_Some [simp, bind_simps]:
  "Option.bind (guard b) f = Some x \<longleftrightarrow> b \<and> f () = Some x"
  by (simp add: guard_def)

lemma bind_guard [simp]: "b \<Longrightarrow> Option.bind (guard b) f = f ()"
  by (simp add: guard_def)

lemma vget_Some [simp]: "i < length xs \<Longrightarrow> vget xs i = Some (xs ! i)"
  by (simp add: vget_def)

lemma vget_eq_Some [bind_simps]: "vget xs i = Some x \<longleftrightarrow> i < length xs \<and> xs ! i = x"
  by (simp add: vget_def)

lemma vget_eq_None: "vget xs i = None \<longleftrightarrow> length xs \<le> i"
  by (simp add: vget_def not_less)

text \<open>A loop in the body of a partial function.\<close>

lemma foldM_mono [partial_function_mono]:
  assumes "\<And>x t. mono_option (\<lambda>f. B x t f)"
  shows "mono_option (\<lambda>f. foldM (\<lambda>x t. B x t f) xs t)"
proof (induction xs arbitrary: t)
  case (Cons x xs)
  have "foldM (\<lambda>x t. B x t f) (x # xs) t = Option.bind (B x t f) (\<lambda>t. foldM (\<lambda>x t. B x t f) xs t)" for f
    by (auto split: option.splits)
  then show ?case by (simp only:) (intro bind_mono assms Cons)
qed (simp add: option.const_mono)

lemma foldM_append:
  "foldM f (xs @ ys) s = Option.bind (foldM f xs s) (foldM f ys)"
  by (induction xs arbitrary: s) (auto split: option.splits)

text \<open>
  The loop rule: an invariant indexed by the elements already processed, kept by a body
  that does not abort under it, holds of the state the loop returns.
\<close>

lemma foldM_rule:
  assumes "P [] s"
    and "\<And>ys x t. \<exists>zs. xs = ys @ x # zs \<Longrightarrow> P ys t \<Longrightarrow> \<exists>t'. f x t = Some t' \<and> P (ys @ [x]) t'"
  shows "\<exists>s'. foldM f xs s = Some s' \<and> P xs s'"
  using assms(2)
proof (induction xs rule: rev_induct)
  case Nil
  then show ?case using assms(1) by simp
next
  case (snoc x xs)
  from snoc.prems have "\<And>ys y t. \<exists>zs. xs = ys @ y # zs \<Longrightarrow> P ys t \<Longrightarrow>
      \<exists>t'. f y t = Some t' \<and> P (ys @ [y]) t'"
    by (metis append_Cons append_assoc)
  then obtain t where t: "foldM f xs s = Some t" "P xs t"
    using snoc.IH by blast
  moreover obtain t' where "f x t = Some t'" "P (xs @ [x]) t'"
    using snoc.prems t(2) by blast
  ultimately show ?case by (simp add: foldM_append)
qed

text \<open>The same rule for a loop that is known to return.\<close>

lemma foldM_invar:
  assumes "foldM f xs s = Some s'" and "P s"
    and "\<And>x t t'. x \<in> set xs \<Longrightarrow> P t \<Longrightarrow> f x t = Some t' \<Longrightarrow> P t'"
  shows "P s'"
  using assms
proof (induction xs arbitrary: s)
  case Nil
  then show ?case by simp
next
  case (Cons x xs)
  then obtain t where t: "f x s = Some t" "foldM f xs t = Some s'"
    by (auto split: option.splits)
  show ?case
    by (rule Cons.IH [OF t(2)]) (use Cons.prems t in auto)
qed

lemma foldM_cong:
  assumes "\<And>x t. x \<in> set xs \<Longrightarrow> f x t = g x t"
  shows "foldM f xs s = foldM g xs s"
  using assms by (induction xs arbitrary: s) (auto split: option.splits)

lemma foldM_skip: "(\<And>x. x \<in> set xs \<Longrightarrow> f x s = Some s) \<Longrightarrow> foldM f xs s = Some s"
  by (induction xs) auto

lemma foldM_const_None: "x \<in> set xs \<Longrightarrow> (\<And>t. f x t = None) \<Longrightarrow> foldM f xs s = None"
  by (induction xs arbitrary: s) (auto split: option.splits)

text \<open>A loop that fills an array, and a loop that stops at the first element that fails a test.\<close>

fun mapM :: "('a \<Rightarrow> 'b option) \<Rightarrow> 'a list \<Rightarrow> 'b list option" where
  "mapM f [] = Some []"
| "mapM f (x # xs) = do { y \<leftarrow> f x; ys \<leftarrow> mapM f xs; Some (y # ys) }"

fun allM :: "('a \<Rightarrow> bool option) \<Rightarrow> 'a list \<Rightarrow> bool option" where
  "allM f [] = Some True"
| "allM f (x # xs) = do { b \<leftarrow> f x; if b then allM f xs else Some False }"

text \<open>\<open>while (i < n && skip(i)) ++i;\<close>\<close>

function scanM :: "(nat \<Rightarrow> bool option) \<Rightarrow> nat \<Rightarrow> nat \<Rightarrow> nat option" where
  "scanM skip n i = (if i < n
     then (case skip i of None \<Rightarrow> None | Some b \<Rightarrow> if b then scanM skip n (Suc i) else Some i)
     else Some i)"
  by pat_completeness auto
termination by (relation "measure (\<lambda>(skip, n, i). n - i)") auto

declare scanM.simps [simp del]

lemma scanM_spec:
  assumes "scanM skip n i = Some j"
  shows "i \<le> j \<and> (i \<le> n \<longrightarrow> j \<le> n) \<and> (\<forall>k. i \<le> k \<and> k < j \<longrightarrow> skip k = Some True) \<and> (j < n \<longrightarrow> skip j = Some False)"
  using assms
proof (induction skip n i rule: scanM.induct)
  case (1 skip n i)
  note eq = scanM.simps [of skip n i]
  show ?case
  proof (cases "i < n \<and> skip i = Some True")
    case True
    then have "Suc i \<le> j \<and> (Suc i \<le> n \<longrightarrow> j \<le> n) \<and> (\<forall>k. Suc i \<le> k \<and> k < j \<longrightarrow> skip k = Some True) \<and>
        (j < n \<longrightarrow> skip j = Some False)"
      using 1 eq by simp
    then show ?thesis using True by (metis Suc_leD Suc_leI le_neq_implies_less)
  next
    case False
    then show ?thesis using 1(2) eq by (auto split: option.splits if_splits)
  qed
qed

lemma scanM_ge: "scanM skip n i = Some j \<Longrightarrow> i \<le> j"
  using scanM_spec by blast

lemma scanM_total: "(\<And>k. i \<le> k \<Longrightarrow> k < n \<Longrightarrow> skip k \<noteq> None) \<Longrightarrow> \<exists>j. scanM skip n i = Some j"
proof (induction skip n i rule: scanM.induct)
  case (1 skip n i)
  show ?case
    using 1 by (subst scanM.simps) (cases "i < n"; cases "skip i"; fastforce)
qed

lemma mapM_Some_iff: "mapM f xs = Some ys \<longleftrightarrow> length ys = length xs \<and> (\<forall>i < length xs. f (xs ! i) = Some (ys ! i))"
proof (induction xs arbitrary: ys)
  case (Cons x xs)
  show ?case
  proof (cases ys)
    case (Cons y ys')
    have "(\<forall>i < Suc (length xs). f ((x # xs) ! i) = Some ((y # ys') ! i)) \<longleftrightarrow>
        f x = Some y \<and> (\<forall>i < length xs. f (xs ! i) = Some (ys' ! i))"
      by (auto simp: nth_Cons split: nat.splits)
    then show ?thesis using Cons.IH by (auto simp: Cons bind_eq_Some_conv)
  qed (auto simp: bind_eq_Some_conv)
qed auto

lemma mapM_ok: "(\<And>x. x \<in> set xs \<Longrightarrow> f x = Some (g x)) \<Longrightarrow> mapM f xs = Some (map g xs)"
  by (induction xs) auto

lemma mapM_length: "mapM f xs = Some ys \<Longrightarrow> length ys = length xs"
  by (simp add: mapM_Some_iff)

lemma allM_True: "allM f xs = Some True \<longleftrightarrow> (\<forall>x \<in> set xs. f x = Some True)"
  by (induction xs) (auto simp: bind_eq_Some_conv)

lemma allM_ok: "(\<And>x. x \<in> set xs \<Longrightarrow> f x = Some (g x)) \<Longrightarrow> allM f xs = Some (\<forall>x \<in> set xs. g x)"
  by (induction xs) auto

text \<open>Prefixes of a counting loop.\<close>

lemma upt_prefix:
  assumes "[0..<n] = ys @ x # zs"
  shows "x = length ys \<and> ys = [0..<x] \<and> x < n"
proof -
  have "length [0..<n] = length (ys @ x # zs)" using assms by (rule arg_cong)
  then have len: "n = length ys + Suc (length zs)" by simp
  have "[0..<n] ! length ys = (ys @ x # zs) ! length ys" by (simp only: assms)
  then have xl: "x = length ys" using len by (simp del: upt_Suc)
  have "take (length ys) [0..<n] = ys" using assms by simp
  then show ?thesis using xl len by (simp add: take_upt del: upt_Suc)
qed

lemma foldM_upt_invar:
  assumes "foldM f [i..<n] s = Some s'" and "P i s" "i \<le> n" and "\<And>j t t'. i \<le> j \<Longrightarrow> j < n \<Longrightarrow> P j t \<Longrightarrow> f j t = Some t' \<Longrightarrow> P (Suc j) t'"
  shows "P n s'"
  using assms
proof (induction "n - i" arbitrary: i s)
  case 0
  then show ?case by simp
next
  case (Suc k)
  then obtain t where t: "f i s = Some t" "foldM f [Suc i..<n] t = Some s'" by (auto simp: upt_conv_Cons split: option.splits)
  have "P (Suc i) t" using Suc.prems(4) [OF _ _ Suc.prems(2) t(1)] Suc.hyps(2) by simp
  then show ?case using Suc.hyps(1) [of "Suc i" t] Suc.hyps(2) Suc.prems(4) t(2) by simp
qed

lemma foldM_upt_invar_0:
  assumes "foldM f [0..<n] s = Some s'" "P 0 s" "\<And>i t t'. i < n \<Longrightarrow> P i t \<Longrightarrow> f i t = Some t' \<Longrightarrow> P (Suc i) t'"
  shows "P n s'"
  by (rule foldM_upt_invar [where P = P, OF assms(1,2)]) (use assms(3) in simp_all)

lemma foldM_upt_rule:
  assumes "P 0 s"
    and "\<And>i t. i < n \<Longrightarrow> P i t \<Longrightarrow> \<exists>t'. f i t = Some t' \<and> P (Suc i) t'"
  shows "\<exists>s'. foldM f [0..<n] s = Some s' \<and> P n s'"
proof -
  have "\<exists>s'. foldM f [0..<n] s = Some s' \<and> (\<lambda>ys. P (length ys)) [0..<n] s'"
  proof (rule foldM_rule)
    show "P (length []) s" using assms(1) by simp
  next
    fix ys x t
    assume "\<exists>zs. [0..<n] = ys @ x # zs" and "P (length ys) t"
    moreover from this(1) have "x = length ys \<and> x < n"
      using upt_prefix by blast
    ultimately show "\<exists>t'. f x t = Some t' \<and> P (length (ys @ [x])) t'"
      using assms(2) by fastforce
  qed
  then show ?thesis by simp
qed

lemma length_fold_update [simp]:
  "length (fold (\<lambda>j ys. ys[f j := g j]) xs l) = length l"
  by (induction xs arbitrary: l) auto

text \<open>
  A value written back at the indices it was read from: the loop that restores saved entries
  undoes whatever was done to them.
\<close>

lemma fold_update_restore:
  assumes "length ys = length xs" and "\<And>i. i < length xs \<Longrightarrow> i \<notin> set idxs \<Longrightarrow> ys ! i = xs ! i"
  shows "fold (\<lambda>j l. l[idxs ! j := xs ! (idxs ! j)]) [0..<length idxs] ys = xs"
proof -
  let ?r = "\<lambda>k. fold (\<lambda>j l. l[idxs ! j := xs ! (idxs ! j)]) [0..<k] ys"
  have "?r k ! i = (if i \<in> set (take k idxs) then xs ! i else ys ! i)"
    if "k \<le> length idxs" "i < length xs" for k i
    using that
  proof (induction k)
    case 0
    then show ?case by simp
  next
    case (Suc k)
    have "take (Suc k) idxs = take k idxs @ [idxs ! k]"
      using Suc.prems by (simp add: take_Suc_conv_app_nth)
    then show ?case using Suc assms(1) by (cases "i = idxs ! k") auto
  qed
  from this [of "length idxs"] show ?thesis
    using assms by (intro nth_equalityI) auto
qed

end
