(* ===== verification/Tallocr.thy ===== *)
theory Tallocr
  imports Prelude
begin

text \<open>
  The allocators of src/ggml-alloc.c: \<open>ggml_tallocr\<close>, which places tensors one after the other in a
  buffer, and \<open>ggml_dyn_tallocr\<close>, which measures a plan with a sorted list of free blocks.

  \<open>size_t\<close> is \<open>nat\<close>: offsets and block sizes stay below \<open>SIZE_MAX/2\<close>, where sums of an offset and a
  size cannot wrap around; the rounding of a requested size can, and does.  The array of free
  blocks is the list of its first \<open>n_free_blocks\<close> entries.
\<close>

definition SIZE_MAX :: nat where
  "SIZE_MAX = 2 ^ 64 - 1"

definition u64 :: "nat \<Rightarrow> nat" where
  "u64 x = x mod 2 ^ 64"

definition MAX_FREE_BLOCKS :: nat where
  "MAX_FREE_BLOCKS = 256"

definition aligned_offset :: "nat \<Rightarrow> nat \<Rightarrow> nat \<Rightarrow> nat" where
  "aligned_offset buffer offset alignment =
     (let align = (alignment - u64 (buffer + offset) mod alignment) mod alignment in u64 (offset + align))"

subsection \<open>\<open>ggml_tallocr\<close>\<close>

text \<open>The buffer is its base address and its size.\<close>

record ggml_tallocr =
  ta_base :: nat
  ta_buffer_size :: nat
  ta_alignment :: nat
  ta_offset :: nat

definition ggml_tallocr_new :: "nat \<Rightarrow> nat \<Rightarrow> nat \<Rightarrow> ggml_tallocr" where
  "ggml_tallocr_new base sz align =
     \<lparr>ta_base = base, ta_buffer_size = sz, ta_alignment = align, ta_offset = aligned_offset base 0 align\<rparr>"

text \<open>\<open>GGML_PAD\<close> on \<open>size_t\<close>, for an alignment that is a power of two.\<close>

definition pad_size :: "nat \<Rightarrow> nat \<Rightarrow> nat" where
  "pad_size x n = u64 (x + n - 1) div n * n"

text \<open>The address of the tensor; the call aborts when the buffer is full.\<close>

definition ggml_tallocr_alloc :: "ggml_tallocr \<Rightarrow> nat \<Rightarrow> (nat \<times> ggml_tallocr) option" where
  "ggml_tallocr_alloc ta sz = do {
     let sz = pad_size sz (ta_alignment ta);
     guard (u64 (ta_offset ta + sz) \<le> ta_buffer_size ta);
     Some (ta_base ta + ta_offset ta, ta\<lparr>ta_offset := u64 (ta_offset ta + sz)\<rparr>) }"

subsection \<open>\<open>ggml_dyn_tallocr\<close>\<close>

record free_block =
  fb_offset :: nat
  fb_size :: nat

record dyn_tallocr =
  da_alignment :: nat
  da_free_blocks :: "free_block list"
  da_max_size :: nat

text \<open>The best block but the last: the smallest that fits, the last of several of one size.\<close>

definition best_fit_step :: "free_block list \<Rightarrow> nat \<Rightarrow> nat \<Rightarrow> nat option \<times> nat \<Rightarrow> nat option \<times> nat" where
  "best_fit_step blocks sz i = (\<lambda>(best, best_size).
     if sz \<le> fb_size (blocks ! i) \<and> fb_size (blocks ! i) \<le> best_size then (Some i, fb_size (blocks ! i)) else (best, best_size))"

definition best_fit :: "free_block list \<Rightarrow> nat \<Rightarrow> nat option" where
  "best_fit blocks sz = fst (fold (best_fit_step blocks sz) [0..<length blocks - 1] (None, SIZE_MAX))"

definition choose_block :: "free_block list \<Rightarrow> nat \<Rightarrow> nat option" where
  "choose_block blocks sz = (case best_fit blocks sz of
     Some i \<Rightarrow> Some i
   | None \<Rightarrow> if blocks \<noteq> [] \<and> sz \<le> fb_size (last blocks) then Some (length blocks - 1) else None)"

definition remove_block :: "free_block list \<Rightarrow> nat \<Rightarrow> free_block list" where
  "remove_block blocks i = take i blocks @ drop (Suc i) blocks"

definition dyn_tallocr_alloc :: "dyn_tallocr \<Rightarrow> nat \<Rightarrow> (nat \<times> dyn_tallocr) option" where
  "dyn_tallocr_alloc a sz = do {
     let sz = aligned_offset 0 sz (da_alignment a);
     let blocks = da_free_blocks a;
     i \<leftarrow> choose_block blocks sz;
     let block = blocks ! i;
     let offset = fb_offset block;
     let blocks = (if fb_size block - sz = 0 then remove_block blocks i
                   else blocks[i := \<lparr>fb_offset = offset + sz, fb_size = fb_size block - sz\<rparr>]);
     Some (offset, a\<lparr>da_free_blocks := blocks, da_max_size := max (da_max_size a) (offset + sz)\<rparr>) }"

text \<open>Block \<open>i\<close>, when the range is at its end or at its beginning.\<close>

definition merge_at :: "free_block list \<Rightarrow> nat \<Rightarrow> nat \<Rightarrow> nat \<Rightarrow> free_block list option" where
  "merge_at blocks offset sz i =
     (let block = blocks ! i in
      if fb_offset block + fb_size block = offset then
        let block = block\<lparr>fb_size := fb_size block + sz\<rparr> in
        if i < length blocks - 1 \<and> fb_offset block + fb_size block = fb_offset (blocks ! (i + 1))
        then Some (remove_block (blocks[i := block\<lparr>fb_size := fb_size block + fb_size (blocks ! (i + 1))\<rparr>]) (i + 1))
        else Some (blocks[i := block])
      else if offset + sz = fb_offset block then
        let block = \<lparr>fb_offset = offset, fb_size = fb_size block + sz\<rparr> in
        if 0 < i \<and> fb_offset (blocks ! (i - 1)) + fb_size (blocks ! (i - 1)) = fb_offset block
        then Some (remove_block (blocks[i := block, i - 1 := (blocks ! (i - 1))\<lparr>fb_size := fb_size (blocks ! (i - 1)) + fb_size block\<rparr>]) i)
        else Some (blocks[i := block])
      else None)"

fun first_merge :: "free_block list \<Rightarrow> nat \<Rightarrow> nat \<Rightarrow> nat list \<Rightarrow> free_block list option" where
  "first_merge blocks offset sz [] = None"
| "first_merge blocks offset sz (i # js) =
     (case merge_at blocks offset sz i of Some blocks \<Rightarrow> Some blocks | None \<Rightarrow> first_merge blocks offset sz js)"

definition insert_block :: "free_block list \<Rightarrow> nat \<Rightarrow> nat \<Rightarrow> free_block list" where
  "insert_block blocks offset sz =
     (let insert_pos = length (takeWhile (\<lambda>b. fb_offset b < offset) blocks) in
      take insert_pos blocks @ [\<lparr>fb_offset = offset, fb_size = sz\<rparr>] @ drop insert_pos blocks)"

definition dyn_tallocr_free_tensor :: "dyn_tallocr \<Rightarrow> nat \<Rightarrow> nat \<Rightarrow> dyn_tallocr option" where
  "dyn_tallocr_free_tensor a offset sz = do {
     let sz = aligned_offset 0 sz (da_alignment a);
     let blocks = da_free_blocks a;
     (case first_merge blocks offset sz [0..<length blocks] of
        Some blocks \<Rightarrow> Some (a\<lparr>da_free_blocks := blocks\<rparr>)
      | None \<Rightarrow> do {
          guard (length blocks < MAX_FREE_BLOCKS);
          Some (a\<lparr>da_free_blocks := insert_block blocks offset sz\<rparr>) }) }"

definition dyn_tallocr_reset :: "dyn_tallocr \<Rightarrow> dyn_tallocr" where
  "dyn_tallocr_reset a = a\<lparr>da_free_blocks := [\<lparr>fb_offset = 0, fb_size = SIZE_MAX div 2\<rparr>], da_max_size := 0\<rparr>"

definition dyn_tallocr_new :: "nat \<Rightarrow> dyn_tallocr" where
  "dyn_tallocr_new alignment = dyn_tallocr_reset \<lparr>da_alignment = alignment, da_free_blocks = [], da_max_size = 0\<rparr>"

subsection \<open>The invariant\<close>

definition fb_end :: "free_block \<Rightarrow> nat" where
  "fb_end b = fb_offset b + fb_size b"

definition block_set :: "free_block \<Rightarrow> nat set" where
  "block_set b = {fb_offset b..<fb_end b}"

definition free_set :: "dyn_tallocr \<Rightarrow> nat set" where
  "free_set a = \<Union> (block_set ` set (da_free_blocks a))"

text \<open>Blocks in order with a gap between any two.\<close>

definition apart :: "free_block \<Rightarrow> free_block \<Rightarrow> bool" where
  "apart a b \<longleftrightarrow> fb_end a < fb_offset b"

definition tallocr_ok :: "dyn_tallocr \<Rightarrow> bool" where
  "tallocr_ok a \<longleftrightarrow> 0 < da_alignment a \<and> da_alignment a < 2 ^ 32 \<and> sorted_wrt apart (da_free_blocks a) \<and>
     (\<forall>b \<in> set (da_free_blocks a). 0 < fb_size b \<and> fb_end b \<le> SIZE_MAX div 2 \<and> da_alignment a dvd fb_offset b)"

lemma aligned_offset_0:
  assumes "0 < al" "al < 2 ^ 32" "n < 2 ^ 63"
  shows "aligned_offset 0 n al = (n + al - 1) div al * al" and "al dvd aligned_offset 0 n al" and "n \<le> aligned_offset 0 n al"
proof -
  let ?d = "(al - n mod al) mod al"
  have n: "u64 n = n" using assms(3) by (simp add: u64_def)
  have lt: "?d < al" using assms(1) by simp
  then have "n + ?d < 2 ^ 64" using assms(2,3) by simp
  then have eq: "aligned_offset 0 n al = n + ?d" by (simp add: aligned_offset_def Let_def n u64_def)
  have d: "al dvd n + ?d"
  proof (cases "n mod al = 0")
    case True
    then show ?thesis by (simp add: mod_eq_0_iff_dvd)
  next
    case False
    then have "al - n mod al < al" using assms(1) by simp
    then have "?d = al - n mod al" by simp
    moreover have "n mod al < al" using assms(1) by simp
    ultimately have "n + ?d = n div al * al + al" using div_mult_mod_eq [of n al] by linarith
    then show ?thesis by simp
  qed
  then show "al dvd aligned_offset 0 n al" "n \<le> aligned_offset 0 n al" using eq by simp_all
  obtain k where k: "n + ?d = k * al" using d by (metis dvd_def mult.commute)
  have "n + al - 1 = k * al + (al - 1 - ?d)" using k lt by linarith
  then have "(n + al - 1) div al = k + (al - 1 - ?d) div al" using assms(1) by simp
  then show "aligned_offset 0 n al = (n + al - 1) div al * al" using eq k assms(1) by simp
qed

end
