(* ===== verification/Tensor.thy ===== *)
theory Tensor
  imports Tallocr
begin

text \<open>
  The tensors of a graph as the planner of src/ggml-alloc.c sees them: operation, layout, flags, sources,
  the tensor a view is a view of, and where the data is.  A tensor is known by a number, in place of its
  address; the heap gives the tensor of each number.
\<close>

text \<open>The operations the planner tells apart; the others by their names.\<close>

datatype ggml_op =
    OP_NONE | OP_SCALE | OP_DIAG_MASK_ZERO | OP_DIAG_MASK_INF | OP_ADD | OP_ADD1 | OP_SUB | OP_MUL | OP_DIV | OP_SQR
  | OP_SQRT | OP_LOG | OP_UNARY | OP_ROPE | OP_ROPE_BACK | OP_SILU_BACK | OP_RMS_NORM | OP_RMS_NORM_BACK
  | OP_SOFT_MAX | OP_SOFT_MAX_BACK | OP_other string

definition ggml_op_can_inplace :: "ggml_op \<Rightarrow> bool" where
  "ggml_op_can_inplace op \<longleftrightarrow> op \<in> set
     [OP_SCALE, OP_DIAG_MASK_ZERO, OP_DIAG_MASK_INF, OP_ADD, OP_ADD1, OP_SUB, OP_MUL, OP_DIV, OP_SQR, OP_SQRT, OP_LOG,
      OP_UNARY, OP_ROPE, OP_ROPE_BACK, OP_SILU_BACK, OP_RMS_NORM, OP_RMS_NORM_BACK, OP_SOFT_MAX, OP_SOFT_MAX_BACK]"

text \<open>
  A backend buffer has a type, a base address and a size.  A pointer to one is its position in the list of
  all the buffers there have been.
\<close>

record buffer =
  bu_type :: nat
  bu_base :: nat
  bu_size :: nat

type_synonym world = "buffer list"

definition buffer_get_base :: "buffer \<Rightarrow> nat option" where
  "buffer_get_base b = (if bu_size b = 0 then Some 0 else do { guard (bu_base b \<noteq> 0); Some (bu_base b) })"

text \<open>A new buffer; the backend's own allocation is \<open>iface\<close> and gives base and size.\<close>

definition buffer_init :: "nat \<Rightarrow> nat \<Rightarrow> nat \<Rightarrow> world \<Rightarrow> nat \<times> world" where
  "buffer_init buft base sz w = (length w, w @ [\<lparr>bu_type = buft, bu_base = base, bu_size = sz\<rparr>])"

definition buft_alloc_buffer :: "(nat \<Rightarrow> nat \<Rightarrow> world \<Rightarrow> (nat \<times> nat) option) \<Rightarrow> nat \<Rightarrow> nat \<Rightarrow> world \<Rightarrow> nat option \<times> world" where
  "buft_alloc_buffer iface buft sz w =
     (if sz = 0 then (let (b, w) = buffer_init buft 0 0 w in (Some b, w))
      else (case iface buft sz w of
          None \<Rightarrow> (None, w)
        | Some (base, sz) \<Rightarrow> (let (b, w) = buffer_init buft base sz w in (Some b, w))))"

text \<open>\<open>te_data\<close> is an address, 0 for none.\<close>

record tensor =
  te_type :: nat
  te_buffer :: "nat option"
  te_ne :: "int list"
  te_nb :: "nat list"
  te_op :: ggml_op
  te_flags :: nat
  te_src :: "nat option list"
  te_view_src :: "nat option"
  te_view_offs :: nat
  te_data :: nat

type_synonym heap = "nat \<Rightarrow> tensor"

abbreviation (input) FLAG_INPUT :: nat where "FLAG_INPUT \<equiv> 0"
abbreviation (input) FLAG_OUTPUT :: nat where "FLAG_OUTPUT \<equiv> 1"
abbreviation (input) FLAG_PARAM :: nat where "FLAG_PARAM \<equiv> 2"

definition has_flag :: "nat \<Rightarrow> tensor \<Rightarrow> bool" where
  "has_flag k t \<longleftrightarrow> te_flags t div 2 ^ k mod 2 = 1"

definition ggml_is_view :: "tensor \<Rightarrow> bool" where
  "ggml_is_view t \<longleftrightarrow> te_view_src t \<noteq> None"

definition ggml_are_same_layout :: "tensor \<Rightarrow> tensor \<Rightarrow> bool" where
  "ggml_are_same_layout a b \<longleftrightarrow> te_type a = te_type b \<and> te_ne a = te_ne b \<and> te_nb a = te_nb b"

text \<open>The sources that are not NULL, in order.\<close>

definition srcs :: "tensor \<Rightarrow> nat list" where
  "srcs t = List.map_filter (\<lambda>s. s) (te_src t)"

text \<open>
  Attaching a tensor to its place.  The size a tensor needs in a buffer is \<open>asz\<close>, a function of the buffer's
  type; \<open>init_ok\<close> says whether the backend's own initialisation succeeds.  The results are the status and the
  heap; a failed assertion gives \<open>None\<close>.
\<close>

definition backend_tensor_alloc ::
  "(nat \<Rightarrow> tensor \<Rightarrow> nat) \<Rightarrow> (nat \<Rightarrow> tensor \<Rightarrow> bool) \<Rightarrow> world \<Rightarrow> nat \<Rightarrow> nat \<Rightarrow> nat \<Rightarrow> heap \<Rightarrow> (bool \<times> heap) option" where
  "backend_tensor_alloc asz init_ok w b t addr hp = do {
     guard (te_buffer (hp t) = None);
     guard (te_data (hp t) = 0);
     guard (te_view_src (hp t) = None);
     buf \<leftarrow> vget w b;
     base \<leftarrow> buffer_get_base buf;
     guard (base \<le> addr);
     guard (addr + asz (bu_type buf) (hp t) \<le> base + bu_size buf);
     let x = (hp t)\<lparr>te_buffer := Some b, te_data := addr\<rparr>;
     Some (init_ok b x, hp(t := x)) }"

definition backend_view_init :: "(nat \<Rightarrow> tensor \<Rightarrow> bool) \<Rightarrow> nat \<Rightarrow> heap \<Rightarrow> (bool \<times> heap) option" where
  "backend_view_init init_ok t hp = do {
     guard (te_buffer (hp t) = None);
     r \<leftarrow> te_view_src (hp t);
     b \<leftarrow> te_buffer (hp r);
     guard (te_data (hp r) \<noteq> 0);
     let x = (hp t)\<lparr>te_buffer := Some b, te_data := te_data (hp r) + te_view_offs (hp t)\<rparr>;
     Some (init_ok b x, hp(t := x)) }"

end
