(* ===== verification/GraphAlloc.thy ===== *)
theory GraphAlloc
  imports Tensor
begin

text \<open>
  \<open>ggml_gallocr\<close>, the planner of src/ggml-alloc.c.  For a graph it gives every tensor without data an
  offset in one of a number of buffers, reusing the memory of tensors that are not needed any more.

  The hash table from tensors to \<open>hash_node\<close> is a function.  Buffers of one type share an allocator:
  \<open>ga_buf_tallocs\<close> holds, for each buffer, the position of its allocator in \<open>ga_tallocs\<close>.
\<close>

record hash_node =
  hn_children :: int
  hn_views :: int
  hn_buffer :: nat
  hn_offset :: nat
  hn_allocated :: bool

definition empty_node :: hash_node where
  "empty_node = \<lparr>hn_children = 0, hn_views = 0, hn_buffer = 0, hn_offset = 0, hn_allocated = False\<rparr>"

type_synonym hash = "nat \<Rightarrow> hash_node"

definition hash_upd :: "nat \<Rightarrow> (hash_node \<Rightarrow> hash_node) \<Rightarrow> hash \<Rightarrow> hash" where
  "hash_upd t f h = h(t := f (h t))"

record tensor_alloc =
  tl_buffer :: int
  tl_offset :: nat
  tl_size_max :: nat

record node_alloc =
  na_dst :: tensor_alloc
  na_src :: "tensor_alloc list"

record gallocr =
  ga_bufts :: "nat list"
  ga_buffers :: "nat option list"
  ga_buf_tallocs :: "nat list"
  ga_tallocs :: "dyn_tallocr list"
  ga_hash :: hash
  ga_node_allocs :: "node_alloc list"
  ga_leaf_allocs :: "tensor_alloc list"

record graph =
  gr_nodes :: "nat list"
  gr_leafs :: "nat list"

text \<open>One buffer type after the other: the first with the same type shares its allocator.\<close>

definition new_buffer :: "(nat \<Rightarrow> nat) \<Rightarrow> nat list \<Rightarrow> nat \<Rightarrow> gallocr \<Rightarrow> gallocr" where
  "new_buffer alignment bufts i g =
     (case find (\<lambda>j. bufts ! i = bufts ! j) [0..<i] of
        Some j \<Rightarrow> g\<lparr>ga_buf_tallocs := ga_buf_tallocs g @ [ga_buf_tallocs g ! j]\<rparr>
      | None \<Rightarrow> g\<lparr>ga_buf_tallocs := ga_buf_tallocs g @ [length (ga_tallocs g)],
                 ga_tallocs := ga_tallocs g @ [dyn_tallocr_new (alignment (bufts ! i))]\<rparr>)"

definition ggml_gallocr_new_n :: "(nat \<Rightarrow> nat) \<Rightarrow> nat list \<Rightarrow> gallocr" where
  "ggml_gallocr_new_n alignment bufts =
     fold (new_buffer alignment bufts) [0..<length bufts]
       \<lparr>ga_bufts = bufts, ga_buffers = replicate (length bufts) None, ga_buf_tallocs = [], ga_tallocs = [],
        ga_hash = (\<lambda>_. empty_node), ga_node_allocs = [], ga_leaf_allocs = []\<rparr>"

definition is_allocated :: "heap \<Rightarrow> gallocr \<Rightarrow> nat \<Rightarrow> bool" where
  "is_allocated hp g t \<longleftrightarrow> te_data (hp t) \<noteq> 0 \<or> hn_allocated (ga_hash g t)"

subsection \<open>Placing a tensor\<close>

definition hand_over :: "nat \<Rightarrow> nat \<Rightarrow> hash \<Rightarrow> hash" where
  "hand_over n p h =
     hash_upd p (\<lambda>x. x\<lparr>hn_allocated := False\<rparr>)
       (hash_upd n (\<lambda>x. x\<lparr>hn_buffer := hn_buffer (h p), hn_offset := hn_offset (h p)\<rparr>) h)"

text \<open>The first source whose memory \<open>n\<close> can take over.\<close>

fun reuse_parent :: "heap \<Rightarrow> nat \<Rightarrow> nat option list \<Rightarrow> hash \<Rightarrow> hash option" where
  "reuse_parent hp n [] h = None"
| "reuse_parent hp n (None # ps) h = reuse_parent hp n ps h"
| "reuse_parent hp n (Some p # ps) h =
     (if \<not> hn_allocated (h p) then reuse_parent hp n ps h
      else if has_flag FLAG_OUTPUT (hp p) \<or> (case te_view_src (hp p) of Some r \<Rightarrow> has_flag FLAG_OUTPUT (hp r) | None \<Rightarrow> False)
        then reuse_parent hp n ps h
      else if \<not> ggml_are_same_layout (hp n) (hp p) then reuse_parent hp n ps h
      else if hn_children (h p) = 1 \<and> hn_views (h p) = 0 then
        (case te_view_src (hp p) of
           Some r \<Rightarrow>
             if hn_views (h r) = 1 \<and> hn_children (h r) = 0 \<and> te_data (hp r) = te_data (hp p)
             then Some (hash_upd r (\<lambda>x. x\<lparr>hn_allocated := False\<rparr>) (hand_over n p h))
             else reuse_parent hp n ps h
         | None \<Rightarrow> Some (hand_over n p h))
      else reuse_parent hp n ps h)"

definition allocate_node :: "(nat \<Rightarrow> tensor \<Rightarrow> nat) \<Rightarrow> heap \<Rightarrow> nat \<Rightarrow> int \<Rightarrow> gallocr \<Rightarrow> gallocr option" where
  "allocate_node asz hp n buffer_id g = do {
     guard (0 \<le> buffer_id);
     if \<not> is_allocated hp g n \<and> \<not> ggml_is_view (hp n) then do {
       let h = hash_upd n (\<lambda>x. x\<lparr>hn_allocated := True\<rparr>) (ga_hash g);
       (case (if ggml_op_can_inplace (te_op (hp n)) then reuse_parent hp n (te_src (hp n)) h else None) of
          Some h \<Rightarrow> Some (g\<lparr>ga_hash := h\<rparr>)
        | None \<Rightarrow> do {
            k \<leftarrow> vget (ga_buf_tallocs g) (nat buffer_id);
            a \<leftarrow> vget (ga_tallocs g) k;
            buft \<leftarrow> vget (ga_bufts g) (nat buffer_id);
            (offset, a) \<leftarrow> dyn_tallocr_alloc a (asz buft (hp n));
            Some (g\<lparr>ga_tallocs := (ga_tallocs g)[k := a],
                    ga_hash := hash_upd n (\<lambda>x. x\<lparr>hn_buffer := nat buffer_id, hn_offset := offset\<rparr>) h\<rparr>) }) }
     else Some g }"

definition free_node :: "(nat \<Rightarrow> tensor \<Rightarrow> nat) \<Rightarrow> heap \<Rightarrow> nat \<Rightarrow> gallocr \<Rightarrow> gallocr option" where
  "free_node asz hp n g =
     (if has_flag FLAG_OUTPUT (hp n) then Some g
      else do {
        let hn = ga_hash g n;
        k \<leftarrow> vget (ga_buf_tallocs g) (hn_buffer hn);
        a \<leftarrow> vget (ga_tallocs g) k;
        buft \<leftarrow> vget (ga_bufts g) (hn_buffer hn);
        a \<leftarrow> dyn_tallocr_free_tensor a (hn_offset hn) (asz buft (hp n));
        Some (g\<lparr>ga_tallocs := (ga_tallocs g)[k := a],
                ga_hash := hash_upd n (\<lambda>x. x\<lparr>hn_allocated := False\<rparr>) (ga_hash g)\<rparr>) })"

subsection \<open>The plan\<close>

definition get_node_buffer_id :: "int list option \<Rightarrow> nat \<Rightarrow> int option" where
  "get_node_buffer_id ids i = (case ids of Some xs \<Rightarrow> vget xs i | None \<Rightarrow> Some 0)"

definition alloc_leaf :: "(nat \<Rightarrow> tensor \<Rightarrow> nat) \<Rightarrow> heap \<Rightarrow> graph \<Rightarrow> int list option \<Rightarrow> nat \<Rightarrow> gallocr \<Rightarrow> gallocr option" where
  "alloc_leaf asz hp gr ids i g = do {
     leaf \<leftarrow> vget (gr_leafs gr) i;
     b \<leftarrow> get_node_buffer_id ids i;
     allocate_node asz hp leaf b g }"

definition count_src :: "(nat \<Rightarrow> tensor \<Rightarrow> nat) \<Rightarrow> heap \<Rightarrow> int list option \<Rightarrow> nat \<Rightarrow> nat \<Rightarrow> gallocr \<Rightarrow> gallocr option" where
  "count_src asz hp ids i src g = do {
     let g = g\<lparr>ga_hash := hash_upd src (\<lambda>x. x\<lparr>hn_children := hn_children x + 1\<rparr>) (ga_hash g)\<rparr>;
     if has_flag FLAG_INPUT (hp src) then do { b \<leftarrow> get_node_buffer_id ids i; allocate_node asz hp src b g }
     else Some g }"

definition count_node :: "(nat \<Rightarrow> tensor \<Rightarrow> nat) \<Rightarrow> heap \<Rightarrow> graph \<Rightarrow> int list option \<Rightarrow> nat \<Rightarrow> gallocr \<Rightarrow> gallocr option" where
  "count_node asz hp gr ids i g = do {
     node \<leftarrow> vget (gr_nodes gr) i;
     let g = (case te_view_src (hp node) of
        Some r \<Rightarrow> if te_op (hp node) \<noteq> OP_NONE
                   then g\<lparr>ga_hash := hash_upd r (\<lambda>x. x\<lparr>hn_views := hn_views x + 1\<rparr>) (ga_hash g)\<rparr> else g
      | None \<Rightarrow> g);
     g \<leftarrow> (if has_flag FLAG_INPUT (hp node) then do { b \<leftarrow> get_node_buffer_id ids i; allocate_node asz hp node b g }
           else Some g);
     foldM (count_src asz hp ids i) (srcs (hp node)) g }"

definition release_parent :: "(nat \<Rightarrow> tensor \<Rightarrow> nat) \<Rightarrow> heap \<Rightarrow> nat \<Rightarrow> gallocr \<Rightarrow> gallocr option" where
  "release_parent asz hp p g = do {
     let h = hash_upd p (\<lambda>x. x\<lparr>hn_children := hn_children x - 1\<rparr>) (ga_hash g);
     let g = g\<lparr>ga_hash := h\<rparr>;
     if hn_children (h p) = 0 \<and> hn_views (h p) = 0 then
       (case te_view_src (hp p) of
          Some r \<Rightarrow> do {
            let h = hash_upd r (\<lambda>x. x\<lparr>hn_views := hn_views x - 1\<rparr>) h;
            let g = g\<lparr>ga_hash := h\<rparr>;
            if hn_views (h r) = 0 \<and> hn_children (h r) = 0 \<and> hn_allocated (h r) then free_node asz hp r g else Some g }
        | None \<Rightarrow> if hn_allocated (h p) then free_node asz hp p g else Some g)
     else Some g }"

definition plan_node :: "(nat \<Rightarrow> tensor \<Rightarrow> nat) \<Rightarrow> heap \<Rightarrow> graph \<Rightarrow> int list option \<Rightarrow> nat \<Rightarrow> gallocr \<Rightarrow> gallocr option" where
  "plan_node asz hp gr ids i g = do {
     node \<leftarrow> vget (gr_nodes gr) i;
     b \<leftarrow> get_node_buffer_id ids i;
     g \<leftarrow> foldM (\<lambda>p. allocate_node asz hp p b) (srcs (hp node)) g;
     g \<leftarrow> allocate_node asz hp node b g;
     foldM (release_parent asz hp) (srcs (hp node)) g }"

definition alloc_graph_impl ::
  "(nat \<Rightarrow> tensor \<Rightarrow> nat) \<Rightarrow> heap \<Rightarrow> graph \<Rightarrow> int list option \<Rightarrow> int list option \<Rightarrow> gallocr \<Rightarrow> gallocr option" where
  "alloc_graph_impl asz hp gr node_ids leaf_ids g = do {
     let g = g\<lparr>ga_hash := (\<lambda>_. empty_node)\<rparr>;
     g \<leftarrow> foldM (alloc_leaf asz hp gr leaf_ids) [0..<length (gr_leafs gr)] g;
     g \<leftarrow> foldM (count_node asz hp gr node_ids) [0..<length (gr_nodes gr)] g;
     foldM (plan_node asz hp gr node_ids) [0..<length (gr_nodes gr)] g }"

end
