(* ===== verification/GraphReserve.thy ===== *)
theory GraphReserve
  imports GraphAlloc
begin

text \<open>
  The rest of \<open>ggml_gallocr\<close>: reserving buffers for a graph, the tables of its plan, the check whether a
  graph fits the last plan, and attaching its tensors to their places.
\<close>

subsection \<open>Reserving\<close>

definition no_alloc :: tensor_alloc where
  "no_alloc = \<lparr>tl_buffer = -1, tl_offset = SIZE_MAX, tl_size_max = 0\<rparr>"

definition tensor_entry :: "(nat \<Rightarrow> tensor \<Rightarrow> nat) \<Rightarrow> heap \<Rightarrow> gallocr \<Rightarrow> nat \<Rightarrow> tensor_alloc option" where
  "tensor_entry asz hp g t =
     (if te_view_src (hp t) \<noteq> None \<or> te_data (hp t) \<noteq> 0 then Some no_alloc
      else do {
        let hn = ga_hash g t;
        buft \<leftarrow> vget (ga_bufts g) (hn_buffer hn);
        Some \<lparr>tl_buffer = int (hn_buffer hn), tl_offset = hn_offset hn, tl_size_max = asz buft (hp t)\<rparr> })"

definition src_entry :: "(nat \<Rightarrow> tensor \<Rightarrow> nat) \<Rightarrow> heap \<Rightarrow> gallocr \<Rightarrow> nat option \<Rightarrow> tensor_alloc option" where
  "src_entry asz hp g s = (case s of None \<Rightarrow> Some no_alloc | Some t \<Rightarrow> tensor_entry asz hp g t)"

definition node_entry :: "(nat \<Rightarrow> tensor \<Rightarrow> nat) \<Rightarrow> heap \<Rightarrow> gallocr \<Rightarrow> nat \<Rightarrow> node_alloc option" where
  "node_entry asz hp g t = do {
     dst \<leftarrow> tensor_entry asz hp g t;
     src \<leftarrow> mapM (src_entry asz hp g) (te_src (hp t));
     Some \<lparr>na_dst = dst, na_src = src\<rparr> }"

definition reset_tallocs :: "gallocr \<Rightarrow> gallocr" where
  "reset_tallocs g = g\<lparr>ga_tallocs := fold (\<lambda>k ts. ts[k := dyn_tallocr_reset (ts ! k)]) (ga_buf_tallocs g) (ga_tallocs g)\<rparr>"

definition buffer_size :: "world \<Rightarrow> nat option \<Rightarrow> nat option" where
  "buffer_size w b = (case b of None \<Rightarrow> Some 0 | Some b \<Rightarrow> do { buf \<leftarrow> vget w b; Some (bu_size buf) })"

text \<open>Buffer \<open>i\<close>: the one that shares its allocator, or the one it has when it is large enough, or a new one.\<close>

definition realloc_buffer ::
  "(nat \<Rightarrow> nat \<Rightarrow> world \<Rightarrow> (nat \<times> nat) option) \<Rightarrow> nat \<Rightarrow> gallocr \<times> world \<Rightarrow> (bool \<times> gallocr \<times> world) option" where
  "realloc_buffer iface i = (\<lambda>(g, w). do {
     k \<leftarrow> vget (ga_buf_tallocs g) i;
     b \<leftarrow> (case find (\<lambda>j. ga_buf_tallocs g ! j = k) [0..<i] of
             Some j \<Rightarrow> vget (ga_buffers g) j | None \<Rightarrow> vget (ga_buffers g) i);
     let g = g\<lparr>ga_buffers := (ga_buffers g)[i := b]\<rparr>;
     cur_size \<leftarrow> buffer_size w b;
     a \<leftarrow> vget (ga_tallocs g) k;
     if cur_size < da_max_size a \<or> b = None then do {
       buft \<leftarrow> vget (ga_bufts g) i;
       let (b, w) = buft_alloc_buffer iface buft (da_max_size a) w;
       Some (b \<noteq> None, g\<lparr>ga_buffers := (ga_buffers g)[i := b]\<rparr>, w) }
     else Some (True, g, w) })"

fun realloc_buffers ::
  "(nat \<Rightarrow> nat \<Rightarrow> world \<Rightarrow> (nat \<times> nat) option) \<Rightarrow> nat list \<Rightarrow> gallocr \<times> world \<Rightarrow> (bool \<times> gallocr \<times> world) option" where
  "realloc_buffers iface [] (g, w) = Some (True, g, w)"
| "realloc_buffers iface (i # js) (g, w) = do {
     (ok, g, w) \<leftarrow> realloc_buffer iface i (g, w);
     if ok then realloc_buffers iface js (g, w) else Some (False, g, w) }"

definition reserve_n ::
  "(nat \<Rightarrow> tensor \<Rightarrow> nat) \<Rightarrow> (nat \<Rightarrow> nat \<Rightarrow> world \<Rightarrow> (nat \<times> nat) option) \<Rightarrow> heap \<Rightarrow> graph \<Rightarrow> int list option \<Rightarrow> int list option \<Rightarrow>
     gallocr \<times> world \<Rightarrow> (bool \<times> gallocr \<times> world) option" where
  "reserve_n asz iface hp gr node_ids leaf_ids = (\<lambda>(g, w). do {
     let g = reset_tallocs g;
     g \<leftarrow> alloc_graph_impl asz hp gr node_ids leaf_ids g;
     nodes \<leftarrow> mapM (node_entry asz hp g) (gr_nodes gr);
     leafs \<leftarrow> mapM (tensor_entry asz hp g) (gr_leafs gr);
     let g = g\<lparr>ga_node_allocs := nodes, ga_leaf_allocs := leafs\<rparr>;
     realloc_buffers iface [0..<length (ga_bufts g)] (g, w) })"

subsection \<open>Using a plan\<close>

text \<open>The name of the C function says the opposite of what it returns: true when the tensor fits.\<close>

definition node_needs_realloc :: "(nat \<Rightarrow> tensor \<Rightarrow> nat) \<Rightarrow> heap \<Rightarrow> gallocr \<Rightarrow> nat \<Rightarrow> tensor_alloc \<Rightarrow> bool option" where
  "node_needs_realloc asz hp g t ta =
     (if te_data (hp t) = 0 \<and> te_view_src (hp t) = None then
        if tl_buffer ta < 0 then Some False
        else do { buft \<leftarrow> vget (ga_bufts g) (nat (tl_buffer ta)); Some (asz buft (hp t) \<le> tl_size_max ta) }
      else Some (0 \<le> tl_size_max ta))"

definition src_fits :: "(nat \<Rightarrow> tensor \<Rightarrow> nat) \<Rightarrow> heap \<Rightarrow> gallocr \<Rightarrow> node_alloc \<Rightarrow> nat option list \<Rightarrow> nat \<Rightarrow> bool option" where
  "src_fits asz hp g na ss j = (case ss ! j of
     None \<Rightarrow> Some True
   | Some s \<Rightarrow> do { ta \<leftarrow> vget (na_src na) j; node_needs_realloc asz hp g s ta })"

definition node_fits :: "(nat \<Rightarrow> tensor \<Rightarrow> nat) \<Rightarrow> heap \<Rightarrow> graph \<Rightarrow> gallocr \<Rightarrow> nat \<Rightarrow> bool option" where
  "node_fits asz hp gr g i = do {
     node \<leftarrow> vget (gr_nodes gr) i;
     na \<leftarrow> vget (ga_node_allocs g) i;
     ok \<leftarrow> node_needs_realloc asz hp g node (na_dst na);
     if \<not> ok then Some False
     else allM (src_fits asz hp g na (te_src (hp node))) [0..<length (te_src (hp node))] }"

definition needs_realloc :: "(nat \<Rightarrow> tensor \<Rightarrow> nat) \<Rightarrow> heap \<Rightarrow> graph \<Rightarrow> gallocr \<Rightarrow> bool option" where
  "needs_realloc asz hp gr g =
     (if length (ga_node_allocs g) \<noteq> length (gr_nodes gr) then Some True
      else if length (ga_leaf_allocs g) \<noteq> length (gr_leafs gr) then Some True
      else do { ok \<leftarrow> allM (node_fits asz hp gr g) [0..<length (gr_nodes gr)]; Some (\<not> ok) })"

text \<open>The status of the backend's initialisation is not looked at.\<close>

definition init_tensor ::
  "(nat \<Rightarrow> tensor \<Rightarrow> nat) \<Rightarrow> (nat \<Rightarrow> tensor \<Rightarrow> bool) \<Rightarrow> gallocr \<Rightarrow> world \<Rightarrow> nat \<Rightarrow> tensor_alloc \<Rightarrow> heap \<Rightarrow> heap option" where
  "init_tensor asz init_ok g w t ta hp =
     (case te_view_src (hp t) of
        Some r \<Rightarrow>
          if te_buffer (hp t) = None then
            if te_buffer (hp r) = None then Some hp
            else do { (_, hp) \<leftarrow> backend_view_init init_ok t hp; Some hp }
          else Some hp
      | None \<Rightarrow>
          if te_data (hp t) = 0 then do {
            guard (0 \<le> tl_buffer ta);
            b \<leftarrow> vget (ga_buffers g) (nat (tl_buffer ta));
            b \<leftarrow> b;
            buf \<leftarrow> vget w b;
            base \<leftarrow> buffer_get_base buf;
            (_, hp) \<leftarrow> backend_tensor_alloc asz init_ok w b t (base + tl_offset ta) hp;
            Some hp }
          else Some hp)"

definition init_leaf where
  "init_leaf asz init_ok gr g w i hp = do {
     leaf \<leftarrow> vget (gr_leafs gr) i;
     ta \<leftarrow> vget (ga_leaf_allocs g) i;
     init_tensor asz init_ok g w leaf ta hp }"

definition init_src where
  "init_src asz init_ok g w na ss j hp = (case ss ! j of
     None \<Rightarrow> Some hp
   | Some s \<Rightarrow> do { ta \<leftarrow> vget (na_src na) j; init_tensor asz init_ok g w s ta hp })"

definition init_node where
  "init_node asz init_ok gr g w i hp = do {
     node \<leftarrow> vget (gr_nodes gr) i;
     na \<leftarrow> vget (ga_node_allocs g) i;
     let ss = te_src (hp node);
     hp \<leftarrow> foldM (init_src asz init_ok g w na ss) [0..<length ss] hp;
     init_tensor asz init_ok g w node (na_dst na) hp }"

definition gallocr_alloc_graph ::
  "(nat \<Rightarrow> tensor \<Rightarrow> nat) \<Rightarrow> (nat \<Rightarrow> nat \<Rightarrow> world \<Rightarrow> (nat \<times> nat) option) \<Rightarrow> (nat \<Rightarrow> tensor \<Rightarrow> bool) \<Rightarrow> graph \<Rightarrow>
     heap \<times> gallocr \<times> world \<Rightarrow> (bool \<times> heap \<times> gallocr \<times> world) option" where
  "gallocr_alloc_graph asz iface init_ok gr = (\<lambda>(hp, g, w). do {
     re \<leftarrow> needs_realloc asz hp gr g;
     (ok, g, w) \<leftarrow> (if re then if length (ga_bufts g) = 1 then reserve_n asz iface hp gr None None (g, w) else Some (False, g, w)
                  else Some (True, g, w));
     if \<not> ok then Some (False, hp, g, w)
     else do {
       hp \<leftarrow> foldM (init_leaf asz init_ok gr g w) [0..<length (gr_leafs gr)] hp;
       hp \<leftarrow> foldM (init_node asz init_ok gr g w) [0..<length (gr_nodes gr)] hp;
       Some (True, hp, g, w) } })"

definition get_buffer_size :: "gallocr \<Rightarrow> world \<Rightarrow> int \<Rightarrow> nat option" where
  "get_buffer_size g w buffer_id = do {
     guard (0 \<le> buffer_id \<and> buffer_id < int (length (ga_buffers g)));
     b \<leftarrow> vget (ga_buffers g) (nat buffer_id);
     if b = None then Some 0
     else if \<exists>i \<in> set [0..<nat buffer_id]. ga_buffers g ! i = b then Some 0
     else buffer_size w b }"

end
