(* ===== verification/RangeAlloc.thy ===== *)
theory RangeAlloc
  imports Prelude
begin

text \<open>
  The interface of an allocator of ranges, for its clients: the laws of allocating and releasing, and a
  ledger of the ranges that are in use, which allocating, releasing and handing over keep right.
\<close>

definition range_of :: "(nat \<Rightarrow> nat) \<Rightarrow> nat \<times> nat \<Rightarrow> nat set" where
  "range_of pad r = {fst r..<fst r + pad (snd r)}"

text \<open>The ranges in the ledger \<open>L\<close>, an offset and a size for each key, do not overlap.\<close>

definition ranges_apart :: "(nat \<Rightarrow> nat) \<Rightarrow> ('k \<Rightarrow> (nat \<times> nat) option) \<Rightarrow> bool" where
  "ranges_apart pad L \<longleftrightarrow> (\<forall>s t r q. s \<noteq> t \<longrightarrow> L s = Some r \<longrightarrow> L t = Some q \<longrightarrow> range_of pad r \<inter> range_of pad q = {})"

definition used_ranges :: "(nat \<Rightarrow> nat) \<Rightarrow> ('k \<Rightarrow> (nat \<times> nat) option) \<Rightarrow> nat set" where
  "used_ranges pad L = (\<Union>r \<in> ran L. range_of pad r)"

lemma ran_except:
  assumes "m t = Some r"
  shows "ran m = insert r (ran (m(t := None)))"
proof (rule set_eqI)
  fix x
  show "x \<in> ran m \<longleftrightarrow> x \<in> insert r (ran (m(t := None)))"
  proof
    assume "x \<in> ran m"
    then obtain s where "m s = Some x" by (auto simp: ran_def)
    then show "x \<in> insert r (ran (m(t := None)))" using assms by (cases "s = t") (auto simp: ran_def)
  next
    assume "x \<in> insert r (ran (m(t := None)))"
    then show "x \<in> ran m" using assms by (auto simp: ran_def split: if_splits)
  qed
qed

locale range_allocator =
  fixes ok :: "'a \<Rightarrow> bool" and free :: "'a \<Rightarrow> nat set" and pad :: "'a \<Rightarrow> nat \<Rightarrow> nat" and placed :: "'a \<Rightarrow> nat \<times> nat \<Rightarrow> bool"
    and sized :: "nat \<Rightarrow> bool" and high :: "'a \<Rightarrow> nat" and alloc :: "'a \<Rightarrow> nat \<Rightarrow> (nat \<times> 'a) option" and release :: "'a \<Rightarrow> nat \<Rightarrow> nat \<Rightarrow> 'a option"
  assumes alloc_law: "ok a \<Longrightarrow> sized n \<Longrightarrow> alloc a n = Some (off, a') \<Longrightarrow>
      ok a' \<and> pad a' = pad a \<and> placed a' = placed a \<and> placed a (off, n) \<and> range_of (pad a) (off, n) \<subseteq> free a \<and>
      free a' = free a - range_of (pad a) (off, n) \<and> high a' = max (high a) (off + pad a n)"
    and release_law: "ok a \<Longrightarrow> sized n \<Longrightarrow> placed a (off, n) \<Longrightarrow> free a \<inter> range_of (pad a) (off, n) = {} \<Longrightarrow> release a off n = Some a' \<Longrightarrow>
      ok a' \<and> pad a' = pad a \<and> placed a' = placed a \<and> free a' = free a \<union> range_of (pad a) (off, n) \<and> high a' = high a"
begin

text \<open>The ledger accounts for all of the memory \<open>U\<close> that is not free.\<close>

definition accounts :: "nat set \<Rightarrow> 'a \<Rightarrow> ('k \<Rightarrow> (nat \<times> nat) option) \<Rightarrow> bool" where
  "accounts U a L \<longleftrightarrow> ok a \<and> (\<forall>r \<in> ran L. sized (snd r) \<and> placed a r \<and> fst r + pad a (snd r) \<le> high a) \<and> ranges_apart (pad a) L \<and>
     free a \<inter> used_ranges (pad a) L = {} \<and> free a \<union> used_ranges (pad a) L = U"

lemma accounts_start: "ok a \<Longrightarrow> accounts (free a) a (\<lambda>_. None)"
  by (simp add: accounts_def ranges_apart_def used_ranges_def)

lemma accounts_empty: "accounts U a (\<lambda>_. None) \<Longrightarrow> free a = U"
  by (simp add: accounts_def used_ranges_def)

lemma accounts_range: "accounts U a L \<Longrightarrow> L t = Some r \<Longrightarrow> placed a r \<and> sized (snd r) \<and> fst r + pad a (snd r) \<le> high a"
  unfolding accounts_def by (blast intro: ranI)

lemma accounts_apart:
  "accounts U a L \<Longrightarrow> L s = Some r \<Longrightarrow> L t = Some q \<Longrightarrow> s \<noteq> t \<Longrightarrow> range_of (pad a) r \<inter> range_of (pad a) q = {}"
  unfolding accounts_def ranges_apart_def by blast

lemma accounts_alloc:
  assumes acc: "accounts U a L" and n: "sized n" and t: "L t = None" and run: "alloc a n = Some (off, a')"
  shows "accounts U a' (L(t \<mapsto> (off, n)))"
proof -
  let ?r = "range_of (pad a) (off, n)"
  have law: "ok a'" "pad a' = pad a" "placed a' = placed a" "placed a (off, n)" "?r \<subseteq> free a" "free a' = free a - ?r" "high a' = max (high a) (off + pad a n)"
    using alloc_law [OF _ n run] acc by (simp_all add: accounts_def)
  have ran: "ran (L(t \<mapsto> (off, n))) = insert (off, n) (ran L)" using t by simp
  have used: "used_ranges (pad a) (L(t \<mapsto> (off, n))) = ?r \<union> used_ranges (pad a) L" by (simp add: used_ranges_def ran)
  have apart: "?r \<inter> range_of (pad a) q = {}" if "L s = Some q" for s q
  proof -
    have "range_of (pad a) q \<subseteq> used_ranges (pad a) L" using that by (auto simp: used_ranges_def ran_def)
    then show ?thesis using law(5) acc by (auto simp: accounts_def)
  qed
  then have "ranges_apart (pad a) (L(t \<mapsto> (off, n)))" using acc apart
    by (auto simp: accounts_def ranges_apart_def split: if_splits)
  moreover have "(free a - ?r) \<inter> (?r \<union> used_ranges (pad a) L) = {}" "(free a - ?r) \<union> (?r \<union> used_ranges (pad a) L) = U"
    using law(5) acc by (auto simp: accounts_def)
  moreover have "fst q + pad a (snd q) \<le> high a'" if "q \<in> insert (off, n) (ran L)" for q
    using that acc law(7) by (fastforce simp: accounts_def)
  ultimately show ?thesis using law(1,4) acc n unfolding accounts_def law(2,3,6) used ran by simp
qed

lemma accounts_release:
  assumes acc: "accounts U a L" and t: "L t = Some (off, n)" and run: "release a off n = Some a'"
  shows "accounts U a' (L(t := None))"
proof -
  let ?r = "range_of (pad a) (off, n)"
  have tr: "(off, n) \<in> ran L" using t by (auto simp: ran_def)
  then have "?r \<subseteq> used_ranges (pad a) L" by (auto simp: used_ranges_def)
  then have "free a \<inter> ?r = {}" using acc by (auto simp: accounts_def)
  then have law: "ok a'" "pad a' = pad a" "placed a' = placed a" "free a' = free a \<union> ?r" "high a' = high a"
    using release_law [OF _ _ _ _ run] acc tr by (auto simp: accounts_def)
  have sub: "ran (L(t := None)) \<subseteq> ran L" by (auto simp: ran_def)
  have apart: "range_of (pad a) q \<inter> ?r = {}" if qr: "q \<in> ran (L(t := None))" for q
  proof -
    obtain s where "s \<noteq> t" "L s = Some q" using qr by (auto simp: ran_def split: if_splits)
    then show ?thesis using acc t unfolding accounts_def ranges_apart_def by blast
  qed
  have used: "used_ranges (pad a) L = ?r \<union> used_ranges (pad a) (L(t := None))"
  proof -
    have "ran L = insert (off, n) (ran (L(t := None)))" by (rule ran_except [where m = L, OF t])
    then show ?thesis by (simp add: used_ranges_def)
  qed
  have "used_ranges (pad a) (L(t := None)) \<inter> ?r = {}" using apart by (auto simp: used_ranges_def)
  then have "(free a \<union> ?r) \<inter> used_ranges (pad a) (L(t := None)) = {}" "(free a \<union> ?r) \<union> used_ranges (pad a) (L(t := None)) = U"
    using acc used by (auto simp: accounts_def)
  moreover have "ranges_apart (pad a) (L(t := None))" using acc by (auto simp: accounts_def ranges_apart_def)
  ultimately show ?thesis using law(1) acc sub unfolding accounts_def law(2,3,4,5) by blast
qed

text \<open>The range of one key handed over to another.\<close>

lemma accounts_move:
  assumes acc: "accounts U a L" and s: "L s = Some r" and t: "L t = None"
  shows "accounts U a (L(s := None, t \<mapsto> r))"
proof -
  have st: "s \<noteq> t" using s t by auto
  have "ran (L(s := None, t \<mapsto> r)) = insert r (ran (L(s := None)))" using t st by (simp add: fun_upd_twist)
  also have "\<dots> = ran L" by (rule ran_except [where m = L, OF s, symmetric])
  finally have "ran (L(s := None, t \<mapsto> r)) = ran L" .
  moreover have "ranges_apart (pad a) (L(s := None, t \<mapsto> r))"
    unfolding ranges_apart_def
  proof (intro allI impI)
    fix u v p q
    assume uv: "u \<noteq> v" "(L(s := None, t \<mapsto> r)) u = Some p" "(L(s := None, t \<mapsto> r)) v = Some q"
    let ?prev = "\<lambda>x. if x = t then s else x"
    have "L (?prev u) = Some p" "L (?prev v) = Some q" "?prev u \<noteq> ?prev v" using uv s st by (auto split: if_splits)
    then show "range_of (pad a) p \<inter> range_of (pad a) q = {}" using acc unfolding accounts_def ranges_apart_def by blast
  qed
  ultimately show ?thesis using acc by (simp add: accounts_def used_ranges_def)
qed

end

end
