(* ===== verification/TallocrInv.thy ===== *)
theory TallocrInv
  imports Tallocr RangeAlloc
begin

text \<open>
  \<open>ggml_dyn_tallocr\<close> is right about memory: allocating takes an aligned range out of the free set and
  freeing puts one back, and the list of blocks is the only one for its set.
\<close>

lemma block_set_less: "x \<in> block_set b \<longleftrightarrow> fb_offset b \<le> x \<and> x < fb_end b"
  by (auto simp: block_set_def)

lemma apart_trans: "apart a b \<Longrightarrow> apart b c \<Longrightarrow> apart a c"
  by (auto simp: apart_def fb_end_def)

text \<open>The free set of a list of blocks.\<close>

definition blocks_set :: "free_block list \<Rightarrow> nat set" where
  "blocks_set bs = \<Union> (block_set ` set bs)"

lemma blocks_set_simps [simp]:
  "blocks_set [] = {}" "blocks_set (b # bs) = block_set b \<union> blocks_set bs" "blocks_set (as @ bs) = blocks_set as \<union> blocks_set bs"
  by (auto simp: blocks_set_def)

lemma free_set_blocks: "free_set a = blocks_set (da_free_blocks a)"
  by (simp add: free_set_def blocks_set_def)

text \<open>What holds of each block, for an alignment and a limit.\<close>

definition block_ok :: "nat \<Rightarrow> free_block \<Rightarrow> bool" where
  "block_ok al b \<longleftrightarrow> 0 < fb_size b \<and> fb_end b \<le> SIZE_MAX div 2 \<and> al dvd fb_offset b"

definition blocks_ok :: "nat \<Rightarrow> free_block list \<Rightarrow> bool" where
  "blocks_ok al bs \<longleftrightarrow> sorted_wrt apart bs \<and> (\<forall>b \<in> set bs. block_ok al b)"

lemma tallocr_ok_blocks: "tallocr_ok a \<longleftrightarrow> 0 < da_alignment a \<and> da_alignment a < 2 ^ 32 \<and> blocks_ok (da_alignment a) (da_free_blocks a)"
  by (auto simp: tallocr_ok_def blocks_ok_def block_ok_def)

lemma blocks_ok_append:
  "blocks_ok al (xs @ b # ys) \<longleftrightarrow> blocks_ok al xs \<and> blocks_ok al ys \<and> block_ok al b \<and>
    (\<forall>x \<in> set xs. apart x b) \<and> (\<forall>y \<in> set ys. apart b y) \<and> (\<forall>x \<in> set xs. \<forall>y \<in> set ys. apart x y)"
  by (auto simp: blocks_ok_def sorted_wrt_append)

lemma blocks_ok_remove: "blocks_ok al (xs @ b # ys) \<Longrightarrow> blocks_ok al (xs @ ys)"
  by (auto simp: blocks_ok_def sorted_wrt_append)

lemma apart_disjoint: "apart a b \<Longrightarrow> block_set a \<inter> block_set b = {}"
  by (auto simp: apart_def block_set_def)

lemma apart_sets: "\<forall>x \<in> set xs. apart x b \<Longrightarrow> blocks_set xs \<inter> block_set b = {}" "\<forall>y \<in> set ys. apart b y \<Longrightarrow> block_set b \<inter> blocks_set ys = {}"
  using apart_disjoint by (fastforce simp: blocks_set_def)+

lemma split_nth: "i < length bs \<Longrightarrow> bs = take i bs @ bs ! i # drop (Suc i) bs"
  by (rule id_take_nth_drop)

subsection \<open>Allocating\<close>

lemma best_fit_inv: "fold (best_fit_step bs n) xs (None, m) = (Some i, m') \<Longrightarrow> i \<in> set xs \<and> n \<le> fb_size (bs ! i)"
proof (induction xs arbitrary: i m' rule: rev_induct)
  case (snoc x xs)
  obtain best m1 where b: "fold (best_fit_step bs n) xs (None, m) = (best, m1)" by (metis surj_pair)
  have step: "best_fit_step bs n x (best, m1) = (Some i, m')" using snoc.prems b by simp
  show ?case
  proof (cases "n \<le> fb_size (bs ! x) \<and> fb_size (bs ! x) \<le> m1")
    case True
    then show ?thesis using step by (auto simp: best_fit_step_def)
  next
    case False
    then have "best = Some i" using step by (auto simp: best_fit_step_def split: if_splits)
    then show ?thesis using snoc.IH b by simp
  qed
qed simp

lemma choose_block_fits:
  assumes "choose_block bs n = Some i"
  shows "i < length bs \<and> n \<le> fb_size (bs ! i)"
proof (cases "best_fit bs n")
  case None
  then show ?thesis using assms by (auto simp: choose_block_def last_conv_nth split: if_splits)
next
  case (Some j)
  obtain best m where b: "fold (best_fit_step bs n) [0..<length bs - 1] (None, SIZE_MAX) = (best, m)" by (metis surj_pair)
  then have "best = Some j" using Some by (simp add: best_fit_def)
  then have "j < length bs - 1 \<and> n \<le> fb_size (bs ! j)" using best_fit_inv [where xs = "[0..<length bs - 1]"] b by fastforce
  then show ?thesis using assms Some by (auto simp: choose_block_def)
qed

lemma take_front:
  assumes ok: "blocks_ok al bs" and i: "i < length bs" and n: "n \<le> fb_size (bs ! i)" "0 < n" "al dvd n"
  defines "off \<equiv> fb_offset (bs ! i)"
  defines "bs' \<equiv> if fb_size (bs ! i) - n = 0 then remove_block bs i else bs[i := \<lparr>fb_offset = off + n, fb_size = fb_size (bs ! i) - n\<rparr>]"
  shows "blocks_ok al bs' \<and> {off..<off + n} \<subseteq> blocks_set bs \<and> blocks_set bs' = blocks_set bs - {off..<off + n}"
proof -
  define xs b ys where xby: "xs = take i bs" "b = bs ! i" "ys = drop (Suc i) bs"
  have bs: "bs = xs @ b # ys" unfolding xby by (rule split_nth [OF i])
  have len: "length xs = i" using i by (simp add: xby)
  note ok' = ok [unfolded bs blocks_ok_append]
  have disj: "blocks_set xs \<inter> block_set b = {}" "block_set b \<inter> blocks_set ys = {}" using ok' apart_sets by blast+
  have range: "{off..<off + n} \<subseteq> block_set b" using n(1) by (auto simp: off_def block_set_def fb_end_def xby)
  then have sub: "{off..<off + n} \<subseteq> blocks_set bs" by (auto simp: bs)
  have rest: "blocks_set bs - {off..<off + n} = blocks_set xs \<union> (block_set b - {off..<off + n}) \<union> blocks_set ys"
    unfolding bs using disj range by auto
  show ?thesis
  proof (cases "fb_size b - n = 0")
    case True
    then have bs': "bs' = xs @ ys" by (simp add: bs'_def remove_block_def xby)
    have e: "block_set b - {off..<off + n} = {}" using True by (auto simp: block_set_def fb_end_def off_def xby)
    show ?thesis using blocks_ok_remove [OF ok [unfolded bs]] sub unfolding rest e bs' by simp
  next
    case False
    let ?b = "\<lparr>fb_offset = off + n, fb_size = fb_size b - n\<rparr>"
    have "bs' = bs[i := ?b]" using False by (simp add: bs'_def xby)
    then have bs': "bs' = xs @ ?b # ys" using len by (simp add: bs list_update_append)
    have offb: "fb_offset b = off" by (simp add: off_def xby)
    have e: "fb_end ?b = fb_end b" using False by (simp add: fb_end_def offb)
    have "block_set b - {off..<off + n} = block_set ?b" using n(1) by (auto simp: block_set_def e offb)
    moreover have "block_ok al ?b" using ok' False n(3) by (simp add: block_ok_def e offb)
    moreover have "\<forall>x \<in> set xs. apart x ?b" "\<forall>y \<in> set ys. apart ?b y" using ok' by (auto simp: apart_def e offb)
    ultimately show ?thesis using ok' sub rest unfolding bs' blocks_ok_append by (simp add: Un_assoc)
  qed
qed

lemma dyn_tallocr_alloc_free:
  assumes ok: "tallocr_ok a" and n: "0 < n" "n < 2 ^ 63" and run: "dyn_tallocr_alloc a n = Some (off, a')"
  defines "m \<equiv> aligned_offset 0 n (da_alignment a)"
  shows "tallocr_ok a' \<and> da_alignment a' = da_alignment a \<and> {off..<off + m} \<subseteq> free_set a \<and> free_set a' = free_set a - {off..<off + m} \<and>
    da_alignment a dvd off \<and> off + m \<le> SIZE_MAX div 2 \<and> da_max_size a' = max (da_max_size a) (off + m)"
proof -
  let ?bs = "da_free_blocks a" and ?al = "da_alignment a"
  have al: "0 < ?al" "?al < 2 ^ 32" "blocks_ok ?al ?bs" using ok by (simp_all add: tallocr_ok_blocks)
  have m: "0 < m" "?al dvd m" using aligned_offset_0(2,3) [OF al(1,2) n(2)] n(1) unfolding m_def by linarith+
  obtain i where i: "choose_block ?bs m = Some i" "off = fb_offset (?bs ! i)"
    "a' = a\<lparr>da_free_blocks := (if fb_size (?bs ! i) - m = 0 then remove_block ?bs i
        else ?bs[i := \<lparr>fb_offset = off + m, fb_size = fb_size (?bs ! i) - m\<rparr>]), da_max_size := max (da_max_size a) (off + m)\<rparr>"
    using run by (auto simp: dyn_tallocr_alloc_def Let_def m_def [symmetric] bind_eq_Some_conv)
  have fits: "i < length ?bs" "m \<le> fb_size (?bs ! i)" using choose_block_fits [OF i(1)] by auto
  have b: "block_ok ?al (?bs ! i)" using al(3) fits(1) by (simp add: blocks_ok_def)
  have end_le: "off + m \<le> SIZE_MAX div 2" using b fits(2) by (simp add: block_ok_def fb_end_def i(2))
  have dvd: "?al dvd off" using b by (simp add: block_ok_def i(2))
  define bs' where "bs' = (if fb_size (?bs ! i) - m = 0 then remove_block ?bs i
      else ?bs[i := \<lparr>fb_offset = off + m, fb_size = fb_size (?bs ! i) - m\<rparr>])"
  have "blocks_ok ?al bs' \<and> {off..<off + m} \<subseteq> blocks_set ?bs \<and> blocks_set bs' = blocks_set ?bs - {off..<off + m}"
    unfolding bs'_def i(2) by (rule take_front [OF al(3) fits m])
  then show ?thesis using al(1,2) dvd end_le unfolding tallocr_ok_blocks free_set_blocks i(3) bs'_def [symmetric] by simp
qed

subsection \<open>Freeing\<close>

lemma disjoint_range:
  assumes "0 < n" "0 < fb_size b" "block_set b \<inter> {off..<off + n} = {}"
  shows "fb_end b \<le> off \<or> off + n \<le> fb_offset b"
proof (rule ccontr)
  assume "\<not> ?thesis"
  then have "max off (fb_offset b) \<in> block_set b \<inter> {off..<off + n}" using assms(1,2) by (auto simp: block_set_def fb_end_def)
  then show False using assms(3) by simp
qed

text \<open>A range that fits a gap between the blocks, and putting it there.\<close>

definition gap_ok :: "nat \<Rightarrow> free_block list \<Rightarrow> nat \<Rightarrow> nat \<Rightarrow> bool" where
  "gap_ok al bs off n \<longleftrightarrow> blocks_ok al bs \<and> 0 < n \<and> al dvd n \<and> al dvd off \<and> off + n \<le> SIZE_MAX div 2 \<and>
     blocks_set bs \<inter> {off..<off + n} = {}"

definition puts_back :: "nat \<Rightarrow> free_block list \<Rightarrow> nat \<Rightarrow> nat \<Rightarrow> free_block list \<Rightarrow> bool" where
  "puts_back al bs off n bs' \<longleftrightarrow> blocks_ok al bs' \<and> blocks_set bs' = blocks_set bs \<union> {off..<off + n}"

lemma gap_side: "gap_ok al bs off n \<Longrightarrow> b \<in> set bs \<Longrightarrow> fb_end b \<le> off \<or> off + n \<le> fb_offset b"
  by (rule disjoint_range) (auto simp: gap_ok_def blocks_ok_def block_ok_def blocks_set_def)

lemma remove_next: "remove_block (xs @ a # b # ys) (length xs + 1) = xs @ a # ys"
  by (simp add: remove_block_def)

text \<open>The range is at the end of block \<open>b\<close>.\<close>

lemma put_at_end:
  assumes gap: "gap_ok al (xs @ b # ys) off n" and e: "fb_end b = off"
  shows "puts_back al (xs @ b # ys) off n (if ys \<noteq> [] \<and> off + n = fb_offset (hd ys)
    then xs @ b\<lparr>fb_size := fb_size b + n + fb_size (hd ys)\<rparr> # tl ys else xs @ b\<lparr>fb_size := fb_size b + n\<rparr> # ys)"
proof -
  have ok: "blocks_ok al (xs @ b # ys)" "off + n \<le> SIZE_MAX div 2" using gap by (simp_all add: gap_ok_def)
  note parts = ok(1) [unfolded blocks_ok_append]
  have after: "off + n \<le> fb_offset y" if y: "y \<in> set ys" for y
  proof -
    have "off < fb_offset y" using parts y e by (auto simp: apart_def)
    then show ?thesis using gap_side [OF gap, of y] y by (auto simp: fb_end_def)
  qed
  show ?thesis
  proof (cases "ys \<noteq> [] \<and> off + n = fb_offset (hd ys)")
    case True
    then obtain y zs where ys: "ys = y # zs" "fb_offset y = off + n" by (cases ys) auto
    let ?b = "b\<lparr>fb_size := fb_size b + n + fb_size y\<rparr>"
    have end_b: "fb_end ?b = fb_end y" using e ys(2) by (simp add: fb_end_def)
    have "block_set ?b = block_set b \<union> {off..<off + n} \<union> block_set y" using e ys(2) unfolding block_set_def end_b
      by (auto simp: fb_end_def)
    moreover have "blocks_ok al (xs @ ?b # zs)"
      using parts end_b unfolding ys(1) blocks_ok_append by (auto simp: blocks_ok_def block_ok_def apart_def)
    ultimately show ?thesis using True unfolding puts_back_def ys(1) by auto
  next
    case False
    let ?b = "b\<lparr>fb_size := fb_size b + n\<rparr>"
    have end_b: "fb_end ?b = off + n" using e by (simp add: fb_end_def)
    have "block_set ?b = block_set b \<union> {off..<off + n}" using e unfolding block_set_def end_b by (auto simp: fb_end_def)
    moreover have "apart ?b y" if y: "y \<in> set ys" for y
    proof -
      have "fb_offset y \<noteq> off + n"
      proof (cases "y = hd ys")
        case True
        then show ?thesis using False y by auto
      next
        case False
        then obtain h zs where ys: "ys = h # zs" "y \<in> set zs" using y by (cases ys) auto
        then have "apart h y" "0 < fb_size h" using parts by (auto simp: blocks_ok_def block_ok_def)
        then show ?thesis using after [of h] ys by (auto simp: apart_def fb_end_def)
      qed
      then show ?thesis using after [OF y] end_b by (simp add: apart_def)
    qed
    moreover have "block_ok al ?b" using parts ok(2) end_b by (simp add: block_ok_def)
    moreover have "\<forall>x \<in> set xs. apart x ?b" using parts by (simp add: apart_def)
    ultimately have "blocks_ok al (xs @ ?b # ys)" "blocks_set (xs @ ?b # ys) = blocks_set (xs @ b # ys) \<union> {off..<off + n}"
      using parts unfolding blocks_ok_append by auto
    then show ?thesis using False unfolding puts_back_def by auto
  qed
qed

text \<open>The range is at the beginning of block \<open>b\<close>, and no earlier block ends where it begins.\<close>

lemma put_at_start:
  assumes gap: "gap_ok al (xs @ b # ys) off n" and e: "off + n = fb_offset b" and no: "\<forall>x \<in> set xs. fb_end x \<noteq> off"
  shows "puts_back al (xs @ b # ys) off n (xs @ \<lparr>fb_offset = off, fb_size = fb_size b + n\<rparr> # ys)"
proof -
  let ?b = "\<lparr>fb_offset = off, fb_size = fb_size b + n\<rparr>"
  have ok: "blocks_ok al (xs @ b # ys)" "al dvd off" using gap by (simp_all add: gap_ok_def)
  note parts = ok(1) [unfolded blocks_ok_append]
  have end_b: "fb_end ?b = fb_end b" using e by (simp add: fb_end_def)
  have "apart x ?b" if x: "x \<in> set xs" for x
  proof -
    have "fb_end x < off + n" "0 < fb_size x" using parts x e by (auto simp: apart_def blocks_ok_def block_ok_def)
    then have "fb_end x \<le> off" using gap_side [OF gap, of x] x by (auto simp: fb_end_def)
    then show ?thesis using no x by (auto simp: apart_def le_less)
  qed
  moreover have "block_set ?b = block_set b \<union> {off..<off + n}" using e unfolding block_set_def end_b by (auto simp: fb_end_def)
  moreover have "block_ok al ?b" using parts ok(2) end_b by (simp add: block_ok_def)
  moreover have "\<forall>y \<in> set ys. apart ?b y" using parts end_b by (simp add: apart_def)
  ultimately show ?thesis using parts unfolding puts_back_def blocks_ok_append by auto
qed

text \<open>The range touches no block.\<close>

lemma put_between:
  assumes gap: "gap_ok al bs off n" and no: "\<forall>b \<in> set bs. fb_end b \<noteq> off \<and> off + n \<noteq> fb_offset b"
  shows "puts_back al bs off n (insert_block bs off n)"
proof -
  define xs ys where xy: "xs = takeWhile (\<lambda>b. fb_offset b < off) bs" "ys = dropWhile (\<lambda>b. fb_offset b < off) bs"
  have bs: "bs = xs @ ys" by (simp add: xy)
  have ins: "insert_block bs off n = xs @ \<lparr>fb_offset = off, fb_size = n\<rparr> # ys"
    by (simp add: insert_block_def xy takeWhile_eq_take [symmetric] dropWhile_eq_drop [symmetric])
  have ok: "blocks_ok al bs" "0 < n" "al dvd off" "off + n \<le> SIZE_MAX div 2" using gap by (simp_all add: gap_ok_def)
  have pos: "0 < fb_size b" if "b \<in> set bs" for b using ok(1) that by (simp add: blocks_ok_def block_ok_def)
  have before: "apart x \<lparr>fb_offset = off, fb_size = n\<rparr>" if x: "x \<in> set xs" for x
  proof -
    have "fb_offset x < off" "x \<in> set bs" using x by (auto simp: xy dest: set_takeWhileD)
    then show ?thesis using gap_side [OF gap, of x] no ok(2) by (fastforce simp: apart_def)
  qed
  have first: "off \<le> fb_offset (hd ys)" if "ys \<noteq> []" using that hd_dropWhile [of "\<lambda>b. fb_offset b < off" bs] by (auto simp: xy)
  have after: "apart \<lparr>fb_offset = off, fb_size = n\<rparr> y" if y: "y \<in> set ys" for y
  proof -
    obtain h zs where ys: "ys = h # zs" using y by (cases ys) auto
    have "off \<le> fb_offset h" using first by (simp add: ys)
    moreover have "y = h \<or> apart h y" using ok(1) y by (auto simp: bs ys blocks_ok_def sorted_wrt_append)
    ultimately have "off \<le> fb_offset y" by (auto simp: apart_def fb_end_def)
    moreover have yb: "y \<in> set bs" using y by (simp add: bs)
    ultimately show ?thesis using gap_side [OF gap yb] pos [OF yb] no yb ok(2) by (fastforce simp: apart_def fb_end_def)
  qed
  have "\<forall>x \<in> set xs. \<forall>y \<in> set ys. apart x y" "blocks_ok al xs" "blocks_ok al ys"
    using ok(1) by (auto simp: bs blocks_ok_def sorted_wrt_append)
  moreover have "block_ok al \<lparr>fb_offset = off, fb_size = n\<rparr>" using ok by (simp add: block_ok_def fb_end_def)
  moreover have "block_set \<lparr>fb_offset = off, fb_size = n\<rparr> = {off..<off + n}" by (simp add: block_set_def fb_end_def)
  moreover have "blocks_set bs = blocks_set xs \<union> blocks_set ys" by (subst bs) simp
  ultimately show ?thesis unfolding puts_back_def ins blocks_ok_append using before after by auto
qed

text \<open>The loop over the blocks, and the insertion when nothing merges.\<close>

lemma merge_at_None: "merge_at bs off n i = None \<longleftrightarrow> fb_end (bs ! i) \<noteq> off \<and> off + n \<noteq> fb_offset (bs ! i)"
  by (simp add: merge_at_def Let_def fb_end_def)

lemma merge_at_Some:
  assumes gap: "gap_ok al bs off n" and i: "i < length bs" and no: "\<forall>j < i. merge_at bs off n j = None" and run: "merge_at bs off n i = Some bs'"
  shows "puts_back al bs off n bs'"
proof -
  define xs b ys where xby: "xs = take i bs" "b = bs ! i" "ys = drop (Suc i) bs"
  have bs: "bs = xs @ b # ys" unfolding xby by (rule split_nth [OF i])
  have len: "length xs = i" using i by (simp add: xby)
  have nth: "bs ! i = b" "bs[i := c] = xs @ c # ys" for c using len by (simp_all add: bs list_update_append nth_append)
  have last: "i < length bs - 1 \<longleftrightarrow> ys \<noteq> []" using len by (auto simp: bs)
  have next_b: "bs ! (i + 1) = hd ys" if "ys \<noteq> []" using that len by (cases ys) (auto simp: bs nth_append)
  show ?thesis
  proof (cases "fb_end b = off")
    case True
    have "bs' = (if ys \<noteq> [] \<and> off + n = fb_offset (hd ys)
      then xs @ b\<lparr>fb_size := fb_size b + n + fb_size (hd ys)\<rparr> # tl ys else xs @ b\<lparr>fb_size := fb_size b + n\<rparr> # ys)"
    proof (cases "ys \<noteq> [] \<and> off + n = fb_offset (hd ys)")
      case t: True
      then have "bs' = remove_block (xs @ b\<lparr>fb_size := fb_size b + n + fb_size (hd ys)\<rparr> # hd ys # tl ys) (i + 1)"
        using run True last next_b nth by (auto simp: merge_at_def Let_def fb_end_def)
      then show ?thesis using t len remove_next [of xs _ "hd ys" "tl ys"] by simp
    next
      case f: False
      then show ?thesis using run True last next_b nth by (auto simp: merge_at_def Let_def fb_end_def)
    qed
    then show ?thesis using put_at_end [OF gap [unfolded bs] True] bs by simp
  next
    case False
    then have start: "off + n = fb_offset b" using run nth(1) by (auto simp: merge_at_def Let_def fb_end_def split: if_splits)
    have none: "fb_end x \<noteq> off" if x: "x \<in> set xs" for x
    proof -
      obtain j where "j < i" "x = bs ! j" using x len by (auto simp: in_set_conv_nth bs nth_append)
      then show ?thesis using no merge_at_None by blast
    qed
    have "\<not> (0 < i \<and> fb_end (bs ! (i - 1)) = off)" using no merge_at_None [of bs off n "i - 1"] by auto
    then have "bs' = bs[i := \<lparr>fb_offset = off, fb_size = fb_size b + n\<rparr>]"
      using run False start nth(1) by (auto simp: merge_at_def Let_def fb_end_def)
    then show ?thesis using put_at_start [OF gap [unfolded bs] start] none nth(2) bs by simp
  qed
qed

lemma first_merge_puts:
  assumes gap: "gap_ok al bs off n"
  shows "case first_merge bs off n [0..<length bs] of Some bs' \<Rightarrow> puts_back al bs off n bs' | None \<Rightarrow> puts_back al bs off n (insert_block bs off n)"
proof -
  have "case first_merge bs off n [i..<length bs] of Some bs' \<Rightarrow> puts_back al bs off n bs' | None \<Rightarrow> puts_back al bs off n (insert_block bs off n)"
    if "i \<le> length bs" "\<forall>j < i. merge_at bs off n j = None" for i
    using that
  proof (induction "length bs - i" arbitrary: i)
    case 0
    then have "\<forall>b \<in> set bs. fb_end b \<noteq> off \<and> off + n \<noteq> fb_offset b" by (auto simp: in_set_conv_nth merge_at_None)
    then show ?case using 0 put_between [OF gap] by simp
  next
    case (Suc k)
    then have i: "i < length bs" by simp
    show ?case
    proof (cases "merge_at bs off n i")
      case None
      then have "\<forall>j < Suc i. merge_at bs off n j = None" using Suc.prems by (auto simp: less_Suc_eq)
      then show ?thesis using Suc.hyps(1) [of "Suc i"] Suc.hyps(2) i None by (simp add: upt_conv_Cons)
    next
      case (Some bs')
      then show ?thesis using merge_at_Some [OF gap i Suc.prems(2) Some] i by (simp add: upt_conv_Cons)
    qed
  qed
  from this [of 0] show ?thesis by simp
qed

lemma dyn_tallocr_free_tensor_free:
  assumes ok: "tallocr_ok a" and n: "0 < n" "n < 2 ^ 63" and off: "da_alignment a dvd off"
    and m: "m = aligned_offset 0 n (da_alignment a)" and end_le: "off + m \<le> SIZE_MAX div 2" and used: "free_set a \<inter> {off..<off + m} = {}"
    and run: "dyn_tallocr_free_tensor a off n = Some a'"
  shows "tallocr_ok a' \<and> da_alignment a' = da_alignment a \<and> free_set a' = free_set a \<union> {off..<off + m} \<and> da_max_size a' = da_max_size a"
proof -
  let ?bs = "da_free_blocks a" and ?al = "da_alignment a"
  have al: "0 < ?al" "?al < 2 ^ 32" "blocks_ok ?al ?bs" using ok by (simp_all add: tallocr_ok_blocks)
  have mm: "0 < m" "?al dvd m" using aligned_offset_0(2,3) [OF al(1,2) n(2)] n(1) unfolding m by linarith+
  have gap: "gap_ok ?al ?bs off m" using al(3) mm off end_le used by (simp add: gap_ok_def free_set_blocks)
  obtain bs' where bs': "puts_back ?al ?bs off m bs'" "a' = a\<lparr>da_free_blocks := bs'\<rparr>"
  proof (cases "first_merge ?bs off m [0..<length ?bs]")
    case None
    then have "a' = a\<lparr>da_free_blocks := insert_block ?bs off m\<rparr>" using run by (auto simp: dyn_tallocr_free_tensor_def Let_def m)
    then show thesis using that first_merge_puts [OF gap] None by simp
  next
    case (Some bs')
    then have "a' = a\<lparr>da_free_blocks := bs'\<rparr>" using run by (auto simp: dyn_tallocr_free_tensor_def Let_def m)
    then show thesis using that first_merge_puts [OF gap] Some by simp
  qed
  then show ?thesis using al by (simp add: puts_back_def tallocr_ok_blocks free_set_blocks)
qed

subsection \<open>One list of blocks for each free set\<close>

lemma first_block:
  assumes ok: "blocks_ok al (b # bs)"
  shows "fb_offset b \<in> blocks_set (b # bs)" and "x \<in> blocks_set (b # bs) \<Longrightarrow> fb_offset b \<le> x"
    and "fb_end b \<notin> blocks_set (b # bs)" and "x \<in> blocks_set bs \<Longrightarrow> fb_end b < x"
proof -
  have b: "block_ok al b" "\<forall>c \<in> set bs. apart b c" using ok blocks_ok_append [of al "[]"] by auto
  have later: "fb_end b < x" if "x \<in> blocks_set bs" for x using that b(2) by (fastforce simp: blocks_set_def block_set_def apart_def)
  then show "x \<in> blocks_set bs \<Longrightarrow> fb_end b < x" .
  show "fb_offset b \<in> blocks_set (b # bs)" using b(1) by (simp add: block_set_def fb_end_def block_ok_def)
  show "x \<in> blocks_set (b # bs) \<Longrightarrow> fb_offset b \<le> x" using later [of x] by (auto simp: block_set_def fb_end_def)
  show "fb_end b \<notin> blocks_set (b # bs)" using later by (auto simp: block_set_def)
qed

lemma blocks_ok_Cons: "blocks_ok al (b # bs) \<Longrightarrow> block_ok al b \<and> blocks_ok al bs"
  by (simp add: blocks_ok_def)

lemma same_first:
  assumes ok: "blocks_ok al (b # bs)" "blocks_ok al (c # cs)" and eq: "blocks_set (b # bs) = blocks_set (c # cs)"
  shows "b = c"
proof -
  have "fb_offset c \<le> fb_offset b" using first_block(1) [OF ok(1)] first_block(2) [OF ok(2)] unfolding eq by blast
  moreover have "fb_offset b \<le> fb_offset c" using first_block(1) [OF ok(2)] first_block(2) [OF ok(1)] unfolding eq by blast
  ultimately have off: "fb_offset b = fb_offset c" by simp
  have pos: "0 < fb_size b" "0 < fb_size c" using ok by (simp_all add: blocks_ok_def block_ok_def)
  have "fb_end b \<notin> block_set c" using first_block(3) [OF ok(1)] unfolding eq by simp
  moreover have "fb_end c \<notin> block_set b" using first_block(3) [OF ok(2)] unfolding eq [symmetric] by simp
  ultimately have "fb_end b = fb_end c" using off pos by (auto simp: block_set_def fb_end_def)
  then show ?thesis using off by (simp add: fb_end_def)
qed

lemma blocks_unique: "blocks_ok al bs \<Longrightarrow> blocks_ok al cs \<Longrightarrow> blocks_set bs = blocks_set cs \<Longrightarrow> bs = cs"
proof (induction bs arbitrary: cs)
  case Nil
  have "cs = []"
  proof (rule ccontr)
    assume "cs \<noteq> []"
    then obtain c ds where "cs = c # ds" by (cases cs) auto
    then show False using first_block(1) [of al c ds] Nil by simp
  qed
  then show ?case by simp
next
  case (Cons b bs)
  have "cs \<noteq> []" using first_block(1) [OF Cons.prems(1)] Cons.prems(3) by auto
  then obtain c ds where cs: "cs = c # ds" by (cases cs) auto
  have bc: "b = c" using same_first [OF Cons.prems(1)] Cons.prems(2,3) by (simp add: cs)
  have rest: "blocks_set xs = blocks_set (b # xs) - block_set b" if "blocks_ok al (b # xs)" for xs
    using first_block(4) [OF that] by (fastforce simp: block_set_def)
  have "blocks_set bs = blocks_set ds" using rest [OF Cons.prems(1)] rest [of ds] Cons.prems(2,3) by (simp add: cs bc)
  then show ?case using Cons.IH [of ds] Cons.prems(1,2) blocks_ok_Cons by (simp add: cs bc)
qed

lemma tallocr_unique:
  assumes "tallocr_ok a" "tallocr_ok b" "da_alignment a = da_alignment b" "free_set a = free_set b" "da_max_size a = da_max_size b"
  shows "a = b"
proof -
  have "da_free_blocks a = da_free_blocks b"
    using assms blocks_unique [of "da_alignment a"] by (simp add: tallocr_ok_blocks free_set_blocks)
  then show ?thesis using assms(3,5) by simp
qed

subsection \<open>The interface\<close>

definition da_pad :: "dyn_tallocr \<Rightarrow> nat \<Rightarrow> nat" where
  "da_pad a n = aligned_offset 0 n (da_alignment a)"

definition da_placed :: "dyn_tallocr \<Rightarrow> nat \<times> nat \<Rightarrow> bool" where
  "da_placed a r \<longleftrightarrow> da_alignment a dvd fst r \<and> fst r + da_pad a (snd r) \<le> SIZE_MAX div 2"

definition da_sized :: "nat \<Rightarrow> bool" where
  "da_sized n \<longleftrightarrow> 0 < n \<and> n < 2 ^ 63"

lemma da_pad_cong: "da_alignment a' = da_alignment a \<Longrightarrow> da_pad a' = da_pad a \<and> da_placed a' = da_placed a"
  by (auto simp: da_pad_def [abs_def] da_placed_def [abs_def])

interpretation da: range_allocator tallocr_ok free_set da_pad da_placed da_sized da_max_size dyn_tallocr_alloc dyn_tallocr_free_tensor
proof
  fix a n off a'
  assume a: "tallocr_ok a" "da_sized n" "dyn_tallocr_alloc a n = Some (off, a')"
  note law = dyn_tallocr_alloc_free [OF a(1) _ _ a(3)]
  show "tallocr_ok a' \<and> da_pad a' = da_pad a \<and> da_placed a' = da_placed a \<and> da_placed a (off, n) \<and>
      range_of (da_pad a) (off, n) \<subseteq> free_set a \<and> free_set a' = free_set a - range_of (da_pad a) (off, n) \<and>
      da_max_size a' = max (da_max_size a) (off + da_pad a n)"
    using law a(2) da_pad_cong [of a' a] by (simp add: da_sized_def range_of_def da_placed_def da_pad_def)
next
  fix a n off a'
  assume a: "tallocr_ok a" "da_sized n" "da_placed a (off, n)" "free_set a \<inter> range_of (da_pad a) (off, n) = {}"
    "dyn_tallocr_free_tensor a off n = Some a'"
  note law = dyn_tallocr_free_tensor_free [OF a(1) _ _ _ refl _ _ a(5)]
  show "tallocr_ok a' \<and> da_pad a' = da_pad a \<and> da_placed a' = da_placed a \<and>
      free_set a' = free_set a \<union> range_of (da_pad a) (off, n) \<and> da_max_size a' = da_max_size a"
    using law a(2,3,4) da_pad_cong [of a' a] by (simp add: da_sized_def range_of_def da_placed_def da_pad_def)
qed

lemma dyn_tallocr_new_ok:
  assumes "0 < al" "al < 2 ^ 32"
  shows "tallocr_ok (dyn_tallocr_new al)" and "free_set (dyn_tallocr_new al) = {0..<SIZE_MAX div 2}"
  using assms by (simp_all add: dyn_tallocr_new_def dyn_tallocr_reset_def tallocr_ok_def free_set_def block_set_def fb_end_def SIZE_MAX_def)

text \<open>
  Runs of \<open>ggml_dyn_tallocr\<close>: requests to allocate and to free, with a ledger of what is in use.
\<close>

datatype request = Allocate nat nat | Free nat

text \<open>A key is in use at most once, and only what is in use is freed.\<close>

fun serve :: "request \<Rightarrow> dyn_tallocr \<times> (nat \<Rightarrow> (nat \<times> nat) option) \<Rightarrow> (dyn_tallocr \<times> (nat \<Rightarrow> (nat \<times> nat) option)) option" where
  "serve (Allocate k n) (a, L) = do {
     guard (L k = None);
     (off, a) \<leftarrow> dyn_tallocr_alloc a n;
     Some (a, L(k \<mapsto> (off, n))) }"
| "serve (Free k) (a, L) = do {
     (off, n) \<leftarrow> L k;
     a \<leftarrow> dyn_tallocr_free_tensor a off n;
     Some (a, L(k := None)) }"

definition request_ok :: "request \<Rightarrow> bool" where
  "request_ok r \<longleftrightarrow> (case r of Allocate k n \<Rightarrow> 0 < n \<and> n < 2 ^ 63 | Free k \<Rightarrow> True)"

definition serve_inv :: "nat \<Rightarrow> dyn_tallocr \<times> (nat \<Rightarrow> (nat \<times> nat) option) \<Rightarrow> bool" where
  "serve_inv al = (\<lambda>(a, L). da.accounts {0..<SIZE_MAX div 2} a L \<and> da_alignment a = al \<and> finite (dom L))"

lemma serve_inv_step:
  assumes inv: "serve_inv al s" and r: "request_ok r" and run: "serve r s = Some s'"
  shows "serve_inv al s'"
proof (cases s; cases r)
  fix a L k n
  assume s: "s = (a, L)" "r = Allocate k n"
  then obtain off a' where st: "L k = None" "dyn_tallocr_alloc a n = Some (off, a')" "s' = (a', L(k \<mapsto> (off, n)))"
    using run by (auto simp: bind_eq_Some_conv)
  have "da.accounts {0..<SIZE_MAX div 2} a' (L(k \<mapsto> (off, n)))"
  proof (rule da.accounts_alloc [where L = L, OF _ _ st(1,2)])
    show "da.accounts {0..<SIZE_MAX div 2} a L" using inv s by (simp add: serve_inv_def)
    show "da_sized n" using r s by (simp add: request_ok_def da_sized_def)
  qed
  moreover have "da_alignment a' = da_alignment a" using st(2) by (auto simp: dyn_tallocr_alloc_def Let_def bind_eq_Some_conv)
  ultimately show ?thesis using inv s st(3) by (simp add: serve_inv_def)
next
  fix a L k
  assume s: "s = (a, L)" "r = Free k"
  then obtain off n a' where st: "L k = Some (off, n)" "dyn_tallocr_free_tensor a off n = Some a'" "s' = (a', L(k := None))"
    using run by (auto simp: bind_eq_Some_conv)
  have "da.accounts {0..<SIZE_MAX div 2} a' (L(k := None))"
    by (rule da.accounts_release [where L = L, OF _ st(1,2)]) (use inv s in \<open>simp add: serve_inv_def\<close>)
  moreover have "da_alignment a' = da_alignment a"
    using st(2) by (auto simp: dyn_tallocr_free_tensor_def Let_def bind_eq_Some_conv split: option.splits)
  ultimately show ?thesis using inv s st(3) by (simp add: serve_inv_def)
qed

lemma serve_inv_run:
  assumes run: "foldM serve rs (dyn_tallocr_new al, \<lambda>_. None) = Some s" and rs: "\<forall>r \<in> set rs. request_ok r" and al: "0 < al" "al < 2 ^ 32"
  shows "serve_inv al s"
proof (rule foldM_invar [where P = "serve_inv al", OF run])
  have "da.accounts (free_set (dyn_tallocr_new al)) (dyn_tallocr_new al) (\<lambda>_ :: nat. None)"
    by (rule da.accounts_start [OF dyn_tallocr_new_ok(1) [OF al]])
  then show "serve_inv al (dyn_tallocr_new al, \<lambda>_. None)"
    using dyn_tallocr_new_ok(2) [OF al] by (simp add: serve_inv_def) (simp add: dyn_tallocr_new_def dyn_tallocr_reset_def)
  show "serve_inv al t'" if "r \<in> set rs" "serve_inv al t" "serve r t = Some t'" for r t t'
    using serve_inv_step [OF that(2) _ that(3)] rs that(1) by blast
qed

text \<open>Between any two free blocks there is memory in use, so there are at most as many blocks as ranges, and one more.\<close>

lemma few_blocks:
  assumes acc: "da.accounts {0..<SIZE_MAX div 2} a L" and fin: "finite (dom L)"
  shows "length (da_free_blocks a) \<le> Suc (card (dom L))"
proof -
  let ?bs = "da_free_blocks a"
  let ?R = "\<lambda>k. range_of (da_pad a) (the (L k))"
  have ok: "blocks_ok (da_alignment a) ?bs" and U: "blocks_set ?bs \<inter> used_ranges (da_pad a) L = {}" "blocks_set ?bs \<union> used_ranges (da_pad a) L = {0..<SIZE_MAX div 2}"
    using acc by (simp_all add: da.accounts_def tallocr_ok_blocks free_set_blocks)
  have ordered: "fb_end (?bs ! i) < fb_offset (?bs ! j)" if "i < j" "j < length ?bs" for i j
    using ok that by (simp add: blocks_ok_def sorted_wrt_iff_nth_less apart_def)
  have pos: "fb_offset (?bs ! j) < fb_end (?bs ! j)" "fb_end (?bs ! j) \<le> SIZE_MAX div 2" if "j < length ?bs" for j
    using ok that by (auto simp: blocks_ok_def block_ok_def fb_end_def)
  have gap: "\<exists>k \<in> dom L. fb_end (?bs ! i) \<in> ?R k" if i: "Suc i < length ?bs" for i
  proof -
    have no: "fb_end (?bs ! i) \<notin> block_set b" if in_bs: "b \<in> set ?bs" for b
    proof -
      obtain j where j: "j < length ?bs" "b = ?bs ! j" using in_bs by (auto simp: in_set_conv_nth)
      consider "j < i" | "j = i" | "i < j" by linarith
      then show ?thesis
        using ordered [of j i] ordered [of i j] pos [of i] j i by cases (auto simp: block_set_def)
    qed
    then have "fb_end (?bs ! i) \<notin> blocks_set ?bs" by (simp add: blocks_set_def)
    moreover have "fb_end (?bs ! i) < SIZE_MAX div 2" using ordered [of i "Suc i"] pos [of "Suc i"] i by simp
    ultimately have "fb_end (?bs ! i) \<in> used_ranges (da_pad a) L" using U(2) by (metis Un_iff atLeastLessThan_iff zero_le)
    then show ?thesis by (force simp: used_ranges_def ran_def)
  qed
  then obtain f where f: "\<And>i. Suc i < length ?bs \<Longrightarrow> f i \<in> dom L \<and> fb_end (?bs ! i) \<in> ?R (f i)" by metis
  have "inj_on f {..<length ?bs - 1}"
  proof (rule linorder_inj_onI')
    fix i j
    assume ij: "i \<in> {..<length ?bs - 1}" "j \<in> {..<length ?bs - 1}" "i < j"
    show "f i \<noteq> f j"
    proof
      assume "f i = f j"
      then have both: "fb_end (?bs ! i) \<in> ?R (f j)" "fb_end (?bs ! j) \<in> ?R (f j)" "f j \<in> dom L" using f [of i] f [of j] ij by auto
      have "fb_end (?bs ! i) < fb_offset (?bs ! j)" "fb_offset (?bs ! j) < fb_end (?bs ! j)" using ordered [of i j] pos [of j] ij by auto
      then have "fb_offset (?bs ! j) \<in> ?R (f j)" using both(1,2) by (auto simp: range_of_def)
      moreover have "fb_offset (?bs ! j) \<in> blocks_set ?bs" using pos(1) [of j] ij by (auto simp: blocks_set_def block_set_def)
      moreover have "?R (f j) \<subseteq> used_ranges (da_pad a) L" using both(3) by (auto simp: used_ranges_def ran_def)
      ultimately show False using U(1) by blast
    qed
  qed
  moreover have "f ` {..<length ?bs - 1} \<subseteq> dom L"
  proof (rule image_subsetI)
    fix i
    assume "i \<in> {..<length ?bs - 1}"
    then show "f i \<in> dom L" using f [of i] by simp
  qed
  ultimately have "card {..<length ?bs - 1} \<le> card (dom L)" by (rule card_inj_on_le [OF _ _ fin])
  then show ?thesis by simp
qed

text \<open>Freeing never runs out of blocks while fewer than \<open>MAX_FREE_BLOCKS - 1\<close> ranges are in use.\<close>

lemma free_returns:
  assumes "length (da_free_blocks a) < MAX_FREE_BLOCKS"
  shows "\<exists>a'. dyn_tallocr_free_tensor a off n = Some a'"
  using assms by (auto simp: dyn_tallocr_free_tensor_def Let_def split: option.splits)

end
