(* ===== verification/GraphPlan.thy ===== *)
theory GraphPlan
  imports GraphAlloc TallocrInv
begin

text \<open>
  The ledger of the planner: the ranges of the tensors that are marked as allocated, allocator by allocator,
  account for all the memory that is not free.  Placing a tensor, taking over the memory of a parent and
  freeing keep it right.
\<close>

text \<open>A tensor the planner has to place.\<close>

definition planned :: "tensor \<Rightarrow> bool" where
  "planned t \<longleftrightarrow> te_view_src t = None \<and> te_data t = 0"

definition sizes_ok :: "(nat \<Rightarrow> tensor \<Rightarrow> nat) \<Rightarrow> heap \<Rightarrow> bool" where
  "sizes_ok asz hp \<longleftrightarrow> (\<forall>b t. planned (hp t) \<longrightarrow> da_sized (asz b (hp t))) \<and>
     (\<forall>b s t. ggml_are_same_layout (hp s) (hp t) \<longrightarrow> asz b (hp s) = asz b (hp t))"

definition ledger :: "(nat \<Rightarrow> tensor \<Rightarrow> nat) \<Rightarrow> heap \<Rightarrow> gallocr \<Rightarrow> nat \<Rightarrow> nat \<Rightarrow> (nat \<times> nat) option" where
  "ledger asz hp g k t =
     (let x = ga_hash g t in
      if hn_allocated x \<and> ga_buf_tallocs g ! hn_buffer x = k
      then Some (hn_offset x, asz (ga_bufts g ! hn_buffer x) (hp t)) else None)"

definition gallocr_ok :: "gallocr \<Rightarrow> bool" where
  "gallocr_ok g \<longleftrightarrow> length (ga_buf_tallocs g) = length (ga_bufts g) \<and> (\<forall>k \<in> set (ga_buf_tallocs g). k < length (ga_tallocs g))"

definition ledger_ok :: "(nat \<Rightarrow> tensor \<Rightarrow> nat) \<Rightarrow> heap \<Rightarrow> gallocr \<Rightarrow> bool" where
  "ledger_ok asz hp g \<longleftrightarrow> gallocr_ok g \<and>
     (\<forall>t. hn_allocated (ga_hash g t) \<longrightarrow> planned (hp t) \<and> hn_buffer (ga_hash g t) < length (ga_bufts g)) \<and>
     (\<forall>k < length (ga_tallocs g). da.accounts {0..<SIZE_MAX div 2} (ga_tallocs g ! k) (ledger asz hp g k))"

lemma ledger_Some:
  "ledger asz hp g k t = Some r \<longleftrightarrow> hn_allocated (ga_hash g t) \<and> ga_buf_tallocs g ! hn_buffer (ga_hash g t) = k \<and>
     r = (hn_offset (ga_hash g t), asz (ga_bufts g ! hn_buffer (ga_hash g t)) (hp t))"
  by (auto simp: ledger_def Let_def)

lemma ledger_None: "\<not> hn_allocated (ga_hash g t) \<Longrightarrow> ledger asz hp g k t = None"
  by (simp add: ledger_def)

lemma hash_upd_apply: "hash_upd t f h s = (if s = t then f (h t) else h s)"
  by (simp add: hash_upd_def)

text \<open>Changing the counters only.\<close>

definition same_places :: "hash \<Rightarrow> hash \<Rightarrow> bool" where
  "same_places h h' \<longleftrightarrow> (\<forall>t. hn_allocated (h' t) = hn_allocated (h t) \<and> hn_buffer (h' t) = hn_buffer (h t) \<and> hn_offset (h' t) = hn_offset (h t))"

lemma same_places_upd [simp]:
  "same_places h (hash_upd t (\<lambda>x. x\<lparr>hn_children := f x\<rparr>) h)" "same_places h (hash_upd t (\<lambda>x. x\<lparr>hn_views := f x\<rparr>) h)"
  by (auto simp: same_places_def hash_upd_def)

lemma ledger_same:
  assumes "same_places (ga_hash g) h"
  shows "ledger asz hp (g\<lparr>ga_hash := h\<rparr>) k = ledger asz hp g k"
  using assms by (auto simp: ledger_def same_places_def Let_def)

lemma ledger_ok_same: "ledger_ok asz hp g \<Longrightarrow> same_places (ga_hash g) h \<Longrightarrow> ledger_ok asz hp (g\<lparr>ga_hash := h\<rparr>)"
  unfolding ledger_ok_def gallocr_ok_def by (simp add: ledger_same) (simp add: same_places_def)

subsection \<open>Placing\<close>

lemma ledger_place:
  assumes ok: "ledger_ok asz hp g" and sz: "sizes_ok asz hp" and n: "planned (hp n)" "\<not> hn_allocated (ga_hash g n)"
    and b: "b < length (ga_bufts g)" and k: "k = ga_buf_tallocs g ! b"
    and run: "dyn_tallocr_alloc (ga_tallocs g ! k) (asz (ga_bufts g ! b) (hp n)) = Some (off, a)"
    and h: "h = hash_upd n (\<lambda>x. x\<lparr>hn_buffer := b, hn_offset := off\<rparr>) (hash_upd n (\<lambda>x. x\<lparr>hn_allocated := True\<rparr>) (ga_hash g))"
  shows "ledger_ok asz hp (g\<lparr>ga_tallocs := (ga_tallocs g)[k := a], ga_hash := h\<rparr>)"
proof -
  let ?g = "g\<lparr>ga_tallocs := (ga_tallocs g)[k := a], ga_hash := h\<rparr>"
  have klt: "k < length (ga_tallocs g)" using ok b k by (simp add: ledger_ok_def gallocr_ok_def)
  have sized: "da_sized (asz (ga_bufts g ! b) (hp n))" using sz n(1) by (simp add: sizes_ok_def)
  have hk: "h t = (if t = n then (ga_hash g n)\<lparr>hn_allocated := True, hn_buffer := b, hn_offset := off\<rparr> else ga_hash g t)" for t
    by (simp add: h hash_upd_def)
  have this_k: "ledger asz hp ?g k = (ledger asz hp g k)(n \<mapsto> (off, asz (ga_bufts g ! b) (hp n)))"
    using k by (auto simp: ledger_def hk Let_def)
  have other: "ledger asz hp ?g j = ledger asz hp g j" if "j \<noteq> k" for j
    using that k n(2) by (auto simp: ledger_def hk Let_def)
  have "da.accounts {0..<SIZE_MAX div 2} ((ga_tallocs g)[k := a] ! j) (ledger asz hp ?g j)" if j: "j < length (ga_tallocs g)" for j
  proof (cases "j = k")
    case True
    have "da.accounts {0..<SIZE_MAX div 2} a ((ledger asz hp g k)(n \<mapsto> (off, asz (ga_bufts g ! b) (hp n))))"
    proof (rule da.accounts_alloc [OF _ sized _ run])
      show "da.accounts {0..<SIZE_MAX div 2} (ga_tallocs g ! k) (ledger asz hp g k)" using ok klt by (simp add: ledger_ok_def)
      show "ledger asz hp g k n = None" by (rule ledger_None [OF n(2)])
    qed
    then show ?thesis using True klt this_k by simp
  next
    case False
    then show ?thesis using other [OF False] ok j by (simp add: ledger_ok_def)
  qed
  then show ?thesis using ok b n(1) klt by (simp add: ledger_ok_def gallocr_ok_def hk)
qed

subsection \<open>Taking over\<close>

lemma ledger_hand_over:
  assumes ok: "ledger_ok asz hp g" and sz: "sizes_ok asz hp" and n: "planned (hp n)" "\<not> hn_allocated (ga_hash g n)"
    and p: "hn_allocated (ga_hash g p)" "ggml_are_same_layout (hp n) (hp p)"
    and h: "h = hand_over n p (hash_upd n (\<lambda>x. x\<lparr>hn_allocated := True\<rparr>) (ga_hash g))"
  shows "ledger_ok asz hp (g\<lparr>ga_hash := h\<rparr>)"
proof -
  let ?g = "g\<lparr>ga_hash := h\<rparr>" and ?b = "hn_buffer (ga_hash g p)"
  let ?r = "(hn_offset (ga_hash g p), asz (ga_bufts g ! ?b) (hp p))"
  have np: "n \<noteq> p" using n p by auto
  have size: "asz (ga_bufts g ! ?b) (hp n) = asz (ga_bufts g ! ?b) (hp p)" using sz p(2) by (simp add: sizes_ok_def)
  have hk: "h t = (if t = p then (ga_hash g p)\<lparr>hn_allocated := False\<rparr>
      else if t = n then (ga_hash g n)\<lparr>hn_allocated := True, hn_buffer := ?b, hn_offset := hn_offset (ga_hash g p)\<rparr> else ga_hash g t)" for t
    using np by (simp add: h hand_over_def hash_upd_def)
  have led: "ledger asz hp ?g k = (if ga_buf_tallocs g ! ?b = k then (ledger asz hp g k)(p := None, n \<mapsto> ?r) else ledger asz hp g k)" for k
    using np n(2) p(1) size by (auto simp: ledger_def hk Let_def fun_eq_iff)
  have "da.accounts {0..<SIZE_MAX div 2} (ga_tallocs g ! k) (ledger asz hp ?g k)" if k: "k < length (ga_tallocs g)" for k
  proof (cases "ga_buf_tallocs g ! ?b = k")
    case True
    have "da.accounts {0..<SIZE_MAX div 2} (ga_tallocs g ! k) ((ledger asz hp g k)(p := None, n \<mapsto> ?r))"
    proof (rule da.accounts_move)
      show "da.accounts {0..<SIZE_MAX div 2} (ga_tallocs g ! k) (ledger asz hp g k)" using ok k by (simp add: ledger_ok_def)
      show "ledger asz hp g k p = Some ?r" using p(1) True by (simp add: ledger_Some)
      show "ledger asz hp g k n = None" by (rule ledger_None [OF n(2)])
    qed
    then show ?thesis using led True by simp
  next
    case False
    then show ?thesis using led ok k by (simp add: ledger_ok_def)
  qed
  then show ?thesis using ok n(1) p(1) by (simp add: ledger_ok_def gallocr_ok_def hk)
qed

subsection \<open>Freeing\<close>

lemma ledger_free:
  assumes ok: "ledger_ok asz hp g" and n: "hn_allocated (ga_hash g n)" and run: "free_node asz hp n g = Some g'" and out: "\<not> has_flag FLAG_OUTPUT (hp n)"
  shows "ledger_ok asz hp g'"
proof -
  let ?b = "hn_buffer (ga_hash g n)" and ?h = "hash_upd n (\<lambda>x. x\<lparr>hn_allocated := False\<rparr>) (ga_hash g)"
  define k where "k = ga_buf_tallocs g ! ?b"
  have b: "?b < length (ga_bufts g)" using ok n by (simp add: ledger_ok_def)
  have klt: "k < length (ga_tallocs g)" using ok b by (simp add: ledger_ok_def gallocr_ok_def k_def)
  have lenb: "?b < length (ga_buf_tallocs g)" using ok b by (simp add: ledger_ok_def gallocr_ok_def)
  obtain a where a: "dyn_tallocr_free_tensor (ga_tallocs g ! k) (hn_offset (ga_hash g n)) (asz (ga_bufts g ! ?b) (hp n)) = Some a"
    "g' = g\<lparr>ga_tallocs := (ga_tallocs g)[k := a], ga_hash := ?h\<rparr>"
    using run out b lenb klt by (auto simp: free_node_def Let_def k_def bind_eq_Some_conv)
  let ?L = "ledger asz hp g"
  have led: "ledger asz hp g' j = (if j = k then (?L k)(n := None) else ?L j)" for j
    using n unfolding a(2) k_def by (auto simp: ledger_def hash_upd_def Let_def fun_eq_iff)
  have "da.accounts {0..<SIZE_MAX div 2} ((ga_tallocs g)[k := a] ! j) (ledger asz hp g' j)" if j: "j < length (ga_tallocs g)" for j
  proof (cases "j = k")
    case True
    have "da.accounts {0..<SIZE_MAX div 2} a ((?L k)(n := None))"
    proof (rule da.accounts_release [OF _ _ a(1)])
      show "da.accounts {0..<SIZE_MAX div 2} (ga_tallocs g ! k) (?L k)" using ok klt by (simp add: ledger_ok_def)
      show "?L k n = Some (hn_offset (ga_hash g n), asz (ga_bufts g ! ?b) (hp n))" using n by (simp add: ledger_Some k_def)
    qed
    then show ?thesis using True led klt by simp
  next
    case False
    then show ?thesis using led ok j by (simp add: ledger_ok_def)
  qed
  then show ?thesis using ok unfolding a(2) by (auto simp: ledger_ok_def gallocr_ok_def hash_upd_def)
qed

text \<open>
  The steps of the planner: what placing a tensor and releasing a source change, and the counters of the
  uses that are still to come.
\<close>

lemma dyn_tallocr_alloc_const:
  "dyn_tallocr_alloc a n = Some (off, a') \<Longrightarrow> da_alignment a' = da_alignment a \<and> da_max_size a \<le> da_max_size a'"
  by (auto simp: dyn_tallocr_alloc_def Let_def bind_eq_Some_conv)

lemma dyn_tallocr_free_const:
  "dyn_tallocr_free_tensor a off n = Some a' \<Longrightarrow> da_alignment a' = da_alignment a \<and> da_max_size a' = da_max_size a"
  by (auto simp: dyn_tallocr_free_tensor_def Let_def bind_eq_Some_conv split: option.splits)

definition place :: "gallocr \<Rightarrow> nat \<Rightarrow> nat \<times> nat" where
  "place g t = (hn_buffer (ga_hash g t), hn_offset (ga_hash g t))"

text \<open>What the steps never change, and the sizes that only grow.\<close>

definition ga_grows :: "gallocr \<Rightarrow> gallocr \<Rightarrow> bool" where
  "ga_grows g g' \<longleftrightarrow> ga_bufts g' = ga_bufts g \<and> ga_buffers g' = ga_buffers g \<and> ga_buf_tallocs g' = ga_buf_tallocs g \<and> length (ga_tallocs g') = length (ga_tallocs g) \<and>
     (\<forall>k < length (ga_tallocs g). da_alignment (ga_tallocs g' ! k) = da_alignment (ga_tallocs g ! k) \<and>
        da_max_size (ga_tallocs g ! k) \<le> da_max_size (ga_tallocs g' ! k))"

lemma ga_grows_refl [simp]: "ga_grows g g" "ga_grows g (g\<lparr>ga_hash := h\<rparr>)"
  by (simp_all add: ga_grows_def)

lemma ga_grows_trans: "ga_grows f g \<Longrightarrow> ga_grows g h \<Longrightarrow> ga_grows f h"
  by (auto simp: ga_grows_def intro: order_trans)

lemma ga_grows_talloc:
  assumes "da_alignment a = da_alignment (ga_tallocs g ! k)" "da_max_size (ga_tallocs g ! k) \<le> da_max_size a"
  shows "ga_grows g (g\<lparr>ga_tallocs := (ga_tallocs g)[k := a], ga_hash := h\<rparr>)"
proof -
  have "da_alignment ((ga_tallocs g)[k := a] ! j) = da_alignment (ga_tallocs g ! j) \<and>
      da_max_size (ga_tallocs g ! j) \<le> da_max_size ((ga_tallocs g)[k := a] ! j)" if "j < length (ga_tallocs g)" for j
    using assms that by (cases "j = k") simp_all
  then show ?thesis by (simp add: ga_grows_def)
qed

definition same_counts :: "hash \<Rightarrow> hash \<Rightarrow> bool" where
  "same_counts h h' \<longleftrightarrow> (\<forall>t. hn_children (h' t) = hn_children (h t) \<and> hn_views (h' t) = hn_views (h t))"

subsection \<open>Placing\<close>

text \<open>Tensor \<open>n\<close> may take over the memory of \<open>p\<close>.\<close>

definition takes_over :: "heap \<Rightarrow> gallocr \<Rightarrow> nat \<Rightarrow> nat \<Rightarrow> bool" where
  "takes_over hp g n p \<longleftrightarrow> ggml_op_can_inplace (te_op (hp n)) \<and> p \<in> set (srcs (hp n)) \<and> ggml_are_same_layout (hp n) (hp p) \<and>
     \<not> has_flag FLAG_OUTPUT (hp p) \<and> hn_children (ga_hash g p) = 1 \<and> hn_views (ga_hash g p) = 0"

lemma reuse_parent_Some:
  assumes "reuse_parent hp n ps h = Some h'" and "\<And>t. hn_allocated (h t) \<Longrightarrow> te_view_src (hp t) = None"
  shows "\<exists>p. p \<in> set (List.map_filter (\<lambda>s. s) ps) \<and> hn_allocated (h p) \<and> \<not> has_flag FLAG_OUTPUT (hp p) \<and>
    ggml_are_same_layout (hp n) (hp p) \<and> hn_children (h p) = 1 \<and> hn_views (h p) = 0 \<and> h' = hand_over n p h"
  using assms
proof (induction ps)
  case (Cons s ps)
  show ?case
  proof (cases s)
    case None
    then show ?thesis using Cons by (auto simp: List.map_filter_simps)
  next
    case (Some p)
    show ?thesis
    proof (cases "reuse_parent hp n ps h = Some h'")
      case True
      then show ?thesis using Cons.IH Cons.prems(2) Some by (auto simp: List.map_filter_simps)
    next
      case False
      then have p: "hn_allocated (h p)" "\<not> has_flag FLAG_OUTPUT (hp p)" "ggml_are_same_layout (hp n) (hp p)"
        "hn_children (h p) = 1 \<and> hn_views (h p) = 0"
        using Cons.prems(1) by (auto simp: Some split: if_splits)
      moreover have "te_view_src (hp p) = None" using Cons.prems(2) p(1) by simp
      ultimately show ?thesis using Cons.prems(1) by (auto simp: Some List.map_filter_simps)
    qed
  qed
qed simp

lemma allocate_node_cases:
  assumes run: "allocate_node asz hp n b g = Some g'" and ok: "ledger_ok asz hp g" and self: "ggml_op_can_inplace (te_op (hp n)) \<longrightarrow> n \<notin> set (srcs (hp n))"
  obtains (skip) "g' = g" "planned (hp n) \<longrightarrow> hn_allocated (ga_hash g n)"
  | (taken) p where "planned (hp n)" "\<not> hn_allocated (ga_hash g n)" "takes_over hp g n p" "hn_allocated (ga_hash g p)" "p \<noteq> n"
      "g' = g\<lparr>ga_hash := hand_over n p (hash_upd n (\<lambda>x. x\<lparr>hn_allocated := True\<rparr>) (ga_hash g))\<rparr>"
  | (new) k off a where "planned (hp n)" "\<not> hn_allocated (ga_hash g n)" "nat b < length (ga_bufts g)" "k = ga_buf_tallocs g ! nat b"
      "dyn_tallocr_alloc (ga_tallocs g ! k) (asz (ga_bufts g ! nat b) (hp n)) = Some (off, a)"
      "g' = g\<lparr>ga_tallocs := (ga_tallocs g)[k := a],
        ga_hash := hash_upd n (\<lambda>x. x\<lparr>hn_buffer := nat b, hn_offset := off\<rparr>) (hash_upd n (\<lambda>x. x\<lparr>hn_allocated := True\<rparr>) (ga_hash g))\<rparr>"
proof (cases "\<not> is_allocated hp g n \<and> \<not> ggml_is_view (hp n)")
  case False
  then have "g' = g" using run by (auto simp: allocate_node_def)
  moreover have "planned (hp n) \<longrightarrow> hn_allocated (ga_hash g n)" using False by (auto simp: planned_def is_allocated_def ggml_is_view_def)
  ultimately show ?thesis by (rule skip)
next
  case True
  then have n: "planned (hp n)" "\<not> hn_allocated (ga_hash g n)" by (simp_all add: planned_def is_allocated_def ggml_is_view_def)
  let ?h = "hash_upd n (\<lambda>x. x\<lparr>hn_allocated := True\<rparr>) (ga_hash g)"
  let ?re = "if ggml_op_can_inplace (te_op (hp n)) then reuse_parent hp n (te_src (hp n)) ?h else None"
  have views: "te_view_src (hp t) = None" if t: "hn_allocated (?h t)" for t
  proof (cases "t = n")
    case True
    then show ?thesis using n(1) by (simp add: planned_def)
  next
    case False
    then have "planned (hp t)" using t ok by (simp add: hash_upd_def ledger_ok_def)
    then show ?thesis by (simp add: planned_def)
  qed
  show ?thesis
  proof (cases ?re)
    case (Some h)
    then have ip: "ggml_op_can_inplace (te_op (hp n))" "reuse_parent hp n (te_src (hp n)) ?h = Some h" by (auto split: if_splits)
    obtain p where p: "p \<in> set (srcs (hp n))" "hn_allocated (?h p)" "\<not> has_flag FLAG_OUTPUT (hp p)"
      "ggml_are_same_layout (hp n) (hp p)" "hn_children (?h p) = 1" "hn_views (?h p) = 0" "h = hand_over n p ?h"
      using reuse_parent_Some [OF ip(2) views] unfolding srcs_def by blast
    have pn: "p \<noteq> n" using p(1) self ip(1) by auto
    have "g' = g\<lparr>ga_hash := h\<rparr>" using run True Some by (auto simp: allocate_node_def Let_def)
    then show ?thesis using taken [of p] n p pn ip(1) by (simp add: takes_over_def hash_upd_apply)
  next
    case None
    have run': "(do {
        k \<leftarrow> vget (ga_buf_tallocs g) (nat b);
        a \<leftarrow> vget (ga_tallocs g) k;
        buft \<leftarrow> vget (ga_bufts g) (nat b);
        (offset, a) \<leftarrow> dyn_tallocr_alloc a (asz buft (hp n));
        Some (g\<lparr>ga_tallocs := (ga_tallocs g)[k := a], ga_hash := hash_upd n (\<lambda>x. x\<lparr>hn_buffer := nat b, hn_offset := offset\<rparr>) ?h\<rparr>) }) = Some g'"
      using run True None unfolding allocate_node_def Let_def by (auto split: if_splits)
    then show ?thesis using new n by (auto simp: bind_eq_Some_conv vget_eq_Some)
  qed
qed

lemma allocate_node_step:
  assumes run: "allocate_node asz hp n b g = Some g'" and ok: "ledger_ok asz hp g" and sz: "sizes_ok asz hp" and self: "ggml_op_can_inplace (te_op (hp n)) \<longrightarrow> n \<notin> set (srcs (hp n))"
  shows "ledger_ok asz hp g' \<and> ga_grows g g' \<and> same_counts (ga_hash g) (ga_hash g') \<and> (\<forall>t. t \<noteq> n \<longrightarrow> place g' t = place g t) \<and>
    (planned (hp n) \<longrightarrow> hn_allocated (ga_hash g' n)) \<and>
    (\<exists>p. \<forall>t. hn_allocated (ga_hash g t) \<longrightarrow> \<not> hn_allocated (ga_hash g' t) \<longrightarrow> t = p \<and> takes_over hp g n t \<and> place g' n = place g t)"
  using run ok self
proof (cases rule: allocate_node_cases)
  case skip
  then show ?thesis using ok by (simp add: same_counts_def)
next
  case (taken p)
  have "ledger_ok asz hp g'"
    unfolding taken(6) using ledger_hand_over [OF ok sz taken(1,2,4) _ refl] taken(3) by (simp add: takes_over_def)
  moreover have "same_counts (ga_hash g) (ga_hash g')"
    unfolding taken(6) by (simp add: same_counts_def hand_over_def hash_upd_def)
  moreover have "\<forall>t. t \<noteq> n \<longrightarrow> place g' t = place g t" "hn_allocated (ga_hash g' n)"
    unfolding taken(6) using taken(5) by (simp_all add: place_def hand_over_def hash_upd_def)
  moreover have "t = p \<and> takes_over hp g n t \<and> place g' n = place g t"
    if t: "hn_allocated (ga_hash g t)" "\<not> hn_allocated (ga_hash g' t)" for t
  proof -
    have "t = p" using t unfolding taken(6) by (auto simp: hand_over_def hash_upd_def split: if_splits)
    then show ?thesis using taken(3,5) unfolding taken(6) by (simp add: place_def hand_over_def hash_upd_def)
  qed
  moreover have "ga_grows g g'" unfolding taken(6) by simp
  ultimately show ?thesis by blast
next
  case (new k off a)
  have "ledger_ok asz hp g'" unfolding new(6) by (rule ledger_place [OF ok sz new(1-5) refl])
  moreover have "ga_grows g g'" unfolding new(6) by (rule ga_grows_talloc) (use dyn_tallocr_alloc_const [OF new(5)] in simp_all)
  ultimately show ?thesis unfolding new(6) by (simp add: same_counts_def place_def hash_upd_def)
qed

end
