(* ===== verification/GraphSafe.thy ===== *)
theory GraphSafe
  imports GraphPlan
begin

text \<open>
  The invariant of the planner over the steps of a graph: the counters count the uses that are still to come,
  and every tensor that is still to be read, is an output or is never read is marked as allocated.
\<close>

subsection \<open>Graphs\<close>

definition occs :: "heap \<Rightarrow> nat list \<Rightarrow> nat list" where
  "occs hp ns = concat (List.map (\<lambda>n. srcs (hp n)) ns)"

lemma occs_simps [simp]: "occs hp [] = []" "occs hp (n # ns) = srcs (hp n) @ occs hp ns" "occs hp (ns @ ms) = occs hp ns @ occs hp ms"
  by (simp_all add: occs_def)

text \<open>The sources \<open>R\<close> read tensor \<open>t\<close>, directly or through a view.\<close>

definition still_reads :: "heap \<Rightarrow> nat list \<Rightarrow> nat \<Rightarrow> bool" where
  "still_reads hp R t \<longleftrightarrow> t \<in> set R \<or> (\<exists>v \<in> set R. te_view_src (hp v) = Some t)"

text \<open>
  What the planner relies on: every source of a node is a leaf or an earlier node, and so is the tensor a view
  is of, unless it has its data already; no view is of a view; a source that is a view is a node with an
  operation; leafs and inputs have no operation that works in place.
\<close>

definition graph_ok :: "heap \<Rightarrow> graph \<Rightarrow> bool" where
  "graph_ok hp gr \<longleftrightarrow> distinct (gr_nodes gr) \<and> set (gr_nodes gr) \<inter> set (gr_leafs gr) = {} \<and>
     (\<forall>i < length (gr_nodes gr). \<forall>s \<in> set (srcs (hp (gr_nodes gr ! i))). s \<in> set (gr_leafs gr) \<or> s \<in> set (take i (gr_nodes gr))) \<and>
     (\<forall>i < length (gr_nodes gr). case te_view_src (hp (gr_nodes gr ! i)) of None \<Rightarrow> True
        | Some r \<Rightarrow> te_view_src (hp r) = None \<and> (te_data (hp r) \<noteq> 0 \<or> r \<in> set (gr_leafs gr) \<or> r \<in> set (take i (gr_nodes gr)))) \<and>
     (\<forall>s \<in> set (occs hp (gr_nodes gr)). case te_view_src (hp s) of None \<Rightarrow> True
        | Some r \<Rightarrow> te_view_src (hp r) = None \<and> (te_data (hp r) \<noteq> 0 \<or> s \<in> set (gr_nodes gr) \<and> te_op (hp s) \<noteq> OP_NONE)) \<and>
     (\<forall>t \<in> set (gr_leafs gr). \<not> ggml_op_can_inplace (te_op (hp t))) \<and>
     (\<forall>t \<in> set (gr_nodes gr). has_flag FLAG_INPUT (hp t) \<longrightarrow> \<not> ggml_op_can_inplace (te_op (hp t)))"

lemma graph_okD:
  assumes "graph_ok hp gr"
  shows "distinct (gr_nodes gr)" and "t \<in> set (gr_nodes gr) \<Longrightarrow> t \<notin> set (gr_leafs gr)"
    and "i < length (gr_nodes gr) \<Longrightarrow> s \<in> set (srcs (hp (gr_nodes gr ! i))) \<Longrightarrow> s \<in> set (gr_leafs gr) \<or> s \<in> set (take i (gr_nodes gr))"
    and "i < length (gr_nodes gr) \<Longrightarrow> te_view_src (hp (gr_nodes gr ! i)) = Some r \<Longrightarrow>
      te_view_src (hp r) = None \<and> (te_data (hp r) \<noteq> 0 \<or> r \<in> set (gr_leafs gr) \<or> r \<in> set (take i (gr_nodes gr)))"
    and "s \<in> set (occs hp (gr_nodes gr)) \<Longrightarrow> te_view_src (hp s) = Some r \<Longrightarrow>
      te_view_src (hp r) = None \<and> (te_data (hp r) \<noteq> 0 \<or> s \<in> set (gr_nodes gr) \<and> te_op (hp s) \<noteq> OP_NONE)"
    and "t \<in> set (gr_leafs gr) \<Longrightarrow> \<not> ggml_op_can_inplace (te_op (hp t))"
    and "t \<in> set (gr_nodes gr) \<Longrightarrow> has_flag FLAG_INPUT (hp t) \<Longrightarrow> \<not> ggml_op_can_inplace (te_op (hp t))"
  using assms unfolding graph_ok_def by (auto split: option.splits)

lemma node_not_src:
  assumes ok: "graph_ok hp gr" and t: "t \<in> set (gr_nodes gr)"
  shows "t \<notin> set (srcs (hp t))"
proof
  assume s: "t \<in> set (srcs (hp t))"
  obtain i where i: "i < length (gr_nodes gr)" "gr_nodes gr ! i = t" using t by (auto simp: in_set_conv_nth)
  then have "t \<in> set (take i (gr_nodes gr))" using graph_okD(2,3) [OF ok] s t by auto
  then obtain j where "j < i" "gr_nodes gr ! j = t" using i(1) by (auto simp: in_set_conv_nth)
  then show False using i graph_okD(1) [OF ok] by (auto simp: nth_eq_iff_index_eq)
qed

subsection \<open>Counting the uses to come\<close>

definition counted_views :: "heap \<Rightarrow> graph \<Rightarrow> nat list \<Rightarrow> nat \<Rightarrow> nat set" where
  "counted_views hp gr R r = {v \<in> set (gr_nodes gr). te_view_src (hp v) = Some r \<and> te_op (hp v) \<noteq> OP_NONE \<and>
     (v \<in> set R \<or> v \<notin> set (occs hp (gr_nodes gr)))}"

definition counts :: "heap \<Rightarrow> graph \<Rightarrow> nat list \<Rightarrow> hash \<Rightarrow> bool" where
  "counts hp gr R h \<longleftrightarrow> (\<forall>t. hn_children (h t) = int (count_list R t)) \<and>
     (\<forall>t. planned (hp t) \<longrightarrow> hn_views (h t) = int (card (counted_views hp gr R t))) \<and>
     (\<forall>t. te_view_src (hp t) \<noteq> None \<longrightarrow> hn_views (h t) = 0)"

lemma counts_same: "counts hp gr R h \<Longrightarrow> same_counts h h' \<Longrightarrow> counts hp gr R h'"
  by (simp add: counts_def same_counts_def)

lemma counts_cong:
  assumes "counts hp gr R h" and "\<And>t. hn_children (h' t) = hn_children (h t) \<and> hn_views (h' t) = hn_views (h t)"
  shows "counts hp gr R h'"
  using assms by (simp add: counts_def)

lemma finite_counted [simp]: "finite (counted_views hp gr R r)"
  by (simp add: counted_views_def)

lemma counts_not_read:
  assumes ok: "graph_ok hp gr" and c: "counts hp gr R h" and R: "set R \<subseteq> set (occs hp (gr_nodes gr))"
    and t: "planned (hp t)" "hn_children (h t) = 0" "hn_views (h t) = 0"
  shows "\<not> still_reads hp R t"
proof
  assume "still_reads hp R t"
  moreover have "t \<notin> set R" using c t(2) by (simp add: counts_def count_list_0_iff)
  ultimately obtain v where v: "v \<in> set R" "te_view_src (hp v) = Some t" by (auto simp: still_reads_def)
  then have "v \<in> counted_views hp gr R t" using graph_okD(5) [OF ok, of v t] R t(1) by (auto simp: counted_views_def planned_def)
  then show False using c t(1,3) by (auto simp: counts_def)
qed

text \<open>One occurrence less.\<close>

lemma counted_later: "p \<in> set R \<Longrightarrow> counted_views hp gr (p # R) r = counted_views hp gr R r"
  by (auto simp: counted_views_def)

lemma counted_last:
  "p \<notin> set R \<Longrightarrow> p \<in> set (occs hp (gr_nodes gr)) \<Longrightarrow> counted_views hp gr R r = counted_views hp gr (p # R) r - {p}"
  by (auto simp: counted_views_def)

lemma counted_other: "te_view_src (hp p) \<noteq> Some r \<Longrightarrow> counted_views hp gr (p # R) r = counted_views hp gr R r"
  by (auto simp: counted_views_def)

lemma counts_child:
  assumes c: "counts hp gr (p # R) h" and keep: "p \<in> set R \<or> te_view_src (hp p) = None"
    and h': "h' = hash_upd p (\<lambda>x. x\<lparr>hn_children := hn_children x - 1\<rparr>) h"
  shows "counts hp gr R h'"
proof -
  have same: "counted_views hp gr (p # R) r = counted_views hp gr R r" for r using keep counted_later counted_other by auto
  have "hn_children (h' t) = int (count_list R t)" for t using c by (simp add: counts_def h' hash_upd_def)
  moreover have "hn_views (h' t) = hn_views (h t)" for t by (simp add: h' hash_upd_def)
  ultimately show ?thesis using c by (simp add: counts_def same)
qed

lemma counts_view:
  assumes ok: "graph_ok hp gr" and c: "counts hp gr (p # R) h" and p: "p \<in> set (occs hp (gr_nodes gr))" "p \<notin> set R" and r: "te_view_src (hp p) = Some r"
    and h': "h' = hash_upd r (\<lambda>x. x\<lparr>hn_views := hn_views x - 1\<rparr>) (hash_upd p (\<lambda>x. x\<lparr>hn_children := hn_children x - 1\<rparr>) h)"
  shows "counts hp gr R h'"
proof -
  have root: "te_view_src (hp r) = None" "te_data (hp r) \<noteq> 0 \<or> p \<in> set (gr_nodes gr) \<and> te_op (hp p) \<noteq> OP_NONE"
    using graph_okD(5) [OF ok p(1) r] by simp_all
  have pr: "p \<noteq> r" using r root(1) by auto
  have ch: "hn_children (h' t) = int (count_list R t)" for t using c pr by (simp add: counts_def h' hash_upd_def)
  have vi: "hn_views (h' t) = (if t = r then hn_views (h t) - 1 else hn_views (h t))" for t using pr by (simp add: h' hash_upd_def)
  have "hn_views (h' t) = int (card (counted_views hp gr R t))" if t: "planned (hp t)" for t
  proof (cases "t = r")
    case True
    have "p \<in> counted_views hp gr (p # R) r" using root(2) r t by (simp add: counted_views_def planned_def True)
    then have "card (counted_views hp gr (p # R) r) = Suc (card (counted_views hp gr R r))"
      unfolding counted_last [where r = r, OF p(2,1)] by (rule card.remove [OF finite_counted])
    then show ?thesis using c t True by (simp add: vi counts_def)
  next
    case False
    then have "counted_views hp gr (p # R) t = counted_views hp gr R t" using r by (simp add: counted_other)
    then show ?thesis using c t False by (simp add: vi counts_def)
  qed
  moreover have "hn_views (h' t) = 0" if "te_view_src (hp t) \<noteq> None" for t using c that root(1) by (auto simp: vi counts_def)
  ultimately show ?thesis using ch by (simp add: counts_def)
qed

subsection \<open>Releasing the sources of a node\<close>

lemma free_node_step:
  assumes run: "free_node asz hp n g = Some g'" and ok: "ledger_ok asz hp g" and n: "hn_allocated (ga_hash g n)"
  shows "ledger_ok asz hp g' \<and> ga_grows g g' \<and> (\<forall>t. place g' t = place g t) \<and> same_counts (ga_hash g) (ga_hash g') \<and>
    (\<forall>t. hn_allocated (ga_hash g t) \<longrightarrow> \<not> hn_allocated (ga_hash g' t) \<longrightarrow> t = n \<and> \<not> has_flag FLAG_OUTPUT (hp n))"
proof (cases "has_flag FLAG_OUTPUT (hp n)")
  case True
  then have "g' = g" using run by (simp add: free_node_def)
  then show ?thesis using ok by (simp add: same_counts_def)
next
  case False
  obtain k a where a: "dyn_tallocr_free_tensor (ga_tallocs g ! k) (hn_offset (ga_hash g n)) (asz (ga_bufts g ! hn_buffer (ga_hash g n)) (hp n)) = Some a"
    "g' = g\<lparr>ga_tallocs := (ga_tallocs g)[k := a], ga_hash := hash_upd n (\<lambda>x. x\<lparr>hn_allocated := False\<rparr>) (ga_hash g)\<rparr>"
    using run False by (auto simp: free_node_def Let_def bind_eq_Some_conv vget_eq_Some)
  have "ledger_ok asz hp g'" by (rule ledger_free [OF ok n run False])
  moreover have "ga_grows g g'" unfolding a(2) by (rule ga_grows_talloc) (use dyn_tallocr_free_const [OF a(1)] in simp_all)
  ultimately show ?thesis using False unfolding a(2) by (simp add: place_def same_counts_def hash_upd_def)
qed

definition keeps_unread :: "heap \<Rightarrow> graph \<Rightarrow> nat list \<Rightarrow> gallocr \<Rightarrow> gallocr \<Rightarrow> bool" where
  "keeps_unread hp gr R g g' \<longleftrightarrow> (\<forall>t. hn_allocated (ga_hash g t) \<longrightarrow> \<not> hn_allocated (ga_hash g' t) \<longrightarrow>
     \<not> has_flag FLAG_OUTPUT (hp t) \<and> \<not> still_reads hp R t \<and> still_reads hp (occs hp (gr_nodes gr)) t)"

lemma release_free:
  assumes run: "(if hn_allocated (ga_hash g t) \<and> go then free_node asz hp t g else Some g) = Some g'"
    and ok: "graph_ok hp gr" "ledger_ok asz hp g" "counts hp gr R (ga_hash g)" and R: "set R \<subseteq> set (occs hp (gr_nodes gr))"
    and t: "go \<Longrightarrow> hn_children (ga_hash g t) = 0 \<and> hn_views (ga_hash g t) = 0" "still_reads hp (occs hp (gr_nodes gr)) t"
  shows "ledger_ok asz hp g' \<and> ga_grows g g' \<and> counts hp gr R (ga_hash g') \<and> (\<forall>t. place g' t = place g t) \<and> keeps_unread hp gr R g g'"
proof (cases "hn_allocated (ga_hash g t) \<and> go")
  case False
  then have "g' = g" using run by (auto split: if_splits)
  then show ?thesis using ok by (simp add: keeps_unread_def)
next
  case True
  then have f: "free_node asz hp t g = Some g'" using run by simp
  have "planned (hp t)" using ok(2) True by (simp add: ledger_ok_def)
  then have "\<not> still_reads hp R t" using counts_not_read [OF ok(1,3) R] t(1) True by simp
  then show ?thesis using free_node_step [OF f ok(2)] True t(2) counts_same [OF ok(3)] by (auto simp: keeps_unread_def)
qed

lemma release_parent_step:
  assumes run: "release_parent asz hp p g = Some g'" and ok: "graph_ok hp gr" "ledger_ok asz hp g" "counts hp gr (p # R) (ga_hash g)"
    and R: "set (p # R) \<subseteq> set (occs hp (gr_nodes gr))"
  shows "ledger_ok asz hp g' \<and> ga_grows g g' \<and> counts hp gr R (ga_hash g') \<and> (\<forall>t. place g' t = place g t) \<and> keeps_unread hp gr R g g'"
proof -
  let ?all = "occs hp (gr_nodes gr)"
  define h1 where "h1 = hash_upd p (\<lambda>x. x\<lparr>hn_children := hn_children x - 1\<rparr>) (ga_hash g)"
  have sub: "set R \<subseteq> set ?all" "p \<in> set ?all" using R by simp_all
  have children: "hn_children (h1 p) = int (count_list R p)" using ok(3) by (simp add: h1_def hash_upd_def counts_def)
  have place1: "place (g\<lparr>ga_hash := h\<rparr>) t = place g t" if "same_places (ga_hash g) h" for h t
    using that by (simp add: place_def same_places_def)
  have lift: "keeps_unread hp gr R g g'" if "keeps_unread hp gr R (g\<lparr>ga_hash := h\<rparr>) g'" "same_places (ga_hash g) h" for h
    using that by (simp add: keeps_unread_def same_places_def)
  have s1: "same_places (ga_hash g) h1" by (simp add: h1_def)
  have fin: ?thesis
    if run2: "(if hn_allocated (h t) \<and> go then free_node asz hp t (g\<lparr>ga_hash := h\<rparr>) else Some (g\<lparr>ga_hash := h\<rparr>)) = Some g'"
      and h: "same_places (ga_hash g) h" "counts hp gr R h" and t: "go \<Longrightarrow> hn_children (h t) = 0 \<and> hn_views (h t) = 0" "still_reads hp ?all t" for h t go
  proof -
    have "ledger_ok asz hp g' \<and> ga_grows (g\<lparr>ga_hash := h\<rparr>) g' \<and> counts hp gr R (ga_hash g') \<and>
        (\<forall>u. place g' u = place (g\<lparr>ga_hash := h\<rparr>) u) \<and> keeps_unread hp gr R (g\<lparr>ga_hash := h\<rparr>) g'"
      by (rule release_free [where t = t and go = go]) (use run2 ok(1) ledger_ok_same [OF ok(2) h(1)] h(2) sub(1) t in simp_all)
    moreover have "ga_grows g (g\<lparr>ga_hash := h\<rparr>)" by simp
    ultimately show ?thesis using ga_grows_trans place1 [OF h(1)] lift [OF _ h(1)] by metis
  qed
  show ?thesis
  proof (cases "hn_children (h1 p) = 0 \<and> hn_views (h1 p) = 0")
    case False
    have "p \<in> set R \<or> te_view_src (hp p) = None"
      using False ok(3) children by (auto simp: counts_def h1_def hash_upd_def count_list_0_iff)
    then have c: "counts hp gr R h1" using counts_child [OF ok(3)] h1_def by blast
    have "g' = g\<lparr>ga_hash := h1\<rparr>" using run False unfolding release_parent_def Let_def h1_def [symmetric] by auto
    then have "(if hn_allocated (h1 p) \<and> False then free_node asz hp p (g\<lparr>ga_hash := h1\<rparr>) else Some (g\<lparr>ga_hash := h1\<rparr>)) = Some g'" by simp
    moreover have "still_reads hp ?all p" using sub(2) by (simp add: still_reads_def)
    ultimately show ?thesis by (intro fin [where go = False, OF _ s1 c]) simp_all
  next
    case zero: True
    then have last: "p \<notin> set R" using children by (simp add: count_list_0_iff)
    show ?thesis
    proof (cases "te_view_src (hp p)")
      case None
      have c: "counts hp gr R h1" using counts_child [OF ok(3)] h1_def None by blast
      have "(if hn_allocated (h1 p) \<and> True then free_node asz hp p (g\<lparr>ga_hash := h1\<rparr>) else Some (g\<lparr>ga_hash := h1\<rparr>)) = Some g'"
        using run zero None unfolding release_parent_def Let_def h1_def [symmetric] by simp
      moreover have "still_reads hp ?all p" using sub(2) by (simp add: still_reads_def)
      ultimately show ?thesis using zero by (intro fin [where go = True, OF _ s1 c]) simp_all
    next
      case (Some r)
      have twice: "g\<lparr>ga_hash := h, ga_hash := h'\<rparr> = g\<lparr>ga_hash := h'\<rparr>" for h h' by simp
      define h2 where "h2 = hash_upd r (\<lambda>x. x\<lparr>hn_views := hn_views x - 1\<rparr>) h1"
      have c: "counts hp gr R h2" using counts_view [OF ok(1,3) sub(2) last Some] h1_def h2_def by blast
      have s2: "same_places (ga_hash g) h2" using s1 same_places_upd(2) [of h1] by (simp add: h2_def same_places_def)
      let ?go = "hn_views (h2 r) = 0 \<and> hn_children (h2 r) = 0"
      have "(if hn_allocated (h2 r) \<and> ?go then free_node asz hp r (g\<lparr>ga_hash := h2\<rparr>) else Some (g\<lparr>ga_hash := h2\<rparr>)) = Some g'"
        using run zero Some unfolding release_parent_def Let_def h1_def [symmetric] h2_def
        by (simp only: option.case gallocr.simps if_True conj_ac simp_thms twice)
      moreover have "still_reads hp ?all r" using sub(2) Some by (auto simp: still_reads_def)
      ultimately show ?thesis by (intro fin [where go = ?go, OF _ s2 c]) simp_all
    qed
  qed
qed

text \<open>
  The loops of the planner: the leafs and inputs, the counts, and one node after the other.
\<close>

text \<open>The leafs, the inputs and the first \<open>i\<close> nodes have their place.\<close>

definition started :: "heap \<Rightarrow> graph \<Rightarrow> nat \<Rightarrow> nat \<Rightarrow> bool" where
  "started hp gr i t \<longleftrightarrow> t \<in> set (gr_leafs gr) \<or> t \<in> set (take i (gr_nodes gr)) \<or> (t \<in> set (gr_nodes gr) \<and> has_flag FLAG_INPUT (hp t))"

definition held :: "heap \<Rightarrow> graph \<Rightarrow> nat list \<Rightarrow> nat \<Rightarrow> bool" where
  "held hp gr R t \<longleftrightarrow> has_flag FLAG_OUTPUT (hp t) \<or> still_reads hp R t \<or> \<not> still_reads hp (occs hp (gr_nodes gr)) t"

text \<open>Every tensor that has its place and is still held, but those in \<open>X\<close>, is marked as allocated.\<close>

definition holds :: "heap \<Rightarrow> graph \<Rightarrow> nat \<Rightarrow> nat list \<Rightarrow> nat set \<Rightarrow> gallocr \<Rightarrow> bool" where
  "holds hp gr i R X g \<longleftrightarrow>
     (\<forall>t. planned (hp t) \<longrightarrow> started hp gr i t \<longrightarrow> t \<notin> X \<longrightarrow> held hp gr R t \<longrightarrow> hn_allocated (ga_hash g t))"

lemma still_reads_mono: "still_reads hp R t \<Longrightarrow> set R \<subseteq> set S \<Longrightarrow> still_reads hp S t"
  by (auto simp: still_reads_def)

lemma holds_release:
  assumes "holds hp gr i (p # R) X g" "keeps_unread hp gr R g g'"
  shows "holds hp gr i R X g'"
  unfolding holds_def
proof (intro allI impI)
  fix t
  assume t: "planned (hp t)" "started hp gr i t" "t \<notin> X" "held hp gr R t"
  then have "held hp gr (p # R) t" using still_reads_mono [of hp R t "p # R"] by (auto simp: held_def)
  then have "hn_allocated (ga_hash g t)" using assms(1) t by (simp add: holds_def)
  then show "hn_allocated (ga_hash g' t)" using assms(2) t(4) by (auto simp: keeps_unread_def held_def)
qed

lemma release_parents:
  assumes "foldM (release_parent asz hp) ps g = Some g'" and "graph_ok hp gr" "ledger_ok asz hp g" "counts hp gr (ps @ R) (ga_hash g)"
    and "set (ps @ R) \<subseteq> set (occs hp (gr_nodes gr))" and "holds hp gr i (ps @ R) X g"
  shows "ledger_ok asz hp g' \<and> ga_grows g g' \<and> counts hp gr R (ga_hash g') \<and> (\<forall>t. place g' t = place g t) \<and> holds hp gr i R X g'"
  using assms
proof (induction ps arbitrary: g)
  case Nil
  then show ?case by simp
next
  case (Cons p ps)
  obtain g1 where g1: "release_parent asz hp p g = Some g1" "foldM (release_parent asz hp) ps g1 = Some g'"
    using Cons.prems(1) by (auto split: option.splits)
  have step: "ledger_ok asz hp g1 \<and> ga_grows g g1 \<and> counts hp gr (ps @ R) (ga_hash g1) \<and> (\<forall>t. place g1 t = place g t) \<and> keeps_unread hp gr (ps @ R) g g1"
    using release_parent_step [OF g1(1) Cons.prems(2,3), of "ps @ R"] Cons.prems(4,5) by simp
  have "holds hp gr i (ps @ R) X g1" using holds_release [of hp gr i p "ps @ R"] Cons.prems(6) step by simp
  then have "ledger_ok asz hp g' \<and> ga_grows g1 g' \<and> counts hp gr R (ga_hash g') \<and> (\<forall>t. place g' t = place g1 t) \<and> holds hp gr i R X g'"
    using Cons.IH [OF g1(2) Cons.prems(2)] step Cons.prems(5) by simp
  then show ?case using step ga_grows_trans by auto
qed

subsection \<open>One node\<close>

definition plan_inv :: "(nat \<Rightarrow> tensor \<Rightarrow> nat) \<Rightarrow> heap \<Rightarrow> graph \<Rightarrow> nat \<Rightarrow> gallocr \<Rightarrow> bool" where
  "plan_inv asz hp gr i g \<longleftrightarrow> ledger_ok asz hp g \<and> counts hp gr (occs hp (drop i (gr_nodes gr))) (ga_hash g) \<and>
     holds hp gr i (occs hp (drop i (gr_nodes gr))) {} g"

lemma drop_node: "i < length ns \<Longrightarrow> drop i ns = ns ! i # drop (Suc i) ns"
  by (simp add: Cons_nth_drop_Suc)

lemma occs_drop: "set (occs hp (drop i ns)) \<subseteq> set (occs hp ns)"
proof -
  have "occs hp ns = occs hp (take i ns) @ occs hp (drop i ns)" by (metis append_take_drop_id occs_simps(3))
  then show ?thesis by simp
qed

text \<open>No earlier node reads node \<open>i\<close>.\<close>

lemma set_occs: "s \<in> set (occs hp ns) \<longleftrightarrow> (\<exists>j < length ns. s \<in> set (srcs (hp (ns ! j))))"
  by (auto simp: occs_def set_conv_nth [of ns])

lemma not_before:
  assumes ok: "graph_ok hp gr" and i: "i < length (gr_nodes gr)" "j \<le> i"
  shows "gr_nodes gr ! i \<notin> set (take j (gr_nodes gr))" and "gr_nodes gr ! i \<notin> set (gr_leafs gr)"
proof -
  show "gr_nodes gr ! i \<notin> set (gr_leafs gr)" using graph_okD(2) [OF ok] i(1) by simp
  show "gr_nodes gr ! i \<notin> set (take j (gr_nodes gr))"
    using graph_okD(1) [OF ok] i by (auto simp: in_set_conv_nth nth_eq_iff_index_eq)
qed

lemma node_read_later:
  assumes ok: "graph_ok hp gr" and i: "i < length (gr_nodes gr)" and n: "n = gr_nodes gr ! i" "planned (hp n)"
    and r: "still_reads hp (occs hp (gr_nodes gr)) n"
  shows "still_reads hp (occs hp (drop i (gr_nodes gr))) n"
proof -
  let ?ns = "gr_nodes gr"
  have split: "set (occs hp ?ns) = set (occs hp (take i ?ns)) \<union> set (occs hp (drop i ?ns))"
    by (metis append_take_drop_id occs_simps(3) set_append)
  have early: "s = n \<or> te_view_src (hp s) = Some n \<Longrightarrow> False" if s: "s \<in> set (occs hp (take i ?ns))" for s
  proof -
    obtain j where j: "j < i" "s \<in> set (srcs (hp (?ns ! j)))" using s i by (auto simp: set_occs)
    have jl: "j < length ?ns" using j(1) i by simp
    have s_in: "s \<in> set (gr_leafs gr) \<or> s \<in> set (take j ?ns)" by (rule graph_okD(3) [OF ok jl j(2)])
    assume "s = n \<or> te_view_src (hp s) = Some n"
    then show False
    proof
      assume "s = n"
      then show False using s_in not_before [OF ok i, of j] j(1) n(1) by auto
    next
      assume v: "te_view_src (hp s) = Some n"
      have "s \<in> set (occs hp ?ns)" using j(2) jl by (auto simp: set_occs)
      then have "s \<in> set ?ns" using graph_okD(5) [OF ok _ v] n(2) by (auto simp: planned_def)
      then have "s \<in> set (take j ?ns)" using s_in graph_okD(2) [OF ok] by auto
      then obtain k where k: "k < j" "?ns ! k = s" using jl by (auto simp: in_set_conv_nth)
      then have "n \<in> set (gr_leafs gr) \<or> n \<in> set (take k ?ns)" using graph_okD(4) [OF ok, of k n] jl v n(2) by (auto simp: planned_def)
      then show False using not_before [OF ok i, of k] k(1) j(1) n(1) by auto
    qed
  qed
  show ?thesis using r early unfolding still_reads_def split by blast
qed

lemma allocate_skip:
  "planned (hp n) \<Longrightarrow> hn_allocated (ga_hash g n) \<Longrightarrow> allocate_node asz hp n b g = Some g' \<Longrightarrow> g' = g"
  "\<not> planned (hp n) \<Longrightarrow> allocate_node asz hp n b g = Some g' \<Longrightarrow> g' = g"
  by (auto simp: allocate_node_def is_allocated_def planned_def ggml_is_view_def)

text \<open>The state of step \<open>i\<close> in which node \<open>i\<close> is computed.\<close>

definition compute_inv :: "(nat \<Rightarrow> tensor \<Rightarrow> nat) \<Rightarrow> heap \<Rightarrow> graph \<Rightarrow> nat \<Rightarrow> gallocr \<Rightarrow> bool" where
  "compute_inv asz hp gr i g \<longleftrightarrow> ledger_ok asz hp g \<and>
     (\<exists>X. holds hp gr (Suc i) (occs hp (drop i (gr_nodes gr))) X g \<and> (\<forall>p \<in> X. \<forall>q \<in> X. p = q) \<and>
       (\<forall>p \<in> X. let n = gr_nodes gr ! i in
          place g n = place g p \<and> hn_allocated (ga_hash g n) \<and> planned (hp p) \<and> p \<noteq> n \<and> ggml_op_can_inplace (te_op (hp n)) \<and> p \<in> set (srcs (hp n)) \<and>
          ggml_are_same_layout (hp n) (hp p) \<and> \<not> held hp gr (occs hp (drop (Suc i) (gr_nodes gr))) p))"

lemma started_Suc: "i < length (gr_nodes gr) \<Longrightarrow> started hp gr (Suc i) t \<longleftrightarrow> started hp gr i t \<or> t = gr_nodes gr ! i"
  by (auto simp: started_def take_Suc_conv_app_nth)

lemma takes_over_last:
  assumes ok: "graph_ok hp gr" and c: "counts hp gr (occs hp (drop i (gr_nodes gr))) (ga_hash g)" and i: "i < length (gr_nodes gr)"
    and t: "takes_over hp g (gr_nodes gr ! i) p" "planned (hp p)"
  shows "\<not> held hp gr (occs hp (drop (Suc i) (gr_nodes gr))) p"
proof -
  let ?ns = "gr_nodes gr"
  let ?R = "occs hp (drop (Suc i) ?ns)"
  have R: "occs hp (drop i ?ns) = srcs (hp (?ns ! i)) @ ?R" using drop_node [OF i] by simp
  have p: "p \<in> set (srcs (hp (?ns ! i)))" "\<not> has_flag FLAG_OUTPUT (hp p)" "hn_children (ga_hash g p) = 1" "hn_views (ga_hash g p) = 0"
    using t(1) by (simp_all add: takes_over_def)
  have "count_list (srcs (hp (?ns ! i))) p + count_list ?R p = 1" using c p(3) unfolding R counts_def by (simp flip: of_nat_add)
  moreover have "count_list (srcs (hp (?ns ! i))) p \<noteq> 0" using p(1) by (simp add: count_list_0_iff)
  ultimately have "count_list ?R p = 0" by linarith
  then have notR: "p \<notin> set ?R" by (simp add: count_list_0_iff)
  have empty: "counted_views hp gr (occs hp (drop i ?ns)) p = {}"
    using c p(4) t(2) by (simp add: counts_def)
  have "te_view_src (hp v) \<noteq> Some p" if v: "v \<in> set ?R" for v
  proof
    assume vp: "te_view_src (hp v) = Some p"
    have "v \<in> set (occs hp (drop i ?ns))" using v R by simp
    moreover from this have "v \<in> set ?ns \<and> te_op (hp v) \<noteq> OP_NONE"
      using graph_okD(5) [OF ok _ vp] occs_drop t(2) by (fastforce simp: planned_def)
    ultimately show False using empty vp by (auto simp: counted_views_def)
  qed
  then have "\<not> still_reads hp ?R p" using notR by (auto simp: still_reads_def)
  moreover have "still_reads hp (occs hp ?ns) p" using p(1) i by (auto simp: still_reads_def set_occs)
  ultimately show ?thesis using p(2) by (simp add: held_def)
qed

lemma plan_node_step:
  assumes run: "plan_node asz hp gr ids i g = Some g'" and ok: "graph_ok hp gr" and sz: "sizes_ok asz hp" and inv: "plan_inv asz hp gr i g"
    and i: "i < length (gr_nodes gr)"
  shows "plan_inv asz hp gr (Suc i) g' \<and> ga_grows g g' \<and> (\<forall>t. started hp gr i t \<longrightarrow> planned (hp t) \<longrightarrow> place g' t = place g t) \<and>
    (\<exists>g2. compute_inv asz hp gr i g2 \<and> ga_grows g2 g' \<and> (\<forall>t. place g' t = place g2 t))"
proof -
  let ?ns = "gr_nodes gr"
  define n where "n = ?ns ! i"
  let ?S = "srcs (hp n)" and ?R = "occs hp (drop (Suc i) ?ns)"
  have R: "occs hp (drop i ?ns) = ?S @ ?R" using drop_node [OF i] by (simp add: n_def)
  have inv': "ledger_ok asz hp g" "counts hp gr (?S @ ?R) (ga_hash g)" "holds hp gr i (?S @ ?R) {} g"
    using inv by (simp_all add: plan_inv_def R)
  obtain b g1 g2 where steps: "foldM (\<lambda>p. allocate_node asz hp p b) ?S g = Some g1" "allocate_node asz hp n b g1 = Some g2"
    "foldM (release_parent asz hp) ?S g2 = Some g'"
    using run i by (auto simp: plan_node_def n_def bind_eq_Some_conv vget_eq_Some)
  have "g1 = g"
  proof (rule foldM_invar [where P = "\<lambda>x. x = g", OF steps(1)])
    fix p t t'
    assume p: "p \<in> set ?S" "t = g" "allocate_node asz hp p b t = Some t'"
    have "started hp gr i p" using graph_okD(3) [OF ok i] p(1) by (auto simp: started_def n_def)
    moreover have "held hp gr (?S @ ?R) p" using p(1) by (simp add: held_def still_reads_def)
    ultimately have "planned (hp p) \<longrightarrow> hn_allocated (ga_hash g p)" using inv'(3) by (simp add: holds_def)
    then show "t' = g" using allocate_skip [of hp p] p(2,3) by blast
  qed simp
  then have run2: "allocate_node asz hp n b g = Some g2" using steps(2) by simp
  have self: "ggml_op_can_inplace (te_op (hp n)) \<longrightarrow> n \<notin> set ?S" using node_not_src [OF ok] i by (simp add: n_def)
  note al = allocate_node_step [OF run2 inv'(1) sz self]
  define X where "X = {t. hn_allocated (ga_hash g t) \<and> \<not> hn_allocated (ga_hash g2 t)}"
  have oneX: "\<exists>p. \<forall>t \<in> X. t = p \<and> takes_over hp g n t \<and> place g2 n = place g t" using al by (auto simp: X_def)
  have skipn: "g2 = g" if "started hp gr i n" "planned (hp n)"
  proof -
    have "held hp gr (?S @ ?R) n" using node_read_later [OF ok i n_def that(2)] unfolding R held_def by blast
    then show ?thesis using inv'(3) that allocate_skip(1) [OF that(2) _ run2] by (simp add: holds_def)
  qed
  have place2: "place g2 t = place g t" if t: "started hp gr i t" "planned (hp t)" for t
  proof (cases "t = n")
    case True
    then show ?thesis using skipn t by simp
  next
    case False
    then show ?thesis using al by simp
  qed
  have hold2: "holds hp gr (Suc i) (?S @ ?R) X g2"
    unfolding holds_def
  proof (intro allI impI)
    fix t
    assume t: "planned (hp t)" "started hp gr (Suc i) t" "t \<notin> X" "held hp gr (?S @ ?R) t"
    show "hn_allocated (ga_hash g2 t)"
    proof (cases "t = n")
      case True
      then show ?thesis using al t(1) by simp
    next
      case False
      then have "started hp gr i t" using t(2) started_Suc [OF i] by (simp add: n_def)
      then have "hn_allocated (ga_hash g t)" using inv'(3) t(1,4) by (simp add: holds_def)
      then show ?thesis using t(3) by (simp add: X_def)
    qed
  qed
  have countsR: "counts hp gr (occs hp (drop i ?ns)) (ga_hash g)" using inv'(2) by (simp add: R)
  have dropX: "\<not> held hp gr ?R p" "planned (hp p)" "p \<noteq> n" if p: "p \<in> X" for p
  proof -
    show pp: "planned (hp p)" using inv'(1) p by (simp add: X_def ledger_ok_def)
    have "takes_over hp g (?ns ! i) p" using oneX p by (auto simp: n_def)
    then show "\<not> held hp gr ?R p" by (rule takes_over_last [OF ok countsR i _ pp])
    show "p \<noteq> n" using oneX p node_not_src [OF ok] i by (auto simp: n_def takes_over_def)
  qed
  have sub: "set (?S @ ?R) \<subseteq> set (occs hp ?ns)" using occs_drop [of hp i ?ns] R by simp
  have counts2: "counts hp gr (?S @ ?R) (ga_hash g2)" using counts_same [OF inv'(2)] al by blast
  have rel: "ledger_ok asz hp g' \<and> ga_grows g2 g' \<and> counts hp gr ?R (ga_hash g') \<and> (\<forall>t. place g' t = place g2 t) \<and> holds hp gr (Suc i) ?R X g'"
    by (rule release_parents [OF steps(3) ok _ counts2 sub hold2]) (use al in simp)
  then have "holds hp gr (Suc i) ?R {} g'" using dropX(1) by (auto simp: holds_def)
  then have "plan_inv asz hp gr (Suc i) g'" using rel by (simp add: plan_inv_def)
  moreover have "ga_grows g g'" using al rel ga_grows_trans by blast
  moreover have "\<forall>t. started hp gr i t \<longrightarrow> planned (hp t) \<longrightarrow> place g' t = place g t" using place2 rel by simp
  moreover have "compute_inv asz hp gr i g2"
    unfolding compute_inv_def Let_def n_def [symmetric]
  proof (intro conjI exI [of _ X] ballI)
    show "ledger_ok asz hp g2" using al by simp
    show "holds hp gr (Suc i) (occs hp (drop i ?ns)) X g2" using hold2 by (simp add: R)
    fix p
    assume p: "p \<in> X"
    show "p = q" if "q \<in> X" for q using oneX p that by metis
    have to: "takes_over hp g n p" "place g2 n = place g p" using oneX p by blast+
    have "planned (hp n)"
    proof (rule ccontr)
      assume "\<not> planned (hp n)"
      then have "g2 = g" using allocate_skip(2) [OF _ run2] by simp
      then show False using p by (simp add: X_def)
    qed
    then show "hn_allocated (ga_hash g2 n)" using al by simp
    show "place g2 n = place g2 p" using al to(2) dropX(3) [OF p] by simp
    show "planned (hp p)" "p \<noteq> n" "\<not> held hp gr ?R p" using dropX [OF p] by simp_all
    show "ggml_op_can_inplace (te_op (hp n))" "p \<in> set ?S" "ggml_are_same_layout (hp n) (hp p)" using to(1) by (simp_all add: takes_over_def)
  qed
  ultimately show ?thesis using rel by blast
qed

end
