(* ===== verification/GraphMain.thy ===== *)
theory GraphMain
  imports GraphSafe
begin

text \<open>
  The plan of a whole graph: while a node is computed, the tensors that are live do not overlap.
\<close>

definition slot :: "gallocr \<Rightarrow> nat \<Rightarrow> nat" where
  "slot g t = ga_buf_tallocs g ! hn_buffer (ga_hash g t)"

definition tensor_size :: "(nat \<Rightarrow> tensor \<Rightarrow> nat) \<Rightarrow> heap \<Rightarrow> gallocr \<Rightarrow> nat \<Rightarrow> nat" where
  "tensor_size asz hp g t = asz (ga_bufts g ! hn_buffer (ga_hash g t)) (hp t)"

definition tensor_bytes :: "(nat \<Rightarrow> tensor \<Rightarrow> nat) \<Rightarrow> heap \<Rightarrow> gallocr \<Rightarrow> nat \<Rightarrow> nat set" where
  "tensor_bytes asz hp g t = {hn_offset (ga_hash g t)..<hn_offset (ga_hash g t) + tensor_size asz hp g t}"

text \<open>
  Tensor \<open>t\<close> is live at node \<open>i\<close>: it has been written, and it is read by this or a later node, or is an
  output, or nothing reads it.
\<close>

definition live :: "heap \<Rightarrow> graph \<Rightarrow> nat \<Rightarrow> nat \<Rightarrow> bool" where
  "live hp gr i t \<longleftrightarrow> planned (hp t) \<and> started hp gr (Suc i) t \<and> held hp gr (occs hp (drop i (gr_nodes gr))) t"

text \<open>Node \<open>s\<close> is computed in place of its source \<open>t\<close>, which nothing needs afterwards.\<close>

definition replaces :: "heap \<Rightarrow> graph \<Rightarrow> nat \<Rightarrow> nat \<Rightarrow> nat \<Rightarrow> bool" where
  "replaces hp gr i s t \<longleftrightarrow> s = gr_nodes gr ! i \<and> t \<in> set (srcs (hp s)) \<and> ggml_op_can_inplace (te_op (hp s)) \<and>
     ggml_are_same_layout (hp s) (hp t) \<and> \<not> held hp gr (occs hp (drop (Suc i) (gr_nodes gr))) t"

definition in_bounds :: "(nat \<Rightarrow> tensor \<Rightarrow> nat) \<Rightarrow> heap \<Rightarrow> gallocr \<Rightarrow> nat \<Rightarrow> bool" where
  "in_bounds asz hp g t \<longleftrightarrow> hn_buffer (ga_hash g t) < length (ga_bufts g) \<and> slot g t < length (ga_tallocs g) \<and>
     da_alignment (ga_tallocs g ! slot g t) dvd hn_offset (ga_hash g t) \<and>
     hn_offset (ga_hash g t) + tensor_size asz hp g t \<le> da_max_size (ga_tallocs g ! slot g t)"

subsection \<open>While a node is computed\<close>

lemma place_cong:
  assumes "place g s = place g t"
  shows "slot g s = slot g t" and "ggml_are_same_layout (hp s) (hp t) \<Longrightarrow> sizes_ok asz hp \<Longrightarrow> tensor_bytes asz hp g s = tensor_bytes asz hp g t"
    and "ggml_are_same_layout (hp s) (hp t) \<Longrightarrow> sizes_ok asz hp \<Longrightarrow> in_bounds asz hp g s = in_bounds asz hp g t"
  using assms by (simp_all add: place_def slot_def tensor_bytes_def tensor_size_def in_bounds_def sizes_ok_def)

lemma pad_ge:
  assumes "tallocr_ok a" "da_sized n"
  shows "n \<le> da_pad a n"
  using aligned_offset_0(3) [of "da_alignment a" n] assms by (simp add: da_pad_def tallocr_ok_blocks da_sized_def)

lemma allocated_entry:
  assumes ok: "ledger_ok asz hp g" and t: "hn_allocated (ga_hash g t)"
  shows "slot g t < length (ga_tallocs g)" and "hn_buffer (ga_hash g t) < length (ga_bufts g)"
    and "da.accounts {0..<SIZE_MAX div 2} (ga_tallocs g ! slot g t) (ledger asz hp g (slot g t))"
    and "ledger asz hp g (slot g t) t = Some (hn_offset (ga_hash g t), tensor_size asz hp g t)"
proof -
  show b: "hn_buffer (ga_hash g t) < length (ga_bufts g)" using ok t by (simp add: ledger_ok_def)
  then show k: "slot g t < length (ga_tallocs g)" using ok by (simp add: ledger_ok_def gallocr_ok_def slot_def)
  then show "da.accounts {0..<SIZE_MAX div 2} (ga_tallocs g ! slot g t) (ledger asz hp g (slot g t))" using ok by (simp add: ledger_ok_def)
  show "ledger asz hp g (slot g t) t = Some (hn_offset (ga_hash g t), tensor_size asz hp g t)"
    using t by (simp add: ledger_Some slot_def tensor_size_def)
qed

lemma tensor_bytes_range:
  assumes ok: "ledger_ok asz hp g" and t: "hn_allocated (ga_hash g t)"
  shows "tensor_bytes asz hp g t \<subseteq> range_of (da_pad (ga_tallocs g ! slot g t)) (hn_offset (ga_hash g t), tensor_size asz hp g t)" and "in_bounds asz hp g t"
proof -
  let ?a = "ga_tallocs g ! slot g t" and ?r = "(hn_offset (ga_hash g t), tensor_size asz hp g t)"
  note e = allocated_entry [OF ok t]
  have r: "da_placed ?a ?r" "da_sized (snd ?r)" "fst ?r + da_pad ?a (snd ?r) \<le> da_max_size ?a"
    using da.accounts_range [OF e(3,4)] by blast+
  have "tallocr_ok ?a" using e(3) by (simp add: da.accounts_def)
  then have le: "tensor_size asz hp g t \<le> da_pad ?a (tensor_size asz hp g t)" using pad_ge r(2) by simp
  then show "tensor_bytes asz hp g t \<subseteq> range_of (da_pad ?a) ?r" by (auto simp: tensor_bytes_def range_of_def)
  show "in_bounds asz hp g t" using e(1,2) r(1,3) le by (simp add: in_bounds_def da_placed_def)
qed

lemma allocated_apart:
  assumes ok: "ledger_ok asz hp g" and st: "hn_allocated (ga_hash g s)" "hn_allocated (ga_hash g t)" "s \<noteq> t" "slot g s = slot g t"
  shows "tensor_bytes asz hp g s \<inter> tensor_bytes asz hp g t = {}"
proof -
  note es = allocated_entry [OF ok st(1)] and et = allocated_entry [OF ok st(2)]
  have "range_of (da_pad (ga_tallocs g ! slot g t)) (hn_offset (ga_hash g s), tensor_size asz hp g s) \<inter>
      range_of (da_pad (ga_tallocs g ! slot g t)) (hn_offset (ga_hash g t), tensor_size asz hp g t) = {}"
    by (rule da.accounts_apart [OF et(3) es(4) [unfolded st(4)] et(4) st(3)])
  then show ?thesis using tensor_bytes_range(1) [OF ok st(1)] tensor_bytes_range(1) [OF ok st(2)] unfolding st(4) by blast
qed

text \<open>A live tensor is marked as allocated, or the node that is computed takes its place.\<close>

lemma compute_live:
  assumes inv: "compute_inv asz hp gr i g"
  shows "ledger_ok asz hp g"
    and "\<exists>p. \<forall>t. live hp gr i t \<longrightarrow> hn_allocated (ga_hash g t) \<or>
      (t = p \<and> place g (gr_nodes gr ! i) = place g t \<and> hn_allocated (ga_hash g (gr_nodes gr ! i)) \<and> t \<noteq> gr_nodes gr ! i \<and> replaces hp gr i (gr_nodes gr ! i) t)"
proof -
  show "ledger_ok asz hp g" using inv by (simp add: compute_inv_def)
  obtain X where X: "holds hp gr (Suc i) (occs hp (drop i (gr_nodes gr))) X g" "\<forall>p \<in> X. \<forall>q \<in> X. p = q"
    "\<forall>p \<in> X. place g (gr_nodes gr ! i) = place g p \<and> hn_allocated (ga_hash g (gr_nodes gr ! i)) \<and> p \<noteq> gr_nodes gr ! i \<and> replaces hp gr i (gr_nodes gr ! i) p"
    using inv by (auto simp: compute_inv_def Let_def replaces_def)
  obtain p where p: "\<forall>t \<in> X. t = p" using X(2) by metis
  show "\<exists>p. \<forall>t. live hp gr i t \<longrightarrow> hn_allocated (ga_hash g t) \<or>
      (t = p \<and> place g (gr_nodes gr ! i) = place g t \<and> hn_allocated (ga_hash g (gr_nodes gr ! i)) \<and> t \<noteq> gr_nodes gr ! i \<and> replaces hp gr i (gr_nodes gr ! i) t)"
    using X(1,3) p unfolding holds_def live_def by blast
qed

lemma compute_safe:
  assumes inv: "compute_inv asz hp gr i g" and sz: "sizes_ok asz hp" and t: "live hp gr i t"
  shows "in_bounds asz hp g t"
    and "live hp gr i s \<Longrightarrow> s \<noteq> t \<Longrightarrow> slot g s = slot g t \<Longrightarrow>
      tensor_bytes asz hp g s \<inter> tensor_bytes asz hp g t = {} \<or> replaces hp gr i s t \<or> replaces hp gr i t s"
proof -
  let ?n = "gr_nodes gr ! i"
  note ok = compute_live(1) [OF inv]
  obtain p where p: "\<forall>t. live hp gr i t \<longrightarrow> hn_allocated (ga_hash g t) \<or>
      (t = p \<and> place g ?n = place g t \<and> hn_allocated (ga_hash g ?n) \<and> t \<noteq> ?n \<and> replaces hp gr i ?n t)"
    using compute_live(2) [OF inv] by blast
  have moved: "slot g ?n = slot g u" "tensor_bytes asz hp g ?n = tensor_bytes asz hp g u" "in_bounds asz hp g ?n = in_bounds asz hp g u"
    if u: "place g ?n = place g u" "replaces hp gr i ?n u" for u
    using place_cong [OF u(1)] u(2) sz by (simp_all add: replaces_def)
  show "in_bounds asz hp g t"
  proof (cases "hn_allocated (ga_hash g t)")
    case True
    then show ?thesis by (rule tensor_bytes_range(2) [OF ok])
  next
    case False
    then have n: "place g ?n = place g t" "hn_allocated (ga_hash g ?n)" "replaces hp gr i ?n t" using p t by auto
    have "in_bounds asz hp g ?n" by (rule tensor_bytes_range(2) [OF ok n(2)])
    then show ?thesis using moved(3) [OF n(1,3)] by simp
  qed
  have gone: "tensor_bytes asz hp g u \<inter> tensor_bytes asz hp g w = {} \<or> replaces hp gr i u w"
    if u: "live hp gr i u" "hn_allocated (ga_hash g u)" and w: "live hp gr i w" "\<not> hn_allocated (ga_hash g w)" and same: "slot g u = slot g w" for u w
  proof -
    have n: "place g ?n = place g w" "hn_allocated (ga_hash g ?n)" "replaces hp gr i ?n w" using p w by auto
    show ?thesis
    proof (cases "u = ?n")
      case True
      then show ?thesis using n(3) by simp
    next
      case False
      then have "tensor_bytes asz hp g u \<inter> tensor_bytes asz hp g ?n = {}" using allocated_apart [OF ok u(2) n(2)] moved(1) [OF n(1,3)] same by simp
      then show ?thesis using moved(2) [OF n(1,3)] by simp
    qed
  qed
  assume s: "live hp gr i s" "s \<noteq> t" "slot g s = slot g t"
  show "tensor_bytes asz hp g s \<inter> tensor_bytes asz hp g t = {} \<or> replaces hp gr i s t \<or> replaces hp gr i t s"
  proof (cases "hn_allocated (ga_hash g s)")
    case True
    then show ?thesis using allocated_apart [OF ok True _ s(2,3)] gone [OF s(1) True t] s(3) by blast
  next
    case False
    then have "hn_allocated (ga_hash g t)" using p s(1,2) t by metis
    then show ?thesis using gone [OF t _ s(1) False] s(3) by auto
  qed
qed

subsection \<open>Leafs and inputs\<close>

lemma allocate_plain:
  assumes run: "allocate_node asz hp n b g = Some g'" and ok: "ledger_ok asz hp g" and sz: "sizes_ok asz hp" and op: "\<not> ggml_op_can_inplace (te_op (hp n))"
  shows "ledger_ok asz hp g' \<and> ga_grows g g' \<and> same_counts (ga_hash g) (ga_hash g') \<and> (planned (hp n) \<longrightarrow> hn_allocated (ga_hash g' n)) \<and>
    (\<forall>t. hn_allocated (ga_hash g t) \<longrightarrow> hn_allocated (ga_hash g' t))"
proof -
  note al = allocate_node_step [OF run ok sz]
  have "\<forall>t. hn_allocated (ga_hash g t) \<longrightarrow> hn_allocated (ga_hash g' t)" using al op by (auto simp: takes_over_def)
  then show ?thesis using al op by blast
qed

definition counting :: "heap \<Rightarrow> nat list \<Rightarrow> nat set \<Rightarrow> hash \<Rightarrow> bool" where
  "counting hp R V h \<longleftrightarrow> (\<forall>t. hn_children (h t) = int (count_list R t)) \<and>
     (\<forall>t. hn_views (h t) = int (card {v \<in> V. te_view_src (hp v) = Some t \<and> te_op (hp v) \<noteq> OP_NONE}))"

lemma counting_same: "counting hp R V h \<Longrightarrow> same_counts h h' \<Longrightarrow> counting hp R V h'"
  by (simp add: counting_def same_counts_def)

lemma counting_child: "counting hp R V h \<Longrightarrow> counting hp (R @ [s]) V (hash_upd s (\<lambda>x. x\<lparr>hn_children := hn_children x + 1\<rparr>) h)"
  by (simp add: counting_def hash_upd_def)

definition given :: "heap \<Rightarrow> graph \<Rightarrow> nat \<Rightarrow> nat \<Rightarrow> bool" where
  "given hp gr i t \<longleftrightarrow> t \<in> set (gr_leafs gr) \<or> (t \<in> set (take i (gr_nodes gr)) \<and> has_flag FLAG_INPUT (hp t))"

definition count_inv :: "(nat \<Rightarrow> tensor \<Rightarrow> nat) \<Rightarrow> heap \<Rightarrow> graph \<Rightarrow> nat \<Rightarrow> nat list \<Rightarrow> nat set \<Rightarrow> gallocr \<Rightarrow> bool" where
  "count_inv asz hp gr i R V g \<longleftrightarrow> ledger_ok asz hp g \<and> counting hp R V (ga_hash g) \<and>
     (\<forall>t. planned (hp t) \<longrightarrow> given hp gr i t \<longrightarrow> hn_allocated (ga_hash g t))"

lemma count_inv_allocate:
  assumes inv: "count_inv asz hp gr i R V g" and sz: "sizes_ok asz hp" and run: "allocate_node asz hp n b g = Some g'"
    and op: "\<not> ggml_op_can_inplace (te_op (hp n))"
  shows "count_inv asz hp gr i R V g' \<and> ga_grows g g' \<and> (planned (hp n) \<longrightarrow> hn_allocated (ga_hash g' n))"
proof -
  have ok: "ledger_ok asz hp g" using inv by (simp add: count_inv_def)
  show ?thesis using allocate_plain [OF run ok sz op] inv counting_same by (auto simp: count_inv_def)
qed

lemma count_inv_hash:
  assumes inv: "count_inv asz hp gr i R V g" and h: "same_places (ga_hash g) h" "counting hp R' V' h"
  shows "count_inv asz hp gr i R' V' (g\<lparr>ga_hash := h\<rparr>)"
  using inv ledger_ok_same [OF _ h(1)] h unfolding count_inv_def by (simp add: same_places_def)

lemma count_src_step:
  assumes run: "count_src asz hp ids j s g = Some g'" and inv: "count_inv asz hp gr i R V g" and sz: "sizes_ok asz hp"
    and op: "has_flag FLAG_INPUT (hp s) \<Longrightarrow> \<not> ggml_op_can_inplace (te_op (hp s))"
  shows "count_inv asz hp gr i (R @ [s]) V g' \<and> ga_grows g g'"
proof -
  let ?h = "hash_upd s (\<lambda>x. x\<lparr>hn_children := hn_children x + 1\<rparr>) (ga_hash g)"
  have "counting hp (R @ [s]) V ?h" using counting_child inv by (simp add: count_inv_def)
  then have inv1: "count_inv asz hp gr i (R @ [s]) V (g\<lparr>ga_hash := ?h\<rparr>)" using count_inv_hash [OF inv] by simp
  show ?thesis
  proof (cases "has_flag FLAG_INPUT (hp s)")
    case False
    then have "g' = g\<lparr>ga_hash := ?h\<rparr>" using run by (simp add: count_src_def Let_def)
    then show ?thesis using inv1 by simp
  next
    case True
    then obtain b where b: "allocate_node asz hp s b (g\<lparr>ga_hash := ?h\<rparr>) = Some g'"
      using run by (auto simp: count_src_def Let_def bind_eq_Some_conv)
    have "ga_grows g (g\<lparr>ga_hash := ?h\<rparr>)" by simp
    then show ?thesis using count_inv_allocate [OF inv1 sz b op [OF True]] ga_grows_trans by blast
  qed
qed

lemma count_srcs:
  assumes "foldM (count_src asz hp ids j) ss g = Some g'" and "count_inv asz hp gr i R V g" and "sizes_ok asz hp"
    and "\<And>s. s \<in> set ss \<Longrightarrow> has_flag FLAG_INPUT (hp s) \<Longrightarrow> \<not> ggml_op_can_inplace (te_op (hp s))"
  shows "count_inv asz hp gr i (R @ ss) V g' \<and> ga_grows g g'"
  using assms
proof (induction ss arbitrary: g R)
  case (Cons s ss)
  obtain g1 where g1: "count_src asz hp ids j s g = Some g1" "foldM (count_src asz hp ids j) ss g1 = Some g'"
    using Cons.prems(1) by (auto split: option.splits)
  have step: "count_inv asz hp gr i (R @ [s]) V g1 \<and> ga_grows g g1"
    by (rule count_src_step [OF g1(1) Cons.prems(2,3)]) (use Cons.prems(4) in simp)
  then have "count_inv asz hp gr i ((R @ [s]) @ ss) V g' \<and> ga_grows g1 g'"
    by (intro Cons.IH [OF g1(2) _ Cons.prems(3)]) (use step Cons.prems(4) in simp_all)
  then show ?case using step ga_grows_trans by auto
qed simp

lemma input_not_inplace:
  assumes ok: "graph_ok hp gr" and i: "i < length (gr_nodes gr)" and s: "s \<in> set (srcs (hp (gr_nodes gr ! i)))" "has_flag FLAG_INPUT (hp s)"
  shows "\<not> ggml_op_can_inplace (te_op (hp s))"
proof (cases "s \<in> set (gr_leafs gr)")
  case True
  then show ?thesis by (rule graph_okD(6) [OF ok])
next
  case False
  then have "s \<in> set (take i (gr_nodes gr))" using graph_okD(3) [OF ok i s(1)] by blast
  then show ?thesis using graph_okD(7) [OF ok _ s(2)] by (blast dest: in_set_takeD)
qed

lemma counting_view:
  assumes c: "counting hp R V h" and v: "finite V" "n \<notin> V"
  shows "counting hp R (insert n V) (case te_view_src (hp n) of
      Some r \<Rightarrow> if te_op (hp n) \<noteq> OP_NONE then hash_upd r (\<lambda>x. x\<lparr>hn_views := hn_views x + 1\<rparr>) h else h | None \<Rightarrow> h)"
proof -
  let ?A = "\<lambda>V t. {v \<in> V. te_view_src (hp v) = Some t \<and> te_op (hp v) \<noteq> OP_NONE}"
  have "?A (insert n V) t = (if te_view_src (hp n) = Some t \<and> te_op (hp n) \<noteq> OP_NONE then insert n (?A V t) else ?A V t)" for t by auto
  then have "card (?A (insert n V) t) = card (?A V t) + (if te_view_src (hp n) = Some t \<and> te_op (hp n) \<noteq> OP_NONE then 1 else 0)" for t
    using v by simp
  then show ?thesis using c by (auto simp: counting_def hash_upd_def split: option.splits)
qed

lemma count_node_step:
  assumes run: "count_node asz hp gr ids i g = Some g'" and ok: "graph_ok hp gr" and sz: "sizes_ok asz hp" and i: "i < length (gr_nodes gr)"
    and inv: "count_inv asz hp gr i (occs hp (take i (gr_nodes gr))) (set (take i (gr_nodes gr))) g"
  shows "count_inv asz hp gr (Suc i) (occs hp (take (Suc i) (gr_nodes gr))) (set (take (Suc i) (gr_nodes gr))) g' \<and> ga_grows g g'"
proof -
  let ?ns = "gr_nodes gr"
  define n where "n = ?ns ! i"
  define h where "h = (case te_view_src (hp n) of
      Some r \<Rightarrow> if te_op (hp n) \<noteq> OP_NONE then hash_upd r (\<lambda>x. x\<lparr>hn_views := hn_views x + 1\<rparr>) (ga_hash g) else ga_hash g | None \<Rightarrow> ga_hash g)"
  have take_Suc: "take (Suc i) ?ns = take i ?ns @ [n]" using i by (simp add: n_def take_Suc_conv_app_nth)
  have "same_places (ga_hash g) h" by (auto simp: h_def same_places_def hash_upd_def split: option.splits)
  moreover have "counting hp (occs hp (take i ?ns)) (insert n (set (take i ?ns))) h"
    unfolding h_def by (rule counting_view) (use inv not_before(1) [OF ok i] in \<open>simp_all add: count_inv_def n_def\<close>)
  ultimately have inv1: "count_inv asz hp gr i (occs hp (take i ?ns)) (set (take (Suc i) ?ns)) (g\<lparr>ga_hash := h\<rparr>)"
    using count_inv_hash [OF inv] by (simp add: take_Suc)
  have g1: "(case te_view_src (hp n) of
        Some r \<Rightarrow> if te_op (hp n) \<noteq> OP_NONE then g\<lparr>ga_hash := hash_upd r (\<lambda>x. x\<lparr>hn_views := hn_views x + 1\<rparr>) (ga_hash g)\<rparr> else g
      | None \<Rightarrow> g) = g\<lparr>ga_hash := h\<rparr>"
    by (simp add: h_def split: option.splits)
  obtain g2 where g2: "(if has_flag FLAG_INPUT (hp n) then do { b \<leftarrow> get_node_buffer_id ids i; allocate_node asz hp n b (g\<lparr>ga_hash := h\<rparr>) }
      else Some (g\<lparr>ga_hash := h\<rparr>)) = Some g2" "foldM (count_src asz hp ids i) (srcs (hp n)) g2 = Some g'"
    using run i unfolding count_node_def by (simp only: vget_Some bind.bind_lunit Let_def n_def [symmetric] g1 bind_eq_Some_conv) blast
  have inv2: "count_inv asz hp gr (Suc i) (occs hp (take i ?ns)) (set (take (Suc i) ?ns)) g2 \<and> ga_grows g g2"
  proof (cases "has_flag FLAG_INPUT (hp n)")
    case False
    then have "g2 = g\<lparr>ga_hash := h\<rparr>" using g2(1) by simp
    moreover have "given hp gr (Suc i) t \<longleftrightarrow> given hp gr i t" for t using False by (auto simp: given_def take_Suc)
    ultimately show ?thesis using inv1 by (simp add: count_inv_def)
  next
    case True
    then obtain b where b: "allocate_node asz hp n b (g\<lparr>ga_hash := h\<rparr>) = Some g2" using g2(1) by (auto simp: bind_eq_Some_conv)
    have "\<not> ggml_op_can_inplace (te_op (hp n))" using graph_okD(7) [OF ok _ True] i by (simp add: n_def)
    then have "count_inv asz hp gr i (occs hp (take i ?ns)) (set (take (Suc i) ?ns)) g2 \<and> ga_grows (g\<lparr>ga_hash := h\<rparr>) g2 \<and>
        (planned (hp n) \<longrightarrow> hn_allocated (ga_hash g2 n))"
      by (rule count_inv_allocate [OF inv1 sz b])
    moreover from this have "ga_grows g g2" using ga_grows_trans [of g "g\<lparr>ga_hash := h\<rparr>" g2] by simp
    moreover have "given hp gr (Suc i) t \<longleftrightarrow> given hp gr i t \<or> t = n" for t using True by (auto simp: given_def take_Suc)
    ultimately show ?thesis by (auto simp: count_inv_def)
  qed
  have "count_inv asz hp gr (Suc i) (occs hp (take i ?ns) @ srcs (hp n)) (set (take (Suc i) ?ns)) g' \<and> ga_grows g2 g'"
    by (rule count_srcs [OF g2(2) _ sz]) (use inv2 input_not_inplace [OF ok i] in \<open>simp_all add: n_def\<close>)
  then show ?thesis using inv2 ga_grows_trans by (auto simp: take_Suc)
qed

subsection \<open>The whole plan\<close>

text \<open>An allocator as it is after a reset.\<close>

definition fresh :: "gallocr \<Rightarrow> bool" where
  "fresh g \<longleftrightarrow> gallocr_ok g \<and> (\<forall>a \<in> set (ga_tallocs g). 0 < da_alignment a \<and> da_alignment a < 2 ^ 32 \<and> dyn_tallocr_reset a = a)"

lemma reset_new: "dyn_tallocr_reset a = dyn_tallocr_new (da_alignment a)"
  by (simp add: dyn_tallocr_new_def dyn_tallocr_reset_def)

lemma fresh_count_inv:
  assumes "fresh g"
  shows "count_inv asz hp (gr\<lparr>gr_leafs := []\<rparr>) 0 [] {} (g\<lparr>ga_hash := (\<lambda>_. empty_node)\<rparr>)"
proof -
  have acc: "da.accounts {0..<SIZE_MAX div 2} (ga_tallocs g ! k) (\<lambda>_ :: nat. None)" if "k < length (ga_tallocs g)" for k
  proof -
    let ?a = "ga_tallocs g ! k"
    have "?a \<in> set (ga_tallocs g)" using that by simp
    then have a: "0 < da_alignment ?a" "da_alignment ?a < 2 ^ 32" "?a = dyn_tallocr_new (da_alignment ?a)"
      using assms reset_new [of ?a] by (simp_all add: fresh_def)
    then have "tallocr_ok ?a" "free_set ?a = {0..<SIZE_MAX div 2}" using dyn_tallocr_new_ok [OF a(1,2)] by metis+
    then show ?thesis using da.accounts_start [of ?a] by simp
  qed
  have "ledger asz hp (g\<lparr>ga_hash := (\<lambda>_. empty_node)\<rparr>) k = (\<lambda>_. None)" for k by (simp add: ledger_def empty_node_def fun_eq_iff)
  then show ?thesis using assms acc
    by (simp add: count_inv_def ledger_ok_def fresh_def gallocr_ok_def counting_def given_def empty_node_def)
qed

lemma alloc_leafs:
  assumes run: "foldM (alloc_leaf asz hp gr ids) [0..<length (gr_leafs gr)] g = Some g'" and ok: "graph_ok hp gr" and sz: "sizes_ok asz hp"
    and inv: "count_inv asz hp (gr\<lparr>gr_leafs := []\<rparr>) 0 [] {} g"
  shows "count_inv asz hp gr 0 [] {} g' \<and> ga_grows g g'"
proof -
  let ?P = "\<lambda>i t. count_inv asz hp (gr\<lparr>gr_leafs := take i (gr_leafs gr)\<rparr>) 0 [] {} t \<and> ga_grows g t"
  have "?P (length (gr_leafs gr)) g'"
  proof (rule foldM_upt_invar [where P = ?P, OF run])
    show "?P 0 g" using inv by simp
    fix j t t'
    assume j: "j < length (gr_leafs gr)" and P: "?P j t" and step: "alloc_leaf asz hp gr ids j t = Some t'"
    obtain b where b: "allocate_node asz hp (gr_leafs gr ! j) b t = Some t'"
      using step j by (auto simp: alloc_leaf_def bind_eq_Some_conv vget_eq_Some)
    have "count_inv asz hp (gr\<lparr>gr_leafs := take j (gr_leafs gr)\<rparr>) 0 [] {} t' \<and> ga_grows t t' \<and>
        (planned (hp (gr_leafs gr ! j)) \<longrightarrow> hn_allocated (ga_hash t' (gr_leafs gr ! j)))"
      by (rule count_inv_allocate [OF _ sz b]) (use P graph_okD(6) [OF ok] j in auto)
    then show "?P (Suc j) t'" using P ga_grows_trans j by (auto simp: count_inv_def given_def take_Suc_conv_app_nth)
  qed simp
  then show ?thesis by simp
qed

lemma counting_counts:
  assumes ok: "graph_ok hp gr" and c: "counting hp (occs hp (gr_nodes gr)) (set (gr_nodes gr)) h"
  shows "counts hp gr (occs hp (gr_nodes gr)) h"
proof -
  have "counted_views hp gr (occs hp (gr_nodes gr)) t = {v \<in> set (gr_nodes gr). te_view_src (hp v) = Some t \<and> te_op (hp v) \<noteq> OP_NONE}" for t
    by (auto simp: counted_views_def)
  moreover have "{v \<in> set (gr_nodes gr). te_view_src (hp v) = Some t \<and> te_op (hp v) \<noteq> OP_NONE} = {}" if "te_view_src (hp t) \<noteq> None" for t
    using graph_okD(4) [OF ok, of _ t] that by (auto simp: in_set_conv_nth)
  ultimately show ?thesis using c by (simp add: counts_def counting_def)
qed

lemma alloc_graph_start:
  assumes run: "alloc_graph_impl asz hp gr nids lids g = Some g'" and g: "fresh g" and ok: "graph_ok hp gr" and sz: "sizes_ok asz hp"
  shows "\<exists>g1. plan_inv asz hp gr 0 g1 \<and> ga_grows g g1 \<and> foldM (plan_node asz hp gr nids) [0..<length (gr_nodes gr)] g1 = Some g'"
proof -
  let ?ns = "gr_nodes gr" and ?g0 = "g\<lparr>ga_hash := (\<lambda>_. empty_node)\<rparr>"
  obtain g1 g2 where r: "foldM (alloc_leaf asz hp gr lids) [0..<length (gr_leafs gr)] ?g0 = Some g1"
    "foldM (count_node asz hp gr nids) [0..<length ?ns] g1 = Some g2" "foldM (plan_node asz hp gr nids) [0..<length ?ns] g2 = Some g'"
    using run by (auto simp: alloc_graph_impl_def Let_def bind_eq_Some_conv)
  have l: "count_inv asz hp gr 0 [] {} g1 \<and> ga_grows ?g0 g1" by (rule alloc_leafs [OF r(1) ok sz fresh_count_inv [OF g]])
  let ?P = "\<lambda>i t. count_inv asz hp gr i (occs hp (take i ?ns)) (set (take i ?ns)) t \<and> ga_grows g1 t"
  have "?P (length ?ns) g2"
  proof (rule foldM_upt_invar [where P = ?P, OF r(2)])
    show "?P 0 g1" using l by simp
    fix j t t'
    assume j: "j < length ?ns" and P: "?P j t" and step: "count_node asz hp gr nids j t = Some t'"
    then show "?P (Suc j) t'" using count_node_step [OF step ok sz j] ga_grows_trans by blast
  qed simp
  then have c: "ledger_ok asz hp g2" "counts hp gr (occs hp ?ns) (ga_hash g2)" "ga_grows g1 g2"
    "\<forall>t. planned (hp t) \<longrightarrow> given hp gr (length ?ns) t \<longrightarrow> hn_allocated (ga_hash g2 t)"
    using counting_counts [OF ok] by (simp_all add: count_inv_def)
  have "started hp gr 0 t \<longleftrightarrow> given hp gr (length ?ns) t" for t by (simp add: started_def given_def)
  then have "plan_inv asz hp gr 0 g2" using c by (simp add: plan_inv_def holds_def)
  moreover have "ga_grows g g2" using l c(3) ga_grows_trans by (metis ga_grows_refl(2))
  ultimately show ?thesis using r(3) by blast
qed

lemma started_mono: "started hp gr i t \<Longrightarrow> i \<le> j \<Longrightarrow> started hp gr j t"
  by (auto simp: started_def dest: set_take_subset_set_take [THEN subsetD])

lemma foldM_split:
  assumes "foldM f [0..<n] s = Some s'" "i < n"
  shows "\<exists>t t'. foldM f [0..<i] s = Some t \<and> f i t = Some t' \<and> foldM f [Suc i..<n] t' = Some s'"
proof -
  have "[0..<n] = [0..<i] @ i # [Suc i..<n]" using assms(2) upt_add_eq_append [of 0 i "n - i"] by (simp add: upt_conv_Cons)
  then show ?thesis using assms(1) by (auto simp: foldM_append bind_eq_Some_conv split: option.splits)
qed

lemma alloc_graph_compute:
  assumes run: "alloc_graph_impl asz hp gr nids lids g = Some g'" and g: "fresh g" and ok: "graph_ok hp gr" and sz: "sizes_ok asz hp"
    and i: "i < length (gr_nodes gr)"
  shows "\<exists>g2. compute_inv asz hp gr i g2 \<and> ga_grows g2 g' \<and> (\<forall>t. started hp gr (Suc i) t \<longrightarrow> planned (hp t) \<longrightarrow> place g' t = place g2 t)"
proof -
  let ?n = "length (gr_nodes gr)"
  obtain g1 where g1: "plan_inv asz hp gr 0 g1" "foldM (plan_node asz hp gr nids) [0..<?n] g1 = Some g'"
    using alloc_graph_start [OF run g ok sz] by blast
  obtain t t' where t: "foldM (plan_node asz hp gr nids) [0..<i] g1 = Some t" "plan_node asz hp gr nids i t = Some t'"
    "foldM (plan_node asz hp gr nids) [Suc i..<?n] t' = Some g'"
    using foldM_split [OF g1(2) i] by blast
  have "plan_inv asz hp gr i t"
    by (rule foldM_upt_invar [where P = "plan_inv asz hp gr", OF t(1) g1(1)]) (use plan_node_step [OF _ ok sz] i in auto)
  note step = plan_node_step [OF t(2) ok sz this i]
  obtain g2 where g2: "compute_inv asz hp gr i g2" "ga_grows g2 t'" "\<forall>u. place t' u = place g2 u" using step by blast
  let ?P = "\<lambda>j x. plan_inv asz hp gr j x \<and> ga_grows t' x \<and> (\<forall>u. started hp gr (Suc i) u \<longrightarrow> planned (hp u) \<longrightarrow> place x u = place t' u)"
  have "?P ?n g'"
  proof (rule foldM_upt_invar [where P = ?P, OF t(3)])
    show "?P (Suc i) t'" using step by simp
    fix j x x'
    assume j: "Suc i \<le> j" "j < ?n" and P: "?P j x" and run_j: "plan_node asz hp gr nids j x = Some x'"
    have "plan_inv asz hp gr j x" using P by simp
    note s = plan_node_step [OF run_j ok sz this j(2)]
    have "place x' u = place t' u" if u: "started hp gr (Suc i) u" "planned (hp u)" for u
      using s P u started_mono [OF u(1) j(1)] by simp
    then show "?P (Suc j) x'" using s P ga_grows_trans by blast
  qed (use i in simp)
  then have "ga_grows t' g'" "\<forall>u. started hp gr (Suc i) u \<longrightarrow> planned (hp u) \<longrightarrow> place g' u = place t' u" by simp_all
  moreover from this have "ga_grows g2 g'" using ga_grows_trans [OF g2(2)] by simp
  ultimately show ?thesis using g2 by auto
qed

end
