(* ===== verification/GraphAttach.thy ===== *)
theory GraphAttach
  imports GraphReserve GraphMain
begin

text \<open>
  The buffers of the planner: buffers that share an allocator have one type, and after a reservation every
  buffer is there and holds what its allocator measured.
\<close>

definition handle_ok :: "world \<Rightarrow> nat \<Rightarrow> nat option \<Rightarrow> bool" where
  "handle_ok w ty b \<longleftrightarrow> (\<forall>h. b = Some h \<longrightarrow> h < length w \<and> bu_type (w ! h) = ty \<and> (bu_size (w ! h) \<noteq> 0 \<longrightarrow> bu_base (w ! h) \<noteq> 0))"

definition pool_ok :: "gallocr \<Rightarrow> world \<Rightarrow> bool" where
  "pool_ok g w \<longleftrightarrow> length (ga_buf_tallocs g) = length (ga_bufts g) \<and> length (ga_buffers g) = length (ga_bufts g) \<and>
     set (ga_buf_tallocs g) = {..<length (ga_tallocs g)} \<and>
     (\<forall>i < length (ga_bufts g). \<forall>j < length (ga_bufts g). ga_buf_tallocs g ! i = ga_buf_tallocs g ! j \<longrightarrow> ga_bufts g ! i = ga_bufts g ! j) \<and>
     (\<forall>i < length (ga_bufts g). \<forall>j < length (ga_bufts g). \<forall>h. ga_buffers g ! i = Some h \<longrightarrow> ga_buffers g ! j = Some h \<longrightarrow>
        ga_buf_tallocs g ! i = ga_buf_tallocs g ! j) \<and>
     (\<forall>a \<in> set (ga_tallocs g). 0 < da_alignment a \<and> da_alignment a < 2 ^ 32) \<and>
     (\<forall>i < length (ga_bufts g). handle_ok w (ga_bufts g ! i) (ga_buffers g ! i))"

lemma pool_okD:
  assumes "pool_ok g w"
  shows "length (ga_buf_tallocs g) = length (ga_bufts g)" and "length (ga_buffers g) = length (ga_bufts g)"
    and "set (ga_buf_tallocs g) = {..<length (ga_tallocs g)}"
    and "i < length (ga_bufts g) \<Longrightarrow> j < length (ga_bufts g) \<Longrightarrow> ga_buf_tallocs g ! i = ga_buf_tallocs g ! j \<Longrightarrow> ga_bufts g ! i = ga_bufts g ! j"
    and "a \<in> set (ga_tallocs g) \<Longrightarrow> 0 < da_alignment a \<and> da_alignment a < 2 ^ 32"
    and "i < length (ga_bufts g) \<Longrightarrow> handle_ok w (ga_bufts g ! i) (ga_buffers g ! i)"
    and "i < length (ga_bufts g) \<Longrightarrow> j < length (ga_bufts g) \<Longrightarrow> ga_buffers g ! i = Some h \<Longrightarrow> ga_buffers g ! j = Some h \<Longrightarrow>
      ga_buf_tallocs g ! i = ga_buf_tallocs g ! j"
  using assms unfolding pool_ok_def by blast+

lemma pool_gallocr: "pool_ok g w \<Longrightarrow> gallocr_ok g"
  by (simp add: pool_ok_def gallocr_ok_def)

subsection \<open>A new planner\<close>

definition new_inv :: "(nat \<Rightarrow> nat) \<Rightarrow> nat list \<Rightarrow> nat \<Rightarrow> gallocr \<Rightarrow> bool" where
  "new_inv alignment bufts i g \<longleftrightarrow> ga_bufts g = bufts \<and> ga_buffers g = replicate (length bufts) None \<and> length (ga_buf_tallocs g) = i \<and>
     set (ga_buf_tallocs g) = {..<length (ga_tallocs g)} \<and>
     (\<forall>j < i. \<forall>k < i. ga_buf_tallocs g ! j = ga_buf_tallocs g ! k \<longleftrightarrow> bufts ! j = bufts ! k) \<and>
     (\<forall>j < i. ga_tallocs g ! (ga_buf_tallocs g ! j) = dyn_tallocr_new (alignment (bufts ! j)))"

lemma new_buffer_step:
  assumes inv: "new_inv alignment bufts i g" and i: "i < length bufts"
  shows "new_inv alignment bufts (Suc i) (new_buffer alignment bufts i g)"
proof -
  have g: "ga_bufts g = bufts" "ga_buffers g = replicate (length bufts) None" "length (ga_buf_tallocs g) = i"
    "set (ga_buf_tallocs g) = {..<length (ga_tallocs g)}" "\<forall>j < i. \<forall>k < i. ga_buf_tallocs g ! j = ga_buf_tallocs g ! k \<longleftrightarrow> bufts ! j = bufts ! k"
    "\<forall>j < i. ga_tallocs g ! (ga_buf_tallocs g ! j) = dyn_tallocr_new (alignment (bufts ! j))"
    using inv by (simp_all add: new_inv_def)
  have lt: "ga_buf_tallocs g ! j < length (ga_tallocs g)" if "j < i" for j
    using nth_mem [of j "ga_buf_tallocs g"] that g(3) unfolding g(4) by simp
  show ?thesis
  proof (cases "find (\<lambda>j. bufts ! i = bufts ! j) [0..<i]")
    case (Some j)
    then have j: "j < i" "bufts ! i = bufts ! j" by (auto simp: find_Some_iff)
    have "set (ga_buf_tallocs g @ [ga_buf_tallocs g ! j]) = {..<length (ga_tallocs g)}" using g(4) lt [OF j(1)] by auto
    moreover have "\<forall>a < Suc i. \<forall>b < Suc i. (ga_buf_tallocs g @ [ga_buf_tallocs g ! j]) ! a = (ga_buf_tallocs g @ [ga_buf_tallocs g ! j]) ! b \<longleftrightarrow> bufts ! a = bufts ! b"
      using g(3,5) j by (simp add: nth_append less_Suc_eq)
    ultimately show ?thesis using g j Some unfolding new_inv_def new_buffer_def by (simp add: nth_append less_Suc_eq)
  next
    case None
    then have none: "bufts ! i \<noteq> bufts ! j" if "j < i" for j using that by (auto simp: find_None_iff)
    let ?n = "length (ga_tallocs g)"
    have "set (ga_buf_tallocs g @ [?n]) = {..<Suc ?n}" by (simp add: g(4) lessThan_Suc)
    moreover have "(ga_buf_tallocs g @ [?n]) ! a = (ga_buf_tallocs g @ [?n]) ! b \<longleftrightarrow> bufts ! a = bufts ! b" if "a < Suc i" "b < Suc i" for a b
    proof (cases "a = i"; cases "b = i")
      assume "a = i" "b \<noteq> i"
      then show ?thesis using that(2) lt [of b] none [of b] g(3) by (simp add: nth_append)
    next
      assume "a \<noteq> i" "b = i"
      then show ?thesis using that(1) lt [of a] none [of a] g(3) by (simp add: nth_append)
    qed (use that g(3,5) in \<open>simp_all add: nth_append\<close>)
    ultimately show ?thesis using g lt None unfolding new_inv_def new_buffer_def by (simp add: nth_append less_Suc_eq)
  qed
qed

lemma gallocr_new_ok:
  assumes al: "\<And>ty. ty \<in> set bufts \<Longrightarrow> 0 < alignment ty \<and> alignment ty < 2 ^ 32"
  shows "pool_ok (ggml_gallocr_new_n alignment bufts) w"
proof -
  let ?g0 = "\<lparr>ga_bufts = bufts, ga_buffers = replicate (length bufts) None, ga_buf_tallocs = [], ga_tallocs = [],
        ga_hash = (\<lambda>_. empty_node), ga_node_allocs = [], ga_leaf_allocs = []\<rparr>"
  have "i \<le> length bufts \<Longrightarrow> new_inv alignment bufts i (fold (new_buffer alignment bufts) [0..<i] ?g0)" for i
  proof (induction i)
    case 0
    then show ?case by (simp add: new_inv_def)
  next
    case (Suc i)
    then show ?case using new_buffer_step by simp
  qed
  then have inv: "new_inv alignment bufts (length bufts) (ggml_gallocr_new_n alignment bufts)" by (simp add: ggml_gallocr_new_n_def)
  let ?g = "ggml_gallocr_new_n alignment bufts"
  have "0 < da_alignment a \<and> da_alignment a < 2 ^ 32" if a: "a \<in> set (ga_tallocs ?g)" for a
  proof -
    obtain k where k: "k < length (ga_tallocs ?g)" "a = ga_tallocs ?g ! k" using a by (auto simp: in_set_conv_nth)
    then have "k \<in> set (ga_buf_tallocs ?g)" using inv by (simp add: new_inv_def)
    then obtain j where "j < length bufts" "ga_buf_tallocs ?g ! j = k" using inv by (auto simp: in_set_conv_nth new_inv_def)
    then have "a = dyn_tallocr_new (alignment (bufts ! j))" "bufts ! j \<in> set bufts" using inv k(2) by (auto simp: new_inv_def)
    then show ?thesis using al by (simp add: dyn_tallocr_new_def dyn_tallocr_reset_def)
  qed
  then show ?thesis using inv by (simp add: new_inv_def pool_ok_def handle_ok_def)
qed

subsection \<open>Resetting\<close>

lemma fold_reset:
  "length (fold (\<lambda>k ts. ts[k := f (ts ! k)]) ks ts) = length ts"
  "(\<And>x. f (f x) = f x) \<Longrightarrow> j < length ts \<Longrightarrow> fold (\<lambda>k ts. ts[k := f (ts ! k)]) ks ts ! j = (if j \<in> set ks then f (ts ! j) else ts ! j)"
proof (induction ks arbitrary: ts)
  case (Cons k ks)
  { case 1 show ?case using Cons.IH(1) by simp
  next
    case 2
    then show ?case using Cons.IH(2) [of "ts[k := f (ts ! k)]"] by (cases "j = k") auto }
qed simp_all

lemma reset_fresh:
  assumes "pool_ok g w"
  shows "pool_ok (reset_tallocs g) w" and "fresh (reset_tallocs g)"
proof -
  have idem: "dyn_tallocr_reset (dyn_tallocr_reset a) = dyn_tallocr_reset a" for a by (simp add: dyn_tallocr_reset_def)
  have nth: "ga_tallocs (reset_tallocs g) ! j = dyn_tallocr_reset (ga_tallocs g ! j)" if "j < length (ga_tallocs g)" for j
    using fold_reset(2) [of dyn_tallocr_reset, OF idem that] that assms by (simp add: reset_tallocs_def pool_ok_def)
  have len: "length (ga_tallocs (reset_tallocs g)) = length (ga_tallocs g)" by (simp add: reset_tallocs_def fold_reset(1))
  have al: "0 < da_alignment a \<and> da_alignment a < 2 ^ 32 \<and> dyn_tallocr_reset a = a" if in_a: "a \<in> set (ga_tallocs (reset_tallocs g))" for a
  proof -
    obtain j where j: "j < length (ga_tallocs g)" "a = dyn_tallocr_reset (ga_tallocs g ! j)"
      using in_a nth len unfolding in_set_conv_nth by metis
    then have "da_alignment a = da_alignment (ga_tallocs g ! j)" by (simp add: dyn_tallocr_reset_def)
    then show ?thesis using assms j idem by (auto simp: pool_ok_def)
  qed
  have same: "ga_bufts (reset_tallocs g) = ga_bufts g" "ga_buf_tallocs (reset_tallocs g) = ga_buf_tallocs g" "ga_buffers (reset_tallocs g) = ga_buffers g"
    by (simp_all add: reset_tallocs_def)
  show "pool_ok (reset_tallocs g) w" using assms al unfolding pool_ok_def same len by blast
  then show "fresh (reset_tallocs g)" using al pool_gallocr by (simp add: fresh_def)
qed

text \<open>
  A reservation is good for its graph: every buffer holds what was measured, the graph fits the plan, and
  attaching the tensors gives each its planned address.
\<close>

subsection \<open>The buffers\<close>

text \<open>What a backend promises about the memory it hands out.\<close>

definition iface_ok :: "(nat \<Rightarrow> nat \<Rightarrow> world \<Rightarrow> (nat \<times> nat) option) \<Rightarrow> bool" where
  "iface_ok iface \<longleftrightarrow> (\<forall>ty n w base m. iface ty n w = Some (base, m) \<longrightarrow> base \<noteq> 0 \<and> n \<le> m)"

definition ready :: "gallocr \<Rightarrow> world \<Rightarrow> nat \<Rightarrow> bool" where
  "ready g w i \<longleftrightarrow> (\<forall>j < i. \<exists>h. ga_buffers g ! j = Some h \<and> da_max_size (ga_tallocs g ! (ga_buf_tallocs g ! j)) \<le> bu_size (w ! h))"

lemma handle_ok_mono: "handle_ok w ty b \<Longrightarrow> handle_ok (w @ xs) ty b"
  by (auto simp: handle_ok_def nth_append)

lemma buft_alloc_ok:
  assumes "buft_alloc_buffer iface ty n w = (Some h, w')" "iface_ok iface"
  shows "(\<exists>xs. w' = w @ xs) \<and> h < length w' \<and> handle_ok w' ty (Some h) \<and> n \<le> bu_size (w' ! h)"
  using assms by (fastforce simp: buft_alloc_buffer_def buffer_init_def handle_ok_def iface_ok_def split: if_splits option.splits)

lemma pool_ok_set:
  assumes pool: "pool_ok g w" and i: "i < length (ga_bufts g)" and b: "handle_ok w' (ga_bufts g ! i) b" and w': "\<exists>xs. w' = w @ xs"
    and own: "\<And>j h. j < length (ga_bufts g) \<Longrightarrow> j \<noteq> i \<Longrightarrow> b = Some h \<Longrightarrow> ga_buffers g ! j = Some h \<Longrightarrow> ga_buf_tallocs g ! j = ga_buf_tallocs g ! i"
  shows "pool_ok (g\<lparr>ga_buffers := (ga_buffers g)[i := b]\<rparr>) w'"
proof -
  have "handle_ok w' (ga_bufts g ! j) ((ga_buffers g)[i := b] ! j)" if j: "j < length (ga_bufts g)" for j
  proof (cases "j = i")
    case True
    then show ?thesis using b i pool_okD(2) [OF pool] by simp
  next
    case False
    have "handle_ok w (ga_bufts g ! j) (ga_buffers g ! j)" by (rule pool_okD(6) [OF pool j])
    moreover obtain xs where "w' = w @ xs" using w' by blast
    ultimately show ?thesis using False handle_ok_mono by simp
  qed
  then have "\<forall>j < length (ga_bufts g). handle_ok w' (ga_bufts g ! j) ((ga_buffers g)[i := b] ! j)" by blast
  moreover have "ga_buf_tallocs g ! j = ga_buf_tallocs g ! k"
    if "j < length (ga_bufts g)" "k < length (ga_bufts g)" "(ga_buffers g)[i := b] ! j = Some h" "(ga_buffers g)[i := b] ! k = Some h" for j k h
    using that own [of j h] own [of k h] pool_okD(7) [OF pool that(1,2)] pool_okD(2) [OF pool] i by (cases "j = i"; cases "k = i") auto
  moreover let ?g = "g\<lparr>ga_buffers := (ga_buffers g)[i := b]\<rparr>"
  have "ga_bufts ?g = ga_bufts g" "ga_buf_tallocs ?g = ga_buf_tallocs g" "ga_tallocs ?g = ga_tallocs g" "ga_buffers ?g = (ga_buffers g)[i := b]"
    by simp_all
  ultimately show ?thesis using pool unfolding pool_ok_def by (simp only: length_list_update) blast
qed

lemma realloc_buffer_step:
  assumes run: "realloc_buffer iface i (g, w) = Some (True, g', w')" and pool: "pool_ok g w" and i: "i < length (ga_bufts g)"
    and law: "iface_ok iface" and before: "ready g w i"
  shows "pool_ok g' w' \<and> ready g' w' (Suc i) \<and> (\<exists>bs. g' = g\<lparr>ga_buffers := bs\<rparr>)"
proof -
  define k where "k = ga_buf_tallocs g ! i"
  have len: "length (ga_buf_tallocs g) = length (ga_bufts g)" "length (ga_buffers g) = length (ga_bufts g)" by (rule pool_okD(1,2) [OF pool])+
  have same_type: "ga_bufts g ! j = ga_bufts g ! i" if "j < i" "ga_buf_tallocs g ! j = k" for j
    using pool_okD(4) [OF pool _ i, of j] i that by (simp add: k_def)
  define b where "b = (case find (\<lambda>j. ga_buf_tallocs g ! j = k) [0..<i] of Some j \<Rightarrow> ga_buffers g ! j | None \<Rightarrow> ga_buffers g ! i)"
  have read_b: "(case find (\<lambda>j. ga_buf_tallocs g ! j = k) [0..<i] of Some j \<Rightarrow> vget (ga_buffers g) j | None \<Rightarrow> vget (ga_buffers g) i) = Some b"
  proof (cases "find (\<lambda>j. ga_buf_tallocs g ! j = k) [0..<i]")
    case None
    then show ?thesis using i len by (simp add: b_def)
  next
    case (Some j)
    then have "j < i" by (auto simp: find_Some_iff)
    then show ?thesis using Some i len by (simp add: b_def)
  qed
  have bok: "handle_ok w (ga_bufts g ! i) b"
  proof (cases "find (\<lambda>j. ga_buf_tallocs g ! j = k) [0..<i]")
    case None
    then show ?thesis using pool_okD(6) [OF pool i] by (simp add: b_def)
  next
    case (Some j)
    then have j: "j < i" "ga_buf_tallocs g ! j = k" by (auto simp: find_Some_iff)
    have "handle_ok w (ga_bufts g ! j) (ga_buffers g ! j)" using pool_okD(6) [OF pool, of j] i j(1) by simp
    then show ?thesis using same_type [OF j] by (simp add: b_def Some)
  qed
  obtain cur a where r: "buffer_size w b = Some cur" "vget (ga_tallocs g) k = Some a"
    "(if cur < da_max_size a \<or> b = None then
        (case buft_alloc_buffer iface (ga_bufts g ! i) (da_max_size a) w of
           (b, w) \<Rightarrow> Some (b \<noteq> None, g\<lparr>ga_buffers := (ga_buffers g)[i := b]\<rparr>, w))
      else Some (True, g\<lparr>ga_buffers := (ga_buffers g)[i := b]\<rparr>, w)) = Some (True, g', w')"
    using run i len read_b by (auto simp: realloc_buffer_def k_def [symmetric] bind_eq_Some_conv Let_def split: if_splits)
  have a: "a = ga_tallocs g ! k" using r(2) by (simp add: vget_eq_Some)
  obtain h where h: "g' = g\<lparr>ga_buffers := (ga_buffers g)[i := Some h]\<rparr>" "handle_ok w' (ga_bufts g ! i) (Some h)" "\<exists>xs. w' = w @ xs" "da_max_size a \<le> bu_size (w' ! h)"
    "\<And>j. j < length (ga_bufts g) \<Longrightarrow> j \<noteq> i \<Longrightarrow> ga_buffers g ! j = Some h \<Longrightarrow> ga_buf_tallocs g ! j = k"
  proof (cases "cur < da_max_size a \<or> b = None")
    case True
    obtain b' w1 where al: "buft_alloc_buffer iface (ga_bufts g ! i) (da_max_size a) w = (b', w1)" by (metis surj_pair)
    then obtain h where "b' = Some h" "g' = g\<lparr>ga_buffers := (ga_buffers g)[i := Some h]\<rparr>" "w1 = w'" using r(3) True by auto
    moreover from this have "h = length w" using al by (auto simp: buft_alloc_buffer_def buffer_init_def split: if_splits option.splits)
    moreover have "ga_buffers g ! j \<noteq> Some (length w)" if "j < length (ga_bufts g)" for j
      using pool_okD(6) [OF pool that] by (auto simp: handle_ok_def)
    ultimately show thesis using that [of h] buft_alloc_ok [OF _ law] al by simp
  next
    case False
    then obtain h where h: "b = Some h" by auto
    have "ga_buf_tallocs g ! j = k" if "j < length (ga_bufts g)" "ga_buffers g ! j = Some h" for j
    proof (cases "find (\<lambda>j. ga_buf_tallocs g ! j = k) [0..<i]")
      case None
      then show ?thesis using pool_okD(7) [OF pool that(1) i that(2)] h by (simp add: b_def k_def)
    next
      case (Some m)
      then have "m < i" "ga_buf_tallocs g ! m = k" by (auto simp: find_Some_iff)
      then show ?thesis using pool_okD(7) [OF pool that(1) _ that(2), of m] i h by (simp add: b_def Some)
    qed
    with h show thesis using that [of h] bok r(1,3) False by (auto simp: buffer_size_def bind_eq_Some_conv vget_eq_Some)
  qed
  have "pool_ok g' w'" unfolding h(1) by (rule pool_ok_set [OF pool i h(2,3)]) (use h(5) in \<open>simp add: k_def\<close>)
  moreover have "ready g' w' (Suc i)"
    unfolding ready_def
  proof (intro allI impI)
    fix j
    assume j: "j < Suc i"
    show "\<exists>h. ga_buffers g' ! j = Some h \<and> da_max_size (ga_tallocs g' ! (ga_buf_tallocs g' ! j)) \<le> bu_size (w' ! h)"
    proof (cases "j = i")
      case True
      then show ?thesis using h(1,4) i len by (simp add: a k_def)
    next
      case False
      then have ji: "j < i" using j by simp
      obtain h0 where h0: "ga_buffers g ! j = Some h0" "da_max_size (ga_tallocs g ! (ga_buf_tallocs g ! j)) \<le> bu_size (w ! h0)"
        using before ji unfolding ready_def by blast
      have "h0 < length w" using pool_okD(6) [OF pool, of j] i ji h0(1) by (simp add: handle_ok_def)
      then have "w' ! h0 = w ! h0" using h(3) by (auto simp: nth_append)
      then show ?thesis using h0 ji by (simp add: h(1))
    qed
  qed
  ultimately show ?thesis using h(1) by blast
qed

lemma realloc_buffers_ok:
  assumes "realloc_buffers iface [i..<n] (g, w) = Some (True, g', w')" and "pool_ok g w" and "n = length (ga_bufts g)" and "i \<le> n"
    and "iface_ok iface" and "ready g w i"
  shows "pool_ok g' w' \<and> ready g' w' n \<and> (\<exists>bs. g' = g\<lparr>ga_buffers := bs\<rparr>)"
  using assms
proof (induction "n - i" arbitrary: i g w)
  case 0
  then have "g' = g" "w' = w" by simp_all
  moreover have "g = g\<lparr>ga_buffers := ga_buffers g\<rparr>" by simp
  moreover have "i = n" using 0 by simp
  ultimately show ?case using 0 by blast
next
  case (Suc k)
  then have i: "i < length (ga_bufts g)" "[i..<n] = i # [Suc i..<n]" by (simp_all add: upt_conv_Cons)
  obtain g1 w1 where r: "realloc_buffer iface i (g, w) = Some (True, g1, w1)" "realloc_buffers iface [Suc i..<n] (g1, w1) = Some (True, g', w')"
    using Suc.prems(1) unfolding i(2) by (auto simp: bind_eq_Some_conv split: if_splits)
  obtain bs where s: "pool_ok g1 w1" "ready g1 w1 (Suc i)" "g1 = g\<lparr>ga_buffers := bs\<rparr>"
    using realloc_buffer_step [OF r(1) Suc.prems(2) i(1) Suc.prems(5,6)] by blast
  have "pool_ok g' w' \<and> ready g' w' n \<and> (\<exists>bs. g' = g1\<lparr>ga_buffers := bs\<rparr>)"
    by (rule Suc.hyps(1) [OF _ r(2) s(1) _ _ Suc.prems(5) s(2)]) (use Suc.hyps(2) Suc.prems(3) i(1) s(3) in simp_all)
  then show ?case using s(3) by auto
qed

subsection \<open>The tables\<close>

lemma tensor_entry_cases:
  assumes "tensor_entry asz hp g t = Some ta"
  shows "\<not> planned (hp t) \<and> ta = no_alloc \<or>
    planned (hp t) \<and> hn_buffer (ga_hash g t) < length (ga_bufts g) \<and>
    ta = \<lparr>tl_buffer = int (hn_buffer (ga_hash g t)), tl_offset = hn_offset (ga_hash g t), tl_size_max = tensor_size asz hp g t\<rparr>"
  using assms by (auto simp: tensor_entry_def planned_def tensor_size_def Let_def bind_eq_Some_conv vget_eq_Some split: if_splits)

lemma entry_fits:
  assumes "tensor_entry asz hp g t = Some ta" "ga_bufts g' = ga_bufts g"
  shows "node_needs_realloc asz hp g' t ta = Some True"
proof (cases "planned (hp t)")
  case True
  then show ?thesis using tensor_entry_cases [OF assms(1)] assms(2) by (simp add: node_needs_realloc_def planned_def tensor_size_def)
next
  case False
  then show ?thesis by (auto simp: node_needs_realloc_def planned_def)
qed

text \<open>The tables of a plan for a graph.\<close>

definition tables_ok :: "(nat \<Rightarrow> tensor \<Rightarrow> nat) \<Rightarrow> heap \<Rightarrow> graph \<Rightarrow> gallocr \<Rightarrow> bool" where
  "tables_ok asz hp gr g \<longleftrightarrow> mapM (node_entry asz hp g) (gr_nodes gr) = Some (ga_node_allocs g) \<and>
     mapM (tensor_entry asz hp g) (gr_leafs gr) = Some (ga_leaf_allocs g)"

lemma tables_node:
  assumes "tables_ok asz hp gr g" "i < length (gr_nodes gr)"
  shows "vget (ga_node_allocs g) i = Some (ga_node_allocs g ! i)"
    and "tensor_entry asz hp g (gr_nodes gr ! i) = Some (na_dst (ga_node_allocs g ! i))"
    and "length (na_src (ga_node_allocs g ! i)) = length (te_src (hp (gr_nodes gr ! i)))"
    and "j < length (te_src (hp (gr_nodes gr ! i))) \<Longrightarrow>
      src_entry asz hp g (te_src (hp (gr_nodes gr ! i)) ! j) = Some (na_src (ga_node_allocs g ! i) ! j)"
proof -
  have m: "length (ga_node_allocs g) = length (gr_nodes gr)" "node_entry asz hp g (gr_nodes gr ! i) = Some (ga_node_allocs g ! i)"
    using assms by (auto simp: tables_ok_def mapM_Some_iff)
  show "vget (ga_node_allocs g) i = Some (ga_node_allocs g ! i)" using m(1) assms(2) by simp
  obtain src where src: "tensor_entry asz hp g (gr_nodes gr ! i) = Some (na_dst (ga_node_allocs g ! i))"
    "mapM (src_entry asz hp g) (te_src (hp (gr_nodes gr ! i))) = Some src" "na_src (ga_node_allocs g ! i) = src"
    using m(2) by (auto simp: node_entry_def bind_eq_Some_conv) (metis node_alloc.select_convs)
  then show "tensor_entry asz hp g (gr_nodes gr ! i) = Some (na_dst (ga_node_allocs g ! i))"
    "length (na_src (ga_node_allocs g ! i)) = length (te_src (hp (gr_nodes gr ! i)))"
    "j < length (te_src (hp (gr_nodes gr ! i))) \<Longrightarrow> src_entry asz hp g (te_src (hp (gr_nodes gr ! i)) ! j) = Some (na_src (ga_node_allocs g ! i) ! j)"
    by (auto simp: mapM_Some_iff)
qed

lemma tables_leaf:
  assumes "tables_ok asz hp gr g" "i < length (gr_leafs gr)"
  shows "vget (ga_leaf_allocs g) i = Some (ga_leaf_allocs g ! i)" and "tensor_entry asz hp g (gr_leafs gr ! i) = Some (ga_leaf_allocs g ! i)"
  using assms by (auto simp: tables_ok_def mapM_Some_iff)

lemma node_fits_ok:
  assumes t: "tables_ok asz hp gr g" and i: "i < length (gr_nodes gr)"
  shows "node_fits asz hp gr g i = Some True"
proof -
  let ?n = "gr_nodes gr ! i" and ?na = "ga_node_allocs g ! i"
  have "src_fits asz hp g ?na (te_src (hp ?n)) j = Some True" if j: "j < length (te_src (hp ?n))" for j
  proof (cases "te_src (hp ?n) ! j")
    case None
    then show ?thesis by (simp add: src_fits_def)
  next
    case (Some s)
    then have "tensor_entry asz hp g s = Some (na_src ?na ! j)" using tables_node(4) [OF t i j] by (simp add: src_entry_def)
    then show ?thesis using entry_fits Some j tables_node(3) [OF t i] by (simp add: src_fits_def)
  qed
  then have "allM (src_fits asz hp g ?na (te_src (hp ?n))) [0..<length (te_src (hp ?n))] = Some True" by (simp add: allM_True)
  then show ?thesis using tables_node(1,2) [OF t i] entry_fits i by (simp add: node_fits_def)
qed

lemma tables_fit:
  assumes t: "tables_ok asz hp gr g"
  shows "needs_realloc asz hp gr g = Some False"
proof -
  have "length (ga_node_allocs g) = length (gr_nodes gr)" "length (ga_leaf_allocs g) = length (gr_leafs gr)"
    using t by (auto simp: tables_ok_def mapM_Some_iff)
  moreover have "allM (node_fits asz hp gr g) [0..<length (gr_nodes gr)] = Some True" using node_fits_ok [OF t] by (simp add: allM_True)
  ultimately show ?thesis by (simp add: needs_realloc_def)
qed

end
