(* ===== verification/GraphPlace.thy ===== *)
theory GraphPlace
  imports GraphAttach
begin

text \<open>
  Attaching the tensors of a graph: after a reservation it always succeeds, and every tensor gets the address
  of its buffer plus its planned offset.
\<close>

subsection \<open>Every tensor of the graph has a place\<close>

lemma in_bounds_mono:
  assumes b: "in_bounds asz hp g t" and gr: "ga_grows g g'" and p: "place g' t = place g t"
  shows "in_bounds asz hp g' t"
proof -
  have same: "slot g' t = slot g t" "tensor_size asz hp g' t = tensor_size asz hp g t" "hn_offset (ga_hash g' t) = hn_offset (ga_hash g t)"
    "hn_buffer (ga_hash g' t) = hn_buffer (ga_hash g t)"
    using gr p by (simp_all add: slot_def tensor_size_def place_def ga_grows_def)
  have k: "slot g t < length (ga_tallocs g)" using b by (simp add: in_bounds_def)
  have "da_alignment (ga_tallocs g' ! slot g t) = da_alignment (ga_tallocs g ! slot g t)"
    "da_max_size (ga_tallocs g ! slot g t) \<le> da_max_size (ga_tallocs g' ! slot g t)" "length (ga_tallocs g') = length (ga_tallocs g)" "ga_bufts g' = ga_bufts g"
    using gr k by (simp_all add: ga_grows_def)
  then show ?thesis using b unfolding in_bounds_def same by simp
qed

lemma node_live:
  assumes ok: "graph_ok hp gr" and i: "i < length (gr_nodes gr)" and p: "planned (hp (gr_nodes gr ! i))"
  shows "live hp gr i (gr_nodes gr ! i)"
  using node_read_later [OF ok i refl p] p i by (auto simp: live_def started_def held_def take_Suc_conv_app_nth)

lemma leaf_live: "t \<in> set (gr_leafs gr) \<Longrightarrow> planned (hp t) \<Longrightarrow> live hp gr 0 t"
  by (auto simp: live_def started_def held_def)

lemma live_in_bounds:
  assumes run: "alloc_graph_impl asz hp gr nids lids g = Some g'" and ok: "fresh g" "graph_ok hp gr" "sizes_ok asz hp"
    and i: "i < length (gr_nodes gr)" and t: "live hp gr i t"
  shows "in_bounds asz hp g' t"
proof -
  obtain g2 where g2: "compute_inv asz hp gr i g2" "ga_grows g2 g'" "\<forall>t. started hp gr (Suc i) t \<longrightarrow> planned (hp t) \<longrightarrow> place g' t = place g2 t"
    using alloc_graph_compute [OF run ok i] by blast
  have "place g' t = place g2 t" using g2(3) t by (simp add: live_def)
  then show ?thesis using compute_safe(1) [OF g2(1) ok(3) t] in_bounds_mono g2(2) by blast
qed

lemma graph_in_bounds:
  assumes run: "alloc_graph_impl asz hp gr nids lids g = Some g'" and ok: "fresh g" "graph_ok hp gr" "sizes_ok asz hp"
    and ne: "gr_nodes gr \<noteq> []" and t: "t \<in> set (gr_leafs gr) \<union> set (gr_nodes gr)" "planned (hp t)"
  shows "in_bounds asz hp g' t"
proof (cases "t \<in> set (gr_leafs gr)")
  case True
  then show ?thesis using live_in_bounds [OF run ok _ leaf_live] ne t(2) by simp
next
  case False
  then obtain i where i: "i < length (gr_nodes gr)" "gr_nodes gr ! i = t" using t(1) by (auto simp: in_set_conv_nth)
  then show ?thesis using live_in_bounds [OF run ok i(1)] node_live [OF ok(2) i(1)] t(2) by simp
qed

lemma alloc_graph_grows:
  assumes run: "alloc_graph_impl asz hp gr nids lids g = Some g'" and ok: "fresh g" "graph_ok hp gr" "sizes_ok asz hp"
  shows "ga_grows g g'"
proof -
  obtain g1 where g1: "plan_inv asz hp gr 0 g1" "ga_grows g g1" "foldM (plan_node asz hp gr nids) [0..<length (gr_nodes gr)] g1 = Some g'"
    using alloc_graph_start [OF run ok] by blast
  let ?P = "\<lambda>j x. plan_inv asz hp gr j x \<and> ga_grows g1 x"
  have "?P (length (gr_nodes gr)) g'"
  proof (rule foldM_upt_invar [where P = ?P, OF g1(3)])
    show "?P 0 g1" using g1(1) by simp
    fix j x x'
    assume j: "j < length (gr_nodes gr)" and P: "?P j x" and r: "plan_node asz hp gr nids j x = Some x'"
    then show "?P (Suc j) x'" using plan_node_step [OF r ok(2,3) _ j] ga_grows_trans by blast
  qed simp
  then show ?thesis using g1(2) ga_grows_trans by blast
qed

lemma pool_grows:
  assumes pool: "pool_ok g w" and gr: "ga_grows g g'"
  shows "pool_ok g' w"
proof -
  have same: "ga_bufts g' = ga_bufts g" "ga_buffers g' = ga_buffers g" "ga_buf_tallocs g' = ga_buf_tallocs g" "length (ga_tallocs g') = length (ga_tallocs g)"
    using gr by (simp_all add: ga_grows_def)
  have al: "0 < da_alignment a \<and> da_alignment a < 2 ^ 32" if in_a: "a \<in> set (ga_tallocs g')" for a
  proof -
    obtain k where k: "k < length (ga_tallocs g)" "a = ga_tallocs g' ! k" using in_a same(4) unfolding in_set_conv_nth by metis
    then have "da_alignment a = da_alignment (ga_tallocs g ! k)" using gr by (simp add: ga_grows_def)
    then show ?thesis using pool_okD(5) [OF pool, of "ga_tallocs g ! k"] k(1) by simp
  qed
  show ?thesis using pool al unfolding pool_ok_def same by blast
qed

subsection \<open>Attaching\<close>

definition handle :: "gallocr \<Rightarrow> nat \<Rightarrow> nat option" where
  "handle g t = ga_buffers g ! hn_buffer (ga_hash g t)"

definition address :: "gallocr \<Rightarrow> world \<Rightarrow> nat \<Rightarrow> nat" where
  "address g w t = bu_base (w ! the (handle g t)) + hn_offset (ga_hash g t)"

definition placed_tensor :: "gallocr \<Rightarrow> world \<Rightarrow> heap \<Rightarrow> nat \<Rightarrow> tensor" where
  "placed_tensor g w hp t = (hp t)\<lparr>te_buffer := handle g t, te_data := address g w t\<rparr>"

definition viewed :: "heap \<Rightarrow> heap \<Rightarrow> nat \<Rightarrow> nat \<Rightarrow> tensor" where
  "viewed hp h r v = (hp v)\<lparr>te_buffer := te_buffer (h r), te_data := te_data (h r) + te_view_offs (hp v)\<rparr>"

text \<open>Room for tensor \<open>t\<close> at its place.\<close>

definition spot_ok :: "(nat \<Rightarrow> tensor \<Rightarrow> nat) \<Rightarrow> heap \<Rightarrow> gallocr \<Rightarrow> world \<Rightarrow> nat \<Rightarrow> bool" where
  "spot_ok asz hp g w t \<longleftrightarrow> hn_buffer (ga_hash g t) < length (ga_buffers g) \<and>
     (\<exists>b. handle g t = Some b \<and> b < length w \<and> bu_base (w ! b) \<noteq> 0 \<and> bu_size (w ! b) \<noteq> 0 \<and> bu_type (w ! b) = ga_bufts g ! hn_buffer (ga_hash g t) \<and>
        address g w t + tensor_size asz hp g t \<le> bu_base (w ! b) + bu_size (w ! b))"

text \<open>A tensor with a buffer has data.\<close>

definition attach_ok :: "heap \<Rightarrow> bool" where
  "attach_ok hp \<longleftrightarrow> (\<forall>t. te_buffer (hp t) \<noteq> None \<longrightarrow> te_data (hp t) \<noteq> 0)"

text \<open>The heap while tensors are attached.\<close>

definition attached :: "gallocr \<Rightarrow> world \<Rightarrow> heap \<Rightarrow> heap \<Rightarrow> bool" where
  "attached g w hp h \<longleftrightarrow> attach_ok h \<and> (\<forall>t. te_view_src (h t) = te_view_src (hp t)) \<and>
     (\<forall>t. planned (hp t) \<longrightarrow> h t = hp t \<or> h t = placed_tensor g w hp t) \<and>
     (\<forall>t. te_view_src (hp t) = None \<longrightarrow> \<not> planned (hp t) \<longrightarrow> h t = hp t) \<and>
     (\<forall>t r. te_view_src (hp t) = Some r \<longrightarrow> h t = hp t \<or> te_buffer (h r) \<noteq> None \<and> h t = viewed hp h r t)"

definition settled :: "gallocr \<Rightarrow> world \<Rightarrow> heap \<Rightarrow> heap \<Rightarrow> nat \<Rightarrow> bool" where
  "settled g w hp h t \<longleftrightarrow> (planned (hp t) \<longrightarrow> h t = placed_tensor g w hp t) \<and>
     (\<forall>r. te_view_src (hp t) = Some r \<longrightarrow> planned (hp r) \<longrightarrow> te_buffer (hp t) = None \<longrightarrow> te_buffer (h r) \<noteq> None \<and> h t = viewed hp h r t)"

definition attach_step :: "gallocr \<Rightarrow> world \<Rightarrow> heap \<Rightarrow> heap \<Rightarrow> heap \<Rightarrow> bool" where
  "attach_step g w hp h h' \<longleftrightarrow> attached g w hp h' \<and> (\<forall>s. settled g w hp h s \<longrightarrow> settled g w hp h' s)"

lemma attachedD:
  assumes "attached g w hp h"
  shows "attach_ok h" and "te_view_src (h t) = te_view_src (hp t)" and "planned (hp t) \<Longrightarrow> h t = hp t \<or> h t = placed_tensor g w hp t"
    and "te_view_src (hp t) = Some r \<Longrightarrow> h t = hp t \<or> te_buffer (h r) \<noteq> None \<and> h t = viewed hp h r t"
  using assms unfolding attached_def by blast+

lemma attached_src:
  assumes at: "attached g w hp h"
  shows "te_src (h t) = te_src (hp t)"
proof (cases "te_view_src (hp t)")
  case None
  then show ?thesis using at by (cases "planned (hp t)") (auto simp: attached_def placed_tensor_def)
next
  case (Some r)
  then show ?thesis using attachedD(4) [OF at Some] by (auto simp: viewed_def)
qed

lemma viewed_upd: "te_buffer (h t) = None \<Longrightarrow> te_buffer (h r) \<noteq> None \<Longrightarrow> te_buffer ((h(t := x)) r) \<noteq> None \<and> viewed hp (h(t := x)) r s = viewed hp h r s"
  by (auto simp: viewed_def)

lemma settled_upd:
  assumes s: "settled g w hp h s" and t: "te_buffer (h t) = None" and st: "s \<noteq> t"
  shows "settled g w hp (h(t := x)) s"
  using assms viewed_upd [where t = t and h = h, OF t] unfolding settled_def by (metis fun_upd_other)

text \<open>Attaching one tensor that has no buffer.\<close>

lemma attached_upd:
  assumes at: "attached g w hp h" and t: "te_buffer (h t) = None" and x: "te_data x \<noteq> 0" "te_view_src x = te_view_src (hp t)"
    and kind: "planned (hp t) \<and> x = placed_tensor g w hp t \<or> (\<exists>r. te_view_src (hp t) = Some r \<and> te_buffer (h r) \<noteq> None \<and> x = viewed hp h r t)"
  shows "attached g w hp (h(t := x))"
proof -
  have views: "(h(t := x)) s = hp s \<or> te_buffer ((h(t := x)) r) \<noteq> None \<and> (h(t := x)) s = viewed hp (h(t := x)) r s"
    if s: "te_view_src (hp s) = Some r" for s r
  proof (cases "s = t")
    case True
    then have "te_buffer (h r) \<noteq> None" "x = viewed hp h r t" using kind s by (auto simp: planned_def)
    then show ?thesis using viewed_upd [where t = t and h = h and r = r, OF t] True by simp
  next
    case False
    then show ?thesis using attachedD(4) [OF at s] viewed_upd [where t = t and h = h and r = r, OF t] by auto
  qed
  have "attach_ok (h(t := x))" using attachedD(1) [OF at] x(1) by (simp add: attach_ok_def)
  moreover have "(h(t := x)) s = hp s" if "te_view_src (hp s) = None" "\<not> planned (hp s)" for s
    using at kind that by (auto simp: attached_def)
  ultimately show ?thesis using attachedD(2,3) [OF at] x(2) kind views unfolding attached_def by (auto simp: planned_def)
qed

lemma attach_step_refl: "attached g w hp h \<Longrightarrow> attach_step g w hp h h"
  by (simp add: attach_step_def)

lemma attach_step_trans: "attach_step g w hp f h \<Longrightarrow> attach_step g w hp h k \<Longrightarrow> attach_step g w hp f k"
  by (simp add: attach_step_def)

lemma init_planned:
  assumes at: "attached g w hp h" and start: "attach_ok hp" and t: "planned (hp t)" "spot_ok asz hp g w t"
    and entry: "tensor_entry asz hp g t = Some ta"
  shows "\<exists>h'. init_tensor asz init_ok g w t ta h = Some h' \<and> attach_step g w hp h h' \<and> settled g w hp h' t"
proof -
  obtain b where b: "handle g t = Some b" "b < length w" "bu_base (w ! b) \<noteq> 0" "bu_size (w ! b) \<noteq> 0" "bu_type (w ! b) = ga_bufts g ! hn_buffer (ga_hash g t)"
    "address g w t + tensor_size asz hp g t \<le> bu_base (w ! b) + bu_size (w ! b)" "hn_buffer (ga_hash g t) < length (ga_buffers g)"
    using t(2) by (auto simp: spot_ok_def)
  have view: "te_view_src (h t) = None" "te_view_src (hp t) = None" using at t(1) by (simp_all add: attached_def planned_def)
  have ta: "tl_buffer ta = int (hn_buffer (ga_hash g t))" "tl_offset ta = hn_offset (ga_hash g t)" using tensor_entry_cases [OF entry] t(1) by auto
  have addr: "bu_base (w ! b) + hn_offset (ga_hash g t) = address g w t" by (simp add: address_def b(1))
  show ?thesis
  proof (cases "te_data (h t) = 0")
    case False
    then have "h t = placed_tensor g w hp t" using at t(1) by (auto simp: attached_def planned_def)
    then have "settled g w hp h t" using view(2) by (simp add: settled_def)
    moreover have "init_tensor asz init_ok g w t ta h = Some h" using False view(1) by (simp add: init_tensor_def)
    ultimately show ?thesis using attach_step_refl [OF at] by blast
  next
    case True
    have "h t \<noteq> placed_tensor g w hp t"
    proof
      assume "h t = placed_tensor g w hp t"
      then have "te_data (h t) = address g w t" by (simp add: placed_tensor_def)
      then show False using True b(3) addr by simp
    qed
    then have ht: "h t = hp t" using at t(1) by (auto simp: attached_def)
    have buf: "te_buffer (hp t) = None" using start t(1) by (auto simp: attach_ok_def planned_def)
    define h' where "h' = h(t := placed_tensor g w hp t)"
    have "vget (ga_buffers g) (hn_buffer (ga_hash g t)) = Some (Some b)" using b(1,7) by (simp add: handle_def)
    moreover have "backend_tensor_alloc asz init_ok w b t (address g w t) h = Some (init_ok b (placed_tensor g w hp t), h')"
      using b t(1) buf by (simp add: backend_tensor_alloc_def ht planned_def buffer_get_base_def Let_def placed_tensor_def h'_def tensor_size_def address_def)
    ultimately have run: "init_tensor asz init_ok g w t ta h = Some h'"
      using True view(1) ta b(2-4) addr by (simp add: init_tensor_def buffer_get_base_def)
    have "attached g w hp h'"
      unfolding h'_def by (rule attached_upd [OF at]) (use b(3) addr buf t(1) in \<open>simp_all add: ht placed_tensor_def\<close>)
    moreover have "settled g w hp h' t" using view(2) by (simp add: settled_def h'_def)
    moreover have "settled g w hp h' s" if "settled g w hp h s" for s
      using settled_upd [OF that, of t] buf calculation(2) by (cases "s = t") (simp_all add: h'_def ht)
    ultimately show ?thesis using run by (auto simp: attach_step_def)
  qed
qed

lemma init_view:
  assumes at: "attached g w hp h" and t: "te_view_src (hp t) = Some r"
  shows "\<exists>h'. init_tensor asz init_ok g w t ta h = Some h' \<and> attach_step g w hp h h' \<and>
    (planned (hp r) \<longrightarrow> te_buffer (h r) \<noteq> None \<longrightarrow> settled g w hp h' t)"
proof -
  have view: "te_view_src (h t) = Some r" using attachedD(2) [OF at] t by simp
  have np: "\<not> planned (hp t)" using t by (simp add: planned_def)
  show ?thesis
  proof (cases "te_buffer (h t) = None \<and> te_buffer (h r) \<noteq> None")
    case False
    then have "init_tensor asz init_ok g w t ta h = Some h" using view by (auto simp: init_tensor_def)
    moreover have "settled g w hp h t" if "te_buffer (h r) \<noteq> None"
      using attachedD(4) [OF at t] that False np t by (auto simp: settled_def)
    ultimately show ?thesis using attach_step_refl [OF at] by blast
  next
    case True
    then obtain b where b: "te_buffer (h r) = Some b" by auto
    have ht: "h t = hp t" using attachedD(4) [OF at t] True by (auto simp: viewed_def)
    have rt: "r \<noteq> t" using True by auto
    have data: "te_data (h r) \<noteq> 0" using attachedD(1) [OF at] b by (simp add: attach_ok_def)
    define h' where "h' = h(t := viewed hp h r t)"
    have "backend_view_init init_ok t h = Some (init_ok b (viewed hp h r t), h')"
      using True b data t by (simp add: backend_view_init_def Let_def viewed_def h'_def ht)
    then have run: "init_tensor asz init_ok g w t ta h = Some h'" using True view by (auto simp: init_tensor_def)
    have "attached g w hp h'"
      unfolding h'_def by (rule attached_upd [OF at]) (use True t data b in \<open>auto simp: viewed_def\<close>)
    moreover have mine: "settled g w hp h' t" using np t b rt by (simp add: settled_def h'_def viewed_def)
    moreover have "settled g w hp h' s" if "settled g w hp h s" for s
      using settled_upd [OF that, of t] True mine by (cases "s = t") (simp_all add: h'_def)
    ultimately show ?thesis using run by (auto simp: attach_step_def)
  qed
qed

lemma init_other:
  assumes at: "attached g w hp h" and t: "te_view_src (hp t) = None" "\<not> planned (hp t)"
  shows "init_tensor asz init_ok g w t ta h = Some h" and "settled g w hp h t"
  using assms by (simp_all add: init_tensor_def attached_def planned_def settled_def)

subsection \<open>The graph\<close>

text \<open>Every tensor that is a leaf or a node has room at its place.\<close>

definition spots_ok :: "(nat \<Rightarrow> tensor \<Rightarrow> nat) \<Rightarrow> heap \<Rightarrow> graph \<Rightarrow> gallocr \<Rightarrow> world \<Rightarrow> bool" where
  "spots_ok asz hp gr g w \<longleftrightarrow> (\<forall>t \<in> set (gr_leafs gr) \<union> set (gr_nodes gr). planned (hp t) \<longrightarrow> spot_ok asz hp g w t)"

lemma init_any:
  assumes at: "attached g w hp h" and start: "attach_ok hp" and spots: "spots_ok asz hp gr g w" and t: "t \<in> set (gr_leafs gr) \<union> set (gr_nodes gr)"
    and entry: "tensor_entry asz hp g t = Some ta"
  shows "\<exists>h'. init_tensor asz init_ok g w t ta h = Some h' \<and> attach_step g w hp h h' \<and>
    ((\<forall>r. te_view_src (hp t) = Some r \<longrightarrow> planned (hp r) \<longrightarrow> te_buffer (h r) \<noteq> None) \<longrightarrow> settled g w hp h' t)"
proof (cases "planned (hp t)")
  case True
  have "spot_ok asz hp g w t" using spots t True by (simp add: spots_ok_def)
  then show ?thesis using init_planned [OF at start True _ entry] by blast
next
  case False
  show ?thesis
  proof (cases "te_view_src (hp t)")
    case None
    then show ?thesis using init_other [OF at None False] attach_step_refl [OF at] by blast
  next
    case (Some r)
    show ?thesis
    proof (cases "planned (hp r)")
      case True
      then show ?thesis using init_view [OF at Some, of asz init_ok ta] Some by auto
    next
      case npr: False
      have "settled g w hp h' t" for h' using False Some npr by (simp add: settled_def)
      then show ?thesis using init_view [OF at Some, of asz init_ok ta] by blast
    qed
  qed
qed

lemma settled_buffer: "settled g w hp h t \<Longrightarrow> planned (hp t) \<Longrightarrow> spot_ok asz hp g w t \<Longrightarrow> te_buffer (h t) \<noteq> None"
  by (auto simp: settled_def spot_ok_def placed_tensor_def)

definition attach_inv :: "gallocr \<Rightarrow> world \<Rightarrow> heap \<Rightarrow> graph \<Rightarrow> nat \<Rightarrow> heap \<Rightarrow> bool" where
  "attach_inv g w hp gr i h \<longleftrightarrow> attached g w hp h \<and> (\<forall>t \<in> set (gr_leafs gr). planned (hp t) \<longrightarrow> settled g w hp h t) \<and>
     (\<forall>t \<in> set (take i (gr_nodes gr)). settled g w hp h t)"

lemma attach_inv_step: "attach_inv g w hp gr i h \<Longrightarrow> attach_step g w hp h h' \<Longrightarrow> attach_inv g w hp gr i h'"
  by (auto simp: attach_inv_def attach_step_def)

lemma init_srcs:
  assumes start: "attach_ok hp" and spots: "spots_ok asz hp gr g w" and ok: "graph_ok hp gr" and tab: "tables_ok asz hp gr g"
    and i: "i < length (gr_nodes gr)" and inv: "attach_inv g w hp gr i h"
  shows "\<exists>h'. foldM (init_src asz init_ok g w (ga_node_allocs g ! i) (te_src (hp (gr_nodes gr ! i)))) [0..<length (te_src (hp (gr_nodes gr ! i)))] h = Some h' \<and>
    attach_inv g w hp gr i h'"
proof (rule foldM_upt_rule [where P = "\<lambda>j h'. attach_inv g w hp gr i h'"])
  show "attach_inv g w hp gr i h" by (rule inv)
  let ?n = "gr_nodes gr ! i"
  fix j h1
  assume j: "j < length (te_src (hp ?n))" and inv1: "attach_inv g w hp gr i h1"
  show "\<exists>h'. init_src asz init_ok g w (ga_node_allocs g ! i) (te_src (hp ?n)) j h1 = Some h' \<and> attach_inv g w hp gr i h'"
  proof (cases "te_src (hp ?n) ! j")
    case None
    then show ?thesis using inv1 by (simp add: init_src_def)
  next
    case (Some s)
    have entry: "tensor_entry asz hp g s = Some (na_src (ga_node_allocs g ! i) ! j)" using tables_node(4) [OF tab i j] Some by (simp add: src_entry_def)
    have "Some s \<in> set (te_src (hp ?n))" using Some j by (metis nth_mem)
    then have "s \<in> set (srcs (hp ?n))" by (force simp: srcs_def List.map_filter_def)
    then have "s \<in> set (gr_leafs gr) \<union> set (gr_nodes gr)" using graph_okD(3) [OF ok i] by (blast dest: in_set_takeD)
    then obtain h' where "init_tensor asz init_ok g w s (na_src (ga_node_allocs g ! i) ! j) h1 = Some h'" "attach_step g w hp h1 h'"
      using init_any [OF _ start spots _ entry] inv1 unfolding attach_inv_def by blast
    then show ?thesis using Some j tables_node(3) [OF tab i] attach_inv_step [OF inv1] by (simp add: init_src_def)
  qed
qed

lemma init_graph:
  assumes start: "attach_ok hp" and spots: "spots_ok asz hp gr g w" and ok: "graph_ok hp gr" and tab: "tables_ok asz hp gr g"
  shows "\<exists>h. foldM (init_leaf asz init_ok gr g w) [0..<length (gr_leafs gr)] hp = Some h \<and>
    (\<exists>h'. foldM (init_node asz init_ok gr g w) [0..<length (gr_nodes gr)] h = Some h' \<and> attach_inv g w hp gr (length (gr_nodes gr)) h')"
proof -
  have at0: "attached g w hp hp" using start by (simp add: attached_def)
  let ?P = "\<lambda>i h. attached g w hp h \<and> (\<forall>t \<in> set (take i (gr_leafs gr)). planned (hp t) \<longrightarrow> settled g w hp h t)"
  have "\<exists>h. foldM (init_leaf asz init_ok gr g w) [0..<length (gr_leafs gr)] hp = Some h \<and> ?P (length (gr_leafs gr)) h"
  proof (rule foldM_upt_rule [where P = ?P])
    show "?P 0 hp" using at0 by simp
    fix i h
    assume i: "i < length (gr_leafs gr)" and P: "?P i h"
    note tl = tables_leaf [OF tab i]
    have at: "attached g w hp h" using P by blast
    obtain h' where h': "init_tensor asz init_ok g w (gr_leafs gr ! i) (ga_leaf_allocs g ! i) h = Some h'" "attach_step g w hp h h'"
      "(\<forall>r. te_view_src (hp (gr_leafs gr ! i)) = Some r \<longrightarrow> planned (hp r) \<longrightarrow> te_buffer (h r) \<noteq> None) \<longrightarrow> settled g w hp h' (gr_leafs gr ! i)"
      using init_any [OF at start spots _ tl(2), of init_ok] i by fastforce
    have "planned (hp (gr_leafs gr ! i)) \<longrightarrow> settled g w hp h' (gr_leafs gr ! i)" using h'(3) by (auto simp: planned_def)
    then have "?P (Suc i) h'" using P h'(2) i by (auto simp: attach_step_def take_Suc_conv_app_nth)
    then show "\<exists>h'. init_leaf asz init_ok gr g w i h = Some h' \<and> ?P (Suc i) h'" using h'(1) i tl(1) by (simp add: init_leaf_def)
  qed
  then obtain h where h: "foldM (init_leaf asz init_ok gr g w) [0..<length (gr_leafs gr)] hp = Some h" "attach_inv g w hp gr 0 h"
    by (auto simp: attach_inv_def)
  have "\<exists>h'. foldM (init_node asz init_ok gr g w) [0..<length (gr_nodes gr)] h = Some h' \<and> attach_inv g w hp gr (length (gr_nodes gr)) h'"
  proof (rule foldM_upt_rule [where P = "attach_inv g w hp gr"])
    show "attach_inv g w hp gr 0 h" by (rule h(2))
    fix i h1
    assume i: "i < length (gr_nodes gr)" and inv: "attach_inv g w hp gr i h1"
    let ?n = "gr_nodes gr ! i"
    note tn = tables_node [OF tab i]
    obtain h2 where h2: "foldM (init_src asz init_ok g w (ga_node_allocs g ! i) (te_src (hp ?n))) [0..<length (te_src (hp ?n))] h1 = Some h2" "attach_inv g w hp gr i h2"
      using init_srcs [OF start spots ok tab i inv] by blast
    have at: "attached g w hp h2" using h2(2) by (simp add: attach_inv_def)
    have root: "te_buffer (h2 r) \<noteq> None" if r: "te_view_src (hp ?n) = Some r" "planned (hp r)" for r
    proof -
      have in_gr: "r \<in> set (gr_leafs gr) \<or> r \<in> set (take i (gr_nodes gr))" using graph_okD(4) [OF ok i r(1)] r(2) by (auto simp: planned_def)
      then have "settled g w hp h2 r" using h2(2) r(2) by (auto simp: attach_inv_def)
      moreover have "spot_ok asz hp g w r" using spots in_gr r(2) by (auto simp: spots_ok_def dest: in_set_takeD)
      ultimately show ?thesis using settled_buffer r(2) by blast
    qed
    obtain h3 where h3: "init_tensor asz init_ok g w ?n (na_dst (ga_node_allocs g ! i)) h2 = Some h3" "attach_step g w hp h2 h3" "settled g w hp h3 ?n"
      using init_any [OF at start spots _ tn(2)] i root by auto
    have "attach_inv g w hp gr (Suc i) h3" using attach_inv_step [OF h2(2) h3(2)] h3(3) i by (auto simp: attach_inv_def take_Suc_conv_app_nth)
    moreover have "init_node asz init_ok gr g w i h1 = Some h3" if src: "te_src (h1 ?n) = te_src (hp ?n)"
      using h2(1) h3(1) i tn(1) by (simp add: init_node_def Let_def src)
    moreover have "te_src (h1 ?n) = te_src (hp ?n)"
      using attached_src inv unfolding attach_inv_def by blast
    ultimately show "\<exists>h'. init_node asz init_ok gr g w i h1 = Some h' \<and> attach_inv g w hp gr (Suc i) h'" by blast
  qed
  then show ?thesis using h(1) by blast
qed

subsection \<open>After a reservation\<close>

lemma entry_cong: "ga_hash g' = ga_hash g \<Longrightarrow> ga_bufts g' = ga_bufts g \<Longrightarrow> tensor_entry asz hp g' = tensor_entry asz hp g"
  by (rule ext) (simp add: tensor_entry_def)

lemma tables_cong:
  assumes "ga_hash g' = ga_hash g" "ga_bufts g' = ga_bufts g"
  shows "node_entry asz hp g' = node_entry asz hp g" and "tensor_entry asz hp g' = tensor_entry asz hp g"
proof -
  show e: "tensor_entry asz hp g' = tensor_entry asz hp g" by (rule entry_cong [OF assms])
  have "src_entry asz hp g' = src_entry asz hp g" by (rule ext) (simp add: src_entry_def e split: option.split)
  then show "node_entry asz hp g' = node_entry asz hp g" by (intro ext) (simp add: node_entry_def e)
qed

lemma ready_spot:
  assumes pool: "pool_ok g w" and r: "ready g w (length (ga_bufts g))" and b: "in_bounds asz hp g t" and sz: "sizes_ok asz hp" and t: "planned (hp t)"
  shows "spot_ok asz hp g w t"
proof -
  let ?b = "hn_buffer (ga_hash g t)"
  have bl: "?b < length (ga_bufts g)" using b by (simp add: in_bounds_def)
  obtain h where h: "ga_buffers g ! ?b = Some h" "da_max_size (ga_tallocs g ! (ga_buf_tallocs g ! ?b)) \<le> bu_size (w ! h)"
    using r bl unfolding ready_def by blast
  have hw: "h < length w" "bu_type (w ! h) = ga_bufts g ! ?b" "bu_size (w ! h) \<noteq> 0 \<longrightarrow> bu_base (w ! h) \<noteq> 0"
    using pool_okD(6) [OF pool bl] h(1) by (simp_all add: handle_ok_def)
  have "0 < tensor_size asz hp g t" using sz t by (simp add: tensor_size_def sizes_ok_def da_sized_def)
  moreover have "hn_offset (ga_hash g t) + tensor_size asz hp g t \<le> bu_size (w ! h)" using b h(2) by (simp add: in_bounds_def slot_def)
  ultimately show ?thesis using bl h(1) hw pool_okD(2) [OF pool] by (simp add: spot_ok_def handle_def address_def)
qed

lemma reserve_facts:
  assumes run: "reserve_n asz iface hp gr nids lids (g, w) = Some (True, g', w')" and pool: "pool_ok g w" and ok: "graph_ok hp gr" "sizes_ok asz hp"
    and ne: "gr_nodes gr \<noteq> []" and law: "iface_ok iface"
  shows "\<exists>g1 ns ls bs. alloc_graph_impl asz hp gr nids lids (reset_tallocs g) = Some g1 \<and> fresh (reset_tallocs g) \<and>
    g' = g1\<lparr>ga_node_allocs := ns, ga_leaf_allocs := ls, ga_buffers := bs\<rparr>"
    and "pool_ok g' w'" and "tables_ok asz hp gr g'" and "spots_ok asz hp gr g' w'"
proof -
  obtain g1 ns ls where r: "alloc_graph_impl asz hp gr nids lids (reset_tallocs g) = Some g1" "mapM (node_entry asz hp g1) (gr_nodes gr) = Some ns"
    "mapM (tensor_entry asz hp g1) (gr_leafs gr) = Some ls"
    "realloc_buffers iface [0..<length (ga_bufts g1)] (g1\<lparr>ga_node_allocs := ns, ga_leaf_allocs := ls\<rparr>, w) = Some (True, g', w')"
    using run by (auto simp: reserve_n_def Let_def bind_eq_Some_conv)
  note fr = reset_fresh [OF pool]
  have gg: "ga_grows (reset_tallocs g) g1" by (rule alloc_graph_grows [OF r(1) fr(2) ok])
  let ?g2 = "g1\<lparr>ga_node_allocs := ns, ga_leaf_allocs := ls\<rparr>"
  have fields: "ga_bufts ?g2 = ga_bufts g1" "ga_buffers ?g2 = ga_buffers g1" "ga_buf_tallocs ?g2 = ga_buf_tallocs g1" "ga_tallocs ?g2 = ga_tallocs g1" by simp_all
  have pool2: "pool_ok ?g2 w" using pool_grows [OF fr(1) gg] unfolding pool_ok_def fields .
  have "pool_ok g' w' \<and> ready g' w' (length (ga_bufts g1)) \<and> (\<exists>bs. g' = ?g2\<lparr>ga_buffers := bs\<rparr>)"
    by (rule realloc_buffers_ok [OF r(4) pool2 _ _ law]) (simp_all add: ready_def)
  then obtain bs where g': "pool_ok g' w'" "ready g' w' (length (ga_bufts g1))" "g' = ?g2\<lparr>ga_buffers := bs\<rparr>" by blast
  show "pool_ok g' w'" by (rule g'(1))
  show "\<exists>g1 ns ls bs. alloc_graph_impl asz hp gr nids lids (reset_tallocs g) = Some g1 \<and> fresh (reset_tallocs g) \<and>
      g' = g1\<lparr>ga_node_allocs := ns, ga_leaf_allocs := ls, ga_buffers := bs\<rparr>"
    using r(1) fr(2) g'(3) by blast
  have same: "ga_hash g' = ga_hash g1" "ga_bufts g' = ga_bufts g1" "ga_node_allocs g' = ns" "ga_leaf_allocs g' = ls" "ga_tallocs g' = ga_tallocs g1"
    "ga_buf_tallocs g' = ga_buf_tallocs g1"
    using g'(3) by simp_all
  show "tables_ok asz hp gr g'" using r(2,3) tables_cong [OF same(1,2)] same(3,4) by (simp add: tables_ok_def)
  have "spot_ok asz hp g' w' t" if t: "t \<in> set (gr_leafs gr) \<union> set (gr_nodes gr)" "planned (hp t)" for t
  proof -
    have "in_bounds asz hp g1 t" by (rule graph_in_bounds [OF r(1) fr(2) ok ne t])
    then have "in_bounds asz hp g' t" unfolding in_bounds_def slot_def tensor_size_def same by simp
    then show ?thesis using ready_spot [OF g'(1)] g'(2) ok(2) t(2) by (simp add: same(2))
  qed
  then show "spots_ok asz hp gr g' w'" by (simp add: spots_ok_def)
qed

text \<open>
  Live tensors of a plan do not overlap, and what a graph gets after a reservation for it.
\<close>

lemma live_safe:
  assumes "fresh g" and "graph_ok hp gr" and "sizes_ok asz hp" and "alloc_graph_impl asz hp gr nids lids g = Some g'"
    and "i < length (gr_nodes gr)" and "live hp gr i s" and "live hp gr i t" and "s \<noteq> t" and "slot g' s = slot g' t"
  shows "in_bounds asz hp g' s \<and>
    (tensor_bytes asz hp g' s \<inter> tensor_bytes asz hp g' t = {} \<or> replaces hp gr i s t \<or> replaces hp gr i t s)"
proof -
  obtain g2 where g2: "compute_inv asz hp gr i g2" "ga_grows g2 g'" "\<forall>t. started hp gr (Suc i) t \<longrightarrow> planned (hp t) \<longrightarrow> place g' t = place g2 t"
    using alloc_graph_compute [OF assms(4,1-3,5)] by blast
  have place: "place g' u = place g2 u" if "live hp gr i u" for u using g2(3) that by (simp add: live_def)
  have same: "slot g' u = slot g2 u" "tensor_bytes asz hp g' u = tensor_bytes asz hp g2 u" if "live hp gr i u" for u
    using place [OF that] g2(2) by (simp_all add: place_def slot_def tensor_bytes_def tensor_size_def ga_grows_def)
  have "in_bounds asz hp g' s" by (rule live_in_bounds [OF assms(4,1-3,5,6)])
  moreover have "slot g2 s = slot g2 t" using assms(9) same(1) [OF assms(6)] same(1) [OF assms(7)] by simp
  ultimately show ?thesis
    using compute_safe(2) [OF g2(1) assms(3,7,6,8)] same(2) [OF assms(6)] same(2) [OF assms(7)] by simp
qed

lemma reserved_attached:
  assumes "pool_ok g w" and "graph_ok hp gr" and "gr_nodes gr \<noteq> []" and "sizes_ok asz hp" and "iface_ok iface" and "attach_ok hp"
    and "reserve_n asz iface hp gr nids lids (g, w) = Some (True, g', w')"
  shows "\<exists>h. gallocr_alloc_graph asz iface init_ok gr (hp, g', w') = Some (True, h, g', w') \<and>
    (\<forall>t \<in> set (gr_leafs gr) \<union> set (gr_nodes gr). planned (hp t) \<longrightarrow>
       (\<exists>b < length w'. te_buffer (h t) = Some b \<and> te_data (h t) = bu_base (w' ! b) + hn_offset (ga_hash g' t) \<and>
          te_data (h t) + tensor_size asz hp g' t \<le> bu_base (w' ! b) + bu_size (w' ! b))) \<and>
    (\<forall>v \<in> set (gr_nodes gr). \<forall>r. te_view_src (hp v) = Some r \<longrightarrow> planned (hp r) \<longrightarrow> te_buffer (hp v) = None \<longrightarrow>
       te_buffer (h v) = te_buffer (h r) \<and> te_data (h v) = te_data (h r) + te_view_offs (hp v)) \<and>
    (\<forall>i < length (gr_nodes gr). \<forall>s t. live hp gr i s \<longrightarrow> live hp gr i t \<longrightarrow> s \<noteq> t \<longrightarrow> te_buffer (h s) = te_buffer (h t) \<longrightarrow>
       {te_data (h s)..<te_data (h s) + tensor_size asz hp g' s} \<inter> {te_data (h t)..<te_data (h t) + tensor_size asz hp g' t} = {} \<or>
       replaces hp gr i s t \<or> replaces hp gr i t s)"
proof -
  note facts = reserve_facts [OF assms(7,1,2,4,3,5)]
  obtain g1 ns ls bs where g1: "alloc_graph_impl asz hp gr nids lids (reset_tallocs g) = Some g1" "fresh (reset_tallocs g)"
    "g' = g1\<lparr>ga_node_allocs := ns, ga_leaf_allocs := ls, ga_buffers := bs\<rparr>"
    using facts(1) by blast
  obtain h0 h where h: "foldM (init_leaf asz init_ok gr g' w') [0..<length (gr_leafs gr)] hp = Some h0"
    "foldM (init_node asz init_ok gr g' w') [0..<length (gr_nodes gr)] h0 = Some h" "attach_inv g' w' hp gr (length (gr_nodes gr)) h"
    using init_graph [OF assms(6) facts(4) assms(2) facts(3)] by blast
  have run: "gallocr_alloc_graph asz iface init_ok gr (hp, g', w') = Some (True, h, g', w')"
    using h(1,2) tables_fit [OF facts(3)] by (simp add: gallocr_alloc_graph_def)
  have spot: "spot_ok asz hp g' w' t" and at: "h t = placed_tensor g' w' hp t"
    if "t \<in> set (gr_leafs gr) \<union> set (gr_nodes gr)" "planned (hp t)" for t
    using that facts(4) h(3) by (auto simp: spots_ok_def attach_inv_def settled_def)
  have in_graph: "u \<in> set (gr_leafs gr) \<union> set (gr_nodes gr)" "planned (hp u)" if "live hp gr i u" for i u
    using that by (auto simp: live_def started_def dest: in_set_takeD)
  have first: "\<exists>b < length w'. te_buffer (h t) = Some b \<and> te_data (h t) = bu_base (w' ! b) + hn_offset (ga_hash g' t) \<and>
      te_data (h t) + tensor_size asz hp g' t \<le> bu_base (w' ! b) + bu_size (w' ! b)"
    if t: "t \<in> set (gr_leafs gr) \<union> set (gr_nodes gr)" "planned (hp t)" for t
    using spot [OF t] at [OF t] by (auto simp: spot_ok_def placed_tensor_def address_def)
  have second: "te_buffer (h v) = te_buffer (h r) \<and> te_data (h v) = te_data (h r) + te_view_offs (hp v)"
    if v: "v \<in> set (gr_nodes gr)" "te_view_src (hp v) = Some r" "planned (hp r)" "te_buffer (hp v) = None" for v r
  proof -
    have "settled g' w' hp h v" using h(3) v(1) by (simp add: attach_inv_def)
    then have "h v = viewed hp h r v" using v(2-4) by (simp add: settled_def)
    then show ?thesis by (simp add: viewed_def)
  qed
  have third: "{te_data (h s)..<te_data (h s) + tensor_size asz hp g' s} \<inter> {te_data (h t)..<te_data (h t) + tensor_size asz hp g' t} = {} \<or>
      replaces hp gr i s t \<or> replaces hp gr i t s"
    if i: "i < length (gr_nodes gr)" and st: "live hp gr i s" "live hp gr i t" "s \<noteq> t" "te_buffer (h s) = te_buffer (h t)" for i s t
  proof -
    note gs = in_graph [OF st(1)] and gt = in_graph [OF st(2)]
    obtain b where b: "handle g' s = Some b" "handle g' t = Some b" using first [OF gs] st(4) at [OF gs] at [OF gt] by (auto simp: placed_tensor_def)
    have "slot g' s = slot g' t" unfolding slot_def
      by (rule pool_okD(7) [OF facts(2), of _ _ b]) (use spot [OF gs] spot [OF gt] b pool_okD(2) [OF facts(2)] in \<open>simp_all add: spot_ok_def handle_def\<close>)
    then have "slot g1 s = slot g1 t" by (simp add: g1(3) slot_def)
    then have "tensor_bytes asz hp g1 s \<inter> tensor_bytes asz hp g1 t = {} \<or> replaces hp gr i s t \<or> replaces hp gr i t s"
      using live_safe [OF g1(2) assms(2,4) g1(1) i st(1-3)] by blast
    moreover have "{te_data (h u)..<te_data (h u) + tensor_size asz hp g' u} = (\<lambda>x. bu_base (w' ! b) + x) ` tensor_bytes asz hp g1 u"
      if u: "u = s \<or> u = t" for u
    proof -
      have "te_data (h u) = bu_base (w' ! b) + hn_offset (ga_hash g1 u)" using u at [OF gs] at [OF gt] b by (auto simp: placed_tensor_def address_def g1(3))
      moreover have "tensor_size asz hp g' u = tensor_size asz hp g1 u" by (simp add: tensor_size_def g1(3))
      ultimately show ?thesis by (simp add: tensor_bytes_def image_add_atLeastLessThan add_ac)
    qed
    moreover have "inj (\<lambda>x. bu_base (w' ! b) + x)" by simp
    ultimately show ?thesis by (simp flip: image_Int)
  qed
  show ?thesis using run first second third by blast
qed

end
