(* ===== verification/GraphDemo.thy ===== *)
theory GraphDemo
  imports GraphPlace
begin

text \<open>
  Small graphs, for concrete runs: five tensors, tensor 0 a leaf, of equal layout and 16 bytes each.
\<close>

definition demo_tensor :: "ggml_op \<Rightarrow> nat \<Rightarrow> nat list \<Rightarrow> nat option \<Rightarrow> tensor" where
  "demo_tensor op flags ss view = \<lparr>te_type = 0, te_buffer = None, te_ne = [4, 1, 1, 1], te_nb = [4, 16, 16, 16], te_op = op,
     te_flags = flags, te_src = List.map Some ss, te_view_src = view, te_view_offs = 0, te_data = 0\<rparr>"

text \<open>Every tensor that is not in the graph has data.\<close>

definition demo_heap :: "tensor list \<Rightarrow> heap" where
  "demo_heap ts t = (if t < length ts then ts ! t else (demo_tensor OP_NONE 0 [] None)\<lparr>te_data := 1\<rparr>)"

definition demo_size :: "nat \<Rightarrow> tensor \<Rightarrow> nat" where
  "demo_size b t = nat (hd (te_ne t)) * 4"

definition demo_iface :: "nat \<Rightarrow> nat \<Rightarrow> world \<Rightarrow> (nat \<times> nat) option" where
  "demo_iface ty n w = Some (4096, n)"

definition demo_gallocr :: gallocr where
  "demo_gallocr = ggml_gallocr_new_n (\<lambda>_. 32) [0]"

definition demo_graph :: graph where
  "demo_graph = \<lparr>gr_nodes = [1, 2, 3, 4], gr_leafs = [0]\<rparr>"

text \<open>An input, a product, an operation in place on the product, a product with the input, and a last one.\<close>

definition inplace_heap :: heap where
  "inplace_heap = demo_heap [demo_tensor OP_NONE 1 [] None, demo_tensor (OP_other ''MUL_MAT'') 0 [0, 0] None,
     demo_tensor OP_UNARY 0 [1] None, demo_tensor (OP_other ''MUL_MAT'') 0 [2, 0] None, demo_tensor (OP_other ''MUL_MAT'') 0 [3] None]"

text \<open>A view that is an output and is also read by the next node.\<close>

definition view_heap :: heap where
  "view_heap = demo_heap [demo_tensor OP_NONE 1 [] None, demo_tensor (OP_other ''MUL_MAT'') 0 [0] None,
     demo_tensor (OP_other ''RESHAPE'') 2 [1] (Some 1), demo_tensor (OP_other ''MUL_MAT'') 0 [2] None, demo_tensor (OP_other ''MUL_MAT'') 0 [3] None]"

lemma demo_gallocr_eq:
  "demo_gallocr = \<lparr>ga_bufts = [0], ga_buffers = [None], ga_buf_tallocs = [0], ga_tallocs = [dyn_tallocr_new 32],
     ga_hash = (\<lambda>_. empty_node), ga_node_allocs = [], ga_leaf_allocs = []\<rparr>"
  by (simp add: demo_gallocr_def ggml_gallocr_new_n_def new_buffer_def)

lemmas demo_plan = alloc_graph_impl_def demo_gallocr_eq demo_graph_def alloc_leaf_def count_node_def count_src_def plan_node_def
  release_parent_def free_node_def allocate_node_def is_allocated_def get_node_buffer_id_def ggml_is_view_def ggml_are_same_layout_def
  has_flag_def srcs_def demo_heap_def demo_tensor_def inplace_heap_def view_heap_def List.map_filter_simps Let_def upt_rec hash_upd_def
  empty_node_def demo_size_def hand_over_def dyn_tallocr_alloc_def dyn_tallocr_new_def dyn_tallocr_reset_def SIZE_MAX_def choose_block_def
  best_fit_def best_fit_step_def aligned_offset_def u64_def vget_def remove_block_def dyn_tallocr_free_tensor_def merge_at_def
  insert_block_def MAX_FREE_BLOCKS_def ggml_op_can_inplace_def

lemma demo_sizes: "sizes_ok demo_size (demo_heap ts)" if "\<forall>t \<in> set ts. te_ne t = [4, 1, 1, 1]"
proof -
  have "demo_size b (demo_heap ts t) = 16" for b t using that by (simp add: demo_heap_def demo_tensor_def demo_size_def)
  then show ?thesis by (simp add: sizes_ok_def da_sized_def)
qed

lemma demo_fresh: "fresh demo_gallocr"
  by (simp add: fresh_def demo_gallocr_eq gallocr_ok_def dyn_tallocr_new_def dyn_tallocr_reset_def)

lemma inplace_ok: "graph_ok inplace_heap demo_graph" "sizes_ok demo_size inplace_heap" "attach_ok inplace_heap"
proof -
  show "sizes_ok demo_size inplace_heap" unfolding inplace_heap_def by (rule demo_sizes) (simp add: demo_tensor_def)
  have srcs: "srcs (inplace_heap 1) = [0, 0]" "srcs (inplace_heap 2) = [1]" "srcs (inplace_heap 3) = [2, 0]" "srcs (inplace_heap 4) = [3]"
    by (simp_all add: inplace_heap_def demo_heap_def demo_tensor_def srcs_def List.map_filter_simps)
  have "te_view_src (inplace_heap t) = None" for t by (simp add: inplace_heap_def demo_heap_def demo_tensor_def nth_Cons split: nat.splits)
  then show "graph_ok inplace_heap demo_graph"
    unfolding graph_ok_def demo_graph_def
    by (simp add: srcs srcs(1) [unfolded One_nat_def] occs_def less_Suc_eq has_flag_def) (simp add: inplace_heap_def demo_heap_def demo_tensor_def ggml_op_can_inplace_def)
  have "te_buffer (inplace_heap t) = None" for t by (simp add: inplace_heap_def demo_heap_def demo_tensor_def nth_Cons split: nat.splits)
  then show "attach_ok inplace_heap" by (simp add: attach_ok_def)
qed

text \<open>Tensor 2 takes the place of tensor 1; tensor 3 cannot take that of tensor 0.\<close>

lemma inplace_run:
  "\<exists>g. alloc_graph_impl demo_size inplace_heap demo_graph None None demo_gallocr = Some g \<and>
     List.map (place g) [0, 1, 2, 3, 4] = [(0, 0), (0, 32), (0, 32), (0, 64), (0, 0)]"
  by (simp add: demo_plan place_def)

lemmas demo_reserve = reserve_n_def reset_tallocs_def node_entry_def src_entry_def tensor_entry_def no_alloc_def realloc_buffer_def
  buffer_size_def buft_alloc_buffer_def buffer_init_def demo_iface_def

lemma demo_pool: "pool_ok demo_gallocr w"
  unfolding demo_gallocr_def by (rule gallocr_new_ok) simp

lemma demo_iface_ok: "iface_ok demo_iface"
  by (simp add: iface_ok_def demo_iface_def)

lemma inplace_reserve:
  "\<exists>g w. reserve_n demo_size demo_iface inplace_heap demo_graph None None (demo_gallocr, []) = Some (True, g, w)"
  by (simp add: demo_reserve demo_plan)

subsection \<open>Corner cases\<close>

text \<open>
  src/ggml-alloc.h says that outputs are never overwritten.  The flag is looked at on the tensor that owns the
  memory only: tensor 2 is a view of tensor 1 and an output, and tensor 3 reads it; then the memory is given
  to tensor 4.
\<close>

lemma view_output_overwritten:
  "has_flag FLAG_OUTPUT (view_heap 2) \<and> te_view_src (view_heap 2) = Some 1 \<and>
   (\<exists>g. alloc_graph_impl demo_size view_heap demo_graph None None demo_gallocr = Some g \<and> place g 4 = place g 1)"
  by (simp add: demo_plan place_def)

text \<open>
  A leaf that no node reads is not compared with the plan: tensor 2 has grown from 16 to 64 bytes, its old
  place is used, and it overlaps tensor 1.
\<close>

definition leaf_graph :: graph where
  "leaf_graph = \<lparr>gr_nodes = [1], gr_leafs = [0, 2]\<rparr>"

definition leaf_heap :: "int \<Rightarrow> heap" where
  "leaf_heap n = demo_heap [demo_tensor OP_NONE 1 [] None, demo_tensor (OP_other ''MUL_MAT'') 0 [0] None,
     (demo_tensor OP_NONE 0 [] None)\<lparr>te_ne := [n, 1, 1, 1]\<rparr>]"

lemma grown_leaf_overlaps:
  "\<exists>g w h. reserve_n demo_size demo_iface (leaf_heap 4) leaf_graph None None (demo_gallocr, []) = Some (True, g, w) \<and>
     gallocr_alloc_graph demo_size demo_iface (\<lambda>_ _. True) leaf_graph (leaf_heap 16, g, w) = Some (True, h, g, w) \<and>
     te_data (h 2) = 4128 \<and> demo_size 0 (h 2) = 64 \<and> te_data (h 1) = 4160"
  by (simp add: demo_reserve demo_plan leaf_graph_def leaf_heap_def gallocr_alloc_graph_def needs_realloc_def node_fits_def src_fits_def
      node_needs_realloc_def init_leaf_def init_node_def init_src_def init_tensor_def backend_tensor_alloc_def buffer_get_base_def)

end
