(* ===== verification/GraphProps.thy ===== *)
theory GraphProps
  imports GraphDemo
begin

text \<open>
  The properties of the memory planner: the allocator that measures, and the plan of a graph.
\<close>

subsection \<open>The allocator\<close>

text \<open>C32: Whatever is allocated and freed, in whatever order, the ranges in use are aligned, do not overlap and
  end below \<open>max_size\<close>; there are at most as many free blocks as ranges in use, and one more, so that
  freeing cannot run out of blocks while fewer than 255 ranges are in use; and when all is freed the free
  blocks are those of a new allocator: no fragmentation stays.
\<close>

theorem allocator_exact:
  assumes "foldM serve rs (dyn_tallocr_new al, \<lambda>_. None) = Some (a, L)"
    and "\<forall>r \<in> set rs. request_ok r" and "0 < al" and "al < 2 ^ 32"
  shows "(\<forall>s t r q. s \<noteq> t \<longrightarrow> L s = Some r \<longrightarrow> L t = Some q \<longrightarrow> {fst r..<fst r + snd r} \<inter> {fst q..<fst q + snd q} = {}) \<and>
    (\<forall>t off n. L t = Some (off, n) \<longrightarrow> al dvd off \<and> off + n \<le> da_max_size a) \<and>
    length (da_free_blocks a) \<le> Suc (card (dom L)) \<and>
    (L = (\<lambda>_. None) \<longrightarrow> da_free_blocks a = da_free_blocks (dyn_tallocr_new al))"
proof -
  have inv: "da.accounts {0..<SIZE_MAX div 2} a L" "da_alignment a = al" "finite (dom L)"
    using serve_inv_run [OF assms] by (simp_all add: serve_inv_def)
  have ok: "tallocr_ok a" using inv(1) by (simp add: da.accounts_def)
  have entry: "al dvd fst r \<and> snd r \<le> da_pad a (snd r) \<and> fst r + da_pad a (snd r) \<le> da_max_size a" if t: "L t = Some r" for t r
    using da.accounts_range [OF inv(1) t] pad_ge [OF ok] inv(2) by (auto simp: da_placed_def)
  have "{fst r..<fst r + snd r} \<inter> {fst q..<fst q + snd q} = {}" if st: "s \<noteq> t" "L s = Some r" "L t = Some q" for s t r q
  proof -
    have "range_of (da_pad a) r \<inter> range_of (da_pad a) q = {}" by (rule da.accounts_apart [OF inv(1) st(2,3,1)])
    moreover have "{fst r..<fst r + snd r} \<subseteq> range_of (da_pad a) r" "{fst q..<fst q + snd q} \<subseteq> range_of (da_pad a) q"
      using entry [OF st(2)] entry [OF st(3)] by (auto simp: range_of_def)
    ultimately show ?thesis by blast
  qed
  moreover have "al dvd off \<and> off + n \<le> da_max_size a" if "L t = Some (off, n)" for t off n using entry [OF that] by simp
  moreover have "da_free_blocks a = da_free_blocks (dyn_tallocr_new al)" if "L = (\<lambda>_. None)"
  proof -
    have "free_set a = free_set (dyn_tallocr_new al)" using da.accounts_empty inv(1) that dyn_tallocr_new_ok(2) [OF assms(3,4)] by blast
    then show ?thesis
      using blocks_unique [of al] ok dyn_tallocr_new_ok(1) [OF assms(3,4)] inv(2)
      by (simp add: tallocr_ok_blocks free_set_blocks) (simp add: dyn_tallocr_new_def dyn_tallocr_reset_def)
  qed
  ultimately show ?thesis using few_blocks [OF inv(1,3)] by blast
qed

theorem allocator_exact_witness:
  "\<exists>a L. foldM serve [Allocate 0 100, Allocate 1 40, Allocate 2 8, Free 1, Free 0, Free 2] (dyn_tallocr_new 32, \<lambda>_. None) = Some (a, L) \<and>
     da_free_blocks a = [\<lparr>fb_offset = 0, fb_size = SIZE_MAX div 2\<rparr>] \<and> da_max_size a = 224"
proof -
  let ?rs = "[Allocate 0 100, Allocate 1 40, Allocate 2 8, Free 1, Free 0, Free 2]"
  have "\<exists>a. foldM serve ?rs (dyn_tallocr_new 32, \<lambda>_. None) = Some (a, \<lambda>_. None) \<and> da_max_size a = 224"
    by (simp add: dyn_tallocr_new_def dyn_tallocr_reset_def SIZE_MAX_def dyn_tallocr_alloc_def dyn_tallocr_free_tensor_def Let_def
        choose_block_def best_fit_def best_fit_step_def aligned_offset_def u64_def remove_block_def merge_at_def insert_block_def
        MAX_FREE_BLOCKS_def upt_rec fun_eq_iff)
  then obtain a L where run: "foldM serve ?rs (dyn_tallocr_new 32, \<lambda>_. None) = Some (a, L)" "L = (\<lambda>_. None)" "da_max_size a = 224"
    by blast
  have "da_free_blocks a = da_free_blocks (dyn_tallocr_new 32)"
    using allocator_exact [OF run(1)] run(2) by (simp add: request_ok_def)
  then show ?thesis using run by (auto simp: dyn_tallocr_new_def dyn_tallocr_reset_def)
qed

subsection \<open>The plan\<close>

text \<open>C28: While node \<open>i\<close> of a graph is computed, two tensors that are live, that is written before and still to
  be read, or outputs, or never read, do not overlap in the buffer they share, unless the node is computed in
  place of one of its sources that has the same layout, is no output and is not needed any more.  Every live
  tensor is aligned and ends within the size the buffer will have.
\<close>

theorem plan_safe:
  assumes "fresh g" and "graph_ok hp gr" and "sizes_ok asz hp" and "alloc_graph_impl asz hp gr nids lids g = Some g'"
    and "i < length (gr_nodes gr)" and "live hp gr i s" and "live hp gr i t" and "s \<noteq> t" and "slot g' s = slot g' t"
  shows "in_bounds asz hp g' s \<and>
    (tensor_bytes asz hp g' s \<inter> tensor_bytes asz hp g' t = {} \<or> replaces hp gr i s t \<or> replaces hp gr i t s)"
  by (rule live_safe [OF assms])

theorem plan_safe_witness:
  "\<exists>g. alloc_graph_impl demo_size inplace_heap demo_graph None None demo_gallocr = Some g \<and>
     tensor_bytes demo_size inplace_heap g 0 \<inter> tensor_bytes demo_size inplace_heap g 2 = {}"
proof -
  obtain g where g: "alloc_graph_impl demo_size inplace_heap demo_graph None None demo_gallocr = Some g"
    "List.map (place g) [0, 1, 2, 3, 4] = [(0, 0), (0, 32), (0, 32), (0, 64), (0, 0)]"
    using inplace_run by (elim exE conjE) (rule that)
  have srcs: "srcs (inplace_heap 1) = [0, 0]" "srcs (inplace_heap 2) = [1]" "srcs (inplace_heap 3) = [2, 0]" "srcs (inplace_heap 4) = [3]"
    by (simp_all add: inplace_heap_def demo_heap_def demo_tensor_def srcs_def List.map_filter_simps)
  have planned: "planned (inplace_heap 0)" "planned (inplace_heap 2)"
    by (simp_all add: inplace_heap_def demo_heap_def demo_tensor_def planned_def)
  have "still_reads inplace_heap (occs inplace_heap (drop 2 [1, 2, 3, 4])) 0" "still_reads inplace_heap (occs inplace_heap (drop 2 [1, 2, 3, 4])) 2"
    using srcs by (simp_all add: still_reads_def)
  then have live: "live inplace_heap demo_graph 2 0" "live inplace_heap demo_graph 2 2"
    using planned by (simp_all add: live_def held_def started_def demo_graph_def)
  have "\<not> replaces inplace_heap demo_graph 2 0 2" "\<not> replaces inplace_heap demo_graph 2 2 0"
    by (simp_all add: replaces_def demo_graph_def)
  moreover have "slot g 0 = slot g 2" using g(2) by (simp add: slot_def place_def)
  ultimately show ?thesis
    using plan_safe [OF demo_fresh inplace_ok(1,2) g(1), of 2 0 2] live g(1) by (auto simp: demo_graph_def)
qed

end
