(* ===== verification/HashSet.thy ===== *)
theory HashSet
  imports Prelude "HOL-Library.Word"
begin

unbundle bit_operations_syntax

text \<open>
  \<open>ggml_hash_set\<close> of src/ggml-impl.h: the set of the tensors of a graph, a table with linear probing and a
  bitset of the entries in use.  A key is the address of a tensor.
\<close>

definition bitset_size :: "nat \<Rightarrow> nat" where
  "bitset_size n = (n + 31) div 32"

definition bitset_get :: "32 word list \<Rightarrow> nat \<Rightarrow> bool" where
  "bitset_get bs i \<longleftrightarrow> bs ! (i div 32) AND push_bit (i mod 32) 1 \<noteq> 0"

definition bitset_set :: "32 word list \<Rightarrow> nat \<Rightarrow> 32 word list" where
  "bitset_set bs i = bs[i div 32 := bs ! (i div 32) OR push_bit (i mod 32) 1]"

definition bitset_clear :: "32 word list \<Rightarrow> nat \<Rightarrow> 32 word list" where
  "bitset_clear bs i = bs[i div 32 := bs ! (i div 32) AND NOT (push_bit (i mod 32) 1)]"

record hash_set =
  hs_size :: nat
  hs_used :: "32 word list"
  hs_keys :: "nat list"

definition primes :: "nat list" where
  "primes =
     [2, 3, 5, 11, 17, 37, 67, 131, 257, 521, 1031,
      2053, 4099, 8209, 16411, 32771, 65537, 131101,
      262147, 524309, 1048583, 2097169, 4194319, 8388617,
      16777259, 33554467, 67108879, 134217757, 268435459,
      536870923, 1073741827, 2147483659]"

text \<open>The binary search for the first prime of the table that is large enough.\<close>

function prime_search :: "nat \<Rightarrow> nat \<Rightarrow> nat \<Rightarrow> nat" where
  "prime_search min_sz l r =
     (if l < r then
        let m = (l + r) div 2 in
        if primes ! m < min_sz then prime_search min_sz (m + 1) r else prime_search min_sz l m
      else l)"
  by pat_completeness auto
termination by (relation "measure (\<lambda>(_, l, r). r - l)") auto

declare prime_search.simps [simp del]

definition hash_size :: "nat \<Rightarrow> nat" where
  "hash_size min_sz = (let l = prime_search min_sz 0 (length primes) in if l < length primes then primes ! l else min_sz OR 1)"

text \<open>The array of keys is not initialised: \<open>junk\<close> is what it holds.\<close>

definition hash_set_new :: "(nat \<Rightarrow> nat) \<Rightarrow> nat \<Rightarrow> hash_set" where
  "hash_set_new junk min_sz =
     (let n = hash_size min_sz in \<lparr>hs_size = n, hs_used = replicate (bitset_size n) 0, hs_keys = List.map junk [0..<n]\<rparr>)"

definition hash_set_reset :: "hash_set \<Rightarrow> hash_set" where
  "hash_set_reset hs = hs\<lparr>hs_used := replicate (bitset_size (hs_size hs)) 0\<rparr>"

definition ggml_hash :: "nat \<Rightarrow> nat" where
  "ggml_hash p = drop_bit 4 p"

definition used :: "hash_set \<Rightarrow> nat \<Rightarrow> bool" where
  "used hs i \<longleftrightarrow> bitset_get (hs_used hs) i"

definition claim :: "hash_set \<Rightarrow> nat \<Rightarrow> nat \<Rightarrow> hash_set" where
  "claim hs i key = hs\<lparr>hs_used := bitset_set (hs_used hs) i, hs_keys := (hs_keys hs)[i := key]\<rparr>"

text \<open>
  The probing loops begin at entry \<open>h\<close> and end when they come back to it; \<open>n\<close> is the number of entries
  left.
\<close>

fun find_from :: "hash_set \<Rightarrow> nat \<Rightarrow> nat \<Rightarrow> nat \<Rightarrow> nat \<Rightarrow> nat option" where
  "find_from hs key h 0 i = None"
| "find_from hs key h (Suc n) i =
     (if used hs i \<and> hs_keys hs ! i \<noteq> key then
        let i = (i + 1) mod hs_size hs in if i = h then None else find_from hs key h n i
      else Some i)"

definition hash_find :: "hash_set \<Rightarrow> nat \<Rightarrow> nat option" where
  "hash_find hs key = (let h = ggml_hash key mod hs_size hs in find_from hs key h (hs_size hs) h)"

definition hash_contains :: "hash_set \<Rightarrow> nat \<Rightarrow> bool" where
  "hash_contains hs key = (case hash_find hs key of None \<Rightarrow> False | Some i \<Rightarrow> used hs i)"

datatype insertion = Already_exists | Inserted nat hash_set

fun insert_from :: "hash_set \<Rightarrow> nat \<Rightarrow> nat \<Rightarrow> nat \<Rightarrow> nat \<Rightarrow> insertion option" where
  "insert_from hs key h 0 i = None"
| "insert_from hs key h (Suc n) i =
     (if \<not> used hs i then Some (Inserted i (claim hs i key))
      else if hs_keys hs ! i = key then Some Already_exists
      else let i = (i + 1) mod hs_size hs in if i = h then None else insert_from hs key h n i)"

definition hash_insert :: "hash_set \<Rightarrow> nat \<Rightarrow> insertion option" where
  "hash_insert hs key = (let h = ggml_hash key mod hs_size hs in insert_from hs key h (hs_size hs) h)"

fun find_or_insert_from :: "hash_set \<Rightarrow> nat \<Rightarrow> nat \<Rightarrow> nat \<Rightarrow> nat \<Rightarrow> (nat \<times> hash_set) option" where
  "find_or_insert_from hs key h 0 i = None"
| "find_or_insert_from hs key h (Suc n) i =
     (if \<not> used hs i then Some (i, claim hs i key)
      else if hs_keys hs ! i = key then Some (i, hs)
      else let i = (i + 1) mod hs_size hs in if i = h then None else find_or_insert_from hs key h n i)"

definition hash_find_or_insert :: "hash_set \<Rightarrow> nat \<Rightarrow> (nat \<times> hash_set) option" where
  "hash_find_or_insert hs key = (let h = ggml_hash key mod hs_size hs in find_or_insert_from hs key h (hs_size hs) h)"

text \<open>
  The interface of a table that gives each of its keys a slot of its own, for clients that look up and claim
  slots: looking up finds the slot of a key or a free one, and claiming it changes no other.
\<close>

locale slot_table =
  fixes ok :: "'h \<Rightarrow> bool" and size_of :: "'h \<Rightarrow> nat" and slot :: "'h \<Rightarrow> 'k \<Rightarrow> nat option" and find :: "'h \<Rightarrow> 'k \<Rightarrow> nat option"
    and used :: "'h \<Rightarrow> nat \<Rightarrow> bool" and claim :: "'h \<Rightarrow> nat \<Rightarrow> 'k \<Rightarrow> 'h"
  assumes find_slot: "ok h \<Longrightarrow> slot h k = Some i \<Longrightarrow> find h k = Some i \<and> used h i"
    and find_free: "ok h \<Longrightarrow> slot h k = None \<Longrightarrow> find h k = Some i \<Longrightarrow> i < size_of h \<and> \<not> used h i"
    and find_full: "ok h \<Longrightarrow> find h k = None \<Longrightarrow> size_of h \<le> card (dom (slot h))"
    and slot_less: "ok h \<Longrightarrow> slot h k = Some i \<Longrightarrow> i < size_of h"
    and slot_inj: "ok h \<Longrightarrow> slot h k = Some i \<Longrightarrow> slot h l = Some i \<Longrightarrow> k = l"
    and claim_law: "ok h \<Longrightarrow> slot h k = None \<Longrightarrow> find h k = Some i \<Longrightarrow>
      ok (claim h i k) \<and> slot (claim h i k) = (slot h)(k \<mapsto> i) \<and> size_of (claim h i k) = size_of h"
begin

lemma find_used: "ok h \<Longrightarrow> find h k = Some i \<Longrightarrow> used h i \<longleftrightarrow> slot h k = Some i"
  using find_slot [of h k] find_free [of h k i] by (cases "slot h k") auto

lemma finite_slots: "ok h \<Longrightarrow> finite (dom (slot h))"
proof -
  assume h: "ok h"
  have "inj_on (\<lambda>k. the (slot h k)) (dom (slot h))" using slot_inj [OF h] by (auto simp: inj_on_def)
  moreover have "(\<lambda>k. the (slot h k)) ` dom (slot h) \<subseteq> {..<size_of h}" using slot_less [OF h] by auto
  ultimately show "finite (dom (slot h))" using inj_on_finite by blast
qed

lemma find_room: "ok h \<Longrightarrow> card (dom (slot h)) < size_of h \<Longrightarrow> \<exists>i. find h k = Some i"
  using find_full [of h k] by (cases "find h k") auto

text \<open>A free slot is not the slot of any other key.\<close>

lemma claim_other:
  assumes "ok h" "slot h k = None" "find h k = Some i" "slot h l = Some j"
  shows "j \<noteq> i" and "slot (claim h i k) l = Some j"
proof -
  show "j \<noteq> i" using find_free [OF assms(1-3)] find_slot [OF assms(1,4)] by auto
  show "slot (claim h i k) l = Some j" using claim_law [OF assms(1-3)] assms(2,4) by auto
qed

end

text \<open>
  The table of \<open>ggml_hash_set\<close> gives every key a slot of its own: the invariant of linear probing, what the
  loops find, and the interface \<open>slot_table\<close>.
\<close>

subsection \<open>Bits\<close>

lemma one_bit: "bit (push_bit (i mod 32) 1 :: 32 word) n \<longleftrightarrow> n = i mod 32"
proof -
  have "i mod 32 < LENGTH(32)" by simp
  then show ?thesis by (simp only: bit_push_bit_iff) (auto simp: bit_1_iff)
qed

lemma bitset_get_bit: "bitset_get bs i \<longleftrightarrow> bit (bs ! (i div 32)) (i mod 32)"
proof -
  have "bs ! (i div 32) AND push_bit (i mod 32) 1 \<noteq> 0 \<longleftrightarrow> (\<exists>n. bit (bs ! (i div 32) AND push_bit (i mod 32) 1) n)"
    by (metis bit_0_eq bit_eqI bot_apply bot_bool_def)
  also have "\<dots> \<longleftrightarrow> bit (bs ! (i div 32)) (i mod 32)"
    by (simp only: bit_and_iff one_bit) blast
  finally show ?thesis unfolding bitset_get_def .
qed

lemma bitset_size_less: "i < n \<Longrightarrow> i div 32 < bitset_size n"
  by (simp add: bitset_size_def div_less_iff_less_mult)

lemma bitset_get_set:
  assumes "i div 32 < length bs"
  shows "bitset_get (bitset_set bs i) j \<longleftrightarrow> j = i \<or> bitset_get bs j"
proof (cases "j div 32 = i div 32")
  case True
  have "j = i \<longleftrightarrow> j mod 32 = i mod 32" using True by (metis div_mult_mod_eq)
  moreover have "bitset_get (bitset_set bs i) j \<longleftrightarrow> bit (bs ! (i div 32) OR push_bit (i mod 32) 1) (j mod 32)"
    using True assms by (simp only: bitset_get_bit bitset_set_def nth_list_update_eq)
  ultimately show ?thesis using True by (simp only: bitset_get_bit bit_or_iff one_bit) blast
next
  case False
  then have "j \<noteq> i" by auto
  then show ?thesis using False by (simp add: bitset_get_bit bitset_set_def)
qed

lemma length_bitset_set [simp]: "length (bitset_set bs i) = length bs"
  by (simp add: bitset_set_def)

lemma bitset_get_new: "i div 32 < n \<Longrightarrow> \<not> bitset_get (replicate n 0) i"
  by (simp add: bitset_get_bit)

subsection \<open>The size of the table\<close>

lemma primes_sorted: "i < j \<Longrightarrow> j < length primes \<Longrightarrow> primes ! i < primes ! j"
proof -
  have "sorted_wrt (<) primes" by (simp add: primes_def)
  then show "i < j \<Longrightarrow> j < length primes \<Longrightarrow> primes ! i < primes ! j" by (simp add: sorted_wrt_iff_nth_less)
qed

lemma prime_search_spec:
  assumes "l \<le> r" "r \<le> length primes" "\<forall>i < l. primes ! i < n" "\<forall>i < length primes. r \<le> i \<longrightarrow> n \<le> primes ! i"
  shows "let k = prime_search n l r in k \<le> length primes \<and> (\<forall>i < k. primes ! i < n) \<and> (\<forall>i < length primes. k \<le> i \<longrightarrow> n \<le> primes ! i)"
  using assms
proof (induction n l r rule: prime_search.induct)
  case (1 n l r)
  show ?case
  proof (cases "l < r")
    case False
    then show ?thesis using "1.prems" by (subst prime_search.simps) (simp add: Let_def)
  next
    case True
    let ?m = "(l + r) div 2"
    have m: "l \<le> ?m" "?m < r" using True by auto
    show ?thesis
    proof (cases "primes ! ?m < n")
      case less: True
      have "\<forall>i < ?m + 1. primes ! i < n"
      proof (intro allI impI)
        fix i
        assume "i < ?m + 1"
        then show "primes ! i < n" using primes_sorted [of i ?m] less m(2) "1.prems"(2) by (cases "i = ?m") auto
      qed
      then show ?thesis using "1.IH"(1) [OF True refl less] "1.prems" m True less by (subst prime_search.simps) (simp add: Let_def)
    next
      case ge: False
      have "\<forall>i < length primes. ?m \<le> i \<longrightarrow> n \<le> primes ! i"
      proof (intro allI impI)
        fix i
        assume i: "i < length primes" "?m \<le> i"
        then show "n \<le> primes ! i" using primes_sorted [of ?m i] ge by (cases "i = ?m") auto
      qed
      then show ?thesis using "1.IH"(2) [OF True refl ge] "1.prems" m True ge by (subst prime_search.simps) (simp add: Let_def)
    qed
  qed
qed

lemma hash_size_ge: "n \<le> hash_size n" and hash_size_pos: "0 < hash_size n"
proof -
  let ?k = "prime_search n 0 (length primes)"
  have "?k \<le> length primes \<and> (\<forall>i < length primes. ?k \<le> i \<longrightarrow> n \<le> primes ! i)"
    using prime_search_spec [of 0 "length primes" n] by (simp add: Let_def)
  moreover have "n \<le> n OR Suc 0" by (simp add: or_Suc_0_eq)
  ultimately show "n \<le> hash_size n" by (simp add: hash_size_def Let_def)
  have "\<forall>p \<in> set primes. 0 < p" by (simp add: primes_def)
  moreover have "0 < n OR 1" by (metis gr0I or_eq_0_iff zero_neq_one)
  ultimately show "0 < hash_size n" by (auto simp: hash_size_def Let_def)
qed

subsection \<open>Probing\<close>

definition probe :: "hash_set \<Rightarrow> nat \<Rightarrow> nat \<Rightarrow> nat" where
  "probe hs key d = (ggml_hash key + d) mod hs_size hs"

text \<open>Entry \<open>i\<close> is in use for another key.\<close>

definition passes :: "hash_set \<Rightarrow> nat \<Rightarrow> nat \<Rightarrow> bool" where
  "passes hs key i \<longleftrightarrow> used hs i \<and> hs_keys hs ! i \<noteq> key"

definition hs_ok :: "hash_set \<Rightarrow> bool" where
  "hs_ok hs \<longleftrightarrow> 0 < hs_size hs \<and> length (hs_used hs) = bitset_size (hs_size hs) \<and> length (hs_keys hs) = hs_size hs \<and>
     (\<forall>i < hs_size hs. used hs i \<longrightarrow>
        (\<exists>d < hs_size hs. i = probe hs (hs_keys hs ! i) d \<and> (\<forall>e < d. passes hs (hs_keys hs ! i) (probe hs (hs_keys hs ! i) e))))"

lemma probe_less: "hs_ok hs \<Longrightarrow> probe hs k d < hs_size hs"
  by (simp add: probe_def hs_ok_def)

lemma probe_Suc: "(probe hs k d + 1) mod hs_size hs = probe hs k (Suc d)"
  by (simp add: probe_def mod_Suc_eq)

lemma probe_inj:
  assumes "d < hs_size hs" "e < hs_size hs" "probe hs k d = probe hs k e"
  shows "d = e"
proof -
  have "int (ggml_hash k + d) mod int (hs_size hs) = int (ggml_hash k + e) mod int (hs_size hs)"
    using assms(3) by (simp only: probe_def flip: zmod_int)
  then have "int (hs_size hs) dvd int d - int e" by (simp add: mod_eq_dvd_iff)
  then have "\<not> int d - int e \<noteq> 0" using dvd_imp_le_int [of "int d - int e" "int (hs_size hs)"] assms(1,2) by linarith
  then show ?thesis by simp
qed

lemma probe_onto:
  assumes "hs_ok hs" "i < hs_size hs"
  shows "\<exists>d < hs_size hs. probe hs k d = i"
proof -
  have "probe hs k ` {..<hs_size hs} = {..<hs_size hs}"
  proof (rule endo_inj_surj)
    show "probe hs k ` {..<hs_size hs} \<subseteq> {..<hs_size hs}" using probe_less [OF assms(1)] by auto
    show "inj_on (probe hs k) {..<hs_size hs}" using probe_inj by (auto simp: inj_on_def)
  qed simp
  then show ?thesis using assms(2) by (metis imageE lessThan_iff)
qed

lemma wrap: "hs_ok hs \<Longrightarrow> d < hs_size hs \<Longrightarrow> probe hs k (Suc d) = probe hs k 0 \<longleftrightarrow> Suc d = hs_size hs"
  using probe_inj [of "Suc d" hs 0 k] by (cases "Suc d = hs_size hs") (auto simp: probe_def)

text \<open>What the loop from entry \<open>d\<close> of the sequence on returns.\<close>

lemma find_from_spec:
  assumes "hs_ok hs" "d < hs_size hs" "n = hs_size hs - d" "\<forall>e < d. passes hs k (probe hs k e)"
  shows "case find_from hs k (probe hs k 0) n (probe hs k d) of
      Some i \<Rightarrow> \<exists>e < hs_size hs. i = probe hs k e \<and> \<not> passes hs k i \<and> (\<forall>e' < e. passes hs k (probe hs k e'))
    | None \<Rightarrow> \<forall>e < hs_size hs. passes hs k (probe hs k e)"
  using assms(2-)
proof (induction n arbitrary: d)
  case (Suc n)
  show ?case
  proof (cases "passes hs k (probe hs k d)")
    case False
    then have "find_from hs k (probe hs k 0) (Suc n) (probe hs k d) = Some (probe hs k d)" by (auto simp: passes_def)
    then show ?thesis using Suc.prems(1,3) False by auto
  next
    case True
    have pre: "\<forall>e < Suc d. passes hs k (probe hs k e)" using Suc.prems(3) True by (auto simp: less_Suc_eq)
    show ?thesis
    proof (cases "Suc d = hs_size hs")
      case last: True
      then show ?thesis using pre True wrap [OF assms(1) Suc.prems(1)] by (simp add: passes_def probe_Suc Let_def del: One_nat_def)
    next
      case more: False
      then have "probe hs k (Suc d) \<noteq> probe hs k 0" using wrap [OF assms(1) Suc.prems(1)] by simp
      then have "find_from hs k (probe hs k 0) (Suc n) (probe hs k d) = find_from hs k (probe hs k 0) n (probe hs k (Suc d))"
        using True by (simp add: passes_def probe_Suc Let_def del: One_nat_def)
      moreover have "Suc d < hs_size hs" "n = hs_size hs - Suc d" using Suc.prems(1,2) more by simp_all
      ultimately show ?thesis using Suc.IH [of "Suc d"] pre by (simp only:)
    qed
  qed
qed simp

lemma hash_find_spec:
  assumes ok: "hs_ok hs"
  shows "case hash_find hs k of
      Some i \<Rightarrow> \<exists>e < hs_size hs. i = probe hs k e \<and> \<not> passes hs k i \<and> (\<forall>e' < e. passes hs k (probe hs k e'))
    | None \<Rightarrow> \<forall>e < hs_size hs. passes hs k (probe hs k e)"
proof -
  have "hash_find hs k = find_from hs k (probe hs k 0) (hs_size hs) (probe hs k 0)" by (simp add: hash_find_def probe_def Let_def)
  then show ?thesis using find_from_spec [OF ok, of 0 "hs_size hs" k] ok by (simp add: hs_ok_def)
qed

text \<open>Inserting finds what looking up finds.\<close>

lemma find_or_insert_from_find:
  "find_or_insert_from hs k h n i = map_option (\<lambda>i. (i, if used hs i then hs else claim hs i k)) (find_from hs k h n i)"
  by (induction n arbitrary: i) (auto simp: Let_def)

lemma hash_find_or_insert_find:
  "hash_find_or_insert hs k = map_option (\<lambda>i. (i, if used hs i then hs else claim hs i k)) (hash_find hs k)"
  by (simp add: hash_find_or_insert_def hash_find_def Let_def find_or_insert_from_find)

lemma insert_from_find:
  "insert_from hs k h n i = map_option (\<lambda>i. if used hs i then Already_exists else Inserted i (claim hs i k)) (find_from hs k h n i)"
  by (induction n arbitrary: i) (auto simp: Let_def)

lemma hash_insert_find:
  "hash_insert hs k = map_option (\<lambda>i. if used hs i then Already_exists else Inserted i (claim hs i k)) (hash_find hs k)"
  by (simp add: hash_insert_def hash_find_def Let_def insert_from_find)

subsection \<open>Slots\<close>

definition hs_slot :: "hash_set \<Rightarrow> nat \<Rightarrow> nat option" where
  "hs_slot hs k = List.find (\<lambda>i. used hs i \<and> hs_keys hs ! i = k) [0..<hs_size hs]"

lemma hs_slot_unique:
  assumes ok: "hs_ok hs" and i: "i < hs_size hs" "used hs i" "hs_keys hs ! i = k" and j: "j < hs_size hs" "used hs j" "hs_keys hs ! j = k"
  shows "i = j"
proof -
  obtain d where d: "d < hs_size hs" "i = probe hs k d" "\<forall>e < d. passes hs k (probe hs k e)" using ok i unfolding hs_ok_def by blast
  obtain e where e: "e < hs_size hs" "j = probe hs k e" "\<forall>e' < e. passes hs k (probe hs k e')" using ok j unfolding hs_ok_def by blast
  have "\<not> d < e" using e(3) d(2) i(3) by (auto simp: passes_def)
  moreover have "\<not> e < d" using d(3) e(2) j(3) by (auto simp: passes_def)
  ultimately show ?thesis using d(2) e(2) by simp
qed

lemma hs_slot_Some:
  assumes ok: "hs_ok hs"
  shows "hs_slot hs k = Some i \<longleftrightarrow> i < hs_size hs \<and> used hs i \<and> hs_keys hs ! i = k"
proof
  show "hs_slot hs k = Some i \<Longrightarrow> i < hs_size hs \<and> used hs i \<and> hs_keys hs ! i = k" by (auto simp: hs_slot_def find_Some_iff)
  assume i: "i < hs_size hs \<and> used hs i \<and> hs_keys hs ! i = k"
  then have "hs_slot hs k \<noteq> None" by (auto simp: hs_slot_def find_None_iff)
  then obtain j where j: "hs_slot hs k = Some j" by blast
  then have "j < hs_size hs" "used hs j" "hs_keys hs ! j = k" by (auto simp: hs_slot_def find_Some_iff)
  then show "hs_slot hs k = Some i" using hs_slot_unique [OF ok] i j by blast
qed

lemma hash_find_slot:
  assumes ok: "hs_ok hs" and s: "hs_slot hs k = Some i"
  shows "hash_find hs k = Some i"
proof -
  have i: "i < hs_size hs" "used hs i" "hs_keys hs ! i = k" using s hs_slot_Some [OF ok] by simp_all
  obtain d where d: "d < hs_size hs" "i = probe hs k d" "\<forall>e < d. passes hs k (probe hs k e)" using ok i unfolding hs_ok_def by blast
  have stop: "\<not> passes hs k (probe hs k d)" using i d(2) by (simp add: passes_def)
  then have "hash_find hs k \<noteq> None" using hash_find_spec [OF ok, of k] d(1) by (auto split: option.splits)
  then obtain j where j: "hash_find hs k = Some j" by blast
  then obtain e where e: "j = probe hs k e" "\<not> passes hs k j" "\<forall>e' < e. passes hs k (probe hs k e')" using hash_find_spec [OF ok, of k] by auto
  have "\<not> d < e" using e(3) stop by blast
  moreover have "\<not> e < d" using d(3) e(1,2) by blast
  ultimately show ?thesis using j d(2) e(1) by simp
qed

lemma used_claim:
  assumes "hs_ok hs" "i < hs_size hs"
  shows "used (claim hs i k) j \<longleftrightarrow> j = i \<or> used hs j"
proof -
  have "i div 32 < length (hs_used hs)" using assms bitset_size_less by (simp add: hs_ok_def)
  then show ?thesis by (simp add: used_def claim_def bitset_get_set)
qed

lemma claim_ok:
  assumes ok: "hs_ok hs" and s: "hs_slot hs k = None" and f: "hash_find hs k = Some i"
  shows "hs_ok (claim hs i k) \<and> hs_slot (claim hs i k) = (hs_slot hs)(k \<mapsto> i)" and "i < hs_size hs \<and> \<not> used hs i"
proof -
  obtain e where e: "e < hs_size hs" "i = probe hs k e" "\<not> passes hs k i" "\<forall>e' < e. passes hs k (probe hs k e')"
    using hash_find_spec [OF ok, of k] f by auto
  have i: "i < hs_size hs" using probe_less [OF ok] e(2) by simp
  have free: "\<not> used hs i" using e(3) s hs_slot_Some [OF ok, of k i] i by (auto simp: passes_def)
  then show "i < hs_size hs \<and> \<not> used hs i" using i by simp
  let ?hs = "claim hs i k"
  have len: "length (hs_keys hs) = hs_size hs" using ok by (simp add: hs_ok_def)
  have sz: "hs_size ?hs = hs_size hs" "probe ?hs = probe hs" by (simp_all add: claim_def probe_def fun_eq_iff)
  have key: "hs_keys ?hs ! j = (if j = i then k else hs_keys hs ! j)" for j using i len by (simp add: claim_def nth_list_update)
  have pass: "passes ?hs l j" if "passes hs l j" for l j using that free used_claim [OF ok i] key by (auto simp: passes_def)
  have "\<exists>d < hs_size hs. j = probe hs (hs_keys ?hs ! j) d \<and> (\<forall>e < d. passes ?hs (hs_keys ?hs ! j) (probe hs (hs_keys ?hs ! j) e))"
    if j: "j < hs_size hs" "used ?hs j" for j
  proof (cases "j = i")
    case True
    then show ?thesis using e(1,2,4) pass key by auto
  next
    case False
    then have "used hs j" using j(2) used_claim [OF ok i] by simp
    then show ?thesis using ok j(1) False pass key unfolding hs_ok_def by simp blast
  qed
  then have ok': "hs_ok ?hs" using ok unfolding hs_ok_def sz by (simp add: claim_def)
  moreover have "hs_slot ?hs l = ((hs_slot hs)(k \<mapsto> i)) l" for l
  proof (cases "l = k")
    case True
    then show ?thesis using hs_slot_Some [OF ok', of k i] i used_claim [OF ok i] key sz(1) by simp
  next
    case False
    have iff: "hs_slot ?hs l = Some j \<longleftrightarrow> hs_slot hs l = Some j" for j
      using hs_slot_Some [OF ok'] hs_slot_Some [OF ok] used_claim [OF ok i] key sz(1) False free by auto
    have "hs_slot ?hs l = hs_slot hs l" using iff by (cases "hs_slot hs l"; cases "hs_slot ?hs l") auto
    then show ?thesis using False by simp
  qed
  ultimately show "hs_ok ?hs \<and> hs_slot ?hs = (hs_slot hs)(k \<mapsto> i)" by auto
qed

lemma find_full:
  assumes ok: "hs_ok hs" and f: "hash_find hs k = None"
  shows "hs_size hs \<le> card (dom (hs_slot hs))"
proof -
  have all: "used hs i" if i: "i < hs_size hs" for i
  proof -
    obtain d where "d < hs_size hs" "probe hs k d = i" using probe_onto [OF ok i] by blast
    then show ?thesis using hash_find_spec [OF ok, of k] f by (auto simp: passes_def)
  qed
  have inj: "inj_on (\<lambda>i. hs_keys hs ! i) {..<hs_size hs}" using hs_slot_unique [OF ok] all by (auto simp: inj_on_def)
  have "dom (hs_slot hs) = (\<lambda>i. hs_keys hs ! i) ` {..<hs_size hs}" using hs_slot_Some [OF ok] all by (auto simp: dom_def image_iff)
  then show ?thesis using inj by (simp add: card_image)
qed

interpretation hs: slot_table hs_ok hs_size hs_slot hash_find used claim
proof
  fix h k i
  assume ok: "hs_ok h"
  show "hash_find h k = Some i \<and> used h i" if "hs_slot h k = Some i" using hash_find_slot [OF ok that] hs_slot_Some [OF ok] that by simp
  show "i < hs_size h \<and> \<not> used h i" if "hs_slot h k = None" "hash_find h k = Some i" by (rule claim_ok(2) [OF ok that])
  show "hs_size h \<le> card (dom (hs_slot h))" if "hash_find h k = None" by (rule find_full [OF ok that])
  show "i < hs_size h" if "hs_slot h k = Some i" using hs_slot_Some [OF ok] that by simp
  show "k = l" if "hs_slot h k = Some i" "hs_slot h l = Some i" for l using hs_slot_Some [OF ok] that by simp
  show "hs_ok (claim h i k) \<and> hs_slot (claim h i k) = (hs_slot h)(k \<mapsto> i) \<and> hs_size (claim h i k) = hs_size h"
    if "hs_slot h k = None" "hash_find h k = Some i" using claim_ok(1) [OF ok that] by (simp add: claim_def)
qed

lemma hash_contains_slot: "hs_ok hs \<Longrightarrow> hash_contains hs k \<longleftrightarrow> hs_slot hs k \<noteq> None"
  using hs.find_used [of hs k] hs.find_slot [of hs k] by (cases "hs_slot hs k") (auto simp: hash_contains_def split: option.splits)

lemma unused_ok:
  assumes "0 < hs_size hs" "hs_used hs = replicate (bitset_size (hs_size hs)) 0" "length (hs_keys hs) = hs_size hs"
  shows "hs_ok hs" and "hs_slot hs k = None"
proof -
  have "\<not> used hs i" if "i < hs_size hs" for i using bitset_get_new bitset_size_less [OF that] assms(2) by (simp add: used_def)
  then show "hs_ok hs" "hs_slot hs k = None" using assms by (auto simp: hs_ok_def hs_slot_def find_None_iff)
qed

lemma hash_set_new_ok: "hs_ok (hash_set_new junk n)" "hs_slot (hash_set_new junk n) k = None" "n \<le> hs_size (hash_set_new junk n)"
  using unused_ok [of "hash_set_new junk n"] hash_size_ge hash_size_pos by (simp_all add: hash_set_new_def Let_def)

lemma hash_set_reset_ok: "hs_ok hs \<Longrightarrow> hs_ok (hash_set_reset hs) \<and> hs_slot (hash_set_reset hs) k = None \<and> hs_size (hash_set_reset hs) = hs_size hs"
  using unused_ok [of "hash_set_reset hs"] by (simp add: hash_set_reset_def hs_ok_def)

end
