(* ===== verification/GraphBuild.thy ===== *)
theory GraphBuild
  imports HashSet GraphAlloc
begin

text \<open>
  The compute graph of src/ggml.c: building it from a tensor by visiting the sources, and the operations on a
  graph.  A tensor is known by its address; the numbers of nodes and leafs are the lengths of their lists.
\<close>

datatype eval_order = LEFT_TO_RIGHT | RIGHT_TO_LEFT | ORDER_OTHER

record cgraph =
  cg_size :: nat
  cg_nodes :: "nat list"
  cg_leafs :: "nat list"
  cg_grads :: "nat option list option"
  cg_grad_accs :: "nat option list option"
  cg_use_counts :: "int list"
  cg_visited :: hash_set
  cg_order :: eval_order

text \<open>A new graph; \<open>junk\<close> is what the memory of the keys holds, the use counts are written before they are read.\<close>

definition new_graph_custom :: "(nat \<Rightarrow> nat) \<Rightarrow> nat \<Rightarrow> bool \<Rightarrow> cgraph" where
  "new_graph_custom junk n grads =
     (let hs = hash_set_new junk (n * 2) in
      \<lparr>cg_size = n, cg_nodes = [], cg_leafs = [],
       cg_grads = (if grads then Some (replicate (hs_size hs) None) else None),
       cg_grad_accs = (if grads then Some (replicate (hs_size hs) None) else None),
       cg_use_counts = replicate (hs_size hs) 0, cg_visited = hs, cg_order = LEFT_TO_RIGHT\<rparr>)"

definition new_graph :: "(nat \<Rightarrow> nat) \<Rightarrow> cgraph" where
  "new_graph junk = new_graph_custom junk 2048 False"

subsection \<open>Building\<close>

text \<open>The sources in the order in which they are visited.\<close>

definition ordered_srcs :: "eval_order \<Rightarrow> nat option list \<Rightarrow> nat option list" where
  "ordered_srcs ord ss = (if ord = RIGHT_TO_LEFT then rev ss else ss)"

definition is_leaf :: "tensor \<Rightarrow> bool" where
  "is_leaf t \<longleftrightarrow> te_op t = OP_NONE \<and> \<not> has_flag FLAG_PARAM t"

text \<open>A tensor seen for the first time.\<close>

definition enter :: "nat \<Rightarrow> nat \<Rightarrow> cgraph \<Rightarrow> cgraph" where
  "enter n pos g = g\<lparr>cg_visited := claim (cg_visited g) pos n, cg_use_counts := (cg_use_counts g)[pos := 0]\<rparr>"

definition count_use :: "nat \<Rightarrow> cgraph \<Rightarrow> cgraph option" where
  "count_use pos g = do {
     c \<leftarrow> vget (cg_use_counts g) pos;
     guard (c + 1 < 2 ^ 31);
     Some (g\<lparr>cg_use_counts := (cg_use_counts g)[pos := c + 1]\<rparr>) }"

text \<open>All sources are done; names are not modelled.\<close>

definition leave :: "heap \<Rightarrow> nat \<Rightarrow> cgraph \<Rightarrow> cgraph option" where
  "leave hp n g =
     (if is_leaf (hp n) then do {
        guard (length (cg_leafs g) < cg_size g);
        Some (g\<lparr>cg_leafs := cg_leafs g @ [n]\<rparr>) }
      else do {
        guard (length (cg_nodes g) < cg_size g);
        Some (g\<lparr>cg_nodes := cg_nodes g @ [n]\<rparr>) })"

partial_function (option) visit_parents :: "heap \<Rightarrow> nat \<Rightarrow> cgraph \<Rightarrow> (nat \<times> cgraph) option" where
  "visit_parents hp n g = do {
     pos \<leftarrow> hash_find (cg_visited g) n;
     if used (cg_visited g) pos then Some (pos, g)
     else do {
       g \<leftarrow> foldM (\<lambda>s g. case s of None \<Rightarrow> Some g
              | Some t \<Rightarrow> do { (src_pos, g) \<leftarrow> visit_parents hp t g; count_use src_pos g })
            (ordered_srcs (cg_order g) (te_src (hp n))) (enter n pos g);
       g \<leftarrow> leave hp n g;
       Some (pos, g) } }"

declare visit_parents.simps [code]

definition graph_clear :: "cgraph \<Rightarrow> cgraph" where
  "graph_clear g = g\<lparr>cg_leafs := [], cg_nodes := [], cg_visited := hash_set_reset (cg_visited g)\<rparr>"

definition build_forward_impl :: "heap \<Rightarrow> nat \<Rightarrow> bool \<Rightarrow> cgraph \<Rightarrow> cgraph option" where
  "build_forward_impl hp t expand g = do {
     let g = (if \<not> expand then graph_clear g else g);
     let n0 = length (cg_nodes g);
     (_, g) \<leftarrow> visit_parents hp t g;
     guard (0 < length (cg_nodes g) - n0 \<longrightarrow> last (cg_nodes g) = t);
     Some g }"

definition build_forward_expand :: "heap \<Rightarrow> nat \<Rightarrow> cgraph \<Rightarrow> cgraph option" where
  "build_forward_expand hp t g = build_forward_impl hp t True g"

subsection \<open>Other operations\<close>

definition graph_view :: "cgraph \<Rightarrow> nat \<Rightarrow> nat \<Rightarrow> cgraph" where
  "graph_view g i0 i1 = \<lparr>cg_size = 0, cg_nodes = take (i1 - i0) (drop i0 (cg_nodes g)), cg_leafs = [], cg_grads = None, cg_grad_accs = None,
     cg_use_counts = cg_use_counts g, cg_visited = cg_visited g, cg_order = cg_order g\<rparr>"

definition graph_node :: "cgraph \<Rightarrow> int \<Rightarrow> nat option" where
  "graph_node g i = (if i < 0 then do { guard (0 \<le> int (length (cg_nodes g)) + i); vget (cg_nodes g) (nat (int (length (cg_nodes g)) + i)) }
     else vget (cg_nodes g) (nat i))"

definition graph_add_node :: "nat \<Rightarrow> cgraph \<Rightarrow> cgraph option" where
  "graph_add_node t g = do {
     guard (length (cg_nodes g) < cg_size g);
     Some (g\<lparr>cg_nodes := cg_nodes g @ [t]\<rparr>) }"

definition get_grad :: "cgraph \<Rightarrow> nat \<Rightarrow> nat option" where
  "get_grad g n = (case hash_find (cg_visited g) n of
     None \<Rightarrow> None
   | Some i \<Rightarrow> if used (cg_visited g) i then (case cg_grads g of Some gs \<Rightarrow> gs ! i | None \<Rightarrow> None) else None)"

definition get_grad_acc :: "cgraph \<Rightarrow> nat \<Rightarrow> nat option" where
  "get_grad_acc g n = (case hash_find (cg_visited g) n of
     None \<Rightarrow> None
   | Some i \<Rightarrow> if used (cg_visited g) i then (case cg_grad_accs g of Some gs \<Rightarrow> gs ! i | None \<Rightarrow> None) else None)"

definition graph_find :: "cgraph option \<Rightarrow> nat \<Rightarrow> bool" where
  "graph_find g n \<longleftrightarrow> (case g of None \<Rightarrow> True | Some g \<Rightarrow> List.find (\<lambda>t. t = n) (cg_nodes g) \<noteq> None)"

text \<open>One key of the copied table.  A key that is there already gives a position outside the array.\<close>

definition cpy_key :: "cgraph \<Rightarrow> nat \<Rightarrow> cgraph \<Rightarrow> cgraph option" where
  "cpy_key src i dst =
     (if used (cg_visited src) i then do {
        key \<leftarrow> vget (hs_keys (cg_visited src)) i;
        c \<leftarrow> vget (cg_use_counts src) i;
        r \<leftarrow> hash_insert (cg_visited dst) key;
        (case r of
           Already_exists \<Rightarrow> None
         | Inserted pos hs \<Rightarrow> Some (dst\<lparr>cg_visited := hs, cg_use_counts := (cg_use_counts dst)[pos := c]\<rparr>)) }
      else Some dst)"

definition no_grads :: "cgraph \<Rightarrow> cgraph" where
  "no_grads g = (if cg_grads g = None then g
     else g\<lparr>cg_grads := Some (replicate (hs_size (cg_visited g)) None), cg_grad_accs := Some (replicate (hs_size (cg_visited g)) None)\<rparr>)"

definition cpy_grad :: "cgraph \<Rightarrow> nat \<Rightarrow> cgraph \<Rightarrow> cgraph option" where
  "cpy_grad src n dst = do {
     i \<leftarrow> hash_find (cg_visited src) n;
     j \<leftarrow> hash_find (cg_visited dst) n;
     guard (used (cg_visited src) i);
     guard (used (cg_visited dst) j);
     sg \<leftarrow> cg_grads src;
     sa \<leftarrow> cg_grad_accs src;
     dg \<leftarrow> cg_grads dst;
     da \<leftarrow> cg_grad_accs dst;
     x \<leftarrow> vget sg i;
     y \<leftarrow> vget sa i;
     guard (j < length dg \<and> j < length da);
     Some (dst\<lparr>cg_grads := Some (dg[j := x]), cg_grad_accs := Some (da[j := y])\<rparr>) }"

definition graph_cpy :: "cgraph \<Rightarrow> cgraph \<Rightarrow> cgraph option" where
  "graph_cpy src dst = do {
     guard (length (cg_leafs src) \<le> cg_size dst);
     guard (length (cg_nodes src) \<le> cg_size dst);
     guard (hs_size (cg_visited src) \<le> hs_size (cg_visited dst));
     let dst = dst\<lparr>cg_order := cg_order src, cg_leafs := cg_leafs src, cg_nodes := cg_nodes src\<rparr>;
     dst \<leftarrow> foldM (cpy_key src) [0..<hs_size (cg_visited src)] dst;
     let dst = no_grads dst;
     if cg_grads src = None then Some dst
     else do {
       guard (cg_grads dst \<noteq> None);
       guard (cg_grad_accs dst \<noteq> None);
       foldM (cpy_grad src) (cg_nodes src) dst } }"

definition graph_dup :: "(nat \<Rightarrow> nat) \<Rightarrow> cgraph \<Rightarrow> bool \<Rightarrow> cgraph option" where
  "graph_dup junk g force_grads = graph_cpy g (new_graph_custom junk (cg_size g) (cg_grads g \<noteq> None \<or> force_grads))"

subsection \<open>Fusing\<close>

definition node_has_n_uses :: "heap \<Rightarrow> cgraph \<Rightarrow> nat \<Rightarrow> int \<Rightarrow> bool option" where
  "node_has_n_uses hp g i n = do {
     t \<leftarrow> vget (cg_nodes g) i;
     pos \<leftarrow> hash_find (cg_visited g) t;
     if \<not> used (cg_visited g) pos then Some False
     else do {
       c \<leftarrow> vget (cg_use_counts g) pos;
       Some (c = n \<and> te_view_src (hp t) = None \<and> \<not> has_flag FLAG_OUTPUT (hp t)) } }"

definition are_same_shape :: "tensor \<Rightarrow> tensor \<Rightarrow> bool" where
  "are_same_shape a b \<longleftrightarrow> te_ne a = te_ne b"

definition src_at :: "tensor \<Rightarrow> nat \<Rightarrow> nat option" where
  "src_at t k = (if k < length (te_src t) then te_src t ! k else None)"

text \<open>Node \<open>i\<close> of the sequence that begins at \<open>i0\<close>.\<close>

definition fuse_node :: "heap \<Rightarrow> cgraph \<Rightarrow> nat \<Rightarrow> ggml_op list \<Rightarrow> nat \<Rightarrow> bool option" where
  "fuse_node hp g i0 ops i = do {
     t \<leftarrow> vget (cg_nodes g) (i0 + i);
     if te_op (hp t) \<noteq> ops ! i then Some False
     else do {
       single \<leftarrow> (if i + 1 < length ops then node_has_n_uses hp g (i0 + i) 1 else Some True);
       if \<not> single then Some False
       else if 0 < i then do {
         prev \<leftarrow> vget (cg_nodes g) (i0 + i - 1);
         Some (\<not> (src_at (hp t) 0 \<noteq> Some prev \<and> src_at (hp t) 1 \<noteq> Some prev) \<and> are_same_shape (hp t) (hp prev)) }
       else Some True } }"

fun fuse_nodes :: "heap \<Rightarrow> cgraph \<Rightarrow> nat \<Rightarrow> ggml_op list \<Rightarrow> nat list \<Rightarrow> bool option" where
  "fuse_nodes hp g i0 ops [] = Some True"
| "fuse_nodes hp g i0 ops (i # js) = do {
     ok \<leftarrow> fuse_node hp g i0 ops i;
     if ok then fuse_nodes hp g i0 ops js else Some False }"

definition can_fuse :: "heap \<Rightarrow> cgraph \<Rightarrow> nat \<Rightarrow> ggml_op list \<Rightarrow> bool option" where
  "can_fuse hp g i0 ops =
     (if length (cg_nodes g) < i0 + length ops then Some False else fuse_nodes hp g i0 ops [0..<length ops])"

end
