(* ===== verification/GraphBuildInv.thy ===== *)
theory GraphBuildInv
  imports GraphBuild GraphSafe
begin

text \<open>
  Building a graph never aborts when there is room, and adds the tensors that can be reached through sources,
  each once and after its sources, with the number of its uses.
\<close>

subsection \<open>Reachable tensors\<close>

definition src_rel :: "heap \<Rightarrow> (nat \<times> nat) set" where
  "src_rel hp = {(s, x). s \<in> set (srcs (hp x))}"

definition reach :: "heap \<Rightarrow> nat \<Rightarrow> nat set" where
  "reach hp x = {s. (s, x) \<in> (src_rel hp)\<^sup>*}"

lemma reach_self [simp, intro]: "x \<in> reach hp x"
  by (simp add: reach_def)

lemma reach_unfold: "reach hp x = insert x (\<Union> s \<in> set (srcs (hp x)). reach hp s)"
proof -
  have "(s, x) \<in> (src_rel hp)\<^sup>* \<longleftrightarrow> s = x \<or> (\<exists>y \<in> set (srcs (hp x)). (s, y) \<in> (src_rel hp)\<^sup>*)" for s
    by (subst rtrancl.simps) (auto simp: src_rel_def)
  then show ?thesis by (auto simp: reach_def)
qed

lemma reach_src: "s \<in> set (srcs (hp x)) \<Longrightarrow> reach hp s \<subseteq> reach hp x"
  by (subst (2) reach_unfold) auto

lemma not_reached:
  assumes "acyclic (src_rel hp)" "s \<in> set (srcs (hp x))"
  shows "x \<notin> reach hp s"
proof
  assume "x \<in> reach hp s"
  then have "(x, s) \<in> (src_rel hp)\<^sup>*" by (simp add: reach_def)
  moreover have "(s, x) \<in> src_rel hp" using assms(2) by (simp add: src_rel_def)
  ultimately have "(x, x) \<in> (src_rel hp)\<^sup>+" by (rule rtrancl_into_trancl1)
  then show False using assms(1) by (simp add: acyclic_def)
qed

lemma reach_closed:
  assumes "\<forall>x \<in> A. set (srcs (hp x)) \<subseteq> A" "x \<in> A"
  shows "reach hp x \<subseteq> A"
proof
  fix s
  assume "s \<in> reach hp x"
  then have "(s, x) \<in> (src_rel hp)\<^sup>*" by (simp add: reach_def)
  then show "s \<in> A" using assms by (induction rule: converse_rtrancl_induct) (auto simp: src_rel_def)
qed

text \<open>How often the tensors of \<open>A\<close> have \<open>t\<close> as a source.\<close>

definition uses_in :: "heap \<Rightarrow> nat set \<Rightarrow> nat \<Rightarrow> nat" where
  "uses_in hp A t = (\<Sum>x \<in> A. count_list (srcs (hp x)) t)"

lemma uses_in_insert: "finite A \<Longrightarrow> x \<notin> A \<Longrightarrow> uses_in hp (insert x A) t = count_list (srcs (hp x)) t + uses_in hp A t"
  by (simp add: uses_in_def)

lemma uses_in_mono: "finite B \<Longrightarrow> A \<subseteq> B \<Longrightarrow> uses_in hp A t \<le> uses_in hp B t"
  unfolding uses_in_def by (rule sum_mono2) auto

lemma uses_in_Un: "finite A \<Longrightarrow> finite B \<Longrightarrow> A \<inter> B = {} \<Longrightarrow> uses_in hp (A \<union> B) t = uses_in hp A t + uses_in hp B t"
  by (simp add: uses_in_def sum.union_disjoint)

lemma uses_in_none: "(\<And>x. x \<in> A \<Longrightarrow> t \<notin> set (srcs (hp x))) \<Longrightarrow> uses_in hp A t = 0"
  by (auto simp: uses_in_def count_list_0_iff intro: sum.neutral)

subsection \<open>The invariant\<close>

abbreviation visited :: "cgraph \<Rightarrow> nat set" where
  "visited g \<equiv> dom (hs_slot (cg_visited g))"

abbreviation in_graph :: "cgraph \<Rightarrow> nat set" where
  "in_graph g \<equiv> set (cg_nodes g) \<union> set (cg_leafs g)"

definition use_count :: "cgraph \<Rightarrow> nat \<Rightarrow> int" where
  "use_count g t = cg_use_counts g ! the (hs_slot (cg_visited g) t)"

text \<open>Every tensor of the graph is there once, after its sources.\<close>

definition ordered :: "heap \<Rightarrow> cgraph \<Rightarrow> bool" where
  "ordered hp g \<longleftrightarrow> distinct (cg_nodes g @ cg_leafs g) \<and> (\<forall>x \<in> set (cg_nodes g). \<not> is_leaf (hp x)) \<and> (\<forall>x \<in> set (cg_leafs g). is_leaf (hp x)) \<and>
     (\<forall>x \<in> in_graph g. set (srcs (hp x)) \<subseteq> in_graph g) \<and>
     (\<forall>i < length (cg_nodes g). set (srcs (hp (cg_nodes g ! i))) \<subseteq> set (cg_leafs g) \<union> set (take i (cg_nodes g)))"

text \<open>The tensors of \<open>P\<close> are being visited; \<open>pend\<close> counts the uses by them so far.\<close>

definition build_inv :: "heap \<Rightarrow> nat set \<Rightarrow> nat set \<Rightarrow> (nat \<Rightarrow> nat) \<Rightarrow> cgraph \<Rightarrow> bool" where
  "build_inv hp U P pend g \<longleftrightarrow> hs_ok (cg_visited g) \<and> length (cg_use_counts g) = hs_size (cg_visited g) \<and>
     visited g = in_graph g \<union> P \<and> in_graph g \<inter> P = {} \<and> visited g \<subseteq> U \<and> ordered hp g \<and>
     (\<forall>t. t \<notin> visited g \<longrightarrow> pend t = 0) \<and> (\<forall>t \<in> visited g. use_count g t = int (uses_in hp (in_graph g) t + pend t))"

text \<open>Enough room for the tensors of \<open>U\<close>.\<close>

definition room :: "heap \<Rightarrow> nat set \<Rightarrow> cgraph \<Rightarrow> bool" where
  "room hp U g \<longleftrightarrow> finite U \<and> (\<forall>x \<in> U. set (srcs (hp x)) \<subseteq> U) \<and> (\<forall>t. uses_in hp U t < 2 ^ 31) \<and> card U \<le> hs_size (cg_visited g) \<and>
     card {x \<in> U. is_leaf (hp x)} \<le> cg_size g \<and> card {x \<in> U. \<not> is_leaf (hp x)} \<le> cg_size g"

text \<open>What stays the same.\<close>

definition same_graph :: "cgraph \<Rightarrow> cgraph \<Rightarrow> bool" where
  "same_graph g g' \<longleftrightarrow> cg_size g' = cg_size g \<and> cg_order g' = cg_order g \<and> hs_size (cg_visited g') = hs_size (cg_visited g) \<and>
     cg_grads g' = cg_grads g \<and> cg_grad_accs g' = cg_grad_accs g \<and> (\<exists>xs ys. cg_nodes g' = cg_nodes g @ xs \<and> cg_leafs g' = cg_leafs g @ ys)"

lemma same_graph_refl [simp]: "same_graph g g"
  by (simp add: same_graph_def)

lemma same_graph_trans: "same_graph g h \<Longrightarrow> same_graph h k \<Longrightarrow> same_graph g k"
  by (auto simp: same_graph_def)

lemma room_same: "same_graph g h \<Longrightarrow> room hp U h = room hp U g"
  by (simp add: same_graph_def room_def)

lemma build_invD:
  assumes "build_inv hp U P pend g"
  shows "hs_ok (cg_visited g)" and "length (cg_use_counts g) = hs_size (cg_visited g)" and "visited g = in_graph g \<union> P"
    and "in_graph g \<inter> P = {}" and "visited g \<subseteq> U" and "ordered hp g" and "t \<notin> visited g \<Longrightarrow> pend t = 0"
    and "t \<in> visited g \<Longrightarrow> use_count g t = int (uses_in hp (in_graph g) t + pend t)"
  using assms unfolding build_inv_def by blast+

lemma build_inv_bound:
  assumes inv: "build_inv hp U P pend g" and r: "room hp U g" and k: "k \<le> uses_in hp P t"
  shows "uses_in hp (in_graph g) t + k < 2 ^ 31"
proof -
  have fin: "finite U" and sub: "in_graph g \<union> P \<subseteq> U" using build_invD(3,5) [OF inv] r by (auto simp: room_def)
  have "finite (in_graph g)" "finite P" using fin sub by (auto intro: finite_subset)
  then have "uses_in hp (in_graph g) t + uses_in hp P t = uses_in hp (in_graph g \<union> P) t"
    using build_invD(4) [OF inv] by (simp only: uses_in_Un)
  also have "\<dots> \<le> uses_in hp U t" using fin sub by (rule uses_in_mono)
  also have "\<dots> < 2 ^ 31" using r by (simp add: room_def)
  finally show ?thesis using k by linarith
qed

subsection \<open>The steps\<close>

lemma find_room_for:
  assumes inv: "build_inv hp U P pend g" and r: "room hp U g" and n: "n \<in> U" "n \<notin> visited g"
  shows "\<exists>pos. hash_find (cg_visited g) n = Some pos"
proof -
  have "finite U" "card U \<le> hs_size (cg_visited g)" using r by (simp_all add: room_def)
  moreover have "visited g \<subset> U" using build_invD(5) [OF inv] n by blast
  ultimately have "card (visited g) < hs_size (cg_visited g)" using psubset_card_mono [of U "visited g"] by linarith
  then show ?thesis by (rule hs.find_room [OF build_invD(1) [OF inv]])
qed

lemma enter_inv:
  assumes inv: "build_inv hp U P pend g" and n: "n \<in> U" "n \<notin> visited g" and f: "hash_find (cg_visited g) n = Some pos"
  shows "build_inv hp U (insert n P) pend (enter n pos g)" and "hs_slot (cg_visited (enter n pos g)) n = Some pos"
    and "same_graph g (enter n pos g)" "in_graph (enter n pos g) = in_graph g"
proof -
  let ?g = "enter n pos g"
  have ok: "hs_ok (cg_visited g)" and none: "hs_slot (cg_visited g) n = None" and len: "length (cg_use_counts g) = hs_size (cg_visited g)"
    using inv n(2) by (auto simp: build_inv_def)
  have c: "hs_ok (cg_visited ?g)" "hs_slot (cg_visited ?g) = (hs_slot (cg_visited g))(n \<mapsto> pos)" "hs_size (cg_visited ?g) = hs_size (cg_visited g)"
    using hs.claim_law [OF ok none f] by (simp_all add: enter_def)
  have pos: "pos < hs_size (cg_visited g)" using hs.find_free [OF ok none f] by simp
  show "hs_slot (cg_visited ?g) n = Some pos" using c(2) by simp
  show "same_graph g ?g" using c(3) by (simp add: same_graph_def enter_def)
  show same: "in_graph ?g = in_graph g" by (simp add: enter_def)
  have ord: "ordered hp ?g" using inv by (simp add: build_inv_def ordered_def enter_def)
  have new: "uses_in hp (in_graph g) n = 0" "pend n = 0"
    using inv n(2) by (auto simp: build_inv_def ordered_def intro!: uses_in_none)
  have "use_count ?g t = int (uses_in hp (in_graph g) t + pend t)" if t: "t \<in> visited ?g" for t
  proof (cases "t = n")
    case True
    then show ?thesis using c(2) pos len new by (simp add: use_count_def enter_def)
  next
    case False
    then obtain i where i: "hs_slot (cg_visited g) t = Some i" using t c(2) by auto
    then have "i \<noteq> pos" using hs.claim_other(1) [OF ok none f] by blast
    then have "use_count ?g t = use_count g t" using i c(2) False by (simp add: use_count_def enter_def)
    moreover have "t \<in> visited g" using i by auto
    ultimately show ?thesis using inv by (simp add: build_inv_def)
  qed
  moreover have "visited ?g = insert n (visited g)" using c(2) by simp
  moreover have "insert n (visited g) = in_graph g \<union> insert n P" "in_graph g \<inter> insert n P = {}" "insert n (visited g) \<subseteq> U"
    using build_invD(3-5) [OF inv] n by blast+
  moreover have "length (cg_use_counts ?g) = hs_size (cg_visited ?g)" using len c(3) by (simp add: enter_def)
  ultimately show "build_inv hp U (insert n P) pend ?g"
    using c(1) ord build_invD(7) [OF inv] build_invD(3) [OF inv] unfolding build_inv_def same by simp
qed

lemma count_use_inv:
  assumes inv: "build_inv hp U P pend g" and r: "room hp U g" and s: "hs_slot (cg_visited g) t = Some pos"
    and pend: "Suc (pend t) \<le> uses_in hp P t"
  shows "\<exists>g'. count_use pos g = Some g' \<and> build_inv hp U P (pend(t := Suc (pend t))) g' \<and> same_graph g g' \<and>
    in_graph g' = in_graph g \<and> cg_visited g' = cg_visited g \<and> cg_nodes g' = cg_nodes g"
proof -
  note D = build_invD [OF inv]
  have pos: "pos < length (cg_use_counts g)" using hs.slot_less [OF D(1) s] D(2) by simp
  have "t \<in> visited g" using s by auto
  then have at: "cg_use_counts g ! pos = int (uses_in hp (in_graph g) t + pend t)" using D(8) [of t] s by (simp add: use_count_def)
  have "uses_in hp (in_graph g) t + Suc (pend t) < 2 ^ 31" by (rule build_inv_bound [OF inv r pend])
  then have fits: "cg_use_counts g ! pos + 1 < 2 ^ 31" unfolding at by (simp add: of_nat_less_iff flip: of_nat_add)
  let ?g = "g\<lparr>cg_use_counts := (cg_use_counts g)[pos := cg_use_counts g ! pos + 1]\<rparr>"
  have run: "count_use pos g = Some ?g" using pos fits by (simp add: count_use_def)
  have "use_count ?g u = int (uses_in hp (in_graph g) u + (pend(t := Suc (pend t))) u)" if u: "u \<in> visited g" for u
  proof (cases "u = t")
    case True
    then show ?thesis using s pos at by (simp add: use_count_def)
  next
    case False
    obtain i where i: "hs_slot (cg_visited g) u = Some i" using u by auto
    then have "i \<noteq> pos" using hs.slot_inj [OF D(1) _ s] False by blast
    then show ?thesis using D(8) [OF u] i False by (simp add: use_count_def)
  qed
  moreover have "ordered hp ?g" using D(6) by (simp add: ordered_def)
  ultimately have "build_inv hp U P (pend(t := Suc (pend t))) ?g"
    using D(1-5) D(7) \<open>t \<in> visited g\<close> unfolding build_inv_def by simp
  then show ?thesis using run by (simp add: same_graph_def)
qed

lemma leave_inv:
  assumes inv: "build_inv hp U (insert n P) (\<lambda>t. pend t + count_list (srcs (hp n)) t) g" and r: "room hp U g" and n: "n \<notin> P"
    and src: "set (srcs (hp n)) \<subseteq> in_graph g"
  shows "\<exists>g'. leave hp n g = Some g' \<and> build_inv hp U P pend g' \<and> same_graph g g' \<and> in_graph g' = insert n (in_graph g) \<and>
    cg_visited g' = cg_visited g \<and> cg_nodes g' = (if is_leaf (hp n) then cg_nodes g else cg_nodes g @ [n])"
proof -
  note D = build_invD [OF inv]
  have new: "n \<notin> in_graph g" and U: "insert n (in_graph g) \<subseteq> U" using D(3-5) by blast+
  have dist: "distinct (cg_nodes g)" "distinct (cg_leafs g)" using D(6) by (simp_all add: ordered_def)
  have fin: "finite U" using r by (simp add: room_def)
  have leafs: "length (cg_leafs g) < cg_size g" if l: "is_leaf (hp n)"
  proof -
    have "insert n (set (cg_leafs g)) \<subseteq> {x \<in> U. is_leaf (hp x)}" using U D(6) l by (auto simp: ordered_def)
    then have "card (insert n (set (cg_leafs g))) \<le> card {x \<in> U. is_leaf (hp x)}" using fin by (simp add: card_mono)
    then show ?thesis using new dist(2) r by (simp add: distinct_card room_def)
  qed
  have nodes: "length (cg_nodes g) < cg_size g" if l: "\<not> is_leaf (hp n)"
  proof -
    have "insert n (set (cg_nodes g)) \<subseteq> {x \<in> U. \<not> is_leaf (hp x)}" using U D(6) l by (auto simp: ordered_def)
    then have "card (insert n (set (cg_nodes g))) \<le> card {x \<in> U. \<not> is_leaf (hp x)}" using fin by (simp add: card_mono)
    then show ?thesis using new dist(1) r by (simp add: distinct_card room_def)
  qed
  let ?g = "if is_leaf (hp n) then g\<lparr>cg_leafs := cg_leafs g @ [n]\<rparr> else g\<lparr>cg_nodes := cg_nodes g @ [n]\<rparr>"
  have run: "leave hp n g = Some ?g" using leafs nodes by (simp add: leave_def)
  have same: "in_graph ?g = insert n (in_graph g)" "cg_visited ?g = cg_visited g" "same_graph g ?g" by (auto simp: same_graph_def)
  have ord: "ordered hp ?g" using D(6) new src by (auto simp: ordered_def nth_append less_Suc_eq)
  have "use_count ?g t = int (uses_in hp (in_graph ?g) t + pend t)" if t: "t \<in> visited g" for t
  proof -
    have "use_count ?g t = use_count g t" by (simp add: use_count_def)
    then show ?thesis using D(8) [OF t] new by (simp only: same) (simp add: uses_in_insert)
  qed
  moreover have "pend t = 0" if t: "t \<notin> visited g" for t using D(7) [OF t] by simp
  moreover have "visited g = in_graph ?g \<union> P" "in_graph ?g \<inter> P = {}" using D(3,4) n unfolding same(1) by blast+
  ultimately have "build_inv hp U P pend ?g" using D(1,2,5) ord unfolding build_inv_def same(2) by simp
  then show ?thesis using run same by simp
qed

subsection \<open>Visiting\<close>

abbreviation given :: "nat option list \<Rightarrow> nat list" where
  "given zs \<equiv> List.map_filter (\<lambda>s. s) zs"

lemma given_simps [simp]: "given [] = []" "given (ys @ zs) = given ys @ given zs" "given [None] = []" "given [Some x] = [x]"
  by (simp_all add: List.map_filter_def)

lemma given_rev [simp]: "given (rev zs) = rev (given zs)"
  by (simp add: List.map_filter_def rev_map rev_filter)

lemma ordered_srcs_given: "count_list (given (ordered_srcs ord (te_src x))) t = count_list (srcs x) t"
  "set (given (ordered_srcs ord (te_src x))) = set (srcs x)"
  by (simp_all add: ordered_srcs_def srcs_def)

definition visit_post :: "heap \<Rightarrow> nat set \<Rightarrow> nat set \<Rightarrow> (nat \<Rightarrow> nat) \<Rightarrow> nat \<Rightarrow> cgraph \<Rightarrow> nat \<Rightarrow> cgraph \<Rightarrow> bool" where
  "visit_post hp U P pend n g pos g' \<longleftrightarrow> build_inv hp U P pend g' \<and> same_graph g g' \<and>
     hs_slot (cg_visited g) \<subseteq>\<^sub>m hs_slot (cg_visited g') \<and> hs_slot (cg_visited g') n = Some pos \<and>
     in_graph g' = in_graph g \<union> reach hp n \<and> (n \<in> in_graph g \<longrightarrow> g' = g) \<and>
     (n \<notin> in_graph g \<longrightarrow> \<not> is_leaf (hp n) \<longrightarrow> cg_nodes g' \<noteq> [] \<and> last (cg_nodes g') = n) \<and>
     (is_leaf (hp n) \<longrightarrow> srcs (hp n) = [] \<longrightarrow> cg_nodes g' = cg_nodes g)"

definition visits :: "heap \<Rightarrow> nat set \<Rightarrow> nat \<Rightarrow> bool" where
  "visits hp U n \<longleftrightarrow> (\<forall>P pend g. build_inv hp U P pend g \<longrightarrow> room hp U g \<longrightarrow> reach hp n \<inter> P = {} \<longrightarrow> (\<forall>t. pend t \<le> uses_in hp P t) \<longrightarrow>
     (\<exists>pos g'. visit_parents hp n g = Some (pos, g') \<and> visit_post hp U P pend n g pos g'))"

lemma visitsD:
  assumes "visits hp U n" and "build_inv hp U P pend g" and "room hp U g" and "reach hp n \<inter> P = {}" and "\<forall>t. pend t \<le> uses_in hp P t"
  shows "\<exists>pos g'. visit_parents hp n g = Some (pos, g') \<and> visit_post hp U P pend n g pos g'"
  using assms unfolding visits_def by simp

definition visit_src :: "heap \<Rightarrow> nat option \<Rightarrow> cgraph \<Rightarrow> cgraph option" where
  "visit_src hp s g = (case s of None \<Rightarrow> Some g | Some t \<Rightarrow> do { (src_pos, g) \<leftarrow> visit_parents hp t g; count_use src_pos g })"

lemma visit_parents_unfold:
  "visit_parents hp n g = do {
     pos \<leftarrow> hash_find (cg_visited g) n;
     if used (cg_visited g) pos then Some (pos, g)
     else do {
       g \<leftarrow> foldM (visit_src hp) (ordered_srcs (cg_order g) (te_src (hp n))) (enter n pos g);
       g \<leftarrow> leave hp n g;
       Some (pos, g) } }"
  unfolding visit_parents.simps [of hp n g] visit_src_def [abs_def] ..

lemma visit_srcs:
  assumes ac: "acyclic (src_rel hp)" and IH: "\<And>s. s \<in> set (srcs (hp n)) \<Longrightarrow> visits hp U s"
    and inv: "build_inv hp U (insert n P) pend g" and r: "room hp U g" and P: "reach hp n \<inter> P = {}" "finite P"
    and pend: "\<forall>t. pend t \<le> uses_in hp P t"
  shows "\<exists>g'. foldM (visit_src hp) (ordered_srcs ord (te_src (hp n))) g = Some g' \<and>
    build_inv hp U (insert n P) (\<lambda>t. pend t + count_list (srcs (hp n)) t) g' \<and> same_graph g g' \<and>
    in_graph g' = in_graph g \<union> (\<Union> s \<in> set (srcs (hp n)). reach hp s) \<and> (srcs (hp n) = [] \<longrightarrow> g' = g) \<and>
    hs_slot (cg_visited g) \<subseteq>\<^sub>m hs_slot (cg_visited g')"
proof -
  let ?zs = "ordered_srcs ord (te_src (hp n))"
  let ?P = "\<lambda>ys h. build_inv hp U (insert n P) (\<lambda>t. pend t + count_list (given ys) t) h \<and> same_graph g h \<and>
    in_graph h = in_graph g \<union> (\<Union> s \<in> set (given ys). reach hp s) \<and> (given ys = [] \<longrightarrow> h = g) \<and> hs_slot (cg_visited g) \<subseteq>\<^sub>m hs_slot (cg_visited h)"
  have n: "n \<notin> P" using P(1) by auto
  have all: "uses_in hp (insert n P) t = count_list (srcs (hp n)) t + uses_in hp P t" for t using n P(2) by (rule uses_in_insert [rotated])
  have "\<exists>g'. foldM (visit_src hp) ?zs g = Some g' \<and> ?P ?zs g'"
  proof (rule foldM_rule [where P = ?P])
    show "?P [] g" using inv by simp
  next
    fix ys x h
    assume "\<exists>zs. ?zs = ys @ x # zs" and h: "?P ys h"
    then obtain zs where zs: "?zs = ys @ x # zs" by blast
    have cnt: "count_list (given ys) t + count_list (given [x]) t \<le> count_list (srcs (hp n)) t" for t
    proof -
      have "count_list (srcs (hp n)) t = count_list (given ?zs) t" by (simp add: ordered_srcs_given)
      also have "\<dots> = count_list (given ys) t + (count_list (given [x]) t + count_list (given zs) t)"
        using given_simps(2) [of "[x]" zs] by (simp add: zs)
      finally show ?thesis by simp
    qed
    show "\<exists>h'. visit_src hp x h = Some h' \<and> ?P (ys @ [x]) h'"
    proof (cases x)
      case None
      then show ?thesis using h by (simp add: visit_src_def)
    next
      case (Some s)
      have "s \<in> set (given ?zs)" using zs Some by simp
      then have s: "s \<in> set (srcs (hp n))" by (simp add: ordered_srcs_given)
      have room: "room hp U h" using r h room_same by blast
      have apart: "reach hp s \<inter> insert n P = {}" using reach_src [of s hp n, OF s] not_reached [of hp s n, OF ac s] P(1) by blast
      let ?pend = "\<lambda>t. pend t + count_list (given ys) t"
      have le: "?pend t + count_list (given [x]) t \<le> uses_in hp (insert n P) t" for t
        using cnt [of t] pend [rule_format, of t] all [of t] by linarith
      have pend1: "\<forall>t. ?pend t \<le> uses_in hp (insert n P) t" using le by (meson add_leD1)
      have inv1: "build_inv hp U (insert n P) ?pend h" using h by blast
      obtain pos h1 where h1: "visit_parents hp s h = Some (pos, h1)" "visit_post hp U (insert n P) ?pend s h pos h1"
        using visitsD [OF IH [OF s] inv1 room apart pend1] by (elim exE conjE) (rule that)
      have room1: "room hp U h1" using room room_same h1(2) by (auto simp: visit_post_def)
      have "Suc (?pend s) \<le> uses_in hp (insert n P) s" using le [of s] Some by simp
      then obtain h2 where h2: "count_use pos h1 = Some h2" "build_inv hp U (insert n P) (?pend(s := Suc (?pend s))) h2" "same_graph h1 h2"
          "in_graph h2 = in_graph h1" "cg_visited h2 = cg_visited h1"
        using count_use_inv [of hp U "insert n P" ?pend h1 s pos] h1(2) room1 unfolding visit_post_def by blast
      have pend': "?pend(s := Suc (?pend s)) = (\<lambda>t. pend t + count_list (given (ys @ [x])) t)" by (auto simp: fun_eq_iff Some)
      have "visit_src hp x h = Some h2" using h1(1) h2(1) by (simp add: visit_src_def Some)
      moreover have "same_graph g h2"
      proof -
        have "same_graph g h" "same_graph h h1" using h h1(2) unfolding visit_post_def by blast+
        then show ?thesis using h2(3) same_graph_trans by metis
      qed
      moreover have "in_graph h2 = in_graph g \<union> (\<Union> s \<in> set (given (ys @ [x])). reach hp s)"
      proof -
        have "in_graph h1 = in_graph h \<union> reach hp s" using h1(2) unfolding visit_post_def by blast
        moreover have "in_graph h = in_graph g \<union> (\<Union> s \<in> set (given ys). reach hp s)" using h by blast
        ultimately show ?thesis unfolding h2(4) Some given_simps(2,4) by auto
      qed
      moreover have "hs_slot (cg_visited g) \<subseteq>\<^sub>m hs_slot (cg_visited h2)"
      proof -
        have "hs_slot (cg_visited g) \<subseteq>\<^sub>m hs_slot (cg_visited h)" "hs_slot (cg_visited h) \<subseteq>\<^sub>m hs_slot (cg_visited h1)"
          using h h1(2) unfolding visit_post_def by blast+
        then show ?thesis using map_le_trans unfolding h2(5) by metis
      qed
      ultimately show ?thesis using h2(2) unfolding pend' by (simp add: Some)
    qed
  qed
  moreover have "given ?zs = [] \<longleftrightarrow> srcs (hp n) = []" by (metis ordered_srcs_given(2) set_empty)
  ultimately show ?thesis by (auto simp: ordered_srcs_given)
qed

lemma visit_total:
  assumes ac: "acyclic (src_rel hp)" and U: "finite U" "\<forall>x \<in> U. set (srcs (hp x)) \<subseteq> U" and n: "n \<in> U"
  shows "visits hp U n"
  using n
proof (induction "card (reach hp n)" arbitrary: n rule: less_induct)
  case less
  have IH: "visits hp U s" if s: "s \<in> set (srcs (hp n))" for s
  proof (rule less.hyps)
    have "reach hp n \<subseteq> U" by (rule reach_closed [OF U(2) less.prems])
    then have "finite (reach hp n)" using U(1) finite_subset by blast
    moreover have "reach hp s \<subset> reach hp n" using reach_src [of s hp n, OF s] not_reached [of hp s n, OF ac s] by blast
    ultimately show "card (reach hp s) < card (reach hp n)" by (rule psubset_card_mono)
    show "s \<in> U" using s U(2) less.prems by blast
  qed
  show ?case unfolding visits_def
  proof (intro allI impI)
    fix P pend g
    assume inv: "build_inv hp U P pend g" and r: "room hp U g" and P: "reach hp n \<inter> P = {}" and pend: "\<forall>t. pend t \<le> uses_in hp P t"
    note D = build_invD [OF inv]
    show "\<exists>pos g'. visit_parents hp n g = Some (pos, g') \<and> visit_post hp U P pend n g pos g'"
    proof (cases "n \<in> visited g")
      case True
      then obtain pos where pos: "hs_slot (cg_visited g) n = Some pos" by blast
      have "n \<in> in_graph g" using D(3) True P by auto
      moreover from this have "reach hp n \<subseteq> in_graph g" using D(6) by (intro reach_closed) (auto simp: ordered_def)
      ultimately have "visit_post hp U P pend n g pos g" using inv pos by (auto simp: visit_post_def)
      moreover have "visit_parents hp n g = Some (pos, g)" using hs.find_slot [OF D(1) pos] by (simp add: visit_parents_unfold)
      ultimately show ?thesis by blast
    next
      case False
      obtain pos where pos: "hash_find (cg_visited g) n = Some pos" using find_room_for [OF inv r less.prems False] by blast
      have free: "\<not> used (cg_visited g) pos" using hs.find_free [OF D(1) _ pos] False by blast
      have "finite P" using D(3,5) U(1) by (metis finite_Un finite_subset)
      note e = enter_inv [OF inv less.prems False pos]
      have re: "room hp U (enter n pos g)" using r room_same [OF e(3)] by blast
      obtain g1 where g1: "foldM (visit_src hp) (ordered_srcs (cg_order g) (te_src (hp n))) (enter n pos g) = Some g1"
        "build_inv hp U (insert n P) (\<lambda>t. pend t + count_list (srcs (hp n)) t) g1" "same_graph (enter n pos g) g1"
        "in_graph g1 = in_graph (enter n pos g) \<union> (\<Union> s \<in> set (srcs (hp n)). reach hp s)" "srcs (hp n) = [] \<longrightarrow> g1 = enter n pos g"
        "hs_slot (cg_visited (enter n pos g)) \<subseteq>\<^sub>m hs_slot (cg_visited g1)"
        using visit_srcs [OF ac IH e(1) re P \<open>finite P\<close> pend, of "cg_order g"] by blast
      have src: "set (srcs (hp n)) \<subseteq> in_graph g1" using g1(4) by auto
      have r1: "room hp U g1" using re room_same [OF g1(3)] by blast
      have "n \<notin> P" using P by auto
      obtain g2 where g2: "leave hp n g1 = Some g2" "build_inv hp U P pend g2" "same_graph g1 g2" "in_graph g2 = insert n (in_graph g1)"
        "cg_visited g2 = cg_visited g1" "cg_nodes g2 = (if is_leaf (hp n) then cg_nodes g1 else cg_nodes g1 @ [n])"
        using leave_inv [OF g1(2) r1 \<open>n \<notin> P\<close> src] by blast
      have "visit_parents hp n g = Some (pos, g2)" using pos free g1(1) g2(1) by (simp add: visit_parents_unfold)
      moreover have "hs_slot (cg_visited g2) n = Some pos" using g1(6) e(2) unfolding g2(5) by (metis domI map_le_def)
      moreover have "hs_slot (cg_visited g) \<subseteq>\<^sub>m hs_slot (cg_visited g2)"
      proof -
        have "hs_slot (cg_visited (enter n pos g)) = (hs_slot (cg_visited g))(n \<mapsto> pos)"
          using hs.claim_law [OF D(1) _ pos] False by (simp add: enter_def domIff)
        then have "hs_slot (cg_visited g) \<subseteq>\<^sub>m hs_slot (cg_visited (enter n pos g))" using False by (auto simp: map_le_def)
        then show ?thesis using g1(6) map_le_trans unfolding g2(5) by blast
      qed
      moreover have "same_graph g g2" using e(3) g1(3) g2(3) same_graph_trans by blast
      moreover have "in_graph g2 = in_graph g \<union> reach hp n" using g2(4) g1(4) e(4) by (subst reach_unfold) auto
      moreover have "n \<notin> in_graph g" using False D(3) by blast
      moreover have "cg_nodes (enter n pos g) = cg_nodes g" by (simp add: enter_def)
      ultimately have "visit_post hp U P pend n g pos g2" using g2(2,6) g1(5) unfolding visit_post_def by auto
      then show ?thesis using \<open>visit_parents hp n g = Some (pos, g2)\<close> by blast
    qed
  qed
qed

end
