(* ===== verification/GraphBuildOk.thy ===== *)
theory GraphBuildOk
  imports GraphBuildInv
begin

text \<open>
  What a built graph is: the graph of a list of tensors, its copy, what it gives to the planner, and what
  fusing may rely on.
\<close>

subsection \<open>Built graphs\<close>

definition built :: "heap \<Rightarrow> cgraph \<Rightarrow> bool" where
  "built hp g \<longleftrightarrow> build_inv hp (in_graph g) {} (\<lambda>_. 0) g"

lemma builtD:
  assumes "built hp g"
  shows "hs_ok (cg_visited g)" and "length (cg_use_counts g) = hs_size (cg_visited g)" and "visited g = in_graph g"
    and "ordered hp g" and "t \<in> in_graph g \<Longrightarrow> use_count g t = int (uses_in hp (in_graph g) t)"
  using assms unfolding built_def build_inv_def by auto

lemma built_inv: "built hp g \<Longrightarrow> in_graph g \<subseteq> U \<Longrightarrow> build_inv hp U {} (\<lambda>_. 0) g"
  by (simp add: built_def build_inv_def)

lemma inv_built: "build_inv hp U {} (\<lambda>_. 0) g \<Longrightarrow> built hp g"
  by (simp add: built_def build_inv_def)

lemma new_graph_built: "built hp (new_graph_custom junk n grads)" "in_graph (new_graph_custom junk n grads) = {}"
  "n * 2 \<le> hs_size (cg_visited (new_graph_custom junk n grads))" "cg_size (new_graph_custom junk n grads) = n"
proof -
  let ?g = "new_graph_custom junk n grads"
  have v: "cg_visited ?g = hash_set_new junk (n * 2)" by (simp add: new_graph_custom_def Let_def)
  have "visited ?g = {}" using hash_set_new_ok(2) [of junk "n * 2"] by (auto simp: v)
  moreover have "in_graph ?g = {}" "length (cg_use_counts ?g) = hs_size (cg_visited ?g)" "ordered hp ?g"
    by (simp_all add: new_graph_custom_def Let_def ordered_def)
  ultimately show "built hp ?g" "in_graph ?g = {}" using hash_set_new_ok(1) [of junk "n * 2"] unfolding built_def build_inv_def v by simp_all
  show "n * 2 \<le> hs_size (cg_visited ?g)" using hash_set_new_ok(3) [of "n * 2" junk] by (simp add: v)
  show "cg_size ?g = n" by (simp add: new_graph_custom_def Let_def)
qed

lemma build_forward_ok:
  assumes ac: "acyclic (src_rel hp)" and b: "built hp g" and r: "room hp U g" and U: "in_graph g \<subseteq> U" "t \<in> U"
    and leaf: "is_leaf (hp t) \<Longrightarrow> srcs (hp t) = []"
  shows "\<exists>g'. build_forward_expand hp t g = Some g' \<and> built hp g' \<and> same_graph g g' \<and> in_graph g' = in_graph g \<union> reach hp t"
proof -
  have fin: "finite U" "\<forall>x \<in> U. set (srcs (hp x)) \<subseteq> U" using r by (simp_all add: room_def)
  note v = visit_total [OF ac fin U(2)]
  obtain pos g' where g': "visit_parents hp t g = Some (pos, g')" "visit_post hp U {} (\<lambda>_. 0) t g pos g'"
    using visitsD [OF v built_inv [OF b U(1)] r] by auto
  have "last (cg_nodes g') = t" if more: "0 < length (cg_nodes g') - length (cg_nodes g)"
  proof -
    have "t \<notin> in_graph g" using g'(2) more by (auto simp: visit_post_def)
    moreover have "\<not> is_leaf (hp t)" using g'(2) more leaf by (auto simp: visit_post_def)
    ultimately show ?thesis using g'(2) by (simp add: visit_post_def)
  qed
  then have "build_forward_expand hp t g = Some g'" using g'(1) by (simp add: build_forward_expand_def build_forward_impl_def Let_def)
  then show ?thesis using g'(2) inv_built by (auto simp: visit_post_def)
qed

text \<open>Tensors are added one after the other.\<close>

lemma build_all_ok:
  assumes ac: "acyclic (src_rel hp)" and b: "built hp g" and r: "room hp U g" and U: "in_graph g \<subseteq> U" "set ts \<subseteq> U"
    and leaf: "\<forall>t \<in> set ts. is_leaf (hp t) \<longrightarrow> srcs (hp t) = []"
  shows "\<exists>g'. foldM (build_forward_expand hp) ts g = Some g' \<and> built hp g' \<and> same_graph g g' \<and>
    in_graph g' = in_graph g \<union> (\<Union> t \<in> set ts. reach hp t)"
  using b r U leaf
proof (induction ts arbitrary: g)
  case (Cons t ts)
  have "t \<in> U" "is_leaf (hp t) \<Longrightarrow> srcs (hp t) = []" using Cons.prems(4,5) by auto
  then obtain g1 where g1: "build_forward_expand hp t g = Some g1" "built hp g1" "same_graph g g1" "in_graph g1 = in_graph g \<union> reach hp t"
    using build_forward_ok [OF ac Cons.prems(1-3)] by blast
  have "reach hp t \<subseteq> U" by (rule reach_closed) (use Cons.prems in \<open>auto simp: room_def\<close>)
  then have "in_graph g1 \<subseteq> U" using g1(4) Cons.prems(3) by blast
  moreover have "room hp U g1" using Cons.prems(2) room_same [OF g1(3)] by blast
  ultimately obtain g2 where "foldM (build_forward_expand hp) ts g1 = Some g2" "built hp g2" "same_graph g1 g2"
      "in_graph g2 = in_graph g1 \<union> (\<Union> t \<in> set ts. reach hp t)"
    using Cons.IH [OF g1(2)] Cons.prems(4,5) by auto
  then show ?case using g1 same_graph_trans by (auto simp: Un_assoc)
qed simp

text \<open>The tensors of \<open>R\<close> fit into a graph of size \<open>n\<close>: room for \<open>n\<close> leafs and \<open>n\<close> nodes.\<close>

definition fits :: "heap \<Rightarrow> nat set \<Rightarrow> nat \<Rightarrow> bool" where
  "fits hp R n \<longleftrightarrow> finite R \<and> (\<forall>t. uses_in hp R t < 2 ^ 31) \<and> card {x \<in> R. is_leaf (hp x)} \<le> n \<and> card {x \<in> R. \<not> is_leaf (hp x)} \<le> n"

lemma new_graph_room:
  assumes fit: "fits hp R n" and closed: "\<forall>x \<in> R. set (srcs (hp x)) \<subseteq> R"
  shows "room hp R (new_graph_custom junk n grads)"
proof -
  have "R = {x \<in> R. is_leaf (hp x)} \<union> {x \<in> R. \<not> is_leaf (hp x)}" by blast
  then have "card R \<le> card {x \<in> R. is_leaf (hp x)} + card {x \<in> R. \<not> is_leaf (hp x)}" using card_Un_le by metis
  then have "card R \<le> n * 2" using fit unfolding fits_def by linarith
  also have "\<dots> \<le> hs_size (cg_visited (new_graph_custom junk n grads))" by (rule new_graph_built(3))
  finally show ?thesis using fit closed new_graph_built(4) by (simp add: room_def fits_def)
qed

abbreviation reach_all :: "heap \<Rightarrow> nat list \<Rightarrow> nat set" where
  "reach_all hp ts \<equiv> \<Union> t \<in> set ts. reach hp t"

lemma reach_all_closed: "\<forall>x \<in> (\<Union> t \<in> set ts. reach hp t). set (srcs (hp x)) \<subseteq> (\<Union> t \<in> set ts. reach hp t)"
proof (intro ballI subsetI)
  fix x s
  assume "x \<in> (\<Union> t \<in> set ts. reach hp t)" and s: "s \<in> set (srcs (hp x))"
  then obtain t where t: "t \<in> set ts" "(x, t) \<in> (src_rel hp)\<^sup>*" by (auto simp: reach_def)
  have "(s, x) \<in> src_rel hp" using s by (simp add: src_rel_def)
  then have "(s, t) \<in> (src_rel hp)\<^sup>*" using t(2) by (rule converse_rtrancl_into_rtrancl)
  then show "s \<in> (\<Union> t \<in> set ts. reach hp t)" using t(1) by (auto simp: reach_def)
qed

lemma new_graph_builds:
  assumes ac: "acyclic (src_rel hp)" and fit: "fits hp (reach_all hp ts) n" and leaf: "\<forall>t \<in> set ts. is_leaf (hp t) \<longrightarrow> srcs (hp t) = []"
  shows "\<exists>g. foldM (build_forward_expand hp) ts (new_graph_custom junk n grads) = Some g \<and> built hp g \<and> in_graph g = reach_all hp ts"
proof -
  have empty: "in_graph (new_graph_custom junk n grads) = {}" by (rule new_graph_built(2))
  then have sub: "in_graph (new_graph_custom junk n grads) \<subseteq> reach_all hp ts" "set ts \<subseteq> reach_all hp ts" by auto
  show ?thesis
    using build_all_ok [OF ac new_graph_built(1) new_graph_room [OF fit reach_all_closed] sub leaf] unfolding empty Un_empty_left by blast
qed

subsection \<open>The planner's graph\<close>

definition plan_graph :: "cgraph \<Rightarrow> graph" where
  "plan_graph g = \<lparr>gr_nodes = cg_nodes g, gr_leafs = cg_leafs g\<rparr>"

text \<open>
  Views are made by operations; the tensor a view is of is no view, and has its data or can be reached from
  the view.  Inputs are not computed in place.  Leafs have no sources.
\<close>

definition tensors_ok :: "heap \<Rightarrow> nat set \<Rightarrow> bool" where
  "tensors_ok hp R \<longleftrightarrow> (\<forall>v \<in> R. \<forall>r. te_view_src (hp v) = Some r \<longrightarrow> te_op (hp v) \<noteq> OP_NONE \<and> te_view_src (hp r) = None \<and>
       (te_data (hp r) \<noteq> 0 \<or> r \<noteq> v \<and> r \<in> reach hp v)) \<and>
     (\<forall>x \<in> R. has_flag FLAG_INPUT (hp x) \<longrightarrow> \<not> ggml_op_can_inplace (te_op (hp x))) \<and>
     (\<forall>x \<in> R. is_leaf (hp x) \<longrightarrow> srcs (hp x) = [])"

lemma built_graph_ok:
  assumes b: "built hp g" and ok: "tensors_ok hp (in_graph g)"
  shows "graph_ok hp (plan_graph g)"
proof -
  let ?N = "cg_nodes g" and ?L = "set (cg_leafs g)"
  have o: "distinct (?N @ cg_leafs g)" "\<And>x. x \<in> set ?N \<Longrightarrow> \<not> is_leaf (hp x)" "\<And>x. x \<in> ?L \<Longrightarrow> is_leaf (hp x)"
    "\<And>x. x \<in> in_graph g \<Longrightarrow> set (srcs (hp x)) \<subseteq> in_graph g"
    "\<And>i. i < length ?N \<Longrightarrow> set (srcs (hp (?N ! i))) \<subseteq> ?L \<union> set (take i ?N)"
    using builtD(4) [OF b] by (auto simp: ordered_def)
  have closed: "\<forall>x \<in> ?L \<union> set (take i ?N). set (srcs (hp x)) \<subseteq> ?L \<union> set (take i ?N)" for i
  proof
    fix x
    assume "x \<in> ?L \<union> set (take i ?N)"
    then consider "x \<in> ?L" | j where "j < i" "j < length ?N" "x = ?N ! j" by (auto simp: in_set_conv_nth)
    then show "set (srcs (hp x)) \<subseteq> ?L \<union> set (take i ?N)"
    proof cases
      case 1
      then have "srcs (hp x) = []" using o(3) ok by (simp add: tensors_ok_def)
      then show ?thesis by simp
    next
      case 2
      then have "set (take j ?N) \<subseteq> set (take i ?N)" by (simp add: set_take_subset_set_take)
      then show ?thesis using o(5) 2(2,3) by blast
    qed
  qed
  have view: "te_view_src (hp r) = None \<and> te_op (hp v) \<noteq> OP_NONE \<and> (te_data (hp r) \<noteq> 0 \<or> r \<noteq> v \<and> r \<in> reach hp v)"
    if "v \<in> in_graph g" "te_view_src (hp v) = Some r" for v r using ok that by (auto simp: tensors_ok_def)
  have before: "te_data (hp r) \<noteq> 0 \<or> r \<in> ?L \<or> r \<in> set (take i ?N)" if i: "i < length ?N" "te_view_src (hp (?N ! i)) = Some r" for i r
  proof (cases "te_data (hp r) = 0")
    case True
    have "r \<noteq> ?N ! i" "r \<in> reach hp (?N ! i)" using view [OF _ i(2)] i(1) True by simp_all
    then obtain s where s: "s \<in> set (srcs (hp (?N ! i)))" "r \<in> reach hp s" by (subst (asm) reach_unfold) auto
    then have "s \<in> ?L \<union> set (take i ?N)" using o(5) [OF i(1)] by blast
    then show ?thesis using reach_closed [OF closed] s(2) by blast
  qed simp
  have src: "s \<in> in_graph g" if "s \<in> set (occs hp ?N)" for s using that o(4) by (auto simp: occs_def)
  have node: "s \<in> set ?N" if "s \<in> in_graph g" "te_op (hp s) \<noteq> OP_NONE" for s using that o(3) by (auto simp: is_leaf_def)
  have sel: "gr_nodes (plan_graph g) = ?N" "gr_leafs (plan_graph g) = cg_leafs g" by (simp_all add: plan_graph_def)
  show ?thesis
    unfolding graph_ok_def sel
  proof (intro conjI)
    show "distinct ?N" "set ?N \<inter> ?L = {}" using o(1) by auto
    show "\<forall>i < length ?N. \<forall>s \<in> set (srcs (hp (?N ! i))). s \<in> ?L \<or> s \<in> set (take i ?N)" using o(5) by blast
    show "\<forall>i < length ?N. case te_view_src (hp (?N ! i)) of None \<Rightarrow> True
        | Some r \<Rightarrow> te_view_src (hp r) = None \<and> (te_data (hp r) \<noteq> 0 \<or> r \<in> ?L \<or> r \<in> set (take i ?N))"
    proof (intro allI impI)
      fix i
      assume i: "i < length ?N"
      show "case te_view_src (hp (?N ! i)) of None \<Rightarrow> True
        | Some r \<Rightarrow> te_view_src (hp r) = None \<and> (te_data (hp r) \<noteq> 0 \<or> r \<in> ?L \<or> r \<in> set (take i ?N))"
      proof (cases "te_view_src (hp (?N ! i))")
        case (Some r)
        have "?N ! i \<in> in_graph g" using i by simp
        then show ?thesis using before [OF i Some] view [OF _ Some] Some by simp
      qed simp
    qed
    show "\<forall>s \<in> set (occs hp ?N). case te_view_src (hp s) of None \<Rightarrow> True
        | Some r \<Rightarrow> te_view_src (hp r) = None \<and> (te_data (hp r) \<noteq> 0 \<or> s \<in> set ?N \<and> te_op (hp s) \<noteq> OP_NONE)"
    proof
      fix s
      assume s: "s \<in> set (occs hp ?N)"
      show "case te_view_src (hp s) of None \<Rightarrow> True
        | Some r \<Rightarrow> te_view_src (hp r) = None \<and> (te_data (hp r) \<noteq> 0 \<or> s \<in> set ?N \<and> te_op (hp s) \<noteq> OP_NONE)"
        using view [OF src [OF s]] node [OF src [OF s]] by (simp split: option.split)
    qed
    show "\<forall>x \<in> ?L. \<not> ggml_op_can_inplace (te_op (hp x))" using o(3) by (auto simp: is_leaf_def ggml_op_can_inplace_def)
    show "\<forall>x \<in> set ?N. has_flag FLAG_INPUT (hp x) \<longrightarrow> \<not> ggml_op_can_inplace (te_op (hp x))" using ok by (simp add: tensors_ok_def)
  qed
qed

subsection \<open>Fusing\<close>

text \<open>Nodes \<open>i0 + i\<close> and its successor in a sequence that can be fused.\<close>

definition fuses :: "heap \<Rightarrow> cgraph \<Rightarrow> nat \<Rightarrow> ggml_op list \<Rightarrow> nat \<Rightarrow> bool" where
  "fuses hp g i0 ops i \<longleftrightarrow> (let x = cg_nodes g ! (i0 + i) in te_op (hp x) = ops ! i \<and>
     (Suc i < length ops \<longrightarrow> uses_in hp (in_graph g) x = 1 \<and> te_view_src (hp x) = None \<and> \<not> has_flag FLAG_OUTPUT (hp x)) \<and>
     (0 < i \<longrightarrow> (let prev = cg_nodes g ! (i0 + i - 1) in
        (src_at (hp x) 0 = Some prev \<or> src_at (hp x) 1 = Some prev) \<and> te_ne (hp x) = te_ne (hp prev))))"

lemma built_find:
  assumes b: "built hp g" and t: "t \<in> in_graph g"
  shows "\<exists>pos. hash_find (cg_visited g) t = Some pos \<and> used (cg_visited g) pos \<and> pos < length (cg_use_counts g) \<and>
    cg_use_counts g ! pos = int (uses_in hp (in_graph g) t)"
proof -
  obtain pos where pos: "hs_slot (cg_visited g) t = Some pos" using builtD(3) [OF b] t by blast
  then show ?thesis
    using hs.find_slot [OF builtD(1) [OF b] pos] hs.slot_less [OF builtD(1) [OF b] pos] builtD(2) [OF b] builtD(5) [OF b t]
    by (simp add: use_count_def)
qed

lemma node_has_n_uses_ok:
  assumes b: "built hp g" and i: "i < length (cg_nodes g)"
  shows "node_has_n_uses hp g i n = Some (int (uses_in hp (in_graph g) (cg_nodes g ! i)) = n \<and>
    te_view_src (hp (cg_nodes g ! i)) = None \<and> \<not> has_flag FLAG_OUTPUT (hp (cg_nodes g ! i)))"
  using built_find [OF b, of "cg_nodes g ! i"] i by (auto simp: node_has_n_uses_def)

lemma fuse_node_ok:
  assumes b: "built hp g" and i: "i < length ops" "i0 + length ops \<le> length (cg_nodes g)"
  shows "fuse_node hp g i0 ops i = Some (fuses hp g i0 ops i)"
proof -
  have at: "i0 + i < length (cg_nodes g)" using i by linarith
  show ?thesis
    using at node_has_n_uses_ok [OF b at, of 1] by (simp add: fuse_node_def fuses_def Let_def are_same_shape_def) (auto simp: of_nat_eq_1_iff)
qed

lemma fuse_nodes_all:
  assumes "\<forall>i \<in> set is. fuse_node hp g i0 ops i = Some (Q i)"
  shows "fuse_nodes hp g i0 ops is = Some (\<forall>i \<in> set is. Q i)"
  using assms by (induction "is") auto

lemma can_fuse_ok:
  assumes b: "built hp g"
  shows "can_fuse hp g i0 ops = Some (i0 + length ops \<le> length (cg_nodes g) \<and> (\<forall>i < length ops. fuses hp g i0 ops i))"
proof (cases "i0 + length ops \<le> length (cg_nodes g)")
  case True
  then have "fuse_nodes hp g i0 ops [0..<length ops] = Some (\<forall>i \<in> set [0..<length ops]. fuses hp g i0 ops i)"
    using fuse_node_ok [OF b] by (intro fuse_nodes_all) auto
  then show ?thesis using True by (auto simp: can_fuse_def)
qed (simp add: can_fuse_def)

text \<open>With one use in all, the tensor that reads \<open>x\<close> reads it once and is the only one.\<close>

lemma single_use:
  assumes one: "uses_in hp A x = 1" and fin: "finite A" and y: "y \<in> A" "x \<in> set (srcs (hp y))"
  shows "count_list (srcs (hp y)) x = 1" and "\<forall>z \<in> A. z \<noteq> y \<longrightarrow> x \<notin> set (srcs (hp z))"
proof -
  have "uses_in hp A x = count_list (srcs (hp y)) x + uses_in hp (A - {y}) x"
    using uses_in_insert [of "A - {y}" y hp x] fin y(1) by (simp add: insert_absorb)
  moreover have "0 < count_list (srcs (hp y)) x" using y(2) by (metis count_list_0_iff gr0I)
  ultimately have rest: "count_list (srcs (hp y)) x = 1" "uses_in hp (A - {y}) x = 0" using one by linarith+
  show "count_list (srcs (hp y)) x = 1" by (rule rest)
  have "\<forall>z \<in> A - {y}. count_list (srcs (hp z)) x = 0" using rest(2) fin by (simp add: uses_in_def)
  then show "\<forall>z \<in> A. z \<noteq> y \<longrightarrow> x \<notin> set (srcs (hp z))" by (auto simp: count_list_0_iff)
qed

lemma src_at_in: "src_at x k = Some s \<Longrightarrow> s \<in> set (srcs x)"
  unfolding src_at_def srcs_def by (auto simp: List.map_filter_def image_iff split: if_splits) (metis nth_mem option.sel)

subsection \<open>Copies\<close>

text \<open>After the first \<open>i\<close> entries of the table.\<close>

definition copied :: "cgraph \<Rightarrow> cgraph \<Rightarrow> nat \<Rightarrow> cgraph \<Rightarrow> bool" where
  "copied src dst i g \<longleftrightarrow> hs_ok (cg_visited g) \<and> hs_size (cg_visited g) = hs_size (cg_visited dst) \<and>
     length (cg_use_counts g) = hs_size (cg_visited g) \<and> cg_nodes g = cg_nodes dst \<and> cg_leafs g = cg_leafs dst \<and> cg_grads g = cg_grads dst \<and>
     visited g = {t. \<exists>j < i. hs_slot (cg_visited src) t = Some j} \<and> (\<forall>t \<in> visited g. use_count g t = use_count src t)"

lemma cpy_key_step:
  assumes src: "hs_ok (cg_visited src)" "length (cg_use_counts src) = hs_size (cg_visited src)"
    and sz: "hs_size (cg_visited src) \<le> hs_size (cg_visited dst)"
    and i: "i < hs_size (cg_visited src)" and g: "copied src dst i g"
  shows "\<exists>g'. cpy_key src i g = Some g' \<and> copied src dst (Suc i) g'"
proof (cases "used (cg_visited src) i")
  case False
  then have "hs_slot (cg_visited src) t \<noteq> Some i" for t using hs_slot_Some [OF src(1)] by auto
  then have "copied src dst (Suc i) g" using g by (auto simp: copied_def less_Suc_eq)
  then show ?thesis using False by (simp add: cpy_key_def)
next
  case True
  define key where "key = hs_keys (cg_visited src) ! i"
  have slot: "hs_slot (cg_visited src) t = Some i \<longleftrightarrow> t = key" for t
    using hs_slot_Some [OF src(1)] i True by (auto simp: key_def)
  have G: "hs_ok (cg_visited g)" "hs_size (cg_visited g) = hs_size (cg_visited dst)" "length (cg_use_counts g) = hs_size (cg_visited g)"
    "visited g = {t. \<exists>j < i. hs_slot (cg_visited src) t = Some j}"
    using g by (auto simp: copied_def)
  have "key \<notin> visited g" using slot [of key] unfolding G(4) by simp
  then have new: "hs_slot (cg_visited g) key = None" by (simp add: domIff)
  have "visited g \<subseteq> (\<lambda>j. hs_keys (cg_visited src) ! j) ` {..<i}" using G(4) hs_slot_Some [OF src(1)] by auto
  then have "card (visited g) \<le> i" using card_image_le [of "{..<i}"] card_mono by (metis card_lessThan finite_imageI finite_lessThan order_trans)
  then obtain pos where pos: "hash_find (cg_visited g) key = Some pos" using hs.find_room [OF G(1)] i sz G(2) by fastforce
  have free: "pos < hs_size (cg_visited g)" "\<not> used (cg_visited g) pos" using hs.find_free [OF G(1) new pos] by auto
  have c: "hs_ok (claim (cg_visited g) pos key)" "hs_slot (claim (cg_visited g) pos key) = (hs_slot (cg_visited g))(key \<mapsto> pos)"
    "hs_size (claim (cg_visited g) pos key) = hs_size (cg_visited g)"
    using hs.claim_law [OF G(1) new pos] by simp_all
  let ?g = "g\<lparr>cg_visited := claim (cg_visited g) pos key, cg_use_counts := (cg_use_counts g)[pos := cg_use_counts src ! i]\<rparr>"
  have "length (hs_keys (cg_visited src)) = hs_size (cg_visited src)" using src(1) by (simp add: hs_ok_def)
  then have run: "cpy_key src i g = Some ?g" using True i src(2) pos free(2) by (simp add: cpy_key_def hash_insert_find key_def)
  have "use_count ?g t = use_count src t" if t: "t \<in> visited ?g" for t
  proof (cases "t = key")
    case True
    then show ?thesis using slot [of key] c(2) free(1) G(3) by (simp add: use_count_def)
  next
    case False
    then obtain j where j: "hs_slot (cg_visited g) t = Some j" using t c(2) by auto
    then have "j \<noteq> pos" using hs.claim_other(1) [OF G(1) new pos] by blast
    then have "use_count ?g t = use_count g t" using j c(2) False by (simp add: use_count_def)
    moreover have "t \<in> visited g" using j by auto
    ultimately show ?thesis using g by (simp add: copied_def)
  qed
  moreover have "visited ?g = {t. \<exists>j < Suc i. hs_slot (cg_visited src) t = Some j}"
    using c(2) G(4) slot by (auto simp: less_Suc_eq)
  ultimately have "copied src dst (Suc i) ?g" using g c(1,3) G(3) by (simp add: copied_def)
  then show ?thesis using run by blast
qed

lemma graph_cpy_ok:
  assumes b: "built hp src" and grads: "cg_grads src = None" and room: "length (cg_leafs src) \<le> cg_size dst" "length (cg_nodes src) \<le> cg_size dst"
    "hs_size (cg_visited src) \<le> hs_size (cg_visited dst)" and dst: "built hp dst" "in_graph dst = {}"
  shows "\<exists>g. graph_cpy src dst = Some g \<and> built hp g \<and> cg_nodes g = cg_nodes src \<and> cg_leafs g = cg_leafs src"
proof -
  let ?dst = "dst\<lparr>cg_order := cg_order src, cg_leafs := cg_leafs src, cg_nodes := cg_nodes src\<rparr>"
  have start: "copied src ?dst 0 ?dst" using builtD(1-3) [OF dst(1)] dst(2) by (simp add: copied_def)
  have sz: "hs_size (cg_visited src) \<le> hs_size (cg_visited ?dst)" using room(3) by simp
  obtain g where g: "foldM (cpy_key src) [0..<hs_size (cg_visited src)] ?dst = Some g" "copied src ?dst (hs_size (cg_visited src)) g"
    using foldM_upt_rule [where P = "copied src ?dst" and f = "cpy_key src" and n = "hs_size (cg_visited src)", OF start
      cpy_key_step [OF builtD(1,2) [OF b] sz]] by blast
  have "visited g = visited src" using g(2) hs.slot_less [OF builtD(1) [OF b]] by (auto simp: copied_def)
  then have v: "visited g = in_graph src" using builtD(3) [OF b] by simp
  have same: "cg_nodes (no_grads g) = cg_nodes src" "cg_leafs (no_grads g) = cg_leafs src" "cg_visited (no_grads g) = cg_visited g"
    "cg_use_counts (no_grads g) = cg_use_counts g" using g(2) by (simp_all add: no_grads_def copied_def)
  have uses: "use_count (no_grads g) t = int (uses_in hp (in_graph src) t)" if "t \<in> in_graph src" for t
    using g(2) v that builtD(5) [OF b that] by (simp add: copied_def use_count_def same)
  have "ordered hp (no_grads g)" using builtD(4) [OF b] by (simp add: ordered_def same)
  then have "built hp (no_grads g)"
    unfolding built_def build_inv_def same using g(2) v uses by (simp add: copied_def)
  moreover have "graph_cpy src dst = Some (no_grads g)" using room g(1) grads by (simp add: graph_cpy_def Let_def)
  ultimately show ?thesis using same by blast
qed

end
