(* ===== verification/GraphBuildProps.thy ===== *)
theory GraphBuildProps
  imports GraphBuildOk GraphDemo
begin

text \<open>The properties of building and using a compute graph, and concrete graphs.\<close>

subsection \<open>A concrete graph\<close>

text \<open>The five tensors of \<open>inplace_heap\<close>; their addresses have one hash, so that every lookup has to probe.\<close>

lemma inplace_srcs: "set (srcs (inplace_heap x)) \<subseteq> {..<x}" "srcs (inplace_heap 4) = [3]" "srcs (inplace_heap 3) = [2, 0]"
  "srcs (inplace_heap 2) = [1]" "srcs (inplace_heap 1) = [0, 0]" "srcs (inplace_heap 0) = []"
proof -
  show eqs: "srcs (inplace_heap 4) = [3]" "srcs (inplace_heap 3) = [2, 0]" "srcs (inplace_heap 2) = [1]" "srcs (inplace_heap 1) = [0, 0]"
    "srcs (inplace_heap 0) = []"
    by (simp_all add: inplace_heap_def demo_heap_def demo_tensor_def srcs_def List.map_filter_simps)
  have "srcs (inplace_heap x) = []" if "4 < x" using that
    by (simp add: inplace_heap_def demo_heap_def demo_tensor_def srcs_def List.map_filter_simps)
  moreover have "x = 0 \<or> x = 1 \<or> x = 2 \<or> x = 3 \<or> x = 4 \<or> 4 < x" by linarith
  ultimately show "set (srcs (inplace_heap x)) \<subseteq> {..<x}" using eqs by auto
qed

lemma inplace_acyclic: "acyclic (src_rel inplace_heap)"
proof (rule acyclic_subset)
  show "acyclic less_than" by (rule wf_acyclic) simp
  show "src_rel inplace_heap \<subseteq> less_than" using inplace_srcs(1) by (auto simp: src_rel_def)
qed

lemma inplace_reach: "reach inplace_heap 4 = {0, 1, 2, 3, 4}"
proof -
  have "reach inplace_heap 0 = {0}" by (subst reach_unfold) (simp add: inplace_srcs)
  moreover from this have "reach inplace_heap 1 = {0, 1}" by (subst reach_unfold) (auto simp: inplace_srcs simp del: One_nat_def)
  moreover from this have "reach inplace_heap 2 = {0, 1, 2}" by (subst reach_unfold) (auto simp: inplace_srcs simp del: One_nat_def)
  ultimately have "reach inplace_heap 3 = {0, 1, 2, 3}" by (subst reach_unfold) (auto simp: inplace_srcs simp del: One_nat_def)
  then show ?thesis by (subst reach_unfold) (auto simp: inplace_srcs)
qed

lemma inplace_fits: "fits inplace_heap (reach_all inplace_heap [4]) 4"
proof -
  have R: "reach_all inplace_heap [4] = {0, 1, 2, 3, 4}" by (simp add: inplace_reach)
  have "is_leaf (inplace_heap 0)" "\<not> is_leaf (inplace_heap 1)" "\<not> is_leaf (inplace_heap 2)" "\<not> is_leaf (inplace_heap 3)" "\<not> is_leaf (inplace_heap 4)"
    by (simp_all add: is_leaf_def inplace_heap_def demo_heap_def demo_tensor_def has_flag_def)
  then have "{x \<in> {0, 1, 2, 3, 4}. is_leaf (inplace_heap x)} = {0}" "{x \<in> {0, 1, 2, 3, 4}. \<not> is_leaf (inplace_heap x)} = {1, 2, 3, 4}" by auto
  moreover have "uses_in inplace_heap {0, 1, 2, 3, 4} t < 2 ^ 31" for t
    by (simp add: uses_in_def inplace_srcs inplace_srcs(5) [unfolded One_nat_def])
  ultimately show ?thesis unfolding fits_def R by simp
qed

definition small_graph :: cgraph where
  "small_graph = \<lparr>cg_size = 4, cg_nodes = [], cg_leafs = [], cg_grads = None, cg_grad_accs = None, cg_use_counts = replicate 11 0,
     cg_visited = \<lparr>hs_size = 11, hs_used = [0], hs_keys = replicate 11 0\<rparr>, cg_order = LEFT_TO_RIGHT\<rparr>"

lemma small_graph_new: "new_graph_custom (\<lambda>_. 0) 4 False = small_graph"
  by (simp add: new_graph_custom_def small_graph_def hash_set_new_def hash_size_def bitset_size_def primes_def prime_search.simps map_replicate_const)

lemma inplace_built:
  "\<exists>g. foldM (build_forward_expand inplace_heap) [4] (new_graph_custom (\<lambda>_. 0) 4 False) = Some g \<and>
     cg_nodes g = [1, 2, 3, 4] \<and> cg_leafs g = [0]"
proof -
  have "map_option (\<lambda>g. (cg_nodes g, cg_leafs g)) (foldM (build_forward_expand inplace_heap) [4] small_graph) = Some ([1, 2, 3, 4], [0])"
    by code_simp
  then show ?thesis unfolding small_graph_new by auto
qed

text \<open>
  Copying a graph a second time into the same graph: every key is there already, \<open>ggml_hash_insert\<close> says so
  with a position that is no position, and the use count is written there.
\<close>

lemma copy_twice_aborts:
  "\<exists>g d. foldM (build_forward_expand inplace_heap) [4] (new_graph_custom (\<lambda>_. 0) 4 False) = Some g \<and>
     graph_cpy g (new_graph_custom (\<lambda>_. 0) 4 False) = Some d \<and> graph_cpy g d = None"
proof -
  have "map_option (\<lambda>g. map_option (\<lambda>d. graph_cpy g d = None) (graph_cpy g small_graph)) (foldM (build_forward_expand inplace_heap) [4] small_graph) =
      Some (Some True)"
    by code_simp
  then show ?thesis unfolding small_graph_new by auto
qed

subsection \<open>The properties\<close>

text \<open>C30: Adding tensors to a new graph never aborts when the tensors that can be reached through sources, without
  cycles, fit into it.  The graph then holds exactly those, each once, leafs and nodes apart, every node after
  its sources; the table of visited tensors finds each of them and gives the number of its uses as a source.\<close>

theorem build_graph_correct:
  assumes "acyclic (src_rel hp)" and "fits hp (reach_all hp ts) n" and "\<forall>t \<in> set ts. is_leaf (hp t) \<longrightarrow> srcs (hp t) = []"
  shows "\<exists>g. foldM (build_forward_expand hp) ts (new_graph_custom junk n grads) = Some g \<and>
    set (cg_nodes g) = {x \<in> reach_all hp ts. \<not> is_leaf (hp x)} \<and> set (cg_leafs g) = {x \<in> reach_all hp ts. is_leaf (hp x)} \<and>
    distinct (cg_nodes g) \<and> distinct (cg_leafs g) \<and>
    (\<forall>i < length (cg_nodes g). set (srcs (hp (cg_nodes g ! i))) \<subseteq> set (cg_leafs g) \<union> set (take i (cg_nodes g))) \<and>
    (\<forall>t \<in> reach_all hp ts. \<exists>pos. hash_find (cg_visited g) t = Some pos \<and> used (cg_visited g) pos \<and>
       cg_use_counts g ! pos = int (\<Sum>x \<in> reach_all hp ts. count_list (srcs (hp x)) t))"
proof -
  obtain g where g: "foldM (build_forward_expand hp) ts (new_graph_custom junk n grads) = Some g" "built hp g" "in_graph g = reach_all hp ts"
    using new_graph_builds [OF assms, of junk grads] by (elim exE conjE) (rule that)
  have o: "ordered hp g" by (rule builtD(4) [OF g(2)])
  have uses: "\<exists>pos. hash_find (cg_visited g) t = Some pos \<and> used (cg_visited g) pos \<and>
      cg_use_counts g ! pos = int (\<Sum>x \<in> reach_all hp ts. count_list (srcs (hp x)) t)" if "t \<in> reach_all hp ts" for t
    using built_find [OF g(2), of t] that unfolding g(3) uses_in_def by blast
  have split: "set (cg_nodes g) = {x \<in> reach_all hp ts. \<not> is_leaf (hp x)}" "set (cg_leafs g) = {x \<in> reach_all hp ts. is_leaf (hp x)}"
    using o unfolding g(3) [symmetric] by (auto simp: ordered_def)
  have "distinct (cg_nodes g)" "distinct (cg_leafs g)"
    "\<forall>i < length (cg_nodes g). set (srcs (hp (cg_nodes g ! i))) \<subseteq> set (cg_leafs g) \<union> set (take i (cg_nodes g))"
    using o by (simp_all add: ordered_def)
  then show ?thesis using g(1) split uses by (intro exI [of _ g] conjI ballI)
qed

theorem build_graph_correct_witness:
  "\<exists>g pos. foldM (build_forward_expand inplace_heap) [4] (new_graph_custom (\<lambda>_. 0) 4 False) = Some g \<and>
     cg_nodes g = [1, 2, 3, 4] \<and> hash_find (cg_visited g) 0 = Some pos \<and> cg_use_counts g ! pos = 3"
proof -
  obtain g where g: "foldM (build_forward_expand inplace_heap) [4] (new_graph_custom (\<lambda>_. 0) 4 False) = Some g" "cg_nodes g = [1, 2, 3, 4]"
    using inplace_built by blast
  have leaf: "\<forall>t \<in> set [4]. is_leaf (inplace_heap t) \<longrightarrow> srcs (inplace_heap t) = []"
    by (simp add: is_leaf_def inplace_heap_def demo_heap_def demo_tensor_def)
  have R: "0 \<in> reach_all inplace_heap [4]" by (simp add: inplace_reach)
  have uses: "(\<Sum>x \<in> reach_all inplace_heap [4]. count_list (srcs (inplace_heap x)) 0) = 3"
    by (simp add: inplace_reach inplace_srcs inplace_srcs(5) [unfolded One_nat_def])
  have "\<forall>t \<in> reach_all inplace_heap [4]. \<exists>pos. hash_find (cg_visited g) t = Some pos \<and> used (cg_visited g) pos \<and>
      cg_use_counts g ! pos = int (\<Sum>x \<in> reach_all inplace_heap [4]. count_list (srcs (inplace_heap x)) t)"
    using build_graph_correct [OF inplace_acyclic inplace_fits leaf, of "\<lambda>_. 0" False] unfolding g(1) option.inject by blast
  then obtain pos where "hash_find (cg_visited g) 0 = Some pos" "cg_use_counts g ! pos = int 3" using R unfolding uses [symmetric] by blast
  then show ?thesis using g by (metis of_nat_numeral)
qed

text \<open>C31: On a graph that was built, \<open>ggml_can_fuse\<close> never aborts, and when it says yes every tensor but the last of
  the sequence is read by the next node alone, once, and by nothing else in the graph, is no output and no view, and
  has the shape of the next.\<close>

theorem fuse_sound:
  assumes "acyclic (src_rel hp)" and "fits hp (reach_all hp ts) n" and "\<forall>t \<in> set ts. is_leaf (hp t) \<longrightarrow> srcs (hp t) = []"
    and "foldM (build_forward_expand hp) ts (new_graph_custom junk n grads) = Some g"
  shows "\<exists>b. can_fuse hp g i0 ops = Some b \<and> (b \<longrightarrow> i0 + length ops \<le> length (cg_nodes g) \<and>
    (\<forall>i < length ops. te_op (hp (cg_nodes g ! (i0 + i))) = ops ! i) \<and>
    (\<forall>i. Suc i < length ops \<longrightarrow> (let x = cg_nodes g ! (i0 + i); y = cg_nodes g ! (i0 + Suc i) in
       count_list (srcs (hp y)) x = 1 \<and> (\<forall>z \<in> reach_all hp ts. z \<noteq> y \<longrightarrow> x \<notin> set (srcs (hp z))) \<and>
       te_view_src (hp x) = None \<and> \<not> has_flag FLAG_OUTPUT (hp x) \<and> te_ne (hp y) = te_ne (hp x))))"
proof -
  have g: "built hp g" "in_graph g = reach_all hp ts" using new_graph_builds [OF assms(1-3), of junk grads] assms(4) by auto
  have fin: "finite (reach_all hp ts)" using assms(2) by (simp add: fits_def)
  show ?thesis
  proof (intro exI conjI impI allI)
    show "can_fuse hp g i0 ops = Some (i0 + length ops \<le> length (cg_nodes g) \<and> (\<forall>i < length ops. fuses hp g i0 ops i))" by (rule can_fuse_ok [OF g(1)])
    assume yes: "i0 + length ops \<le> length (cg_nodes g) \<and> (\<forall>i < length ops. fuses hp g i0 ops i)"
    then show "i0 + length ops \<le> length (cg_nodes g)" by blast
    show "te_op (hp (cg_nodes g ! (i0 + i))) = ops ! i" if "i < length ops" for i using yes that by (simp add: fuses_def Let_def)
    fix i
    assume i: "Suc i < length ops"
    have at: "fuses hp g i0 ops i" "fuses hp g i0 ops (Suc i)" using yes i by simp_all
    define x y where "x = cg_nodes g ! (i0 + i)" and "y = cg_nodes g ! (i0 + Suc i)"
    have X: "uses_in hp (reach_all hp ts) x = 1" "te_view_src (hp x) = None" "\<not> has_flag FLAG_OUTPUT (hp x)"
      using at(1) i unfolding fuses_def x_def [symmetric] Let_def g(2) by simp_all
    have Y: "src_at (hp y) 0 = Some x \<or> src_at (hp y) 1 = Some x" "te_ne (hp y) = te_ne (hp x)"
      using at(2) unfolding fuses_def y_def [symmetric] Let_def by (simp_all add: x_def)
    have "y \<in> reach_all hp ts" unfolding g(2) [symmetric] y_def using yes i by auto
    moreover have "x \<in> set (srcs (hp y))" using Y(1) src_at_in by blast
    ultimately show "let x = cg_nodes g ! (i0 + i); y = cg_nodes g ! (i0 + Suc i) in
       count_list (srcs (hp y)) x = 1 \<and> (\<forall>z \<in> reach_all hp ts. z \<noteq> y \<longrightarrow> x \<notin> set (srcs (hp z))) \<and>
       te_view_src (hp x) = None \<and> \<not> has_flag FLAG_OUTPUT (hp x) \<and> te_ne (hp y) = te_ne (hp x)"
      using single_use [OF X(1) fin] X Y(2) unfolding Let_def x_def [symmetric] y_def [symmetric] by blast
  qed
qed

theorem fuse_sound_witness:
  "\<exists>g. foldM (build_forward_expand inplace_heap) [4] (new_graph_custom (\<lambda>_. 0) 4 False) = Some g \<and>
     can_fuse inplace_heap g 1 [OP_UNARY, OP_other ''MUL_MAT''] = Some True \<and>
     (\<forall>z \<in> reach_all inplace_heap [4]. z \<noteq> 3 \<longrightarrow> 2 \<notin> set (srcs (inplace_heap z)))"
proof -
  obtain g where g: "foldM (build_forward_expand inplace_heap) [4] (new_graph_custom (\<lambda>_. 0) 4 False) = Some g" "cg_nodes g = [1, 2, 3, 4]"
    using inplace_built by blast
  have "Option.bind (foldM (build_forward_expand inplace_heap) [4] small_graph) (\<lambda>g. can_fuse inplace_heap g 1 [OP_UNARY, OP_other ''MUL_MAT'']) = Some True"
    by code_simp
  then have yes: "can_fuse inplace_heap g 1 [OP_UNARY, OP_other ''MUL_MAT''] = Some True" using g(1) unfolding small_graph_new by simp
  have leaf: "\<forall>t \<in> set [4]. is_leaf (inplace_heap t) \<longrightarrow> srcs (inplace_heap t) = []"
    by (simp add: is_leaf_def inplace_heap_def demo_heap_def demo_tensor_def)
  have "\<forall>i. Suc i < length [OP_UNARY, OP_other ''MUL_MAT''] \<longrightarrow> (let x = cg_nodes g ! (1 + i); y = cg_nodes g ! (1 + Suc i) in
      \<forall>z \<in> reach_all inplace_heap [4]. z \<noteq> y \<longrightarrow> x \<notin> set (srcs (inplace_heap z)))"
    using fuse_sound [OF inplace_acyclic inplace_fits leaf g(1), of 1 "[OP_UNARY, OP_other ''MUL_MAT'']"] unfolding yes Let_def option.inject by blast
  from this [rule_format, of 0] have "\<forall>z \<in> reach_all inplace_heap [4]. z \<noteq> 3 \<longrightarrow> 2 \<notin> set (srcs (inplace_heap z))"
    by (simp add: g(2) numeral_2_eq_2 del: One_nat_def)
  then show ?thesis using g(1) yes by blast
qed

text \<open>C29: When a reservation for a graph that was built from tensors that respect the conventions of views,
  inputs and leafs has succeeded (nothing is said of one that fails, for want of memory or of free blocks), then
  allocating the graph succeeds, every tensor that can be reached and has no data lies inside a buffer, a view has the address of its source plus its offset, and tensors
  that are live at the same node are apart unless one replaces the other.\<close>

theorem built_graph_attached:
  assumes "acyclic (src_rel hp)" and "fits hp (reach_all hp ts) n" and "tensors_ok hp (reach_all hp ts)"
    and "foldM (build_forward_expand hp) ts (new_graph_custom junk n grads) = Some g" and "cg_nodes g \<noteq> []"
    and "pool_ok ga w" and "sizes_ok asz hp" and "iface_ok iface" and "attach_ok hp"
    and "reserve_n asz iface hp (plan_graph g) nids lids (ga, w) = Some (True, ga', w')"
  shows "\<exists>h. gallocr_alloc_graph asz iface init_ok (plan_graph g) (hp, ga', w') = Some (True, h, ga', w') \<and>
    (\<forall>t \<in> reach_all hp ts. te_data (hp t) = 0 \<longrightarrow> te_view_src (hp t) = None \<longrightarrow>
       (\<exists>b < length w'. te_buffer (h t) = Some b \<and> bu_base (w' ! b) \<le> te_data (h t) \<and>
          te_data (h t) + tensor_size asz hp ga' t \<le> bu_base (w' ! b) + bu_size (w' ! b))) \<and>
    (\<forall>v \<in> reach_all hp ts. \<forall>r. te_view_src (hp v) = Some r \<longrightarrow> te_data (hp r) = 0 \<longrightarrow> te_buffer (hp v) = None \<longrightarrow>
       te_buffer (h v) = te_buffer (h r) \<and> te_data (h v) = te_data (h r) + te_view_offs (hp v)) \<and>
    (\<forall>i < length (cg_nodes g). \<forall>s t. live hp (plan_graph g) i s \<longrightarrow> live hp (plan_graph g) i t \<longrightarrow> s \<noteq> t \<longrightarrow> te_buffer (h s) = te_buffer (h t) \<longrightarrow>
       {te_data (h s)..<te_data (h s) + tensor_size asz hp ga' s} \<inter> {te_data (h t)..<te_data (h t) + tensor_size asz hp ga' t} = {} \<or>
       replaces hp (plan_graph g) i s t \<or> replaces hp (plan_graph g) i t s)"
proof -
  have leaf: "\<forall>t \<in> set ts. is_leaf (hp t) \<longrightarrow> srcs (hp t) = []" using assms(3) unfolding tensors_ok_def by blast
  have g: "built hp g" "in_graph g = reach_all hp ts" using new_graph_builds [OF assms(1,2) leaf, of junk grads] assms(4) by auto
  have sel: "gr_nodes (plan_graph g) = cg_nodes g" "gr_leafs (plan_graph g) = cg_leafs g" by (simp_all add: plan_graph_def)
  have gok: "graph_ok hp (plan_graph g)" using built_graph_ok [OF g(1)] assms(3) unfolding g(2) by blast
  have ne: "gr_nodes (plan_graph g) \<noteq> []" using assms(5) by (simp add: sel)
  obtain h where h: "gallocr_alloc_graph asz iface init_ok (plan_graph g) (hp, ga', w') = Some (True, h, ga', w')"
    "\<forall>t \<in> set (cg_leafs g) \<union> set (cg_nodes g). planned (hp t) \<longrightarrow>
       (\<exists>b < length w'. te_buffer (h t) = Some b \<and> te_data (h t) = bu_base (w' ! b) + hn_offset (ga_hash ga' t) \<and>
          te_data (h t) + tensor_size asz hp ga' t \<le> bu_base (w' ! b) + bu_size (w' ! b))"
    "\<forall>v \<in> set (cg_nodes g). \<forall>r. te_view_src (hp v) = Some r \<longrightarrow> planned (hp r) \<longrightarrow> te_buffer (hp v) = None \<longrightarrow>
       te_buffer (h v) = te_buffer (h r) \<and> te_data (h v) = te_data (h r) + te_view_offs (hp v)"
    "\<forall>i < length (cg_nodes g). \<forall>s t. live hp (plan_graph g) i s \<longrightarrow> live hp (plan_graph g) i t \<longrightarrow> s \<noteq> t \<longrightarrow> te_buffer (h s) = te_buffer (h t) \<longrightarrow>
       {te_data (h s)..<te_data (h s) + tensor_size asz hp ga' s} \<inter> {te_data (h t)..<te_data (h t) + tensor_size asz hp ga' t} = {} \<or>
       replaces hp (plan_graph g) i s t \<or> replaces hp (plan_graph g) i t s"
    using reserved_attached [OF assms(6) gok ne assms(7-10), of init_ok] unfolding sel by (elim exE conjE) (rule that)
  have "v \<in> set (cg_nodes g) \<and> te_view_src (hp r) = None" if v: "v \<in> reach_all hp ts" "te_view_src (hp v) = Some r" for v r
  proof -
    have "te_op (hp v) \<noteq> OP_NONE" "te_view_src (hp r) = None" using assms(3) v by (auto simp: tensors_ok_def)
    moreover have "v \<in> in_graph g" using v(1) g(2) by blast
    ultimately show ?thesis using builtD(4) [OF g(1)] by (auto simp: ordered_def is_leaf_def)
  qed
  then have views: "\<forall>v \<in> reach_all hp ts. \<forall>r. te_view_src (hp v) = Some r \<longrightarrow> te_data (hp r) = 0 \<longrightarrow> te_buffer (hp v) = None \<longrightarrow>
       te_buffer (h v) = te_buffer (h r) \<and> te_data (h v) = te_data (h r) + te_view_offs (hp v)"
    using h(3) unfolding planned_def by blast
  have "\<exists>b < length w'. te_buffer (h t) = Some b \<and> bu_base (w' ! b) \<le> te_data (h t) \<and>
      te_data (h t) + tensor_size asz hp ga' t \<le> bu_base (w' ! b) + bu_size (w' ! b)"
    if "t \<in> reach_all hp ts" "te_data (hp t) = 0" "te_view_src (hp t) = None" for t
    using h(2) [rule_format, of t] that unfolding g(2) [symmetric] planned_def by fastforce
  then show ?thesis using h(1,4) views by blast
qed

theorem built_graph_attached_witness:
  "\<exists>g ga w h. foldM (build_forward_expand inplace_heap) [4] (new_graph_custom (\<lambda>_. 0) 4 False) = Some g \<and>
     reserve_n demo_size demo_iface inplace_heap (plan_graph g) None None (demo_gallocr, []) = Some (True, ga, w) \<and>
     gallocr_alloc_graph demo_size demo_iface (\<lambda>_ _. True) (plan_graph g) (inplace_heap, ga, w) = Some (True, h, ga, w)"
proof -
  obtain g where g: "foldM (build_forward_expand inplace_heap) [4] (new_graph_custom (\<lambda>_. 0) 4 False) = Some g" "cg_nodes g = [1, 2, 3, 4]" "cg_leafs g = [0]"
    using inplace_built by blast
  have plan: "plan_graph g = demo_graph" using g(2,3) by (simp add: plan_graph_def demo_graph_def)
  obtain ga w where r: "reserve_n demo_size demo_iface inplace_heap (plan_graph g) None None (demo_gallocr, []) = Some (True, ga, w)"
    using inplace_reserve unfolding plan by blast
  have "te_view_src (inplace_heap t) = None" for t by (simp add: inplace_heap_def demo_heap_def demo_tensor_def nth_Cons split: nat.splits)
  moreover have "is_leaf (inplace_heap t) \<longrightarrow> srcs (inplace_heap t) = []" "has_flag FLAG_INPUT (inplace_heap t) \<longrightarrow> te_op (inplace_heap t) = OP_NONE" for t
    by (simp_all add: inplace_heap_def demo_heap_def demo_tensor_def is_leaf_def has_flag_def srcs_def List.map_filter_simps nth_Cons split: nat.splits)
  moreover have "\<not> ggml_op_can_inplace OP_NONE" by (simp add: ggml_op_can_inplace_def)
  ultimately have ok: "tensors_ok inplace_heap (reach_all inplace_heap [4])" unfolding tensors_ok_def by (metis option.distinct(1))
  have ne: "cg_nodes g \<noteq> []" using g(2) by simp
  show ?thesis
    using built_graph_attached [OF inplace_acyclic inplace_fits ok g(1) ne demo_pool inplace_ok(2) demo_iface_ok inplace_ok(3) r, of "\<lambda>_ _. True"] g(1) r by blast
qed

end
