(* ===== verification/CtxAlloc.thy ===== *)
theory CtxAlloc
  imports Tensor
begin

text \<open>
  \<open>ggml_backend_alloc_ctx_tensors_from_buft\<close> of src/ggml-alloc.c: the tensors of a context, in order, go into
  as few buffers as the largest buffer allows.
\<close>

text \<open>Tensor \<open>t\<close>, next in buffer \<open>b\<close>; the status is the first result.\<close>

definition alloc_tensor ::
  "(nat \<Rightarrow> tensor \<Rightarrow> nat) \<Rightarrow> (nat \<Rightarrow> tensor \<Rightarrow> bool) \<Rightarrow> world \<Rightarrow> nat \<Rightarrow> nat \<Rightarrow> nat \<Rightarrow> ggml_tallocr \<times> heap \<Rightarrow> (bool \<times> ggml_tallocr \<times> heap) option" where
  "alloc_tensor asz init_ok w buft b t = (\<lambda>(ta, hp).
     if te_data (hp t) = 0 then
       if te_view_src (hp t) = None then do {
         (addr, ta) \<leftarrow> ggml_tallocr_alloc ta (asz buft (hp t));
         (ok, hp) \<leftarrow> backend_tensor_alloc asz init_ok w b t addr hp;
         Some (ok, ta, hp) }
       else if te_buffer (hp t) = None then do {
         (ok, hp) \<leftarrow> backend_view_init init_ok t hp;
         Some (ok, ta, hp) }
       else Some (True, ta, hp)
     else if te_view_src (hp t) \<noteq> None \<and> te_buffer (hp t) = None then do {
       (ok, hp) \<leftarrow> backend_view_init init_ok t hp;
       Some (ok, ta, hp) }
     else Some (True, ta, hp))"

fun alloc_tensors ::
  "(nat \<Rightarrow> tensor \<Rightarrow> nat) \<Rightarrow> (nat \<Rightarrow> tensor \<Rightarrow> bool) \<Rightarrow> world \<Rightarrow> nat \<Rightarrow> nat \<Rightarrow> nat list \<Rightarrow> ggml_tallocr \<times> heap \<Rightarrow> (bool \<times> heap) option" where
  "alloc_tensors asz init_ok w buft b [] (ta, hp) = Some (True, hp)"
| "alloc_tensors asz init_ok w buft b (t # ts) (ta, hp) = do {
     (ok, ta, hp) \<leftarrow> alloc_tensor asz init_ok w buft b t (ta, hp);
     if ok then alloc_tensors asz init_ok w buft b ts (ta, hp) else Some (False, hp) }"

text \<open>The tensors from \<open>first\<close> to before \<open>last\<close> are the list \<open>ts\<close>.  On failure the buffers are freed.\<close>

definition alloc_tensor_range ::
  "(nat \<Rightarrow> tensor \<Rightarrow> nat) \<Rightarrow> (nat \<Rightarrow> tensor \<Rightarrow> bool) \<Rightarrow> (nat \<Rightarrow> nat \<Rightarrow> world \<Rightarrow> (nat \<times> nat) option) \<Rightarrow> nat \<Rightarrow> nat \<Rightarrow> nat list \<Rightarrow> nat \<Rightarrow>
     nat list \<times> heap \<times> world \<Rightarrow> (bool \<times> nat list \<times> heap \<times> world) option" where
  "alloc_tensor_range asz init_ok iface align buft ts sz = (\<lambda>(buffers, hp, w).
     case buft_alloc_buffer iface buft sz w of
       (None, w) \<Rightarrow> Some (False, [], hp, w)
     | (Some b, w) \<Rightarrow> do {
         buf \<leftarrow> vget w b;
         base \<leftarrow> buffer_get_base buf;
         (ok, hp) \<leftarrow> alloc_tensors asz init_ok w buft b ts (ggml_tallocr_new base (bu_size buf) align, hp);
         Some (if ok then (True, buffers @ [b], hp, w) else (False, [], hp, w)) })"

fun ctx_loop ::
  "(nat \<Rightarrow> tensor \<Rightarrow> nat) \<Rightarrow> (nat \<Rightarrow> tensor \<Rightarrow> bool) \<Rightarrow> (nat \<Rightarrow> nat \<Rightarrow> world \<Rightarrow> (nat \<times> nat) option) \<Rightarrow> nat \<Rightarrow> nat \<Rightarrow> nat \<Rightarrow> nat list \<Rightarrow>
     nat list \<times> nat \<times> nat list \<times> heap \<times> world \<Rightarrow> (bool \<times> nat list \<times> heap \<times> world) option" where
  "ctx_loop asz init_ok iface align max_size buft [] (pending, cur, buffers, hp, w) =
     (if 0 < cur then alloc_tensor_range asz init_ok iface align buft pending cur (buffers, hp, w)
      else Some (True, buffers, hp, w))"
| "ctx_loop asz init_ok iface align max_size buft (t # ts) (pending, cur, buffers, hp, w) =
     (let this_size = (if te_data (hp t) = 0 \<and> te_view_src (hp t) = None then pad_size (asz buft (hp t)) align else 0) in
      if 0 < cur \<and> max_size < u64 (cur + this_size) then do {
        (ok, buffers, hp, w) \<leftarrow> alloc_tensor_range asz init_ok iface align buft pending cur (buffers, hp, w);
        if ok then ctx_loop asz init_ok iface align max_size buft ts ([t], this_size, buffers, hp, w)
        else Some (False, buffers, hp, w) }
      else ctx_loop asz init_ok iface align max_size buft ts (pending @ [t], u64 (cur + this_size), buffers, hp, w))"

text \<open>
  A context is the flag \<open>no_alloc\<close>, which the function insists on, and its tensors.  The result is the list of the
  buffers, of which the C function makes one multi-buffer when there are several; none stands for NULL:
  a failure, or nothing to do.
\<close>

definition alloc_ctx_tensors_from_buft ::
  "(nat \<Rightarrow> tensor \<Rightarrow> nat) \<Rightarrow> (nat \<Rightarrow> tensor \<Rightarrow> bool) \<Rightarrow> (nat \<Rightarrow> nat \<Rightarrow> world \<Rightarrow> (nat \<times> nat) option) \<Rightarrow> nat \<Rightarrow> nat \<Rightarrow> nat \<Rightarrow> bool \<times> nat list \<Rightarrow>
     heap \<times> world \<Rightarrow> (nat list \<times> heap \<times> world) option" where
  "alloc_ctx_tensors_from_buft asz init_ok iface align max_size buft = (\<lambda>(no_alloc, ts) (hp, w). do {
     guard no_alloc;
     (ok, buffers, hp, w) \<leftarrow> ctx_loop asz init_ok iface align max_size buft ts ([], 0, [], hp, w);
     Some (if ok then buffers else [], hp, w) })"

text \<open>
  Allocating the tensors of a context never aborts, and when the backend gives the memory every tensor gets
  room of its own.
\<close>

definition needs_place :: "tensor \<Rightarrow> bool" where
  "needs_place t \<longleftrightarrow> te_data t = 0 \<and> te_view_src t = None"

text \<open>The size of a tensor in its buffer, rounded up; 0 for one that needs no place.\<close>

definition need :: "(nat \<Rightarrow> tensor \<Rightarrow> nat) \<Rightarrow> nat \<Rightarrow> nat \<Rightarrow> tensor \<Rightarrow> nat" where
  "need asz align buft t = (if needs_place t then pad_size (asz buft t) align else 0)"

abbreviation needs :: "(nat \<Rightarrow> tensor \<Rightarrow> nat) \<Rightarrow> nat \<Rightarrow> nat \<Rightarrow> heap \<Rightarrow> nat list \<Rightarrow> nat" where
  "needs asz align buft hp ts \<equiv> sum_list (List.map (\<lambda>t. need asz align buft (hp t)) ts)"

text \<open>
  The tensors \<open>ts\<close> of a context: all different; a tensor with a buffer has data; the tensor a view is of has a
  buffer, or needs a place and comes before the view.
\<close>

definition attached_ok :: "heap \<Rightarrow> bool" where
  "attached_ok hp \<longleftrightarrow> (\<forall>t. te_buffer (hp t) \<noteq> None \<longrightarrow> te_data (hp t) \<noteq> 0)"

fun views_ok :: "heap \<Rightarrow> nat set \<Rightarrow> nat list \<Rightarrow> bool" where
  "views_ok hp R [] = True"
| "views_ok hp R (t # ts) = ((\<forall>r. te_view_src (hp t) = Some r \<longrightarrow> te_buffer (hp t) = None \<longrightarrow> r \<in> R \<or> te_buffer (hp r) \<noteq> None) \<and>
     views_ok hp (if needs_place (hp t) then insert t R else R) ts)"

text \<open>
  A buffer that the backend hands out has, from its first aligned address on, the bytes that were asked for; with
  an aligned base these are the bytes of the buffer.
\<close>

definition backend_law :: "(nat \<Rightarrow> nat \<Rightarrow> world \<Rightarrow> (nat \<times> nat) option) \<Rightarrow> nat \<Rightarrow> bool" where
  "backend_law iface align \<longleftrightarrow> (\<forall>ty n w base m. iface ty n w = Some (base, m) \<longrightarrow> 0 < base \<and> base < 2 ^ 64 \<and>
     aligned_offset base 0 align + n \<le> m)"

lemma first_aligned:
  assumes "0 < align" "align \<le> 2 ^ 32" "base < 2 ^ 64"
  shows "align dvd base + aligned_offset base 0 align" and "aligned_offset base 0 align < align"
    and "align dvd base \<Longrightarrow> aligned_offset base 0 align = 0"
proof -
  have lt: "(align - base mod align) mod align < align" using assms(1) by simp
  then have eq: "aligned_offset base 0 align = (align - base mod align) mod align"
    using assms(2,3) by (simp add: aligned_offset_def Let_def u64_def)
  show "aligned_offset base 0 align < align" using lt eq by simp
  show "aligned_offset base 0 align = 0" if "align dvd base" using that by (simp add: eq)
  have "(base + (align - base mod align)) mod align = (base mod align + (align - base mod align)) mod align"
    by (rule mod_add_left_eq [symmetric])
  also have "base mod align + (align - base mod align) = align" using assms(1) by simp
  finally have "(base + (align - base mod align)) mod align = 0" by simp
  then show "align dvd base + aligned_offset base 0 align" by (simp add: eq mod_add_right_eq dvd_eq_mod_eq_0)
qed

lemma backend_law_aligned:
  assumes "0 < align" "align \<le> 2 ^ 32"
    and "\<And>ty n w base m. iface ty n w = Some (base, m) \<Longrightarrow> 0 < base \<and> base < 2 ^ 64 \<and> align dvd base \<and> n \<le> m"
  shows "backend_law iface align"
  unfolding backend_law_def using assms(3) first_aligned(3) [OF assms(1,2)] by fastforce

lemma pad_size_ge:
  assumes "0 < align" "align \<le> 2 ^ 32" "x < 2 ^ 63"
  shows "x \<le> pad_size x align" and "align dvd pad_size x align"
proof -
  have "u64 (x + align - 1) = x + align - 1" using assms by (simp add: u64_def)
  then have eq: "pad_size x align = (x + align - 1) div align * align" by (simp add: pad_size_def)
  then show "align dvd pad_size x align" by simp
  have "x + align - 1 = (x + align - 1) div align * align + (x + align - 1) mod align" by simp
  moreover have "(x + align - 1) mod align < align" using assms(1) by simp
  ultimately show "x \<le> pad_size x align" using eq assms(1) by linarith
qed

lemma pad_size_idem:
  assumes "0 < align" "align dvd n" "n < 2 ^ 63" "align \<le> 2 ^ 32"
  shows "pad_size n align = n"
proof -
  obtain k where k: "n = align * k" using assms(2) by (auto simp: dvd_def)
  have "u64 (n + align - 1) = n + (align - 1)" using assms by (simp add: u64_def)
  moreover have "(n + (align - 1)) div align = k" using assms(1) unfolding k by (subst div_mult_self4) simp_all
  ultimately show ?thesis by (simp add: pad_size_def k)
qed

subsection \<open>One buffer\<close>

definition put :: "heap \<Rightarrow> nat \<Rightarrow> nat \<Rightarrow> nat \<Rightarrow> tensor" where
  "put hp b addr t = (hp t)\<lparr>te_buffer := Some b, te_data := addr\<rparr>"

text \<open>The heap after the tensors \<open>ts\<close> got their places from address \<open>a\<close> on.\<close>

definition laid_out :: "(nat \<Rightarrow> tensor \<Rightarrow> nat) \<Rightarrow> nat \<Rightarrow> nat \<Rightarrow> heap \<Rightarrow> nat \<Rightarrow> nat \<Rightarrow> nat list \<Rightarrow> heap \<Rightarrow> bool" where
  "laid_out asz align buft hp b a ts h \<longleftrightarrow>
     (\<forall>xs t ys. ts = xs @ t # ys \<longrightarrow> needs_place (hp t) \<longrightarrow> h t = put hp b (a + needs asz align buft hp xs) t) \<and>
     (\<forall>t. t \<notin> set ts \<longrightarrow> h t = hp t) \<and> (\<forall>t. te_buffer (hp t) \<noteq> None \<longrightarrow> h t = hp t) \<and> (\<forall>t. te_view_src (h t) = te_view_src (hp t)) \<and> attached_ok h"

lemma views_ok_cong:
  assumes "\<And>t. t \<in> set ts \<Longrightarrow> h t = hp t" and "\<And>r. r \<in> R \<or> te_buffer (hp r) \<noteq> None \<Longrightarrow> r \<in> R' \<or> te_buffer (h r) \<noteq> None" and "views_ok hp R ts"
  shows "views_ok h R' ts"
  using assms
proof (induction ts arbitrary: R R')
  case (Cons t ts)
  have t: "h t = hp t" using Cons.prems(1) by simp
  have "views_ok h (if needs_place (hp t) then insert t R' else R') ts"
    by (rule Cons.IH [of "if needs_place (hp t) then insert t R else R"]) (use Cons.prems in \<open>auto split: if_splits\<close>)
  then show ?case using Cons.prems(2,3) t by auto
qed simp

lemma laid_out_Nil: "attached_ok hp \<Longrightarrow> laid_out asz align buft hp b a [] hp"
  by (simp add: laid_out_def)

lemma laid_out_Cons:
  assumes l: "laid_out asz align buft h1 b (a + need asz align buft (hp t)) ts h" and d: "t \<notin> set ts"
    and h1: "\<And>s. s \<noteq> t \<Longrightarrow> h1 s = hp s" "needs_place (hp t) \<Longrightarrow> h1 t = put hp b a t" "te_view_src (h1 t) = te_view_src (hp t)"
      "te_buffer (hp t) \<noteq> None \<Longrightarrow> h1 t = hp t"
  shows "laid_out asz align buft hp b a (t # ts) h"
proof -
  have same: "needs asz align buft h1 xs = needs asz align buft hp xs" if "set xs \<subseteq> set ts" for xs
  proof -
    have "List.map (\<lambda>t. need asz align buft (h1 t)) xs = List.map (\<lambda>t. need asz align buft (hp t)) xs" using that d h1(1) by (intro map_cong refl) (metis subsetD)
    then show ?thesis by (rule arg_cong [where f = sum_list])
  qed
  have "h u = put hp b (a + needs asz align buft hp xs) u" if u: "t # ts = xs @ u # ys" "needs_place (hp u)" for xs u ys
  proof (cases xs)
    case Nil
    then have "u = t" using u(1) by simp
    then show ?thesis using l d h1(2) u(2) Nil by (simp add: laid_out_def)
  next
    case (Cons x zs)
    then have ts: "ts = zs @ u # ys" "x = t" using u(1) by simp_all
    then have ut: "u \<noteq> t" using d by auto
    then have "h u = put h1 b (a + need asz align buft (hp t) + needs asz align buft h1 zs) u"
      using l ts(1) u(2) h1(1) [OF ut] by (simp add: laid_out_def)
    moreover have "needs asz align buft h1 zs = needs asz align buft hp zs" by (rule same) (auto simp: ts(1))
    ultimately show ?thesis using Cons ts(2) h1(1) [OF ut] by (simp add: put_def add.assoc)
  qed
  moreover have "h s = hp s" if "s \<notin> set (t # ts)" for s using l that h1(1) [of s] by (simp add: laid_out_def)
  moreover have "h s = hp s" if s: "te_buffer (hp s) \<noteq> None" for s
  proof (cases "s = t")
    case True
    then show ?thesis using l d h1(4) s by (simp add: laid_out_def)
  next
    case False
    then show ?thesis using l h1(1) [OF False] s by (simp add: laid_out_def)
  qed
  moreover have "te_view_src (h s) = te_view_src (hp s)" for s using l h1(1) [of s] h1(3) by (cases "s = t") (simp_all add: laid_out_def)
  moreover have "attached_ok h" using l by (simp add: laid_out_def)
  ultimately show ?thesis unfolding laid_out_def by blast
qed

lemma alloc_tensors_lays_out:
  assumes "distinct ts" and "attached_ok hp" and "views_ok hp {} ts"
    and "b < length w" and "w ! b = \<lparr>bu_type = buft, bu_base = base, bu_size = S\<rparr>" and "0 < base" and "0 < S"
    and "ta = \<lparr>ta_base = base, ta_buffer_size = S, ta_alignment = align, ta_offset = off\<rparr>"
    and "off + needs asz align buft hp ts \<le> S" and "off + needs asz align buft hp ts < 2 ^ 64" and "0 < align" and "align \<le> 2 ^ 32"
    and "\<forall>t \<in> set ts. needs_place (hp t) \<longrightarrow> asz buft (hp t) < 2 ^ 63"
  shows "\<exists>ok h. alloc_tensors asz init_ok w buft b ts (ta, hp) = Some (ok, h) \<and> (ok \<longrightarrow> laid_out asz align buft hp b (base + off) ts h)"
  using assms
proof (induction ts arbitrary: ta hp off)
  case Nil
  then show ?case using laid_out_Nil by auto
next
  case (Cons t ts)
  let ?n = "need asz align buft (hp t)"
  note p = Cons.prems
  have go: ?case
    if step: "alloc_tensor asz init_ok w buft b t (ta, hp) = Some (ok, \<lparr>ta_base = base, ta_buffer_size = S, ta_alignment = align, ta_offset = off + ?n\<rparr>, h1)"
      and h1: "\<And>s. s \<noteq> t \<Longrightarrow> h1 s = hp s" "needs_place (hp t) \<Longrightarrow> h1 t = put hp b (base + off) t" "te_view_src (h1 t) = te_view_src (hp t)"
        "te_buffer (hp t) \<noteq> None \<Longrightarrow> h1 t = hp t" "te_buffer (h1 t) \<noteq> None \<Longrightarrow> te_data (h1 t) \<noteq> 0"
    for ok h1
  proof (cases ok)
    case False
    then show ?thesis using step by (intro exI [of _ False] exI [of _ h1]) simp
  next
    case True
    let ?ta = "\<lparr>ta_base = base, ta_buffer_size = S, ta_alignment = align, ta_offset = off + ?n\<rparr>"
    have d: "t \<notin> set ts" "distinct ts" using p(1) by simp_all
    have at1: "attached_ok h1" unfolding attached_ok_def
    proof (intro allI impI)
      fix s
      assume s: "te_buffer (h1 s) \<noteq> None"
      show "te_data (h1 s) \<noteq> 0"
      proof (cases "s = t")
        case True
        then show ?thesis using h1(5) s by simp
      next
        case False
        then show ?thesis using h1(1) [OF False] s p(2) by (simp add: attached_ok_def)
      qed
    qed
    have "views_ok hp (if needs_place (hp t) then {t} else {}) ts" using p(3) by simp
    then have v1: "views_ok h1 {} ts"
    proof (rule views_ok_cong [rotated 2])
      show "h1 s = hp s" if "s \<in> set ts" for s using h1(1) [of s] d(1) that by auto
      fix r
      assume r: "r \<in> (if needs_place (hp t) then {t} else {}) \<or> te_buffer (hp r) \<noteq> None"
      show "r \<in> {} \<or> te_buffer (h1 r) \<noteq> None"
      proof (cases "r = t")
        case True
        then show ?thesis using r h1(2,4) by (auto simp: put_def split: if_splits)
      next
        case False
        then show ?thesis using r h1(1) [OF False] by (auto split: if_splits)
      qed
    qed
    have same: "needs asz align buft h1 ts = needs asz align buft hp ts"
    proof -
      have "List.map (\<lambda>t. need asz align buft (h1 t)) ts = List.map (\<lambda>t. need asz align buft (hp t)) ts" using d(1) h1(1) by (intro map_cong refl) metis
      then show ?thesis by (rule arg_cong [where f = sum_list])
    qed
    have sizes: "\<forall>s \<in> set ts. needs_place (h1 s) \<longrightarrow> asz buft (h1 s) < 2 ^ 63" using d(1) h1(1) p(13) by (metis list.set_intros(2))
    obtain ok2 h where r: "alloc_tensors asz init_ok w buft b ts (?ta, h1) = Some (ok2, h)"
      "ok2 \<longrightarrow> laid_out asz align buft h1 b (base + (off + ?n)) ts h"
      using Cons.IH [of h1 ?ta "off + ?n", OF d(2) at1 v1 p(4-7) refl _ _ p(11,12)] sizes p(9,10) same by (auto simp: add.assoc)
    have "laid_out asz align buft hp b (base + off) (t # ts) h" if ok2
      by (rule laid_out_Cons [OF _ d(1) h1(1-4)]) (use r(2) that in \<open>simp add: add.assoc\<close>)
    then show ?thesis using step True r(1) by auto
  qed
  show ?case
  proof (cases "needs_place (hp t)")
    case True
    have tt: "te_data (hp t) = 0" "te_view_src (hp t) = None" "te_buffer (hp t) = None"
      using True p(2) by (auto simp: needs_place_def attached_ok_def)
    have n: "?n = pad_size (asz buft (hp t)) align" using True by (simp add: need_def)
    have le: "off + ?n \<le> S" "off + ?n < 2 ^ 64" using p(9,10) by auto
    have u: "u64 (off + ?n) = off + ?n" using le(2) by (simp add: u64_def)
    have "asz buft (hp t) \<le> ?n" using pad_size_ge(1) [OF p(11,12)] p(13) True by (simp add: n)
    then have fits: "base + off + asz buft (hp t) \<le> base + S" using le(1) by simp
    have "ggml_tallocr_alloc ta (asz buft (hp t)) = Some (base + off, \<lparr>ta_base = base, ta_buffer_size = S, ta_alignment = align, ta_offset = off + ?n\<rparr>)"
      using p(8) le(1) u by (simp add: ggml_tallocr_alloc_def n [symmetric] Let_def)
    moreover have "backend_tensor_alloc asz init_ok w b t (base + off) hp = Some (init_ok b (put hp b (base + off) t), hp(t := put hp b (base + off) t))"
      using tt p(4-7) fits by (simp add: backend_tensor_alloc_def buffer_get_base_def Let_def put_def)
    ultimately show ?thesis
      using tt p(6) by (intro go [of "init_ok b (put hp b (base + off) t)" "hp(t := put hp b (base + off) t)"]) (simp_all add: alloc_tensor_def put_def)
  next
    case False
    then have n0: "?n = 0" by (simp add: need_def)
    show ?thesis
    proof (cases "te_view_src (hp t) \<noteq> None \<and> te_buffer (hp t) = None")
      case True
      then obtain r where r: "te_view_src (hp t) = Some r" "te_buffer (hp t) = None" by auto
      have rb: "te_buffer (hp r) \<noteq> None" using p(3) r by auto
      then obtain b' where b': "te_buffer (hp r) = Some b'" by auto
      have rd: "te_data (hp r) \<noteq> 0" using p(2) rb by (simp add: attached_ok_def)
      let ?x = "(hp t)\<lparr>te_buffer := Some b', te_data := te_data (hp r) + te_view_offs (hp t)\<rparr>"
      have "backend_view_init init_ok t hp = Some (init_ok b' ?x, hp(t := ?x))" using r b' rd by (simp add: backend_view_init_def Let_def)
      then show ?thesis using r False rd n0 p(8) by (intro go [of "init_ok b' ?x" "hp(t := ?x)"]) (simp_all add: alloc_tensor_def needs_place_def)
    next
      case no: False
      have "alloc_tensor asz init_ok w buft b t (ta, hp) = Some (True, ta, hp)" using no False by (auto simp: alloc_tensor_def needs_place_def)
      then show ?thesis using False n0 p(2,8) by (intro go [of True hp]) (simp_all add: attached_ok_def)
    qed
  qed
qed

lemma laid_out_apart:
  assumes l: "laid_out asz align buft hp b a ts h" and st: "s \<in> set ts" "t \<in> set ts" "s \<noteq> t" "needs_place (hp s)" "needs_place (hp t)"
    and al: "0 < align" "align \<le> 2 ^ 32" and sz: "\<forall>t \<in> set ts. needs_place (hp t) \<longrightarrow> asz buft (hp t) < 2 ^ 63"
  shows "{te_data (h s)..<te_data (h s) + asz buft (hp s)} \<inter> {te_data (h t)..<te_data (h t) + asz buft (hp t)} = {}"
proof -
  have apart: "te_data (h u) + asz buft (hp u) \<le> te_data (h v)"
    if ts: "ts = xs @ u # ys @ v # zs" and n: "needs_place (hp u)" "needs_place (hp v)" for u v xs ys zs
  proof -
    have "h u = put hp b (a + needs asz align buft hp xs) u" "h v = put hp b (a + needs asz align buft hp (xs @ u # ys)) v"
      using l ts n unfolding laid_out_def by (simp, metis append_Cons append_assoc)
    moreover have "asz buft (hp u) \<le> need asz align buft (hp u)" using pad_size_ge(1) [OF al] sz n(1) by (simp add: need_def ts)
    ultimately show ?thesis by (simp add: put_def)
  qed
  obtain xs ys where ts: "ts = xs @ s # ys" using split_list [OF st(1)] by blast
  then consider "t \<in> set xs" | "t \<in> set ys" using st(2,3) by auto
  then show ?thesis
  proof cases
    case 1
    then obtain us vs where "xs = us @ t # vs" using split_list by metis
    then have "te_data (h t) + asz buft (hp t) \<le> te_data (h s)" using apart [of us t vs s ys] ts st(4,5) by simp
    then show ?thesis by auto
  next
    case 2
    then obtain us vs where "ys = us @ t # vs" using split_list by metis
    then have "te_data (h s) + asz buft (hp s) \<le> te_data (h t)" using apart [of xs s us t vs] ts st(4,5) by simp
    then show ?thesis by auto
  qed
qed

subsection \<open>All buffers\<close>

text \<open>The tensors \<open>ts\<close> have their places.\<close>

definition has_room :: "(nat \<Rightarrow> tensor \<Rightarrow> nat) \<Rightarrow> nat \<Rightarrow> nat \<Rightarrow> heap \<Rightarrow> nat set \<Rightarrow> world \<Rightarrow> heap \<Rightarrow> nat \<Rightarrow> bool" where
  "has_room asz align buft hp bs w h t \<longleftrightarrow> (\<exists>b \<in> bs. \<exists>addr. h t = put hp b addr t \<and> b < length w \<and> align dvd addr \<and>
     bu_base (w ! b) \<le> addr \<and> addr + asz buft (hp t) \<le> bu_base (w ! b) + bu_size (w ! b))"

definition rooms_ok :: "(nat \<Rightarrow> tensor \<Rightarrow> nat) \<Rightarrow> nat \<Rightarrow> nat \<Rightarrow> heap \<Rightarrow> nat set \<Rightarrow> world \<Rightarrow> heap \<Rightarrow> nat list \<Rightarrow> bool" where
  "rooms_ok asz align buft hp bs w h ts \<longleftrightarrow> (\<forall>t \<in> set ts. needs_place (hp t) \<longrightarrow> has_room asz align buft hp bs w h t) \<and>
     (\<forall>s \<in> set ts. \<forall>t \<in> set ts. s \<noteq> t \<longrightarrow> needs_place (hp s) \<longrightarrow> needs_place (hp t) \<longrightarrow> te_buffer (h s) = te_buffer (h t) \<longrightarrow>
        {te_data (h s)..<te_data (h s) + asz buft (hp s)} \<inter> {te_data (h t)..<te_data (h t) + asz buft (hp t)} = {})"

text \<open>The tensors \<open>fs\<close> are in their buffers, the rest of the context is as it was.\<close>

definition ctx_inv :: "(nat \<Rightarrow> tensor \<Rightarrow> nat) \<Rightarrow> nat \<Rightarrow> nat \<Rightarrow> heap \<Rightarrow> nat list \<Rightarrow> nat list \<Rightarrow> nat list \<Rightarrow> heap \<Rightarrow> world \<Rightarrow> bool" where
  "ctx_inv asz align buft hp fs rest buffers h w \<longleftrightarrow> distinct (fs @ rest) \<and> attached_ok h \<and> views_ok h {} rest \<and>
     (\<forall>t. t \<notin> set fs \<longrightarrow> h t = hp t) \<and> (\<forall>b \<in> set buffers. b < length w) \<and> rooms_ok asz align buft hp (set buffers) w h fs"

lemma views_ok_append: "views_ok hp R (xs @ ys) \<longleftrightarrow> views_ok hp R xs \<and> views_ok hp (R \<union> {t \<in> set xs. needs_place (hp t)}) ys"
proof (induction xs arbitrary: R)
  case (Cons x xs)
  have "(if needs_place (hp x) then insert x R else R) \<union> {t \<in> set xs. needs_place (hp t)} = R \<union> {t \<in> set (x # xs). needs_place (hp t)}" by auto
  then show ?case using Cons.IH by simp
qed simp

lemma needs_same: "(\<And>t. t \<in> set ts \<Longrightarrow> h t = hp t) \<Longrightarrow> needs asz align buft h ts = needs asz align buft hp ts"
  by (rule arg_cong [where f = sum_list]) (simp add: map_eq_conv)

lemma dvd_needs: "0 < align \<Longrightarrow> align \<le> 2 ^ 32 \<Longrightarrow> \<forall>t. needs_place (hp t) \<longrightarrow> asz buft (hp t) < 2 ^ 63 \<Longrightarrow> align dvd needs asz align buft hp ts"
  by (induction ts) (simp_all add: need_def pad_size_ge(2))

text \<open>One range, into a buffer of its own.\<close>

lemma alloc_range_step:
  assumes inv: "ctx_inv asz align buft hp fs (ps @ rest) buffers h w" and cur: "cur = needs asz align buft hp ps" "0 < cur" "cur < 2 ^ 63"
    and law: "backend_law iface align" and al: "0 < align" "align \<le> 2 ^ 32" and sz: "\<forall>t. needs_place (hp t) \<longrightarrow> asz buft (hp t) < 2 ^ 63"
  shows "\<exists>ok buffers' h' w'. alloc_tensor_range asz init_ok iface align buft ps cur (buffers, h, w) = Some (ok, buffers', h', w') \<and>
    (ok \<longrightarrow> ctx_inv asz align buft hp (fs @ ps) rest buffers' h' w' \<and> buffers' \<noteq> [])"
proof (cases "iface buft cur w")
  case None
  then have "alloc_tensor_range asz init_ok iface align buft ps cur (buffers, h, w) = Some (False, [], h, w)"
    using cur(2) by (simp add: alloc_tensor_range_def buft_alloc_buffer_def)
  then show ?thesis by blast
next
  case (Some r)
  then obtain base m where bm: "iface buft cur w = Some (base, m)" by (cases r) auto
  define off where "off = aligned_offset base 0 align"
  have b: "0 < base" "base < 2 ^ 64" "off + cur \<le> m" using law bm unfolding backend_law_def off_def by blast+
  have off: "align dvd base + off" "off < 2 ^ 32" using first_aligned(1,2) [OF al b(2)] al(2) by (simp_all add: off_def)
  define w1 where "w1 = w @ [\<lparr>bu_type = buft, bu_base = base, bu_size = m\<rparr>]"
  let ?b = "length w" and ?ta = "\<lparr>ta_base = base, ta_buffer_size = m, ta_alignment = align, ta_offset = off\<rparr>"
  have al_buf: "buft_alloc_buffer iface buft cur w = (Some ?b, w1)" using bm cur(2) by (simp add: buft_alloc_buffer_def buffer_init_def w1_def)
  have ta: "ggml_tallocr_new base m align = ?ta" by (simp add: ggml_tallocr_new_def off_def)
  have old: "h t = hp t" if "t \<in> set (ps @ rest)" for t using inv that by (auto simp: ctx_inv_def)
  have ps: "distinct ps" "views_ok h {} ps" "views_ok h {t \<in> set ps. needs_place (h t)} rest" "attached_ok h" "distinct (fs @ ps @ rest)"
    using inv views_ok_append [of h "{}" ps rest] by (simp_all add: ctx_inv_def)
  have c: "needs asz align buft h ps = cur" using needs_same [of ps h hp] old cur(1) by simp
  have szh: "\<forall>t \<in> set ps. needs_place (h t) \<longrightarrow> asz buft (h t) < 2 ^ 63" using old sz by simp
  obtain ok h' where run: "alloc_tensors asz init_ok w1 buft ?b ps (?ta, h) = Some (ok, h')"
    and laid: "ok \<Longrightarrow> laid_out asz align buft h ?b (base + off) ps h'"
    using alloc_tensors_lays_out [where off = off and ta = ?ta and S = m and base = base and w = w1 and b = ?b and hp = h and ts = ps and init_ok = init_ok
        and asz = asz and buft = buft and align = align] ps b c cur szh al off(2) by (auto simp: w1_def)
  have range: "alloc_tensor_range asz init_ok iface align buft ps cur (buffers, h, w) =
      Some (if ok then (True, buffers @ [?b], h', w1) else (False, [], h', w1))"
    using al_buf run b(1) cur(2) ta b(3) by (simp add: alloc_tensor_range_def buffer_get_base_def w1_def)
  show ?thesis
  proof (cases ok)
    case False
    then have "alloc_tensor_range asz init_ok iface align buft ps cur (buffers, h, w) = Some (False, [], h', w1)" using range by simp
    then show ?thesis by blast
  next
    case True
    note l = laid [OF True]
    have ap: "needs_place (h t) \<longleftrightarrow> needs_place (hp t)" "asz buft (h t) = asz buft (hp t)" if "t \<in> set ps" for t using old that by simp_all
    have kept: "h' t = h t" if "t \<notin> set ps" for t using l that by (simp add: laid_out_def)
    have room_new: "has_room asz align buft hp (set (buffers @ [?b])) w1 h' t \<and> te_buffer (h' t) = Some ?b" if t: "t \<in> set ps" "needs_place (hp t)" for t
    proof -
      obtain xs ys where s: "ps = xs @ t # ys" using split_list [OF t(1)] by blast
      let ?a = "base + off + needs asz align buft h xs"
      have ht: "h' t = put h ?b ?a t" using l s t(2) ap(1) [OF t(1)] by (simp add: laid_out_def)
      then have ht': "h' t = put hp ?b ?a t" using old t(1) by (simp add: put_def)
      have "asz buft (hp t) \<le> need asz align buft (h t)" using pad_size_ge(1) [OF al] sz t ap [OF t(1)] by (simp add: need_def)
      moreover have "off + needs asz align buft h xs + need asz align buft (h t) \<le> m" using c b(3) by (simp add: s)
      moreover have "align dvd ?a"
      proof -
        have "needs asz align buft h xs = needs asz align buft hp xs" using old s by (intro needs_same) auto
        then show ?thesis using off(1) dvd_needs [where asz = asz and buft = buft and hp = hp, OF al sz] by simp
      qed
      ultimately have "has_room asz align buft hp (set (buffers @ [?b])) w1 h' t"
        unfolding has_room_def by (intro bexI [of _ ?b] exI [of _ ?a]) (use ht' in \<open>simp_all add: w1_def\<close>)
      then show ?thesis using ht by (simp add: put_def)
    qed
    have room_old: "has_room asz align buft hp (set (buffers @ [?b])) w1 h' t \<and> te_buffer (h' t) \<noteq> Some ?b \<and> h' t = h t"
      if t: "t \<in> set fs" "needs_place (hp t)" for t
    proof -
      have "h' t = h t" using kept ps(5) t(1) by auto
      moreover obtain b0 addr where "b0 \<in> set buffers" "h t = put hp b0 addr t" "b0 < length w" "align dvd addr" "bu_base (w ! b0) \<le> addr"
        "addr + asz buft (hp t) \<le> bu_base (w ! b0) + bu_size (w ! b0)"
        using inv t by (auto simp: ctx_inv_def rooms_ok_def has_room_def)
      ultimately show ?thesis unfolding has_room_def
        by (intro conjI bexI [of _ b0] exI [of _ addr]) (simp_all add: w1_def nth_append put_def)
    qed
    have "rooms_ok asz align buft hp (set (buffers @ [?b])) w1 h' (fs @ ps)"
      unfolding rooms_ok_def
    proof (intro conjI ballI impI)
      show "has_room asz align buft hp (set (buffers @ [?b])) w1 h' t" if "t \<in> set (fs @ ps)" "needs_place (hp t)" for t
        using that room_new [of t] room_old [of t] by auto
      fix s t
      assume st: "s \<in> set (fs @ ps)" "t \<in> set (fs @ ps)" "s \<noteq> t" "needs_place (hp s)" "needs_place (hp t)" "te_buffer (h' s) = te_buffer (h' t)"
      have "s \<in> set ps \<longleftrightarrow> t \<in> set ps"
        using room_new [of s] room_new [of t] room_old [of s] room_old [of t] st(1,2,4-6) by (metis Un_iff set_append)
      then consider "s \<in> set ps" "t \<in> set ps" | "s \<in> set fs" "t \<in> set fs" using st(1,2) by auto
      then show "{te_data (h' s)..<te_data (h' s) + asz buft (hp s)} \<inter> {te_data (h' t)..<te_data (h' t) + asz buft (hp t)} = {}"
      proof cases
        case 1
        show ?thesis using laid_out_apart [OF l 1 st(3) _ _ al szh] ap 1 st(4,5) by simp
      next
        case 2
        then show ?thesis using inv st(3-6) room_old [of s] room_old [of t] by (simp add: ctx_inv_def rooms_ok_def)
      qed
    qed
    moreover have "views_ok h' {} rest"
    proof (rule views_ok_cong [OF _ _ ps(3)])
      show "h' t = h t" if "t \<in> set rest" for t using kept ps(5) that by auto
      fix r
      assume r: "r \<in> {t \<in> set ps. needs_place (h t)} \<or> te_buffer (h r) \<noteq> None"
      show "r \<in> {} \<or> te_buffer (h' r) \<noteq> None"
      proof (cases "r \<in> set ps \<and> needs_place (h r)")
        case True
        then have "needs_place (hp r)" using ap(1) [of r] by simp
        then show ?thesis using room_new [of r] True by simp
      next
        case False
        then show ?thesis using r l by (auto simp: laid_out_def)
      qed
    qed
    moreover have "attached_ok h'" using l by (simp add: laid_out_def)
    moreover have "h' t = hp t" if "t \<notin> set (fs @ ps)" for t using that kept inv by (simp add: ctx_inv_def)
    moreover have "\<forall>b \<in> set (buffers @ [?b]). b < length w1" using inv by (auto simp: ctx_inv_def w1_def)
    ultimately have "ctx_inv asz align buft hp (fs @ ps) rest (buffers @ [?b]) h' w1" using ps(5) by (simp add: ctx_inv_def)
    then show ?thesis using range True by (simp add: ex_bool_eq)
  qed
qed

text \<open>The loop over the context.\<close>

lemma ctx_loop_total:
  assumes "ctx_inv asz align buft hp fs (ps @ ts) buffers h w" and "cur = needs asz align buft hp ps" and "needs asz align buft hp (ps @ ts) < 2 ^ 63"
    and "backend_law iface align" and "0 < align" "align \<le> 2 ^ 32" and "\<forall>t. needs_place (hp t) \<longrightarrow> 0 < asz buft (hp t) \<and> asz buft (hp t) < 2 ^ 63"
  shows "\<exists>ok buffers' h' w'. ctx_loop asz init_ok iface align max_size buft ts (ps, cur, buffers, h, w) = Some (ok, buffers', h', w') \<and>
    (ok \<longrightarrow> (\<forall>b \<in> set buffers'. b < length w') \<and> rooms_ok asz align buft hp (set buffers') w' h' (fs @ ps @ ts))"
  using assms
proof (induction ts arbitrary: fs ps cur buffers h w)
  case Nil
  note p = Nil.prems
  have sz: "\<forall>t. needs_place (hp t) \<longrightarrow> asz buft (hp t) < 2 ^ 63" using p(7) by blast
  show ?case
  proof (cases "0 < cur")
    case True
    have "cur < 2 ^ 63" using p(2,3) by simp
    from alloc_range_step [where init_ok = init_ok, OF p(1,2) True this p(4-6) sz]
    obtain ok buffers' h' w' where r: "alloc_tensor_range asz init_ok iface align buft ps cur (buffers, h, w) = Some (ok, buffers', h', w')"
      "ok \<longrightarrow> ctx_inv asz align buft hp (fs @ ps) [] buffers' h' w'"
      by auto
    then show ?thesis using True by (auto simp: ctx_inv_def)
  next
    case False
    have "\<not> needs_place (hp t)" if t: "t \<in> set ps" for t
    proof
      assume n: "needs_place (hp t)"
      have "asz buft (hp t) \<le> need asz align buft (hp t)" using pad_size_ge(1) [OF p(5,6)] sz n by (simp add: need_def)
      moreover have "need asz align buft (hp t) \<le> needs asz align buft hp ps" using t by (intro member_le_sum_list) auto
      moreover have "needs asz align buft hp ps = 0" using False p(2) by linarith
      ultimately have "asz buft (hp t) = 0" by linarith
      moreover have "0 < asz buft (hp t)" using p(7) n by blast
      ultimately show False by simp
    qed
    then have "rooms_ok asz align buft hp (set buffers) w h (fs @ ps)" using p(1) by (auto simp: ctx_inv_def rooms_ok_def)
    then show ?thesis using False p(1) by (simp add: ctx_inv_def ex_bool_eq)
  qed
next
  case (Cons t ts)
  note p = Cons.prems
  have sz: "\<forall>t. needs_place (hp t) \<longrightarrow> asz buft (hp t) < 2 ^ 63" using p(7) by blast
  have ht: "h t = hp t" using p(1) by (auto simp: ctx_inv_def)
  define n where "n = need asz align buft (hp t)"
  have this_size: "(if te_data (h t) = 0 \<and> te_view_src (h t) = None then pad_size (asz buft (h t)) align else 0) = n"
    by (simp add: n_def need_def needs_place_def ht)
  have lt: "cur + n < 2 ^ 63" using p(2,3) by (simp add: n_def)
  then have u: "u64 (cur + n) = cur + n" by (simp add: u64_def)
  show ?case
  proof (cases "0 < cur \<and> max_size < u64 (cur + n)")
    case False
    have "\<exists>ok buffers' h' w'. ctx_loop asz init_ok iface align max_size buft ts (ps @ [t], cur + n, buffers, h, w) = Some (ok, buffers', h', w') \<and>
        (ok \<longrightarrow> (\<forall>b \<in> set buffers'. b < length w') \<and> rooms_ok asz align buft hp (set buffers') w' h' (fs @ (ps @ [t]) @ ts))"
      by (rule Cons.IH) (use p n_def in simp_all)
    moreover have "ctx_loop asz init_ok iface align max_size buft (t # ts) (ps, cur, buffers, h, w) =
        ctx_loop asz init_ok iface align max_size buft ts (ps @ [t], cur + n, buffers, h, w)"
      using False by (auto simp: this_size Let_def u)
    ultimately show ?thesis by simp
  next
    case True
    have "0 < cur" "cur < 2 ^ 63" using True lt by simp_all
    from alloc_range_step [where init_ok = init_ok, OF p(1,2) this p(4-6) sz]
    obtain ok buffers' h' w' where r: "alloc_tensor_range asz init_ok iface align buft ps cur (buffers, h, w) = Some (ok, buffers', h', w')"
      "ok \<longrightarrow> ctx_inv asz align buft hp (fs @ ps) (t # ts) buffers' h' w'"
      by auto
    show ?thesis
    proof (cases ok)
      case False
      then have "ctx_loop asz init_ok iface align max_size buft (t # ts) (ps, cur, buffers, h, w) = Some (False, buffers', h', w')"
        using True r(1) by (simp add: this_size Let_def)
      then show ?thesis by blast
    next
      case ok: True
      have "\<exists>ok buffers'' h'' w''. ctx_loop asz init_ok iface align max_size buft ts ([t], n, buffers', h', w') = Some (ok, buffers'', h'', w'') \<and>
          (ok \<longrightarrow> (\<forall>b \<in> set buffers''. b < length w'') \<and> rooms_ok asz align buft hp (set buffers'') w'' h'' ((fs @ ps) @ [t] @ ts))"
        by (rule Cons.IH) (use p r(2) ok n_def in simp_all)
      then show ?thesis using True r(1) ok by (simp add: this_size Let_def)
    qed
  qed
qed

lemma alloc_ctx_total:
  assumes "distinct ts" and "attached_ok hp" and "views_ok hp {} ts" and "needs asz align buft hp ts < 2 ^ 63"
    and "backend_law iface align" and "0 < align" and "align \<le> 2 ^ 32" and "\<forall>t. needs_place (hp t) \<longrightarrow> 0 < asz buft (hp t) \<and> asz buft (hp t) < 2 ^ 63"
  shows "\<exists>buffers h w'. alloc_ctx_tensors_from_buft asz init_ok iface align max_size buft (True, ts) (hp, w) = Some (buffers, h, w') \<and>
    (buffers \<noteq> [] \<longrightarrow> (\<forall>b \<in> set buffers. b < length w') \<and> rooms_ok asz align buft hp (set buffers) w' h ts)"
proof -
  have "ctx_inv asz align buft hp [] ([] @ ts) [] hp w" using assms(1-3) by (simp add: ctx_inv_def rooms_ok_def)
  then obtain ok buffers h w' where "ctx_loop asz init_ok iface align max_size buft ts ([], 0, [], hp, w) = Some (ok, buffers, h, w')"
    "ok \<longrightarrow> (\<forall>b \<in> set buffers. b < length w') \<and> rooms_ok asz align buft hp (set buffers) w' h ([] @ [] @ ts)"
    using ctx_loop_total [of asz align buft hp "[]" "[]" ts "[]" hp w 0 iface init_ok max_size] assms(4-8) by auto
  then show ?thesis by (cases ok) (simp_all add: alloc_ctx_tensors_from_buft_def)
qed

end
