(* ===== verification/CtxProps.thy ===== *)
theory CtxProps
  imports CtxAlloc GraphDemo
begin

text \<open>
  The tensors of a context in as few buffers as the backend's limit allows: the property, a context that needs
  two buffers, and one whose views are forgotten.
\<close>

text \<open>Two tensors, 16 bytes each, and a view of the second.\<close>

definition ctx_heap :: heap where
  "ctx_heap = demo_heap [demo_tensor OP_NONE 0 [] None, demo_tensor OP_NONE 0 [] None, demo_tensor OP_NONE 0 [] (Some 1)]"

lemma ctx_heap_at:
  "ctx_heap 0 = demo_tensor OP_NONE 0 [] None" "ctx_heap 1 = demo_tensor OP_NONE 0 [] None"
  "ctx_heap (Suc 0) = demo_tensor OP_NONE 0 [] None" "ctx_heap 2 = demo_tensor OP_NONE 0 [] (Some 1)"
  by (simp_all add: ctx_heap_def demo_heap_def)

lemmas ctx_run = alloc_ctx_tensors_from_buft_def alloc_tensor_range_def alloc_tensor_def ggml_tallocr_alloc_def ggml_tallocr_new_def
  aligned_offset_def pad_size_def backend_tensor_alloc_def backend_view_init_def buft_alloc_buffer_def buffer_init_def buffer_get_base_def
  demo_iface_def demo_size_def vget_def u64_def Let_def

lemma ctx_two_buffers:
  "\<exists>h. alloc_ctx_tensors_from_buft demo_size (\<lambda>_ _. True) demo_iface 32 40 0 (True, [0, 1, 2]) (ctx_heap, []) =
     Some ([0, 1], h, [\<lparr>bu_type = 0, bu_base = 4096, bu_size = 32\<rparr>, \<lparr>bu_type = 0, bu_base = 4096, bu_size = 32\<rparr>]) \<and>
     te_buffer (h 2) = Some 1 \<and> te_data (h 2) = 4096"
  by (simp add: ctx_run ctx_heap_at demo_tensor_def)

text \<open>C33: For a context with \<open>no_alloc\<close> set, of different tensors, where a view comes after the tensor it is of unless that one has
  a buffer already, and a backend whose buffers hold what was asked for from their first aligned address on, the
  allocation never aborts.  Without \<open>no_alloc\<close> it does.  When it returns buffers, every tensor without data and that is
  no view lies in one of them: aligned, with all its bytes inside, and apart from the other tensors of that buffer.
\<close>

theorem ctx_tensors_placed:
  assumes "distinct ts" and "attached_ok hp" and "views_ok hp {} ts" and "needs asz align buft hp ts < 2 ^ 63"
    and "backend_law iface align" and "0 < align" and "align \<le> 2 ^ 32" and "\<forall>t. needs_place (hp t) \<longrightarrow> 0 < asz buft (hp t) \<and> asz buft (hp t) < 2 ^ 63"
  shows "alloc_ctx_tensors_from_buft asz init_ok iface align max_size buft (False, ts) (hp, w) = None \<and>
   (\<exists>buffers h w'. alloc_ctx_tensors_from_buft asz init_ok iface align max_size buft (True, ts) (hp, w) = Some (buffers, h, w') \<and>
    (buffers \<noteq> [] \<longrightarrow>
      (\<forall>t \<in> set ts. te_data (hp t) = 0 \<longrightarrow> te_view_src (hp t) = None \<longrightarrow>
        (\<exists>b \<in> set buffers. b < length w' \<and> te_buffer (h t) = Some b \<and> align dvd te_data (h t) \<and>
          bu_base (w' ! b) \<le> te_data (h t) \<and> te_data (h t) + asz buft (hp t) \<le> bu_base (w' ! b) + bu_size (w' ! b))) \<and>
      (\<forall>s \<in> set ts. \<forall>t \<in> set ts. s \<noteq> t \<longrightarrow> needs_place (hp s) \<longrightarrow> needs_place (hp t) \<longrightarrow> te_buffer (h s) = te_buffer (h t) \<longrightarrow>
        {te_data (h s)..<te_data (h s) + asz buft (hp s)} \<inter> {te_data (h t)..<te_data (h t) + asz buft (hp t)} = {})))"
proof -
  obtain buffers h w' where run: "alloc_ctx_tensors_from_buft asz init_ok iface align max_size buft (True, ts) (hp, w) = Some (buffers, h, w')"
    "buffers \<noteq> [] \<longrightarrow> rooms_ok asz align buft hp (set buffers) w' h ts"
    using alloc_ctx_total [OF assms, of init_ok max_size w] by blast
  have "\<exists>b \<in> set buffers. b < length w' \<and> te_buffer (h t) = Some b \<and> align dvd te_data (h t) \<and>
      bu_base (w' ! b) \<le> te_data (h t) \<and> te_data (h t) + asz buft (hp t) \<le> bu_base (w' ! b) + bu_size (w' ! b)"
    if "buffers \<noteq> []" "t \<in> set ts" "te_data (hp t) = 0" "te_view_src (hp t) = None" for t
  proof -
    have "has_room asz align buft hp (set buffers) w' h t"
      using run(2) that by (simp add: rooms_ok_def needs_place_def)
    then show ?thesis by (auto simp: has_room_def put_def)
  qed
  moreover have "alloc_ctx_tensors_from_buft asz init_ok iface align max_size buft (False, ts) (hp, w) = None"
    by (simp add: alloc_ctx_tensors_from_buft_def)
  ultimately show ?thesis using run by (auto simp: rooms_ok_def)
qed

theorem ctx_tensors_placed_witness:
  "\<exists>h w. alloc_ctx_tensors_from_buft demo_size (\<lambda>_ _. True) demo_iface 32 40 0 (True, [0, 1, 2]) (ctx_heap, []) = Some ([0, 1], h, w) \<and>
     32 dvd te_data (h 1) \<and> length w = 2"
proof -
  have size: "demo_size b (ctx_heap t) = 16 \<or> te_data (ctx_heap t) \<noteq> 0" for b t
    by (simp add: ctx_heap_def demo_heap_def demo_tensor_def demo_size_def nth_Cons split: nat.splits)
  have law: "backend_law demo_iface 32" by (rule backend_law_aligned) (auto simp: demo_iface_def)
  have att: "attached_ok ctx_heap"
    by (simp add: attached_ok_def ctx_heap_def demo_heap_def demo_tensor_def nth_Cons split: nat.splits)
  have views: "views_ok ctx_heap {} [0, 1, 2]" by (simp add: ctx_heap_at demo_tensor_def needs_place_def)
  have need: "needs demo_size 32 0 ctx_heap [0, 1, 2] < 2 ^ 63"
    by (simp add: need_def needs_place_def ctx_heap_at demo_tensor_def demo_size_def pad_size_def u64_def)
  have sizes: "\<forall>t. needs_place (ctx_heap t) \<longrightarrow> 0 < demo_size 0 (ctx_heap t) \<and> demo_size 0 (ctx_heap t) < 2 ^ 63"
  proof (intro allI impI)
    fix t assume "needs_place (ctx_heap t)"
    then have "demo_size 0 (ctx_heap t) = 16" using size [of 0 t] by (simp add: needs_place_def)
    then show "0 < demo_size 0 (ctx_heap t) \<and> demo_size 0 (ctx_heap t) < 2 ^ 63" by simp
  qed
  have placed: "te_data (ctx_heap 1) = 0" "te_view_src (ctx_heap 1) = None" by (simp_all add: ctx_heap_at demo_tensor_def)
  obtain h w where run: "alloc_ctx_tensors_from_buft demo_size (\<lambda>_ _. True) demo_iface 32 40 0 (True, [0, 1, 2]) (ctx_heap, []) = Some ([0, 1], h, w)" "length w = 2"
    using ctx_two_buffers by (elim exE conjE) (rule that, assumption, simp)
  have "32 dvd te_data (h 1)"
    using ctx_tensors_placed [OF _ att views need law _ _ sizes, of "\<lambda>_ _. True" 40 "[]"] run(1) placed by (simp del: One_nat_def) blast
  then show ?thesis using run by blast
qed

text \<open>A context of views only: nothing has to be allocated, and the view is not initialised either.\<close>

lemma ctx_views_forgotten:
  "alloc_ctx_tensors_from_buft demo_size (\<lambda>_ _. True) demo_iface 32 40 0 (True, [2]) (ctx_heap(1 := (ctx_heap 1)\<lparr>te_buffer := Some 0, te_data := 4096\<rparr>), w) =
     Some ([], ctx_heap(1 := (ctx_heap 1)\<lparr>te_buffer := Some 0, te_data := 4096\<rparr>), w)"
  by (simp add: ctx_run ctx_heap_at demo_tensor_def)

end
