(* ===== verification/OrdMap.thy ===== *)
theory OrdMap
  imports Prelude
begin

text \<open>
  \<open>std::map<K, V>\<close> as the list of its (key, value) pairs in iteration order: strictly
  increasing keys, so \<open>begin()\<close> is the head and \<open>rbegin()\<close> the last element.
  The representation is canonical: two well-formed lists with the same lookups are equal.

  The second part is the use the KV cells make of it: a table of counters
  (\<open>m[k]++\<close>; and \<open>if (--it->second == 0) m.erase(it)\<close>), stated as a locale over the
  counter operations, so that the loops over sequence ids are reasoned about once.
\<close>

subsection \<open>Ordered maps\<close>

type_synonym ('k, 'v) omap = "('k \<times> 'v) list"

fun om_find :: "'k \<Rightarrow> ('k, 'v) omap \<Rightarrow> 'v option" where
  "om_find k [] = None"
| "om_find k ((a, v) # m) = (if k = a then Some v else om_find k m)"

fun om_set :: "'k::linorder \<Rightarrow> 'v \<Rightarrow> ('k, 'v) omap \<Rightarrow> ('k, 'v) omap" where
  "om_set k v [] = [(k, v)]"
| "om_set k v ((a, w) # m) =
     (if k < a then (k, v) # (a, w) # m
      else if k = a then (k, v) # m
      else (a, w) # om_set k v m)"

fun om_erase :: "'k \<Rightarrow> ('k, 'v) omap \<Rightarrow> ('k, 'v) omap" where
  "om_erase k [] = []"
| "om_erase k ((a, v) # m) = (if k = a then m else (a, v) # om_erase k m)"

definition om_keys :: "('k, 'v) omap \<Rightarrow> 'k set" where
  "om_keys m = fst ` set m"

definition om_sorted :: "('k::linorder, 'v) omap \<Rightarrow> bool" where
  "om_sorted m \<longleftrightarrow> sorted_wrt (<) (map fst m)"

lemma om_keys_simps [simp]: "om_keys [] = {}" "om_keys ((a, v) # m) = insert a (om_keys m)"
  by (simp_all add: om_keys_def)

lemma om_keysI: "(k, v) \<in> set m \<Longrightarrow> k \<in> om_keys m"
  by (force simp: om_keys_def)

lemma om_sorted_Nil [simp]: "om_sorted []"
  by (simp add: om_sorted_def)

lemma om_sorted_Cons [simp]:
  "om_sorted ((a, v) # m) \<longleftrightarrow> (\<forall>k \<in> om_keys m. a < k) \<and> om_sorted m"
  by (simp add: om_sorted_def om_keys_def)

lemma om_find_None_iff: "om_find k m = None \<longleftrightarrow> k \<notin> om_keys m"
  by (induction k m rule: om_find.induct) auto

lemma om_find_Some_in: "om_find k m = Some v \<Longrightarrow> (k, v) \<in> set m"
  by (induction k m rule: om_find.induct) (auto split: if_splits)

lemma om_find_in: "om_sorted m \<Longrightarrow> (k, v) \<in> set m \<Longrightarrow> om_find k m = Some v"
  by (induction k m rule: om_find.induct) (auto dest: om_keysI)

lemma om_keys_set [simp]: "om_keys (om_set k v m) = insert k (om_keys m)"
  by (induction k v m rule: om_set.induct) auto

lemma om_find_set [simp]: "om_find j (om_set k v m) = (if j = k then Some v else om_find j m)"
  by (induction k v m rule: om_set.induct) auto

lemma om_sorted_set [simp]: "om_sorted m \<Longrightarrow> om_sorted (om_set k v m)"
  by (induction k v m rule: om_set.induct) (auto dest: less_trans)

lemma om_keys_erase: "om_keys (om_erase k m) \<subseteq> om_keys m"
  by (induction k m rule: om_erase.induct) auto

lemma om_sorted_erase [simp]: "om_sorted m \<Longrightarrow> om_sorted (om_erase k m)"
  by (induction k m rule: om_erase.induct) (auto dest: om_keys_erase [THEN subsetD])

lemma om_find_erase [simp]:
  "om_sorted m \<Longrightarrow> om_find j (om_erase k m) = (if j = k then None else om_find j m)"
  by (induction k m rule: om_erase.induct) (auto simp: om_find_None_iff)

text \<open>The representation is canonical.\<close>

lemma om_ext:
  assumes "om_sorted m" "om_sorted m'" "\<And>k. om_find k m = om_find k m'"
  shows "m = m'"
  using assms
proof (induction m arbitrary: m')
  case Nil
  then show ?case
    by (cases m') (auto split: if_splits, metis om_find.simps(2) option.distinct(1))
next
  case (Cons x m)
  obtain a v where x: "x = (a, v)" by (cases x)
  from Cons.prems(3) [of a] x have fa: "om_find a m' = Some v" by simp
  then obtain b w n where m': "m' = (b, w) # n" by (cases m') auto
  have "a \<le> b"
    using Cons.prems(1) Cons.prems(3) [of b] om_find_None_iff [of b m]
    unfolding x m' by (force split: if_splits)
  moreover have "b \<le> a"
    using Cons.prems(2) om_keysI [OF om_find_Some_in [OF fa]] unfolding m' by force
  ultimately have ab: "a = b" by simp
  with fa have vw: "v = w" by (simp add: m')
  have "m = n"
  proof (rule Cons.IH)
    show "om_sorted m" "om_sorted n" using Cons.prems(1,2) x m' by auto
    fix k
    show "om_find k m = om_find k n"
    proof (cases "k = a")
      case True
      have "a \<notin> om_keys m" "a \<notin> om_keys n"
        using Cons.prems(1,2) x m' ab by auto
      then show ?thesis using True by (simp add: om_find_None_iff [symmetric])
    next
      case False
      then show ?thesis using Cons.prems(3) [of k] x m' ab by simp
    qed
  qed
  then show ?case using x m' ab vw by simp
qed

text \<open>First and last key.\<close>

lemma om_hd_least:
  "om_sorted m \<Longrightarrow> m \<noteq> [] \<Longrightarrow> fst (hd m) \<in> om_keys m \<and> (\<forall>k \<in> om_keys m. fst (hd m) \<le> k)"
  by (cases m) force+

lemma om_last_greatest:
  "om_sorted m \<Longrightarrow> m \<noteq> [] \<Longrightarrow> fst (last m) \<in> om_keys m \<and> (\<forall>k \<in> om_keys m. k \<le> fst (last m))"
proof (induction m)
  case Nil
  then show ?case by simp
next
  case (Cons x m)
  obtain a v where x: "x = (a, v)" by (cases x)
  show ?case
  proof (cases "m = []")
    case True
    then show ?thesis by (simp add: x)
  next
    case False
    then have "fst (last m) \<in> om_keys m \<and> (\<forall>k\<in>om_keys m. k \<le> fst (last m))"
      using Cons.IH Cons.prems(1) by (simp add: x)
    then show ?thesis using Cons.prems(1) False by (auto simp: x less_imp_le)
  qed
qed

subsection \<open>Tables of counters\<close>

definition cnt :: "'k \<Rightarrow> ('k, int) omap \<Rightarrow> int" where
  "cnt k m = (case om_find k m of None \<Rightarrow> 0 | Some n \<Rightarrow> n)"

definition cm_wf :: "('k::linorder, int) omap \<Rightarrow> bool" where
  "cm_wf m \<longleftrightarrow> om_sorted m \<and> (\<forall>n \<in> snd ` set m. 0 < n)"

definition cm_inc :: "'k::linorder \<Rightarrow> ('k, int) omap \<Rightarrow> ('k, int) omap" where
  "cm_inc k m = om_set k (cnt k m + 1) m"

definition cm_dec :: "'k::linorder \<Rightarrow> ('k, int) omap \<Rightarrow> ('k, int) omap option" where
  "cm_dec k m =
     (case om_find k m of
        None \<Rightarrow> None
      | Some n \<Rightarrow> Some (if n - 1 = 0 then om_erase k m else om_set k (n - 1) m))"

lemma cm_wf_Nil [simp]: "cm_wf []"
  by (simp add: cm_wf_def)

lemma cnt_Nil [simp]: "cnt k [] = 0"
  by (simp add: cnt_def)

lemma cm_wf_find_pos: "cm_wf m \<Longrightarrow> om_find k m = Some n \<Longrightarrow> 0 < n"
  unfolding cm_wf_def by (metis image_eqI om_find_Some_in snd_conv)

lemma cm_wfI:
  assumes "om_sorted m" and "\<And>k n. om_find k m = Some n \<Longrightarrow> 0 < n"
  shows "cm_wf m"
  using assms by (fastforce simp: cm_wf_def dest: om_find_in)

lemma cnt_nonneg: "cm_wf m \<Longrightarrow> 0 \<le> cnt k m"
  by (auto simp: cnt_def split: option.splits dest: cm_wf_find_pos)

lemma cnt_pos_iff: "cm_wf m \<Longrightarrow> 0 < cnt k m \<longleftrightarrow> k \<in> om_keys m"
  by (auto simp: cnt_def om_find_None_iff [symmetric] split: option.splits dest: cm_wf_find_pos)

lemma cm_wf_sorted: "cm_wf m \<Longrightarrow> om_sorted m"
  by (simp add: cm_wf_def)

lemma cm_wf_inc: "cm_wf m \<Longrightarrow> cm_wf (cm_inc k m)"
  unfolding cm_inc_def
  by (rule cm_wfI)
    (auto simp: cm_wf_sorted split: if_splits dest: cm_wf_find_pos intro: add_nonneg_pos cnt_nonneg)

lemma cnt_inc: "cnt j (cm_inc k m) = cnt j m + (if j = k then 1 else 0)"
  by (simp add: cm_inc_def cnt_def)

lemma cm_dec_total: "cm_wf m \<Longrightarrow> 0 < cnt k m \<Longrightarrow> cm_dec k m \<noteq> None"
  by (auto simp: cm_dec_def cnt_def split: option.splits)

lemma cm_wf_dec:
  assumes "cm_wf m" "cm_dec k m = Some m'"
  shows "cm_wf m'"
proof -
  obtain n where n: "om_find k m = Some n"
    and m': "m' = (if n - 1 = 0 then om_erase k m else om_set k (n - 1) m)"
    using assms(2) by (auto simp: cm_dec_def split: option.splits)
  have "0 < n" using assms(1) n by (rule cm_wf_find_pos)
  then show ?thesis
    using cm_wf_find_pos [OF assms(1)] cm_wf_sorted [OF assms(1)] m'
    by (auto intro!: cm_wfI split: if_splits)
qed

lemma cnt_dec: "cm_wf m \<Longrightarrow> cm_dec k m = Some m' \<Longrightarrow> cnt j m' = cnt j m - (if j = k then 1 else 0)"
  by (auto simp: cm_dec_def cnt_def cm_wf_def split: option.splits if_splits)

lemma cm_ext:
  assumes "cm_wf m" "cm_wf m'" "\<And>k. cnt k m = cnt k m'"
  shows "m = m'"
proof (rule om_ext)
  show "om_sorted m" "om_sorted m'" using assms(1,2) by (auto simp: cm_wf_def)
  fix k
  show "om_find k m = om_find k m'"
    using assms(3) [of k] cm_wf_find_pos [OF assms(1), of k] cm_wf_find_pos [OF assms(2), of k]
    by (auto simp: cnt_def split: option.splits)
qed

subsection \<open>The counter interface and loops over a table of counters\<close>

text \<open>
  What the KV cells rely on: a store of counters with an increment and a decrement that is
  defined where the count is positive.  The lemmas of the locale are about the loops that
  bump the counter of one key in several rows of a table (one row per sequence id).
\<close>

locale counter_map =
  fixes wf :: "'m \<Rightarrow> bool"
    and count :: "'k \<Rightarrow> 'm \<Rightarrow> int"
    and inc :: "'k \<Rightarrow> 'm \<Rightarrow> 'm"
    and dec :: "'k \<Rightarrow> 'm \<Rightarrow> 'm option"
  assumes wf_inc: "wf m \<Longrightarrow> wf (inc k m)"
    and count_inc: "wf m \<Longrightarrow> count j (inc k m) = count j m + (if j = k then 1 else 0)"
    and dec_defined: "wf m \<Longrightarrow> 0 < count k m \<Longrightarrow> dec k m \<noteq> None"
    and wf_dec: "wf m \<Longrightarrow> dec k m = Some m' \<Longrightarrow> wf m'"
    and count_dec: "wf m \<Longrightarrow> dec k m = Some m' \<Longrightarrow> count j m' = count j m - (if j = k then 1 else 0)"
begin

text \<open>Row \<open>j\<close> of the table moved by \<open>d\<close> at key \<open>k\<close>, for the rows in \<open>J\<close> below \<open>n\<close>.\<close>

definition moved :: "int \<Rightarrow> 'k \<Rightarrow> nat set \<Rightarrow> nat \<Rightarrow> 'm list \<Rightarrow> 'm list \<Rightarrow> bool" where
  "moved d k J n ms ms' \<longleftrightarrow> length ms' = length ms \<and> (\<forall>m \<in> set ms'. wf m) \<and>
     (\<forall>j < length ms. \<forall>p. count p (ms' ! j) =
        count p (ms ! j) + (if j < n \<and> j \<in> J \<and> p = k then d else 0))"

lemma moved_0: "\<forall>m \<in> set ms. wf m \<Longrightarrow> moved d k J 0 ms ms"
  by (simp add: moved_def)

lemma moved_skip: "moved d k J n ms ms' \<Longrightarrow> n \<notin> J \<Longrightarrow> moved d k J (Suc n) ms ms'"
  by (auto simp: moved_def less_Suc_eq)

lemma moved_step:
  assumes "moved d k J n ms ms'" "n \<in> J" "n < length ms" "wf m"
    and "\<And>p. count p m = count p (ms' ! n) + (if p = k then d else 0)"
  shows "moved d k J (Suc n) ms (ms'[n := m])"
  using assms by (auto simp: moved_def nth_list_update less_Suc_eq dest: set_update_subset_insert [THEN subsetD])

lemma moved_wf_nth: "moved d k J n ms ms' \<Longrightarrow> j < length ms \<Longrightarrow> wf (ms' ! j)"
  by (auto simp: moved_def)

lemma dec_loop:
  assumes "\<forall>m \<in> set ms. wf m" and "n \<le> length ms"
    and "\<And>j. j < n \<Longrightarrow> j \<in> J \<Longrightarrow> 0 < count k (ms ! j)"
  shows "\<exists>ms'. foldM (\<lambda>j ms. if j \<in> J then map_option (\<lambda>m. ms[j := m]) (dec k (ms ! j)) else Some ms)
      [0..<n] ms = Some ms' \<and> moved (- 1) k J n ms ms'"
proof (rule foldM_upt_rule)
  show "moved (- 1) k J 0 ms ms" using assms(1) by (rule moved_0)
next
  fix i t
  assume i: "i < n" and t: "moved (- 1) k J i ms t"
  have wf: "wf (t ! i)" using moved_wf_nth [OF t] i assms(2) by simp
  show "\<exists>t'. (if i \<in> J then map_option (\<lambda>m. t[i := m]) (dec k (t ! i)) else Some t) = Some t' \<and>
      moved (- 1) k J (Suc i) ms t'"
  proof (cases "i \<in> J")
    case True
    have "count k (t ! i) = count k (ms ! i)" using t i assms(2) by (simp add: moved_def)
    then obtain m where m: "dec k (t ! i) = Some m"
      using dec_defined [OF wf, of k] assms(3) [OF i True] by fastforce
    have "moved (- 1) k J (Suc i) ms (t[i := m])"
      by (rule moved_step [OF t True]) (use i assms(2) wf m in \<open>auto simp: wf_dec count_dec\<close>)
    then show ?thesis using True m by simp
  next
    case False
    then show ?thesis using moved_skip [OF t] by simp
  qed
qed

lemma inc_loop:
  assumes "\<forall>m \<in> set ms. wf m" and "n \<le> length ms"
  shows "moved 1 k J n ms
    (fold (\<lambda>j ms. if j \<in> J then ms[j := inc k (ms ! j)] else ms) [0..<n] ms)"
  using assms(2)
proof (induction n)
  case 0
  then show ?case using assms(1) by (simp add: moved_0)
next
  case (Suc n)
  let ?t = "fold (\<lambda>j ms. if j \<in> J then ms[j := inc k (ms ! j)] else ms) [0..<n] ms"
  have t: "moved 1 k J n ms ?t" using Suc by simp
  have wf: "wf (?t ! n)" using moved_wf_nth [OF t] Suc.prems by simp
  show ?case
  proof (cases "n \<in> J")
    case True
    have "moved 1 k J (Suc n) ms (?t[n := inc k (?t ! n)])"
      by (rule moved_step [OF t True]) (use Suc.prems wf in \<open>auto simp: wf_inc count_inc\<close>)
    then show ?thesis using True by simp
  next
    case False
    then show ?thesis using moved_skip [OF t] by simp
  qed
qed

end

interpretation cm: counter_map cm_wf cnt cm_inc cm_dec
  by unfold_locales (auto simp: cm_wf_inc cnt_inc cm_wf_dec cnt_dec dest: cm_dec_total)

end
