(* ===== verification/KvCells.thy ===== *)
theory KvCells
  imports OrdMap
begin

text \<open>
  \<open>class llama_kv_cells_unified\<close> (src/llama-kv-cells.h): the metadata of the cells of one KV
  cache stream.  One field of the record per data member:

  \<^item> \<open>kc_used\<close> is the \<open>std::set\<close> of indices of used cells;
  \<^item> \<open>kc_pos\<close>, \<open>kc_shift\<close>, \<open>kc_seq\<close> are the three vectors, a \<open>std::bitset\<close> being the
    set of its members;
  \<^item> \<open>kc_seq_pos\<close> is the array of \<open>LLAMA_MAX_SEQ\<close> maps from a position to the number of
    cells of the sequence that have it.

  An operation returns \<open>None\<close> when one of its \<open>assert\<close>s fails, when \<open>std::bitset\<close> throws on
  an id outside it, or when a signed position overflows.
\<close>

abbreviation LLAMA_MAX_SEQ :: nat where
  "LLAMA_MAX_SEQ \<equiv> 64"

text \<open>The values of a loop \<open>for (int s = 0; s < LLAMA_MAX_SEQ; ++s)\<close>.\<close>

definition seq_ids :: "llama_seq_id list" where
  "seq_ids = map int [0..<LLAMA_MAX_SEQ]"

definition seq_ok :: "llama_seq_id \<Rightarrow> bool" where
  "seq_ok s \<longleftrightarrow> 0 \<le> s \<and> s < int LLAMA_MAX_SEQ"

record kv_cells =
  kc_has_shift :: bool
  kc_used :: "nat set"
  kc_pos :: "llama_pos list"
  kc_shift :: "llama_pos list"
  kc_seq :: "llama_seq_id set list"
  kc_seq_pos :: "(llama_pos, int) omap list"

definition kc_empty :: kv_cells where
  "kc_empty = \<lparr>kc_has_shift = False, kc_used = {}, kc_pos = [], kc_shift = [], kc_seq = [],
     kc_seq_pos = replicate LLAMA_MAX_SEQ []\<rparr>"

definition kc_reset :: "kv_cells \<Rightarrow> kv_cells" where
  "kc_reset c = c\<lparr>kc_has_shift := False, kc_used := {},
     kc_pos := map (\<lambda>_. - 1) (kc_pos c),
     kc_shift := map (\<lambda>_. 0) (kc_shift c),
     kc_seq := map (\<lambda>_. {}) (kc_seq c),
     kc_seq_pos := map (\<lambda>_. []) (kc_seq_pos c)\<rparr>"

definition kc_reset_shift :: "kv_cells \<Rightarrow> kv_cells" where
  "kc_reset_shift c = c\<lparr>kc_has_shift := False, kc_shift := map (\<lambda>_. 0) (kc_shift c)\<rparr>"

definition kc_size :: "kv_cells \<Rightarrow> nat" where
  "kc_size c = length (kc_pos c)"

definition vresize :: "nat \<Rightarrow> 'a \<Rightarrow> 'a list \<Rightarrow> 'a list" where
  "vresize n x xs = take n xs @ replicate (n - length xs) x"

definition kc_resize :: "kv_cells \<Rightarrow> nat \<Rightarrow> kv_cells" where
  "kc_resize c n = kc_reset (c\<lparr>kc_pos := vresize n 0 (kc_pos c),
     kc_shift := vresize n 0 (kc_shift c), kc_seq := vresize n {} (kc_seq c)\<rparr>)"

definition kc_is_empty :: "kv_cells \<Rightarrow> nat \<Rightarrow> bool option" where
  "kc_is_empty c i = do {
     guard (i < length (kc_pos c));
     guard (- 1 \<le> kc_pos c ! i);
     Some (kc_pos c ! i = - 1) }"

definition kc_get_used :: "kv_cells \<Rightarrow> nat" where
  "kc_get_used c = card (kc_used c)"

definition kc_used_min :: "kv_cells \<Rightarrow> nat" where
  "kc_used_min c = (if kc_used c = {} then 0 else Min (kc_used c))"

definition kc_used_max_p1 :: "kv_cells \<Rightarrow> nat" where
  "kc_used_max_p1 c = (if kc_used c = {} then 0 else Max (kc_used c) + 1)"

definition kc_get_has_shift :: "kv_cells \<Rightarrow> bool" where
  "kc_get_has_shift c = kc_has_shift c"

subsection \<open>The position tables\<close>

definition kc_seq_pos_dec :: "kv_cells \<Rightarrow> llama_seq_id \<Rightarrow> llama_pos \<Rightarrow> kv_cells option" where
  "kc_seq_pos_dec c s p = do {
     m \<leftarrow> cm_dec p (kc_seq_pos c ! nat s);
     Some (c\<lparr>kc_seq_pos := (kc_seq_pos c)[nat s := m]\<rparr>) }"

definition kc_seq_pos_inc :: "kv_cells \<Rightarrow> llama_seq_id \<Rightarrow> llama_pos \<Rightarrow> kv_cells" where
  "kc_seq_pos_inc c s p =
     c\<lparr>kc_seq_pos := (kc_seq_pos c)[nat s := cm_inc p (kc_seq_pos c ! nat s)]\<rparr>"

definition kc_seq_pos_rm :: "kv_cells \<Rightarrow> nat \<Rightarrow> kv_cells option" where
  "kc_seq_pos_rm c i =
     foldM (\<lambda>s c. if s \<in> kc_seq c ! i then kc_seq_pos_dec c s (kc_pos c ! i) else Some c) seq_ids c"

definition kc_seq_pos_add :: "kv_cells \<Rightarrow> nat \<Rightarrow> kv_cells" where
  "kc_seq_pos_add c i =
     fold (\<lambda>s c. if s \<in> kc_seq c ! i then kc_seq_pos_inc c s (kc_pos c ! i) else c) seq_ids c"

subsection \<open>Moving, copying and restoring cells\<close>

definition kc_mv :: "kv_cells \<Rightarrow> nat \<Rightarrow> nat \<Rightarrow> kv_cells option" where
  "kc_mv c isrc idst = do {
     guard (isrc < length (kc_pos c));
     guard (idst < length (kc_pos c));
     guard (kc_pos c ! idst = - 1);
     guard (kc_pos c ! isrc \<noteq> - 1);
     Some (c\<lparr>kc_pos := (kc_pos c)[idst := kc_pos c ! isrc, isrc := - 1],
             kc_shift := (kc_shift c)[idst := kc_shift c ! isrc, isrc := 0],
             kc_seq := (kc_seq c)[idst := kc_seq c ! isrc, isrc := {}],
             kc_used := insert idst (kc_used c - {isrc})\<rparr>) }"

text \<open>The loop body shared by the two \<open>cp\<close> overloads: cell \<open>idx\<close> into position \<open>j\<close> of the copy.\<close>

definition kc_cp_cell :: "kv_cells \<Rightarrow> nat \<Rightarrow> nat \<Rightarrow> kv_cells \<Rightarrow> kv_cells option" where
  "kc_cp_cell c idx j res = do {
     guard (idx < length (kc_pos c));
     guard (kc_shift c ! idx = 0);
     Some (res\<lparr>kc_pos := (kc_pos res)[j := kc_pos c ! idx],
               kc_seq := (kc_seq res)[j := kc_seq c ! idx]\<rparr>) }"

definition kc_cp_range :: "kv_cells \<Rightarrow> nat \<Rightarrow> nat \<Rightarrow> kv_cells option" where
  "kc_cp_range c i n = do {
     guard (i + n \<le> length (kc_pos c));
     foldM (\<lambda>j res. kc_cp_cell c (i + j) j res) [0..<n] (kc_resize kc_empty n) }"

definition kc_cp :: "kv_cells \<Rightarrow> nat list \<Rightarrow> kv_cells option" where
  "kc_cp c idxs =
     foldM (\<lambda>j res. kc_cp_cell c (idxs ! j) j res) [0..<length idxs] (kc_resize kc_empty (length idxs))"

text \<open>The loop body shared by the two \<open>set\<close> overloads: cell \<open>j\<close> of \<open>other\<close> into cell \<open>idx\<close>.\<close>

definition kc_set_cell :: "kv_cells \<Rightarrow> nat \<Rightarrow> nat \<Rightarrow> kv_cells \<Rightarrow> kv_cells option" where
  "kc_set_cell other idx j c = do {
     guard (idx < length (kc_pos c));
     let c = (if kc_pos c ! idx = - 1 \<and> kc_pos other ! j \<noteq> - 1
              then c\<lparr>kc_used := insert idx (kc_used c)\<rparr> else c);
     let c = (if kc_pos c ! idx \<noteq> - 1 \<and> kc_pos other ! j = - 1
              then c\<lparr>kc_used := kc_used c - {idx}\<rparr> else c);
     c \<leftarrow> (if kc_pos c ! idx \<noteq> - 1 then kc_seq_pos_rm c idx else Some c);
     let c = c\<lparr>kc_pos := (kc_pos c)[idx := kc_pos other ! j],
               kc_seq := (kc_seq c)[idx := kc_seq other ! j]\<rparr>;
     let c = (if kc_pos c ! idx \<noteq> - 1 then kc_seq_pos_add c idx else c);
     guard (kc_shift c ! idx = 0);
     Some c }"

definition kc_set_range :: "kv_cells \<Rightarrow> nat \<Rightarrow> kv_cells \<Rightarrow> kv_cells option" where
  "kc_set_range c i other = do {
     guard (i + length (kc_pos other) \<le> length (kc_pos c));
     foldM (\<lambda>j c. kc_set_cell other (i + j) j c) [0..<length (kc_pos other)] c }"

definition kc_set :: "kv_cells \<Rightarrow> nat list \<Rightarrow> kv_cells \<Rightarrow> kv_cells option" where
  "kc_set c idxs other = do {
     guard (length idxs = length (kc_pos other));
     foldM (\<lambda>j c. kc_set_cell other (idxs ! j) j c) [0..<length (kc_pos other)] c }"

subsection \<open>Sequences and positions of one cell\<close>

definition kc_rm :: "kv_cells \<Rightarrow> nat \<Rightarrow> kv_cells option" where
  "kc_rm c i = do {
     guard (i < length (kc_pos c));
     guard (kc_pos c ! i \<noteq> - 1);
     c \<leftarrow> kc_seq_pos_rm c i;
     Some (c\<lparr>kc_seq := (kc_seq c)[i := {}], kc_pos := (kc_pos c)[i := - 1],
             kc_shift := (kc_shift c)[i := 0], kc_used := kc_used c - {i}\<rparr>) }"

definition kc_seq_rm :: "kv_cells \<Rightarrow> nat \<Rightarrow> llama_seq_id \<Rightarrow> (bool \<times> kv_cells) option" where
  "kc_seq_rm c i s = do {
     guard (i < length (kc_pos c));
     guard (s \<in> kc_seq c ! i);
     guard (kc_pos c ! i \<noteq> - 1);
     guard (seq_ok s);
     let c = c\<lparr>kc_seq := (kc_seq c)[i := kc_seq c ! i - {s}]\<rparr>;
     c \<leftarrow> kc_seq_pos_dec c s (kc_pos c ! i);
     if kc_seq c ! i = {}
     then Some (True, c\<lparr>kc_pos := (kc_pos c)[i := - 1], kc_shift := (kc_shift c)[i := 0],
                        kc_used := kc_used c - {i}\<rparr>)
     else Some (False, c) }"

definition kc_seq_keep :: "kv_cells \<Rightarrow> nat \<Rightarrow> llama_seq_id \<Rightarrow> (bool \<times> kv_cells) option" where
  "kc_seq_keep c i s = do {
     guard (i < length (kc_pos c));
     guard (seq_ok s);
     if s \<in> kc_seq c ! i then do {
       c \<leftarrow> kc_seq_pos_rm c i;
       let c = c\<lparr>kc_seq := (kc_seq c)[i := {s}]\<rparr>;
       Some (False, kc_seq_pos_inc c s (kc_pos c ! i)) }
     else if kc_seq c ! i \<noteq> {} then do {
       c \<leftarrow> kc_seq_pos_rm c i;
       Some (True, c\<lparr>kc_seq := (kc_seq c)[i := {}], kc_pos := (kc_pos c)[i := - 1],
                     kc_shift := (kc_shift c)[i := 0], kc_used := kc_used c - {i}\<rparr>) }
     else do {
       guard (kc_pos c ! i = - 1);
       Some (False, c) } }"

definition kc_seq_count :: "kv_cells \<Rightarrow> nat \<Rightarrow> nat option" where
  "kc_seq_count c i = do {
     guard (i < length (kc_pos c));
     guard (kc_pos c ! i \<noteq> - 1);
     Some (card (kc_seq c ! i)) }"

definition kc_seq_has :: "kv_cells \<Rightarrow> nat \<Rightarrow> llama_seq_id \<Rightarrow> bool option" where
  "kc_seq_has c i s = do {
     guard (i < length (kc_pos c));
     guard (seq_ok s);
     Some (s \<in> kc_seq c ! i) }"

definition kc_seq_add :: "kv_cells \<Rightarrow> nat \<Rightarrow> llama_seq_id \<Rightarrow> kv_cells option" where
  "kc_seq_add c i s = do {
     guard (i < length (kc_pos c));
     guard (kc_pos c ! i \<noteq> - 1);
     guard (seq_ok s);
     guard (s \<notin> kc_seq c ! i);
     let c = c\<lparr>kc_seq := (kc_seq c)[i := insert s (kc_seq c ! i)]\<rparr>;
     Some (kc_seq_pos_inc c s (kc_pos c ! i)) }"

definition kc_seq_get :: "kv_cells \<Rightarrow> nat \<Rightarrow> llama_seq_id option" where
  "kc_seq_get c i = do {
     guard (i < length (kc_seq c));
     guard (card (kc_seq c ! i) = 1);
     Some (case List.find (\<lambda>s. s \<in> kc_seq c ! i) seq_ids of Some s \<Rightarrow> s | None \<Rightarrow> - 1) }"

definition kc_seq_pos_min :: "kv_cells \<Rightarrow> llama_seq_id \<Rightarrow> llama_pos option" where
  "kc_seq_pos_min c s = do {
     guard (seq_ok s);
     (case kc_seq_pos c ! nat s of
        [] \<Rightarrow> Some (- 1)
      | (p, n) # _ \<Rightarrow> do { guard (0 < n); Some p }) }"

definition kc_seq_pos_max :: "kv_cells \<Rightarrow> llama_seq_id \<Rightarrow> llama_pos option" where
  "kc_seq_pos_max c s = do {
     guard (seq_ok s);
     (if kc_seq_pos c ! nat s = [] then Some (- 1)
      else do {
        let (p, n) = last (kc_seq_pos c ! nat s);
        guard (0 < n);
        Some p }) }"

definition kc_pos_get :: "kv_cells \<Rightarrow> nat \<Rightarrow> llama_pos option" where
  "kc_pos_get c i = do {
     guard (i < length (kc_pos c));
     guard (kc_pos c ! i \<noteq> - 1);
     Some (kc_pos c ! i) }"

definition kc_get_shift :: "kv_cells \<Rightarrow> nat \<Rightarrow> llama_pos option" where
  "kc_get_shift c i = do {
     guard (i < length (kc_pos c));
     guard (kc_pos c ! i \<noteq> - 1);
     Some (kc_shift c ! i) }"

definition kc_pos_in :: "kv_cells \<Rightarrow> nat \<Rightarrow> llama_pos \<Rightarrow> llama_pos \<Rightarrow> bool option" where
  "kc_pos_in c i p0 p1 = do {
     guard (i < length (kc_pos c));
     Some (p0 \<le> kc_pos c ! i \<and> kc_pos c ! i < p1) }"

definition kc_pos_set :: "kv_cells \<Rightarrow> nat \<Rightarrow> llama_pos \<Rightarrow> kv_cells option" where
  "kc_pos_set c i p = do {
     guard (i < length (kc_pos c));
     guard (kc_pos c ! i = - 1);
     guard (kc_seq c ! i = {});
     Some (c\<lparr>kc_pos := (kc_pos c)[i := p], kc_used := insert i (kc_used c)\<rparr>) }"

definition kc_pos_add :: "kv_cells \<Rightarrow> nat \<Rightarrow> llama_pos \<Rightarrow> (bool \<times> kv_cells) option" where
  "kc_pos_add c i d = do {
     guard (i < length (kc_pos c));
     guard (kc_pos c ! i \<noteq> - 1);
     c \<leftarrow> kc_seq_pos_rm c i;
     guard (i32_ok (kc_pos c ! i + d) \<and> i32_ok (kc_shift c ! i + d));
     let c = c\<lparr>kc_pos := (kc_pos c)[i := kc_pos c ! i + d],
               kc_shift := (kc_shift c)[i := kc_shift c ! i + d], kc_has_shift := True\<rparr>;
     if kc_pos c ! i < 0
     then Some (True, c\<lparr>kc_seq := (kc_seq c)[i := {}], kc_pos := (kc_pos c)[i := - 1],
                        kc_shift := (kc_shift c)[i := 0], kc_used := kc_used c - {i}\<rparr>)
     else Some (False, kc_seq_pos_add c i) }"

definition kc_pos_div :: "kv_cells \<Rightarrow> nat \<Rightarrow> int \<Rightarrow> kv_cells option" where
  "kc_pos_div c i d = do {
     guard (i < length (kc_pos c));
     guard (kc_pos c ! i \<noteq> - 1);
     let p_old = kc_pos c ! i;
     c \<leftarrow> kc_seq_pos_rm c i;
     guard (d \<noteq> 0 \<and> i32_ok (cdiv p_old d));
     let c = c\<lparr>kc_pos := (kc_pos c)[i := cdiv p_old d]\<rparr>;
     guard (i32_ok (p_old - kc_pos c ! i) \<and> i32_ok (kc_shift c ! i + (p_old - kc_pos c ! i)));
     let c = c\<lparr>kc_shift := (kc_shift c)[i := kc_shift c ! i + (p_old - kc_pos c ! i)]\<rparr>;
     let c = kc_seq_pos_add c i;
     Some (c\<lparr>kc_has_shift := True\<rparr>) }"

end
