(* ===== verification/KvCellsInv.thy ===== *)
theory KvCellsInv
  imports KvCells
begin

text \<open>
  The invariant of \<open>llama_kv_cells_unified\<close> and what each operation does under it.

  \<open>kc_wf\<close> says that the redundant members agree with the primary ones: \<open>used\<close> is the set of
  cells with a position, and \<open>seq_pos[s][p]\<close> counts the cells of sequence \<open>s\<close> at position
  \<open>p\<close>.  Every operation lemma has the same shape: under \<open>kc_wf\<close> and the call conditions the
  comments of the class state, the operation returns, keeps \<open>kc_wf\<close>, and changes
  \<open>kc_pos\<close>, \<open>kc_seq\<close>, \<open>kc_shift\<close> as given.
\<close>

subsection \<open>Counting the cells of a sequence at a position\<close>

definition cell_cnt :: "llama_pos list \<Rightarrow> llama_seq_id set list \<Rightarrow> llama_seq_id \<Rightarrow> llama_pos \<Rightarrow> int" where
  "cell_cnt ps qs s p = (\<Sum>i<length ps. if ps ! i = p \<and> s \<in> qs ! i then 1 else 0)"

lemma cell_cnt_update:
  assumes "i < length ps" "length qs = length ps"
  shows "cell_cnt (ps[i := x]) (qs[i := b]) s p =
    cell_cnt ps qs s p - (if ps ! i = p \<and> s \<in> qs ! i then 1 else 0) + (if x = p \<and> s \<in> b then 1 else 0)"
proof -
  let ?f = "\<lambda>ps qs j. if ps ! j = p \<and> s \<in> qs ! j then 1 else (0::int)"
  have "cell_cnt (ps[i := x]) (qs[i := b]) s p =
      (\<Sum>j\<in>{..<length ps} - {i}. ?f (ps[i := x]) (qs[i := b]) j) + ?f (ps[i := x]) (qs[i := b]) i"
    using assms by (simp add: cell_cnt_def sum.remove [of _ i])
  also have "(\<Sum>j\<in>{..<length ps} - {i}. ?f (ps[i := x]) (qs[i := b]) j) = (\<Sum>j\<in>{..<length ps} - {i}. ?f ps qs j)"
    by (rule sum.cong) auto
  also have "\<dots> = cell_cnt ps qs s p - ?f ps qs i"
    using assms by (simp add: cell_cnt_def sum.remove [of _ i])
  finally show ?thesis using assms by simp
qed

lemma cell_cnt_nonneg: "0 \<le> cell_cnt ps qs s p"
  by (auto simp: cell_cnt_def intro: sum_nonneg)

lemma cell_cnt_pos_iff: "0 < cell_cnt ps qs s p \<longleftrightarrow> (\<exists>i < length ps. ps ! i = p \<and> s \<in> qs ! i)"
proof -
  have "cell_cnt ps qs s p = 0 \<longleftrightarrow> \<not> (\<exists>i < length ps. ps ! i = p \<and> s \<in> qs ! i)"
    by (auto simp: cell_cnt_def sum_nonneg_eq_0_iff)
  then show ?thesis using cell_cnt_nonneg [of ps qs s p] by auto
qed

lemma cell_cnt_fresh: "cell_cnt (replicate n x) (replicate n {}) s p = 0"
  by (simp add: cell_cnt_def)

subsection \<open>The invariant\<close>

definition kc_wf :: "kv_cells \<Rightarrow> bool" where
  "kc_wf c \<longleftrightarrow>
     length (kc_shift c) = length (kc_pos c) \<and> length (kc_seq c) = length (kc_pos c) \<and>
     length (kc_seq_pos c) = LLAMA_MAX_SEQ \<and>
     kc_used c = {i. i < length (kc_pos c) \<and> kc_pos c ! i \<noteq> - 1} \<and>
     (\<forall>i < length (kc_pos c). - 1 \<le> kc_pos c ! i \<and> kc_seq c ! i \<subseteq> Collect seq_ok \<and>
        (kc_pos c ! i = - 1 \<longrightarrow> kc_seq c ! i = {} \<and> kc_shift c ! i = 0)) \<and>
     (\<forall>m \<in> set (kc_seq_pos c). cm_wf m) \<and>
     (\<forall>s. seq_ok s \<longrightarrow> (\<forall>p. cnt p (kc_seq_pos c ! nat s) = cell_cnt (kc_pos c) (kc_seq c) s p))"

named_theorems kc_ops "definitions of the cell operations"

lemma set_seq_ids [simp]: "set seq_ids = Collect seq_ok"
proof -
  have "s \<in> int ` {0..<64}" if "0 \<le> s" "s < 64" for s :: int
    by (rule image_eqI [of _ _ "nat s"]) (use that in auto)
  then show ?thesis by (auto simp: seq_ids_def seq_ok_def)
qed

lemma seq_ok_nat: "seq_ok s \<Longrightarrow> nat s < LLAMA_MAX_SEQ"
  by (auto simp: seq_ok_def)

lemma seq_ok_inj: "seq_ok s \<Longrightarrow> seq_ok t \<Longrightarrow> nat s = nat t \<longleftrightarrow> s = t"
  by (auto simp: seq_ok_def)

lemma kc_wfD:
  assumes "kc_wf c"
  shows kc_wf_len_shift: "length (kc_shift c) = length (kc_pos c)"
    and kc_wf_len_seq: "length (kc_seq c) = length (kc_pos c)"
    and kc_wf_len_sp: "length (kc_seq_pos c) = LLAMA_MAX_SEQ"
    and kc_wf_used: "kc_used c = {i. i < length (kc_pos c) \<and> kc_pos c ! i \<noteq> - 1}"
    and kc_wf_pos: "i < length (kc_pos c) \<Longrightarrow> - 1 \<le> kc_pos c ! i"
    and kc_wf_seq: "i < length (kc_pos c) \<Longrightarrow> s \<in> kc_seq c ! i \<Longrightarrow> seq_ok s"
    and kc_wf_empty_seq: "i < length (kc_pos c) \<Longrightarrow> kc_pos c ! i = - 1 \<Longrightarrow> kc_seq c ! i = {}"
    and kc_wf_empty_shift: "i < length (kc_pos c) \<Longrightarrow> kc_pos c ! i = - 1 \<Longrightarrow> kc_shift c ! i = 0"
    and kc_wf_tables: "\<forall>m \<in> set (kc_seq_pos c). cm_wf m"
    and kc_wf_cnt: "seq_ok s \<Longrightarrow> cnt p (kc_seq_pos c ! nat s) = cell_cnt (kc_pos c) (kc_seq c) s p"
  using assms unfolding kc_wf_def by auto

lemma kc_wf_in_seq: "kc_wf c \<Longrightarrow> i < length (kc_pos c) \<Longrightarrow> s \<in> kc_seq c ! i \<Longrightarrow> kc_pos c ! i \<noteq> - 1"
  using kc_wf_empty_seq by fastforce

text \<open>
  One cell is rewritten and the tables follow: the only proof obligation the operations leave.
\<close>

lemma kc_wf_write:
  assumes wf: "kc_wf c" and i: "i < length (kc_pos c)"
    and x: "- 1 \<le> x" "\<And>s. s \<in> b \<Longrightarrow> seq_ok s" "x = - 1 \<Longrightarrow> b = {}" "x = - 1 \<Longrightarrow> sh = 0"
    and c': "kc_pos c' = (kc_pos c)[i := x]" "kc_seq c' = (kc_seq c)[i := b]"
      "kc_shift c' = (kc_shift c)[i := sh]"
    and u: "kc_used c' = (if x = - 1 then kc_used c - {i} else insert i (kc_used c))"
    and t: "length (kc_seq_pos c') = LLAMA_MAX_SEQ" "\<forall>m \<in> set (kc_seq_pos c'). cm_wf m"
    and n: "\<And>s p. seq_ok s \<Longrightarrow> cnt p (kc_seq_pos c' ! nat s) = cnt p (kc_seq_pos c ! nat s)
        - (if s \<in> kc_seq c ! i \<and> p = kc_pos c ! i then 1 else 0) + (if s \<in> b \<and> p = x then 1 else 0)"
  shows "kc_wf c'"
proof -
  have "cnt p (kc_seq_pos c' ! nat s) = cell_cnt ((kc_pos c)[i := x]) ((kc_seq c)[i := b]) s p"
    if "seq_ok s" for s p
    using n [OF that, of p] kc_wf_cnt [OF wf that, of p]
      cell_cnt_update [OF i kc_wf_len_seq [OF wf], of x b s p] by auto
  moreover have "kc_used c' = {j. j < length (kc_pos c) \<and> (kc_pos c)[i := x] ! j \<noteq> - 1}"
    using u i kc_wf_used [OF wf] by (auto simp: nth_list_update)
  ultimately show ?thesis
    using kc_wfD [OF wf] i x t unfolding kc_wf_def c'
    by (auto simp: nth_list_update)
qed

lemma kc_used_insert:
  "kc_wf c \<Longrightarrow> i < length (kc_pos c) \<Longrightarrow> kc_pos c ! i \<noteq> - 1 \<Longrightarrow> insert i (kc_used c) = kc_used c"
  by (auto simp: kc_wf_used)

subsection \<open>The loops over sequence ids\<close>

lemma foldM_record:
  assumes "\<And>x t. f x (upd t) = map_option upd (g x t)"
  shows "foldM f xs (upd t) = map_option upd (foldM g xs t)"
  by (induction xs arbitrary: t) (auto simp: assms split: option.splits)

lemma foldM_map: "foldM f (map g xs) s = foldM (f \<circ> g) xs s"
  by (induction xs arbitrary: s) (auto split: option.splits)

lemma kc_seq_pos_rm_table:
  "kc_seq_pos_rm c i = map_option (\<lambda>t. c\<lparr>kc_seq_pos := t\<rparr>)
     (foldM (\<lambda>j ms. if j \<in> nat ` (kc_seq c ! i \<inter> Collect seq_ok)
                    then map_option (\<lambda>m. ms[j := m]) (cm_dec (kc_pos c ! i) (ms ! j)) else Some ms)
        [0..<LLAMA_MAX_SEQ] (kc_seq_pos c))"
proof -
  let ?f = "\<lambda>s d. if s \<in> kc_seq d ! i then kc_seq_pos_dec d s (kc_pos d ! i) else Some d"
  let ?g = "\<lambda>j ms. if j \<in> nat ` (kc_seq c ! i \<inter> Collect seq_ok)
      then map_option (\<lambda>m. ms[j := m]) (cm_dec (kc_pos c ! i) (ms ! j)) else Some ms"
  have "kc_seq_pos_rm c i = foldM ?f (map int [0..<LLAMA_MAX_SEQ]) (c\<lparr>kc_seq_pos := kc_seq_pos c\<rparr>)"
    by (simp add: kc_seq_pos_rm_def seq_ids_def)
  also have "\<dots> = map_option (\<lambda>t. c\<lparr>kc_seq_pos := t\<rparr>)
      (foldM (\<lambda>s ms. if s \<in> kc_seq c ! i then map_option (\<lambda>m. ms[nat s := m]) (cm_dec (kc_pos c ! i) (ms ! nat s)) else Some ms)
        (map int [0..<LLAMA_MAX_SEQ]) (kc_seq_pos c))"
    by (rule foldM_record) (auto simp: kc_seq_pos_dec_def map_option_case split: option.splits)
  also have "foldM (\<lambda>s ms. if s \<in> kc_seq c ! i then map_option (\<lambda>m. ms[nat s := m]) (cm_dec (kc_pos c ! i) (ms ! nat s)) else Some ms)
        (map int [0..<LLAMA_MAX_SEQ]) (kc_seq_pos c) = foldM ?g [0..<LLAMA_MAX_SEQ] (kc_seq_pos c)"
    unfolding foldM_map
  proof (rule foldM_cong)
    fix j :: nat and t :: "(int, int) omap list"
    assume "j \<in> set [0..<LLAMA_MAX_SEQ]"
    then have "int j \<in> kc_seq c ! i \<longleftrightarrow> j \<in> nat ` (kc_seq c ! i \<inter> Collect seq_ok)"
      by (auto simp: seq_ok_def image_iff intro: bexI [of _ "int j"])
    then show "((\<lambda>s ms. if s \<in> kc_seq c ! i then map_option (\<lambda>m. ms[nat s := m]) (cm_dec (kc_pos c ! i) (ms ! nat s))
        else Some ms) \<circ> int) j t = ?g j t"
      by simp
  qed
  finally show ?thesis .
qed

lemma kc_seq_pos_add_table:
  "kc_seq_pos_add c i = c\<lparr>kc_seq_pos :=
     fold (\<lambda>j ms. if j \<in> nat ` (kc_seq c ! i \<inter> Collect seq_ok) then ms[j := cm_inc (kc_pos c ! i) (ms ! j)] else ms)
        [0..<LLAMA_MAX_SEQ] (kc_seq_pos c)\<rparr>"
proof -
  let ?f = "\<lambda>s d. if s \<in> kc_seq d ! i then kc_seq_pos_inc d s (kc_pos d ! i) else d"
  let ?g = "\<lambda>s ms. if s \<in> kc_seq c ! i then ms[nat s := cm_inc (kc_pos c ! i) (ms ! nat s)] else ms"
  let ?h = "\<lambda>j ms. if j \<in> nat ` (kc_seq c ! i \<inter> Collect seq_ok) then ms[j := cm_inc (kc_pos c ! i) (ms ! j)] else ms"
  have "fold ?f xs (c\<lparr>kc_seq_pos := t\<rparr>) = c\<lparr>kc_seq_pos := fold ?g xs t\<rparr>" for xs t
    by (induction xs arbitrary: t) (auto simp: kc_seq_pos_inc_def)
  from this [of seq_ids "kc_seq_pos c"]
  have "kc_seq_pos_add c i = c\<lparr>kc_seq_pos := fold ?g (map int [0..<LLAMA_MAX_SEQ]) (kc_seq_pos c)\<rparr>"
    by (simp add: kc_seq_pos_add_def seq_ids_def)
  also have "fold ?g (map int [0..<LLAMA_MAX_SEQ]) (kc_seq_pos c) = fold ?h [0..<LLAMA_MAX_SEQ] (kc_seq_pos c)"
    unfolding fold_map
  proof (rule fold_cong [OF refl refl])
    fix j :: nat
    assume "j \<in> set [0..<LLAMA_MAX_SEQ]"
    then have "int j \<in> kc_seq c ! i \<longleftrightarrow> j \<in> nat ` (kc_seq c ! i \<inter> Collect seq_ok)"
      by (auto simp: seq_ok_def image_iff intro: bexI [of _ "int j"])
    then show "(?g \<circ> int) j = ?h j" by (simp add: fun_eq_iff)
  qed
  finally show ?thesis .
qed

lemma nat_seq_mem: "seq_ok s \<Longrightarrow> nat s \<in> nat ` (b \<inter> Collect seq_ok) \<longleftrightarrow> s \<in> b"
  by (auto simp: seq_ok_inj)

text \<open>Under the invariant the tables lose, or gain, one count per sequence of the cell.\<close>

lemma kc_seq_pos_rm_ok:
  assumes wf: "kc_wf c" and i: "i < length (kc_pos c)"
  obtains t where "kc_seq_pos_rm c i = Some (c\<lparr>kc_seq_pos := t\<rparr>)"
    and "length t = LLAMA_MAX_SEQ" and "\<forall>m \<in> set t. cm_wf m"
    and "\<And>s p. seq_ok s \<Longrightarrow> cnt p (t ! nat s) =
      cnt p (kc_seq_pos c ! nat s) - (if s \<in> kc_seq c ! i \<and> p = kc_pos c ! i then 1 else 0)"
proof -
  let ?J = "nat ` (kc_seq c ! i \<inter> Collect seq_ok)"
  have "0 < cnt (kc_pos c ! i) (kc_seq_pos c ! j)" if "j \<in> ?J" for j
  proof -
    from that obtain s where s: "s \<in> kc_seq c ! i" "seq_ok s" "j = nat s" by auto
    then show ?thesis using i by (auto simp: kc_wf_cnt [OF wf] cell_cnt_pos_iff)
  qed
  then obtain t where t: "kc_seq_pos_rm c i = Some (c\<lparr>kc_seq_pos := t\<rparr>)"
    and m: "cm.moved (- 1) (kc_pos c ! i) ?J LLAMA_MAX_SEQ (kc_seq_pos c) t"
    using cm.dec_loop [OF kc_wf_tables [OF wf], of LLAMA_MAX_SEQ ?J "kc_pos c ! i"]
    by (auto simp: kc_wf_len_sp [OF wf] kc_seq_pos_rm_table)
  show thesis
  proof (rule that [OF t])
    show "length t = LLAMA_MAX_SEQ" "\<forall>m \<in> set t. cm_wf m"
      using m by (auto simp: cm.moved_def kc_wf_len_sp [OF wf])
    fix s p
    assume s: "seq_ok s"
    show "cnt p (t ! nat s) = cnt p (kc_seq_pos c ! nat s) - (if s \<in> kc_seq c ! i \<and> p = kc_pos c ! i then 1 else 0)"
      using m seq_ok_nat [OF s] by (auto simp: cm.moved_def kc_wf_len_sp [OF wf] nat_seq_mem [OF s])
  qed
qed

lemma kc_seq_pos_add_ok:
  assumes "length (kc_seq_pos c) = LLAMA_MAX_SEQ" and "\<forall>m \<in> set (kc_seq_pos c). cm_wf m"
  obtains t where "kc_seq_pos_add c i = c\<lparr>kc_seq_pos := t\<rparr>"
    and "length t = LLAMA_MAX_SEQ" and "\<forall>m \<in> set t. cm_wf m"
    and "\<And>s p. seq_ok s \<Longrightarrow> cnt p (t ! nat s) =
      cnt p (kc_seq_pos c ! nat s) + (if s \<in> kc_seq c ! i \<and> p = kc_pos c ! i then 1 else 0)"
proof -
  let ?J = "nat ` (kc_seq c ! i \<inter> Collect seq_ok)"
  obtain t where t: "kc_seq_pos_add c i = c\<lparr>kc_seq_pos := t\<rparr>"
    and m: "cm.moved 1 (kc_pos c ! i) ?J LLAMA_MAX_SEQ (kc_seq_pos c) t"
    using cm.inc_loop [OF assms(2), of LLAMA_MAX_SEQ "kc_pos c ! i" ?J] assms(1)
    by (simp add: kc_seq_pos_add_table)
  show thesis
  proof (rule that [OF t])
    show "length t = LLAMA_MAX_SEQ" "\<forall>m \<in> set t. cm_wf m"
      using m assms by (auto simp: cm.moved_def)
    fix s p
    assume s: "seq_ok s"
    show "cnt p (t ! nat s) = cnt p (kc_seq_pos c ! nat s) + (if s \<in> kc_seq c ! i \<and> p = kc_pos c ! i then 1 else 0)"
      using m seq_ok_nat [OF s] assms by (auto simp: cm.moved_def nat_seq_mem [OF s])
  qed
qed

subsection \<open>One cell rewritten\<close>

text \<open>
  \<open>kc_writes c i x b sh c'\<close>: the well-formed \<open>c'\<close> is \<open>c\<close> with position \<open>x\<close>, sequences
  \<open>b\<close> and shift \<open>sh\<close> in cell \<open>i\<close>.
\<close>

definition kc_writes :: "kv_cells \<Rightarrow> nat \<Rightarrow> llama_pos \<Rightarrow> llama_seq_id set \<Rightarrow> llama_pos \<Rightarrow> kv_cells \<Rightarrow> bool" where
  "kc_writes c i x b sh c' \<longleftrightarrow> kc_wf c' \<and> kc_pos c' = (kc_pos c)[i := x] \<and>
     kc_seq c' = (kc_seq c)[i := b] \<and> kc_shift c' = (kc_shift c)[i := sh]"

lemma kc_writes_wf: "kc_writes c i x b sh c' \<Longrightarrow> kc_wf c'"
  by (simp add: kc_writes_def)

lemma kc_writes_size: "kc_writes c i x b sh c' \<Longrightarrow> length (kc_pos c') = length (kc_pos c)"
  by (simp add: kc_writes_def)

lemma kc_rm_ok:
  assumes wf: "kc_wf c" and i: "i < length (kc_pos c)" and p: "kc_pos c ! i \<noteq> - 1"
  obtains c' where "kc_rm c i = Some c'" and "kc_writes c i (- 1) {} 0 c'"
    and "kc_has_shift c' = kc_has_shift c"
proof -
  obtain t where t: "kc_seq_pos_rm c i = Some (c\<lparr>kc_seq_pos := t\<rparr>)" and t': "length t = LLAMA_MAX_SEQ"
    "\<forall>m \<in> set t. cm_wf m" "\<And>s p. seq_ok s \<Longrightarrow> cnt p (t ! nat s) =
      cnt p (kc_seq_pos c ! nat s) - (if s \<in> kc_seq c ! i \<and> p = kc_pos c ! i then 1 else 0)"
    using kc_seq_pos_rm_ok [OF wf i] by blast
  show thesis
  proof (rule that)
    show "kc_rm c i = Some (c\<lparr>kc_seq := (kc_seq c)[i := {}], kc_pos := (kc_pos c)[i := - 1],
        kc_shift := (kc_shift c)[i := 0], kc_used := kc_used c - {i}, kc_seq_pos := t\<rparr>)"
      using i p by (simp add: kc_rm_def t)
    show "kc_writes c i (- 1) {} 0 (c\<lparr>kc_seq := (kc_seq c)[i := {}], kc_pos := (kc_pos c)[i := - 1],
        kc_shift := (kc_shift c)[i := 0], kc_used := kc_used c - {i}, kc_seq_pos := t\<rparr>)"
      unfolding kc_writes_def
      by (auto intro: kc_wf_write [OF wf i, of "- 1" "{}" 0] simp: t')
  qed simp
qed

text \<open>A count that changes in one row of the tables.\<close>

lemma cnt_row_update:
  assumes "length sp = LLAMA_MAX_SEQ" "seq_ok s" "seq_ok r"
  shows "cnt p (sp[nat s := m] ! nat r) = (if r = s then cnt p m else cnt p (sp ! nat r))"
  using assms by (auto simp: seq_ok_def nth_list_update)

lemma all_row_update: "\<forall>m \<in> set sp. P m \<Longrightarrow> P m' \<Longrightarrow> \<forall>m \<in> set (sp[j := m']). P m"
  by (auto dest: set_update_subset_insert [THEN subsetD])

lemma cm_wf_row: "kc_wf c \<Longrightarrow> seq_ok s \<Longrightarrow> cm_wf (kc_seq_pos c ! nat s)"
  using kc_wf_tables kc_wf_len_sp seq_ok_nat by (metis nth_mem)

lemma kc_seq_rm_ok:
  assumes wf: "kc_wf c" and i: "i < length (kc_pos c)" and s: "s \<in> kc_seq c ! i"
  obtains c' where "kc_seq_rm c i s = Some (kc_seq c ! i = {s}, c')"
    and "if kc_seq c ! i = {s} then kc_writes c i (- 1) {} 0 c'
         else kc_writes c i (kc_pos c ! i) (kc_seq c ! i - {s}) (kc_shift c ! i) c'"
    and "kc_has_shift c' = kc_has_shift c"
proof -
  have ok: "seq_ok s" using kc_wf_seq [OF wf i s] .
  have p: "kc_pos c ! i \<noteq> - 1" using kc_wf_in_seq [OF wf i s] .
  have "0 < cnt (kc_pos c ! i) (kc_seq_pos c ! nat s)"
    using i s by (auto simp: kc_wf_cnt [OF wf ok] cell_cnt_pos_iff)
  then obtain m where m: "cm_dec (kc_pos c ! i) (kc_seq_pos c ! nat s) = Some m"
    using cm_dec_total [OF cm_wf_row [OF wf ok]] by blast
  define t where "t = (kc_seq_pos c)[nat s := m]"
  have t: "length t = LLAMA_MAX_SEQ" "\<forall>m \<in> set t. cm_wf m"
    using kc_wf_len_sp [OF wf] all_row_update [OF kc_wf_tables [OF wf]] cm_wf_dec [OF cm_wf_row [OF wf ok] m]
    by (auto simp: t_def)
  have n: "cnt p (t ! nat r) = cnt p (kc_seq_pos c ! nat r) - (if r = s \<and> p = kc_pos c ! i then 1 else 0)"
    if "seq_ok r" for r p
    using cnt_dec [OF cm_wf_row [OF wf ok] m, of p] cnt_row_update [OF kc_wf_len_sp [OF wf] ok that]
    by (auto simp: t_def)
  have li: "i < length (kc_seq c)" using i kc_wf_len_seq [OF wf] by simp
  show thesis
  proof (cases "kc_seq c ! i = {s}")
    case True
    show thesis
    proof (rule that)
      let ?c = "c\<lparr>kc_seq := (kc_seq c)[i := {}], kc_seq_pos := t, kc_pos := (kc_pos c)[i := - 1],
          kc_shift := (kc_shift c)[i := 0], kc_used := kc_used c - {i}\<rparr>"
      show "kc_seq_rm c i s = Some (kc_seq c ! i = {s}, ?c)"
        using i s p ok m True li by (simp add: kc_seq_rm_def kc_seq_pos_dec_def t_def)
      have "kc_writes c i (- 1) {} 0 ?c"
        unfolding kc_writes_def
        by (auto intro: kc_wf_write [OF wf i, of "- 1" "{}" 0] simp: t n True)
      then show "if kc_seq c ! i = {s} then kc_writes c i (- 1) {} 0 ?c
         else kc_writes c i (kc_pos c ! i) (kc_seq c ! i - {s}) (kc_shift c ! i) ?c"
        using True by simp
    qed simp
  next
    case False
    then have ne: "kc_seq c ! i - {s} \<noteq> {}" using s by blast
    show thesis
    proof (rule that)
      let ?c = "c\<lparr>kc_seq := (kc_seq c)[i := kc_seq c ! i - {s}], kc_seq_pos := t\<rparr>"
      show "kc_seq_rm c i s = Some (kc_seq c ! i = {s}, ?c)"
        using i s p ok m False ne li by (simp add: kc_seq_rm_def kc_seq_pos_dec_def t_def)
      have "kc_wf ?c"
        by (rule kc_wf_write [OF wf i, of "kc_pos c ! i" "kc_seq c ! i - {s}" "kc_shift c ! i"])
          (use p s kc_wf_pos [OF wf i] kc_wf_seq [OF wf i] in \<open>auto simp: t n kc_used_insert [OF wf i]\<close>)
      then have "kc_writes c i (kc_pos c ! i) (kc_seq c ! i - {s}) (kc_shift c ! i) ?c"
        by (simp add: kc_writes_def)
      then show "if kc_seq c ! i = {s} then kc_writes c i (- 1) {} 0 ?c
         else kc_writes c i (kc_pos c ! i) (kc_seq c ! i - {s}) (kc_shift c ! i) ?c"
        using False by simp
    qed simp
  qed
qed

text \<open>A cell is taken out of the tables and put back with other content.\<close>

lemma cnt_row_inc:
  assumes "length sp = LLAMA_MAX_SEQ" "seq_ok s" "seq_ok r"
  shows "cnt p (sp[nat s := cm_inc x (sp ! nat s)] ! nat r) =
    cnt p (sp ! nat r) + (if r = s \<and> p = x then 1 else 0)"
  using cnt_row_update [OF assms] by (simp add: cnt_inc)

lemma kc_seq_keep_in:
  assumes wf: "kc_wf c" and i: "i < length (kc_pos c)" and s: "s \<in> kc_seq c ! i"
  obtains c' where "kc_seq_keep c i s = Some (False, c')"
    and "kc_writes c i (kc_pos c ! i) {s} (kc_shift c ! i) c'"
    and "kc_has_shift c' = kc_has_shift c"
proof -
  have ok: "seq_ok s" using kc_wf_seq [OF wf i s] .
  have p: "kc_pos c ! i \<noteq> - 1" using kc_wf_in_seq [OF wf i s] .
  obtain t where t: "kc_seq_pos_rm c i = Some (c\<lparr>kc_seq_pos := t\<rparr>)" and t': "length t = LLAMA_MAX_SEQ"
    "\<forall>m \<in> set t. cm_wf m" "\<And>s p. seq_ok s \<Longrightarrow> cnt p (t ! nat s) =
      cnt p (kc_seq_pos c ! nat s) - (if s \<in> kc_seq c ! i \<and> p = kc_pos c ! i then 1 else 0)"
    using kc_seq_pos_rm_ok [OF wf i] by blast
  let ?t = "t[nat s := cm_inc (kc_pos c ! i) (t ! nat s)]"
  let ?c = "c\<lparr>kc_seq := (kc_seq c)[i := {s}], kc_seq_pos := ?t\<rparr>"
  have row: "cm_wf (t ! nat s)" using t'(1,2) seq_ok_nat [OF ok] by (metis nth_mem)
  have tab: "\<forall>m \<in> set ?t. cm_wf m" by (rule all_row_update [OF t'(2) cm_wf_inc [OF row]])
  have "kc_wf ?c"
    by (rule kc_wf_write [OF wf i, of "kc_pos c ! i" "{s}" "kc_shift c ! i"])
      (use p ok kc_wf_pos [OF wf i] t' tab in
        \<open>simp_all add: kc_used_insert [OF wf i] cnt_row_inc [OF t'(1) ok]\<close>)
  then have w: "kc_writes c i (kc_pos c ! i) {s} (kc_shift c ! i) ?c"
    by (simp add: kc_writes_def)
  show thesis
    by (rule that [OF _ w]) (use i s ok t in \<open>simp_all add: kc_seq_keep_def kc_seq_pos_inc_def\<close>)
qed

lemma kc_seq_keep_out:
  assumes wf: "kc_wf c" and i: "i < length (kc_pos c)" and ok: "seq_ok s"
    and s: "s \<notin> kc_seq c ! i" "kc_seq c ! i \<noteq> {}"
  obtains c' where "kc_seq_keep c i s = Some (True, c')"
    and "kc_writes c i (- 1) {} 0 c'" and "kc_has_shift c' = kc_has_shift c"
proof -
  have p: "kc_pos c ! i \<noteq> - 1" using kc_wf_in_seq [OF wf i] s(2) by blast
  have "kc_seq_keep c i s = map_option (\<lambda>c. (True, c)) (kc_rm c i)"
    using i ok s p by (simp add: kc_seq_keep_def kc_rm_def map_option_case split: bind_split option.split)
  then show thesis using kc_rm_ok [OF wf i p] that by fastforce
qed

lemma kc_seq_keep_empty:
  assumes "kc_wf c" "i < length (kc_pos c)" "seq_ok s" "kc_pos c ! i = - 1"
  shows "kc_seq_keep c i s = Some (False, c)"
  using assms kc_wf_empty_seq by (simp add: kc_seq_keep_def)

lemma kc_seq_add_ok:
  assumes wf: "kc_wf c" and i: "i < length (kc_pos c)" and p: "kc_pos c ! i \<noteq> - 1"
    and ok: "seq_ok s" and s: "s \<notin> kc_seq c ! i"
  obtains c' where "kc_seq_add c i s = Some c'"
    and "kc_writes c i (kc_pos c ! i) (insert s (kc_seq c ! i)) (kc_shift c ! i) c'"
    and "kc_has_shift c' = kc_has_shift c"
proof -
  let ?t = "(kc_seq_pos c)[nat s := cm_inc (kc_pos c ! i) (kc_seq_pos c ! nat s)]"
  let ?c = "c\<lparr>kc_seq := (kc_seq c)[i := insert s (kc_seq c ! i)], kc_seq_pos := ?t\<rparr>"
  have tab: "\<forall>m \<in> set ?t. cm_wf m"
    by (rule all_row_update [OF kc_wf_tables [OF wf] cm_wf_inc [OF cm_wf_row [OF wf ok]]])
  have "kc_wf ?c"
    by (rule kc_wf_write [OF wf i, of "kc_pos c ! i" "insert s (kc_seq c ! i)" "kc_shift c ! i"])
      (use p ok s kc_wf_pos [OF wf i] kc_wf_seq [OF wf i] kc_wf_len_sp [OF wf] tab in
        \<open>auto simp: kc_used_insert [OF wf i] cnt_row_inc [OF kc_wf_len_sp [OF wf] ok]\<close>)
  then have w: "kc_writes c i (kc_pos c ! i) (insert s (kc_seq c ! i)) (kc_shift c ! i) ?c"
    by (simp add: kc_writes_def)
  show thesis
    by (rule that [OF _ w]) (use i s ok p in \<open>simp_all add: kc_seq_add_def kc_seq_pos_inc_def\<close>)
qed

lemma kc_pos_set_ok:
  assumes wf: "kc_wf c" and i: "i < length (kc_pos c)" and e: "kc_pos c ! i = - 1" and p: "0 \<le> p"
  obtains c' where "kc_pos_set c i p = Some c'" and "kc_writes c i p {} 0 c'"
    and "kc_has_shift c' = kc_has_shift c"
proof -
  have q: "kc_seq c ! i = {}" "kc_shift c ! i = 0"
    using kc_wf_empty_seq [OF wf i e] kc_wf_empty_shift [OF wf i e] by auto
  let ?c = "c\<lparr>kc_pos := (kc_pos c)[i := p], kc_used := insert i (kc_used c)\<rparr>"
  have same: "(kc_seq c)[i := {}] = kc_seq c" "(kc_shift c)[i := 0] = kc_shift c"
    using q by (metis list_update_id)+
  have "kc_wf ?c"
    by (rule kc_wf_write [OF wf i, of p "{}" 0])
      (use p q same kc_wf_tables [OF wf] kc_wf_len_sp [OF wf] in auto)
  then have w: "kc_writes c i p {} 0 ?c"
    by (simp add: kc_writes_def same)
  show thesis
    by (rule that [OF _ w]) (use i e q in \<open>simp_all add: kc_pos_set_def\<close>)
qed

text \<open>
  The pattern of \<open>pos_add\<close>, \<open>pos_div\<close> and \<open>set\<close>: the cell leaves the tables, its fields are
  rewritten, and it enters the tables again.
\<close>

lemma kc_rewrite_ok:
  assumes wf: "kc_wf c" and i: "i < length (kc_pos c)"
    and x: "- 1 \<le> x" "x \<noteq> - 1" "\<And>s. s \<in> b \<Longrightarrow> seq_ok s"
    and t: "length (kc_seq_pos e) = LLAMA_MAX_SEQ" "\<forall>m \<in> set (kc_seq_pos e). cm_wf m"
      "\<And>s p. seq_ok s \<Longrightarrow> cnt p (kc_seq_pos e ! nat s) =
        cnt p (kc_seq_pos c ! nat s) - (if s \<in> kc_seq c ! i \<and> p = kc_pos c ! i then 1 else 0)"
    and e: "kc_pos e = (kc_pos c)[i := x]" "kc_seq e = (kc_seq c)[i := b]"
      "kc_shift e = (kc_shift c)[i := sh]" "kc_used e = insert i (kc_used c)"
  shows "kc_writes c i x b sh (kc_seq_pos_add e i) \<and> kc_has_shift (kc_seq_pos_add e i) = kc_has_shift e"
proof -
  have li: "i < length (kc_seq c)" using i kc_wf_len_seq [OF wf] by simp
  obtain u where u: "kc_seq_pos_add e i = e\<lparr>kc_seq_pos := u\<rparr>" "length u = LLAMA_MAX_SEQ" "\<forall>m \<in> set u. cm_wf m"
    "\<And>s p. seq_ok s \<Longrightarrow> cnt p (u ! nat s) = cnt p (kc_seq_pos e ! nat s) + (if s \<in> b \<and> p = x then 1 else 0)"
    using kc_seq_pos_add_ok [of e i] t(1,2) i li e by auto
  have "kc_wf (e\<lparr>kc_seq_pos := u\<rparr>)"
    by (rule kc_wf_write [OF wf i, of x b sh]) (use x e u(2-) t(3) in simp_all)
  then show ?thesis by (simp add: kc_writes_def u(1) e)
qed

lemma kc_wf_has_shift [simp]: "kc_wf (c\<lparr>kc_has_shift := h\<rparr>) \<longleftrightarrow> kc_wf c"
  by (simp add: kc_wf_def)

lemma kc_pos_add_neg:
  assumes wf: "kc_wf c" and i: "i < length (kc_pos c)" and p: "kc_pos c ! i \<noteq> - 1"
    and o: "i32_ok (kc_pos c ! i + d)" "i32_ok (kc_shift c ! i + d)"
    and n: "kc_pos c ! i + d < 0"
  obtains c' where "kc_pos_add c i d = Some (True, c')"
    and "kc_writes c i (- 1) {} 0 c'" and "kc_has_shift c'"
proof -
  obtain t where t: "kc_seq_pos_rm c i = Some (c\<lparr>kc_seq_pos := t\<rparr>)" and t': "length t = LLAMA_MAX_SEQ"
    "\<forall>m \<in> set t. cm_wf m" "\<And>s p. seq_ok s \<Longrightarrow> cnt p (t ! nat s) =
      cnt p (kc_seq_pos c ! nat s) - (if s \<in> kc_seq c ! i \<and> p = kc_pos c ! i then 1 else 0)"
    using kc_seq_pos_rm_ok [OF wf i] by blast
  let ?c = "c\<lparr>kc_pos := (kc_pos c)[i := - 1], kc_shift := (kc_shift c)[i := 0], kc_has_shift := True,
      kc_seq := (kc_seq c)[i := {}], kc_used := kc_used c - {i}, kc_seq_pos := t\<rparr>"
  have "kc_wf ?c"
    by (rule kc_wf_write [OF wf i, of "- 1" "{}" 0]) (simp_all add: t')
  then have w: "kc_writes c i (- 1) {} 0 ?c" by (simp add: kc_writes_def)
  show thesis
    by (rule that [OF _ w]) (use i p o n t in \<open>simp_all add: kc_pos_add_def\<close>)
qed

lemma kc_pos_add_ok:
  assumes wf: "kc_wf c" and i: "i < length (kc_pos c)" and p: "kc_pos c ! i \<noteq> - 1"
    and o: "i32_ok (kc_pos c ! i + d)" "i32_ok (kc_shift c ! i + d)"
    and n: "0 \<le> kc_pos c ! i + d"
  obtains c' where "kc_pos_add c i d = Some (False, c')"
    and "kc_writes c i (kc_pos c ! i + d) (kc_seq c ! i) (kc_shift c ! i + d) c'" and "kc_has_shift c'"
proof -
  obtain t where t: "kc_seq_pos_rm c i = Some (c\<lparr>kc_seq_pos := t\<rparr>)" and t': "length t = LLAMA_MAX_SEQ"
    "\<forall>m \<in> set t. cm_wf m" "\<And>s p. seq_ok s \<Longrightarrow> cnt p (t ! nat s) =
      cnt p (kc_seq_pos c ! nat s) - (if s \<in> kc_seq c ! i \<and> p = kc_pos c ! i then 1 else 0)"
    using kc_seq_pos_rm_ok [OF wf i] by blast
  let ?c = "c\<lparr>kc_seq_pos := t, kc_pos := (kc_pos c)[i := kc_pos c ! i + d],
      kc_shift := (kc_shift c)[i := kc_shift c ! i + d], kc_has_shift := True\<rparr>"
  have w: "kc_writes c i (kc_pos c ! i + d) (kc_seq c ! i) (kc_shift c ! i + d) (kc_seq_pos_add ?c i) \<and>
      kc_has_shift (kc_seq_pos_add ?c i) = kc_has_shift ?c"
    by (rule kc_rewrite_ok [OF wf i])
      (use n kc_wf_seq [OF wf i] t' in \<open>simp_all add: kc_used_insert [OF wf i p]\<close>)
  show thesis
    by (rule that [of "kc_seq_pos_add ?c i"]) (use i p o n t w in \<open>simp_all add: kc_pos_add_def\<close>)
qed

lemma kc_pos_div_ok:
  assumes wf: "kc_wf c" and i: "i < length (kc_pos c)" and p: "kc_pos c ! i \<noteq> - 1"
    and d: "0 < d"
    and o: "i32_ok (kc_pos c ! i)" "i32_ok (kc_shift c ! i + (kc_pos c ! i - kc_pos c ! i div d))"
  obtains c' where "kc_pos_div c i d = Some c'"
    and "kc_writes c i (kc_pos c ! i div d) (kc_seq c ! i) (kc_shift c ! i + (kc_pos c ! i - kc_pos c ! i div d)) c'"
    and "kc_has_shift c'"
proof -
  have p0: "0 \<le> kc_pos c ! i" using kc_wf_pos [OF wf i] p by simp
  note q = cdiv_nonneg [OF p0 d] cdiv_nonneg_bounds [OF p0 d]
  have ok: "i32_ok (kc_pos c ! i div d)" "i32_ok (kc_pos c ! i - kc_pos c ! i div d)"
    using q o(1) by (auto simp: i32_ok_def INT32_MIN_def)
  obtain t where t: "kc_seq_pos_rm c i = Some (c\<lparr>kc_seq_pos := t\<rparr>)" and t': "length t = LLAMA_MAX_SEQ"
    "\<forall>m \<in> set t. cm_wf m" "\<And>s p. seq_ok s \<Longrightarrow> cnt p (t ! nat s) =
      cnt p (kc_seq_pos c ! nat s) - (if s \<in> kc_seq c ! i \<and> p = kc_pos c ! i then 1 else 0)"
    using kc_seq_pos_rm_ok [OF wf i] by blast
  let ?x = "kc_pos c ! i div d" and ?sh = "kc_shift c ! i + (kc_pos c ! i - kc_pos c ! i div d)"
  let ?c = "c\<lparr>kc_seq_pos := t, kc_pos := (kc_pos c)[i := ?x], kc_shift := (kc_shift c)[i := ?sh]\<rparr>"
  have w: "kc_writes c i ?x (kc_seq c ! i) ?sh (kc_seq_pos_add ?c i) \<and>
      kc_has_shift (kc_seq_pos_add ?c i) = kc_has_shift ?c"
    by (rule kc_rewrite_ok [OF wf i])
      (use q kc_wf_seq [OF wf i] t' in \<open>auto simp: kc_used_insert [OF wf i p]\<close>)
  then have w': "kc_writes c i ?x (kc_seq c ! i) ?sh (kc_seq_pos_add ?c i\<lparr>kc_has_shift := True\<rparr>)"
    by (simp add: kc_writes_def)
  show thesis
    by (rule that [OF _ w']) (use i p o d t q(1) ok in \<open>simp_all add: kc_pos_div_def Let_def\<close>)
qed

subsection \<open>Moving, copying and restoring cells\<close>

lemma kc_mv_ok:
  assumes wf: "kc_wf c" and r: "a < length (kc_pos c)" "d < length (kc_pos c)"
    and p: "kc_pos c ! d = - 1" "kc_pos c ! a \<noteq> - 1"
  obtains c' where "kc_mv c a d = Some c'" and "kc_wf c'"
    and "kc_pos c' = (kc_pos c)[d := kc_pos c ! a, a := - 1]"
    and "kc_seq c' = (kc_seq c)[d := kc_seq c ! a, a := {}]"
    and "kc_shift c' = (kc_shift c)[d := kc_shift c ! a, a := 0]"
    and "kc_seq_pos c' = kc_seq_pos c"
proof -
  let ?c = "c\<lparr>kc_pos := (kc_pos c)[d := kc_pos c ! a, a := - 1],
             kc_shift := (kc_shift c)[d := kc_shift c ! a, a := 0],
             kc_seq := (kc_seq c)[d := kc_seq c ! a, a := {}],
             kc_used := insert d (kc_used c - {a})\<rparr>"
  have ne: "a \<noteq> d" using p by auto
  have "cell_cnt ((kc_pos c)[d := kc_pos c ! a, a := - 1]) ((kc_seq c)[d := kc_seq c ! a, a := {}]) s q
      = cell_cnt (kc_pos c) (kc_seq c) s q" for s q
    using r ne p kc_wf_len_seq [OF wf] kc_wf_empty_seq [OF wf r(2) p(1)] by (simp add: cell_cnt_update)
  then have "kc_wf ?c"
    using kc_wfD [OF wf] r p ne unfolding kc_wf_def by (auto simp: nth_list_update)
  then show thesis
    by (rule that [rotated]) (use r p in \<open>simp_all add: kc_mv_def\<close>)
qed

text \<open>What \<open>set\<close> asks of the saved cells.\<close>

definition cell_ok :: "llama_pos \<Rightarrow> llama_seq_id set \<Rightarrow> bool" where
  "cell_ok x b \<longleftrightarrow> - 1 \<le> x \<and> b \<subseteq> Collect seq_ok \<and> (x = - 1 \<longrightarrow> b = {})"

lemma kc_wf_cell_ok: "kc_wf c \<Longrightarrow> i < length (kc_pos c) \<Longrightarrow> cell_ok (kc_pos c ! i) (kc_seq c ! i)"
  by (auto simp: cell_ok_def kc_wf_def)

lemma kc_seq_pos_rm_used:
  "kc_seq_pos_rm (c\<lparr>kc_used := u\<rparr>) i = map_option (\<lambda>d. d\<lparr>kc_used := u\<rparr>) (kc_seq_pos_rm c i)"
  unfolding kc_seq_pos_rm_table option.map_comp comp_def by (auto intro!: option.map_cong cong: if_cong)

lemma kc_set_cell_ok:
  assumes wf: "kc_wf c" and i: "i < length (kc_pos c)" and sh: "kc_shift c ! i = 0"
    and ok: "cell_ok (kc_pos other ! j) (kc_seq other ! j)"
  obtains c' where "kc_set_cell other i j c = Some c'"
    and "kc_writes c i (kc_pos other ! j) (kc_seq other ! j) 0 c'" and "kc_has_shift c' = kc_has_shift c"
proof -
  let ?x = "kc_pos other ! j" and ?b = "kc_seq other ! j"
  define u where "u = (if ?x = - 1 then kc_used c - {i} else insert i (kc_used c))"
  have x: "- 1 \<le> ?x" "\<And>s. s \<in> ?b \<Longrightarrow> seq_ok s" "?x = - 1 \<Longrightarrow> ?b = {}"
    using ok by (auto simp: cell_ok_def)
  obtain t where t: "(if kc_pos c ! i \<noteq> - 1 then kc_seq_pos_rm (c\<lparr>kc_used := u\<rparr>) i else Some (c\<lparr>kc_used := u\<rparr>))
        = Some (c\<lparr>kc_used := u, kc_seq_pos := t\<rparr>)"
    and t': "length t = LLAMA_MAX_SEQ" "\<forall>m \<in> set t. cm_wf m"
      "\<And>s p. seq_ok s \<Longrightarrow> cnt p (t ! nat s) =
        cnt p (kc_seq_pos c ! nat s) - (if s \<in> kc_seq c ! i \<and> p = kc_pos c ! i then 1 else 0)"
  proof (cases "kc_pos c ! i = - 1")
    case True
    show thesis
      by (rule that [of "kc_seq_pos c"])
        (use True kc_wf_empty_seq [OF wf i True] kc_wf_len_sp [OF wf] kc_wf_tables [OF wf] in auto)
  next
    case False
    obtain t where t: "kc_seq_pos_rm c i = Some (c\<lparr>kc_seq_pos := t\<rparr>)" and t': "length t = LLAMA_MAX_SEQ"
      "\<forall>m \<in> set t. cm_wf m" "\<And>s p. seq_ok s \<Longrightarrow> cnt p (t ! nat s) =
        cnt p (kc_seq_pos c ! nat s) - (if s \<in> kc_seq c ! i \<and> p = kc_pos c ! i then 1 else 0)"
      using kc_seq_pos_rm_ok [OF wf i] by blast
    have "kc_seq_pos_rm (c\<lparr>kc_used := u\<rparr>) i = Some (c\<lparr>kc_used := u, kc_seq_pos := t\<rparr>)"
      by (simp add: kc_seq_pos_rm_used t)
    then show thesis using that [of t] t' False by simp
  qed
  have used: "(let c = (if kc_pos c ! i = - 1 \<and> ?x \<noteq> - 1 then c\<lparr>kc_used := insert i (kc_used c)\<rparr> else c)
      in if kc_pos c ! i \<noteq> - 1 \<and> ?x = - 1 then c\<lparr>kc_used := kc_used c - {i}\<rparr> else c) = c\<lparr>kc_used := u\<rparr>"
    using i kc_wf_used [OF wf] kc_used_insert [OF wf i] by (auto simp: u_def Let_def)
  let ?c = "c\<lparr>kc_used := u, kc_seq_pos := t, kc_pos := (kc_pos c)[i := ?x], kc_seq := (kc_seq c)[i := ?b]\<rparr>"
  have shs: "(kc_shift c)[i := 0] = kc_shift c" using sh by (metis list_update_id)
  have add_shift: "kc_shift (kc_seq_pos_add d i) = kc_shift d" for d
    by (simp add: kc_seq_pos_add_table)
  have eq: "kc_set_cell other i j c = Some (if ?x \<noteq> - 1 then kc_seq_pos_add ?c i else ?c)"
  proof -
    have "kc_set_cell other i j c = (do {
        c \<leftarrow> (if kc_pos c ! i \<noteq> - 1 then kc_seq_pos_rm (c\<lparr>kc_used := u\<rparr>) i else Some (c\<lparr>kc_used := u\<rparr>));
        let c = c\<lparr>kc_pos := (kc_pos c)[i := ?x], kc_seq := (kc_seq c)[i := ?b]\<rparr>;
        let c = (if kc_pos c ! i \<noteq> - 1 then kc_seq_pos_add c i else c);
        guard (kc_shift c ! i = 0);
        Some c })"
      using i unfolding kc_set_cell_def used [symmetric] by (auto simp: Let_def)
    also have "\<dots> = Some (if ?x \<noteq> - 1 then kc_seq_pos_add ?c i else ?c)"
      unfolding t using i sh by (simp add: Let_def add_shift)
    finally show ?thesis .
  qed
  show thesis
  proof (cases "?x = - 1")
    case True
    have "kc_wf ?c"
      by (rule kc_wf_write [OF wf i, of "- 1" "{}" 0]) (use True x(3) t' shs in \<open>simp_all add: u_def\<close>)
    then have w: "kc_writes c i ?x ?b 0 ?c" by (simp add: kc_writes_def shs)
    show thesis by (rule that [OF _ w]) (use eq True in simp_all)
  next
    case False
    have w: "kc_writes c i ?x ?b 0 (kc_seq_pos_add ?c i) \<and> kc_has_shift (kc_seq_pos_add ?c i) = kc_has_shift ?c"
      by (rule kc_rewrite_ok [OF wf i]) (use x False t' shs in \<open>simp_all add: u_def\<close>)
    show thesis by (rule that [of "kc_seq_pos_add ?c i"]) (use w eq False in simp_all)
  qed
qed

text \<open>\<open>cp\<close> saves the positions and sequences of the listed cells.\<close>

lemma kc_resize_empty [simp]:
  "kc_pos (kc_resize kc_empty n) = replicate n (- 1)"
  "kc_seq (kc_resize kc_empty n) = replicate n {}"
  by (simp_all add: kc_resize_def kc_reset_def kc_empty_def vresize_def map_replicate_const)

lemma take_update_extend: "i < length xs \<Longrightarrow> take (Suc i) (xs[i := x]) = take i xs @ [x]"
  by (simp add: take_Suc_conv_app_nth)

lemma kc_cp_ok:
  assumes "\<forall>i \<in> set idxs. i < length (kc_pos c) \<and> kc_shift c ! i = 0"
  obtains r where "kc_cp c idxs = Some r" and "kc_pos r = map ((!) (kc_pos c)) idxs"
    and "kc_seq r = map ((!) (kc_seq c)) idxs"
proof -
  let ?n = "length idxs"
  let ?P = "\<lambda>k (r :: kv_cells). length (kc_pos r) = ?n \<and> length (kc_seq r) = ?n \<and>
      take k (kc_pos r) = map ((!) (kc_pos c)) (take k idxs) \<and> take k (kc_seq r) = map ((!) (kc_seq c)) (take k idxs)"
  have "\<exists>r. foldM (\<lambda>j res. kc_cp_cell c (idxs ! j) j res) [0..<?n] (kc_resize kc_empty ?n) = Some r \<and> ?P ?n r"
  proof (rule foldM_upt_rule [where P = ?P])
    show "?P 0 (kc_resize kc_empty ?n)" by simp
  next
    fix i t
    assume i: "i < ?n" and t: "?P i t"
    have "kc_cp_cell c (idxs ! i) i t = Some (t\<lparr>kc_pos := (kc_pos t)[i := kc_pos c ! (idxs ! i)],
        kc_seq := (kc_seq t)[i := kc_seq c ! (idxs ! i)]\<rparr>)"
      using assms i by (simp add: kc_cp_cell_def)
    then show "\<exists>t'. kc_cp_cell c (idxs ! i) i t = Some t' \<and> ?P (Suc i) t'"
      using t i by (simp add: take_update_extend take_Suc_conv_app_nth [of i idxs])
  qed
  then obtain r where r: "kc_cp c idxs = Some r" "?P ?n r" by (auto simp: kc_cp_def)
  show thesis by (rule that [OF r(1)]) (use r(2) in auto)
qed

text \<open>
  \<open>set\<close> writes the saved cells to the listed indices, one after the other; the other cells
  keep their content.
\<close>

lemma kc_set_ok:
  assumes wf: "kc_wf c" and len: "length idxs = length (kc_pos other)"
    and r: "\<forall>i \<in> set idxs. i < length (kc_pos c) \<and> kc_shift c ! i = 0"
    and ok: "\<forall>j < length idxs. cell_ok (kc_pos other ! j) (kc_seq other ! j)"
  obtains c' where "kc_set c idxs other = Some c'" and "kc_wf c'"
    and "kc_pos c' = fold (\<lambda>j ps. ps[idxs ! j := kc_pos other ! j]) [0..<length idxs] (kc_pos c)"
    and "kc_seq c' = fold (\<lambda>j qs. qs[idxs ! j := kc_seq other ! j]) [0..<length idxs] (kc_seq c)"
    and "kc_shift c' = kc_shift c" and "kc_has_shift c' = kc_has_shift c"
proof -
  let ?n = "length idxs"
  let ?P = "\<lambda>k (d :: kv_cells). kc_wf d \<and> kc_shift d = kc_shift c \<and> kc_has_shift d = kc_has_shift c \<and>
      length (kc_pos d) = length (kc_pos c) \<and>
      kc_pos d = fold (\<lambda>j ps. ps[idxs ! j := kc_pos other ! j]) [0..<k] (kc_pos c) \<and>
      kc_seq d = fold (\<lambda>j qs. qs[idxs ! j := kc_seq other ! j]) [0..<k] (kc_seq c)"
  have "\<exists>d. foldM (\<lambda>j c. kc_set_cell other (idxs ! j) j c) [0..<?n] c = Some d \<and> ?P ?n d"
  proof (rule foldM_upt_rule [where P = ?P])
    show "?P 0 c" using wf by simp
  next
    fix i d
    assume i: "i < ?n" and d: "?P i d"
    have id: "idxs ! i < length (kc_pos d)" and sh: "kc_shift d ! (idxs ! i) = 0"
      using r i d by auto
    obtain d' where d': "kc_set_cell other (idxs ! i) i d = Some d'"
      "kc_writes d (idxs ! i) (kc_pos other ! i) (kc_seq other ! i) 0 d'" "kc_has_shift d' = kc_has_shift d"
      using kc_set_cell_ok [OF _ id sh, of other i] d ok i by blast
    moreover have "(kc_shift d)[idxs ! i := 0] = kc_shift d" using sh by (metis list_update_id)
    ultimately show "\<exists>t. kc_set_cell other (idxs ! i) i d = Some t \<and> ?P (Suc i) t"
      using d by (simp add: kc_writes_def)
  qed
  then show thesis using that len by (auto simp: kc_set_def)
qed

subsection \<open>Creation and reset\<close>

lemma kc_wf_fresh:
  assumes "kc_pos c = replicate n (- 1)" "kc_seq c = replicate n {}" "kc_shift c = replicate n 0"
    "kc_used c = {}" "kc_seq_pos c = replicate LLAMA_MAX_SEQ []"
  shows "kc_wf c"
  using assms by (auto simp: kc_wf_def cell_cnt_fresh seq_ok_def nth_replicate)

lemma kc_wf_reset: "kc_wf c \<Longrightarrow> kc_wf (kc_reset c)"
  by (rule kc_wf_fresh [where n = "length (kc_pos c)"])
    (simp_all add: kc_reset_def map_replicate_const kc_wf_len_seq kc_wf_len_shift kc_wf_len_sp)

lemma kc_wf_resize: "kc_wf (kc_resize kc_empty n)"
  by (rule kc_wf_fresh [where n = n])
    (simp_all add: kc_resize_def kc_reset_def kc_empty_def vresize_def map_replicate_const)

lemma kc_wf_reset_shift: "kc_wf c \<Longrightarrow> kc_wf (kc_reset_shift c)"
  by (simp add: kc_wf_def kc_reset_shift_def)

subsection \<open>The redundant members are determined by the primary ones\<close>

lemma kc_ext:
  assumes wf: "kc_wf c" "kc_wf d"
    and eq: "kc_pos c = kc_pos d" "kc_seq c = kc_seq d" "kc_shift c = kc_shift d" "kc_has_shift c = kc_has_shift d"
  shows "c = d"
proof -
  have "kc_seq_pos c = kc_seq_pos d"
  proof (rule nth_equalityI)
    show "length (kc_seq_pos c) = length (kc_seq_pos d)"
      by (simp add: kc_wf_len_sp wf)
    fix j
    assume "j < length (kc_seq_pos c)"
    then have j: "seq_ok (int j)" by (simp add: seq_ok_def kc_wf_len_sp wf)
    show "kc_seq_pos c ! j = kc_seq_pos d ! j"
      using cm_wf_row [OF wf(1) j] cm_wf_row [OF wf(2) j] kc_wf_cnt [OF wf(1) j] kc_wf_cnt [OF wf(2) j] eq
      by (intro cm_ext) auto
  qed
  moreover have "kc_used c = kc_used d"
    by (simp add: kc_wf_used wf eq)
  ultimately show ?thesis using eq by simp
qed

subsection \<open>Queries\<close>

text \<open>The positions a sequence has in the cells.\<close>

definition kc_positions :: "kv_cells \<Rightarrow> llama_seq_id \<Rightarrow> llama_pos set" where
  "kc_positions c s = {kc_pos c ! i | i. i < length (kc_pos c) \<and> s \<in> kc_seq c ! i}"

lemma kc_positions_code [code]:
  "kc_positions c s = (\<lambda>i. kc_pos c ! i) ` set (filter (\<lambda>i. s \<in> kc_seq c ! i) [0..<length (kc_pos c)])"
  by (auto simp: kc_positions_def)

lemma kc_positionsI: "i < length (kc_pos c) \<Longrightarrow> s \<in> kc_seq c ! i \<Longrightarrow> kc_pos c ! i \<in> kc_positions c s"
  by (auto simp: kc_positions_def)

lemma finite_kc_positions [simp]: "finite (kc_positions c s)"
proof -
  have "kc_positions c s \<subseteq> set (kc_pos c)" by (auto simp: kc_positions_def)
  then show ?thesis by (rule finite_subset) simp
qed

lemma kc_positions_nonneg:
  assumes "kc_wf c" "p \<in> kc_positions c s"
  shows "0 \<le> p"
proof -
  obtain i where i: "i < length (kc_pos c)" "s \<in> kc_seq c ! i" "p = kc_pos c ! i"
    using assms(2) by (auto simp: kc_positions_def)
  then show ?thesis using kc_wf_pos [OF assms(1) i(1)] kc_wf_in_seq [OF assms(1) i(1,2)] by simp
qed

lemma kc_row_keys: "kc_wf c \<Longrightarrow> seq_ok s \<Longrightarrow> om_keys (kc_seq_pos c ! nat s) = kc_positions c s"
  by (auto simp: kc_positions_def cnt_pos_iff [OF cm_wf_row, symmetric] kc_wf_cnt cell_cnt_pos_iff)

lemma om_hd_eq_Min: "om_sorted m \<Longrightarrow> m \<noteq> [] \<Longrightarrow> fst (hd m) = Min (om_keys m)"
  by (rule Min_eqI [symmetric]) (use om_hd_least in \<open>auto simp: om_keys_def\<close>)

lemma om_last_eq_Max: "om_sorted m \<Longrightarrow> m \<noteq> [] \<Longrightarrow> fst (last m) = Max (om_keys m)"
  by (rule Max_eqI [symmetric]) (use om_last_greatest in \<open>auto simp: om_keys_def\<close>)

lemma cm_wf_value_pos: "cm_wf m \<Longrightarrow> (k, n) \<in> set m \<Longrightarrow> 0 < n"
  by (force simp: cm_wf_def)

lemma om_keys_empty_iff [simp]: "om_keys m = {} \<longleftrightarrow> m = []"
  by (simp add: om_keys_def)

lemma kc_seq_pos_min_eq:
  assumes wf: "kc_wf c" and s: "seq_ok s"
  shows "kc_seq_pos_min c s = Some (if kc_positions c s = {} then - 1 else Min (kc_positions c s))"
proof (cases "kc_seq_pos c ! nat s")
  case Nil
  then have "kc_positions c s = {}" using kc_row_keys [OF wf s] by simp
  then show ?thesis using s Nil by (simp add: kc_seq_pos_min_def)
next
  case (Cons x m)
  obtain p n where x: "x = (p, n)" by (cases x)
  have row: "cm_wf (kc_seq_pos c ! nat s)" using cm_wf_row [OF wf s] .
  have "kc_positions c s \<noteq> {}" using kc_row_keys [OF wf s] Cons by (metis om_keys_empty_iff list.distinct(1))
  moreover have "p = Min (kc_positions c s)"
    using om_hd_eq_Min [OF cm_wf_sorted [OF row]] Cons x kc_row_keys [OF wf s] by simp
  ultimately show ?thesis
    using s Cons x cm_wf_value_pos [OF row, of p n] by (simp add: kc_seq_pos_min_def)
qed

lemma kc_seq_pos_max_eq:
  assumes wf: "kc_wf c" and s: "seq_ok s"
  shows "kc_seq_pos_max c s = Some (if kc_positions c s = {} then - 1 else Max (kc_positions c s))"
proof (cases "kc_seq_pos c ! nat s = []")
  case True
  then have "kc_positions c s = {}" using kc_row_keys [OF wf s] by simp
  then show ?thesis using s True by (simp add: kc_seq_pos_max_def)
next
  case False
  obtain p n where x: "last (kc_seq_pos c ! nat s) = (p, n)" by (cases "last (kc_seq_pos c ! nat s)")
  have row: "cm_wf (kc_seq_pos c ! nat s)" using cm_wf_row [OF wf s] .
  have "(p, n) \<in> set (kc_seq_pos c ! nat s)" using False x by (metis last_in_set)
  then have "0 < n" by (rule cm_wf_value_pos [OF row])
  moreover have "kc_positions c s \<noteq> {}" using kc_row_keys [OF wf s] False by (metis om_keys_empty_iff)
  moreover have "p = Max (kc_positions c s)"
    using om_last_eq_Max [OF cm_wf_sorted [OF row] False] x kc_row_keys [OF wf s] by simp
  ultimately show ?thesis using s False x by (simp add: kc_seq_pos_max_def)
qed

lemma kc_get_used_le: "kc_wf c \<Longrightarrow> kc_get_used c \<le> kc_used_max_p1 c"
proof (cases "kc_used c = {}")
  case True
  then show ?thesis by (simp add: kc_get_used_def kc_used_max_p1_def)
next
  case False
  assume wf: "kc_wf c"
  have fin: "finite (kc_used c)" by (simp add: kc_wf_used [OF wf])
  have "kc_used c \<subseteq> {..<Max (kc_used c) + 1}"
    using Max_ge [OF fin] by (auto simp: less_Suc_eq_le)
  then have "card (kc_used c) \<le> card {..<Max (kc_used c) + 1}" by (rule card_mono [rotated]) simp
  then show ?thesis using False by (simp add: kc_get_used_def kc_used_max_p1_def)
qed

lemma kc_used_max_p1_spec:
  assumes wf: "kc_wf c" and i: "i < length (kc_pos c)" "kc_pos c ! i \<noteq> - 1"
  shows "i < kc_used_max_p1 c"
proof -
  have "i \<in> kc_used c" using i by (simp add: kc_wf_used [OF wf])
  moreover have "finite (kc_used c)" by (simp add: kc_wf_used [OF wf])
  ultimately show ?thesis using Max_ge [of "kc_used c" i] by (auto simp: kc_used_max_p1_def less_Suc_eq_le)
qed

lemma kc_used_max_p1_le: "kc_wf c \<Longrightarrow> kc_used_max_p1 c \<le> length (kc_pos c)"
  using Max_in [of "kc_used c"] by (auto simp: kc_used_max_p1_def kc_wf_used Suc_le_eq)

lemma kc_seq_get_ok:
  assumes wf: "kc_wf c" and i: "i < length (kc_pos c)" and one: "card (kc_seq c ! i) = 1"
  obtains s where "kc_seq_get c i = Some s" and "kc_seq c ! i = {s}" and "seq_ok s"
proof -
  obtain s where s: "kc_seq c ! i = {s}" using one by (auto simp: card_1_singleton_iff)
  then have ok: "seq_ok s" using kc_wf_seq [OF wf i] by blast
  have "List.find (\<lambda>r. r \<in> kc_seq c ! i) seq_ids = Some s"
  proof -
    have "\<exists>x. List.find (\<lambda>r. r \<in> kc_seq c ! i) seq_ids = Some x"
      using ok s find_None_iff [of "\<lambda>r. r \<in> kc_seq c ! i" seq_ids] by auto
    then show ?thesis using s by (auto simp: find_Some_iff)
  qed
  then have "kc_seq_get c i = Some s"
    using i kc_wf_len_seq [OF wf] one by (simp add: kc_seq_get_def)
  then show thesis using that s ok by blast
qed

end
