(* ===== verification/KvCache.thy ===== *)
theory KvCache
  imports KvCells
begin

text \<open>
  \<open>llama_kv_cache_unified\<close> (src/llama-kv-cache-unified.h and .cpp): the state of the cache
  and the operations of \<open>llama_memory_i\<close> on whole sequences.

  The record holds the configuration members the metadata code reads and the mutable
  members \<open>v_heads\<close>, \<open>v_cells\<close>, \<open>seq_to_stream\<close> and \<open>sc_info\<close>.  The K/V tensors
  (\<open>layers\<close>, \<open>ctxs\<close>, \<open>bufs\<close>) are left out; no operation of this theory reads them.
\<close>

datatype llama_swa_type = SWA_TYPE_NONE | SWA_TYPE_STANDARD | SWA_TYPE_CHUNKED

record stream_copy_info =
  sc_ssrc :: "nat list"
  sc_sdst :: "nat list"

record kv_cache =
  kv_n_seq_max :: nat
  kv_n_stream :: nat
  kv_n_pad :: nat
  kv_n_swa :: nat
  kv_swa_type :: llama_swa_type
  kv_v_trans :: bool
  kv_supports_set_rows :: bool
  kv_heads :: "nat list"
  kv_cells_v :: "kv_cells list"
  kv_seq_to_stream :: "nat list"
  kv_sc_info :: stream_copy_info

definition sc_empty :: stream_copy_info where
  "sc_empty = \<lparr>sc_ssrc = [], sc_sdst = []\<rparr>"

subsection \<open>Construction\<close>

definition kv_init ::
  "bool \<Rightarrow> bool \<Rightarrow> bool \<Rightarrow> nat \<Rightarrow> nat \<Rightarrow> nat \<Rightarrow> nat \<Rightarrow> llama_swa_type \<Rightarrow> kv_cache option" where
  "kv_init v_trans set_rows unified kv_size n_seq_max n_pad n_swa swa_type = do {
     let n_stream = (if unified then 1 else n_seq_max);
     guard (n_pad \<noteq> 0 \<and> kv_size mod n_pad = 0);
     guard (n_stream = 1 \<or> n_stream = n_seq_max);
     let seq_to_stream = replicate LLAMA_MAX_SEQ 0;
     let seq_to_stream = (if n_stream > 1
       then fold (\<lambda>s v. v[s := s]) [0..<n_stream] (vresize n_stream 0 seq_to_stream)
       else seq_to_stream);
     guard (set_rows \<or> unified);
     Some \<lparr>kv_n_seq_max = n_seq_max, kv_n_stream = n_stream, kv_n_pad = n_pad, kv_n_swa = n_swa,
       kv_swa_type = swa_type, kv_v_trans = v_trans, kv_supports_set_rows = set_rows,
       kv_heads = replicate n_stream 0,
       kv_cells_v = replicate n_stream (kc_resize kc_empty kv_size),
       kv_seq_to_stream = seq_to_stream, kv_sc_info = sc_empty\<rparr> }"

definition kv_clear :: "kv_cache \<Rightarrow> kv_cache" where
  "kv_clear kv = kv\<lparr>kv_cells_v := map kc_reset (kv_cells_v kv), kv_heads := map (\<lambda>_. 0) (kv_heads kv)\<rparr>"

subsection \<open>Access to the stream of a sequence\<close>

text \<open>
  \<open>GGML_ASSERT(seq_id >= 0 && (size_t) seq_id < seq_to_stream.size())\<close>, then the references
  \<open>v_cells[seq_to_stream[seq_id]]\<close> and \<open>v_heads[seq_to_stream[seq_id]]\<close>.
\<close>

definition kv_stream_of :: "kv_cache \<Rightarrow> llama_seq_id \<Rightarrow> (nat \<times> kv_cells \<times> nat) option" where
  "kv_stream_of kv s = do {
     guard (0 \<le> s \<and> nat s < length (kv_seq_to_stream kv));
     let st = kv_seq_to_stream kv ! nat s;
     c \<leftarrow> vget (kv_cells_v kv) st;
     h \<leftarrow> vget (kv_heads kv) st;
     Some (st, c, h) }"

definition kv_put :: "kv_cache \<Rightarrow> nat \<Rightarrow> kv_cells \<Rightarrow> nat \<Rightarrow> kv_cache" where
  "kv_put kv st c h = kv\<lparr>kv_cells_v := (kv_cells_v kv)[st := c], kv_heads := (kv_heads kv)[st := h]\<rparr>"

text \<open>\<open>if (p0 < 0) p0 = 0;\<close> and \<open>if (p1 < 0) p1 = std::numeric_limits<llama_pos>::max();\<close>\<close>

definition norm_p0 :: "llama_pos \<Rightarrow> llama_pos" where
  "norm_p0 p0 = (if p0 < 0 then 0 else p0)"

definition norm_p1 :: "llama_pos \<Rightarrow> llama_pos" where
  "norm_p1 p1 = (if p1 < 0 then INT32_MAX else p1)"

text \<open>
  The loops over the cells carry \<open>new_head\<close>, the first cell freed, next to the cells;
  \<open>note_freed\<close> is \<open>if (new_head == cells.size()) new_head = i;\<close>.
\<close>

definition note_freed :: "kv_cells \<Rightarrow> nat \<Rightarrow> nat \<Rightarrow> nat" where
  "note_freed c i new_head = (if new_head = kc_size c then i else new_head)"

subsection \<open>\<open>seq_rm\<close>\<close>

definition kv_seq_rm_cell :: "llama_seq_id \<Rightarrow> llama_pos \<Rightarrow> llama_pos \<Rightarrow> nat \<Rightarrow> nat \<times> kv_cells \<Rightarrow> (nat \<times> kv_cells) option" where
  "kv_seq_rm_cell s p0 p1 i = (\<lambda>(nh, c). do {
     b \<leftarrow> kc_pos_in c i p0 p1;
     if \<not> b then Some (nh, c) else do {
       has \<leftarrow> kc_seq_has c i s;
       if \<not> has then Some (nh, c) else do {
         (freed, c) \<leftarrow> kc_seq_rm c i s;
         Some (if freed then note_freed c i nh else nh, c) } } })"

definition kv_rm_any_cell :: "llama_pos \<Rightarrow> llama_pos \<Rightarrow> nat \<Rightarrow> nat \<times> kv_cells \<Rightarrow> (nat \<times> kv_cells) option" where
  "kv_rm_any_cell p0 p1 i = (\<lambda>(nh, c). do {
     b \<leftarrow> kc_pos_in c i p0 p1;
     if \<not> b then Some (nh, c) else do {
       c \<leftarrow> kc_rm c i;
       Some (note_freed c i nh, c) } })"

definition kv_seq_rm :: "kv_cache \<Rightarrow> llama_seq_id \<Rightarrow> llama_pos \<Rightarrow> llama_pos \<Rightarrow> (bool \<times> kv_cache) option" where
  "kv_seq_rm kv s p0 p1 = do {
     (st, c, head) \<leftarrow> kv_stream_of kv s;
     let new_head = kc_size c;
     let p0 = norm_p0 p0;
     let p1 = norm_p1 p1;
     (new_head, c) \<leftarrow> (if s \<ge> 0
       then foldM (kv_seq_rm_cell s p0 p1) [0..<kc_size c] (new_head, c)
       else foldM (kv_rm_any_cell p0 p1) [0..<kc_size c] (new_head, c));
     let head = (if new_head \<noteq> kc_size c \<and> new_head < head then new_head else head);
     Some (True, kv_put kv st c head) }"

subsection \<open>\<open>seq_cp\<close>\<close>

definition kv_seq_cp_cell :: "llama_seq_id \<Rightarrow> llama_seq_id \<Rightarrow> llama_pos \<Rightarrow> llama_pos \<Rightarrow> nat \<Rightarrow> kv_cells \<Rightarrow> kv_cells option" where
  "kv_seq_cp_cell src dst p0 p1 i c = do {
     b \<leftarrow> kc_pos_in c i p0 p1;
     if \<not> b then Some c else do {
       has \<leftarrow> kc_seq_has c i src;
       if has then kc_seq_add c i dst else Some c } }"

text \<open>The cross-stream copy of one cell of \<open>v_cells[s0]\<close> into the reset \<open>v_cells[s1]\<close>.\<close>

definition kv_seq_cp_stream_cell :: "kv_cells \<Rightarrow> llama_seq_id \<Rightarrow> llama_seq_id \<Rightarrow> nat \<Rightarrow> kv_cells \<Rightarrow> kv_cells option" where
  "kv_seq_cp_stream_cell c0 src dst i c1 = do {
     has \<leftarrow> kc_seq_has c0 i src;
     if \<not> has then Some c1 else do {
       pos \<leftarrow> kc_pos_get c0 i;
       shift \<leftarrow> kc_get_shift c0 i;
       pos \<leftarrow> (if shift \<noteq> 0 then do {
           guard (i32_ok (pos - shift));
           guard (0 \<le> pos - shift);
           Some (pos - shift) }
         else Some pos);
       c1 \<leftarrow> kc_pos_set c1 i pos;
       c1 \<leftarrow> kc_seq_add c1 i dst;
       if shift \<noteq> 0 then map_option snd (kc_pos_add c1 i shift) else Some c1 } }"

definition kv_get_size :: "kv_cache \<Rightarrow> nat option" where
  "kv_get_size kv = do {
     st \<leftarrow> vget (kv_seq_to_stream kv) 0;
     c \<leftarrow> vget (kv_cells_v kv) st;
     Some (kc_size c) }"

text \<open>\<open>p > 0 && p + 1 < (int) get_size()\<close>: the range bound \<open>p\<close> cuts the buffer.\<close>

definition kv_cuts :: "llama_pos \<Rightarrow> nat \<Rightarrow> bool option" where
  "kv_cuts p sz = (if p > 0 then do { guard (i32_ok (p + 1)); Some (p + 1 < int sz) } else Some False)"

definition kv_seq_cp :: "kv_cache \<Rightarrow> llama_seq_id \<Rightarrow> llama_seq_id \<Rightarrow> llama_pos \<Rightarrow> llama_pos \<Rightarrow> kv_cache option" where
  "kv_seq_cp kv src dst p0 p1 = do {
     (s0, c0, h0) \<leftarrow> kv_stream_of kv src;
     (s1, c1, h1) \<leftarrow> kv_stream_of kv dst;
     if s0 = s1 then
       (if src = dst then Some kv
        else do {
          c \<leftarrow> foldM (kv_seq_cp_cell src dst (norm_p0 p0) (norm_p1 p1)) [0..<kc_size c0] c0;
          Some (kv\<lparr>kv_cells_v := (kv_cells_v kv)[s0 := c]\<rparr>) })
     else do {
       sz \<leftarrow> kv_get_size kv;
       cut0 \<leftarrow> kv_cuts p0 sz;
       cut1 \<leftarrow> kv_cuts p1 sz;
       guard (\<not> cut0 \<and> \<not> cut1);
       let kv = kv\<lparr>kv_sc_info := \<lparr>sc_ssrc = sc_ssrc (kv_sc_info kv) @ [s0],
                                   sc_sdst = sc_sdst (kv_sc_info kv) @ [s1]\<rparr>\<rparr>;
       c1 \<leftarrow> foldM (kv_seq_cp_stream_cell c0 src dst) [0..<kc_size c0] (kc_reset c1);
       Some (kv_put kv s1 c1 h0) } }"

subsection \<open>\<open>seq_keep\<close>, \<open>seq_add\<close>, \<open>seq_div\<close>\<close>

definition kv_seq_keep_cell :: "llama_seq_id \<Rightarrow> nat \<Rightarrow> nat \<times> kv_cells \<Rightarrow> (nat \<times> kv_cells) option" where
  "kv_seq_keep_cell s i = (\<lambda>(nh, c). do {
     (freed, c) \<leftarrow> kc_seq_keep c i s;
     Some (if freed then note_freed c i nh else nh, c) })"

definition kv_seq_keep :: "kv_cache \<Rightarrow> llama_seq_id \<Rightarrow> kv_cache option" where
  "kv_seq_keep kv s = do {
     (st, c, head) \<leftarrow> kv_stream_of kv s;
     (new_head, c) \<leftarrow> foldM (kv_seq_keep_cell s) [0..<kc_size c] (kc_size c, c);
     let head = (if new_head \<noteq> kc_size c \<and> new_head < head then new_head else head);
     Some (kv_put kv st c head) }"

definition kv_seq_add_cell :: "llama_seq_id \<Rightarrow> llama_pos \<Rightarrow> llama_pos \<Rightarrow> llama_pos \<Rightarrow> nat \<Rightarrow> nat \<times> kv_cells \<Rightarrow> (nat \<times> kv_cells) option" where
  "kv_seq_add_cell s p0 p1 shift i = (\<lambda>(nh, c). do {
     b \<leftarrow> kc_pos_in c i p0 p1;
     if \<not> b then Some (nh, c) else do {
       has \<leftarrow> kc_seq_has c i s;
       if \<not> has then Some (nh, c) else do {
         (freed, c) \<leftarrow> kc_pos_add c i shift;
         Some (if freed then note_freed c i nh else nh, c) } } })"

definition kv_seq_add :: "kv_cache \<Rightarrow> llama_seq_id \<Rightarrow> llama_pos \<Rightarrow> llama_pos \<Rightarrow> llama_pos \<Rightarrow> kv_cache option" where
  "kv_seq_add kv s p0 p1 shift = do {
     (st, c, head) \<leftarrow> kv_stream_of kv s;
     if shift = 0 then Some kv else do {
       let p0 = norm_p0 p0;
       let p1 = norm_p1 p1;
       if p0 = p1 then Some kv else do {
         (new_head, c) \<leftarrow> foldM (kv_seq_add_cell s p0 p1 shift) [0..<kc_size c] (kc_size c, c);
         Some (kv_put kv st c (if new_head \<noteq> kc_size c then new_head else 0)) } } }"

definition kv_seq_div_cell :: "llama_seq_id \<Rightarrow> llama_pos \<Rightarrow> llama_pos \<Rightarrow> int \<Rightarrow> nat \<Rightarrow> kv_cells \<Rightarrow> kv_cells option" where
  "kv_seq_div_cell s p0 p1 d i c = do {
     b \<leftarrow> kc_pos_in c i p0 p1;
     if \<not> b then Some c else do {
       has \<leftarrow> kc_seq_has c i s;
       if has then kc_pos_div c i d else Some c } }"

definition kv_seq_div :: "kv_cache \<Rightarrow> llama_seq_id \<Rightarrow> llama_pos \<Rightarrow> llama_pos \<Rightarrow> int \<Rightarrow> kv_cache option" where
  "kv_seq_div kv s p0 p1 d = do {
     (st, c, head) \<leftarrow> kv_stream_of kv s;
     if d = 1 then Some kv else do {
       let p0 = norm_p0 p0;
       let p1 = norm_p1 p1;
       if p0 = p1 then Some kv else do {
         c \<leftarrow> foldM (kv_seq_div_cell s p0 p1 d) [0..<kc_size c] c;
         Some (kv\<lparr>kv_cells_v := (kv_cells_v kv)[st := c]\<rparr>) } } }"

subsection \<open>Getters\<close>

definition kv_seq_pos_min :: "kv_cache \<Rightarrow> llama_seq_id \<Rightarrow> llama_pos option" where
  "kv_seq_pos_min kv s = do { (st, c, h) \<leftarrow> kv_stream_of kv s; kc_seq_pos_min c s }"

definition kv_seq_pos_max :: "kv_cache \<Rightarrow> llama_seq_id \<Rightarrow> llama_pos option" where
  "kv_seq_pos_max kv s = do { (st, c, h) \<leftarrow> kv_stream_of kv s; kc_seq_pos_max c s }"

definition kv_get_can_shift :: "kv_cache \<Rightarrow> bool" where
  "kv_get_can_shift kv = True"

definition kv_get_n_stream :: "kv_cache \<Rightarrow> nat" where
  "kv_get_n_stream kv = kv_n_stream kv"

definition kv_get_has_shift :: "kv_cache \<Rightarrow> bool option" where
  "kv_get_has_shift kv =
     foldM (\<lambda>s result. do { c \<leftarrow> vget (kv_cells_v kv) s; Some (result \<or> kc_get_has_shift c) })
       [0..<kv_n_stream kv] False"

text \<open>\<open>#define GGML_PAD(x, n) (((x) + (n) - 1) & ~((n) - 1))\<close>\<close>

definition GGML_PAD :: "nat \<Rightarrow> nat \<Rightarrow> nat" where
  "GGML_PAD x n = nat (and (int x + int n - 1) (not (int n - 1)))"

definition kv_get_n_kv :: "kv_cache \<Rightarrow> nat option" where
  "kv_get_n_kv kv =
     foldM (\<lambda>s result. do {
         c \<leftarrow> vget (kv_cells_v kv) s;
         Some (max (min (kc_size c) (max (kv_n_pad kv) (GGML_PAD (kc_used_max_p1 c) (kv_n_pad kv)))) result) })
       [0..<kv_n_stream kv] 0"

definition kv_is_masked_swa :: "kv_cache \<Rightarrow> llama_pos \<Rightarrow> llama_pos \<Rightarrow> bool option" where
  "kv_is_masked_swa kv p0 p1 = do {
     guard (0 \<le> p0 \<and> 0 \<le> p1);
     (case kv_swa_type kv of
        SWA_TYPE_NONE \<Rightarrow> Some False
      | SWA_TYPE_STANDARD \<Rightarrow> Some (p1 - p0 \<ge> int (kv_n_swa kv))
      | SWA_TYPE_CHUNKED \<Rightarrow> do {
          guard (kv_n_swa kv \<noteq> 0);
          let pos_chunk_start = (p1 div int (kv_n_swa kv)) * int (kv_n_swa kv);
          Some (p0 < pos_chunk_start) }) }"

definition kv_get_padding :: "bool \<Rightarrow> nat" where
  "kv_get_padding flash_attn = (if flash_attn then 256 else 32)"

end
