(* ===== verification/KvCacheOps.thy ===== *)
theory KvCacheOps
  imports KvCellsInv KvCache
begin

text \<open>
  The invariant of the unified cache and the effect of its sequence operations, cell by cell
  and on the set of positions of every sequence.
\<close>

subsection \<open>Loops that rewrite every cell\<close>

text \<open>
  A loop over the cells whose body rewrites the cell it is at, as a function of the content
  the cell had before the loop: the body at cell \<open>i\<close> leaves \<open>(X i, B i, S i)\<close> there.
  The rest of the loop state (\<open>new_head\<close>, or nothing) is any \<open>'h\<close> with an invariant \<open>H\<close>.
\<close>

definition kc_same :: "kv_cells \<Rightarrow> kv_cells \<Rightarrow> nat \<Rightarrow> bool" where
  "kc_same c d i \<longleftrightarrow> kc_pos d ! i = kc_pos c ! i \<and> kc_seq d ! i = kc_seq c ! i \<and> kc_shift d ! i = kc_shift c ! i"

lemma kc_writes_self: "kc_wf c \<Longrightarrow> kc_writes c i (kc_pos c ! i) (kc_seq c ! i) (kc_shift c ! i) c"
  by (simp add: kc_writes_def)

lemma kc_loop:
  fixes f :: "nat \<Rightarrow> 'h \<times> kv_cells \<Rightarrow> ('h \<times> kv_cells) option"
  assumes wf: "kc_wf c" and n: "n = length (kc_pos c)" and h: "H h"
    and step: "\<And>i h d. i < n \<Longrightarrow> kc_wf d \<Longrightarrow> length (kc_pos d) = n \<Longrightarrow> kc_same c d i \<Longrightarrow> H h \<Longrightarrow>
      \<exists>h' d'. f i (h, d) = Some (h', d') \<and> kc_writes d i (X i) (B i) (S i) d' \<and> H h'"
  obtains h' d where "foldM f [0..<n] (h, c) = Some (h', d)" and "H h'" and "kc_wf d"
    and "kc_pos d = map X [0..<n]" and "kc_seq d = map B [0..<n]" and "kc_shift d = map S [0..<n]"
proof -
  let ?P = "\<lambda>k hd. H (fst hd) \<and> kc_wf (snd hd) \<and> length (kc_pos (snd hd)) = n \<and>
    (\<forall>i < n. if i < k then kc_pos (snd hd) ! i = X i \<and> kc_seq (snd hd) ! i = B i \<and> kc_shift (snd hd) ! i = S i
      else kc_same c (snd hd) i)"
  have "\<exists>hd. foldM f [0..<n] (h, c) = Some hd \<and> ?P n hd"
  proof (rule foldM_upt_rule [where P = ?P])
    show "?P 0 (h, c)" using wf n h by (simp add: kc_same_def)
  next
    fix i t
    assume i: "i < n" and t: "?P i t"
    obtain h d where hd: "t = (h, d)" by (cases t)
    have same: "kc_same c d i" and td: "H h" "kc_wf d" "length (kc_pos d) = n"
      using t i by (auto simp: hd)
    obtain h' d' where d': "f i (h, d) = Some (h', d')" "kc_writes d i (X i) (B i) (S i) d'" "H h'"
      using step [OF i td(2,3) same td(1)] by blast
    have len: "length (kc_seq d) = n" "length (kc_shift d) = n"
      using t by (auto simp: hd kc_wf_len_seq kc_wf_len_shift)
    have cell: "if j < Suc i then kc_pos d' ! j = X j \<and> kc_seq d' ! j = B j \<and> kc_shift d' ! j = S j
        else kc_same c d' j" if j: "j < n" for j
    proof -
      have "if j < i then kc_pos d ! j = X j \<and> kc_seq d ! j = B j \<and> kc_shift d ! j = S j else kc_same c d j"
        using t j unfolding hd snd_conv by blast
      then show ?thesis
        using d'(2) i j len td(3)
        by (cases "j = i") (auto simp: kc_writes_def kc_same_def less_Suc_eq)
    qed
    have "?P (Suc i) (h', d')"
      unfolding fst_conv snd_conv
      by (intro conjI allI impI cell)
        (simp_all add: kc_writes_wf [OF d'(2)] kc_writes_size [OF d'(2)] td(3) d'(3))
    then show "\<exists>t'. f i t = Some t' \<and> ?P (Suc i) t'" using d'(1) hd by blast
  qed
  then obtain h' d where d: "foldM f [0..<n] (h, c) = Some (h', d)" "?P n (h', d)" by auto
  show thesis
    by (rule that [OF d(1)])
      (use d(2) in \<open>auto intro!: nth_equalityI simp: kc_wf_len_seq kc_wf_len_shift\<close>)
qed

text \<open>The same for a loop that carries the cells only.\<close>

lemma kc_loop_plain:
  assumes wf: "kc_wf c" and n: "n = length (kc_pos c)"
    and step: "\<And>i d. i < n \<Longrightarrow> kc_wf d \<Longrightarrow> length (kc_pos d) = n \<Longrightarrow> kc_same c d i \<Longrightarrow>
      \<exists>d'. f i d = Some d' \<and> kc_writes d i (X i) (B i) (S i) d'"
  obtains d where "foldM f [0..<n] c = Some d" and "kc_wf d"
    and "kc_pos d = map X [0..<n]" and "kc_seq d = map B [0..<n]" and "kc_shift d = map S [0..<n]"
proof -
  let ?f = "\<lambda>i (h, d). map_option (Pair h) (f i d)"
  have "foldM ?f xs (h, e) = map_option (Pair h) (foldM f xs e)" for xs and h :: unit and e
    by (induction xs arbitrary: e) (auto split: option.splits)
  moreover obtain h' d where "foldM ?f [0..<n] ((), c) = Some (h', d)" and "kc_wf d"
    and "kc_pos d = map X [0..<n]" and "kc_seq d = map B [0..<n]" and "kc_shift d = map S [0..<n]"
    by (rule kc_loop [OF wf n, of "\<lambda>_. True" "()" ?f X B S]) (use step in fastforce)+
  ultimately show thesis using that by auto
qed

text \<open>The positions of a sequence after such a loop.\<close>

lemma kc_positions_map:
  assumes "kc_pos d = map X [0..<n]" "kc_seq d = map B [0..<n]"
  shows "kc_positions d t = {X i | i. i < n \<and> t \<in> B i}"
  using assms by (force simp: kc_positions_def)

subsection \<open>The invariant of the cache\<close>

text \<open>
  Every used cell belongs to some sequence.  The cells allow a position without a sequence; the
  cache only creates such a cell from a token with \<open>n_seq_id = 0\<close>.
\<close>

definition kc_owned :: "kv_cells \<Rightarrow> bool" where
  "kc_owned c \<longleftrightarrow> (\<forall>i < length (kc_pos c). kc_pos c ! i \<noteq> - 1 \<longrightarrow> kc_seq c ! i \<noteq> {})"

definition kv_wf :: "kv_cache \<Rightarrow> bool" where
  "kv_wf kv \<longleftrightarrow>
     length (kv_cells_v kv) = kv_n_stream kv \<and> length (kv_heads kv) = kv_n_stream kv \<and>
     0 < length (kv_seq_to_stream kv) \<and> length (kv_seq_to_stream kv) \<le> LLAMA_MAX_SEQ \<and>
     (\<forall>st \<in> set (kv_seq_to_stream kv). st < kv_n_stream kv) \<and>
     (\<forall>c \<in> set (kv_cells_v kv). kc_wf c \<and> kc_owned c \<and> kc_size c = kc_size (hd (kv_cells_v kv))) \<and>
     (\<forall>st < kv_n_stream kv. kv_heads kv ! st \<le> kc_size (kv_cells_v kv ! st)) \<and>
     (\<forall>st < kv_n_stream kv. \<forall>i < kc_size (kv_cells_v kv ! st). \<forall>s \<in> kc_seq (kv_cells_v kv ! st) ! i.
        nat s < length (kv_seq_to_stream kv) \<and> kv_seq_to_stream kv ! nat s = st)"

definition kv_seq_ok :: "kv_cache \<Rightarrow> llama_seq_id \<Rightarrow> bool" where
  "kv_seq_ok kv s \<longleftrightarrow> 0 \<le> s \<and> nat s < length (kv_seq_to_stream kv)"

definition kv_cells_of :: "kv_cache \<Rightarrow> llama_seq_id \<Rightarrow> kv_cells" where
  "kv_cells_of kv s = kv_cells_v kv ! (kv_seq_to_stream kv ! nat s)"

text \<open>The positions sequence \<open>s\<close> has in the cache.\<close>

definition kv_positions :: "kv_cache \<Rightarrow> llama_seq_id \<Rightarrow> llama_pos set" where
  "kv_positions kv s = kc_positions (kv_cells_of kv s) s"

lemma kv_wfD:
  assumes "kv_wf kv"
  shows kv_wf_len_cells: "length (kv_cells_v kv) = kv_n_stream kv"
    and kv_wf_len_heads: "length (kv_heads kv) = kv_n_stream kv"
    and kv_wf_s2s: "0 < length (kv_seq_to_stream kv)" "length (kv_seq_to_stream kv) \<le> LLAMA_MAX_SEQ"
    and kv_wf_cells: "st < kv_n_stream kv \<Longrightarrow> kc_wf (kv_cells_v kv ! st)"
    and kv_wf_owned: "st < kv_n_stream kv \<Longrightarrow> kc_owned (kv_cells_v kv ! st)"
    and kv_wf_head: "st < kv_n_stream kv \<Longrightarrow> kv_heads kv ! st \<le> length (kc_pos (kv_cells_v kv ! st))"
    and kv_wf_owner: "st < kv_n_stream kv \<Longrightarrow> i < length (kc_pos (kv_cells_v kv ! st)) \<Longrightarrow>
      s \<in> kc_seq (kv_cells_v kv ! st) ! i \<Longrightarrow>
      nat s < length (kv_seq_to_stream kv) \<and> kv_seq_to_stream kv ! nat s = st"
  using assms unfolding kv_wf_def by (auto simp: kc_size_def)

lemma kv_seq_ok_stream: "kv_wf kv \<Longrightarrow> kv_seq_ok kv s \<Longrightarrow> kv_seq_to_stream kv ! nat s < kv_n_stream kv"
  by (auto simp: kv_wf_def kv_seq_ok_def)

lemma kv_seq_ok_id: "kv_wf kv \<Longrightarrow> kv_seq_ok kv s \<Longrightarrow> seq_ok s"
  using kv_wf_s2s(2) [of kv] by (auto simp: kv_seq_ok_def seq_ok_def)

lemma kv_stream_of_ok:
  assumes "kv_wf kv" "kv_seq_ok kv s"
  shows "kv_stream_of kv s = Some (kv_seq_to_stream kv ! nat s, kv_cells_of kv s,
    kv_heads kv ! (kv_seq_to_stream kv ! nat s))"
  using assms kv_seq_ok_stream [OF assms]
  by (auto simp: kv_stream_of_def kv_seq_ok_def kv_cells_of_def kv_wf_len_cells kv_wf_len_heads Let_def)

lemma kv_stream_of_bad: "\<not> kv_seq_ok kv s \<Longrightarrow> kv_stream_of kv s = None"
  by (auto simp: kv_stream_of_def kv_seq_ok_def)

lemma kv_cells_of_wf: "kv_wf kv \<Longrightarrow> kv_seq_ok kv s \<Longrightarrow> kc_wf (kv_cells_of kv s)"
  by (simp add: kv_cells_of_def kv_wf_cells kv_seq_ok_stream)

text \<open>Writing back the cells and head of one stream.\<close>

lemma kv_put_wf:
  assumes wf: "kv_wf kv" and st: "st < kv_n_stream kv"
    and c: "kc_wf c" "length (kc_pos c) = length (kc_pos (kv_cells_v kv ! st))" "kc_owned c"
    and h: "h \<le> length (kc_pos c)"
    and own: "\<And>i s. i < length (kc_pos c) \<Longrightarrow> s \<in> kc_seq c ! i \<Longrightarrow>
      nat s < length (kv_seq_to_stream kv) \<and> kv_seq_to_stream kv ! nat s = st"
  shows "kv_wf (kv_put kv st c h)"
proof -
  have len: "length (kv_cells_v kv) = kv_n_stream kv" "length (kv_heads kv) = kv_n_stream kv"
    using wf by (auto simp: kv_wf_def)
  have size: "kc_size d = kc_size (hd ((kv_cells_v kv)[st := c]))" if "d \<in> set ((kv_cells_v kv)[st := c])" for d
  proof -
    have all: "kc_size d = kc_size (hd (kv_cells_v kv))" if "d \<in> set (kv_cells_v kv)" for d
      using wf that unfolding kv_wf_def by blast
    have "kc_size c = kc_size (hd (kv_cells_v kv))"
      using all [of "kv_cells_v kv ! st"] c(2) st len by (simp add: kc_size_def)
    then have upd: "kc_size d = kc_size (hd (kv_cells_v kv))" if "d \<in> set ((kv_cells_v kv)[st := c])" for d
      using all set_update_subset_insert [of "kv_cells_v kv" st c] that by blast
    have "hd ((kv_cells_v kv)[st := c]) \<in> set ((kv_cells_v kv)[st := c])"
      using that by (intro hd_in_set) auto
    then show ?thesis using upd that by metis
  qed
  show ?thesis
    using wf c h own st len size unfolding kv_wf_def kv_put_def
    by (auto simp: nth_list_update kc_size_def dest!: set_update_subset_insert [THEN subsetD] split: if_splits)
qed

lemma kv_put_positions:
  assumes wf: "kv_wf kv" and st: "st < kv_n_stream kv" and t: "kv_seq_ok kv t"
  shows "kv_positions (kv_put kv st c h) t =
    (if kv_seq_to_stream kv ! nat t = st then kc_positions c t else kv_positions kv t)"
  using st kv_wf_len_cells [OF wf]
  by (simp add: kv_positions_def kv_cells_of_def kv_put_def nth_list_update)

lemma kv_put_seq_ok [simp]: "kv_seq_ok (kv_put kv st c h) t = kv_seq_ok kv t"
  by (simp add: kv_put_def kv_seq_ok_def)

lemma kv_put_simps [simp]:
  "kv_seq_to_stream (kv_put kv st c h) = kv_seq_to_stream kv"
  "kv_n_stream (kv_put kv st c h) = kv_n_stream kv"
  "kv_n_seq_max (kv_put kv st c h) = kv_n_seq_max kv"
  "kv_n_pad (kv_put kv st c h) = kv_n_pad kv"
  "kv_n_swa (kv_put kv st c h) = kv_n_swa kv"
  "kv_swa_type (kv_put kv st c h) = kv_swa_type kv"
  "kv_v_trans (kv_put kv st c h) = kv_v_trans kv"
  "kv_supports_set_rows (kv_put kv st c h) = kv_supports_set_rows kv"
  "kv_cells_v (kv_put kv st c h) = (kv_cells_v kv)[st := c]"
  "kv_heads (kv_put kv st c h) = (kv_heads kv)[st := h]"
  by (simp_all add: kv_put_def)

abbreviation kv_strm :: "kv_cache \<Rightarrow> llama_seq_id \<Rightarrow> nat" where
  "kv_strm kv s \<equiv> kv_seq_to_stream kv ! nat s"

text \<open>Every sequence of a cell of the stream is one the stream owns.\<close>

lemma kv_owner_of:
  assumes "kv_wf kv" "kv_seq_ok kv s" "i < length (kc_pos (kv_cells_of kv s))" "t \<in> kc_seq (kv_cells_of kv s) ! i"
  shows "nat t < length (kv_seq_to_stream kv) \<and> kv_strm kv t = kv_strm kv s"
  by (rule kv_wf_owner [OF assms(1) kv_seq_ok_stream [OF assms(1,2)], of i])
    (use assms(3,4) in \<open>simp_all add: kv_cells_of_def\<close>)

text \<open>
  Replacing the cells of the stream of \<open>s\<close> by cells whose sequences it owns keeps the cache
  well-formed and the other streams as they were.
\<close>

lemma kv_put_of:
  assumes wf: "kv_wf kv" and s: "kv_seq_ok kv s" and c: "kc_wf c" "kc_owned c"
    and n: "length (kc_pos c) = length (kc_pos (kv_cells_of kv s))" and h: "h \<le> length (kc_pos c)"
    and own: "\<And>i t. i < length (kc_pos c) \<Longrightarrow> t \<in> kc_seq c ! i \<Longrightarrow> t \<in> kc_seq (kv_cells_of kv s) ! i \<or>
      nat t < length (kv_seq_to_stream kv) \<and> kv_strm kv t = kv_strm kv s"
  shows "kv_wf (kv_put kv (kv_strm kv s) c h)"
    and "kv_seq_ok kv t \<Longrightarrow> kv_positions (kv_put kv (kv_strm kv s) c h) t =
      (if kv_strm kv t = kv_strm kv s then kc_positions c t else kv_positions kv t)"
proof -
  note st = kv_seq_ok_stream [OF wf s]
  show "kv_wf (kv_put kv (kv_strm kv s) c h)"
  proof (rule kv_put_wf [OF wf st c(1) _ c(2) h])
    show "length (kc_pos c) = length (kc_pos (kv_cells_v kv ! kv_strm kv s))"
      using n by (simp add: kv_cells_of_def)
    fix i r
    assume i: "i < length (kc_pos c)" and r: "r \<in> kc_seq c ! i"
    show "nat r < length (kv_seq_to_stream kv) \<and> kv_strm kv r = kv_strm kv s"
      using own [OF i r] kv_owner_of [OF wf s, of i r] i n by metis
  qed
  show "kv_seq_ok kv t \<Longrightarrow> kv_positions (kv_put kv (kv_strm kv s) c h) t =
      (if kv_strm kv t = kv_strm kv s then kc_positions c t else kv_positions kv t)"
    by (rule kv_put_positions [OF wf st])
qed

lemma kv_head_of: "kv_wf kv \<Longrightarrow> kv_seq_ok kv s \<Longrightarrow>
    kv_heads kv ! kv_strm kv s \<le> length (kc_pos (kv_cells_of kv s))"
  by (simp add: kv_cells_of_def kv_wf_head kv_seq_ok_stream)

lemma kv_positions_same_stream:
  "kv_strm kv t = kv_strm kv s \<Longrightarrow> kv_positions kv t = kc_positions (kv_cells_of kv s) t"
  by (simp add: kv_positions_def kv_cells_of_def)

subsection \<open>\<open>seq_rm\<close>\<close>

lemma note_freed_le: "i < n \<Longrightarrow> length (kc_pos d) = n \<Longrightarrow> h \<le> n \<Longrightarrow> note_freed d i h \<le> n"
  by (simp add: note_freed_def kc_size_def)

lemma kv_seq_rm_loop:
  fixes c p0 p1 s
  defines "hit \<equiv> \<lambda>i. p0 \<le> kc_pos c ! i \<and> kc_pos c ! i < p1 \<and> s \<in> kc_seq c ! i"
  assumes wf: "kc_wf c" and n: "n = length (kc_pos c)" and s: "seq_ok s"
  obtains nh d where "foldM (kv_seq_rm_cell s p0 p1) [0..<n] (n, c) = Some (nh, d)" and "nh \<le> n" and "kc_wf d"
    and "kc_pos d = map (\<lambda>i. if hit i \<and> kc_seq c ! i = {s} then - 1 else kc_pos c ! i) [0..<n]"
    and "kc_seq d = map (\<lambda>i. if hit i then kc_seq c ! i - {s} else kc_seq c ! i) [0..<n]"
    and "kc_shift d = map (\<lambda>i. if hit i \<and> kc_seq c ! i = {s} then 0 else kc_shift c ! i) [0..<n]"
proof -
  show thesis
  proof (rule kc_loop [OF wf n, where H = "\<lambda>h. h \<le> n" and h = n and f = "kv_seq_rm_cell s p0 p1"
      and X = "\<lambda>i. if hit i \<and> kc_seq c ! i = {s} then - 1 else kc_pos c ! i"
      and B = "\<lambda>i. if hit i then kc_seq c ! i - {s} else kc_seq c ! i"
      and S = "\<lambda>i. if hit i \<and> kc_seq c ! i = {s} then 0 else kc_shift c ! i"])
    fix i h d
    assume i: "i < n" and d: "kc_wf d" "length (kc_pos d) = n" "kc_same c d i" and h: "h \<le> n"
    have id: "i < length (kc_pos d)" using i d by simp
    show "\<exists>h' d'. kv_seq_rm_cell s p0 p1 i (h, d) = Some (h', d') \<and>
        kc_writes d i (if hit i \<and> kc_seq c ! i = {s} then - 1 else kc_pos c ! i)
          (if hit i then kc_seq c ! i - {s} else kc_seq c ! i)
          (if hit i \<and> kc_seq c ! i = {s} then 0 else kc_shift c ! i) d' \<and> h' \<le> n"
    proof (cases "hit i")
      case True
      then have sd: "s \<in> kc_seq d ! i" using d(3) by (simp add: hit_def kc_same_def)
      obtain d' where d': "kc_seq_rm d i s = Some (kc_seq d ! i = {s}, d')"
        "if kc_seq d ! i = {s} then kc_writes d i (- 1) {} 0 d'
         else kc_writes d i (kc_pos d ! i) (kc_seq d ! i - {s}) (kc_shift d ! i) d'"
        using kc_seq_rm_ok [OF d(1) id sd] by blast
      have len: "length (kc_pos d') = n" using d'(2) d(2) by (auto simp: kc_writes_def split: if_splits)
      show ?thesis
        using True d' d(3) id s h i note_freed_le [OF i len h]
        by (auto simp: kv_seq_rm_cell_def kc_pos_in_def kc_seq_has_def kc_same_def hit_def split: if_splits)
    next
      case False
      then show ?thesis
        using d id s h kc_writes_self [OF d(1), of i]
        by (auto simp: kv_seq_rm_cell_def kc_pos_in_def kc_seq_has_def kc_same_def hit_def)
    qed
  qed (use that in auto)
qed

lemma kv_seq_rm_ok:
  assumes wf: "kv_wf kv" and s: "kv_seq_ok kv s"
  obtains c h where "kv_seq_rm kv s p0 p1 = Some (True, kv_put kv (kv_strm kv s) c h)"
    and "kv_wf (kv_put kv (kv_strm kv s) c h)"
    and "\<And>t. kv_seq_ok kv t \<Longrightarrow> kv_positions (kv_put kv (kv_strm kv s) c h) t =
      (if t = s then {p \<in> kv_positions kv s. \<not> (norm_p0 p0 \<le> p \<and> p < norm_p1 p1)} else kv_positions kv t)"
    and "length (kc_pos c) = length (kc_pos (kv_cells_of kv s))"
proof -
  define c where "c = kv_cells_of kv s"
  define n where "n = length (kc_pos c)"
  let ?hit = "\<lambda>i. norm_p0 p0 \<le> kc_pos c ! i \<and> kc_pos c ! i < norm_p1 p1 \<and> s \<in> kc_seq c ! i"
  have cwf: "kc_wf c" using kv_cells_of_wf [OF wf s] by (simp add: c_def)
  obtain nh d where d: "foldM (kv_seq_rm_cell s (norm_p0 p0) (norm_p1 p1)) [0..<n] (n, c) = Some (nh, d)"
    "nh \<le> n" "kc_wf d"
    and pos: "kc_pos d = map (\<lambda>i. if ?hit i \<and> kc_seq c ! i = {s} then - 1 else kc_pos c ! i) [0..<n]"
    and seq: "kc_seq d = map (\<lambda>i. if ?hit i then kc_seq c ! i - {s} else kc_seq c ! i) [0..<n]"
    using kv_seq_rm_loop [OF cwf n_def kv_seq_ok_id [OF wf s]] by blast
  define h where "h = (if nh \<noteq> n \<and> nh < kv_heads kv ! kv_strm kv s then nh else kv_heads kv ! kv_strm kv s)"
  have len: "length (kc_pos d) = n" using pos by simp
  have hle: "h \<le> length (kc_pos d)"
    using d(2) kv_head_of [OF wf s] by (simp add: h_def len n_def c_def)
  have owned: "kc_owned c" "kc_owned d"
    using kv_wf_owned [OF wf kv_seq_ok_stream [OF wf s]] pos seq
    by (auto simp: c_def kv_cells_of_def kc_owned_def n_def)
  note put = kv_put_of [OF wf s d(3) owned(2), where h = h, folded c_def]
  show thesis
  proof (rule that)
    have "0 \<le> s" using s by (simp add: kv_seq_ok_def)
    then show "kv_seq_rm kv s p0 p1 = Some (True, kv_put kv (kv_strm kv s) d h)"
      using d(1) by (simp add: kv_seq_rm_def kv_stream_of_ok [OF wf s] kc_size_def len h_def n_def c_def Let_def)
    show "kv_wf (kv_put kv (kv_strm kv s) d h)"
      by (rule put(1)) (use hle len seq in \<open>auto simp: n_def split: if_splits\<close>)
    fix t
    assume t: "kv_seq_ok kv t"
    have "kc_positions d t = (if t = s then {p \<in> kc_positions c s. \<not> (norm_p0 p0 \<le> p \<and> p < norm_p1 p1)}
        else kc_positions c t)"
      unfolding kc_positions_map [OF pos seq] by (auto simp: kc_positions_def n_def split: if_splits)
    moreover have "kv_positions (kv_put kv (kv_strm kv s) d h) t =
        (if kv_strm kv t = kv_strm kv s then kc_positions d t else kv_positions kv t)"
      by (rule put(2) [OF _ _ _ t]) (use hle len seq in \<open>auto simp: n_def split: if_splits\<close>)
    ultimately show "kv_positions (kv_put kv (kv_strm kv s) d h) t =
        (if t = s then {p \<in> kv_positions kv s. \<not> (norm_p0 p0 \<le> p \<and> p < norm_p1 p1)} else kv_positions kv t)"
      using kv_positions_same_stream [of kv t s] kv_positions_same_stream [of kv s s] by (auto simp: c_def)
  qed (simp add: len n_def c_def)
qed

end
