(* ===== verification/KvCacheSeq.thy ===== *)
theory KvCacheSeq
  imports KvCacheOps
begin

text \<open>
  \<open>seq_keep\<close>, \<open>seq_add\<close>, \<open>seq_div\<close>, \<open>seq_cp\<close>, \<open>clear\<close> and the constructor of
  \<open>llama_kv_cache_unified\<close>: each returns on its documented call conditions, keeps the
  invariant, and changes the positions of the sequences as its name says.
\<close>

text \<open>The effect of a loop over the cells of one stream, given cell by cell.\<close>

lemma kv_put_map:
  assumes wf: "kv_wf kv" and s: "kv_seq_ok kv s" and d: "kc_wf d"
    and pos: "kc_pos d = map X [0..<n]" and seq: "kc_seq d = map B [0..<n]"
    and n: "n = length (kc_pos (kv_cells_of kv s))" and h: "h \<le> n"
    and owned: "\<forall>i < n. X i \<noteq> - 1 \<longrightarrow> B i \<noteq> {}"
    and own: "\<forall>i < n. \<forall>t \<in> B i. t \<in> kc_seq (kv_cells_of kv s) ! i \<or>
      nat t < length (kv_seq_to_stream kv) \<and> kv_strm kv t = kv_strm kv s"
  shows "kv_wf (kv_put kv (kv_strm kv s) d h)"
    and "kv_seq_ok kv t \<Longrightarrow> kv_positions (kv_put kv (kv_strm kv s) d h) t =
      (if kv_strm kv t = kv_strm kv s then {X i | i. i < n \<and> t \<in> B i} else kv_positions kv t)"
proof -
  have *: "kc_owned d" "length (kc_pos d) = n"
    using pos seq owned by (auto simp: kc_owned_def)
  note put = kv_put_of [OF wf s d *(1), where h = h]
  show "kv_wf (kv_put kv (kv_strm kv s) d h)"
    by (rule put(1)) (use * n h own seq in auto)
  assume t: "kv_seq_ok kv t"
  have "kv_positions (kv_put kv (kv_strm kv s) d h) t =
      (if kv_strm kv t = kv_strm kv s then kc_positions d t else kv_positions kv t)"
    by (rule put(2) [OF _ _ _ t]) (use * n h own seq in auto)
  then show "kv_positions (kv_put kv (kv_strm kv s) d h) t =
      (if kv_strm kv t = kv_strm kv s then {X i | i. i < n \<and> t \<in> B i} else kv_positions kv t)"
    by (simp add: kc_positions_map [OF pos seq])
qed

lemma kv_owned_cell:
  "kv_wf kv \<Longrightarrow> kv_seq_ok kv s \<Longrightarrow> i < length (kc_pos (kv_cells_of kv s)) \<Longrightarrow>
    kc_pos (kv_cells_of kv s) ! i \<noteq> - 1 \<Longrightarrow> kc_seq (kv_cells_of kv s) ! i \<noteq> {}"
  using kv_wf_owned [OF _ kv_seq_ok_stream, of kv s] by (simp add: kc_owned_def kv_cells_of_def)

subsection \<open>\<open>seq_keep\<close>\<close>

lemma kv_seq_keep_loop:
  fixes c s
  defines "out \<equiv> \<lambda>i. kc_pos c ! i \<noteq> - 1 \<and> s \<notin> kc_seq c ! i"
  assumes wf: "kc_wf c" "kc_owned c" and n: "n = length (kc_pos c)" and s: "seq_ok s"
  obtains nh d where "foldM (kv_seq_keep_cell s) [0..<n] (n, c) = Some (nh, d)" and "nh \<le> n" and "kc_wf d"
    and "kc_pos d = map (\<lambda>i. if out i then - 1 else kc_pos c ! i) [0..<n]"
    and "kc_seq d = map (\<lambda>i. kc_seq c ! i \<inter> {s}) [0..<n]"
proof (rule kc_loop [OF wf(1) n, where H = "\<lambda>h. h \<le> n" and h = n and f = "kv_seq_keep_cell s"
      and X = "\<lambda>i. if out i then - 1 else kc_pos c ! i"
      and B = "\<lambda>i. kc_seq c ! i \<inter> {s}"
      and S = "\<lambda>i. if out i then 0 else kc_shift c ! i"])
  fix i h d
  assume i: "i < n" and d: "kc_wf d" "length (kc_pos d) = n" "kc_same c d i" and h: "h \<le> n"
  have id: "i < length (kc_pos d)" using i d by simp
  consider (in_) "s \<in> kc_seq d ! i" | (out_) "s \<notin> kc_seq d ! i" "kc_pos d ! i \<noteq> - 1" | (empty_) "kc_pos d ! i = - 1"
    by blast
  then show "\<exists>h' d'. kv_seq_keep_cell s i (h, d) = Some (h', d') \<and>
      kc_writes d i (if out i then - 1 else kc_pos c ! i) (kc_seq c ! i \<inter> {s})
        (if out i then 0 else kc_shift c ! i) d' \<and> h' \<le> n"
  proof cases
    case in_
    then have "kc_seq c ! i \<inter> {s} = {s}" "\<not> out i" using d(3) by (auto simp: kc_same_def out_def)
    moreover obtain d' where "kc_seq_keep d i s = Some (False, d')"
      "kc_writes d i (kc_pos d ! i) {s} (kc_shift d ! i) d'"
      using kc_seq_keep_in [OF d(1) id in_] by blast
    ultimately show ?thesis using d(3) h by (auto simp: kv_seq_keep_cell_def kc_same_def)
  next
    case out_
    then have "kc_seq c ! i \<inter> {s} = {}" "out i" using d(3) by (auto simp: kc_same_def out_def)
    moreover have "kc_seq d ! i \<noteq> {}" using out_ wf(2) d(3) i n by (auto simp: kc_same_def kc_owned_def)
    then obtain d' where d': "kc_seq_keep d i s = Some (True, d')" "kc_writes d i (- 1) {} 0 d'"
      using kc_seq_keep_out [OF d(1) id s out_(1)] by blast
    moreover have "length (kc_pos d') = n" using d'(2) d(2) by (simp add: kc_writes_def)
    ultimately show ?thesis using note_freed_le [OF i _ h] by (auto simp: kv_seq_keep_cell_def)
  next
    case empty_
    have "kc_seq c ! i = {}" "kc_pos c ! i = - 1"
      using empty_ d(3) wf(1) i n kc_wf_empty_seq by (auto simp: kc_same_def)
    then show ?thesis
      using kc_seq_keep_empty [OF d(1) id s empty_] d(3) h kc_writes_self [OF d(1), of i]
      by (auto simp: kv_seq_keep_cell_def kc_same_def out_def)
  qed
qed (use that in auto)

lemma kv_seq_keep_ok:
  assumes wf: "kv_wf kv" and s: "kv_seq_ok kv s"
  obtains c h where "kv_seq_keep kv s = Some (kv_put kv (kv_strm kv s) c h)"
    and "kv_wf (kv_put kv (kv_strm kv s) c h)"
    and "\<And>t. kv_seq_ok kv t \<Longrightarrow> kv_positions (kv_put kv (kv_strm kv s) c h) t =
      (if t \<noteq> s \<and> kv_strm kv t = kv_strm kv s then {} else kv_positions kv t)"
proof -
  define c where "c = kv_cells_of kv s"
  define n where "n = length (kc_pos c)"
  have cwf: "kc_wf c" and cown: "kc_owned c"
    using kv_cells_of_wf [OF wf s] kv_owned_cell [OF wf s] by (auto simp: c_def kc_owned_def)
  obtain nh d where d: "foldM (kv_seq_keep_cell s) [0..<n] (n, c) = Some (nh, d)" "nh \<le> n" "kc_wf d"
    and pos: "kc_pos d = map (\<lambda>i. if kc_pos c ! i \<noteq> - 1 \<and> s \<notin> kc_seq c ! i then - 1 else kc_pos c ! i) [0..<n]"
    and seq: "kc_seq d = map (\<lambda>i. kc_seq c ! i \<inter> {s}) [0..<n]"
    using kv_seq_keep_loop [OF cwf cown n_def kv_seq_ok_id [OF wf s]] by blast
  define h where "h = (if nh \<noteq> n \<and> nh < kv_heads kv ! kv_strm kv s then nh else kv_heads kv ! kv_strm kv s)"
  have hn: "h \<le> n" using d(2) kv_head_of [OF wf s] by (simp add: h_def n_def c_def)
  have n: "n = length (kc_pos (kv_cells_of kv s))" by (simp add: n_def c_def)
  have own: "\<forall>i < n. (if kc_pos c ! i \<noteq> - 1 \<and> s \<notin> kc_seq c ! i then - 1 else kc_pos c ! i) \<noteq> - 1 \<longrightarrow>
      kc_seq c ! i \<inter> {s} \<noteq> {}"
    by (auto split: if_splits)
  have sub: "\<forall>i < n. \<forall>r \<in> kc_seq c ! i \<inter> {s}. r \<in> kc_seq (kv_cells_of kv s) ! i \<or>
      nat r < length (kv_seq_to_stream kv) \<and> kv_strm kv r = kv_strm kv s"
    by (auto simp: c_def)
  note put = kv_put_map [OF wf s d(3) pos seq n hn own sub]
  show thesis
  proof (rule that)
    show "kv_seq_keep kv s = Some (kv_put kv (kv_strm kv s) d h)"
      using d(1) by (simp add: kv_seq_keep_def kv_stream_of_ok [OF wf s] kc_size_def h_def n_def c_def pos Let_def)
    show "kv_wf (kv_put kv (kv_strm kv s) d h)" by (rule put(1))
    fix t
    assume t: "kv_seq_ok kv t"
    have pc: "kc_positions c r = {kc_pos c ! i | i. i < n \<and> r \<in> kc_seq c ! i}" for r
      by (auto simp: kc_positions_def n_def)
    have ps: "kv_strm kv t = kv_strm kv s \<Longrightarrow> kv_positions kv t = kc_positions c t"
      using kv_positions_same_stream [of kv t s] by (simp add: c_def)
    show "kv_positions (kv_put kv (kv_strm kv s) d h) t =
        (if t \<noteq> s \<and> kv_strm kv t = kv_strm kv s then {} else kv_positions kv t)"
      unfolding put(2) [OF t] using ps pc [of t] by (auto split: if_splits)
  qed
qed

subsection \<open>\<open>seq_add\<close> and \<open>seq_div\<close>\<close>

text \<open>
  The shift a cell takes must stay inside \<open>llama_pos\<close>, and the accumulated K-shift too; both
  are signed 32-bit sums in the code.
\<close>

definition kv_shift_fits :: "kv_cache \<Rightarrow> llama_seq_id \<Rightarrow> llama_pos \<Rightarrow> llama_pos \<Rightarrow> (llama_pos \<Rightarrow> llama_pos) \<Rightarrow> bool" where
  "kv_shift_fits kv s p0 p1 f \<longleftrightarrow> (\<forall>i < kc_size (kv_cells_of kv s).
     let c = kv_cells_of kv s; p = kc_pos c ! i in
     s \<in> kc_seq c ! i \<and> norm_p0 p0 \<le> p \<and> p < norm_p1 p1 \<longrightarrow>
       i32_ok p \<and> i32_ok (f p) \<and> i32_ok (kc_shift c ! i + (f p - p)))"

text \<open>\<open>s\<close> and \<open>t\<close> share a cell: a shift of \<open>s\<close> then moves \<open>t\<close> as well.\<close>

definition kv_shared :: "kv_cache \<Rightarrow> llama_seq_id \<Rightarrow> llama_seq_id \<Rightarrow> bool" where
  "kv_shared kv s t \<longleftrightarrow> (\<exists>i < kc_size (kv_cells_of kv s). s \<in> kc_seq (kv_cells_of kv s) ! i \<and> t \<in> kc_seq (kv_cells_of kv s) ! i)"

lemma kv_seq_add_loop:
  fixes c p0 p1 s k
  defines "hit \<equiv> \<lambda>i. p0 \<le> kc_pos c ! i \<and> kc_pos c ! i < p1 \<and> s \<in> kc_seq c ! i"
  assumes wf: "kc_wf c" and n: "n = length (kc_pos c)" and s: "seq_ok s"
    and fits: "\<And>i. i < n \<Longrightarrow> hit i \<Longrightarrow> i32_ok (kc_pos c ! i + k) \<and> i32_ok (kc_shift c ! i + k)"
  obtains nh d where "foldM (kv_seq_add_cell s p0 p1 k) [0..<n] (n, c) = Some (nh, d)" and "nh \<le> n" and "kc_wf d"
    and "kc_pos d = map (\<lambda>i. if hit i then (if kc_pos c ! i + k < 0 then - 1 else kc_pos c ! i + k) else kc_pos c ! i) [0..<n]"
    and "kc_seq d = map (\<lambda>i. if hit i \<and> kc_pos c ! i + k < 0 then {} else kc_seq c ! i) [0..<n]"
    and "kc_shift d = map (\<lambda>i. if hit i then (if kc_pos c ! i + k < 0 then 0 else kc_shift c ! i + k) else kc_shift c ! i) [0..<n]"
proof (rule kc_loop [OF wf n, where H = "\<lambda>h. h \<le> n" and h = n and f = "kv_seq_add_cell s p0 p1 k"
      and X = "\<lambda>i. if hit i then (if kc_pos c ! i + k < 0 then - 1 else kc_pos c ! i + k) else kc_pos c ! i"
      and B = "\<lambda>i. if hit i \<and> kc_pos c ! i + k < 0 then {} else kc_seq c ! i"
      and S = "\<lambda>i. if hit i then (if kc_pos c ! i + k < 0 then 0 else kc_shift c ! i + k) else kc_shift c ! i"])
  fix i h d
  assume i: "i < n" and d: "kc_wf d" "length (kc_pos d) = n" "kc_same c d i" and h: "h \<le> n"
  have id: "i < length (kc_pos d)" using i d by simp
  have eq: "kc_pos d ! i = kc_pos c ! i" "kc_seq d ! i = kc_seq c ! i" "kc_shift d ! i = kc_shift c ! i"
    using d(3) by (simp_all add: kc_same_def)
  consider (miss) "\<not> hit i" | (neg) "hit i" "kc_pos c ! i + k < 0" | (pos) "hit i" "0 \<le> kc_pos c ! i + k"
    by linarith
  then show "\<exists>h' d'. kv_seq_add_cell s p0 p1 k i (h, d) = Some (h', d') \<and>
      kc_writes d i (if hit i then (if kc_pos c ! i + k < 0 then - 1 else kc_pos c ! i + k) else kc_pos c ! i)
        (if hit i \<and> kc_pos c ! i + k < 0 then {} else kc_seq c ! i)
        (if hit i then (if kc_pos c ! i + k < 0 then 0 else kc_shift c ! i + k) else kc_shift c ! i) d' \<and> h' \<le> n"
  proof cases
    case miss
    then show ?thesis
      using id s h kc_writes_self [OF d(1), of i] eq
      by (auto simp: kv_seq_add_cell_def kc_pos_in_def kc_seq_has_def hit_def)
  next
    case neg
    have "kc_pos d ! i \<noteq> - 1" using neg(1) kc_wf_in_seq [OF d(1) id] eq by (auto simp: hit_def)
    then obtain d' where d': "kc_pos_add d i k = Some (True, d')" "kc_writes d i (- 1) {} 0 d'"
      using kc_pos_add_neg [OF d(1) id, of k] fits [OF i neg(1)] neg(2) eq by metis
    have "length (kc_pos d') = n" using d'(2) d(2) by (simp add: kc_writes_def)
    then show ?thesis
      using neg d' id s h note_freed_le [OF i _ h] eq
      by (auto simp: kv_seq_add_cell_def kc_pos_in_def kc_seq_has_def hit_def)
  next
    case pos
    have "kc_pos d ! i \<noteq> - 1" using pos(1) kc_wf_in_seq [OF d(1) id] eq by (auto simp: hit_def)
    then obtain d' where d': "kc_pos_add d i k = Some (False, d')"
      "kc_writes d i (kc_pos d ! i + k) (kc_seq d ! i) (kc_shift d ! i + k) d'"
      using kc_pos_add_ok [OF d(1) id, of k] fits [OF i pos(1)] pos(2) eq by metis
    then show ?thesis
      using pos id s h eq
      by (auto simp: kv_seq_add_cell_def kc_pos_in_def kc_seq_has_def hit_def)
  qed
qed (use that in auto)

lemma kv_seq_add_ok:
  assumes wf: "kv_wf kv" and s: "kv_seq_ok kv s" and fits: "kv_shift_fits kv s p0 p1 (\<lambda>p. p + k)"
  obtains kv' where "kv_seq_add kv s p0 p1 k = Some kv'" and "kv_wf kv'"
    and "kv_positions kv' s = {p \<in> kv_positions kv s. \<not> (norm_p0 p0 \<le> p \<and> p < norm_p1 p1)} \<union>
      {p + k | p. p \<in> kv_positions kv s \<and> norm_p0 p0 \<le> p \<and> p < norm_p1 p1 \<and> 0 \<le> p + k}"
    and "\<And>t. kv_seq_ok kv t \<Longrightarrow> \<not> kv_shared kv s t \<Longrightarrow> kv_positions kv' t = kv_positions kv t"
    and "\<And>t. kv_seq_ok kv' t = kv_seq_ok kv t"
proof -
  define c where "c = kv_cells_of kv s"
  define n where "n = length (kc_pos c)"
  let ?hit = "\<lambda>i. norm_p0 p0 \<le> kc_pos c ! i \<and> kc_pos c ! i < norm_p1 p1 \<and> s \<in> kc_seq c ! i"
  have cwf: "kc_wf c" using kv_cells_of_wf [OF wf s] by (simp add: c_def)
  have nn: "\<forall>p \<in> kv_positions kv s. 0 \<le> p"
    using kc_positions_nonneg [OF cwf] by (auto simp: kv_positions_def c_def)
  have pc: "kc_positions c r = {kc_pos c ! i | i. i < n \<and> r \<in> kc_seq c ! i}" for r
    by (auto simp: kc_positions_def n_def)
  have ps: "kv_strm kv r = kv_strm kv s \<Longrightarrow> kv_positions kv r = kc_positions c r" for r
    using kv_positions_same_stream [of kv r s] by (simp add: c_def)
  consider (nop) "k = 0 \<or> norm_p0 p0 = norm_p1 p1" | (run) "k \<noteq> 0" "norm_p0 p0 \<noteq> norm_p1 p1" by blast
  then show thesis
  proof cases
    case nop
    then have "kv_seq_add kv s p0 p1 k = Some kv"
      by (auto simp: kv_seq_add_def kv_stream_of_ok [OF wf s] Let_def)
    then show thesis by (rule that) (use wf nop nn in auto)
  next
    case run
    have f: "i < n \<Longrightarrow> ?hit i \<Longrightarrow> i32_ok (kc_pos c ! i + k) \<and> i32_ok (kc_shift c ! i + k)" for i
      using fits by (auto simp: kv_shift_fits_def Let_def kc_size_def c_def n_def)
    obtain nh d where d: "foldM (kv_seq_add_cell s (norm_p0 p0) (norm_p1 p1) k) [0..<n] (n, c) = Some (nh, d)"
        "nh \<le> n" "kc_wf d"
      and pos: "kc_pos d = map (\<lambda>i. if ?hit i then (if kc_pos c ! i + k < 0 then - 1 else kc_pos c ! i + k) else kc_pos c ! i) [0..<n]"
      and seq: "kc_seq d = map (\<lambda>i. if ?hit i \<and> kc_pos c ! i + k < 0 then {} else kc_seq c ! i) [0..<n]"
      using kv_seq_add_loop [OF cwf n_def kv_seq_ok_id [OF wf s], of "norm_p0 p0" "norm_p1 p1" k] f by blast
    define h where "h = (if nh \<noteq> n then nh else 0)"
    have hn: "h \<le> n" using d(2) by (simp add: h_def)
    have n: "n = length (kc_pos (kv_cells_of kv s))" by (simp add: n_def c_def)
    have own: "\<forall>i < n. (if ?hit i then (if kc_pos c ! i + k < 0 then - 1 else kc_pos c ! i + k) else kc_pos c ! i) \<noteq> - 1 \<longrightarrow>
        (if ?hit i \<and> kc_pos c ! i + k < 0 then {} else kc_seq c ! i) \<noteq> {}"
      using kv_owned_cell [OF wf s] by (auto simp: c_def n_def split: if_splits)
    have sub: "\<forall>i < n. \<forall>r \<in> (if ?hit i \<and> kc_pos c ! i + k < 0 then {} else kc_seq c ! i).
        r \<in> kc_seq (kv_cells_of kv s) ! i \<or> nat r < length (kv_seq_to_stream kv) \<and> kv_strm kv r = kv_strm kv s"
      by (auto simp: c_def split: if_splits)
    note put = kv_put_map [OF wf s d(3) pos seq n hn own sub]
    show thesis
    proof (rule that)
      show "kv_seq_add kv s p0 p1 k = Some (kv_put kv (kv_strm kv s) d h)"
        using d(1) run by (simp add: kv_seq_add_def kv_stream_of_ok [OF wf s] kc_size_def h_def n_def c_def pos Let_def)
      show "kv_wf (kv_put kv (kv_strm kv s) d h)" by (rule put(1))
      show "kv_positions (kv_put kv (kv_strm kv s) d h) s =
          {p \<in> kv_positions kv s. \<not> (norm_p0 p0 \<le> p \<and> p < norm_p1 p1)} \<union>
          {p + k | p. p \<in> kv_positions kv s \<and> norm_p0 p0 \<le> p \<and> p < norm_p1 p1 \<and> 0 \<le> p + k}"
        unfolding put(2) [OF s] ps [OF refl] pc by (auto split: if_splits) force+
      fix t
      assume t: "kv_seq_ok kv t" and nsh: "\<not> kv_shared kv s t"
      have nsh: "i < n \<Longrightarrow> t \<in> kc_seq c ! i \<Longrightarrow> s \<notin> kc_seq c ! i" for i
        using nsh by (auto simp: kv_shared_def c_def n_def kc_size_def)
      show "kv_positions (kv_put kv (kv_strm kv s) d h) t = kv_positions kv t"
        unfolding put(2) [OF t] using ps [of t] pc [of t] nsh by (auto split: if_splits)
    qed simp
  qed
qed

text \<open>
  \<open>pos_div\<close> records \<open>p_old - pos\<close> as the shift, the negative of what \<open>pos_add\<close> records
  for the same move; the sum must fit all the same.
\<close>

definition kv_div_fits :: "kv_cache \<Rightarrow> llama_seq_id \<Rightarrow> llama_pos \<Rightarrow> llama_pos \<Rightarrow> int \<Rightarrow> bool" where
  "kv_div_fits kv s p0 p1 d \<longleftrightarrow> (\<forall>i < kc_size (kv_cells_of kv s).
     let c = kv_cells_of kv s; p = kc_pos c ! i in
     s \<in> kc_seq c ! i \<and> norm_p0 p0 \<le> p \<and> p < norm_p1 p1 \<longrightarrow>
       i32_ok p \<and> i32_ok (kc_shift c ! i + (p - p div d)))"

lemma kv_seq_div_loop:
  fixes c p0 p1 s k
  defines "hit \<equiv> \<lambda>i. p0 \<le> kc_pos c ! i \<and> kc_pos c ! i < p1 \<and> s \<in> kc_seq c ! i"
  assumes wf: "kc_wf c" and n: "n = length (kc_pos c)" and s: "seq_ok s" and k: "0 < k"
    and fits: "\<And>i. i < n \<Longrightarrow> hit i \<Longrightarrow> i32_ok (kc_pos c ! i) \<and> i32_ok (kc_shift c ! i + (kc_pos c ! i - kc_pos c ! i div k))"
  obtains d where "foldM (kv_seq_div_cell s p0 p1 k) [0..<n] c = Some d" and "kc_wf d"
    and "kc_pos d = map (\<lambda>i. if hit i then kc_pos c ! i div k else kc_pos c ! i) [0..<n]"
    and "kc_seq d = map (\<lambda>i. kc_seq c ! i) [0..<n]"
proof (rule kc_loop_plain [OF wf n, where f = "kv_seq_div_cell s p0 p1 k"
      and X = "\<lambda>i. if hit i then kc_pos c ! i div k else kc_pos c ! i"
      and B = "\<lambda>i. kc_seq c ! i"
      and S = "\<lambda>i. if hit i then kc_shift c ! i + (kc_pos c ! i - kc_pos c ! i div k) else kc_shift c ! i"])
  fix i d
  assume i: "i < n" and d: "kc_wf d" "length (kc_pos d) = n" "kc_same c d i"
  have id: "i < length (kc_pos d)" using i d by simp
  have eq: "kc_pos d ! i = kc_pos c ! i" "kc_seq d ! i = kc_seq c ! i" "kc_shift d ! i = kc_shift c ! i"
    using d(3) by (simp_all add: kc_same_def)
  show "\<exists>d'. kv_seq_div_cell s p0 p1 k i d = Some d' \<and>
      kc_writes d i (if hit i then kc_pos c ! i div k else kc_pos c ! i) (kc_seq c ! i)
        (if hit i then kc_shift c ! i + (kc_pos c ! i - kc_pos c ! i div k) else kc_shift c ! i) d'"
  proof (cases "hit i")
    case False
    then show ?thesis
      using id s kc_writes_self [OF d(1), of i] eq
      by (auto simp: kv_seq_div_cell_def kc_pos_in_def kc_seq_has_def hit_def)
  next
    case True
    have "kc_pos d ! i \<noteq> - 1" using True kc_wf_in_seq [OF d(1) id] eq by (auto simp: hit_def)
    then obtain d' where d': "kc_pos_div d i k = Some d'"
      "kc_writes d i (kc_pos d ! i div k) (kc_seq d ! i) (kc_shift d ! i + (kc_pos d ! i - kc_pos d ! i div k)) d'"
      using kc_pos_div_ok [OF d(1) id _ k] fits [OF i True] eq by metis
    then show ?thesis
      using True id s eq by (auto simp: kv_seq_div_cell_def kc_pos_in_def kc_seq_has_def hit_def)
  qed
qed (use that in auto)

lemma kv_put_same_head:
  "kv_wf kv \<Longrightarrow> st < kv_n_stream kv \<Longrightarrow>
    kv\<lparr>kv_cells_v := (kv_cells_v kv)[st := c]\<rparr> = kv_put kv st c (kv_heads kv ! st)"
  by (simp add: kv_put_def)

lemma kv_seq_div_ok:
  assumes wf: "kv_wf kv" and s: "kv_seq_ok kv s" and k: "0 < k" and fits: "kv_div_fits kv s p0 p1 k"
  obtains kv' where "kv_seq_div kv s p0 p1 k = Some kv'" and "kv_wf kv'"
    and "kv_positions kv' s = {p \<in> kv_positions kv s. \<not> (norm_p0 p0 \<le> p \<and> p < norm_p1 p1)} \<union>
      {p div k | p. p \<in> kv_positions kv s \<and> norm_p0 p0 \<le> p \<and> p < norm_p1 p1}"
    and "\<And>t. kv_seq_ok kv t \<Longrightarrow> \<not> kv_shared kv s t \<Longrightarrow> kv_positions kv' t = kv_positions kv t"
proof -
  define c where "c = kv_cells_of kv s"
  define n where "n = length (kc_pos c)"
  let ?hit = "\<lambda>i. norm_p0 p0 \<le> kc_pos c ! i \<and> kc_pos c ! i < norm_p1 p1 \<and> s \<in> kc_seq c ! i"
  have cwf: "kc_wf c" using kv_cells_of_wf [OF wf s] by (simp add: c_def)
  have pc: "kc_positions c r = {kc_pos c ! i | i. i < n \<and> r \<in> kc_seq c ! i}" for r
    by (auto simp: kc_positions_def n_def)
  have ps: "kv_strm kv r = kv_strm kv s \<Longrightarrow> kv_positions kv r = kc_positions c r" for r
    using kv_positions_same_stream [of kv r s] by (simp add: c_def)
  consider (nop) "k = 1 \<or> norm_p0 p0 = norm_p1 p1" | (run) "k \<noteq> 1" "norm_p0 p0 \<noteq> norm_p1 p1" by blast
  then show thesis
  proof cases
    case nop
    then have "kv_seq_div kv s p0 p1 k = Some kv"
      by (auto simp: kv_seq_div_def kv_stream_of_ok [OF wf s] Let_def)
    then show thesis by (rule that) (use wf nop in auto)
  next
    case run
    have f: "i < n \<Longrightarrow> ?hit i \<Longrightarrow> i32_ok (kc_pos c ! i) \<and>
        i32_ok (kc_shift c ! i + (kc_pos c ! i - kc_pos c ! i div k))" for i
      using fits by (auto simp: kv_div_fits_def Let_def kc_size_def c_def n_def)
    obtain d where d: "foldM (kv_seq_div_cell s (norm_p0 p0) (norm_p1 p1) k) [0..<n] c = Some d" "kc_wf d"
      and pos: "kc_pos d = map (\<lambda>i. if ?hit i then kc_pos c ! i div k else kc_pos c ! i) [0..<n]"
      and seq: "kc_seq d = map (\<lambda>i. kc_seq c ! i) [0..<n]"
      using kv_seq_div_loop [OF cwf n_def kv_seq_ok_id [OF wf s] k, of "norm_p0 p0" "norm_p1 p1"] f by blast
    have n: "n = length (kc_pos (kv_cells_of kv s))" by (simp add: n_def c_def)
    define h where "h = kv_heads kv ! kv_strm kv s"
    have hn: "h \<le> n" using kv_head_of [OF wf s] by (simp add: h_def n)
    have own: "\<forall>i < n. (if ?hit i then kc_pos c ! i div k else kc_pos c ! i) \<noteq> - 1 \<longrightarrow> kc_seq c ! i \<noteq> {}"
      using kv_owned_cell [OF wf s] by (auto simp: c_def n_def)
    have sub: "\<forall>i < n. \<forall>r \<in> kc_seq c ! i. r \<in> kc_seq (kv_cells_of kv s) ! i \<or>
        nat r < length (kv_seq_to_stream kv) \<and> kv_strm kv r = kv_strm kv s"
      by (auto simp: c_def)
    note put = kv_put_map [OF wf s d(2) pos seq n hn own sub]
    show thesis
    proof (rule that)
      show "kv_seq_div kv s p0 p1 k = Some (kv_put kv (kv_strm kv s) d h)"
        using d(1) run kv_put_same_head [OF wf kv_seq_ok_stream [OF wf s]]
        by (simp add: kv_seq_div_def kv_stream_of_ok [OF wf s] kc_size_def h_def n_def c_def Let_def)
      show "kv_wf (kv_put kv (kv_strm kv s) d h)" by (rule put(1))
      show "kv_positions (kv_put kv (kv_strm kv s) d h) s =
          {p \<in> kv_positions kv s. \<not> (norm_p0 p0 \<le> p \<and> p < norm_p1 p1)} \<union>
          {p div k | p. p \<in> kv_positions kv s \<and> norm_p0 p0 \<le> p \<and> p < norm_p1 p1}"
        unfolding put(2) [OF s] ps [OF refl] pc by (auto split: if_splits)
      fix t
      assume t: "kv_seq_ok kv t" and nsh: "\<not> kv_shared kv s t"
      have nsh: "i < n \<Longrightarrow> t \<in> kc_seq c ! i \<Longrightarrow> s \<notin> kc_seq c ! i" for i
        using nsh by (auto simp: kv_shared_def c_def n_def kc_size_def)
      show "kv_positions (kv_put kv (kv_strm kv s) d h) t = kv_positions kv t"
        unfolding put(2) [OF t] using ps [of t] pc [of t] nsh by (auto split: if_splits)
    qed
  qed
qed

subsection \<open>\<open>seq_cp\<close>\<close>

lemma kv_seq_cp_loop:
  fixes c p0 p1 s t
  defines "hit \<equiv> \<lambda>i. p0 \<le> kc_pos c ! i \<and> kc_pos c ! i < p1 \<and> s \<in> kc_seq c ! i"
  assumes wf: "kc_wf c" and n: "n = length (kc_pos c)" and s: "seq_ok s" "seq_ok t"
    and new: "\<And>i. i < n \<Longrightarrow> hit i \<Longrightarrow> t \<notin> kc_seq c ! i"
  obtains d where "foldM (kv_seq_cp_cell s t p0 p1) [0..<n] c = Some d" and "kc_wf d"
    and "kc_pos d = map (\<lambda>i. kc_pos c ! i) [0..<n]"
    and "kc_seq d = map (\<lambda>i. if hit i then insert t (kc_seq c ! i) else kc_seq c ! i) [0..<n]"
proof (rule kc_loop_plain [OF wf n, where f = "kv_seq_cp_cell s t p0 p1"
      and X = "\<lambda>i. kc_pos c ! i" and S = "\<lambda>i. kc_shift c ! i"
      and B = "\<lambda>i. if hit i then insert t (kc_seq c ! i) else kc_seq c ! i"])
  fix i d
  assume i: "i < n" and d: "kc_wf d" "length (kc_pos d) = n" "kc_same c d i"
  have id: "i < length (kc_pos d)" using i d by simp
  have eq: "kc_pos d ! i = kc_pos c ! i" "kc_seq d ! i = kc_seq c ! i" "kc_shift d ! i = kc_shift c ! i"
    using d(3) by (simp_all add: kc_same_def)
  show "\<exists>d'. kv_seq_cp_cell s t p0 p1 i d = Some d' \<and>
      kc_writes d i (kc_pos c ! i) (if hit i then insert t (kc_seq c ! i) else kc_seq c ! i) (kc_shift c ! i) d'"
  proof (cases "hit i")
    case False
    then show ?thesis
      using id s kc_writes_self [OF d(1), of i] eq
      by (auto simp: kv_seq_cp_cell_def kc_pos_in_def kc_seq_has_def hit_def)
  next
    case True
    have "kc_pos d ! i \<noteq> - 1" using True kc_wf_in_seq [OF d(1) id] eq by (auto simp: hit_def)
    then obtain d' where d': "kc_seq_add d i t = Some d'"
      "kc_writes d i (kc_pos d ! i) (insert t (kc_seq d ! i)) (kc_shift d ! i) d'"
      using kc_seq_add_ok [OF d(1) id _ s(2)] new [OF i True] eq by metis
    then show ?thesis
      using True id s eq by (auto simp: kv_seq_cp_cell_def kc_pos_in_def kc_seq_has_def hit_def)
  qed
qed (use that in auto)

lemma kv_seq_cp_same_ok:
  assumes wf: "kv_wf kv" and s: "kv_seq_ok kv s" "kv_seq_ok kv t" and st: "kv_strm kv t = kv_strm kv s" "s \<noteq> t"
    and new: "\<And>p. p \<in> kv_positions kv t \<Longrightarrow> norm_p0 p0 \<le> p \<Longrightarrow> p < norm_p1 p1 \<Longrightarrow> False"
  obtains kv' where "kv_seq_cp kv s t p0 p1 = Some kv'" and "kv_wf kv'"
    and "kv_positions kv' t = kv_positions kv t \<union>
      {p \<in> kv_positions kv s. norm_p0 p0 \<le> p \<and> p < norm_p1 p1}"
    and "\<And>r. kv_seq_ok kv r \<Longrightarrow> r \<noteq> t \<Longrightarrow> kv_positions kv' r = kv_positions kv r"
proof -
  define c where "c = kv_cells_of kv s"
  define n where "n = length (kc_pos c)"
  let ?hit = "\<lambda>i. norm_p0 p0 \<le> kc_pos c ! i \<and> kc_pos c ! i < norm_p1 p1 \<and> s \<in> kc_seq c ! i"
  have cwf: "kc_wf c" using kv_cells_of_wf [OF wf s(1)] by (simp add: c_def)
  have pc: "kc_positions c r = {kc_pos c ! i | i. i < n \<and> r \<in> kc_seq c ! i}" for r
    by (auto simp: kc_positions_def n_def)
  have ps: "kv_strm kv r = kv_strm kv s \<Longrightarrow> kv_positions kv r = kc_positions c r" for r
    using kv_positions_same_stream [of kv r s] by (simp add: c_def)
  have f: "i < n \<Longrightarrow> ?hit i \<Longrightarrow> t \<notin> kc_seq c ! i" for i
    using new [of "kc_pos c ! i"] ps [OF st(1)] pc [of t] by auto
  obtain d where d: "foldM (kv_seq_cp_cell s t (norm_p0 p0) (norm_p1 p1)) [0..<n] c = Some d" "kc_wf d"
    and pos: "kc_pos d = map (\<lambda>i. kc_pos c ! i) [0..<n]"
    and seq: "kc_seq d = map (\<lambda>i. if ?hit i then insert t (kc_seq c ! i) else kc_seq c ! i) [0..<n]"
    using kv_seq_cp_loop [OF cwf n_def kv_seq_ok_id [OF wf s(1)] kv_seq_ok_id [OF wf s(2)],
        of "norm_p0 p0" "norm_p1 p1"] f by blast
  have n: "n = length (kc_pos (kv_cells_of kv s))" by (simp add: n_def c_def)
  define h where "h = kv_heads kv ! kv_strm kv s"
  have hn: "h \<le> n" using kv_head_of [OF wf s(1)] by (simp add: h_def n)
  have own: "\<forall>i < n. kc_pos c ! i \<noteq> - 1 \<longrightarrow> (if ?hit i then insert t (kc_seq c ! i) else kc_seq c ! i) \<noteq> {}"
    using kv_owned_cell [OF wf s(1)] by (auto simp: c_def n_def)
  have sub: "\<forall>i < n. \<forall>r \<in> (if ?hit i then insert t (kc_seq c ! i) else kc_seq c ! i).
      r \<in> kc_seq (kv_cells_of kv s) ! i \<or> nat r < length (kv_seq_to_stream kv) \<and> kv_strm kv r = kv_strm kv s"
    using s(2) st(1) unfolding c_def kv_seq_ok_def by auto
  note put = kv_put_map [OF wf s(1) d(2) pos seq n hn own sub]
  show thesis
  proof (rule that)
    show "kv_seq_cp kv s t p0 p1 = Some (kv_put kv (kv_strm kv s) d h)"
      using d(1) st(2) kv_put_same_head [OF wf kv_seq_ok_stream [OF wf s(1)]]
      unfolding kv_seq_cp_def kv_stream_of_ok [OF wf s(1)] kv_stream_of_ok [OF wf s(2)] st(1)
      by (simp add: kc_size_def h_def n_def c_def)
    show "kv_wf (kv_put kv (kv_strm kv s) d h)" by (rule put(1))
    show "kv_positions (kv_put kv (kv_strm kv s) d h) t = kv_positions kv t \<union>
        {p \<in> kv_positions kv s. norm_p0 p0 \<le> p \<and> p < norm_p1 p1}"
      unfolding put(2) [OF s(2)] ps [OF refl] ps [OF st(1)] pc if_P [OF st(1)] by (auto split: if_splits)
    fix r
    assume "kv_seq_ok kv r" "r \<noteq> t"
    then show "kv_positions (kv_put kv (kv_strm kv s) d h) r = kv_positions kv r"
      using put(2) [of r] ps [of r] pc [of r] by auto
  qed
qed

text \<open>
  Copying between streams replaces the destination stream: its cells are reset and take the
  cells of \<open>src\<close>, positions and pending shifts included.
\<close>

definition kv_unshift_ok :: "kv_cells \<Rightarrow> llama_seq_id \<Rightarrow> bool" where
  "kv_unshift_ok c s \<longleftrightarrow> (\<forall>i < kc_size c. s \<in> kc_seq c ! i \<longrightarrow>
     i32_ok (kc_pos c ! i) \<and> i32_ok (kc_shift c ! i) \<and>
     0 \<le> kc_pos c ! i - kc_shift c ! i \<and> i32_ok (kc_pos c ! i - kc_shift c ! i))"

lemma kv_seq_cp_stream_cell_ok:
  assumes c0: "kc_wf c0" "i < length (kc_pos c0)" and s: "seq_ok s" "seq_ok t"
    and us: "kv_unshift_ok c0 s" and d: "kc_wf d" "length (kc_pos d) = length (kc_pos c0)" "kc_pos d ! i = - 1"
  shows "\<exists>d'. kv_seq_cp_stream_cell c0 s t i d = Some d' \<and>
    (if s \<in> kc_seq c0 ! i then kc_writes d i (kc_pos c0 ! i) {t} (kc_shift c0 ! i) d' else d' = d)"
proof (cases "s \<in> kc_seq c0 ! i")
  case False
  then show ?thesis using c0 s by (simp add: kv_seq_cp_stream_cell_def kc_seq_has_def)
next
  case True
  define p where "p = kc_pos c0 ! i"
  define sh where "sh = kc_shift c0 ! i"
  have p: "p \<noteq> - 1" "0 \<le> p - sh" "i32_ok (p - sh)" "i32_ok p" "i32_ok sh" "0 \<le> p"
    using kc_wf_in_seq [OF c0 True] kc_wf_pos [OF c0] us True c0(2)
    by (auto simp: p_def sh_def kv_unshift_ok_def kc_size_def)
  have id: "i < length (kc_pos d)" using c0(2) d(2) by simp
  obtain d1 where d1: "kc_pos_set d i (p - sh) = Some d1" "kc_writes d i (p - sh) {} 0 d1"
    using kc_pos_set_ok [OF d(1) id d(3) p(2)] by blast
  have w1: "kc_wf d1" "i < length (kc_pos d1)" "kc_pos d1 ! i = p - sh" "kc_seq d1 ! i = {}" "kc_shift d1 ! i = 0"
    using d1(2) id kc_wf_len_seq [OF d(1)] kc_wf_len_shift [OF d(1)] by (auto simp: kc_writes_def)
  obtain d2 where d2: "kc_seq_add d1 i t = Some d2" "kc_writes d1 i (p - sh) {t} 0 d2"
    using kc_seq_add_ok [OF w1(1,2) _ s(2)] w1 p by auto
  have w2: "kc_wf d2" "i < length (kc_pos d2)" "kc_pos d2 ! i = p - sh" "kc_seq d2 ! i = {t}" "kc_shift d2 ! i = 0"
    using d2(2) w1 kc_wf_len_seq [OF w1(1)] kc_wf_len_shift [OF w1(1)] by (auto simp: kc_writes_def)
  have w12: "kc_writes d i (p - sh) {t} 0 d2" using d1(2) d2(2) by (simp add: kc_writes_def)
  have get: "kc_seq_has c0 i s = Some True" "kc_pos_get c0 i = Some p" "kc_get_shift c0 i = Some sh"
    using c0 s True p by (simp_all add: kc_seq_has_def kc_pos_get_def kc_get_shift_def p_def sh_def)
  show ?thesis
  proof (cases "sh = 0")
    case True
    then show ?thesis
      using get d1(1) d2(1) w12 \<open>s \<in> kc_seq c0 ! i\<close> p
      by (simp add: kv_seq_cp_stream_cell_def p_def [symmetric] sh_def [symmetric])
  next
    case False
    obtain d3 where d3: "kc_pos_add d2 i sh = Some (False, d3)" "kc_writes d2 i p {t} sh d3"
      using kc_pos_add_ok [OF w2(1,2), of sh] w2 p by auto
    have "kc_writes d i p {t} sh d3" using w12 d3(2) by (simp add: kc_writes_def)
    then show ?thesis
      using get d1(1) d2(1) d3(1) \<open>s \<in> kc_seq c0 ! i\<close> p False
      by (simp add: kv_seq_cp_stream_cell_def p_def [symmetric] sh_def [symmetric])
  qed
qed

lemma kv_wf_sc_info [simp]: "kv_wf (kv\<lparr>kv_sc_info := x\<rparr>) = kv_wf kv"
  by (simp add: kv_wf_def)

lemma kv_seq_cp_stream_ok:
  assumes wf: "kv_wf kv" and s: "kv_seq_ok kv s" "kv_seq_ok kv t" and st: "kv_strm kv t \<noteq> kv_strm kv s"
    and cut: "kv_cuts p0 (kc_size (kv_cells_of kv s)) = Some False" "kv_cuts p1 (kc_size (kv_cells_of kv s)) = Some False"
    and us: "kv_unshift_ok (kv_cells_of kv s) s"
  obtains kv' where "kv_seq_cp kv s t p0 p1 = Some kv'" and "kv_wf kv'"
    and "kv_positions kv' t = kv_positions kv s"
    and "\<And>r. kv_seq_ok kv r \<Longrightarrow> r \<noteq> t \<Longrightarrow> kv_positions kv' r =
      (if kv_strm kv r = kv_strm kv t then {} else kv_positions kv r)"
proof -
  define c where "c = kv_cells_of kv s"
  define n where "n = length (kc_pos c)"
  define e where "e = kc_reset (kv_cells_of kv t)"
  have cwf: "kc_wf c" using kv_cells_of_wf [OF wf s(1)] by (simp add: c_def)
  have ewf: "kc_wf e" using kc_wf_reset [OF kv_cells_of_wf [OF wf s(2)]] by (simp add: e_def)
  have sz: "kc_size d = kc_size (hd (kv_cells_v kv))" if "d \<in> set (kv_cells_v kv)" for d
    using wf that unfolding kv_wf_def by blast
  have mem: "kv_seq_ok kv r \<Longrightarrow> kv_cells_of kv r \<in> set (kv_cells_v kv)" for r
    unfolding kv_cells_of_def using kv_seq_ok_stream [OF wf] kv_wf_len_cells [OF wf] by (intro nth_mem) simp
  have n: "n = length (kc_pos (kv_cells_of kv t))"
    using sz [OF mem [OF s(1)]] sz [OF mem [OF s(2)]] by (simp add: kc_size_def n_def c_def)
  have en: "n = length (kc_pos e)" by (simp add: n e_def kc_reset_def)
  have sz0: "kv_get_size kv = Some n"
  proof -
    have st0: "kv_seq_to_stream kv ! 0 < kv_n_stream kv"
      using wf nth_mem [of 0 "kv_seq_to_stream kv"] unfolding kv_wf_def by blast
    then have "kv_cells_v kv ! (kv_seq_to_stream kv ! 0) \<in> set (kv_cells_v kv)"
      using kv_wf_len_cells [OF wf] by simp
    then have "kc_size (kv_cells_v kv ! (kv_seq_to_stream kv ! 0)) = n"
      using sz sz [OF mem [OF s(1)]] by (simp add: kc_size_def n_def c_def)
    then show ?thesis using st0 kv_wf_s2s [OF wf] kv_wf_len_cells [OF wf] by (simp add: kv_get_size_def)
  qed
  obtain d where d: "foldM (kv_seq_cp_stream_cell c s t) [0..<n] e = Some d" "kc_wf d"
    and pos: "kc_pos d = map (\<lambda>i. if s \<in> kc_seq c ! i then kc_pos c ! i else - 1) [0..<n]"
    and seq: "kc_seq d = map (\<lambda>i. if s \<in> kc_seq c ! i then {t} else {}) [0..<n]"
  proof (rule kc_loop_plain [OF ewf en, where f = "kv_seq_cp_stream_cell c s t"
        and X = "\<lambda>i. if s \<in> kc_seq c ! i then kc_pos c ! i else - 1"
        and B = "\<lambda>i. if s \<in> kc_seq c ! i then {t} else {}"
        and S = "\<lambda>i. if s \<in> kc_seq c ! i then kc_shift c ! i else 0"])
    fix i d
    assume i: "i < n" and d: "kc_wf d" "length (kc_pos d) = n" "kc_same e d i"
    have ei: "kc_pos d ! i = - 1" "kc_seq d ! i = {}" "kc_shift d ! i = 0"
      using d(3) i n kc_wf_len_seq [OF ewf] kc_wf_len_shift [OF ewf] en kv_cells_of_wf [OF wf s(2)]
      by (auto simp: kc_same_def e_def kc_reset_def kc_wf_len_seq kc_wf_len_shift)
    have "\<exists>d'. kv_seq_cp_stream_cell c s t i d = Some d' \<and>
      (if s \<in> kc_seq c ! i then kc_writes d i (kc_pos c ! i) {t} (kc_shift c ! i) d' else d' = d)"
      by (rule kv_seq_cp_stream_cell_ok [OF cwf _ kv_seq_ok_id [OF wf s(1)] kv_seq_ok_id [OF wf s(2)] _ d(1) _ ei(1)])
        (use i d(2) us in \<open>auto simp: n_def c_def\<close>)
    then show "\<exists>d'. kv_seq_cp_stream_cell c s t i d = Some d' \<and>
        kc_writes d i (if s \<in> kc_seq c ! i then kc_pos c ! i else - 1) (if s \<in> kc_seq c ! i then {t} else {})
          (if s \<in> kc_seq c ! i then kc_shift c ! i else 0) d'"
      using kc_writes_self [OF d(1), of i] ei by (auto split: if_splits)
  qed (use that in auto)
  define kv1 where "kv1 = kv\<lparr>kv_sc_info := \<lparr>sc_ssrc = sc_ssrc (kv_sc_info kv) @ [kv_strm kv s],
    sc_sdst = sc_sdst (kv_sc_info kv) @ [kv_strm kv t]\<rparr>\<rparr>"
  have kv1 [simp]: "kv_seq_to_stream kv1 = kv_seq_to_stream kv" "kv_cells_of kv1 r = kv_cells_of kv r"
    "kv_seq_ok kv1 r = kv_seq_ok kv r" "kv_positions kv1 r = kv_positions kv r" for r
    by (simp_all add: kv1_def kv_cells_of_def kv_seq_ok_def kv_positions_def)
  have wf1: "kv_wf kv1" using wf by (simp add: kv1_def)
  have s1: "kv_seq_ok kv1 t" using s by simp
  define h where "h = kv_heads kv ! kv_strm kv s"
  have hn: "h \<le> n" using kv_head_of [OF wf s(1)] by (simp add: h_def n_def c_def)
  have n1: "n = length (kc_pos (kv_cells_of kv1 t))" using n by simp
  have own: "\<forall>i < n. (if s \<in> kc_seq c ! i then kc_pos c ! i else - 1) \<noteq> - 1 \<longrightarrow>
      (if s \<in> kc_seq c ! i then {t} else {}) \<noteq> {}"
    by auto
  have sub: "\<forall>i < n. \<forall>r \<in> (if s \<in> kc_seq c ! i then {t} else {}). r \<in> kc_seq (kv_cells_of kv1 t) ! i \<or>
      nat r < length (kv_seq_to_stream kv1) \<and> kv_strm kv1 r = kv_strm kv1 t"
    using s(2) unfolding kv_seq_ok_def by auto
  note put = kv_put_map [OF wf1 s1 d(2) pos seq n1 hn own sub, unfolded kv1]
  show thesis
  proof (rule that)
    show "kv_seq_cp kv s t p0 p1 = Some (kv_put kv1 (kv_strm kv t) d h)"
      using d(1) st [symmetric] cut sz0
      unfolding kv_seq_cp_def kv_stream_of_ok [OF wf s(1)] kv_stream_of_ok [OF wf s(2)]
      by (simp add: kc_size_def h_def n_def [symmetric] c_def [symmetric] e_def kv1_def Let_def)
    show "kv_wf (kv_put kv1 (kv_strm kv t) d h)" by (rule put(1))
    show "kv_positions (kv_put kv1 (kv_strm kv t) d h) t = kv_positions kv s"
      unfolding put(2) [OF s(2)] if_P [OF refl]
      by (auto simp: kv_positions_def kc_positions_def c_def [symmetric] n_def split: if_splits)
    fix r
    assume r: "kv_seq_ok kv r" "r \<noteq> t"
    show "kv_positions (kv_put kv1 (kv_strm kv t) d h) r =
        (if kv_strm kv r = kv_strm kv t then {} else kv_positions kv r)"
      unfolding put(2) [OF r(1)] using r(2) by (auto split: if_splits)
  qed
qed

subsection \<open>\<open>clear\<close> and the constructor\<close>

lemma kc_owned_fresh: "kc_wf c \<Longrightarrow> kc_owned (kc_reset c)"
  by (auto simp: kc_owned_def kc_reset_def)

lemma kc_positions_reset [simp]: "kc_wf c \<Longrightarrow> kc_positions (kc_reset c) s = {}"
  by (auto simp: kc_positions_def kc_reset_def kc_wf_len_seq)

lemma kc_reset_seq: "kc_wf c \<Longrightarrow> i < length (kc_pos c) \<Longrightarrow> kc_seq (kc_reset c) ! i = {}"
  by (simp add: kc_reset_def kc_wf_len_seq)

lemma kc_size_reset [simp]: "kc_size (kc_reset c) = kc_size c"
  by (simp add: kc_size_def kc_reset_def)

lemma kv_clear_wf:
  assumes wf: "kv_wf kv"
  shows "kv_wf (kv_clear kv)"
proof -
  note len = kv_wf_len_cells [OF wf] kv_wf_len_heads [OF wf]
  have cells: "\<forall>c \<in> set (kv_cells_v kv). kc_wf c \<and> kc_size c = kc_size (hd (kv_cells_v kv))"
    using wf unfolding kv_wf_def by blast
  have "kc_wf c \<and> kc_owned c \<and> kc_size c = kc_size (hd (kv_cells_v (kv_clear kv)))"
    if c: "c \<in> set (kv_cells_v (kv_clear kv))" for c
  proof -
    obtain d where d: "d \<in> set (kv_cells_v kv)" "c = kc_reset d" using c by (auto simp: kv_clear_def)
    then have "hd (kv_cells_v (kv_clear kv)) = kc_reset (hd (kv_cells_v kv))"
      by (cases "kv_cells_v kv") (auto simp: kv_clear_def)
    then show ?thesis using d cells kc_wf_reset kc_owned_fresh by simp
  qed
  moreover have "kc_seq (kv_cells_v (kv_clear kv) ! st) ! i = {}"
    if "st < kv_n_stream kv" "i < kc_size (kv_cells_v (kv_clear kv) ! st)" for st i
    using that len kc_reset_seq [OF kv_wf_cells [OF wf that(1)]] by (simp add: kv_clear_def kc_size_def kc_reset_def)
  moreover have "kv_heads (kv_clear kv) ! st = 0" if "st < kv_n_stream kv" for st
    using that len by (simp add: kv_clear_def)
  moreover have "length (kv_cells_v (kv_clear kv)) = kv_n_stream kv" "length (kv_heads (kv_clear kv)) = kv_n_stream kv"
    "kv_n_stream (kv_clear kv) = kv_n_stream kv" "kv_seq_to_stream (kv_clear kv) = kv_seq_to_stream kv"
    using len by (simp_all add: kv_clear_def)
  ultimately show ?thesis using wf unfolding kv_wf_def by auto
qed

lemma kv_clear_positions:
  assumes wf: "kv_wf kv" and s: "kv_seq_ok kv s"
  shows "kv_positions (kv_clear kv) s = {}"
proof -
  have "kv_cells_of (kv_clear kv) s = kc_reset (kv_cells_of kv s)"
    using kv_seq_ok_stream [OF wf s] kv_wf_len_cells [OF wf] by (simp add: kv_cells_of_def kv_clear_def)
  then show ?thesis using kv_cells_of_wf [OF wf s] by (simp add: kv_positions_def)
qed

lemma kv_clear_seq_ok [simp]: "kv_seq_ok (kv_clear kv) s = kv_seq_ok kv s"
  by (simp add: kv_seq_ok_def kv_clear_def)

lemma fold_update_id: "n \<le> length v \<Longrightarrow> fold (\<lambda>s v. v[s := s]) [0..<n] v = [0..<n] @ drop n v"
proof (induction n)
  case (Suc n)
  then have "([0..<n] @ drop n v)[n := n] = [0..<Suc n] @ drop (Suc n) v"
    by (simp add: list_update_append Cons_nth_drop_Suc [symmetric])
  then show ?case using Suc by simp
qed simp

lemma length_vresize [simp]: "length (vresize n x xs) = n"
  by (simp add: vresize_def)

lemma kv_init_eq:
  assumes "kv_init v_trans set_rows unified kv_size n_seq_max n_pad n_swa swa_type = Some kv"
  defines "n \<equiv> if unified then 1 else n_seq_max"
  shows "kv = \<lparr>kv_n_seq_max = n_seq_max, kv_n_stream = n, kv_n_pad = n_pad, kv_n_swa = n_swa,
       kv_swa_type = swa_type, kv_v_trans = v_trans, kv_supports_set_rows = set_rows,
       kv_heads = replicate n 0, kv_cells_v = replicate n (kc_resize kc_empty kv_size),
       kv_seq_to_stream = (if n > 1 then [0..<n] else replicate LLAMA_MAX_SEQ 0), kv_sc_info = sc_empty\<rparr>"
proof -
  have "fold (\<lambda>s v. v[s := s]) [0..<n] (vresize n 0 (replicate LLAMA_MAX_SEQ 0)) = [0..<n]"
    by (subst fold_update_id) simp_all
  then show ?thesis
    using assms(1) unfolding kv_init_def n_def [symmetric] Let_def by auto
qed

lemma kc_resize_facts:
  "kc_size (kc_resize kc_empty n) = n" "kc_owned (kc_resize kc_empty n)"
  "i < n \<Longrightarrow> kc_seq (kc_resize kc_empty n) ! i = {}" "kc_positions (kc_resize kc_empty n) s = {}"
  by (simp_all add: kc_size_def kc_owned_def kc_positions_def)

lemma kv_init_wf:
  assumes init: "kv_init v_trans set_rows unified kv_size n_seq_max n_pad n_swa swa_type = Some kv"
    and n: "0 < n_seq_max" "n_seq_max \<le> LLAMA_MAX_SEQ"
  shows "kv_wf kv" and "kv_seq_ok kv s \<Longrightarrow> kv_positions kv s = {}"
proof -
  have ns: "(if unified then 1 else n_seq_max) \<noteq> 0" "\<not> 1 < (if unified then 1 else n_seq_max) \<Longrightarrow> (if unified then 1 else n_seq_max) = 1"
    using n by auto
  show wf: "kv_wf kv"
    using n ns kc_wf_resize [of kv_size] unfolding kv_wf_def kv_init_eq [OF init]
    by (auto simp: kc_resize_facts)
  assume s: "kv_seq_ok kv s"
  show "kv_positions kv s = {}"
    using kv_seq_ok_stream [OF wf s] unfolding kv_init_eq [OF init]
    by (simp add: kv_positions_def kv_cells_of_def kc_resize_facts)
qed

lemma kv_seq_pos_min_ok:
  assumes wf: "kv_wf kv" and s: "kv_seq_ok kv s"
  shows "kv_seq_pos_min kv s = Some (if kv_positions kv s = {} then - 1 else Min (kv_positions kv s))"
  using kc_seq_pos_min_eq [OF kv_cells_of_wf [OF wf s] kv_seq_ok_id [OF wf s]]
  by (simp add: kv_seq_pos_min_def kv_stream_of_ok [OF wf s] kv_positions_def)

lemma kv_seq_pos_max_ok:
  assumes wf: "kv_wf kv" and s: "kv_seq_ok kv s"
  shows "kv_seq_pos_max kv s = Some (if kv_positions kv s = {} then - 1 else Max (kv_positions kv s))"
  using kc_seq_pos_max_eq [OF kv_cells_of_wf [OF wf s] kv_seq_ok_id [OF wf s]]
  by (simp add: kv_seq_pos_max_def kv_stream_of_ok [OF wf s] kv_positions_def)

lemma finite_kv_positions [simp]: "finite (kv_positions kv s)"
  by (simp add: kv_positions_def)

lemma kv_positions_nonneg: "kv_wf kv \<Longrightarrow> kv_seq_ok kv s \<Longrightarrow> p \<in> kv_positions kv s \<Longrightarrow> 0 \<le> p"
  using kc_positions_nonneg [OF kv_cells_of_wf] by (simp add: kv_positions_def)

end
