(* ===== verification/Batch.thy ===== *)
theory Batch
  imports KvCells "HOL-Library.Word"
begin

text \<open>
  Batches and micro-batches (include/llama.h, src/llama-batch.h, src/llama-batch.cpp).

  A nullable C array is a list in an \<open>option\<close>; reading it outside the list, or through a null
  pointer, is undefined and gives \<open>None\<close>.  A \<open>float\<close> is its 32-bit pattern (the code only
  copies it).  \<open>std::bitset<LLAMA_MAX_SEQ>\<close> and \<open>std::set<llama_pos>\<close> are sets.  The vectors
  \<open>pos\<close>, \<open>n_seq_id\<close>, \<open>seq_id\<close> and \<open>output\<close> of the allocator only own the memory that the
  generated fields of \<open>batch\<close> point to; here \<open>batch\<close> holds the values.
\<close>

type_synonym f32 = "32 word"

record llama_batch =
  lb_n_tokens :: int
  lb_token :: "llama_token list option"
  lb_embd :: "f32 list option"
  lb_pos :: "llama_pos list option"
  lb_n_seq_id :: "int list option"
  lb_seq_id :: "llama_seq_id list list option"
  lb_logits :: "int list option"

record llama_ubatch =
  ub_equal_seqs :: bool
  ub_n_tokens :: nat
  ub_n_seq_tokens :: nat
  ub_n_seqs :: nat
  ub_n_seqs_unq :: nat
  ub_token :: "llama_token list option"
  ub_embd :: "f32 list option"
  ub_pos :: "llama_pos list"
  ub_n_seq_id :: "int list"
  ub_seq_id :: "llama_seq_id list list"
  ub_seq_id_unq :: "llama_seq_id list"
  ub_seq_idx :: "int list"
  ub_output :: "int list"

text \<open>\<open>llama_ubatch{}\<close>, which the split functions return when the batch is consumed.\<close>

definition ub_none :: llama_ubatch where
  "ub_none = \<lparr>ub_equal_seqs = False, ub_n_tokens = 0, ub_n_seq_tokens = 0, ub_n_seqs = 0, ub_n_seqs_unq = 0,
     ub_token = None, ub_embd = None, ub_pos = [], ub_n_seq_id = [], ub_seq_id = [], ub_seq_id_unq = [],
     ub_seq_idx = [], ub_output = []\<rparr>"

record batch_allocr =
  ba_batch :: llama_batch
  ba_n_pos_per_embd :: nat
  ba_n_embd :: nat
  ba_n_seq_max :: nat
  ba_n_outputs :: nat
  ba_seq_id_unq :: "llama_seq_id list"
  ba_seq_idx :: "int list"
  ba_has_cpl :: bool
  ba_seq_pos :: "llama_pos set list"
  ba_seq_cpl :: "bool list list"
  ba_seq_set :: "llama_seq_id set list"
  ba_seq_set_map :: "llama_seq_id set \<Rightarrow> nat list"
  ba_out_ids :: "nat list"
  ba_n_used :: nat
  ba_used :: "bool list"

text \<open>The memory the batch is checked against: \<open>seq_pos_min\<close> and \<open>seq_pos_max\<close> of \<open>llama_memory_i\<close>.\<close>

type_synonym memory_view = "(llama_seq_id \<Rightarrow> llama_pos option) \<times> (llama_seq_id \<Rightarrow> llama_pos option)"

text \<open>Reading \<open>p[i]\<close> through a nullable pointer.\<close>

definition pget :: "'a list option \<Rightarrow> nat \<Rightarrow> 'a option" where
  "pget p i = Option.bind p (\<lambda>xs. vget xs i)"

text \<open>An array subscript computed from a signed value.\<close>

definition sidx :: "int \<Rightarrow> nat option" where
  "sidx s = (if 0 \<le> s then Some (nat s) else None)"

subsection \<open>Construction and reset\<close>

definition lb_null :: llama_batch where
  "lb_null = \<lparr>lb_n_tokens = 0, lb_token = None, lb_embd = None, lb_pos = None, lb_n_seq_id = None,
     lb_seq_id = None, lb_logits = None\<rparr>"

definition ba_new :: "nat \<Rightarrow> batch_allocr" where
  "ba_new n_pos_per_embd = \<lparr>ba_batch = lb_null, ba_n_pos_per_embd = n_pos_per_embd, ba_n_embd = 0,
     ba_n_seq_max = 0, ba_n_outputs = 0, ba_seq_id_unq = [], ba_seq_idx = replicate LLAMA_MAX_SEQ (- 1),
     ba_has_cpl = False, ba_seq_pos = replicate LLAMA_MAX_SEQ {},
     ba_seq_cpl = replicate LLAMA_MAX_SEQ (replicate LLAMA_MAX_SEQ False), ba_seq_set = [],
     ba_seq_set_map = (\<lambda>_. []), ba_out_ids = [], ba_n_used = 0, ba_used = []\<rparr>"

definition ba_clear :: "batch_allocr \<Rightarrow> batch_allocr" where
  "ba_clear a = a\<lparr>ba_n_outputs := 0, ba_batch := lb_null, ba_seq_id_unq := [],
     ba_seq_pos := map (\<lambda>_. {}) (ba_seq_pos a), ba_seq_cpl := map (map (\<lambda>_. False)) (ba_seq_cpl a),
     ba_seq_set := [], ba_seq_set_map := (\<lambda>_. []), ba_seq_idx := map (\<lambda>_. - 1) (ba_seq_idx a)\<rparr>"

definition ba_get_n_tokens :: "batch_allocr \<Rightarrow> nat" where
  "ba_get_n_tokens a = nat (lb_n_tokens (ba_batch a))"

definition ba_split_reset :: "batch_allocr \<Rightarrow> batch_allocr" where
  "ba_split_reset a = a\<lparr>ba_out_ids := [], ba_n_used := 0, ba_used := replicate (ba_get_n_tokens a) False\<rparr>"

definition ba_seq_pos_min :: "batch_allocr \<Rightarrow> nat \<Rightarrow> llama_pos option" where
  "ba_seq_pos_min a s = do { m \<leftarrow> vget (ba_seq_pos a) s; Some (if m = {} then - 1 else Min m) }"

definition ba_seq_pos_max :: "batch_allocr \<Rightarrow> nat \<Rightarrow> llama_pos option" where
  "ba_seq_pos_max a s = do { m \<leftarrow> vget (ba_seq_pos a) s; Some (if m = {} then - 1 else Max m) }"

subsection \<open>\<open>init\<close>: validation of the input\<close>

definition ba_valid_tokens :: "nat \<Rightarrow> llama_batch \<Rightarrow> bool option" where
  "ba_valid_tokens vocab_n b = (case lb_token b of
     None \<Rightarrow> Some True
   | Some _ \<Rightarrow> allM (\<lambda>i. do { t \<leftarrow> pget (lb_token b) i; Some (\<not> (t < 0 \<or> nat t \<ge> vocab_n)) })
       [0..<nat (lb_n_tokens b)])"

definition ba_valid_seqs :: "nat \<Rightarrow> llama_batch \<Rightarrow> bool option" where
  "ba_valid_seqs n_seq_max b = (case lb_seq_id b of
     None \<Rightarrow> Some True
   | Some _ \<Rightarrow> allM (\<lambda>i. do {
       n \<leftarrow> pget (lb_n_seq_id b) i;
       allM (\<lambda>s. do { ids \<leftarrow> pget (lb_seq_id b) i; id \<leftarrow> vget ids s;
           Some (\<not> (id < 0 \<or> id \<ge> int n_seq_max)) }) [0..<nat n] }) [0..<nat (lb_n_tokens b)])"

subsection \<open>\<open>init\<close>: the missing fields\<close>

text \<open>\<open>n_seq_id\<close> and \<open>seq_id\<close>: every token belongs to the default sequence 0.\<close>

definition ba_gen_ids :: "llama_batch \<Rightarrow> llama_batch" where
  "ba_gen_ids b = (let n = nat (lb_n_tokens b);
     b = (if lb_n_seq_id b = None then b\<lparr>lb_n_seq_id := Some (replicate n 1)\<rparr> else b) in
     if lb_seq_id b = None then b\<lparr>lb_seq_id := Some (replicate n [0])\<rparr> else b)"

text \<open>\<open>p0[s]\<close> for \<open>s < n_seq_max\<close>: where the memory ends, or 0 without a memory.\<close>

definition ba_pos_start :: "memory_view option \<Rightarrow> nat \<Rightarrow> llama_pos list option" where
  "ba_pos_start mem n_seq_max = foldM (\<lambda>s p0. do {
      v \<leftarrow> (case mem of None \<Rightarrow> Some 0
        | Some (mn, mx) \<Rightarrow> do { m \<leftarrow> mx (int s); guard (i32_ok (m + 1)); Some (m + 1) });
      Some (p0 @ [v]) }) [0..<n_seq_max] []"

definition ba_pos_tok :: "llama_batch \<Rightarrow> nat \<Rightarrow> llama_pos list \<times> llama_pos list \<Rightarrow> (llama_pos list \<times> llama_pos list) option" where
  "ba_pos_tok b i = (\<lambda>(pos, p0). do {
     ids \<leftarrow> pget (lb_seq_id b) i;
     s0 \<leftarrow> vget ids 0;
     k0 \<leftarrow> sidx s0;
     p \<leftarrow> vget p0 k0;
     n \<leftarrow> pget (lb_n_seq_id b) i;
     p0 \<leftarrow> foldM (\<lambda>s p0. do {
         id \<leftarrow> vget ids s;
         k \<leftarrow> sidx id;
         guard (i32_ok (p + 1));
         vset p0 k (p + 1) }) [0..<nat n] p0;
     Some (pos @ [p], p0) })"

definition ba_gen_pos :: "memory_view option \<Rightarrow> nat \<Rightarrow> llama_batch \<Rightarrow> llama_batch option" where
  "ba_gen_pos mem n_seq_max b = (if lb_pos b \<noteq> None then Some b else do {
     p0 \<leftarrow> ba_pos_start mem n_seq_max;
     (pos, p0) \<leftarrow> foldM (ba_pos_tok b) [0..<nat (lb_n_tokens b)] ([], p0);
     Some (b\<lparr>lb_pos := Some pos\<rparr>) })"

definition ba_gen_logits :: "bool \<Rightarrow> llama_batch \<Rightarrow> llama_batch option" where
  "ba_gen_logits output_all b = (let n = nat (lb_n_tokens b) in
     case lb_logits b of
       None \<Rightarrow> Some (b\<lparr>lb_logits := Some (if output_all then replicate n 1 else (replicate n 0)[n - 1 := 1])\<rparr>)
     | Some l \<Rightarrow> if \<not> output_all then Some b else do {
         warn \<leftarrow> foldM (\<lambda>i warn. do { x \<leftarrow> vget l i; Some (x = 0 \<or> warn) }) [0..<n] False;
         Some (if warn then b\<lparr>lb_logits := Some (replicate n 1)\<rparr> else b) })"

subsection \<open>\<open>init\<close>: the tables\<close>

definition ba_count_outputs :: "batch_allocr \<Rightarrow> batch_allocr option" where
  "ba_count_outputs a = foldM (\<lambda>i a. do {
      l \<leftarrow> pget (lb_logits (ba_batch a)) i;
      Some (a\<lparr>ba_n_outputs := ba_n_outputs a + (if l \<noteq> 0 then 1 else 0)\<rparr>) })
    [0..<ba_get_n_tokens a] a"

definition ba_couple_tok :: "nat \<Rightarrow> batch_allocr \<Rightarrow> batch_allocr option" where
  "ba_couple_tok i a = do {
     ids \<leftarrow> pget (lb_seq_id (ba_batch a)) i;
     s0 \<leftarrow> vget ids 0;
     n \<leftarrow> pget (lb_n_seq_id (ba_batch a)) i;
     foldM (\<lambda>s a. do {
       s1 \<leftarrow> vget ids s;
       k1 \<leftarrow> sidx s1;
       p \<leftarrow> pget (lb_pos (ba_batch a)) i;
       m \<leftarrow> vget (ba_seq_pos a) k1;
       let a = a\<lparr>ba_seq_pos := (ba_seq_pos a)[k1 := insert p m]\<rparr>;
       if s > 0 then do {
         k0 \<leftarrow> sidx s0;
         row \<leftarrow> vget (ba_seq_cpl a) k1;
         row \<leftarrow> vset row k0 True;
         Some (a\<lparr>ba_seq_cpl := (ba_seq_cpl a)[k1 := row], ba_has_cpl := True\<rparr>) }
       else Some a }) [0..<nat n] a }"

text \<open>The sequence set of a token: \<open>cur.set(seq_id)\<close> throws when \<open>seq_id\<close> is not below \<open>LLAMA_MAX_SEQ\<close>.\<close>

definition ba_tok_set :: "llama_batch \<Rightarrow> nat \<Rightarrow> llama_seq_id set option" where
  "ba_tok_set b i = do {
     n \<leftarrow> pget (lb_n_seq_id b) i;
     foldM (\<lambda>s cur. do {
       ids \<leftarrow> pget (lb_seq_id b) i;
       id \<leftarrow> vget ids s;
       guard (seq_ok id);
       Some (insert id cur) }) [0..<nat n] {} }"

definition ba_set_tok :: "nat \<Rightarrow> llama_seq_id set \<times> batch_allocr \<Rightarrow> (llama_seq_id set \<times> batch_allocr) option" where
  "ba_set_tok i = (\<lambda>(unq, a). do {
     cur \<leftarrow> ba_tok_set (ba_batch a) i;
     Some (unq \<union> cur, a\<lparr>ba_seq_set := ba_seq_set a @ [cur],
       ba_seq_set_map := (ba_seq_set_map a)(cur := ba_seq_set_map a cur @ [i])\<rparr>) })"

text \<open>\<open>seq_idx\<close> and \<open>seq_id_unq\<close>: the sequences that occur, numbered in increasing order.\<close>

definition unq_number :: "nat \<Rightarrow> llama_seq_id set \<Rightarrow> int list \<times> llama_seq_id list \<Rightarrow> (int list \<times> llama_seq_id list) option" where
  "unq_number n_seq_max unq = foldM (\<lambda>s (idx, ids).
     if int s \<in> unq then do {
       idx \<leftarrow> vset idx s (int (length ids));
       Some (idx, ids @ [int s]) } else do {
       guard (s < LLAMA_MAX_SEQ);
       Some (idx, ids) }) [0..<n_seq_max]"

definition ba_tables :: "batch_allocr \<Rightarrow> batch_allocr option" where
  "ba_tables a = do {
     a \<leftarrow> ba_count_outputs a;
     a \<leftarrow> foldM ba_couple_tok [0..<ba_get_n_tokens a] (a\<lparr>ba_has_cpl := False\<rparr>);
     (unq, a) \<leftarrow> foldM ba_set_tok [0..<ba_get_n_tokens a] ({}, a);
     (idx, ids) \<leftarrow> unq_number (ba_n_seq_max a) unq (ba_seq_idx a, ba_seq_id_unq a);
     Some (a\<lparr>ba_seq_idx := idx, ba_seq_id_unq := ids\<rparr>) }"

subsection \<open>\<open>init\<close>: consistency with the memory\<close>

definition ba_check_pos :: "memory_view option \<Rightarrow> batch_allocr \<Rightarrow> nat \<Rightarrow> bool option" where
  "ba_check_pos mem a s = do {
     m \<leftarrow> vget (ba_seq_pos a) s;
     if m = {} then Some True else do {
       p0 \<leftarrow> (case mem of None \<Rightarrow> Some (- 1) | Some (mn, mx) \<Rightarrow> mx (int s));
       mi \<leftarrow> ba_seq_pos_min a s;
       ma \<leftarrow> ba_seq_pos_max a s;
       ok \<leftarrow> (if p0 \<ge> 0 then
           (if lb_token (ba_batch a) \<noteq> None then do { guard (i32_ok (p0 + 1)); Some (mi = p0 + 1) }
            else do { guard (lb_embd (ba_batch a) \<noteq> None); guard (i32_ok (p0 + 1)); Some (mi = p0 \<or> mi = p0 + 1) })
         else Some True);
       if \<not> ok then Some False else do {
         guard (i32_ok (ma - mi) \<and> i32_ok (ma - mi + 1));
         Some (\<not> (ma - mi + 1 > int (card m))) } } }"

definition ba_check_cpl :: "memory_view option \<Rightarrow> batch_allocr \<Rightarrow> bool option" where
  "ba_check_cpl mem a = (case mem of None \<Rightarrow> Some True
     | Some (mn, mx) \<Rightarrow> allM (\<lambda>s0. allM (\<lambda>s1. do {
         row \<leftarrow> vget (ba_seq_cpl a) s0;
         cpl \<leftarrow> vget row s1;
         if \<not> cpl then Some True else do {
           a0 \<leftarrow> mn (int s0); a1 \<leftarrow> mn (int s1);
           if a0 \<noteq> a1 then Some False else do {
             b0 \<leftarrow> mx (int s0); b1 \<leftarrow> mx (int s1);
             Some (b0 = b1) } } }) [0..<ba_n_seq_max a]) [0..<ba_n_seq_max a])"

text \<open>
  The last loop of \<open>init\<close>.  \<open>cur_seq_set[s]\<close> starts as the full set; \<open>cur_seq_pos\<close> is set to
  \<open>-1\<close> before the loop and never assigned in it.
\<close>

fun ba_check_tok :: "llama_batch \<Rightarrow> llama_pos list \<Rightarrow> nat \<Rightarrow> llama_seq_id set \<Rightarrow> llama_pos \<Rightarrow> nat list \<Rightarrow>
    llama_seq_id set list \<Rightarrow> (bool \<times> llama_seq_id set list) option" where
  "ba_check_tok b cur_pos i tset p [] cur = Some (True, cur)"
| "ba_check_tok b cur_pos i tset p (s # ss) cur = do {
     ids \<leftarrow> pget (lb_seq_id b) i;
     id \<leftarrow> vget ids s;
     k \<leftarrow> sidx id;
     c \<leftarrow> vget cur k;
     let c' = c \<inter> tset;
     let cur = cur[k := c'];
     if c' = {} then Some (False, cur) else do {
       q \<leftarrow> vget cur_pos k;
       if p < q then Some (False, cur) else ba_check_tok b cur_pos i tset p ss cur } }"

fun ba_check_sets :: "batch_allocr \<Rightarrow> llama_pos list \<Rightarrow> nat list \<Rightarrow> llama_seq_id set list \<Rightarrow> bool option" where
  "ba_check_sets a cur_pos [] cur = Some True"
| "ba_check_sets a cur_pos (i # is) cur = do {
     p \<leftarrow> pget (lb_pos (ba_batch a)) i;
     n \<leftarrow> pget (lb_n_seq_id (ba_batch a)) i;
     tset \<leftarrow> vget (ba_seq_set a) i;
     (ok, cur) \<leftarrow> ba_check_tok (ba_batch a) cur_pos i tset p [0..<nat n] cur;
     if ok then ba_check_sets a cur_pos is cur else Some False }"

definition ba_check_order :: "batch_allocr \<Rightarrow> bool option" where
  "ba_check_order a = ba_check_sets a (replicate (ba_n_seq_max a) (- 1)) [0..<ba_get_n_tokens a]
     (replicate (ba_n_seq_max a) (set seq_ids))"

subsection \<open>\<open>init\<close>\<close>

definition ba_init :: "llama_batch \<Rightarrow> nat \<Rightarrow> memory_view option \<Rightarrow> nat \<Rightarrow> nat \<Rightarrow> bool \<Rightarrow> batch_allocr \<Rightarrow>
    (bool \<times> batch_allocr) option" where
  "ba_init inp vocab_n mem n_embd n_seq_max output_all a = do {
     let a = (ba_clear a)\<lparr>ba_batch := inp\<rparr>;
     guard (lb_n_tokens inp > 0);
     if n_seq_max > LLAMA_MAX_SEQ then Some (False, a) else do {
       ok \<leftarrow> ba_valid_tokens vocab_n inp;
       if \<not> ok then Some (False, a) else do {
         ok \<leftarrow> ba_valid_seqs n_seq_max inp;
         if \<not> ok then Some (False, a) else do {
           b \<leftarrow> ba_gen_pos mem n_seq_max (ba_gen_ids inp);
           b \<leftarrow> ba_gen_logits output_all b;
           a \<leftarrow> ba_tables (a\<lparr>ba_batch := b, ba_n_embd := n_embd, ba_n_seq_max := n_seq_max\<rparr>);
           ok \<leftarrow> allM (ba_check_pos mem a) [0..<n_seq_max];
           if \<not> ok then Some (False, a) else do {
             ok \<leftarrow> ba_check_cpl mem a;
             if \<not> ok then Some (False, a) else do {
               ok \<leftarrow> ba_check_order a;
               if \<not> ok then Some (False, a) else Some (True, ba_split_reset a) } } } } } }"

subsection \<open>\<open>ubatch_reserve\<close>\<close>

definition ba_ubatch_reserve :: "nat \<Rightarrow> nat \<Rightarrow> batch_allocr \<Rightarrow> (llama_ubatch \<times> batch_allocr) option" where
  "ba_ubatch_reserve n_seq_tokens n_seqs a = do {
     let n_tokens = n_seq_tokens * n_seqs;
     let a = ba_split_reset (ba_clear a);
     (idx, ids) \<leftarrow> foldM (\<lambda>s (idx, ids). do { idx \<leftarrow> vset idx s (int s); Some (idx, ids @ [int s]) })
       [0..<n_seqs] (replicate LLAMA_MAX_SEQ (- 1), []);
     Some (\<lparr>ub_equal_seqs = True, ub_n_tokens = n_tokens, ub_n_seq_tokens = n_seq_tokens, ub_n_seqs = n_seqs,
       ub_n_seqs_unq = n_seqs, ub_token = Some (replicate n_tokens 0), ub_embd = None,
       ub_pos = replicate n_tokens 0, ub_n_seq_id = replicate n_tokens 0, ub_seq_id = replicate n_tokens [],
       ub_seq_id_unq = ids, ub_seq_idx = idx, ub_output = replicate n_tokens 0\<rparr>, a) }"

subsection \<open>\<open>ubatch_add\<close>\<close>

text \<open>\<open>memcpy(dst + i*n_embd, embd + idx*n_embd, n_embd)\<close> for every \<open>i\<close>.\<close>

definition ub_rows :: "nat \<Rightarrow> f32 list \<Rightarrow> nat list \<Rightarrow> f32 list option" where
  "ub_rows n_embd embd idxs = map_option concat (mapM (\<lambda>idx. do {
     guard (idx * n_embd + n_embd \<le> length embd);
     Some (take n_embd (drop (idx * n_embd) embd)) }) idxs)"

definition ba_ubatch_add :: "nat list \<Rightarrow> nat \<Rightarrow> bool \<Rightarrow> batch_allocr \<Rightarrow> (llama_ubatch \<times> batch_allocr) option" where
  "ba_ubatch_add idxs n_seqs equal_seqs a = do {
     let n_tokens = length idxs;
     let b = ba_batch a;
     guard (n_seqs \<noteq> 0 \<and> n_tokens mod n_seqs = 0);
     let n_pos_cur = (if lb_embd b \<noteq> None then ba_n_pos_per_embd a else 1);
     token \<leftarrow> (case lb_token b of None \<Rightarrow> Some None | Some ts \<Rightarrow> map_option Some (mapM (vget ts) idxs));
     embd \<leftarrow> (case lb_embd b of None \<Rightarrow> Some None | Some es \<Rightarrow> map_option Some (ub_rows (ba_n_embd a) es idxs));
     pos \<leftarrow> mapM (\<lambda>(j, i). pget (lb_pos b) (j * nat (lb_n_tokens b) + i))
       (List.product [0..<n_pos_cur] idxs);
     n_seq_id \<leftarrow> mapM (pget (lb_n_seq_id b)) idxs;
     seq_id \<leftarrow> mapM (pget (lb_seq_id b)) idxs;
     output \<leftarrow> mapM (pget (lb_logits b)) idxs;
     unq \<leftarrow> foldM (\<lambda>idx unq. do { cur \<leftarrow> ba_tok_set b idx; Some (unq \<union> cur) }) idxs {};
     (seq_idx, seq_id_unq) \<leftarrow> unq_number (ba_n_seq_max a) unq (replicate LLAMA_MAX_SEQ (- 1), []);
     let out = map fst (filter (\<lambda>(i, o'). o' \<noteq> 0) (zip idxs output));
     Some (\<lparr>ub_equal_seqs = equal_seqs, ub_n_tokens = n_tokens, ub_n_seq_tokens = n_tokens div n_seqs,
         ub_n_seqs = n_seqs, ub_n_seqs_unq = length seq_id_unq, ub_token = token, ub_embd = embd, ub_pos = pos,
         ub_n_seq_id = n_seq_id, ub_seq_id = seq_id, ub_seq_id_unq = seq_id_unq, ub_seq_idx = seq_idx,
         ub_output = output\<rparr>, a\<lparr>ba_out_ids := ba_out_ids a @ out\<rparr>) }"

subsection \<open>The splits\<close>

definition ba_first_unused :: "batch_allocr \<Rightarrow> nat option" where
  "ba_first_unused a = scanM (\<lambda>i. vget (ba_used a) i) (length (ba_used a)) 0"

text \<open>\<open>used[idx] = true; ++n_used;\<close>\<close>

definition ba_use :: "nat \<Rightarrow> batch_allocr \<Rightarrow> batch_allocr option" where
  "ba_use idx a = do {
     u \<leftarrow> vset (ba_used a) idx True;
     Some (a\<lparr>ba_used := u, ba_n_used := ba_n_used a + 1\<rparr>) }"

function simple_loop :: "nat \<Rightarrow> nat \<Rightarrow> nat list \<Rightarrow> batch_allocr \<Rightarrow> (nat list \<times> batch_allocr) option" where
  "simple_loop n_ubatch cur idxs a =
     (if cur < length (ba_used a) then
        (case ba_use cur a of None \<Rightarrow> None
         | Some a \<Rightarrow>
            if Suc cur \<ge> length (ba_used a) then Some (idxs @ [cur], a)
            else if length (idxs @ [cur]) \<ge> n_ubatch then Some (idxs @ [cur], a)
            else simple_loop n_ubatch (Suc cur) (idxs @ [cur]) a)
      else None)"
  by pat_completeness auto
termination
  by (relation "measure (\<lambda>(n, cur, idxs, a). length (ba_used a) - cur)")
    (auto simp: ba_use_def vset_def bind_eq_Some_conv split: if_splits)

declare simple_loop.simps [simp del]

definition ba_split_simple :: "nat \<Rightarrow> batch_allocr \<Rightarrow> (llama_ubatch \<times> batch_allocr) option" where
  "ba_split_simple n_ubatch a = do {
     cur \<leftarrow> ba_first_unused a;
     if cur \<ge> length (ba_used a) then Some (ub_none, a) else do {
       (idxs, a) \<leftarrow> simple_loop n_ubatch cur [] a;
       ba_ubatch_add idxs (length idxs) False a } }"

text \<open>The tokens \<open>split_seq\<close> passes over: used ones and those outside the current sequence set.\<close>

definition seq_skip :: "batch_allocr \<Rightarrow> llama_seq_id set \<Rightarrow> nat \<Rightarrow> bool option" where
  "seq_skip a cset i = do {
     u \<leftarrow> vget (ba_used a) i;
     if u then Some True else do {
       t \<leftarrow> vget (ba_seq_set a) i;
       Some (cset \<inter> t \<noteq> t) } }"

lemma ba_use_n_tokens: "ba_use i a = Some a' \<Longrightarrow> ba_get_n_tokens a' = ba_get_n_tokens a"
  by (auto simp: ba_use_def bind_eq_Some_conv ba_get_n_tokens_def)

lemma ba_use_seq_set: "ba_use i a = Some a' \<Longrightarrow> ba_seq_set a' = ba_seq_set a"
  by (auto simp: ba_use_def bind_eq_Some_conv)

lemma ba_use_length: "ba_use i a = Some a' \<Longrightarrow> length (ba_used a') = length (ba_used a) \<and> i < length (ba_used a)"
  by (auto simp: ba_use_def bind_eq_Some_conv vset_def split: if_splits)

function seq_loop :: "nat \<Rightarrow> nat \<Rightarrow> llama_seq_id set \<Rightarrow> nat list \<Rightarrow> batch_allocr \<Rightarrow> (nat list \<times> batch_allocr) option" where
  "seq_loop n_ubatch cur cset idxs a =
     (case ba_use cur a of None \<Rightarrow> None
      | Some a \<Rightarrow>
         if length (idxs @ [cur]) \<ge> n_ubatch then Some (idxs @ [cur], a)
         else (case scanM (seq_skip a cset) (ba_get_n_tokens a) (Suc cur) of None \<Rightarrow> None
           | Some nxt \<Rightarrow>
              if nxt = ba_get_n_tokens a then Some (idxs @ [cur], a)
              else (case vget (ba_seq_set a) nxt of None \<Rightarrow> None
                | Some cset \<Rightarrow> seq_loop n_ubatch nxt cset (idxs @ [cur]) a)))"
  by pat_completeness auto
termination
  by (relation "measure (\<lambda>(n, cur, cset, idxs, a). length (ba_used a) - cur)")
    (auto dest!: ba_use_length scanM_ge)

declare seq_loop.simps [simp del]

definition ba_split_seq :: "nat \<Rightarrow> batch_allocr \<Rightarrow> (llama_ubatch \<times> batch_allocr) option" where
  "ba_split_seq n_ubatch a = do {
     cur \<leftarrow> ba_first_unused a;
     if cur \<ge> length (ba_used a) then Some (ub_none, a) else do {
       cset \<leftarrow> vget (ba_seq_set a) cur;
       (idxs, a) \<leftarrow> seq_loop n_ubatch cur cset [] a;
       ba_ubatch_add idxs 1 True a } }"

subsection \<open>\<open>split_equal\<close>\<close>

text \<open>
  The first loop: the sequence sets that take part.  The loop stops when the list is longer
  than \<open>n_ubatch\<close>.
\<close>

fun eq_collect :: "batch_allocr \<Rightarrow> nat \<Rightarrow> bool \<Rightarrow> nat list \<Rightarrow> llama_seq_id set list \<Rightarrow> llama_seq_id \<Rightarrow>
    llama_seq_id set list option" where
  "eq_collect a n_ubatch sequential [] sets last_id = Some sets"
| "eq_collect a n_ubatch sequential (i # is) sets last_id = do {
     u \<leftarrow> vget (ba_used a) i;
     if u then eq_collect a n_ubatch sequential is sets last_id else do {
       t \<leftarrow> vget (ba_seq_set a) i;
       let add = (\<forall>c \<in> set sets. c \<inter> t = {});
       add \<leftarrow> (if sequential \<and> add \<and> sets \<noteq> [] then do {
           ids \<leftarrow> pget (lb_seq_id (ba_batch a)) i;
           s0 \<leftarrow> vget ids 0;
           guard (i32_ok (last_id + 1));
           Some (s0 = last_id + 1) }
         else Some add);
       if \<not> add then eq_collect a n_ubatch sequential is sets last_id else do {
         ids \<leftarrow> pget (lb_seq_id (ba_batch a)) i;
         s0 \<leftarrow> vget ids 0;
         if length (sets @ [t]) > n_ubatch then Some (sets @ [t])
         else eq_collect a n_ubatch sequential is (sets @ [t]) s0 } } }"

text \<open>\<open>while (used[seq_set_map[set][cur_idx]]) ++cur_idx;\<close>\<close>

fun eq_start :: "bool list \<Rightarrow> nat list \<Rightarrow> nat option" where
  "eq_start used [] = None"
| "eq_start used (i # is) = do { u \<leftarrow> vget used i; if u then map_option Suc (eq_start used is) else Some 0 }"

text \<open>
  One round of the expansion: for every set \<open>s\<close> its next unused token.  The loop state is
  \<open>cur_idx\<close>, \<open>idxs_per_seq\<close> and the allocator.
\<close>

definition eq_can_expand :: "llama_seq_id set list \<Rightarrow> nat list \<Rightarrow> batch_allocr \<Rightarrow> bool" where
  "eq_can_expand sets cur a \<longleftrightarrow> (\<forall>s < length sets. cur ! s < length (ba_seq_set_map a (sets ! s)))"

definition eq_take :: "llama_seq_id set list \<Rightarrow> nat \<Rightarrow> nat list \<times> nat list list \<times> batch_allocr \<Rightarrow>
    (nat list \<times> nat list list \<times> batch_allocr) option" where
  "eq_take sets s = (\<lambda>(cur, per, a). do {
     idx \<leftarrow> vget (ba_seq_set_map a (sets ! s)) (cur ! s);
     a \<leftarrow> ba_use idx a;
     Some (cur[s := Suc (cur ! s)], per[s := per ! s @ [idx]], a) })"

definition eq_round :: "llama_seq_id set list \<Rightarrow> nat list \<times> nat list list \<times> batch_allocr \<Rightarrow>
    (nat list \<times> nat list list \<times> batch_allocr) option" where
  "eq_round sets = foldM (eq_take sets) [0..<length sets]"

partial_function (option) eq_loop :: "nat \<Rightarrow> llama_seq_id set list \<Rightarrow> nat list \<times> nat list list \<times> batch_allocr \<Rightarrow>
    (nat list \<times> nat list list \<times> batch_allocr) option" where
  "eq_loop n_ubatch sets st =
     (if \<not> eq_can_expand sets (fst st) (snd (snd st)) then Some st
      else Option.bind (eq_round sets st) (\<lambda>st.
        if (length (hd (fst (snd st))) + 1) * length sets > n_ubatch then Some st
        else eq_loop n_ubatch sets st))"

declare eq_loop.simps [code]

definition ba_split_equal :: "nat \<Rightarrow> bool \<Rightarrow> batch_allocr \<Rightarrow> (llama_ubatch \<times> batch_allocr) option" where
  "ba_split_equal n_ubatch sequential a =
     (if sequential \<and> ba_has_cpl a then Some (ub_none, a) else do {
        sets \<leftarrow> eq_collect a n_ubatch sequential [0..<ba_get_n_tokens a] [] (- 1);
        if sets = [] then Some (ub_none, a) else do {
          cur \<leftarrow> mapM (\<lambda>t. eq_start (ba_used a) (ba_seq_set_map a t)) sets;
          (cur, per, a) \<leftarrow> eq_loop n_ubatch sets (cur, replicate (length sets) [], a);
          ba_ubatch_add (concat per) (length sets) True a } })"

subsection \<open>Getters\<close>

definition ba_get_n_outputs :: "batch_allocr \<Rightarrow> nat" where
  "ba_get_n_outputs a = ba_n_outputs a"

definition ba_get_n_used :: "batch_allocr \<Rightarrow> nat" where
  "ba_get_n_used a = ba_n_used a"

definition ba_get_out_ids :: "batch_allocr \<Rightarrow> nat list" where
  "ba_get_out_ids a = ba_out_ids a"

text \<open>\<open>llama_batch_get_one\<close>.\<close>

definition llama_batch_get_one :: "llama_token list option \<Rightarrow> int \<Rightarrow> llama_batch" where
  "llama_batch_get_one tokens n_tokens = lb_null\<lparr>lb_n_tokens := n_tokens, lb_token := tokens\<rparr>"

end
