(* ===== verification/KvSlot.thy ===== *)
theory KvSlot
  imports KvCacheSeq Batch
begin

text \<open>
  Placing micro-batches in the unified cache (src/llama-kv-cache-unified.cpp): \<open>find_slot\<close>,
  \<open>apply_ubatch\<close>, \<open>prepare\<close>, the metadata part of \<open>update\<close> and the memory contexts.

  The streams of a slot are indices of \<open>v_cells\<close>, so \<open>strm\<close> holds naturals.  The debug
  printing at the head of \<open>find_slot\<close>, which runs under LLAMA_KV_CACHE_DEBUG only, is left out.
\<close>

record slot_info =
  si_s0 :: int
  si_s1 :: int
  si_strm :: "nat list"
  si_idxs :: "nat list list"

definition si_empty_slot :: slot_info where
  "si_empty_slot = \<lparr>si_s0 = 0, si_s1 = 0, si_strm = [], si_idxs = []\<rparr>"

definition si_empty :: "slot_info \<Rightarrow> bool" where
  "si_empty r \<longleftrightarrow> si_idxs r = []"

definition si_size :: "slot_info \<Rightarrow> nat option" where
  "si_size r = do {
     guard (length (si_idxs r) = length (si_strm r));
     guard (si_idxs r \<noteq> []);
     Some (length (hd (si_idxs r))) }"

definition si_n_stream :: "slot_info \<Rightarrow> nat" where
  "si_n_stream r = length (si_strm r)"

definition si_head :: "slot_info \<Rightarrow> nat option" where
  "si_head r = do {
     guard (length (si_idxs r) = 1);
     guard (hd (si_idxs r) \<noteq> []);
     Some (hd (hd (si_idxs r))) }"

subsection \<open>\<open>find_slot\<close>\<close>

text \<open>
  The test of one cell: empty, or held by a single sequence and masked by the attention window
  at the next position of that sequence.
\<close>

definition kv_can_use :: "kv_cache \<Rightarrow> kv_cells \<Rightarrow> nat \<Rightarrow> bool option" where
  "kv_can_use kv c idx = do {
     e \<leftarrow> kc_is_empty c idx;
     if e then Some True else do {
       n \<leftarrow> kc_seq_count c idx;
       if n = 1 then do {
         pos_cell \<leftarrow> kc_pos_get c idx;
         s \<leftarrow> kc_seq_get c idx;
         m \<leftarrow> kc_seq_pos_max c s;
         guard (i32_ok (m + 1));
         kv_is_masked_swa kv pos_cell (m + 1) }
       else Some False } }"

text \<open>
  The inner loop tests \<open>n_test\<close> cells from \<open>head_cur\<close>; for a continuous slot it breaks at the
  first cell that cannot be used.  The state is \<open>(head_cur, n_tested, idxs)\<close>.
\<close>

fun slot_test :: "(nat \<Rightarrow> bool option) \<Rightarrow> bool \<Rightarrow> nat \<Rightarrow> nat \<times> nat \<times> nat list \<Rightarrow> (nat \<times> nat \<times> nat list) option" where
  "slot_test use cont 0 st = Some st"
| "slot_test use cont (Suc k) (head, tested, idxs) = do {
     u \<leftarrow> use head;
     if u then slot_test use cont k (Suc head, Suc tested, idxs @ [head])
     else if cont then Some (Suc head, Suc tested, idxs)
     else slot_test use cont k (Suc head, Suc tested, idxs) }"

text \<open>
  The search loop.  The subtraction \<open>cells.size() - head_cur\<close> is unsigned; it is guarded
  here, and the results below show that the guard holds.
\<close>

partial_function (option) slot_loop :: "(nat \<Rightarrow> bool option) \<Rightarrow> nat \<Rightarrow> bool \<Rightarrow> nat \<Rightarrow> nat \<Rightarrow> nat \<Rightarrow> nat list \<Rightarrow>
    nat list option option" where
  "slot_loop use sz cont n_tokens head tested idxs =
     (let n_test = (if cont then n_tokens else 1) in
      if head + n_test > sz then Option.bind (guard (head \<le> sz)) (\<lambda>_.
        slot_loop use sz cont n_tokens 0 (tested + (sz - head)) idxs)
      else Option.bind (slot_test use cont n_test (head, tested, idxs)) (\<lambda>(head, tested, idxs).
        if length idxs = n_tokens then Some (Some idxs)
        else let idxs = (if cont then [] else idxs) in
          if tested \<ge> sz then Some None
          else slot_loop use sz cont n_tokens head tested idxs))"

declare slot_loop.simps [code]

text \<open>The slot of one sequence in its stream; \<open>Some None\<close> is \<open>return { }\<close>.\<close>

definition slot_cells :: "kv_cache \<Rightarrow> bool \<Rightarrow> nat \<Rightarrow> nat \<Rightarrow> nat list option option" where
  "slot_cells kv cont n_tokens st = do {
     c \<leftarrow> vget (kv_cells_v kv) st;
     head \<leftarrow> vget (kv_heads kv) st;
     let head_cur = (if head > kc_get_used c + 2 * n_tokens then 0 else head);
     if n_tokens > kc_size c then Some None
     else do {
       r \<leftarrow> slot_loop (kv_can_use kv c) (kc_size c) cont n_tokens head_cur 0 [];
       (case r of None \<Rightarrow> Some None
        | Some idxs \<Rightarrow> if length idxs < n_tokens then Some None else Some (Some idxs)) } }"

fun slot_seqs :: "kv_cache \<Rightarrow> llama_ubatch \<Rightarrow> bool \<Rightarrow> nat \<Rightarrow> nat list \<Rightarrow> slot_info \<Rightarrow> slot_info option" where
  "slot_seqs kv ub cont n_tokens [] res = do {
     guard (si_s1 res \<ge> si_s0 res);
     Some res }"
| "slot_seqs kv ub cont n_tokens (s # ss) res = do {
     seq_id \<leftarrow> vget (ub_seq_id_unq ub) s;
     _ \<leftarrow> (if kv_n_stream kv > 1 then do {
         n \<leftarrow> vget (ub_n_seq_id ub) (s * n_tokens);
         guard (n = 1);
         ids \<leftarrow> vget (ub_seq_id ub) (s * n_tokens);
         id \<leftarrow> vget ids 0;
         guard (id = seq_id) }
       else Some ());
     k \<leftarrow> sidx seq_id;
     st \<leftarrow> vget (kv_seq_to_stream kv) k;
     r \<leftarrow> slot_cells kv cont n_tokens st;
     (case r of None \<Rightarrow> Some si_empty_slot
      | Some idxs \<Rightarrow> slot_seqs kv ub cont n_tokens ss
          \<lparr>si_s0 = min (si_s0 res) (int st), si_s1 = max (si_s1 res) (int st),
           si_strm = si_strm res @ [st], si_idxs = si_idxs res @ [idxs]\<rparr>) }"

definition kv_find_slot :: "kv_cache \<Rightarrow> llama_ubatch \<Rightarrow> bool \<Rightarrow> slot_info option" where
  "kv_find_slot kv ub cont = do {
     (n_seqs, n_tokens) \<leftarrow> (if kv_n_stream kv > 1 then do {
         guard (ub_n_seqs_unq ub \<noteq> 0 \<and> ub_n_tokens ub mod ub_n_seqs_unq ub = 0);
         Some (ub_n_seqs_unq ub, ub_n_tokens ub div ub_n_seqs_unq ub) }
       else Some (1, ub_n_tokens ub));
     slot_seqs kv ub cont n_tokens [0..<n_seqs]
       \<lparr>si_s0 = int LLAMA_MAX_SEQ, si_s1 = 0, si_strm = [], si_idxs = []\<rparr> }"

subsection \<open>\<open>apply_ubatch\<close>\<close>

text \<open>
  Token \<open>i\<close> goes to cell \<open>idxs[s][ii]\<close> of its stream.  When the cell holds a token, that one is
  evicted first and its position recorded in \<open>seq_pos_max_rm\<close>.
\<close>

definition au_evict :: "nat \<Rightarrow> llama_pos list \<times> kv_cells \<Rightarrow> (llama_pos list \<times> kv_cells) option" where
  "au_evict idx = (\<lambda>(rm, c). do {
     e \<leftarrow> kc_is_empty c idx;
     if e then Some (rm, c) else do {
       n \<leftarrow> kc_seq_count c idx;
       guard (n = 1);
       s \<leftarrow> kc_seq_get c idx;
       p \<leftarrow> kc_pos_get c idx;
       k \<leftarrow> sidx s;
       m \<leftarrow> vget rm k;
       c \<leftarrow> kc_rm c idx;
       Some (rm[k := max m p], c) } })"

definition au_write :: "llama_ubatch \<Rightarrow> nat \<Rightarrow> nat \<Rightarrow> kv_cells \<Rightarrow> kv_cells option" where
  "au_write ub i idx c = do {
     p \<leftarrow> vget (ub_pos ub) i;
     c \<leftarrow> kc_pos_set c idx p;
     n \<leftarrow> vget (ub_n_seq_id ub) i;
     foldM (\<lambda>s c. do {
       ids \<leftarrow> vget (ub_seq_id ub) i;
       id \<leftarrow> vget ids s;
       kc_seq_add c idx id }) [0..<nat n] c }"

definition au_cell :: "llama_ubatch \<Rightarrow> nat \<Rightarrow> nat \<Rightarrow> llama_pos list \<times> kv_cells \<Rightarrow> (llama_pos list \<times> kv_cells) option" where
  "au_cell ub i idx rc = do {
     (rm, c) \<leftarrow> au_evict idx rc;
     c \<leftarrow> au_write ub i idx c;
     Some (rm, c) }"

definition au_tok :: "llama_ubatch \<Rightarrow> slot_info \<Rightarrow> nat \<Rightarrow> nat \<Rightarrow> nat \<Rightarrow> llama_pos list \<times> kv_cache \<Rightarrow> (llama_pos list \<times> kv_cache) option" where
  "au_tok ub si n s ii = (\<lambda>(rm, kv). do {
     st \<leftarrow> vget (si_strm si) s;
     c \<leftarrow> vget (kv_cells_v kv) st;
     idxs \<leftarrow> vget (si_idxs si) s;
     idx \<leftarrow> vget idxs ii;
     (rm, c) \<leftarrow> au_cell ub (s * n + ii) idx (rm, c);
     Some (rm, kv\<lparr>kv_cells_v := (kv_cells_v kv)[st := c]\<rparr>) })"

definition au_stream :: "llama_ubatch \<Rightarrow> slot_info \<Rightarrow> nat \<Rightarrow> nat \<Rightarrow> llama_pos list \<times> kv_cache \<Rightarrow> (llama_pos list \<times> kv_cache) option" where
  "au_stream ub si n s = foldM (au_tok ub si n s) [0..<n]"

text \<open>
  The purge: positions of a sequence below the largest one overwritten are removed, so that the
  positions of every sequence stay contiguous.
\<close>

definition au_purge :: "llama_pos list \<Rightarrow> nat \<Rightarrow> kv_cache \<Rightarrow> kv_cache option" where
  "au_purge rm s kv = do {
     m \<leftarrow> vget rm s;
     if m = - 1 then Some kv else do {
       st \<leftarrow> vget (kv_seq_to_stream kv) s;
       c \<leftarrow> vget (kv_cells_v kv) st;
       mn \<leftarrow> kc_seq_pos_min c (int s);
       if mn \<le> m then do {
         guard (i32_ok (m + 1));
         map_option snd (kv_seq_rm kv (int s) mn (m + 1)) }
       else Some kv } }"

definition au_head :: "slot_info \<Rightarrow> nat \<Rightarrow> kv_cache \<Rightarrow> kv_cache option" where
  "au_head si s kv = do {
     st \<leftarrow> vget (si_strm si) s;
     idxs \<leftarrow> vget (si_idxs si) s;
     guard (idxs \<noteq> []);
     heads \<leftarrow> vset (kv_heads kv) st (last idxs + 1);
     Some (kv\<lparr>kv_heads := heads\<rparr>) }"

definition kv_apply_ubatch :: "slot_info \<Rightarrow> llama_ubatch \<Rightarrow> kv_cache \<Rightarrow> kv_cache option" where
  "kv_apply_ubatch si ub kv = do {
     n \<leftarrow> si_size si;
     guard (ub_n_tokens ub = si_n_stream si * n);
     (rm, kv) \<leftarrow> foldM (au_stream ub si n) [0..<si_n_stream si] (replicate LLAMA_MAX_SEQ (- 1), kv);
     kv \<leftarrow> foldM (au_purge rm) [0..<LLAMA_MAX_SEQ] kv;
     foldM (au_head si) [0..<si_n_stream si] kv }"

subsection \<open>\<open>prepare\<close>\<close>

record prep_state =
  ps_sinfo :: slot_info
  ps_heads_old :: "nat list"
  ps_cells :: "kv_cells list"

text \<open>
  The placing loop: \<open>(success, res, states)\<close> with the cache after the placements; \<open>states\<close> has
  the newest entry last.
\<close>

fun prep_place :: "llama_ubatch list \<Rightarrow> slot_info list \<Rightarrow> prep_state list \<Rightarrow> kv_cache \<Rightarrow>
    (bool \<times> slot_info list \<times> prep_state list \<times> kv_cache) option" where
  "prep_place [] res states kv = Some (True, res, states, kv)"
| "prep_place (ub # ubs) res states kv = do {
     si \<leftarrow> kv_find_slot kv ub (if kv_supports_set_rows kv then False else True);
     if si_empty si then Some (False, res, states, kv) else do {
       cs \<leftarrow> mapM (\<lambda>s. do {
           st \<leftarrow> vget (si_strm si) s;
           c \<leftarrow> vget (kv_cells_v kv) st;
           idxs \<leftarrow> vget (si_idxs si) s;
           kc_cp c idxs }) [0..<si_n_stream si];
       let state = \<lparr>ps_sinfo = si, ps_heads_old = kv_heads kv, ps_cells = cs\<rparr>;
       kv \<leftarrow> kv_apply_ubatch si ub kv;
       prep_place ubs (res @ [si]) (states @ [state]) kv } }"

text \<open>Stream \<open>s\<close> of a saved state is put back; its head is read at \<open>v_heads_old[s]\<close>.\<close>

definition prep_restore_stream :: "prep_state \<Rightarrow> nat \<Rightarrow> kv_cache \<Rightarrow> kv_cache option" where
  "prep_restore_stream ps s kv = do {
     st \<leftarrow> vget (si_strm (ps_sinfo ps)) s;
     c \<leftarrow> vget (kv_cells_v kv) st;
     idxs \<leftarrow> vget (si_idxs (ps_sinfo ps)) s;
     old \<leftarrow> vget (ps_cells ps) s;
     c \<leftarrow> kc_set c idxs old;
     h \<leftarrow> vget (ps_heads_old ps) s;
     heads \<leftarrow> vset (kv_heads kv) st h;
     Some (kv\<lparr>kv_cells_v := (kv_cells_v kv)[st := c], kv_heads := heads\<rparr>) }"

definition prep_restore :: "prep_state \<Rightarrow> kv_cache \<Rightarrow> kv_cache option" where
  "prep_restore ps = foldM (prep_restore_stream ps) [0..<si_n_stream (ps_sinfo ps)]"

definition kv_prepare :: "llama_ubatch list \<Rightarrow> kv_cache \<Rightarrow> (slot_info list \<times> kv_cache) option" where
  "kv_prepare ubs kv = do {
     (success, res, states, kv) \<leftarrow> prep_place ubs [] [] kv;
     guard (states \<noteq> [] \<or> \<not> success);
     kv \<leftarrow> foldM prep_restore (rev states) kv;
     Some (if success then res else [], kv) }"

end
