(* ===== verification/Memory.thy ===== *)
theory Memory
  imports Prelude
begin

text \<open>
  The statuses of a memory context (src/llama-memory.h and .cpp) and how two are combined.
\<close>

datatype llama_memory_status =
    MEMORY_STATUS_SUCCESS
  | MEMORY_STATUS_NO_UPDATE
  | MEMORY_STATUS_FAILED_PREPARE
  | MEMORY_STATUS_FAILED_COMPUTE

text \<open>The two \<open>switch\<close>es return a failed status at once and otherwise set \<open>has_update\<close>.\<close>

definition llama_memory_status_combine :: "llama_memory_status \<Rightarrow> llama_memory_status \<Rightarrow> llama_memory_status" where
  "llama_memory_status_combine s0 s1 =
     (let has_update = False;
          second = (\<lambda>has_update.
            let finish = (\<lambda>has_update. if has_update then MEMORY_STATUS_SUCCESS else MEMORY_STATUS_NO_UPDATE) in
            case s1 of
              MEMORY_STATUS_SUCCESS \<Rightarrow> finish True
            | MEMORY_STATUS_NO_UPDATE \<Rightarrow> finish has_update
            | MEMORY_STATUS_FAILED_PREPARE \<Rightarrow> s1
            | MEMORY_STATUS_FAILED_COMPUTE \<Rightarrow> s1)
      in case s0 of
           MEMORY_STATUS_SUCCESS \<Rightarrow> second True
         | MEMORY_STATUS_NO_UPDATE \<Rightarrow> second has_update
         | MEMORY_STATUS_FAILED_PREPARE \<Rightarrow> s0
         | MEMORY_STATUS_FAILED_COMPUTE \<Rightarrow> s0)"

fun llama_memory_status_is_fail :: "llama_memory_status \<Rightarrow> bool" where
  "llama_memory_status_is_fail MEMORY_STATUS_SUCCESS = False"
| "llama_memory_status_is_fail MEMORY_STATUS_NO_UPDATE = False"
| "llama_memory_status_is_fail MEMORY_STATUS_FAILED_PREPARE = True"
| "llama_memory_status_is_fail MEMORY_STATUS_FAILED_COMPUTE = True"

text \<open>
  Combining is the join of an order: an update beats no update, a failure beats both, and of two
  failures the first one is reported.
\<close>

lemma status_combine_fail:
  "llama_memory_status_is_fail (llama_memory_status_combine s0 s1) \<longleftrightarrow>
     llama_memory_status_is_fail s0 \<or> llama_memory_status_is_fail s1"
  by (cases s0; cases s1) (simp_all add: llama_memory_status_combine_def)

lemma status_combine_assoc:
  "llama_memory_status_combine (llama_memory_status_combine a b) c =
     llama_memory_status_combine a (llama_memory_status_combine b c)"
  by (cases a; cases b; cases c) (simp_all add: llama_memory_status_combine_def)

lemma status_combine_first:
  "llama_memory_status_is_fail s0 \<Longrightarrow> llama_memory_status_combine s0 s1 = s0"
  by (cases s0) (simp_all add: llama_memory_status_combine_def)

lemma status_combine_neutral:
  "llama_memory_status_combine s MEMORY_STATUS_NO_UPDATE = s"
  "llama_memory_status_combine MEMORY_STATUS_NO_UPDATE s = s"
  by (cases s; simp add: llama_memory_status_combine_def)+

lemma status_combine_success:
  "llama_memory_status_combine s0 s1 = MEMORY_STATUS_SUCCESS \<longleftrightarrow>
     \<not> llama_memory_status_is_fail s0 \<and> \<not> llama_memory_status_is_fail s1 \<and>
     (s0 = MEMORY_STATUS_SUCCESS \<or> s1 = MEMORY_STATUS_SUCCESS)"
  by (cases s0; cases s1) (simp_all add: llama_memory_status_combine_def)

end
