(* ===== verification/Recurrent.thy ===== *)
theory Recurrent
  imports Batch Memory
begin

text \<open>
  \<open>llama_memory_recurrent\<close> (src/llama-memory-recurrent.h and .cpp): the memory of recurrent
  models, one state per sequence.  \<open>cells[i]\<close> plays two parts: as a cell it holds the state of
  the sequences \<open>seq_id\<close> at position \<open>pos\<close>; its \<open>tail\<close> is the number of the cell that holds
  the state of sequence \<open>i\<close>.

  The members of \<open>mem_cell\<close> are signed; \<open>head\<close>, \<open>size\<close>, \<open>used\<close>, \<open>n\<close> are unsigned, and \<open>used\<close> is
  decremented with wrap-around.  The tensors \<open>r_l\<close>, \<open>s_l\<close> are left out here.
\<close>

record mem_cell =
  mc_pos :: llama_pos
  mc_src :: int
  mc_src0 :: int
  mc_tail :: int
  mc_seq :: "llama_seq_id set"

record recurrent =
  rc_head :: nat
  rc_size :: nat
  rc_used :: nat
  rc_n :: nat
  rc_rs_z :: int
  rc_cells :: "mem_cell list"
  rc_n_seq_max :: nat

definition mc_new :: mem_cell where
  "mc_new = \<lparr>mc_pos = - 1, mc_src = - 1, mc_src0 = - 1, mc_tail = - 1, mc_seq = {}\<rparr>"

definition mc_has_seq_id :: "mem_cell \<Rightarrow> llama_seq_id \<Rightarrow> bool" where
  "mc_has_seq_id c s \<longleftrightarrow> s \<in> mc_seq c"

definition mc_is_empty :: "mem_cell \<Rightarrow> bool" where
  "mc_is_empty c \<longleftrightarrow> mc_seq c = {}"

definition mc_is_same_seq :: "mem_cell \<Rightarrow> mem_cell \<Rightarrow> bool" where
  "mc_is_same_seq c d \<longleftrightarrow> mc_seq c = mc_seq d"

definition rc_init :: "nat \<Rightarrow> nat \<Rightarrow> recurrent" where
  "rc_init mem_size n_seq_max = \<lparr>rc_head = 0, rc_size = mem_size, rc_used = 0, rc_n = 0, rc_rs_z = - 1,
     rc_cells = replicate mem_size mc_new, rc_n_seq_max = n_seq_max\<rparr>"

text \<open>\<open>cells[i]\<close> with a signed index, and an assignment to members of \<open>cells[i]\<close>.\<close>

definition rc_cell :: "recurrent \<Rightarrow> int \<Rightarrow> mem_cell option" where
  "rc_cell r i = do { k \<leftarrow> sidx i; vget (rc_cells r) k }"

definition rc_upd :: "int \<Rightarrow> (mem_cell \<Rightarrow> mem_cell) \<Rightarrow> recurrent \<Rightarrow> recurrent option" where
  "rc_upd i f r = do {
     k \<leftarrow> sidx i;
     c \<leftarrow> vget (rc_cells r) k;
     Some (r\<lparr>rc_cells := (rc_cells r)[k := f c]\<rparr>) }"

definition rc_dec_used :: "recurrent \<Rightarrow> recurrent" where
  "rc_dec_used r = r\<lparr>rc_used := u32 (int (rc_used r) - 1)\<rparr>"

subsection \<open>Operations on sequences\<close>

definition rc_clear :: "recurrent \<Rightarrow> recurrent option" where
  "rc_clear r = do {
     r \<leftarrow> foldM (\<lambda>i. rc_upd (int i) (\<lambda>c. c\<lparr>mc_pos := - 1, mc_seq := {}, mc_src := - 1, mc_tail := - 1\<rparr>)) [0..<rc_size r] r;
     Some (r\<lparr>rc_head := 0, rc_used := 0\<rparr>) }"

definition rc_norm_p0 :: "llama_pos \<Rightarrow> llama_pos" where
  "rc_norm_p0 p0 = (if p0 < 0 then 0 else p0)"

definition rc_norm_p1 :: "llama_pos \<Rightarrow> llama_pos" where
  "rc_norm_p1 p1 = (if p1 < 0 then INT32_MAX else p1)"

text \<open>The checks before \<open>seq_rm\<close> changes a cell: a state cannot be erased in part.\<close>

definition rc_rm_check :: "llama_seq_id \<Rightarrow> llama_pos \<Rightarrow> llama_pos \<Rightarrow> recurrent \<Rightarrow> (bool \<times> recurrent) option" where
  "rc_rm_check s p0 p1 r =
     (if s \<ge> int (rc_size r) then Some (False, r)
      else if 0 \<le> s then do {
        c \<leftarrow> rc_cell r s;
        if mc_tail c \<ge> 0 then do {
          cell \<leftarrow> rc_cell r (mc_tail c);
          if (0 < p0 \<and> p0 \<le> mc_pos cell) \<or> (0 < p1 \<and> p1 \<le> mc_pos cell) then Some (False, r)
          else if p0 \<le> mc_pos cell \<and> mc_pos cell < p1 then do {
            r \<leftarrow> rc_upd s (\<lambda>c. c\<lparr>mc_tail := - 1\<rparr>) r;
            Some (True, r) }
          else Some (True, r) }
        else Some (True, r) }
      else if p0 \<noteq> p1 \<and> (p0 \<noteq> 0 \<or> p1 \<noteq> INT32_MAX) then Some (False, r)
      else Some (True, r))"

text \<open>The end of a loop body that may have emptied cell \<open>i\<close>.\<close>

definition rc_rm_cell :: "llama_seq_id \<Rightarrow> llama_pos \<Rightarrow> llama_pos \<Rightarrow> nat \<Rightarrow> nat \<times> recurrent \<Rightarrow> (nat \<times> recurrent) option" where
  "rc_rm_cell s p0 p1 i = (\<lambda>(new_head, r). do {
     c \<leftarrow> vget (rc_cells r) i;
     if mc_pos c \<ge> p0 \<and> mc_pos c < p1 \<and> (s < 0 \<or> mc_has_seq_id c s) then do {
       r \<leftarrow> rc_upd (int i) (\<lambda>c. c\<lparr>mc_seq := (if s < 0 then {} else mc_seq c - {s})\<rparr>) r;
       c \<leftarrow> vget (rc_cells r) i;
       if mc_is_empty c then do {
         let r = (if mc_pos c \<ge> 0 then rc_dec_used r else r);
         r \<leftarrow> rc_upd (int i) (\<lambda>c. c\<lparr>mc_pos := - 1, mc_src := - 1\<rparr>) r;
         Some (if new_head = rc_size r then i else new_head, r) }
       else Some (new_head, r) }
     else Some (new_head, r) })"

definition rc_seq_rm :: "recurrent \<Rightarrow> llama_seq_id \<Rightarrow> llama_pos \<Rightarrow> llama_pos \<Rightarrow> (bool \<times> recurrent) option" where
  "rc_seq_rm r s p0 p1 = do {
     let p0 = rc_norm_p0 p0;
     let p1 = rc_norm_p1 p1;
     (go, r) \<leftarrow> rc_rm_check s p0 p1 r;
     if \<not> go then Some (False, r) else do {
       (new_head, r) \<leftarrow> foldM (rc_rm_cell s p0 p1) [0..<rc_size r] (rc_size r, r);
       Some (True, if new_head \<noteq> rc_size r \<and> new_head < rc_head r then r\<lparr>rc_head := new_head\<rparr> else r) } }"

text \<open>
  Sequence \<open>s\<close>, whose tail is not negative, leaves its cell; \<open>seq_cp\<close> and \<open>find_slot\<close> both
  have this block.
\<close>

definition rc_leave :: "llama_seq_id \<Rightarrow> recurrent \<Rightarrow> recurrent option" where
  "rc_leave s r = do {
     m \<leftarrow> rc_cell r s;
     if mc_tail m \<ge> 0 then do {
       r \<leftarrow> rc_upd (mc_tail m) (\<lambda>c. c\<lparr>mc_seq := mc_seq c - {s}\<rparr>) r;
       r \<leftarrow> rc_upd s (\<lambda>c. c\<lparr>mc_tail := - 1\<rparr>) r;
       c \<leftarrow> rc_cell r (mc_tail m);
       if mc_is_empty c then do {
         r \<leftarrow> rc_upd (mc_tail m) (\<lambda>c. c\<lparr>mc_pos := - 1, mc_src := - 1\<rparr>) r;
         Some (rc_dec_used r) }
       else Some r }
     else Some r }"

definition rc_seq_cp :: "recurrent \<Rightarrow> llama_seq_id \<Rightarrow> llama_seq_id \<Rightarrow> llama_pos \<Rightarrow> llama_pos \<Rightarrow> recurrent option" where
  "rc_seq_cp r src dst p0 p1 =
     (if src = dst then Some r
      else if u32 dst < rc_size r \<and> u32 src < rc_size r then do {
        r \<leftarrow> rc_leave dst r;
        m \<leftarrow> rc_cell r src;
        if mc_tail m \<ge> 0 then do {
          r \<leftarrow> rc_upd (mc_tail m) (\<lambda>c. c\<lparr>mc_seq := insert dst (mc_seq c)\<rparr>) r;
          rc_upd dst (\<lambda>c. c\<lparr>mc_tail := mc_tail m\<rparr>) r }
        else Some r }
      else Some r)"

definition rc_keep_cell :: "llama_seq_id \<Rightarrow> nat \<Rightarrow> nat \<times> recurrent \<Rightarrow> (nat \<times> recurrent) option" where
  "rc_keep_cell s i = (\<lambda>(new_head, r). do {
     r \<leftarrow> (if int i \<noteq> s then rc_upd (int i) (\<lambda>c. c\<lparr>mc_tail := - 1\<rparr>) r else Some r);
     c \<leftarrow> vget (rc_cells r) i;
     if \<not> mc_has_seq_id c s then do {
       let r = (if mc_pos c \<ge> 0 then rc_dec_used r else r);
       r \<leftarrow> rc_upd (int i) (\<lambda>c. c\<lparr>mc_pos := - 1, mc_src := - 1, mc_seq := {}\<rparr>) r;
       Some (if new_head = rc_size r then i else new_head, r) }
     else do {
       r \<leftarrow> rc_upd (int i) (\<lambda>c. c\<lparr>mc_seq := {s}\<rparr>) r;
       Some (new_head, r) } })"

definition rc_seq_keep :: "recurrent \<Rightarrow> llama_seq_id \<Rightarrow> recurrent option" where
  "rc_seq_keep r s = do {
     (new_head, r) \<leftarrow> foldM (rc_keep_cell s) [0..<rc_size r] (rc_size r, r);
     Some (if new_head \<noteq> rc_size r \<and> new_head < rc_head r then r\<lparr>rc_head := new_head\<rparr> else r) }"

text \<open>\<open>seq_add\<close> and \<open>seq_div\<close> change the position of the tail cell of the sequence.\<close>

definition rc_map_pos :: "llama_seq_id \<Rightarrow> llama_pos \<Rightarrow> llama_pos \<Rightarrow> (llama_pos \<Rightarrow> llama_pos option) \<Rightarrow> recurrent \<Rightarrow> recurrent option" where
  "rc_map_pos s p0 p1 f r =
     (if 0 \<le> s \<and> s < int (rc_size r) then do {
        m \<leftarrow> rc_cell r s;
        if mc_tail m \<ge> 0 then do {
          cell \<leftarrow> rc_cell r (mc_tail m);
          if mc_has_seq_id cell s \<and> p0 \<le> mc_pos cell \<and> mc_pos cell < p1 then do {
            p \<leftarrow> f (mc_pos cell);
            rc_upd (mc_tail m) (\<lambda>c. c\<lparr>mc_pos := p\<rparr>) r }
          else Some r }
        else Some r }
      else Some r)"

definition rc_seq_add :: "recurrent \<Rightarrow> llama_seq_id \<Rightarrow> llama_pos \<Rightarrow> llama_pos \<Rightarrow> llama_pos \<Rightarrow> recurrent option" where
  "rc_seq_add r s p0 p1 shift =
     (if shift = 0 then Some r
      else let p0 = rc_norm_p0 p0; p1 = rc_norm_p1 p1 in
        if p0 = p1 then Some r
        else rc_map_pos s p0 p1 (\<lambda>p. do { guard (i32_ok (p + shift)); Some (p + shift) }) r)"

definition rc_seq_div :: "recurrent \<Rightarrow> llama_seq_id \<Rightarrow> llama_pos \<Rightarrow> llama_pos \<Rightarrow> int \<Rightarrow> recurrent option" where
  "rc_seq_div r s p0 p1 d =
     (if d = 1 then Some r
      else let p0 = rc_norm_p0 p0; p1 = rc_norm_p1 p1 in
        if p0 = p1 then Some r
        else rc_map_pos s p0 p1 (\<lambda>p. do { guard (d \<noteq> 0 \<and> i32_ok (cdiv p d)); Some (cdiv p d) }) r)"

definition rc_seq_pos_min :: "recurrent \<Rightarrow> llama_seq_id \<Rightarrow> llama_pos option" where
  "rc_seq_pos_min r s = do {
     result \<leftarrow> foldM (\<lambda>i result. do {
         c \<leftarrow> vget (rc_cells r) i;
         Some (if mc_has_seq_id c s then min result (mc_pos c) else result) }) [0..<rc_size r] INT32_MAX;
     Some (if result = INT32_MAX then - 1 else result) }"

definition rc_seq_pos_max :: "recurrent \<Rightarrow> llama_seq_id \<Rightarrow> llama_pos option" where
  "rc_seq_pos_max r s =
     foldM (\<lambda>i result. do {
         c \<leftarrow> vget (rc_cells r) i;
         Some (if mc_has_seq_id c s then max result (mc_pos c) else result) }) [0..<rc_size r] (- 1)"

definition rc_get_can_shift :: "recurrent \<Rightarrow> bool" where
  "rc_get_can_shift r = True"

end
