(* ===== verification/RecurrentSlot.thy ===== *)
theory RecurrentSlot
  imports Recurrent
begin

text \<open>
  Placing micro-batches in the recurrent memory (src/llama-memory-recurrent.cpp): \<open>find_slot\<close>,
  \<open>prepare\<close>, \<open>init_batch\<close> and the memory context.  \<open>find_slot\<close> does both jobs here, it chooses the
  cells and writes them; its phases are one definition each, in the order of the code.  The
  verification of the tails that a debug build logs is left out: it changes nothing.
\<close>

subsection \<open>\<open>find_slot\<close>\<close>

text \<open>
  The ids of the sequence set number \<open>s\<close>: a set whose ids are out of range makes the call
  return \<open>false\<close>; the ids after the first leave the cells they are in.
\<close>

fun rc_claim_ids :: "llama_seq_id list \<Rightarrow> nat list \<Rightarrow> recurrent \<Rightarrow> (bool \<times> recurrent) option" where
  "rc_claim_ids ids [] r = Some (True, r)"
| "rc_claim_ids ids (j # js) r = do {
     s \<leftarrow> vget ids j;
     if s < 0 \<or> u32 s \<ge> rc_size r then Some (False, r)
     else do {
       r \<leftarrow> (if j > 0 then rc_leave s r else Some r);
       rc_claim_ids ids js r } }"

fun rc_claim :: "llama_ubatch \<Rightarrow> nat list \<Rightarrow> recurrent \<Rightarrow> (bool \<times> recurrent) option" where
  "rc_claim ub [] r = Some (True, r)"
| "rc_claim ub (s # ss) r = do {
     n_seq_id \<leftarrow> vget (ub_n_seq_id ub) (s * ub_n_seq_tokens ub);
     ids \<leftarrow> vget (ub_seq_id ub) (s * ub_n_seq_tokens ub);
     (go, r) \<leftarrow> rc_claim_ids ids [0..<u32 n_seq_id] r;
     if go then rc_claim ub ss r else Some (False, r) }"

text \<open>
  The two searches for the next empty cell, of at most \<open>size\<close> steps; the first tests the cell it
  starts at, the second moves on first.
\<close>

fun rc_first_empty :: "recurrent \<Rightarrow> nat \<Rightarrow> nat \<Rightarrow> nat option" where
  "rc_first_empty r 0 next = Some next"
| "rc_first_empty r (Suc k) next = do {
     let next = (if next \<ge> rc_size r then next - rc_size r else next);
     c \<leftarrow> vget (rc_cells r) next;
     if mc_is_empty c then Some next else rc_first_empty r k (next + 1) }"

fun rc_next_empty :: "recurrent \<Rightarrow> nat \<Rightarrow> nat \<Rightarrow> nat option" where
  "rc_next_empty r 0 next = Some next"
| "rc_next_empty r (Suc k) next = do {
     let next = next + 1;
     let next = (if next \<ge> rc_size r then next - rc_size r else next);
     c \<leftarrow> vget (rc_cells r) next;
     if mc_is_empty c then Some next else rc_next_empty r k next }"

text \<open>\<open>ubatch.seq_id[s*n_seq_tokens][0]\<close>\<close>

definition rc_set_id :: "llama_ubatch \<Rightarrow> nat \<Rightarrow> llama_seq_id option" where
  "rc_set_id ub s = do { ids \<leftarrow> vget (ub_seq_id ub) (s * ub_n_seq_tokens ub); vget ids 0 }"

text \<open>A cell for the sequence set \<open>s\<close>; the state is \<open>(next_empty_cell, min, max)\<close> and the memory.\<close>

definition rc_own :: "llama_seq_id \<Rightarrow> recurrent \<Rightarrow> bool option" where
  "rc_own seq_id r = do {
     m \<leftarrow> rc_cell r seq_id;
     if mc_tail m \<ge> 0 then do {
       cell \<leftarrow> rc_cell r (mc_tail m);
       guard (mc_has_seq_id cell seq_id);
       Some (card (mc_seq cell) = 1) }
     else Some False }"

text \<open>The old tail is copied into the empty cell, which becomes the tail.\<close>

definition rc_move :: "llama_seq_id \<Rightarrow> nat \<Rightarrow> recurrent \<Rightarrow> recurrent option" where
  "rc_move seq_id next r = do {
     e \<leftarrow> vget (rc_cells r) next;
     guard (mc_is_empty e);
     m \<leftarrow> rc_cell r seq_id;
     r \<leftarrow> (if mc_tail m \<ge> 0 then do {
         orig \<leftarrow> rc_cell r (mc_tail m);
         r \<leftarrow> rc_upd (int next) (\<lambda>c. c\<lparr>mc_pos := mc_pos orig, mc_src := mc_src orig\<rparr>) r;
         r \<leftarrow> rc_upd (mc_tail m) (\<lambda>c. c\<lparr>mc_seq := mc_seq c - {seq_id}\<rparr>) r;
         r \<leftarrow> rc_upd (int next) (\<lambda>c. c\<lparr>mc_seq := insert seq_id (mc_seq c)\<rparr>) r;
         orig \<leftarrow> rc_cell r (mc_tail m);
         guard (\<not> mc_is_empty orig);
         Some r }
       else Some r);
     rc_upd seq_id (\<lambda>c. c\<lparr>mc_tail := int next\<rparr>) r }"

definition rc_place :: "llama_ubatch \<Rightarrow> nat \<Rightarrow> (nat \<times> int \<times> int) \<times> recurrent \<Rightarrow> ((nat \<times> int \<times> int) \<times> recurrent) option" where
  "rc_place ub s = (\<lambda>((next, mn, mx), r). do {
     seq_id \<leftarrow> rc_set_id ub s;
     has_cell \<leftarrow> rc_own seq_id r;
     (next, r) \<leftarrow> (if has_cell then Some (next, r) else do {
         r \<leftarrow> rc_move seq_id next r;
         next \<leftarrow> (if s + 1 < ub_n_seqs ub then rc_next_empty r (rc_size r) next else Some next);
         Some (next, r) });
     m \<leftarrow> rc_cell r seq_id;
     let mn = (if mn > mc_tail m then mc_tail m else mn);
     let mx = (if mx < mc_tail m then mc_tail m else mx);
     Some ((next, mn, mx), r) })"

text \<open>Gather: the cell of set \<open>s\<close> is swapped with cell \<open>s + min\<close>, and the tails are renamed.\<close>

definition rc_swap_tail :: "int \<Rightarrow> int \<Rightarrow> int \<Rightarrow> int" where
  "rc_swap_tail src dst t = (if t = src then dst else if t = dst then src else t)"

definition rc_swap :: "int \<Rightarrow> int \<Rightarrow> recurrent \<Rightarrow> recurrent option" where
  "rc_swap dst src r = do {
     d \<leftarrow> rc_cell r dst;
     s \<leftarrow> rc_cell r src;
     r \<leftarrow> rc_upd dst (\<lambda>c. c\<lparr>mc_pos := mc_pos s, mc_src := mc_src s, mc_seq := mc_seq s\<rparr>) r;
     r \<leftarrow> rc_upd src (\<lambda>c. c\<lparr>mc_pos := mc_pos d, mc_src := mc_src d, mc_seq := mc_seq d\<rparr>) r;
     foldM (\<lambda>j. rc_upd (int j) (\<lambda>c. c\<lparr>mc_tail := rc_swap_tail src dst (mc_tail c)\<rparr>)) [0..<rc_size r] r }"

definition rc_gather :: "llama_ubatch \<Rightarrow> int \<Rightarrow> nat \<Rightarrow> recurrent \<Rightarrow> recurrent option" where
  "rc_gather ub mn s r = do {
     seq_id \<leftarrow> rc_set_id ub s;
     m \<leftarrow> rc_cell r seq_id;
     let dst = int s + mn;
     let src = mc_tail m;
     if dst \<noteq> src then rc_swap dst src r else Some r }"

text \<open>The new position and sequences of the cell of set \<open>s\<close>.\<close>

definition rc_update :: "llama_ubatch \<Rightarrow> int \<Rightarrow> nat \<Rightarrow> recurrent \<Rightarrow> recurrent option" where
  "rc_update ub mn s r = do {
     let i = s * ub_n_seq_tokens ub;
     k \<leftarrow> sidx (int (i + ub_n_seq_tokens ub) - 1);
     last_pos \<leftarrow> vget (ub_pos ub) k;
     let cell_id = int s + mn;
     r \<leftarrow> rc_upd cell_id (\<lambda>c. c\<lparr>mc_pos := last_pos, mc_seq := {}\<rparr>) r;
     n_seq_id \<leftarrow> vget (ub_n_seq_id ub) i;
     ids \<leftarrow> vget (ub_seq_id ub) i;
     foldM (\<lambda>j r. do {
       seq_id \<leftarrow> vget ids j;
       r \<leftarrow> rc_upd cell_id (\<lambda>c. c\<lparr>mc_seq := insert seq_id (mc_seq c)\<rparr>) r;
       rc_upd seq_id (\<lambda>c. c\<lparr>mc_tail := cell_id\<rparr>) r }) [0..<nat n_seq_id] r }"

text \<open>The zeroed state: the first cell of the range that no other cell takes its state from.\<close>

definition rc_refcounts :: "recurrent \<Rightarrow> nat list option" where
  "rc_refcounts r =
     foldM (\<lambda>i refs. do {
       c \<leftarrow> vget (rc_cells r) i;
       if mc_src c \<ge> 0 then do {
         n \<leftarrow> vget refs (nat (mc_src c));
         Some (refs[nat (mc_src c) := n + 1]) }
       else Some refs }) [0..<rc_size r] (replicate (rc_size r) 0)"

fun rc_find_z :: "nat list \<Rightarrow> int list \<Rightarrow> int option" where
  "rc_find_z refs [] = Some (- 1)"
| "rc_find_z refs (i # is) = do {
     k \<leftarrow> sidx i;
     n \<leftarrow> vget refs k;
     if n = 0 then Some i else rc_find_z refs is }"

definition rc_set_src :: "int \<Rightarrow> recurrent \<Rightarrow> recurrent option" where
  "rc_set_src i r = do {
     c \<leftarrow> rc_cell r i;
     r \<leftarrow> (if mc_src c < 0 then do {
         guard (rc_rs_z r \<ge> 0);
         rc_upd i (\<lambda>c. c\<lparr>mc_src0 := rc_rs_z r\<rparr>) r }
       else rc_upd i (\<lambda>c. c\<lparr>mc_src0 := mc_src c\<rparr>) r);
     rc_upd i (\<lambda>c. c\<lparr>mc_src := i\<rparr>) r }"

definition rc_find_slot :: "recurrent \<Rightarrow> llama_ubatch \<Rightarrow> (bool \<times> recurrent) option" where
  "rc_find_slot r ub = do {
     let n_seqs = ub_n_seqs ub;
     let r = (if rc_head r > rc_used r + 2 * n_seqs then r\<lparr>rc_head := 0\<rparr> else r);
     guard (ub_equal_seqs ub);
     (go, r) \<leftarrow> rc_claim ub [0..<n_seqs] r;
     if \<not> go then Some (False, r) else do {
       next \<leftarrow> rc_first_empty r (rc_size r) (rc_head r);
       ((next, mn, mx), r) \<leftarrow> foldM (rc_place ub) [0..<n_seqs] ((next, int (rc_size r) - 1, 0), r);
       r \<leftarrow> foldM (rc_gather ub mn) [0..<n_seqs] r;
       r \<leftarrow> foldM (rc_update ub mn) [0..<n_seqs] r;
       refs \<leftarrow> rc_refcounts r;
       z \<leftarrow> rc_find_z refs [mn..mx];
       r \<leftarrow> foldM rc_set_src [mn..mx] (r\<lparr>rc_rs_z := z\<rparr>);
       let r = r\<lparr>rc_head := u32 mn, rc_n := u32 (mx - mn + 1),
                 rc_used := length (filter (\<lambda>c. \<not> mc_is_empty c) (rc_cells r))\<rparr>;
       Some (rc_n r \<ge> n_seqs, r) } }"

subsection \<open>\<open>prepare\<close> and \<open>init_batch\<close>\<close>

fun rc_try :: "llama_ubatch list \<Rightarrow> recurrent \<Rightarrow> (bool \<times> recurrent) option" where
  "rc_try [] r = Some (True, r)"
| "rc_try (ub # ubs) r = do {
     (found, r) \<leftarrow> rc_find_slot r ub;
     if found then rc_try ubs r else Some (False, r) }"

definition rc_prepare :: "llama_ubatch list \<Rightarrow> recurrent \<Rightarrow> (bool \<times> recurrent) option" where
  "rc_prepare ubs r = do {
     let org_cells = rc_cells r;
     let org_used = rc_used r;
     let org_head = rc_head r;
     (success, r) \<leftarrow> rc_try ubs r;
     Some (success, r\<lparr>rc_cells := org_cells, rc_used := org_used, rc_head := org_head\<rparr>) }"

text \<open>\<open>llama_memory_recurrent_context\<close>\<close>

record recurrent_context =
  rx_status :: llama_memory_status
  rx_i_next :: nat
  rx_ubatches :: "llama_ubatch list"
  rx_is_full :: bool

definition rx_failed :: "llama_memory_status \<Rightarrow> recurrent_context" where
  "rx_failed st = \<lparr>rx_status = st, rx_i_next = 0, rx_ubatches = [], rx_is_full = False\<rparr>"

definition rx_full :: recurrent_context where
  "rx_full = \<lparr>rx_status = MEMORY_STATUS_SUCCESS, rx_i_next = 0, rx_ubatches = [], rx_is_full = True\<rparr>"

definition rx_batch :: "llama_ubatch list \<Rightarrow> recurrent_context" where
  "rx_batch ubs = \<lparr>rx_status = MEMORY_STATUS_SUCCESS, rx_i_next = 0, rx_ubatches = ubs, rx_is_full = False\<rparr>"

text \<open>
  The loop that splits a batch until the split function returns an empty micro-batch.  It is
  partial: not returning is \<open>None\<close>.  The three kinds of memory share it.
\<close>

partial_function (option) split_loop :: "(batch_allocr \<Rightarrow> (llama_ubatch \<times> batch_allocr) option) \<Rightarrow>
    llama_ubatch list \<Rightarrow> batch_allocr \<Rightarrow> (llama_ubatch list \<times> batch_allocr) option" where
  "split_loop split ubs a = Option.bind (split a) (\<lambda>(ub, a).
     if ub_n_tokens ub = 0 then Some (ubs, a) else split_loop split (ubs @ [ub]) a)"

declare split_loop.simps [code]

definition rc_init_batch :: "batch_allocr \<Rightarrow> nat \<Rightarrow> bool \<Rightarrow> recurrent \<Rightarrow> (recurrent_context \<times> batch_allocr \<times> recurrent) option" where
  "rc_init_batch a n_ubatch embd_all r = do {
     let a = ba_split_reset a;
     (ubs, a) \<leftarrow> split_loop (if embd_all then ba_split_seq n_ubatch else ba_split_equal n_ubatch False) [] a;
     if ba_get_n_used a < ba_get_n_tokens a
     then Some (rx_failed MEMORY_STATUS_FAILED_PREPARE, a, r)
     else do {
       (ok, r) \<leftarrow> rc_prepare ubs r;
       if \<not> ok then Some (rx_failed MEMORY_STATUS_FAILED_PREPARE, a, r)
       else Some (rx_batch ubs, a, r) } }"

definition rc_init_full :: "recurrent \<Rightarrow> recurrent_context" where
  "rc_init_full r = rx_full"

definition rc_init_update :: "recurrent \<Rightarrow> bool \<Rightarrow> recurrent_context" where
  "rc_init_update r optimize = rx_failed MEMORY_STATUS_NO_UPDATE"

definition rx_next :: "recurrent_context \<Rightarrow> (bool \<times> recurrent_context) option" where
  "rx_next x = do {
     guard (rx_status x = MEMORY_STATUS_SUCCESS);
     let x = x\<lparr>rx_i_next := rx_i_next x + 1\<rparr>;
     Some (rx_i_next x < length (rx_ubatches x), x) }"

definition rx_apply :: "recurrent_context \<Rightarrow> recurrent \<Rightarrow> (bool \<times> recurrent) option" where
  "rx_apply x r = do {
     guard (\<not> llama_memory_status_is_fail (rx_status x));
     if rx_ubatches x = [] then do {
       guard (rx_status x = MEMORY_STATUS_NO_UPDATE);
       Some (True, r) }
     else do {
       ub \<leftarrow> vget (rx_ubatches x) (rx_i_next x);
       (_, r) \<leftarrow> rc_find_slot r ub;
       Some (True, r) } }"

definition rx_get_ubatch :: "recurrent_context \<Rightarrow> llama_ubatch option" where
  "rx_get_ubatch x = do {
     guard (rx_status x = MEMORY_STATUS_SUCCESS);
     vget (rx_ubatches x) (rx_i_next x) }"

definition rx_get_n_rs :: "recurrent_context \<Rightarrow> recurrent \<Rightarrow> nat" where
  "rx_get_n_rs x r = (if rx_is_full x then rc_size r else rc_n r)"

definition rx_get_head :: "recurrent_context \<Rightarrow> recurrent \<Rightarrow> nat" where
  "rx_get_head x r = (if rx_is_full x then 0 else rc_head r)"

definition rx_get_rs_z :: "recurrent_context \<Rightarrow> recurrent \<Rightarrow> int" where
  "rx_get_rs_z x r = (if rx_is_full x then 0 else rc_rs_z r)"

definition rx_get_size :: "recurrent \<Rightarrow> nat" where
  "rx_get_size r = rc_size r"

definition rx_s_copy :: "int \<Rightarrow> recurrent \<Rightarrow> int option" where
  "rx_s_copy i r = do {
     c \<leftarrow> vget (rc_cells r) (u32 (i + int (rc_head r)));
     Some (mc_src0 c) }"

end
