(* ===== verification/KvUpdate.thy ===== *)
theory KvUpdate
  imports KvSlot RecurrentSlot
begin

text \<open>
  Splitting a batch and pending work on the unified cache (src/llama-kv-cache-unified.cpp):
  \<open>init_batch\<close>, \<open>init_update\<close>, \<open>defrag_prepare\<close>, \<open>update\<close> and \<open>llama_kv_cache_unified_context\<close>.

  What \<open>update\<close> asks the backend for is not metadata.  The stream copies are returned as the
  list of pairs of streams whose K and V buffers are copied, layer by layer, in that order; the
  outcome of the two graph computations comes from the record \<open>lctx_view\<close>, as do the values the
  code reads from \<open>llama_context\<close>.
\<close>

record defrag_info =
  df_ids :: "nat list"

record lctx_view =
  lx_thold_positive :: bool
  lx_fragmentation_above :: "nat \<Rightarrow> nat \<Rightarrow> bool"
  lx_graph_max_nodes :: int
  lx_has_rope :: bool
  lx_alloc_shift :: bool
  lx_compute_shift :: bool
  lx_alloc_defrag :: bool
  lx_compute_defrag :: bool

text \<open>
  \<open>lx_thold_positive\<close> is \<open>defrag_thold > 0.0f\<close>; \<open>lx_fragmentation_above a n\<close> is the comparison of
  \<open>std::max(0.0f, 1.0f - float(a)/n)\<close> with \<open>defrag_thold\<close>; the last four are the results of
  \<open>ggml_backend_sched_alloc_graph\<close> and \<open>graph_compute\<close> for the two graphs.
\<close>

definition df_empty :: "defrag_info \<Rightarrow> bool" where
  "df_empty d \<longleftrightarrow> df_ids d = []"

definition sc_is_empty :: "stream_copy_info \<Rightarrow> bool option" where
  "sc_is_empty s = do {
     guard (length (sc_ssrc s) = length (sc_sdst s));
     Some (sc_ssrc s = []) }"

subsection \<open>\<open>defrag_prepare\<close>\<close>

text \<open>The cell \<open>i\<close> holds a token that has no target yet: \<open>!(cells.is_empty(i) || ids[i] != n_kv)\<close>.\<close>

definition df_movable :: "kv_cells \<Rightarrow> nat \<Rightarrow> nat list \<Rightarrow> nat \<Rightarrow> bool option" where
  "df_movable c n_kv ids i = do {
     e \<leftarrow> kc_is_empty c i;
     if e then Some False else do { t \<leftarrow> vget ids i; Some (t = n_kv) } }"

text \<open>From the end of the used range back to the \<open>nh\<close>-th movable cell; the result is \<open>(is, nf)\<close>.\<close>

function df_back :: "kv_cells \<Rightarrow> nat \<Rightarrow> nat list \<Rightarrow> nat \<Rightarrow> nat \<Rightarrow> nat \<Rightarrow> nat \<Rightarrow> (nat \<times> nat) option" where
  "df_back c n_kv ids i0 nh is nf =
     (if is > i0 then
        (case df_movable c n_kv ids is of
           None \<Rightarrow> None
         | Some False \<Rightarrow> df_back c n_kv ids i0 nh (is - 1) nf
         | Some True \<Rightarrow> if nf + 1 = nh then Some (is, nf + 1) else df_back c n_kv ids i0 nh (is - 1) (nf + 1))
      else Some (is, nf))"
  by pat_completeness auto
termination by (relation "measure (\<lambda>(c, n_kv, ids, i0, nh, is, nf). is)") auto

declare df_back.simps [simp del]

text \<open>
  Forward from there, giving the movable cells the targets \<open>i0\<close>, \<open>i0 + 1\<close>, \<open>...\<close>; a run of
  consecutive cells counts as one move.  The state is \<open>(ids, n_moves, nf, cont)\<close>, the result
  \<open>(ids, n_moves, stop)\<close>.
\<close>

function df_forth :: "kv_cells \<Rightarrow> nat \<Rightarrow> nat \<Rightarrow> nat \<Rightarrow> nat \<Rightarrow> nat \<Rightarrow> nat list \<Rightarrow> nat \<Rightarrow> nat \<Rightarrow> bool \<Rightarrow>
    (nat list \<times> nat \<times> bool) option" where
  "df_forth c n_kv max_moves i0 nh i1 ids n_moves nf cont =
     (if i1 < n_kv then
        (case df_movable c n_kv ids i1 of
           None \<Rightarrow> None
         | Some False \<Rightarrow> if n_moves = max_moves then Some (ids, n_moves, True)
             else df_forth c n_kv max_moves i0 nh (i1 + 1) ids n_moves nf False
         | Some True \<Rightarrow>
             let ids = ids[i1 := i0 + nf];
                 n_moves = (if cont then n_moves else n_moves + 1);
                 nf = nf + 1
             in if nf = nh then Some (ids, n_moves, False)
                else df_forth c n_kv max_moves i0 nh (i1 + 1) ids n_moves nf True)
      else Some (ids, n_moves, False))"
  by pat_completeness auto
termination
  by (relation "measure (\<lambda>(c, n_kv, max_moves, i0, nh, i1, ids, n_moves, nf, cont). n_kv - i1)") auto

declare df_forth.simps [simp del]

text \<open>The loop over the holes; \<open>i0\<close> advances by one over a used cell and by \<open>nh\<close> over a hole.\<close>

function df_holes :: "kv_cells \<Rightarrow> nat \<Rightarrow> nat \<Rightarrow> nat \<Rightarrow> nat \<Rightarrow> nat list \<Rightarrow> nat \<Rightarrow> (nat list \<times> nat) option" where
  "df_holes c n_kv n_used max_moves i0 ids n_moves =
     (if i0 < n_used then
        (case kc_is_empty c i0 of
           None \<Rightarrow> None
         | Some False \<Rightarrow> do {
             ids \<leftarrow> vset ids i0 i0;
             df_holes c n_kv n_used max_moves (i0 + 1) ids n_moves }
         | Some True \<Rightarrow> (case scanM (kc_is_empty c) n_used (i0 + 1) of
             None \<Rightarrow> None
           | Some e \<Rightarrow>
             let nh = max 1 (e - i0) in do {
             (is, nf) \<leftarrow> df_back c n_kv ids i0 nh (n_kv - 1) 0;
             guard (nf = nh);
             (ids, n_moves, stop) \<leftarrow> df_forth c n_kv max_moves i0 nh is ids n_moves 0 False;
             if stop \<or> n_moves = max_moves then Some (ids, n_moves)
             else df_holes c n_kv n_used max_moves (i0 + nh) ids n_moves }))
      else Some (ids, n_moves))"
  by pat_completeness auto
termination
  by (relation "measure (\<lambda>(c, n_kv, n_used, max_moves, i0, ids, n_moves). n_used - i0)") auto

declare df_holes.simps [simp del]

definition kv_defrag_prepare :: "kv_cache \<Rightarrow> nat \<Rightarrow> int \<Rightarrow> defrag_info option" where
  "kv_defrag_prepare kv n_layer n_max_nodes = do {
     guard (kv_n_stream kv = 1);
     c \<leftarrow> vget (kv_cells_v kv) 0;
     let n_kv = kc_used_max_p1 c;
     let n_used = kc_get_used c;
     guard (n_used \<le> n_kv);
     guard (n_layer \<noteq> 0);
     let max_moves = u32 (n_max_nodes - 2 * int n_layer) div (6 * n_layer);
     (ids, n_moves) \<leftarrow> df_holes c n_kv n_used max_moves 0 (replicate n_kv n_kv) 0;
     Some \<lparr>df_ids = (if n_moves = 0 then [] else ids)\<rparr> }"

subsection \<open>\<open>update\<close>\<close>

definition up_copies :: "kv_cache \<Rightarrow> stream_copy_info \<Rightarrow> (nat \<times> nat) list option" where
  "up_copies kv sc = do {
     e \<leftarrow> sc_is_empty sc;
     if e then Some [] else do {
       guard (kv_n_stream kv > 1);
       foldM (\<lambda>i cs. do {
         ssrc \<leftarrow> vget (sc_ssrc sc) i;
         sdst \<leftarrow> vget (sc_sdst sc) i;
         guard (ssrc < kv_n_stream kv);
         guard (sdst < kv_n_stream kv);
         guard (ssrc \<noteq> sdst);
         Some (cs @ [(ssrc, sdst)]) }) [0..<length (sc_ssrc sc)] [] } }"

definition up_move :: "nat list \<Rightarrow> nat \<Rightarrow> kv_cells \<Rightarrow> kv_cells option" where
  "up_move ids i c = do {
     t \<leftarrow> vget ids i;
     guard (t \<le> length ids);
     if t = length ids \<or> t = i then Some c else kc_mv c i t }"

definition up_reset_shift :: "kv_cache \<Rightarrow> kv_cache option" where
  "up_reset_shift kv =
     foldM (\<lambda>s kv. do {
       c \<leftarrow> vget (kv_cells_v kv) s;
       Some (kv\<lparr>kv_cells_v := (kv_cells_v kv)[s := kc_reset_shift c]\<rparr>) }) [0..<kv_n_stream kv] kv"

definition up_defrag :: "defrag_info \<Rightarrow> kv_cache \<Rightarrow> kv_cache option" where
  "up_defrag d kv = do {
     st \<leftarrow> vget (kv_seq_to_stream kv) 0;
     c \<leftarrow> vget (kv_cells_v kv) st;
     c \<leftarrow> foldM (up_move (df_ids d)) [0..<length (df_ids d)] c;
     heads \<leftarrow> vset (kv_heads kv) st 0;
     Some (kv\<lparr>kv_cells_v := (kv_cells_v kv)[st := c], kv_heads := heads\<rparr>) }"

text \<open>The result is \<open>(updated, copies, kv)\<close>; a failed computation returns early.\<close>

definition kv_update :: "lctx_view \<Rightarrow> bool \<Rightarrow> defrag_info \<Rightarrow> stream_copy_info \<Rightarrow> kv_cache \<Rightarrow>
    (bool \<times> (nat \<times> nat) list \<times> kv_cache) option" where
  "kv_update lctx do_shift d sc kv = do {
     copies \<leftarrow> up_copies kv sc;
     let updated = False;
     (stop, updated, kv) \<leftarrow>
       (if do_shift then do {
          guard (kv_get_can_shift kv);
          if lx_has_rope lctx \<and> \<not> (lx_alloc_shift lctx \<and> lx_compute_shift lctx)
          then Some (True, updated, kv)
          else do {
            let updated = (if lx_has_rope lctx then True else updated);
            kv \<leftarrow> up_reset_shift kv;
            Some (False, updated, kv) } }
        else Some (False, updated, kv));
     if stop then Some (updated, copies, kv)
     else if df_empty d then Some (updated, copies, kv)
     else do {
       kv \<leftarrow> up_defrag d kv;
       if \<not> (lx_alloc_defrag lctx \<and> lx_compute_defrag lctx) then Some (updated, copies, kv)
       else Some (True, copies, kv) } }"

subsection \<open>The memory context\<close>

record kv_context =
  kx_status :: llama_memory_status
  kx_lctx :: "lctx_view option"
  kx_do_shift :: bool
  kx_dinfo :: defrag_info
  kx_sc_info :: stream_copy_info
  kx_i_cur :: nat
  kx_sinfos :: "slot_info list"
  kx_ubatches :: "llama_ubatch list"
  kx_n_kv :: int

text \<open>\<open>n_kv\<close> has no initializer in the class; the constructors that do not set it leave it arbitrary.\<close>

definition kx_failed :: "llama_memory_status \<Rightarrow> int \<Rightarrow> kv_context" where
  "kx_failed st n_kv = \<lparr>kx_status = st, kx_lctx = None, kx_do_shift = False, kx_dinfo = \<lparr>df_ids = []\<rparr>,
     kx_sc_info = sc_empty, kx_i_cur = 0, kx_sinfos = [], kx_ubatches = [], kx_n_kv = n_kv\<rparr>"

definition kv_init_full :: "kv_cache \<Rightarrow> kv_context option" where
  "kv_init_full kv = do {
     n_kv \<leftarrow> kv_get_size kv;
     let n_stream = kv_get_n_stream kv;
     let si = \<lparr>si_s0 = 0, si_s1 = int n_stream - 1, si_strm = [0..<n_stream],
               si_idxs = map (\<lambda>_. [0]) [0..<n_stream]\<rparr>;
     Some ((kx_failed MEMORY_STATUS_SUCCESS (int n_kv))\<lparr>kx_sinfos := [si]\<rparr>) }"

definition kx_update_new :: "lctx_view \<Rightarrow> bool \<Rightarrow> defrag_info \<Rightarrow> stream_copy_info \<Rightarrow> int \<Rightarrow> kv_context option" where
  "kx_update_new lctx do_shift d sc n_kv = do {
     no_copy \<leftarrow> (if \<not> do_shift \<and> df_empty d then sc_is_empty sc else Some False);
     Some ((kx_failed (if no_copy then MEMORY_STATUS_NO_UPDATE else MEMORY_STATUS_SUCCESS) n_kv)
       \<lparr>kx_lctx := Some lctx, kx_do_shift := do_shift, kx_dinfo := d, kx_sc_info := sc\<rparr>) }"

definition kx_batch_new :: "slot_info list \<Rightarrow> llama_ubatch list \<Rightarrow> int \<Rightarrow> kv_context" where
  "kx_batch_new sis ubs n_kv =
     (kx_failed MEMORY_STATUS_SUCCESS n_kv)\<lparr>kx_sinfos := sis, kx_ubatches := ubs\<rparr>"

definition kv_init_batch :: "batch_allocr \<Rightarrow> nat \<Rightarrow> kv_cache \<Rightarrow> int \<Rightarrow> (kv_context \<times> batch_allocr \<times> kv_cache) option" where
  "kv_init_batch a n_ubatch kv n_kv = do {
     let a = ba_split_reset a;
     (ubs, a) \<leftarrow> split_loop (if kv_n_stream kv = 1 then ba_split_simple n_ubatch else ba_split_equal n_ubatch True) [] a;
     if ba_get_n_used a < ba_get_n_tokens a
     then Some (kx_failed MEMORY_STATUS_FAILED_PREPARE n_kv, a, kv)
     else do {
       (sis, kv) \<leftarrow> kv_prepare ubs kv;
       if sis = [] then Some (kx_failed MEMORY_STATUS_FAILED_PREPARE n_kv, a, kv)
       else Some (kx_batch_new sis ubs n_kv, a, kv) } }"

text \<open>
  \<open>std::move(sc_info)\<close> leaves the member of the cache empty.  \<open>n_layer\<close> is the number of layers
  of the cache.
\<close>

definition kv_init_update :: "lctx_view \<Rightarrow> nat \<Rightarrow> bool \<Rightarrow> kv_cache \<Rightarrow> int \<Rightarrow> (kv_context \<times> kv_cache) option" where
  "kv_init_update lctx n_layer optimize kv n_kv = do {
     do_shift \<leftarrow> kv_get_has_shift kv;
     d \<leftarrow> (if kv_n_stream kv = 1 then do {
         st \<leftarrow> vget (kv_seq_to_stream kv) 0;
         c \<leftarrow> vget (kv_cells_v kv) st;
         let do_defrag = (if \<not> optimize \<and> lx_thold_positive lctx
           then (let n_kv = kc_used_max_p1 c in
             n_kv \<ge> 2048 \<and> lx_fragmentation_above lctx (kc_get_used c + kv_n_pad kv) n_kv)
           else optimize);
         if do_defrag then kv_defrag_prepare kv n_layer (lx_graph_max_nodes lctx)
         else Some \<lparr>df_ids = []\<rparr> }
       else Some \<lparr>df_ids = []\<rparr>);
     x \<leftarrow> kx_update_new lctx do_shift d (kv_sc_info kv) n_kv;
     Some (x, kv\<lparr>kv_sc_info := sc_empty\<rparr>) }"

definition kx_next :: "kv_context \<Rightarrow> (bool \<times> kv_context) option" where
  "kx_next x = do {
     guard (kx_status x = MEMORY_STATUS_SUCCESS);
     let x = x\<lparr>kx_i_cur := kx_i_cur x + 1\<rparr>;
     Some (kx_i_cur x < length (kx_ubatches x), x) }"

definition kx_apply :: "kv_context \<Rightarrow> kv_cache \<Rightarrow> (bool \<times> kv_context \<times> kv_cache) option" where
  "kx_apply x kv = do {
     guard (\<not> llama_memory_status_is_fail (kx_status x));
     if kx_ubatches x = [] then do {
       lctx \<leftarrow> kx_lctx x;
       (updated, copies, kv) \<leftarrow> kv_update lctx (kx_do_shift x) (kx_dinfo x) (kx_sc_info x) kv;
       Some (True, x, kv) }
     else do {
       si \<leftarrow> vget (kx_sinfos x) (kx_i_cur x);
       ub \<leftarrow> vget (kx_ubatches x) (kx_i_cur x);
       kv \<leftarrow> kv_apply_ubatch si ub kv;
       n_kv \<leftarrow> kv_get_n_kv kv;
       Some (True, x\<lparr>kx_n_kv := int n_kv\<rparr>, kv) } }"

definition kx_get_ubatch :: "kv_context \<Rightarrow> llama_ubatch option" where
  "kx_get_ubatch x = do {
     guard (kx_status x = MEMORY_STATUS_SUCCESS);
     vget (kx_ubatches x) (kx_i_cur x) }"

definition kx_get_n_kv :: "kv_context \<Rightarrow> nat" where
  "kx_get_n_kv x = u32 (kx_n_kv x)"

definition kx_get_supports_set_rows :: "kv_cache \<Rightarrow> bool" where
  "kx_get_supports_set_rows kv = kv_supports_set_rows kv"

end
