(* ===== verification/KvInput.thy ===== *)
theory KvInput
  imports KvUpdate
begin

text \<open>
  The graph inputs computed from the unified cache (src/llama-kv-cache-unified.cpp): the row
  indices of the new tokens, the shifts of the cells and the attention mask.

  A destination tensor is the list of its elements, in a host buffer; a write outside it is
  \<open>None\<close>.  The elements of the mask are floats that hold minus infinity or a small integer; they
  are modelled by \<open>mask_val\<close>.
\<close>

subsection \<open>\<open>set_input_k_idxs\<close> and \<open>set_input_v_idxs\<close>\<close>

text \<open>
  The loop over the tokens of stream \<open>s\<close> that writes one row index each, at an offset that the
  two callers compute as \<open>sinfo.strm[s]*get_size()\<close> in unsigned arithmetic.
\<close>

definition in_rows :: "slot_info \<Rightarrow> nat \<Rightarrow> nat \<Rightarrow> nat \<Rightarrow> int list \<Rightarrow> int list option" where
  "in_rows si n sz s dst = do {
     st \<leftarrow> vget (si_strm si) s;
     idxs \<leftarrow> vget (si_idxs si) s;
     let offs = int (u32 (int (st * sz)));
     foldM (\<lambda>i dst. do {
       idx \<leftarrow> vget idxs i;
       vset dst (s * n + i) (offs + int idx) }) [0..<n] dst }"

definition kv_set_input_k_idxs :: "kv_cache \<Rightarrow> llama_ubatch \<Rightarrow> slot_info \<Rightarrow> int list \<Rightarrow> int list option" where
  "kv_set_input_k_idxs kv ub si dst =
     (if \<not> kv_supports_set_rows kv then Some dst
      else do {
        n \<leftarrow> si_size si;
        guard (ub_n_tokens ub = n * si_n_stream si);
        sz \<leftarrow> kv_get_size kv;
        foldM (in_rows si n sz) [0..<si_n_stream si] dst })"

definition in_cols :: "slot_info \<Rightarrow> nat \<Rightarrow> nat \<Rightarrow> nat \<Rightarrow> nat \<Rightarrow> int list \<Rightarrow> int list option" where
  "in_cols si n kv_size n_embd s dst = do {
     st \<leftarrow> vget (si_strm si) s;
     idxs \<leftarrow> vget (si_idxs si) s;
     let offs = int (st * kv_size * n_embd);
     foldM (\<lambda>i dst. do {
       idx \<leftarrow> vget idxs i;
       foldM (\<lambda>j dst. vset dst (s * n * n_embd + i * n_embd + j) (offs + int (j * kv_size) + int idx)) [0..<n_embd] dst })
       [0..<n] dst }"

definition kv_set_input_v_idxs :: "kv_cache \<Rightarrow> nat \<Rightarrow> llama_ubatch \<Rightarrow> slot_info \<Rightarrow> int list \<Rightarrow> int list option" where
  "kv_set_input_v_idxs kv n_embd_v_gqa ub si dst =
     (if \<not> kv_supports_set_rows kv then Some dst
      else do {
        n \<leftarrow> si_size si;
        guard (ub_n_tokens ub = n * si_n_stream si);
        sz \<leftarrow> kv_get_size kv;
        if \<not> kv_v_trans kv then foldM (in_rows si n sz) [0..<si_n_stream si] dst
        else foldM (in_cols si n sz n_embd_v_gqa) [0..<si_n_stream si] dst })"

subsection \<open>\<open>set_input_k_shift\<close>\<close>

definition in_shift_cell :: "kv_cells \<Rightarrow> nat \<Rightarrow> nat \<Rightarrow> int list \<Rightarrow> int list option" where
  "in_shift_cell c s i dst = do {
     e \<leftarrow> kc_is_empty c i;
     v \<leftarrow> (if e then Some 0 else kc_get_shift c i);
     vset dst (s * kc_size c + i) v }"

definition kv_set_input_k_shift :: "kv_cache \<Rightarrow> int list \<Rightarrow> int list option" where
  "kv_set_input_k_shift kv dst =
     foldM (\<lambda>s dst. do {
       c \<leftarrow> vget (kv_cells_v kv) s;
       foldM (in_shift_cell c s) [0..<kc_size c] dst }) [0..<kv_n_stream kv] dst"

subsection \<open>\<open>set_input_kq_mask\<close>\<close>

datatype mask_val = MaskInf | MaskBias int

text \<open>
  The value for a cell that the token attends to, or \<open>None\<close> inside \<open>Some\<close> when one of the
  \<open>continue\<close>s leaves the element at minus infinity.
\<close>

definition mask_cell :: "kv_cache \<Rightarrow> bool \<Rightarrow> bool \<Rightarrow> kv_cells \<Rightarrow> llama_seq_id \<Rightarrow> llama_pos \<Rightarrow> nat \<Rightarrow> mask_val option option" where
  "mask_cell kv use_alibi causal c seq_id p1 j = do {
     e \<leftarrow> kc_is_empty c j;
     if e then Some None else do {
       has \<leftarrow> kc_seq_has c j seq_id;
       if \<not> has then Some None else do {
         p0 \<leftarrow> kc_pos_get c j;
         if causal \<and> p0 > p1 then Some None else do {
           masked \<leftarrow> kv_is_masked_swa kv p0 p1;
           if masked then Some None
           else do {
             guard (i32_ok (p0 - p1));
             Some (Some (MaskBias (if use_alibi then - \<bar>p0 - p1\<bar> else 0))) } } } } }"

definition GGML_KQ_MASK_PAD :: nat where
  "GGML_KQ_MASK_PAD = 64"

text \<open>The row of token \<open>ii\<close> of stream \<open>s\<close>; \<open>n_tps\<close> tokens per stream.\<close>

definition mask_row :: "kv_cache \<Rightarrow> bool \<Rightarrow> bool \<Rightarrow> llama_ubatch \<Rightarrow> nat \<Rightarrow> nat \<Rightarrow> nat \<Rightarrow> nat \<Rightarrow> nat \<Rightarrow> mask_val list \<Rightarrow> mask_val list option" where
  "mask_row kv use_alibi causal ub n_kv n_tps n_tps_pad s ii dst = do {
     let i = s * n_tps + ii;
     ids \<leftarrow> vget (ub_seq_id ub) i;
     seq_id \<leftarrow> vget ids 0;
     k \<leftarrow> sidx seq_id;
     st \<leftarrow> vget (kv_seq_to_stream kv) k;
     c \<leftarrow> vget (kv_cells_v kv) st;
     p1 \<leftarrow> vget (ub_pos ub) i;
     let idst = n_kv * (s * n_tps_pad + ii);
     foldM (\<lambda>j dst. do {
       v \<leftarrow> mask_cell kv use_alibi causal c seq_id p1 j;
       (case v of None \<Rightarrow> Some dst | Some x \<Rightarrow> vset dst (idst + j) x) }) [0..<n_kv] dst }"

definition kv_set_input_kq_mask :: "kv_cache \<Rightarrow> bool \<Rightarrow> nat \<Rightarrow> nat \<Rightarrow> llama_ubatch \<Rightarrow> bool \<Rightarrow> mask_val list \<Rightarrow> mask_val list option" where
  "kv_set_input_kq_mask kv use_alibi n_kv n_stream ub causal dst = do {
     let n_tokens = ub_n_tokens ub;
     guard (n_stream \<noteq> 0 \<and> n_tokens mod n_stream = 0);
     let n_tps = n_tokens div n_stream;
     let n_tps_pad = GGML_PAD n_tps GGML_KQ_MASK_PAD;
     let dst = map (\<lambda>_. MaskInf) dst;
     foldM (\<lambda>s. foldM (mask_row kv use_alibi causal ub n_kv n_tps n_tps_pad s) [0..<n_tps]) [0..<n_stream] dst }"

end
