(* ===== verification/KvSlotInv.thy ===== *)
theory KvSlotInv
  imports KvSlot
begin

text \<open>
  What \<open>find_slot\<close> returns.  For a non-continuous slot: the first \<open>n_tokens\<close> usable cells in
  the cyclic order from the head, or nothing when there are fewer.  For a continuous slot: a
  window of usable cells, and nothing only when there is no such window.  The search always
  ends.
\<close>

subsection \<open>The search for a non-continuous slot\<close>

definition cyc :: "nat \<Rightarrow> nat \<Rightarrow> nat list" where
  "cyc sz h = [h..<sz] @ [0..<h]"

lemma length_cyc [simp]: "h \<le> sz \<Longrightarrow> length (cyc sz h) = sz"
  by (simp add: cyc_def)

lemma set_cyc [simp]: "h \<le> sz \<Longrightarrow> set (cyc sz h) = {..<sz}"
  by (auto simp: cyc_def)

lemma distinct_cyc [simp]: "h \<le> sz \<Longrightarrow> distinct (cyc sz h)"
  by (simp add: cyc_def)

lemma cyc_nth: "h \<le> sz \<Longrightarrow> t < sz \<Longrightarrow> cyc sz h ! t = (if t < sz - h then h + t else t - (sz - h))"
  by (auto simp: cyc_def nth_append)

lemma take_Suc_nth: "t < length xs \<Longrightarrow> take (Suc t) xs = take t xs @ [xs ! t]"
  by (rule take_Suc_conv_app_nth)

lemma slot_test_one:
  "use h = Some u \<Longrightarrow> slot_test use False 1 (h, t, idxs) = Some (Suc h, Suc t, idxs @ (if u then [h] else []))"
  by (simp add: One_nat_def)

text \<open>The head of the search after \<open>t\<close> tests, before the wrap-around is taken.\<close>

definition cyc_at :: "nat \<Rightarrow> nat \<Rightarrow> nat \<Rightarrow> nat \<Rightarrow> bool" where
  "cyc_at sz h t q \<longleftrightarrow> (t \<le> sz - h \<and> q = h + t) \<or> (sz - h \<le> t \<and> q = t - (sz - h))"

lemma slot_loop_scan:
  assumes use: "\<And>i. i < sz \<Longrightarrow> use i = Some (U i)" and h: "h \<le> sz" and n: "n \<le> sz"
    and t: "t < sz" and q: "cyc_at sz h t q" "q \<le> sz"
    and idxs: "idxs = filter U (take t (cyc sz h))" "length idxs < n"
  shows "slot_loop use sz False n q t idxs =
    Some (if n \<le> length (filter U (cyc sz h)) then Some (take n (filter U (cyc sz h))) else None)"
  using t q idxs
proof (induction "sz - t" arbitrary: t q idxs rule: less_induct)
  case less
  have step: "slot_loop use sz False n q' t idxs =
      Some (if n \<le> length (filter U (cyc sz h)) then Some (take n (filter U (cyc sz h))) else None)"
    if q': "q' < sz" "cyc_at sz h t q'" for q'
  proof -
    let ?C = "cyc sz h"
    have at: "?C ! t = q'" using q' less.prems(1) h by (auto simp: cyc_nth cyc_at_def)
    let ?idxs = "idxs @ (if U q' then [q'] else [])"
    have tk: "filter U (take (Suc t) ?C) = ?idxs"
      using less.prems(1,4) h at by (simp add: take_Suc_nth)
    have split: "filter U ?C = ?idxs @ filter U (drop (Suc t) ?C)"
      by (subst tk [symmetric], subst filter_append [symmetric]) simp
    have test: "slot_test use False 1 (q', t, idxs) = Some (Suc q', Suc t, ?idxs)"
      using use [OF q'(1)] by (rule slot_test_one)
    have unf: "slot_loop use sz False n q' t idxs =
        (if length ?idxs = n then Some (Some ?idxs)
         else if Suc t \<ge> sz then Some None else slot_loop use sz False n (Suc q') (Suc t) ?idxs)"
      using q'(1) test by (subst slot_loop.simps) (simp add: Let_def)
    consider (found) "length ?idxs = n" | (full) "length ?idxs \<noteq> n" "Suc t \<ge> sz" | (more) "length ?idxs < n" "Suc t < sz"
      using less.prems(5) by (cases "U q'"; cases "Suc t < sz"; cases "length ?idxs = n") auto
    then show ?thesis
    proof cases
      case found
      then show ?thesis unfolding unf using split by simp
    next
      case full
      then have "filter U ?C = ?idxs" using split h by simp
      then show ?thesis unfolding unf using full less.prems(5) by (auto split: if_splits)
    next
      case more
      have "slot_loop use sz False n (Suc q') (Suc t) ?idxs =
          Some (if n \<le> length (filter U ?C) then Some (take n (filter U ?C)) else None)"
        by (rule less.hyps) (use more less.prems(1) q' tk in \<open>auto simp: cyc_at_def\<close>)
      then show ?thesis unfolding unf using more by simp
    qed
  qed
  show ?case
  proof (cases "q < sz")
    case True
    then show ?thesis using step less.prems(2) by blast
  next
    case False
    then have q: "q = sz" using less.prems(3) by simp
    have "slot_loop use sz False n q t idxs = slot_loop use sz False n 0 t idxs"
      by (subst slot_loop.simps) (simp add: q Let_def)
    moreover have "cyc_at sz h t 0" "0 < sz"
      using less.prems(1,2) q h by (auto simp: cyc_at_def)
    ultimately show ?thesis using step [of 0] by simp
  qed
qed

lemma slot_loop_plain:
  assumes "\<And>i. i < sz \<Longrightarrow> use i = Some (U i)" and "h \<le> sz" "0 < n" "n \<le> sz"
  shows "slot_loop use sz False n h 0 [] =
    Some (if n \<le> length (filter U (cyc sz h)) then Some (take n (filter U (cyc sz h))) else None)"
  by (rule slot_loop_scan) (use assms in \<open>auto simp: cyc_at_def\<close>)

subsection \<open>The search for a continuous slot\<close>

definition window :: "(nat \<Rightarrow> bool) \<Rightarrow> nat \<Rightarrow> nat \<Rightarrow> bool" where
  "window U n w \<longleftrightarrow> (\<forall>i < n. U (w + i))"

lemma slot_test_cont:
  assumes use: "\<And>i. i < sz \<Longrightarrow> use i = Some (U i)" and "h + n \<le> sz"
  shows "if window U n h then slot_test use True n (h, t, idxs) = Some (h + n, t + n, idxs @ [h..<h + n])
    else \<exists>j < n. \<not> U (h + j) \<and> slot_test use True n (h, t, idxs) = Some (h + Suc j, t + Suc j, idxs @ [h..<h + j])"
  using assms(2)
proof (induction n arbitrary: h t idxs)
  case 0
  then show ?case by (simp add: window_def)
next
  case (Suc n)
  have h: "h < sz" using Suc.prems by simp
  show ?case
  proof (cases "U h")
    case False
    then show ?thesis using use [OF h] by (auto simp: window_def intro!: exI [of _ 0])
  next
    case True
    have win: "window U (Suc n) h = window U n (Suc h)"
      using True by (auto simp: window_def less_Suc_eq_0_disj)
    have IH: "if window U n (Suc h) then slot_test use True n (Suc h, Suc t, idxs @ [h]) =
          Some (Suc h + n, Suc t + n, (idxs @ [h]) @ [Suc h..<Suc h + n])
        else \<exists>j < n. \<not> U (Suc h + j) \<and> slot_test use True n (Suc h, Suc t, idxs @ [h]) =
          Some (Suc h + Suc j, Suc t + Suc j, (idxs @ [h]) @ [Suc h..<Suc h + j])"
      by (rule Suc.IH) (use Suc.prems in simp)
    show ?thesis
    proof (cases "window U n (Suc h)")
      case True
      then show ?thesis using IH win use [OF h] \<open>U h\<close> by (simp add: upt_conv_Cons)
    next
      case False
      then obtain j where j: "j < n" "\<not> U (Suc h + j)" "slot_test use True n (Suc h, Suc t, idxs @ [h]) =
          Some (Suc h + Suc j, Suc t + Suc j, (idxs @ [h]) @ [Suc h..<Suc h + j])"
        using IH by auto
      then have "slot_test use True (Suc n) (h, t, idxs) =
          Some (h + Suc (Suc j), t + Suc (Suc j), idxs @ [h..<h + Suc j])"
        using use [OF h] \<open>U h\<close> by (simp add: upt_conv_Cons)
      then show ?thesis using False win j(1,2) by (auto intro!: exI [of _ "Suc j"])
    qed
  qed
qed

text \<open>One round of the loop, for a continuous slot.\<close>

lemma slot_loop_round:
  assumes use: "\<And>i. i < sz \<Longrightarrow> use i = Some (U i)" and n: "0 < n" and fit: "h + n \<le> sz"
  shows "if window U n h then slot_loop use sz True n h t [] = Some (Some [h..<h + n])
    else \<exists>j < n. \<not> U (h + j) \<and> slot_loop use sz True n h t [] =
      (if t + Suc j \<ge> sz then Some None else slot_loop use sz True n (h + Suc j) (t + Suc j) [])"
proof (cases "window U n h")
  case True
  then have "slot_test use True n (h, t, []) = Some (h + n, t + n, [] @ [h..<h + n])"
    using slot_test_cont [of sz use U h n t "[]"] use fit by simp
  then show ?thesis
    using True fit by (simp add: slot_loop.simps [of use sz True n h t "[]"] Let_def)
next
  case False
  then obtain j where j: "j < n" "\<not> U (h + j)" "slot_test use True n (h, t, []) = Some (h + Suc j, t + Suc j, [] @ [h..<h + j])"
    using slot_test_cont [of sz use U h n t "[]"] use fit by auto
  then have "slot_loop use sz True n h t [] =
      (if t + Suc j \<ge> sz then Some None else slot_loop use sz True n (h + Suc j) (t + Suc j) [])"
    using fit by (subst slot_loop.simps) (simp add: Let_def)
  then show ?thesis using False j by auto
qed

lemma window_skip: "\<not> U (h + j) \<Longrightarrow> w \<le> h + j \<Longrightarrow> h + j < w + n \<Longrightarrow> \<not> window U n w"
  by (auto simp: window_def) (metis add_diff_inverse_nat less_diff_conv2 linorder_not_le add.commute)

text \<open>The result is a window, or nothing and then there is none in the cells.\<close>

definition cont_result :: "(nat \<Rightarrow> bool) \<Rightarrow> nat \<Rightarrow> nat \<Rightarrow> nat list option option \<Rightarrow> bool" where
  "cont_result U sz n r \<longleftrightarrow>
     (\<exists>w. r = Some (Some [w..<w + n]) \<and> w + n \<le> sz \<and> window U n w) \<or>
     (r = Some None \<and> (\<forall>w. w + n \<le> sz \<longrightarrow> \<not> window U n w))"

lemma slot_loop_exhausted:
  assumes "\<And>i. i < sz \<Longrightarrow> use i = Some (U i)" "0 < n" "n \<le> sz" "sz \<le> t"
    and none: "\<forall>w. w + n \<le> sz \<longrightarrow> \<not> window U n w"
  shows "slot_loop use sz True n 0 t [] = Some None"
  using slot_loop_round [of sz use U n 0 t] none [rule_format, of 0] assms by auto

lemma slot_loop_jump:
  "h \<le> sz \<Longrightarrow> sz < h + n \<Longrightarrow> slot_loop use sz True n h t [] = slot_loop use sz True n 0 (t + (sz - h)) []"
  by (subst slot_loop.simps) (simp add: Let_def)

text \<open>After the wrap-around: \<open>start\<close> is where the search began.\<close>

lemma slot_loop_wrapped:
  assumes use: "\<And>i. i < sz \<Longrightarrow> use i = Some (U i)" and n: "0 < n" "n \<le> sz" and start: "start \<le> sz"
    and tail: "\<And>w. start \<le> w \<Longrightarrow> w + n \<le> sz \<Longrightarrow> \<not> window U n w"
    and h: "h \<le> sz" "t = sz - start + h" and seen: "\<And>w. w < h \<Longrightarrow> w + n \<le> sz \<Longrightarrow> \<not> window U n w"
  shows "cont_result U sz n (slot_loop use sz True n h t [])"
  using h seen
proof (induction "sz - h" arbitrary: h t rule: less_induct)
  case less
  show ?case
  proof (cases "h + n \<le> sz")
    case False
    then have none: "\<forall>w. w + n \<le> sz \<longrightarrow> \<not> window U n w" using less.prems(3) by auto
    have "slot_loop use sz True n h t [] = slot_loop use sz True n 0 (t + (sz - h)) []"
      using slot_loop_jump less.prems(1) False by simp
    moreover have "slot_loop use sz True n 0 (t + (sz - h)) [] = Some None"
      by (rule slot_loop_exhausted [where U = U, OF use n _ none]) (use less.prems start in auto)
    ultimately show ?thesis using none by (simp add: cont_result_def)
  next
    case True
    show ?thesis
    proof (cases "window U n h")
      case win: True
      then show ?thesis using slot_loop_round [where U = U and t = t, OF use n(1) True] True by (auto simp: cont_result_def)
    next
      case False
      then obtain j where j: "j < n" "\<not> U (h + j)" "slot_loop use sz True n h t [] =
          (if t + Suc j \<ge> sz then Some None else slot_loop use sz True n (h + Suc j) (t + Suc j) [])"
        using slot_loop_round [where U = U and t = t, OF use n(1) True] by auto
      have seen: "\<not> window U n w" if "w < h + Suc j" "w + n \<le> sz" for w
        using that less.prems(3) [of w] window_skip [of U h j w n] j by (cases "w < h") auto
      show ?thesis
      proof (cases "t + Suc j \<ge> sz")
        case full: True
        have "\<not> window U n w" if "w + n \<le> sz" for w
          using that seen [of w] tail [of w] full less.prems start by (cases "start \<le> w") auto
        then show ?thesis using j(3) full by (simp add: cont_result_def)
      next
        case more: False
        have "cont_result U sz n (slot_loop use sz True n (h + Suc j) (t + Suc j) [])"
          by (rule less.hyps) (use less.prems True j(1) seen in auto)
        then show ?thesis using j(3) more by simp
      qed
    qed
  qed
qed

lemma slot_loop_ahead:
  assumes use: "\<And>i. i < sz \<Longrightarrow> use i = Some (U i)" and n: "0 < n" "n \<le> sz" and start: "start \<le> h"
    and h: "h \<le> sz" "t = h - start" and seen: "\<And>w. start \<le> w \<Longrightarrow> w < h \<Longrightarrow> w + n \<le> sz \<Longrightarrow> \<not> window U n w"
  shows "cont_result U sz n (slot_loop use sz True n h t [])"
  using start h seen
proof (induction "sz - h" arbitrary: h t rule: less_induct)
  case less
  show ?case
  proof (cases "h + n \<le> sz")
    case False
    have "slot_loop use sz True n h t [] = slot_loop use sz True n 0 (t + (sz - h)) []"
      using slot_loop_jump less.prems(2) False by simp
    moreover have "cont_result U sz n (slot_loop use sz True n 0 (t + (sz - h)) [])"
      by (rule slot_loop_wrapped [where U = U and start = start, OF use n]) (use less.prems False in auto)
    ultimately show ?thesis by simp
  next
    case True
    show ?thesis
    proof (cases "window U n h")
      case win: True
      then show ?thesis using slot_loop_round [where U = U and t = t, OF use n(1) True] True by (auto simp: cont_result_def)
    next
      case False
      then obtain j where j: "j < n" "\<not> U (h + j)" "slot_loop use sz True n h t [] =
          (if t + Suc j \<ge> sz then Some None else slot_loop use sz True n (h + Suc j) (t + Suc j) [])"
        using slot_loop_round [where U = U and t = t, OF use n(1) True] by auto
      have seen: "\<not> window U n w" if "start \<le> w" "w < h + Suc j" "w + n \<le> sz" for w
        using that less.prems(4) [of w] window_skip [of U h j w n] j by (cases "w < h") auto
      show ?thesis
      proof (cases "t + Suc j \<ge> sz")
        case full: True
        then have "\<not> window U n w" if "w + n \<le> sz" for w
          using that seen [of w] less.prems True j(1) n(1) by auto
        then show ?thesis using j(3) full by (simp add: cont_result_def)
      next
        case more: False
        have "cont_result U sz n (slot_loop use sz True n (h + Suc j) (t + Suc j) [])"
          by (rule less.hyps) (use less.prems True j(1) seen in auto)
        then show ?thesis using j(3) more by simp
      qed
    qed
  qed
qed

lemma slot_loop_cont:
  assumes "\<And>i. i < sz \<Longrightarrow> use i = Some (U i)" "0 < n" "n \<le> sz" "h \<le> sz"
  shows "cont_result U sz n (slot_loop use sz True n h 0 [])"
  by (rule slot_loop_ahead [where U = U and start = h, OF assms(1)]) (use assms in simp_all)

subsection \<open>Usable cells\<close>

definition swa_masks :: "kv_cache \<Rightarrow> llama_pos \<Rightarrow> llama_pos \<Rightarrow> bool" where
  "swa_masks kv p0 p1 = (case kv_swa_type kv of
      SWA_TYPE_NONE \<Rightarrow> False
    | SWA_TYPE_STANDARD \<Rightarrow> p1 - p0 \<ge> int (kv_n_swa kv)
    | SWA_TYPE_CHUNKED \<Rightarrow> p0 < (p1 div int (kv_n_swa kv)) * int (kv_n_swa kv))"

definition cell_usable :: "kv_cache \<Rightarrow> kv_cells \<Rightarrow> nat \<Rightarrow> bool" where
  "cell_usable kv c i \<longleftrightarrow> kc_pos c ! i = - 1 \<or>
     (\<exists>s. kc_seq c ! i = {s} \<and> swa_masks kv (kc_pos c ! i) (Max (kc_positions c s) + 1))"

text \<open>A chunked window has a size, and the next position of a sequence is still a \<open>llama_pos\<close>.\<close>

definition kv_cfg_ok :: "kv_cache \<Rightarrow> bool" where
  "kv_cfg_ok kv \<longleftrightarrow> (kv_swa_type kv = SWA_TYPE_CHUNKED \<longrightarrow> kv_n_swa kv \<noteq> 0)"

definition kc_fits :: "kv_cells \<Rightarrow> bool" where
  "kc_fits c \<longleftrightarrow> (\<forall>i < kc_size c. kc_pos c ! i < INT32_MAX)"

lemma kv_is_masked_swa_eq:
  "kv_cfg_ok kv \<Longrightarrow> 0 \<le> p \<Longrightarrow> 0 \<le> q \<Longrightarrow> kv_is_masked_swa kv p q = Some (swa_masks kv p q)"
  by (cases "kv_swa_type kv") (auto simp: kv_is_masked_swa_def swa_masks_def kv_cfg_ok_def Let_def)

lemma kv_can_use_eq:
  assumes wf: "kc_wf c" and cfg: "kv_cfg_ok kv" and fits: "kc_fits c" and i: "i < kc_size c"
  shows "kv_can_use kv c i = Some (cell_usable kv c i)"
proof -
  have i: "i < length (kc_pos c)" using i by (simp add: kc_size_def)
  consider (empty) "kc_pos c ! i = - 1" | (many) "kc_pos c ! i \<noteq> - 1" "card (kc_seq c ! i) \<noteq> 1"
    | (one) "kc_pos c ! i \<noteq> - 1" "card (kc_seq c ! i) = 1" by blast
  then show ?thesis
  proof cases
    case empty
    then show ?thesis using i by (simp add: kv_can_use_def kc_is_empty_def cell_usable_def)
  next
    case many
    then have "\<nexists>s. kc_seq c ! i = {s}" by auto
    then show ?thesis using i many kc_wf_pos [OF wf i]
      by (simp add: kv_can_use_def kc_is_empty_def kc_seq_count_def cell_usable_def)
  next
    case one
    obtain s where s: "kc_seq_get c i = Some s" "kc_seq c ! i = {s}" "seq_ok s"
      using kc_seq_get_ok [OF wf i one(2)] .
    let ?m = "Max (kc_positions c s)"
    have mem: "kc_pos c ! i \<in> kc_positions c s" using i s(2) by (auto intro: kc_positionsI)
    have "?m \<in> kc_positions c s" by (rule Max_in) (use mem in auto)
    then have m: "0 \<le> ?m" "?m < INT32_MAX"
      using kc_positions_nonneg [OF wf] fits by (auto simp: kc_positions_def kc_fits_def kc_size_def)
    have "kc_seq_pos_max c s = Some ?m" using kc_seq_pos_max_eq [OF wf s(3)] mem by auto
    moreover have "kv_is_masked_swa kv (kc_pos c ! i) (?m + 1) = Some (swa_masks kv (kc_pos c ! i) (?m + 1))"
      by (rule kv_is_masked_swa_eq [OF cfg]) (use m kc_positions_nonneg [OF wf mem] in auto)
    ultimately show ?thesis using i one s m kc_wf_pos [OF wf i]
      by (simp add: kv_can_use_def kc_is_empty_def kc_seq_count_def kc_pos_get_def cell_usable_def
          i32_ok_def INT32_MIN_def INT32_MAX_def)
  qed
qed

text \<open>Without an attention window only the empty cells can be used.\<close>

lemma cell_usable_none: "kv_swa_type kv = SWA_TYPE_NONE \<Longrightarrow> cell_usable kv c i \<longleftrightarrow> kc_pos c ! i = - 1"
  by (auto simp: cell_usable_def swa_masks_def)

subsection \<open>The slot of one stream\<close>

definition slot_for :: "kv_cache \<Rightarrow> bool \<Rightarrow> nat \<Rightarrow> nat \<Rightarrow> nat list \<Rightarrow> bool" where
  "slot_for kv cont n st idxs \<longleftrightarrow> length idxs = n \<and> distinct idxs \<and>
     (\<forall>i \<in> set idxs. i < kc_size (kv_cells_v kv ! st) \<and> cell_usable kv (kv_cells_v kv ! st) i) \<and>
     (cont \<longrightarrow> (\<exists>w. idxs = [w..<w + n]))"

definition slot_fits :: "kv_cache \<Rightarrow> bool \<Rightarrow> nat \<Rightarrow> nat \<Rightarrow> bool" where
  "slot_fits kv cont n st \<longleftrightarrow> (let c = kv_cells_v kv ! st in
     if cont then \<exists>w. w + n \<le> kc_size c \<and> window (cell_usable kv c) n w
     else n \<le> card {i. i < kc_size c \<and> cell_usable kv c i})"

definition kv_fits :: "kv_cache \<Rightarrow> bool" where
  "kv_fits kv \<longleftrightarrow> (\<forall>st < kv_n_stream kv. kc_fits (kv_cells_v kv ! st))"

lemma length_filter_cyc:
  assumes "h \<le> sz"
  shows "length (filter U (cyc sz h)) = card {i. i < sz \<and> U i}"
proof -
  have "set (filter U (cyc sz h)) = {i. i < sz \<and> U i}" using assms by auto
  then show ?thesis using distinct_card [of "filter U (cyc sz h)"] assms by simp
qed

lemma slot_cells_ok:
  assumes wf: "kv_wf kv" and cfg: "kv_cfg_ok kv" and fits: "kv_fits kv" and st: "st < kv_n_stream kv" and n: "0 < n"
  shows "(slot_fits kv cont n st \<and> (\<exists>idxs. slot_cells kv cont n st = Some (Some idxs) \<and> slot_for kv cont n st idxs)) \<or>
    (\<not> slot_fits kv cont n st \<and> slot_cells kv cont n st = Some None)"
proof -
  define c where "c = kv_cells_v kv ! st"
  define sz where "sz = kc_size c"
  define h where "h = (if kv_heads kv ! st > kc_get_used c + 2 * n then 0 else kv_heads kv ! st)"
  let ?U = "cell_usable kv c"
  have h: "h \<le> sz" using kv_wf_head [OF wf st] by (simp add: h_def sz_def c_def kc_size_def)
  have use: "kv_can_use kv c i = Some (?U i)" if "i < sz" for i
    using kv_can_use_eq [OF _ cfg] kv_wf_cells [OF wf st] fits st that by (simp add: kv_fits_def c_def sz_def)
  have eq: "slot_cells kv cont n st = (if n > sz then Some None else do {
      r \<leftarrow> slot_loop (kv_can_use kv c) sz cont n h 0 [];
      (case r of None \<Rightarrow> Some None | Some idxs \<Rightarrow> if length idxs < n then Some None else Some (Some idxs)) })"
    using st kv_wf_len_cells [OF wf] kv_wf_len_heads [OF wf]
    by (simp add: slot_cells_def c_def [symmetric] sz_def [symmetric] h_def [symmetric] Let_def)
  have few: "card {i. i < sz \<and> ?U i} \<le> sz"
    using card_mono [of "{..<sz}" "{i. i < sz \<and> ?U i}"] by auto
  show ?thesis
  proof (cases "n > sz")
    case True
    then have "\<not> slot_fits kv cont n st"
      using few by (auto simp: slot_fits_def c_def [symmetric] sz_def [symmetric] Let_def)
    then show ?thesis using eq True by simp
  next
    case False
    then have nsz: "n \<le> sz" by simp
    show ?thesis
    proof (cases cont)
      case True
      have "cont_result ?U sz n (slot_loop (kv_can_use kv c) sz True n h 0 [])"
        by (rule slot_loop_cont [OF use n nsz h])
      then consider (found) w where "slot_loop (kv_can_use kv c) sz True n h 0 [] = Some (Some [w..<w + n])"
          "w + n \<le> sz" "window ?U n w"
        | (none) "slot_loop (kv_can_use kv c) sz True n h 0 [] = Some None" "\<forall>w. w + n \<le> sz \<longrightarrow> \<not> window ?U n w"
        unfolding cont_result_def by blast
      then show ?thesis
      proof cases
        case found
        have "?U i" if "w \<le> i" "i < w + n" for i
          using found(3) that unfolding window_def by (metis le_add_diff_inverse less_diff_conv2 add.commute)
        then have "slot_for kv cont n st [w..<w + n]"
          using found(2) by (auto simp: slot_for_def c_def [symmetric] sz_def [symmetric])
        moreover have "slot_fits kv cont n st"
          using found(2,3) True by (auto simp: slot_fits_def c_def [symmetric] sz_def [symmetric] Let_def)
        ultimately show ?thesis using eq nsz True found(1) by simp
      next
        case none
        have "\<not> slot_fits kv cont n st"
          using none(2) True by (auto simp: slot_fits_def c_def [symmetric] sz_def [symmetric] Let_def)
        then show ?thesis using eq nsz True none(1) by simp
      qed
    next
      case ncont: False
      let ?F = "filter ?U (cyc sz h)"
      have loop: "slot_loop (kv_can_use kv c) sz False n h 0 [] = Some (if n \<le> length ?F then Some (take n ?F) else None)"
        by (rule slot_loop_plain [OF use h n nsz])
      have "slot_for kv cont n st (take n ?F)" if "n \<le> length ?F"
        using that ncont h set_take_subset [of n ?F] distinct_take [of ?F n]
        by (auto simp: slot_for_def c_def [symmetric] sz_def [symmetric])
      moreover have "slot_fits kv cont n st \<longleftrightarrow> n \<le> length ?F"
        using ncont length_filter_cyc [OF h, of ?U] by (simp add: slot_fits_def c_def [symmetric] sz_def [symmetric] Let_def)
      ultimately show ?thesis using eq nsz loop ncont by auto
    qed
  qed
qed

subsection \<open>The slot of a micro-batch\<close>

text \<open>
  What \<open>find_slot\<close> expects of a micro-batch: with several streams the tokens are grouped by
  sequence, \<open>n\<close> tokens each, and every sequence is one of the cache.
\<close>

definition slot_n_seqs :: "kv_cache \<Rightarrow> llama_ubatch \<Rightarrow> nat" where
  "slot_n_seqs kv ub = (if kv_n_stream kv > 1 then ub_n_seqs_unq ub else 1)"

definition slot_n_tokens :: "kv_cache \<Rightarrow> llama_ubatch \<Rightarrow> nat" where
  "slot_n_tokens kv ub = (if kv_n_stream kv > 1 then ub_n_tokens ub div ub_n_seqs_unq ub else ub_n_tokens ub)"

definition slot_strm :: "kv_cache \<Rightarrow> llama_ubatch \<Rightarrow> nat list" where
  "slot_strm kv ub = map (\<lambda>s. kv_strm kv (ub_seq_id_unq ub ! s)) [0..<slot_n_seqs kv ub]"

definition slot_ub_ok :: "kv_cache \<Rightarrow> llama_ubatch \<Rightarrow> bool" where
  "slot_ub_ok kv ub \<longleftrightarrow> 0 < slot_n_tokens kv ub \<and> 0 < slot_n_seqs kv ub \<and>
     slot_n_seqs kv ub \<le> length (ub_seq_id_unq ub) \<and>
     (\<forall>s < slot_n_seqs kv ub. kv_seq_ok kv (ub_seq_id_unq ub ! s)) \<and>
     (kv_n_stream kv > 1 \<longrightarrow>
        ub_n_tokens ub mod ub_n_seqs_unq ub = 0 \<and>
        (\<forall>s < ub_n_seqs_unq ub. s * slot_n_tokens kv ub < length (ub_n_seq_id ub) \<and>
           ub_n_seq_id ub ! (s * slot_n_tokens kv ub) = 1 \<and>
           s * slot_n_tokens kv ub < length (ub_seq_id ub) \<and>
           ub_seq_id ub ! (s * slot_n_tokens kv ub) \<noteq> [] \<and>
           hd (ub_seq_id ub ! (s * slot_n_tokens kv ub)) = ub_seq_id_unq ub ! s))"

text \<open>A slot for the streams \<open>sts\<close>.\<close>

definition slot_good :: "kv_cache \<Rightarrow> bool \<Rightarrow> nat \<Rightarrow> nat list \<Rightarrow> slot_info \<Rightarrow> bool" where
  "slot_good kv cont n sts si \<longleftrightarrow> si_strm si = sts \<and> length (si_idxs si) = length sts \<and>
     (\<forall>s < length sts. slot_for kv cont n (sts ! s) (si_idxs si ! s)) \<and>
     si_s0 si = Min (insert (int LLAMA_MAX_SEQ) (int ` set sts)) \<and> si_s1 si = Max (insert 0 (int ` set sts))"

lemma slot_good_Nil: "slot_good kv cont n [] \<lparr>si_s0 = int LLAMA_MAX_SEQ, si_s1 = 0, si_strm = [], si_idxs = []\<rparr>"
  by (simp add: slot_good_def)

lemma slot_good_snoc:
  assumes "slot_good kv cont n sts si" "slot_for kv cont n st idxs"
  shows "slot_good kv cont n (sts @ [st]) \<lparr>si_s0 = min (si_s0 si) (int st), si_s1 = max (si_s1 si) (int st),
    si_strm = si_strm si @ [st], si_idxs = si_idxs si @ [idxs]\<rparr>"
proof -
  have "Min (insert (int LLAMA_MAX_SEQ) (int ` set (sts @ [st]))) = min (si_s0 si) (int st)"
    using assms(1) Min_insert [of "insert (int LLAMA_MAX_SEQ) (int ` set sts)" "int st"]
    by (simp add: slot_good_def insert_commute min.commute)
  moreover have "Max (insert 0 (int ` set (sts @ [st]))) = max (si_s1 si) (int st)"
    using assms(1) Max_insert [of "insert 0 (int ` set sts)" "int st"]
    by (simp add: slot_good_def insert_commute max.commute)
  ultimately show ?thesis
    using assms by (auto simp: slot_good_def nth_append less_Suc_eq)
qed

lemma slot_seqs_ok:
  assumes wf: "kv_wf kv" and cfg: "kv_cfg_ok kv" and fits: "kv_fits kv" and ub: "slot_ub_ok kv ub"
    and n: "n = slot_n_tokens kv ub" and k: "k \<le> slot_n_seqs kv ub" and bound: "kv_n_stream kv \<le> LLAMA_MAX_SEQ"
    and good: "slot_good kv cont n (take k (slot_strm kv ub)) res" and pre: "\<forall>st \<in> set (take k (slot_strm kv ub)). slot_fits kv cont n st"
  shows "\<exists>si. slot_seqs kv ub cont n [k..<slot_n_seqs kv ub] res = Some si \<and>
    (slot_good kv cont n (slot_strm kv ub) si \<and> (\<forall>st \<in> set (slot_strm kv ub). slot_fits kv cont n st) \<or>
     si = si_empty_slot \<and> (\<exists>st \<in> set (slot_strm kv ub). \<not> slot_fits kv cont n st))"
  using k good pre
proof (induction "slot_n_seqs kv ub - k" arbitrary: k res)
  case 0
  have len: "length (slot_strm kv ub) = slot_n_seqs kv ub" by (simp add: slot_strm_def)
  have k: "k = slot_n_seqs kv ub" using 0 by simp
  have pos: "0 < slot_n_seqs kv ub" using ub by (simp add: slot_ub_ok_def)
  then have mem: "slot_strm kv ub ! 0 \<in> set (slot_strm kv ub)" using len by simp
  have good: "slot_good kv cont n (slot_strm kv ub) res" using 0(3) k len by simp
  have "si_s0 res \<le> int (slot_strm kv ub ! 0)" "int (slot_strm kv ub ! 0) \<le> si_s1 res"
    using good mem by (auto simp: slot_good_def intro!: Min_le Max_ge)
  then show ?case using good 0(4) k len by simp
next
  case (Suc d)
  let ?id = "ub_seq_id_unq ub ! k"
  let ?st = "kv_strm kv ?id"
  have k: "k < slot_n_seqs kv ub" using Suc.hyps(2) by simp
  have len: "length (slot_strm kv ub) = slot_n_seqs kv ub" by (simp add: slot_strm_def)
  have kn: "slot_strm kv ub ! k = ?st" using k by (simp add: slot_strm_def)
  then have mem: "?st \<in> set (slot_strm kv ub)" using len k by (metis nth_mem)
  have idk: "k < length (ub_seq_id_unq ub)" "kv_seq_ok kv ?id" using ub k by (auto simp: slot_ub_ok_def)
  have st: "?st < kv_n_stream kv" by (rule kv_seq_ok_stream [OF wf idk(2)])
  have checks: "kv_n_stream kv > 1 \<Longrightarrow> k * n < length (ub_n_seq_id ub) \<and> ub_n_seq_id ub ! (k * n) = 1 \<and>
      k * n < length (ub_seq_id ub) \<and> ub_seq_id ub ! (k * n) \<noteq> [] \<and> ub_seq_id ub ! (k * n) ! 0 = ?id"
    using ub k n by (auto simp: slot_ub_ok_def slot_n_seqs_def hd_conv_nth)
  have unf: "slot_seqs kv ub cont n [k..<slot_n_seqs kv ub] res = do {
      r \<leftarrow> slot_cells kv cont n ?st;
      (case r of None \<Rightarrow> Some si_empty_slot
       | Some idxs \<Rightarrow> slot_seqs kv ub cont n [Suc k..<slot_n_seqs kv ub]
          \<lparr>si_s0 = min (si_s0 res) (int ?st), si_s1 = max (si_s1 res) (int ?st),
           si_strm = si_strm res @ [?st], si_idxs = si_idxs res @ [idxs]\<rparr>) }"
    using idk checks k by (simp add: upt_conv_Cons [OF k] sidx_def kv_seq_ok_def)
  have n0: "0 < n" using ub n by (simp add: slot_ub_ok_def)
  have tk: "take (Suc k) (slot_strm kv ub) = take k (slot_strm kv ub) @ [?st]"
    using k len kn by (simp add: take_Suc_conv_app_nth)
  from slot_cells_ok [OF wf cfg fits st n0, of cont] show ?case
  proof (elim disjE conjE exE)
    fix idxs
    assume fit: "slot_fits kv cont n ?st" and r: "slot_cells kv cont n ?st = Some (Some idxs)" and f: "slot_for kv cont n ?st idxs"
    have "\<exists>si. slot_seqs kv ub cont n [Suc k..<slot_n_seqs kv ub] \<lparr>si_s0 = min (si_s0 res) (int ?st),
           si_s1 = max (si_s1 res) (int ?st), si_strm = si_strm res @ [?st], si_idxs = si_idxs res @ [idxs]\<rparr> = Some si \<and>
        (slot_good kv cont n (slot_strm kv ub) si \<and> (\<forall>st \<in> set (slot_strm kv ub). slot_fits kv cont n st) \<or>
         si = si_empty_slot \<and> (\<exists>st \<in> set (slot_strm kv ub). \<not> slot_fits kv cont n st))"
    proof (rule Suc.hyps(1))
      show "slot_good kv cont n (take (Suc k) (slot_strm kv ub)) \<lparr>si_s0 = min (si_s0 res) (int ?st),
           si_s1 = max (si_s1 res) (int ?st), si_strm = si_strm res @ [?st], si_idxs = si_idxs res @ [idxs]\<rparr>"
        unfolding tk by (rule slot_good_snoc [OF Suc.prems(2) f])
      show "\<forall>st\<in>set (take (Suc k) (slot_strm kv ub)). slot_fits kv cont n st"
        unfolding tk using Suc.prems(3) fit by auto
    qed (use Suc.hyps(2) k in auto)
    then show ?thesis unfolding unf r by simp
  next
    assume "\<not> slot_fits kv cont n ?st" "slot_cells kv cont n ?st = Some None"
    then show ?thesis unfolding unf using mem by auto
  qed
qed

lemma kv_find_slot_ok:
  assumes wf: "kv_wf kv" and cfg: "kv_cfg_ok kv" and fits: "kv_fits kv" and ub: "slot_ub_ok kv ub"
    and bound: "kv_n_stream kv \<le> LLAMA_MAX_SEQ"
  shows "\<exists>si. kv_find_slot kv ub cont = Some si \<and>
    (slot_good kv cont (slot_n_tokens kv ub) (slot_strm kv ub) si \<and>
       (\<forall>st \<in> set (slot_strm kv ub). slot_fits kv cont (slot_n_tokens kv ub) st) \<or>
     si = si_empty_slot \<and> (\<exists>st \<in> set (slot_strm kv ub). \<not> slot_fits kv cont (slot_n_tokens kv ub) st))"
proof -
  have "\<exists>si. slot_seqs kv ub cont (slot_n_tokens kv ub) [0..<slot_n_seqs kv ub]
      \<lparr>si_s0 = int LLAMA_MAX_SEQ, si_s1 = 0, si_strm = [], si_idxs = []\<rparr> = Some si \<and>
    (slot_good kv cont (slot_n_tokens kv ub) (slot_strm kv ub) si \<and>
       (\<forall>st \<in> set (slot_strm kv ub). slot_fits kv cont (slot_n_tokens kv ub) st) \<or>
     si = si_empty_slot \<and> (\<exists>st \<in> set (slot_strm kv ub). \<not> slot_fits kv cont (slot_n_tokens kv ub) st))"
    by (rule slot_seqs_ok [OF wf cfg fits ub refl _ bound]) (use slot_good_Nil [of kv cont "slot_n_tokens kv ub"] in simp_all)
  moreover have "kv_find_slot kv ub cont = slot_seqs kv ub cont (slot_n_tokens kv ub) [0..<slot_n_seqs kv ub]
      \<lparr>si_s0 = int LLAMA_MAX_SEQ, si_s1 = 0, si_strm = [], si_idxs = []\<rparr>"
    using ub by (auto simp: kv_find_slot_def slot_ub_ok_def slot_n_seqs_def slot_n_tokens_def)
  ultimately show ?thesis by simp
qed

end
