(* ===== verification/KvApply.thy ===== *)
theory KvApply
  imports KvSlotInv
begin

text \<open>
  The effect of \<open>apply_ubatch\<close>.  Every token is written to its cell; the largest position of a
  sequence that was overwritten bounds what the purge removes.  So afterwards a sequence has the
  old and the new positions above that bound, and a sequence whose positions were contiguous
  keeps contiguous positions.
\<close>

subsection \<open>Tokens and places\<close>

definition tok_seqs :: "llama_ubatch \<Rightarrow> nat \<Rightarrow> llama_seq_id set" where
  "tok_seqs ub i = set (take (nat (ub_n_seq_id ub ! i)) (ub_seq_id ub ! i))"

definition tok_ok :: "kv_cache \<Rightarrow> llama_ubatch \<Rightarrow> nat \<Rightarrow> nat \<Rightarrow> bool" where
  "tok_ok kv ub i st \<longleftrightarrow> i < length (ub_pos ub) \<and> 0 \<le> ub_pos ub ! i \<and> i < length (ub_n_seq_id ub) \<and>
     0 < ub_n_seq_id ub ! i \<and> i < length (ub_seq_id ub) \<and> nat (ub_n_seq_id ub ! i) \<le> length (ub_seq_id ub ! i) \<and>
     distinct (take (nat (ub_n_seq_id ub ! i)) (ub_seq_id ub ! i)) \<and>
     (\<forall>r \<in> tok_seqs ub i. kv_seq_ok kv r \<and> kv_strm kv r = st)"

definition si_n :: "slot_info \<Rightarrow> nat" where
  "si_n si = length (hd (si_idxs si))"

definition slot_pairs :: "slot_info \<Rightarrow> (nat \<times> nat) list" where
  "slot_pairs si = List.product [0..<si_n_stream si] [0..<si_n si]"

definition slot_loc :: "slot_info \<Rightarrow> nat \<times> nat \<Rightarrow> nat \<times> nat" where
  "slot_loc si p = (si_strm si ! fst p, si_idxs si ! fst p ! snd p)"

definition slot_tok :: "slot_info \<Rightarrow> nat \<times> nat \<Rightarrow> nat" where
  "slot_tok si p = fst p * si_n si + snd p"

definition cell_pos :: "kv_cache \<Rightarrow> nat \<times> nat \<Rightarrow> llama_pos" where
  "cell_pos kv l = kc_pos (kv_cells_v kv ! fst l) ! snd l"

definition cell_seq :: "kv_cache \<Rightarrow> nat \<times> nat \<Rightarrow> llama_seq_id set" where
  "cell_seq kv l = kc_seq (kv_cells_v kv ! fst l) ! snd l"

definition cell_shift :: "kv_cache \<Rightarrow> nat \<times> nat \<Rightarrow> llama_pos" where
  "cell_shift kv l = kc_shift (kv_cells_v kv ! fst l) ! snd l"

definition loc_ok :: "kv_cache \<Rightarrow> nat \<times> nat \<Rightarrow> bool" where
  "loc_ok kv l \<longleftrightarrow> fst l < kv_n_stream kv \<and> snd l < kc_size (kv_cells_v kv ! fst l)"

text \<open>
  The places \<open>si\<close> gives to the tokens of \<open>ub\<close>: distinct cells of the cache, empty or held by one
  sequence, in the stream of the sequences of the token.
\<close>

definition place_ok :: "kv_cache \<Rightarrow> llama_ubatch \<Rightarrow> slot_info \<Rightarrow> bool" where
  "place_ok kv ub si \<longleftrightarrow> si_strm si \<noteq> [] \<and> length (si_idxs si) = length (si_strm si) \<and> 0 < si_n si \<and>
     (\<forall>s < length (si_strm si). length (si_idxs si ! s) = si_n si) \<and>
     ub_n_tokens ub = length (si_strm si) * si_n si \<and>
     (\<forall>p \<in> set (slot_pairs si). loc_ok kv (slot_loc si p) \<and>
        (cell_pos kv (slot_loc si p) = - 1 \<or> card (cell_seq kv (slot_loc si p)) = 1) \<and>
        tok_ok kv ub (slot_tok si p) (fst (slot_loc si p))) \<and>
     inj_on (slot_loc si) (set (slot_pairs si))"

text \<open>The positions of \<open>r\<close> that the tokens add, and those the placement overwrites.\<close>

definition ub_positions :: "llama_ubatch \<Rightarrow> llama_seq_id \<Rightarrow> llama_pos set" where
  "ub_positions ub r = {ub_pos ub ! i | i. i < ub_n_tokens ub \<and> r \<in> tok_seqs ub i}"

definition over_positions :: "kv_cache \<Rightarrow> slot_info \<Rightarrow> (nat \<times> nat) set \<Rightarrow> llama_seq_id \<Rightarrow> llama_pos set" where
  "over_positions kv si P r = (\<lambda>p. cell_pos kv (slot_loc si p)) ` {p \<in> P. cell_seq kv (slot_loc si p) = {r}}"

definition over_max :: "kv_cache \<Rightarrow> slot_info \<Rightarrow> llama_seq_id \<Rightarrow> llama_pos" where
  "over_max kv si r = Max (insert (- 1) (over_positions kv si (set (slot_pairs si)) r))"

lemma ub_positions_code [code]:
  "ub_positions ub r = (\<lambda>i. ub_pos ub ! i) ` set (filter (\<lambda>i. r \<in> tok_seqs ub i) [0..<ub_n_tokens ub])"
  by (auto simp: ub_positions_def)

lemma finite_over [simp]: "finite P \<Longrightarrow> finite (over_positions kv si P r)"
  by (auto simp: over_positions_def)

lemma over_positions_insert:
  "over_positions kv si (insert p P) r =
    (if cell_seq kv (slot_loc si p) = {r} then insert (cell_pos kv (slot_loc si p)) (over_positions kv si P r)
     else over_positions kv si P r)"
  by (auto simp: over_positions_def)

lemma foldM_nested: "foldM (\<lambda>s. foldM (f s) ys) xs t = foldM (\<lambda>p. f (fst p) (snd p)) (List.product xs ys) t"
proof (induction xs arbitrary: t)
  case (Cons x xs)
  have "foldM (f x) ys t = foldM (\<lambda>p. f (fst p) (snd p)) (map (Pair x) ys) t" for t
    by (simp add: foldM_map comp_def)
  then show ?case using Cons by (simp add: foldM_append split: option.splits)
qed simp

subsection \<open>One token\<close>

lemma au_add_seqs:
  assumes "kc_wf c" "idx < length (kc_pos c)" "kc_pos c ! idx = p" "p \<noteq> - 1"
    and "distinct (b @ ids)" "kc_seq c ! idx = set b" "kc_shift c ! idx = 0" "\<forall>r \<in> set ids. seq_ok r"
  shows "\<exists>d. foldM (\<lambda>r c. kc_seq_add c idx r) ids c = Some d \<and> kc_writes c idx p (set (b @ ids)) 0 d \<and>
    kc_has_shift d = kc_has_shift c"
  using assms
proof (induction ids arbitrary: b c)
  case Nil
  then show ?case using kc_writes_self [of c idx] by simp
next
  case (Cons r ids)
  have pre: "kc_pos c ! idx \<noteq> - 1" "seq_ok r" "r \<notin> kc_seq c ! idx" using Cons.prems by auto
  obtain c1 where "kc_seq_add c idx r = Some c1"
    "kc_writes c idx (kc_pos c ! idx) (insert r (kc_seq c ! idx)) (kc_shift c ! idx) c1"
    and hs: "kc_has_shift c1 = kc_has_shift c"
    using kc_seq_add_ok [OF Cons.prems(1,2) pre] by blast
  then have c1: "kc_seq_add c idx r = Some c1" "kc_writes c idx p (set (b @ [r])) 0 c1"
    using Cons.prems by simp_all
  have len: "idx < length (kc_seq c)" "idx < length (kc_shift c)"
    using Cons.prems(1,2) by (simp_all add: kc_wf_len_seq kc_wf_len_shift)
  have "\<exists>d. foldM (\<lambda>r c. kc_seq_add c idx r) ids c1 = Some d \<and> kc_writes c1 idx p (set ((b @ [r]) @ ids)) 0 d \<and>
      kc_has_shift d = kc_has_shift c1"
    by (rule Cons.IH) (use Cons.prems c1(2) len in \<open>auto simp: kc_writes_def\<close>)
  then show ?case using c1 hs by (auto simp: kc_writes_def)
qed

lemma foldM_nth:
  "k \<le> length xs \<Longrightarrow> foldM (\<lambda>i t. Option.bind (vget xs i) (\<lambda>x. f x t)) [0..<k] t = foldM f (take k xs) t"
proof (induction k)
  case (Suc k)
  then show ?case
    by (cases "foldM f (take k xs) t") (auto simp: foldM_append take_Suc_conv_app_nth split: option.splits)
qed simp

lemma au_write_ok:
  assumes wf: "kc_wf c" and idx: "idx < length (kc_pos c)" and e: "kc_pos c ! idx = - 1"
    and tok: "tok_ok kv ub i st" and kv: "kv_wf kv"
  obtains d where "au_write ub i idx c = Some d" and "kc_writes c idx (ub_pos ub ! i) (tok_seqs ub i) 0 d"
    and "kc_has_shift d = kc_has_shift c"
proof -
  let ?ids = "take (nat (ub_n_seq_id ub ! i)) (ub_seq_id ub ! i)"
  have t: "i < length (ub_pos ub)" "0 \<le> ub_pos ub ! i" "i < length (ub_n_seq_id ub)" "i < length (ub_seq_id ub)"
    "nat (ub_n_seq_id ub ! i) \<le> length (ub_seq_id ub ! i)" "distinct ?ids"
    using tok by (auto simp: tok_ok_def)
  have ids: "\<forall>r \<in> set ?ids. seq_ok r"
    using tok kv_seq_ok_id [OF kv] by (auto simp: tok_ok_def tok_seqs_def)
  obtain c1 where c1: "kc_pos_set c idx (ub_pos ub ! i) = Some c1" "kc_writes c idx (ub_pos ub ! i) {} 0 c1"
    "kc_has_shift c1 = kc_has_shift c"
    using kc_pos_set_ok [OF wf idx e t(2)] by blast
  have len: "idx < length (kc_seq c)" "idx < length (kc_shift c)"
    using wf idx by (simp_all add: kc_wf_len_seq kc_wf_len_shift)
  have "\<exists>d. foldM (\<lambda>r c. kc_seq_add c idx r) ?ids c1 = Some d \<and> kc_writes c1 idx (ub_pos ub ! i) (set ([] @ ?ids)) 0 d \<and>
      kc_has_shift d = kc_has_shift c1"
    by (rule au_add_seqs) (use c1(2) idx t ids len in \<open>auto simp: kc_writes_def\<close>)
  then obtain d where d: "foldM (\<lambda>r c. kc_seq_add c idx r) ?ids c1 = Some d"
    "kc_writes c1 idx (ub_pos ub ! i) (tok_seqs ub i) 0 d" "kc_has_shift d = kc_has_shift c"
    using c1(3) by (auto simp: tok_seqs_def)
  have "au_write ub i idx c = Some d"
    using foldM_nth [OF t(5), of "\<lambda>r c. kc_seq_add c idx r" c1] d(1) t c1(1) by (simp add: au_write_def)
  moreover have "kc_writes c idx (ub_pos ub ! i) (tok_seqs ub i) 0 d"
    using d(2) c1(2) by (simp add: kc_writes_def)
  ultimately show thesis using d(3) by (rule that)
qed

lemma au_evict_ok:
  assumes wf: "kc_wf c" and idx: "idx < length (kc_pos c)"
    and use: "kc_pos c ! idx = - 1 \<or> card (kc_seq c ! idx) = 1" and rm: "length rm = LLAMA_MAX_SEQ"
  obtains rm' d where "au_evict idx (rm, c) = Some (rm', d)" and "kc_writes c idx (- 1) {} 0 d"
    and "length rm' = LLAMA_MAX_SEQ" and "kc_has_shift d = kc_has_shift c"
    and "\<And>r. seq_ok r \<Longrightarrow> rm' ! nat r = (if kc_seq c ! idx = {r} then max (rm ! nat r) (kc_pos c ! idx) else rm ! nat r)"
proof (cases "kc_pos c ! idx = - 1")
  case True
  have "kc_writes c idx (- 1) {} 0 c"
    using kc_writes_self [OF wf, of idx] True kc_wf_empty_seq [OF wf idx] kc_wf_empty_shift [OF wf idx] by simp
  moreover have "au_evict idx (rm, c) = Some (rm, c)" using True idx by (simp add: au_evict_def kc_is_empty_def)
  ultimately show thesis using that rm kc_wf_empty_seq [OF wf idx True] by simp
next
  case False
  then have one: "card (kc_seq c ! idx) = 1" using use by simp
  obtain s where s: "kc_seq_get c idx = Some s" "kc_seq c ! idx = {s}" "seq_ok s"
    using kc_seq_get_ok [OF wf idx one] .
  obtain c1 where c1: "kc_rm c idx = Some c1" "kc_writes c idx (- 1) {} 0 c1" "kc_has_shift c1 = kc_has_shift c"
    using kc_rm_ok [OF wf idx False] by blast
  have sr: "0 \<le> s" "nat s < length rm" using s(3) rm seq_ok_nat by (auto simp: seq_ok_def)
  have "au_evict idx (rm, c) = Some (rm[nat s := max (rm ! nat s) (kc_pos c ! idx)], c1)"
    using False idx one s(1) c1(1) sr kc_wf_pos [OF wf idx]
    by (simp add: au_evict_def kc_is_empty_def kc_seq_count_def kc_pos_get_def sidx_def)
  moreover have "(rm[nat s := max (rm ! nat s) (kc_pos c ! idx)]) ! nat r =
      (if kc_seq c ! idx = {r} then max (rm ! nat r) (kc_pos c ! idx) else rm ! nat r)" if "seq_ok r" for r
  proof (cases "r = s")
    case False
    then have "nat r \<noteq> nat s" using seq_ok_inj [OF that s(3)] by simp
    then show ?thesis using False s(2) by simp
  qed (use sr(2) s(2) in simp)
  ultimately show thesis using that c1(2,3) rm by simp
qed

lemma au_cell_ok:
  assumes wf: "kc_wf c" and idx: "idx < length (kc_pos c)"
    and use: "kc_pos c ! idx = - 1 \<or> card (kc_seq c ! idx) = 1"
    and tok: "tok_ok kv ub i st" and kv: "kv_wf kv" and rm: "length rm = LLAMA_MAX_SEQ"
  obtains rm' d where "au_cell ub i idx (rm, c) = Some (rm', d)"
    and "kc_writes c idx (ub_pos ub ! i) (tok_seqs ub i) 0 d" and "length rm' = LLAMA_MAX_SEQ"
    and "kc_has_shift d = kc_has_shift c"
    and "\<And>r. seq_ok r \<Longrightarrow> rm' ! nat r = (if kc_seq c ! idx = {r} then max (rm ! nat r) (kc_pos c ! idx) else rm ! nat r)"
proof -
  obtain rm' c1 where e: "au_evict idx (rm, c) = Some (rm', c1)" "kc_writes c idx (- 1) {} 0 c1"
    "length rm' = LLAMA_MAX_SEQ" "kc_has_shift c1 = kc_has_shift c"
    "\<And>r. seq_ok r \<Longrightarrow> rm' ! nat r = (if kc_seq c ! idx = {r} then max (rm ! nat r) (kc_pos c ! idx) else rm ! nat r)"
    by (rule au_evict_ok [OF wf idx use rm]) blast
  have c1: "kc_wf c1" "idx < length (kc_pos c1)" "kc_pos c1 ! idx = - 1"
    using e(2) idx by (auto simp: kc_writes_def)
  obtain d where d: "au_write ub i idx c1 = Some d" "kc_writes c1 idx (ub_pos ub ! i) (tok_seqs ub i) 0 d"
    "kc_has_shift d = kc_has_shift c1"
    by (rule au_write_ok [OF c1 tok kv])
  have "kc_writes c idx (ub_pos ub ! i) (tok_seqs ub i) 0 d"
    using d(2) e(2) by (simp add: kc_writes_def)
  moreover have "au_cell ub i idx (rm, c) = Some (rm', d)" using e(1) d(1) by (simp add: au_cell_def)
  ultimately show thesis using that e(3-5) d(3) by metis
qed

subsection \<open>All tokens\<close>

lemma slot_pairs_iff: "p \<in> set (slot_pairs si) \<longleftrightarrow> fst p < si_n_stream si \<and> snd p < si_n si"
  by (cases p) (auto simp: slot_pairs_def)

lemma place_okD:
  assumes "place_ok kv ub si" and "p \<in> set (slot_pairs si)"
  shows "fst p < length (si_strm si)" "fst p < length (si_idxs si)" "snd p < length (si_idxs si ! fst p)"
    "loc_ok kv (slot_loc si p)" "cell_pos kv (slot_loc si p) = - 1 \<or> card (cell_seq kv (slot_loc si p)) = 1"
    "tok_ok kv ub (slot_tok si p) (fst (slot_loc si p))"
  using assms unfolding place_ok_def by (auto simp: slot_pairs_iff si_n_stream_def)

text \<open>The state after the tokens of \<open>P\<close> have been placed.\<close>

definition placed :: "kv_cache \<Rightarrow> llama_ubatch \<Rightarrow> slot_info \<Rightarrow> (nat \<times> nat) set \<Rightarrow> llama_pos list \<times> kv_cache \<Rightarrow> bool" where
  "placed kv ub si P t \<longleftrightarrow> (\<exists>cs. snd t = kv\<lparr>kv_cells_v := cs\<rparr>) \<and> kv_wf (snd t) \<and>
     (\<forall>st < kv_n_stream kv. kc_size (kv_cells_v (snd t) ! st) = kc_size (kv_cells_v kv ! st) \<and>
        kc_has_shift (kv_cells_v (snd t) ! st) = kc_has_shift (kv_cells_v kv ! st)) \<and>
     (\<forall>l. loc_ok kv l \<longrightarrow> l \<notin> slot_loc si ` P \<longrightarrow> cell_pos (snd t) l = cell_pos kv l \<and>
        cell_seq (snd t) l = cell_seq kv l \<and> cell_shift (snd t) l = cell_shift kv l) \<and>
     (\<forall>p \<in> P. cell_pos (snd t) (slot_loc si p) = ub_pos ub ! slot_tok si p \<and>
        cell_seq (snd t) (slot_loc si p) = tok_seqs ub (slot_tok si p) \<and> cell_shift (snd t) (slot_loc si p) = 0) \<and>
     length (fst t) = LLAMA_MAX_SEQ \<and>
     (\<forall>r. seq_ok r \<longrightarrow> fst t ! nat r = Max (insert (- 1) (over_positions kv si P r)))"

lemma kv_cells_update_eq: "kv_wf kv \<Longrightarrow> st < kv_n_stream kv \<Longrightarrow>
    kv\<lparr>kv_cells_v := (kv_cells_v kv)[st := c]\<rparr> = kv_put kv st c (kv_heads kv ! st)"
  by (simp add: kv_put_same_head)

lemma au_tok_ok:
  assumes wf: "kv_wf kv" and pl: "place_ok kv ub si" and p: "p \<in> set (slot_pairs si)" "p \<notin> P" "P \<subseteq> set (slot_pairs si)"
    and t: "placed kv ub si P t"
  shows "\<exists>t'. au_tok ub si (si_n si) (fst p) (snd p) t = Some t' \<and> placed kv ub si (insert p P) t'"
proof -
  obtain rm kv1 where t_eq: "t = (rm, kv1)" by (cases t)
  note pd = place_okD [OF pl p(1)]
  define st where "st = si_strm si ! fst p"
  define idx where "idx = si_idxs si ! fst p ! snd p"
  define c where "c = kv_cells_v kv1 ! st"
  define i where "i = slot_tok si p"
  have loc: "slot_loc si p = (st, idx)" by (simp add: slot_loc_def st_def idx_def)
  obtain cs where cs: "kv1 = kv\<lparr>kv_cells_v := cs\<rparr>" using t by (auto simp: placed_def t_eq)
  have wf1: "kv_wf kv1" and rm: "length rm = LLAMA_MAX_SEQ"
    and size1: "\<And>u. u < kv_n_stream kv \<Longrightarrow> kc_size (kv_cells_v kv1 ! u) = kc_size (kv_cells_v kv ! u)"
    using t by (auto simp: placed_def t_eq)
  have st: "st < kv_n_stream kv" "idx < kc_size (kv_cells_v kv ! st)" using pd(4) by (auto simp: loc_ok_def loc)
  have same: "kv_n_stream kv1 = kv_n_stream kv" "kv_seq_to_stream kv1 = kv_seq_to_stream kv" "kv_heads kv1 = kv_heads kv"
    by (simp_all add: cs)
  have st1: "st < kv_n_stream kv1" "st < length (kv_cells_v kv1)" using st kv_wf_len_cells [OF wf1] same by auto
  have cwf: "kc_wf c" and cidx: "idx < length (kc_pos c)"
    using kv_wf_cells [OF wf1 st1(1)] size1 [OF st(1)] st(2) by (simp_all add: c_def kc_size_def)
  have fresh: "slot_loc si p \<notin> slot_loc si ` P"
    using pl p unfolding place_ok_def by (auto dest: inj_onD)
  have old: "kc_pos c ! idx = cell_pos kv (st, idx)" "kc_seq c ! idx = cell_seq kv (st, idx)"
    using t fresh pd(4) by (auto simp: placed_def t_eq loc cell_pos_def cell_seq_def c_def)
  have use: "kc_pos c ! idx = - 1 \<or> card (kc_seq c ! idx) = 1" using pd(5) old by (simp add: loc)
  have tok: "tok_ok kv ub i st" using pd(6) by (simp add: i_def loc)
  obtain rm' d where d: "au_cell ub i idx (rm, c) = Some (rm', d)"
    "kc_writes c idx (ub_pos ub ! i) (tok_seqs ub i) 0 d" "length rm' = LLAMA_MAX_SEQ"
    "\<And>r. seq_ok r \<Longrightarrow> rm' ! nat r = (if kc_seq c ! idx = {r} then max (rm ! nat r) (kc_pos c ! idx) else rm ! nat r)"
    and dshift: "kc_has_shift d = kc_has_shift c"
    by (rule au_cell_ok [OF cwf cidx use tok wf rm]) blast
  define kv2 where "kv2 = kv1\<lparr>kv_cells_v := (kv_cells_v kv1)[st := d]\<rparr>"
  have step: "au_tok ub si (si_n si) (fst p) (snd p) t = Some (rm', kv2)"
    using pd(1-3) st1(2) d(1) by (simp add: au_tok_def t_eq kv2_def st_def idx_def c_def i_def slot_tok_def)
  have dlen: "length (kc_pos d) = length (kc_pos c)" "length (kc_seq c) = length (kc_pos c)" "length (kc_shift c) = length (kc_pos c)"
    using d(2) cwf by (simp_all add: kc_writes_def kc_wf_len_seq kc_wf_len_shift)
  have down: "kc_owned d"
    using kv_wf_owned [OF wf1 st1(1)] d(2) tok dlen cidx
    by (auto simp: kc_owned_def c_def [symmetric] kc_writes_def nth_list_update tok_ok_def tok_seqs_def)
  have wf2: "kv_wf kv2"
    unfolding kv2_def kv_cells_update_eq [OF wf1 st1(1)]
  proof (rule kv_put_wf [OF wf1 st1(1) kc_writes_wf [OF d(2)]])
    show "length (kc_pos d) = length (kc_pos (kv_cells_v kv1 ! st))" using dlen by (simp add: c_def)
    show "kv_heads kv1 ! st \<le> length (kc_pos d)" using kv_wf_head [OF wf1 st1(1)] dlen by (simp add: c_def)
    fix j r
    assume j: "j < length (kc_pos d)" and r: "r \<in> kc_seq d ! j"
    show "nat r < length (kv_seq_to_stream kv1) \<and> kv_seq_to_stream kv1 ! nat r = st"
    proof (cases "j = idx")
      case True
      then have "r \<in> tok_seqs ub i" using r d(2) cidx dlen by (simp add: kc_writes_def)
      then show ?thesis using tok same by (auto simp: tok_ok_def kv_seq_ok_def)
    next
      case False
      then have "r \<in> kc_seq c ! j" using r d(2) by (simp add: kc_writes_def)
      then show ?thesis using kv_wf_owner [OF wf1 st1(1), of j r] j dlen by (simp add: c_def)
    qed
  qed (rule down)
  have cell2: "cell_pos kv2 l = (if l = (st, idx) then ub_pos ub ! i else cell_pos kv1 l) \<and>
      cell_seq kv2 l = (if l = (st, idx) then tok_seqs ub i else cell_seq kv1 l) \<and>
      cell_shift kv2 l = (if l = (st, idx) then 0 else cell_shift kv1 l)" for l
    using d(2) dlen cidx st1(2)
    by (cases l) (auto simp: cell_pos_def cell_seq_def cell_shift_def kv2_def kc_writes_def nth_list_update c_def)
  have size2: "kc_size (kv_cells_v kv2 ! u) = kc_size (kv_cells_v kv ! u)" if "u < kv_n_stream kv" for u
    using size1 [OF that] dlen st1(2) by (cases "u = st") (simp_all add: kv2_def kc_size_def c_def)
  have shift2: "kc_has_shift (kv_cells_v kv2 ! u) = kc_has_shift (kv_cells_v kv ! u)" if "u < kv_n_stream kv" for u
    using t that dshift st1(2) by (cases "u = st") (simp_all add: kv2_def c_def placed_def t_eq)
  have rest: "cell_pos kv2 l = cell_pos kv l \<and> cell_seq kv2 l = cell_seq kv l \<and> cell_shift kv2 l = cell_shift kv l"
    if l: "loc_ok kv l" "l \<notin> slot_loc si ` insert p P" for l
  proof -
    have "l \<noteq> (st, idx)" "l \<notin> slot_loc si ` P" using l(2) loc by auto
    then show ?thesis using cell2 [of l] t l(1) unfolding placed_def t_eq snd_conv by metis
  qed
  have dn: "cell_pos kv2 (slot_loc si q) = ub_pos ub ! slot_tok si q \<and>
      cell_seq kv2 (slot_loc si q) = tok_seqs ub (slot_tok si q) \<and> cell_shift kv2 (slot_loc si q) = 0"
    if q: "q \<in> insert p P" for q
  proof (cases "q = p")
    case True
    then show ?thesis using cell2 [of "(st, idx)"] loc by (simp add: i_def)
  next
    case False
    then have "q \<in> P" using q by simp
    then have "slot_loc si q \<noteq> (st, idx)" using fresh loc by (metis image_eqI)
    then show ?thesis using cell2 [of "slot_loc si q"] t \<open>q \<in> P\<close> unfolding placed_def t_eq snd_conv by auto
  qed
  have rms: "rm' ! nat r = Max (insert (- 1) (over_positions kv si (insert p P) r))" if r: "seq_ok r" for r
  proof -
    have fin: "finite (over_positions kv si P r)"
      using finite_subset [OF p(3)] by simp
    have "rm ! nat r = Max (insert (- 1) (over_positions kv si P r))" using t r by (simp add: placed_def t_eq)
    then show ?thesis
      using d(4) [OF r] fin old
      by (simp add: over_positions_insert loc insert_commute [of "- 1"] max.commute)
  qed
  have "placed kv ub si (insert p P) (rm', kv2)"
    unfolding placed_def fst_conv snd_conv
    using wf2 size2 shift2 rest dn d(3) rms cs kv2_def by auto
  then show ?thesis using step by blast
qed

lemma au_all_ok:
  assumes wf: "kv_wf kv" and pl: "place_ok kv ub si"
  obtains rm kv1 where "foldM (au_stream ub si (si_n si)) [0..<si_n_stream si] (replicate LLAMA_MAX_SEQ (- 1), kv) = Some (rm, kv1)"
    and "placed kv ub si (set (slot_pairs si)) (rm, kv1)"
proof -
  let ?f = "\<lambda>p. au_tok ub si (si_n si) (fst p) (snd p)"
  have init: "placed kv ub si {} (replicate LLAMA_MAX_SEQ (- 1), kv)"
    using wf seq_ok_nat unfolding placed_def by (auto simp: over_positions_def intro: exI [of _ "kv_cells_v kv"])
  have dist: "distinct (slot_pairs si)" by (simp add: slot_pairs_def distinct_product)
  have "\<exists>t. foldM ?f (slot_pairs si) (replicate LLAMA_MAX_SEQ (- 1), kv) = Some t \<and> placed kv ub si (set (slot_pairs si)) t"
  proof (rule foldM_rule [where P = "\<lambda>ys. placed kv ub si (set ys)"])
    show "placed kv ub si (set []) (replicate LLAMA_MAX_SEQ (- 1), kv)" using init by simp
    fix ys p t
    assume ex: "\<exists>zs. slot_pairs si = ys @ p # zs" and t: "placed kv ub si (set ys) t"
    then have "p \<in> set (slot_pairs si)" "p \<notin> set ys" "set ys \<subseteq> set (slot_pairs si)"
      using dist by auto
    then show "\<exists>t'. ?f p t = Some t' \<and> placed kv ub si (set (ys @ [p])) t'"
      using au_tok_ok [OF wf pl _ _ _ t] by simp
  qed
  then show thesis using that
    by (auto simp: au_stream_def [abs_def] foldM_nested slot_pairs_def split_paired_Ex)
qed

subsection \<open>The purge and the heads\<close>

text \<open>Caches of the same shape: only the content of the cells and the heads differ.\<close>

definition same_shape :: "kv_cache \<Rightarrow> kv_cache \<Rightarrow> bool" where
  "same_shape kv kv' \<longleftrightarrow> (\<exists>cs hs. kv' = kv\<lparr>kv_cells_v := cs, kv_heads := hs\<rparr>) \<and>
     (\<forall>st < kv_n_stream kv. kc_size (kv_cells_v kv' ! st) = kc_size (kv_cells_v kv ! st))"

lemma same_shape_refl [simp]: "same_shape kv kv"
proof -
  have "kv = kv\<lparr>kv_cells_v := kv_cells_v kv, kv_heads := kv_heads kv\<rparr>" by simp
  then show ?thesis unfolding same_shape_def by blast
qed

lemma same_shapeD:
  assumes "same_shape kv kv'"
  shows "kv_seq_to_stream kv' = kv_seq_to_stream kv" "kv_n_stream kv' = kv_n_stream kv" "kv_seq_ok kv' r = kv_seq_ok kv r"
    "kv_swa_type kv' = kv_swa_type kv" "kv_n_swa kv' = kv_n_swa kv" "kv_supports_set_rows kv' = kv_supports_set_rows kv"
    "st < kv_n_stream kv \<Longrightarrow> kc_size (kv_cells_v kv' ! st) = kc_size (kv_cells_v kv ! st)"
  using assms by (auto simp: same_shape_def kv_seq_ok_def)

lemma same_shape_trans: "same_shape a b \<Longrightarrow> same_shape b c \<Longrightarrow> same_shape a c"
  unfolding same_shape_def by (elim conjE exE, intro conjI exI) auto

lemma same_shape_heads: "same_shape kv kv' \<Longrightarrow> same_shape kv (kv'\<lparr>kv_heads := hs\<rparr>)"
proof -
  assume a: "same_shape kv kv'"
  then obtain cs hs' where "kv' = kv\<lparr>kv_cells_v := cs, kv_heads := hs'\<rparr>" by (auto simp: same_shape_def)
  then have "kv'\<lparr>kv_heads := hs\<rparr> = kv\<lparr>kv_cells_v := cs, kv_heads := hs\<rparr>" by simp
  moreover have "kv_cells_v (kv'\<lparr>kv_heads := hs\<rparr>) = kv_cells_v kv'" by simp
  ultimately show ?thesis using a unfolding same_shape_def by metis
qed

lemma same_shape_put:
  assumes "kv_wf kv" "length (kc_pos c) = length (kc_pos (kv_cells_v kv ! st))"
  shows "same_shape kv (kv_put kv st c h)"
  using assms kv_wf_len_cells [OF assms(1)] unfolding same_shape_def kv_put_def
  by (intro conjI exI) (auto simp: kc_size_def, metis nth_list_update_eq nth_list_update_neq)

lemma au_purge_ok:
  assumes wf: "kv_wf kv" and rm: "s < length rm"
    and m: "rm ! s \<noteq> - 1 \<Longrightarrow> kv_seq_ok kv (int s) \<and> 0 \<le> rm ! s \<and> rm ! s < INT32_MAX"
  shows "\<exists>kv'. au_purge rm s kv = Some kv' \<and> kv_wf kv' \<and> same_shape kv kv' \<and>
    (\<forall>r. kv_seq_ok kv r \<longrightarrow> kv_positions kv' r =
      (if r = int s then {p \<in> kv_positions kv r. rm ! s < p} else kv_positions kv r))"
proof (cases "rm ! s = - 1")
  case True
  have "{p \<in> kv_positions kv r. rm ! s < p} = kv_positions kv r" if "kv_seq_ok kv r" for r
    using kv_positions_nonneg [OF wf that] True by fastforce
  then show ?thesis using True wf rm by (auto simp: au_purge_def)
next
  case False
  then have s: "kv_seq_ok kv (int s)" and m: "0 \<le> rm ! s" "rm ! s < INT32_MAX" using m by auto
  let ?P = "kv_positions kv (int s)"
  define mn where "mn = (if ?P = {} then - 1 else Min ?P)"
  have mn_le: "mn \<le> p" if "p \<in> ?P" for p using that Min_le [of ?P p] by (auto simp: mn_def)
  have sl: "s < length (kv_seq_to_stream kv)" using s by (simp add: kv_seq_ok_def)
  have st: "kv_seq_to_stream kv ! s < kv_n_stream kv" using kv_seq_ok_stream [OF wf s] by simp
  have mn_eq: "kc_seq_pos_min (kv_cells_v kv ! (kv_seq_to_stream kv ! s)) (int s) = Some mn"
    using kv_seq_pos_min_ok [OF wf s] kv_stream_of_ok [OF wf s] by (simp add: kv_seq_pos_min_def kv_cells_of_def mn_def)
  have unf: "au_purge rm s kv = (if mn \<le> rm ! s then map_option snd (kv_seq_rm kv (int s) mn (rm ! s + 1)) else Some kv)"
    using rm False sl st kv_wf_len_cells [OF wf] mn_eq m
    by (simp add: au_purge_def i32_ok_def INT32_MIN_def INT32_MAX_def)
  show ?thesis
  proof (cases "mn \<le> rm ! s")
    case True
    obtain c h where rmk: "kv_seq_rm kv (int s) mn (rm ! s + 1) = Some (True, kv_put kv (kv_strm kv (int s)) c h)"
      "kv_wf (kv_put kv (kv_strm kv (int s)) c h)"
      and pos: "\<And>t. kv_seq_ok kv t \<Longrightarrow> kv_positions (kv_put kv (kv_strm kv (int s)) c h) t =
        (if t = int s then {p \<in> ?P. \<not> (norm_p0 mn \<le> p \<and> p < norm_p1 (rm ! s + 1))} else kv_positions kv t)"
      and len: "length (kc_pos c) = length (kc_pos (kv_cells_of kv (int s)))"
      by (rule kv_seq_rm_ok [OF wf s]) blast
    have eq: "{p \<in> ?P. \<not> (norm_p0 mn \<le> p \<and> p < norm_p1 (rm ! s + 1))} = {p \<in> ?P. rm ! s < p}"
    proof -
      have lo: "norm_p0 mn \<le> p" if "p \<in> ?P" for p
        using that kv_positions_nonneg [OF wf s] mn_le by (auto simp: norm_p0_def)
      have hi: "norm_p1 (rm ! s + 1) = rm ! s + 1" using m by (simp add: norm_p1_def)
      show ?thesis
        unfolding hi
      proof (rule Collect_cong)
        fix p
        show "(p \<in> ?P \<and> \<not> (norm_p0 mn \<le> p \<and> p < rm ! s + 1)) = (p \<in> ?P \<and> rm ! s < p)"
          using lo [of p] by linarith
      qed
    qed
    have "same_shape kv (kv_put kv (kv_strm kv (int s)) c h)"
      by (rule same_shape_put [OF wf]) (use len in \<open>simp add: kv_cells_of_def\<close>)
    then show ?thesis using rmk(1,2) pos [unfolded eq] True unfolding unf by simp
  next
    case ge: False
    have "rm ! s < p" if "p \<in> ?P" for p
      using mn_le [OF that] ge by simp
    then have "{p \<in> ?P. rm ! s < p} = ?P" by blast
    then show ?thesis using ge wf unfolding unf by auto
  qed
qed

lemma au_purges_ok:
  assumes wf: "kv_wf kv" and rm: "length rm = LLAMA_MAX_SEQ"
    and m: "\<And>s. s < LLAMA_MAX_SEQ \<Longrightarrow> rm ! s \<noteq> - 1 \<Longrightarrow> kv_seq_ok kv (int s) \<and> 0 \<le> rm ! s \<and> rm ! s < INT32_MAX"
  shows "\<exists>kv'. foldM (au_purge rm) [0..<LLAMA_MAX_SEQ] kv = Some kv' \<and> kv_wf kv' \<and> same_shape kv kv' \<and>
    (\<forall>r. kv_seq_ok kv r \<longrightarrow> kv_positions kv' r = {p \<in> kv_positions kv r. rm ! nat r < p})"
proof -
  let ?P = "\<lambda>k kv'. kv_wf kv' \<and> same_shape kv kv' \<and> (\<forall>r. kv_seq_ok kv r \<longrightarrow> kv_positions kv' r =
    (if nat r < k then {p \<in> kv_positions kv r. rm ! nat r < p} else kv_positions kv r))"
  have "\<exists>kv'. foldM (au_purge rm) [0..<LLAMA_MAX_SEQ] kv = Some kv' \<and> ?P LLAMA_MAX_SEQ kv'"
  proof (rule foldM_upt_rule [where P = ?P])
    show "?P 0 kv" using wf by simp
    fix s kv1
    assume s: "s < LLAMA_MAX_SEQ" and P: "?P s kv1"
    then have sh: "same_shape kv kv1" and wf1: "kv_wf kv1" by auto
    have "\<exists>kv'. au_purge rm s kv1 = Some kv' \<and> kv_wf kv' \<and> same_shape kv1 kv' \<and>
      (\<forall>r. kv_seq_ok kv1 r \<longrightarrow> kv_positions kv' r =
        (if r = int s then {p \<in> kv_positions kv1 r. rm ! s < p} else kv_positions kv1 r))"
      by (rule au_purge_ok [OF wf1]) (use m [OF s] rm s same_shapeD(3) [OF sh] in auto)
    then obtain kv' where kv': "au_purge rm s kv1 = Some kv'" "kv_wf kv'" "same_shape kv1 kv'"
      "\<And>r. kv_seq_ok kv1 r \<Longrightarrow> kv_positions kv' r =
        (if r = int s then {p \<in> kv_positions kv1 r. rm ! s < p} else kv_positions kv1 r)" by blast
    have "kv_positions kv' r = (if nat r < Suc s then {p \<in> kv_positions kv r. rm ! nat r < p} else kv_positions kv r)"
      if r: "kv_seq_ok kv r" for r
    proof -
      have "kv_positions kv1 r = (if nat r < s then {p \<in> kv_positions kv r. rm ! nat r < p} else kv_positions kv r)"
        using P r by blast
      moreover have "nat r = s \<longleftrightarrow> r = int s" using r by (auto simp: kv_seq_ok_def)
      ultimately show ?thesis using kv'(4) r same_shapeD(3) [OF sh] by (auto simp: less_Suc_eq)
    qed
    then show "\<exists>kv'. au_purge rm s kv1 = Some kv' \<and> ?P (Suc s) kv'"
      using kv' same_shape_trans [OF sh kv'(3)] by blast
  qed
  moreover have "nat r < LLAMA_MAX_SEQ" if "kv_seq_ok kv r" for r
    using seq_ok_nat [OF kv_seq_ok_id [OF wf that]] .
  ultimately show ?thesis by fastforce
qed

lemma au_heads_ok:
  assumes wf: "kv_wf kv" and pl: "place_ok kv0 ub si" and sh: "same_shape kv0 kv"
  shows "\<exists>hs. foldM (au_head si) [0..<si_n_stream si] kv = Some (kv\<lparr>kv_heads := hs\<rparr>) \<and> kv_wf (kv\<lparr>kv_heads := hs\<rparr>) \<and>
    (\<forall>st. st \<notin> set (si_strm si) \<longrightarrow> hs ! st = kv_heads kv ! st)"
proof -
  let ?H = "\<lambda>hs. \<forall>st. st \<notin> set (si_strm si) \<longrightarrow> hs ! st = kv_heads kv ! st"
  have len: "length (si_idxs si) = si_n_stream si" "0 < si_n si" "\<And>s. s < si_n_stream si \<Longrightarrow> length (si_idxs si ! s) = si_n si"
    using pl by (auto simp: place_ok_def si_n_stream_def)
  have "\<exists>kv'. foldM (au_head si) [0..<si_n_stream si] kv = Some kv' \<and> (\<exists>hs. kv' = kv\<lparr>kv_heads := hs\<rparr> \<and> kv_wf kv' \<and> ?H hs)"
  proof (rule foldM_upt_rule [where P = "\<lambda>_ kv'. \<exists>hs. kv' = kv\<lparr>kv_heads := hs\<rparr> \<and> kv_wf kv' \<and> ?H hs"])
    show "\<exists>hs. kv = kv\<lparr>kv_heads := hs\<rparr> \<and> kv_wf kv \<and> ?H hs" using wf by (intro exI [of _ "kv_heads kv"]) simp
    fix s t
    assume s: "s < si_n_stream si" and "\<exists>hs. t = kv\<lparr>kv_heads := hs\<rparr> \<and> kv_wf t \<and> ?H hs"
    then obtain hs where t: "t = kv\<lparr>kv_heads := hs\<rparr>" "kv_wf t" "?H hs" by blast
    let ?st = "si_strm si ! s" and ?idx = "last (si_idxs si ! s)"
    have ne: "si_idxs si ! s \<noteq> []" using len(2,3) s by fastforce
    have "(s, si_n si - 1) \<in> set (slot_pairs si)" using s len(2) by (simp add: slot_pairs_iff)
    moreover have "slot_loc si (s, si_n si - 1) = (?st, ?idx)"
      using ne len(3) [OF s] by (simp add: slot_loc_def last_conv_nth)
    ultimately have loc: "?st < kv_n_stream kv0" "?idx < kc_size (kv_cells_v kv0 ! ?st)"
      using place_okD(4) [OF pl] by (fastforce simp: loc_ok_def)+
    have st: "?st < kv_n_stream t" "?idx + 1 \<le> length (kc_pos (kv_cells_v t ! ?st))"
      using loc same_shapeD(2,7) [OF sh] t(1) by (simp_all add: kc_size_def Suc_le_eq)
    have eq: "au_head si s t = Some (t\<lparr>kv_heads := (kv_heads t)[?st := ?idx + 1]\<rparr>)"
      using s len(1) ne st(1) kv_wf_len_heads [OF t(2)] by (simp add: au_head_def vset_def si_n_stream_def)
    have "kv_wf (kv_put t ?st (kv_cells_v t ! ?st) (?idx + 1))"
      by (rule kv_put_wf [OF t(2) st(1) kv_wf_cells [OF t(2) st(1)] refl kv_wf_owned [OF t(2) st(1)] st(2)])
        (rule kv_wf_owner [OF t(2) st(1)])
    then have "kv_wf (t\<lparr>kv_heads := (kv_heads t)[?st := ?idx + 1]\<rparr>)" by (simp add: kv_put_def)
    moreover have "?H (hs[?st := ?idx + 1])"
    proof (intro allI impI)
      fix u
      assume "u \<notin> set (si_strm si)"
      moreover have "?st \<in> set (si_strm si)" using s by (simp add: si_n_stream_def)
      ultimately show "hs[?st := ?idx + 1] ! u = kv_heads kv ! u" using t(3) by (metis nth_list_update_neq)
    qed
    moreover have "t\<lparr>kv_heads := (kv_heads t)[?st := ?idx + 1]\<rparr> = kv\<lparr>kv_heads := hs[?st := ?idx + 1]\<rparr>"
      using t(1) by simp
    ultimately show "\<exists>t'. au_head si s t = Some t' \<and> (\<exists>hs. t' = kv\<lparr>kv_heads := hs\<rparr> \<and> kv_wf t' \<and> ?H hs)"
      using eq by blast
  qed
  then show ?thesis by auto
qed

subsection \<open>The whole placement\<close>

lemma kv_positions_cells:
  assumes "kv_seq_ok kv r"
  shows "kv_positions kv r = cell_pos kv ` {l. fst l = kv_strm kv r \<and> snd l < kc_size (kv_cells_of kv r) \<and> r \<in> cell_seq kv l}"
proof (intro set_eqI iffI)
  fix p
  assume "p \<in> kv_positions kv r"
  then obtain i where "i < kc_size (kv_cells_of kv r)" "r \<in> kc_seq (kv_cells_of kv r) ! i" "p = kc_pos (kv_cells_of kv r) ! i"
    by (auto simp: kv_positions_def kc_positions_def kc_size_def)
  then show "p \<in> cell_pos kv ` {l. fst l = kv_strm kv r \<and> snd l < kc_size (kv_cells_of kv r) \<and> r \<in> cell_seq kv l}"
    by (intro image_eqI [of _ _ "(kv_strm kv r, i)"]) (simp_all add: cell_pos_def cell_seq_def kv_cells_of_def)
qed (auto simp: kv_positions_def kc_positions_def cell_pos_def cell_seq_def kv_cells_of_def kc_size_def)

lemma over_max_mem:
  assumes "over_max kv si r \<noteq> - 1"
  obtains p where "p \<in> set (slot_pairs si)" "cell_seq kv (slot_loc si p) = {r}" "over_max kv si r = cell_pos kv (slot_loc si p)"
proof -
  have "over_max kv si r \<in> insert (- 1) (over_positions kv si (set (slot_pairs si)) r)"
    unfolding over_max_def by (rule Max_in) auto
  then show thesis using that assms by (auto simp: over_positions_def)
qed

lemma over_max_ok:
  assumes wf: "kv_wf kv" and pl: "place_ok kv ub si" and fits: "kv_fits kv" and m: "over_max kv si r \<noteq> - 1"
  shows "kv_seq_ok kv r \<and> 0 \<le> over_max kv si r \<and> over_max kv si r < INT32_MAX"
proof -
  obtain p where p: "p \<in> set (slot_pairs si)" "cell_seq kv (slot_loc si p) = {r}" "over_max kv si r = cell_pos kv (slot_loc si p)"
    using over_max_mem [OF m] .
  obtain st i where l: "slot_loc si p = (st, i)" by (cases "slot_loc si p")
  have loc: "st < kv_n_stream kv" "i < length (kc_pos (kv_cells_v kv ! st))"
    using place_okD(4) [OF pl p(1)] by (auto simp: loc_ok_def l kc_size_def)
  have r: "r \<in> kc_seq (kv_cells_v kv ! st) ! i" using p(2) by (simp add: cell_seq_def l)
  note c = kv_wf_cells [OF wf loc(1)]
  show ?thesis
    using kv_wf_owner [OF wf loc r] kc_wf_seq [OF c loc(2) r] kc_wf_in_seq [OF c loc(2) r] kc_wf_pos [OF c loc(2)]
      fits loc p(3)
    by (auto simp: kv_seq_ok_def seq_ok_def cell_pos_def l kv_fits_def kc_fits_def kc_size_def)
qed

lemma placed_positions:
  assumes wf: "kv_wf kv" and pl: "place_ok kv ub si" and P: "placed kv ub si (set (slot_pairs si)) (rm, kv1)"
    and r: "kv_seq_ok kv r"
  shows "{p \<in> kv_positions kv1 r. over_max kv si r < p} = {p \<in> kv_positions kv r \<union> ub_positions ub r. over_max kv si r < p}"
proof -
  obtain cs where cs: "kv1 = kv\<lparr>kv_cells_v := cs\<rparr>" using P by (auto simp: placed_def)
  have r1: "kv_seq_ok kv1 r" "kv_strm kv1 r = kv_strm kv r" using r by (simp_all add: cs kv_seq_ok_def)
  note st = kv_seq_ok_stream [OF wf r]
  have sz: "kc_size (kv_cells_of kv1 r) = kc_size (kv_cells_of kv r)"
    using P st r1(2) by (simp add: placed_def kv_cells_of_def)
  have pos: "kv_positions kv r = cell_pos kv ` {l. fst l = kv_strm kv r \<and> loc_ok kv l \<and> r \<in> cell_seq kv l}"
    "kv_positions kv1 r = cell_pos kv1 ` {l. fst l = kv_strm kv r \<and> loc_ok kv l \<and> r \<in> cell_seq kv1 l}"
    unfolding kv_positions_cells [OF r] kv_positions_cells [OF r1(1)] r1(2) sz
    using st by (auto simp: loc_ok_def kv_cells_of_def)
  have old: "cell_pos kv1 l = cell_pos kv l \<and> cell_seq kv1 l = cell_seq kv l"
    if "loc_ok kv l" "l \<notin> slot_loc si ` set (slot_pairs si)" for l
    using P that unfolding placed_def snd_conv by blast
  have new: "cell_pos kv1 (slot_loc si p) = ub_pos ub ! slot_tok si p \<and> cell_seq kv1 (slot_loc si p) = tok_seqs ub (slot_tok si p)"
    if "p \<in> set (slot_pairs si)" for p
    using P that unfolding placed_def snd_conv by blast
  have ubp: "ub_positions ub r = {ub_pos ub ! slot_tok si p | p. p \<in> set (slot_pairs si) \<and> r \<in> tok_seqs ub (slot_tok si p)}"
  proof -
    have "slot_tok si ` set (slot_pairs si) = {..<ub_n_tokens ub}"
    proof -
      have n: "0 < si_n si" "ub_n_tokens ub = si_n_stream si * si_n si" using pl by (auto simp: place_ok_def si_n_stream_def)
      have "i \<in> slot_tok si ` set (slot_pairs si)" if "i < ub_n_tokens ub" for i
      proof (rule image_eqI)
        show "i = slot_tok si (i div si_n si, i mod si_n si)" by (simp add: slot_tok_def)
        show "(i div si_n si, i mod si_n si) \<in> set (slot_pairs si)"
          using that n by (simp add: slot_pairs_iff less_mult_imp_div_less)
      qed
      moreover have "slot_tok si p < ub_n_tokens ub" if "p \<in> set (slot_pairs si)" for p
      proof -
        have p: "fst p < si_n_stream si" "snd p < si_n si" using that by (auto simp: slot_pairs_iff)
        then have "slot_tok si p < Suc (fst p) * si_n si" by (simp add: slot_tok_def)
        also have "\<dots> \<le> si_n_stream si * si_n si" using p by (intro mult_le_mono1) simp
        finally show ?thesis using n by simp
      qed
      ultimately show ?thesis by auto
    qed
    then have "\<And>i. i < ub_n_tokens ub \<longleftrightarrow> (\<exists>p \<in> set (slot_pairs si). i = slot_tok si p)"
      by (metis image_iff lessThan_iff)
    then show ?thesis by (auto simp: ub_positions_def)
  qed
  have lost: "cell_pos kv (slot_loc si p) \<le> over_max kv si r" if p: "p \<in> set (slot_pairs si)" "r \<in> cell_seq kv (slot_loc si p)" for p
  proof -
    have lk: "loc_ok kv (slot_loc si p)" by (rule place_okD(4) [OF pl p(1)])
    then have "cell_pos kv (slot_loc si p) \<noteq> - 1"
      using kc_wf_in_seq [OF kv_wf_cells [OF wf]] p(2) by (auto simp: cell_pos_def cell_seq_def loc_ok_def kc_size_def)
    then have "card (cell_seq kv (slot_loc si p)) = 1" using place_okD(5) [OF pl p(1)] by simp
    then have "cell_seq kv (slot_loc si p) = {r}" using p(2) by (auto simp: card_1_singleton_iff)
    then show ?thesis using p(1) unfolding over_max_def by (intro Max_ge) (auto simp: over_positions_def)
  qed
  show ?thesis
  proof (intro set_eqI iffI)
    fix x
    assume "x \<in> {p \<in> kv_positions kv1 r. over_max kv si r < p}"
    then obtain l where l: "x = cell_pos kv1 l" "fst l = kv_strm kv r" "loc_ok kv l" "r \<in> cell_seq kv1 l" "over_max kv si r < x"
      by (auto simp: pos)
    show "x \<in> {p \<in> kv_positions kv r \<union> ub_positions ub r. over_max kv si r < p}"
    proof (cases "l \<in> slot_loc si ` set (slot_pairs si)")
      case True
      then show ?thesis using l new by (auto simp: ubp)
    next
      case False
      then show ?thesis using l old [OF l(3) False] by (auto simp: pos)
    qed
  next
    fix x
    assume "x \<in> {p \<in> kv_positions kv r \<union> ub_positions ub r. over_max kv si r < p}"
    then consider (old_) l where "x = cell_pos kv l" "fst l = kv_strm kv r" "loc_ok kv l" "r \<in> cell_seq kv l" "over_max kv si r < x"
      | (new_) p where "x = ub_pos ub ! slot_tok si p" "p \<in> set (slot_pairs si)" "r \<in> tok_seqs ub (slot_tok si p)" "over_max kv si r < x"
      by (auto simp: pos ubp)
    then show "x \<in> {p \<in> kv_positions kv1 r. over_max kv si r < p}"
    proof cases
      case old_
      then have "l \<notin> slot_loc si ` set (slot_pairs si)" using lost by fastforce
      then have "cell_pos kv1 l = cell_pos kv l" "cell_seq kv1 l = cell_seq kv l" using old [OF old_(3)] by auto
      then show ?thesis using old_ by (auto simp: pos intro!: image_eqI [of _ _ l])
    next
      case new_
      have "fst (slot_loc si p) = kv_strm kv r"
        using place_okD(6) [OF pl new_(2)] new_(3) by (auto simp: tok_ok_def)
      then show ?thesis
        using new_ new [OF new_(2)] place_okD(4) [OF pl new_(2)]
        by (auto simp: pos intro!: image_eqI [of _ _ "slot_loc si p"])
    qed
  qed
qed

lemma kv_apply_ubatch_ok:
  assumes wf: "kv_wf kv" and pl: "place_ok kv ub si" and fits: "kv_fits kv"
  obtains kv' where "kv_apply_ubatch si ub kv = Some kv'" and "kv_wf kv'" and "same_shape kv kv'"
    and "\<And>r. kv_seq_ok kv r \<Longrightarrow>
      kv_positions kv' r = {p \<in> kv_positions kv r \<union> ub_positions ub r. over_max kv si r < p}"
proof -
  obtain rm kv1 where a: "foldM (au_stream ub si (si_n si)) [0..<si_n_stream si] (replicate LLAMA_MAX_SEQ (- 1), kv) = Some (rm, kv1)"
    and P: "placed kv ub si (set (slot_pairs si)) (rm, kv1)"
    by (rule au_all_ok [OF wf pl])
  obtain cs where cs: "kv1 = kv\<lparr>kv_cells_v := cs\<rparr>" using P by (auto simp: placed_def)
  have wf1: "kv_wf kv1" and rm: "length rm = LLAMA_MAX_SEQ" "\<And>r. seq_ok r \<Longrightarrow> rm ! nat r = over_max kv si r"
    using P by (auto simp: placed_def over_max_def)
  have sh1: "same_shape kv kv1"
    unfolding same_shape_def using P cs by (auto simp: placed_def intro!: exI [of _ cs] exI [of _ "kv_heads kv"])
  have m: "rm ! s \<noteq> - 1 \<Longrightarrow> kv_seq_ok kv1 (int s) \<and> 0 \<le> rm ! s \<and> rm ! s < INT32_MAX" if s: "s < LLAMA_MAX_SEQ" for s
    using rm(2) [of "int s"] s over_max_ok [OF wf pl fits, of "int s"] same_shapeD(3) [OF sh1] by (simp add: seq_ok_def)
  obtain kv2 where b: "foldM (au_purge rm) [0..<LLAMA_MAX_SEQ] kv1 = Some kv2" "kv_wf kv2" "same_shape kv1 kv2"
    "\<forall>r. kv_seq_ok kv1 r \<longrightarrow> kv_positions kv2 r = {p \<in> kv_positions kv1 r. rm ! nat r < p}"
    using au_purges_ok [OF wf1 rm(1) m] by blast
  have sh2: "same_shape kv kv2" by (rule same_shape_trans [OF sh1 b(3)])
  obtain hs where c: "foldM (au_head si) [0..<si_n_stream si] kv2 = Some (kv2\<lparr>kv_heads := hs\<rparr>)" "kv_wf (kv2\<lparr>kv_heads := hs\<rparr>)"
    using au_heads_ok [OF b(2) pl sh2] by blast
  have size: "si_size si = Some (si_n si)" "ub_n_tokens ub = si_n_stream si * si_n si"
    using pl by (auto simp: place_ok_def si_size_def si_n_def si_n_stream_def)
  show thesis
  proof (rule that)
    show "kv_apply_ubatch si ub kv = Some (kv2\<lparr>kv_heads := hs\<rparr>)"
      using a b(1) c(1) size by (simp add: kv_apply_ubatch_def)
    show "kv_wf (kv2\<lparr>kv_heads := hs\<rparr>)" by (rule c(2))
    show "same_shape kv (kv2\<lparr>kv_heads := hs\<rparr>)" by (rule same_shape_heads [OF sh2])
    fix r
    assume r: "kv_seq_ok kv r"
    have "kv_positions (kv2\<lparr>kv_heads := hs\<rparr>) r = kv_positions kv2 r" by (simp add: kv_positions_def kv_cells_of_def)
    also have "\<dots> = {p \<in> kv_positions kv1 r. over_max kv si r < p}"
      using b(4) r same_shapeD(3) [OF sh1] rm(2) [OF kv_seq_ok_id [OF wf r]] by simp
    also have "\<dots> = {p \<in> kv_positions kv r \<union> ub_positions ub r. over_max kv si r < p}"
      by (rule placed_positions [OF wf pl P r])
    finally show "kv_positions (kv2\<lparr>kv_heads := hs\<rparr>) r = {p \<in> kv_positions kv r \<union> ub_positions ub r. over_max kv si r < p}" .
  qed
qed

subsection \<open>From a slot to its places\<close>

text \<open>
  A micro-batch as the splits of the batch make it: the tokens of the \<open>s\<close>-th sequence of the
  micro-batch are stored in its stream, and the streams are distinct.
\<close>

definition ub_ok :: "kv_cache \<Rightarrow> llama_ubatch \<Rightarrow> bool" where
  "ub_ok kv ub \<longleftrightarrow> slot_ub_ok kv ub \<and> ub_n_tokens ub = slot_n_seqs kv ub * slot_n_tokens kv ub \<and>
     distinct (slot_strm kv ub) \<and>
     (\<forall>s < slot_n_seqs kv ub. \<forall>i < slot_n_tokens kv ub.
        tok_ok kv ub (s * slot_n_tokens kv ub + i) (slot_strm kv ub ! s))"

lemma slot_good_si_n:
  assumes "slot_good kv cont n sts si" "sts \<noteq> []"
  shows "si_n si = n" "si_n_stream si = length sts"
proof -
  have "si_idxs si \<noteq> []" "length (si_idxs si ! 0) = n"
    using assms by (auto simp: slot_good_def slot_for_def)
  then show "si_n si = n" by (simp add: si_n_def hd_conv_nth)
  show "si_n_stream si = length sts" using assms by (simp add: slot_good_def si_n_stream_def)
qed

lemma slot_good_place:
  assumes wf: "kv_wf kv" and ub: "ub_ok kv ub" and g: "slot_good kv cont (slot_n_tokens kv ub) (slot_strm kv ub) si"
  shows "place_ok kv ub si"
proof -
  let ?n = "slot_n_tokens kv ub" and ?S = "slot_strm kv ub"
  have sub: "slot_ub_ok kv ub" and dist: "distinct ?S" using ub by (auto simp: ub_ok_def)
  have lenS: "length ?S = slot_n_seqs kv ub" by (simp add: slot_strm_def)
  have pos: "0 < slot_n_seqs kv ub" "0 < ?n" using sub by (auto simp: slot_ub_ok_def)
  have neS: "?S \<noteq> []" using lenS pos by auto
  note si = slot_good_si_n [OF g neS]
  have gd: "si_strm si = ?S" "length (si_idxs si) = length ?S"
    "\<And>s. s < length ?S \<Longrightarrow> slot_for kv cont ?n (?S ! s) (si_idxs si ! s)"
    using g by (auto simp: slot_good_def)
  have place: "loc_ok kv (slot_loc si p) \<and> (cell_pos kv (slot_loc si p) = - 1 \<or> card (cell_seq kv (slot_loc si p)) = 1) \<and>
      tok_ok kv ub (slot_tok si p) (fst (slot_loc si p))" if p: "p \<in> set (slot_pairs si)" for p
  proof -
    have sp: "fst p < length ?S" "snd p < ?n" using p si by (auto simp: slot_pairs_iff)
    have st: "?S ! fst p < kv_n_stream kv"
      using sub sp(1) lenS kv_seq_ok_stream [OF wf] by (auto simp: slot_strm_def slot_ub_ok_def)
    have "si_idxs si ! fst p ! snd p \<in> set (si_idxs si ! fst p)"
      using gd(3) [OF sp(1)] sp(2) by (auto simp: slot_for_def)
    then have "si_idxs si ! fst p ! snd p < kc_size (kv_cells_v kv ! (?S ! fst p)) \<and>
        cell_usable kv (kv_cells_v kv ! (?S ! fst p)) (si_idxs si ! fst p ! snd p)"
      using gd(3) [OF sp(1)] by (auto simp: slot_for_def)
    moreover have "tok_ok kv ub (fst p * ?n + snd p) (?S ! fst p)"
      using ub sp lenS by (simp add: ub_ok_def)
    ultimately show ?thesis
      using st gd(1) si(1)
      by (auto simp: loc_ok_def slot_loc_def cell_pos_def cell_seq_def slot_tok_def cell_usable_def)
  qed
  have inj: "inj_on (slot_loc si) (set (slot_pairs si))"
  proof (rule inj_onI)
    fix p q
    assume p: "p \<in> set (slot_pairs si)" and q: "q \<in> set (slot_pairs si)" and eq: "slot_loc si p = slot_loc si q"
    have sp: "fst p < length ?S" "snd p < ?n" "fst q < length ?S" "snd q < ?n"
      using p q si by (auto simp: slot_pairs_iff)
    have "?S ! fst p = ?S ! fst q" using eq gd(1) by (simp add: slot_loc_def)
    then have f: "fst p = fst q" using dist sp nth_eq_iff_index_eq by blast
    then have "si_idxs si ! fst p ! snd p = si_idxs si ! fst p ! snd q" using eq by (simp add: slot_loc_def)
    moreover have "distinct (si_idxs si ! fst p)" "length (si_idxs si ! fst p) = ?n"
      using gd(3) [OF sp(1)] by (auto simp: slot_for_def)
    ultimately have "snd p = snd q" using sp nth_eq_iff_index_eq by metis
    then show "p = q" using f by (simp add: prod_eq_iff)
  qed
  have "length (si_idxs si ! s) = ?n" if "s < length ?S" for s using gd(3) [OF that] by (simp add: slot_for_def)
  moreover have "ub_n_tokens ub = length ?S * ?n" using ub lenS by (simp add: ub_ok_def)
  ultimately show ?thesis
    using neS gd(1,2) si pos place inj by (simp add: place_ok_def)
qed

subsection \<open>Contiguous positions\<close>

definition contiguous :: "llama_pos set \<Rightarrow> bool" where
  "contiguous P \<longleftrightarrow> (\<forall>x \<in> P. \<forall>y \<in> P. {x..y} \<subseteq> P)"

lemma contiguous_above: "contiguous P \<Longrightarrow> contiguous {p \<in> P. m < p}"
  by (fastforce simp: contiguous_def subset_iff)

text \<open>The tokens of \<open>ub\<close> come after those of the cache.\<close>

definition ub_after :: "kv_cache \<Rightarrow> llama_ubatch \<Rightarrow> bool" where
  "ub_after kv ub \<longleftrightarrow> (\<forall>r. kv_seq_ok kv r \<longrightarrow> (\<forall>p \<in> kv_positions kv r. \<forall>q \<in> ub_positions ub r. p < q))"

lemma ub_after_code [code]:
  "ub_after kv ub \<longleftrightarrow> (\<forall>r \<in> int ` set [0..<length (kv_seq_to_stream kv)].
     \<forall>p \<in> kv_positions kv r. \<forall>q \<in> ub_positions ub r. p < q)"
proof -
  have "kv_seq_ok kv r \<longleftrightarrow> r \<in> int ` set [0..<length (kv_seq_to_stream kv)]" for r
    by (auto simp: kv_seq_ok_def intro!: image_eqI [of _ _ "nat r"])
  then show ?thesis unfolding ub_after_def Ball_def by blast
qed

lemma over_max_in:
  assumes wf: "kv_wf kv" and pl: "place_ok kv ub si" and m: "over_max kv si r \<noteq> - 1"
  shows "over_max kv si r \<in> kv_positions kv r"
proof -
  obtain p where p: "p \<in> set (slot_pairs si)" "cell_seq kv (slot_loc si p) = {r}" "over_max kv si r = cell_pos kv (slot_loc si p)"
    using over_max_mem [OF m] .
  obtain st i where l: "slot_loc si p = (st, i)" by (cases "slot_loc si p")
  have loc: "st < kv_n_stream kv" "i < length (kc_pos (kv_cells_v kv ! st))"
    using place_okD(4) [OF pl p(1)] by (auto simp: loc_ok_def l kc_size_def)
  have r: "r \<in> kc_seq (kv_cells_v kv ! st) ! i" using p(2) by (simp add: cell_seq_def l)
  then have "kv_strm kv r = st" using kv_wf_owner [OF wf loc r] by simp
  then show ?thesis
    using loc r p(3) by (auto simp: kv_positions_def kv_cells_of_def cell_pos_def l intro: kc_positionsI)
qed

lemma ub_positions_nonneg:
  assumes pl: "place_ok kv ub si" and q: "q \<in> ub_positions ub r"
  shows "0 \<le> q"
proof -
  obtain i where i: "i < ub_n_tokens ub" "q = ub_pos ub ! i" using q by (auto simp: ub_positions_def)
  have n: "0 < si_n si" "ub_n_tokens ub = si_n_stream si * si_n si" using pl by (auto simp: place_ok_def si_n_stream_def)
  have "(i div si_n si, i mod si_n si) \<in> set (slot_pairs si)"
    using i n by (simp add: slot_pairs_iff less_mult_imp_div_less)
  from place_okD(6) [OF pl this] show ?thesis using i by (simp add: tok_ok_def slot_tok_def)
qed

lemma kept_positions:
  assumes wf: "kv_wf kv" and pl: "place_ok kv ub si" and aft: "ub_after kv ub" and r: "kv_seq_ok kv r"
  shows "{p \<in> kv_positions kv r \<union> ub_positions ub r. over_max kv si r < p} =
    {p \<in> kv_positions kv r. over_max kv si r < p} \<union> ub_positions ub r"
proof -
  have "over_max kv si r < q" if q: "q \<in> ub_positions ub r" for q
  proof (cases "over_max kv si r = - 1")
    case True
    then show ?thesis using ub_positions_nonneg [OF pl q] by simp
  next
    case False
    then show ?thesis using over_max_in [OF wf pl] aft r q by (auto simp: ub_after_def)
  qed
  then show ?thesis by blast
qed

end
