(* ===== verification/KvPrepare.thy ===== *)
theory KvPrepare
  imports KvApply
begin

text \<open>
  \<open>prepare\<close> places the micro-batches one after the other to see whether they fit, and puts the
  cache back.  Without an attention window the cells are restored exactly.  The heads are
  restored when the streams of every slot are \<open>0, 1, \<dots>\<close>: the saved heads are indexed by the
  position of the stream in the slot, not by the stream.  \<open>heads_back\<close> is what becomes of them otherwise.
\<close>

lemma over_max_empty:
  assumes "\<And>p. p \<in> set (slot_pairs si) \<Longrightarrow> cell_pos kv (slot_loc si p) = - 1"
  shows "over_max kv si r = - 1"
proof -
  have "over_positions kv si (set (slot_pairs si)) r \<subseteq> {- 1}"
    using assms by (auto simp: over_positions_def)
  then have "insert (- 1) (over_positions kv si (set (slot_pairs si)) r) = {- 1}" by auto
  then show ?thesis by (simp only: over_max_def) simp
qed

lemma kv_apply_plain:
  assumes wf: "kv_wf kv" and pl: "place_ok kv ub si"
    and empty: "\<And>p. p \<in> set (slot_pairs si) \<Longrightarrow> cell_pos kv (slot_loc si p) = - 1"
  obtains rm cs hs where "kv_apply_ubatch si ub kv = Some (kv\<lparr>kv_cells_v := cs, kv_heads := hs\<rparr>)"
    and "placed kv ub si (set (slot_pairs si)) (rm, kv\<lparr>kv_cells_v := cs\<rparr>)"
    and "kv_wf (kv\<lparr>kv_cells_v := cs, kv_heads := hs\<rparr>)"
    and "\<And>st. st \<notin> set (si_strm si) \<Longrightarrow> hs ! st = kv_heads kv ! st"
proof -
  obtain rm kv1 where a: "foldM (au_stream ub si (si_n si)) [0..<si_n_stream si] (replicate LLAMA_MAX_SEQ (- 1), kv) = Some (rm, kv1)"
    and P: "placed kv ub si (set (slot_pairs si)) (rm, kv1)"
    by (rule au_all_ok [OF wf pl])
  obtain cs where cs: "kv1 = kv\<lparr>kv_cells_v := cs\<rparr>" using P by (auto simp: placed_def)
  have wf1: "kv_wf kv1" and rm: "length rm = LLAMA_MAX_SEQ" "\<And>r. seq_ok r \<Longrightarrow> rm ! nat r = - 1"
    using P over_max_empty [OF empty] by (auto simp: placed_def over_max_def)
  have sh1: "same_shape kv kv1"
    unfolding same_shape_def using P cs by (auto simp: placed_def intro!: exI [of _ cs] exI [of _ "kv_heads kv"])
  have "rm ! s = - 1" if "s < LLAMA_MAX_SEQ" for s using rm(2) [of "int s"] that by (simp add: seq_ok_def)
  then have "au_purge rm s t = Some t" if "s \<in> set [0..<LLAMA_MAX_SEQ]" for s t
    using that rm(1) by (simp add: au_purge_def)
  then have b: "foldM (au_purge rm) [0..<LLAMA_MAX_SEQ] kv1 = Some kv1"
    by (rule foldM_skip)
  obtain hs where c: "foldM (au_head si) [0..<si_n_stream si] kv1 = Some (kv1\<lparr>kv_heads := hs\<rparr>)" "kv_wf (kv1\<lparr>kv_heads := hs\<rparr>)"
    "\<And>st. st \<notin> set (si_strm si) \<Longrightarrow> hs ! st = kv_heads kv1 ! st"
    using au_heads_ok [OF wf1 pl sh1] by blast
  have size: "si_size si = Some (si_n si)" "ub_n_tokens ub = si_n_stream si * si_n si"
    using pl by (auto simp: place_ok_def si_size_def si_n_def si_n_stream_def)
  have "kv_apply_ubatch si ub kv = Some (kv\<lparr>kv_cells_v := cs, kv_heads := hs\<rparr>)"
    using a b c(1) size cs by (simp add: kv_apply_ubatch_def)
  then show thesis using that P c(2,3) by (simp add: cs)
qed

subsection \<open>Saving and restoring one placement\<close>

text \<open>The state \<open>prepare\<close> saves before a placement.\<close>

definition saved :: "kv_cache \<Rightarrow> slot_info \<Rightarrow> prep_state \<Rightarrow> bool" where
  "saved kv si ps \<longleftrightarrow> ps_sinfo ps = si \<and> ps_heads_old ps = kv_heads kv \<and> length (ps_cells ps) = si_n_stream si \<and>
     (\<forall>s < si_n_stream si. kc_cp (kv_cells_v kv ! (si_strm si ! s)) (si_idxs si ! s) = Some (ps_cells ps ! s))"

text \<open>The cells a placement touches hold nothing and no shift.\<close>

definition slot_clean :: "kv_cache \<Rightarrow> slot_info \<Rightarrow> bool" where
  "slot_clean kv si \<longleftrightarrow> length (si_idxs si) = si_n_stream si \<and>
     (\<forall>s < si_n_stream si. si_strm si ! s < kv_n_stream kv \<and> (\<forall>i \<in> set (si_idxs si ! s).
        i < length (kc_pos (kv_cells_v kv ! (si_strm si ! s))) \<and> kc_pos (kv_cells_v kv ! (si_strm si ! s)) ! i = - 1))"

lemma cells_restore:
  assumes wf: "kc_wf c" "kc_wf d" and len: "length (kc_pos d) = length (kc_pos c)" and hs: "kc_has_shift d = kc_has_shift c"
    and idxs: "\<forall>i \<in> set idxs. i < length (kc_pos c) \<and> kc_pos c ! i = - 1 \<and> kc_shift d ! i = 0"
    and same: "\<And>i. i < length (kc_pos c) \<Longrightarrow> i \<notin> set idxs \<Longrightarrow> kc_same c d i"
    and r: "kc_cp c idxs = Some r"
  shows "kc_set d idxs r = Some c"
proof -
  have sh: "\<forall>i \<in> set idxs. i < length (kc_pos c) \<and> kc_shift c ! i = 0"
    using idxs kc_wf_empty_shift [OF wf(1)] by blast
  have rr: "kc_pos r = map ((!) (kc_pos c)) idxs" "kc_seq r = map ((!) (kc_seq c)) idxs"
    using kc_cp_ok [OF sh] r by auto
  have ok: "\<forall>j < length idxs. cell_ok (kc_pos r ! j) (kc_seq r ! j)"
    using sh kc_wf_cell_ok [OF wf(1)] by (simp add: rr)
  obtain e where e: "kc_set d idxs r = Some e" "kc_wf e"
    "kc_pos e = fold (\<lambda>j ps. ps[idxs ! j := kc_pos r ! j]) [0..<length idxs] (kc_pos d)"
    "kc_seq e = fold (\<lambda>j qs. qs[idxs ! j := kc_seq r ! j]) [0..<length idxs] (kc_seq d)"
    "kc_shift e = kc_shift d" "kc_has_shift e = kc_has_shift d"
    by (rule kc_set_ok [OF wf(2), of idxs r]) (use idxs len ok in \<open>auto simp: rr\<close>)
  have cong: "fold (\<lambda>j ps. ps[idxs ! j := map ((!) xs) idxs ! j]) [0..<length idxs] l =
      fold (\<lambda>j ps. ps[idxs ! j := xs ! (idxs ! j)]) [0..<length idxs] l" for xs l :: "'x list"
    by (rule fold_cong) simp_all
  have "kc_pos e = kc_pos c"
    unfolding e(3) rr(1) cong
    by (rule fold_update_restore) (use len same in \<open>auto simp: kc_same_def\<close>)
  moreover have "kc_seq e = kc_seq c"
    unfolding e(4) rr(2) cong
    by (rule fold_update_restore) (use len same wf in \<open>auto simp: kc_same_def kc_wf_len_seq\<close>)
  moreover have "kc_shift e = kc_shift c"
  proof (rule nth_equalityI)
    show "length (kc_shift e) = length (kc_shift c)" using e(5) len wf by (simp add: kc_wf_len_shift)
    fix i
    assume "i < length (kc_shift e)"
    then have "i < length (kc_pos c)" using e(5) len wf by (simp add: kc_wf_len_shift)
    then show "kc_shift e ! i = kc_shift c ! i"
      using e(5) idxs sh same [of i] by (cases "i \<in> set idxs") (auto simp: kc_same_def)
  qed
  ultimately have "e = c" using kc_ext [OF e(2) wf(1)] e(6) hs by simp
  then show ?thesis using e(1) by simp
qed

lemma placed_cell:
  assumes P: "placed kv ub si (set (slot_pairs si)) (rm, kv1)" and s: "si_strm si ! s < kv_n_stream kv"
    and i: "i < length (kc_pos (kv_cells_v kv ! (si_strm si ! s)))"
    and out: "\<And>q. q < si_n_stream si \<Longrightarrow> si_strm si ! q = si_strm si ! s \<Longrightarrow> i \<notin> set (si_idxs si ! q)"
    and len: "\<And>q. q < si_n_stream si \<Longrightarrow> length (si_idxs si ! q) = si_n si"
  shows "kc_same (kv_cells_v kv ! (si_strm si ! s)) (kv_cells_v kv1 ! (si_strm si ! s)) i"
proof -
  let ?l = "(si_strm si ! s, i)"
  have "?l \<notin> slot_loc si ` set (slot_pairs si)"
    using out len by (force simp: slot_loc_def slot_pairs_iff)
  moreover have "loc_ok kv ?l" using s i by (simp add: loc_ok_def kc_size_def)
  ultimately have "cell_pos kv1 ?l = cell_pos kv ?l \<and> cell_seq kv1 ?l = cell_seq kv ?l \<and> cell_shift kv1 ?l = cell_shift kv ?l"
    using P unfolding placed_def snd_conv by blast
  then show ?thesis by (simp add: kc_same_def cell_pos_def cell_seq_def cell_shift_def)
qed

text \<open>The heads after the restoring loop: the head of the \<open>s\<close>-th stream of the slot is the old head \<open>s\<close>.\<close>

definition heads_back :: "nat list \<Rightarrow> nat list \<Rightarrow> nat list \<Rightarrow> nat list" where
  "heads_back old strm hs = fold (\<lambda>s h. h[strm ! s := old ! s]) [0..<length strm] hs"

lemma fold_update_other:
  "n \<le> length idxs \<Longrightarrow> i \<notin> set (take n idxs) \<Longrightarrow> fold (\<lambda>j l. l[idxs ! j := g j]) [0..<n] ys ! i = ys ! i"
proof (induction n)
  case (Suc n)
  then have "i \<noteq> idxs ! n" "i \<notin> set (take n idxs)" by (auto simp: take_Suc_conv_app_nth)
  then show ?case using Suc by simp
qed simp

lemma fold_update_at:
  assumes "distinct idxs"
  shows "n \<le> length idxs \<Longrightarrow> j < n \<Longrightarrow> idxs ! j < length ys \<Longrightarrow> fold (\<lambda>j l. l[idxs ! j := g j]) [0..<n] ys ! (idxs ! j) = g j"
proof (induction n)
  case (Suc n)
  have "idxs ! j \<noteq> idxs ! n" if "j \<noteq> n" using Suc.prems assms that by (simp add: nth_eq_iff_index_eq)
  then show ?case using Suc by (cases "j = n") auto
qed simp

lemma heads_back_length [simp]: "length (heads_back old strm hs) = length hs"
  by (simp add: heads_back_def)

lemma heads_back_at:
  "distinct strm \<Longrightarrow> s < length strm \<Longrightarrow> strm ! s < length hs \<Longrightarrow> heads_back old strm hs ! (strm ! s) = old ! s"
  unfolding heads_back_def by (rule fold_update_at) auto

lemma heads_back_other: "st \<notin> set strm \<Longrightarrow> heads_back old strm hs ! st = hs ! st"
  unfolding heads_back_def by (rule fold_update_other) auto

lemma heads_back_first:
  assumes "strm = [0..<n]" "n \<le> length old" "length hs = length old" "\<And>st. st \<notin> set strm \<Longrightarrow> hs ! st = old ! st"
  shows "heads_back old strm hs = old"
proof (rule nth_equalityI)
  fix st assume "st < length (heads_back old strm hs)"
  then have st: "st < length old" using assms(3) by simp
  show "heads_back old strm hs ! st = old ! st"
  proof (cases "st < n")
    case True
    then have "strm ! st = st" using assms(1) by simp
    then show ?thesis using heads_back_at [of strm st hs old] assms(1,3) st True by simp
  next
    case False
    then have "st \<notin> set strm" using assms(1) by simp
    then show ?thesis using assms(4) heads_back_other by simp
  qed
qed (use assms in simp)

lemma slot_streams_le:
  assumes "slot_clean kv si" "distinct (si_strm si)"
  shows "si_n_stream si \<le> kv_n_stream kv"
proof -
  have "set (si_strm si) \<subseteq> {..<kv_n_stream kv}" using assms(1) by (auto simp: slot_clean_def si_n_stream_def in_set_conv_nth)
  then have "card (set (si_strm si)) \<le> kv_n_stream kv" using card_mono [of "{..<kv_n_stream kv}"] by simp
  then show ?thesis using distinct_card [OF assms(2)] by (simp add: si_n_stream_def)
qed

lemma prep_restore_ok:
  assumes wf: "kv_wf kv" and pl: "place_ok kv ub si" and clean: "slot_clean kv si" and sv: "saved kv si ps"
    and strm: "distinct (si_strm si)"
    and P: "placed kv ub si (set (slot_pairs si)) (rm, kv\<lparr>kv_cells_v := cs\<rparr>)"
    and wf1: "kv_wf (kv\<lparr>kv_cells_v := cs, kv_heads := hs1\<rparr>)" and hs: "length hs = kv_n_stream kv"
  shows "prep_restore ps (kv\<lparr>kv_cells_v := cs, kv_heads := hs\<rparr>) =
    Some (kv\<lparr>kv_heads := heads_back (kv_heads kv) (si_strm si) hs\<rparr>)"
proof -
  let ?n = "si_n_stream si" and ?S = "si_strm si"
  let ?C = "kv_cells_v kv" and ?H = "kv_heads kv"
  have lens: "length ?C = kv_n_stream kv" "length ?H = kv_n_stream kv" "length cs = kv_n_stream kv" "length ?S = ?n"
    using kv_wf_len_cells [OF wf] kv_wf_len_heads [OF wf] kv_wf_len_cells [OF wf1] by (auto simp: si_n_stream_def)
  note ns = slot_streams_le [OF clean strm]
  have sn: "?S ! s < kv_n_stream kv" if "s < ?n" for s using clean that by (simp add: slot_clean_def)
  have idlen: "length (si_idxs si ! q) = si_n si" if "q < ?n" for q
    using pl that by (simp add: place_ok_def si_n_stream_def)
  have cell: "kc_set (cs ! (?S ! s)) (si_idxs si ! s) (ps_cells ps ! s) = Some (?C ! (?S ! s))" if s: "s < ?n" for s
  proof -
    let ?st = "?S ! s"
    have P2: "kc_size (cs ! ?st) = kc_size (?C ! ?st)" "kc_has_shift (cs ! ?st) = kc_has_shift (?C ! ?st)"
      using P sn [OF s] by (auto simp: placed_def)
    have sh: "kc_shift (cs ! ?st) ! i = 0" if "i \<in> set (si_idxs si ! s)" for i
    proof -
      obtain j where j: "j < si_n si" "i = si_idxs si ! s ! j" using \<open>i \<in> _\<close> idlen [OF s] by (auto simp: in_set_conv_nth)
      then have "(s, j) \<in> set (slot_pairs si)" "slot_loc si (s, j) = (?st, i)"
        using s by (simp_all add: slot_pairs_iff slot_loc_def)
      then have "cell_shift (kv\<lparr>kv_cells_v := cs\<rparr>) (?st, i) = 0" using P unfolding placed_def snd_conv by metis
      then show ?thesis by (simp add: cell_shift_def)
    qed
    show ?thesis
    proof (rule cells_restore)
      show "kc_wf (?C ! ?st)" by (rule kv_wf_cells [OF wf sn [OF s]])
      show "kc_wf (cs ! ?st)" using kv_wf_cells [OF wf1] sn [OF s] by simp
      show "length (kc_pos (cs ! ?st)) = length (kc_pos (?C ! ?st))" using P2 by (simp add: kc_size_def)
      show "kc_has_shift (cs ! ?st) = kc_has_shift (?C ! ?st)" by (rule P2(2))
      show "\<forall>i\<in>set (si_idxs si ! s). i < length (kc_pos (?C ! ?st)) \<and> kc_pos (?C ! ?st) ! i = - 1 \<and> kc_shift (cs ! ?st) ! i = 0"
        using clean s sh by (auto simp: slot_clean_def)
      show "kc_cp (?C ! ?st) (si_idxs si ! s) = Some (ps_cells ps ! s)"
        using sv s unfolding saved_def by metis
      fix i
      assume i: "i < length (kc_pos (?C ! ?st))" "i \<notin> set (si_idxs si ! s)"
      have out: "i \<notin> set (si_idxs si ! q)" if "q < ?n" "?S ! q = ?st" for q
        using that s strm lens(4) i(2) by (simp add: nth_eq_iff_index_eq)
      have "kc_same (?C ! ?st) (kv_cells_v (kv\<lparr>kv_cells_v := cs\<rparr>) ! ?st) i"
        by (rule placed_cell [OF P]) (use i out sn [OF s] idlen in auto)
      then show "kc_same (?C ! ?st) (cs ! ?st) i" by simp
    qed
  qed
  let ?cf = "\<lambda>k. fold (\<lambda>s l. l[?S ! s := ?C ! (?S ! s)]) [0..<k] cs"
  let ?hf = "\<lambda>k. fold (\<lambda>s h. h[?S ! s := ?H ! s]) [0..<k] hs"
  let ?P = "\<lambda>k t. t = kv\<lparr>kv_cells_v := ?cf k, kv_heads := ?hf k\<rparr>"
  have "\<exists>t. foldM (prep_restore_stream ps) [0..<?n] (kv\<lparr>kv_cells_v := cs, kv_heads := hs\<rparr>) = Some t \<and> ?P ?n t"
  proof (rule foldM_upt_rule [where P = ?P])
    show "?P 0 (kv\<lparr>kv_cells_v := cs, kv_heads := hs\<rparr>)" by simp
    fix s t
    assume s: "s < ?n" and t: "?P s t"
    have "?S ! s \<notin> set (take s ?S)"
      using s strm lens(4) by (auto simp: in_set_conv_nth nth_eq_iff_index_eq)
    then have at: "?cf s ! (?S ! s) = cs ! (?S ! s)" using s lens(4) by (intro fold_update_other) auto
    have "prep_restore_stream ps s t = Some (kv\<lparr>kv_cells_v := ?cf (Suc s), kv_heads := ?hf (Suc s)\<rparr>)"
      using s sn [OF s] ns at cell [OF s] sv clean lens hs
      by (simp add: prep_restore_stream_def t saved_def slot_clean_def vset_def)
    then show "\<exists>t'. prep_restore_stream ps s t = Some t' \<and> ?P (Suc s) t'" by blast
  qed
  moreover have "?cf ?n = ?C"
    unfolding si_n_stream_def
  proof (rule fold_update_restore)
    fix st
    assume "st < length ?C" and out: "st \<notin> set ?S"
    then have st: "st < kv_n_stream kv" using lens by simp
    have same: "kc_same (?C ! st) (cs ! st) i" if "i < length (kc_pos (?C ! st))" for i
    proof -
      have "(st, i) \<notin> slot_loc si ` set (slot_pairs si)"
        using out lens(4) by (auto simp: slot_loc_def slot_pairs_iff)
      moreover have "loc_ok kv (st, i)" using st that by (simp add: loc_ok_def kc_size_def)
      ultimately have "cell_pos (kv\<lparr>kv_cells_v := cs\<rparr>) (st, i) = cell_pos kv (st, i) \<and>
          cell_seq (kv\<lparr>kv_cells_v := cs\<rparr>) (st, i) = cell_seq kv (st, i) \<and>
          cell_shift (kv\<lparr>kv_cells_v := cs\<rparr>) (st, i) = cell_shift kv (st, i)"
        using P unfolding placed_def snd_conv by blast
      then show ?thesis by (simp add: kc_same_def cell_pos_def cell_seq_def cell_shift_def)
    qed
    have P2: "length (kc_pos (cs ! st)) = length (kc_pos (?C ! st))" "kc_has_shift (cs ! st) = kc_has_shift (?C ! st)"
      using P st by (auto simp: placed_def kc_size_def)
    have w: "kc_wf (cs ! st)" "kc_wf (?C ! st)" using kv_wf_cells [OF wf1] kv_wf_cells [OF wf] st by auto
    show "cs ! st = ?C ! st"
      by (rule kc_ext [OF w])
        (use same P2 w in \<open>auto intro!: nth_equalityI simp: kc_same_def kc_wf_len_seq kc_wf_len_shift\<close>)
  qed (use lens in simp)
  ultimately show ?thesis using sv lens(4) by (simp add: prep_restore_def saved_def heads_back_def)
qed

subsection \<open>The loop over the micro-batches\<close>

lemma ub_ok_cong:
  assumes "kv_seq_to_stream kv' = kv_seq_to_stream kv" "kv_n_stream kv' = kv_n_stream kv"
  shows "ub_ok kv' ub = ub_ok kv ub" "slot_strm kv' ub = slot_strm kv ub" "slot_n_seqs kv' ub = slot_n_seqs kv ub"
proof -
  have n: "slot_n_seqs kv' ub = slot_n_seqs kv ub" "slot_n_tokens kv' ub = slot_n_tokens kv ub"
    using assms(2) by (simp_all add: slot_n_seqs_def slot_n_tokens_def)
  have s: "slot_strm kv' ub = slot_strm kv ub" "kv_seq_ok kv' = kv_seq_ok kv"
    using assms n by (simp_all add: slot_strm_def kv_seq_ok_def fun_eq_iff)
  show "ub_ok kv' ub = ub_ok kv ub" "slot_strm kv' ub = slot_strm kv ub" "slot_n_seqs kv' ub = slot_n_seqs kv ub"
    using n s assms by (simp_all add: ub_ok_def slot_ub_ok_def tok_ok_def)
qed

text \<open>A micro-batch for \<open>prepare\<close>, whose positions leave room for the next one; and one that covers the first streams.\<close>

definition prep_ub :: "kv_cache \<Rightarrow> llama_ubatch \<Rightarrow> bool" where
  "prep_ub kv ub \<longleftrightarrow> ub_ok kv ub \<and> (\<forall>p \<in> set (ub_pos ub). p < INT32_MAX)"

definition first_streams :: "kv_cache \<Rightarrow> llama_ubatch \<Rightarrow> bool" where
  "first_streams kv ub \<longleftrightarrow> slot_strm kv ub = [0..<slot_n_seqs kv ub]"

definition apply_all :: "(slot_info \<times> llama_ubatch) list \<Rightarrow> kv_cache \<Rightarrow> kv_cache option" where
  "apply_all = foldM (\<lambda>(si, ub). kv_apply_ubatch si ub)"

lemma slot_good_clean:
  assumes wf: "kv_wf kv" and none: "kv_swa_type kv = SWA_TYPE_NONE" and ub: "ub_ok kv ub"
    and g: "slot_good kv cont (slot_n_tokens kv ub) (slot_strm kv ub) si"
  shows "slot_clean kv si" "\<And>p. p \<in> set (slot_pairs si) \<Longrightarrow> cell_pos kv (slot_loc si p) = - 1"
proof -
  have pos: "0 < slot_n_seqs kv ub" using ub by (auto simp: ub_ok_def slot_ub_ok_def)
  have lenS: "length (slot_strm kv ub) = slot_n_seqs kv ub" by (simp add: slot_strm_def)
  note si = slot_good_si_n [OF g]
  have ne: "slot_strm kv ub \<noteq> []" using lenS pos by auto
  have gd: "si_strm si = slot_strm kv ub" "length (si_idxs si) = length (slot_strm kv ub)"
    "\<And>s. s < length (slot_strm kv ub) \<Longrightarrow> slot_for kv cont (slot_n_tokens kv ub) (slot_strm kv ub ! s) (si_idxs si ! s)"
    using g by (auto simp: slot_good_def)
  show clean: "slot_clean kv si"
    unfolding slot_clean_def
  proof (intro conjI allI impI ballI)
    show "length (si_idxs si) = si_n_stream si" using gd by (simp add: si_n_stream_def)
    fix s
    assume s: "s < si_n_stream si"
    then have sl: "s < length (slot_strm kv ub)" using gd(1) by (simp add: si_n_stream_def)
    have sub: "slot_ub_ok kv ub" using ub by (simp add: ub_ok_def)
    then show "si_strm si ! s < kv_n_stream kv"
      using sl lenS kv_seq_ok_stream [OF wf] gd(1) by (auto simp: slot_strm_def slot_ub_ok_def)
    fix i
    assume "i \<in> set (si_idxs si ! s)"
    then show "i < length (kc_pos (kv_cells_v kv ! (si_strm si ! s)))" "kc_pos (kv_cells_v kv ! (si_strm si ! s)) ! i = - 1"
      using gd(3) [OF sl] gd(1) cell_usable_none [OF none] by (auto simp: slot_for_def kc_size_def)
  qed
  fix p
  assume p: "p \<in> set (slot_pairs si)"
  have "si_idxs si ! fst p ! snd p \<in> set (si_idxs si ! fst p)"
    using p gd(3) si [OF ne] by (auto simp: slot_pairs_iff slot_for_def)
  then show "cell_pos kv (slot_loc si p) = - 1"
    using clean p by (auto simp: slot_clean_def slot_pairs_iff cell_pos_def slot_loc_def)
qed

lemma placed_fits:
  assumes P: "placed kv ub si (set (slot_pairs si)) (rm, kv\<lparr>kv_cells_v := cs\<rparr>)" and pl: "place_ok kv ub si"
    and fits: "kv_fits kv" and ubp: "\<forall>p \<in> set (ub_pos ub). p < INT32_MAX"
  shows "kv_fits (kv\<lparr>kv_cells_v := cs, kv_heads := hs\<rparr>)"
  unfolding kv_fits_def kc_fits_def
proof (intro allI impI)
  let ?kv1 = "kv\<lparr>kv_cells_v := cs\<rparr>"
  fix st i
  assume "st < kv_n_stream (kv\<lparr>kv_cells_v := cs, kv_heads := hs\<rparr>)"
    and "i < kc_size (kv_cells_v (kv\<lparr>kv_cells_v := cs, kv_heads := hs\<rparr>) ! st)"
  then have st: "st < kv_n_stream kv" and i: "i < kc_size (kv_cells_v kv ! st)"
    using P by (simp_all add: placed_def)
  have "cell_pos ?kv1 (st, i) < INT32_MAX"
  proof (cases "(st, i) \<in> slot_loc si ` set (slot_pairs si)")
    case True
    then obtain p where p: "p \<in> set (slot_pairs si)" "(st, i) = slot_loc si p" by auto
    have "cell_pos ?kv1 (slot_loc si p) = ub_pos ub ! slot_tok si p"
      using P p(1) unfolding placed_def snd_conv by blast
    moreover have "slot_tok si p < length (ub_pos ub)" using place_okD(6) [OF pl p(1)] by (simp add: tok_ok_def)
    ultimately show ?thesis using ubp p(2) nth_mem by metis
  next
    case False
    have "loc_ok kv (st, i)" using st i by (simp add: loc_ok_def)
    then have "cell_pos ?kv1 (st, i) = cell_pos kv (st, i)"
      using P False unfolding placed_def snd_conv by blast
    then show ?thesis using fits st i by (simp add: cell_pos_def kv_fits_def kc_fits_def)
  qed
  then show "kc_pos (kv_cells_v (kv\<lparr>kv_cells_v := cs, kv_heads := hs\<rparr>) ! st) ! i < INT32_MAX"
    by (simp add: cell_pos_def)
qed

lemma slot_saved:
  assumes wf: "kv_wf kv" and clean: "slot_clean kv si"
  obtains cs where "mapM (\<lambda>s. do { st \<leftarrow> vget (si_strm si) s; c \<leftarrow> vget (kv_cells_v kv) st;
      idxs \<leftarrow> vget (si_idxs si) s; kc_cp c idxs }) [0..<si_n_stream si] = Some cs"
    and "saved kv si \<lparr>ps_sinfo = si, ps_heads_old = kv_heads kv, ps_cells = cs\<rparr>"
proof -
  let ?g = "\<lambda>s. the (kc_cp (kv_cells_v kv ! (si_strm si ! s)) (si_idxs si ! s))"
  have cp: "kc_cp (kv_cells_v kv ! (si_strm si ! s)) (si_idxs si ! s) = Some (?g s)" if s: "s < si_n_stream si" for s
  proof -
    have st: "si_strm si ! s < kv_n_stream kv" using clean s by (simp add: slot_clean_def)
    have "\<forall>i \<in> set (si_idxs si ! s). i < length (kc_pos (kv_cells_v kv ! (si_strm si ! s))) \<and>
        kc_shift (kv_cells_v kv ! (si_strm si ! s)) ! i = 0"
      using clean s kc_wf_empty_shift [OF kv_wf_cells [OF wf st]] by (auto simp: slot_clean_def)
    then show ?thesis using kc_cp_ok by (metis option.sel)
  qed
  show thesis
  proof (rule that)
    show "mapM (\<lambda>s. do { st \<leftarrow> vget (si_strm si) s; c \<leftarrow> vget (kv_cells_v kv) st;
      idxs \<leftarrow> vget (si_idxs si) s; kc_cp c idxs }) [0..<si_n_stream si] = Some (map ?g [0..<si_n_stream si])"
      by (rule mapM_ok) (use cp clean kv_wf_len_cells [OF wf] in \<open>auto simp: slot_clean_def si_n_stream_def\<close>)
    show "saved kv si \<lparr>ps_sinfo = si, ps_heads_old = kv_heads kv, ps_cells = map ?g [0..<si_n_stream si]\<rparr>"
      using cp by (simp add: saved_def)
  qed
qed

text \<open>
  What the placing loop has done from \<open>kv\<close> to \<open>kv'\<close>: the slots \<open>res\<close> placed the first
  micro-batches in order, nothing was overwritten, and the states \<open>sts\<close> restore \<open>kv\<close>, up to the heads
  whatever these are now, and with the heads when the slots cover the first streams.
\<close>

definition prep_done :: "kv_cache \<Rightarrow> llama_ubatch list \<Rightarrow> bool \<times> slot_info list \<times> prep_state list \<times> kv_cache \<Rightarrow> bool" where
  "prep_done kv ubs = (\<lambda>(ok, res, sts, kv').
     length res \<le> length ubs \<and> length sts = length res \<and> (ok \<longrightarrow> length res = length ubs) \<and>
     (\<forall>si \<in> set res. \<not> si_empty si) \<and> kv_wf kv' \<and> kv_n_stream kv' = kv_n_stream kv \<and> apply_all (zip res ubs) kv = Some kv' \<and>
     (\<forall>r. kv_seq_ok kv r \<longrightarrow> kv_positions kv' r = kv_positions kv r \<union> (\<Union>ub \<in> set (take (length res) ubs). ub_positions ub r)) \<and>
     (\<forall>hs. length hs = kv_n_stream kv \<longrightarrow> (\<exists>hs'. length hs' = kv_n_stream kv \<and>
        foldM prep_restore (rev sts) (kv'\<lparr>kv_heads := hs\<rparr>) = Some (kv\<lparr>kv_heads := hs'\<rparr>))) \<and>
     ((\<forall>ub \<in> set ubs. first_streams kv ub) \<longrightarrow> foldM prep_restore (rev sts) kv' = Some kv))"

lemma prep_done_back:
  "prep_done kv ubs (ok, res, sts, kv') \<Longrightarrow> length hs = kv_n_stream kv \<Longrightarrow>
    \<exists>hs'. length hs' = kv_n_stream kv \<and> foldM prep_restore (rev sts) (kv'\<lparr>kv_heads := hs\<rparr>) = Some (kv\<lparr>kv_heads := hs'\<rparr>)"
  unfolding prep_done_def prod.case by blast

lemma prep_doneI:
  assumes step: "kv_apply_ubatch si ub kv = Some kv1" "\<not> si_empty si"
    and undo: "\<And>hs. length hs = kv_n_stream kv \<Longrightarrow>
        \<exists>hs'. length hs' = kv_n_stream kv \<and> prep_restore st (kv1\<lparr>kv_heads := hs\<rparr>) = Some (kv\<lparr>kv_heads := hs'\<rparr>)"
      "first_streams kv ub \<Longrightarrow> prep_restore st kv1 = Some kv"
    and pos: "\<And>r. kv_seq_ok kv r \<Longrightarrow> kv_positions kv1 r = kv_positions kv r \<union> ub_positions ub r"
    and sh: "\<And>r. kv_seq_ok kv1 r = kv_seq_ok kv r" "kv_n_stream kv1 = kv_n_stream kv" "\<And>ub. first_streams kv1 ub = first_streams kv ub"
    and rest: "prep_done kv1 ubs (ok, res, sts, kv')"
  shows "prep_done kv (ub # ubs) (ok, si # res, st # sts, kv')"
proof -
  have "\<exists>hs'. length hs' = kv_n_stream kv \<and> foldM prep_restore (rev (st # sts)) (kv'\<lparr>kv_heads := hs\<rparr>) = Some (kv\<lparr>kv_heads := hs'\<rparr>)"
    if hl: "length hs = kv_n_stream kv" for hs
  proof -
    obtain h1 where h1: "length h1 = kv_n_stream kv" "foldM prep_restore (rev sts) (kv'\<lparr>kv_heads := hs\<rparr>) = Some (kv1\<lparr>kv_heads := h1\<rparr>)"
      using prep_done_back [OF rest, unfolded sh(2), OF hl] by blast
    then show ?thesis using undo(1) [OF h1(1)] by (auto simp: foldM_append)
  qed
  moreover have "foldM prep_restore (rev (st # sts)) kv' = Some kv" if "\<forall>u \<in> set (ub # ubs). first_streams kv u"
    using that rest undo(2) sh(3) by (simp add: prep_done_def foldM_append)
  moreover have "kv_positions kv' r = kv_positions kv r \<union> (\<Union>u \<in> set (take (length (si # res)) (ub # ubs)). ub_positions u r)"
    if "kv_seq_ok kv r" for r
    using rest pos [OF that] sh(1) [of r] that by (auto simp: prep_done_def)
  moreover have "apply_all (zip (si # res) (ub # ubs)) kv = Some kv'"
    using rest step(1) by (simp add: prep_done_def apply_all_def)
  ultimately show ?thesis using step(2) sh(2) rest unfolding prep_done_def prod.case by (intro conjI allI impI) simp_all
qed

lemma prep_place_ok:
  assumes wf: "kv_wf kv" and none: "kv_swa_type kv = SWA_TYPE_NONE" and fits: "kv_fits kv"
    and bound: "kv_n_stream kv \<le> LLAMA_MAX_SEQ" and ubs: "\<forall>ub \<in> set ubs. prep_ub kv ub"
  shows "\<exists>ok res' sts' kv'. prep_place ubs res sts kv = Some (ok, res @ res', sts @ sts', kv') \<and>
    prep_done kv ubs (ok, res', sts', kv')"
  using assms
proof (induction ubs arbitrary: kv res sts)
  case Nil
  have "prep_done kv [] (True, [], [], kv)" using Nil by (auto simp: prep_done_def apply_all_def)
  then show ?case by fastforce
next
  case (Cons ub ubs)
  note wf = Cons.prems(1) and none = Cons.prems(2) and fits = Cons.prems(3) and bound = Cons.prems(4)
  have cfg: "kv_cfg_ok kv" using none by (simp add: kv_cfg_ok_def)
  have ub: "prep_ub kv ub" "ub_ok kv ub" "slot_ub_ok kv ub" using Cons.prems(5) by (auto simp: prep_ub_def ub_ok_def)
  let ?cont = "if kv_supports_set_rows kv then False else True"
  obtain si where si: "kv_find_slot kv ub ?cont = Some si"
    "slot_good kv ?cont (slot_n_tokens kv ub) (slot_strm kv ub) si \<or> si = si_empty_slot"
    using kv_find_slot_ok [OF wf cfg fits ub(3) bound] by blast
  show ?case
  proof (cases "si_empty si")
    case True
    have "prep_done kv (ub # ubs) (False, [], [], kv)" using wf by (auto simp: prep_done_def apply_all_def)
    moreover have "prep_place (ub # ubs) res sts kv = Some (False, res @ [], sts @ [], kv)"
      using si(1) True by simp
    ultimately show ?thesis by blast
  next
    case False
    then have g: "slot_good kv ?cont (slot_n_tokens kv ub) (slot_strm kv ub) si"
      using si(2) by (auto simp: si_empty_def si_empty_slot_def)
    note pl = slot_good_place [OF wf ub(2) g] and clean = slot_good_clean [OF wf none ub(2) g]
    obtain rm cs hs where ap: "kv_apply_ubatch si ub kv = Some (kv\<lparr>kv_cells_v := cs, kv_heads := hs\<rparr>)"
      and P: "placed kv ub si (set (slot_pairs si)) (rm, kv\<lparr>kv_cells_v := cs\<rparr>)"
      and wf1: "kv_wf (kv\<lparr>kv_cells_v := cs, kv_heads := hs\<rparr>)"
      and hs: "\<And>st. st \<notin> set (si_strm si) \<Longrightarrow> hs ! st = kv_heads kv ! st"
      by (rule kv_apply_plain [OF wf pl clean(2)]) blast+
    define kv1 where "kv1 = kv\<lparr>kv_cells_v := cs, kv_heads := hs\<rparr>"
    obtain scs where sv: "mapM (\<lambda>s. do { st \<leftarrow> vget (si_strm si) s; c \<leftarrow> vget (kv_cells_v kv) st;
        idxs \<leftarrow> vget (si_idxs si) s; kc_cp c idxs }) [0..<si_n_stream si] = Some scs"
      "saved kv si \<lparr>ps_sinfo = si, ps_heads_old = kv_heads kv, ps_cells = scs\<rparr>"
      by (rule slot_saved [OF wf clean(1)])
    let ?st = "\<lparr>ps_sinfo = si, ps_heads_old = kv_heads kv, ps_cells = scs\<rparr>"
    have strm: "si_strm si = slot_strm kv ub" "distinct (si_strm si)" "length (slot_strm kv ub) = slot_n_seqs kv ub"
      using g ub(2) by (auto simp: slot_good_def ub_ok_def slot_strm_def)
    have hl: "length hs = kv_n_stream kv" "length (kv_heads kv) = kv_n_stream kv"
      using kv_wf_len_heads [OF wf1] kv_wf_len_heads [OF wf] by simp_all
    have put_back: "prep_restore ?st (kv1\<lparr>kv_heads := h\<rparr>) = Some (kv\<lparr>kv_heads := heads_back (kv_heads kv) (si_strm si) h\<rparr>)"
      if "length h = kv_n_stream kv" for h
      using prep_restore_ok [OF wf pl clean(1) sv(2) strm(2) P wf1 that] by (simp add: kv1_def)
    have undo: "prep_restore ?st kv1 = Some kv" if "first_streams kv ub"
    proof -
      have "slot_n_seqs kv ub \<le> length (kv_heads kv)"
        using slot_streams_le [OF clean(1) strm(2)] strm(1,3) hl(2) by (simp add: si_n_stream_def)
      then have "heads_back (kv_heads kv) (si_strm si) hs = kv_heads kv"
        using that hs hl by (intro heads_back_first [of _ "slot_n_seqs kv ub"]) (auto simp: strm(1) first_streams_def)
      then show ?thesis using put_back [OF hl(1)] by (simp add: kv1_def)
    qed
    have same: "kv_seq_to_stream kv1 = kv_seq_to_stream kv" "kv_n_stream kv1 = kv_n_stream kv"
      "kv_swa_type kv1 = kv_swa_type kv" "kv_seq_ok kv1 r = kv_seq_ok kv r" for r
      by (simp_all add: kv1_def kv_seq_ok_def)
    have first: "first_streams kv1 u = first_streams kv u" for u
      using ub_ok_cong [OF same(1,2)] by (simp add: first_streams_def)
    have pos: "kv_positions kv1 r = kv_positions kv r \<union> ub_positions ub r" if r: "kv_seq_ok kv r" for r
    proof -
      have "kv_positions (kv\<lparr>kv_cells_v := cs, kv_heads := hs\<rparr>) r = {p \<in> kv_positions kv r \<union> ub_positions ub r. over_max kv si r < p}"
        by (rule kv_apply_ubatch_ok [OF wf pl fits]) (use ap r in auto)
      moreover have "- 1 < p" if "p \<in> kv_positions kv r \<union> ub_positions ub r" for p
        using that kv_positions_nonneg [OF wf r] ub_positions_nonneg [OF pl] by fastforce
      ultimately show ?thesis using over_max_empty [OF clean(2)] by (auto simp: kv1_def)
    qed
    have IH: "\<exists>ok res' sts' kv'. prep_place ubs (res @ [si]) (sts @ [?st]) kv1 =
        Some (ok, (res @ [si]) @ res', (sts @ [?st]) @ sts', kv') \<and> prep_done kv1 ubs (ok, res', sts', kv')"
    proof (rule Cons.IH)
      show "kv_wf kv1" using wf1 by (simp add: kv1_def)
      show "kv_fits kv1" unfolding kv1_def
        by (rule placed_fits [OF P pl fits]) (use ub(1) in \<open>simp add: prep_ub_def\<close>)
      show "\<forall>ub\<in>set ubs. prep_ub kv1 ub"
        using Cons.prems(5) ub_ok_cong [OF same(1,2)] by (simp add: prep_ub_def)
    qed (use none bound same in simp_all)
    then obtain ok res' sts' kv' where done_: "prep_place ubs (res @ [si]) (sts @ [?st]) kv1 =
        Some (ok, (res @ [si]) @ res', (sts @ [?st]) @ sts', kv')" "prep_done kv1 ubs (ok, res', sts', kv')" by blast
    have "prep_place (ub # ubs) res sts kv = Some (ok, res @ si # res', sts @ ?st # sts', kv')"
      using si(1) False sv(1) ap done_(1) by (simp add: kv1_def)
    moreover have "prep_done kv (ub # ubs) (ok, si # res', ?st # sts', kv')"
    proof (rule prep_doneI [OF _ False _ undo pos same(4,2) first done_(2)])
      show "kv_apply_ubatch si ub kv = Some kv1" using ap by (simp add: kv1_def)
      show "\<exists>hs'. length hs' = kv_n_stream kv \<and> prep_restore ?st (kv1\<lparr>kv_heads := h\<rparr>) = Some (kv\<lparr>kv_heads := hs'\<rparr>)"
        if "length h = kv_n_stream kv" for h
        using put_back [OF that] that heads_back_length by metis
    qed
    ultimately show ?thesis by blast
  qed
qed

lemma kv_prepare_ok:
  assumes "kv_wf kv" "kv_swa_type kv = SWA_TYPE_NONE" "kv_fits kv" "kv_n_stream kv \<le> LLAMA_MAX_SEQ"
    and "\<forall>ub \<in> set ubs. prep_ub kv ub" and ne: "ubs \<noteq> []"
  obtains res hs where "kv_prepare ubs kv = Some (res, kv\<lparr>kv_heads := hs\<rparr>)" and "length hs = kv_n_stream kv"
    and "(\<forall>ub \<in> set ubs. first_streams kv ub) \<longrightarrow> hs = kv_heads kv"
    and "res = [] \<or> length res = length ubs \<and> (\<exists>kv'. apply_all (zip res ubs) kv = Some kv' \<and> kv_wf kv' \<and>
      (\<forall>r. kv_seq_ok kv r \<longrightarrow> kv_positions kv' r = kv_positions kv r \<union> (\<Union>ub \<in> set ubs. ub_positions ub r)))"
proof -
  obtain ok res sts kv' where p: "prep_place ubs [] [] kv = Some (ok, res, sts, kv')" "prep_done kv ubs (ok, res, sts, kv')"
    using prep_place_ok [OF assms(1-5), of "[]" "[]"] by auto
  have start: "sts \<noteq> [] \<or> \<not> ok" using p(2) ne by (auto simp: prep_done_def)
  have "\<exists>hs. foldM prep_restore (rev sts) kv' = Some (kv\<lparr>kv_heads := hs\<rparr>) \<and> length hs = kv_n_stream kv \<and>
      ((\<forall>ub \<in> set ubs. first_streams kv ub) \<longrightarrow> hs = kv_heads kv)"
  proof (cases "\<forall>ub \<in> set ubs. first_streams kv ub")
    case True
    then show ?thesis using p(2) kv_wf_len_heads [OF assms(1)] by (intro exI [of _ "kv_heads kv"]) (simp add: prep_done_def)
  next
    case False
    have "length (kv_heads kv') = kv_n_stream kv" using p(2) kv_wf_len_heads [of kv'] by (simp add: prep_done_def)
    moreover have "kv' = kv'\<lparr>kv_heads := kv_heads kv'\<rparr>" by simp
    ultimately have "\<exists>hs. length hs = kv_n_stream kv \<and> foldM prep_restore (rev sts) kv' = Some (kv\<lparr>kv_heads := hs\<rparr>)"
      using prep_done_back [OF p(2)] by metis
    then show ?thesis using False by blast
  qed
  then obtain hs where hs: "foldM prep_restore (rev sts) kv' = Some (kv\<lparr>kv_heads := hs\<rparr>)" "length hs = kv_n_stream kv"
    "(\<forall>ub \<in> set ubs. first_streams kv ub) \<longrightarrow> hs = kv_heads kv" by blast
  have "kv_prepare ubs kv = Some (if ok then res else [], kv\<lparr>kv_heads := hs\<rparr>)"
    using p(1) start hs(1) by (simp add: kv_prepare_def)
  then show thesis by (rule that [OF _ hs(2,3)]) (use p(2) in \<open>auto simp: prep_done_def\<close>)
qed

text \<open>One micro-batch, in any streams.\<close>

lemma kv_prepare_one:
  assumes wf: "kv_wf kv" and none: "kv_swa_type kv = SWA_TYPE_NONE" and fits: "kv_fits kv"
    and bound: "kv_n_stream kv \<le> LLAMA_MAX_SEQ" and ub: "prep_ub kv ub" and slot: "kv_prepare [ub] kv = Some (res, kv')" "res \<noteq> []"
  obtains hs where "kv' = kv\<lparr>kv_heads := hs\<rparr>" and "length hs = kv_n_stream kv"
    and "\<forall>s < slot_n_seqs kv ub. hs ! (slot_strm kv ub ! s) = kv_heads kv ! s"
    and "\<forall>st < kv_n_stream kv. st \<notin> set (slot_strm kv ub) \<longrightarrow> hs ! st = kv_heads kv ! st"
proof -
  have cfg: "kv_cfg_ok kv" using none by (simp add: kv_cfg_ok_def)
  have ubs: "ub_ok kv ub" "slot_ub_ok kv ub" using ub by (auto simp: prep_ub_def ub_ok_def)
  let ?cont = "if kv_supports_set_rows kv then False else True"
  obtain si where si: "kv_find_slot kv ub ?cont = Some si"
    "slot_good kv ?cont (slot_n_tokens kv ub) (slot_strm kv ub) si \<or> si = si_empty_slot"
    using kv_find_slot_ok [OF wf cfg fits ubs(2) bound] by blast
  have ne: "\<not> si_empty si"
  proof
    assume "si_empty si"
    then show False using slot si(1) by (simp add: kv_prepare_def)
  qed
  then have g: "slot_good kv ?cont (slot_n_tokens kv ub) (slot_strm kv ub) si"
    using si(2) by (auto simp: si_empty_def si_empty_slot_def)
  note pl = slot_good_place [OF wf ubs(1) g] and clean = slot_good_clean [OF wf none ubs(1) g]
  obtain rm cs hs where ap: "kv_apply_ubatch si ub kv = Some (kv\<lparr>kv_cells_v := cs, kv_heads := hs\<rparr>)"
    and P: "placed kv ub si (set (slot_pairs si)) (rm, kv\<lparr>kv_cells_v := cs\<rparr>)"
    and wf1: "kv_wf (kv\<lparr>kv_cells_v := cs, kv_heads := hs\<rparr>)"
    and hs: "\<And>st. st \<notin> set (si_strm si) \<Longrightarrow> hs ! st = kv_heads kv ! st"
    by (rule kv_apply_plain [OF wf pl clean(2)]) blast+
  obtain scs where sv: "mapM (\<lambda>s. do { st \<leftarrow> vget (si_strm si) s; c \<leftarrow> vget (kv_cells_v kv) st;
      idxs \<leftarrow> vget (si_idxs si) s; kc_cp c idxs }) [0..<si_n_stream si] = Some scs"
    "saved kv si \<lparr>ps_sinfo = si, ps_heads_old = kv_heads kv, ps_cells = scs\<rparr>"
    by (rule slot_saved [OF wf clean(1)])
  have strm: "si_strm si = slot_strm kv ub" "distinct (si_strm si)" "length (slot_strm kv ub) = slot_n_seqs kv ub"
    using g ubs(1) by (auto simp: slot_good_def ub_ok_def slot_strm_def)
  have hl: "length hs = kv_n_stream kv" using kv_wf_len_heads [OF wf1] by simp
  have run: "prep_restore \<lparr>ps_sinfo = si, ps_heads_old = kv_heads kv, ps_cells = scs\<rparr> (kv\<lparr>kv_cells_v := cs, kv_heads := hs\<rparr>) =
      Some (kv\<lparr>kv_heads := heads_back (kv_heads kv) (si_strm si) hs\<rparr>)"
    by (rule prep_restore_ok [OF wf pl clean(1) sv(2) strm(2) P wf1 hl])
  show thesis
  proof (rule that)
    show "kv' = kv\<lparr>kv_heads := heads_back (kv_heads kv) (si_strm si) hs\<rparr>"
      using slot si(1) ne sv(1) ap run by (simp add: kv_prepare_def)
    show "length (heads_back (kv_heads kv) (si_strm si) hs) = kv_n_stream kv" using hl by simp
    have "slot_strm kv ub ! s < kv_n_stream kv" if "s < slot_n_seqs kv ub" for s
      using clean(1) strm that by (auto simp: slot_clean_def si_n_stream_def)
    then show "\<forall>s < slot_n_seqs kv ub. heads_back (kv_heads kv) (si_strm si) hs ! (slot_strm kv ub ! s) = kv_heads kv ! s"
      using heads_back_at [OF strm(2)] strm(1,3) hl by simp
    show "\<forall>st < kv_n_stream kv. st \<notin> set (slot_strm kv ub) \<longrightarrow> heads_back (kv_heads kv) (si_strm si) hs ! st = kv_heads kv ! st"
      using heads_back_other hs strm(1) by metis
  qed
qed

end
