(* ===== verification/KvDemo.thy ===== *)
theory KvDemo
  imports KvPrepare
begin

text \<open>
  Small concrete caches, obtained by running the model's own operations from the constructor.
  The witnesses of the properties instantiate them here.
\<close>

text \<open>A micro-batch with the positions \<open>ps\<close> of one sequence.\<close>

definition demo_ub :: "llama_seq_id \<Rightarrow> llama_pos list \<Rightarrow> llama_ubatch" where
  "demo_ub s ps = \<lparr>ub_equal_seqs = True, ub_n_tokens = length ps, ub_n_seq_tokens = length ps, ub_n_seqs = 1,
     ub_n_seqs_unq = 1, ub_token = Some (map (\<lambda>_. 7) ps), ub_embd = None, ub_pos = ps,
     ub_n_seq_id = map (\<lambda>_. 1) ps, ub_seq_id = map (\<lambda>_. [s]) ps, ub_seq_id_unq = [s],
     ub_seq_idx = (replicate LLAMA_MAX_SEQ (- 1))[nat s := 0], ub_output = map (\<lambda>_. 0) ps\<rparr>"

text \<open>A unified cache of four cells, empty and with two tokens of sequence 0.\<close>

definition demo_empty :: kv_cache where
  "demo_empty = the (kv_init False True True 4 2 1 0 SWA_TYPE_NONE)"

definition demo_slot :: slot_info where
  "demo_slot = \<lparr>si_s0 = 0, si_s1 = 0, si_strm = [0], si_idxs = [[0, 1]]\<rparr>"

definition demo_kv :: kv_cache where
  "demo_kv = the (kv_apply_ubatch demo_slot (demo_ub 0 [0, 1]) demo_empty)"

text \<open>Two streams, two tokens of sequence 0 in the first.\<close>

definition demo_empty_streams :: kv_cache where
  "demo_empty_streams = the (kv_init False True False 4 2 1 0 SWA_TYPE_NONE)"

definition demo_streams :: kv_cache where
  "demo_streams = the (kv_apply_ubatch demo_slot (demo_ub 0 [0, 1]) demo_empty_streams)"

lemma demo_empty_wf: "kv_wf demo_empty" "kv_wf demo_empty_streams"
proof -
  have "kv_init False True True 4 2 1 0 SWA_TYPE_NONE = Some demo_empty"
    "kv_init False True False 4 2 1 0 SWA_TYPE_NONE = Some demo_empty_streams"
    by code_simp+
  then show "kv_wf demo_empty" "kv_wf demo_empty_streams" by (auto intro: kv_init_wf)
qed

lemma demo_kv_apply:
  "kv_apply_ubatch demo_slot (demo_ub 0 [0, 1]) demo_empty = Some demo_kv"
  "kv_apply_ubatch demo_slot (demo_ub 0 [0, 1]) demo_empty_streams = Some demo_streams"
  by code_simp+

lemma demo_kv_wf: "kv_wf demo_kv"
proof -
  have "place_ok demo_empty (demo_ub 0 [0, 1]) demo_slot" "kv_fits demo_empty" by code_simp+
  then show ?thesis using kv_apply_ubatch_ok [OF demo_empty_wf(1)] demo_kv_apply(1) by (metis option.inject)
qed

lemma demo_streams_wf: "kv_wf demo_streams"
proof -
  have "place_ok demo_empty_streams (demo_ub 0 [0, 1]) demo_slot" "kv_fits demo_empty_streams" by code_simp+
  then show ?thesis using kv_apply_ubatch_ok [OF demo_empty_wf(2)] demo_kv_apply(2) by (metis option.inject)
qed

lemma demo_facts:
  "kv_seq_ok demo_kv 0" "kv_seq_ok demo_kv 1" "kv_positions demo_kv 0 = {0, 1}" "kv_positions demo_kv 1 = {}"
  "kv_seq_ok demo_streams 0" "kv_seq_ok demo_streams 1" "kv_positions demo_streams 0 = {0, 1}"
  by code_simp+

end
