(* ===== verification/KvProps.thy ===== *)
theory KvProps
  imports KvDemo
begin

text \<open>The properties of the unified cache, each with a witness on a concrete cache.\<close>

subsection \<open>Slots and placement\<close>

text \<open>C1: \<open>find_slot\<close> always returns, and returns a slot exactly when every stream of the
  micro-batch has room.  A slot gives every stream \<open>n\<close> distinct usable cells; a continuous slot
  gives it a window of consecutive ones.\<close>

theorem find_slot_correct:
  assumes "kv_wf kv" "kv_cfg_ok kv" "kv_fits kv" "slot_ub_ok kv ub" "kv_n_stream kv \<le> LLAMA_MAX_SEQ"
  shows "\<exists>si. kv_find_slot kv ub cont = Some si \<and>
    (\<not> si_empty si \<longleftrightarrow> (\<forall>st \<in> set (slot_strm kv ub). slot_fits kv cont (slot_n_tokens kv ub) st)) \<and>
    (\<not> si_empty si \<longrightarrow> slot_good kv cont (slot_n_tokens kv ub) (slot_strm kv ub) si)"
proof -
  obtain si where si: "kv_find_slot kv ub cont = Some si"
    "slot_good kv cont (slot_n_tokens kv ub) (slot_strm kv ub) si \<and>
       (\<forall>st \<in> set (slot_strm kv ub). slot_fits kv cont (slot_n_tokens kv ub) st) \<or>
     si = si_empty_slot \<and> (\<exists>st \<in> set (slot_strm kv ub). \<not> slot_fits kv cont (slot_n_tokens kv ub) st)"
    using kv_find_slot_ok [OF assms] by blast
  have "slot_strm kv ub \<noteq> []" using assms(4) by (auto simp: slot_ub_ok_def slot_strm_def)
  then have "slot_good kv cont (slot_n_tokens kv ub) (slot_strm kv ub) si \<Longrightarrow> \<not> si_empty si"
    by (auto simp: slot_good_def si_empty_def)
  moreover have "si_empty si_empty_slot" by (simp add: si_empty_def si_empty_slot_def)
  ultimately show ?thesis using si by blast
qed

theorem find_slot_correct_witness:
  "\<exists>si. kv_find_slot demo_kv (demo_ub 1 [0, 1]) True = Some si \<and>
    (\<not> si_empty si \<longleftrightarrow> (\<forall>st \<in> set (slot_strm demo_kv (demo_ub 1 [0, 1])).
       slot_fits demo_kv True (slot_n_tokens demo_kv (demo_ub 1 [0, 1])) st)) \<and>
    (\<not> si_empty si \<longrightarrow> slot_good demo_kv True (slot_n_tokens demo_kv (demo_ub 1 [0, 1])) (slot_strm demo_kv (demo_ub 1 [0, 1])) si)"
  by (rule find_slot_correct [OF demo_kv_wf]) code_simp+

text \<open>C2: placing a micro-batch in the slot \<open>find_slot\<close> chose always succeeds and keeps the
  invariant of the cache.  A sequence then has all its new positions and the old ones above some
  bound, and a sequence whose positions were contiguous has contiguous positions.\<close>

theorem apply_slot_contiguous:
  assumes "kv_wf kv" "kv_cfg_ok kv" "kv_fits kv" "kv_n_stream kv \<le> LLAMA_MAX_SEQ" "ub_ok kv ub" "ub_after kv ub"
    and "kv_find_slot kv ub cont = Some si" "\<not> si_empty si"
  shows "\<exists>kv'. kv_apply_ubatch si ub kv = Some kv' \<and> kv_wf kv' \<and>
    (\<forall>r. kv_seq_ok kv r \<longrightarrow>
      (\<exists>m. kv_positions kv' r = {p \<in> kv_positions kv r. m < p} \<union> ub_positions ub r) \<and>
      (contiguous (kv_positions kv r \<union> ub_positions ub r) \<longrightarrow> contiguous (kv_positions kv' r)))"
proof -
  have sub: "slot_ub_ok kv ub" using assms(5) by (simp add: ub_ok_def)
  have "slot_good kv cont (slot_n_tokens kv ub) (slot_strm kv ub) si"
    using kv_find_slot_ok [OF assms(1-3) sub assms(4), of cont] assms(7,8)
    by (auto simp: si_empty_def si_empty_slot_def)
  then have pl: "place_ok kv ub si" by (rule slot_good_place [OF assms(1,5)])
  obtain kv' where kv': "kv_apply_ubatch si ub kv = Some kv'" "kv_wf kv'"
    "\<And>r. kv_seq_ok kv r \<Longrightarrow> kv_positions kv' r = {p \<in> kv_positions kv r \<union> ub_positions ub r. over_max kv si r < p}"
    by (rule kv_apply_ubatch_ok [OF assms(1) pl assms(3)]) blast
  moreover have "contiguous (kv_positions kv r \<union> ub_positions ub r) \<longrightarrow> contiguous (kv_positions kv' r)"
    if "kv_seq_ok kv r" for r
    unfolding kv'(3) [OF that] by (intro impI contiguous_above)
  moreover have "kv_positions kv' r = {p \<in> kv_positions kv r. over_max kv si r < p} \<union> ub_positions ub r"
    if "kv_seq_ok kv r" for r
    using kv'(3) [OF that] kept_positions [OF assms(1) pl assms(6) that] by (rule trans)
  ultimately show ?thesis using kv'(1,2) by blast
qed

theorem apply_slot_contiguous_witness:
  "\<exists>kv'. kv_apply_ubatch \<lparr>si_s0 = 0, si_s1 = 0, si_strm = [0], si_idxs = [[2]]\<rparr> (demo_ub 0 [2]) demo_kv = Some kv' \<and> kv_wf kv' \<and>
    (\<forall>r. kv_seq_ok demo_kv r \<longrightarrow>
      (\<exists>m. kv_positions kv' r = {p \<in> kv_positions demo_kv r. m < p} \<union> ub_positions (demo_ub 0 [2]) r) \<and>
      (contiguous (kv_positions demo_kv r \<union> ub_positions (demo_ub 0 [2]) r) \<longrightarrow> contiguous (kv_positions kv' r)))"
  by (rule apply_slot_contiguous [OF demo_kv_wf, where cont = True]) code_simp+

text \<open>C3: without an attention window \<open>prepare\<close> puts every cell back, whatever streams the micro-batches use, and the
  heads too when each micro-batch covers the streams \<open>0, 1, \<dots>\<close> in order (as with one stream); and when it
  returns slots they are one for each micro-batch, and placing the micro-batches there in order
  succeeds and adds exactly their positions.\<close>

theorem prepare_pure:
  assumes "kv_wf kv" "kv_swa_type kv = SWA_TYPE_NONE" "kv_fits kv" "kv_n_stream kv \<le> LLAMA_MAX_SEQ"
    and "\<forall>ub \<in> set ubs. prep_ub kv ub" and "ubs \<noteq> []"
  shows "\<exists>res hs. kv_prepare ubs kv = Some (res, kv\<lparr>kv_heads := hs\<rparr>) \<and> length hs = kv_n_stream kv \<and>
    ((\<forall>ub \<in> set ubs. first_streams kv ub) \<longrightarrow> hs = kv_heads kv) \<and>
    (res = [] \<or> length res = length ubs \<and> (\<exists>kv'. apply_all (zip res ubs) kv = Some kv' \<and> kv_wf kv' \<and>
      (\<forall>r. kv_seq_ok kv r \<longrightarrow> kv_positions kv' r = kv_positions kv r \<union> (\<Union>ub \<in> set ubs. ub_positions ub r))))"
  using kv_prepare_ok [OF assms] by metis

theorem prepare_pure_witness:
  "\<exists>res. kv_prepare [demo_ub 0 [2], demo_ub 1 [0]] demo_kv = Some (res, demo_kv) \<and>
    (res = [] \<or> length res = length [demo_ub 0 [2], demo_ub 1 [0]] \<and>
      (\<exists>kv'. apply_all (zip res [demo_ub 0 [2], demo_ub 1 [0]]) demo_kv = Some kv' \<and> kv_wf kv' \<and>
        (\<forall>r. kv_seq_ok demo_kv r \<longrightarrow> kv_positions kv' r = kv_positions demo_kv r \<union>
          (\<Union>ub \<in> set [demo_ub 0 [2], demo_ub 1 [0]]. ub_positions ub r))))"
proof -
  let ?ubs = "[demo_ub 0 [2], demo_ub 1 [0]]"
  have hyps: "kv_swa_type demo_kv = SWA_TYPE_NONE" "kv_fits demo_kv" "kv_n_stream demo_kv \<le> LLAMA_MAX_SEQ"
    "\<forall>ub \<in> set ?ubs. prep_ub demo_kv ub" "?ubs \<noteq> []" "\<forall>ub \<in> set ?ubs. first_streams demo_kv ub"
    by code_simp+
  obtain res hs where out: "kv_prepare ?ubs demo_kv = Some (res, demo_kv\<lparr>kv_heads := hs\<rparr>)" "hs = kv_heads demo_kv"
    "res = [] \<or> length res = length ?ubs \<and> (\<exists>kv'. apply_all (zip res ?ubs) demo_kv = Some kv' \<and> kv_wf kv' \<and>
      (\<forall>r. kv_seq_ok demo_kv r \<longrightarrow> kv_positions kv' r = kv_positions demo_kv r \<union> (\<Union>ub \<in> set ?ubs. ub_positions ub r)))"
    using prepare_pure [OF demo_kv_wf hyps(1-5)] hyps(6) by blast
  show ?thesis by (rule exI [of _ res], rule conjI) (use out in simp, rule out(3))
qed

text \<open>C4: \<open>prepare\<close> looks the saved heads up by the place of a stream in the slot, not by the stream.  After it has found a
  slot for one micro-batch, the \<open>s\<close>-th stream of the slot has the head that stream \<open>s\<close> had before, in every
  cache without an attention window; only the streams outside the slot, and the cells, are as they were.\<close>

theorem prepare_moves_head:
  assumes "kv_wf kv" "kv_swa_type kv = SWA_TYPE_NONE" "kv_fits kv" "kv_n_stream kv \<le> LLAMA_MAX_SEQ"
    and "prep_ub kv ub" "kv_prepare [ub] kv = Some (res, kv')" "res \<noteq> []"
  shows "kv' = kv\<lparr>kv_heads := kv_heads kv'\<rparr> \<and>
    (\<forall>s < slot_n_seqs kv ub. kv_heads kv' ! (slot_strm kv ub ! s) = kv_heads kv ! s) \<and>
    (\<forall>st < kv_n_stream kv. st \<notin> set (slot_strm kv ub) \<longrightarrow> kv_heads kv' ! st = kv_heads kv ! st)"
  by (rule kv_prepare_one [OF assms]) simp

text \<open>The head of stream 1 was 0 before the call and is 2 after it.\<close>

theorem prepare_moves_head_witness:
  "\<exists>res kv'. kv_prepare [demo_ub 1 [0]] demo_streams = Some (res, kv') \<and> res \<noteq> [] \<and>
    kv_heads demo_streams ! 1 = 0 \<and> kv_heads kv' ! 1 = 2"
proof -
  have hyps: "kv_swa_type demo_streams = SWA_TYPE_NONE" "kv_fits demo_streams" "kv_n_stream demo_streams \<le> LLAMA_MAX_SEQ"
    "prep_ub demo_streams (demo_ub 1 [0])" by code_simp+
  have facts: "slot_strm demo_streams (demo_ub 1 [0]) = [1]" "slot_n_seqs demo_streams (demo_ub 1 [0]) = 1"
    "kv_heads demo_streams = [2, 0]" by code_simp+
  have "map_option (\<lambda>(res, kv'). res \<noteq> []) (kv_prepare [demo_ub 1 [0]] demo_streams) = Some True" by code_simp
  then obtain res kv' where run: "kv_prepare [demo_ub 1 [0]] demo_streams = Some (res, kv')" "res \<noteq> []" by auto
  from prepare_moves_head [OF demo_streams_wf hyps run] show ?thesis using run facts by auto
qed

text \<open>With an attention window \<open>prepare\<close> does not put every cell back: placing a token on a masked cell purges the older
  positions of that sequence, and a cell outside the slot that loses the sequence this way is not among the saved ones.\<close>

definition demo_window :: "kv_cache option" where
  "demo_window = do {
     kv \<leftarrow> kv_init False True True 2 2 1 1 SWA_TYPE_STANDARD;
     kv \<leftarrow> kv_apply_ubatch demo_slot (demo_ub 0 [0, 1]) kv;
     kv_seq_cp kv 0 1 0 1 }"

theorem prepare_window_forgets:
  "map_option (\<lambda>kv. (kv_seq_pos_min kv 0, map_option (\<lambda>(res, kv'). (res \<noteq> [], kv_seq_pos_min kv' 0)) (kv_prepare [demo_ub 0 [2]] kv)))
     demo_window = Some (Some 0, Some (True, Some 1))"
  by code_simp

subsection \<open>Operations on sequences\<close>

text \<open>C5: \<open>seq_rm\<close> succeeds for every sequence of the cache, keeps the invariant, removes exactly
  the positions of the sequence in \<open>[p0, p1)\<close> (a negative bound is open) and leaves the other
  sequences alone.\<close>

theorem seq_rm_correct:
  assumes "kv_wf kv" "kv_seq_ok kv s"
  shows "\<exists>kv'. kv_seq_rm kv s p0 p1 = Some (True, kv') \<and> kv_wf kv' \<and>
    (\<forall>t. kv_seq_ok kv t \<longrightarrow> kv_positions kv' t =
      (if t = s then {p \<in> kv_positions kv s. \<not> (norm_p0 p0 \<le> p \<and> p < norm_p1 p1)} else kv_positions kv t))"
  by (rule kv_seq_rm_ok [OF assms, of p0 p1]) blast

theorem seq_rm_correct_witness:
  "kv_positions demo_kv 0 = {0, 1} \<and> (\<exists>kv'. kv_seq_rm demo_kv 0 1 (- 1) = Some (True, kv') \<and> kv_wf kv' \<and>
    (\<forall>t. kv_seq_ok demo_kv t \<longrightarrow> kv_positions kv' t =
      (if t = 0 then {p \<in> kv_positions demo_kv 0. \<not> (norm_p0 1 \<le> p \<and> p < norm_p1 (- 1))} else kv_positions demo_kv t)))"
  using demo_facts(3) seq_rm_correct [OF demo_kv_wf demo_facts(1)] by blast

text \<open>The interface documents \<open>seq_id < 0\<close> as "match any sequence"; the unified cache aborts.\<close>

theorem seq_rm_any_aborts:
  "kv_seq_rm kv (- 1) p0 p1 = None"
  by (simp add: kv_seq_rm_def kv_stream_of_def)

text \<open>C6: \<open>seq_keep\<close> empties the other sequences of the stream of \<open>s\<close> and changes no other
  sequence: with several streams the sequences of the other streams stay.\<close>

theorem seq_keep_correct:
  assumes "kv_wf kv" "kv_seq_ok kv s"
  shows "\<exists>kv'. kv_seq_keep kv s = Some kv' \<and> kv_wf kv' \<and>
    (\<forall>t. kv_seq_ok kv t \<longrightarrow> kv_positions kv' t =
      (if t \<noteq> s \<and> kv_strm kv t = kv_strm kv s then {} else kv_positions kv t))"
  by (rule kv_seq_keep_ok [OF assms]) blast

theorem seq_keep_correct_witness:
  "kv_positions demo_streams 0 \<noteq> {} \<and> (\<exists>kv'. kv_seq_keep demo_streams 1 = Some kv' \<and> kv_wf kv' \<and>
    (\<forall>t. kv_seq_ok demo_streams t \<longrightarrow> kv_positions kv' t =
      (if t \<noteq> 1 \<and> kv_strm demo_streams t = kv_strm demo_streams 1 then {} else kv_positions demo_streams t)))"
  using demo_facts(7) seq_keep_correct [OF demo_streams_wf demo_facts(6)] by simp

text \<open>C7: \<open>seq_add\<close> shifts the positions of the sequence in the range, drops those that become
  negative, keeps the invariant, and leaves every sequence alone that shares no cell with it.\<close>

theorem seq_add_correct:
  assumes "kv_wf kv" "kv_seq_ok kv s" "kv_shift_fits kv s p0 p1 (\<lambda>p. p + k)"
  shows "\<exists>kv'. kv_seq_add kv s p0 p1 k = Some kv' \<and> kv_wf kv' \<and>
    kv_positions kv' s = {p \<in> kv_positions kv s. \<not> (norm_p0 p0 \<le> p \<and> p < norm_p1 p1)} \<union>
      {p + k | p. p \<in> kv_positions kv s \<and> norm_p0 p0 \<le> p \<and> p < norm_p1 p1 \<and> 0 \<le> p + k} \<and>
    (\<forall>t. kv_seq_ok kv t \<longrightarrow> \<not> kv_shared kv s t \<longrightarrow> kv_positions kv' t = kv_positions kv t)"
  by (rule kv_seq_add_ok [OF assms]) blast

theorem seq_add_correct_witness:
  "\<exists>kv'. kv_seq_add demo_kv 0 0 (- 1) (- 1) = Some kv' \<and> kv_wf kv' \<and>
    kv_positions kv' 0 = {p \<in> kv_positions demo_kv 0. \<not> (norm_p0 0 \<le> p \<and> p < norm_p1 (- 1))} \<union>
      {p + - 1 | p. p \<in> kv_positions demo_kv 0 \<and> norm_p0 0 \<le> p \<and> p < norm_p1 (- 1) \<and> 0 \<le> p + - 1} \<and>
    (\<forall>t. kv_seq_ok demo_kv t \<longrightarrow> \<not> kv_shared demo_kv 0 t \<longrightarrow> kv_positions kv' t = kv_positions demo_kv t)"
  by (rule seq_add_correct [OF demo_kv_wf demo_facts(1)]) code_simp

text \<open>\<open>seq_div\<close> divides the positions of the sequence in the range.\<close>

theorem seq_div_correct:
  assumes "kv_wf kv" "kv_seq_ok kv s" "0 < d" "kv_div_fits kv s p0 p1 d"
  shows "\<exists>kv'. kv_seq_div kv s p0 p1 d = Some kv' \<and> kv_wf kv' \<and>
    kv_positions kv' s = {p \<in> kv_positions kv s. \<not> (norm_p0 p0 \<le> p \<and> p < norm_p1 p1)} \<union>
      {p div d | p. p \<in> kv_positions kv s \<and> norm_p0 p0 \<le> p \<and> p < norm_p1 p1} \<and>
    (\<forall>t. kv_seq_ok kv t \<longrightarrow> \<not> kv_shared kv s t \<longrightarrow> kv_positions kv' t = kv_positions kv t)"
  by (rule kv_seq_div_ok [OF assms]) blast

theorem seq_div_correct_witness:
  "\<exists>kv'. kv_seq_div demo_kv 0 0 (- 1) 2 = Some kv' \<and> kv_wf kv' \<and>
    kv_positions kv' 0 = {p \<in> kv_positions demo_kv 0. \<not> (norm_p0 0 \<le> p \<and> p < norm_p1 (- 1))} \<union>
      {p div 2 | p. p \<in> kv_positions demo_kv 0 \<and> norm_p0 0 \<le> p \<and> p < norm_p1 (- 1)} \<and>
    (\<forall>t. kv_seq_ok demo_kv t \<longrightarrow> \<not> kv_shared demo_kv 0 t \<longrightarrow> kv_positions kv' t = kv_positions demo_kv t)"
  by (rule seq_div_correct [OF demo_kv_wf demo_facts(1)]) code_simp+

text \<open>C8: \<open>seq_cp\<close> inside a stream gives the destination the positions of the source in the
  range, provided it holds none there, and changes no other sequence.\<close>

theorem seq_cp_correct:
  assumes "kv_wf kv" "kv_seq_ok kv s" "kv_seq_ok kv t" "kv_strm kv t = kv_strm kv s" "s \<noteq> t"
    and "\<forall>p \<in> kv_positions kv t. \<not> (norm_p0 p0 \<le> p \<and> p < norm_p1 p1)"
  shows "\<exists>kv'. kv_seq_cp kv s t p0 p1 = Some kv' \<and> kv_wf kv' \<and>
    kv_positions kv' t = kv_positions kv t \<union> {p \<in> kv_positions kv s. norm_p0 p0 \<le> p \<and> p < norm_p1 p1} \<and>
    (\<forall>r. kv_seq_ok kv r \<longrightarrow> r \<noteq> t \<longrightarrow> kv_positions kv' r = kv_positions kv r)"
  by (rule kv_seq_cp_same_ok [OF assms(1-5), of p0 p1]) (use assms(6) in blast)+

theorem seq_cp_correct_witness:
  "\<exists>kv'. kv_seq_cp demo_kv 0 1 (- 1) (- 1) = Some kv' \<and> kv_wf kv' \<and>
    kv_positions kv' 1 = kv_positions demo_kv 1 \<union> {p \<in> kv_positions demo_kv 0. norm_p0 (- 1) \<le> p \<and> p < norm_p1 (- 1)} \<and>
    (\<forall>r. kv_seq_ok demo_kv r \<longrightarrow> r \<noteq> 1 \<longrightarrow> kv_positions kv' r = kv_positions demo_kv r)"
  by (rule seq_cp_correct [OF demo_kv_wf demo_facts(1,2)]) code_simp+



subsection \<open>State and getters\<close>

text \<open>The constructor, when its arguments pass its checks, gives a well-formed cache that
  holds no position of any sequence.\<close>

theorem init_correct:
  assumes "kv_init v_trans set_rows unified kv_size n_seq_max n_pad n_swa swa_type = Some kv"
    and "0 < n_seq_max" "n_seq_max \<le> LLAMA_MAX_SEQ"
  shows "kv_wf kv \<and> (\<forall>s. kv_seq_ok kv s \<longrightarrow> kv_positions kv s = {})"
  using kv_init_wf [OF assms] by blast

theorem init_correct_witness:
  "kv_wf demo_empty \<and> kv_positions demo_empty 1 = {}"
proof -
  have "kv_init False True True 4 2 1 0 SWA_TYPE_NONE = Some demo_empty" by code_simp
  then have "kv_wf demo_empty \<and> (\<forall>s. kv_seq_ok demo_empty s \<longrightarrow> kv_positions demo_empty s = {})"
    by (rule init_correct) simp_all
  moreover have "kv_seq_ok demo_empty 1" by code_simp
  ultimately show ?thesis by blast
qed

text \<open>C10: \<open>seq_pos_min\<close> and \<open>seq_pos_max\<close> are the least and the greatest position of the
  sequence, \<open>-1\<close> when it has none; after \<open>clear\<close> no sequence has any, and the cache is still
  well-formed.\<close>

theorem seq_pos_bounds:
  assumes "kv_wf kv" "kv_seq_ok kv s"
  shows "kv_seq_pos_min kv s = Some (if kv_positions kv s = {} then - 1 else Min (kv_positions kv s)) \<and>
    kv_seq_pos_max kv s = Some (if kv_positions kv s = {} then - 1 else Max (kv_positions kv s)) \<and>
    kv_wf (kv_clear kv) \<and> kv_seq_pos_max (kv_clear kv) s = Some (- 1)"
  using kv_seq_pos_min_ok [OF assms] kv_seq_pos_max_ok [OF assms] kv_clear_wf [OF assms(1)]
    kv_seq_pos_max_ok [OF kv_clear_wf [OF assms(1)], of s] kv_clear_positions [OF assms] assms(2)
  by simp

theorem seq_pos_bounds_witness:
  "kv_seq_pos_min demo_kv 0 = Some (if kv_positions demo_kv 0 = {} then - 1 else Min (kv_positions demo_kv 0)) \<and>
    kv_seq_pos_max demo_kv 0 = Some (if kv_positions demo_kv 0 = {} then - 1 else Max (kv_positions demo_kv 0)) \<and>
    kv_wf (kv_clear demo_kv) \<and> kv_seq_pos_max (kv_clear demo_kv) 0 = Some (- 1)"
  by (rule seq_pos_bounds [OF demo_kv_wf demo_facts(1)])

lemma GGML_PAD_eq: "GGML_PAD x (2 ^ k) = (x + 2 ^ k - 1) div 2 ^ k * 2 ^ k"
proof -
  let ?a = "int (x + 2 ^ k - 1)"
  have "(1::nat) \<le> 2 ^ k" by simp
  then have "1 \<le> x + 2 ^ k" by (rule trans_le_add2)
  then have "int x + int (2 ^ k) - 1 = ?a" by (simp add: of_nat_diff)
  moreover have "and ?a (not (2 ^ k - 1)) = push_bit k (drop_bit k ?a)"
    by (rule bit_eqI) (simp add: bit_simps mask_eq_exp_minus_1 [symmetric], auto)
  moreover have "push_bit k (drop_bit k ?a) = int ((x + 2 ^ k - 1) div 2 ^ k * 2 ^ k)"
    by (simp add: push_bit_eq_mult drop_bit_eq_div zdiv_int)
  moreover have "int (2 ^ k) - 1 = 2 ^ k - 1" by simp
  ultimately have "and (int x + int (2 ^ k) - 1) (not (int (2 ^ k) - 1)) = int ((x + 2 ^ k - 1) div 2 ^ k * 2 ^ k)"
    by (simp only:)
  then show ?thesis by (simp only: GGML_PAD_def nat_int)
qed

lemma GGML_PAD_ge: "x \<le> GGML_PAD x (2 ^ k)"
proof -
  let ?m = "x + 2 ^ k - 1"
  have "?m = ?m div 2 ^ k * 2 ^ k + ?m mod 2 ^ k" by (rule div_mult_mod_eq [symmetric])
  moreover have "?m mod 2 ^ k < 2 ^ k" by simp
  ultimately show ?thesis unfolding GGML_PAD_eq by linarith
qed

lemma kv_get_n_kv_fold:
  fixes g :: "'a \<Rightarrow> nat"
  assumes "n \<le> length cs"
  shows "\<exists>r. foldM (\<lambda>s result. do { c \<leftarrow> vget cs s; Some (max (g c) result) }) [0..<n] 0 = Some r \<and>
    (\<forall>s < n. g (cs ! s) \<le> r) \<and> (r = 0 \<or> (\<exists>s < n. r = g (cs ! s)))"
  by (rule foldM_upt_rule [where P = "\<lambda>k r. (\<forall>s < k. g (cs ! s) \<le> r) \<and> (r = 0 \<or> (\<exists>s < k. r = g (cs ! s)))"])
    (use assms in \<open>auto simp: less_Suc_eq max_def\<close>)

lemma n_kv_covers:
  assumes "kv_wf kv" "kv_n_pad kv = 2 ^ k"
  shows "\<exists>n. kv_get_n_kv kv = Some n \<and>
    (\<forall>st < kv_n_stream kv. \<forall>i \<in> kc_used (kv_cells_v kv ! st). i < n) \<and>
    (0 < kv_n_stream kv \<longrightarrow> n \<le> kc_size (hd (kv_cells_v kv)))"
proof -
  define g where "g = (\<lambda>c. min (kc_size c) (max (kv_n_pad kv) (GGML_PAD (kc_used_max_p1 c) (kv_n_pad kv))))"
  have "kv_n_stream kv \<le> length (kv_cells_v kv)" using kv_wf_len_cells [OF assms(1)] by simp
  from kv_get_n_kv_fold [OF this, of g] obtain n where
    fold: "foldM (\<lambda>s result. do { c \<leftarrow> vget (kv_cells_v kv) s; Some (max (g c) result) }) [0..<kv_n_stream kv] 0 = Some n"
    and n: "\<And>s. s < kv_n_stream kv \<Longrightarrow> g (kv_cells_v kv ! s) \<le> n"
      "n = 0 \<or> (\<exists>s < kv_n_stream kv. n = g (kv_cells_v kv ! s))"
    by auto
  have eq: "kv_get_n_kv kv = Some n" using fold by (simp add: kv_get_n_kv_def g_def)
  have "i < n" if st: "st < kv_n_stream kv" and i: "i \<in> kc_used (kv_cells_v kv ! st)" for st i
  proof -
    let ?c = "kv_cells_v kv ! st"
    have used: "kc_used ?c = {i. i < length (kc_pos ?c) \<and> kc_pos ?c ! i \<noteq> - 1}"
      by (rule kc_wf_used [OF kv_wf_cells [OF assms(1) st]])
    then have "i < kc_used_max_p1 ?c" "i < kc_size ?c"
      using i by (auto simp: kc_used_max_p1_def kc_size_def less_Suc_eq_le intro: Max_ge)
    moreover have "kc_used_max_p1 ?c \<le> GGML_PAD (kc_used_max_p1 ?c) (kv_n_pad kv)"
      using GGML_PAD_ge assms(2) by simp
    ultimately have "i < g ?c" by (simp add: g_def)
    then show ?thesis using n(1) [OF st] by simp
  qed
  moreover have "n \<le> kc_size (hd (kv_cells_v kv))" if "0 < kv_n_stream kv"
  proof (cases "n = 0")
    case False
    then obtain s where s: "s < kv_n_stream kv" "n = g (kv_cells_v kv ! s)" using n(2) by blast
    have "kv_cells_v kv ! s \<in> set (kv_cells_v kv)" using s kv_wf_len_cells [OF assms(1)] by simp
    then have "kc_size (kv_cells_v kv ! s) = kc_size (hd (kv_cells_v kv))"
      using assms(1) unfolding kv_wf_def by blast
    then show ?thesis using s(2) by (simp add: g_def)
  qed simp
  ultimately show ?thesis using eq by (intro exI [of _ n] conjI allI ballI impI) auto
qed

text \<open>C11: the number of cells the graph attends to, \<open>get_n_kv\<close>, covers every used cell of every
  stream and stays within the buffer, when the padding is a power of two.\<close>

theorem get_n_kv_covers:
  assumes "kv_wf kv" "kv_n_pad kv = 2 ^ k"
  shows "\<exists>n. kv_get_n_kv kv = Some n \<and>
    (\<forall>st < kv_n_stream kv. \<forall>i \<in> kc_used (kv_cells_v kv ! st). i < n) \<and>
    (0 < kv_n_stream kv \<longrightarrow> n \<le> kc_size (hd (kv_cells_v kv)))"
  using assms by (rule n_kv_covers)

theorem get_n_kv_covers_witness:
  "\<exists>n. kv_get_n_kv demo_kv = Some n \<and>
    (\<forall>st < kv_n_stream demo_kv. \<forall>i \<in> kc_used (kv_cells_v demo_kv ! st). i < n) \<and>
    (0 < kv_n_stream demo_kv \<longrightarrow> n \<le> kc_size (hd (kv_cells_v demo_kv)))"
proof (rule get_n_kv_covers [OF demo_kv_wf, where k = 0])
  show "kv_n_pad demo_kv = 2 ^ 0" by code_simp
qed

end
