(* ===== verification/InputProps.thy ===== *)
theory InputProps
  imports KvInput KvProps
begin

text \<open>
  The attention mask and the row indices against reference definitions.
\<close>

subsection \<open>The mask\<close>

text \<open>Cell \<open>j\<close> of the stream of sequence \<open>s\<close> is attended to by a token at position \<open>p1\<close>.\<close>

definition attends :: "kv_cache \<Rightarrow> bool \<Rightarrow> llama_seq_id \<Rightarrow> llama_pos \<Rightarrow> nat \<Rightarrow> bool" where
  "attends kv causal s p1 j \<longleftrightarrow> s \<in> kc_seq (kv_cells_of kv s) ! j \<and> (causal \<longrightarrow> kc_pos (kv_cells_of kv s) ! j \<le> p1) \<and>
     \<not> swa_masks kv (kc_pos (kv_cells_of kv s) ! j) p1"

definition mask_ref :: "kv_cache \<Rightarrow> bool \<Rightarrow> bool \<Rightarrow> llama_seq_id \<Rightarrow> llama_pos \<Rightarrow> nat \<Rightarrow> mask_val" where
  "mask_ref kv use_alibi causal s p1 j =
     (if attends kv causal s p1 j then MaskBias (if use_alibi then - \<bar>kc_pos (kv_cells_of kv s) ! j - p1\<bar> else 0) else MaskInf)"

text \<open>Element \<open>x\<close> of the mask: the token is read off the row, rows beyond the tokens of a stream are
  padding.\<close>

definition mask_at :: "kv_cache \<Rightarrow> bool \<Rightarrow> bool \<Rightarrow> llama_ubatch \<Rightarrow> nat \<Rightarrow> nat \<Rightarrow> nat \<Rightarrow> nat \<Rightarrow> nat \<Rightarrow> mask_val" where
  "mask_at kv use_alibi causal ub n_kv n_tps pad n_stream x =
     (let row = x div n_kv; s = row div pad; ii = row mod pad; i = s * n_tps + ii in
      if s < n_stream \<and> ii < n_tps
      then mask_ref kv use_alibi causal (ub_seq_id ub ! i ! 0) (ub_pos ub ! i) (x mod n_kv) else MaskInf)"

definition mask_ub_ok :: "kv_cache \<Rightarrow> llama_ubatch \<Rightarrow> bool" where
  "mask_ub_ok kv ub \<longleftrightarrow> ub_n_tokens ub \<le> length (ub_seq_id ub) \<and> ub_n_tokens ub \<le> length (ub_pos ub) \<and>
     (\<forall>i < ub_n_tokens ub. ub_seq_id ub ! i \<noteq> [] \<and> kv_seq_ok kv (ub_seq_id ub ! i ! 0) \<and> 0 \<le> ub_pos ub ! i \<and> ub_pos ub ! i \<le> INT32_MAX)"

lemma mask_cell_eq:
  assumes wf: "kv_wf kv" and cfg: "kv_cfg_ok kv" and fits: "kv_fits kv" and s: "kv_seq_ok kv s" and p1: "0 \<le> p1" "p1 \<le> INT32_MAX"
    and j: "j < kc_size (kv_cells_of kv s)"
  shows "mask_cell kv use_alibi causal (kv_cells_of kv s) s p1 j =
    Some (if attends kv causal s p1 j then Some (mask_ref kv use_alibi causal s p1 j) else None)"
proof -
  let ?c = "kv_cells_of kv s"
  have cw: "kc_wf ?c" by (rule kv_cells_of_wf [OF wf s])
  have jl: "j < length (kc_pos ?c)" using j by (simp add: kc_size_def)
  have sok: "seq_ok s" by (rule kv_seq_ok_id [OF wf s])
  have lo: "- 1 \<le> kc_pos ?c ! j" using cw jl by (simp add: kc_wf_def)
  have hi: "kc_pos ?c ! j < INT32_MAX"
    using fits kv_seq_ok_stream [OF wf s] j by (simp add: kv_fits_def kc_fits_def kv_cells_of_def)
  show ?thesis
  proof (cases "s \<in> kc_seq ?c ! j")
    case False
    then show ?thesis using jl lo sok by (auto simp: mask_cell_def kc_is_empty_def kc_seq_has_def attends_def)
  next
    case True
    then have ne: "kc_pos ?c ! j \<noteq> - 1" by (rule kc_wf_in_seq [OF cw jl])
    then have p0: "0 \<le> kc_pos ?c ! j" using lo by linarith
    have r: "i32_ok (kc_pos ?c ! j - p1)" using p0 p1 hi by (auto simp: i32_ok_def INT32_MIN_def INT32_MAX_def)
    show ?thesis
      using True jl lo sok ne r kv_is_masked_swa_eq [OF cfg p0 p1(1)]
      by (auto simp: mask_cell_def kc_is_empty_def kc_seq_has_def kc_pos_get_def attends_def mask_ref_def)
  qed
qed

text \<open>The mask up to element \<open>b\<close>, the rest still at minus infinity.\<close>

definition mask_upto :: "(nat \<Rightarrow> mask_val) \<Rightarrow> nat \<Rightarrow> nat \<Rightarrow> mask_val list" where
  "mask_upto f n b = map (\<lambda>x. if x < b then f x else MaskInf) [0..<n]"

lemma mask_upto_set: "x < n \<Longrightarrow> (mask_upto f n x)[x := f x] = mask_upto f n (Suc x)"
  by (rule nth_equalityI) (auto simp: mask_upto_def nth_list_update less_Suc_eq)

lemma mask_upto_skip: "\<forall>x. b \<le> x \<and> x < c \<longrightarrow> f x = MaskInf \<Longrightarrow> b \<le> c \<Longrightarrow> mask_upto f n b = mask_upto f n c"
  by (rule nth_equalityI) (auto simp: mask_upto_def not_less)

lemma mask_upto_length [simp]: "length (mask_upto f n b) = n"
  by (simp add: mask_upto_def)

lemma row_bound: "row < rows \<Longrightarrow> j < n_kv \<Longrightarrow> n_kv * row + j < n_kv * rows" for n_kv :: nat
proof -
  assume "row < rows" "j < n_kv"
  then have "n_kv * Suc row \<le> n_kv * rows" by (intro mult_le_mono2) simp
  then show ?thesis using \<open>j < n_kv\<close> by simp
qed

lemma mask_row_ok:
  assumes f: "f = mask_at kv use_alibi causal ub n_kv n_tps pad n_stream"
    and wf: "kv_wf kv" "kv_cfg_ok kv" "kv_fits kv" and ub: "mask_ub_ok kv ub"
    and n_kv: "\<forall>s. kv_seq_ok kv s \<longrightarrow> n_kv \<le> kc_size (kv_cells_of kv s)"
    and s: "s < n_stream" "ii < n_tps" "n_tps \<le> pad" "n_stream * n_tps \<le> ub_n_tokens ub"
    and len: "n_kv * (pad * n_stream) \<le> n"
  shows "mask_row kv use_alibi causal ub n_kv n_tps pad s ii (mask_upto f n (n_kv * (s * pad + ii))) =
    Some (mask_upto f n (n_kv * (s * pad + Suc ii)))"
proof -
  let ?i = "s * n_tps + ii" and ?row = "s * pad + ii"
  let ?q = "ub_seq_id ub ! ?i ! 0" and ?p = "ub_pos ub ! ?i"
  have "Suc s * n_tps \<le> n_stream * n_tps" using s(1) by (intro mult_le_mono1) simp
  then have i: "?i < ub_n_tokens ub" using s(2,4) by simp
  have tok: "?i < length (ub_seq_id ub)" "?i < length (ub_pos ub)" "ub_seq_id ub ! ?i \<noteq> []" "kv_seq_ok kv ?q" "0 \<le> ?p" "?p \<le> INT32_MAX"
    using ub i by (auto simp: mask_ub_ok_def)
  have st: "sidx ?q = Some (nat ?q)" "vget (kv_seq_to_stream kv) (nat ?q) = Some (kv_strm kv ?q)"
    "vget (kv_cells_v kv) (kv_strm kv ?q) = Some (kv_cells_of kv ?q)"
    using tok(4) kv_seq_ok_stream [OF wf(1) tok(4)] kv_wf_len_cells [OF wf(1)]
    by (simp_all add: sidx_def kv_seq_ok_def kv_cells_of_def)
  have "Suc s * pad \<le> n_stream * pad" using s(1) by (intro mult_le_mono1) simp
  then have row: "?row < pad * n_stream" using s(2,3) by (simp add: mult.commute)
  have at: "f (n_kv * ?row + j) = mask_ref kv use_alibi causal ?q ?p j" "n_kv * ?row + j < n" if "j < n_kv" for j
  proof -
    have "(n_kv * ?row + j) div n_kv = ?row" "(n_kv * ?row + j) mod n_kv = j" using that by simp_all
    moreover have "?row div pad = s" "?row mod pad = ii" using s(2,3) by simp_all
    ultimately show "f (n_kv * ?row + j) = mask_ref kv use_alibi causal ?q ?p j" using s(1,2) by (simp add: f mask_at_def Let_def)
    show "n_kv * ?row + j < n" using row_bound [OF row that] len by simp
  qed
  let ?g = "\<lambda>j dst. do { v \<leftarrow> mask_cell kv use_alibi causal (kv_cells_of kv ?q) ?q ?p j;
       (case v of None \<Rightarrow> Some dst | Some x \<Rightarrow> vset dst (n_kv * ?row + j) x) }"
  have "\<exists>d. foldM ?g [0..<n_kv] (mask_upto f n (n_kv * ?row)) = Some d \<and> d = mask_upto f n (n_kv * ?row + n_kv)"
  proof (rule foldM_upt_rule [where P = "\<lambda>k d. d = mask_upto f n (n_kv * ?row + k)"])
    fix j d
    assume j: "j < n_kv" and d: "d = mask_upto f n (n_kv * ?row + j)"
    have "j < kc_size (kv_cells_of kv ?q)" using n_kv tok(4) j by auto
    note cell = mask_cell_eq [OF wf tok(4-6) this, of use_alibi causal]
    show "\<exists>d'. ?g j d = Some d' \<and> d' = mask_upto f n (n_kv * ?row + Suc j)"
    proof (cases "attends kv causal ?q ?p j")
      case True
      then show ?thesis using cell at [OF j] mask_upto_set [OF at(2) [OF j], of f] by (simp add: d vset_def)
    next
      case False
      then have "f (n_kv * ?row + j) = MaskInf" using at(1) [OF j] by (simp add: mask_ref_def)
      then have "mask_upto f n (n_kv * ?row + j) = mask_upto f n (n_kv * ?row + Suc j)"
        by (intro mask_upto_skip) (auto simp: less_Suc_eq dest: le_antisym)
      then show ?thesis using cell False by (simp add: d)
    qed
  qed simp
  moreover have "n_kv * ?row + n_kv = n_kv * (s * pad + Suc ii)" by (simp add: algebra_simps)
  ultimately have "foldM ?g [0..<n_kv] (mask_upto f n (n_kv * ?row)) = Some (mask_upto f n (n_kv * (s * pad + Suc ii)))"
    by simp
  then show ?thesis using tok(1-3) st by (simp add: mask_row_def)
qed

lemma kq_mask_eq:
  fixes n_tps pad
  assumes wf: "kv_wf kv" "kv_cfg_ok kv" "kv_fits kv" and ub: "mask_ub_ok kv ub"
    and n_kv: "\<forall>s. kv_seq_ok kv s \<longrightarrow> n_kv \<le> kc_size (kv_cells_of kv s)"
    and pos: "0 < n_kv" and n: "n_stream \<noteq> 0" "ub_n_tokens ub mod n_stream = 0"
  defines "n_tps \<equiv> ub_n_tokens ub div n_stream" and "pad \<equiv> GGML_PAD (ub_n_tokens ub div n_stream) GGML_KQ_MASK_PAD"
  assumes len: "n_kv * (pad * n_stream) \<le> length dst"
  shows "kv_set_input_kq_mask kv use_alibi n_kv n_stream ub causal dst =
    Some (map (mask_at kv use_alibi causal ub n_kv n_tps pad n_stream) [0..<length dst])"
proof -
  let ?f = "mask_at kv use_alibi causal ub n_kv n_tps pad n_stream" and ?n = "length dst"
  have total: "n_stream * n_tps = ub_n_tokens ub" using n(2) unfolding n_tps_def by (simp add: mod_eq_0_iff_dvd)
  have "GGML_KQ_MASK_PAD = 2 ^ 6" by (simp add: GGML_KQ_MASK_PAD_def)
  then have pad: "n_tps \<le> pad" unfolding n_tps_def pad_def by (metis GGML_PAD_ge)
  have "\<exists>d. foldM (\<lambda>s. foldM (mask_row kv use_alibi causal ub n_kv n_tps pad s) [0..<n_tps]) [0..<n_stream] (mask_upto ?f ?n 0) = Some d \<and>
      d = mask_upto ?f ?n (n_kv * (n_stream * pad))"
  proof (rule foldM_upt_rule [where P = "\<lambda>s d. d = mask_upto ?f ?n (n_kv * (s * pad))"])
    fix s d
    assume s: "s < n_stream" and d: "d = mask_upto ?f ?n (n_kv * (s * pad))"
    have "\<exists>d'. foldM (mask_row kv use_alibi causal ub n_kv n_tps pad s) [0..<n_tps] d = Some d' \<and>
        d' = mask_upto ?f ?n (n_kv * (s * pad + n_tps))"
    proof (rule foldM_upt_rule [where P = "\<lambda>ii d. d = mask_upto ?f ?n (n_kv * (s * pad + ii))"])
      fix ii d
      assume "ii < n_tps" "d = mask_upto ?f ?n (n_kv * (s * pad + ii))"
      then show "\<exists>d'. mask_row kv use_alibi causal ub n_kv n_tps pad s ii d = Some d' \<and> d' = mask_upto ?f ?n (n_kv * (s * pad + Suc ii))"
        using mask_row_ok [OF refl wf ub n_kv s _ pad _ len] total by simp
    qed (simp add: d)
    moreover have "mask_upto ?f ?n (n_kv * (s * pad + n_tps)) = mask_upto ?f ?n (n_kv * (Suc s * pad))"
    proof (rule mask_upto_skip)
      show "n_kv * (s * pad + n_tps) \<le> n_kv * (Suc s * pad)" using pad by (intro mult_le_mono2) simp
      show "\<forall>x. n_kv * (s * pad + n_tps) \<le> x \<and> x < n_kv * (Suc s * pad) \<longrightarrow> ?f x = MaskInf"
      proof (intro allI impI)
        fix x
        assume x: "n_kv * (s * pad + n_tps) \<le> x \<and> x < n_kv * (Suc s * pad)"
        then have k: "0 < n_kv" by (cases n_kv) auto
        have lo: "s * pad + n_tps \<le> x div n_kv" using x k by (metis div_le_mono nonzero_mult_div_cancel_left not_less0)
        have hi: "x div n_kv < Suc s * pad" using x k by (simp add: less_mult_imp_div_less mult.commute)
        define ii where "ii = x div n_kv - s * pad"
        have "x div n_kv = s * pad + ii" "n_tps \<le> ii" "ii < pad" using lo hi by (simp_all add: ii_def)
        then show "?f x = MaskInf" by (simp add: mask_at_def)
      qed
    qed
    ultimately show "\<exists>d'. foldM (mask_row kv use_alibi causal ub n_kv n_tps pad s) [0..<n_tps] d = Some d' \<and>
        d' = mask_upto ?f ?n (n_kv * (Suc s * pad))"
      by metis
  qed simp
  moreover have "mask_upto ?f ?n (n_kv * (n_stream * pad)) = mask_upto ?f ?n ?n"
  proof (rule mask_upto_skip)
    show "n_kv * (n_stream * pad) \<le> ?n" using len by (simp add: mult.commute)
    show "\<forall>x. n_kv * (n_stream * pad) \<le> x \<and> x < ?n \<longrightarrow> ?f x = MaskInf"
    proof (intro allI impI)
      fix x
      assume x: "n_kv * (n_stream * pad) \<le> x \<and> x < ?n"
      show "?f x = MaskInf"
      proof (cases "pad = 0")
        case True
        then show ?thesis using pad by (simp add: mask_at_def)
      next
        case False
        have "n_stream * pad \<le> x div n_kv" using x pos by (metis div_le_mono nonzero_mult_div_cancel_left not_less0)
        then have "n_stream \<le> x div n_kv div pad" using False by (metis div_le_mono nonzero_mult_div_cancel_right)
        then show ?thesis by (simp add: mask_at_def)
      qed
    qed
  qed
  moreover have "mask_upto ?f ?n 0 = map (\<lambda>_. MaskInf) dst" by (rule nth_equalityI) (simp_all add: mask_upto_def)
  moreover have "mask_upto ?f ?n ?n = map ?f [0..<?n]" by (rule nth_equalityI) (simp_all add: mask_upto_def)
  ultimately show ?thesis using n by (simp add: kv_set_input_kq_mask_def n_tps_def pad_def Let_def)
qed

text \<open>
  Properties of the graph inputs: the attention mask is its reference and makes every token attend
  to exactly the positions it should; the rows the new tokens are written to are distinct.
\<close>

subsection \<open>The mask\<close>

text \<open>C21: the mask that the nested loops write equals the reference: in the row of a token the value
  of a cell depends on whether the token attends to it; everything else is minus infinity.\<close>

theorem mask_equals_reference:
  assumes "kv_wf kv" "kv_cfg_ok kv" "kv_fits kv" and "mask_ub_ok kv ub"
    and "\<forall>s. kv_seq_ok kv s \<longrightarrow> n_kv \<le> kc_size (kv_cells_of kv s)"
    and "0 < n_kv" and "n_stream \<noteq> 0" "ub_n_tokens ub mod n_stream = 0"
    and "n_tps = ub_n_tokens ub div n_stream" "pad = GGML_PAD n_tps GGML_KQ_MASK_PAD"
    and "n_kv * (pad * n_stream) \<le> length dst"
  shows "kv_set_input_kq_mask kv use_alibi n_kv n_stream ub causal dst =
    Some (map (mask_at kv use_alibi causal ub n_kv n_tps pad n_stream) [0..<length dst])"
  unfolding assms(10) assms(9) by (rule kq_mask_eq) (use assms in auto)

definition demo_mask_ub :: llama_ubatch where
  "demo_mask_ub = demo_ub 0 [1]"

lemma demo_mask_facts:
  "kv_cfg_ok demo_kv" "kv_fits demo_kv" "mask_ub_ok demo_kv demo_mask_ub" "kc_size (kv_cells_v demo_kv ! 0) = 4"
  "kv_seq_to_stream demo_kv = replicate LLAMA_MAX_SEQ 0" "kv_get_n_kv demo_kv = Some 2" "ub_n_tokens demo_mask_ub = 1"
  by code_simp+

lemma demo_kv_size: "kv_seq_ok demo_kv s \<Longrightarrow> kc_size (kv_cells_of demo_kv s) = 4"
  by (simp add: kv_seq_ok_def kv_cells_of_def demo_mask_facts)

theorem mask_equals_reference_witness:
  "kv_set_input_kq_mask demo_kv True 2 1 demo_mask_ub True (replicate 128 MaskInf) =
    Some (map (mask_at demo_kv True True demo_mask_ub 2 1 64 1) [0..<128]) \<and>
   map (mask_at demo_kv True True demo_mask_ub 2 1 64 1) [0..<3] = [MaskBias (- 1), MaskBias 0, MaskInf]"
proof (intro conjI)
  have "GGML_PAD 1 GGML_KQ_MASK_PAD = 64" by code_simp
  then show "kv_set_input_kq_mask demo_kv True 2 1 demo_mask_ub True (replicate 128 MaskInf) =
    Some (map (mask_at demo_kv True True demo_mask_ub 2 1 64 1) [0..<128])"
    using mask_equals_reference [OF demo_kv_wf demo_mask_facts(1-3), of 2 1 1 64 "replicate 128 MaskInf" True True]
      demo_kv_size demo_mask_facts(7) by simp
  show "map (mask_at demo_kv True True demo_mask_ub 2 1 64 1) [0..<3] = [MaskBias (- 1), MaskBias 0, MaskInf]"
    by code_simp
qed

text \<open>The positions that the row of token \<open>i\<close> leaves open.\<close>

definition open_positions :: "kv_cache \<Rightarrow> llama_seq_id \<Rightarrow> nat \<Rightarrow> nat \<Rightarrow> mask_val list \<Rightarrow> llama_pos set" where
  "open_positions kv s n_kv row d = (\<lambda>j. kc_pos (kv_cells_of kv s) ! j) ` set (filter (\<lambda>j. d ! (n_kv * row + j) \<noteq> MaskInf) [0..<n_kv])"

lemma open_positions_eq:
  assumes wf: "kv_wf kv" and s: "kv_seq_ok kv s"
    and cover: "\<forall>i \<in> kc_used (kv_cells_of kv s). i < n_kv" and le: "n_kv \<le> kc_size (kv_cells_of kv s)"
    and d: "\<And>j. j < n_kv \<Longrightarrow> d ! (n_kv * row + j) = mask_ref kv use_alibi causal s p1 j"
  shows "open_positions kv s n_kv row d = {p \<in> kv_positions kv s. (causal \<longrightarrow> p \<le> p1) \<and> \<not> swa_masks kv p p1}"
proof -
  let ?c = "kv_cells_of kv s"
  have cw: "kc_wf ?c" by (rule kv_cells_of_wf [OF wf s])
  have "j < n_kv" if "j < length (kc_pos ?c)" "s \<in> kc_seq ?c ! j" for j
  proof -
    have "kc_pos ?c ! j \<noteq> - 1" using kc_wf_in_seq [OF cw that] .
    then show ?thesis using cover kc_wf_used [OF cw] that(1) by auto
  qed
  moreover have "j < length (kc_pos ?c)" if "j < n_kv" for j using that le by (simp add: kc_size_def)
  moreover have "d ! (n_kv * row + j) \<noteq> MaskInf \<longleftrightarrow> attends kv causal s p1 j" if "j < n_kv" for j
    using d [OF that] by (simp add: mask_ref_def)
  ultimately show ?thesis by (auto simp: open_positions_def kv_positions_def kc_positions_def attends_def)
qed

text \<open>C22: with the number of cells that \<open>get_n_kv\<close> computes, the row of a token leaves open exactly the
  positions of its sequence that are not after it (for causal attention) and inside the window.\<close>

theorem mask_attends_exactly:
  assumes wf: "kv_wf kv" "kv_cfg_ok kv" "kv_fits kv" and ub: "mask_ub_ok kv ub"
    and n_kv: "kv_get_n_kv kv = Some n_kv" "kv_n_pad kv = 2 ^ k" "0 < n_kv"
    and n: "n_stream \<noteq> 0" "ub_n_tokens ub mod n_stream = 0"
    and dims: "n_tps = ub_n_tokens ub div n_stream" "pad = GGML_PAD n_tps GGML_KQ_MASK_PAD"
    and len: "n_kv * (pad * n_stream) \<le> length dst"
    and tok: "s < n_stream" "ii < n_tps" "q = ub_seq_id ub ! (s * n_tps + ii) ! 0"
  shows "\<exists>d. kv_set_input_kq_mask kv use_alibi n_kv n_stream ub causal dst = Some d \<and>
    open_positions kv q n_kv (s * pad + ii) d =
      {p \<in> kv_positions kv q. (causal \<longrightarrow> p \<le> ub_pos ub ! (s * n_tps + ii)) \<and> \<not> swa_masks kv p (ub_pos ub ! (s * n_tps + ii))}"
proof -
  let ?f = "mask_at kv use_alibi causal ub n_kv n_tps pad n_stream"
  have cover: "n_kv \<le> kc_size (kv_cells_of kv r)" "\<forall>i \<in> kc_used (kv_cells_of kv r). i < n_kv" if "kv_seq_ok kv r" for r
  proof -
    have st: "kv_seq_to_stream kv ! nat r < kv_n_stream kv" using kv_seq_ok_stream [OF wf(1) that] .
    then have "kv_cells_of kv r \<in> set (kv_cells_v kv)" using kv_wf_len_cells [OF wf(1)] by (simp add: kv_cells_of_def)
    then have "kc_size (kv_cells_of kv r) = kc_size (hd (kv_cells_v kv))" using wf(1) unfolding kv_wf_def by blast
    then show "n_kv \<le> kc_size (kv_cells_of kv r)" "\<forall>i \<in> kc_used (kv_cells_of kv r). i < n_kv"
      using n_kv_covers [OF wf(1) n_kv(2)] n_kv(1) st by (auto simp: kv_cells_of_def)
  qed
  have eq: "kv_set_input_kq_mask kv use_alibi n_kv n_stream ub causal dst = Some (map ?f [0..<length dst])"
    unfolding dims(2) dims(1) by (rule kq_mask_eq [OF wf ub _ n_kv(3) n]) (use cover(1) len dims in auto)
  have total: "n_stream * n_tps = ub_n_tokens ub" using n(2) by (simp add: dims mod_eq_0_iff_dvd)
  have pad: "n_tps \<le> pad" using GGML_PAD_ge [of n_tps 6] by (simp add: dims(2) GGML_KQ_MASK_PAD_def)
  have "Suc s * n_tps \<le> n_stream * n_tps" using tok(1) by (intro mult_le_mono1) simp
  then have i: "s * n_tps + ii < ub_n_tokens ub" using tok(2) total by simp
  then have q: "kv_seq_ok kv q" using ub tok(3) by (simp add: mask_ub_ok_def)
  have "Suc s * pad \<le> n_stream * pad" using tok(1) by (intro mult_le_mono1) simp
  then have row: "s * pad + ii < pad * n_stream" using tok(2) pad by (simp add: mult.commute)
  have "map ?f [0..<length dst] ! (n_kv * (s * pad + ii) + j) = mask_ref kv use_alibi causal q (ub_pos ub ! (s * n_tps + ii)) j"
    if j: "j < n_kv" for j
  proof -
    have "n_kv * (s * pad + ii) + j < length dst" using row_bound [OF row j] len by simp
    moreover have "(n_kv * (s * pad + ii) + j) div n_kv = s * pad + ii" "(n_kv * (s * pad + ii) + j) mod n_kv = j"
      using j by simp_all
    moreover have "(s * pad + ii) div pad = s" "(s * pad + ii) mod pad = ii" using tok(2) pad by simp_all
    ultimately show ?thesis using tok by (simp add: mask_at_def Let_def)
  qed
  then show ?thesis using open_positions_eq [OF wf(1) q cover(2) [OF q] cover(1) [OF q]] eq by blast
qed

theorem mask_attends_exactly_witness:
  "\<exists>d. kv_set_input_kq_mask demo_kv False 2 1 demo_mask_ub True (replicate 128 MaskInf) = Some d \<and>
    open_positions demo_kv 0 2 0 d = {0, 1}"
proof -
  have pad: "GGML_PAD 1 GGML_KQ_MASK_PAD = 64" by code_simp
  have tok: "ub_seq_id demo_mask_ub ! 0 ! 0 = 0" "ub_pos demo_mask_ub ! 0 = 1" by code_simp+
  have swa: "\<not> swa_masks demo_kv 0 1" "\<not> swa_masks demo_kv 1 1" by code_simp+
  have n_pad: "kv_n_pad demo_kv = 2 ^ 0" by code_simp
  have "\<exists>d. kv_set_input_kq_mask demo_kv False 2 1 demo_mask_ub True (replicate 128 MaskInf) = Some d \<and>
    open_positions demo_kv 0 2 (0 * 64 + 0) d =
      {p \<in> kv_positions demo_kv 0. (True \<longrightarrow> p \<le> ub_pos demo_mask_ub ! (0 * 1 + 0)) \<and> \<not> swa_masks demo_kv p (ub_pos demo_mask_ub ! (0 * 1 + 0))}"
    by (rule mask_attends_exactly [OF demo_kv_wf demo_mask_facts(1-3) demo_mask_facts(6) n_pad])
      (simp_all add: demo_mask_facts(7) pad [simplified] tok)
  moreover have "{p \<in> kv_positions demo_kv 0. p \<le> 1 \<and> \<not> swa_masks demo_kv p 1} = {0, 1}"
    using swa by (auto simp: demo_facts)
  ultimately show ?thesis by (simp add: tok)
qed

subsection \<open>The rows of the new tokens\<close>

lemma mult_add_div_mod_eq: "a * n + b = a' * n + b' \<Longrightarrow> b < n \<Longrightarrow> b' < n \<Longrightarrow> a = a' \<and> b = b'" for n :: nat
proof -
  assume eq: "a * n + b = a' * n + b'" and b: "b < n" "b' < n"
  have "(a * n + b) div n = a" "(a' * n + b') div n = a'" using b by simp_all
  then show ?thesis using eq by auto
qed

definition row_of :: "slot_info \<Rightarrow> nat \<Rightarrow> nat \<Rightarrow> int" where
  "row_of si sz x = (let l = slot_loc si (x div si_n si, x mod si_n si) in int (fst l * sz + snd l))"

lemma in_rows_ok:
  assumes s: "s < length (si_strm si)" "length (si_idxs si) = length (si_strm si)" "length (si_idxs si ! s) = si_n si"
    and fit: "si_strm si ! s * sz < 2 ^ 32" and len: "length (si_strm si) * si_n si \<le> length d"
    and d: "length d = m" "\<forall>x < s * si_n si. d ! x = row_of si sz x"
  shows "\<exists>d'. in_rows si (si_n si) sz s d = Some d' \<and> length d' = m \<and> (\<forall>x < Suc s * si_n si. d' ! x = row_of si sz x)"
proof -
  let ?n = "si_n si" and ?st = "si_strm si ! s"
  let ?f = "\<lambda>i dst. do { idx \<leftarrow> vget (si_idxs si ! s) i; vset dst (s * ?n + i) (int (u32 (int (?st * sz))) + int idx) }"
  have "Suc s * ?n \<le> length (si_strm si) * ?n" using s(1) by (intro mult_le_mono1) simp
  then have bound: "s * ?n + i < length d" if "i < ?n" for i using that len by simp
  have "\<exists>d'. foldM ?f [0..<?n] d = Some d' \<and> (length d' = m \<and> (\<forall>x < s * ?n + ?n. d' ! x = row_of si sz x))"
  proof (rule foldM_upt_rule [where P = "\<lambda>i d'. length d' = m \<and> (\<forall>x < s * ?n + i. d' ! x = row_of si sz x)"])
    fix i d'
    assume i: "i < ?n" and P: "length d' = m \<and> (\<forall>x < s * ?n + i. d' ! x = row_of si sz x)"
    have "(s * ?n + i) div ?n = s" "(s * ?n + i) mod ?n = i" using i by simp_all
    then have "row_of si sz (s * ?n + i) = int (?st * sz) + int (si_idxs si ! s ! i)"
      by (simp add: row_of_def slot_loc_def Let_def)
    moreover have "u32 (int (?st * sz)) = ?st * sz" using fit by (rule u32_id)
    ultimately show "\<exists>d''. ?f i d' = Some d'' \<and> length d'' = m \<and> (\<forall>x < s * ?n + Suc i. d'' ! x = row_of si sz x)"
      using P i s(3) bound [OF i] d(1) by (auto simp: vset_def nth_list_update less_Suc_eq)
  qed (use d in simp)
  then show ?thesis using s by (simp add: in_rows_def Let_def add.commute)
qed

text \<open>C23: when the tokens are written by row index, token \<open>p\<close> gets the row of its cell in the K tensor;
  no two tokens share a row and every row is inside the tensor.\<close>

theorem k_rows_correct:
  assumes wf: "kv_wf kv" and pl: "place_ok kv ub si" and rows: "kv_supports_set_rows kv"
    and sz: "kv_get_size kv = Some sz" and fit: "kv_n_stream kv * sz \<le> 2 ^ 32" and len: "length dst = ub_n_tokens ub"
  shows "\<exists>d. kv_set_input_k_idxs kv ub si dst = Some d \<and> length d = ub_n_tokens ub \<and>
    (\<forall>p \<in> set (slot_pairs si). d ! slot_tok si p = int (fst (slot_loc si p) * sz + snd (slot_loc si p))) \<and>
    distinct d \<and> (\<forall>r \<in> set d. 0 \<le> r \<and> r < int (kv_n_stream kv * sz))"
proof -
  let ?n = "si_n si" and ?m = "length (si_strm si)"
  have pl': "length (si_idxs si) = ?m" "0 < ?n" "\<And>s. s < ?m \<Longrightarrow> length (si_idxs si ! s) = ?n" "ub_n_tokens ub = ?m * ?n" "si_n_stream si = ?m"
    "si_strm si \<noteq> []" "inj_on (slot_loc si) (set (slot_pairs si))"
    using pl by (auto simp: place_ok_def si_n_stream_def)
  have loc: "fst (slot_loc si p) < kv_n_stream kv" "snd (slot_loc si p) < sz" if "p \<in> set (slot_pairs si)" for p
  proof -
    have l: "loc_ok kv (slot_loc si p)" using place_okD(4) [OF pl that] .
    then have "kv_cells_v kv ! fst (slot_loc si p) \<in> set (kv_cells_v kv)" using kv_wf_len_cells [OF wf] by (simp add: loc_ok_def)
    then have "kc_size (kv_cells_v kv ! fst (slot_loc si p)) = kc_size (hd (kv_cells_v kv))" using wf unfolding kv_wf_def by blast
    moreover have "sz = kc_size (kv_cells_v kv ! (kv_seq_to_stream kv ! 0))" "kv_seq_to_stream kv ! 0 < length (kv_cells_v kv)"
      using sz by (auto simp: kv_get_size_def vget_def split: option.splits if_splits Option.bind_splits)
    then have "sz = kc_size (hd (kv_cells_v kv))" using wf nth_mem [of "kv_seq_to_stream kv ! 0" "kv_cells_v kv"] unfolding kv_wf_def by metis
    ultimately show "fst (slot_loc si p) < kv_n_stream kv" "snd (slot_loc si p) < sz" using l by (auto simp: loc_ok_def)
  qed
  have strm: "si_strm si ! s * sz < 2 ^ 32" if "s < ?m" for s
  proof -
    have "(s, 0) \<in> set (slot_pairs si)" using that pl' by (simp add: slot_pairs_iff)
    then have "si_strm si ! s < kv_n_stream kv" "0 < sz" using loc [of "(s, 0)"] by (auto simp: slot_loc_def)
    then have "si_strm si ! s * sz < kv_n_stream kv * sz" by simp
    then show ?thesis using fit by (rule less_le_trans)
  qed
  have "\<exists>d. foldM (in_rows si ?n sz) [0..<?m] dst = Some d \<and> (length d = ?m * ?n \<and> (\<forall>x < ?m * ?n. d ! x = row_of si sz x))"
  proof (rule foldM_upt_rule [where P = "\<lambda>s d. length d = ?m * ?n \<and> (\<forall>x < s * ?n. d ! x = row_of si sz x)"])
    show "length dst = ?m * ?n \<and> (\<forall>x < 0 * ?n. dst ! x = row_of si sz x)" using len pl'(4) by simp
    fix s d
    assume s: "s < ?m" and d: "length d = ?m * ?n \<and> (\<forall>x < s * ?n. d ! x = row_of si sz x)"
    show "\<exists>d'. in_rows si ?n sz s d = Some d' \<and> length d' = ?m * ?n \<and> (\<forall>x < Suc s * ?n. d' ! x = row_of si sz x)"
      by (rule in_rows_ok [OF s pl'(1) pl'(3) [OF s] strm [OF s] eq_refl [OF sym [OF conjunct1 [OF d]]] conjunct1 [OF d] conjunct2 [OF d]])
  qed
  then obtain d where fold: "foldM (in_rows si ?n sz) [0..<?m] dst = Some d" and d: "length d = ?m * ?n" "\<And>x. x < ?m * ?n \<Longrightarrow> d ! x = row_of si sz x"
    by blast
  have "si_idxs si \<noteq> []" using pl'(1,6) by auto
  then have sn: "si_size si = Some ?n" using pl'(1) by (simp add: si_size_def si_n_def)
  have eq: "kv_set_input_k_idxs kv ub si dst = Some d"
    using rows sz pl'(4,5) sn fold by (simp add: kv_set_input_k_idxs_def)
  have pair: "(x div ?n, x mod ?n) \<in> set (slot_pairs si)" if "x < ?m * ?n" for x
    using that pl'(2,5) by (simp add: slot_pairs_iff less_mult_imp_div_less)
  have "distinct d"
  proof (rule distinct_conv_nth [THEN iffD2], intro allI impI)
    fix x y
    assume xy: "x < length d" "y < length d" "x \<noteq> y"
    then have p: "(x div ?n, x mod ?n) \<in> set (slot_pairs si)" "(y div ?n, y mod ?n) \<in> set (slot_pairs si)" using pair d(1) by auto
    show "d ! x \<noteq> d ! y"
    proof
      assume eq: "d ! x = d ! y"
      obtain a b where ab: "slot_loc si (x div ?n, x mod ?n) = (a, b)" by force
      obtain a' b' where ab': "slot_loc si (y div ?n, y mod ?n) = (a', b')" by force
      have "a * sz + b = a' * sz + b'" using eq d xy(1,2) ab ab' by (simp add: row_of_def Let_def flip: of_nat_add of_nat_mult)
      moreover have "b < sz" "b' < sz" using loc(2) [OF p(1)] loc(2) [OF p(2)] ab ab' by auto
      ultimately have "a = a'" "b = b'" using mult_add_div_mod_eq by blast+
      then have "(x div ?n, x mod ?n) = (y div ?n, y mod ?n)" using ab ab' pl'(7) p by (metis inj_onD)
      then show False using xy(3) by (metis div_mult_mod_eq prod.inject)
    qed
  qed
  moreover have "0 \<le> r \<and> r < int (kv_n_stream kv * sz)" if "r \<in> set d" for r
  proof -
    obtain x where "x < length d" "r = d ! x" using \<open>r \<in> set d\<close> unfolding in_set_conv_nth by blast
    then have x: "x < ?m * ?n" "r = row_of si sz x" unfolding d(1) using d(2) by blast+
    let ?l = "slot_loc si (x div ?n, x mod ?n)"
    have "sz * fst ?l + snd ?l < sz * kv_n_stream kv" by (rule row_bound [OF loc [OF pair [OF x(1)]]])
    moreover have "r = int (sz * fst ?l + snd ?l)" unfolding x(2) row_of_def Let_def by (simp only: mult.commute)
    ultimately show ?thesis by (simp only: of_nat_0_le_iff of_nat_less_iff mult.commute simp_thms)
  qed
  moreover have "d ! slot_tok si p = int (fst (slot_loc si p) * sz + snd (slot_loc si p))" if p: "p \<in> set (slot_pairs si)" for p
  proof -
    have ps: "fst p < ?m" "snd p < ?n" using p pl'(5) by (simp_all add: slot_pairs_iff)
    have "Suc (fst p) * ?n \<le> ?m * ?n" using ps(1) by (intro mult_le_mono1) simp
    then have "slot_tok si p < ?m * ?n" using ps(2) by (simp add: slot_tok_def)
    moreover have "slot_tok si p div ?n = fst p" "slot_tok si p mod ?n = snd p" using ps(2) by (simp_all add: slot_tok_def)
    ultimately show ?thesis using d(2) by (simp add: row_of_def Let_def)
  qed
  moreover have "length d = ub_n_tokens ub" unfolding d(1) by (rule pl'(4) [symmetric])
  ultimately show ?thesis using eq by (intro exI [of _ d] conjI ballI) blast+
qed

theorem k_rows_correct_witness:
  "\<exists>d. kv_set_input_k_idxs (demo_empty_streams\<lparr>kv_supports_set_rows := True\<rparr>) (demo_ub 0 [0, 1]) demo_slot [0, 0] = Some d \<and> distinct d"
proof -
  let ?kv = "demo_empty_streams\<lparr>kv_supports_set_rows := True\<rparr>"
  have "kv_wf kv \<Longrightarrow> kv_wf (kv\<lparr>kv_supports_set_rows := b\<rparr>)" for kv b
    by (cases kv) (simp only: kv_wf_def kv_cache.select_convs kv_cache.update_convs, blast)
  then have "kv_wf ?kv" using demo_empty_wf(2) .
  moreover have "place_ok ?kv (demo_ub 0 [0, 1]) demo_slot" "kv_supports_set_rows ?kv" "kv_get_size ?kv = Some 4"
    "kv_n_stream ?kv = 2" "length [0::int, 0] = ub_n_tokens (demo_ub 0 [0, 1])"
    by code_simp+
  ultimately show ?thesis using k_rows_correct [of ?kv "demo_ub 0 [0, 1]" demo_slot 4 "[0, 0]"] by fastforce
qed

end
