(* ===== verification/StateIO.thy ===== *)
theory StateIO
  imports Prelude "HOL-Library.Word"
begin

text \<open>
  The byte streams of the state functions (src/llama-io.h, and the buffer implementations in
  src/llama-context.cpp).  A writer appends bytes; a reader takes them from the front and
  throws \<open>std::runtime_error\<close> when too few are left.  Integers are written as they are in memory,
  little-endian here.

  A function that reads has three outcomes besides its value: it can abort (\<open>None\<close>), it can
  throw, and it changes the state it fills as it goes, so that state comes back with every
  outcome.
\<close>

type_synonym bytes = "8 word list"

datatype 'a outcome = Threw | Ret 'a

type_synonym ('s, 'a) reader = "'s \<times> bytes \<Rightarrow> ('a outcome \<times> 's \<times> bytes) option"

definition rbind :: "('s, 'a) reader \<Rightarrow> ('a \<Rightarrow> ('s, 'b) reader) \<Rightarrow> ('s, 'b) reader" where
  "rbind m k = (\<lambda>st. case m st of
     None \<Rightarrow> None
   | Some (Threw, st) \<Rightarrow> Some (Threw, st)
   | Some (Ret x, st) \<Rightarrow> k x st)"

definition rret :: "'a \<Rightarrow> ('s, 'a) reader" where
  "rret x = (\<lambda>st. Some (Ret x, st))"

definition rthrow :: "('s, 'a) reader" where
  "rthrow = (\<lambda>st. Some (Threw, st))"

definition rguard :: "bool \<Rightarrow> ('s, unit) reader" where
  "rguard b = (\<lambda>st. if b then Some (Ret (), st) else None)"

text \<open>The state being filled: look at it, or run an operation that may abort.\<close>

definition rget :: "('s \<Rightarrow> 'a option) \<Rightarrow> ('s, 'a) reader" where
  "rget f = (\<lambda>(s, io). map_option (\<lambda>x. (Ret x, s, io)) (f s))"

definition rdo :: "('s \<Rightarrow> ('a \<times> 's) option) \<Rightarrow> ('s, 'a) reader" where
  "rdo f = (\<lambda>(s, io). map_option (\<lambda>(x, s). (Ret x, s, io)) (f s))"

definition rput :: "('s \<Rightarrow> 's option) \<Rightarrow> ('s, unit) reader" where
  "rput f = (\<lambda>(s, io). map_option (\<lambda>s. (Ret (), s, io)) (f s))"

fun rfor :: "('x \<Rightarrow> 'a \<Rightarrow> ('s, 'a) reader) \<Rightarrow> 'x list \<Rightarrow> 'a \<Rightarrow> ('s, 'a) reader" where
  "rfor f [] a = rret a"
| "rfor f (x # xs) a = rbind (f x a) (rfor f xs)"

text \<open>
  A loop whose body returns \<open>false\<close> out of the function: it stops at the first one.
\<close>

fun rall :: "('x \<Rightarrow> ('s, bool) reader) \<Rightarrow> 'x list \<Rightarrow> ('s, bool) reader" where
  "rall f [] = rret True"
| "rall f (x # xs) = rbind (f x) (\<lambda>b. if b then rall f xs else rret False)"

subsection \<open>Reading and writing integers\<close>

definition io_read :: "nat \<Rightarrow> ('s, bytes) reader" where
  "io_read n = (\<lambda>(s, io). if n > length io then Some (Threw, s, io) else Some (Ret (take n io), s, drop n io))"

fun enc_le :: "nat \<Rightarrow> nat \<Rightarrow> bytes" where
  "enc_le 0 x = []"
| "enc_le (Suc k) x = of_nat (x mod 256) # enc_le k (x div 256)"

fun dec_le :: "bytes \<Rightarrow> nat" where
  "dec_le [] = 0"
| "dec_le (b # bs) = unat b + 256 * dec_le bs"

definition w_u32 :: "nat \<Rightarrow> bytes" where
  "w_u32 x = enc_le 4 x"

definition w_u64 :: "nat \<Rightarrow> bytes" where
  "w_u64 x = enc_le 8 x"

definition w_i32 :: "int \<Rightarrow> bytes" where
  "w_i32 x = enc_le 4 (u32 x)"

definition i32_of :: "nat \<Rightarrow> int" where
  "i32_of x = (if x < 2 ^ 31 then int x else int x - 2 ^ 32)"

lemma i32_of_code [code]: "i32_of x = (let y = int x in if y < 2147483648 then y else y - 4294967296)"
  by (simp add: i32_of_def)

definition r_u32 :: "('s, nat) reader" where
  "r_u32 = rbind (io_read 4) (\<lambda>b. rret (dec_le b))"

definition r_u64 :: "('s, nat) reader" where
  "r_u64 = rbind (io_read 8) (\<lambda>b. rret (dec_le b))"

definition r_i32 :: "('s, int) reader" where
  "r_i32 = rbind (io_read 4) (\<lambda>b. rret (i32_of (dec_le b)))"

text \<open>\<open>llama_io_write_i::write_string\<close> and \<open>llama_io_read_i::read_string\<close>\<close>

definition write_string :: "bytes \<Rightarrow> bytes" where
  "write_string s = w_u32 (length s) @ s"

definition read_string :: "('s, bytes) reader" where
  "read_string = rbind r_u32 io_read"

subsection \<open>Tensors and ranges of cells\<close>

text \<open>
  The buffer of a tensor is a list of bytes; \<open>ggml_backend_tensor_get\<close> and \<open>ggml_backend_tensor_set\<close>
  assert that the range lies inside it.
\<close>

definition tensor_get :: "bytes \<Rightarrow> nat \<Rightarrow> nat \<Rightarrow> bytes option" where
  "tensor_get t offset n = do {
     guard (offset + n \<le> length t);
     Some (take n (drop offset t)) }"

definition tensor_set :: "bytes \<Rightarrow> bytes \<Rightarrow> nat \<Rightarrow> nat \<Rightarrow> bytes option" where
  "tensor_set t data offset n = do {
     guard (offset + n \<le> length t);
     Some (take offset t @ take n data @ drop (offset + n) t) }"

text \<open>
  The loop at the head of \<open>state_write\<close>, the same for the two kinds of memory: the cells to be
  written as ranges, first inclusive, last exclusive.  The state is
  \<open>(cell_count, cell_range_begin, ranges)\<close>.
\<close>

definition cr_step :: "(nat \<Rightarrow> bool option) \<Rightarrow> nat \<Rightarrow> nat \<Rightarrow> nat \<times> nat \<times> (nat \<times> nat) list \<Rightarrow>
    (nat \<times> nat \<times> (nat \<times> nat) list) option" where
  "cr_step sel sz i = (\<lambda>(count, beg, rs). do {
     b \<leftarrow> sel i;
     Some (if b then (count + 1, if beg = sz then i else beg, rs)
           else if beg \<noteq> sz then (count, sz, rs @ [(beg, i)])
           else (count, beg, rs)) })"

definition cell_ranges :: "(nat \<Rightarrow> bool option) \<Rightarrow> nat \<Rightarrow> (nat \<times> (nat \<times> nat) list) option" where
  "cell_ranges sel sz = do {
     (count, beg, rs) \<leftarrow> foldM (cr_step sel sz) [0..<sz] (0, sz, []);
     let rs = (if beg \<noteq> sz then rs @ [(beg, sz)] else rs);
     guard (count = sum_list (map (\<lambda>(a, b). b - a) rs));
     Some (count, rs) }"

text \<open>One piece of output per range.\<close>

definition concatM :: "('a \<Rightarrow> bytes option) \<Rightarrow> 'a list \<Rightarrow> bytes option" where
  "concatM f xs = map_option concat (mapM f xs)"

subsection \<open>Reading back what was written\<close>

named_theorems rsimps "running a reader on bytes that were written"

lemma enc_le_length [simp]: "length (enc_le k x) = k"
  by (induction k x rule: enc_le.induct) auto

lemma dec_enc_le: "x < 256 ^ k \<Longrightarrow> dec_le (enc_le k x) = x"
proof (induction k x rule: enc_le.induct)
  case (2 k x)
  then have "x div 256 < 256 ^ k" by (simp add: less_mult_imp_div_less mult.commute)
  moreover have "unat (of_nat (x mod 256) :: 8 word) = x mod 256"
    by (simp add: unat_of_nat take_bit_eq_mod)
  ultimately show ?case using 2 by simp
qed simp

lemma w_length [simp]: "length (w_u32 x) = 4" "length (w_u64 x) = 8" "length (w_i32 i) = 4"
  by (simp_all add: w_u32_def w_u64_def w_i32_def)

lemma i32_of_u32:
  assumes "i32_ok x"
  shows "i32_of (u32 x) = x"
proof (cases "0 \<le> x")
  case True
  then have "u32 x = nat x" "nat x < 2 ^ 31" using assms by (auto simp: i32_ok_def INT32_MAX_def u32_def)
  then show ?thesis using True by (simp add: i32_of_def)
next
  case False
  then have x: "- 2147483648 \<le> x" "x < 0" using assms by (auto simp: i32_ok_def INT32_MIN_def)
  then have "(x + 2 ^ 32) mod 2 ^ 32 = x + 2 ^ 32" by (intro mod_pos_pos_trivial) auto
  moreover have "(x + 2 ^ 32) mod 2 ^ 32 = x mod 2 ^ 32" by (rule mod_add_self2)
  ultimately have "x mod 2 ^ 32 = x + 2 ^ 32" by (simp only:)
  then have "u32 x = nat (x + 2 ^ 32)" by (simp only: u32_def)
  moreover have "\<not> nat (x + 2 ^ 32) < 2 ^ 31" "int (nat (x + 2 ^ 32)) = x + 2 ^ 32" using x by auto
  ultimately show ?thesis by (simp only: i32_of_def if_False)
qed

lemma io_read_written [rsimps]: "length b = n \<Longrightarrow> io_read n (s, b @ io) = Some (Ret b, s, io)"
  by (simp add: io_read_def)

lemma rbind_ret [rsimps]: "m st = Some (Ret x, st') \<Longrightarrow> rbind m k st = k x st'"
  by (simp add: rbind_def)

lemma rret_run [rsimps]: "rret x st = Some (Ret x, st)"
  by (simp add: rret_def)

lemma rguard_run [rsimps]: "b \<Longrightarrow> rguard b st = Some (Ret (), st)"
  by (simp add: rguard_def)

lemma rget_run [rsimps]: "f s = Some x \<Longrightarrow> rget f (s, io) = Some (Ret x, s, io)"
  by (simp add: rget_def)

lemma rdo_run [rsimps]: "f s = Some (x, s') \<Longrightarrow> rdo f (s, io) = Some (Ret x, s', io)"
  by (simp add: rdo_def)

lemma rput_run [rsimps]: "f s = Some s' \<Longrightarrow> rput f (s, io) = Some (Ret (), s', io)"
  by (simp add: rput_def)

lemma r_u32_written [rsimps]: "x < 2 ^ 32 \<Longrightarrow> r_u32 (s, w_u32 x @ io) = Some (Ret x, s, io)"
  by (simp add: r_u32_def w_u32_def rsimps dec_enc_le)

lemma r_u64_written [rsimps]: "x < 2 ^ 64 \<Longrightarrow> r_u64 (s, w_u64 x @ io) = Some (Ret x, s, io)"
  by (simp add: r_u64_def w_u64_def rsimps dec_enc_le)

lemma r_i32_written [rsimps]: "i32_ok x \<Longrightarrow> r_i32 (s, w_i32 x @ io) = Some (Ret x, s, io)"
  using u32_less [of x] by (simp add: r_i32_def w_i32_def rsimps dec_enc_le i32_of_u32)

lemma read_string_written: "length b < 2 ^ 32 \<Longrightarrow> read_string (s, write_string b @ io) = Some (Ret b, s, io)"
  by (simp add: read_string_def write_string_def rsimps)

text \<open>A stream too short for what is read makes the reader throw without touching the state.\<close>

lemma io_read_short: "length io < n \<Longrightarrow> io_read n (s, io) = Some (Threw, s, io)"
  by (simp add: io_read_def)

text \<open>The loops over a list whose elements were written one after the other.\<close>

lemma rall_written:
  assumes "\<And>ys x t io. \<exists>zs. xs = ys @ x # zs \<Longrightarrow> P ys t \<Longrightarrow>
      \<exists>t'. f x (t, w x @ io) = Some (Ret True, t', io) \<and> P (ys @ [x]) t'"
    and "P [] s"
  shows "\<exists>s'. rall f xs (s, concat (map w xs) @ io) = Some (Ret True, s', io) \<and> P xs s'"
proof -
  have "\<exists>s'. rall f xs2 (t, concat (map w xs2) @ io) = Some (Ret True, s', io) \<and> P xs s'"
    if "xs = xs1 @ xs2" "P xs1 t" for xs1 xs2 t
    using that
  proof (induction xs2 arbitrary: xs1 t)
    case Nil
    then show ?case by (simp add: rsimps)
  next
    case (Cons x xs2)
    then obtain t' where t': "f x (t, w x @ concat (map w xs2) @ io) = Some (Ret True, t', concat (map w xs2) @ io)"
      "P (xs1 @ [x]) t'"
      using assms(1) [of xs1 x t] by blast
    show ?case
      using Cons.IH [of "xs1 @ [x]" t'] Cons.prems t' by (simp add: rsimps)
  qed
  from this [of "[]" xs s] show ?thesis using assms(2) by simp
qed

end
