(* ===== verification/KvState.thy ===== *)
theory KvState
  imports KvUpdate StateIO
begin

text \<open>
  Saving and restoring the unified cache (src/llama-kv-cache-unified.cpp): \<open>state_write\<close>,
  \<open>state_read\<close> and their metadata and data parts.  Here the cache comes with its K and V buffers.

  \<open>kl_k_row\<close> and \<open>kl_v_row\<close> are the values of \<open>ggml_row_size\<close> for the embedding sizes of the layer,
  \<open>kl_v_el\<close> that of \<open>ggml_type_size\<close>; \<open>kl_k\<close> and \<open>kl_v\<close> are \<open>k_stream\<close> and \<open>v_stream\<close>, one buffer
  for each stream.
\<close>

record kv_layer =
  kl_k_type :: int
  kl_k_row :: nat
  kl_v_type :: int
  kl_v_row :: nat
  kl_v_el :: nat
  kl_n_embd_v_gqa :: nat
  kl_k :: "bytes list"
  kl_v :: "bytes list"

record kv_store =
  ks_kv :: kv_cache
  ks_layers :: "kv_layer list"
  ks_n_pos_per_embd :: nat

subsection \<open>\<open>state_write\<close>\<close>

definition sw_meta_cell :: "kv_cache \<Rightarrow> kv_cells \<Rightarrow> llama_seq_id \<Rightarrow> nat \<Rightarrow> bytes option" where
  "sw_meta_cell kv c seq_id i = do {
     seq_ids \<leftarrow> foldM (\<lambda>cur ids.
         if cur = seq_id \<or> seq_id = - 1
         then do { has \<leftarrow> kc_seq_has c i cur; Some (if has then ids @ [cur] else ids) }
         else Some ids) (map int [0..<kv_n_seq_max kv]) [];
     pos \<leftarrow> kc_pos_get c i;
     Some (w_i32 pos @ w_u32 (length seq_ids) @ concat (map w_i32 seq_ids)) }"

definition kv_state_write_meta :: "kv_cache \<Rightarrow> nat \<Rightarrow> (nat \<times> nat) list \<Rightarrow> llama_seq_id \<Rightarrow> bytes option" where
  "kv_state_write_meta kv st rs seq_id = do {
     c \<leftarrow> vget (kv_cells_v kv) st;
     concatM (\<lambda>(a, b). concatM (sw_meta_cell kv c seq_id) [a..<b]) rs }"

definition sw_keys :: "nat \<Rightarrow> (nat \<times> nat) list \<Rightarrow> kv_layer \<Rightarrow> bytes option" where
  "sw_keys st rs l = do {
     k \<leftarrow> vget (kl_k l) st;
     rows \<leftarrow> concatM (\<lambda>(a, b). tensor_get k (a * kl_k_row l) ((b - a) * kl_k_row l)) rs;
     Some (w_i32 (kl_k_type l) @ w_u64 (kl_k_row l) @ rows) }"

definition sw_values :: "nat \<Rightarrow> (nat \<times> nat) list \<Rightarrow> kv_layer \<Rightarrow> bytes option" where
  "sw_values st rs l = do {
     v \<leftarrow> vget (kl_v l) st;
     rows \<leftarrow> concatM (\<lambda>(a, b). tensor_get v (a * kl_v_row l) ((b - a) * kl_v_row l)) rs;
     Some (w_i32 (kl_v_type l) @ w_u64 (kl_v_row l) @ rows) }"

text \<open>
  The offset of a transposed value is a product of \<open>uint32_t\<close>s when it is written, and a \<open>uint32_t\<close> index times a
  \<open>size_t\<close> when it is read: one wraps around at 4 GiB, the other at \<open>2\<^sup>3\<^sup>2\<close> elements.
\<close>

definition sw_values_trans :: "nat \<Rightarrow> nat \<Rightarrow> (nat \<times> nat) list \<Rightarrow> kv_layer \<Rightarrow> bytes option" where
  "sw_values_trans kv_size st rs l = do {
     v \<leftarrow> vget (kl_v l) st;
     cols \<leftarrow> concatM (\<lambda>j. concatM (\<lambda>(a, b). tensor_get v (u32 (int ((a + j * kv_size) * kl_v_el l))) ((b - a) * kl_v_el l)) rs)
       [0..<kl_n_embd_v_gqa l];
     Some (w_i32 (kl_v_type l) @ w_u32 (kl_v_el l) @ w_u32 (kl_n_embd_v_gqa l) @ cols) }"

definition kv_state_write_data :: "kv_store \<Rightarrow> nat \<Rightarrow> (nat \<times> nat) list \<Rightarrow> bytes option" where
  "kv_state_write_data s st rs = do {
     c \<leftarrow> vget (kv_cells_v (ks_kv s)) st;
     let v_trans = kv_v_trans (ks_kv s);
     keys \<leftarrow> concatM (sw_keys st rs) (ks_layers s);
     values \<leftarrow> (if \<not> v_trans then concatM (sw_values st rs) (ks_layers s)
       else concatM (sw_values_trans (kc_size c) st rs) (ks_layers s));
     Some (w_u32 (if v_trans then 1 else 0) @ w_u32 (length (ks_layers s)) @ keys @ values) }"

definition sw_stream :: "kv_store \<Rightarrow> llama_seq_id \<Rightarrow> nat \<Rightarrow> bytes option" where
  "sw_stream s seq_id st = do {
     c \<leftarrow> vget (kv_cells_v (ks_kv s)) st;
     (count, rs) \<leftarrow> cell_ranges (\<lambda>i. do {
         e \<leftarrow> kc_is_empty c i;
         if e then Some False
         else if seq_id = - 1 then Some True
         else kc_seq_has c i seq_id }) (kc_size c);
     if count = 0 then Some (w_u32 count) else do {
       meta \<leftarrow> kv_state_write_meta (ks_kv s) st rs seq_id;
       data \<leftarrow> kv_state_write_data s st rs;
       Some (w_u32 count @ meta @ data) } }"

definition kv_state_write :: "kv_store \<Rightarrow> llama_seq_id \<Rightarrow> bytes option" where
  "kv_state_write s seq_id = do {
     b \<leftarrow> concatM (sw_stream s seq_id) [0..<kv_n_stream (ks_kv s)];
     Some (w_u32 (kv_n_stream (ks_kv s)) @ b) }"

subsection \<open>\<open>state_read_meta\<close>\<close>

definition ks_do :: "(kv_cache \<Rightarrow> kv_cache option) \<Rightarrow> (kv_store, unit) reader" where
  "ks_do f = rput (\<lambda>s. map_option (\<lambda>kv. s\<lparr>ks_kv := kv\<rparr>) (f (ks_kv s)))"

text \<open>\<open>clear(true)\<close> also zeroes the buffers.\<close>

definition ks_clear :: "kv_store \<Rightarrow> kv_store" where
  "ks_clear s = s\<lparr>ks_kv := kv_clear (ks_kv s),
     ks_layers := map (\<lambda>l. l\<lparr>kl_k := map (map (\<lambda>_. 0)) (kl_k l), kl_v := map (map (\<lambda>_. 0)) (kl_v l)\<rparr>) (ks_layers s)\<rparr>"

text \<open>
  Restoring one sequence: the cells become the tokens of a micro-batch, \<open>None\<close> inside the reader
  being \<open>return false\<close>.
\<close>

fun sr_seq_cells :: "llama_seq_id \<Rightarrow> nat list \<Rightarrow> llama_ubatch \<Rightarrow> ('s, llama_ubatch option) reader" where
  "sr_seq_cells dest [] ub = rret (Some ub)"
| "sr_seq_cells dest (i # is) ub =
     rbind r_i32 (\<lambda>pos.
     rbind r_u32 (\<lambda>n_seq_id.
       if n_seq_id \<noteq> 1 then rret None
       else rbind r_i32 (\<lambda>seq_id.
         sr_seq_cells dest is (ub\<lparr>ub_pos := (ub_pos ub)[i := pos],
           ub_n_seq_id := (ub_n_seq_id ub)[i := int n_seq_id],
           ub_seq_id := (ub_seq_id ub)[i := [dest]]\<rparr>))))"

definition sr_place :: "llama_ubatch \<Rightarrow> nat \<Rightarrow> nat \<Rightarrow> llama_seq_id \<Rightarrow> kv_cache \<Rightarrow> (bool \<times> kv_cache) option" where
  "sr_place ub strm cell_count dest kv = do {
     si \<leftarrow> kv_find_slot kv ub True;
     if si_empty si then Some (False, kv) else do {
       kv \<leftarrow> kv_apply_ubatch si ub kv;
       head_cur \<leftarrow> si_head si;
       heads \<leftarrow> vset (kv_heads kv) strm head_cur;
       let kv = kv\<lparr>kv_heads := heads\<rparr>;
       c \<leftarrow> vget (kv_cells_v kv) strm;
       guard (head_cur + cell_count \<le> kc_size c);
       p \<leftarrow> kc_pos_get c head_cur;
       p0 \<leftarrow> vget (ub_pos ub) 0;
       guard (p = p0);
       p \<leftarrow> kc_pos_get c (head_cur + cell_count - 1);
       p1 \<leftarrow> vget (ub_pos ub) (cell_count - 1);
       guard (p = p1);
       b \<leftarrow> kc_seq_has c head_cur dest;
       guard b;
       b \<leftarrow> kc_seq_has c (head_cur + cell_count - 1) dest;
       guard b;
       Some (True, kv) } }"

definition sr_meta_seq :: "nat \<Rightarrow> nat \<Rightarrow> llama_seq_id \<Rightarrow> (kv_store, bool) reader" where
  "sr_meta_seq strm cell_count dest =
     rbind (ks_do (\<lambda>kv. map_option snd (kv_seq_rm kv dest (- 1) (- 1)))) (\<lambda>_.
     rbind (rget (\<lambda>s. do {
         (ub, a) \<leftarrow> ba_ubatch_reserve cell_count 1 (ba_new (ks_n_pos_per_embd s));
         Some (ub\<lparr>ub_seq_id_unq := (ub_seq_id_unq ub)[0 := dest]\<rparr>) })) (\<lambda>ub.
     rbind (sr_seq_cells dest [0..<cell_count] ub) (\<lambda>r. case r of
         None \<Rightarrow> rret False
       | Some ub \<Rightarrow> rdo (\<lambda>s. do {
           (ok, kv) \<leftarrow> sr_place ub strm cell_count dest (ks_kv s);
           Some (ok, s\<lparr>ks_kv := kv\<rparr>) }))))"

text \<open>Restoring the whole cache: the cells are filled from cell 0.\<close>

definition ks_do_cells :: "nat \<Rightarrow> (kv_cells \<Rightarrow> kv_cells option) \<Rightarrow> (kv_store, unit) reader" where
  "ks_do_cells strm f = ks_do (\<lambda>kv. do {
     c \<leftarrow> vget (kv_cells_v kv) strm;
     c \<leftarrow> f c;
     Some (kv\<lparr>kv_cells_v := (kv_cells_v kv)[strm := c]\<rparr>) })"

definition sr_cell_seq :: "nat \<Rightarrow> nat \<Rightarrow> nat \<Rightarrow> (kv_store, bool) reader" where
  "sr_cell_seq strm i j =
     rbind r_i32 (\<lambda>seq_id.
     rbind (rget (\<lambda>s. Some (kv_n_seq_max (ks_kv s)))) (\<lambda>n_seq_max.
       if seq_id < 0 \<or> u32 seq_id \<ge> n_seq_max then rret False
       else rbind (ks_do_cells strm (\<lambda>c. kc_seq_add c i seq_id)) (\<lambda>_. rret True)))"

definition sr_cell :: "nat \<Rightarrow> nat \<Rightarrow> (kv_store, bool) reader" where
  "sr_cell strm i =
     rbind r_i32 (\<lambda>pos.
     rbind r_u32 (\<lambda>n_seq_id.
     rbind (ks_do_cells strm (\<lambda>c. kc_pos_set c i pos)) (\<lambda>_.
       rall (sr_cell_seq strm i) [0..<n_seq_id])))"

definition sr_meta_all :: "nat \<Rightarrow> nat \<Rightarrow> (kv_store, bool) reader" where
  "sr_meta_all strm cell_count =
     rbind (rget (\<lambda>s. map_option kc_size (vget (kv_cells_v (ks_kv s)) strm))) (\<lambda>sz.
       if cell_count > sz then rret False
       else
         rbind (rput (\<lambda>s. Some (ks_clear s))) (\<lambda>_.
         rbind (rall (sr_cell strm) [0..<cell_count]) (\<lambda>ok.
           if \<not> ok then rret False
           else rbind (ks_do (\<lambda>kv. do {
               heads \<leftarrow> vset (kv_heads kv) strm 0;
               Some (kv\<lparr>kv_heads := heads\<rparr>) })) (\<lambda>_. rret True))))"

definition kv_state_read_meta :: "nat \<Rightarrow> nat \<Rightarrow> llama_seq_id \<Rightarrow> (kv_store, bool) reader" where
  "kv_state_read_meta strm cell_count dest =
     (if dest \<noteq> - 1 then sr_meta_seq strm cell_count dest else sr_meta_all strm cell_count)"

subsection \<open>\<open>state_read_data\<close>\<close>

definition ks_layer :: "nat \<Rightarrow> kv_store \<Rightarrow> kv_layer option" where
  "ks_layer il s = vget (ks_layers s) il"

definition ks_put_layer :: "nat \<Rightarrow> (kv_layer \<Rightarrow> kv_layer option) \<Rightarrow> (kv_store, unit) reader" where
  "ks_put_layer il f = rput (\<lambda>s. do {
     l \<leftarrow> vget (ks_layers s) il;
     l \<leftarrow> f l;
     Some (s\<lparr>ks_layers := (ks_layers s)[il := l]\<rparr>) })"

definition sr_set_k :: "nat \<Rightarrow> bytes \<Rightarrow> nat \<Rightarrow> nat \<Rightarrow> kv_layer \<Rightarrow> kv_layer option" where
  "sr_set_k strm b offset n l = do {
     k \<leftarrow> vget (kl_k l) strm;
     k \<leftarrow> tensor_set k b offset n;
     Some (l\<lparr>kl_k := (kl_k l)[strm := k]\<rparr>) }"

definition sr_set_v :: "nat \<Rightarrow> bytes \<Rightarrow> nat \<Rightarrow> nat \<Rightarrow> kv_layer \<Rightarrow> kv_layer option" where
  "sr_set_v strm b offset n l = do {
     v \<leftarrow> vget (kl_v l) strm;
     v \<leftarrow> tensor_set v b offset n;
     Some (l\<lparr>kl_v := (kl_v l)[strm := v]\<rparr>) }"

definition sr_keys :: "nat \<Rightarrow> nat \<Rightarrow> nat \<Rightarrow> nat \<Rightarrow> (kv_store, bool) reader" where
  "sr_keys strm head cell_count il =
     rbind (rget (ks_layer il)) (\<lambda>l.
     rbind r_i32 (\<lambda>k_type_i_ref.
       if kl_k_type l \<noteq> k_type_i_ref then rret False
       else rbind r_u64 (\<lambda>k_size_row_ref.
         if kl_k_row l \<noteq> k_size_row_ref then rret False
         else if cell_count \<noteq> 0 then
           rbind (io_read (cell_count * kl_k_row l)) (\<lambda>b.
           rbind (ks_put_layer il (sr_set_k strm b (head * kl_k_row l) (cell_count * kl_k_row l))) (\<lambda>_. rret True))
         else rret True)))"

definition sr_values :: "nat \<Rightarrow> nat \<Rightarrow> nat \<Rightarrow> nat \<Rightarrow> (kv_store, bool) reader" where
  "sr_values strm head cell_count il =
     rbind (rget (ks_layer il)) (\<lambda>l.
     rbind r_i32 (\<lambda>v_type_i_ref.
       if kl_v_type l \<noteq> v_type_i_ref then rret False
       else rbind r_u64 (\<lambda>v_size_row_ref.
         if kl_v_row l \<noteq> v_size_row_ref then rret False
         else if cell_count \<noteq> 0 then
           rbind (io_read (cell_count * kl_v_row l)) (\<lambda>b.
           rbind (ks_put_layer il (sr_set_v strm b (head * kl_v_row l) (cell_count * kl_v_row l))) (\<lambda>_. rret True))
         else rret True)))"

definition sr_values_trans :: "nat \<Rightarrow> nat \<Rightarrow> nat \<Rightarrow> nat \<Rightarrow> nat \<Rightarrow> (kv_store, bool) reader" where
  "sr_values_trans sz strm head cell_count il =
     rbind (rget (ks_layer il)) (\<lambda>l.
     rbind r_i32 (\<lambda>v_type_i_ref.
       if kl_v_type l \<noteq> v_type_i_ref then rret False
       else rbind r_u32 (\<lambda>v_size_el_ref.
         if kl_v_el l \<noteq> v_size_el_ref then rret False
         else rbind r_u32 (\<lambda>n_embd_ref.
           if kl_n_embd_v_gqa l \<noteq> n_embd_ref then rret False
           else if cell_count \<noteq> 0 then
             rall (\<lambda>j. rbind (io_read (cell_count * kl_v_el l)) (\<lambda>b.
               rbind (ks_put_layer il (sr_set_v strm b (u32 (int (head + j * sz)) * kl_v_el l) (cell_count * kl_v_el l))) (\<lambda>_. rret True)))
               [0..<kl_n_embd_v_gqa l]
           else rret True))))"

definition kv_state_read_data :: "nat \<Rightarrow> nat \<Rightarrow> (kv_store, bool) reader" where
  "kv_state_read_data strm cell_count =
     rbind (rget (\<lambda>s. vget (kv_cells_v (ks_kv s)) strm)) (\<lambda>c.
     rbind (rget (\<lambda>s. vget (kv_heads (ks_kv s)) strm)) (\<lambda>head.
     rbind (rget (\<lambda>s. Some (kv_v_trans (ks_kv s), length (ks_layers s)))) (\<lambda>(v_trans, n).
     rbind r_u32 (\<lambda>v_trans_ref.
     rbind r_u32 (\<lambda>n_layer.
       if n_layer \<noteq> n then rret False
       else if cell_count > kc_size c then rret False
       else if v_trans \<noteq> (v_trans_ref \<noteq> 0) then rret False
       else rbind (rall (sr_keys strm head cell_count) [0..<n]) (\<lambda>ok.
         if \<not> ok then rret False
         else if \<not> v_trans then rall (sr_values strm head cell_count) [0..<n]
         else rall (sr_values_trans (kc_size c) strm head cell_count) [0..<n]))))))"

subsection \<open>\<open>state_read\<close>\<close>

definition sr_stream :: "llama_seq_id \<Rightarrow> nat \<Rightarrow> unit \<Rightarrow> (kv_store, unit) reader" where
  "sr_stream seq_id s u =
     rbind r_u32 (\<lambda>cell_count.
       if cell_count = 0 then rret ()
       else
         rbind (rget (\<lambda>ks. if seq_id = - 1 then Some s else vget (kv_seq_to_stream (ks_kv ks)) (nat seq_id))) (\<lambda>strm.
         rbind (kv_state_read_meta strm cell_count seq_id) (\<lambda>res.
         rbind (if res then kv_state_read_data strm cell_count else rret False) (\<lambda>res.
           if res then rret ()
           else rbind (if seq_id = - 1 then rput (\<lambda>ks. Some (ks_clear ks))
                       else ks_do (\<lambda>kv. map_option snd (kv_seq_rm kv seq_id (- 1) (- 1)))) (\<lambda>_. rthrow)))))"

definition kv_state_read :: "llama_seq_id \<Rightarrow> (kv_store, unit) reader" where
  "kv_state_read seq_id =
     rbind (rget (\<lambda>s. do {
         guard (seq_id = - 1 \<or> (0 \<le> seq_id \<and> nat seq_id < length (kv_seq_to_stream (ks_kv s))));
         Some (kv_n_stream (ks_kv s)) })) (\<lambda>n_stream.
     rbind r_u32 (\<lambda>n_stream_cur.
       if n_stream_cur \<noteq> n_stream then rthrow
       else rfor (sr_stream seq_id) [0..<n_stream] ()))"

end
