(* ===== verification/KvStateInv.thy ===== *)
theory KvStateInv
  imports KvState
begin

text \<open>
  What \<open>state_write\<close> writes, and what \<open>state_read\<close> makes of it: the ranges cover the selected cells
  in order, the bytes are those of the cells and of their rows in the buffers, and reading them
  fills consecutive cells with the same positions, sequences and rows.
\<close>

subsection \<open>The ranges of cells\<close>

definition range_cells :: "(nat \<times> nat) list \<Rightarrow> nat list" where
  "range_cells rs = concat (map (\<lambda>(a, b). [a..<b]) rs)"

lemma range_cells_snoc [simp]: "range_cells (rs @ [(a, b)]) = range_cells rs @ [a..<b]"
  by (simp add: range_cells_def)

lemma length_range_cells: "length (range_cells rs) = sum_list (map (\<lambda>(a, b). b - a) rs)"
  by (induction rs) (auto simp: range_cells_def)

definition cr_inv :: "(nat \<Rightarrow> bool) \<Rightarrow> nat \<Rightarrow> nat \<Rightarrow> nat \<times> nat \<times> (nat \<times> nat) list \<Rightarrow> bool" where
  "cr_inv S sz i st \<longleftrightarrow> (case st of (count, beg, rs) \<Rightarrow>
     count = length (filter S [0..<i]) \<and> (\<forall>(a, b) \<in> set rs. a \<le> b \<and> b \<le> i) \<and>
     (if beg = sz then range_cells rs = filter S [0..<i] else beg < i \<and> range_cells rs @ [beg..<i] = filter S [0..<i]))"

lemma cr_step_ok:
  assumes "sel i = Some (S i)" "i < sz" "cr_inv S sz i st"
  shows "\<exists>st'. cr_step sel sz i st = Some st' \<and> cr_inv S sz (Suc i) st'"
proof -
  obtain count beg rs where st: "st = (count, beg, rs)" by (cases st) auto
  have ext: "[a..<Suc i] = [a..<i] @ [i]" if "a \<le> i" for a using that by simp
  have f: "filter S [0..<Suc i] = filter S [0..<i] @ (if S i then [i] else [])" by (simp add: ext)
  show ?thesis
    using assms ext [of beg] ext [of i] by (cases "S i"; cases "beg = sz") (auto simp: st cr_step_def cr_inv_def f simp del: upt_Suc filter.simps)
qed

lemma cell_ranges_ok:
  assumes "\<And>i. i < sz \<Longrightarrow> sel i = Some (S i)"
  shows "\<exists>rs. cell_ranges sel sz = Some (length (filter S [0..<sz]), rs) \<and> range_cells rs = filter S [0..<sz] \<and>
    (\<forall>(a, b) \<in> set rs. a \<le> b \<and> b \<le> sz)"
proof -
  have "\<exists>st. foldM (cr_step sel sz) [0..<sz] (0, sz, []) = Some st \<and> cr_inv S sz sz st"
  proof (rule foldM_upt_rule [where P = "cr_inv S sz"])
    show "cr_inv S sz 0 (0, sz, [])" by (simp add: cr_inv_def range_cells_def)
  qed (use assms cr_step_ok in blast)
  then obtain count beg rs where f: "foldM (cr_step sel sz) [0..<sz] (0, sz, []) = Some (count, beg, rs)"
    "cr_inv S sz sz (count, beg, rs)" by auto
  let ?rs = "if beg \<noteq> sz then rs @ [(beg, sz)] else rs"
  have r: "range_cells ?rs = filter S [0..<sz]" "\<forall>(a, b) \<in> set ?rs. a \<le> b \<and> b \<le> sz" "count = length (filter S [0..<sz])"
    using f(2) by (auto simp: cr_inv_def split: if_splits)
  then show ?thesis using f(1) length_range_cells [of ?rs] by (simp add: cell_ranges_def Let_def)
qed

subsection \<open>The written bytes\<close>

lemma concatM_all: "(\<And>x. x \<in> set xs \<Longrightarrow> f x = Some (g x)) \<Longrightarrow> concatM f xs = Some (concat (map g xs))"
proof -
  assume "\<And>x. x \<in> set xs \<Longrightarrow> f x = Some (g x)"
  then have "mapM f xs = Some (map g xs)" by (induction xs) auto
  then show ?thesis by (simp add: concatM_def)
qed

lemma concatM_ranges:
  assumes "\<And>a b. (a, b) \<in> set rs \<Longrightarrow> f (a, b) = Some (concat (map g [a..<b]))"
  shows "concatM f rs = Some (concat (map g (range_cells rs)))"
proof -
  have "concatM f rs = Some (concat (map (\<lambda>(a, b). concat (map g [a..<b])) rs))"
    by (rule concatM_all) (use assms in auto)
  also have "concat (map (\<lambda>(a, b). concat (map g [a..<b])) rs) = concat (map g (range_cells rs))"
    by (induction rs) (auto simp: range_cells_def)
  finally show ?thesis .
qed

text \<open>Row \<open>i\<close> of a buffer whose rows have \<open>row\<close> bytes.\<close>

definition row_at :: "bytes \<Rightarrow> nat \<Rightarrow> nat \<Rightarrow> bytes" where
  "row_at t row i = take row (drop (i * row) t)"

lemma row_at_length: "Suc i * row \<le> length t \<Longrightarrow> length (row_at t row i) = row"
  by (simp add: row_at_def)

lemma rows_split: "a \<le> b \<Longrightarrow> take ((b - a) * row) (drop (a * row) t) = concat (map (row_at t row) [a..<b])"
proof (induction b)
  case (Suc b)
  show ?case
  proof (cases "a = Suc b")
    case False
    then have ab: "a \<le> b" using Suc.prems by simp
    have "take ((Suc b - a) * row) (drop (a * row) t) = take ((b - a) * row + row) (drop (a * row) t)"
      using ab by (simp add: Suc_diff_le add.commute)
    also have "\<dots> = take ((b - a) * row) (drop (a * row) t) @ take row (drop ((b - a) * row + a * row) t)"
      by (simp add: take_add)
    also have "(b - a) * row + a * row = b * row" using ab by (simp flip: add_mult_distrib)
    finally show ?thesis using Suc.IH [OF ab] ab by (simp add: row_at_def)
  qed simp
qed simp

lemma tensor_get_rows:
  assumes "b * row \<le> length t" "a \<le> b"
  shows "tensor_get t (a * row) ((b - a) * row) = Some (concat (map (row_at t row) [a..<b]))"
proof -
  have "a * row + (b - a) * row = b * row" using assms(2) by (simp flip: add_mult_distrib)
  then show ?thesis using assms(1) rows_split [OF assms(2)] by (simp add: tensor_get_def)
qed

text \<open>Rows of a buffer after some were set, and rows of bytes that are rows put together.\<close>

lemma row_at_concat:
  "(\<And>r. r \<in> set rs \<Longrightarrow> length r = row) \<Longrightarrow> k < length rs \<Longrightarrow> row_at (concat rs) row k = rs ! k"
proof (induction rs arbitrary: k)
  case (Cons r rs)
  show ?case
  proof (cases k)
    case 0
    then show ?thesis using Cons.prems(1) [of r] by (simp add: row_at_def)
  next
    case (Suc j)
    have "row_at (concat (r # rs)) row (Suc j) = row_at (concat rs) row j"
      using Cons.prems(1) [of r] by (simp add: row_at_def)
    then show ?thesis using Cons Suc by simp
  qed
qed simp

lemma concat_rows_length: "(\<And>r. r \<in> set rs \<Longrightarrow> length r = row) \<Longrightarrow> length (concat rs) = length rs * row"
  by (induction rs) auto

lemma tensor_set_rows:
  assumes fit: "(h + n) * row \<le> length t" and data: "length data = n * row"
  shows "\<exists>t'. tensor_set t data (h * row) (n * row) = Some t' \<and> length t' = length t \<and>
    (\<forall>k < n. row_at t' row (h + k) = row_at data row k) \<and>
    (\<forall>j. j < h \<or> h + n \<le> j \<longrightarrow> row_at t' row j = row_at t row j)"
proof -
  let ?t = "take (h * row) t @ data @ drop (h * row + n * row) t"
  have len: "h * row + n * row \<le> length t" using fit by (simp add: add_mult_distrib)
  have "row_at ?t row (h + k) = row_at data row k" if "k < n" for k
  proof -
    have "Suc k * row \<le> n * row" using that by (intro mult_le_mono1) simp
    then show ?thesis using len data by (simp add: row_at_def add_mult_distrib)
  qed
  moreover have "row_at ?t row j = row_at t row j" if "j < h" for j
  proof -
    have "Suc j * row \<le> h * row" using that by (intro mult_le_mono1) simp
    then have j: "j * row + row \<le> h * row" by simp
    have "take row (drop (j * row) t) = take row (take (h * row - j * row) (drop (j * row) t))" using j by (simp add: min_absorb1)
    then show ?thesis using j len by (simp add: row_at_def drop_take)
  qed
  moreover have "row_at ?t row j = row_at t row j" if "h + n \<le> j" for j
  proof -
    have "(h + n) * row \<le> j * row" using that by (rule mult_le_mono1)
    then have j: "h * row + n * row \<le> j * row" by (simp add: add_mult_distrib)
    then have "drop (j * row) ?t = drop (j * row - (h * row + n * row)) (drop (h * row + n * row) t)" using len data that by simp
    also have "\<dots> = drop (j * row) t" using j by simp
    finally show ?thesis by (simp only: row_at_def)
  qed
  ultimately have "\<forall>j. j < h \<or> h + n \<le> j \<longrightarrow> row_at ?t row j = row_at t row j" by blast
  moreover have "tensor_set t data (h * row) (n * row) = Some ?t" "length ?t = length t" using len data by (simp_all add: tensor_set_def)
  ultimately show ?thesis using \<open>\<And>k. k < n \<Longrightarrow> row_at ?t row (h + k) = row_at data row k\<close> by blast
qed

text \<open>A store whose buffers hold a row for every cell and whose sizes fit their fields.\<close>

text \<open>The buffers of a layer are large enough; a transposed V buffer is below 4 GiB, where its offsets fit 32 bits.\<close>

definition layer_wf :: "kv_cache \<Rightarrow> kv_layer \<Rightarrow> bool" where
  "layer_wf kv l \<longleftrightarrow> i32_ok (kl_k_type l) \<and> i32_ok (kl_v_type l) \<and> kl_k_row l < 2 ^ 64 \<and> kl_v_row l < 2 ^ 64 \<and>
     kl_v_el l < 2 ^ 32 \<and> kl_n_embd_v_gqa l < 2 ^ 32 \<and> length (kl_k l) = kv_n_stream kv \<and> length (kl_v l) = kv_n_stream kv \<and>
     (\<forall>st < kv_n_stream kv. kc_size (kv_cells_v kv ! st) * kl_k_row l \<le> length (kl_k l ! st) \<and>
        (if kv_v_trans kv then kl_n_embd_v_gqa l * kc_size (kv_cells_v kv ! st) * kl_v_el l \<le> length (kl_v l ! st) \<and>
           kl_n_embd_v_gqa l * kc_size (kv_cells_v kv ! st) * kl_v_el l < 2 ^ 32
         else kc_size (kv_cells_v kv ! st) * kl_v_row l \<le> length (kl_v l ! st)))"

definition ks_wf :: "kv_store \<Rightarrow> bool" where
  "ks_wf s \<longleftrightarrow> kv_wf (ks_kv s) \<and> kv_n_seq_max (ks_kv s) \<le> LLAMA_MAX_SEQ \<and> kv_n_stream (ks_kv s) < 2 ^ 32 \<and>
     length (ks_layers s) < 2 ^ 32 \<and> (\<forall>c \<in> set (kv_cells_v (ks_kv s)). kc_size c < 2 ^ 32) \<and>
     (\<forall>l \<in> set (ks_layers s). layer_wf (ks_kv s) l)"

text \<open>The cells to be written, in order, and the sequence ids written for a cell.\<close>

definition sw_cells :: "kv_cells \<Rightarrow> llama_seq_id \<Rightarrow> nat list" where
  "sw_cells c q = filter (\<lambda>i. kc_pos c ! i \<noteq> - 1 \<and> (q = - 1 \<or> q \<in> kc_seq c ! i)) [0..<kc_size c]"

definition sw_ids :: "nat \<Rightarrow> kv_cells \<Rightarrow> llama_seq_id \<Rightarrow> nat \<Rightarrow> llama_seq_id list" where
  "sw_ids n c q i = filter (\<lambda>r. (r = q \<or> q = - 1) \<and> r \<in> kc_seq c ! i) (map int [0..<n])"

definition w_cell :: "nat \<Rightarrow> kv_cells \<Rightarrow> llama_seq_id \<Rightarrow> nat \<Rightarrow> bytes" where
  "w_cell n c q i = w_i32 (kc_pos c ! i) @ w_u32 (length (sw_ids n c q i)) @ concat (map w_i32 (sw_ids n c q i))"

definition w_keys :: "nat \<Rightarrow> nat list \<Rightarrow> kv_layer \<Rightarrow> bytes" where
  "w_keys st us l = w_i32 (kl_k_type l) @ w_u64 (kl_k_row l) @ concat (map (row_at (kl_k l ! st) (kl_k_row l)) us)"

definition w_values :: "nat \<Rightarrow> nat list \<Rightarrow> kv_layer \<Rightarrow> bytes" where
  "w_values st us l = w_i32 (kl_v_type l) @ w_u64 (kl_v_row l) @ concat (map (row_at (kl_v l ! st) (kl_v_row l)) us)"

definition w_col :: "nat \<Rightarrow> nat \<Rightarrow> nat list \<Rightarrow> kv_layer \<Rightarrow> nat \<Rightarrow> bytes" where
  "w_col sz st us l j = concat (map (\<lambda>i. row_at (kl_v l ! st) (kl_v_el l) (i + j * sz)) us)"

definition w_values_trans :: "nat \<Rightarrow> nat \<Rightarrow> nat list \<Rightarrow> kv_layer \<Rightarrow> bytes" where
  "w_values_trans sz st us l = w_i32 (kl_v_type l) @ w_u32 (kl_v_el l) @ w_u32 (kl_n_embd_v_gqa l) @
     concat (map (w_col sz st us l) [0..<kl_n_embd_v_gqa l])"

definition w_data :: "kv_store \<Rightarrow> nat \<Rightarrow> nat list \<Rightarrow> bytes" where
  "w_data s st us = w_u32 (if kv_v_trans (ks_kv s) then 1 else 0) @ w_u32 (length (ks_layers s)) @
     concat (map (w_keys st us) (ks_layers s)) @
     concat (map (if kv_v_trans (ks_kv s) then w_values_trans (kc_size (kv_cells_v (ks_kv s) ! st)) st us else w_values st us) (ks_layers s))"

definition w_stream :: "kv_store \<Rightarrow> llama_seq_id \<Rightarrow> nat \<Rightarrow> bytes" where
  "w_stream s q st = (let c = kv_cells_v (ks_kv s) ! st; us = sw_cells c q in
     if us = [] then w_u32 0
     else w_u32 (length us) @ concat (map (w_cell (kv_n_seq_max (ks_kv s)) c q) us) @ w_data s st us)"

lemma sw_ids_fold:
  assumes "i < length (kc_pos c)" "\<forall>r \<in> set rs. seq_ok r"
  shows "foldM (\<lambda>cur ids. if cur = q \<or> q = - 1
      then do { has \<leftarrow> kc_seq_has c i cur; Some (if has then ids @ [cur] else ids) } else Some ids) rs ids =
    Some (ids @ filter (\<lambda>r. (r = q \<or> q = - 1) \<and> r \<in> kc_seq c ! i) rs)"
  using assms by (induction rs arbitrary: ids) (auto simp: kc_seq_has_def)

lemma sw_meta_cell_ok:
  assumes "kv_n_seq_max kv \<le> LLAMA_MAX_SEQ" "i < length (kc_pos c)" "kc_pos c ! i \<noteq> - 1"
  shows "sw_meta_cell kv c q i = Some (w_cell (kv_n_seq_max kv) c q i)"
proof -
  have "\<forall>r \<in> set (map int [0..<kv_n_seq_max kv]). seq_ok r" using assms(1) by (auto simp: seq_ok_def)
  from sw_ids_fold [OF assms(2) this, of q "[]"] show ?thesis
    using assms by (simp add: sw_meta_cell_def w_cell_def sw_ids_def kc_pos_get_def)
qed

lemma layer_wfD:
  assumes "layer_wf kv l" "st < kv_n_stream kv" "b \<le> kc_size (kv_cells_v kv ! st)"
  shows "st < length (kl_k l)" "st < length (kl_v l)" "b * kl_k_row l \<le> length (kl_k l ! st)"
    "\<not> kv_v_trans kv \<Longrightarrow> b * kl_v_row l \<le> length (kl_v l ! st)"
    "kv_v_trans kv \<Longrightarrow> j < kl_n_embd_v_gqa l \<Longrightarrow> (b + j * kc_size (kv_cells_v kv ! st)) * kl_v_el l \<le> length (kl_v l ! st)"
proof -
  let ?sz = "kc_size (kv_cells_v kv ! st)"
  show "st < length (kl_k l)" "st < length (kl_v l)" using assms by (auto simp: layer_wf_def)
  have le: "b * x \<le> ?sz * x" for x using assms(3) by (rule mult_le_mono1)
  have sz: "?sz * kl_k_row l \<le> length (kl_k l ! st)" "\<not> kv_v_trans kv \<Longrightarrow> ?sz * kl_v_row l \<le> length (kl_v l ! st)"
    using assms(1,2) by (auto simp: layer_wf_def)
  show "b * kl_k_row l \<le> length (kl_k l ! st)" using le sz(1) by (rule le_trans)
  show "b * kl_v_row l \<le> length (kl_v l ! st)" if "\<not> kv_v_trans kv" using le sz(2) [OF that] by (rule le_trans)
  assume t: "kv_v_trans kv" "j < kl_n_embd_v_gqa l"
  have "Suc j * ?sz \<le> kl_n_embd_v_gqa l * ?sz" using t(2) by (intro mult_le_mono1) simp
  then have "b + j * ?sz \<le> kl_n_embd_v_gqa l * ?sz" using assms(3) by simp
  then have "(b + j * ?sz) * kl_v_el l \<le> kl_n_embd_v_gqa l * ?sz * kl_v_el l" by (rule mult_le_mono1)
  also have "\<dots> \<le> length (kl_v l ! st)" using assms(1,2) t(1) by (simp add: layer_wf_def)
  finally show "(b + j * ?sz) * kl_v_el l \<le> length (kl_v l ! st)" .
qed

lemma trans_offset_fits:
  fixes n sz el :: nat
  assumes "n * sz * el < 2 ^ 32" "j < n" "b \<le> sz"
  shows "u32 (int ((b + j * sz) * el)) = (b + j * sz) * el" and "u32 (int (b + j * sz)) * el = (b + j * sz) * el"
proof -
  have "Suc j * sz \<le> n * sz" using assms(2) by (intro mult_le_mono1) simp
  then have le: "b + j * sz \<le> n * sz" using assms(3) by simp
  then have "(b + j * sz) * el \<le> n * sz * el" by (rule mult_le_mono1)
  then have lt: "(b + j * sz) * el < 2 ^ 32" using assms(1) by linarith
  then show "u32 (int ((b + j * sz) * el)) = (b + j * sz) * el" by (rule u32_id)
  show "u32 (int (b + j * sz)) * el = (b + j * sz) * el"
  proof (cases "el = 0")
    case False
    then have "b + j * sz \<le> (b + j * sz) * el" by simp
    then show ?thesis using lt by (simp only: u32_id [OF le_less_trans])
  qed simp
qed

lemma sw_layer_ok:
  assumes l: "layer_wf kv l" "st < kv_n_stream kv" and rs: "\<forall>(a, b) \<in> set rs. a \<le> b \<and> b \<le> kc_size (kv_cells_v kv ! st)"
  shows "sw_keys st rs l = Some (w_keys st (range_cells rs) l)"
    and "\<not> kv_v_trans kv \<Longrightarrow> sw_values st rs l = Some (w_values st (range_cells rs) l)"
    and "kv_v_trans kv \<Longrightarrow> sw_values_trans (kc_size (kv_cells_v kv ! st)) st rs l =
      Some (w_values_trans (kc_size (kv_cells_v kv ! st)) st (range_cells rs) l)"
proof -
  let ?sz = "kc_size (kv_cells_v kv ! st)"
  have r: "a \<le> b" "b \<le> ?sz" if "(a, b) \<in> set rs" for a b using rs that by auto
  have "concatM (\<lambda>(a, b). tensor_get (kl_k l ! st) (a * kl_k_row l) ((b - a) * kl_k_row l)) rs =
      Some (concat (map (row_at (kl_k l ! st) (kl_k_row l)) (range_cells rs)))"
    by (rule concatM_ranges) (use tensor_get_rows layer_wfD(3) [OF l] r in simp)
  then show "sw_keys st rs l = Some (w_keys st (range_cells rs) l)"
    using layer_wfD(1) [OF l, of 0] by (simp add: sw_keys_def w_keys_def)
  show "sw_values st rs l = Some (w_values st (range_cells rs) l)" if nt: "\<not> kv_v_trans kv"
  proof -
    have "concatM (\<lambda>(a, b). tensor_get (kl_v l ! st) (a * kl_v_row l) ((b - a) * kl_v_row l)) rs =
        Some (concat (map (row_at (kl_v l ! st) (kl_v_row l)) (range_cells rs)))"
      by (rule concatM_ranges) (use tensor_get_rows layer_wfD(4) [OF l _ nt] r in simp)
    then show ?thesis using layer_wfD(2) [OF l, of 0] by (simp add: sw_values_def w_values_def)
  qed
  show "sw_values_trans ?sz st rs l = Some (w_values_trans ?sz st (range_cells rs) l)" if t: "kv_v_trans kv"
  proof -
    have small: "kl_n_embd_v_gqa l * ?sz * kl_v_el l < 2 ^ 32" using l t by (auto simp: layer_wf_def)
    have col: "concatM (\<lambda>(a, b). tensor_get (kl_v l ! st) (u32 (int ((a + j * ?sz) * kl_v_el l))) ((b - a) * kl_v_el l)) rs =
        Some (w_col ?sz st (range_cells rs) l j)" if j: "j < kl_n_embd_v_gqa l" for j
      unfolding w_col_def
    proof (rule concatM_ranges, unfold split_conv)
      fix a b
      assume ab: "(a, b) \<in> set rs"
      have "map (row_at (kl_v l ! st) (kl_v_el l)) [a + j * ?sz..<b + j * ?sz] =
          map (\<lambda>i. row_at (kl_v l ! st) (kl_v_el l) (i + j * ?sz)) [a..<b]"
        by (rule nth_equalityI) (simp_all add: ac_simps)
      then show "tensor_get (kl_v l ! st) (u32 (int ((a + j * ?sz) * kl_v_el l))) ((b - a) * kl_v_el l) =
          Some (concat (map (\<lambda>i. row_at (kl_v l ! st) (kl_v_el l) (i + j * ?sz)) [a..<b]))"
        unfolding trans_offset_fits(1) [OF small j le_trans [OF r [OF ab]]]
        using tensor_get_rows [OF layer_wfD(5) [OF l r(2) [OF ab] t j], of "a + j * ?sz"] r(1) [OF ab] by simp
    qed
    have "concatM (\<lambda>j. concatM (\<lambda>(a, b). tensor_get (kl_v l ! st) (u32 (int ((a + j * ?sz) * kl_v_el l))) ((b - a) * kl_v_el l)) rs)
        [0..<kl_n_embd_v_gqa l] = Some (concat (map (w_col ?sz st (range_cells rs) l) [0..<kl_n_embd_v_gqa l]))"
      by (rule concatM_all) (use col in simp)
    then show ?thesis using layer_wfD(2) [OF l, of 0] by (simp add: sw_values_trans_def w_values_trans_def)
  qed
qed

lemma sw_stream_ok:
  assumes wf: "ks_wf s" and st: "st < kv_n_stream (ks_kv s)" and q: "q = - 1 \<or> seq_ok q"
  shows "sw_stream s q st = Some (w_stream s q st)"
proof -
  let ?kv = "ks_kv s"
  let ?c = "kv_cells_v ?kv ! st"
  have kw: "kv_wf ?kv" "kv_n_seq_max ?kv \<le> LLAMA_MAX_SEQ" and lw: "\<And>l. l \<in> set (ks_layers s) \<Longrightarrow> layer_wf ?kv l"
    using wf by (auto simp: ks_wf_def)
  have cw: "kc_wf ?c" by (rule kv_wf_cells [OF kw(1) st])
  have vg: "vget (kv_cells_v ?kv) st = Some ?c" using st kv_wf_len_cells [OF kw(1)] by simp
  let ?us = "sw_cells ?c q"
  let ?sel = "\<lambda>i. do { e \<leftarrow> kc_is_empty ?c i; if e then Some False else if q = - 1 then Some True else kc_seq_has ?c i q }"
  have "?sel i = Some (kc_pos ?c ! i \<noteq> - 1 \<and> (q = - 1 \<or> q \<in> kc_seq ?c ! i))" if "i < kc_size ?c" for i
    using that kc_wf_pos [OF cw, of i] q by (auto simp: kc_is_empty_def kc_seq_has_def kc_size_def)
  from cell_ranges_ok [of "kc_size ?c" ?sel, OF this] obtain rs where
    rs: "cell_ranges ?sel (kc_size ?c) = Some (length ?us, rs)" "range_cells rs = ?us" "\<forall>(a, b) \<in> set rs. a \<le> b \<and> b \<le> kc_size ?c"
    unfolding sw_cells_def by blast
  have cells: "i < length (kc_pos ?c)" "kc_pos ?c ! i \<noteq> - 1" if "i \<in> set ?us" for i
    using that by (auto simp: sw_cells_def kc_size_def)
  have in_range: "i \<in> set ?us" if "(a, b) \<in> set rs" "a \<le> i" "i < b" for a b i
    using that unfolding rs(2) [symmetric] by (force simp: range_cells_def)
  have "concatM (\<lambda>(a, b). concatM (sw_meta_cell ?kv ?c q) [a..<b]) rs = Some (concat (map (w_cell (kv_n_seq_max ?kv) ?c q) ?us))"
    unfolding rs(2) [symmetric]
  proof (rule concatM_ranges, unfold split_conv)
    fix a b
    assume ab: "(a, b) \<in> set rs"
    show "concatM (sw_meta_cell ?kv ?c q) [a..<b] = Some (concat (map (w_cell (kv_n_seq_max ?kv) ?c q) [a..<b]))"
      by (rule concatM_all) (use sw_meta_cell_ok [OF kw(2)] cells in_range [OF ab] in simp)
  qed
  then have meta: "kv_state_write_meta ?kv st rs q = Some (concat (map (w_cell (kv_n_seq_max ?kv) ?c q) ?us))"
    by (simp add: kv_state_write_meta_def vg)
  have "concatM (sw_keys st rs) (ks_layers s) = Some (concat (map (w_keys st ?us) (ks_layers s)))"
    by (rule concatM_all) (simp add: sw_layer_ok(1) [OF lw st rs(3)] rs(2))
  moreover have "concatM (sw_values st rs) (ks_layers s) = Some (concat (map (w_values st ?us) (ks_layers s)))" if "\<not> kv_v_trans ?kv"
    by (rule concatM_all) (simp add: sw_layer_ok(2) [OF lw st rs(3) that] rs(2))
  moreover have "concatM (sw_values_trans (kc_size ?c) st rs) (ks_layers s) =
      Some (concat (map (w_values_trans (kc_size ?c) st ?us) (ks_layers s)))" if "kv_v_trans ?kv"
    by (rule concatM_all) (simp add: sw_layer_ok(3) [OF lw st rs(3) that] rs(2))
  ultimately have "kv_state_write_data s st rs = Some (w_data s st ?us)"
    by (simp add: kv_state_write_data_def w_data_def vg)
  then show ?thesis using rs(1) meta by (simp add: sw_stream_def vg w_stream_def Let_def)
qed

lemma kv_state_write_ok:
  assumes "ks_wf s" "q = - 1 \<or> seq_ok q"
  shows "kv_state_write s q = Some (w_u32 (kv_n_stream (ks_kv s)) @ concat (map (w_stream s q) [0..<kv_n_stream (ks_kv s)]))"
proof -
  have "concatM (sw_stream s q) [0..<kv_n_stream (ks_kv s)] = Some (concat (map (w_stream s q) [0..<kv_n_stream (ks_kv s)]))"
    by (rule concatM_all) (use sw_stream_ok assms in simp)
  then show ?thesis by (simp add: kv_state_write_def)
qed

end
