(* ===== verification/KvStateRead.thy ===== *)
theory KvStateRead
  imports KvStateInv
begin

text \<open>
  Reading what \<open>KvStateInv\<close> says is written: the data part puts the rows of the written cells into
  consecutive rows of the buffers, the metadata part of a whole cache fills the cells from the
  first.
\<close>

subsection \<open>Loops\<close>

lemma rall_upt:
  assumes "\<And>k t io. k < n \<Longrightarrow> P k t \<Longrightarrow> \<exists>t'. f k (t, w k @ io) = Some (Ret True, t', io) \<and> P (Suc k) t'" and "P 0 s"
  shows "\<exists>s'. rall f [0..<n] (s, concat (map w [0..<n]) @ io) = Some (Ret True, s', io) \<and> P n s'"
proof -
  have "\<exists>s'. rall f [0..<n] (s, concat (map w [0..<n]) @ io) = Some (Ret True, s', io) \<and> P (length [0..<n]) s'"
  proof (rule rall_written [where P = "\<lambda>ys. P (length ys)"])
    fix ys x t io
    assume ex: "\<exists>zs. [0..<n] = ys @ x # zs" and P: "P (length ys) t"
    then have "x = length ys" "x < n"
      by (metis append_eq_conv_conj nth_append_length nth_upt add_0 length_upt diff_zero length_append length_Cons less_add_Suc1 add_Suc_right)+
    then show "\<exists>t'. f x (t, w x @ io) = Some (Ret True, t', io) \<and> P (length (ys @ [x])) t'" using assms(1) P by simp
  qed (use assms(2) in simp)
  then show ?thesis by simp
qed

lemma layers_loop:
  assumes "\<And>il t io. il < length ls \<Longrightarrow> il < length (ks_layers t) \<Longrightarrow> ks_layers t ! il = ls ! il \<Longrightarrow>
      \<exists>m. f il (t, w il @ io) = Some (Ret True, t\<lparr>ks_layers := (ks_layers t)[il := m]\<rparr>, io) \<and> R il (ls ! il) m"
    and "ks_layers t = ls"
  shows "\<exists>ms. rall f [0..<length ls] (t, concat (map w [0..<length ls]) @ io) = Some (Ret True, t\<lparr>ks_layers := ms\<rparr>, io) \<and>
    length ms = length ls \<and> (\<forall>il < length ls. R il (ls ! il) (ms ! il))"
proof -
  let ?P = "\<lambda>k u. \<exists>ms. u = t\<lparr>ks_layers := ms\<rparr> \<and> length ms = length ls \<and> (\<forall>il < length ls. if il < k then R il (ls ! il) (ms ! il) else ms ! il = ls ! il)"
  have "\<exists>s'. rall f [0..<length ls] (t, concat (map w [0..<length ls]) @ io) = Some (Ret True, s', io) \<and> ?P (length ls) s'"
  proof (rule rall_upt [where P = ?P])
    show "?P 0 t" using assms(2) by (intro exI [of _ ls]) simp
    fix k u io
    assume k: "k < length ls" and "?P k u"
    then obtain ms where ms: "u = t\<lparr>ks_layers := ms\<rparr>" "length ms = length ls"
      "\<And>il. il < length ls \<Longrightarrow> if il < k then R il (ls ! il) (ms ! il) else ms ! il = ls ! il" by blast
    then obtain m where m: "f k (u, w k @ io) = Some (Ret True, u\<lparr>ks_layers := (ks_layers u)[k := m]\<rparr>, io)" "R k (ls ! k) m"
      using assms(1) [of k u io] k ms(3) [OF k] by auto
    have "?P (Suc k) (t\<lparr>ks_layers := ms[k := m]\<rparr>)"
      by (intro exI [of _ "ms[k := m]"]) (use ms m(2) k in \<open>auto simp: nth_list_update less_Suc_eq\<close>)
    then show "\<exists>u'. f k (u, w k @ io) = Some (Ret True, u', io) \<and> ?P (Suc k) u'" using m(1) ms(1) by auto
  qed
  then show ?thesis by fastforce
qed

subsection \<open>The rows of a layer\<close>

text \<open>The rows \<open>us\<close> of the source, \<open>src\<close>, are the rows from \<open>h\<close> on of the buffer; the other rows are as before.\<close>

definition rows_set :: "nat \<Rightarrow> nat \<Rightarrow> nat list \<Rightarrow> (nat \<Rightarrow> bytes) \<Rightarrow> bytes \<Rightarrow> bytes \<Rightarrow> bool" where
  "rows_set row h us src t t' \<longleftrightarrow> length t' = length t \<and> (\<forall>k < length us. row_at t' row (h + k) = src (us ! k)) \<and>
     (\<forall>j. j < h \<or> h + length us \<le> j \<longrightarrow> row_at t' row j = row_at t row j)"

lemma tensor_set_written:
  assumes fit: "(h + length us) * row \<le> length t" and src: "\<forall>i \<in> set us. length (src i) = row"
  shows "\<exists>t'. tensor_set t (concat (map src us)) (h * row) (length us * row) = Some t' \<and> rows_set row h us src t t'"
    and "length (concat (map src us)) = length us * row"
proof -
  have rl: "length r = row" if "r \<in> set (map src us)" for r using that src by auto
  show len: "length (concat (map src us)) = length us * row" using concat_rows_length [of "map src us" row] rl by simp
  have "row_at (concat (map src us)) row k = src (us ! k)" if "k < length us" for k
    using row_at_concat [of "map src us" row k] rl that by simp
  then show "\<exists>t'. tensor_set t (concat (map src us)) (h * row) (length us * row) = Some t' \<and> rows_set row h us src t t'"
    using tensor_set_rows [OF fit len] by (auto simp: rows_set_def)
qed

text \<open>Layers with the same types and row sizes.\<close>

definition layer_like :: "kv_layer \<Rightarrow> kv_layer \<Rightarrow> bool" where
  "layer_like l m \<longleftrightarrow> kl_k_type m = kl_k_type l \<and> kl_k_row m = kl_k_row l \<and> kl_v_type m = kl_v_type l \<and>
     kl_v_row m = kl_v_row l \<and> kl_v_el m = kl_v_el l \<and> kl_n_embd_v_gqa m = kl_n_embd_v_gqa l"

lemma sr_keys_written:
  assumes il: "il < length (ks_layers t)" "ks_layers t ! il = l" and like: "layer_like l' l"
    and src: "i32_ok (kl_k_type l')" "kl_k_row l' < 2 ^ 64" "\<forall>i \<in> set us. Suc i * kl_k_row l' \<le> length (kl_k l' ! st)"
    and us: "us \<noteq> []" and dst: "strm < length (kl_k l)" "(h + length us) * kl_k_row l \<le> length (kl_k l ! strm)"
  shows "\<exists>k'. sr_keys strm h (length us) il (t, w_keys st us l' @ io) =
      Some (Ret True, t\<lparr>ks_layers := (ks_layers t)[il := l\<lparr>kl_k := (kl_k l)[strm := k']\<rparr>]\<rparr>, io) \<and>
    rows_set (kl_k_row l) h us (row_at (kl_k l' ! st) (kl_k_row l)) (kl_k l ! strm) k'"
proof -
  let ?row = "kl_k_row l"
  have lk: "kl_k_type l' = kl_k_type l" "kl_k_row l' = ?row" using like by (auto simp: layer_like_def)
  have len: "\<forall>i \<in> set us. length (row_at (kl_k l' ! st) ?row i) = ?row"
    using src(3) row_at_length lk by simp
  obtain k' where k': "tensor_set (kl_k l ! strm) (concat (map (row_at (kl_k l' ! st) ?row) us)) (h * ?row) (length us * ?row) = Some k'"
    "rows_set ?row h us (row_at (kl_k l' ! st) ?row) (kl_k l ! strm) k'"
    using tensor_set_written(1) [OF dst(2) len] by blast
  note bl = tensor_set_written(2) [OF dst(2) len]
  have "sr_keys strm h (length us) il (t, w_keys st us l' @ io) =
      Some (Ret True, t\<lparr>ks_layers := (ks_layers t)[il := l\<lparr>kl_k := (kl_k l)[strm := k']\<rparr>]\<rparr>, io)"
    using il src(1,2) us dst(1) k'(1) bl lk
    by (simp add: sr_keys_def w_keys_def rsimps ks_layer_def ks_put_layer_def sr_set_k_def)
  then show ?thesis using k'(2) by blast
qed

lemma sr_values_written:
  assumes il: "il < length (ks_layers t)" "ks_layers t ! il = l" and like: "layer_like l' l"
    and src: "i32_ok (kl_v_type l')" "kl_v_row l' < 2 ^ 64" "\<forall>i \<in> set us. Suc i * kl_v_row l' \<le> length (kl_v l' ! st)"
    and us: "us \<noteq> []" and dst: "strm < length (kl_v l)" "(h + length us) * kl_v_row l \<le> length (kl_v l ! strm)"
  shows "\<exists>v'. sr_values strm h (length us) il (t, w_values st us l' @ io) =
      Some (Ret True, t\<lparr>ks_layers := (ks_layers t)[il := l\<lparr>kl_v := (kl_v l)[strm := v']\<rparr>]\<rparr>, io) \<and>
    rows_set (kl_v_row l) h us (row_at (kl_v l' ! st) (kl_v_row l)) (kl_v l ! strm) v'"
proof -
  let ?row = "kl_v_row l"
  have lk: "kl_v_type l' = kl_v_type l" "kl_v_row l' = ?row" using like by (auto simp: layer_like_def)
  have len: "\<forall>i \<in> set us. length (row_at (kl_v l' ! st) ?row i) = ?row"
    using src(3) row_at_length lk by simp
  obtain v' where v': "tensor_set (kl_v l ! strm) (concat (map (row_at (kl_v l' ! st) ?row) us)) (h * ?row) (length us * ?row) = Some v'"
    "rows_set ?row h us (row_at (kl_v l' ! st) ?row) (kl_v l ! strm) v'"
    using tensor_set_written(1) [OF dst(2) len] by blast
  note bl = tensor_set_written(2) [OF dst(2) len]
  have "sr_values strm h (length us) il (t, w_values st us l' @ io) =
      Some (Ret True, t\<lparr>ks_layers := (ks_layers t)[il := l\<lparr>kl_v := (kl_v l)[strm := v']\<rparr>]\<rparr>, io)"
    using il src(1,2) us dst(1) v'(1) bl lk
    by (simp add: sr_values_def w_values_def rsimps ks_layer_def ks_put_layer_def sr_set_v_def)
  then show ?thesis using v'(2) by blast
qed

text \<open>Transposed values: one column after the other.\<close>

definition cols_set :: "nat \<Rightarrow> nat \<Rightarrow> nat \<Rightarrow> nat \<Rightarrow> nat \<Rightarrow> nat list \<Rightarrow> bytes \<Rightarrow> bytes \<Rightarrow> bytes \<Rightarrow> bool" where
  "cols_set el n sz' sz h us src t t' \<longleftrightarrow> length t' = length t \<and>
     (\<forall>j < n. \<forall>k < length us. row_at t' el (h + k + j * sz) = row_at src el (us ! k + j * sz'))"

lemma cols_set_step:
  assumes c: "cols_set el j sz' sz h us src t t'" and fit: "h + length us \<le> sz"
    and r: "rows_set el (h + j * sz) us (\<lambda>i. row_at src el (i + j * sz')) t' u"
  shows "cols_set el (Suc j) sz' sz h us src t u"
proof -
  have "row_at u el (h + k + i * sz) = row_at src el (us ! k + i * sz')" if i: "i < Suc j" and k: "k < length us" for i k
  proof (cases "i = j")
    case True
    then show ?thesis using r k by (simp add: rows_set_def add.assoc add.commute [of "j * sz"])
  next
    case False
    then have "Suc i * sz \<le> j * sz" using i by (intro mult_le_mono1) simp
    then have "h + k + i * sz < h + j * sz" using fit k by simp
    then have "row_at u el (h + k + i * sz) = row_at t' el (h + k + i * sz)" using r by (simp add: rows_set_def)
    then show ?thesis using c k i False by (simp add: cols_set_def)
  qed
  then show ?thesis using c r by (simp add: cols_set_def rows_set_def)
qed

lemma sr_values_trans_written:
  assumes il: "il < length (ks_layers t)" "ks_layers t ! il = l" and like: "layer_like l' l"
    and src: "i32_ok (kl_v_type l')" "kl_v_el l' < 2 ^ 32" "kl_n_embd_v_gqa l' < 2 ^ 32"
      "\<forall>i \<in> set us. \<forall>j < kl_n_embd_v_gqa l'. Suc (i + j * sz') * kl_v_el l' \<le> length (kl_v l' ! st)"
    and us: "us \<noteq> []" and dst: "strm < length (kl_v l)" "h + length us \<le> sz" "kl_n_embd_v_gqa l * sz * kl_v_el l \<le> length (kl_v l ! strm)"
      "kl_n_embd_v_gqa l * sz * kl_v_el l < 2 ^ 32"
  shows "\<exists>v'. sr_values_trans sz strm h (length us) il (t, w_values_trans sz' st us l' @ io) =
      Some (Ret True, t\<lparr>ks_layers := (ks_layers t)[il := l\<lparr>kl_v := (kl_v l)[strm := v']\<rparr>]\<rparr>, io) \<and>
    cols_set (kl_v_el l) (kl_n_embd_v_gqa l) sz' sz h us (kl_v l' ! st) (kl_v l ! strm) v'"
proof -
  let ?el = "kl_v_el l" and ?n = "kl_n_embd_v_gqa l"
  have lk: "kl_v_type l' = kl_v_type l" "kl_v_el l' = ?el" "kl_n_embd_v_gqa l' = ?n" using like by (auto simp: layer_like_def)
  let ?t = "\<lambda>v'. t\<lparr>ks_layers := (ks_layers t)[il := l\<lparr>kl_v := (kl_v l)[strm := v']\<rparr>]\<rparr>"
  let ?P = "\<lambda>j u. \<exists>v'. u = ?t v' \<and> cols_set ?el j sz' sz h us (kl_v l' ! st) (kl_v l ! strm) v'"
  let ?f = "\<lambda>j. rbind (io_read (length us * ?el)) (\<lambda>b.
     rbind (ks_put_layer il (sr_set_v strm b (u32 (int (h + j * sz)) * ?el) (length us * ?el))) (\<lambda>_. rret True))"
  have "\<exists>u. rall ?f [0..<?n] (t, concat (map (w_col sz' st us l') [0..<?n]) @ io) = Some (Ret True, u, io) \<and> ?P ?n u"
  proof (rule rall_upt [where P = ?P])
    have "l\<lparr>kl_v := (kl_v l)[strm := kl_v l ! strm]\<rparr> = l" by simp
    then have "ks_layers t = (ks_layers t)[il := l\<lparr>kl_v := (kl_v l)[strm := kl_v l ! strm]\<rparr>]" using il by (metis list_update_id)
    then have "t = ?t (kl_v l ! strm)" by simp
    then show "?P 0 t" by (intro exI [of _ "kl_v l ! strm"]) (simp add: cols_set_def)
    fix j u io
    assume j: "j < ?n" and "?P j u"
    then obtain v' where v': "u = ?t v'" "cols_set ?el j sz' sz h us (kl_v l' ! st) (kl_v l ! strm) v'" by blast
    have len: "\<forall>i \<in> set us. length (row_at (kl_v l' ! st) ?el (i + j * sz')) = ?el"
      using src(4) j row_at_length lk by simp
    have "Suc j * sz \<le> ?n * sz" using j by (intro mult_le_mono1) simp
    then have "h + j * sz + length us \<le> ?n * sz" using dst(2) by simp
    then have "(h + j * sz + length us) * ?el \<le> ?n * sz * ?el" by (rule mult_le_mono1)
    moreover have "length v' = length (kl_v l ! strm)" using v'(2) by (simp add: cols_set_def)
    ultimately have fit: "(h + j * sz + length us) * ?el \<le> length v'" using dst(3) by (metis le_trans)
    obtain w where w: "tensor_set v' (w_col sz' st us l' j) ((h + j * sz) * ?el) (length us * ?el) = Some w"
      "rows_set ?el (h + j * sz) us (\<lambda>i. row_at (kl_v l' ! st) ?el (i + j * sz')) v' w"
      using tensor_set_written(1) [OF fit len] lk by (auto simp: w_col_def)
    have wl: "length (w_col sz' st us l' j) = length us * ?el" using tensor_set_written(2) [OF fit len] lk by (simp add: w_col_def)
    have "?f j (u, w_col sz' st us l' j @ io) = Some (Ret True, ?t w, io)"
      using v'(1) il w(1) wl dst(1) unfolding trans_offset_fits(2) [OF dst(4) j add_leD1 [OF dst(2)]]
      by (simp add: rsimps ks_put_layer_def sr_set_v_def)
    moreover have "cols_set ?el (Suc j) sz' sz h us (kl_v l' ! st) (kl_v l ! strm) w"
      by (rule cols_set_step [OF v'(2) dst(2) w(2)])
    ultimately show "\<exists>u'. ?f j (u, w_col sz' st us l' j @ io) = Some (Ret True, u', io) \<and> ?P (Suc j) u'" by blast
  qed
  then obtain v' where v': "rall ?f [0..<?n] (t, concat (map (w_col sz' st us l') [0..<?n]) @ io) = Some (Ret True, ?t v', io)"
    "cols_set ?el ?n sz' sz h us (kl_v l' ! st) (kl_v l ! strm) v'" by blast
  have "sr_values_trans sz strm h (length us) il (t, w_values_trans sz' st us l' @ io) = Some (Ret True, ?t v', io)"
    using il src(1-3) us v'(1) lk by (simp add: sr_values_trans_def w_values_trans_def rsimps ks_layer_def)
  then show ?thesis using v'(2) by blast
qed

subsection \<open>The data part\<close>

definition layer_read :: "bool \<Rightarrow> nat \<Rightarrow> nat \<Rightarrow> nat \<Rightarrow> nat \<Rightarrow> nat \<Rightarrow> nat list \<Rightarrow> kv_layer \<Rightarrow> kv_layer \<Rightarrow> kv_layer \<Rightarrow> bool" where
  "layer_read v_trans sz' sz st strm h us l' l m \<longleftrightarrow>
     (\<exists>k' v'. m = l\<lparr>kl_k := (kl_k l)[strm := k'], kl_v := (kl_v l)[strm := v']\<rparr> \<and>
       rows_set (kl_k_row l) h us (row_at (kl_k l' ! st) (kl_k_row l)) (kl_k l ! strm) k' \<and>
       (if v_trans then cols_set (kl_v_el l) (kl_n_embd_v_gqa l) sz' sz h us (kl_v l' ! st) (kl_v l ! strm) v'
        else rows_set (kl_v_row l) h us (row_at (kl_v l' ! st) (kl_v_row l)) (kl_v l ! strm) v'))"

definition store_like :: "kv_store \<Rightarrow> kv_store \<Rightarrow> bool" where
  "store_like s t \<longleftrightarrow> kv_v_trans (ks_kv t) = kv_v_trans (ks_kv s) \<and> list_all2 layer_like (ks_layers s) (ks_layers t)"

lemma layer_src:
  assumes "layer_wf kv l" "st < kv_n_stream kv" "\<And>i. i \<in> set us \<Longrightarrow> i < kc_size (kv_cells_v kv ! st)"
  shows "\<forall>i \<in> set us. Suc i * kl_k_row l \<le> length (kl_k l ! st)"
    and "\<not> kv_v_trans kv \<Longrightarrow> \<forall>i \<in> set us. Suc i * kl_v_row l \<le> length (kl_v l ! st)"
    and "kv_v_trans kv \<Longrightarrow> \<forall>i \<in> set us. \<forall>j < kl_n_embd_v_gqa l.
      Suc (i + j * kc_size (kv_cells_v kv ! st)) * kl_v_el l \<le> length (kl_v l ! st)"
proof -
  have "Suc i \<le> kc_size (kv_cells_v kv ! st)" if "i \<in> set us" for i using assms(3) [OF that] by simp
  note b = layer_wfD [OF assms(1,2) this]
  show "\<forall>i \<in> set us. Suc i * kl_k_row l \<le> length (kl_k l ! st)" using b(3) by blast
  show "\<forall>i \<in> set us. Suc i * kl_v_row l \<le> length (kl_v l ! st)" if "\<not> kv_v_trans kv" using b(4) that by blast
  show "\<forall>i \<in> set us. \<forall>j < kl_n_embd_v_gqa l. Suc (i + j * kc_size (kv_cells_v kv ! st)) * kl_v_el l \<le> length (kl_v l ! st)"
    if "kv_v_trans kv" using b(5) that unfolding add_Suc by blast
qed

lemma read_keys_written:
  assumes s: "ks_wf s" "st < kv_n_stream (ks_kv s)" and t: "ks_wf t" "strm < kv_n_stream (ks_kv t)" and like: "store_like s t"
    and us: "us \<noteq> []" "\<And>i. i \<in> set us \<Longrightarrow> i < kc_size (kv_cells_v (ks_kv s) ! st)"
    and h: "h + length us \<le> kc_size (kv_cells_v (ks_kv t) ! strm)" and ls: "ls = ks_layers s" "lt = ks_layers t"
  shows "\<exists>ms. rall (sr_keys strm h (length us)) [0..<length lt] (t, concat (map (\<lambda>il. w_keys st us (ls ! il)) [0..<length lt]) @ io) =
      Some (Ret True, t\<lparr>ks_layers := ms\<rparr>, io) \<and> length ms = length lt \<and>
      (\<forall>il < length lt. \<exists>k'. ms ! il = (lt ! il)\<lparr>kl_k := (kl_k (lt ! il))[strm := k']\<rparr> \<and>
        rows_set (kl_k_row (lt ! il)) h us (row_at (kl_k (ls ! il) ! st) (kl_k_row (lt ! il))) (kl_k (lt ! il) ! strm) k')"
proof (rule layers_loop)
  fix il and u :: kv_store and io
  assume il: "il < length lt" "il < length (ks_layers u)" "ks_layers u ! il = lt ! il"
  have L: "layer_wf (ks_kv s) (ls ! il)" "layer_wf (ks_kv t) (lt ! il)" "layer_like (ls ! il) (lt ! il)"
    using like s(1) t(1) il(1) by (auto simp: store_like_def ks_wf_def list_all2_conv_all_nth ls)
  have b: "i32_ok (kl_k_type (ls ! il))" "kl_k_row (ls ! il) < 2 ^ 64" using L(1) by (auto simp: layer_wf_def)
  show "\<exists>m. sr_keys strm h (length us) il (u, w_keys st us (ls ! il) @ io) =
      Some (Ret True, u\<lparr>ks_layers := (ks_layers u)[il := m]\<rparr>, io) \<and> (\<exists>k'. m = (lt ! il)\<lparr>kl_k := (kl_k (lt ! il))[strm := k']\<rparr> \<and>
      rows_set (kl_k_row (lt ! il)) h us (row_at (kl_k (ls ! il) ! st) (kl_k_row (lt ! il))) (kl_k (lt ! il) ! strm) k')"
    using sr_keys_written [OF il(2,3) L(3) b layer_src(1) [OF L(1) s(2) us(2)] us(1) layer_wfD(1,3) [OF L(2) t(2) h]] by blast
qed (simp add: ls)

lemma read_values_written:
  assumes s: "ks_wf s" "st < kv_n_stream (ks_kv s)" and t: "ks_wf t" "strm < kv_n_stream (ks_kv t)" and like: "store_like s t"
    and us: "us \<noteq> []" "\<And>i. i \<in> set us \<Longrightarrow> i < kc_size (kv_cells_v (ks_kv s) ! st)"
    and h: "h + length us \<le> kc_size (kv_cells_v (ks_kv t) ! strm)" and ls: "ls = ks_layers s" "lt = ks_layers t" and nt: "\<not> kv_v_trans (ks_kv t)"
  shows "\<exists>ms. rall (sr_values strm h (length us)) [0..<length lt] (t, concat (map (\<lambda>il. w_values st us (ls ! il)) [0..<length lt]) @ io) =
      Some (Ret True, t\<lparr>ks_layers := ms\<rparr>, io) \<and> length ms = length lt \<and>
      (\<forall>il < length lt. \<exists>v'. ms ! il = (lt ! il)\<lparr>kl_v := (kl_v (lt ! il))[strm := v']\<rparr> \<and>
        rows_set (kl_v_row (lt ! il)) h us (row_at (kl_v (ls ! il) ! st) (kl_v_row (lt ! il))) (kl_v (lt ! il) ! strm) v')"
proof (rule layers_loop)
  fix il and u :: kv_store and io
  assume il: "il < length lt" "il < length (ks_layers u)" "ks_layers u ! il = lt ! il"
  have L: "layer_wf (ks_kv s) (ls ! il)" "layer_wf (ks_kv t) (lt ! il)" "layer_like (ls ! il) (lt ! il)" "\<not> kv_v_trans (ks_kv s)"
    using like s(1) t(1) il(1) nt by (auto simp: store_like_def ks_wf_def list_all2_conv_all_nth ls)
  have b: "i32_ok (kl_v_type (ls ! il))" "kl_v_row (ls ! il) < 2 ^ 64" using L(1) by (auto simp: layer_wf_def)
  show "\<exists>m. sr_values strm h (length us) il (u, w_values st us (ls ! il) @ io) =
      Some (Ret True, u\<lparr>ks_layers := (ks_layers u)[il := m]\<rparr>, io) \<and> (\<exists>v'. m = (lt ! il)\<lparr>kl_v := (kl_v (lt ! il))[strm := v']\<rparr> \<and>
      rows_set (kl_v_row (lt ! il)) h us (row_at (kl_v (ls ! il) ! st) (kl_v_row (lt ! il))) (kl_v (lt ! il) ! strm) v')"
    using sr_values_written [OF il(2,3) L(3) b layer_src(2) [OF L(1) s(2) us(2) L(4)] us(1) layer_wfD(2) [OF L(2) t(2) h] layer_wfD(4) [OF L(2) t(2) h nt]]
    by blast
qed (simp add: ls)

lemma read_values_trans_written:
  assumes s: "ks_wf s" "st < kv_n_stream (ks_kv s)" and t: "ks_wf t" "strm < kv_n_stream (ks_kv t)" and like: "store_like s t"
    and us: "us \<noteq> []" "\<And>i. i \<in> set us \<Longrightarrow> i < kc_size (kv_cells_v (ks_kv s) ! st)"
    and h: "h + length us \<le> kc_size (kv_cells_v (ks_kv t) ! strm)" and ls: "ls = ks_layers s" "lt = ks_layers t" and tr: "kv_v_trans (ks_kv t)"
    and sz: "sz' = kc_size (kv_cells_v (ks_kv s) ! st)" "sz = kc_size (kv_cells_v (ks_kv t) ! strm)"
  shows "\<exists>ms. rall (sr_values_trans sz strm h (length us)) [0..<length lt] (t, concat (map (\<lambda>il. w_values_trans sz' st us (ls ! il)) [0..<length lt]) @ io) =
      Some (Ret True, t\<lparr>ks_layers := ms\<rparr>, io) \<and> length ms = length lt \<and>
      (\<forall>il < length lt. \<exists>v'. ms ! il = (lt ! il)\<lparr>kl_v := (kl_v (lt ! il))[strm := v']\<rparr> \<and>
        cols_set (kl_v_el (lt ! il)) (kl_n_embd_v_gqa (lt ! il)) sz' sz h us (kl_v (ls ! il) ! st) (kl_v (lt ! il) ! strm) v')"
proof (rule layers_loop)
  fix il and u :: kv_store and io
  assume il: "il < length lt" "il < length (ks_layers u)" "ks_layers u ! il = lt ! il"
  have L: "layer_wf (ks_kv s) (ls ! il)" "layer_wf (ks_kv t) (lt ! il)" "layer_like (ls ! il) (lt ! il)" "kv_v_trans (ks_kv s)"
    using like s(1) t(1) il(1) tr by (auto simp: store_like_def ks_wf_def list_all2_conv_all_nth ls)
  have b: "i32_ok (kl_v_type (ls ! il))" "kl_v_el (ls ! il) < 2 ^ 32" "kl_n_embd_v_gqa (ls ! il) < 2 ^ 32" using L(1) by (auto simp: layer_wf_def)
  have fit: "kl_n_embd_v_gqa (lt ! il) * sz * kl_v_el (lt ! il) \<le> length (kl_v (lt ! il) ! strm)"
    "kl_n_embd_v_gqa (lt ! il) * sz * kl_v_el (lt ! il) < 2 ^ 32"
    using L(2) t(2) tr sz by (simp_all add: layer_wf_def)
  show "\<exists>m. sr_values_trans sz strm h (length us) il (u, w_values_trans sz' st us (ls ! il) @ io) =
      Some (Ret True, u\<lparr>ks_layers := (ks_layers u)[il := m]\<rparr>, io) \<and> (\<exists>v'. m = (lt ! il)\<lparr>kl_v := (kl_v (lt ! il))[strm := v']\<rparr> \<and>
      cols_set (kl_v_el (lt ! il)) (kl_n_embd_v_gqa (lt ! il)) sz' sz h us (kl_v (ls ! il) ! st) (kl_v (lt ! il) ! strm) v')"
    using sr_values_trans_written [OF il(2,3) L(3) b layer_src(3) [OF L(1) s(2) us(2) L(4), folded sz] us(1) layer_wfD(2) [OF L(2) t(2) h] h [folded sz] fit]
    by blast
qed (simp add: ls)

lemma keys_read_wf:
  assumes t: "ks_wf t" "strm < kv_n_stream (ks_kv t)" and like: "store_like s t" and len: "length ms = length (ks_layers t)"
    and ms: "\<forall>il < length (ks_layers t). \<exists>k'. ms ! il = (ks_layers t ! il)\<lparr>kl_k := (kl_k (ks_layers t ! il))[strm := k']\<rparr> \<and>
      length k' = length (kl_k (ks_layers t ! il) ! strm)"
  shows "ks_wf (t\<lparr>ks_layers := ms\<rparr>) \<and> store_like s (t\<lparr>ks_layers := ms\<rparr>)"
proof -
  have "layer_wf (ks_kv t) (ms ! il) \<and> (layer_like l (ks_layers t ! il) \<longrightarrow> layer_like l (ms ! il))" if il: "il < length ms" for il l
  proof -
    obtain k' where k': "ms ! il = (ks_layers t ! il)\<lparr>kl_k := (kl_k (ks_layers t ! il))[strm := k']\<rparr>"
      "length k' = length (kl_k (ks_layers t ! il) ! strm)" using ms il unfolding len by blast
    have w: "layer_wf (ks_kv t) (ks_layers t ! il)" using t(1) il len by (simp add: ks_wf_def)
    then have "layer_wf (ks_kv t) (ms ! il)"
      using k' t(2) unfolding layer_wf_def by (auto simp: nth_list_update)
    then show ?thesis using k'(1) by (simp add: layer_like_def)
  qed
  then show ?thesis using t(1) like len
    by (auto simp: ks_wf_def store_like_def list_all2_conv_all_nth in_set_conv_nth)
qed

lemma read_data_written:
  assumes s: "ks_wf s" "st < kv_n_stream (ks_kv s)" and t: "ks_wf t" "strm < kv_n_stream (ks_kv t)" and like: "store_like s t"
    and us: "us \<noteq> []" "\<And>i. i \<in> set us \<Longrightarrow> i < kc_size (kv_cells_v (ks_kv s) ! st)"
    and h: "kv_heads (ks_kv t) ! strm = h" "h + length us \<le> kc_size (kv_cells_v (ks_kv t) ! strm)"
  shows "\<exists>ms. kv_state_read_data strm (length us) (t, w_data s st us @ io) = Some (Ret True, t\<lparr>ks_layers := ms\<rparr>, io) \<and>
    length ms = length (ks_layers t) \<and> (\<forall>il < length ms. layer_read (kv_v_trans (ks_kv t)) (kc_size (kv_cells_v (ks_kv s) ! st))
      (kc_size (kv_cells_v (ks_kv t) ! strm)) st strm h us (ks_layers s ! il) (ks_layers t ! il) (ms ! il))"
proof -
  define lt where "lt = ks_layers t"
  define ls where "ls = ks_layers s"
  define vt where "vt = kv_v_trans (ks_kv t)"
  define sz' where "sz' = kc_size (kv_cells_v (ks_kv s) ! st)"
  define sz where "sz = kc_size (kv_cells_v (ks_kv t) ! strm)"
  have n: "length ls = length lt" "length lt < 2 ^ 32" "kv_v_trans (ks_kv s) = vt"
    using like t(1) by (auto simp: store_like_def ks_wf_def list_all2_lengthD lt_def ls_def vt_def)
  have upt: "concat (map (\<lambda>il. w (ls ! il)) [0..<length lt]) = concat (map w ls)" for w :: "kv_layer \<Rightarrow> bytes"
    by (rule arg_cong [of _ _ concat], rule nth_equalityI) (simp_all add: n(1))
  define vals where "vals = concat (map (if vt then w_values_trans sz' st us else w_values st us) ls)"
  obtain ms where ms: "rall (sr_keys strm h (length us)) [0..<length lt] (t, concat (map (w_keys st us) ls) @ vals @ io) =
      Some (Ret True, t\<lparr>ks_layers := ms\<rparr>, vals @ io)" "length ms = length lt"
    "\<forall>il < length lt. \<exists>k'. ms ! il = (lt ! il)\<lparr>kl_k := (kl_k (lt ! il))[strm := k']\<rparr> \<and>
        rows_set (kl_k_row (lt ! il)) h us (row_at (kl_k (ls ! il) ! st) (kl_k_row (lt ! il))) (kl_k (lt ! il) ! strm) k'"
    using read_keys_written [OF s t like us h(2) ls_def lt_def, of "vals @ io"] unfolding upt by blast
  have "\<forall>il < length lt. \<exists>k'. ms ! il = (lt ! il)\<lparr>kl_k := (kl_k (lt ! il))[strm := k']\<rparr> \<and> length k' = length (kl_k (lt ! il) ! strm)"
    using ms(3) unfolding rows_set_def by blast
  then have t1: "ks_wf (t\<lparr>ks_layers := ms\<rparr>)" "store_like s (t\<lparr>ks_layers := ms\<rparr>)"
    using keys_read_wf [OF t like ms(2) [unfolded lt_def]] unfolding lt_def by auto
  have st1: "strm < kv_n_stream (ks_kv (t\<lparr>ks_layers := ms\<rparr>))" and h1: "h + length us \<le> kc_size (kv_cells_v (ks_kv (t\<lparr>ks_layers := ms\<rparr>)) ! strm)"
    using t(2) h(2) by simp_all
  have ms_l: "ms = ks_layers (t\<lparr>ks_layers := ms\<rparr>)" by simp
  let ?goal = "\<lambda>ns. length ns = length lt \<and> (\<forall>il < length lt. layer_read vt sz' sz st strm h us (ls ! il) (lt ! il) (ns ! il))"
  have "\<exists>ns. (if \<not> vt then rall (sr_values strm h (length us)) [0..<length lt]
      else rall (sr_values_trans sz strm h (length us)) [0..<length lt]) (t\<lparr>ks_layers := ms\<rparr>, vals @ io) =
        Some (Ret True, t\<lparr>ks_layers := ns\<rparr>, io) \<and> ?goal ns"
  proof (cases vt)
    case True
    have "kv_v_trans (ks_kv (t\<lparr>ks_layers := ms\<rparr>))" using True by (simp add: vt_def)
    from read_values_trans_written [OF s t1(1) st1 t1(2) us h1 ls_def ms_l this refl refl, of io]
    obtain ns where ns: "rall (sr_values_trans sz strm h (length us)) [0..<length lt] (t\<lparr>ks_layers := ms\<rparr>, vals @ io) = Some (Ret True, t\<lparr>ks_layers := ns\<rparr>, io)"
      "length ns = length lt"
      "\<forall>il < length lt. \<exists>v'. ns ! il = (ms ! il)\<lparr>kl_v := (kl_v (ms ! il))[strm := v']\<rparr> \<and>
        cols_set (kl_v_el (ms ! il)) (kl_n_embd_v_gqa (ms ! il)) sz' sz h us (kl_v (ls ! il) ! st) (kl_v (ms ! il) ! strm) v'"
      using True unfolding ms(2) upt by (auto simp: vals_def sz'_def sz_def)
    have "layer_read vt sz' sz st strm h us (ls ! il) (lt ! il) (ns ! il)" if "il < length lt" for il
      using ms(3) ns(3) that True by (fastforce simp: layer_read_def)
    then show ?thesis using ns(1,2) True by auto
  next
    case False
    have "\<not> kv_v_trans (ks_kv (t\<lparr>ks_layers := ms\<rparr>))" using False by (simp add: vt_def)
    from read_values_written [OF s t1(1) st1 t1(2) us h1 ls_def ms_l this, of io]
    obtain ns where ns: "rall (sr_values strm h (length us)) [0..<length lt] (t\<lparr>ks_layers := ms\<rparr>, vals @ io) = Some (Ret True, t\<lparr>ks_layers := ns\<rparr>, io)"
      "length ns = length lt"
      "\<forall>il < length lt. \<exists>v'. ns ! il = (ms ! il)\<lparr>kl_v := (kl_v (ms ! il))[strm := v']\<rparr> \<and>
        rows_set (kl_v_row (ms ! il)) h us (row_at (kl_v (ls ! il) ! st) (kl_v_row (ms ! il))) (kl_v (ms ! il) ! strm) v'"
      using False unfolding ms(2) upt by (auto simp: vals_def)
    have "layer_read vt sz' sz st strm h us (ls ! il) (lt ! il) (ns ! il)" if "il < length lt" for il
      using ms(3) ns(3) that False by (fastforce simp: layer_read_def)
    then show ?thesis using ns(1,2) False by auto
  qed
  then obtain ns where ns: "(if \<not> vt then rall (sr_values strm h (length us)) [0..<length lt]
      else rall (sr_values_trans sz strm h (length us)) [0..<length lt]) (t\<lparr>ks_layers := ms\<rparr>, vals @ io) = Some (Ret True, t\<lparr>ks_layers := ns\<rparr>, io)" "?goal ns"
    by blast
  have vg: "vget (kv_cells_v (ks_kv t)) strm = Some (kv_cells_v (ks_kv t) ! strm)" "vget (kv_heads (ks_kv t)) strm = Some h"
    using t kv_wf_len_cells kv_wf_len_heads h(1) by (auto simp: ks_wf_def)
  have "w_data s st us @ io = w_u32 (if vt then 1 else 0) @ w_u32 (length lt) @ concat (map (w_keys st us) ls) @ vals @ io"
    using n by (simp add: w_data_def vals_def sz'_def ls_def)
  then have "kv_state_read_data strm (length us) (t, w_data s st us @ io) = Some (Ret True, t\<lparr>ks_layers := ns\<rparr>, io)"
    using vg n(2) h(2) ms(1) ns(1) by (simp add: kv_state_read_data_def rsimps lt_def [symmetric] vt_def [symmetric] sz_def [symmetric] split: if_splits)
  then show ?thesis using ns(2) by (auto simp: lt_def ls_def vt_def sz_def sz'_def)
qed

end
