(* ===== verification/KvRestore.thy ===== *)
theory KvRestore
  imports KvStateRead KvDemo
begin

text \<open>
  Restoring a whole cache of one stream: the cells written by \<open>state_write\<close> become the first cells
  of the cache, with their positions, their sequences and their rows.
\<close>

subsection \<open>Filling the cells\<close>

definition put_cells :: "nat \<Rightarrow> kv_cells \<Rightarrow> kv_store \<Rightarrow> kv_store" where
  "put_cells strm c s = s\<lparr>ks_kv := (ks_kv s)\<lparr>kv_cells_v := (kv_cells_v (ks_kv s))[strm := c]\<rparr>\<rparr>"

lemma put_cells_simps [simp]:
  "put_cells strm c (put_cells strm d s) = put_cells strm c s"
  "kv_n_seq_max (ks_kv (put_cells strm c s)) = kv_n_seq_max (ks_kv s)"
  "kv_n_stream (ks_kv (put_cells strm c s)) = kv_n_stream (ks_kv s)"
  by (simp_all add: put_cells_def)

lemma put_cells_get [simp]: "strm < length (kv_cells_v (ks_kv s)) \<Longrightarrow> vget (kv_cells_v (ks_kv (put_cells strm c s))) strm = Some c"
  by (simp add: put_cells_def)

lemma ks_do_cells_run [rsimps]:
  "strm < length (kv_cells_v (ks_kv s)) \<Longrightarrow> f c = Some d \<Longrightarrow>
   ks_do_cells strm f (put_cells strm c s, io) = Some (Ret (), put_cells strm d s, io)"
  by (simp add: ks_do_cells_def ks_do_def rput_def put_cells_def)

text \<open>The sequences of cell \<open>i\<close>, read one after the other.\<close>

lemma sr_cell_seqs_written:
  assumes strm: "strm < length (kv_cells_v (ks_kv s))" and c: "kc_wf c" "i < length (kc_pos c)" "kc_pos c ! i \<noteq> - 1" "kc_seq c ! i = {}" "kc_shift c ! i = 0"
    and ids: "distinct ids" "\<forall>r \<in> set ids. 0 \<le> r \<and> r < int (kv_n_seq_max (ks_kv s))" "kv_n_seq_max (ks_kv s) \<le> LLAMA_MAX_SEQ"
  shows "\<exists>d. rall (sr_cell_seq strm i) [0..<length ids] (put_cells strm c s, concat (map w_i32 ids) @ io) = Some (Ret True, put_cells strm d s, io) \<and>
    kc_writes c i (kc_pos c ! i) (set ids) 0 d"
proof -
  let ?P = "\<lambda>j u. \<exists>d. u = put_cells strm d s \<and> kc_writes c i (kc_pos c ! i) (set (take j ids)) 0 d"
  have "\<exists>u. rall (sr_cell_seq strm i) [0..<length ids] (put_cells strm c s, concat (map (\<lambda>j. w_i32 (ids ! j)) [0..<length ids]) @ io) = Some (Ret True, u, io) \<and> ?P (length ids) u"
  proof (rule rall_upt [where P = ?P])
    show "?P 0 (put_cells strm c s)" using kc_writes_self [OF c(1), of i] c(4,5) by auto
    fix j and u :: kv_store and io
    assume j: "j < length ids" and "?P j u"
    then obtain d where d: "u = put_cells strm d s" "kc_writes c i (kc_pos c ! i) (set (take j ids)) 0 d" by blast
    have len: "i < length (kc_seq c)" "i < length (kc_shift c)" using c(1,2) by (simp_all add: kc_wf_len_seq kc_wf_len_shift)
    let ?r = "ids ! j"
    have r: "0 \<le> ?r" "?r < int (kv_n_seq_max (ks_kv s))" "?r \<notin> set (take j ids)"
      using ids(1,2) j nth_mem [OF j] by (auto simp: in_set_conv_nth nth_eq_iff_index_eq simp del: nth_mem)
    have ok: "seq_ok ?r" "i32_ok ?r" "u32 ?r < kv_n_seq_max (ks_kv s)"
      using r ids(3) by (auto simp: seq_ok_def i32_ok_def INT32_MIN_def INT32_MAX_def u32_def)
    have dp: "kc_wf d" "i < length (kc_pos d)" "kc_pos d ! i = kc_pos c ! i" "kc_seq d ! i = set (take j ids)" "kc_shift d ! i = 0"
      using d(2) c(2) len by (auto simp: kc_writes_def)
    obtain e where e: "kc_seq_add d i ?r = Some e" "kc_writes d i (kc_pos d ! i) (insert ?r (kc_seq d ! i)) (kc_shift d ! i) e"
      using kc_seq_add_ok [OF dp(1,2) _ ok(1)] c(3) r(3) dp(3,4) by metis
    have "set (take (Suc j) ids) = insert ?r (set (take j ids))" using j by (simp add: take_Suc_conv_app_nth)
    then have "kc_writes c i (kc_pos c ! i) (set (take (Suc j) ids)) 0 e" using e(2) d(2) dp by (simp add: kc_writes_def)
    moreover have "sr_cell_seq strm i j (u, w_i32 ?r @ io) = Some (Ret True, put_cells strm e s, io)"
      using d(1) r(1) ok strm e(1) by (simp add: sr_cell_seq_def rsimps not_less)
    ultimately show "\<exists>u'. sr_cell_seq strm i j (u, w_i32 ?r @ io) = Some (Ret True, u', io) \<and> ?P (Suc j) u'" by blast
  qed
  moreover have "map (\<lambda>j. w_i32 (ids ! j)) [0..<length ids] = map w_i32 ids" by (rule nth_equalityI) simp_all
  ultimately show ?thesis by auto
qed

text \<open>The first \<open>k\<close> cells hold the cells \<open>us\<close> of \<open>src\<close>, the others are empty.\<close>

definition cells_filled :: "kv_cells \<Rightarrow> nat list \<Rightarrow> nat \<Rightarrow> nat \<Rightarrow> kv_cells \<Rightarrow> bool" where
  "cells_filled src us sz k c \<longleftrightarrow> kc_wf c \<and> length (kc_pos c) = sz \<and>
     (\<forall>j < sz. if j < k then kc_pos c ! j = kc_pos src ! (us ! j) \<and> kc_seq c ! j = kc_seq src ! (us ! j)
       else kc_pos c ! j = - 1)"

lemma cells_filled_step:
  assumes c: "cells_filled src us sz k c" and k: "k < sz"
    and w: "kc_writes c k (kc_pos src ! (us ! k)) (kc_seq src ! (us ! k)) 0 d"
  shows "cells_filled src us sz (Suc k) d"
proof -
  have len: "length (kc_pos c) = sz" "length (kc_seq c) = sz" using c by (auto simp: cells_filled_def kc_wf_len_seq)
  then show ?thesis using c k w by (auto simp: cells_filled_def kc_writes_def nth_list_update less_Suc_eq)
qed

definition ids_below :: "nat \<Rightarrow> kv_cells \<Rightarrow> bool" where
  "ids_below n c \<longleftrightarrow> (\<forall>i < kc_size c. \<forall>r \<in> kc_seq c ! i. 0 \<le> r \<and> r < int n)"

lemma sw_ids_all:
  assumes "ids_below n c" "i < kc_size c"
  shows "set (sw_ids n c (- 1) i) = kc_seq c ! i" "distinct (sw_ids n c (- 1) i)" "length (sw_ids n c (- 1) i) \<le> n"
proof -
  have "r \<in> int ` {0..<n}" if "r \<in> kc_seq c ! i" for r
  proof -
    have "0 \<le> r \<and> r < int n" using assms that by (auto simp: ids_below_def)
    then show ?thesis by (intro image_eqI [of _ _ "nat r"]) auto
  qed
  then show "set (sw_ids n c (- 1) i) = kc_seq c ! i" by (auto simp: sw_ids_def)
  show "distinct (sw_ids n c (- 1) i)" by (simp add: sw_ids_def distinct_map)
  show "length (sw_ids n c (- 1) i) \<le> n" unfolding sw_ids_def using length_filter_le [of _ "map int [0..<n]"] by simp
qed

lemma sr_cell_written:
  assumes strm: "strm < length (kv_cells_v (ks_kv s))" and n: "n = kv_n_seq_max (ks_kv s)" "n \<le> LLAMA_MAX_SEQ" and src: "ids_below n src"
    and u: "us ! k < kc_size src" "0 \<le> kc_pos src ! (us ! k)" "i32_ok (kc_pos src ! (us ! k))"
    and c: "cells_filled src us sz k c" and k: "k < sz"
  shows "\<exists>d. sr_cell strm k (put_cells strm c s, w_cell n src (- 1) (us ! k) @ io) = Some (Ret True, put_cells strm d s, io) \<and>
    cells_filled src us sz (Suc k) d"
proof -
  let ?p = "kc_pos src ! (us ! k)" and ?ids = "sw_ids n src (- 1) (us ! k)"
  note ids = sw_ids_all [OF src u(1)]
  have cw: "kc_wf c" "k < length (kc_pos c)" "kc_pos c ! k = - 1" using c k by (auto simp: cells_filled_def)
  obtain d where d: "kc_pos_set c k ?p = Some d" "kc_writes c k ?p {} 0 d" using kc_pos_set_ok [OF cw u(2)] .
  have len: "k < length (kc_seq c)" "k < length (kc_shift c)" using cw by (simp_all add: kc_wf_len_seq kc_wf_len_shift)
  have dp: "kc_wf d" "k < length (kc_pos d)" "kc_pos d ! k = ?p" "kc_seq d ! k = {}" "kc_shift d ! k = 0"
    using d(2) cw(2) len by (auto simp: kc_writes_def)
  have below: "\<forall>r \<in> set ?ids. 0 \<le> r \<and> r < int (kv_n_seq_max (ks_kv s))" unfolding ids(1) n(1) [symmetric] using src u(1) by (auto simp: ids_below_def)
  obtain e where e: "rall (sr_cell_seq strm k) [0..<length ?ids] (put_cells strm d s, concat (map w_i32 ?ids) @ io) = Some (Ret True, put_cells strm e s, io)"
    "kc_writes d k (kc_pos d ! k) (set ?ids) 0 e"
    using sr_cell_seqs_written [OF strm dp(1,2) _ dp(4,5) ids(2) below n(2) [unfolded n(1)], of io] u(2) dp(3) by auto
  have "kc_writes c k ?p (kc_seq src ! (us ! k)) 0 e" using e(2) d(2) dp ids(1) by (simp add: kc_writes_def)
  then have "cells_filled src us sz (Suc k) e" by (rule cells_filled_step [OF c k])
  moreover have "length ?ids < 2 ^ 32" using ids(3) n(2) by simp
  ultimately show ?thesis using u(3) d(1) strm e(1) by (auto simp: sr_cell_def w_cell_def rsimps)
qed

subsection \<open>The metadata of a whole cache\<close>

definition whole_meta :: "nat \<Rightarrow> kv_cells \<Rightarrow> kv_store \<Rightarrow> kv_store" where
  "whole_meta strm d t = (ks_clear t)\<lparr>ks_kv := kv_put (kv_clear (ks_kv t)) strm d 0\<rparr>"

lemma cells_filled_clear:
  assumes "kv_wf kv" "st < kv_n_stream kv"
  shows "cells_filled src us (kc_size (kv_cells_v kv ! st)) 0 (kv_cells_v (kv_clear kv) ! st)"
proof -
  have "kv_cells_v (kv_clear kv) ! st = kc_reset (kv_cells_v kv ! st)"
    using assms kv_wf_len_cells [OF assms(1)] by (simp add: kv_clear_def)
  then show ?thesis using kv_wf_cells [OF assms] kc_wf_reset by (simp add: cells_filled_def kc_size_def kc_reset_def)
qed

lemma sr_meta_all_written:
  assumes t: "kv_wf (ks_kv t)" "strm < kv_n_stream (ks_kv t)" and n: "n = kv_n_seq_max (ks_kv t)" "n \<le> LLAMA_MAX_SEQ"
    and src: "ids_below n src" and us: "\<And>i. i \<in> set us \<Longrightarrow> i < kc_size src \<and> 0 \<le> kc_pos src ! i \<and> i32_ok (kc_pos src ! i)"
    and fit: "length us \<le> kc_size (kv_cells_v (ks_kv t) ! strm)"
  shows "\<exists>d. sr_meta_all strm (length us) (t, concat (map (w_cell n src (- 1)) us) @ io) = Some (Ret True, whole_meta strm d t, io) \<and>
    cells_filled src us (kc_size (kv_cells_v (ks_kv t) ! strm)) (length us) d"
proof -
  let ?kv = "ks_kv t" and ?t0 = "ks_clear t"
  let ?sz = "kc_size (kv_cells_v ?kv ! strm)"
  have len: "length (kv_cells_v ?kv) = kv_n_stream ?kv" "length (kv_heads ?kv) = kv_n_stream ?kv"
    using kv_wf_len_cells [OF t(1)] kv_wf_len_heads [OF t(1)] by auto
  have strm: "strm < length (kv_cells_v (ks_kv ?t0))" using t(2) len by (simp add: ks_clear_def kv_clear_def)
  have n0: "n = kv_n_seq_max (ks_kv ?t0)" using n(1) by (simp add: ks_clear_def kv_clear_def)
  let ?P = "\<lambda>k u. \<exists>d. u = put_cells strm d ?t0 \<and> cells_filled src us ?sz k d"
  have "\<exists>u. rall (sr_cell strm) [0..<length us] (?t0, concat (map (\<lambda>k. w_cell n src (- 1) (us ! k)) [0..<length us]) @ io) = Some (Ret True, u, io) \<and>
      ?P (length us) u"
  proof (rule rall_upt [where P = ?P])
    have "?t0 = put_cells strm (kv_cells_v (ks_kv ?t0) ! strm) ?t0" by (simp add: put_cells_def)
    moreover have "cells_filled src us ?sz 0 (kv_cells_v (ks_kv ?t0) ! strm)" using cells_filled_clear [OF t] by (simp add: ks_clear_def)
    ultimately show "?P 0 ?t0" by blast
    fix k and u :: kv_store and io
    assume k: "k < length us" and "?P k u"
    then obtain c where c: "u = put_cells strm c ?t0" "cells_filled src us ?sz k c" by blast
    have "us ! k \<in> set us" using k by simp
    then show "\<exists>u'. sr_cell strm k (u, w_cell n src (- 1) (us ! k) @ io) = Some (Ret True, u', io) \<and> ?P (Suc k) u'"
      using sr_cell_written [OF strm n0 n(2) src _ _ _ c(2), of io] us [of "us ! k"] k fit c(1) by fastforce
  qed
  moreover have "map (\<lambda>k. w_cell n src (- 1) (us ! k)) [0..<length us] = map (w_cell n src (- 1)) us" by (rule nth_equalityI) simp_all
  ultimately obtain d where d: "rall (sr_cell strm) [0..<length us] (?t0, concat (map (w_cell n src (- 1)) us) @ io) = Some (Ret True, put_cells strm d ?t0, io)"
    "cells_filled src us ?sz (length us) d" by auto
  have "(ks_kv (put_cells strm d ?t0))\<lparr>kv_heads := (kv_heads (ks_kv (put_cells strm d ?t0)))[strm := 0]\<rparr> = kv_put (kv_clear ?kv) strm d 0"
    by (simp add: kv_put_def put_cells_def ks_clear_def)
  moreover have "strm < length (kv_heads (ks_kv (put_cells strm d ?t0)))" using t(2) len by (simp add: put_cells_def ks_clear_def kv_clear_def)
  ultimately have "ks_do (\<lambda>kv. do { heads \<leftarrow> vset (kv_heads kv) strm 0; Some (kv\<lparr>kv_heads := heads\<rparr>) }) (put_cells strm d ?t0, io) =
      Some (Ret (), whole_meta strm d t, io)"
    by (simp add: ks_do_def rput_def vset_def whole_meta_def put_cells_def)
  then have "sr_meta_all strm (length us) (t, concat (map (w_cell n src (- 1)) us) @ io) = Some (Ret True, whole_meta strm d t, io)"
    using t(2) len fit d(1) by (simp add: sr_meta_all_def rsimps not_less)
  then show ?thesis using d(2) by blast
qed

lemma cells_filled_owned:
  assumes d: "cells_filled src us sz (length us) d" and src: "kc_owned src"
    and us: "\<And>i. i \<in> set us \<Longrightarrow> i < kc_size src \<and> 0 \<le> kc_pos src ! i"
  shows "kc_owned d"
proof -
  have "kc_seq d ! j \<noteq> {}" if "j < sz" "kc_pos d ! j \<noteq> - 1" for j
  proof -
    have j: "j < length us" using d that by (auto simp: cells_filled_def split: if_splits)
    then have "us ! j < length (kc_pos src)" "kc_pos src ! (us ! j) \<noteq> - 1" using us [of "us ! j"] by (auto simp: kc_size_def)
    then show ?thesis using src d that(1) j by (simp add: kc_owned_def cells_filled_def)
  qed
  then show ?thesis using d by (auto simp: kc_owned_def cells_filled_def)
qed

lemma cells_filled_positions:
  assumes d: "cells_filled src (sw_cells src (- 1)) sz (length (sw_cells src (- 1))) d" and fit: "length (sw_cells src (- 1)) \<le> sz" and wf: "kc_wf src"
  shows "kc_positions d q = kc_positions src q"
proof -
  let ?us = "sw_cells src (- 1)"
  have dw: "kc_wf d" "length (kc_pos d) = sz" using d by (auto simp: cells_filled_def)
  have at: "kc_pos d ! j = kc_pos src ! (?us ! j)" "kc_seq d ! j = kc_seq src ! (?us ! j)" if "j < length ?us" for j
    using d fit that by (auto simp: cells_filled_def)
  have rest: "kc_pos d ! j = - 1" if "j < sz" "\<not> j < length ?us" for j using d that by (auto simp: cells_filled_def)
  have mem: "i \<in> set ?us \<longleftrightarrow> i < length (kc_pos src) \<and> kc_pos src ! i \<noteq> - 1" for i by (auto simp: sw_cells_def kc_size_def)
  show ?thesis
  proof (rule set_eqI)
    fix p
    show "p \<in> kc_positions d q \<longleftrightarrow> p \<in> kc_positions src q"
    proof
      assume "p \<in> kc_positions d q"
      then obtain j where j: "j < sz" "q \<in> kc_seq d ! j" "p = kc_pos d ! j" by (auto simp: kc_positions_def dw(2))
      then have u: "j < length ?us" using rest kc_wf_in_seq [OF dw(1), of j q] dw(2) by auto
      then have "?us ! j \<in> set ?us" by simp
      then show "p \<in> kc_positions src q" using j at [OF u] mem by (auto simp: kc_positions_def)
    next
      assume "p \<in> kc_positions src q"
      then obtain i where i: "i < length (kc_pos src)" "q \<in> kc_seq src ! i" "p = kc_pos src ! i" by (auto simp: kc_positions_def)
      then have "i \<in> set ?us" using mem kc_wf_in_seq [OF wf] by blast
      then obtain j where j: "j < length ?us" "?us ! j = i" by (auto simp: in_set_conv_nth)
      then show "p \<in> kc_positions d q" using at [OF j(1)] i fit dw(2) by (auto simp: kc_positions_def intro!: exI [of _ j])
    qed
  qed
qed

end
