(* ===== verification/StateProps.thy ===== *)
theory StateProps
  imports KvRestore
begin











definition demo_layer :: "bytes \<Rightarrow> kv_layer" where
  "demo_layer b = \<lparr>kl_k_type = 0, kl_k_row = 1, kl_v_type = 0, kl_v_row = 1, kl_v_el = 1, kl_n_embd_v_gqa = 1, kl_k = [b], kl_v = [b]\<rparr>"

definition demo_store :: "kv_cache \<Rightarrow> bytes \<Rightarrow> kv_store" where
  "demo_store kv b = \<lparr>ks_kv = kv, ks_layers = [demo_layer b], ks_n_pos_per_embd = 1\<rparr>"





subsection \<open>What is not restored\<close>

text \<open>A snapshot of an empty cache has no cells, and reading it leaves the cache as it was.\<close>

theorem empty_snapshot_ignored:
  "map_option fst (Option.bind (kv_state_write (demo_store demo_empty [0, 0, 0, 0]) (- 1))
     (\<lambda>b. kv_state_read (- 1) (demo_store demo_kv [5, 6, 7, 8], b))) = Some (Ret ()) \<and>
   map_option (\<lambda>r. kc_pos (kv_cells_v (ks_kv (fst (snd r))) ! 0))
     (Option.bind (kv_state_write (demo_store demo_empty [0, 0, 0, 0]) (- 1))
       (\<lambda>b. kv_state_read (- 1) (demo_store demo_kv [5, 6, 7, 8], b))) = Some [0, 1, - 1, - 1]"
  by code_simp

text \<open>With two streams that both hold tokens, restoring the second clears what was restored of the first.\<close>

definition demo_two :: kv_store where
  "demo_two = \<lparr>ks_kv = \<lparr>kv_n_seq_max = 2, kv_n_stream = 2, kv_n_pad = 1, kv_n_swa = 0, kv_swa_type = SWA_TYPE_NONE, kv_v_trans = False,
       kv_supports_set_rows = False, kv_heads = [1, 1],
       kv_cells_v = [\<lparr>kc_has_shift = False, kc_used = {0}, kc_pos = [4, - 1], kc_shift = [0, 0], kc_seq = [{0}, {}], kc_seq_pos = (replicate LLAMA_MAX_SEQ [])[0 := [(4, 1)]]\<rparr>,
         \<lparr>kc_has_shift = False, kc_used = {0}, kc_pos = [7, - 1], kc_shift = [0, 0], kc_seq = [{1}, {}], kc_seq_pos = (replicate LLAMA_MAX_SEQ [])[1 := [(7, 1)]]\<rparr>],
       kv_seq_to_stream = [0, 1], kv_sc_info = \<lparr>sc_ssrc = [], sc_sdst = []\<rparr>\<rparr>,
     ks_layers = [], ks_n_pos_per_embd = 1\<rparr>"

theorem second_stream_clears_first:
  "\<exists>b. kv_state_write demo_two (- 1) = Some b \<and>
    map_option (\<lambda>r. (fst r, map kc_pos (kv_cells_v (ks_kv (fst (snd r)))))) (kv_state_read (- 1) (demo_two, b)) = Some (Ret (), [[- 1, - 1], [7, - 1]])"
proof -
  have "kv_state_write demo_two (- 1) = Some
    ([2,0,0,0] @ [1,0,0,0, 4,0,0,0, 1,0,0,0, 0,0,0,0, 0,0,0,0, 0,0,0,0] @ [1,0,0,0, 7,0,0,0, 1,0,0,0, 1,0,0,0, 0,0,0,0, 0,0,0,0])"
    by code_simp
  moreover have "map_option (\<lambda>r. (fst r, map kc_pos (kv_cells_v (ks_kv (fst (snd r)))))) (kv_state_read (- 1) (demo_two,
    [2,0,0,0] @ [1,0,0,0, 4,0,0,0, 1,0,0,0, 0,0,0,0, 0,0,0,0, 0,0,0,0] @ [1,0,0,0, 7,0,0,0, 1,0,0,0, 1,0,0,0, 0,0,0,0, 0,0,0,0]))
      = Some (Ret (), [[- 1, - 1], [7, - 1]])"
    by code_simp
  ultimately show ?thesis by (intro exI conjI)
qed

end
