(* ===== verification/RecurrentState.thy ===== *)
theory RecurrentState
  imports RecurrentSlot StateIO
begin

text \<open>
  Saving and restoring the recurrent memory (src/llama-memory-recurrent.cpp): \<open>state_write\<close>,
  \<open>state_read\<close> and their metadata and data parts.

  \<open>rs_layers\<close> has one entry per layer of the model; it is \<open>None\<close> where \<open>r_l[il]\<close> and \<open>s_l[il]\<close> are
  null, for the layers the filter of the constructor leaves out.  The row sizes are those of
  \<open>ggml_row_size\<close>.  The functions also have a branch for transposed states; \<open>s_trans\<close> is the
  constant 0 in the writer, and the reader rejects any other value before it comes to the
  branch, so it is never taken and is left out.
\<close>

record rc_layer =
  rl_r_type :: int
  rl_r_row :: nat
  rl_r :: bytes
  rl_s_type :: int
  rl_s_row :: nat
  rl_s :: bytes

record rc_store =
  rs_mem :: recurrent
  rs_layers :: "rc_layer option list"
  rs_n_pos_per_embd :: nat

text \<open>\<open>r_l\<close> and \<open>s_l\<close> after construction with the layer filter \<open>keep\<close>: the kept layers have zeroed buffers.\<close>

definition rs_layers_init :: "(nat \<Rightarrow> bool) \<Rightarrow> (nat \<Rightarrow> rc_layer) \<Rightarrow> nat \<Rightarrow> nat \<Rightarrow> rc_layer option list" where
  "rs_layers_init keep shape mem_size n_layer = map (\<lambda>i. if keep i
     then Some ((shape i)\<lparr>rl_r := replicate (rl_r_row (shape i) * mem_size) 0, rl_s := replicate (rl_s_row (shape i) * mem_size) 0\<rparr>)
     else None) [0..<n_layer]"

definition rs_layer :: "nat \<Rightarrow> rc_store \<Rightarrow> rc_layer option" where
  "rs_layer il s = Option.bind (vget (rs_layers s) il) id"

subsection \<open>\<open>state_write\<close>\<close>

definition rw_cell :: "recurrent \<Rightarrow> llama_seq_id \<Rightarrow> nat \<Rightarrow> bytes option" where
  "rw_cell r seq_id i = do {
     c \<leftarrow> vget (rc_cells r) i;
     let ids = (if seq_id = - 1 then sorted_list_of_set (mc_seq c) else []);
     Some (w_i32 (mc_pos c) @ w_u32 (length ids) @ concat (map w_i32 ids)) }"

definition rc_state_write_meta :: "recurrent \<Rightarrow> (nat \<times> nat) list \<Rightarrow> llama_seq_id \<Rightarrow> bytes option" where
  "rc_state_write_meta r rs seq_id = concatM (\<lambda>(a, b). concatM (rw_cell r seq_id) [a..<b]) rs"

definition rw_r :: "rc_store \<Rightarrow> (nat \<times> nat) list \<Rightarrow> nat \<Rightarrow> bytes option" where
  "rw_r s rs il = do {
     l \<leftarrow> rs_layer il s;
     rows \<leftarrow> concatM (\<lambda>(a, b). tensor_get (rl_r l) (a * rl_r_row l) ((b - a) * rl_r_row l)) rs;
     Some (w_i32 (rl_r_type l) @ w_u64 (rl_r_row l) @ rows) }"

definition rw_s :: "rc_store \<Rightarrow> (nat \<times> nat) list \<Rightarrow> nat \<Rightarrow> bytes option" where
  "rw_s s rs il = do {
     l \<leftarrow> rs_layer il s;
     rows \<leftarrow> concatM (\<lambda>(a, b). tensor_get (rl_s l) (a * rl_s_row l) ((b - a) * rl_s_row l)) rs;
     Some (w_i32 (rl_s_type l) @ w_u64 (rl_s_row l) @ rows) }"

definition rc_state_write_data :: "rc_store \<Rightarrow> (nat \<times> nat) list \<Rightarrow> bytes option" where
  "rc_state_write_data s rs = do {
     let n_layer = length (rs_layers s);
     rb \<leftarrow> concatM (rw_r s rs) [0..<n_layer];
     sb \<leftarrow> concatM (rw_s s rs) [0..<n_layer];
     Some (w_u32 0 @ w_u32 n_layer @ rb @ sb) }"

definition rc_state_write :: "rc_store \<Rightarrow> llama_seq_id \<Rightarrow> bytes option" where
  "rc_state_write s seq_id = do {
     let r = rs_mem s;
     (count, rs) \<leftarrow> cell_ranges (\<lambda>i. do {
         c \<leftarrow> vget (rc_cells r) i;
         Some ((seq_id = - 1 \<and> \<not> mc_is_empty c) \<or> mc_has_seq_id c seq_id) }) (rc_size r);
     meta \<leftarrow> rc_state_write_meta r rs seq_id;
     data \<leftarrow> rc_state_write_data s rs;
     Some (w_u32 count @ meta @ data) }"

subsection \<open>\<open>state_read_meta\<close>\<close>

definition rs_do :: "(recurrent \<Rightarrow> recurrent option) \<Rightarrow> (rc_store, unit) reader" where
  "rs_do f = rput (\<lambda>s. map_option (\<lambda>r. s\<lparr>rs_mem := r\<rparr>) (f (rs_mem s)))"

definition rs_clear :: "rc_store \<Rightarrow> rc_store option" where
  "rs_clear s = do {
     r \<leftarrow> rc_clear (rs_mem s);
     Some (s\<lparr>rs_mem := r, rs_layers := map (map_option (\<lambda>l. l\<lparr>rl_r := map (\<lambda>_. 0) (rl_r l), rl_s := map (\<lambda>_. 0) (rl_s l)\<rparr>)) (rs_layers s)\<rparr>) }"

fun rr_positions :: "nat list \<Rightarrow> llama_ubatch \<Rightarrow> ('s, llama_ubatch option) reader" where
  "rr_positions [] ub = rret (Some ub)"
| "rr_positions (i # is) ub =
     rbind r_i32 (\<lambda>pos.
     rbind r_u32 (\<lambda>n_seq_id.
       if n_seq_id \<noteq> 0 then rret None
       else rr_positions is (ub\<lparr>ub_pos := (ub_pos ub)[i := pos]\<rparr>)))"

text \<open>The sequence id is stored at token 0, which is outside the arrays when there is no cell.\<close>

definition rr_set_seq :: "llama_seq_id \<Rightarrow> llama_ubatch \<Rightarrow> llama_ubatch option" where
  "rr_set_seq dest ub = do {
     n \<leftarrow> vset (ub_n_seq_id ub) 0 1;
     ids \<leftarrow> vset (ub_seq_id ub) 0 [dest];
     Some (ub\<lparr>ub_n_seq_id := n, ub_seq_id := ids\<rparr>) }"

definition rr_check :: "llama_ubatch \<Rightarrow> nat \<Rightarrow> llama_seq_id \<Rightarrow> recurrent \<Rightarrow> unit option" where
  "rr_check ub cell_count dest r = do {
     guard (rc_head r + cell_count \<le> rc_size r);
     c0 \<leftarrow> vget (rc_cells r) (rc_head r);
     p0 \<leftarrow> vget (ub_pos ub) 0;
     guard (mc_pos c0 = p0);
     k \<leftarrow> sidx (int (rc_head r + cell_count) - 1);
     c1 \<leftarrow> vget (rc_cells r) k;
     p1 \<leftarrow> vget (ub_pos ub) (cell_count - 1);
     guard (mc_pos c1 = p1);
     guard (mc_has_seq_id c0 dest);
     guard (mc_has_seq_id c1 dest) }"

definition rr_meta_seq :: "nat \<Rightarrow> llama_seq_id \<Rightarrow> (rc_store, bool) reader" where
  "rr_meta_seq cell_count dest =
     rbind (rs_do (\<lambda>r. map_option snd (rc_seq_rm r dest (- 1) (- 1)))) (\<lambda>_.
     rbind (rget (\<lambda>s. map_option fst (ba_ubatch_reserve cell_count 1 (ba_new (rs_n_pos_per_embd s))))) (\<lambda>ub.
     rbind (rr_positions [0..<cell_count] ub) (\<lambda>x. case x of
         None \<Rightarrow> rret False
       | Some ub \<Rightarrow> rdo (\<lambda>s. do {
           ub \<leftarrow> rr_set_seq dest ub;
           (ok, r) \<leftarrow> rc_find_slot (rs_mem s) ub;
           if \<not> ok then Some (False, s\<lparr>rs_mem := r\<rparr>) else do {
             _ \<leftarrow> rr_check ub cell_count dest r;
             Some (True, s\<lparr>rs_mem := r\<rparr>) } }))))"

definition rr_cell_seq :: "nat \<Rightarrow> nat \<Rightarrow> (rc_store, bool) reader" where
  "rr_cell_seq i j =
     rbind r_i32 (\<lambda>seq_id.
       if seq_id < 0 then rret False
       else rdo (\<lambda>s. do {
         r \<leftarrow> rc_upd (int i) (\<lambda>c. c\<lparr>mc_seq := insert seq_id (mc_seq c)\<rparr>) (rs_mem s);
         m \<leftarrow> rc_cell r seq_id;
         if mc_tail m \<noteq> - 1 then Some (False, s\<lparr>rs_mem := r\<rparr>)
         else do {
           r \<leftarrow> rc_upd seq_id (\<lambda>c. c\<lparr>mc_tail := int i\<rparr>) r;
           Some (True, s\<lparr>rs_mem := r\<rparr>) } }))"

definition rr_cell :: "nat \<Rightarrow> (rc_store, bool) reader" where
  "rr_cell i =
     rbind r_i32 (\<lambda>pos.
     rbind r_u32 (\<lambda>n_seq_id.
     rbind (rs_do (rc_upd (int i) (\<lambda>c. c\<lparr>mc_pos := pos\<rparr>))) (\<lambda>_.
       rall (rr_cell_seq i) [0..<n_seq_id])))"

definition rr_meta_all :: "nat \<Rightarrow> (rc_store, bool) reader" where
  "rr_meta_all cell_count =
     rbind (rget (\<lambda>s. Some (rc_size (rs_mem s)))) (\<lambda>sz.
       if cell_count > sz then rret False
       else
         rbind (rput rs_clear) (\<lambda>_.
         rbind (rall rr_cell [0..<cell_count]) (\<lambda>ok.
           if \<not> ok then rret False
           else rbind (rs_do (\<lambda>r. Some (r\<lparr>rc_head := 0, rc_used := cell_count\<rparr>))) (\<lambda>_. rret True))))"

text \<open>The last loop makes every restored cell keep its state: \<open>cells[cell_id].src = cell_id\<close>.\<close>

definition rr_keep_state :: "nat \<Rightarrow> recurrent \<Rightarrow> recurrent option" where
  "rr_keep_state cell_count r =
     foldM (\<lambda>i r. rc_upd (int (rc_head r + i)) (\<lambda>c. c\<lparr>mc_src := int (rc_head r + i)\<rparr>) r) [0..<cell_count] r"

definition rc_state_read_meta :: "nat \<Rightarrow> llama_seq_id \<Rightarrow> (rc_store, bool) reader" where
  "rc_state_read_meta cell_count dest =
     rbind (if dest \<noteq> - 1 then rr_meta_seq cell_count dest else rr_meta_all cell_count) (\<lambda>ok.
       if \<not> ok then rret False
       else rbind (rs_do (rr_keep_state cell_count)) (\<lambda>_. rret True))"

subsection \<open>\<open>state_read_data\<close> and \<open>state_read\<close>\<close>

definition rs_put_layer :: "nat \<Rightarrow> (rc_layer \<Rightarrow> rc_layer option) \<Rightarrow> (rc_store, unit) reader" where
  "rs_put_layer il f = rput (\<lambda>s. do {
     l \<leftarrow> rs_layer il s;
     l \<leftarrow> f l;
     Some (s\<lparr>rs_layers := (rs_layers s)[il := Some l]\<rparr>) })"

definition rr_r :: "nat \<Rightarrow> nat \<Rightarrow> nat \<Rightarrow> (rc_store, bool) reader" where
  "rr_r head cell_count il =
     rbind r_i32 (\<lambda>r_type_i_ref.
     rbind (rget (rs_layer il)) (\<lambda>l.
       if rl_r_type l \<noteq> r_type_i_ref then rret False
       else rbind r_u64 (\<lambda>r_size_row_ref.
         if rl_r_row l \<noteq> r_size_row_ref then rret False
         else if cell_count \<noteq> 0 then
           rbind (io_read (cell_count * rl_r_row l)) (\<lambda>b.
           rbind (rs_put_layer il (\<lambda>l. map_option (\<lambda>t. l\<lparr>rl_r := t\<rparr>)
             (tensor_set (rl_r l) b (head * rl_r_row l) (cell_count * rl_r_row l)))) (\<lambda>_. rret True))
         else rret True)))"

definition rr_s :: "nat \<Rightarrow> nat \<Rightarrow> nat \<Rightarrow> (rc_store, bool) reader" where
  "rr_s head cell_count il =
     rbind r_i32 (\<lambda>s_type_i_ref.
     rbind (rget (rs_layer il)) (\<lambda>l.
       if rl_s_type l \<noteq> s_type_i_ref then rret False
       else rbind r_u64 (\<lambda>s_size_row_ref.
         if rl_s_row l \<noteq> s_size_row_ref then rret False
         else if cell_count \<noteq> 0 then
           rbind (io_read (cell_count * rl_s_row l)) (\<lambda>b.
           rbind (rs_put_layer il (\<lambda>l. map_option (\<lambda>t. l\<lparr>rl_s := t\<rparr>)
             (tensor_set (rl_s l) b (head * rl_s_row l) (cell_count * rl_s_row l)))) (\<lambda>_. rret True))
         else rret True)))"

definition rc_state_read_data :: "nat \<Rightarrow> (rc_store, bool) reader" where
  "rc_state_read_data cell_count =
     rbind r_u32 (\<lambda>s_trans.
     rbind r_u32 (\<lambda>n_layer.
     rbind (rget (\<lambda>s. Some (length (rs_layers s), rc_size (rs_mem s), rc_head (rs_mem s)))) (\<lambda>(n, sz, head).
       if n_layer \<noteq> n then rret False
       else if cell_count > sz then rret False
       else if s_trans \<noteq> 0 then rret False
       else rbind (rall (rr_r head cell_count) [0..<n]) (\<lambda>ok.
         if \<not> ok then rret False
         else rall (rr_s head cell_count) [0..<n]))))"

definition rc_state_read :: "llama_seq_id \<Rightarrow> (rc_store, unit) reader" where
  "rc_state_read seq_id =
     rbind r_u32 (\<lambda>cell_count.
     rbind (rc_state_read_meta cell_count seq_id) (\<lambda>res.
     rbind (if res then rc_state_read_data cell_count else rret False) (\<lambda>res.
       if res then rret ()
       else rbind (if seq_id = - 1 then rput rs_clear
                   else rs_do (\<lambda>r. map_option snd (rc_seq_rm r seq_id (- 1) (- 1)))) (\<lambda>_. rthrow))))"

end
