(* ===== verification/Hybrid.thy ===== *)
theory Hybrid
  imports KvUpdate
begin

text \<open>
  \<open>llama_memory_hybrid\<close> (src/llama-memory-hybrid.h and .cpp): a unified cache for the attention
  layers and a recurrent memory for the others.  The attention cache is built with
  \<open>unified = 1\<close>; the constructor passes no \<open>n_stream\<close> of its own.
\<close>

record hybrid =
  hy_attn :: kv_cache
  hy_recr :: recurrent

definition hy_init :: "bool \<Rightarrow> bool \<Rightarrow> nat \<Rightarrow> nat \<Rightarrow> nat \<Rightarrow> llama_swa_type \<Rightarrow> nat \<Rightarrow> nat \<Rightarrow> hybrid option" where
  "hy_init v_trans set_rows kv_size n_pad n_swa swa_type rs_size n_seq_max = do {
     attn \<leftarrow> kv_init v_trans set_rows True kv_size n_seq_max n_pad n_swa swa_type;
     Some \<lparr>hy_attn = attn, hy_recr = rc_init rs_size n_seq_max\<rparr> }"

definition hy_get_can_shift :: "hybrid \<Rightarrow> bool" where
  "hy_get_can_shift h = kv_get_can_shift (hy_attn h)"

text \<open>An operation applied to the attention cache and then to the recurrent memory.\<close>

definition hy_both :: "(kv_cache \<Rightarrow> kv_cache option) \<Rightarrow> (recurrent \<Rightarrow> recurrent option) \<Rightarrow> hybrid \<Rightarrow> hybrid option" where
  "hy_both f g h = do {
     attn \<leftarrow> f (hy_attn h);
     recr \<leftarrow> g (hy_recr h);
     Some (h\<lparr>hy_attn := attn, hy_recr := recr\<rparr>) }"

definition hy_clear :: "hybrid \<Rightarrow> hybrid option" where
  "hy_clear h = hy_both (\<lambda>kv. Some (kv_clear kv)) rc_clear h"

definition hy_seq_rm :: "hybrid \<Rightarrow> llama_seq_id \<Rightarrow> llama_pos \<Rightarrow> llama_pos \<Rightarrow> (bool \<times> hybrid) option" where
  "hy_seq_rm h s p0 p1 = do {
     (ok, recr) \<leftarrow> rc_seq_rm (hy_recr h) s p0 p1;
     let h = h\<lparr>hy_recr := recr\<rparr>;
     if \<not> ok then Some (False, h) else do {
       (ok, attn) \<leftarrow> kv_seq_rm (hy_attn h) s p0 p1;
       Some (ok, h\<lparr>hy_attn := attn\<rparr>) } }"

definition hy_seq_cp :: "hybrid \<Rightarrow> llama_seq_id \<Rightarrow> llama_seq_id \<Rightarrow> llama_pos \<Rightarrow> llama_pos \<Rightarrow> hybrid option" where
  "hy_seq_cp h src dst p0 p1 = hy_both (\<lambda>kv. kv_seq_cp kv src dst p0 p1) (\<lambda>r. rc_seq_cp r src dst p0 p1) h"

definition hy_seq_keep :: "hybrid \<Rightarrow> llama_seq_id \<Rightarrow> hybrid option" where
  "hy_seq_keep h s = hy_both (\<lambda>kv. kv_seq_keep kv s) (\<lambda>r. rc_seq_keep r s) h"

definition hy_seq_add :: "hybrid \<Rightarrow> llama_seq_id \<Rightarrow> llama_pos \<Rightarrow> llama_pos \<Rightarrow> llama_pos \<Rightarrow> hybrid option" where
  "hy_seq_add h s p0 p1 shift = hy_both (\<lambda>kv. kv_seq_add kv s p0 p1 shift) (\<lambda>r. rc_seq_add r s p0 p1 shift) h"

definition hy_seq_div :: "hybrid \<Rightarrow> llama_seq_id \<Rightarrow> llama_pos \<Rightarrow> llama_pos \<Rightarrow> int \<Rightarrow> hybrid option" where
  "hy_seq_div h s p0 p1 d = hy_both (\<lambda>kv. kv_seq_div kv s p0 p1 d) (\<lambda>r. rc_seq_div r s p0 p1 d) h"

definition hy_seq_pos_min :: "hybrid \<Rightarrow> llama_seq_id \<Rightarrow> llama_pos option" where
  "hy_seq_pos_min h s = do {
     a \<leftarrow> kv_seq_pos_min (hy_attn h) s;
     b \<leftarrow> rc_seq_pos_min (hy_recr h) s;
     Some (max a b) }"

definition hy_seq_pos_max :: "hybrid \<Rightarrow> llama_seq_id \<Rightarrow> llama_pos option" where
  "hy_seq_pos_max h s = do {
     a \<leftarrow> kv_seq_pos_max (hy_attn h) s;
     b \<leftarrow> rc_seq_pos_max (hy_recr h) s;
     Some (min a b) }"

subsection \<open>The memory context\<close>

record hybrid_context =
  hx_status :: llama_memory_status
  hx_i_next :: nat
  hx_ubatches :: "llama_ubatch list"
  hx_attn :: kv_context
  hx_recr :: recurrent_context

text \<open>As for the sliding-window cache, the inner contexts of a failed one are never read.\<close>

definition hx_failed :: "llama_memory_status \<Rightarrow> hybrid_context" where
  "hx_failed st = \<lparr>hx_status = st, hx_i_next = 0, hx_ubatches = [], hx_attn = kx_failed st 0, hx_recr = rx_failed st\<rparr>"

definition hx_combine :: "llama_ubatch list \<Rightarrow> kv_context \<Rightarrow> recurrent_context \<Rightarrow> hybrid_context" where
  "hx_combine ubs a r = \<lparr>hx_status = llama_memory_status_combine (kx_status a) (rx_status r), hx_i_next = 0,
     hx_ubatches = ubs, hx_attn = a, hx_recr = r\<rparr>"

definition hy_init_batch :: "batch_allocr \<Rightarrow> nat \<Rightarrow> bool \<Rightarrow> hybrid \<Rightarrow> (hybrid_context \<times> batch_allocr \<times> hybrid) option" where
  "hy_init_batch a n_ubatch embd_all h = do {
     let a = ba_split_reset a;
     (ubs, a) \<leftarrow> split_loop (if embd_all then ba_split_seq n_ubatch else ba_split_equal n_ubatch False) [] a;
     if ba_get_n_used a < ba_get_n_tokens a
     then Some (hx_failed MEMORY_STATUS_FAILED_PREPARE, a, h)
     else do {
       (ok, recr) \<leftarrow> rc_prepare ubs (hy_recr h);
       let h = h\<lparr>hy_recr := recr\<rparr>;
       if \<not> ok then Some (hx_failed MEMORY_STATUS_FAILED_PREPARE, a, h)
       else do {
         (sis, attn) \<leftarrow> kv_prepare ubs (hy_attn h);
         let h = h\<lparr>hy_attn := attn\<rparr>;
         if sis = [] then Some (hx_failed MEMORY_STATUS_FAILED_PREPARE, a, h)
         else Some (hx_combine ubs (kx_batch_new sis ubs 0) (rx_batch ubs), a, h) } } }"

definition hy_init_full :: "hybrid \<Rightarrow> hybrid_context option" where
  "hy_init_full h = do {
     a \<leftarrow> kv_init_full (hy_attn h);
     Some (hx_combine [] a (rc_init_full (hy_recr h))) }"

definition hy_init_update :: "lctx_view \<Rightarrow> nat \<Rightarrow> bool \<Rightarrow> hybrid \<Rightarrow> (hybrid_context \<times> hybrid) option" where
  "hy_init_update lctx n_layer optimize h = do {
     (a, attn) \<leftarrow> kv_init_update lctx n_layer optimize (hy_attn h) 0;
     let r = rc_init_update (hy_recr h) optimize;
     Some (hx_combine [] a r, h\<lparr>hy_attn := attn\<rparr>) }"

definition hx_next :: "hybrid_context \<Rightarrow> (bool \<times> hybrid_context) option" where
  "hx_next x = do {
     guard (hx_status x = MEMORY_STATUS_SUCCESS);
     (_, a) \<leftarrow> kx_next (hx_attn x);
     (_, r) \<leftarrow> rx_next (hx_recr x);
     let x = x\<lparr>hx_attn := a, hx_recr := r, hx_i_next := hx_i_next x + 1\<rparr>;
     Some (hx_i_next x < length (hx_ubatches x), x) }"

definition hx_apply :: "hybrid_context \<Rightarrow> hybrid \<Rightarrow> (bool \<times> hybrid_context \<times> hybrid) option" where
  "hx_apply x h = do {
     guard (\<not> llama_memory_status_is_fail (hx_status x));
     let res = True;
     (b, a, attn) \<leftarrow> kx_apply (hx_attn x) (hy_attn h);
     let res = (res \<and> b);
     (b, recr) \<leftarrow> rx_apply (hx_recr x) (hy_recr h);
     let res = (res \<and> b);
     Some (res, x\<lparr>hx_attn := a\<rparr>, h\<lparr>hy_attn := attn, hy_recr := recr\<rparr>) }"

definition hx_get_ubatch :: "hybrid_context \<Rightarrow> llama_ubatch option" where
  "hx_get_ubatch x = do {
     guard (hx_status x = MEMORY_STATUS_SUCCESS);
     vget (hx_ubatches x) (hx_i_next x) }"

definition hx_get_attn :: "hybrid_context \<Rightarrow> kv_context" where
  "hx_get_attn x = hx_attn x"

definition hx_get_recr :: "hybrid_context \<Rightarrow> recurrent_context" where
  "hx_get_recr x = hx_recr x"

end
