(* ===== verification/Iswa.thy ===== *)
theory Iswa
  imports KvUpdate
begin

text \<open>
  \<open>llama_kv_cache_unified_iswa\<close> (src/llama-kv-cache-unified-iswa.h and .cpp): two unified caches, one
  for the layers with full attention and one for the layers with a sliding window.  Every
  operation on sequences goes to both; the positions are read from the second.
\<close>

record kv_iswa =
  sw_unified :: bool
  sw_base :: kv_cache
  sw_swa :: kv_cache

text \<open>
  \<open>GGML_PAD(n_swa*(unified ? n_seq_max : 1) + n_ubatch, n_pad)\<close> in unsigned arithmetic.
\<close>

definition iswa_size_swa :: "nat \<Rightarrow> bool \<Rightarrow> nat \<Rightarrow> nat \<Rightarrow> nat \<Rightarrow> nat \<Rightarrow> bool \<Rightarrow> nat" where
  "iswa_size_swa n_swa unified n_seq_max n_ubatch n_pad size_base swa_full =
     (let size_swa = min size_base (GGML_PAD (u32 (int (n_swa * (if unified then n_seq_max else 1) + n_ubatch))) n_pad)
      in if swa_full then size_base else size_swa)"

definition iswa_init :: "bool \<Rightarrow> bool \<Rightarrow> bool \<Rightarrow> bool \<Rightarrow> nat \<Rightarrow> nat \<Rightarrow> nat \<Rightarrow> nat \<Rightarrow> nat \<Rightarrow> llama_swa_type \<Rightarrow> kv_iswa option" where
  "iswa_init v_trans set_rows swa_full unified kv_size n_seq_max n_ubatch n_pad n_swa swa_type = do {
     let size_base = kv_size;
     let size_swa = iswa_size_swa n_swa unified n_seq_max n_ubatch n_pad size_base swa_full;
     base \<leftarrow> kv_init v_trans set_rows unified size_base n_seq_max n_pad 0 SWA_TYPE_NONE;
     swa \<leftarrow> kv_init v_trans set_rows unified size_swa n_seq_max n_pad n_swa swa_type;
     Some \<lparr>sw_unified = unified, sw_base = base, sw_swa = swa\<rparr> }"

definition iswa_clear :: "kv_iswa \<Rightarrow> kv_iswa" where
  "iswa_clear w = w\<lparr>sw_base := kv_clear (sw_base w), sw_swa := kv_clear (sw_swa w)\<rparr>"

definition iswa_seq_rm :: "kv_iswa \<Rightarrow> llama_seq_id \<Rightarrow> llama_pos \<Rightarrow> llama_pos \<Rightarrow> (bool \<times> kv_iswa) option" where
  "iswa_seq_rm w s p0 p1 = do {
     let res = True;
     (b, base) \<leftarrow> kv_seq_rm (sw_base w) s p0 p1;
     let res = (res \<and> b);
     (b, swa) \<leftarrow> kv_seq_rm (sw_swa w) s p0 p1;
     let res = (res \<and> b);
     Some (res, w\<lparr>sw_base := base, sw_swa := swa\<rparr>) }"

text \<open>An operation applied to both caches.\<close>

definition iswa_both :: "(kv_cache \<Rightarrow> kv_cache option) \<Rightarrow> kv_iswa \<Rightarrow> kv_iswa option" where
  "iswa_both f w = do {
     base \<leftarrow> f (sw_base w);
     swa \<leftarrow> f (sw_swa w);
     Some (w\<lparr>sw_base := base, sw_swa := swa\<rparr>) }"

definition iswa_seq_cp :: "kv_iswa \<Rightarrow> llama_seq_id \<Rightarrow> llama_seq_id \<Rightarrow> llama_pos \<Rightarrow> llama_pos \<Rightarrow> kv_iswa option" where
  "iswa_seq_cp w src dst p0 p1 = iswa_both (\<lambda>kv. kv_seq_cp kv src dst p0 p1) w"

definition iswa_seq_keep :: "kv_iswa \<Rightarrow> llama_seq_id \<Rightarrow> kv_iswa option" where
  "iswa_seq_keep w s = iswa_both (\<lambda>kv. kv_seq_keep kv s) w"

definition iswa_seq_add :: "kv_iswa \<Rightarrow> llama_seq_id \<Rightarrow> llama_pos \<Rightarrow> llama_pos \<Rightarrow> llama_pos \<Rightarrow> kv_iswa option" where
  "iswa_seq_add w s p0 p1 shift = iswa_both (\<lambda>kv. kv_seq_add kv s p0 p1 shift) w"

definition iswa_seq_div :: "kv_iswa \<Rightarrow> llama_seq_id \<Rightarrow> llama_pos \<Rightarrow> llama_pos \<Rightarrow> int \<Rightarrow> kv_iswa option" where
  "iswa_seq_div w s p0 p1 d = iswa_both (\<lambda>kv. kv_seq_div kv s p0 p1 d) w"

definition iswa_seq_pos_min :: "kv_iswa \<Rightarrow> llama_seq_id \<Rightarrow> llama_pos option" where
  "iswa_seq_pos_min w s = kv_seq_pos_min (sw_swa w) s"

definition iswa_seq_pos_max :: "kv_iswa \<Rightarrow> llama_seq_id \<Rightarrow> llama_pos option" where
  "iswa_seq_pos_max w s = kv_seq_pos_max (sw_swa w) s"

definition iswa_get_can_shift :: "kv_iswa \<Rightarrow> bool option" where
  "iswa_get_can_shift w = do {
     n0 \<leftarrow> kv_get_size (sw_base w);
     n1 \<leftarrow> kv_get_size (sw_swa w);
     Some (n0 = n1) }"

subsection \<open>The memory context\<close>

record iswa_context =
  wx_status :: llama_memory_status
  wx_i_next :: nat
  wx_ubatches :: "llama_ubatch list"
  wx_base :: kv_context
  wx_swa :: kv_context

text \<open>
  A failed context has no inner contexts; nothing reads them, as every method checks the
  status first, and the model leaves failed ones there.
\<close>

definition wx_failed :: "llama_memory_status \<Rightarrow> iswa_context" where
  "wx_failed st = \<lparr>wx_status = st, wx_i_next = 0, wx_ubatches = [], wx_base = kx_failed st 0, wx_swa = kx_failed st 0\<rparr>"

definition wx_combine :: "llama_ubatch list \<Rightarrow> kv_context \<Rightarrow> kv_context \<Rightarrow> iswa_context" where
  "wx_combine ubs b s = \<lparr>wx_status = llama_memory_status_combine (kx_status b) (kx_status s), wx_i_next = 0,
     wx_ubatches = ubs, wx_base = b, wx_swa = s\<rparr>"

text \<open>
  One attempt of \<open>init_batch\<close>: split, prepare both caches.  \<open>None\<close> inside \<open>Some\<close> is a \<open>break\<close>
  out of the block, after which the next attempt runs.
\<close>

definition iswa_attempt :: "(batch_allocr \<Rightarrow> (llama_ubatch \<times> batch_allocr) option) \<Rightarrow> batch_allocr \<Rightarrow> kv_iswa \<Rightarrow>
    (iswa_context option \<times> batch_allocr \<times> kv_iswa) option" where
  "iswa_attempt split a w = do {
     let a = ba_split_reset a;
     (ubs, a) \<leftarrow> split_loop split [] a;
     if ba_get_n_used a < ba_get_n_tokens a then Some (None, a, w)
     else do {
       (si_base, base) \<leftarrow> kv_prepare ubs (sw_base w);
       let w = w\<lparr>sw_base := base\<rparr>;
       if si_base = [] then Some (None, a, w)
       else do {
         (si_swa, swa) \<leftarrow> kv_prepare ubs (sw_swa w);
         let w = w\<lparr>sw_swa := swa\<rparr>;
         if si_swa = [] then Some (None, a, w)
         else do {
           guard (length si_base = length si_swa);
           Some (Some (wx_combine ubs (kx_batch_new si_base ubs 0) (kx_batch_new si_swa ubs 0)), a, w) } } } }"

definition iswa_init_batch :: "batch_allocr \<Rightarrow> nat \<Rightarrow> kv_iswa \<Rightarrow> (iswa_context \<times> batch_allocr \<times> kv_iswa) option" where
  "iswa_init_batch a n_ubatch w = do {
     (x, a, w) \<leftarrow> (if \<not> sw_unified w then Some (None, a, w)
                   else iswa_attempt (ba_split_simple n_ubatch) a w);
     (case x of
        Some x \<Rightarrow> Some (x, a, w)
      | None \<Rightarrow> do {
          (x, a, w) \<leftarrow> iswa_attempt (ba_split_equal n_ubatch (\<not> sw_unified w)) a w;
          (case x of
             Some x \<Rightarrow> Some (x, a, w)
           | None \<Rightarrow> Some (wx_failed MEMORY_STATUS_FAILED_PREPARE, a, w)) }) }"

definition iswa_init_full :: "kv_iswa \<Rightarrow> iswa_context option" where
  "iswa_init_full w = do {
     b \<leftarrow> kv_init_full (sw_base w);
     s \<leftarrow> kv_init_full (sw_swa w);
     Some (wx_combine [] b s) }"

text \<open>\<open>n_base\<close> and \<open>n_swa\<close> are the numbers of layers of the two caches.\<close>

definition iswa_init_update :: "lctx_view \<Rightarrow> nat \<Rightarrow> nat \<Rightarrow> bool \<Rightarrow> kv_iswa \<Rightarrow> (iswa_context \<times> kv_iswa) option" where
  "iswa_init_update lctx n_base n_swa optimize w = do {
     (b, base) \<leftarrow> kv_init_update lctx n_base optimize (sw_base w) 0;
     (s, swa) \<leftarrow> kv_init_update lctx n_swa optimize (sw_swa w) 0;
     Some (wx_combine [] b s, w\<lparr>sw_base := base, sw_swa := swa\<rparr>) }"

definition wx_next :: "iswa_context \<Rightarrow> (bool \<times> iswa_context) option" where
  "wx_next x = do {
     guard (wx_status x = MEMORY_STATUS_SUCCESS);
     (_, b) \<leftarrow> kx_next (wx_base x);
     (_, s) \<leftarrow> kx_next (wx_swa x);
     let x = x\<lparr>wx_base := b, wx_swa := s, wx_i_next := wx_i_next x + 1\<rparr>;
     Some (wx_i_next x < length (wx_ubatches x), x) }"

definition wx_apply :: "iswa_context \<Rightarrow> kv_iswa \<Rightarrow> (bool \<times> iswa_context \<times> kv_iswa) option" where
  "wx_apply x w = do {
     guard (\<not> llama_memory_status_is_fail (wx_status x));
     let res = True;
     (r, b, base) \<leftarrow> kx_apply (wx_base x) (sw_base w);
     let res = (res \<and> r);
     (r, s, swa) \<leftarrow> kx_apply (wx_swa x) (sw_swa w);
     let res = (res \<and> r);
     Some (res, x\<lparr>wx_base := b, wx_swa := s\<rparr>, w\<lparr>sw_base := base, sw_swa := swa\<rparr>) }"

definition wx_get_ubatch :: "iswa_context \<Rightarrow> llama_ubatch option" where
  "wx_get_ubatch x = do {
     guard (wx_status x = MEMORY_STATUS_SUCCESS);
     vget (wx_ubatches x) (wx_i_next x) }"

definition wx_get_base :: "iswa_context \<Rightarrow> kv_context option" where
  "wx_get_base x = do { guard (wx_status x = MEMORY_STATUS_SUCCESS); Some (wx_base x) }"

definition wx_get_swa :: "iswa_context \<Rightarrow> kv_context option" where
  "wx_get_swa x = do { guard (wx_status x = MEMORY_STATUS_SUCCESS); Some (wx_swa x) }"

end
