(* ===== verification/PairState.thy ===== *)
theory PairState
  imports KvState RecurrentState Hybrid Iswa
begin

text \<open>
  Saving and restoring the two memories that are made of two others
  (src/llama-memory-hybrid.cpp, src/llama-kv-cache-unified-iswa.cpp): the first part is written and
  read before the second, with no separator.
\<close>

definition rfst :: "('s, 'a) reader \<Rightarrow> ('s \<times> 't, 'a) reader" where
  "rfst m = (\<lambda>((s, t), io). map_option (\<lambda>(x, s, io). (x, (s, t), io)) (m (s, io)))"

definition rsnd :: "('t, 'a) reader \<Rightarrow> ('s \<times> 't, 'a) reader" where
  "rsnd m = (\<lambda>((s, t), io). map_option (\<lambda>(x, t, io). (x, (s, t), io)) (m (t, io)))"

definition hy_state_write :: "kv_store \<times> rc_store \<Rightarrow> llama_seq_id \<Rightarrow> bytes option" where
  "hy_state_write h seq_id = do {
     a \<leftarrow> kv_state_write (fst h) seq_id;
     r \<leftarrow> rc_state_write (snd h) seq_id;
     Some (a @ r) }"

definition hy_state_read :: "llama_seq_id \<Rightarrow> (kv_store \<times> rc_store, unit) reader" where
  "hy_state_read seq_id = rbind (rfst (kv_state_read seq_id)) (\<lambda>_. rsnd (rc_state_read seq_id))"

definition iswa_state_write :: "kv_store \<times> kv_store \<Rightarrow> llama_seq_id \<Rightarrow> bytes option" where
  "iswa_state_write w seq_id = do {
     b \<leftarrow> kv_state_write (fst w) seq_id;
     s \<leftarrow> kv_state_write (snd w) seq_id;
     Some (b @ s) }"

definition iswa_state_read :: "llama_seq_id \<Rightarrow> (kv_store \<times> kv_store, unit) reader" where
  "iswa_state_read seq_id = rbind (rfst (kv_state_read seq_id)) (\<lambda>_. rsnd (kv_state_read seq_id))"

lemma rfst_run [rsimps]: "m (s, io) = Some (x, s', io') \<Longrightarrow> rfst m ((s, t), io) = Some (x, (s', t), io')"
  by (simp add: rfst_def)

lemma rsnd_run [rsimps]: "m (t, io) = Some (x, t', io') \<Longrightarrow> rsnd m ((s, t), io) = Some (x, (s, t'), io')"
  by (simp add: rsnd_def)

end
