(* ===== verification/MemoryIface.thy ===== *)
theory MemoryIface
  imports Prelude
begin

text \<open>
  The interface \<open>llama_memory_i\<close> (src/llama-memory.h) as its clients use it: the sequences a memory
  knows, the positions each of them holds, and the operations \<open>clear\<close>, \<open>seq_rm\<close>, \<open>seq_keep\<close>,
  \<open>seq_pos_min\<close> and \<open>seq_pos_max\<close>.  The laws say what every memory promises; the lemmas in the
  locale follow from them alone.  \<open>mem_exact\<close> adds what the hybrid memory does not promise: that
  \<open>seq_pos_min\<close> is the least position.
\<close>

definition pos_range :: "llama_pos \<Rightarrow> llama_pos \<Rightarrow> llama_pos \<Rightarrow> bool" where
  "pos_range p0 p1 p \<longleftrightarrow> (if p0 < 0 then 0 else p0) \<le> p \<and> p < (if p1 < 0 then INT32_MAX else p1)"

text \<open>The state-changing calls of a client.\<close>

datatype mem_call = CallClear | CallRm llama_seq_id llama_pos llama_pos | CallKeep llama_seq_id

text \<open>The result of \<open>seq_rm\<close> is dropped here.\<close>

fun mem_do :: "('m \<Rightarrow> 'm option) \<Rightarrow> ('m \<Rightarrow> llama_seq_id \<Rightarrow> llama_pos \<Rightarrow> llama_pos \<Rightarrow> (bool \<times> 'm) option) \<Rightarrow>
    ('m \<Rightarrow> llama_seq_id \<Rightarrow> 'm option) \<Rightarrow> mem_call \<Rightarrow> 'm \<Rightarrow> 'm option" where
  "mem_do clear seq_rm seq_keep CallClear m = clear m"
| "mem_do clear seq_rm seq_keep (CallRm s p0 p1) m = map_option snd (seq_rm m s p0 p1)"
| "mem_do clear seq_rm seq_keep (CallKeep s) m = seq_keep m s"

fun call_seqs :: "mem_call \<Rightarrow> llama_seq_id list" where
  "call_seqs CallClear = []"
| "call_seqs (CallRm s p0 p1) = [s]"
| "call_seqs (CallKeep s) = [s]"

locale llama_memory =
  fixes wf :: "'m \<Rightarrow> bool"
    and known :: "'m \<Rightarrow> llama_seq_id \<Rightarrow> bool"
    and positions :: "'m \<Rightarrow> llama_seq_id \<Rightarrow> llama_pos set"
    and clear :: "'m \<Rightarrow> 'm option"
    and seq_rm :: "'m \<Rightarrow> llama_seq_id \<Rightarrow> llama_pos \<Rightarrow> llama_pos \<Rightarrow> (bool \<times> 'm) option"
    and seq_keep :: "'m \<Rightarrow> llama_seq_id \<Rightarrow> 'm option"
    and pos_min :: "'m \<Rightarrow> llama_seq_id \<Rightarrow> llama_pos option"
    and pos_max :: "'m \<Rightarrow> llama_seq_id \<Rightarrow> llama_pos option"
  assumes fin: "wf m \<Longrightarrow> known m s \<Longrightarrow> finite (positions m s)"
    and nonneg: "wf m \<Longrightarrow> known m s \<Longrightarrow> p \<in> positions m s \<Longrightarrow> 0 \<le> p"
    and clear_law: "wf m \<Longrightarrow> \<exists>m'. clear m = Some m' \<and> wf m' \<and> known m' = known m \<and>
      (\<forall>s. known m s \<longrightarrow> positions m' s = {})"
    and seq_rm_law: "wf m \<Longrightarrow> known m s \<Longrightarrow> \<exists>b m'. seq_rm m s p0 p1 = Some (b, m') \<and> wf m' \<and> known m' = known m \<and>
      (\<not> b \<longrightarrow> m' = m) \<and> (b \<longrightarrow> (\<forall>t. known m t \<longrightarrow> positions m' t =
        (if t = s then {p \<in> positions m s. \<not> pos_range p0 p1 p} else positions m t)))"
    and seq_rm_full: "wf m \<Longrightarrow> known m s \<Longrightarrow> \<forall>p \<in> positions m s. p < INT32_MAX \<Longrightarrow>
      \<exists>m'. seq_rm m s (- 1) (- 1) = Some (True, m')"
    and seq_keep_law: "wf m \<Longrightarrow> known m s \<Longrightarrow> \<exists>m'. seq_keep m s = Some m' \<and> wf m' \<and> known m' = known m \<and>
      positions m' s = positions m s \<and> (\<forall>t. known m t \<longrightarrow> positions m' t \<in> {{}, positions m t})"
    and pos_min_law: "wf m \<Longrightarrow> known m s \<Longrightarrow> \<forall>p \<in> positions m s. p < INT32_MAX \<Longrightarrow>
      \<exists>q. pos_min m s = Some q \<and> (if positions m s = {} then q = - 1 else q \<in> positions m s)"
    and pos_max_law: "wf m \<Longrightarrow> known m s \<Longrightarrow>
      pos_max m s = Some (if positions m s = {} then - 1 else Max (positions m s))"
begin

text \<open>The pair \<open>(pos_min, pos_max)\<close> brackets the positions and is \<open>-1\<close> for an absent sequence.\<close>

lemma pos_min_le_max:
  assumes "wf m" "known m s" "\<forall>p \<in> positions m s. p < INT32_MAX"
  shows "\<exists>a b. pos_min m s = Some a \<and> pos_max m s = Some b \<and> a \<le> b \<and>
    (positions m s = {} \<longleftrightarrow> b = - 1) \<and> (positions m s = {} \<longleftrightarrow> a = - 1)"
proof -
  obtain a where a: "pos_min m s = Some a" "if positions m s = {} then a = - 1 else a \<in> positions m s"
    using pos_min_law [OF assms] by blast
  have "positions m s \<noteq> {} \<Longrightarrow> Max (positions m s) \<in> positions m s"
    using fin [OF assms(1,2)] by simp
  moreover have "positions m s \<noteq> {} \<Longrightarrow> a \<le> Max (positions m s)"
    using a(2) fin [OF assms(1,2)] by simp
  moreover have "positions m s \<noteq> {} \<Longrightarrow> 0 \<le> a"
    using a(2) nonneg [OF assms(1,2)] by simp
  ultimately show ?thesis
    using a pos_max_law [OF assms(1,2)] by (cases "positions m s = {}") auto
qed

lemma seq_rm_done:
  assumes "wf m" "known m s" "seq_rm m s p0 p1 = Some (True, m')"
  shows "wf m'" and "known m' = known m"
    and "known m t \<Longrightarrow> positions m' t = (if t = s then {p \<in> positions m s. \<not> pos_range p0 p1 p} else positions m t)"
proof -
  from seq_rm_law [OF assms(1,2), of p0 p1] obtain b m'' where m'': "seq_rm m s p0 p1 = Some (b, m'')" "wf m''"
    "known m'' = known m" "b \<longrightarrow> (\<forall>t. known m t \<longrightarrow> positions m'' t =
        (if t = s then {p \<in> positions m s. \<not> pos_range p0 p1 p} else positions m t))"
    by blast
  have "b" "m'' = m'" using m''(1) assms(3) by simp_all
  then show "wf m'" "known m' = known m"
    "known m t \<Longrightarrow> positions m' t = (if t = s then {p \<in> positions m s. \<not> pos_range p0 p1 p} else positions m t)"
    using m''(2-4) by simp_all
qed

text \<open>Removing everything from a sequence makes it absent and leaves the others.\<close>

lemma rm_all:
  assumes "wf m" "known m s" "\<forall>p \<in> positions m s. p < INT32_MAX"
  shows "\<exists>m'. seq_rm m s (- 1) (- 1) = Some (True, m') \<and> wf m' \<and> pos_max m' s = Some (- 1) \<and>
    (\<forall>t. known m t \<longrightarrow> t \<noteq> s \<longrightarrow> pos_max m' t = pos_max m t)"
proof -
  obtain m' where m': "seq_rm m s (- 1) (- 1) = Some (True, m')" using seq_rm_full [OF assms] by blast
  note law = seq_rm_done [OF assms(1,2) this]
  have "{p \<in> positions m s. \<not> pos_range (- 1) (- 1) p} = {}"
    using nonneg [OF assms(1,2)] assms(3) by (auto simp: pos_range_def)
  then have "positions m' s = {}" using law(3) assms(2) by simp
  then have "pos_max m' s = Some (- 1)" using pos_max_law [OF law(1), of s] law(2) assms(2) by simp
  moreover have "pos_max m' t = pos_max m t" if "known m t" "t \<noteq> s" for t
    using that law(2,3) pos_max_law [OF assms(1) that(1)] pos_max_law [OF law(1), of t] by simp
  ultimately show ?thesis using m' law(1) by blast
qed

text \<open>A client that clears, removes and keeps sequences of the memory never makes it abort.\<close>

lemma call_shrinks:
  assumes "wf m" "\<forall>s \<in> set (call_seqs c). known m s"
  shows "\<exists>m'. mem_do clear seq_rm seq_keep c m = Some m' \<and> wf m' \<and> known m' = known m \<and> (\<forall>t. known m t \<longrightarrow> positions m' t \<subseteq> positions m t)"
proof (cases c)
  case CallClear
  then show ?thesis using clear_law [OF assms(1)] by force
next
  case (CallRm s p0 p1)
  then have "known m s" using assms(2) by simp
  from seq_rm_law [OF assms(1) this, of p0 p1] obtain b m' where m': "seq_rm m s p0 p1 = Some (b, m')" "wf m'"
    "known m' = known m" "\<not> b \<longrightarrow> m' = m" "b \<longrightarrow> (\<forall>t. known m t \<longrightarrow> positions m' t =
        (if t = s then {p \<in> positions m s. \<not> pos_range p0 p1 p} else positions m t))"
    by blast
  have "positions m' t \<subseteq> positions m t" if "known m t" for t
    using that m'(4,5) by (cases b) (auto split: if_splits)
  then show ?thesis using m'(1-3) CallRm by auto
next
  case (CallKeep s)
  then have s: "known m s" using assms(2) by simp
  from seq_keep_law [OF assms(1) s] obtain m' where m': "seq_keep m s = Some m'" "wf m'" "known m' = known m"
    "positions m' s = positions m s" "\<forall>t. known m t \<longrightarrow> positions m' t \<in> {{}, positions m t}"
    by blast
  have "positions m' t \<subseteq> positions m t" if "known m t" for t using that m'(5) by auto
  then show ?thesis using m'(1-3) CallKeep by auto
qed

lemma calls_shrink:
  assumes "wf m" "\<forall>c \<in> set cs. \<forall>s \<in> set (call_seqs c). known m s"
  shows "\<exists>m'. foldM (mem_do clear seq_rm seq_keep) cs m = Some m' \<and> wf m' \<and> (\<forall>t. known m t \<longrightarrow> positions m' t \<subseteq> positions m t)"
proof -
  have "\<exists>m'. foldM (mem_do clear seq_rm seq_keep) cs m = Some m' \<and> (wf m' \<and> known m' = known m \<and> (\<forall>t. known m t \<longrightarrow> positions m' t \<subseteq> positions m t))"
  proof (rule foldM_rule [where P = "\<lambda>_ m'. wf m' \<and> known m' = known m \<and> (\<forall>t. known m t \<longrightarrow> positions m' t \<subseteq> positions m t)"])
    show "wf m \<and> known m = known m \<and> (\<forall>t. known m t \<longrightarrow> positions m t \<subseteq> positions m t)" using assms(1) by simp
  next
    fix ys c m'
    assume c: "\<exists>zs. cs = ys @ c # zs" and m': "wf m' \<and> known m' = known m \<and> (\<forall>t. known m t \<longrightarrow> positions m' t \<subseteq> positions m t)"
    from m' have w: "wf m'" and k: "known m' = known m" by simp_all
    from c have "c \<in> set cs" by auto
    then have "\<forall>s \<in> set (call_seqs c). known m' s" using assms(2) k by simp
    from call_shrinks [OF w this] obtain m'' where m'': "mem_do clear seq_rm seq_keep c m' = Some m''" "wf m''" "known m'' = known m'"
      "\<forall>t. known m' t \<longrightarrow> positions m'' t \<subseteq> positions m' t" by (elim exE conjE)
    have "positions m'' t \<subseteq> positions m t" if t: "known m t" for t
    proof -
      have "known m' t" using t k by simp
      moreover have "positions m' t \<subseteq> positions m t" using t m' by simp
      ultimately show ?thesis using m''(4) by (meson subset_trans)
    qed
    moreover have "known m'' = known m" using m''(3) k by simp
    ultimately have "wf m'' \<and> known m'' = known m \<and> (\<forall>t. known m t \<longrightarrow> positions m'' t \<subseteq> positions m t)"
      using m''(2) by simp
    with m''(1) show "\<exists>m''. mem_do clear seq_rm seq_keep c m' = Some m'' \<and> wf m'' \<and> known m'' = known m \<and> (\<forall>t. known m t \<longrightarrow> positions m'' t \<subseteq> positions m t)"
      by blast
  qed
  then show ?thesis by blast
qed

end

locale mem_exact = llama_memory +
  assumes pos_min_exact: "wf m \<Longrightarrow> known m s \<Longrightarrow> \<forall>p \<in> positions m s. p < INT32_MAX \<Longrightarrow>
    pos_min m s = Some (if positions m s = {} then - 1 else Min (positions m s))"
begin

text \<open>A sequence whose two bounds agree with its number of positions has no gap.\<close>

lemma bounds_tight:
  assumes "wf m" "known m s" "\<forall>p \<in> positions m s. p < INT32_MAX" "positions m s \<noteq> {}"
    and "pos_min m s = Some a" "pos_max m s = Some b" "int (card (positions m s)) = b - a + 1"
  shows "positions m s = {a..b}"
proof -
  have a: "a = Min (positions m s)" and b: "b = Max (positions m s)"
    using pos_min_exact [OF assms(1-3)] pos_max_law [OF assms(1,2)] assms(4-6) by auto
  have sub: "positions m s \<subseteq> {a..b}" using fin [OF assms(1,2)] by (auto simp: a b)
  have "card {a..b} \<le> card (positions m s)" using assms(7) by simp
  then show ?thesis using card_seteq [OF _ sub] by simp
qed

end

end
