(* ===== verification/KvMemory.thy ===== *)
theory KvMemory
  imports KvCacheSeq MemoryIface
begin

text \<open>
  The unified cache provides the memory interface: \<open>positions\<close> is \<open>kv_positions\<close>, and
  \<open>seq_pos_min\<close> is exact.
\<close>

lemma pos_range_norm: "pos_range p0 p1 p \<longleftrightarrow> norm_p0 p0 \<le> p \<and> p < norm_p1 p1"
  by (simp add: pos_range_def norm_p0_def norm_p1_def)

lemma kv_seq_ok_upd: "kv_seq_ok (kv\<lparr>kv_cells_v := cs, kv_heads := hs\<rparr>) = kv_seq_ok kv"
  by (rule ext) (simp add: kv_seq_ok_def)

lemma kv_positions_fin: "kv_wf kv \<Longrightarrow> kv_seq_ok kv s \<Longrightarrow> finite (kv_positions kv s)"
  by (simp add: kv_positions_def kc_positions_def)

lemma kv_seq_rm_mem:
  assumes "kv_wf kv" "kv_seq_ok kv s"
  shows "\<exists>kv'. kv_seq_rm kv s p0 p1 = Some (True, kv') \<and> kv_wf kv' \<and> kv_seq_ok kv' = kv_seq_ok kv \<and>
    kv_n_stream kv' = kv_n_stream kv \<and>
    (\<forall>t. kv_seq_ok kv t \<longrightarrow> kv_positions kv' t = (if t = s then {p \<in> kv_positions kv s. \<not> pos_range p0 p1 p} else kv_positions kv t))"
  by (rule kv_seq_rm_ok [OF assms, of p0 p1]) (auto simp: pos_range_norm kv_seq_ok_upd)

lemma kv_seq_keep_mem:
  assumes "kv_wf kv" "kv_seq_ok kv s"
  shows "\<exists>kv'. kv_seq_keep kv s = Some kv' \<and> kv_wf kv' \<and> kv_seq_ok kv' = kv_seq_ok kv \<and> kv_n_stream kv' = kv_n_stream kv \<and>
    (\<forall>t. kv_seq_ok kv t \<longrightarrow> kv_positions kv' t = (if t \<noteq> s \<and> kv_strm kv t = kv_strm kv s then {} else kv_positions kv t))"
  by (rule kv_seq_keep_ok [OF assms]) (auto simp: kv_seq_ok_upd)

interpretation kvm: mem_exact kv_wf kv_seq_ok kv_positions "\<lambda>kv. Some (kv_clear kv)" kv_seq_rm kv_seq_keep
  kv_seq_pos_min kv_seq_pos_max
proof (unfold_locales, goal_cases)
  case (1 m s) then show ?case by (rule kv_positions_fin)
next
  case (2 m s p) then show ?case by (rule kv_positions_nonneg)
next
  case (3 m) then show ?case by (auto simp: kv_clear_wf kv_clear_positions fun_eq_iff)
next
  case (4 m s p0 p1) then show ?case using kv_seq_rm_mem [OF 4] by blast
next
  case (5 m s) then show ?case using kv_seq_rm_mem [OF 5(1,2), of "- 1" "- 1"] by blast
next
  case (6 m s) then show ?case using kv_seq_keep_mem [OF 6] by force
next
  case (7 m s)
  then show ?case using kv_seq_pos_min_ok [OF 7(1,2)] kv_positions_fin [OF 7(1,2)] by simp
next
  case (8 m s) then show ?case by (rule kv_seq_pos_max_ok)
next
  case (9 m s) then show ?case by (simp add: kv_seq_pos_min_ok)
qed

end
