(* ===== verification/RecurrentInv.thy ===== *)
theory RecurrentInv
  imports Recurrent
begin

text \<open>
  The invariant of the recurrent memory and what its operations do to the abstract state, the
  position of each sequence.

  The tails and the sequence sets describe one relation twice; \<open>rc_links\<close> says that they agree, so
  a sequence is in at most one cell.
\<close>

definition rc_links :: "mem_cell list \<Rightarrow> bool" where
  "rc_links cs \<longleftrightarrow>
     (\<forall>i < length cs. \<forall>s \<in> mc_seq (cs ! i). 0 \<le> s \<and> nat s < length cs \<and> mc_tail (cs ! nat s) = int i) \<and>
     (\<forall>k < length cs. mc_tail (cs ! k) = - 1 \<or>
        0 \<le> mc_tail (cs ! k) \<and> nat (mc_tail (cs ! k)) < length cs \<and> int k \<in> mc_seq (cs ! nat (mc_tail (cs ! k))))"

text \<open>An empty cell has no position, and a cell takes its state from itself or from nowhere.\<close>

definition rc_vals :: "mem_cell list \<Rightarrow> bool" where
  "rc_vals cs \<longleftrightarrow> (\<forall>i < length cs.
     (mc_seq (cs ! i) = {} \<longrightarrow> mc_pos (cs ! i) = - 1 \<and> mc_src (cs ! i) \<in> {- 1, int i}) \<and>
     (mc_seq (cs ! i) \<noteq> {} \<longrightarrow> 0 \<le> mc_pos (cs ! i) \<and> i32_ok (mc_pos (cs ! i)) \<and> mc_src (cs ! i) = int i))"

definition rc_count :: "mem_cell list \<Rightarrow> nat" where
  "rc_count cs = length (filter (\<lambda>c. \<not> mc_is_empty c) cs)"

definition rc_wf :: "recurrent \<Rightarrow> bool" where
  "rc_wf r \<longleftrightarrow> length (rc_cells r) = rc_size r \<and> 0 < rc_size r \<and> rc_size r < 2 ^ 31 \<and> rc_head r < rc_size r \<and>
     rc_used r = rc_count (rc_cells r) \<and> rc_links (rc_cells r) \<and> rc_vals (rc_cells r)"

definition rc_seq_ok :: "recurrent \<Rightarrow> llama_seq_id \<Rightarrow> bool" where
  "rc_seq_ok r s \<longleftrightarrow> 0 \<le> s \<and> nat s < rc_size r"

text \<open>The position of a sequence.\<close>

definition cs_pos :: "mem_cell list \<Rightarrow> llama_seq_id \<Rightarrow> llama_pos option" where
  "cs_pos cs s = (if mc_tail (cs ! nat s) = - 1 then None else Some (mc_pos (cs ! nat (mc_tail (cs ! nat s)))))"

definition rc_pos_of :: "recurrent \<Rightarrow> llama_seq_id \<Rightarrow> llama_pos option" where
  "rc_pos_of r s = cs_pos (rc_cells r) s"

lemma rc_linksD:
  assumes "rc_links cs"
  shows rc_links_seq: "i < length cs \<Longrightarrow> s \<in> mc_seq (cs ! i) \<Longrightarrow> 0 \<le> s \<and> nat s < length cs \<and> mc_tail (cs ! nat s) = int i"
    and rc_links_tail: "k < length cs \<Longrightarrow> mc_tail (cs ! k) = - 1 \<or>
        0 \<le> mc_tail (cs ! k) \<and> nat (mc_tail (cs ! k)) < length cs \<and> int k \<in> mc_seq (cs ! nat (mc_tail (cs ! k)))"
  using assms by (auto simp: rc_links_def)

lemma rc_wfD:
  assumes "rc_wf r"
  shows rc_wf_len: "length (rc_cells r) = rc_size r"
    and rc_wf_size: "0 < rc_size r" "rc_size r < 2 ^ 31"
    and rc_wf_head: "rc_head r < rc_size r"
    and rc_wf_used: "rc_used r = rc_count (rc_cells r)"
    and rc_wf_links: "rc_links (rc_cells r)"
    and rc_wf_vals: "rc_vals (rc_cells r)"
  using assms by (auto simp: rc_wf_def)

lemma rc_upd_ok: "i < length (rc_cells r) \<Longrightarrow> rc_upd (int i) f r = Some (r\<lparr>rc_cells := (rc_cells r)[i := f (rc_cells r ! i)]\<rparr>)"
  by (simp add: rc_upd_def sidx_def)

lemma rc_upd_ok_int: "0 \<le> s \<Longrightarrow> nat s < length (rc_cells r) \<Longrightarrow>
    rc_upd s f r = Some (r\<lparr>rc_cells := (rc_cells r)[nat s := f (rc_cells r ! nat s)]\<rparr>)"
  by (simp add: rc_upd_def sidx_def)

lemma rc_cell_ok: "0 \<le> s \<Longrightarrow> nat s < length (rc_cells r) \<Longrightarrow> rc_cell r s = Some (rc_cells r ! nat s)"
  by (simp add: rc_cell_def sidx_def)

lemma rc_count_update:
  "i < length cs \<Longrightarrow> rc_count (cs[i := c]) + (if mc_is_empty (cs ! i) then 0 else 1) =
    rc_count cs + (if mc_is_empty c then 0 else 1)"
  unfolding rc_count_def
proof (induction cs arbitrary: i)
  case (Cons d cs)
  show ?case
  proof (cases i)
    case (Suc j)
    then show ?thesis using Cons.IH [of j] Cons.prems by (auto split: if_splits)
  qed simp
qed simp

lemma rc_vals_tail: "rc_vals cs \<Longrightarrow> rc_vals (cs[k := (cs ! k)\<lparr>mc_tail := t\<rparr>])"
  by (cases "k < length cs") (auto simp: rc_vals_def nth_list_update)

lemma rc_count_le: "rc_count cs \<le> length cs"
  by (simp add: rc_count_def)

subsection \<open>Loops over the cells\<close>

text \<open>
  A loop whose body for cell \<open>i\<close> rewrites that cell only and keeps \<open>used\<close> the number of
  non-empty cells rewrites every cell.
\<close>

definition rc_shape :: "recurrent \<Rightarrow> recurrent \<Rightarrow> bool" where
  "rc_shape r r' \<longleftrightarrow> rc_size r' = rc_size r \<and> rc_n_seq_max r' = rc_n_seq_max r \<and> rc_head r' = rc_head r \<and>
     rc_n r' = rc_n r \<and> rc_rs_z r' = rc_rs_z r"

lemma rc_loop:
  fixes f :: "nat \<Rightarrow> mem_cell \<Rightarrow> mem_cell"
  assumes "length (rc_cells r) = rc_size r" "rc_used r = rc_count (rc_cells r)"
    and step: "\<And>i nh r'. i < rc_size r \<Longrightarrow> nh \<le> rc_size r \<Longrightarrow> rc_shape r r' \<Longrightarrow> length (rc_cells r') = rc_size r \<Longrightarrow>
      rc_used r' = rc_count (rc_cells r') \<Longrightarrow> rc_cells r' ! i = rc_cells r ! i \<Longrightarrow>
      \<exists>nh' r''. g i (nh, r') = Some (nh', r'') \<and> nh' \<le> rc_size r \<and> rc_shape r r'' \<and>
        rc_cells r'' = (rc_cells r')[i := f i (rc_cells r ! i)] \<and> rc_used r'' = rc_count (rc_cells r'')"
  obtains nh r' where "foldM g [0..<rc_size r] (rc_size r, r) = Some (nh, r')" and "nh \<le> rc_size r" and "rc_shape r r'"
    and "rc_cells r' = map (\<lambda>i. f i (rc_cells r ! i)) [0..<rc_size r]" and "rc_used r' = rc_count (rc_cells r')"
proof -
  let ?n = "rc_size r"
  let ?P = "\<lambda>k (nh, r'). nh \<le> ?n \<and> rc_shape r r' \<and> rc_used r' = rc_count (rc_cells r') \<and>
    rc_cells r' = map (\<lambda>i. if i < k then f i (rc_cells r ! i) else rc_cells r ! i) [0..<?n]"
  have "\<exists>s'. foldM g [0..<?n] (?n, r) = Some s' \<and> ?P ?n s'"
  proof (rule foldM_upt_rule [where P = ?P])
    have "map (\<lambda>i. if i < 0 then f i (rc_cells r ! i) else rc_cells r ! i) [0..<?n] = rc_cells r"
      by (rule nth_equalityI) (use assms(1) in auto)
    then show "?P 0 (?n, r)" using assms(2) by (simp add: rc_shape_def)
  next
    fix i t
    assume i: "i < ?n" and P: "?P i t"
    obtain nh r' where t: "t = (nh, r')" by (cases t)
    have c: "nh \<le> ?n" "rc_shape r r'" "rc_used r' = rc_count (rc_cells r')" "length (rc_cells r') = ?n" "rc_cells r' ! i = rc_cells r ! i"
      using P i by (auto simp: t)
    obtain nh' r'' where s: "g i (nh, r') = Some (nh', r'')" "nh' \<le> ?n" "rc_shape r r''"
      "rc_cells r'' = (rc_cells r')[i := f i (rc_cells r ! i)]" "rc_used r'' = rc_count (rc_cells r'')"
      using step [OF i c(1,2,4,3,5)] by blast
    have "rc_cells r'' = map (\<lambda>j. if j < Suc i then f j (rc_cells r ! j) else rc_cells r ! j) [0..<?n]"
      by (rule nth_equalityI) (use P s(4) in \<open>auto simp: t nth_list_update less_Suc_eq\<close>)
    then show "\<exists>t'. g i t = Some t' \<and> ?P (Suc i) t'" using s t by auto
  qed
  then obtain nh r' where "foldM g [0..<?n] (?n, r) = Some (nh, r')" "?P ?n (nh, r')" by auto
  moreover from this(2) have "rc_cells r' = map (\<lambda>i. f i (rc_cells r ! i)) [0..<?n]" by auto
  ultimately show thesis using that by blast
qed

lemma rc_dec_used_count:
  assumes "i < length cs" "\<not> mc_is_empty (cs ! i)" "mc_is_empty c" "length cs < 2 ^ 31"
  shows "u32 (int (rc_count cs) - 1) = rc_count (cs[i := c])"
proof -
  have "rc_count (cs[i := c]) + 1 = rc_count cs"
    using rc_count_update [OF assms(1), of c] assms(2,3) by simp
  moreover have "rc_count (cs[i := c]) \<le> length cs" using rc_count_le [of "cs[i := c]"] by simp
  moreover have "(2::nat) ^ 31 \<le> 2 ^ 32" by simp
  ultimately have "int (rc_count cs) - 1 = int (rc_count (cs[i := c]))" "rc_count (cs[i := c]) < 2 ^ 32"
    using assms(4) by linarith+
  then show ?thesis by (simp only: u32_id)
qed

lemma rc_count_same:
  "i < length cs \<Longrightarrow> mc_is_empty c = mc_is_empty (cs ! i) \<Longrightarrow> rc_count (cs[i := c]) = rc_count cs"
  using rc_count_update [of i cs c] by (auto split: if_splits)

subsection \<open>\<open>seq_rm\<close>\<close>

definition rm_hit :: "llama_seq_id \<Rightarrow> llama_pos \<Rightarrow> llama_pos \<Rightarrow> mem_cell \<Rightarrow> mem_cell" where
  "rm_hit s p0 p1 c = (if mc_pos c \<ge> p0 \<and> mc_pos c < p1 \<and> s \<in> mc_seq c then
     (if mc_seq c - {s} = {} then c\<lparr>mc_seq := mc_seq c - {s}, mc_pos := - 1, mc_src := - 1\<rparr> else c\<lparr>mc_seq := mc_seq c - {s}\<rparr>)
     else c)"

lemma rc_rm_loop:
  assumes wf: "length (rc_cells r) = rc_size r" "rc_used r = rc_count (rc_cells r)" "rc_size r < 2 ^ 31" "rc_vals (rc_cells r)"
    and s: "0 \<le> s"
  obtains nh r' where "foldM (rc_rm_cell s p0 p1) [0..<rc_size r] (rc_size r, r) = Some (nh, r')" and "nh \<le> rc_size r"
    and "rc_shape r r'" and "rc_cells r' = map (\<lambda>i. rm_hit s p0 p1 (rc_cells r ! i)) [0..<rc_size r]"
    and "rc_used r' = rc_count (rc_cells r')"
proof (rule rc_loop [OF wf(1,2), where g = "rc_rm_cell s p0 p1" and f = "\<lambda>i. rm_hit s p0 p1"])
  fix i nh r'
  assume i: "i < rc_size r" and nh: "nh \<le> rc_size r" and r': "rc_shape r r'" "length (rc_cells r') = rc_size r"
    "rc_used r' = rc_count (rc_cells r')" "rc_cells r' ! i = rc_cells r ! i"
  define c where "c = rc_cells r ! i"
  have il: "i < length (rc_cells r')" and sz: "length (rc_cells r') < 2 ^ 31" using i r'(2) wf(3) by simp_all
  have ci: "rc_cells r' ! i = c" using r'(4) by (simp add: c_def)
  have id: "(rc_cells r')[i := c] = rc_cells r'" using ci list_update_id by metis
  show "\<exists>nh' r''. rc_rm_cell s p0 p1 i (nh, r') = Some (nh', r'') \<and> nh' \<le> rc_size r \<and> rc_shape r r'' \<and>
      rc_cells r'' = (rc_cells r')[i := rm_hit s p0 p1 (rc_cells r ! i)] \<and> rc_used r'' = rc_count (rc_cells r'')"
  proof (cases "mc_pos c \<ge> p0 \<and> mc_pos c < p1 \<and> s \<in> mc_seq c")
    case False
    then have "rc_rm_cell s p0 p1 i (nh, r') = Some (nh, r')"
      using il s by (auto simp: rc_rm_cell_def ci mc_has_seq_id_def)
    then show ?thesis using False nh r' il by (auto simp: rm_hit_def id c_def [symmetric])
  next
    case True
    have pos: "mc_pos c \<ge> 0" using wf(4) i wf(1) True by (auto simp: rc_vals_def c_def)
    show ?thesis
    proof (cases "mc_seq c - {s} = {}")
      case em: True
      define d where "d = c\<lparr>mc_seq := mc_seq c - {s}, mc_pos := - 1, mc_src := - 1\<rparr>"
      have "u32 (int (rc_count (rc_cells r')) - 1) = rc_count ((rc_cells r')[i := d])"
        by (rule rc_dec_used_count [OF il]) (use True em sz in \<open>auto simp: ci mc_is_empty_def d_def\<close>)
      moreover have "rc_rm_cell s p0 p1 i (nh, r') = Some (if nh = rc_size r' then i else nh,
          r'\<lparr>rc_cells := (rc_cells r')[i := d], rc_used := u32 (int (rc_used r') - 1)\<rparr>)"
        using True em pos il s
        by (simp add: rc_rm_cell_def ci mc_has_seq_id_def mc_is_empty_def rc_upd_ok rc_dec_used_def d_def)
      moreover have "rm_hit s p0 p1 (rc_cells r ! i) = d" using True em by (simp add: rm_hit_def c_def [symmetric] d_def)
      ultimately show ?thesis using nh i r' by (auto simp: rc_shape_def)
    next
      case ne: False
      let ?c = "c\<lparr>mc_seq := mc_seq c - {s}\<rparr>"
      have "rc_count ((rc_cells r')[i := ?c]) = rc_count (rc_cells r')"
        by (rule rc_count_same [OF il]) (use True ne in \<open>auto simp: ci mc_is_empty_def\<close>)
      then show ?thesis
        using True ne il s nh i r'
        by (auto simp: rc_rm_cell_def ci c_def [symmetric] mc_has_seq_id_def mc_is_empty_def rc_upd_ok rm_hit_def rc_shape_def)
    qed
  qed
qed (use that in auto)

text \<open>A sequence taken out of its cell, which becomes empty when it was alone there.\<close>

definition rc_removed :: "mem_cell list \<Rightarrow> llama_seq_id \<Rightarrow> mem_cell list \<Rightarrow> bool" where
  "rc_removed cs s cs' \<longleftrightarrow> length cs' = length cs \<and> (\<forall>k < length cs.
     mc_seq (cs' ! k) = mc_seq (cs ! k) - {s} \<and>
     mc_tail (cs' ! k) = (if int k = s then - 1 else mc_tail (cs ! k)) \<and>
     (if mc_seq (cs ! k) = {s} then mc_pos (cs' ! k) = - 1 \<and> mc_src (cs' ! k) = - 1
      else mc_pos (cs' ! k) = mc_pos (cs ! k) \<and> mc_src (cs' ! k) = mc_src (cs ! k)))"

lemma rc_removed_ok:
  assumes "rc_links cs" "rc_vals cs" "rc_removed cs s cs'" "0 \<le> s" "nat s < length cs"
  shows "rc_links cs'" and "rc_vals cs'"
    and "0 \<le> t \<Longrightarrow> nat t < length cs \<Longrightarrow> cs_pos cs' t = (if t = s then None else cs_pos cs t)"
proof -
  have len: "length cs' = length cs"
    and seq: "\<And>k. k < length cs \<Longrightarrow> mc_seq (cs' ! k) = mc_seq (cs ! k) - {s}"
    and tail: "\<And>k. k < length cs \<Longrightarrow> mc_tail (cs' ! k) = (if int k = s then - 1 else mc_tail (cs ! k))"
    and pos: "\<And>k. k < length cs \<Longrightarrow> if mc_seq (cs ! k) = {s} then mc_pos (cs' ! k) = - 1 \<and> mc_src (cs' ! k) = - 1
      else mc_pos (cs' ! k) = mc_pos (cs ! k) \<and> mc_src (cs' ! k) = mc_src (cs ! k)"
    using assms(3) by (auto simp: rc_removed_def)
  show "rc_links cs'"
    unfolding rc_links_def len
  proof (intro conjI allI impI ballI)
    fix i t
    assume i: "i < length cs" and "t \<in> mc_seq (cs' ! i)"
    then have t: "t \<in> mc_seq (cs ! i)" "t \<noteq> s" by (auto simp: seq)
    note l = rc_links_seq [OF assms(1) i t(1)]
    show "0 \<le> t" "nat t < length cs" using l by auto
    show "mc_tail (cs' ! nat t) = int i" using l t(2) by (simp add: tail)
  next
    fix k
    assume k: "k < length cs"
    show "mc_tail (cs' ! k) = - 1 \<or> 0 \<le> mc_tail (cs' ! k) \<and> nat (mc_tail (cs' ! k)) < length cs \<and>
        int k \<in> mc_seq (cs' ! nat (mc_tail (cs' ! k)))"
      using rc_links_tail [OF assms(1) k] k by (auto simp: tail seq)
  qed
  show "rc_vals cs'"
    unfolding rc_vals_def len
  proof (intro allI impI)
    fix i
    assume i: "i < length cs"
    have "if mc_seq (cs ! i) = {} then mc_pos (cs ! i) = - 1 \<and> mc_src (cs ! i) \<in> {- 1, int i}
        else 0 \<le> mc_pos (cs ! i) \<and> i32_ok (mc_pos (cs ! i)) \<and> mc_src (cs ! i) = int i"
      using assms(2) i by (auto simp: rc_vals_def)
    then show "(mc_seq (cs' ! i) = {} \<longrightarrow> mc_pos (cs' ! i) = - 1 \<and> mc_src (cs' ! i) \<in> {- 1, int i}) \<and>
        (mc_seq (cs' ! i) \<noteq> {} \<longrightarrow> 0 \<le> mc_pos (cs' ! i) \<and> i32_ok (mc_pos (cs' ! i)) \<and> mc_src (cs' ! i) = int i)"
      using pos [OF i] seq [OF i] by (cases "mc_seq (cs ! i) = {}"; cases "mc_seq (cs ! i) = {s}") auto
  qed
  assume t: "0 \<le> t" "nat t < length cs"
  show "cs_pos cs' t = (if t = s then None else cs_pos cs t)"
  proof (cases "t = s \<or> mc_tail (cs ! nat t) = - 1")
    case True
    then show ?thesis using tail [OF t(2)] t(1) by (auto simp: cs_pos_def)
  next
    case False
    let ?i = "nat (mc_tail (cs ! nat t))"
    have i: "?i < length cs" "t \<in> mc_seq (cs ! ?i)" using rc_links_tail [OF assms(1) t(2)] False t(1) by auto
    then have "mc_seq (cs ! ?i) \<noteq> {s}" using False by auto
    then show ?thesis using pos [OF i(1)] tail [OF t(2)] t(1) False by (simp add: cs_pos_def)
  qed
qed

lemma rc_seq_rm_ok:
  fixes p0 p1
  assumes wf: "rc_wf r" and s: "rc_seq_ok r s"
  defines "a \<equiv> rc_norm_p0 p0" and "b \<equiv> rc_norm_p1 p1"
  shows "case rc_pos_of r s of
      None \<Rightarrow> rc_seq_rm r s p0 p1 = Some (True, r)
    | Some p \<Rightarrow>
        if 0 < a \<and> a \<le> p \<or> 0 < b \<and> b \<le> p then rc_seq_rm r s p0 p1 = Some (False, r)
        else if a \<le> p \<and> p < b then \<exists>r'. rc_seq_rm r s p0 p1 = Some (True, r') \<and> rc_wf r' \<and> rc_size r' = rc_size r \<and>
          rc_removed (rc_cells r) s (rc_cells r')
        else rc_seq_rm r s p0 p1 = Some (True, r)"
proof -
  let ?cs = "rc_cells r"
  note len = rc_wf_len [OF wf] and links = rc_wf_links [OF wf] and vals = rc_wf_vals [OF wf]
  have s': "0 \<le> s" "nat s < length ?cs" "\<not> s \<ge> int (rc_size r)" using s by (auto simp: rc_seq_ok_def len)
  have cs: "rc_cell r s = Some (?cs ! nat s)" by (rule rc_cell_ok [OF s'(1,2)])
  have same: "rc_seq_rm r s p0 p1 = Some (True, r)"
    if check: "rc_rm_check s a b r = Some (True, r)"
      and none: "\<forall>i < rc_size r. rm_hit s a b (?cs ! i) = ?cs ! i" and nofree: "\<forall>i < rc_size r. \<not> (mc_pos (?cs ! i) \<ge> a \<and> mc_pos (?cs ! i) < b \<and> s \<in> mc_seq (?cs ! i))"
  proof -
    have "foldM (rc_rm_cell s a b) [0..<rc_size r] (rc_size r, r) = Some (rc_size r, r)"
      by (rule foldM_skip) (use nofree s' len in \<open>auto simp: rc_rm_cell_def mc_has_seq_id_def\<close>)
    then show ?thesis using check by (simp add: rc_seq_rm_def a_def b_def)
  qed
  show ?thesis
  proof (cases "mc_tail (?cs ! nat s) = - 1")
    case True
    then have "s \<notin> mc_seq (?cs ! i)" if "i < rc_size r" for i
      using rc_links_seq [OF links, of i s] that len by auto
    moreover have "rc_rm_check s a b r = Some (True, r)" using s' cs True by (simp add: rc_rm_check_def)
    ultimately show ?thesis using same True by (simp add: rc_pos_of_def cs_pos_def rm_hit_def)
  next
    case False
    define i where "i = nat (mc_tail (?cs ! nat s))"
    have i: "i < length ?cs" "s \<in> mc_seq (?cs ! i)" "0 \<le> mc_tail (?cs ! nat s)"
      using rc_links_tail [OF links s'(2)] False s'(1) by (auto simp: i_def)
    have only: "s \<in> mc_seq (?cs ! k) \<Longrightarrow> k < rc_size r \<Longrightarrow> k = i" for k
      using rc_links_seq [OF links, of k s] len i_def by auto
    have ci: "rc_cell r (mc_tail (?cs ! nat s)) = Some (?cs ! i)" using i rc_cell_ok by (simp add: i_def)
    define p where "p = mc_pos (?cs ! i)"
    have pos: "rc_pos_of r s = Some p" using False by (simp add: rc_pos_of_def cs_pos_def p_def i_def)
    show ?thesis
    proof (cases "0 < a \<and> a \<le> p \<or> 0 < b \<and> b \<le> p")
      case True
      then have "rc_rm_check s a b r = Some (False, r)" using s' cs ci i(3) by (simp add: rc_rm_check_def p_def)
      then have "rc_seq_rm r s p0 p1 = Some (False, r)" by (simp add: rc_seq_rm_def a_def b_def)
      then show ?thesis using True by (simp add: pos)
    next
      case part: False
      show ?thesis
      proof (cases "a \<le> p \<and> p < b")
        case False
        have "rc_rm_check s a b r = Some (True, r)" using s' cs ci i(3) part False by (auto simp: rc_rm_check_def p_def)
        moreover have "\<not> (mc_pos (?cs ! k) \<ge> a \<and> mc_pos (?cs ! k) < b \<and> s \<in> mc_seq (?cs ! k))" if "k < rc_size r" for k
          using False only [of k] that by (auto simp: p_def)
        ultimately have "rc_seq_rm r s p0 p1 = Some (True, r)" by (intro same) (auto simp: rm_hit_def)
        then show ?thesis using part False by (auto simp: pos)
      next
        case hit: True
        define r1 where "r1 = r\<lparr>rc_cells := ?cs[nat s := (?cs ! nat s)\<lparr>mc_tail := - 1\<rparr>]\<rparr>"
        have check: "rc_rm_check s a b r = Some (True, r1)"
          using s' cs ci i(3) part hit by (auto simp: rc_rm_check_def p_def r1_def rc_upd_ok_int)
        have c1: "rc_cells r1 ! k = (if k = nat s then (?cs ! k)\<lparr>mc_tail := - 1\<rparr> else ?cs ! k)" if "k < rc_size r" for k
          using that len by (simp add: r1_def)
        have vals1: "rc_vals (rc_cells r1)" using rc_vals_tail [OF vals] by (simp add: r1_def)
        have used1: "rc_used r1 = rc_count (rc_cells r1)"
          using rc_wf_used [OF wf] s'(2) by (simp add: r1_def rc_count_same mc_is_empty_def)
        obtain nh r2 where r2: "foldM (rc_rm_cell s a b) [0..<rc_size r1] (rc_size r1, r1) = Some (nh, r2)" "nh \<le> rc_size r1"
          "rc_shape r1 r2" "rc_cells r2 = map (\<lambda>k. rm_hit s a b (rc_cells r1 ! k)) [0..<rc_size r1]" "rc_used r2 = rc_count (rc_cells r2)"
          by (rule rc_rm_loop [of r1 s a b]) (use len rc_wf_size [OF wf] vals1 used1 s' in \<open>auto simp: r1_def\<close>)
        define r' where "r' = (if nh \<noteq> rc_size r \<and> nh < rc_head r then r2\<lparr>rc_head := nh\<rparr> else r2)"
        have sz: "rc_size r1 = rc_size r" "rc_size r2 = rc_size r" "rc_head r2 = rc_head r"
          using r2(3) by (auto simp: r1_def rc_shape_def)
        have run: "rc_seq_rm r s p0 p1 = Some (True, r')"
          using check r2(1) sz by (simp add: rc_seq_rm_def a_def [symmetric] b_def [symmetric] r'_def)
        have rem: "rc_removed ?cs s (rc_cells r')"
          unfolding rc_removed_def
        proof (intro conjI allI impI)
          show "length (rc_cells r') = length ?cs" using r2(4) sz len by (simp add: r'_def)
          fix k
          assume k: "k < length ?cs"
          have ck: "rc_cells r' ! k = rm_hit s a b (rc_cells r1 ! k)" using k r2(4) sz len by (simp add: r'_def)
          have "s \<in> mc_seq (?cs ! k) \<Longrightarrow> a \<le> mc_pos (?cs ! k) \<and> mc_pos (?cs ! k) < b"
            using only [of k] k len hit by (auto simp: p_def)
          then have "mc_seq (rc_cells r' ! k) = mc_seq (?cs ! k) - {s} \<and>
              mc_tail (rc_cells r' ! k) = (if k = nat s then - 1 else mc_tail (?cs ! k)) \<and>
              (if s \<in> mc_seq (?cs ! k) \<and> mc_seq (?cs ! k) - {s} = {} then mc_pos (rc_cells r' ! k) = - 1 \<and> mc_src (rc_cells r' ! k) = - 1
               else mc_pos (rc_cells r' ! k) = mc_pos (?cs ! k) \<and> mc_src (rc_cells r' ! k) = mc_src (?cs ! k))"
            using k len by (auto simp: ck rm_hit_def c1)
          moreover have "int k = s \<longleftrightarrow> k = nat s" using s'(1) by auto
          moreover have "s \<in> mc_seq (?cs ! k) \<and> mc_seq (?cs ! k) - {s} = {} \<longleftrightarrow> mc_seq (?cs ! k) = {s}" by auto
          ultimately show "mc_seq (rc_cells r' ! k) = mc_seq (?cs ! k) - {s}"
            "mc_tail (rc_cells r' ! k) = (if int k = s then - 1 else mc_tail (?cs ! k))"
            "if mc_seq (?cs ! k) = {s} then mc_pos (rc_cells r' ! k) = - 1 \<and> mc_src (rc_cells r' ! k) = - 1
               else mc_pos (rc_cells r' ! k) = mc_pos (?cs ! k) \<and> mc_src (rc_cells r' ! k) = mc_src (?cs ! k)"
            by auto
        qed
        have "rc_wf r'"
          using rc_removed_ok(1,2) [OF links vals rem s'(1,2)] rem r2(5) sz rc_wf_size [OF wf] rc_wf_head [OF wf] len
          by (auto simp: rc_wf_def rc_removed_def r'_def)
        then show ?thesis using run rem part hit sz by (auto simp: pos r'_def)
      qed
    qed
  qed
qed

subsection \<open>\<open>seq_cp\<close>\<close>

lemma rc_seq_okD: "rc_wf r \<Longrightarrow> rc_seq_ok r s \<Longrightarrow> 0 \<le> s \<and> nat s < length (rc_cells r)"
  by (simp add: rc_seq_ok_def rc_wf_len)

text \<open>The tail of a sequence is \<open>-1\<close> or the cell it is in.\<close>

lemma rc_tail_cases:
  assumes wf: "rc_wf r" and s: "rc_seq_ok r s"
  obtains "mc_tail (rc_cells r ! nat s) = - 1" and "\<And>i. i < length (rc_cells r) \<Longrightarrow> s \<notin> mc_seq (rc_cells r ! i)"
      and "rc_pos_of r s = None"
    | i where "mc_tail (rc_cells r ! nat s) = int i" and "i < length (rc_cells r)" and "s \<in> mc_seq (rc_cells r ! i)"
      and "\<And>k. k < length (rc_cells r) \<Longrightarrow> s \<in> mc_seq (rc_cells r ! k) \<Longrightarrow> k = i"
      and "rc_pos_of r s = Some (mc_pos (rc_cells r ! i))"
proof (cases "mc_tail (rc_cells r ! nat s) = - 1")
  case True
  have "s \<notin> mc_seq (rc_cells r ! i)" if "i < length (rc_cells r)" for i
    using rc_links_seq [OF rc_wf_links [OF wf] that, of s] True by auto
  then show thesis using that(1) True by (simp add: rc_pos_of_def cs_pos_def)
next
  case False
  note s' = rc_seq_okD [OF wf s]
  define i where "i = nat (mc_tail (rc_cells r ! nat s))"
  have i: "mc_tail (rc_cells r ! nat s) = int i" "i < length (rc_cells r)" "s \<in> mc_seq (rc_cells r ! i)"
    using rc_links_tail [OF rc_wf_links [OF wf] conjunct2 [OF s']] False s' by (auto simp: i_def)
  have "k = i" if "k < length (rc_cells r)" "s \<in> mc_seq (rc_cells r ! k)" for k
    using rc_links_seq [OF rc_wf_links [OF wf] that] i(1) by simp
  moreover have "rc_pos_of r s = Some (mc_pos (rc_cells r ! i))" using i(1) by (simp add: rc_pos_of_def cs_pos_def)
  ultimately show thesis using i that(2) by blast
qed

lemma rc_mem_iff:
  assumes "rc_wf r" "rc_seq_ok r s" "i < length (rc_cells r)"
  shows "s \<in> mc_seq (rc_cells r ! i) \<longleftrightarrow> mc_tail (rc_cells r ! nat s) = int i"
proof (cases rule: rc_tail_cases [OF assms(1,2)])
  case 1
  then show ?thesis using assms(3) by simp
next
  case (2 j)
  show ?thesis using 2(1,3) 2(4) [OF assms(3)] by auto
qed

lemma rc_leave_ok:
  assumes wf: "rc_wf r" and s: "rc_seq_ok r s"
  obtains r' where "rc_leave s r = Some r'" and "rc_wf r'" and "rc_shape r r'" and "rc_removed (rc_cells r) s (rc_cells r')"
proof -
  let ?cs = "rc_cells r"
  note s' = rc_seq_okD [OF wf s]
  have cs: "rc_cell r s = Some (?cs ! nat s)" using s' rc_cell_ok by blast
  show thesis
  proof (cases rule: rc_tail_cases [OF wf s])
    case 1
    have "rc_removed ?cs s ?cs"
      using 1 s' by (auto simp: rc_removed_def)
    moreover have "rc_leave s r = Some r" using 1 by (simp add: rc_leave_def cs)
    ultimately show thesis using that wf by (auto simp: rc_shape_def)
  next
    case (2 i)
    define e where "e = (?cs ! i)\<lparr>mc_seq := mc_seq (?cs ! i) - {s}\<rparr>"
    define c1 where "c1 = ?cs[i := e]"
    define c2 where "c2 = c1[nat s := (c1 ! nat s)\<lparr>mc_tail := - 1\<rparr>]"
    define c3 where "c3 = (if mc_seq e = {} then c2[i := (c2 ! i)\<lparr>mc_pos := - 1, mc_src := - 1\<rparr>] else c2)"
    define r' where "r' = r\<lparr>rc_cells := c3, rc_used := (if mc_seq e = {} then u32 (int (rc_used r) - 1) else rc_used r)\<rparr>"
    have len: "length c1 = length ?cs" "length c2 = length ?cs" "length c3 = length ?cs"
      by (simp_all add: c1_def c2_def c3_def)
    have c2i: "mc_seq (c2 ! i) = mc_seq e" using 2(2) s' by (cases "i = nat s") (auto simp: c1_def c2_def)
    have u1: "rc_upd (int i) (\<lambda>c. c\<lparr>mc_seq := mc_seq c - {s}\<rparr>) r = Some (r\<lparr>rc_cells := c1\<rparr>)"
      using 2(2) by (simp add: rc_upd_ok c1_def e_def)
    have u2: "rc_upd s (\<lambda>c. c\<lparr>mc_tail := - 1\<rparr>) (r\<lparr>rc_cells := c1\<rparr>) = Some (r\<lparr>rc_cells := c2\<rparr>)"
      using s' len by (simp add: rc_upd_ok_int c2_def)
    have u3: "rc_cell (r\<lparr>rc_cells := c2\<rparr>) (int i) = Some (c2 ! i)" using 2(2) len by (simp add: rc_cell_ok)
    have u4: "rc_upd (int i) (\<lambda>c. c\<lparr>mc_pos := - 1, mc_src := - 1\<rparr>) (r\<lparr>rc_cells := c2\<rparr>) =
        Some (r\<lparr>rc_cells := c2[i := (c2 ! i)\<lparr>mc_pos := - 1, mc_src := - 1\<rparr>]\<rparr>)"
      using 2(2) len by (simp add: rc_upd_ok)
    have run: "rc_leave s r = Some r'"
    proof (cases "mc_seq e = {}")
      case True
      then have "mc_is_empty (c2 ! i)" by (simp add: mc_is_empty_def c2i)
      moreover have "r' = rc_dec_used (r\<lparr>rc_cells := c2[i := (c2 ! i)\<lparr>mc_pos := - 1, mc_src := - 1\<rparr>]\<rparr>)"
        using True by (simp add: r'_def c3_def rc_dec_used_def)
      ultimately show ?thesis unfolding rc_leave_def cs bind.bind_lunit Let_def 2(1) u1 u2 u3 u4 by simp
    next
      case False
      then have "\<not> mc_is_empty (c2 ! i)" by (simp add: mc_is_empty_def c2i)
      moreover have "r' = r\<lparr>rc_cells := c2\<rparr>" using False by (simp add: r'_def c3_def)
      ultimately show ?thesis unfolding rc_leave_def cs bind.bind_lunit Let_def 2(1) u1 u2 u3 u4 by simp
    qed
    have rem: "rc_removed ?cs s c3"
      unfolding rc_removed_def
    proof (intro conjI allI impI)
      show "length c3 = length ?cs" by (simp add: len)
      fix k
      assume k: "k < length ?cs"
      have seq: "mc_seq (c3 ! k) = (if k = i then mc_seq e else mc_seq (?cs ! k))"
        and tail: "mc_tail (c3 ! k) = (if k = nat s then - 1 else mc_tail (?cs ! k))"
        and val: "mc_pos (c3 ! k) = (if k = i \<and> mc_seq e = {} then - 1 else mc_pos (?cs ! k))"
          "mc_src (c3 ! k) = (if k = i \<and> mc_seq e = {} then - 1 else mc_src (?cs ! k))"
        using k 2(2) s' by (auto simp: c3_def c2_def c1_def e_def nth_list_update)
      have only: "s \<in> mc_seq (?cs ! k) \<longleftrightarrow> k = i" using 2(3) 2(4) [OF k] by blast
      show "mc_seq (c3 ! k) = mc_seq (?cs ! k) - {s}" using only by (auto simp: seq e_def)
      show "mc_tail (c3 ! k) = (if int k = s then - 1 else mc_tail (?cs ! k))" using tail s' by auto
      have "mc_seq (?cs ! k) = {s} \<longleftrightarrow> k = i \<and> mc_seq e = {}" using only by (auto simp: e_def)
      then show "if mc_seq (?cs ! k) = {s} then mc_pos (c3 ! k) = - 1 \<and> mc_src (c3 ! k) = - 1
          else mc_pos (c3 ! k) = mc_pos (?cs ! k) \<and> mc_src (c3 ! k) = mc_src (?cs ! k)"
        unfolding val by simp
    qed
    have cnt1: "rc_count c2 = rc_count c1" unfolding c2_def
      by (rule rc_count_same) (use s' len in \<open>auto simp: mc_is_empty_def\<close>)
    have cnt2: "rc_count c3 = rc_count c2"
      using 2(2) len by (simp add: c3_def rc_count_same mc_is_empty_def)
    have "rc_count c1 = (if mc_seq e = {} then u32 (int (rc_count ?cs) - 1) else rc_count ?cs)"
    proof (cases "mc_seq e = {}")
      case True
      have "u32 (int (rc_count ?cs) - 1) = rc_count c1" unfolding c1_def
        by (rule rc_dec_used_count) (use 2(2,3) True rc_wf_size [OF wf] rc_wf_len [OF wf] in \<open>auto simp: mc_is_empty_def\<close>)
      then show ?thesis using True by simp
    next
      case False
      have "rc_count c1 = rc_count ?cs" unfolding c1_def
        by (rule rc_count_same) (use 2(2,3) False in \<open>auto simp: mc_is_empty_def\<close>)
      then show ?thesis using False by simp
    qed
    then have used: "rc_used r' = rc_count (rc_cells r')"
      using cnt1 cnt2 rc_wf_used [OF wf] by (simp add: r'_def)
    have "rc_wf r'"
      using rc_removed_ok(1,2) [OF rc_wf_links [OF wf] rc_wf_vals [OF wf] rem] s' used wf len
      by (auto simp: rc_wf_def r'_def)
    then show thesis using that [OF run] rem by (auto simp: rc_shape_def r'_def)
  qed
qed

text \<open>A sequence without a cell joins a cell that is in use.\<close>

definition rc_joined :: "mem_cell list \<Rightarrow> llama_seq_id \<Rightarrow> nat \<Rightarrow> mem_cell list \<Rightarrow> bool" where
  "rc_joined cs s i cs' \<longleftrightarrow> length cs' = length cs \<and> (\<forall>k < length cs.
     mc_seq (cs' ! k) = (if k = i then insert s (mc_seq (cs ! k)) else mc_seq (cs ! k)) \<and>
     mc_tail (cs' ! k) = (if int k = s then int i else mc_tail (cs ! k)) \<and>
     mc_pos (cs' ! k) = mc_pos (cs ! k) \<and> mc_src (cs' ! k) = mc_src (cs ! k))"

lemma rc_joined_ok:
  assumes links: "rc_links cs" and vals: "rc_vals cs" and j: "rc_joined cs s i cs'" and s: "0 \<le> s" "nat s < length cs"
    and i: "i < length cs" "mc_seq (cs ! i) \<noteq> {}" and none: "mc_tail (cs ! nat s) = - 1"
  shows "rc_links cs'" and "rc_vals cs'" and "rc_count cs' = rc_count cs"
    and "0 \<le> t \<Longrightarrow> nat t < length cs \<Longrightarrow> cs_pos cs' t = (if t = s then Some (mc_pos (cs ! i)) else cs_pos cs t)"
proof -
  have len: "length cs' = length cs"
    and seq: "\<And>k. k < length cs \<Longrightarrow> mc_seq (cs' ! k) = (if k = i then insert s (mc_seq (cs ! k)) else mc_seq (cs ! k))"
    and tail: "\<And>k. k < length cs \<Longrightarrow> mc_tail (cs' ! k) = (if int k = s then int i else mc_tail (cs ! k))"
    and val: "\<And>k. k < length cs \<Longrightarrow> mc_pos (cs' ! k) = mc_pos (cs ! k) \<and> mc_src (cs' ! k) = mc_src (cs ! k)"
    using j by (auto simp: rc_joined_def)
  have fresh: "s \<notin> mc_seq (cs ! k)" if "k < length cs" for k
    using rc_links_seq [OF links that, of s] none by auto
  show "rc_links cs'"
    unfolding rc_links_def len
  proof (intro conjI allI impI ballI)
    fix k t
    assume k: "k < length cs" and "t \<in> mc_seq (cs' ! k)"
    then have "t = s \<and> k = i \<or> t \<noteq> s \<and> t \<in> mc_seq (cs ! k)" using fresh [OF k] by (auto simp: seq split: if_splits)
    then show "0 \<le> t" "nat t < length cs" "mc_tail (cs' ! nat t) = int k"
      using rc_links_seq [OF links k, of t] s by (auto simp: tail)
  next
    fix k
    assume k: "k < length cs"
    show "mc_tail (cs' ! k) = - 1 \<or> 0 \<le> mc_tail (cs' ! k) \<and> nat (mc_tail (cs' ! k)) < length cs \<and>
        int k \<in> mc_seq (cs' ! nat (mc_tail (cs' ! k)))"
      using rc_links_tail [OF links k] k i(1) by (auto simp: tail seq)
  qed
  show "rc_vals cs'"
    using vals i(2) by (auto simp: rc_vals_def len seq val)
  have "map mc_is_empty cs' = map mc_is_empty cs"
    by (rule nth_equalityI) (use i(2) in \<open>auto simp: len seq mc_is_empty_def\<close>)
  then have "filter (\<lambda>b. \<not> b) (map mc_is_empty cs') = filter (\<lambda>b. \<not> b) (map mc_is_empty cs)" by simp
  then have "length (filter (\<lambda>b. \<not> b) (map mc_is_empty cs')) = length (filter (\<lambda>b. \<not> b) (map mc_is_empty cs))" by simp
  then show "rc_count cs' = rc_count cs" by (simp add: rc_count_def filter_map o_def)
  assume t: "0 \<le> t" "nat t < length cs"
  show "cs_pos cs' t = (if t = s then Some (mc_pos (cs ! i)) else cs_pos cs t)"
    using tail [OF t(2)] t(1) val i(1) rc_links_tail [OF links t(2)] by (auto simp: cs_pos_def)
qed

lemma rc_seq_cp_ok:
  assumes wf: "rc_wf r" and src: "rc_seq_ok r src" and dst: "rc_seq_ok r dst" and ne: "src \<noteq> dst"
  obtains r' where "rc_seq_cp r src dst p0 p1 = Some r'" and "rc_wf r'" and "rc_shape r r'"
    and "\<And>t. rc_seq_ok r t \<Longrightarrow> rc_pos_of r' t = (if t = dst then rc_pos_of r src else rc_pos_of r t)"
proof -
  obtain r1 where r1: "rc_leave dst r = Some r1" "rc_wf r1" "rc_shape r r1" "rc_removed (rc_cells r) dst (rc_cells r1)"
    by (rule rc_leave_ok [OF wf dst])
  note d = rc_seq_okD [OF wf dst] and s = rc_seq_okD [OF wf src]
  have len: "length (rc_cells r1) = length (rc_cells r)" using r1(4) by (simp add: rc_removed_def)
  have ok1: "rc_seq_ok r1 t = rc_seq_ok r t" for t using r1(3) by (simp add: rc_seq_ok_def rc_shape_def)
  have tail1: "mc_tail (rc_cells r1 ! nat t) = (if t = dst then - 1 else mc_tail (rc_cells r ! nat t))" if "rc_seq_ok r t" for t
    using r1(4) rc_seq_okD [OF wf that] by (auto simp: rc_removed_def)
  have pos1: "rc_pos_of r1 t = (if t = dst then None else rc_pos_of r t)" if "rc_seq_ok r t" for t
    using rc_removed_ok(3) [OF rc_wf_links [OF wf] rc_wf_vals [OF wf] r1(4)] d rc_seq_okD [OF wf that] by (simp add: rc_pos_of_def)
  have sz: "u32 dst < rc_size r" "u32 src < rc_size r"
    using d s rc_wf_size [OF wf] rc_wf_len [OF wf] u32_id [of "nat dst"] u32_id [of "nat src"] by auto
  have cell: "rc_cell r1 src = Some (rc_cells r1 ! nat src)" using s rc_cell_ok len by simp
  have src1: "rc_seq_ok r1 src" using src ok1 by simp
  show thesis
  proof (cases rule: rc_tail_cases [OF r1(2) src1])
    case 1
    then have "rc_seq_cp r src dst p0 p1 = Some r1" using ne sz r1(1) cell by (simp add: rc_seq_cp_def)
    then show thesis using that r1(2,3) pos1 src ne 1(3) by (metis option.distinct(1))
  next
    case (2 i)
    define c1 where "c1 = (rc_cells r1)[i := (rc_cells r1 ! i)\<lparr>mc_seq := insert dst (mc_seq (rc_cells r1 ! i))\<rparr>]"
    define c2 where "c2 = c1[nat dst := (c1 ! nat dst)\<lparr>mc_tail := int i\<rparr>]"
    define r' where "r' = r1\<lparr>rc_cells := c2\<rparr>"
    have u1: "rc_upd (int i) (\<lambda>c. c\<lparr>mc_seq := insert dst (mc_seq c)\<rparr>) r1 = Some (r1\<lparr>rc_cells := c1\<rparr>)"
      using 2(2) by (simp add: rc_upd_ok c1_def)
    have u2: "rc_upd dst (\<lambda>c. c\<lparr>mc_tail := int i\<rparr>) (r1\<lparr>rc_cells := c1\<rparr>) = Some r'"
      using d len by (simp add: rc_upd_ok_int c1_def c2_def r'_def)
    have run: "rc_seq_cp r src dst p0 p1 = Some r'"
      using ne sz by (simp add: rc_seq_cp_def r1(1) cell 2(1) u1 u2)
    have join: "rc_joined (rc_cells r1) dst i c2"
      using 2(2) d len by (auto simp: rc_joined_def c2_def c1_def nth_list_update)
    have none: "mc_tail (rc_cells r1 ! nat dst) = - 1" using tail1 [OF dst] by simp
    note jo = rc_joined_ok [OF rc_wf_links [OF r1(2)] rc_wf_vals [OF r1(2)] join _ _ 2(2) _ none]
    have in_use: "mc_seq (rc_cells r1 ! i) \<noteq> {}" using 2(3) by auto
    have "rc_wf r'"
      using jo(1-3) d len in_use r1(2) by (auto simp: rc_wf_def r'_def c2_def c1_def)
    moreover have "rc_pos_of r' t = (if t = dst then rc_pos_of r src else rc_pos_of r t)" if "rc_seq_ok r t" for t
      using jo(4) [of t] d len in_use rc_seq_okD [OF wf that] pos1 [OF that] pos1 [OF src] ne 2(5)
      by (simp add: rc_pos_of_def r'_def)
    ultimately show thesis using that [OF run] r1(3) by (simp add: rc_shape_def r'_def)
  qed
qed

subsection \<open>\<open>seq_keep\<close>\<close>

definition keep_hit :: "llama_seq_id \<Rightarrow> nat \<Rightarrow> mem_cell \<Rightarrow> mem_cell" where
  "keep_hit s i c = (let c = (if int i \<noteq> s then c\<lparr>mc_tail := - 1\<rparr> else c) in
     if s \<notin> mc_seq c then c\<lparr>mc_pos := - 1, mc_src := - 1, mc_seq := {}\<rparr> else c\<lparr>mc_seq := {s}\<rparr>)"

lemma rc_keep_loop:
  assumes wf: "rc_wf r"
  obtains nh r' where "foldM (rc_keep_cell s) [0..<rc_size r] (rc_size r, r) = Some (nh, r')" and "nh \<le> rc_size r"
    and "rc_shape r r'" and "rc_cells r' = map (\<lambda>i. keep_hit s i (rc_cells r ! i)) [0..<rc_size r]"
    and "rc_used r' = rc_count (rc_cells r')"
proof (rule rc_loop [OF rc_wf_len [OF wf] rc_wf_used [OF wf], where g = "rc_keep_cell s" and f = "keep_hit s"])
  fix i nh r'
  assume i: "i < rc_size r" and nh: "nh \<le> rc_size r" and r': "rc_shape r r'" "length (rc_cells r') = rc_size r"
    "rc_used r' = rc_count (rc_cells r')" "rc_cells r' ! i = rc_cells r ! i"
  define c where "c = rc_cells r ! i"
  define d where "d = (if int i \<noteq> s then c\<lparr>mc_tail := - 1\<rparr> else c)"
  have il: "i < length (rc_cells r')" and sz: "length (rc_cells r') < 2 ^ 31" using i r'(2) rc_wf_size [OF wf] by simp_all
  have ci: "rc_cells r' ! i = c" using r'(4) by (simp add: c_def)
  have id: "(rc_cells r')[i := c] = rc_cells r'" using ci list_update_id by metis
  have pos: "mc_pos c \<ge> 0 \<longleftrightarrow> mc_seq c \<noteq> {}"
    using rc_wf_vals [OF wf] i rc_wf_len [OF wf] by (auto simp: rc_vals_def c_def)
  have d: "mc_pos d = mc_pos c" "mc_seq d = mc_seq c" by (simp_all add: d_def)
  define r1 where "r1 = r'\<lparr>rc_cells := (rc_cells r')[i := d]\<rparr>"
  have r1: "(if int i \<noteq> s then rc_upd (int i) (\<lambda>c. c\<lparr>mc_tail := - 1\<rparr>) r' else Some r') = Some r1"
    using il by (simp add: r1_def d_def rc_upd_ok ci id)
  have g: "vget (rc_cells r1) i = Some d" using il by (simp add: r1_def)
  show "\<exists>nh' r''. rc_keep_cell s i (nh, r') = Some (nh', r'') \<and> nh' \<le> rc_size r \<and> rc_shape r r'' \<and>
      rc_cells r'' = (rc_cells r')[i := keep_hit s i (rc_cells r ! i)] \<and> rc_used r'' = rc_count (rc_cells r'')"
  proof (cases "s \<in> mc_seq c")
    case True
    define e where "e = d\<lparr>mc_seq := {s}\<rparr>"
    have "rc_keep_cell s i (nh, r') = Some (nh, r'\<lparr>rc_cells := (rc_cells r')[i := e]\<rparr>)"
      using True il by (simp add: rc_keep_cell_def r1 g mc_has_seq_id_def d rc_upd_ok r1_def e_def)
    moreover have "keep_hit s i (rc_cells r ! i) = e"
      using True by (simp add: keep_hit_def c_def [symmetric] d_def [symmetric] e_def d)
    moreover have "rc_count ((rc_cells r')[i := e]) = rc_count (rc_cells r')"
      by (rule rc_count_same [OF il]) (use True in \<open>auto simp: ci mc_is_empty_def e_def\<close>)
    ultimately show ?thesis using nh r' by (auto simp: rc_shape_def)
  next
    case False
    define e where "e = d\<lparr>mc_pos := - 1, mc_src := - 1, mc_seq := {}\<rparr>"
    define u where "u = (if mc_pos c \<ge> 0 then u32 (int (rc_used r') - 1) else rc_used r')"
    have "rc_keep_cell s i (nh, r') = Some (if nh = rc_size r' then i else nh,
        r'\<lparr>rc_cells := (rc_cells r')[i := e], rc_used := u\<rparr>)"
      using False il by (simp add: rc_keep_cell_def r1 g mc_has_seq_id_def d rc_upd_ok rc_dec_used_def r1_def e_def u_def)
    moreover have "keep_hit s i (rc_cells r ! i) = e"
      using False by (simp add: keep_hit_def c_def [symmetric] d_def [symmetric] e_def d)
    moreover have "u = rc_count ((rc_cells r')[i := e])"
    proof (cases "mc_seq c = {}")
      case True
      have "rc_count ((rc_cells r')[i := e]) = rc_count (rc_cells r')"
        by (rule rc_count_same [OF il]) (use True in \<open>auto simp: ci mc_is_empty_def e_def\<close>)
      then show ?thesis using True pos r'(3) by (simp add: u_def)
    next
      case ne: False
      have "u32 (int (rc_count (rc_cells r')) - 1) = rc_count ((rc_cells r')[i := e])"
        by (rule rc_dec_used_count [OF il]) (use ne sz in \<open>auto simp: ci mc_is_empty_def e_def\<close>)
      then show ?thesis using ne pos r'(3) by (simp add: u_def)
    qed
    ultimately show ?thesis using nh i r' by (auto simp: rc_shape_def)
  qed
qed (use that in auto)

lemma rc_seq_keep_ok:
  assumes wf: "rc_wf r" and s: "rc_seq_ok r s"
  obtains r' where "rc_seq_keep r s = Some r'" and "rc_wf r'" and "rc_size r' = rc_size r"
    and "\<And>t. rc_seq_ok r t \<Longrightarrow> rc_pos_of r' t = (if t = s then rc_pos_of r s else None)"
proof -
  let ?cs = "rc_cells r"
  obtain nh r1 where r1: "foldM (rc_keep_cell s) [0..<rc_size r] (rc_size r, r) = Some (nh, r1)" "nh \<le> rc_size r"
    "rc_shape r r1" "rc_cells r1 = map (\<lambda>i. keep_hit s i (?cs ! i)) [0..<rc_size r]" "rc_used r1 = rc_count (rc_cells r1)"
    by (rule rc_keep_loop [OF wf])
  define r' where "r' = (if nh \<noteq> rc_size r \<and> nh < rc_head r then r1\<lparr>rc_head := nh\<rparr> else r1)"
  have sz: "rc_size r1 = rc_size r" "rc_head r1 = rc_head r" using r1(3) by (auto simp: rc_shape_def)
  have run: "rc_seq_keep r s = Some r'" using r1(1) sz by (simp add: rc_seq_keep_def r'_def)
  have cells: "rc_cells r' = rc_cells r1" by (simp add: r'_def)
  note s' = rc_seq_okD [OF wf s] and len = rc_wf_len [OF wf]
  have seq: "mc_seq (rc_cells r' ! k) = (if s \<in> mc_seq (?cs ! k) then {s} else {})"
    and tail: "mc_tail (rc_cells r' ! k) = (if k = nat s then mc_tail (?cs ! k) else - 1)"
    and val: "s \<in> mc_seq (?cs ! k) \<Longrightarrow> mc_pos (rc_cells r' ! k) = mc_pos (?cs ! k) \<and> mc_src (rc_cells r' ! k) = mc_src (?cs ! k)"
      "s \<notin> mc_seq (?cs ! k) \<Longrightarrow> mc_pos (rc_cells r' ! k) = - 1 \<and> mc_src (rc_cells r' ! k) = - 1"
    if "k < rc_size r" for k
    using that r1(4) s' by (auto simp: cells keep_hit_def Let_def)
  have len': "length (rc_cells r') = rc_size r" using r1(4) by (simp add: cells)
  have links: "rc_links (rc_cells r')"
    unfolding rc_links_def len'
  proof (intro conjI allI impI ballI)
    fix k t
    assume k: "k < rc_size r" and t: "t \<in> mc_seq (rc_cells r' ! k)"
    then have "t = s" "s \<in> mc_seq (?cs ! k)" using seq [OF k] by (auto split: if_splits)
    then show "0 \<le> t" "nat t < rc_size r" "mc_tail (rc_cells r' ! nat t) = int k"
      using rc_links_seq [OF rc_wf_links [OF wf], of k s] k len by (auto simp: tail)
  next
    fix k
    assume k: "k < rc_size r"
    show "mc_tail (rc_cells r' ! k) = - 1 \<or> 0 \<le> mc_tail (rc_cells r' ! k) \<and> nat (mc_tail (rc_cells r' ! k)) < rc_size r \<and>
        int k \<in> mc_seq (rc_cells r' ! nat (mc_tail (rc_cells r' ! k)))"
      using rc_links_tail [OF rc_wf_links [OF wf], of k] k len s' by (auto simp: tail seq)
  qed
  have vals: "rc_vals (rc_cells r')"
    unfolding rc_vals_def len'
  proof (intro allI impI)
    fix k
    assume k: "k < rc_size r"
    show "(mc_seq (rc_cells r' ! k) = {} \<longrightarrow> mc_pos (rc_cells r' ! k) = - 1 \<and> mc_src (rc_cells r' ! k) \<in> {- 1, int k}) \<and>
        (mc_seq (rc_cells r' ! k) \<noteq> {} \<longrightarrow> 0 \<le> mc_pos (rc_cells r' ! k) \<and> i32_ok (mc_pos (rc_cells r' ! k)) \<and> mc_src (rc_cells r' ! k) = int k)"
      using rc_wf_vals [OF wf] k len seq [OF k] val [OF k] by (cases "s \<in> mc_seq (?cs ! k)") (auto simp: rc_vals_def)
  qed
  have "rc_wf r'"
    using links vals len' rc_wf_size [OF wf] rc_wf_head [OF wf] sz r1(5) cells by (auto simp: rc_wf_def r'_def)
  moreover have "rc_pos_of r' t = (if t = s then rc_pos_of r s else None)" if t: "rc_seq_ok r t" for t
  proof (cases "t = s")
    case True
    show ?thesis
    proof (cases rule: rc_tail_cases [OF wf s])
      case 1
      then show ?thesis using True tail [of "nat s"] s' len by (simp add: rc_pos_of_def cs_pos_def)
    next
      case (2 i)
      show ?thesis using 2(1,2,3,5) True tail [of "nat s"] s' len val(1) [of i] by (simp add: rc_pos_of_def cs_pos_def)
    qed
  next
    case False
    then have "nat t \<noteq> nat s" using s' t by (auto simp: rc_seq_ok_def)
    then show ?thesis using False tail [of "nat t"] t by (simp add: rc_pos_of_def cs_pos_def rc_seq_ok_def)
  qed
  ultimately show thesis using that [OF run] sz by (simp add: r'_def)
qed

subsection \<open>\<open>seq_add\<close>, \<open>seq_div\<close> and the getters\<close>

text \<open>The tail of a sequence; sequences with the same tail share their state.\<close>

definition rc_tail :: "recurrent \<Rightarrow> llama_seq_id \<Rightarrow> int" where
  "rc_tail r s = mc_tail (rc_cells r ! nat s)"

text \<open>Changing the position of one cell in use.\<close>

lemma rc_map_pos_ok:
  assumes wf: "rc_wf r" and s: "rc_seq_ok r s"
    and f: "\<And>p. rc_pos_of r s = Some p \<Longrightarrow> p0 \<le> p \<Longrightarrow> p < p1 \<Longrightarrow> f p = Some (g p) \<and> 0 \<le> g p \<and> i32_ok (g p)"
  obtains r' where "rc_map_pos s p0 p1 f r = Some r'" and "rc_wf r'" and "rc_shape r r'"
    and "\<And>t. rc_seq_ok r t \<Longrightarrow> rc_pos_of r' t = (if rc_tail r t = rc_tail r s
        then map_option (\<lambda>p. if p0 \<le> p \<and> p < p1 then g p else p) (rc_pos_of r t) else rc_pos_of r t)"
proof -
  let ?cs = "rc_cells r"
  note s' = rc_seq_okD [OF wf s] and len = rc_wf_len [OF wf]
  have cs: "rc_cell r s = Some (?cs ! nat s)" using s' rc_cell_ok by blast
  have in_range: "0 \<le> s \<and> s < int (rc_size r)" using s by (auto simp: rc_seq_ok_def)
  show thesis
  proof (cases rule: rc_tail_cases [OF wf s])
    case 1
    have "rc_map_pos s p0 p1 f r = Some r" using in_range 1 by (simp add: rc_map_pos_def cs)
    moreover have "rc_pos_of r t = None" if "rc_tail r t = rc_tail r s" for t
      using that 1 by (simp add: rc_pos_of_def cs_pos_def rc_tail_def)
    ultimately show thesis using that wf by (auto simp: rc_shape_def)
  next
    case (2 i)
    have ci: "rc_cell r (int i) = Some (?cs ! i)" using 2(2) by (simp add: rc_cell_ok)
    have shared: "rc_pos_of r t = Some (mc_pos (?cs ! i))" if "rc_tail r t = rc_tail r s" for t
      using that 2(1,2) by (simp add: rc_pos_of_def cs_pos_def rc_tail_def)
    show thesis
    proof (cases "p0 \<le> mc_pos (?cs ! i) \<and> mc_pos (?cs ! i) < p1")
      case False
      have "rc_map_pos s p0 p1 f r = Some r" using in_range 2(1) False by (auto simp: rc_map_pos_def cs ci)
      then show thesis using that wf False shared by (auto simp: rc_shape_def)
    next
      case True
      define p where "p = mc_pos (?cs ! i)"
      have fp: "f p = Some (g p)" "0 \<le> g p" "i32_ok (g p)" using f [OF 2(5)] True by (simp_all add: p_def)
      define r' where "r' = r\<lparr>rc_cells := ?cs[i := (?cs ! i)\<lparr>mc_pos := g p\<rparr>]\<rparr>"
      have run: "rc_map_pos s p0 p1 f r = Some r'"
        using in_range 2(1-3) True fp by (simp add: rc_map_pos_def cs ci mc_has_seq_id_def p_def rc_upd_ok r'_def)
      have nth: "rc_cells r' ! k = (if k = i then (?cs ! i)\<lparr>mc_pos := g p\<rparr> else ?cs ! k)" if "k < length ?cs" for k
        using that by (simp add: r'_def nth_list_update)
      have same: "mc_seq (rc_cells r' ! k) = mc_seq (?cs ! k)" "mc_tail (rc_cells r' ! k) = mc_tail (?cs ! k)"
        "mc_src (rc_cells r' ! k) = mc_src (?cs ! k)" if "k < length ?cs" for k
        using nth [OF that] by simp_all
      have l: "length (rc_cells r') = length ?cs" by (simp add: r'_def)
      have "rc_links (rc_cells r')"
        using rc_wf_links [OF wf] by (auto simp: rc_links_def l same)
      moreover have "rc_vals (rc_cells r')"
        using rc_wf_vals [OF wf] fp 2(2,3) by (auto simp: rc_vals_def l nth)
      moreover have "rc_count (rc_cells r') = rc_count ?cs"
        using 2(2) by (simp add: r'_def rc_count_same mc_is_empty_def)
      ultimately have wf': "rc_wf r'" using wf by (simp add: rc_wf_def r'_def)
      have "rc_pos_of r' t = (if rc_tail r t = rc_tail r s
          then map_option (\<lambda>p. if p0 \<le> p \<and> p < p1 then g p else p) (rc_pos_of r t) else rc_pos_of r t)"
        if t: "rc_seq_ok r t" for t
      proof (cases "rc_tail r t = rc_tail r s")
        case True
        then have tl: "mc_tail (?cs ! nat t) = int i" using 2(1) by (simp add: rc_tail_def)
        have "rc_pos_of r' t = Some (g p)"
          using rc_seq_okD [OF wf t] 2(2) same(2) [of "nat t"] tl nth [of i] by (simp add: rc_pos_of_def cs_pos_def)
        then show ?thesis using True shared [OF True] \<open>p0 \<le> mc_pos (?cs ! i) \<and> mc_pos (?cs ! i) < p1\<close> by (simp add: p_def)
      next
        case False
        then have "mc_tail (?cs ! nat t) \<noteq> int i" using 2(1) by (simp add: rc_tail_def)
        then have "rc_pos_of r' t = rc_pos_of r t"
          using rc_seq_okD [OF wf t] rc_links_tail [OF rc_wf_links [OF wf], of "nat t"] same(2) [of "nat t"]
            nth [of "nat (mc_tail (?cs ! nat t))"]
          by (auto simp: rc_pos_of_def cs_pos_def)
        then show ?thesis using False by simp
      qed
      then show thesis using that [OF run wf'] by (simp add: rc_shape_def r'_def)
    qed
  qed
qed

lemma rc_fold_pos:
  assumes wf: "rc_wf r" and s: "rc_seq_ok r s"
  shows "foldM (\<lambda>i result. do { c \<leftarrow> vget (rc_cells r) i; Some (if mc_has_seq_id c s then h result (mc_pos c) else result) })
      [0..<rc_size r] z = Some (case rc_pos_of r s of None \<Rightarrow> z | Some p \<Rightarrow> h z p)"
proof -
  let ?P = "\<lambda>k x. x = (if rc_tail r s \<noteq> - 1 \<and> nat (rc_tail r s) < k then h z (mc_pos (rc_cells r ! nat (rc_tail r s))) else z)"
  have "\<exists>x. foldM (\<lambda>i result. do { c \<leftarrow> vget (rc_cells r) i; Some (if mc_has_seq_id c s then h result (mc_pos c) else result) })
      [0..<rc_size r] z = Some x \<and> ?P (rc_size r) x"
  proof (rule foldM_upt_rule [where P = ?P])
    fix i x
    assume i: "i < rc_size r" and x: "?P i x"
    have "s \<in> mc_seq (rc_cells r ! i) \<longleftrightarrow> rc_tail r s = int i"
      using rc_mem_iff [OF wf s, of i] i rc_wf_len [OF wf] by (simp add: rc_tail_def)
    moreover have "rc_tail r s = - 1 \<or> 0 \<le> rc_tail r s"
      using rc_links_tail [OF rc_wf_links [OF wf] conjunct2 [OF rc_seq_okD [OF wf s]]] by (auto simp: rc_tail_def)
    ultimately have "s \<in> mc_seq (rc_cells r ! i) \<longleftrightarrow> rc_tail r s \<noteq> - 1 \<and> nat (rc_tail r s) = i" by auto
    then show "\<exists>x'. (do { c \<leftarrow> vget (rc_cells r) i; Some (if mc_has_seq_id c s then h x (mc_pos c) else x) }) = Some x' \<and> ?P (Suc i) x'"
      using i x rc_wf_len [OF wf] by (cases "s \<in> mc_seq (rc_cells r ! i)") (auto simp: mc_has_seq_id_def less_Suc_eq)
  qed simp
  then obtain x where x: "foldM (\<lambda>i result. do { c \<leftarrow> vget (rc_cells r) i; Some (if mc_has_seq_id c s then h result (mc_pos c) else result) })
      [0..<rc_size r] z = Some x" "?P (rc_size r) x" by blast
  have "nat (rc_tail r s) < rc_size r" if "rc_tail r s \<noteq> - 1"
    using rc_links_tail [OF rc_wf_links [OF wf] conjunct2 [OF rc_seq_okD [OF wf s]]] that rc_wf_len [OF wf] by (auto simp: rc_tail_def)
  then show ?thesis using x by (auto simp: rc_pos_of_def cs_pos_def rc_tail_def [symmetric])
qed

lemma rc_pos_of_range:
  assumes wf: "rc_wf r" and s: "rc_seq_ok r s" and "rc_pos_of r s = Some p"
  shows "0 \<le> p \<and> i32_ok p"
proof (cases rule: rc_tail_cases [OF wf s])
  case (2 i)
  show ?thesis using 2(2,3,5) rc_wf_vals [OF wf] assms(3) by (auto simp: rc_vals_def)
qed (use assms(3) in simp)

lemma rc_seq_pos_max_ok:
  assumes wf: "rc_wf r" and s: "rc_seq_ok r s"
  shows "rc_seq_pos_max r s = Some (case rc_pos_of r s of None \<Rightarrow> - 1 | Some p \<Rightarrow> p)"
  unfolding rc_seq_pos_max_def rc_fold_pos [OF wf s, of max "- 1"]
  by (cases "rc_pos_of r s") (use rc_pos_of_range [OF wf s] in auto)

lemma rc_seq_pos_min_ok:
  assumes wf: "rc_wf r" and s: "rc_seq_ok r s" and "rc_pos_of r s \<noteq> Some INT32_MAX"
  shows "rc_seq_pos_min r s = Some (case rc_pos_of r s of None \<Rightarrow> - 1 | Some p \<Rightarrow> p)"
proof (cases "rc_pos_of r s")
  case (Some p)
  then have "0 \<le> p" "p < INT32_MAX" using rc_pos_of_range [OF wf s Some] assms(3) by (auto simp: i32_ok_def)
  then show ?thesis unfolding rc_seq_pos_min_def rc_fold_pos [OF wf s, of min INT32_MAX] by (simp add: Some)
next
  case None
  then show ?thesis unfolding rc_seq_pos_min_def rc_fold_pos [OF wf s, of min INT32_MAX] by simp
qed

subsection \<open>Construction and \<open>clear\<close>\<close>

lemma rc_all_empty:
  assumes "length cs = n" "\<And>i. i < n \<Longrightarrow> mc_seq (cs ! i) = {} \<and> mc_tail (cs ! i) = - 1 \<and> mc_pos (cs ! i) = - 1 \<and> mc_src (cs ! i) = - 1"
  shows "rc_links cs" and "rc_vals cs" and "rc_count cs = 0"
proof -
  show "rc_links cs" "rc_vals cs" using assms by (simp_all add: rc_links_def rc_vals_def)
  have "mc_is_empty c" if "c \<in> set cs" for c
    using that assms by (auto simp: in_set_conv_nth mc_is_empty_def)
  then show "rc_count cs = 0" by (simp add: rc_count_def)
qed

lemma rc_init_ok:
  assumes "0 < n" "n < 2 ^ 31"
  shows "rc_wf (rc_init n m)" and "rc_pos_of (rc_init n m) s = None \<or> \<not> rc_seq_ok (rc_init n m) s"
  using assms rc_all_empty [of "replicate n mc_new" n]
  by (auto simp: rc_wf_def rc_init_def mc_new_def rc_pos_of_def cs_pos_def rc_seq_ok_def)

lemma rc_clear_ok:
  assumes wf: "length (rc_cells r) = rc_size r" "0 < rc_size r" "rc_size r < 2 ^ 31"
  obtains r' where "rc_clear r = Some r'" and "rc_wf r'" and "rc_size r' = rc_size r"
    and "\<And>s. rc_seq_ok r s \<Longrightarrow> rc_pos_of r' s = None"
proof -
  let ?f = "\<lambda>c. c\<lparr>mc_pos := - 1, mc_seq := {}, mc_src := - 1, mc_tail := - 1\<rparr>"
  let ?n = "rc_size r"
  let ?P = "\<lambda>k r'. r' = r\<lparr>rc_cells := map (\<lambda>i. if i < k then ?f (rc_cells r ! i) else rc_cells r ! i) [0..<?n]\<rparr>"
  have "\<exists>r'. foldM (\<lambda>i. rc_upd (int i) ?f) [0..<?n] r = Some r' \<and> ?P ?n r'"
  proof (rule foldM_upt_rule [where P = ?P])
    have "map (\<lambda>i. if i < 0 then ?f (rc_cells r ! i) else rc_cells r ! i) [0..<?n] = rc_cells r"
      by (rule nth_equalityI) (use wf in auto)
    then show "?P 0 r" by simp
  next
    fix i t
    assume i: "i < ?n" and t: "?P i t"
    have "(map (\<lambda>j. if j < i then ?f (rc_cells r ! j) else rc_cells r ! j) [0..<?n])[i := ?f (rc_cells r ! i)] =
        map (\<lambda>j. if j < Suc i then ?f (rc_cells r ! j) else rc_cells r ! j) [0..<?n]"
      by (rule nth_equalityI) (use i in \<open>auto simp: nth_list_update less_Suc_eq\<close>)
    then show "\<exists>t'. rc_upd (int i) ?f t = Some t' \<and> ?P (Suc i) t'"
      using i t by (simp add: rc_upd_ok)
  qed
  then obtain r1 where r1: "foldM (\<lambda>i. rc_upd (int i) ?f) [0..<?n] r = Some r1" "?P ?n r1" by blast
  define r' where "r' = r1\<lparr>rc_head := 0, rc_used := 0\<rparr>"
  have cell: "rc_cells r' ! i = ?f (rc_cells r ! i)" "length (rc_cells r') = ?n" if "i < ?n" for i
    using that r1(2) by (simp_all add: r'_def)
  have "rc_links (rc_cells r')" "rc_vals (rc_cells r')" "rc_count (rc_cells r') = 0"
    using rc_all_empty [of "rc_cells r'" ?n] cell wf(2) by auto
  then have "rc_wf r'" using r1(2) wf by (simp add: rc_wf_def r'_def)
  moreover have "rc_clear r = Some r'" using r1(1) by (simp add: rc_clear_def r'_def)
  ultimately show thesis using that r1(2) cell by (auto simp: r'_def rc_seq_ok_def rc_pos_of_def cs_pos_def)
qed

end
