(* ===== verification/RecurrentMemory.thy ===== *)
theory RecurrentMemory
  imports RecurrentInv MemoryIface
begin

text \<open>
  The recurrent memory provides the memory interface; a sequence has one position or none.
\<close>

definition rc_positions :: "recurrent \<Rightarrow> llama_seq_id \<Rightarrow> llama_pos set" where
  "rc_positions r s = set_option (rc_pos_of r s)"

lemma pos_range_rc_norm: "pos_range p0 p1 p \<longleftrightarrow> rc_norm_p0 p0 \<le> p \<and> p < rc_norm_p1 p1"
  by (simp add: pos_range_def rc_norm_p0_def rc_norm_p1_def)

lemma rc_norm_p0_nonneg: "0 \<le> rc_norm_p0 p0"
  by (simp add: rc_norm_p0_def)

lemma rc_seq_ok_size: "rc_size r' = rc_size r \<Longrightarrow> rc_seq_ok r' = rc_seq_ok r"
  by (rule ext) (simp add: rc_seq_ok_def)

text \<open>\<open>seq_rm\<close> on the abstract state: refused, everything or nothing.\<close>

lemma rc_seq_rm_mem:
  assumes wf: "rc_wf r" and s: "rc_seq_ok r s"
  shows "\<exists>b r'. rc_seq_rm r s p0 p1 = Some (b, r') \<and> rc_wf r' \<and> rc_size r' = rc_size r \<and> (\<not> b \<longrightarrow> r' = r) \<and>
    (b \<longleftrightarrow> (\<forall>p. rc_pos_of r s = Some p \<longrightarrow> \<not> (0 < rc_norm_p0 p0 \<and> rc_norm_p0 p0 \<le> p) \<and> \<not> (0 < rc_norm_p1 p1 \<and> rc_norm_p1 p1 \<le> p))) \<and>
    (b \<longrightarrow> (\<forall>t. rc_seq_ok r t \<longrightarrow> rc_pos_of r' t =
      (if t = s \<and> (\<exists>p. rc_pos_of r s = Some p \<and> pos_range p0 p1 p) then None else rc_pos_of r t)))"
proof (cases "rc_pos_of r s")
  case None
  then show ?thesis using rc_seq_rm_ok [OF wf s, of p0 p1] wf by auto
next
  case (Some p)
  let ?a = "rc_norm_p0 p0" and ?b = "rc_norm_p1 p1"
  note ok = rc_seq_rm_ok [OF wf s, of p0 p1, unfolded Some option.case]
  show ?thesis
  proof (cases "0 < ?a \<and> ?a \<le> p \<or> 0 < ?b \<and> ?b \<le> p")
    case True
    then show ?thesis using ok wf Some by auto
  next
    case False
    show ?thesis
    proof (cases "?a \<le> p \<and> p < ?b")
      case hit: True
      obtain r' where r': "rc_seq_rm r s p0 p1 = Some (True, r')" "rc_wf r'" "rc_size r' = rc_size r"
        "rc_removed (rc_cells r) s (rc_cells r')"
        using ok hit False by auto
      have "rc_pos_of r' t = (if t = s then None else rc_pos_of r t)" if t: "rc_seq_ok r t" for t
        using rc_removed_ok(3) [OF rc_wf_links [OF wf] rc_wf_vals [OF wf] r'(4)] rc_seq_okD [OF wf s] rc_seq_okD [OF wf t]
        by (simp add: rc_pos_of_def)
      then show ?thesis using r'(1-3) False hit Some by (auto simp: pos_range_rc_norm)
    next
      case miss: False
      then have "rc_seq_rm r s p0 p1 = Some (True, r)" using ok False by auto
      then show ?thesis using wf miss False Some by (auto simp: pos_range_rc_norm)
    qed
  qed
qed

lemma rc_clear_mem:
  assumes "rc_wf r"
  shows "\<exists>r'. rc_clear r = Some r' \<and> rc_wf r' \<and> rc_size r' = rc_size r \<and> (\<forall>s. rc_seq_ok r s \<longrightarrow> rc_pos_of r' s = None)"
  by (rule rc_clear_ok [of r]) (use rc_wf_len [OF assms] rc_wf_size [OF assms] in auto)

lemma rc_seq_keep_mem:
  assumes "rc_wf r" "rc_seq_ok r s"
  shows "\<exists>r'. rc_seq_keep r s = Some r' \<and> rc_wf r' \<and> rc_size r' = rc_size r \<and>
    (\<forall>t. rc_seq_ok r t \<longrightarrow> rc_pos_of r' t = (if t = s then rc_pos_of r s else None))"
  by (rule rc_seq_keep_ok [OF assms]) blast

interpretation rcm: mem_exact rc_wf rc_seq_ok rc_positions rc_clear rc_seq_rm rc_seq_keep rc_seq_pos_min rc_seq_pos_max
proof (unfold_locales, goal_cases)
  case (1 m s) then show ?case by (simp add: rc_positions_def)
next
  case (2 m s p) then show ?case using rc_pos_of_range [OF 2(1,2), of p] by (simp add: rc_positions_def)
next
  case (3 m)
  obtain r' where r': "rc_clear m = Some r'" "rc_wf r'" "rc_size r' = rc_size m" "\<forall>s. rc_seq_ok m s \<longrightarrow> rc_pos_of r' s = None"
    using rc_clear_mem [OF 3] by (elim exE conjE)
  then show ?case using rc_seq_ok_size [OF r'(3)] by (simp add: rc_positions_def)
next
  case (4 m s p0 p1)
  obtain b r' where r': "rc_seq_rm m s p0 p1 = Some (b, r')" "rc_wf r'" "rc_size r' = rc_size m" "\<not> b \<longrightarrow> r' = m"
    "b \<longrightarrow> (\<forall>t. rc_seq_ok m t \<longrightarrow> rc_pos_of r' t =
      (if t = s \<and> (\<exists>p. rc_pos_of m s = Some p \<and> pos_range p0 p1 p) then None else rc_pos_of m t))"
    using rc_seq_rm_mem [OF 4, of p0 p1] by (elim exE conjE)
  have "rc_positions r' t = (if t = s then {p \<in> rc_positions m s. \<not> pos_range p0 p1 p} else rc_positions m t)"
    if "b" "rc_seq_ok m t" for t
    using r'(5) that by (cases "rc_pos_of m s") (auto simp: rc_positions_def)
  then show ?case using r'(1-4) rc_seq_ok_size [OF r'(3)] by blast
next
  case (5 m s)
  then show ?case using rc_seq_rm_mem [OF 5(1,2), of "- 1" "- 1"]
    by (cases "rc_pos_of m s") (auto simp: rc_positions_def rc_norm_p0_def rc_norm_p1_def)
next
  case (6 m s)
  obtain r' where r': "rc_seq_keep m s = Some r'" "rc_wf r'" "rc_size r' = rc_size m"
    "\<forall>t. rc_seq_ok m t \<longrightarrow> rc_pos_of r' t = (if t = s then rc_pos_of m s else None)"
    using rc_seq_keep_mem [OF 6] by (elim exE conjE)
  then show ?case using rc_seq_ok_size [OF r'(3)] 6(2) by (auto simp: rc_positions_def)
next
  case (7 m s)
  then show ?case using rc_seq_pos_min_ok [OF 7(1,2)] by (cases "rc_pos_of m s") (auto simp: rc_positions_def)
next
  case (8 m s) then show ?case using rc_seq_pos_max_ok [OF 8] by (cases "rc_pos_of m s") (auto simp: rc_positions_def)
next
  case (9 m s)
  then show ?case using rc_seq_pos_min_ok [OF 9(1,2)] by (cases "rc_pos_of m s") (auto simp: rc_positions_def)
qed

end
