(* ===== verification/HybridMemory.thy ===== *)
theory HybridMemory
  imports Hybrid KvMemory RecurrentMemory
begin

text \<open>
  The hybrid memory provides the memory interface as long as its two halves agree: the
  recurrent state of a sequence is at the last position of the attention cache.  Then
  \<open>seq_rm\<close> removes a sequence as a whole or not at all, and \<open>seq_pos_min\<close> is the last position
  rather than the first, so \<open>mem_exact\<close> does not hold.
\<close>

definition hy_known :: "hybrid \<Rightarrow> llama_seq_id \<Rightarrow> bool" where
  "hy_known h s \<longleftrightarrow> kv_seq_ok (hy_attn h) s \<and> rc_seq_ok (hy_recr h) s"

definition hy_positions :: "hybrid \<Rightarrow> llama_seq_id \<Rightarrow> llama_pos set" where
  "hy_positions h s = kv_positions (hy_attn h) s"

definition hy_agree :: "hybrid \<Rightarrow> llama_seq_id \<Rightarrow> bool" where
  "hy_agree h s \<longleftrightarrow> rc_pos_of (hy_recr h) s =
     (if kv_positions (hy_attn h) s = {} then None else Some (Max (kv_positions (hy_attn h) s)))"

definition hy_wf :: "hybrid \<Rightarrow> bool" where
  "hy_wf h \<longleftrightarrow> kv_wf (hy_attn h) \<and> kv_n_stream (hy_attn h) = 1 \<and> rc_wf (hy_recr h) \<and>
     (\<forall>s. hy_known h s \<longrightarrow> hy_agree h s)"

lemma hy_wfD:
  assumes "hy_wf h"
  shows "kv_wf (hy_attn h)" and "kv_n_stream (hy_attn h) = 1" and "rc_wf (hy_recr h)"
    and "hy_known h s \<Longrightarrow> rc_pos_of (hy_recr h) s =
      (if kv_positions (hy_attn h) s = {} then None else Some (Max (kv_positions (hy_attn h) s)))"
  using assms by (auto simp: hy_wf_def hy_agree_def)

lemma hy_knownD: "hy_known h s \<Longrightarrow> kv_seq_ok (hy_attn h) s" "hy_known h s \<Longrightarrow> rc_seq_ok (hy_recr h) s"
  by (simp_all add: hy_known_def)

lemma hy_known_eq:
  assumes "kv_seq_ok (hy_attn h') = kv_seq_ok (hy_attn h)" "rc_size (hy_recr h') = rc_size (hy_recr h)"
  shows "hy_known h' = hy_known h"
  using assms rc_seq_ok_size [OF assms(2)] by (intro ext) (simp add: hy_known_def)

lemma hy_max_in:
  assumes "hy_wf h" "hy_known h s" "kv_positions (hy_attn h) s \<noteq> {}"
  shows "Max (kv_positions (hy_attn h) s) \<in> kv_positions (hy_attn h) s"
  using assms kv_positions_fin [OF hy_wfD(1) hy_knownD(1)] by simp

lemma hy_pos_in:
  assumes "hy_wf h" "hy_known h s" "rc_pos_of (hy_recr h) s = Some p"
  shows "p \<in> kv_positions (hy_attn h) s"
  using hy_wfD(4) [OF assms(1,2)] hy_max_in [OF assms(1,2)] assms(3) by (simp split: if_splits)

text \<open>When the recurrent half accepts, the range holds every position or none.\<close>

lemma hy_range_whole:
  assumes h: "hy_wf h" "hy_known h s" and "p \<in> kv_positions (hy_attn h) s"
    and acc: "\<forall>q. rc_pos_of (hy_recr h) s = Some q \<longrightarrow> \<not> (0 < rc_norm_p0 p0 \<and> rc_norm_p0 p0 \<le> q) \<and> \<not> (0 < rc_norm_p1 p1 \<and> rc_norm_p1 p1 \<le> q)"
  shows "pos_range p0 p1 p \<longleftrightarrow> pos_range p0 p1 (Max (kv_positions (hy_attn h) s))"
proof -
  let ?P = "kv_positions (hy_attn h) s"
  have fin: "finite ?P" by (rule kv_positions_fin [OF hy_wfD(1) [OF h(1)] hy_knownD(1) [OF h(2)]])
  have "0 \<le> p" "p \<le> Max ?P"
    using kv_positions_nonneg [OF hy_wfD(1) [OF h(1)] hy_knownD(1) [OF h(2)] assms(3)] fin assms(3) by auto
  moreover have "rc_pos_of (hy_recr h) s = Some (Max ?P)" using hy_wfD(4) [OF h] assms(3) by auto
  ultimately show ?thesis using acc rc_norm_p0_nonneg [of p0] by (auto simp: pos_range_rc_norm)
qed

lemma hy_seq_rm_ok:
  assumes h: "hy_wf h" "hy_known h s"
  shows "\<exists>b h'. hy_seq_rm h s p0 p1 = Some (b, h') \<and> hy_wf h' \<and> hy_known h' = hy_known h \<and> (\<not> b \<longrightarrow> h' = h) \<and>
    (b \<longrightarrow> (\<forall>t. hy_known h t \<longrightarrow> hy_positions h' t =
      (if t = s then {p \<in> hy_positions h s. \<not> pos_range p0 p1 p} else hy_positions h t))) \<and>
    (b \<longrightarrow> hy_positions h' s \<in> {{}, hy_positions h s}) \<and>
    (b \<longleftrightarrow> (\<forall>p. rc_pos_of (hy_recr h) s = Some p \<longrightarrow> \<not> (0 < rc_norm_p0 p0 \<and> rc_norm_p0 p0 \<le> p) \<and> \<not> (0 < rc_norm_p1 p1 \<and> rc_norm_p1 p1 \<le> p)))"
proof -
  note w = hy_wfD(1-3) [OF h(1)] and k = hy_knownD [OF h(2)]
  define acc where "acc = (\<forall>p. rc_pos_of (hy_recr h) s = Some p \<longrightarrow>
    \<not> (0 < rc_norm_p0 p0 \<and> rc_norm_p0 p0 \<le> p) \<and> \<not> (0 < rc_norm_p1 p1 \<and> rc_norm_p1 p1 \<le> p))"
  obtain b r' where r': "rc_seq_rm (hy_recr h) s p0 p1 = Some (b, r')" "rc_wf r'" "rc_size r' = rc_size (hy_recr h)"
    "\<not> b \<longrightarrow> r' = hy_recr h" "b \<longleftrightarrow> acc" "b \<longrightarrow> (\<forall>t. rc_seq_ok (hy_recr h) t \<longrightarrow> rc_pos_of r' t =
      (if t = s \<and> (\<exists>p. rc_pos_of (hy_recr h) s = Some p \<and> pos_range p0 p1 p) then None else rc_pos_of (hy_recr h) t))"
    using rc_seq_rm_mem [OF w(3) k(2), of p0 p1] unfolding acc_def by (elim exE conjE)
  obtain kv' where kv': "kv_seq_rm (hy_attn h) s p0 p1 = Some (True, kv')" "kv_wf kv'" "kv_seq_ok kv' = kv_seq_ok (hy_attn h)"
    "kv_n_stream kv' = kv_n_stream (hy_attn h)" "\<forall>t. kv_seq_ok (hy_attn h) t \<longrightarrow> kv_positions kv' t =
      (if t = s then {p \<in> kv_positions (hy_attn h) s. \<not> pos_range p0 p1 p} else kv_positions (hy_attn h) t)"
    using kv_seq_rm_mem [OF w(1) k(1), of p0 p1] by (elim exE conjE)
  show ?thesis
  proof (cases b)
    case False
    then have "hy_seq_rm h s p0 p1 = Some (False, h)" using r'(1,4) by (simp add: hy_seq_rm_def)
    then show ?thesis unfolding acc_def [symmetric] using h False r'(5) by blast
  next
    case True
    define h' where "h' = h\<lparr>hy_recr := r', hy_attn := kv'\<rparr>"
    have run: "hy_seq_rm h s p0 p1 = Some (True, h')" using True r'(1) kv'(1) by (simp add: hy_seq_rm_def h'_def)
    have kn: "hy_known h' = hy_known h" using hy_known_eq [of h' h] kv'(3) r'(3) by (simp add: h'_def)
    let ?P = "kv_positions (hy_attn h)"
    have whole: "pos_range p0 p1 p \<longleftrightarrow> pos_range p0 p1 (Max (?P s))" if "p \<in> ?P s" for p
      using hy_range_whole [OF h that] r'(5) True unfolding acc_def by blast
    have ps: "kv_positions kv' s = (if ?P s \<noteq> {} \<and> pos_range p0 p1 (Max (?P s)) then {} else ?P s)"
      using kv'(5) k(1) whole by auto
    have "hy_agree h' t" if t: "hy_known h t" for t
    proof (cases "t = s")
      case True
      then show ?thesis
        using ps r'(6) \<open>b\<close> k(2) hy_wfD(4) [OF h] by (auto simp: hy_agree_def h'_def)
    next
      case False
      then show ?thesis
        using kv'(5) r'(6) \<open>b\<close> hy_knownD [OF t] hy_wfD(4) [OF h(1) t] by (simp add: hy_agree_def h'_def)
    qed
    then have "hy_wf h'" using r'(2) kv'(2,4) w(2) kn by (simp add: hy_wf_def) (simp add: h'_def)
    moreover have "hy_positions h' t = (if t = s then {p \<in> hy_positions h s. \<not> pos_range p0 p1 p} else hy_positions h t)"
      if "hy_known h t" for t
      using kv'(5) hy_knownD(1) [OF that] by (simp add: hy_positions_def h'_def)
    moreover have "hy_positions h' s \<in> {{}, hy_positions h s}" using ps by (simp add: hy_positions_def h'_def)
    ultimately show ?thesis unfolding acc_def [symmetric] using run kn True r'(5) by blast
  qed
qed

lemma hy_clear_mem:
  assumes h: "hy_wf h"
  shows "\<exists>h'. hy_clear h = Some h' \<and> hy_wf h' \<and> hy_known h' = hy_known h \<and> (\<forall>s. hy_known h s \<longrightarrow> hy_positions h' s = {})"
proof -
  note w = hy_wfD(1-3) [OF h]
  obtain r' where r': "rc_clear (hy_recr h) = Some r'" "rc_wf r'" "rc_size r' = rc_size (hy_recr h)"
    "\<forall>s. rc_seq_ok (hy_recr h) s \<longrightarrow> rc_pos_of r' s = None"
    using rc_clear_mem [OF w(3)] by (elim exE conjE)
  define h' where "h' = h\<lparr>hy_attn := kv_clear (hy_attn h), hy_recr := r'\<rparr>"
  have kn: "hy_known h' = hy_known h" by (rule hy_known_eq) (simp_all add: h'_def r'(3) fun_eq_iff)
  have e: "kv_positions (kv_clear (hy_attn h)) s = {}" "rc_pos_of r' s = None" if "hy_known h s" for s
    using kv_clear_positions [OF w(1)] r'(4) hy_knownD [OF that] by auto
  have "kv_n_stream (kv_clear (hy_attn h)) = kv_n_stream (hy_attn h)" by (simp add: kv_clear_def)
  moreover have "hy_agree h' s" if "hy_known h s" for s using e [OF that] by (simp add: hy_agree_def h'_def)
  ultimately have "hy_wf h'" using kv_clear_wf [OF w(1)] w(2) r'(2) kn by (simp add: hy_wf_def) (simp add: h'_def)
  moreover have "hy_clear h = Some h'" using r'(1) by (simp add: hy_clear_def hy_both_def h'_def)
  ultimately show ?thesis using kn e(1) by (auto simp: hy_positions_def h'_def)
qed

lemma kv_one_stream: "kv_wf kv \<Longrightarrow> kv_n_stream kv = 1 \<Longrightarrow> kv_seq_ok kv s \<Longrightarrow> kv_seq_ok kv t \<Longrightarrow> kv_strm kv s = kv_strm kv t"
  using kv_seq_ok_stream [of kv s] kv_seq_ok_stream [of kv t] by simp

lemma hy_seq_keep_mem:
  assumes h: "hy_wf h" "hy_known h s"
  shows "\<exists>h'. hy_seq_keep h s = Some h' \<and> hy_wf h' \<and> hy_known h' = hy_known h \<and>
    (\<forall>t. hy_known h t \<longrightarrow> hy_positions h' t = (if t = s then hy_positions h s else {}))"
proof -
  note w = hy_wfD(1-3) [OF h(1)] and k = hy_knownD [OF h(2)]
  obtain r' where r': "rc_seq_keep (hy_recr h) s = Some r'" "rc_wf r'" "rc_size r' = rc_size (hy_recr h)"
    "\<forall>t. rc_seq_ok (hy_recr h) t \<longrightarrow> rc_pos_of r' t = (if t = s then rc_pos_of (hy_recr h) s else None)"
    using rc_seq_keep_mem [OF w(3) k(2)] by (elim exE conjE)
  obtain kv' where kv': "kv_seq_keep (hy_attn h) s = Some kv'" "kv_wf kv'" "kv_seq_ok kv' = kv_seq_ok (hy_attn h)"
    "kv_n_stream kv' = kv_n_stream (hy_attn h)" "\<forall>t. kv_seq_ok (hy_attn h) t \<longrightarrow> kv_positions kv' t =
      (if t \<noteq> s \<and> kv_strm (hy_attn h) t = kv_strm (hy_attn h) s then {} else kv_positions (hy_attn h) t)"
    using kv_seq_keep_mem [OF w(1) k(1)] by (elim exE conjE)
  define h' where "h' = h\<lparr>hy_attn := kv', hy_recr := r'\<rparr>"
  have kn: "hy_known h' = hy_known h" by (rule hy_known_eq) (simp_all add: h'_def r'(3) kv'(3))
  have e: "kv_positions kv' t = (if t = s then kv_positions (hy_attn h) s else {})"
    "rc_pos_of r' t = (if t = s then rc_pos_of (hy_recr h) s else None)" if "hy_known h t" for t
    using kv'(5) r'(4) hy_knownD [OF that] kv_one_stream [OF w(1,2) hy_knownD(1) [OF that] k(1)] by auto
  have "hy_agree h' t" if "hy_known h t" for t
    using e [OF that] hy_wfD(4) [OF h] by (simp add: hy_agree_def h'_def)
  then have "hy_wf h'" using kv'(2,4) w(2) r'(2) kn by (simp add: hy_wf_def) (simp add: h'_def)
  moreover have "hy_seq_keep h s = Some h'" using r'(1) kv'(1) by (simp add: hy_seq_keep_def hy_both_def h'_def)
  ultimately show ?thesis using kn e(1) by (auto simp: hy_positions_def h'_def)
qed

lemma hy_bounds:
  assumes h: "hy_wf h" "hy_known h s"
  shows "hy_seq_pos_max h s = Some (if hy_positions h s = {} then - 1 else Max (hy_positions h s))"
    and "\<forall>p \<in> hy_positions h s. p < INT32_MAX \<Longrightarrow>
      hy_seq_pos_min h s = Some (if hy_positions h s = {} then - 1 else Max (hy_positions h s))"
proof -
  note w = hy_wfD(1-3) [OF h(1)] and k = hy_knownD [OF h(2)]
  let ?P = "kv_positions (hy_attn h) s"
  have fin: "finite ?P" by (rule kv_positions_fin [OF w(1) k(1)])
  show "hy_seq_pos_max h s = Some (if hy_positions h s = {} then - 1 else Max (hy_positions h s))"
    using kv_seq_pos_max_ok [OF w(1) k(1)] rc_seq_pos_max_ok [OF w(3) k(2)] hy_wfD(4) [OF h]
    by (simp add: hy_seq_pos_max_def hy_positions_def)
  assume "\<forall>p \<in> hy_positions h s. p < INT32_MAX"
  then have "rc_pos_of (hy_recr h) s \<noteq> Some INT32_MAX"
    using hy_pos_in [OF h] by (auto simp: hy_positions_def)
  then show "hy_seq_pos_min h s = Some (if hy_positions h s = {} then - 1 else Max (hy_positions h s))"
    using kv_seq_pos_min_ok [OF w(1) k(1)] rc_seq_pos_min_ok [OF w(3) k(2)] hy_wfD(4) [OF h] fin
    by (auto simp: hy_seq_pos_min_def hy_positions_def max_def)
qed

interpretation hym: llama_memory hy_wf hy_known hy_positions hy_clear hy_seq_rm hy_seq_keep hy_seq_pos_min hy_seq_pos_max
proof (unfold_locales, goal_cases)
  case (1 m s) then show ?case using kv_positions_fin [OF hy_wfD(1) hy_knownD(1)] by (simp add: hy_positions_def)
next
  case (2 m s p) then show ?case using kv_positions_nonneg [OF hy_wfD(1) hy_knownD(1)] by (simp add: hy_positions_def)
next
  case (3 m) then show ?case by (rule hy_clear_mem)
next
  case (4 m s p0 p1) then show ?case using hy_seq_rm_ok [OF 4, of p0 p1] by blast
next
  case (5 m s)
  obtain b h' where "hy_seq_rm m s (- 1) (- 1) = Some (b, h')"
    "b \<longleftrightarrow> (\<forall>p. rc_pos_of (hy_recr m) s = Some p \<longrightarrow> \<not> (0 < rc_norm_p0 (- 1) \<and> rc_norm_p0 (- 1) \<le> p) \<and> \<not> (0 < rc_norm_p1 (- 1) \<and> rc_norm_p1 (- 1) \<le> p))"
    using hy_seq_rm_ok [OF 5(1,2), of "- 1" "- 1"] by (elim exE conjE)
  moreover have "rc_pos_of (hy_recr m) s = Some p \<longrightarrow> p < INT32_MAX" for p
    using hy_pos_in [OF 5(1,2)] 5(3) by (auto simp: hy_positions_def)
  ultimately show ?case by (simp add: rc_norm_p0_def rc_norm_p1_def not_le)
next
  case (6 m s)
  obtain h' where "hy_seq_keep m s = Some h'" "hy_wf h'" "hy_known h' = hy_known m"
    "\<forall>t. hy_known m t \<longrightarrow> hy_positions h' t = (if t = s then hy_positions m s else {})"
    using hy_seq_keep_mem [OF 6] by (elim exE conjE)
  then show ?case using 6(2) by auto
next
  case (7 m s) then show ?case using hy_bounds(2) [OF 7] hy_max_in [OF 7(1,2)] by (simp add: hy_positions_def)
next
  case (8 m s) then show ?case by (rule hy_bounds(1))
qed

end
