(* ===== verification/RecurrentSpec.thy ===== *)
theory RecurrentSpec
  imports RecurrentMemory RecurrentSlot
begin

text \<open>
  The recurrent memory as a map from sequences to positions: the abstract specification of
  \<open>clear\<close>, \<open>seq_rm\<close>, \<open>seq_cp\<close> and \<open>seq_keep\<close>, and the proof that runs of the operations on the
  cells compute what the specification says.
\<close>

datatype rc_op = RcClear | RcRm llama_seq_id llama_pos llama_pos | RcCp llama_seq_id llama_seq_id llama_pos llama_pos
  | RcKeep llama_seq_id

fun rc_op_seqs :: "rc_op \<Rightarrow> llama_seq_id list" where
  "rc_op_seqs RcClear = []"
| "rc_op_seqs (RcRm s p0 p1) = [s]"
| "rc_op_seqs (RcCp src dst p0 p1) = [src, dst]"
| "rc_op_seqs (RcKeep s) = [s]"

fun rc_do :: "rc_op \<Rightarrow> recurrent \<Rightarrow> (bool \<times> recurrent) option" where
  "rc_do RcClear r = map_option (Pair True) (rc_clear r)"
| "rc_do (RcRm s p0 p1) r = rc_seq_rm r s p0 p1"
| "rc_do (RcCp src dst p0 p1) r = map_option (Pair True) (rc_seq_cp r src dst p0 p1)"
| "rc_do (RcKeep s) r = map_option (Pair True) (rc_seq_keep r s)"

fun rc_run :: "rc_op list \<Rightarrow> recurrent \<Rightarrow> (bool list \<times> recurrent) option" where
  "rc_run [] r = Some ([], r)"
| "rc_run (c # cs) r = do {
     (b, r) \<leftarrow> rc_do c r;
     (bs, r) \<leftarrow> rc_run cs r;
     Some (b # bs, r) }"

text \<open>
  The specification.  A sequence of a recurrent model cannot lose a part of its state: \<open>seq_rm\<close>
  refuses a range that starts or ends inside it.
\<close>

type_synonym seq_map = "llama_seq_id \<rightharpoonup> llama_pos"

definition rm_refused :: "llama_pos \<Rightarrow> llama_pos \<Rightarrow> llama_pos \<Rightarrow> bool" where
  "rm_refused p0 p1 p \<longleftrightarrow> (0 < rc_norm_p0 p0 \<and> rc_norm_p0 p0 \<le> p) \<or> (0 < rc_norm_p1 p1 \<and> rc_norm_p1 p1 \<le> p)"

fun spec_do :: "rc_op \<Rightarrow> seq_map \<Rightarrow> bool \<times> seq_map" where
  "spec_do RcClear m = (True, Map.empty)"
| "spec_do (RcRm s p0 p1) m = (case m s of
     None \<Rightarrow> (True, m)
   | Some p \<Rightarrow> if rm_refused p0 p1 p then (False, m)
       else (True, if pos_range p0 p1 p then m(s := None) else m))"
| "spec_do (RcCp src dst p0 p1) m = (True, m(dst := m src))"
| "spec_do (RcKeep s) m = (True, \<lambda>t. if t = s then m s else None)"

fun spec_run :: "rc_op list \<Rightarrow> seq_map \<Rightarrow> bool list \<times> seq_map" where
  "spec_run [] m = ([], m)"
| "spec_run (c # cs) m = (let (b, m) = spec_do c m; (bs, m) = spec_run cs m in (b # bs, m))"

text \<open>The abstraction: the position of every sequence the memory knows.\<close>

definition rc_abs :: "recurrent \<Rightarrow> seq_map" where
  "rc_abs r = (\<lambda>s. if rc_seq_ok r s then rc_pos_of r s else None)"

lemma rc_abs_eqI:
  assumes "rc_size r' = rc_size r" "\<And>t. rc_seq_ok r t \<Longrightarrow> rc_pos_of r' t = m t" "\<And>t. \<not> rc_seq_ok r t \<Longrightarrow> m t = None"
  shows "rc_abs r' = m"
  using assms(2,3) rc_seq_ok_size [OF assms(1)] by (auto simp: rc_abs_def)

lemma rc_seq_cp_mem:
  assumes "rc_wf r" "rc_seq_ok r src" "rc_seq_ok r dst"
  shows "\<exists>r'. rc_seq_cp r src dst p0 p1 = Some r' \<and> rc_wf r' \<and> rc_size r' = rc_size r \<and>
    (\<forall>t. rc_seq_ok r t \<longrightarrow> rc_pos_of r' t = (if t = dst then rc_pos_of r src else rc_pos_of r t))"
proof (cases "src = dst")
  case True
  then show ?thesis using assms(1) by (auto simp: rc_seq_cp_def)
next
  case False
  show ?thesis by (rule rc_seq_cp_ok [OF assms False, of p0 p1]) (auto simp: rc_shape_def)
qed

lemma rc_do_refines:
  assumes wf: "rc_wf r" and known: "\<forall>s \<in> set (rc_op_seqs c). rc_seq_ok r s"
  shows "\<exists>b r'. rc_do c r = Some (b, r') \<and> rc_wf r' \<and> rc_size r' = rc_size r \<and> spec_do c (rc_abs r) = (b, rc_abs r')"
proof (cases c)
  case RcClear
  obtain r' where r': "rc_clear r = Some r'" "rc_wf r'" "rc_size r' = rc_size r" "\<forall>s. rc_seq_ok r s \<longrightarrow> rc_pos_of r' s = None"
    using rc_clear_mem [OF wf] by (elim exE conjE)
  have "rc_abs r' = Map.empty" by (rule rc_abs_eqI [OF r'(3)]) (use r'(4) in auto)
  then show ?thesis using r'(1-3) RcClear by auto
next
  case (RcRm s p0 p1)
  then have s: "rc_seq_ok r s" using known by simp
  obtain b r' where r': "rc_seq_rm r s p0 p1 = Some (b, r')" "rc_wf r'" "rc_size r' = rc_size r" "\<not> b \<longrightarrow> r' = r"
    "b \<longleftrightarrow> (\<forall>p. rc_pos_of r s = Some p \<longrightarrow> \<not> (0 < rc_norm_p0 p0 \<and> rc_norm_p0 p0 \<le> p) \<and> \<not> (0 < rc_norm_p1 p1 \<and> rc_norm_p1 p1 \<le> p))"
    "b \<longrightarrow> (\<forall>t. rc_seq_ok r t \<longrightarrow> rc_pos_of r' t =
      (if t = s \<and> (\<exists>p. rc_pos_of r s = Some p \<and> pos_range p0 p1 p) then None else rc_pos_of r t))"
    using rc_seq_rm_mem [OF wf s, of p0 p1] by (elim exE conjE)
  have b: "b \<longleftrightarrow> (\<forall>p. rc_pos_of r s = Some p \<longrightarrow> \<not> rm_refused p0 p1 p)" using r'(5) by (auto simp: rm_refused_def)
  have at_s: "rc_abs r s = rc_pos_of r s" using s by (simp add: rc_abs_def)
  have "rc_abs r' = (if \<exists>p. rc_pos_of r s = Some p \<and> pos_range p0 p1 p then (rc_abs r)(s := None) else rc_abs r)" if b
    by (rule rc_abs_eqI [OF r'(3)]) (use r'(6) that s in \<open>auto simp: rc_abs_def\<close>)
  then have "spec_do (RcRm s p0 p1) (rc_abs r) = (b, rc_abs r')"
    using b r'(4) at_s by (cases "rc_pos_of r s"; cases b) auto
  then show ?thesis using r'(1-3) RcRm by auto
next
  case (RcCp src dst p0 p1)
  then have s: "rc_seq_ok r src" "rc_seq_ok r dst" using known by simp_all
  obtain r' where r': "rc_seq_cp r src dst p0 p1 = Some r'" "rc_wf r'" "rc_size r' = rc_size r"
    "\<forall>t. rc_seq_ok r t \<longrightarrow> rc_pos_of r' t = (if t = dst then rc_pos_of r src else rc_pos_of r t)"
    using rc_seq_cp_mem [OF wf s, of p0 p1] by (elim exE conjE)
  have "rc_abs r' = (rc_abs r)(dst := rc_abs r src)"
    by (rule rc_abs_eqI [OF r'(3)]) (use r'(4) s in \<open>auto simp: rc_abs_def\<close>)
  then show ?thesis using r'(1-3) RcCp by auto
next
  case (RcKeep s)
  then have s: "rc_seq_ok r s" using known by simp
  obtain r' where r': "rc_seq_keep r s = Some r'" "rc_wf r'" "rc_size r' = rc_size r"
    "\<forall>t. rc_seq_ok r t \<longrightarrow> rc_pos_of r' t = (if t = s then rc_pos_of r s else None)"
    using rc_seq_keep_mem [OF wf s] by (elim exE conjE)
  have "rc_abs r' = (\<lambda>t. if t = s then rc_abs r s else None)"
    by (rule rc_abs_eqI [OF r'(3)]) (use r'(4) s in \<open>auto simp: rc_abs_def\<close>)
  then show ?thesis using r'(1-3) RcKeep by auto
qed

lemma rc_run_refines_gen:
  "rc_wf r \<Longrightarrow> \<forall>c \<in> set cs. \<forall>s \<in> set (rc_op_seqs c). rc_seq_ok r s \<Longrightarrow>
    \<exists>bs r'. rc_run cs r = Some (bs, r') \<and> rc_wf r' \<and> spec_run cs (rc_abs r) = (bs, rc_abs r')"
proof (induction cs arbitrary: r)
  case (Cons c cs)
  obtain b r1 where r1: "rc_do c r = Some (b, r1)" "rc_wf r1" "rc_size r1 = rc_size r" "spec_do c (rc_abs r) = (b, rc_abs r1)"
    using rc_do_refines [OF Cons.prems(1), of c] Cons.prems(2) by auto
  have "\<forall>c \<in> set cs. \<forall>s \<in> set (rc_op_seqs c). rc_seq_ok r1 s"
    using Cons.prems(2) rc_seq_ok_size [OF r1(3)] by simp
  from Cons.IH [OF r1(2) this] obtain bs r' where r': "rc_run cs r1 = Some (bs, r')" "rc_wf r'"
    "spec_run cs (rc_abs r1) = (bs, rc_abs r')"
    by (elim exE conjE)
  then show ?case using r1 by simp
qed simp

text \<open>A recurrent memory of three cells with the states of the sequences 0 and 1.\<close>

definition demo_rc :: recurrent where
  "demo_rc = \<lparr>rc_head = 1, rc_size = 3, rc_used = 2, rc_n = 1, rc_rs_z = 1,
     rc_cells = [\<lparr>mc_pos = 1, mc_src = 0, mc_src0 = 0, mc_tail = 0, mc_seq = {0}\<rparr>,
       \<lparr>mc_pos = 4, mc_src = 1, mc_src0 = 1, mc_tail = 1, mc_seq = {1}\<rparr>, mc_new],
     rc_n_seq_max = 3\<rparr>"

lemma demo_rc_wf: "rc_wf demo_rc"
  by (auto simp: rc_wf_def demo_rc_def rc_links_def rc_vals_def mc_new_def rc_count_def mc_is_empty_def i32_ok_def
      INT32_MIN_def INT32_MAX_def less_Suc_eq numeral_3_eq_3)

lemma demo_rc_known: "rc_seq_ok demo_rc 0" "rc_seq_ok demo_rc 1" "rc_seq_ok demo_rc 2"
  by (simp_all add: rc_seq_ok_def demo_rc_def)

end
