(* ===== verification/MemProps.thy ===== *)
theory MemProps
  imports HybridMemory RecurrentSpec KvDemo
begin

text \<open>
  The properties of the recurrent and the hybrid memory, and those every memory gets from the
  interface.
\<close>

subsection \<open>Concrete memories\<close>

lemma demo_kv_streams: "kv_n_stream demo_kv = 1" "3 < length (kv_seq_to_stream demo_kv)"
  by code_simp+

lemma kv_positions_absent: "kv_positions demo_kv 1 = {}" "kv_positions demo_kv 2 = {}"
  by code_simp+

text \<open>The sequences 1 and 2 have no position in the attention cache, so they have none in the recurrent memory.\<close>

definition demo_rc_one :: recurrent where
  "demo_rc_one = \<lparr>rc_head = 0, rc_size = 3, rc_used = 1, rc_n = 1, rc_rs_z = 0,
     rc_cells = [\<lparr>mc_pos = 1, mc_src = 0, mc_src0 = 0, mc_tail = 0, mc_seq = {0}\<rparr>, mc_new, mc_new],
     rc_n_seq_max = 3\<rparr>"

definition demo_hy :: hybrid where
  "demo_hy = \<lparr>hy_attn = demo_kv, hy_recr = demo_rc_one\<rparr>"

lemma demo_rc_one_wf: "rc_wf demo_rc_one"
  by (auto simp: rc_wf_def demo_rc_one_def rc_links_def rc_vals_def mc_new_def rc_count_def mc_is_empty_def i32_ok_def
      INT32_MIN_def INT32_MAX_def less_Suc_eq numeral_3_eq_3)

lemma demo_hy_known: "hy_known demo_hy s \<longleftrightarrow> s = 0 \<or> s = 1 \<or> s = 2"
  using demo_kv_streams(2) by (auto simp: hy_known_def demo_hy_def kv_seq_ok_def rc_seq_ok_def demo_rc_one_def)

lemma demo_hy_wf: "hy_wf demo_hy"
proof -
  have "hy_agree demo_hy 0" "hy_agree demo_hy 1" "hy_agree demo_hy 2"
    using demo_facts(3) kv_positions_absent
    by (simp_all add: hy_agree_def demo_hy_def rc_pos_of_def cs_pos_def demo_rc_one_def mc_new_def)
  then show ?thesis
    using demo_kv_wf demo_kv_streams(1) demo_rc_one_wf demo_hy_known by (auto simp: hy_wf_def) (simp_all add: demo_hy_def)
qed

subsection \<open>The recurrent memory\<close>



text \<open>C13: \<open>seq_add\<close>, where no position overflows or becomes negative, moves the sequence and every
  sequence that shares its cell, and no other.\<close>

theorem recurrent_add_shared:
  assumes "rc_wf r" "rc_seq_ok r s" "k \<noteq> 0"
    and "\<forall>p. rc_pos_of r s = Some p \<longrightarrow> pos_range p0 p1 p \<longrightarrow> 0 \<le> p + k \<and> i32_ok (p + k)"
  shows "\<exists>r'. rc_seq_add r s p0 p1 k = Some r' \<and> rc_wf r' \<and>
    (\<forall>t. rc_seq_ok r t \<longrightarrow> rc_pos_of r' t = (if rc_tail r t = rc_tail r s
      then map_option (\<lambda>p. if pos_range p0 p1 p then p + k else p) (rc_pos_of r t) else rc_pos_of r t))"
proof (cases "rc_norm_p0 p0 = rc_norm_p1 p1")
  case True
  then have "\<not> pos_range p0 p1 p" for p by (simp add: pos_range_rc_norm)
  then show ?thesis using True assms(1,3) by (simp add: rc_seq_add_def option.map_id0 [unfolded id_def])
next
  case False
  show ?thesis
  proof (rule rc_map_pos_ok [OF assms(1,2), of "rc_norm_p0 p0" "rc_norm_p1 p1"
      "\<lambda>p. do { guard (i32_ok (p + k)); Some (p + k) }" "\<lambda>p. p + k"])
    fix p
    assume "rc_pos_of r s = Some p" "rc_norm_p0 p0 \<le> p" "p < rc_norm_p1 p1"
    then show "(do { guard (i32_ok (p + k)); Some (p + k) }) = Some (p + k) \<and> 0 \<le> p + k \<and> i32_ok (p + k)"
      using assms(4) by (simp add: pos_range_rc_norm)
  next
    fix r'
    assume "rc_map_pos s (rc_norm_p0 p0) (rc_norm_p1 p1) (\<lambda>p. do { guard (i32_ok (p + k)); Some (p + k) }) r = Some r'" "rc_wf r'"
      "\<And>t. rc_seq_ok r t \<Longrightarrow> rc_pos_of r' t = (if rc_tail r t = rc_tail r s
        then map_option (\<lambda>p. if rc_norm_p0 p0 \<le> p \<and> p < rc_norm_p1 p1 then p + k else p) (rc_pos_of r t) else rc_pos_of r t)"
    then show ?thesis using False assms(3) by (auto simp: rc_seq_add_def pos_range_rc_norm)
  qed
qed

theorem recurrent_add_shared_witness:
  "\<exists>r'. rc_seq_add demo_rc 0 0 (- 1) 3 = Some r' \<and> rc_wf r' \<and>
    (\<forall>t. rc_seq_ok demo_rc t \<longrightarrow> rc_pos_of r' t = (if rc_tail demo_rc t = rc_tail demo_rc 0
      then map_option (\<lambda>p. if pos_range 0 (- 1) p then p + 3 else p) (rc_pos_of demo_rc t) else rc_pos_of demo_rc t))"
  by (rule recurrent_add_shared [OF demo_rc_wf demo_rc_known(1)])
    (auto simp: rc_pos_of_def cs_pos_def demo_rc_def i32_ok_def INT32_MIN_def INT32_MAX_def)

text \<open>A sequence moved below zero: its cell keeps it, and nothing else changes.\<close>

lemma rc_map_pos_below:
  assumes wf: "rc_wf r" and s: "rc_seq_ok r s" and p: "rc_pos_of r s = Some p" "p0 \<le> p" "p < p1" and f: "f p = Some q"
  shows "rc_map_pos s p0 p1 f r = Some (r\<lparr>rc_cells := (rc_cells r)[nat (rc_tail r s) := (rc_cells r ! nat (rc_tail r s))\<lparr>mc_pos := q\<rparr>]\<rparr>)"
  using rc_tail_cases [OF wf s]
proof cases
  case 1
  then show ?thesis using p(1) by simp
next
  case (2 i)
  have "rc_cell r s = Some (rc_cells r ! nat s)" "rc_cell r (int i) = Some (rc_cells r ! i)"
    using rc_seq_okD [OF wf s] 2(2) by (simp_all add: rc_cell_ok)
  moreover have "0 \<le> s \<and> s < int (rc_size r)" using s by (auto simp: rc_seq_ok_def)
  moreover have "mc_pos (rc_cells r ! i) = p" using 2(5) p(1) by simp
  ultimately show ?thesis using 2(1-3) p(2,3) f by (simp add: rc_map_pos_def rc_tail_def mc_has_seq_id_def rc_upd_ok)
qed

text \<open>A shift that takes a sequence below zero leaves it in its cell, at the negative position and still counted as
  used, while \<open>seq_pos_max\<close> reports it as absent; the unified cache drops such a position.\<close>

theorem recurrent_add_negative:
  assumes "rc_wf r" "rc_seq_ok r s" "rc_pos_of r s = Some p" "pos_range p0 p1 p" "p + k < 0" "i32_ok (p + k)"
  shows "\<exists>r'. rc_seq_add r s p0 p1 k = Some r' \<and> rc_used r' = rc_used r \<and> s \<in> mc_seq (rc_cells r' ! nat (rc_tail r s)) \<and>
    rc_cells r' = (rc_cells r)[nat (rc_tail r s) := (rc_cells r ! nat (rc_tail r s))\<lparr>mc_pos := p + k\<rparr>] \<and>
    rc_seq_pos_max r' s = Some (- 1)"
proof -
  let ?i = "nat (rc_tail r s)"
  define r' where "r' = r\<lparr>rc_cells := (rc_cells r)[?i := (rc_cells r ! ?i)\<lparr>mc_pos := p + k\<rparr>]\<rparr>"
  have p: "rc_norm_p0 p0 \<le> p" "p < rc_norm_p1 p1" using assms(4) by (simp_all add: pos_range_rc_norm)
  have ne: "k \<noteq> 0" "rc_norm_p0 p0 \<noteq> rc_norm_p1 p1" using rc_pos_of_range [OF assms(1-3)] assms(5) p by auto
  have "rc_map_pos s (rc_norm_p0 p0) (rc_norm_p1 p1) (\<lambda>p. do { guard (i32_ok (p + k)); Some (p + k) }) r = Some r'"
    unfolding r'_def by (rule rc_map_pos_below [OF assms(1-3) p]) (use assms(6) in simp)
  then have run: "rc_seq_add r s p0 p1 k = Some r'" using ne by (simp add: rc_seq_add_def)
  have i: "?i < length (rc_cells r) \<and> s \<in> mc_seq (rc_cells r ! ?i)"
  proof (cases rule: rc_tail_cases [OF assms(1,2)])
    case 1
    show ?thesis using 1(3) assms(3) by simp
  next
    case (2 i)
    show ?thesis using 2(1-3) by (simp add: rc_tail_def)
  qed
  have "foldM (\<lambda>i result. do { c \<leftarrow> vget (rc_cells r') i; Some (if mc_has_seq_id c s then max result (mc_pos c) else result) })
      [0..<rc_size r'] (- 1) = Some (- 1)"
  proof (rule foldM_skip)
    fix j assume j: "j \<in> set [0..<rc_size r']"
    then have jl: "j < length (rc_cells r)" using rc_wf_len [OF assms(1)] by (simp add: r'_def)
    have "s \<in> mc_seq (rc_cells r ! j) \<Longrightarrow> j = ?i"
      using rc_mem_iff [OF assms(1,2) jl] by (simp add: rc_tail_def)
    then show "(do { c \<leftarrow> vget (rc_cells r') j; Some (if mc_has_seq_id c s then max (- 1) (mc_pos c) else - 1) }) = Some (- 1)"
      using jl i assms(5) by (auto simp: r'_def mc_has_seq_id_def nth_list_update)
  qed
  then show ?thesis using run i by (auto simp: r'_def rc_seq_pos_max_def)
qed

theorem recurrent_add_negative_witness:
  "\<exists>r'. rc_seq_add demo_rc 0 0 (- 1) (- 5) = Some r' \<and> rc_used r' = 2 \<and> mc_seq (rc_cells r' ! 0) = {0} \<and> mc_pos (rc_cells r' ! 0) = - 4 \<and>
    rc_seq_pos_max r' 0 = Some (- 1)"
proof -
  have "rc_pos_of demo_rc 0 = Some 1" "pos_range 0 (- 1) (1 :: int)" "(1 :: int) + - 5 < 0" "i32_ok (1 + - 5)" by code_simp+
  from recurrent_add_negative [OF demo_rc_wf demo_rc_known(1) this]
  obtain r' where r': "rc_seq_add demo_rc 0 0 (- 1) (- 5) = Some r'" "rc_used r' = rc_used demo_rc"
    "rc_cells r' = (rc_cells demo_rc)[nat (rc_tail demo_rc 0) := (rc_cells demo_rc ! nat (rc_tail demo_rc 0))\<lparr>mc_pos := 1 + - 5\<rparr>]"
    "rc_seq_pos_max r' 0 = Some (- 1)" by blast
  have "rc_tail demo_rc 0 = 0" by code_simp
  then have "rc_cells r' ! 0 = (rc_cells demo_rc ! 0)\<lparr>mc_pos := - 4\<rparr>" using r'(3) by (simp add: demo_rc_def)
  then have "mc_seq (rc_cells r' ! 0) = {0}" "mc_pos (rc_cells r' ! 0) = - 4" by (simp_all add: demo_rc_def)
  moreover have "rc_used r' = 2" using r'(2) by (simp add: demo_rc_def)
  ultimately show ?thesis using r'(1,4) by blast
qed

text \<open>Removing every sequence from a cell.\<close>

definition any_hit :: "mem_cell \<Rightarrow> mem_cell" where
  "any_hit c = (if 0 \<le> mc_pos c \<and> mc_pos c < INT32_MAX then c\<lparr>mc_seq := {}, mc_pos := - 1, mc_src := - 1\<rparr> else c)"

lemma rc_rm_any_loop:
  assumes wf: "rc_wf r"
  obtains nh r' where "foldM (rc_rm_cell (- 1) 0 INT32_MAX) [0..<rc_size r] (rc_size r, r) = Some (nh, r')" and "nh \<le> rc_size r"
    and "rc_shape r r'" and "rc_cells r' = map (\<lambda>i. any_hit (rc_cells r ! i)) [0..<rc_size r]"
    and "rc_used r' = rc_count (rc_cells r')"
proof (rule rc_loop [OF rc_wf_len [OF wf] rc_wf_used [OF wf], where g = "rc_rm_cell (- 1) 0 INT32_MAX" and f = "\<lambda>i. any_hit"])
  fix i nh r'
  assume i: "i < rc_size r" and nh: "nh \<le> rc_size r" and r': "rc_shape r r'" "length (rc_cells r') = rc_size r"
    "rc_used r' = rc_count (rc_cells r')" "rc_cells r' ! i = rc_cells r ! i"
  define c where "c = rc_cells r ! i"
  have il: "i < length (rc_cells r')" and sz: "length (rc_cells r') < 2 ^ 31" using i r'(2) rc_wf_size [OF wf] by simp_all
  have ci: "rc_cells r' ! i = c" using r'(4) by (simp add: c_def)
  have id: "(rc_cells r')[i := c] = rc_cells r'" using ci list_update_id by metis
  show "\<exists>nh' r''. rc_rm_cell (- 1) 0 INT32_MAX i (nh, r') = Some (nh', r'') \<and> nh' \<le> rc_size r \<and> rc_shape r r'' \<and>
      rc_cells r'' = (rc_cells r')[i := any_hit (rc_cells r ! i)] \<and> rc_used r'' = rc_count (rc_cells r'')"
  proof (cases "0 \<le> mc_pos c \<and> mc_pos c < INT32_MAX")
    case False
    then have "rc_rm_cell (- 1) 0 INT32_MAX i (nh, r') = Some (nh, r')" using il by (auto simp: rc_rm_cell_def ci)
    then show ?thesis using False nh r' il by (auto simp: any_hit_def id c_def [symmetric])
  next
    case True
    have used: "mc_seq c \<noteq> {}" using rc_wf_vals [OF wf] i rc_wf_len [OF wf] True by (auto simp: rc_vals_def c_def)
    define d where "d = c\<lparr>mc_seq := {}, mc_pos := - 1, mc_src := - 1\<rparr>"
    have "u32 (int (rc_count (rc_cells r')) - 1) = rc_count ((rc_cells r')[i := d])"
      by (rule rc_dec_used_count [OF il]) (use used sz in \<open>auto simp: ci mc_is_empty_def d_def\<close>)
    moreover have "rc_rm_cell (- 1) 0 INT32_MAX i (nh, r') = Some (if nh = rc_size r' then i else nh,
        r'\<lparr>rc_cells := (rc_cells r')[i := d], rc_used := u32 (int (rc_used r') - 1)\<rparr>)"
      using True il by (simp add: rc_rm_cell_def ci mc_is_empty_def rc_upd_ok rc_dec_used_def d_def)
    moreover have "any_hit (rc_cells r ! i) = d" using True by (simp add: any_hit_def c_def [symmetric] d_def)
    ultimately show ?thesis using nh i r' by (auto simp: rc_shape_def)
  qed
qed (use that in auto)

text \<open>C14: \<open>seq_rm\<close> of every sequence (\<open>seq_id < 0\<close>, both bounds open) reports success and empties every cell, but it clears
  no tail.  So each sequence that had a state keeps pointing to an empty cell, and the next micro-batch of it
  aborts in \<open>find_slot\<close>.  (No sequence is at the greatest position, which the open bound leaves out.)\<close>

theorem recurrent_rm_any_dangles:
  assumes "rc_wf r" "\<forall>t. rc_seq_ok r t \<longrightarrow> rc_pos_of r t \<noteq> Some INT32_MAX" "rc_seq_ok r s" "rc_pos_of r s \<noteq> None"
    and "ub_equal_seqs ub" "ub_n_seqs ub = 1" "ub_n_seq_id ub \<noteq> []" "ub_n_seq_id ub ! 0 = 1" "ub_seq_id ub \<noteq> []" "ub_seq_id ub ! 0 = [s]"
  shows "\<exists>r'. rc_seq_rm r (- 1) (- 1) (- 1) = Some (True, r') \<and> rc_used r' = 0 \<and> (\<forall>t. rc_seq_ok r t \<longrightarrow> rc_tail r' t = rc_tail r t) \<and>
    (\<forall>c \<in> set (rc_cells r'). mc_is_empty c) \<and> rc_find_slot r' ub = None"
proof -
  note len = rc_wf_len [OF assms(1)]
  obtain nh r1 where r1: "foldM (rc_rm_cell (- 1) 0 INT32_MAX) [0..<rc_size r] (rc_size r, r) = Some (nh, r1)" "nh \<le> rc_size r"
    "rc_shape r r1" "rc_cells r1 = map (\<lambda>i. any_hit (rc_cells r ! i)) [0..<rc_size r]" "rc_used r1 = rc_count (rc_cells r1)"
    by (rule rc_rm_any_loop [OF assms(1)])
  define r' where "r' = (if nh \<noteq> rc_size r \<and> nh < rc_head r then r1\<lparr>rc_head := nh\<rparr> else r1)"
  have sz: "rc_size r1 = rc_size r" "rc_head r1 = rc_head r" "rc_size r' = rc_size r" using r1(3) by (auto simp: rc_shape_def r'_def)
  have run: "rc_seq_rm r (- 1) (- 1) (- 1) = Some (True, r')"
    using r1(1) sz by (simp add: rc_seq_rm_def rc_rm_check_def rc_norm_p0_def rc_norm_p1_def r'_def)
  have cells: "rc_cells r' = map (\<lambda>i. any_hit (rc_cells r ! i)) [0..<rc_size r]" using r1(4) by (simp add: r'_def)
  have empty: "mc_seq (any_hit (rc_cells r ! i)) = {}" if i: "i < rc_size r" for i
  proof (cases "mc_seq (rc_cells r ! i) = {}")
    case True
    then show ?thesis by (simp add: any_hit_def)
  next
    case False
    then obtain t where t: "t \<in> mc_seq (rc_cells r ! i)" by blast
    have tl: "0 \<le> t" "nat t < length (rc_cells r)" "mc_tail (rc_cells r ! nat t) = int i"
      using rc_links_seq [OF rc_wf_links [OF assms(1)], of i t] i len t by auto
    then have "rc_seq_ok r t" "rc_pos_of r t = Some (mc_pos (rc_cells r ! i))"
      by (simp_all add: rc_seq_ok_def len rc_pos_of_def cs_pos_def)
    then have "mc_pos (rc_cells r ! i) \<noteq> INT32_MAX" "0 \<le> mc_pos (rc_cells r ! i)" "i32_ok (mc_pos (rc_cells r ! i))"
      using assms(2) rc_pos_of_range [OF assms(1)] by auto
    then show ?thesis by (simp add: any_hit_def i32_ok_def)
  qed
  have tails: "rc_tail r' t = rc_tail r t" if "rc_seq_ok r t" for t
    using that by (simp add: rc_tail_def cells rc_seq_ok_def any_hit_def)
  have "rc_count (rc_cells r1) = 0" using empty unfolding r1(4) rc_count_def by (auto simp: mc_is_empty_def filter_empty_conv)
  then have used: "rc_used r' = 0" using r1(5) by (simp add: r'_def)
  have all: "\<forall>c \<in> set (rc_cells r'). mc_is_empty c" using empty by (auto simp: cells mc_is_empty_def)
  define r2 where "r2 = (if rc_head r' > rc_used r' + 2 * ub_n_seqs ub then r'\<lparr>rc_head := 0\<rparr> else r')"
  have r2: "rc_cells r2 = rc_cells r'" "rc_size r2 = rc_size r" using sz by (simp_all add: r2_def)
  have s: "0 \<le> s" "nat s < rc_size r" "u32 s = nat s" using assms(1,3) by (auto simp: rc_seq_ok_def rc_wf_def u32_def)
  have own: "rc_own s r2 = None"
    using rc_tail_cases [OF assms(1,3)]
  proof cases
    case 1
    then show ?thesis using assms(4) by simp
  next
    case (2 i)
    have c: "rc_cell r2 s = Some (any_hit (rc_cells r ! nat s))" "rc_cell r2 (int i) = Some (any_hit (rc_cells r ! i))"
      using s 2(2) r2 len by (simp_all add: rc_cell_def sidx_def cells)
    have "mc_tail (any_hit (rc_cells r ! nat s)) = int i" using 2(1) by (simp add: any_hit_def)
    then show ?thesis using c empty [of i] 2(2) len by (simp add: rc_own_def mc_has_seq_id_def)
  qed
  have seqs: "[0..<ub_n_seqs ub] = [0]" using assms(6) by simp
  have claim: "rc_claim ub [0] r2 = Some (True, r2)"
    using assms(7-10) s r2(2) by (simp add: vget_def u32_def)
  have place: "foldM (rc_place ub) [0] ((k, m), r2) = None" for k m
    using assms(9,10) own by (cases m) (simp add: rc_place_def rc_set_id_def vget_def)
  have "rc_find_slot r' ub = None"
    unfolding rc_find_slot_def Let_def r2_def [symmetric] seqs claim
    by (cases "rc_first_empty r2 (rc_size r2) (rc_head r2)")
      (simp_all add: assms(5) claim place split_def del: foldM.simps rc_claim.simps rc_first_empty.simps)
  then show ?thesis using run used tails all by blast
qed

theorem recurrent_rm_any_dangles_witness:
  "\<exists>r'. rc_seq_rm demo_rc (- 1) (- 1) (- 1) = Some (True, r') \<and> rc_used r' = 0 \<and>
    rc_tail r' 0 = 0 \<and> (\<forall>c \<in> set (rc_cells r'). mc_is_empty c) \<and> rc_find_slot r' (demo_ub 0 [2]) = None"
proof -
  have "rc_pos_of demo_rc t \<noteq> Some INT32_MAX" if "rc_seq_ok demo_rc t" for t
  proof -
    have "t = 0 \<or> t = 1 \<or> t = 2" using that by (auto simp: rc_seq_ok_def demo_rc_def)
    then show ?thesis by (elim disjE) (simp_all add: rc_pos_of_def cs_pos_def demo_rc_def mc_new_def INT32_MAX_def)
  qed
  moreover have "rc_pos_of demo_rc 0 \<noteq> None" "rc_tail demo_rc 0 = 0" by code_simp+
  ultimately show ?thesis
    using recurrent_rm_any_dangles [OF demo_rc_wf _ demo_rc_known(1), of "demo_ub 0 [2]"] demo_rc_known(1) by (auto simp: demo_ub_def)
qed

subsection \<open>The hybrid memory\<close>

text \<open>C15: \<open>seq_rm\<close> on the hybrid memory changes both halves or none.  It is refused, changing
  nothing, exactly when the range cuts the recurrent state; otherwise it removes the range, which
  holds all positions of the sequence or none, and the halves still agree.\<close>

theorem hybrid_rm_atomic:
  assumes "hy_wf h" "hy_known h s"
  shows "\<exists>b h'. hy_seq_rm h s p0 p1 = Some (b, h') \<and> hy_wf h' \<and>
    (b \<longleftrightarrow> (\<forall>p. rc_pos_of (hy_recr h) s = Some p \<longrightarrow> \<not> rm_refused p0 p1 p)) \<and>
    (\<not> b \<longrightarrow> h' = h) \<and>
    (b \<longrightarrow> hy_positions h' s = {p \<in> hy_positions h s. \<not> pos_range p0 p1 p} \<and> hy_positions h' s \<in> {{}, hy_positions h s} \<and>
      (\<forall>t. hy_known h t \<longrightarrow> t \<noteq> s \<longrightarrow> hy_positions h' t = hy_positions h t))"
proof -
  obtain b h' where h': "hy_seq_rm h s p0 p1 = Some (b, h')" "hy_wf h'" "\<not> b \<longrightarrow> h' = h"
    "b \<longrightarrow> (\<forall>t. hy_known h t \<longrightarrow> hy_positions h' t =
      (if t = s then {p \<in> hy_positions h s. \<not> pos_range p0 p1 p} else hy_positions h t))"
    "b \<longrightarrow> hy_positions h' s \<in> {{}, hy_positions h s}"
    "b \<longleftrightarrow> (\<forall>p. rc_pos_of (hy_recr h) s = Some p \<longrightarrow> \<not> (0 < rc_norm_p0 p0 \<and> rc_norm_p0 p0 \<le> p) \<and> \<not> (0 < rc_norm_p1 p1 \<and> rc_norm_p1 p1 \<le> p))"
    using hy_seq_rm_ok [OF assms, of p0 p1] by (elim exE conjE)
  have "b \<longleftrightarrow> (\<forall>p. rc_pos_of (hy_recr h) s = Some p \<longrightarrow> \<not> rm_refused p0 p1 p)"
    using h'(6) by (auto simp: rm_refused_def)
  then show ?thesis using h'(1-5) assms(2) by (intro exI [of _ b] exI [of _ h']) auto
qed

theorem hybrid_rm_atomic_witness:
  "\<exists>b h'. hy_seq_rm demo_hy 0 1 (- 1) = Some (b, h') \<and> hy_wf h' \<and>
    (b \<longleftrightarrow> (\<forall>p. rc_pos_of (hy_recr demo_hy) 0 = Some p \<longrightarrow> \<not> rm_refused 1 (- 1) p)) \<and>
    (\<not> b \<longrightarrow> h' = demo_hy) \<and>
    (b \<longrightarrow> hy_positions h' 0 = {p \<in> hy_positions demo_hy 0. \<not> pos_range 1 (- 1) p} \<and> hy_positions h' 0 \<in> {{}, hy_positions demo_hy 0} \<and>
      (\<forall>t. hy_known demo_hy t \<longrightarrow> t \<noteq> 0 \<longrightarrow> hy_positions h' t = hy_positions demo_hy t))"
  by (rule hybrid_rm_atomic [OF demo_hy_wf]) (simp add: demo_hy_known)

text \<open>C16: no run of \<open>clear\<close>, \<open>seq_rm\<close> and \<open>seq_keep\<close> on known sequences makes the hybrid memory abort
  or adds a position to a sequence.\<close>

theorem hybrid_calls_safe:
  assumes "hy_wf h" "\<forall>c \<in> set cs. \<forall>s \<in> set (call_seqs c). hy_known h s"
  shows "\<exists>h'. foldM (mem_do hy_clear hy_seq_rm hy_seq_keep) cs h = Some h' \<and> hy_wf h' \<and>
    (\<forall>t. hy_known h t \<longrightarrow> hy_positions h' t \<subseteq> hy_positions h t)"
  by (rule hym.calls_shrink [OF assms])

theorem hybrid_calls_safe_witness:
  "\<exists>h'. foldM (mem_do hy_clear hy_seq_rm hy_seq_keep) [CallRm 0 1 2, CallKeep 0, CallRm 1 (- 1) (- 1), CallClear] demo_hy = Some h' \<and>
    hy_wf h' \<and> (\<forall>t. hy_known demo_hy t \<longrightarrow> hy_positions h' t \<subseteq> hy_positions demo_hy t)"
  by (rule hybrid_calls_safe [OF demo_hy_wf]) (simp add: demo_hy_known)

subsection \<open>What every memory promises\<close>

text \<open>C17: removing a whole sequence never fails, as the interface documents: for each of the three
  memories \<open>seq_rm\<close> with open bounds succeeds, makes the sequence absent and leaves the bounds of
  the other sequences.\<close>

theorem whole_rm_never_fails:
  assumes "kv_wf kv" "kv_seq_ok kv s" "\<forall>p \<in> kv_positions kv s. p < INT32_MAX"
    and "rc_wf r" "rc_seq_ok r t" "\<forall>p \<in> rc_positions r t. p < INT32_MAX"
    and "hy_wf h" "hy_known h u" "\<forall>p \<in> hy_positions h u. p < INT32_MAX"
  shows "(\<exists>kv'. kv_seq_rm kv s (- 1) (- 1) = Some (True, kv') \<and> kv_wf kv' \<and> kv_seq_pos_max kv' s = Some (- 1) \<and>
      (\<forall>v. kv_seq_ok kv v \<longrightarrow> v \<noteq> s \<longrightarrow> kv_seq_pos_max kv' v = kv_seq_pos_max kv v)) \<and>
    (\<exists>r'. rc_seq_rm r t (- 1) (- 1) = Some (True, r') \<and> rc_wf r' \<and> rc_seq_pos_max r' t = Some (- 1) \<and>
      (\<forall>v. rc_seq_ok r v \<longrightarrow> v \<noteq> t \<longrightarrow> rc_seq_pos_max r' v = rc_seq_pos_max r v)) \<and>
    (\<exists>h'. hy_seq_rm h u (- 1) (- 1) = Some (True, h') \<and> hy_wf h' \<and> hy_seq_pos_max h' u = Some (- 1) \<and>
      (\<forall>v. hy_known h v \<longrightarrow> v \<noteq> u \<longrightarrow> hy_seq_pos_max h' v = hy_seq_pos_max h v))"
  by (intro conjI kvm.rm_all [OF assms(1-3)] rcm.rm_all [OF assms(4-6)] hym.rm_all [OF assms(7-9)])

theorem whole_rm_never_fails_witness:
  "(\<exists>kv'. kv_seq_rm demo_kv 0 (- 1) (- 1) = Some (True, kv') \<and> kv_wf kv' \<and> kv_seq_pos_max kv' 0 = Some (- 1) \<and>
      (\<forall>v. kv_seq_ok demo_kv v \<longrightarrow> v \<noteq> 0 \<longrightarrow> kv_seq_pos_max kv' v = kv_seq_pos_max demo_kv v)) \<and>
    (\<exists>r'. rc_seq_rm demo_rc 1 (- 1) (- 1) = Some (True, r') \<and> rc_wf r' \<and> rc_seq_pos_max r' 1 = Some (- 1) \<and>
      (\<forall>v. rc_seq_ok demo_rc v \<longrightarrow> v \<noteq> 1 \<longrightarrow> rc_seq_pos_max r' v = rc_seq_pos_max demo_rc v)) \<and>
    (\<exists>h'. hy_seq_rm demo_hy 0 (- 1) (- 1) = Some (True, h') \<and> hy_wf h' \<and> hy_seq_pos_max h' 0 = Some (- 1) \<and>
      (\<forall>v. hy_known demo_hy v \<longrightarrow> v \<noteq> 0 \<longrightarrow> hy_seq_pos_max h' v = hy_seq_pos_max demo_hy v))"
proof (rule whole_rm_never_fails [OF demo_kv_wf demo_facts(1) _ demo_rc_wf demo_rc_known(2) _ demo_hy_wf])
  show "\<forall>p \<in> kv_positions demo_kv 0. p < INT32_MAX" "hy_known demo_hy 0" "\<forall>p \<in> hy_positions demo_hy 0. p < INT32_MAX"
    using demo_facts(3) by (simp_all add: demo_hy_known hy_positions_def INT32_MAX_def) (simp add: demo_hy_def)
  show "\<forall>p \<in> rc_positions demo_rc 1. p < INT32_MAX"
    by (simp add: rc_positions_def rc_pos_of_def cs_pos_def demo_rc_def INT32_MAX_def)
qed

end
