(* ===== verification/BatchInv.thy ===== *)
theory BatchInv
  imports Batch
begin

text \<open>
  What \<open>llama_batch_allocr::init\<close> establishes (\<open>ba_ok\<close>), and what \<open>ubatch_add\<close> builds from a list of
  token indices.
\<close>

text \<open>The sequences of token \<open>i\<close>, its set and whether it is an output.\<close>

definition tok_ids :: "llama_batch \<Rightarrow> nat \<Rightarrow> llama_seq_id list" where
  "tok_ids b i = take (nat (the (lb_n_seq_id b) ! i)) (the (lb_seq_id b) ! i)"

definition tok_set :: "batch_allocr \<Rightarrow> nat \<Rightarrow> llama_seq_id set" where
  "tok_set a i = ba_seq_set a ! i"

definition tok_out :: "llama_batch \<Rightarrow> nat \<Rightarrow> bool" where
  "tok_out b i \<longleftrightarrow> the (lb_logits b) ! i \<noteq> 0"

definition n_pos_of :: "batch_allocr \<Rightarrow> nat" where
  "n_pos_of a = (if lb_embd (ba_batch a) \<noteq> None then ba_n_pos_per_embd a else 1)"

text \<open>The batch and the tables agree.\<close>

definition ba_ok :: "batch_allocr \<Rightarrow> bool" where
  "ba_ok a \<longleftrightarrow> (let b = ba_batch a; n = ba_get_n_tokens a in
     (\<forall>ts. lb_token b = Some ts \<longrightarrow> length ts = n) \<and>
     (\<forall>es. lb_embd b = Some es \<longrightarrow> length es = n * ba_n_embd a) \<and>
     (\<exists>ps. lb_pos b = Some ps \<and> length ps = n_pos_of a * n) \<and>
     (\<exists>ns ids. lb_n_seq_id b = Some ns \<and> lb_seq_id b = Some ids \<and> length ns = n \<and> length ids = n \<and>
        (\<forall>i < n. 0 < ns ! i \<and> nat (ns ! i) \<le> length (ids ! i))) \<and>
     (\<exists>ls. lb_logits b = Some ls \<and> length ls = n) \<and>
     ba_n_seq_max a \<le> LLAMA_MAX_SEQ \<and>
     (\<forall>i < n. \<forall>s \<in> set (tok_ids b i). 0 \<le> s \<and> s < int (ba_n_seq_max a)) \<and>
     length (ba_seq_set a) = n \<and> (\<forall>i < n. ba_seq_set a ! i = set (tok_ids b i)) \<and>
     (\<forall>t. ba_seq_set_map a t = filter (\<lambda>i. ba_seq_set a ! i = t) [0..<n]) \<and>
     length (ba_used a) = n)"

lemma ba_okD:
  assumes "ba_ok a"
  shows "lb_token (ba_batch a) = Some ts \<Longrightarrow> length ts = ba_get_n_tokens a"
    and "lb_embd (ba_batch a) = Some es \<Longrightarrow> length es = ba_get_n_tokens a * ba_n_embd a"
    and "\<exists>ps. lb_pos (ba_batch a) = Some ps \<and> length ps = n_pos_of a * ba_get_n_tokens a"
    and "\<exists>ns ids. lb_n_seq_id (ba_batch a) = Some ns \<and> lb_seq_id (ba_batch a) = Some ids \<and> length ns = ba_get_n_tokens a \<and>
      length ids = ba_get_n_tokens a \<and> (\<forall>i < ba_get_n_tokens a. 0 < ns ! i \<and> nat (ns ! i) \<le> length (ids ! i))"
    and "\<exists>ls. lb_logits (ba_batch a) = Some ls \<and> length ls = ba_get_n_tokens a"
    and "ba_n_seq_max a \<le> LLAMA_MAX_SEQ"
    and "i < ba_get_n_tokens a \<Longrightarrow> s \<in> set (tok_ids (ba_batch a) i) \<Longrightarrow> 0 \<le> s \<and> s < int (ba_n_seq_max a)"
    and "length (ba_seq_set a) = ba_get_n_tokens a"
    and "i < ba_get_n_tokens a \<Longrightarrow> ba_seq_set a ! i = set (tok_ids (ba_batch a) i)"
    and "ba_seq_set_map a t = filter (\<lambda>i. ba_seq_set a ! i = t) [0..<ba_get_n_tokens a]"
    and "length (ba_used a) = ba_get_n_tokens a"
  using assms by (simp_all add: ba_ok_def Let_def)

subsection \<open>Marking tokens as used\<close>

definition ba_mark :: "nat list \<Rightarrow> batch_allocr \<Rightarrow> batch_allocr" where
  "ba_mark idxs a = a\<lparr>ba_used := fold (\<lambda>i u. u[i := True]) idxs (ba_used a), ba_n_used := ba_n_used a + length idxs\<rparr>"

lemma fold_mark_length [simp]: "length (fold (\<lambda>i u. u[i := True]) idxs u) = length u"
  by (induction idxs arbitrary: u) auto

lemma fold_mark_nth: "j < length u \<Longrightarrow> fold (\<lambda>i u. u[i := True]) idxs u ! j = (j \<in> set idxs \<or> u ! j)"
proof (induction idxs arbitrary: u)
  case (Cons i idxs)
  then show ?case by (cases "i = j") auto
qed simp

lemma ba_mark_simps [simp]:
  "ba_batch (ba_mark idxs a) = ba_batch a" "ba_n_pos_per_embd (ba_mark idxs a) = ba_n_pos_per_embd a"
  "ba_n_embd (ba_mark idxs a) = ba_n_embd a" "ba_n_seq_max (ba_mark idxs a) = ba_n_seq_max a"
  "ba_has_cpl (ba_mark idxs a) = ba_has_cpl a" "ba_seq_set (ba_mark idxs a) = ba_seq_set a"
  "ba_seq_set_map (ba_mark idxs a) = ba_seq_set_map a" "ba_out_ids (ba_mark idxs a) = ba_out_ids a"
  "ba_n_used (ba_mark idxs a) = ba_n_used a + length idxs" "length (ba_used (ba_mark idxs a)) = length (ba_used a)"
  "ba_get_n_tokens (ba_mark idxs a) = ba_get_n_tokens a"
  by (simp_all add: ba_mark_def ba_get_n_tokens_def)

lemma ba_mark_used: "j < length (ba_used a) \<Longrightarrow> ba_used (ba_mark idxs a) ! j = (j \<in> set idxs \<or> ba_used a ! j)"
  by (simp add: ba_mark_def fold_mark_nth)

lemma ba_mark_Nil [simp]: "ba_mark [] a = a"
  by (simp add: ba_mark_def)

lemma ba_mark_append: "ba_mark (xs @ ys) a = ba_mark ys (ba_mark xs a)"
  by (simp add: ba_mark_def)

lemma ba_mark_perm:
  assumes "set xs = set ys" "length xs = length ys"
  shows "ba_mark xs a = ba_mark ys a"
proof -
  have "fold (\<lambda>i u. u[i := True]) xs (ba_used a) = fold (\<lambda>i u. u[i := True]) ys (ba_used a)"
    by (rule nth_equalityI) (use assms(1) in \<open>auto simp: fold_mark_nth\<close>)
  then show ?thesis using assms(2) by (simp add: ba_mark_def)
qed

lemma ba_use_mark: "i < length (ba_used a) \<Longrightarrow> ba_use i a = Some (ba_mark [i] a)"
  by (simp add: ba_use_def vset_def ba_mark_def)

lemma ba_ok_mark: "ba_ok a \<Longrightarrow> ba_ok (ba_mark idxs a)"
  by (simp only: ba_ok_def n_pos_of_def ba_mark_simps)

lemma ba_ok_out: "ba_ok (a\<lparr>ba_out_ids := x\<rparr>) = ba_ok a"
  by (simp add: ba_ok_def n_pos_of_def ba_get_n_tokens_def)

subsection \<open>\<open>ubatch_add\<close>\<close>

lemma ba_tok_set_ok:
  assumes ok: "ba_ok a" and i: "i < ba_get_n_tokens a"
  shows "ba_tok_set (ba_batch a) i = Some (set (tok_ids (ba_batch a) i))"
proof -
  obtain ns ids where ns: "lb_n_seq_id (ba_batch a) = Some ns" "lb_seq_id (ba_batch a) = Some ids"
    "length ns = ba_get_n_tokens a" "length ids = ba_get_n_tokens a" "nat (ns ! i) \<le> length (ids ! i)"
    using ba_okD(4) [OF ok] i by auto
  let ?n = "nat (ns ! i)"
  have t: "tok_ids (ba_batch a) i = take ?n (ids ! i)" by (simp add: tok_ids_def ns)
  have range: "0 \<le> ids ! i ! s \<and> ids ! i ! s < int LLAMA_MAX_SEQ" if "s < ?n" for s
  proof -
    have "ids ! i ! s \<in> set (take ?n (ids ! i))" using that ns(5) by (auto simp: in_set_conv_nth)
    then show ?thesis using ba_okD(7) [OF ok i] ba_okD(6) [OF ok] t by fastforce
  qed
  let ?f = "\<lambda>s cur. do { ids \<leftarrow> pget (lb_seq_id (ba_batch a)) i; id \<leftarrow> vget ids s; guard (seq_ok id); Some (insert id cur) }"
  have "\<exists>c. foldM ?f [0..<?n] {} = Some c \<and> c = set (take ?n (ids ! i))"
  proof (rule foldM_upt_rule [where P = "\<lambda>k c. c = set (take k (ids ! i))"])
    fix s c
    assume s: "s < ?n" and c: "c = set (take s (ids ! i))"
    have "set (take (Suc s) (ids ! i)) = insert (ids ! i ! s) c"
      using s ns(5) c by (simp add: take_Suc_conv_app_nth)
    then show "\<exists>c'. ?f s c = Some c' \<and> c' = set (take (Suc s) (ids ! i))"
      using s ns i range [OF s] by (simp add: pget_def seq_ok_def)
  qed simp
  then show ?thesis using ns i t by (simp add: ba_tok_set_def pget_def)
qed

lemma unq_number_ok:
  assumes "n \<le> LLAMA_MAX_SEQ"
  shows "unq_number n unq (replicate LLAMA_MAX_SEQ (- 1), []) =
    Some (map (\<lambda>s. if s < n \<and> int s \<in> unq then int (length (filter (\<lambda>t. int t \<in> unq) [0..<s])) else - 1) [0..<LLAMA_MAX_SEQ],
      filter (\<lambda>s. s \<in> unq) (map int [0..<n]))"
proof -
  let ?g = "\<lambda>k s. if s < k \<and> int s \<in> unq then int (length (filter (\<lambda>t. int t \<in> unq) [0..<s])) else - 1"
  let ?P = "\<lambda>k st. st = (map (?g k) [0..<LLAMA_MAX_SEQ], filter (\<lambda>s. s \<in> unq) (map int [0..<k]))"
  let ?f = "\<lambda>s (idx, ids). if int s \<in> unq then do { idx \<leftarrow> vset idx s (int (length ids)); Some (idx, ids @ [int s]) }
      else do { guard (s < LLAMA_MAX_SEQ); Some (idx, ids) }"
  have "\<exists>st. foldM ?f [0..<n] (replicate LLAMA_MAX_SEQ (- 1), []) = Some st \<and> ?P n st"
  proof (rule foldM_upt_rule [where P = ?P])
    show "?P 0 (replicate LLAMA_MAX_SEQ (- 1), [])" by (auto intro: nth_equalityI)
  next
    fix k st
    assume k: "k < n" and st: "?P k st"
    have kl: "k < LLAMA_MAX_SEQ" using k assms by simp
    have len: "length (filter (\<lambda>s. s \<in> unq) (map int [0..<k])) = length (filter (\<lambda>t. int t \<in> unq) [0..<k])"
      by (simp add: filter_map o_def)
    have upd: "(map (?g k) [0..<LLAMA_MAX_SEQ])[k := ?g (Suc k) k] = map (?g (Suc k)) [0..<LLAMA_MAX_SEQ]"
      by (rule nth_equalityI) (use kl in \<open>auto simp: nth_list_update less_Suc_eq\<close>)
    show "\<exists>st'. ?f k st = Some st' \<and> ?P (Suc k) st'"
    proof (cases "int k \<in> unq")
      case True
      then show ?thesis using st kl len upd by (simp add: vset_def)
    next
      case False
      then have "map (?g (Suc k)) [0..<LLAMA_MAX_SEQ] = map (?g k) [0..<LLAMA_MAX_SEQ]"
        by (auto simp: less_Suc_eq)
      then show ?thesis using st kl False by simp
    qed
  qed
  then show ?thesis by (simp add: unq_number_def)
qed

text \<open>The micro-batch of the tokens \<open>idxs\<close>.\<close>

definition ub_of :: "batch_allocr \<Rightarrow> nat list \<Rightarrow> nat \<Rightarrow> bool \<Rightarrow> llama_ubatch \<Rightarrow> bool" where
  "ub_of a idxs n_seqs eq ub \<longleftrightarrow> (let b = ba_batch a; n = ba_get_n_tokens a in
     ub_equal_seqs ub = eq \<and> ub_n_tokens ub = length idxs \<and> ub_n_seqs ub = n_seqs \<and>
     ub_n_seq_tokens ub = length idxs div n_seqs \<and>
     ub_token ub = map_option (\<lambda>ts. map ((!) ts) idxs) (lb_token b) \<and>
     ub_pos ub = concat (map (\<lambda>j. map (\<lambda>i. the (lb_pos b) ! (j * n + i)) idxs) [0..<n_pos_of a]) \<and>
     ub_n_seq_id ub = map (\<lambda>i. the (lb_n_seq_id b) ! i) idxs \<and>
     ub_seq_id ub = map (\<lambda>i. the (lb_seq_id b) ! i) idxs \<and>
     ub_output ub = map (\<lambda>i. the (lb_logits b) ! i) idxs \<and>
     ub_seq_id_unq ub = filter (\<lambda>s. \<exists>i \<in> set idxs. s \<in> tok_set a i) (map int [0..<ba_n_seq_max a]) \<and>
     ub_n_seqs_unq ub = length (ub_seq_id_unq ub))"

lemma ub_of_static:
  "ub_of (ba_mark xs a) idxs k e ub = ub_of a idxs k e ub" "ub_of (a\<lparr>ba_out_ids := x\<rparr>) idxs k e ub = ub_of a idxs k e ub"
  by (simp_all add: ub_of_def Let_def n_pos_of_def tok_set_def ba_get_n_tokens_def)

lemma ub_rows_ok:
  assumes "length es = n * m" "\<forall>i \<in> set idxs. i < n"
  shows "ub_rows m es idxs = Some (concat (map (\<lambda>i. take m (drop (i * m) es)) idxs))"
proof -
  have "i * m + m \<le> length es" if "i \<in> set idxs" for i
  proof -
    have "Suc i \<le> n" using that assms(2) by auto
    then have "Suc i * m \<le> n * m" by (rule mult_le_mono1)
    then show ?thesis using assms(1) by simp
  qed
  then have "mapM (\<lambda>idx. do { guard (idx * m + m \<le> length es); Some (take m (drop (idx * m) es)) }) idxs =
      Some (map (\<lambda>i. take m (drop (i * m) es)) idxs)"
    by (intro mapM_ok) simp
  then show ?thesis by (simp add: ub_rows_def)
qed

lemma zip_filter_fst: "map fst (filter (\<lambda>(i, y). y \<noteq> 0) (zip xs (map f xs))) = filter (\<lambda>i. f i \<noteq> 0) xs"
  by (induction xs) auto

lemma product_concat: "map f (List.product js is) = concat (map (\<lambda>j. map (\<lambda>i. f (j, i)) is) js)"
  by (induction js) simp_all

lemma ba_ubatch_add_ok:
  assumes ok: "ba_ok a" and idxs: "\<forall>i \<in> set idxs. i < ba_get_n_tokens a" and k: "k \<noteq> 0" "length idxs mod k = 0"
  obtains ub where "ba_ubatch_add idxs k e a =
      Some (ub, a\<lparr>ba_out_ids := ba_out_ids a @ filter (tok_out (ba_batch a)) idxs\<rparr>)" and "ub_of a idxs k e ub"
proof -
  let ?b = "ba_batch a" and ?n = "ba_get_n_tokens a"
  obtain ps where ps: "lb_pos ?b = Some ps" "length ps = n_pos_of a * ?n" using ba_okD(3) [OF ok] by blast
  obtain ns ids where ns: "lb_n_seq_id ?b = Some ns" "lb_seq_id ?b = Some ids" "length ns = ?n" "length ids = ?n"
    using ba_okD(4) [OF ok] by blast
  obtain ls where ls: "lb_logits ?b = Some ls" "length ls = ?n" using ba_okD(5) [OF ok] by blast
  define token where "token = map_option (\<lambda>ts. map ((!) ts) idxs) (lb_token ?b)"
  have token: "(case lb_token ?b of None \<Rightarrow> Some None | Some ts \<Rightarrow> map_option Some (mapM (vget ts) idxs)) = Some token"
  proof (cases "lb_token ?b")
    case (Some ts)
    then have "mapM (vget ts) idxs = Some (map ((!) ts) idxs)"
      using idxs ba_okD(1) [OF ok] by (intro mapM_ok) simp
    then show ?thesis by (simp add: Some token_def)
  qed (simp add: token_def)
  define embd where "embd = map_option (\<lambda>es. concat (map (\<lambda>i. take (ba_n_embd a) (drop (i * ba_n_embd a) es)) idxs)) (lb_embd ?b)"
  have embd: "(case lb_embd ?b of None \<Rightarrow> Some None | Some es \<Rightarrow> map_option Some (ub_rows (ba_n_embd a) es idxs)) = Some embd"
    using ub_rows_ok [OF ba_okD(2) [OF ok] idxs] by (cases "lb_embd ?b") (simp_all add: embd_def)
  have npos: "(if lb_embd ?b \<noteq> None then ba_n_pos_per_embd a else 1) = n_pos_of a" by (simp add: n_pos_of_def)
  have "j * ?n + i < length ps" if "j < n_pos_of a" "i \<in> set idxs" for i j
  proof -
    have "Suc j \<le> n_pos_of a" using that by simp
    then have "Suc j * ?n \<le> n_pos_of a * ?n" by (rule mult_le_mono1)
    then show ?thesis using idxs that(2) ps(2) by fastforce
  qed
  then have "mapM (\<lambda>(j, i). pget (lb_pos ?b) (j * ?n + i)) (List.product [0..<n_pos_of a] idxs) =
      Some (map (\<lambda>(j, i). ps ! (j * ?n + i)) (List.product [0..<n_pos_of a] idxs))"
    by (intro mapM_ok) (auto simp: pget_def ps)
  then have pos: "mapM (\<lambda>(j, i). pget (lb_pos ?b) (j * nat (lb_n_tokens ?b) + i)) (List.product [0..<n_pos_of a] idxs) =
      Some (map (\<lambda>(j, i). ps ! (j * ?n + i)) (List.product [0..<n_pos_of a] idxs))"
    by (simp add: ba_get_n_tokens_def)
  have fields: "mapM (pget (lb_n_seq_id ?b)) idxs = Some (map ((!) ns) idxs)" "mapM (pget (lb_seq_id ?b)) idxs = Some (map ((!) ids) idxs)"
    "mapM (pget (lb_logits ?b)) idxs = Some (map ((!) ls) idxs)"
    by (intro mapM_ok; use idxs ns ls in \<open>simp add: pget_def\<close>)+
  have "\<exists>u. foldM (\<lambda>idx unq. do { cur \<leftarrow> ba_tok_set ?b idx; Some (unq \<union> cur) }) idxs {} = Some u \<and> u = (\<Union>i \<in> set idxs. tok_set a i)"
  proof (rule foldM_rule [where P = "\<lambda>ys u. u = (\<Union>i \<in> set ys. tok_set a i)"])
    fix ys i u
    assume "\<exists>zs. idxs = ys @ i # zs" and u: "u = (\<Union>i \<in> set ys. tok_set a i)"
    then have "i < ?n" using idxs by auto
    then show "\<exists>u'. (do { cur \<leftarrow> ba_tok_set ?b i; Some (u \<union> cur) }) = Some u' \<and> u' = (\<Union>i \<in> set (ys @ [i]). tok_set a i)"
      using u ba_tok_set_ok [OF ok] ba_okD(9) [OF ok] by (auto simp: tok_set_def)
  qed simp
  then have unq: "foldM (\<lambda>idx unq. do { cur \<leftarrow> ba_tok_set ?b idx; Some (unq \<union> cur) }) idxs {} = Some (\<Union>i \<in> set idxs. tok_set a i)"
    by blast
  have out: "map fst (filter (\<lambda>(i, y). y \<noteq> 0) (zip idxs (map ((!) ls) idxs))) = filter (tok_out ?b) idxs"
    unfolding zip_filter_fst by (rule filter_cong) (simp_all add: tok_out_def ls)
  define ub where "ub = fst (the (ba_ubatch_add idxs k e a))"
  have run: "ba_ubatch_add idxs k e a = Some (ub, a\<lparr>ba_out_ids := ba_out_ids a @ filter (tok_out ?b) idxs\<rparr>)" "ub_of a idxs k e ub"
    unfolding ub_def ba_ubatch_add_def Let_def npos token embd pos fields unq unq_number_ok [OF ba_okD(6) [OF ok]] bind.bind_lunit
      prod.case out ub_of_def
    by (simp_all add: k token_def ps ns ls product_concat)
  show thesis by (rule that [OF run])
qed

end
