(* ===== verification/BatchSplit.thy ===== *)
theory BatchSplit
  imports BatchInv RecurrentSlot
begin

text \<open>
  The three ways to split a batch share a contract: a call takes some unused tokens, marks them
  and builds their micro-batch, and returns the empty micro-batch when none is left.  \<open>splitter\<close>
  states the contract and proves that the loop of \<open>init_batch\<close> over any such function ends with
  every token in exactly one micro-batch.
\<close>

definition unused :: "batch_allocr \<Rightarrow> nat set" where
  "unused a = {i. i < ba_get_n_tokens a \<and> \<not> ba_used a ! i}"

lemma unused_fin [simp]: "finite (unused a)"
  by (simp add: unused_def)

lemma unused_mark: "ba_ok a \<Longrightarrow> unused (ba_mark idxs a) = unused a - set idxs"
  using ba_okD(11) [of a] by (auto simp: unused_def ba_mark_used)

lemma unused_out [simp]: "unused (a\<lparr>ba_out_ids := x\<rparr>) = unused a"
  by (simp add: unused_def ba_get_n_tokens_def)

lemma ba_mark_out: "ba_mark xs (a\<lparr>ba_out_ids := x\<rparr>) = (ba_mark xs a)\<lparr>ba_out_ids := x\<rparr>"
  by (simp add: ba_mark_def)

text \<open>One micro-batch: distinct unused tokens in \<open>k\<close> sequence sets of equal length.\<close>

definition part_ok :: "batch_allocr \<Rightarrow> nat list \<Rightarrow> nat \<Rightarrow> bool" where
  "part_ok a idxs k \<longleftrightarrow> idxs \<noteq> [] \<and> distinct idxs \<and> set idxs \<subseteq> unused a \<and> k \<noteq> 0 \<and> length idxs mod k = 0"

text \<open>What a split of the whole batch is: the parts, in the order they were taken.\<close>

definition split_done :: "(nat list \<Rightarrow> nat \<Rightarrow> bool \<Rightarrow> bool) \<Rightarrow> batch_allocr \<Rightarrow> (nat list \<times> nat \<times> bool) list \<Rightarrow> llama_ubatch list \<Rightarrow> bool" where
  "split_done good a parts ubs \<longleftrightarrow>
     list_all2 (\<lambda>(idxs, k, e) ub. idxs \<noteq> [] \<and> good idxs k e \<and> ub_of a idxs k e ub) parts ubs \<and>
     distinct (concat (map fst parts)) \<and> set (concat (map fst parts)) = unused a"

locale splitter =
  fixes split :: "batch_allocr \<Rightarrow> (llama_ubatch \<times> batch_allocr) option"
    and inv :: "batch_allocr \<Rightarrow> bool"
    and good :: "batch_allocr \<Rightarrow> nat list \<Rightarrow> nat \<Rightarrow> bool \<Rightarrow> bool"
  assumes split_empty: "ba_ok a \<Longrightarrow> inv a \<Longrightarrow> unused a = {} \<Longrightarrow> split a = Some (ub_none, a)"
    and split_some: "ba_ok a \<Longrightarrow> inv a \<Longrightarrow> unused a \<noteq> {} \<Longrightarrow> \<exists>idxs k e. part_ok a idxs k \<and> good a idxs k e \<and>
      split a = ba_ubatch_add idxs k e (ba_mark idxs a) \<and> inv (ba_mark idxs a)"
    and inv_out: "inv (a\<lparr>ba_out_ids := x\<rparr>) = inv a"
    and good_static: "good (a\<lparr>ba_out_ids := x\<rparr>) = good a" "good (ba_mark xs a) = good a"
begin

text \<open>One call on a batch with unused tokens.\<close>

lemma split_step:
  assumes "ba_ok a" "inv a" "unused a \<noteq> {}"
  obtains idxs k e ub a' where "split a = Some (ub, a')" "ub_n_tokens ub = length idxs" "ub_of a idxs k e ub" "idxs \<noteq> []"
    "good a idxs k e" "distinct idxs" "set idxs \<subseteq> unused a"
    "a' = (ba_mark idxs a)\<lparr>ba_out_ids := ba_out_ids a @ filter (tok_out (ba_batch a)) idxs\<rparr>"
    "ba_ok a'" "inv a'" "unused a' = unused a - set idxs" "good a' = good a"
proof -
  obtain idxs k e where p: "part_ok a idxs k" "good a idxs k e" "split a = ba_ubatch_add idxs k e (ba_mark idxs a)"
    "inv (ba_mark idxs a)"
    using split_some [OF assms] by blast
  have in_range: "\<forall>i \<in> set idxs. i < ba_get_n_tokens (ba_mark idxs a)" using p(1) by (auto simp: part_ok_def unused_def)
  obtain ub where ub: "ba_ubatch_add idxs k e (ba_mark idxs a) = Some (ub, (ba_mark idxs a)\<lparr>ba_out_ids :=
      ba_out_ids (ba_mark idxs a) @ filter (tok_out (ba_batch (ba_mark idxs a))) idxs\<rparr>)" "ub_of (ba_mark idxs a) idxs k e ub"
    by (rule ba_ubatch_add_ok [OF ba_ok_mark [OF assms(1)] in_range]) (use p(1) in \<open>auto simp: part_ok_def\<close>)
  define a' where "a' = (ba_mark idxs a)\<lparr>ba_out_ids := ba_out_ids a @ filter (tok_out (ba_batch a)) idxs\<rparr>"
  have of: "ub_of a idxs k e ub" using ub(2) by (simp only: ub_of_static)
  then have n: "ub_n_tokens ub = length idxs" by (simp add: ub_of_def Let_def)
  have run: "split a = Some (ub, a')" using p(3) ub(1) by (simp add: a'_def)
  have rest: "ba_ok a'" "inv a'" "unused a' = unused a - set idxs" "good a' = good a"
    unfolding a'_def ba_ok_out inv_out unused_out good_static using ba_ok_mark [OF assms(1)] p(4) unused_mark [OF assms(1)] by auto
  have part: "idxs \<noteq> []" "distinct idxs" "set idxs \<subseteq> unused a" using p(1) by (simp_all add: part_ok_def)
  show thesis by (rule that [OF run n of part(1) p(2) part(2,3) a'_def rest])
qed

lemma split_loop_gen:
  assumes "ba_ok a" "inv a"
  shows "\<exists>parts ubs a'. split_loop split ubs0 a = Some (ubs0 @ ubs, a') \<and> split_done (good a) a parts ubs \<and>
    unused a' = {} \<and> ba_batch a' = ba_batch a \<and> ba_n_used a' = ba_n_used a + card (unused a) \<and>
    ba_out_ids a' = ba_out_ids a @ filter (tok_out (ba_batch a)) (concat (map fst parts))"
  using assms
proof (induction "card (unused a)" arbitrary: a ubs0 rule: less_induct)
  case less
  show ?case
  proof (cases "unused a = {}")
    case True
    then have "split_loop split ubs0 a = Some (ubs0, a)"
      using split_empty [OF less.prems] by (subst split_loop.simps) (simp add: ub_none_def)
    then show ?thesis using True by (intro exI [of _ "[]"] exI [of _ a]) (simp add: split_done_def)
  next
    case False
    obtain idxs k e ub a1 where s: "split a = Some (ub, a1)" "ub_n_tokens ub = length idxs" "ub_of a idxs k e ub" "idxs \<noteq> []"
      "good a idxs k e" "distinct idxs" "set idxs \<subseteq> unused a"
      "a1 = (ba_mark idxs a)\<lparr>ba_out_ids := ba_out_ids a @ filter (tok_out (ba_batch a)) idxs\<rparr>"
      "ba_ok a1" "inv a1" "unused a1 = unused a - set idxs" "good a1 = good a"
      by (rule split_step [OF less.prems False])
    have card: "card (unused a1) = card (unused a) - length idxs" "length idxs \<le> card (unused a)"
      using s(6,7) card_mono [OF unused_fin s(7)] by (simp_all add: s(11) card_Diff_subset distinct_card)
    then have "card (unused a1) < card (unused a)" using s(4) by (cases idxs) auto
    from less.hyps [OF this s(9,10), of "ubs0 @ [ub]"] obtain parts ubs a' where
      r: "split_loop split (ubs0 @ [ub]) a1 = Some ((ubs0 @ [ub]) @ ubs, a')" "split_done (good a1) a1 parts ubs" "unused a' = {}"
      "ba_batch a' = ba_batch a1" "ba_n_used a' = ba_n_used a1 + card (unused a1)"
      "ba_out_ids a' = ba_out_ids a1 @ filter (tok_out (ba_batch a1)) (concat (map fst parts))"
      by blast
    have run: "split_loop split ubs0 a = Some (ubs0 @ ub # ubs, a')"
      using s(1,2,4) r(1) by (subst split_loop.simps) simp
    have static: "ub_of a1 i k e u = ub_of a i k e u" for i k e u by (simp add: s(8) ub_of_static)
    have "split_done (good a) a ((idxs, k, e) # parts) (ub # ubs)"
      using r(2) s(3-7,11,12) by (auto simp: split_done_def static)
    moreover have "ba_n_used a' = ba_n_used a + card (unused a)" using r(5) card by (simp add: s(8))
    ultimately show ?thesis using run r(3,4,6) by (intro exI [of _ "(idxs, k, e) # parts"] exI [of _ "ub # ubs"] exI [of _ a']) (simp add: s(8))
  qed
qed

end

subsection \<open>\<open>split_simple\<close>\<close>

lemma ba_first_unused_ok:
  assumes ok: "ba_ok a"
  shows "\<exists>j. ba_first_unused a = Some j \<and> (\<forall>i < j. ba_used a ! i) \<and> j \<le> ba_get_n_tokens a \<and>
    (j < ba_get_n_tokens a \<longrightarrow> j \<in> unused a) \<and> (unused a = {} \<longleftrightarrow> j = ba_get_n_tokens a)"
proof -
  let ?n = "ba_get_n_tokens a"
  have len: "length (ba_used a) = ?n" by (rule ba_okD(11) [OF ok])
  obtain j where j: "ba_first_unused a = Some j"
    using scanM_total [of 0 ?n "\<lambda>i. vget (ba_used a) i"] by (auto simp: ba_first_unused_def len)
  then have sc: "scanM (\<lambda>i. vget (ba_used a) i) ?n 0 = Some j" by (simp add: ba_first_unused_def len)
  note sp = scanM_spec [OF sc]
  have "\<forall>i < j. ba_used a ! i" "j \<le> ?n" "j < ?n \<longrightarrow> \<not> ba_used a ! j" using sp len by (auto simp: vget_eq_Some)
  moreover have "unused a = {} \<longleftrightarrow> j = ?n"
    using calculation by (auto simp: unused_def) (metis le_neq_implies_less)
  ultimately show ?thesis using j by (auto simp: unused_def)
qed

lemma simple_loop_ok:
  "ba_ok a \<Longrightarrow> cur < ba_get_n_tokens a \<Longrightarrow> \<exists>m. simple_loop nb cur idxs a = Some (idxs @ [cur..<cur + m], ba_mark [cur..<cur + m] a) \<and>
    0 < m \<and> cur + m \<le> ba_get_n_tokens a \<and> length idxs + m \<le> max (Suc (length idxs)) nb"
proof (induction nb cur idxs a rule: simple_loop.induct)
  case (1 nb cur idxs a)
  let ?n = "ba_get_n_tokens a"
  let ?a = "ba_mark [cur] a"
  have len: "length (ba_used a) = ?n" by (rule ba_okD(11) [OF 1(2)])
  have use: "ba_use cur a = Some ?a" using 1(3) len by (intro ba_use_mark) simp
  note eq = simple_loop.simps [of nb cur idxs a]
  show ?case
  proof (cases "Suc cur \<ge> ?n \<or> length (idxs @ [cur]) \<ge> nb")
    case True
    then have "simple_loop nb cur idxs a = Some (idxs @ [cur], ?a)" using 1(3) use len by (subst eq) auto
    then show ?thesis using 1(3) by (intro exI [of _ 1]) auto
  next
    case False
    then have rec: "simple_loop nb cur idxs a = simple_loop nb (Suc cur) (idxs @ [cur]) ?a" using 1(3) use len by (subst eq) auto
    have "\<exists>m. simple_loop nb (Suc cur) (idxs @ [cur]) ?a = Some ((idxs @ [cur]) @ [Suc cur..<Suc cur + m], ba_mark [Suc cur..<Suc cur + m] ?a) \<and>
        0 < m \<and> Suc cur + m \<le> ba_get_n_tokens ?a \<and> length (idxs @ [cur]) + m \<le> max (Suc (length (idxs @ [cur]))) nb"
      by (rule 1(1)) (use 1(2,3) use len False ba_ok_mark in auto)
    then obtain m where m: "simple_loop nb (Suc cur) (idxs @ [cur]) ?a = Some ((idxs @ [cur]) @ [Suc cur..<Suc cur + m], ba_mark [Suc cur..<Suc cur + m] ?a)"
      "0 < m" "Suc cur + m \<le> ?n" "Suc (length idxs) + m \<le> max (Suc (Suc (length idxs))) nb"
      by auto
    have split: "[cur..<cur + Suc m] = [cur] @ [Suc cur..<Suc cur + m]" by (simp add: upt_rec)
    show ?thesis
      by (rule exI [of _ "Suc m"]) (use rec m False in \<open>simp only: split ba_mark_append, auto\<close>)
  qed
qed

text \<open>Under \<open>split_simple\<close> alone the used tokens are a prefix of the batch.\<close>

definition prefix_used :: "batch_allocr \<Rightarrow> bool" where
  "prefix_used a \<longleftrightarrow> (\<exists>p. unused a = {i. p \<le> i \<and> i < ba_get_n_tokens a})"

definition simple_good :: "nat \<Rightarrow> batch_allocr \<Rightarrow> nat list \<Rightarrow> nat \<Rightarrow> bool \<Rightarrow> bool" where
  "simple_good nb a idxs k e \<longleftrightarrow> length idxs \<le> max 1 nb \<and> k = length idxs \<and> \<not> e \<and> (\<exists>i. idxs = [i..<i + length idxs])"

interpretation simple: splitter "ba_split_simple nb" prefix_used "simple_good nb" for nb
proof (unfold_locales, goal_cases)
  case (1 a)
  then show ?case using ba_first_unused_ok [OF 1(1)] ba_okD(11) [OF 1(1)] by (auto simp: ba_split_simple_def)
next
  case (2 a)
  let ?n = "ba_get_n_tokens a"
  have len: "length (ba_used a) = ?n" by (rule ba_okD(11) [OF 2(1)])
  obtain j where j: "ba_first_unused a = Some j" "\<forall>i < j. ba_used a ! i" "j < ?n" "j \<in> unused a"
    using ba_first_unused_ok [OF 2(1)] 2(3) by fastforce
  obtain m where m: "simple_loop nb j [] a = Some ([j..<j + m], ba_mark [j..<j + m] a)" "0 < m" "j + m \<le> ?n" "m \<le> max 1 nb"
    using simple_loop_ok [OF 2(1) j(3), of nb "[]"] by auto
  obtain p where p: "unused a = {i. p \<le> i \<and> i < ?n}" using 2(2) by (auto simp: prefix_used_def)
  have "p \<le> j" using j(4) p by simp
  then have "p \<in> unused a" using p j(3) by simp
  then have "\<not> p < j" using j(2) by (auto simp: unused_def)
  then have "p = j" using \<open>p \<le> j\<close> by simp
  then have u: "unused a = {i. j \<le> i \<and> i < ?n}" using p by simp
  have "part_ok a [j..<j + m] m" using u m(2,3) by (simp add: part_ok_def subset_iff)
  moreover have "simple_good nb a [j..<j + m] m False" using m(4) by (auto simp: simple_good_def)
  moreover have "ba_split_simple nb a = ba_ubatch_add [j..<j + m] m False (ba_mark [j..<j + m] a)"
    using j(1,3) m(1) len by (simp add: ba_split_simple_def)
  moreover have "prefix_used (ba_mark [j..<j + m] a)"
    unfolding prefix_used_def unused_mark [OF 2(1)] ba_mark_simps u by (rule exI [of _ "j + m"]) auto
  ultimately show ?case by blast
next
  case (3 a x)
  then show ?case by (simp add: prefix_used_def ba_get_n_tokens_def)
next
  case (4 a x)
  then show ?case by (simp add: simple_good_def fun_eq_iff)
next
  case (5 xs a)
  then show ?case by (simp add: simple_good_def fun_eq_iff)
qed

subsection \<open>\<open>split_seq\<close>\<close>

text \<open>The tokens go forward in the batch, and each sequence set is contained in the one before it.\<close>

definition seq_chain :: "batch_allocr \<Rightarrow> nat list \<Rightarrow> bool" where
  "seq_chain a idxs \<longleftrightarrow> sorted_wrt (\<lambda>i j. i < j \<and> tok_set a j \<subseteq> tok_set a i) idxs"

definition seq_good :: "nat \<Rightarrow> batch_allocr \<Rightarrow> nat list \<Rightarrow> nat \<Rightarrow> bool \<Rightarrow> bool" where
  "seq_good nb a idxs k e \<longleftrightarrow> length idxs \<le> max 1 nb \<and> k = 1 \<and> e \<and> seq_chain a idxs"

lemma seq_skip_ok:
  assumes "ba_ok a" "i < ba_get_n_tokens a"
  shows "seq_skip a cset i = Some (i \<notin> unused a \<or> \<not> tok_set a i \<subseteq> cset)"
  using assms ba_okD(8,11) [OF assms(1)] by (auto simp: seq_skip_def unused_def tok_set_def)

lemma seq_loop_ok:
  "ba_ok a \<Longrightarrow> cur \<in> unused a \<Longrightarrow> cset = tok_set a cur \<Longrightarrow>
    \<exists>ms. seq_loop nb cur cset idxs a = Some (idxs @ cur # ms, ba_mark (cur # ms) a) \<and> set ms \<subseteq> unused a \<and>
      seq_chain a (cur # ms) \<and> length idxs + Suc (length ms) \<le> max (Suc (length idxs)) nb"
proof (induction nb cur cset idxs a rule: seq_loop.induct)
  case (1 nb cur cset idxs a)
  let ?n = "ba_get_n_tokens a"
  let ?a = "ba_mark [cur] a"
  have len: "length (ba_used a) = ?n" by (rule ba_okD(11) [OF 1(2)])
  have cur: "cur < ?n" using 1(3) by (simp add: unused_def)
  have use: "ba_use cur a = Some ?a" using cur len by (intro ba_use_mark) simp
  have ok: "ba_ok ?a" by (rule ba_ok_mark [OF 1(2)])
  note eq = seq_loop.simps [of nb cur cset idxs a]
  show ?case
  proof (cases "length (idxs @ [cur]) \<ge> nb")
    case True
    then have "seq_loop nb cur cset idxs a = Some (idxs @ [cur], ?a)" using use by (subst eq) auto
    then show ?thesis by (intro exI [of _ "[]"]) (auto simp: seq_chain_def)
  next
    case False
    obtain j where j: "scanM (seq_skip ?a cset) ?n (Suc cur) = Some j"
      using scanM_total [of "Suc cur" ?n "seq_skip ?a cset"] seq_skip_ok [OF ok] by auto
    note sp = scanM_spec [OF j]
    have jn: "Suc cur \<le> j" "j \<le> ?n" using sp cur by auto
    show ?thesis
    proof (cases "j = ?n")
      case True
      then have "seq_loop nb cur cset idxs a = Some (idxs @ [cur], ?a)" using use False j by (subst eq) auto
      then show ?thesis by (intro exI [of _ "[]"]) (auto simp: seq_chain_def)
    next
      case more: False
      then have "seq_skip ?a cset j = Some False" using sp jn by simp
      then have ju: "j \<in> unused ?a" "tok_set a j \<subseteq> cset" using seq_skip_ok [OF ok, of j cset] jn more by (auto simp: tok_set_def)
      have t: "vget (ba_seq_set ?a) j = Some (tok_set ?a j)" using ba_okD(8) [OF 1(2)] jn more by (simp add: tok_set_def)
      have rec: "seq_loop nb cur cset idxs a = seq_loop nb j (tok_set ?a j) (idxs @ [cur]) ?a"
        using use False j more t by (subst eq) auto
      have "\<exists>ms. seq_loop nb j (tok_set ?a j) (idxs @ [cur]) ?a = Some ((idxs @ [cur]) @ j # ms, ba_mark (j # ms) ?a) \<and>
          set ms \<subseteq> unused ?a \<and> seq_chain ?a (j # ms) \<and> length (idxs @ [cur]) + Suc (length ms) \<le> max (Suc (length (idxs @ [cur]))) nb"
        by (rule 1(1) [OF use False _ _ _ ok ju(1) refl]) (use j more t in auto)
      then obtain ms where ms: "seq_loop nb j (tok_set ?a j) (idxs @ [cur]) ?a = Some (idxs @ cur # j # ms, ba_mark (j # ms) ?a)"
        "set ms \<subseteq> unused ?a" "seq_chain ?a (j # ms)" "Suc (length idxs) + Suc (length ms) \<le> max (Suc (Suc (length idxs))) nb"
        by auto
      have chain: "seq_chain a (cur # j # ms)"
        using ms(3) jn ju(2) 1(4) by (auto simp: seq_chain_def tok_set_def)
      have "ba_mark (cur # j # ms) a = ba_mark (j # ms) ?a" using ba_mark_append [of "[cur]" "j # ms" a] by simp
      then show ?thesis
        using rec ms ju(1) chain False by (intro exI [of _ "j # ms"]) (auto simp: unused_mark [OF 1(2)])
    qed
  qed
qed

interpretation seqs: splitter "ba_split_seq nb" "\<lambda>_. True" "seq_good nb" for nb
proof (unfold_locales, goal_cases)
  case (1 a)
  then show ?case using ba_first_unused_ok [OF 1(1)] ba_okD(11) [OF 1(1)] by (auto simp: ba_split_seq_def)
next
  case (2 a)
  let ?n = "ba_get_n_tokens a"
  have len: "length (ba_used a) = ?n" by (rule ba_okD(11) [OF 2(1)])
  obtain j where j: "ba_first_unused a = Some j" "j < ?n" "j \<in> unused a"
    using ba_first_unused_ok [OF 2(1)] 2(3) by fastforce
  obtain ms where ms: "seq_loop nb j (tok_set a j) [] a = Some (j # ms, ba_mark (j # ms) a)" "set ms \<subseteq> unused a"
    "seq_chain a (j # ms)" "Suc (length ms) \<le> max 1 nb"
    using seq_loop_ok [OF 2(1) j(3) refl, of nb "[]"] by auto
  have "vget (ba_seq_set a) j = Some (tok_set a j)" using ba_okD(8) [OF 2(1)] j(2) by (simp add: tok_set_def)
  then have "ba_split_seq nb a = ba_ubatch_add (j # ms) 1 True (ba_mark (j # ms) a)"
    using j(1,2) ms(1) len by (simp add: ba_split_seq_def)
  moreover have "sorted_wrt (<) (j # ms)"
    by (rule sorted_wrt_mono_rel [OF _ ms(3) [unfolded seq_chain_def]]) simp
  then have "distinct (j # ms)" by (simp only: strict_sorted_iff)
  then have "part_ok a (j # ms) 1" using j(3) ms(2) by (auto simp: part_ok_def)
  moreover have "seq_good nb a (j # ms) 1 True" using ms(3,4) by (simp add: seq_good_def)
  ultimately show ?case by blast
qed (simp_all add: seq_good_def seq_chain_def tok_set_def fun_eq_iff)

end
