(* ===== verification/BatchEqual.thy ===== *)
theory BatchEqual
  imports BatchSplit
begin

text \<open>
  \<open>split_equal\<close> fulfils the contract of \<open>splitter\<close> too: it takes tokens of several disjoint
  sequence sets, the same number from each.
\<close>

text \<open>The used tokens of every sequence set come first in \<open>seq_set_map\<close>.\<close>

definition set_toks :: "batch_allocr \<Rightarrow> llama_seq_id set \<Rightarrow> nat list" where
  "set_toks a t = filter (\<lambda>i. tok_set a i = t) [0..<ba_get_n_tokens a]"

definition free_at :: "batch_allocr \<Rightarrow> llama_seq_id set \<Rightarrow> nat \<Rightarrow> bool" where
  "free_at a t c \<longleftrightarrow> c \<le> length (set_toks a t) \<and> (\<forall>j < length (set_toks a t). ba_used a ! (set_toks a t ! j) \<longleftrightarrow> j < c)"

definition eq_inv :: "batch_allocr \<Rightarrow> bool" where
  "eq_inv a \<longleftrightarrow> (\<forall>t. \<exists>c. free_at a t c)"

lemma set_toks_map: "ba_ok a \<Longrightarrow> ba_seq_set_map a t = set_toks a t"
  using ba_okD(10) [of a t] by (simp add: set_toks_def tok_set_def)

lemma set_toks_static [simp]: "set_toks (ba_mark xs a) = set_toks a" "set_toks (a\<lparr>ba_out_ids := x\<rparr>) = set_toks a"
  by (simp_all add: set_toks_def tok_set_def ba_get_n_tokens_def fun_eq_iff)

lemma set_toks_nth:
  assumes "j < length (set_toks a t)"
  shows "set_toks a t ! j < ba_get_n_tokens a" and "tok_set a (set_toks a t ! j) = t"
  using nth_mem [OF assms] by (auto simp: set_toks_def)

lemma set_toks_distinct [simp]: "distinct (set_toks a t)"
  by (simp add: set_toks_def)

lemma set_toks_mem: "i < ba_get_n_tokens a \<Longrightarrow> \<exists>j < length (set_toks a (tok_set a i)). set_toks a (tok_set a i) ! j = i"
proof -
  assume "i < ba_get_n_tokens a"
  then have "i \<in> set (set_toks a (tok_set a i))" by (simp add: set_toks_def)
  then show ?thesis by (simp add: in_set_conv_nth)
qed

text \<open>Marking the next token of one set moves that set on by one and leaves the others.\<close>

lemma free_at_mark:
  assumes "ba_ok a" "free_at a t c" "c < length (set_toks a t)"
  shows "free_at (ba_mark [set_toks a t ! c] a) u d \<longleftrightarrow> (if u = t then d = Suc c else free_at a u d)"
proof -
  let ?x = "set_toks a t ! c"
  have len: "length (ba_used a) = ba_get_n_tokens a" by (rule ba_okD(11) [OF assms(1)])
  have used: "ba_used (ba_mark [?x] a) ! (set_toks a u ! j) = (set_toks a u ! j = ?x \<or> ba_used a ! (set_toks a u ! j))"
    if "j < length (set_toks a u)" for j
    using set_toks_nth(1) [OF that] len by (simp add: ba_mark_used)
  show ?thesis
  proof (cases "u = t")
    case False
    then have "set_toks a u ! j \<noteq> ?x" if "j < length (set_toks a u)" for j
      using set_toks_nth(2) [OF that] set_toks_nth(2) [OF assms(3)] by auto
    then show ?thesis using False used by (auto simp: free_at_def)
  next
    case True
    have "set_toks a t ! j = ?x \<longleftrightarrow> j = c" if "j < length (set_toks a t)" for j
      using that assms(3) by (simp add: nth_eq_iff_index_eq)
    then have m: "ba_used (ba_mark [?x] a) ! (set_toks a t ! j) \<longleftrightarrow> j < Suc c" if "j < length (set_toks a t)" for j
      using used that assms(2) True by (auto simp: free_at_def less_Suc_eq)
    show ?thesis
    proof
      assume d: "free_at (ba_mark [?x] a) u d"
      have "d = Suc c"
      proof (rule ccontr)
        assume "d \<noteq> Suc c"
        then consider "d < Suc c" | "Suc c < d" by linarith
        then show False
        proof cases
          case 1
          then show False using d m [of d] assms(3) True by (auto simp: free_at_def)
        next
          case 2
          then show False using d m [of "Suc c"] True by (auto simp: free_at_def)
        qed
      qed
      then show "if u = t then d = Suc c else free_at a u d" using True by simp
    next
      assume "if u = t then d = Suc c else free_at a u d"
      then show "free_at (ba_mark [?x] a) u d" using True m assms(3) by (auto simp: free_at_def)
    qed
  qed
qed

lemma free_at_unused: "ba_ok a \<Longrightarrow> free_at a t c \<Longrightarrow> c < length (set_toks a t) \<Longrightarrow> set_toks a t ! c \<in> unused a"
  using set_toks_nth(1) by (auto simp: free_at_def unused_def)

lemma free_at_some: "ba_ok a \<Longrightarrow> free_at a (tok_set a i) c \<Longrightarrow> i \<in> unused a \<Longrightarrow> c < length (set_toks a (tok_set a i))"
  using set_toks_mem [of i a] by (fastforce simp: free_at_def unused_def)

lemma eq_start_ok:
  assumes "ba_ok a" "free_at a t c" "c < length (set_toks a t)"
  shows "eq_start (ba_used a) (ba_seq_set_map a t) = Some c"
proof -
  have gen: "eq_start u xs = Some c" if "\<forall>j < length xs. xs ! j < length u" "\<forall>j < length xs. u ! (xs ! j) \<longleftrightarrow> j < c" "c < length xs" for u xs c
    using that
  proof (induction xs arbitrary: c)
    case (Cons x xs)
    show ?case
    proof (cases c)
      case 0
      have "x < length u" "\<not> u ! x" using spec [OF Cons.prems(1), of 0] spec [OF Cons.prems(2), of 0] 0 by simp_all
      then show ?thesis using 0 by simp
    next
      case (Suc d)
      have "u ! x" "x < length u" using Cons.prems Suc by auto
      moreover have "eq_start u xs = Some d" by (rule Cons.IH) (use Cons.prems Suc in auto)
      ultimately show ?thesis using Suc by simp
    qed
  qed simp
  show ?thesis unfolding set_toks_map [OF assms(1)]
    by (rule gen) (use assms set_toks_nth ba_okD(11) [OF assms(1)] in \<open>auto simp: free_at_def\<close>)
qed

subsection \<open>The sequence sets that take part\<close>

definition sets_ok :: "batch_allocr \<Rightarrow> llama_seq_id set list \<Rightarrow> bool" where
  "sets_ok a sets \<longleftrightarrow> (\<forall>t \<in> set sets. \<exists>i \<in> unused a. tok_set a i = t) \<and>
     (\<forall>i < length sets. \<forall>j < length sets. i \<noteq> j \<longrightarrow> sets ! i \<inter> sets ! j = {})"

lemma sets_okE: "sets_ok a sets \<Longrightarrow> t \<in> set sets \<Longrightarrow> \<exists>i \<in> unused a. tok_set a i = t"
  by (simp add: sets_ok_def)

lemma tok_set_ne:
  assumes "ba_ok a" "i < ba_get_n_tokens a"
  shows "tok_set a i \<noteq> {}" and "\<exists>ids s. pget (lb_seq_id (ba_batch a)) i = Some ids \<and> vget ids 0 = Some s \<and> s \<in> tok_set a i"
proof -
  obtain ns ids where ns: "lb_n_seq_id (ba_batch a) = Some ns" "lb_seq_id (ba_batch a) = Some ids"
    "length ids = ba_get_n_tokens a" "0 < ns ! i" "nat (ns ! i) \<le> length (ids ! i)"
    using ba_okD(4) [OF assms(1)] assms(2) by auto
  have ne: "0 < length (ids ! i)" using ns(4,5) by linarith
  have ts: "tok_set a i = set (take (nat (ns ! i)) (ids ! i))"
    using ba_okD(9) [OF assms] ns(1,2) by (simp add: tok_set_def tok_ids_def)
  have "ids ! i ! 0 \<in> tok_set a i" unfolding ts using ns(4) ne by (auto simp: in_set_conv_nth intro!: exI [of _ 0])
  then show "tok_set a i \<noteq> {}" "\<exists>ids s. pget (lb_seq_id (ba_batch a)) i = Some ids \<and> vget ids 0 = Some s \<and> s \<in> tok_set a i"
    using ns assms(2) ne by (auto simp: pget_def)
qed

lemma sets_ok_snoc:
  assumes "sets_ok a sets" "i \<in> unused a" "\<forall>c \<in> set sets. c \<inter> tok_set a i = {}"
  shows "sets_ok a (sets @ [tok_set a i])"
  unfolding sets_ok_def
proof (intro conjI allI impI ballI)
  fix t
  assume "t \<in> set (sets @ [tok_set a i])"
  then show "\<exists>i \<in> unused a. tok_set a i = t" using assms(1,2) by (auto simp: sets_ok_def)
next
  fix x y
  assume "x < length (sets @ [tok_set a i])" "y < length (sets @ [tok_set a i])" "x \<noteq> y"
  then consider "x < length sets" "y < length sets" | "x < length sets" "y = length sets" | "x = length sets" "y < length sets"
    by (auto simp: less_Suc_eq)
  then show "(sets @ [tok_set a i]) ! x \<inter> (sets @ [tok_set a i]) ! y = {}"
    by cases (use assms(1,3) \<open>x \<noteq> y\<close> in \<open>auto simp: sets_ok_def nth_append\<close>)
qed

text \<open>Sequence ids that go up by one from set to set.\<close>

definition ids_from :: "llama_seq_id \<Rightarrow> llama_seq_id set list \<Rightarrow> bool" where
  "ids_from s0 sets \<longleftrightarrow> (\<forall>j < length sets. s0 + int j \<in> sets ! j)"

lemma ids_from_snoc: "ids_from s0 sets \<Longrightarrow> s0 + int (length sets) \<in> t \<Longrightarrow> ids_from s0 (sets @ [t])"
  by (auto simp: ids_from_def nth_append less_Suc_eq)

lemma eq_collect_ok:
  assumes ok: "ba_ok a"
  shows "sets_ok a sets \<Longrightarrow> \<forall>i \<in> set is. i < ba_get_n_tokens a \<Longrightarrow> i32_ok (last_id + 1) \<Longrightarrow> length sets \<le> nb \<Longrightarrow>
    (sequential \<Longrightarrow> sets \<noteq> [] \<Longrightarrow> \<exists>s0. ids_from s0 sets \<and> last_id + 1 = s0 + int (length sets)) \<Longrightarrow>
    \<exists>sets'. eq_collect a nb sequential is sets last_id = Some sets' \<and> sets_ok a sets' \<and> length sets' \<le> Suc nb \<and>
      (sequential \<longrightarrow> (\<exists>s0. ids_from s0 sets')) \<and>
      (sets \<noteq> [] \<longrightarrow> sets' \<noteq> []) \<and> ((\<exists>i \<in> set is. i \<in> unused a) \<longrightarrow> sets' \<noteq> []) \<and> ((\<forall>i \<in> set is. i \<notin> unused a) \<longrightarrow> sets' = sets)"
proof (induction "is" arbitrary: sets last_id)
  case (Cons i "is")
  have i: "i < ba_get_n_tokens a" and is_ok: "\<forall>j \<in> set is. j < ba_get_n_tokens a" using Cons.prems(2) by auto
  have u: "vget (ba_used a) i = Some (i \<notin> unused a)" using i ba_okD(11) [OF ok] by (simp add: unused_def)
  have t: "vget (ba_seq_set a) i = Some (tok_set a i)" using i ba_okD(8) [OF ok] by (simp add: tok_set_def)
  obtain ids s where s: "pget (lb_seq_id (ba_batch a)) i = Some ids" "vget ids 0 = Some s" "s \<in> tok_set a i"
    using tok_set_ne(2) [OF ok i] by blast
  have "0 \<le> s \<and> s < int LLAMA_MAX_SEQ"
    using s(3) ba_okD(6) [OF ok] ba_okD(7,9) [OF ok i] by (fastforce simp: tok_set_def)
  then have s_ok: "i32_ok (s + 1)" by (simp add: i32_ok_def INT32_MIN_def INT32_MAX_def)
  show ?case
  proof (cases "i \<in> unused a")
    case False
    then show ?thesis using Cons.IH [OF Cons.prems(1) is_ok Cons.prems(3,4,5)] u by auto
  next
    case True
    define D where "D = (\<forall>c \<in> set sets. c \<inter> tok_set a i = {})"
    define add where "add = (D \<and> (sequential \<longrightarrow> sets \<noteq> [] \<longrightarrow> s = last_id + 1))"
    have "(if sequential \<and> D \<and> sets \<noteq> [] then do {
          ids \<leftarrow> pget (lb_seq_id (ba_batch a)) i;
          s0 \<leftarrow> vget ids 0;
          guard (i32_ok (last_id + 1));
          Some (s0 = last_id + 1) } else Some D) = Some add"
      using s(1,2) Cons.prems(3) by (cases D; cases sequential; cases "sets = []") (simp_all add: add_def)
    then have e: "eq_collect a nb sequential (i # is) sets last_id = (if \<not> add then eq_collect a nb sequential is sets last_id
        else if length (sets @ [tok_set a i]) > nb then Some (sets @ [tok_set a i]) else eq_collect a nb sequential is (sets @ [tok_set a i]) s)"
      using u True by (simp only: eq_collect.simps t Let_def bind.bind_lunit D_def [symmetric]) (simp add: s(1,2))
    show ?thesis
    proof (cases add)
      case False
      then have "sets \<noteq> []" by (auto simp: add_def D_def)
      then show ?thesis using Cons.IH [OF Cons.prems(1) is_ok Cons.prems(3,4,5)] e False True by auto
    next
      case yes: True
      have so: "sets_ok a (sets @ [tok_set a i])" using sets_ok_snoc [OF Cons.prems(1) True] yes by (simp add: add_def D_def)
      have ids: "\<exists>s0. ids_from s0 (sets @ [tok_set a i]) \<and> s + 1 = s0 + int (length (sets @ [tok_set a i]))" if seq: sequential
      proof (cases "sets = []")
        case True
        then show ?thesis using s(3) by (intro exI [of _ s]) (simp add: ids_from_def)
      next
        case False
        then obtain s0 where s0: "ids_from s0 sets" "last_id + 1 = s0 + int (length sets)" using Cons.prems(5) [OF seq False] by blast
        moreover have "s = last_id + 1" using yes False seq by (simp add: add_def)
        ultimately show ?thesis using ids_from_snoc [OF s0(1)] s(3) by (intro exI [of _ s0]) simp
      qed
      show ?thesis
      proof (cases "length (sets @ [tok_set a i]) > nb")
        case stop: True
        then show ?thesis using so e yes True ids Cons.prems(4) by auto
      next
        case False
        then have "length (sets @ [tok_set a i]) \<le> nb" by simp
        note IH = Cons.IH [OF so is_ok s_ok this ids]
        show ?thesis using IH so e yes True False by auto
      qed
    qed
  qed
next
  case Nil
  then have "sequential \<longrightarrow> (\<exists>s0. ids_from s0 sets)" by (cases "sets = []") (auto simp: ids_from_def [of _ "[]"])
  then show ?case using Nil by simp
qed

lemma sets_ok_distinct:
  assumes "ba_ok a" "sets_ok a sets" "x < length sets" "y < length sets" "sets ! x = sets ! y"
  shows "x = y"
proof (rule ccontr)
  assume "x \<noteq> y"
  then have "sets ! x \<inter> sets ! y = {}" using assms(2-4) by (simp add: sets_ok_def)
  then have "sets ! x = {}" using assms(5) by simp
  moreover obtain i where "i \<in> unused a" "tok_set a i = sets ! x" using sets_okE [OF assms(2) nth_mem [OF assms(3)]] by blast
  ultimately show False using tok_set_ne(1) [OF assms(1), of i] by (auto simp: unused_def)
qed

subsection \<open>The expansion\<close>

text \<open>The positions of the sets in \<open>seq_set_map\<close> are where their unused tokens start.\<close>

definition at_free :: "batch_allocr \<Rightarrow> llama_seq_id set list \<Rightarrow> nat list \<Rightarrow> bool" where
  "at_free a sets cur \<longleftrightarrow> length cur = length sets \<and> (\<forall>s < length sets. free_at a (sets ! s) (cur ! s))"

text \<open>The next \<open>r\<close> tokens of set \<open>s\<close>.\<close>

definition slice :: "batch_allocr \<Rightarrow> llama_seq_id set list \<Rightarrow> nat list \<Rightarrow> nat \<Rightarrow> nat \<Rightarrow> nat list" where
  "slice a sets cur r s = take r (drop (cur ! s) (set_toks a (sets ! s)))"

lemma eq_round_ok:
  assumes ok: "ba_ok a" and cur: "at_free a sets cur" and inv: "eq_inv a" and dis: "distinct sets"
    and per: "length per = length sets" and ex: "eq_can_expand sets cur a"
  shows "\<exists>xs. eq_round sets (cur, per, a) = Some (map (\<lambda>s. Suc (cur ! s)) [0..<length sets],
      map (\<lambda>s. per ! s @ slice a sets cur 1 s) [0..<length sets], ba_mark xs a) \<and>
    xs = concat (map (slice a sets cur 1) [0..<length sets]) \<and>
    at_free (ba_mark xs a) sets (map (\<lambda>s. Suc (cur ! s)) [0..<length sets]) \<and> eq_inv (ba_mark xs a)"
proof -
  let ?n = "length sets"
  let ?c = "\<lambda>k s. if s < k then Suc (cur ! s) else cur ! s"
  let ?xs = "\<lambda>k. concat (map (slice a sets cur 1) [0..<k])"
  let ?P = "\<lambda>k (cu, pe, b). cu = map (?c k) [0..<?n] \<and> pe = map (\<lambda>s. if s < k then per ! s @ slice a sets cur 1 s else per ! s) [0..<?n] \<and>
    b = ba_mark (?xs k) a \<and> ba_ok b \<and> (\<forall>s < ?n. free_at b (sets ! s) (?c k s)) \<and> eq_inv b"
  have len: "length cur = ?n" using cur by (simp add: at_free_def)
  have lt: "cur ! s < length (set_toks a (sets ! s))" if "s < ?n" for s
    using ex that by (simp add: eq_can_expand_def set_toks_map [OF ok])
  have one: "slice a sets cur 1 s = [set_toks a (sets ! s) ! (cur ! s)]" if "s < ?n" for s
    using lt [OF that] by (simp add: slice_def take_Suc_conv_app_nth)
  have "\<exists>st. foldM (eq_take sets) [0..<?n] (cur, per, a) = Some st \<and> ?P ?n st"
  proof (rule foldM_upt_rule [where P = ?P])
    have "map (\<lambda>s. cur ! s) [0..<?n] = cur" "map (\<lambda>s. per ! s) [0..<?n] = per"
      using len per map_nth by metis+
    then show "?P 0 (cur, per, a)" using ok cur inv by (simp add: at_free_def)
  next
    fix k st
    assume k: "k < ?n" and P: "?P k st"
    obtain cu pe b where st: "st = (cu, pe, b)" by (cases st)
    have b: "b = ba_mark (?xs k) a" "ba_ok b" "\<forall>s < ?n. free_at b (sets ! s) (?c k s)" "eq_inv b"
      and cu: "cu = map (?c k) [0..<?n]" and pe: "pe = map (\<lambda>s. if s < k then per ! s @ slice a sets cur 1 s else per ! s) [0..<?n]"
      using P by (auto simp: st)
    let ?x = "set_toks a (sets ! k) ! (cur ! k)"
    have st_toks: "set_toks b = set_toks a" by (simp add: b(1))
    have fk: "free_at b (sets ! k) (cur ! k)" using b(3) k by auto
    have clt: "cur ! k < length (set_toks b (sets ! k))" using lt [OF k] st_toks by simp
    have xl: "?x < length (ba_used b)" using set_toks_nth(1) [OF lt [OF k]] ba_okD(11) [OF b(2)] by (simp add: b(1))
    note mk = free_at_mark [OF b(2) fk clt, unfolded st_toks]
    have take: "eq_take sets k (cu, pe, b) = Some (cu[k := Suc (cur ! k)], pe[k := per ! k @ [?x]], ba_mark [?x] b)"
      using k lt [OF k] set_toks_map [OF b(2)] st_toks ba_use_mark [OF xl] by (simp add: eq_take_def cu pe)
    have "cu[k := Suc (cur ! k)] = map (?c (Suc k)) [0..<?n]"
      "pe[k := per ! k @ [?x]] = map (\<lambda>s. if s < Suc k then per ! s @ slice a sets cur 1 s else per ! s) [0..<?n]"
      by (rule nth_equalityI; use k one [OF k] in \<open>auto simp: cu pe nth_list_update less_Suc_eq\<close>)+
    moreover have "ba_mark [?x] b = ba_mark (?xs (Suc k)) a" using one [OF k] by (simp add: b(1) ba_mark_append)
    moreover have "free_at (ba_mark [?x] b) (sets ! s) (?c (Suc k) s)" if "s < ?n" for s
    proof (cases "s = k")
      case False
      then have "sets ! s \<noteq> sets ! k" using dis that k by (simp add: nth_eq_iff_index_eq)
      then show ?thesis using mk b(3) that False by (auto simp: less_Suc_eq)
    qed (simp add: mk)
    moreover have "eq_inv (ba_mark [?x] b)"
      using b(4) mk unfolding eq_inv_def by metis
    moreover have "ba_ok (ba_mark [?x] b)" by (rule ba_ok_mark [OF b(2)])
    ultimately show "\<exists>st'. eq_take sets k st = Some st' \<and> ?P (Suc k) st'" using take by (simp add: st)
  qed
  then show ?thesis by (auto simp: eq_round_def at_free_def)
qed

lemma slice_add:
  assumes "s < length sets"
  shows "slice a sets cur 1 s @ slice a sets (map (\<lambda>s. Suc (cur ! s)) [0..<length sets]) r s = slice a sets cur (Suc r) s"
proof -
  have "drop 1 (drop (cur ! s) (set_toks a (sets ! s))) = drop (Suc (cur ! s)) (set_toks a (sets ! s))" by simp
  then show ?thesis using assms take_add [of 1 r "drop (cur ! s) (set_toks a (sets ! s))"] by (simp add: slice_def)
qed

lemma slice_mark [simp]: "slice (ba_mark xs a) = slice a"
  by (simp add: slice_def fun_eq_iff)

lemma slice_0 [simp]: "slice a sets cur 0 = (\<lambda>_. [])"
  by (simp add: slice_def fun_eq_iff)

lemma concat_map_Nil [simp]: "concat (map (\<lambda>_. []) xs) = []"
  by simp

lemma eq_loop_ok:
  assumes "ba_ok a" "at_free a sets cur" "eq_inv a" "distinct sets" "length per = length sets" "sets \<noteq> []"
    and "\<forall>s < length sets. length (per ! s) = q"
  shows "\<exists>r. eq_loop nb sets (cur, per, a) = Some (map (\<lambda>s. cur ! s + r) [0..<length sets],
      map (\<lambda>s. per ! s @ slice a sets cur r s) [0..<length sets], ba_mark (concat (map (slice a sets cur r) [0..<length sets])) a) \<and>
    eq_inv (ba_mark (concat (map (slice a sets cur r) [0..<length sets])) a) \<and>
    (\<forall>s < length sets. cur ! s + r \<le> length (set_toks a (sets ! s))) \<and>
    (eq_can_expand sets cur a \<longrightarrow> 0 < r) \<and> (q + r) * length sets \<le> max (Suc q * length sets) nb"
  using assms
proof (induction "length (set_toks a (sets ! 0)) - cur ! 0" arbitrary: a cur per q rule: less_induct)
  case less
  let ?n = "length sets"
  have ok: "ba_ok a" and fr: "at_free a sets cur" and n0: "0 < ?n" using less.prems by auto
  have len: "length cur = ?n" using fr by (simp add: at_free_def)
  have le: "\<forall>s < ?n. cur ! s \<le> length (set_toks a (sets ! s))" using fr by (simp add: at_free_def free_at_def)
  have lt: "eq_can_expand sets cur a \<Longrightarrow> s < ?n \<Longrightarrow> cur ! s < length (set_toks a (sets ! s))" for s
    by (simp add: eq_can_expand_def set_toks_map [OF ok])
  note eq = eq_loop.simps [of nb sets "(cur, per, a)"]
  show ?case
  proof (cases "eq_can_expand sets cur a")
    case False
    have "map (\<lambda>s. cur ! s + 0) [0..<?n] = cur" "map (\<lambda>s. per ! s @ slice a sets cur 0 s) [0..<?n] = per"
      using len less.prems(5) map_nth [of cur] map_nth [of per] by simp_all
    moreover have "eq_loop nb sets (cur, per, a) = Some (cur, per, a)" using False by (subst eq) simp
    ultimately show ?thesis using False less.prems(3) le by (intro exI [of _ 0]) (simp add: max_def)
  next
    case True
    define cur1 where "cur1 = map (\<lambda>s. Suc (cur ! s)) [0..<?n]"
    define per1 where "per1 = map (\<lambda>s. per ! s @ slice a sets cur 1 s) [0..<?n]"
    define xs where "xs = concat (map (slice a sets cur 1) [0..<?n])"
    define a1 where "a1 = ba_mark xs a"
    have r1: "eq_round sets (cur, per, a) = Some (cur1, per1, a1)" "at_free a1 sets cur1" "eq_inv a1"
      using eq_round_ok [OF ok fr less.prems(3,4,5) True] by (simp_all add: cur1_def per1_def a1_def xs_def)
    have one: "length (slice a sets cur 1 s) = 1" if "s < ?n" for s using lt [OF True that] by (simp add: slice_def)
    have q1: "\<forall>s < ?n. length (per1 ! s) = Suc q" using less.prems(7) one by (simp add: per1_def)
    have hd1: "length (hd per1) = Suc q" using q1 n0 by (simp add: hd_conv_nth per1_def)
    have step: "eq_loop nb sets (cur, per, a) = (if (Suc q + 1) * ?n > nb then Some (cur1, per1, a1) else eq_loop nb sets (cur1, per1, a1))"
      using True r1(1) hd1 by (subst eq) simp
    show ?thesis
    proof (cases "(Suc q + 1) * ?n > nb")
      case stop: True
      have "eq_loop nb sets (cur, per, a) = Some (cur1, per1, a1)" using step stop by simp
      moreover have "map (\<lambda>s. cur ! s + 1) [0..<?n] = cur1" by (simp add: cur1_def)
      ultimately show ?thesis
        using r1(3) lt [OF True] by (intro exI [of _ 1]) (auto simp: per1_def a1_def xs_def Suc_le_eq)
    next
      case go: False
      have "length (set_toks a1 (sets ! 0)) - cur1 ! 0 < length (set_toks a (sets ! 0)) - cur ! 0"
        using lt [OF True n0] n0 by (simp add: a1_def cur1_def)
      from less.hyps [OF this _ r1(2,3) less.prems(4) _ less.prems(6) q1] obtain r where
        r: "eq_loop nb sets (cur1, per1, a1) = Some (map (\<lambda>s. cur1 ! s + r) [0..<?n],
            map (\<lambda>s. per1 ! s @ slice a1 sets cur1 r s) [0..<?n], ba_mark (concat (map (slice a1 sets cur1 r) [0..<?n])) a1)"
          "eq_inv (ba_mark (concat (map (slice a1 sets cur1 r) [0..<?n])) a1)"
          "\<forall>s < ?n. cur1 ! s + r \<le> length (set_toks a1 (sets ! s))" "(Suc q + r) * ?n \<le> max (Suc (Suc q) * ?n) nb"
        using ba_ok_mark [OF ok] by (auto simp: a1_def per1_def)
      have sl: "slice a sets cur 1 s @ slice a sets cur1 r s = slice a sets cur (Suc r) s" if "s < ?n" for s
        unfolding cur1_def by (rule slice_add [OF that])
      have ms: "ba_mark (concat (map (slice a1 sets cur1 r) [0..<?n])) a1 = ba_mark (concat (map (slice a sets cur (Suc r)) [0..<?n])) a"
        unfolding a1_def slice_mark ba_mark_append [symmetric]
      proof (rule ba_mark_perm)
        have "set (slice a sets cur (Suc r) s) = set (slice a sets cur 1 s) \<union> set (slice a sets cur1 r s)" if "s < ?n" for s
          using sl [OF that] by (metis set_append)
        then show "set (xs @ concat (map (slice a sets cur1 r) [0..<?n])) = set (concat (map (slice a sets cur (Suc r)) [0..<?n]))"
          by (auto simp: xs_def)
        have "length (slice a sets cur (Suc r) s) = length (slice a sets cur 1 s) + length (slice a sets cur1 r s)" if "s < ?n" for s
          using sl [OF that] by (metis length_append)
        then have "map (\<lambda>s. length (slice a sets cur (Suc r) s)) [0..<?n] = map (\<lambda>s. length (slice a sets cur 1 s) + length (slice a sets cur1 r s)) [0..<?n]"
          by simp
        then have "sum_list (map (\<lambda>s. length (slice a sets cur (Suc r) s)) [0..<?n]) =
            sum_list (map (\<lambda>s. length (slice a sets cur 1 s) + length (slice a sets cur1 r s)) [0..<?n])"
          by (rule arg_cong)
        then show "length (xs @ concat (map (slice a sets cur1 r) [0..<?n])) = length (concat (map (slice a sets cur (Suc r)) [0..<?n]))"
          by (simp only: xs_def length_append length_concat map_map o_def sum_list_addf)
      qed
      have m: "map (\<lambda>s. cur1 ! s + r) [0..<?n] = map (\<lambda>s. cur ! s + Suc r) [0..<?n]"
        "map (\<lambda>s. per1 ! s @ slice a1 sets cur1 r s) [0..<?n] = map (\<lambda>s. per ! s @ slice a sets cur (Suc r) s) [0..<?n]"
        using sl by (simp_all add: cur1_def [symmetric] per1_def a1_def) (simp_all add: cur1_def)
      have "eq_loop nb sets (cur, per, a) = eq_loop nb sets (cur1, per1, a1)" using step go by simp
      moreover have "(q + Suc r) * ?n \<le> max (Suc q * ?n) nb" using r(4) go by (auto simp: max_def algebra_simps)
      moreover have "\<forall>s < ?n. cur ! s + Suc r \<le> length (set_toks a (sets ! s))" using r(3) by (simp add: cur1_def a1_def)
      ultimately show ?thesis
        using r(1,2) unfolding m ms by (intro exI [of _ "Suc r"]) simp
    qed
  qed
qed

subsection \<open>The contract\<close>

text \<open>
  The tokens come in \<open>k\<close> blocks of equal length, one block for each sequence set; the sets are
  disjoint, and in a sequential split their ids go up by one.  The sets are at most one more than
  \<open>n_ubatch\<close>; then the micro-batch has that one token too many.
\<close>

definition equal_good :: "nat \<Rightarrow> bool \<Rightarrow> batch_allocr \<Rightarrow> nat list \<Rightarrow> nat \<Rightarrow> bool \<Rightarrow> bool" where
  "equal_good nb sequential a idxs k e \<longleftrightarrow> e \<and> k \<le> Suc nb \<and> length idxs \<le> max k nb \<and> (\<exists>sets blocks. idxs = concat blocks \<and>
     length sets = k \<and> length blocks = k \<and> (sequential \<longrightarrow> (\<exists>s0. ids_from s0 sets)) \<and>
     (\<forall>i < k. length (blocks ! i) = length idxs div k \<and> sorted_wrt (<) (blocks ! i) \<and> (\<forall>t \<in> set (blocks ! i). tok_set a t = sets ! i)) \<and>
     (\<forall>i < k. \<forall>j < k. i \<noteq> j \<longrightarrow> sets ! i \<inter> sets ! j = {}))"

definition equal_inv :: "bool \<Rightarrow> batch_allocr \<Rightarrow> bool" where
  "equal_inv sequential a \<longleftrightarrow> eq_inv a \<and> \<not> (sequential \<and> ba_has_cpl a)"

lemma concat_blocks_distinct:
  assumes "\<forall>i < n. distinct (f i)" "\<forall>i < n. \<forall>j < n. i \<noteq> j \<longrightarrow> set (f i) \<inter> set (f j) = {}"
  shows "distinct (concat (map f [0..<n]))"
  using assms
proof (induction n)
  case (Suc n)
  have d: "set (f n) \<inter> set (f i) = {}" if "i < n" for i using Suc.prems(2) that by simp
  have "distinct (concat (map f [0..<n]))" using Suc by simp
  moreover have "set (f n) \<inter> set (concat (map f [0..<n])) = {}" using d by (auto simp: disjoint_iff)
  ultimately show ?case using Suc.prems(1) by (simp add: Int_commute)
qed simp

lemma equal_split:
  assumes ok: "ba_ok a" and inv: "equal_inv sequential a" and ne: "unused a \<noteq> {}"
  shows "\<exists>idxs k e. part_ok a idxs k \<and> equal_good nb sequential a idxs k e \<and>
    ba_split_equal nb sequential a = ba_ubatch_add idxs k e (ba_mark idxs a) \<and> equal_inv sequential (ba_mark idxs a)"
proof -
  have ei: "eq_inv a" and nocpl: "\<not> (sequential \<and> ba_has_cpl a)" using inv by (simp_all add: equal_inv_def)
  have so0: "sets_ok a []" "i32_ok (- 1 + 1)" by (simp_all add: sets_ok_def i32_ok_def INT32_MIN_def INT32_MAX_def)
  have ex: "\<exists>i \<in> set [0..<ba_get_n_tokens a]. i \<in> unused a" using ne by (auto simp: unused_def)
  obtain sets where sets: "eq_collect a nb sequential [0..<ba_get_n_tokens a] [] (- 1) = Some sets" "sets_ok a sets" "sets \<noteq> []"
    "length sets \<le> Suc nb" "sequential \<longrightarrow> (\<exists>s0. ids_from s0 sets)"
    using eq_collect_ok [OF ok so0(1) _ so0(2), of "[0..<ba_get_n_tokens a]" nb sequential] ex by auto
  let ?n = "length sets"
  have dist: "distinct sets" using sets_ok_distinct [OF ok sets(2)] by (auto simp: distinct_conv_nth)
  define start where "start t = (SOME c. free_at a t c)" for t
  have start: "free_at a t (start t)" for t using ei someI_ex [of "free_at a t"] by (auto simp: eq_inv_def start_def)
  have slt: "start t < length (set_toks a t)" if t: "t \<in> set sets" for t
  proof -
    obtain i where "i \<in> unused a" "tok_set a i = t" using sets_okE [OF sets(2) t] by blast
    then show ?thesis using free_at_some [OF ok, of i] start by blast
  qed
  define cur where "cur = map start sets"
  have cur: "mapM (\<lambda>t. eq_start (ba_used a) (ba_seq_set_map a t)) sets = Some cur"
    unfolding cur_def by (rule mapM_ok) (use eq_start_ok [OF ok start slt] in blast)
  have fr: "at_free a sets cur" using start by (simp add: at_free_def cur_def)
  have can: "eq_can_expand sets cur a" using slt by (simp add: eq_can_expand_def set_toks_map [OF ok] cur_def)
  let ?sl = "\<lambda>r. slice a sets cur r"
  have per0: "length (replicate ?n []) = ?n" "\<forall>s < ?n. length (replicate ?n [] ! s) = 0" by simp_all
  obtain r where r: "eq_loop nb sets (cur, replicate ?n [], a) = Some (map (\<lambda>s. cur ! s + r) [0..<?n],
      map (\<lambda>s. replicate ?n [] ! s @ ?sl r s) [0..<?n], ba_mark (concat (map (?sl r) [0..<?n])) a)"
    "eq_inv (ba_mark (concat (map (?sl r) [0..<?n])) a)" "\<forall>s < ?n. cur ! s + r \<le> length (set_toks a (sets ! s))" "0 < r"
    "r * ?n \<le> max ?n nb"
    using eq_loop_ok [OF ok fr ei dist per0(1) sets(3) per0(2), of nb] can by auto
  define idxs where "idxs = concat (map (?sl r) [0..<?n])"
  have "map (\<lambda>s. replicate ?n [] ! s @ ?sl r s) [0..<?n] = map (?sl r) [0..<?n]" by simp
  note loop = r(1) [unfolded this]
  have run: "ba_split_equal nb sequential a = ba_ubatch_add idxs ?n True (ba_mark idxs a)"
    unfolding ba_split_equal_def if_not_P [OF nocpl] using sets(1,3) cur loop by (simp add: idxs_def)
  have len: "length (?sl r s) = r" if "s < ?n" for s
  proof -
    have "cur ! s + r \<le> length (set_toks a (sets ! s))" using r(3) that by simp
    then show ?thesis by (simp add: slice_def)
  qed
  then have eq: "map (length \<circ> ?sl r) [0..<?n] = map (\<lambda>_. r) [0..<?n]" by simp
  have total: "length idxs = ?n * r" unfolding idxs_def length_concat map_map eq by (simp add: sum_list_triv)
  have mem: "\<exists>j. cur ! s \<le> j \<and> j < length (set_toks a (sets ! s)) \<and> x = set_toks a (sets ! s) ! j"
    if s: "s < ?n" and x: "x \<in> set (?sl r s)" for s x
  proof -
    obtain i where "i < r" "x = drop (cur ! s) (set_toks a (sets ! s)) ! i" "i < length (set_toks a (sets ! s)) - cur ! s"
      using x by (auto simp: slice_def in_set_conv_nth)
    then show ?thesis by (intro exI [of _ "cur ! s + i"]) auto
  qed
  have free: "x \<in> unused a \<and> tok_set a x = sets ! s" if s: "s < ?n" and x: "x \<in> set (?sl r s)" for s x
  proof -
    obtain j where j: "cur ! s \<le> j" "j < length (set_toks a (sets ! s))" "x = set_toks a (sets ! s) ! j"
      using mem [OF s x] by blast
    have "free_at a (sets ! s) (cur ! s)" using fr s by (simp add: at_free_def)
    then have "\<not> ba_used a ! x" using j by (simp add: free_at_def)
    then show ?thesis using set_toks_nth [OF j(2)] j(3) by (simp add: unused_def)
  qed
  have sorted: "sorted_wrt (<) (?sl r s)" for s
    unfolding slice_def set_toks_def by (intro sorted_wrt_take sorted_wrt_drop sorted_wrt_filter) simp
  have ds: "distinct (?sl r s)" for s by (simp add: slice_def)
  have "set (?sl r i) \<inter> set (?sl r j) = {}" if "i < ?n" "j < ?n" "i \<noteq> j" for i j
  proof -
    have "sets ! i \<noteq> sets ! j" using dist that by (simp add: nth_eq_iff_index_eq)
    then show ?thesis using free [OF that(1)] free [OF that(2)] by (metis disjoint_iff)
  qed
  then have "distinct idxs" unfolding idxs_def using ds by (intro concat_blocks_distinct) auto
  moreover have "set idxs \<subseteq> unused a" using free by (auto simp: idxs_def)
  moreover have "idxs \<noteq> []" using total r(4) sets(3) by auto
  ultimately have "part_ok a idxs ?n" using sets(3) total by (simp add: part_ok_def)
  moreover have "equal_good nb sequential a idxs ?n True"
    unfolding equal_good_def
  proof (intro conjI TrueI exI [of _ sets] exI [of _ "map (?sl r) [0..<?n]"] allI impI ballI)
    show "?n \<le> Suc nb" by (rule sets(4))
    show "\<exists>s0. ids_from s0 sets" if sequential using sets(5) that by blast
    show "length idxs \<le> max ?n nb" using r(5) total by (simp add: mult.commute)
    show "idxs = concat (map (?sl r) [0..<?n])" by (rule idxs_def)
    fix i
    assume i: "i < ?n"
    show "length (map (?sl r) [0..<?n] ! i) = length idxs div ?n" using i len sets(3) by (simp add: total)
    show "sorted_wrt (<) (map (?sl r) [0..<?n] ! i)" using i sorted by simp
    show "tok_set a t = sets ! i" if "t \<in> set (map (?sl r) [0..<?n] ! i)" for t using that i free by simp
    show "sets ! i \<inter> sets ! j = {}" if "j < ?n" "i \<noteq> j" for j using sets(2) i that by (simp add: sets_ok_def)
  qed simp_all
  moreover have "equal_inv sequential (ba_mark idxs a)" using r(2) nocpl by (simp add: equal_inv_def idxs_def)
  ultimately show ?thesis using run by blast
qed

lemma eq_collect_none:
  "ba_ok a \<Longrightarrow> unused a = {} \<Longrightarrow> eq_collect a nb sequential [0..<ba_get_n_tokens a] [] (- 1) = Some []"
  using eq_collect_ok [of a "[]" "[0..<ba_get_n_tokens a]" "- 1" nb sequential]
  by (auto simp: sets_ok_def i32_ok_def INT32_MIN_def INT32_MAX_def)

interpretation equal: splitter "ba_split_equal nb sequential" "equal_inv sequential" "equal_good nb sequential" for nb sequential
proof (unfold_locales, goal_cases)
  case (1 a)
  then show ?case using eq_collect_none [OF 1(1,3), of nb sequential] by (simp add: ba_split_equal_def equal_inv_def)
next
  case (2 a)
  then show ?case by (rule equal_split)
next
  case (3 x a)
  have "free_at (a\<lparr>ba_out_ids := x\<rparr>) t c = free_at a t c" for t c by (simp add: free_at_def)
  then show ?case by (simp add: equal_inv_def eq_inv_def)
qed (simp_all add: equal_good_def tok_set_def fun_eq_iff)

text \<open>A batch of which no token was taken.\<close>

lemma fresh_inv:
  assumes "ba_ok a" "\<forall>i < ba_get_n_tokens a. \<not> ba_used a ! i"
  shows "prefix_used a" and "eq_inv a" and "unused a = {..<ba_get_n_tokens a}"
proof -
  show u: "unused a = {..<ba_get_n_tokens a}" using assms(2) by (auto simp: unused_def)
  show "prefix_used a" unfolding prefix_used_def u by (rule exI [of _ 0]) auto
  show "eq_inv a" unfolding eq_inv_def
    by (rule allI, rule exI [of _ 0]) (use assms(2) set_toks_nth(1) in \<open>auto simp: free_at_def\<close>)
qed

lemma ba_reset_simps [simp]:
  "ba_batch (ba_split_reset a) = ba_batch a" "ba_n_pos_per_embd (ba_split_reset a) = ba_n_pos_per_embd a"
  "ba_n_embd (ba_split_reset a) = ba_n_embd a" "ba_n_seq_max (ba_split_reset a) = ba_n_seq_max a"
  "ba_seq_set (ba_split_reset a) = ba_seq_set a" "ba_seq_set_map (ba_split_reset a) = ba_seq_set_map a"
  "ba_has_cpl (ba_split_reset a) = ba_has_cpl a" "ba_used (ba_split_reset a) = replicate (ba_get_n_tokens a) False"
  "ba_out_ids (ba_split_reset a) = []" "ba_n_used (ba_split_reset a) = 0" "ba_get_n_tokens (ba_split_reset a) = ba_get_n_tokens a"
  by (simp_all add: ba_split_reset_def ba_get_n_tokens_def)

lemma ba_ok_reset: "ba_ok a \<Longrightarrow> ba_ok (ba_split_reset a)"
  unfolding ba_ok_def Let_def n_pos_of_def ba_reset_simps length_replicate
  by (elim conjE) (intro conjI refl; assumption)

end
