(* ===== verification/BatchInit.thy ===== *)
theory BatchInit
  imports BatchEqual
begin

text \<open>
  What \<open>llama_batch_allocr::init\<close> guarantees when it accepts a batch: the tables agree with the
  batch (\<open>ba_ok\<close>), and the positions of every sequence are contiguous and follow those of the
  memory.
\<close>

text \<open>The arrays the caller passes have the lengths the interface asks for.\<close>

definition inp_ok :: "nat \<Rightarrow> nat \<Rightarrow> llama_batch \<Rightarrow> bool" where
  "inp_ok n_pos n_embd b \<longleftrightarrow> (let n = nat (lb_n_tokens b) in
     (\<forall>ts. lb_token b = Some ts \<longrightarrow> length ts = n) \<and>
     (\<forall>es. lb_embd b = Some es \<longrightarrow> length es = n * n_embd) \<and>
     (case lb_pos b of None \<Rightarrow> lb_embd b = None \<or> n_pos = 1
      | Some ps \<Rightarrow> length ps = (if lb_embd b \<noteq> None then n_pos else 1) * n) \<and>
     (case lb_n_seq_id b of None \<Rightarrow> lb_seq_id b = None
      | Some ns \<Rightarrow> length ns = n \<and> (\<forall>i < n. 0 < ns ! i \<and> (lb_seq_id b = None \<longrightarrow> ns ! i = 1))) \<and>
     (\<forall>ids ns. lb_seq_id b = Some ids \<longrightarrow> lb_n_seq_id b = Some ns \<longrightarrow> length ids = n \<and> (\<forall>i < n. nat (ns ! i) \<le> length (ids ! i))) \<and>
     (\<forall>ls. lb_logits b = Some ls \<longrightarrow> length ls = n))"

text \<open>A batch with all its fields present.\<close>

definition lb_full :: "nat \<Rightarrow> nat \<Rightarrow> nat \<Rightarrow> llama_batch \<Rightarrow> bool" where
  "lb_full n_pos n_embd n_seq_max b \<longleftrightarrow> (let n = nat (lb_n_tokens b) in
     (\<forall>ts. lb_token b = Some ts \<longrightarrow> length ts = n) \<and>
     (\<forall>es. lb_embd b = Some es \<longrightarrow> length es = n * n_embd) \<and>
     (\<exists>ps. lb_pos b = Some ps \<and> length ps = (if lb_embd b \<noteq> None then n_pos else 1) * n) \<and>
     (\<exists>ns ids. lb_n_seq_id b = Some ns \<and> lb_seq_id b = Some ids \<and> length ns = n \<and> length ids = n \<and>
        (\<forall>i < n. 0 < ns ! i \<and> nat (ns ! i) \<le> length (ids ! i))) \<and>
     (\<exists>ls. lb_logits b = Some ls \<and> length ls = n) \<and>
     (\<forall>i < n. \<forall>s \<in> set (tok_ids b i). 0 \<le> s \<and> s < int n_seq_max))"

lemma valid_seqs_range:
  assumes v: "ba_valid_seqs n_seq_max b = Some True" and "lb_seq_id b = Some ids" "lb_n_seq_id b = Some ns"
    and "i < nat (lb_n_tokens b)" "i < length ids" "i < length ns" "s \<in> set (take (nat (ns ! i)) (ids ! i))"
  shows "0 \<le> s \<and> s < int n_seq_max"
proof -
  let ?g = "\<lambda>i. do { n \<leftarrow> pget (lb_n_seq_id b) i; allM (\<lambda>s. do { ids \<leftarrow> pget (lb_seq_id b) i; id \<leftarrow> vget ids s;
           Some (\<not> (id < 0 \<or> id \<ge> int n_seq_max)) }) [0..<nat n] }"
  have "\<forall>i \<in> set [0..<nat (lb_n_tokens b)]. ?g i = Some True"
    using v by (simp only: ba_valid_seqs_def assms(2) option.case allM_True)
  then have "?g i = Some True" using assms(4) by simp
  then have A: "\<forall>j \<in> set [0..<nat (ns ! i)]. (do { id \<leftarrow> vget (ids ! i) j; Some (\<not> (id < 0 \<or> id \<ge> int n_seq_max)) }) = Some True"
    using assms(2,3,5,6) by (simp only: pget_def bind.bind_lunit vget_Some allM_True)
  obtain j where j: "j < nat (ns ! i)" "j < length (ids ! i)" "s = ids ! i ! j"
    using assms(7) by (auto simp: in_set_conv_nth)
  then have "j \<in> set [0..<nat (ns ! i)]" by simp
  from bspec [OF A this] j(2,3) show ?thesis by simp
qed

lemma gen_ids_full:
  assumes ok: "inp_ok n_pos n_embd b" and v: "ba_valid_seqs n_seq_max b = Some True" and "0 < n_seq_max"
  obtains ns ids where "lb_n_seq_id (ba_gen_ids b) = Some ns" and "lb_seq_id (ba_gen_ids b) = Some ids"
    and "length ns = nat (lb_n_tokens b)" and "length ids = nat (lb_n_tokens b)"
    and "\<And>i. i < nat (lb_n_tokens b) \<Longrightarrow> 0 < ns ! i \<and> nat (ns ! i) \<le> length (ids ! i)"
    and "\<And>i s. i < nat (lb_n_tokens b) \<Longrightarrow> s \<in> set (take (nat (ns ! i)) (ids ! i)) \<Longrightarrow> 0 \<le> s \<and> s < int n_seq_max"
proof (cases "lb_seq_id b")
  case (Some ids)
  let ?n = "nat (lb_n_tokens b)"
  obtain ns where ns: "lb_n_seq_id b = Some ns" using ok Some by (auto simp: inp_ok_def Let_def split: option.splits)
  then have l: "length ns = ?n" "length ids = ?n" "\<And>i. i < ?n \<Longrightarrow> 0 < ns ! i \<and> nat (ns ! i) \<le> length (ids ! i)"
    using ok Some by (auto simp: inp_ok_def Let_def)
  show thesis
    by (rule that [of ns ids]) (use l ns Some valid_seqs_range [OF v Some ns] in \<open>auto simp: ba_gen_ids_def Let_def\<close>)
next
  case None
  let ?n = "nat (lb_n_tokens b)"
  define ns where "ns = (case lb_n_seq_id b of None \<Rightarrow> replicate ?n 1 | Some ns \<Rightarrow> ns)"
  have l: "length ns = ?n" "\<And>i. i < ?n \<Longrightarrow> ns ! i = 1"
    using ok None by (auto simp: inp_ok_def Let_def ns_def split: option.splits)
  show thesis
    by (rule that [of ns "replicate ?n [0]"])
      (use l assms(3) None in \<open>auto simp: ba_gen_ids_def Let_def ns_def split: option.splits\<close>)
qed

lemma ba_gen_ids_same [simp]:
  "lb_n_tokens (ba_gen_ids b) = lb_n_tokens b" "lb_token (ba_gen_ids b) = lb_token b" "lb_embd (ba_gen_ids b) = lb_embd b"
  "lb_pos (ba_gen_ids b) = lb_pos b" "lb_logits (ba_gen_ids b) = lb_logits b"
  by (simp_all add: ba_gen_ids_def Let_def)

lemma ba_gen_pos_same:
  assumes "ba_gen_pos mem n_seq_max b = Some b'"
  obtains ps where "b' = b\<lparr>lb_pos := Some ps\<rparr>" and "lb_pos b = Some ps \<or> lb_pos b = None \<and> length ps = nat (lb_n_tokens b)"
proof (cases "lb_pos b")
  case (Some ps)
  then have "b' = b" using assms by (simp add: ba_gen_pos_def)
  then show thesis using that [of ps] Some by simp
next
  case None
  obtain p0 pos p1 where f: "foldM (ba_pos_tok b) [0..<nat (lb_n_tokens b)] ([], p0) = Some (pos, p1)" "b' = b\<lparr>lb_pos := Some pos\<rparr>"
    using assms None by (auto simp: ba_gen_pos_def bind_eq_Some_conv)
  have grow: "foldM (ba_pos_tok b) xs st = Some st' \<Longrightarrow> length (fst st') = length (fst st) + length xs" for xs st st'
  proof (induction xs arbitrary: st)
    case (Cons x xs)
    then obtain t where t: "ba_pos_tok b x st = Some t" "foldM (ba_pos_tok b) xs t = Some st'" by (auto split: option.splits)
    have "length (fst t) = Suc (length (fst st))" using t(1) by (auto simp: ba_pos_tok_def bind_eq_Some_conv split: prod.splits)
    then show ?case using Cons.IH [OF t(2)] by simp
  qed simp
  then have "length pos = nat (lb_n_tokens b)" using grow [OF f(1)] by simp
  then show thesis using that [OF f(2)] None by simp
qed

lemma ba_gen_logits_same:
  assumes "ba_gen_logits output_all b = Some b'" "\<forall>ls. lb_logits b = Some ls \<longrightarrow> length ls = nat (lb_n_tokens b)"
  obtains ls where "b' = b\<lparr>lb_logits := Some ls\<rparr>" and "length ls = nat (lb_n_tokens b)"
proof (cases "lb_logits b")
  case None
  then show thesis using assms(1) that by (auto simp: ba_gen_logits_def Let_def)
next
  case (Some ls)
  have id: "b = b\<lparr>lb_logits := Some ls\<rparr>" using Some by simp
  have "b' = b \<or> b' = b\<lparr>lb_logits := Some (replicate (nat (lb_n_tokens b)) 1)\<rparr>"
    using assms(1) Some by (auto simp: ba_gen_logits_def Let_def bind_eq_Some_conv split: if_splits)
  then show thesis
  proof
    assume "b' = b"
    then show thesis using that [of ls] id assms(2) Some by simp
  next
    assume "b' = b\<lparr>lb_logits := Some (replicate (nat (lb_n_tokens b)) 1)\<rparr>"
    then show thesis by (rule that) simp
  qed
qed

lemma gen_full:
  assumes ok: "inp_ok n_pos n_embd b" and v: "ba_valid_seqs n_seq_max b = Some True" and "0 < n_seq_max"
    and pos: "ba_gen_pos mem n_seq_max (ba_gen_ids b) = Some b1" and log: "ba_gen_logits output_all b1 = Some b2"
  shows "lb_full n_pos n_embd n_seq_max b2 \<and> lb_n_tokens b2 = lb_n_tokens b \<and> lb_token b2 = lb_token b"
proof -
  obtain ns ids where ids: "lb_n_seq_id (ba_gen_ids b) = Some ns" "lb_seq_id (ba_gen_ids b) = Some ids"
    "length ns = nat (lb_n_tokens b)" "length ids = nat (lb_n_tokens b)"
    "\<And>i. i < nat (lb_n_tokens b) \<Longrightarrow> 0 < ns ! i \<and> nat (ns ! i) \<le> length (ids ! i)"
    "\<And>i s. i < nat (lb_n_tokens b) \<Longrightarrow> s \<in> set (take (nat (ns ! i)) (ids ! i)) \<Longrightarrow> 0 \<le> s \<and> s < int n_seq_max"
    using gen_ids_full [OF ok v assms(3)] by blast
  obtain ps where b1: "b1 = (ba_gen_ids b)\<lparr>lb_pos := Some ps\<rparr>"
    "lb_pos b = Some ps \<or> lb_pos b = None \<and> length ps = nat (lb_n_tokens b)"
    by (rule ba_gen_pos_same [OF pos]) simp
  obtain ls where b2: "b2 = b1\<lparr>lb_logits := Some ls\<rparr>" "length ls = nat (lb_n_tokens b1)"
    by (rule ba_gen_logits_same [OF log]) (use ok b1(1) in \<open>auto simp: inp_ok_def Let_def\<close>)
  have "length ps = (if lb_embd b \<noteq> None then n_pos else 1) * nat (lb_n_tokens b)"
    using b1(2) ok by (auto simp: inp_ok_def Let_def)
  moreover have "(\<forall>ts. lb_token b = Some ts \<longrightarrow> length ts = nat (lb_n_tokens b)) \<and> (\<forall>es. lb_embd b = Some es \<longrightarrow> length es = nat (lb_n_tokens b) * n_embd)"
    using ok by (simp add: inp_ok_def Let_def)
  ultimately show ?thesis
    using ids b2(2) by (simp add: lb_full_def Let_def b1 b2(1) tok_ids_def)
qed

subsection \<open>The tables\<close>

text \<open>The positions of sequence \<open>s\<close> among the first \<open>k\<close> tokens.\<close>

definition batch_positions :: "llama_batch \<Rightarrow> nat \<Rightarrow> llama_seq_id \<Rightarrow> llama_pos set" where
  "batch_positions b k s = {the (lb_pos b) ! i | i. i < k \<and> s \<in> set (tok_ids b i)}"

lemma batch_positions_Suc:
  "batch_positions b (Suc k) s = batch_positions b k s \<union> (if s \<in> set (tok_ids b k) then {the (lb_pos b) ! k} else {})"
  by (auto simp: batch_positions_def less_Suc_eq)

lemma count_outputs_same:
  assumes "ba_count_outputs a = Some a'"
  shows "\<exists>k. a' = a\<lparr>ba_n_outputs := k\<rparr>"
proof (rule foldM_invar [OF assms [unfolded ba_count_outputs_def], where P = "\<lambda>a'. \<exists>k. a' = a\<lparr>ba_n_outputs := k\<rparr>"])
  show "\<exists>k. a = a\<lparr>ba_n_outputs := k\<rparr>" by (rule exI [of _ "ba_n_outputs a"]) simp
qed (auto simp: bind_eq_Some_conv)

lemma couple_tok_positions:
  assumes r: "ba_couple_tok i a = Some a'" and full: "lb_n_seq_id (ba_batch a) = Some ns" "lb_seq_id (ba_batch a) = Some ids"
    "lb_pos (ba_batch a) = Some ps" "i < length ns" "i < length ids" "i < length ps"
  shows "\<exists>sp c h. a' = a\<lparr>ba_seq_pos := sp, ba_seq_cpl := c, ba_has_cpl := h\<rparr> \<and> length sp = length (ba_seq_pos a) \<and>
    (\<forall>s < length sp. sp ! s = ba_seq_pos a ! s \<union> (if int s \<in> set (tok_ids (ba_batch a) i) then {ps ! i} else {}))"
proof -
  let ?ids = "ids ! i" and ?n = "nat (ns ! i)"
  let ?P = "\<lambda>k b. \<exists>sp c h. b = a\<lparr>ba_seq_pos := sp, ba_seq_cpl := c, ba_has_cpl := h\<rparr> \<and> length sp = length (ba_seq_pos a) \<and> k \<le> length ?ids \<and>
    (\<forall>s < length sp. sp ! s = ba_seq_pos a ! s \<union> (if int s \<in> set (take k ?ids) then {ps ! i} else {}))"
  let ?f = "\<lambda>s0 s b. do {
       s1 \<leftarrow> vget ?ids s;
       k1 \<leftarrow> sidx s1;
       p \<leftarrow> pget (lb_pos (ba_batch b)) i;
       m \<leftarrow> vget (ba_seq_pos b) k1;
       let b = b\<lparr>ba_seq_pos := (ba_seq_pos b)[k1 := insert p m]\<rparr>;
       if s > 0 then do {
         k0 \<leftarrow> sidx s0;
         row \<leftarrow> vget (ba_seq_cpl b) k1;
         row \<leftarrow> vset row k0 True;
         Some (b\<lparr>ba_seq_cpl := (ba_seq_cpl b)[k1 := row], ba_has_cpl := True\<rparr>) }
       else Some b }"
  obtain s0 where f: "foldM (?f s0) [0..<?n] a = Some a'"
    using r full by (auto simp: ba_couple_tok_def pget_def bind_eq_Some_conv)
  have "?P ?n a'"
  proof (rule foldM_upt_invar_0 [OF f, where P = ?P])
    show "?P 0 a"
      by (rule exI [of _ "ba_seq_pos a"], rule exI [of _ "ba_seq_cpl a"], rule exI [of _ "ba_has_cpl a"]) simp
  next
    fix k b b'
    assume P: "?P k b" and st: "?f s0 k b = Some b'"
    obtain sp c h where b: "b = a\<lparr>ba_seq_pos := sp, ba_seq_cpl := c, ba_has_cpl := h\<rparr>" "length sp = length (ba_seq_pos a)"
      "\<forall>s < length sp. sp ! s = ba_seq_pos a ! s \<union> (if int s \<in> set (take k ?ids) then {ps ! i} else {})"
      using P by blast
    have k: "k < length ?ids" using st by (auto simp: bind_eq_Some_conv vget_eq_Some)
    define k1 where "k1 = nat (?ids ! k)"
    have nn: "0 \<le> ?ids ! k" "k1 < length sp"
      using st k by (auto simp: bind_eq_Some_conv vget_eq_Some sidx_def b(1) k1_def split: if_splits)
    have set_k: "set (take (Suc k) ?ids) = insert (?ids ! k) (set (take k ?ids))" using k by (simp add: take_Suc_conv_app_nth)
    define sp' where "sp' = sp[k1 := insert (ps ! i) (sp ! k1)]"
    have "\<exists>c h. b' = a\<lparr>ba_seq_pos := sp', ba_seq_cpl := c, ba_has_cpl := h\<rparr>"
    proof (cases "k > 0")
      case True
      then show ?thesis using st k nn full(3,6) b(1)
        by (auto simp: bind_eq_Some_conv vget_eq_Some sidx_def pget_def k1_def [symmetric] sp'_def Let_def split: if_splits)
    next
      case False
      then have "b' = a\<lparr>ba_seq_pos := sp', ba_seq_cpl := c, ba_has_cpl := h\<rparr>" using st k nn full(3,6) b(1)
        by (auto simp: bind_eq_Some_conv vget_eq_Some sidx_def pget_def k1_def sp'_def Let_def split: if_splits)
      then show ?thesis by blast
    qed
    then obtain c' h' where b': "b' = a\<lparr>ba_seq_pos := sp', ba_seq_cpl := c', ba_has_cpl := h'\<rparr>" by blast
    have "\<forall>s < length sp'. sp' ! s = ba_seq_pos a ! s \<union> (if int s \<in> set (take (Suc k) ?ids) then {ps ! i} else {})"
    proof (intro allI impI)
      fix s
      assume s: "s < length sp'"
      have "int s = ?ids ! k \<longleftrightarrow> s = k1" using nn(1) by (auto simp: k1_def)
      then show "sp' ! s = ba_seq_pos a ! s \<union> (if int s \<in> set (take (Suc k) ?ids) then {ps ! i} else {})"
        using s b(3) nn(2) by (auto simp: sp'_def set_k nth_list_update)
    qed
    moreover have "length sp' = length (ba_seq_pos a)" "Suc k \<le> length ?ids" using b(2) k by (simp_all add: sp'_def)
    ultimately show "?P (Suc k) b'" using b' by (intro exI [of _ sp'] exI [of _ c'] exI [of _ h']) simp
  qed
  moreover have "tok_ids (ba_batch a) i = take ?n ?ids" using full by (simp add: tok_ids_def)
  ultimately show ?thesis by metis
qed

lemma lb_fullD:
  assumes "lb_full n_pos n_embd n_seq_max b"
  obtains ps ns ids where "lb_pos b = Some ps" "lb_n_seq_id b = Some ns" "lb_seq_id b = Some ids"
    and "length ps = (if lb_embd b \<noteq> None then n_pos else 1) * nat (lb_n_tokens b)" "length ns = nat (lb_n_tokens b)" "length ids = nat (lb_n_tokens b)"
    and "\<And>i. i < nat (lb_n_tokens b) \<Longrightarrow> 0 < ns ! i \<and> nat (ns ! i) \<le> length (ids ! i)"
  using assms by (auto simp: lb_full_def Let_def)

lemma couple_positions:
  assumes r: "foldM ba_couple_tok [0..<nat (lb_n_tokens b)] a = Some a'" and b: "ba_batch a = b" and full: "lb_full n_pos n_embd n_seq_max b"
    and np: "lb_embd b = None \<or> 0 < n_pos" and e: "\<forall>m \<in> set (ba_seq_pos a). m = {}"
  shows "\<exists>sp c h. a' = a\<lparr>ba_seq_pos := sp, ba_seq_cpl := c, ba_has_cpl := h\<rparr> \<and> length sp = length (ba_seq_pos a) \<and>
    (\<forall>s < length sp. sp ! s = batch_positions b (nat (lb_n_tokens b)) (int s))"
proof -
  obtain ps ns ids where f: "lb_pos b = Some ps" "lb_n_seq_id b = Some ns" "lb_seq_id b = Some ids"
    "length ps = (if lb_embd b \<noteq> None then n_pos else 1) * nat (lb_n_tokens b)" "length ns = nat (lb_n_tokens b)" "length ids = nat (lb_n_tokens b)"
    by (rule lb_fullD [OF full]) blast
  have ple: "nat (lb_n_tokens b) \<le> length ps" using f(4) np mult_le_mono1 [of 1 n_pos "nat (lb_n_tokens b)"] by (cases "lb_embd b") auto
  let ?P = "\<lambda>k a'. \<exists>sp c h. a' = a\<lparr>ba_seq_pos := sp, ba_seq_cpl := c, ba_has_cpl := h\<rparr> \<and> length sp = length (ba_seq_pos a) \<and>
    (\<forall>s < length sp. sp ! s = batch_positions b k (int s))"
  show ?thesis
  proof (rule foldM_upt_invar_0 [OF r, where P = ?P])
    have "\<forall>s < length (ba_seq_pos a). ba_seq_pos a ! s = batch_positions b 0 (int s)"
      using e by (simp add: batch_positions_def)
    then show "?P 0 a"
      by (intro exI [of _ "ba_seq_pos a"] exI [of _ "ba_seq_cpl a"] exI [of _ "ba_has_cpl a"]) simp
  next
    fix k t t'
    assume k: "k < nat (lb_n_tokens b)" and P: "?P k t" and s: "ba_couple_tok k t = Some t'"
    obtain sp c h where t: "t = a\<lparr>ba_seq_pos := sp, ba_seq_cpl := c, ba_has_cpl := h\<rparr>" "length sp = length (ba_seq_pos a)"
      "\<forall>s < length sp. sp ! s = batch_positions b k (int s)"
      using P by blast
    have tb: "ba_batch t = b" by (simp add: t(1) b)
    have ln: "k < length ns" "k < length ids" "k < length ps" using k f(5,6) less_le_trans [OF k ple] by simp_all
    obtain sp' c' h' where t': "t' = t\<lparr>ba_seq_pos := sp', ba_seq_cpl := c', ba_has_cpl := h'\<rparr>" "length sp' = length (ba_seq_pos t)"
      "\<forall>s < length sp'. sp' ! s = ba_seq_pos t ! s \<union> (if int s \<in> set (tok_ids b k) then {ps ! k} else {})"
      using couple_tok_positions [OF s, unfolded tb, OF f(2,3,1) ln] by blast
    have "\<forall>s < length sp'. sp' ! s = batch_positions b (Suc k) (int s)"
      using t'(2,3) t(3) f(1) by (simp add: t(1) batch_positions_Suc)
    then show "?P (Suc k) t'" using t'(1,2) t(1,2)
      by (intro exI [of _ sp'] exI [of _ c'] exI [of _ h']) simp
  qed
qed

lemma set_tok_tables:
  assumes r: "foldM ba_set_tok [0..<n] ({}, a) = Some (unq, a')" and b: "ba_batch a = b" and full: "lb_full n_pos n_embd n_seq_max b"
    and n: "n = nat (lb_n_tokens b)" and e: "ba_seq_set a = []" "ba_seq_set_map a = (\<lambda>_. [])" and mx: "n_seq_max \<le> LLAMA_MAX_SEQ"
  shows "a' = a\<lparr>ba_seq_set := map (\<lambda>i. set (tok_ids b i)) [0..<n], ba_seq_set_map := (\<lambda>t. filter (\<lambda>i. set (tok_ids b i) = t) [0..<n])\<rparr>"
proof -
  obtain ps ns ids where f: "lb_n_seq_id b = Some ns" "lb_seq_id b = Some ids" "length ns = n" "length ids = n"
    "\<And>i. i < n \<Longrightarrow> 0 < ns ! i \<and> nat (ns ! i) \<le> length (ids ! i)"
    by (rule lb_fullD [OF full]) (use n in blast)
  have tok: "ba_tok_set b i = Some c \<Longrightarrow> c = set (tok_ids b i)" if "i < n" for i c
  proof -
    assume r: "ba_tok_set b i = Some c"
    let ?f = "\<lambda>s cur. do { ids \<leftarrow> pget (lb_seq_id b) i; id \<leftarrow> vget ids s; guard (seq_ok id); Some (insert id cur) }"
    have r': "foldM ?f [0..<nat (ns ! i)] {} = Some c" using r f that by (simp add: ba_tok_set_def pget_def)
    have "c = set (take (nat (ns ! i)) (ids ! i))"
    proof (rule foldM_upt_invar_0 [OF r', where P = "\<lambda>k c. c = set (take k (ids ! i))"])
      fix k t t'
      assume "t = set (take k (ids ! i))" "?f k t = Some t'"
      then show "t' = set (take (Suc k) (ids ! i))"
        using f that by (auto simp: pget_def bind_eq_Some_conv vget_eq_Some take_Suc_conv_app_nth)
    qed simp
    then show "c = set (tok_ids b i)" using f by (simp add: tok_ids_def)
  qed
  let ?A = "\<lambda>k. a\<lparr>ba_seq_set := map (\<lambda>i. set (tok_ids b i)) [0..<k], ba_seq_set_map := (\<lambda>t. filter (\<lambda>i. set (tok_ids b i) = t) [0..<k])\<rparr>"
  have "snd (unq, a') = ?A n"
  proof (rule foldM_upt_invar_0 [OF r, where P = "\<lambda>k st. snd st = ?A k"])
    show "snd ({}, a) = ?A 0" using e by simp
  next
    fix k t t'
    assume k: "k < n" and t: "snd t = ?A k" and s: "ba_set_tok k t = Some t'"
    obtain u where t1: "t = (u, ?A k)" using t by (cases t) auto
    have "snd t' = (?A k)\<lparr>ba_seq_set := ba_seq_set (?A k) @ [set (tok_ids b k)],
        ba_seq_set_map := (ba_seq_set_map (?A k))(set (tok_ids b k) := ba_seq_set_map (?A k) (set (tok_ids b k)) @ [k])\<rparr>"
      using s tok [OF k] by (auto simp: t1 ba_set_tok_def bind_eq_Some_conv b)
    then show "snd t' = ?A (Suc k)" by (simp add: fun_upd_def fun_eq_iff)
  qed
  then show ?thesis by simp
qed

lemma tables_ok:
  assumes r: "ba_tables a = Some a'" and full: "lb_full (ba_n_pos_per_embd a) (ba_n_embd a) (ba_n_seq_max a) (ba_batch a)"
    and np: "lb_embd (ba_batch a) = None \<or> 0 < ba_n_pos_per_embd a" and mx: "ba_n_seq_max a \<le> LLAMA_MAX_SEQ"
    and e: "\<forall>m \<in> set (ba_seq_pos a). m = {}" "ba_seq_set a = []" "ba_seq_set_map a = (\<lambda>_. [])"
  shows "ba_ok (ba_split_reset a')" and "ba_batch a' = ba_batch a"
    and "length (ba_seq_pos a') = length (ba_seq_pos a)"
    and "s < length (ba_seq_pos a) \<Longrightarrow> ba_seq_pos a' ! s = batch_positions (ba_batch a) (ba_get_n_tokens a) (int s)"
proof -
  let ?b = "ba_batch a" and ?n = "ba_get_n_tokens a"
  obtain a1 a2 unq a3 idx ids where t: "ba_count_outputs a = Some a1"
    "foldM ba_couple_tok [0..<ba_get_n_tokens a1] (a1\<lparr>ba_has_cpl := False\<rparr>) = Some a2"
    "foldM ba_set_tok [0..<ba_get_n_tokens a2] ({}, a2) = Some (unq, a3)" "a' = a3\<lparr>ba_seq_idx := idx, ba_seq_id_unq := ids\<rparr>"
    using r by (auto simp: ba_tables_def bind_eq_Some_conv)
  obtain k where a1: "a1 = a\<lparr>ba_n_outputs := k\<rparr>" using count_outputs_same [OF t(1)] by blast
  have n1: "ba_get_n_tokens a1 = nat (lb_n_tokens ?b)" by (simp add: a1 ba_get_n_tokens_def)
  obtain sp c h where a2: "a2 = (a1\<lparr>ba_has_cpl := False\<rparr>)\<lparr>ba_seq_pos := sp, ba_seq_cpl := c, ba_has_cpl := h\<rparr>"
    "length sp = length (ba_seq_pos a)" "\<forall>s < length sp. sp ! s = batch_positions ?b (nat (lb_n_tokens ?b)) (int s)"
    using couple_positions [OF t(2) [unfolded n1] _ full np, of] e(1) by (auto simp: a1)
  have n2: "ba_get_n_tokens a2 = nat (lb_n_tokens ?b)" by (simp add: a1 a2(1) ba_get_n_tokens_def)
  have a3: "a3 = a2\<lparr>ba_seq_set := map (\<lambda>i. set (tok_ids ?b i)) [0..<nat (lb_n_tokens ?b)],
      ba_seq_set_map := (\<lambda>t. filter (\<lambda>i. set (tok_ids ?b i) = t) [0..<nat (lb_n_tokens ?b)])\<rparr>"
    by (rule set_tok_tables [OF t(3) [unfolded n2] _ full refl _ _ mx]) (simp_all add: a1 a2(1) e)
  have f: "ba_batch a' = ?b" "ba_n_pos_per_embd a' = ba_n_pos_per_embd a" "ba_n_embd a' = ba_n_embd a" "ba_n_seq_max a' = ba_n_seq_max a"
    "ba_seq_set a' = map (\<lambda>i. set (tok_ids ?b i)) [0..<nat (lb_n_tokens ?b)]"
    "ba_seq_set_map a' = (\<lambda>t. filter (\<lambda>i. set (tok_ids ?b i) = t) [0..<nat (lb_n_tokens ?b)])" "ba_seq_pos a' = sp"
    by (simp_all add: t(4) a3 a2(1) a1)
  show "ba_batch a' = ?b" "length (ba_seq_pos a') = length (ba_seq_pos a)" by (simp_all add: f a2(2))
  show "s < length (ba_seq_pos a) \<Longrightarrow> ba_seq_pos a' ! s = batch_positions ?b ?n (int s)"
    using a2(2,3) by (simp add: f ba_get_n_tokens_def)
  have "filter (\<lambda>i. set (tok_ids ?b i) = u) [0..<m] = filter (\<lambda>i. map (\<lambda>i. set (tok_ids ?b i)) [0..<m] ! i = u) [0..<m]" for u m
    by (rule filter_cong) simp_all
  then show "ba_ok (ba_split_reset a')"
    using full mx unfolding ba_ok_def Let_def n_pos_of_def ba_reset_simps f lb_full_def ba_get_n_tokens_def
    by (simp add: n_pos_of_def)
qed

subsection \<open>\<open>init\<close>\<close>

lemma ba_init_ok:
  assumes r: "ba_init inp vocab_n mem n_embd n_seq_max output_all a0 = Some (True, a)"
    and ok: "inp_ok (ba_n_pos_per_embd a0) n_embd inp" and pos: "0 < n_seq_max" "0 < ba_n_pos_per_embd a0"
    and len: "length (ba_seq_pos a0) = LLAMA_MAX_SEQ"
  shows "ba_ok a" and "unused a = {..<nat (lb_n_tokens inp)}" and "ba_get_n_tokens a = nat (lb_n_tokens inp)"
    and "ba_n_used a = 0"
    and "lb_token (ba_batch a) = lb_token inp"
    and "s < n_seq_max \<Longrightarrow> P = batch_positions (ba_batch a) (nat (lb_n_tokens inp)) (int s) \<Longrightarrow> P \<noteq> {} \<Longrightarrow>
      P = {Min P..Max P} \<and> (\<forall>mn mx p0. mem = Some (mn, mx) \<longrightarrow> mx (int s) = Some p0 \<longrightarrow> 0 \<le> p0 \<longrightarrow>
        Min P = p0 + 1 \<or> lb_token inp = None \<and> Min P = p0)"
proof -
  define a1 where "a1 = (ba_clear a0)\<lparr>ba_batch := inp\<rparr>"
  obtain b1 b2 a2 where i: "n_seq_max \<le> LLAMA_MAX_SEQ" "ba_valid_tokens vocab_n inp = Some True" "ba_valid_seqs n_seq_max inp = Some True"
    "ba_gen_pos mem n_seq_max (ba_gen_ids inp) = Some b1" "ba_gen_logits output_all b1 = Some b2"
    "ba_tables (a1\<lparr>ba_batch := b2, ba_n_embd := n_embd, ba_n_seq_max := n_seq_max\<rparr>) = Some a2"
    "allM (ba_check_pos mem a2) [0..<n_seq_max] = Some True" "a = ba_split_reset a2"
    using r by (auto simp: ba_init_def a1_def Let_def bind_eq_Some_conv split: if_splits)
  let ?a = "a1\<lparr>ba_batch := b2, ba_n_embd := n_embd, ba_n_seq_max := n_seq_max\<rparr>"
  have full: "lb_full (ba_n_pos_per_embd a0) n_embd n_seq_max b2" "lb_n_tokens b2 = lb_n_tokens inp" "lb_token b2 = lb_token inp"
    using gen_full [OF ok i(3) pos(1) i(4,5)] by simp_all
  have f: "lb_full (ba_n_pos_per_embd ?a) (ba_n_embd ?a) (ba_n_seq_max ?a) (ba_batch ?a)"
    using full(1) by (simp add: a1_def ba_clear_def)
  have t: "ba_ok (ba_split_reset a2)" "ba_batch a2 = ba_batch ?a" "length (ba_seq_pos a2) = length (ba_seq_pos ?a)"
    "\<And>s. s < length (ba_seq_pos ?a) \<Longrightarrow> ba_seq_pos a2 ! s = batch_positions (ba_batch ?a) (ba_get_n_tokens ?a) (int s)"
    using tables_ok [OF i(6) f] pos(2) i(1) by (auto simp: a1_def ba_clear_def)
  show "ba_ok a" by (simp add: i(8) t(1))
  show n: "ba_get_n_tokens a = nat (lb_n_tokens inp)" by (simp add: i(8) ba_get_n_tokens_def t(2) full(2))
  show "unused a = {..<nat (lb_n_tokens inp)}"
    using n by (auto simp: unused_def i(8) ba_get_n_tokens_def)
  show "ba_n_used a = 0" "lb_token (ba_batch a) = lb_token inp" by (simp_all add: i(8) t(2) full(3))
  assume s: "s < n_seq_max" and P: "P = batch_positions (ba_batch a) (nat (lb_n_tokens inp)) (int s)" and ne: "P \<noteq> {}"
  have sl: "s < length (ba_seq_pos ?a)" using s i(1) len by (simp add: a1_def ba_clear_def)
  have Ps: "ba_seq_pos a2 ! s = P" using t(4) [OF sl] by (simp add: P i(8) t(2) ba_get_n_tokens_def full(2))
  have "batch_positions b k u = (\<lambda>i. the (lb_pos b) ! i) ` {i. i < k \<and> u \<in> set (tok_ids b i)}" for b k u
    by (auto simp: batch_positions_def)
  then have fin: "finite P" by (simp add: P)
  have "ba_check_pos mem a2 s = Some True" using i(7) s by (simp add: allM_True)
  moreover have "vget (ba_seq_pos a2) s = Some P" using Ps sl t(3) by simp
  ultimately obtain p0 ok1 where c: "(case mem of None \<Rightarrow> Some (- 1) | Some (mn, mx) \<Rightarrow> mx (int s)) = Some p0"
    "0 \<le> p0 \<longrightarrow> Min P = p0 + 1 \<or> lb_token (ba_batch a2) = None \<and> Min P = p0" "\<not> Max P - Min P + 1 > int (card P)"
    using ne by (auto simp: ba_check_pos_def ba_seq_pos_min_def ba_seq_pos_max_def bind_eq_Some_conv split: if_splits)
  have sub: "P \<subseteq> {Min P..Max P}" using fin by auto
  have "card {Min P..Max P} \<le> card P" using c(3) by simp
  then have "P = {Min P..Max P}" using card_seteq [OF _ sub] by simp
  moreover have "lb_token (ba_batch a2) = lb_token inp" by (simp add: t(2) full(3))
  ultimately show "P = {Min P..Max P} \<and> (\<forall>mn mx p0. mem = Some (mn, mx) \<longrightarrow> mx (int s) = Some p0 \<longrightarrow> 0 \<le> p0 \<longrightarrow>
        Min P = p0 + 1 \<or> lb_token inp = None \<and> Min P = p0)"
    using c(1,2) by auto
qed

end
