(* ===== verification/BatchProps.thy ===== *)
theory BatchProps
  imports BatchInit "HOL-Library.Multiset"
begin

text \<open>The properties of the batch allocator, with witnesses on concrete batches.\<close>

subsection \<open>Concrete batches\<close>

text \<open>Tokens with given positions, each in one sequence.\<close>

definition demo_batch :: "(llama_pos \<times> llama_seq_id) list \<Rightarrow> llama_batch" where
  "demo_batch ts = \<lparr>lb_n_tokens = int (length ts), lb_token = Some (map (\<lambda>_. 5) ts), lb_embd = None,
     lb_pos = Some (map fst ts), lb_n_seq_id = Some (map (\<lambda>_. 1) ts), lb_seq_id = Some (map (\<lambda>t. [snd t]) ts),
     lb_logits = None\<rparr>"

text \<open>The memory ends at position 1 in sequence 0 and is empty in sequence 1.\<close>

definition demo_mem :: memory_view where
  "demo_mem = ((\<lambda>s. Some (if s = 0 then 0 else - 1)), (\<lambda>s. Some (if s = 0 then 1 else - 1)))"

definition demo_ba :: batch_allocr where
  "demo_ba = snd (the (ba_init (demo_batch [(2, 0), (0, 1), (3, 0)]) 10 (Some demo_mem) 4 2 False (ba_new 1)))"

lemma demo_ba_init: "ba_init (demo_batch [(2, 0), (0, 1), (3, 0)]) 10 (Some demo_mem) 4 2 False (ba_new 1) = Some (True, demo_ba)"
proof -
  have "map_option fst (ba_init (demo_batch [(2, 0), (0, 1), (3, 0)]) 10 (Some demo_mem) 4 2 False (ba_new 1)) = Some True"
    by code_simp
  then show ?thesis by (auto simp: demo_ba_def)
qed

lemma demo_inp: "inp_ok (ba_n_pos_per_embd (ba_new 1)) 4 (demo_batch [(2, 0), (0, 1), (3, 0)])" "0 < (2::nat)" "0 < ba_n_pos_per_embd (ba_new 1)"
  "length (ba_seq_pos (ba_new 1)) = LLAMA_MAX_SEQ"
  by (auto simp: inp_ok_def demo_batch_def Let_def ba_new_def less_Suc_eq nth_Cons split: nat.splits)

lemma demo_n: "nat (lb_n_tokens (demo_batch [(2, 0), (0, 1), (3, 0)])) = 3"
  by (simp add: demo_batch_def)

subsection \<open>\<open>init\<close>\<close>

text \<open>C18: a batch that \<open>init\<close> accepts has consistent tables and no used token; the positions of every
  sequence are contiguous, and where the memory holds the sequence they start right after its last
  position (for a batch of embeddings, possibly at that position).\<close>

theorem init_accepts:
  assumes "ba_init inp vocab_n mem n_embd n_seq_max output_all a0 = Some (True, a)"
    and "inp_ok (ba_n_pos_per_embd a0) n_embd inp" "0 < n_seq_max" "0 < ba_n_pos_per_embd a0" "length (ba_seq_pos a0) = LLAMA_MAX_SEQ"
  shows "ba_ok a \<and> unused a = {..<nat (lb_n_tokens inp)} \<and>
    (\<forall>s < n_seq_max. let P = batch_positions (ba_batch a) (nat (lb_n_tokens inp)) (int s) in
      P = {} \<or> P = {Min P..Max P} \<and> (\<forall>mn mx p0. mem = Some (mn, mx) \<longrightarrow> mx (int s) = Some p0 \<longrightarrow> 0 \<le> p0 \<longrightarrow>
        Min P = p0 + 1 \<or> lb_token inp = None \<and> Min P = p0))"
  unfolding Let_def using ba_init_ok(1,2) [OF assms] ba_init_ok(6) [OF assms _ refl] by blast

theorem init_accepts_witness:
  "ba_ok demo_ba \<and> unused demo_ba = {..<3} \<and> batch_positions (ba_batch demo_ba) 3 0 = {2..3}"
proof -
  note acc = init_accepts [OF demo_ba_init demo_inp, unfolded demo_n Let_def]
  let ?P = "batch_positions (ba_batch demo_ba) 3 (int 0)"
  have at: "0 \<in> set (tok_ids (ba_batch demo_ba) 0)" "0 \<in> set (tok_ids (ba_batch demo_ba) 2)" "0 \<notin> set (tok_ids (ba_batch demo_ba) 1)"
    "the (lb_pos (ba_batch demo_ba)) ! 0 = 2" "the (lb_pos (ba_batch demo_ba)) ! 2 = 3"
    by code_simp+
  have P: "?P = {2, 3}" using at by (simp add: numeral_3_eq_3 batch_positions_Suc) (simp add: numeral_2_eq_2 batch_positions_def insert_commute)
  have "?P = {} \<or> ?P = {Min ?P..Max ?P}" using acc by fastforce
  then have "?P = {Min ?P..Max ?P}" using P by blast
  moreover have "Min {2, 3 :: int} = 2" "Max {2, 3 :: int} = 3" by simp_all
  ultimately show ?thesis using acc P by simp
qed

lemma demo_ba_ok: "ba_ok demo_ba" "unused demo_ba = {..<3}" "ba_n_used demo_ba = 0" "ba_get_n_tokens demo_ba = 3"
  using ba_init_ok(1-4) [OF demo_ba_init demo_inp] by (simp_all add: demo_n)

text \<open>The check of decreasing positions compares with a value that is never updated, so a batch whose
  positions go down within a sequence is accepted.\<close>

theorem init_accepts_decreasing:
  "map_option fst (ba_init (demo_batch [(1, 0), (0, 0)]) 10 None 4 1 False (ba_new 1)) = Some True"
  by code_simp

text \<open>A batch of embeddings without positions gets one position per token, but \<open>ubatch_add\<close> reads
  \<open>n_pos_per_embd\<close> of them: with four positions per embedding the read is outside the vector.\<close>

definition demo_embd :: llama_batch where
  "demo_embd = \<lparr>lb_n_tokens = 1, lb_token = None, lb_embd = Some [1, 2], lb_pos = None, lb_n_seq_id = None, lb_seq_id = None,
     lb_logits = None\<rparr>"

theorem embd_without_pos_oob:
  "map_option (\<lambda>(b, a). (b, ba_split_simple 8 a = None)) (ba_init demo_embd 10 None 2 1 False (ba_new 4)) = Some (True, True)"
  by code_simp

subsection \<open>The splits\<close>

text \<open>C19: splitting an accepted batch always ends.  Whichever of the three functions is used and
  whatever the micro-batch size, the loop of \<open>init_batch\<close> returns, every token has been used, and the
  micro-batches are those of lists of tokens that partition the batch; \<open>out_ids\<close> lists the outputs in
  the order of the micro-batches.\<close>

theorem splits_total:
  assumes "ba_ok a" "unused a = {..<ba_get_n_tokens a}" "ba_n_used a = 0" "ba_out_ids a = []"
    and "split = ba_split_simple nb \<or> split = ba_split_seq nb \<or> split = ba_split_equal nb sequential \<and> \<not> (sequential \<and> ba_has_cpl a)"
  shows "\<exists>idxss ubs a'. split_loop split [] a = Some (ubs, a') \<and> ba_get_n_used a' = ba_get_n_tokens a \<and>
    mset (concat idxss) = mset [0..<ba_get_n_tokens a] \<and>
    list_all2 (\<lambda>idxs ub. idxs \<noteq> [] \<and> (\<exists>k e. ub_of a idxs k e ub)) idxss ubs \<and>
    ba_get_out_ids a' = filter (tok_out (ba_batch a)) (concat idxss)"
proof -
  have "\<forall>i < ba_get_n_tokens a. \<not> ba_used a ! i" using assms(2) by (auto simp: unused_def)
  note fresh = fresh_inv [OF assms(1) this]
  have "\<exists>good parts ubs a'. split_loop split [] a = Some ([] @ ubs, a') \<and> split_done good a parts ubs \<and> unused a' = {} \<and>
      ba_batch a' = ba_batch a \<and> ba_n_used a' = ba_n_used a + card (unused a) \<and>
      ba_out_ids a' = ba_out_ids a @ filter (tok_out (ba_batch a)) (concat (map fst parts))"
    using assms(5)
  proof (elim disjE conjE)
    assume s: "split = ba_split_simple nb"
    show ?thesis unfolding s by (rule exI, rule simple.split_loop_gen [OF assms(1) fresh(1)])
  next
    assume s: "split = ba_split_seq nb"
    show ?thesis unfolding s by (rule exI, rule seqs.split_loop_gen [OF assms(1) TrueI])
  next
    assume s: "split = ba_split_equal nb sequential" and c: "\<not> (sequential \<and> ba_has_cpl a)"
    have "equal_inv sequential a" using fresh(2) c by (simp add: equal_inv_def)
    show ?thesis unfolding s by (rule exI, rule equal.split_loop_gen [OF assms(1) \<open>equal_inv sequential a\<close>])
  qed
  then obtain good parts ubs a' where r: "split_loop split [] a = Some (ubs, a')" "split_done good a parts ubs"
    "ba_n_used a' = ba_n_used a + card (unused a)" "ba_out_ids a' = ba_out_ids a @ filter (tok_out (ba_batch a)) (concat (map fst parts))"
    by (auto simp only: append_Nil)
  let ?idxss = "map fst parts"
  have "list_all2 (\<lambda>idxs ub. idxs \<noteq> [] \<and> (\<exists>k e. ub_of a idxs k e ub)) ?idxss ubs"
    unfolding list_all2_map1
    by (rule list_all2_mono [OF conjunct1 [OF r(2) [unfolded split_done_def]]]) (simp only: split_beta, blast)
  moreover have "mset (concat ?idxss) = mset [0..<ba_get_n_tokens a]"
    using r(2) assms(2) by (subst set_eq_iff_mset_eq_distinct [symmetric]) (auto simp: split_done_def lessThan_atLeast0)
  ultimately show ?thesis using r(1,3,4) assms(2-4)
    by (intro exI [of _ ?idxss] exI [of _ ubs] exI [of _ a']) (simp add: ba_get_n_used_def ba_get_out_ids_def)
qed

theorem splits_total_witness:
  "\<exists>idxss ubs a'. split_loop (ba_split_equal 2 False) [] demo_ba = Some (ubs, a') \<and> ba_get_n_used a' = ba_get_n_tokens demo_ba \<and>
    mset (concat idxss) = mset [0..<ba_get_n_tokens demo_ba] \<and>
    list_all2 (\<lambda>idxs ub. idxs \<noteq> [] \<and> (\<exists>k e. ub_of demo_ba idxs k e ub)) idxss ubs \<and>
    ba_get_out_ids a' = filter (tok_out (ba_batch demo_ba)) (concat idxss)"
proof (rule splits_total [OF demo_ba_ok(1) _ demo_ba_ok(3), where nb = 2 and sequential = False])
  show "unused demo_ba = {..<ba_get_n_tokens demo_ba}" by (simp add: demo_ba_ok)
  show "ba_out_ids demo_ba = []" by code_simp
qed simp

text \<open>C20: the micro-batches have the shape their users rely on.  \<open>split_simple\<close> takes consecutive
  tokens, \<open>split_seq\<close> goes forward through sequence sets that only shrink, \<open>split_equal\<close> takes equally
  many tokens from disjoint sequence sets, whose ids go up by one when the split is sequential.  The first
  two never exceed \<open>n_ubatch\<close>; \<open>split_equal\<close> takes at most \<open>n_ubatch + 1\<close> sets and exceeds \<open>n_ubatch\<close>
  only then, by one token.  A sequential split is only done without coupled sequences.\<close>

theorem split_shapes:
  assumes "ba_ok a" "\<forall>i < ba_get_n_tokens a. \<not> ba_used a ! i" "0 < nb" "\<not> (sequential \<and> ba_has_cpl a)"
  shows "(\<exists>parts ubs a'. split_loop (ba_split_simple nb) [] a = Some (ubs, a') \<and> split_done (simple_good nb a) a parts ubs \<and>
      (\<forall>ub \<in> set ubs. ub_n_tokens ub \<le> nb)) \<and>
    (\<exists>parts ubs a'. split_loop (ba_split_seq nb) [] a = Some (ubs, a') \<and> split_done (seq_good nb a) a parts ubs \<and>
      (\<forall>ub \<in> set ubs. ub_n_tokens ub \<le> nb)) \<and>
    (\<exists>parts ubs a'. split_loop (ba_split_equal nb sequential) [] a = Some (ubs, a') \<and>
      split_done (equal_good nb sequential a) a parts ubs \<and>
      (\<forall>ub \<in> set ubs. ub_n_seqs ub \<le> Suc nb \<and> (ub_n_tokens ub \<le> nb \<or> ub_n_tokens ub = Suc nb \<and> ub_n_seqs ub = Suc nb)))"
proof -
  note fresh = fresh_inv [OF assms(1,2)]
  have bound: "\<forall>ub \<in> set ubs. Q (ub_n_tokens ub) (ub_n_seqs ub)"
    if "split_done g a parts ubs" "\<And>idxs k e. g idxs k e \<Longrightarrow> Q (length idxs) k" for g parts ubs Q
  proof
    fix ub
    assume "ub \<in> set ubs"
    then obtain i where i: "i < length ubs" "ub = ubs ! i" by (auto simp: in_set_conv_nth)
    from that(1) have "list_all2 (\<lambda>(idxs, k, e) ub. idxs \<noteq> [] \<and> g idxs k e \<and> ub_of a idxs k e ub) parts ubs"
      by (simp add: split_done_def)
    from list_all2_nthD2 [OF this i(1)] show "Q (ub_n_tokens ub) (ub_n_seqs ub)" using that(2) i(2) by (auto simp: ub_of_def Let_def split: prod.splits)
  qed
  have inv: "equal_inv sequential a" using fresh(2) assms(4) by (simp add: equal_inv_def)
  have sizes: "simple_good nb a idxs k e \<Longrightarrow> length idxs \<le> nb" "seq_good nb a idxs k e \<Longrightarrow> length idxs \<le> nb" for idxs k e
    using assms(3) by (auto simp: simple_good_def seq_good_def)
  have size_eq: "k \<le> Suc nb \<and> (length idxs \<le> nb \<or> length idxs = Suc nb \<and> k = Suc nb)" if "equal_good nb sequential a idxs k e" for idxs k e
    using that by (auto simp: equal_good_def le_max_iff_disj)
  note runs = simple.split_loop_gen [OF assms(1) fresh(1), of nb "[]", unfolded append_Nil]
    seqs.split_loop_gen [OF assms(1) TrueI, of nb "[]", unfolded append_Nil]
    equal.split_loop_gen [OF assms(1) inv, of nb "[]", unfolded append_Nil]
  show ?thesis
  proof (intro conjI)
    show "\<exists>parts ubs a'. split_loop (ba_split_simple nb) [] a = Some (ubs, a') \<and> split_done (simple_good nb a) a parts ubs \<and>
        (\<forall>ub \<in> set ubs. ub_n_tokens ub \<le> nb)"
      using runs(1) bound [of "simple_good nb a" _ _ "\<lambda>n k. n \<le> nb", OF _ sizes(1)] by (elim exE conjE) (intro exI conjI)
    show "\<exists>parts ubs a'. split_loop (ba_split_seq nb) [] a = Some (ubs, a') \<and> split_done (seq_good nb a) a parts ubs \<and>
        (\<forall>ub \<in> set ubs. ub_n_tokens ub \<le> nb)"
      using runs(2) bound [of "seq_good nb a" _ _ "\<lambda>n k. n \<le> nb", OF _ sizes(2)] by (elim exE conjE) (intro exI conjI)
    show "\<exists>parts ubs a'. split_loop (ba_split_equal nb sequential) [] a = Some (ubs, a') \<and>
        split_done (equal_good nb sequential a) a parts ubs \<and>
        (\<forall>ub \<in> set ubs. ub_n_seqs ub \<le> Suc nb \<and> (ub_n_tokens ub \<le> nb \<or> ub_n_tokens ub = Suc nb \<and> ub_n_seqs ub = Suc nb))"
      using runs(3) bound [of "equal_good nb sequential a" _ _ "\<lambda>n k. k \<le> Suc nb \<and> (n \<le> nb \<or> n = Suc nb \<and> k = Suc nb)", OF _ size_eq]
      by (elim exE conjE) (intro exI conjI)
  qed
qed

theorem split_shapes_witness:
  "(\<exists>parts ubs a'. split_loop (ba_split_simple 2) [] demo_ba = Some (ubs, a') \<and> split_done (simple_good 2 demo_ba) demo_ba parts ubs \<and>
      (\<forall>ub \<in> set ubs. ub_n_tokens ub \<le> 2)) \<and>
    (\<exists>parts ubs a'. split_loop (ba_split_seq 2) [] demo_ba = Some (ubs, a') \<and> split_done (seq_good 2 demo_ba) demo_ba parts ubs \<and>
      (\<forall>ub \<in> set ubs. ub_n_tokens ub \<le> 2)) \<and>
    (\<exists>parts ubs a'. split_loop (ba_split_equal 2 True) [] demo_ba = Some (ubs, a') \<and>
      split_done (equal_good 2 True demo_ba) demo_ba parts ubs \<and>
      (\<forall>ub \<in> set ubs. ub_n_seqs ub \<le> Suc 2 \<and> (ub_n_tokens ub \<le> 2 \<or> ub_n_tokens ub = Suc 2 \<and> ub_n_seqs ub = Suc 2)))"
proof (rule split_shapes [OF demo_ba_ok(1)])
  show "\<forall>i < ba_get_n_tokens demo_ba. \<not> ba_used demo_ba ! i" using demo_ba_ok(2,4) by (auto simp: unused_def)
  show "\<not> (True \<and> ba_has_cpl demo_ba)" by code_simp
qed simp

text \<open>The extra token is real: with \<open>n_ubatch = 1\<close> and two sequences \<open>split_equal\<close> returns two tokens.\<close>

theorem split_equal_overshoots:
  "map_option (\<lambda>(ub, a). ub_n_tokens ub) (ba_split_equal 1 False demo_ba) = Some 2"
  by code_simp

end
