(* ===== verification/Grammar.thy ===== *)
theory Grammar
  imports Prelude
begin

text \<open>
  The grammar that constrains sampling (src/llama-grammar.h and .cpp): matching.

  A rule is a vector of elements; \<open>ALT\<close> separates its alternates and \<open>END\<close> closes it.  A pointer
  \<open>const llama_grammar_element *\<close> into the rules is the pair of the rule and the index, \<open>pos + 1\<close> is
  \<open>gnext\<close>, and reading outside the rule is \<open>None\<close>.  A \<open>llama_grammar_stack\<close>, which is only used at
  its back, is a list with the back first.  Code points are \<open>nat\<close>: the values of the decoder stay
  below \<open>2 ^ 32\<close>.
\<close>

datatype gretype = GR_END | GR_ALT | GR_RULE_REF | GR_CHAR | GR_CHAR_NOT | GR_CHAR_RNG_UPPER | GR_CHAR_ALT | GR_CHAR_ANY

record grammar_element =
  ge_type :: gretype
  ge_value :: nat

record partial_utf8 =
  pu_value :: nat
  pu_n_remain :: int

type_synonym grammar_rule = "grammar_element list"
type_synonym grammar_rules = "grammar_rule list"
type_synonym gpos = "nat \<times> nat"
type_synonym grammar_stack = "gpos list"
type_synonym grammar_stacks = "grammar_stack list"

text \<open>A candidate points into its code points, which end with 0: \<open>gc_at\<close> is the offset.\<close>

record grammar_candidate =
  gc_index :: nat
  gc_code_points :: "nat list"
  gc_at :: nat
  gc_partial :: partial_utf8

definition gnext :: "gpos \<Rightarrow> gpos" where
  "gnext p = (fst p, Suc (snd p))"

definition elem_at :: "grammar_rules \<Rightarrow> gpos \<Rightarrow> grammar_element option" where
  "elem_at rs p = do { rule \<leftarrow> vget rs (fst p); vget rule (snd p) }"

definition is_end_elem :: "grammar_element \<Rightarrow> bool" where
  "is_end_elem e \<longleftrightarrow> ge_type e = GR_END \<or> ge_type e = GR_ALT"

definition is_end_of_sequence :: "grammar_rules \<Rightarrow> gpos \<Rightarrow> bool option" where
  "is_end_of_sequence rs p = map_option is_end_elem (elem_at rs p)"

definition is_char_element :: "grammar_element \<Rightarrow> bool" where
  "is_char_element e \<longleftrightarrow> ge_type e = GR_CHAR \<or> ge_type e = GR_CHAR_NOT \<or> ge_type e = GR_CHAR_ALT \<or>
     ge_type e = GR_CHAR_RNG_UPPER \<or> ge_type e = GR_CHAR_ANY"

subsection \<open>One character\<close>

definition is_positive :: "grammar_element \<Rightarrow> bool" where
  "is_positive e \<longleftrightarrow> ge_type e = GR_CHAR \<or> ge_type e = GR_CHAR_ANY"

text \<open>The loop of \<open>llama_grammar_match_char\<close> over the elements from \<open>pos\<close> on; \<open>i\<close> is the index of \<open>pos\<close>.\<close>

fun match_loop :: "grammar_rule \<Rightarrow> nat \<Rightarrow> bool \<Rightarrow> nat \<Rightarrow> (bool \<times> nat) option" where
  "match_loop (e # u # es) chr found i =
     (if ge_type u = GR_CHAR_RNG_UPPER then
        let found = found \<or> (ge_value e \<le> chr \<and> chr \<le> ge_value u) in
        (case es of
           [] \<Rightarrow> None
         | f # _ \<Rightarrow> if ge_type f = GR_CHAR_ALT then match_loop es chr found (i + 2) else Some (found, i + 2))
      else
        let found = (if ge_type e = GR_CHAR_ANY then True else found \<or> ge_value e = chr) in
        if ge_type u = GR_CHAR_ALT then match_loop (u # es) chr found (i + 1) else Some (found, i + 1))"
| "match_loop _ chr found i = None"

definition match_char :: "grammar_rules \<Rightarrow> gpos \<Rightarrow> nat \<Rightarrow> (bool \<times> gpos) option" where
  "match_char rs p chr = do {
     rule \<leftarrow> vget rs (fst p);
     e \<leftarrow> vget rule (snd p);
     guard (is_positive e \<or> ge_type e = GR_CHAR_NOT);
     (found, j) \<leftarrow> match_loop (drop (snd p) rule) chr False (snd p);
     Some (found = is_positive e, (fst p, j)) }"

fun match_partial_loop :: "grammar_rule \<Rightarrow> nat \<Rightarrow> nat \<Rightarrow> bool \<Rightarrow> bool option" where
  "match_partial_loop (e # u # es) low high positive =
     (if ge_type u = GR_CHAR_RNG_UPPER then
        if ge_value e \<le> high \<and> low \<le> ge_value u then Some positive
        else (case es of
           [] \<Rightarrow> None
         | f # _ \<Rightarrow> if ge_type f = GR_CHAR_ALT then match_partial_loop es low high positive else Some (\<not> positive))
      else if ge_type e = GR_CHAR_ANY then Some True
      else if low \<le> ge_value e \<and> ge_value e \<le> high then Some positive
      else if ge_type u = GR_CHAR_ALT then match_partial_loop (u # es) low high positive
      else Some (\<not> positive))"
| "match_partial_loop _ low high positive = None"

text \<open>The code points that the bytes so far can be completed to, \<open>low\<close> and \<open>high\<close>; the bits below the
  shift are zero, so the bitwise or adds.  A shift by 32 or more is undefined.\<close>

definition partial_range :: "nat \<Rightarrow> nat \<Rightarrow> nat \<times> nat" where
  "partial_range v n =
     (let low = u32 (int (v * 2 ^ (n * 6))); high = low + (2 ^ (n * 6) - 1) in
      (if low = 0 then if n = 2 then 2 ^ 11 else if n = 3 then 2 ^ 16 else low else low, high))"

definition match_partial_char :: "grammar_rules \<Rightarrow> gpos \<Rightarrow> partial_utf8 \<Rightarrow> bool option" where
  "match_partial_char rs p pu = do {
     rule \<leftarrow> vget rs (fst p);
     e \<leftarrow> vget rule (snd p);
     guard (is_positive e \<or> ge_type e = GR_CHAR_NOT);
     if pu_n_remain pu < 0 \<or> (pu_n_remain pu = 1 \<and> pu_value pu < 2) then Some False
     else do {
       guard (pu_n_remain pu \<le> 5);
       let (low, high) = partial_range (pu_value pu) (nat (pu_n_remain pu));
       match_partial_loop (drop (snd p) rule) low high (is_positive e) } }"

subsection \<open>\<open>llama_grammar_advance_stack\<close>\<close>

text \<open>Where the alternates of a rule start: the scan to the end of each, until \<open>END\<close>.\<close>

fun alt_offsets :: "grammar_rule \<Rightarrow> nat \<Rightarrow> nat \<Rightarrow> nat list option" where
  "alt_offsets [] start i = None"
| "alt_offsets (e # es) start i =
     (if ge_type e = GR_END then Some [start]
      else if ge_type e = GR_ALT then map_option ((#) start) (alt_offsets es (Suc i) (Suc i))
      else alt_offsets es start (Suc i))"

definition add_stack :: "grammar_stack \<Rightarrow> grammar_stacks \<Rightarrow> grammar_stacks" where
  "add_stack s ss = (if s \<in> set ss then ss else ss @ [s])"

text \<open>\<open>p\<close> on top of the stack unless it is at the end of its alternate.\<close>

definition push_pos :: "grammar_rules \<Rightarrow> gpos \<Rightarrow> grammar_stack \<Rightarrow> grammar_stack option" where
  "push_pos rs p s = do { e \<leftarrow> is_end_of_sequence rs p; Some (if e then s else p # s) }"

partial_function (option) advance_stack :: "grammar_rules \<Rightarrow> grammar_stack \<Rightarrow> grammar_stacks \<Rightarrow> grammar_stacks option" where
  [code]: "advance_stack rs stack new_stacks = (case stack of
     [] \<Rightarrow> Some (add_stack stack new_stacks)
   | pos # rest \<Rightarrow> do {
       e \<leftarrow> elem_at rs pos;
       if ge_type e = GR_RULE_REF then do {
         rule \<leftarrow> vget rs (ge_value e);
         alts \<leftarrow> alt_offsets rule 0 0;
         foldM (\<lambda>i new_stacks. do {
           s \<leftarrow> push_pos rs (gnext pos) rest;
           s \<leftarrow> push_pos rs (ge_value e, i) s;
           advance_stack rs s new_stacks }) alts new_stacks }
       else if ge_type e = GR_CHAR \<or> ge_type e = GR_CHAR_NOT \<or> ge_type e = GR_CHAR_ANY
       then Some (add_stack stack new_stacks)
       else None })"

subsection \<open>\<open>llama_grammar_accept\<close>\<close>

definition accept_one :: "grammar_rules \<Rightarrow> nat \<Rightarrow> grammar_stack \<Rightarrow> grammar_stacks \<Rightarrow> grammar_stacks option" where
  "accept_one rs chr stack stacks_new = (case stack of
     [] \<Rightarrow> Some stacks_new
   | back_pos # rest \<Rightarrow> do {
       (matched, pos) \<leftarrow> match_char rs back_pos chr;
       if matched then do { s \<leftarrow> push_pos rs pos rest; advance_stack rs s stacks_new }
       else Some stacks_new })"

definition grammar_accept :: "grammar_rules \<Rightarrow> grammar_stacks \<Rightarrow> nat \<Rightarrow> grammar_stacks option" where
  "grammar_accept rs stacks chr = foldM (accept_one rs chr) stacks []"

subsection \<open>\<open>llama_grammar_reject_candidates\<close>\<close>

text \<open>\<open>llama_grammar_reject_candidates\<close>, given the function for one stack.\<close>

definition reject_all :: "(grammar_stack \<Rightarrow> grammar_candidate list \<Rightarrow> grammar_candidate list option) \<Rightarrow>
    grammar_stacks \<Rightarrow> grammar_candidate list \<Rightarrow> grammar_candidate list option" where
  "reject_all f stacks cands = do {
     guard (stacks \<noteq> []);
     if cands = [] then Some [] else foldM f stacks cands }"

text \<open>The candidates that stay, as those to look at further and those rejected at this position.\<close>

fun reject_step :: "grammar_rules \<Rightarrow> gpos \<Rightarrow> grammar_candidate list \<Rightarrow> (grammar_candidate list \<times> grammar_candidate list) option" where
  "reject_step rs pos [] = Some ([], [])"
| "reject_step rs pos (tok # toks) = do {
     chr \<leftarrow> vget (gc_code_points tok) (gc_at tok);
     (next_here, reject_here) \<leftarrow>
       (if chr = 0 then
          if pu_n_remain (gc_partial tok) \<noteq> 0
          then do { m \<leftarrow> match_partial_char rs pos (gc_partial tok); Some ([], if m then [] else [tok]) }
          else Some ([], [])
        else do {
          (m, _) \<leftarrow> match_char rs pos chr;
          Some (if m then ([tok\<lparr>gc_at := gc_at tok + 1\<rparr>], []) else ([], [tok])) });
     (nexts, rejects) \<leftarrow> reject_step rs pos toks;
     Some (next_here @ nexts, reject_here @ rejects) }"

text \<open>With the stack empty every candidate that is not at its end is rejected.\<close>

fun reject_ended :: "grammar_candidate list \<Rightarrow> grammar_candidate list option" where
  "reject_ended [] = Some []"
| "reject_ended (tok # toks) = do {
     chr \<leftarrow> vget (gc_code_points tok) (gc_at tok);
     rejects \<leftarrow> reject_ended toks;
     Some (if chr \<noteq> 0 \<or> pu_n_remain (gc_partial tok) \<noteq> 0 then tok # rejects else rejects) }"

lemma reject_all_mono [partial_function_mono]:
  assumes "\<And>s c. mono_option (\<lambda>f. B s c f)"
  shows "mono_option (\<lambda>f. reject_all (\<lambda>s c. B s c f) stacks cands)"
  unfolding reject_all_def using assms by (intro partial_function_mono)

partial_function (option) reject_for_stack :: "grammar_rules \<Rightarrow> grammar_stack \<Rightarrow> grammar_candidate list \<Rightarrow> grammar_candidate list option" where
  [code]: "reject_for_stack rs stack cands = (case stack of
     [] \<Rightarrow> reject_ended cands
   | stack_pos # rest \<Rightarrow> do {
       (next_candidates, rejects) \<leftarrow> reject_step rs stack_pos cands;
       (_, stack_pos_after) \<leftarrow> match_char rs stack_pos 0;
       stack_after \<leftarrow> push_pos rs stack_pos_after rest;
       next_stacks \<leftarrow> advance_stack rs stack_after [];
       next_rejects \<leftarrow> reject_all (\<lambda>s c. reject_for_stack rs s c) next_stacks next_candidates;
       Some (rejects @ map (\<lambda>tok. tok\<lparr>gc_at := gc_at tok - 1\<rparr>) next_rejects) })"

definition reject_candidates :: "grammar_rules \<Rightarrow> grammar_stacks \<Rightarrow> grammar_candidate list \<Rightarrow> grammar_candidate list option" where
  "reject_candidates rs = reject_all (reject_for_stack rs)"

end
