(* ===== verification/GrammarLang.thy ===== *)
theory GrammarLang
  imports Grammar
begin

text \<open>
  The language of a grammar and what the stacks mean: a stack stands for the words that can still
  follow, \<open>advance_stack\<close> keeps that set while it brings a character to the top, and accepting a
  character takes the derivative.
\<close>

subsection \<open>Well-formed rules\<close>

text \<open>Elements that continue a character class, and the elements they may follow.\<close>

definition is_cont :: "grammar_element \<Rightarrow> bool" where
  "is_cont e \<longleftrightarrow> ge_type e = GR_CHAR_ALT \<or> ge_type e = GR_CHAR_RNG_UPPER"

definition adj_ok :: "grammar_element \<Rightarrow> grammar_element \<Rightarrow> bool" where
  "adj_ok a b \<longleftrightarrow> (ge_type b = GR_CHAR_ALT \<longrightarrow> ge_type a \<in> {GR_CHAR, GR_CHAR_NOT, GR_CHAR_ALT, GR_CHAR_RNG_UPPER}) \<and>
     (ge_type b = GR_CHAR_RNG_UPPER \<longrightarrow> ge_type a \<in> {GR_CHAR, GR_CHAR_NOT, GR_CHAR_ALT})"

definition rule_ok :: "nat \<Rightarrow> grammar_rule \<Rightarrow> bool" where
  "rule_ok n es \<longleftrightarrow> es \<noteq> [] \<and> ge_type (last es) = GR_END \<and> (\<forall>e \<in> set (butlast es). ge_type e \<noteq> GR_END) \<and>
     (\<forall>e \<in> set es. ge_type e = GR_RULE_REF \<longrightarrow> ge_value e < n) \<and> successively adj_ok es \<and> \<not> is_cont (hd es)"

definition rules_ok :: "grammar_rules \<Rightarrow> bool" where
  "rules_ok rs \<longleftrightarrow> (\<forall>rule \<in> set rs. rule_ok (length rs) rule)"

text \<open>A position where a sequence of elements starts or ends.\<close>

definition pos_ok :: "grammar_rules \<Rightarrow> gpos \<Rightarrow> bool" where
  "pos_ok rs p \<longleftrightarrow> (\<exists>e. elem_at rs p = Some e \<and> \<not> is_cont e)"

definition stack_ok :: "grammar_rules \<Rightarrow> grammar_stack \<Rightarrow> bool" where
  "stack_ok rs s \<longleftrightarrow> (\<forall>p \<in> set s. pos_ok rs p \<and> is_end_of_sequence rs p = Some False)"

lemma elem_at_Some: "elem_at rs p = Some e \<longleftrightarrow> fst p < length rs \<and> snd p < length (rs ! fst p) \<and> rs ! fst p ! snd p = e"
  by (auto simp: elem_at_def vget_def split: option.splits)

lemma is_end_of_elem: "elem_at rs p = Some e \<Longrightarrow> is_end_of_sequence rs p = Some (is_end_elem e)"
  by (simp add: is_end_of_sequence_def)

subsection \<open>Character classes\<close>

text \<open>The ranges of the class at the start of \<open>es\<close>, and the number of its elements.\<close>

fun class_ranges :: "grammar_rule \<Rightarrow> (nat \<times> nat) list" where
  "class_ranges [] = []"
| "class_ranges [e] = [(ge_value e, ge_value e)]"
| "class_ranges (e # u # es) =
     (if ge_type u = GR_CHAR_RNG_UPPER
      then (ge_value e, ge_value u) # (if es \<noteq> [] \<and> ge_type (hd es) = GR_CHAR_ALT then class_ranges es else [])
      else (ge_value e, ge_value e) # (if ge_type u = GR_CHAR_ALT then class_ranges (u # es) else []))"

fun class_len :: "grammar_rule \<Rightarrow> nat" where
  "class_len [] = 0"
| "class_len [e] = 1"
| "class_len (e # u # es) =
     (if ge_type u = GR_CHAR_RNG_UPPER then 2 + (if es \<noteq> [] \<and> ge_type (hd es) = GR_CHAR_ALT then class_len es else 0)
      else 1 + (if ge_type u = GR_CHAR_ALT then class_len (u # es) else 0))"

definition in_ranges :: "nat \<Rightarrow> (nat \<times> nat) list \<Rightarrow> bool" where
  "in_ranges c rs \<longleftrightarrow> (\<exists>(a, b) \<in> set rs. a \<le> c \<and> c \<le> b)"

text \<open>The characters the class stands for.\<close>

definition class_has :: "grammar_rule \<Rightarrow> nat \<Rightarrow> bool" where
  "class_has es c \<longleftrightarrow> (case ge_type (hd es) of GR_CHAR_ANY \<Rightarrow> True | GR_CHAR_NOT \<Rightarrow> \<not> in_ranges c (class_ranges es)
     | _ \<Rightarrow> in_ranges c (class_ranges es))"

lemma match_loop_class:
  assumes "successively adj_ok es" "es \<noteq> []" "ge_type (last es) = GR_END" "ge_type (hd es) \<in> {GR_CHAR, GR_CHAR_NOT, GR_CHAR_ALT}"
  shows "match_loop es c found i = Some (found \<or> in_ranges c (class_ranges es), i + class_len es) \<and>
    class_len es < length es \<and> \<not> is_cont (es ! class_len es)"
  using assms
proof (induction es c found i rule: match_loop.induct)
  case (1 e u es c found i)
  show ?case
  proof (cases "ge_type u = GR_CHAR_RNG_UPPER")
    case True
    then obtain f es' where es: "es = f # es'" using "1.prems"(3) by (cases es) auto
    have "ge_type f \<noteq> GR_CHAR_RNG_UPPER" using "1.prems"(1) True by (auto simp: es adj_ok_def)
    then show ?thesis using 1 True by (cases "ge_type f = GR_CHAR_ALT") (auto simp: es is_cont_def in_ranges_def)
  next
    case False
    then show ?thesis using 1 by (cases "ge_type u = GR_CHAR_ALT") (auto simp: is_cont_def in_ranges_def)
  qed
qed auto

lemma class_any:
  assumes "successively adj_ok es" "es \<noteq> []" "ge_type (last es) = GR_END" "ge_type (hd es) = GR_CHAR_ANY"
  shows "match_loop es c False i = Some (True, i + class_len es) \<and> class_len es < length es \<and> \<not> is_cont (es ! class_len es)"
proof -
  obtain e u es' where es: "es = e # u # es'" using assms by (cases es rule: class_len.cases) auto
  then have "ge_type u \<noteq> GR_CHAR_ALT" "ge_type u \<noteq> GR_CHAR_RNG_UPPER" using assms(1,4) by (auto simp: adj_ok_def)
  then show ?thesis using assms(4) by (simp add: es is_cont_def)
qed

lemma rule_suffix:
  assumes "rule_ok n rule" "i < length rule"
  shows "successively adj_ok (drop i rule)" "drop i rule \<noteq> []" "ge_type (last (drop i rule)) = GR_END" "hd (drop i rule) = rule ! i"
proof -
  have "successively adj_ok (take i rule @ drop i rule)" using assms(1) by (simp add: rule_ok_def)
  then show "successively adj_ok (drop i rule)" unfolding successively_append_iff by blast
qed (use assms in \<open>auto simp: rule_ok_def hd_drop_conv_nth\<close>)

text \<open>Position \<open>p\<close> reads \<open>c\<close> and the sequence goes on at \<open>q\<close>.\<close>

definition is_char_start :: "grammar_element \<Rightarrow> bool" where
  "is_char_start e \<longleftrightarrow> ge_type e = GR_CHAR \<or> ge_type e = GR_CHAR_NOT \<or> ge_type e = GR_CHAR_ANY"

definition class_at :: "grammar_rules \<Rightarrow> gpos \<Rightarrow> grammar_rule" where
  "class_at rs p = drop (snd p) (rs ! fst p)"

definition after_class :: "grammar_rules \<Rightarrow> gpos \<Rightarrow> gpos" where
  "after_class rs p = (fst p, snd p + class_len (class_at rs p))"

definition char_pos :: "grammar_rules \<Rightarrow> gpos \<Rightarrow> bool" where
  "char_pos rs p \<longleftrightarrow> (\<exists>e. elem_at rs p = Some e \<and> is_char_start e)"

lemma char_pos_ok: "char_pos rs p \<Longrightarrow> pos_ok rs p \<and> is_end_of_sequence rs p = Some False"
  by (auto simp: char_pos_def pos_ok_def is_char_start_def is_cont_def is_end_of_elem is_end_elem_def)

lemma match_char_class:
  assumes ok: "rules_ok rs" and p: "char_pos rs p"
  shows "match_char rs p c = Some (class_has (class_at rs p) c, after_class rs p)" and "pos_ok rs (after_class rs p)"
proof -
  obtain r i where pi: "p = (r, i)" by (cases p)
  obtain e where e: "r < length rs" "i < length (rs ! r)" "rs ! r ! i = e" "is_char_start e" using p by (auto simp: char_pos_def elem_at_Some pi)
  have rule: "rule_ok (length rs) (rs ! r)" using ok e(1) by (simp add: rules_ok_def)
  note suf = rule_suffix [OF rule e(2)]
  let ?es = "drop i (rs ! r)"
  have hd: "hd ?es = e" using suf(4) e(3) by simp
  have loop: "match_loop ?es c False i = Some (if ge_type e = GR_CHAR_ANY then True else in_ranges c (class_ranges ?es), i + class_len ?es)"
    and len: "class_len ?es < length ?es" "\<not> is_cont (?es ! class_len ?es)"
    using match_loop_class [OF suf(1-3), of c False i] class_any [OF suf(1-3), of c i] e(4) hd by (auto simp: is_char_start_def)
  show "match_char rs p c = Some (class_has (class_at rs p) c, after_class rs p)"
    using e loop hd by (auto simp: match_char_def pi class_at_def after_class_def class_has_def is_char_start_def is_positive_def)
  show "pos_ok rs (after_class rs p)"
    using e(1,2) len by (auto simp: pos_ok_def elem_at_Some after_class_def class_at_def pi)
qed

subsection \<open>Alternates\<close>

definition alt_start :: "grammar_rules \<Rightarrow> nat \<Rightarrow> nat \<Rightarrow> bool" where
  "alt_start rs r i \<longleftrightarrow> r < length rs \<and> i < length (rs ! r) \<and> (i = 0 \<or> ge_type (rs ! r ! (i - 1)) = GR_ALT)"

lemma positions_Cons:
  "{k. k < length (e # es) \<and> Q ((e # es) ! k)} = (if Q e then {0} else {}) \<union> Suc ` {k. k < length es \<and> Q (es ! k)}"
proof (rule set_eqI)
  fix k
  show "k \<in> {k. k < length (e # es) \<and> Q ((e # es) ! k)} \<longleftrightarrow> k \<in> (if Q e then {0} else {}) \<union> Suc ` {k. k < length es \<and> Q (es ! k)}"
    by (cases k) auto
qed

lemma alt_offsets_set:
  assumes "es \<noteq> []" "ge_type (last es) = GR_END" "\<forall>e \<in> set (butlast es). ge_type e \<noteq> GR_END"
  shows "\<exists>offs. alt_offsets es start i = Some offs \<and>
    set offs = insert start ((\<lambda>k. Suc (i + k)) ` {k. k < length es \<and> ge_type (es ! k) = GR_ALT})"
  using assms
proof (induction es arbitrary: start i)
  case (Cons e es)
  show ?case
  proof (cases "es = []")
    case True
    then show ?thesis using Cons.prems by auto
  next
    case False
    then have es: "ge_type e \<noteq> GR_END" "ge_type (last es) = GR_END" "\<forall>e \<in> set (butlast es). ge_type e \<noteq> GR_END"
      using Cons.prems by auto
    have shift: "(\<lambda>k. Suc (i + k)) ` {k. k < length (e # es) \<and> ge_type ((e # es) ! k) = GR_ALT} =
        (if ge_type e = GR_ALT then {Suc i} else {}) \<union> (\<lambda>k. Suc (Suc i + k)) ` {k. k < length es \<and> ge_type (es ! k) = GR_ALT}"
      unfolding positions_Cons [of e es "\<lambda>e. ge_type e = GR_ALT"] by (auto simp: image_Un image_image)
    show ?thesis
      using Cons.IH [OF False es(2,3), of "Suc i" "Suc i"] Cons.IH [OF False es(2,3), of start "Suc i"] es(1)
      unfolding shift by (cases "ge_type e = GR_ALT") auto
  qed
qed simp

lemma alt_offsets_rule:
  assumes ok: "rules_ok rs" and r: "r < length rs"
  shows "\<exists>offs. alt_offsets (rs ! r) 0 0 = Some offs \<and> set offs = {i. alt_start rs r i}"
proof -
  let ?es = "rs ! r"
  have rule: "rule_ok (length rs) ?es" using ok r by (simp add: rules_ok_def)
  then have es: "?es \<noteq> []" "ge_type (last ?es) = GR_END" "\<forall>e \<in> set (butlast ?es). ge_type e \<noteq> GR_END" by (auto simp: rule_ok_def)
  have "Suc k < length ?es" if k: "k < length ?es" "ge_type (?es ! k) = GR_ALT" for k
  proof (rule ccontr)
    assume "\<not> Suc k < length ?es"
    then have "k = length ?es - 1" using k(1) by simp
    then show False using es(1,2) k(2) by (simp add: last_conv_nth)
  qed
  moreover have "i - 1 < length ?es \<and> (i = 0 \<or> i = Suc (0 + (i - 1)))" if "i < length ?es" for i using that by auto
  ultimately have "insert 0 ((\<lambda>k. Suc (0 + k)) ` {k. k < length ?es \<and> ge_type (?es ! k) = GR_ALT}) = {i. alt_start rs r i}"
    using r es(1) unfolding alt_start_def by fastforce
  then show ?thesis using alt_offsets_set [OF es, of 0 0] by simp
qed

lemma alt_start_ok:
  assumes ok: "rules_ok rs" and i: "alt_start rs r i"
  shows "pos_ok rs (r, i)"
proof -
  have rule: "rule_ok (length rs) (rs ! r)" using ok i by (simp add: rules_ok_def alt_start_def)
  have il: "i < length (rs ! r)" "r < length rs" using i by (auto simp: alt_start_def)
  have "\<not> is_cont (rs ! r ! i)"
  proof (cases i)
    case 0
    then show ?thesis using rule il by (auto simp: rule_ok_def hd_conv_nth)
  next
    case (Suc j)
    then have "ge_type (rs ! r ! j) = GR_ALT" using i by (auto simp: alt_start_def)
    moreover have "adj_ok (rs ! r ! j) (rs ! r ! Suc j)" using rule il Suc by (auto simp: rule_ok_def successively_conv_nth)
    ultimately show ?thesis using Suc by (auto simp: adj_ok_def is_cont_def)
  qed
  then show ?thesis using il by (auto simp: pos_ok_def elem_at_Some)
qed

lemma after_ref_ok:
  assumes ok: "rules_ok rs" and e: "elem_at rs p = Some e" "ge_type e = GR_RULE_REF"
  shows "pos_ok rs (gnext p)" and "ge_value e < length rs"
proof -
  let ?es = "rs ! fst p" and ?i = "snd p"
  have il: "fst p < length rs" "?i < length ?es" "?es ! ?i = e" using e(1) by (auto simp: elem_at_Some)
  have rule: "rule_ok (length rs) ?es" using ok il(1) by (simp add: rules_ok_def)
  then show "ge_value e < length rs" using e(2) il nth_mem [OF il(2)] unfolding rule_ok_def by auto
  have "?i \<noteq> length ?es - 1" using rule e(2) il by (auto simp: rule_ok_def last_conv_nth)
  then have "Suc ?i < length ?es" using il(2) by linarith
  moreover from this have "adj_ok (?es ! ?i) (?es ! Suc ?i)" using rule by (auto simp: rule_ok_def successively_conv_nth)
  ultimately show "pos_ok rs (gnext p)" using il e(2) by (auto simp: pos_ok_def elem_at_Some gnext_def adj_ok_def is_cont_def)
qed

subsection \<open>The language\<close>

text \<open>The words a sequence of elements derives, from a position to the end of its alternate.\<close>

inductive derives :: "grammar_rules \<Rightarrow> gpos \<Rightarrow> nat list \<Rightarrow> bool" for rs where
  derives_end: "is_end_of_sequence rs p = Some True \<Longrightarrow> derives rs p []"
| derives_char: "char_pos rs p \<Longrightarrow> class_has (class_at rs p) c \<Longrightarrow> derives rs (after_class rs p) w \<Longrightarrow> derives rs p (c # w)"
| derives_ref: "elem_at rs p = Some e \<Longrightarrow> ge_type e = GR_RULE_REF \<Longrightarrow> alt_start rs (ge_value e) i \<Longrightarrow>
    derives rs (ge_value e, i) u \<Longrightarrow> derives rs (gnext p) v \<Longrightarrow> derives rs p (u @ v)"

text \<open>The language of a rule, and of a stack.\<close>

definition rule_lang :: "grammar_rules \<Rightarrow> nat \<Rightarrow> nat list set" where
  "rule_lang rs r = {w. \<exists>i. alt_start rs r i \<and> derives rs (r, i) w}"

fun stack_lang :: "grammar_rules \<Rightarrow> grammar_stack \<Rightarrow> nat list set" where
  "stack_lang rs [] = {[]}"
| "stack_lang rs (p # s) = {u @ v | u v. derives rs p u \<and> v \<in> stack_lang rs s}"

definition stacks_lang :: "grammar_rules \<Rightarrow> grammar_stacks \<Rightarrow> nat list set" where
  "stacks_lang rs ss = (\<Union>s \<in> set ss. stack_lang rs s)"

lemma derives_at_end:
  assumes "is_end_of_sequence rs p = Some True"
  shows "derives rs p w \<longleftrightarrow> w = []"
proof
  assume "derives rs p w"
  then show "w = []"
    using assms by cases (auto simp: char_pos_def is_end_of_elem is_end_elem_def is_char_start_def)
qed (use assms derives_end in simp)

lemma derives_at_char:
  assumes "char_pos rs p"
  shows "derives rs p w \<longleftrightarrow> (\<exists>c v. w = c # v \<and> class_has (class_at rs p) c \<and> derives rs (after_class rs p) v)"
proof
  assume "derives rs p w"
  then show "\<exists>c v. w = c # v \<and> class_has (class_at rs p) c \<and> derives rs (after_class rs p) v"
    using assms by cases (auto simp: char_pos_def is_end_of_elem is_end_elem_def is_char_start_def)
qed (use assms derives_char in blast)

lemma derives_at_ref:
  assumes "elem_at rs p = Some e" "ge_type e = GR_RULE_REF"
  shows "derives rs p w \<longleftrightarrow> (\<exists>u v. w = u @ v \<and> u \<in> rule_lang rs (ge_value e) \<and> derives rs (gnext p) v)"
proof
  assume "derives rs p w"
  then show "\<exists>u v. w = u @ v \<and> u \<in> rule_lang rs (ge_value e) \<and> derives rs (gnext p) v"
    using assms by cases (auto simp: char_pos_def is_end_of_elem is_end_elem_def is_char_start_def rule_lang_def)
next
  assume "\<exists>u v. w = u @ v \<and> u \<in> rule_lang rs (ge_value e) \<and> derives rs (gnext p) v"
  then show "derives rs p w" using derives_ref [OF assms] unfolding rule_lang_def by blast
qed

lemma push_pos_lang:
  assumes p: "pos_ok rs p" and s: "stack_ok rs s"
  shows "\<exists>s'. push_pos rs p s = Some s' \<and> stack_ok rs s' \<and> stack_lang rs s' = {u @ v | u v. derives rs p u \<and> v \<in> stack_lang rs s}"
proof -
  obtain e where e: "elem_at rs p = Some e" "\<not> is_cont e" using p by (auto simp: pos_ok_def)
  show ?thesis
  proof (cases "is_end_elem e")
    case True
    then show ?thesis using s e(1) derives_at_end by (auto simp: push_pos_def is_end_of_elem)
  next
    case False
    then show ?thesis using s e(1) p by (auto simp: push_pos_def is_end_of_elem stack_ok_def)
  qed
qed

end
