(* ===== verification/GrammarRun.thy ===== *)
theory GrammarRun
  imports Grammar
begin

text \<open>
  The two UTF-8 decoders of src/llama-grammar.cpp: the one of the parser, which decodes one code
  point and trusts its input, and the one of the sampler, which decodes a piece that may start and
  end in the middle of a sequence.  A C string is the list of its bytes before the terminating 0.
\<close>

definition byte :: "char \<Rightarrow> nat" where
  "byte c = of_char c"

lemma byte_less: "byte c < 256"
  by (simp add: byte_def)

definition c_str :: "string \<Rightarrow> string" where
  "c_str s = takeWhile (\<lambda>c. byte c \<noteq> 0) s"

subsection \<open>One code point\<close>

definition utf8_lookup :: "nat \<Rightarrow> nat" where
  "utf8_lookup highbits = [1, 1, 1, 1, 1, 1, 1, 1, 1, 1, 1, 1, 2, 2, 3, 4] ! highbits"

fun decode_rest :: "nat \<Rightarrow> nat \<Rightarrow> string \<Rightarrow> nat \<times> string" where
  "decode_rest 0 value cs = (value, cs)"
| "decode_rest (Suc n) value [] = (value, [])"
| "decode_rest (Suc n) value (c # cs) = decode_rest n (value * 64 + byte c mod 64) cs"

definition decode_utf8 :: "char \<Rightarrow> string \<Rightarrow> nat \<times> string" where
  "decode_utf8 c cs =
     (let len = utf8_lookup (byte c div 16) in decode_rest (len - 1) (byte c mod 2 ^ (8 - len)) cs)"

subsection \<open>A piece\<close>

definition utf8_lookup_partial :: "nat \<Rightarrow> nat" where
  "utf8_lookup_partial highbits = [1, 1, 1, 1, 1, 1, 1, 1, 0, 0, 0, 0, 2, 2, 3, 4] ! highbits"

text \<open>\<open>None\<close> for an invalid sequence, otherwise the value, the bytes missing and the rest.\<close>

fun decode_continue :: "string \<Rightarrow> nat \<Rightarrow> nat \<Rightarrow> (nat \<times> nat \<times> string) option" where
  "decode_continue cs value 0 = Some (value, 0, cs)"
| "decode_continue [] value (Suc n) = Some (value, Suc n, [])"
| "decode_continue (c # cs) value (Suc n) =
     (if byte c div 64 \<noteq> 2 then None else decode_continue cs ((value * 64 + byte c mod 64) mod 2 ^ 32) n)"

fun decode_inner :: "string \<Rightarrow> nat \<Rightarrow> nat \<Rightarrow> nat \<times> nat \<times> string" where
  "decode_inner cs value 0 = (value, 0, cs)"
| "decode_inner [] value (Suc n) = (value, Suc n, [])"
| "decode_inner (c # cs) value (Suc n) = decode_inner cs ((value * 64 + byte c mod 64) mod 2 ^ 32) n"

lemma decode_inner_shorter: "decode_inner cs v n = (v', n', rest) \<Longrightarrow> length rest \<le> length cs"
  by (induction cs v n rule: decode_inner.induct) auto

text \<open>The loop over whole sequences: \<open>None\<close> for an invalid one, otherwise the code points with the last
  value and the number of bytes it misses.\<close>

function decode_seqs :: "string \<Rightarrow> nat list \<Rightarrow> nat \<Rightarrow> int \<Rightarrow> (nat list \<times> nat \<times> int) option" where
  "decode_seqs [] cps value n_remain = Some (cps, value, n_remain)"
| "decode_seqs (c # cs) cps value n_remain =
     (let len = utf8_lookup_partial (byte c div 16) in
      if len = 0 then None
      else (case decode_inner cs (byte c mod 2 ^ (8 - len)) (len - 1) of
        (v, n, rest) \<Rightarrow> decode_seqs rest (if n = 0 then cps @ [v] else cps) v (int n)))"
  by pat_completeness auto
termination
proof (relation "measure (\<lambda>(cs, _). length cs)")
  fix c cs cps v0 n_remain x xa y xb ya
  assume "(xa, y) = decode_inner cs (byte c mod 2 ^ (8 - x)) (x - 1)" "(xb, ya) = y"
  then have "decode_inner cs (byte c mod 2 ^ (8 - x)) (x - 1) = (xa, xb, ya)" by simp
  then have "length ya \<le> length cs" by (rule decode_inner_shorter)
  then show "((ya, if xb = 0 then cps @ [xa] else cps, xa, int xb), c # cs, cps, v0, n_remain) \<in> measure (\<lambda>(cs, _). length cs)"
    by simp
qed simp

definition decode_piece :: "string \<Rightarrow> partial_utf8 \<Rightarrow> nat list \<times> partial_utf8" where
  "decode_piece src start =
     (let invalid = \<lparr>pu_value = 0, pu_n_remain = - 1\<rparr> in
      case (if 0 < pu_n_remain start
            then map_option (\<lambda>(v, n, rest). (if n = 0 then [v] else [], v, int n, rest))
              (decode_continue (c_str src) (pu_value start) (nat (pu_n_remain start)))
            else Some ([], pu_value start, pu_n_remain start, c_str src)) of
        None \<Rightarrow> ([0], invalid)
      | Some (cps, value, n_remain, rest) \<Rightarrow>
          (case decode_seqs rest cps value n_remain of
             None \<Rightarrow> ([0], invalid)
           | Some (cps, value, n_remain) \<Rightarrow> (cps @ [0], \<lparr>pu_value = value, pu_n_remain = n_remain\<rparr>)))"

text \<open>
  The grammar as an object (src/llama-grammar.cpp): the check for left recursion, construction,
  accepting tokens and masking the candidates of a sampler.

  The vocabulary enters as two functions, the piece of a token and whether it ends the generation.
  A trigger pattern is its \<open>std::regex_match\<close>: the position and length of every group for a string
  that matches.
\<close>

subsection \<open>\<open>llama_grammar_detect_left_recursion\<close>\<close>

record lr_state =
  lr_visited :: "bool list"
  lr_in_progress :: "bool list"
  lr_may_be_empty :: "bool list"

text \<open>Whether one of the alternates has no elements.\<close>

fun has_empty_alternate :: "grammar_rule \<Rightarrow> bool \<Rightarrow> bool" where
  "has_empty_alternate [] at_rule_start = False"
| "has_empty_alternate (e # es) at_rule_start =
     (if is_end_elem e then at_rule_start \<or> has_empty_alternate es True else has_empty_alternate es False)"

definition lr_flag :: "nat \<Rightarrow> bool \<Rightarrow> lr_state \<Rightarrow> lr_state option" where
  "lr_flag r b st = do { v \<leftarrow> vset (lr_in_progress st) r b; Some (st\<lparr>lr_in_progress := v\<rparr>) }"

partial_function (option) detect_left_recursion :: "grammar_rules \<Rightarrow> nat \<Rightarrow> lr_state \<Rightarrow> (bool \<times> lr_state) option" where
  [code]: "detect_left_recursion rs r st = do {
     in_progress \<leftarrow> vget (lr_in_progress st) r;
     if in_progress then Some (True, st) else do {
       st \<leftarrow> lr_flag r True st;
       rule \<leftarrow> vget rs r;
       may_be_empty \<leftarrow> (if has_empty_alternate rule True then vset (lr_may_be_empty st) r True else Some (lr_may_be_empty st));
       (found, _, st) \<leftarrow> foldM (\<lambda>e t. case t of (found, recurse, st) \<Rightarrow>
           if found then Some t
           else if ge_type e = GR_RULE_REF \<and> recurse then do {
             (rec, st) \<leftarrow> detect_left_recursion rs (ge_value e) st;
             if rec then Some (True, recurse, st) else do {
               m \<leftarrow> vget (lr_may_be_empty st) (ge_value e);
               Some (False, m, st) } }
           else Some (False, is_end_elem e, st)) rule (False, True, st\<lparr>lr_may_be_empty := may_be_empty\<rparr>);
       if found then Some (True, st) else do {
         st \<leftarrow> lr_flag r False st;
         visited \<leftarrow> vset (lr_visited st) r True;
         Some (False, st\<lparr>lr_visited := visited\<rparr>) } } }"

text \<open>The loop over the rules in \<open>llama_grammar_init_impl\<close>, which stops at the first left recursion.\<close>

definition lr_check_rule :: "grammar_rules \<Rightarrow> nat \<Rightarrow> bool \<times> lr_state \<Rightarrow> (bool \<times> lr_state) option" where
  "lr_check_rule rs i = (\<lambda>(found, st). if found then Some (found, st) else do {
     visited \<leftarrow> vget (lr_visited st) i;
     if visited then Some (False, st) else detect_left_recursion rs i st })"

definition left_recursive :: "grammar_rules \<Rightarrow> bool option" where
  "left_recursive rs = map_option fst (foldM (lr_check_rule rs) [0..<length rs]
     (False, \<lparr>lr_visited = replicate (length rs) False, lr_in_progress = replicate (length rs) False, lr_may_be_empty = replicate (length rs) False\<rparr>))"

subsection \<open>\<open>llama_grammar_init_impl\<close>\<close>

record grammar =
  gm_rules :: grammar_rules
  gm_stacks :: grammar_stacks
  gm_partial :: partial_utf8
  gm_lazy :: bool
  gm_awaiting_trigger :: bool
  gm_trigger_buffer :: string
  gm_trigger_tokens :: "llama_token list"
  gm_trigger_patterns :: "(string \<Rightarrow> (nat \<times> nat) list option) list"

text \<open>A rule is copied up to its first \<open>END\<close>.\<close>

fun copy_rule :: "grammar_rule \<Rightarrow> grammar_rule option" where
  "copy_rule [] = None"
| "copy_rule (e # es) =
     (if ge_type e = GR_END then Some [\<lparr>ge_type = GR_END, ge_value = 0\<rparr>] else map_option ((#) e) (copy_rule es))"

definition init_stacks :: "grammar_rules \<Rightarrow> nat \<Rightarrow> grammar_stacks option" where
  "init_stacks rs start = do {
     rule \<leftarrow> vget rs start;
     alts \<leftarrow> alt_offsets rule 0 0;
     foldM (\<lambda>i stacks. do { s \<leftarrow> push_pos rs (start, i) []; advance_stack rs s stacks }) alts [] }"

text \<open>What the two versions share; \<open>None\<close> inside is the null pointer.\<close>

definition grammar_build :: "grammar_rules \<Rightarrow> nat \<Rightarrow> bool \<Rightarrow> llama_token list \<Rightarrow> (string \<Rightarrow> (nat \<times> nat) list option) list \<Rightarrow> grammar option option" where
  "grammar_build rules start lazy trigger_tokens trigger_patterns = do {
     vec_rules \<leftarrow> mapM copy_rule rules;
     lr \<leftarrow> left_recursive vec_rules;
     if lr then Some None else do {
       stacks \<leftarrow> init_stacks vec_rules start;
       Some (Some \<lparr>gm_rules = vec_rules, gm_stacks = stacks, gm_partial = \<lparr>pu_value = 0, pu_n_remain = 0\<rparr>, gm_lazy = lazy,
         gm_awaiting_trigger = lazy, gm_trigger_buffer = [], gm_trigger_tokens = trigger_tokens, gm_trigger_patterns = trigger_patterns\<rparr>) } }"

definition grammar_init :: "grammar_rules \<Rightarrow> nat \<Rightarrow> grammar option option" where
  "grammar_init rules start = grammar_build rules start False [] []"

subsection \<open>Accepting\<close>

text \<open>\<open>llama_grammar_accept_str\<close>: \<open>True\<close> when it throws because no stack is left.\<close>

definition grammar_accept_str :: "grammar \<Rightarrow> string \<Rightarrow> (bool \<times> grammar) option" where
  "grammar_accept_str g piece = do {
     let (code_points, partial) = decode_piece piece (gm_partial g);
     stacks \<leftarrow> foldM (\<lambda>chr stacks. grammar_accept (gm_rules g) stacks chr) (butlast code_points) (gm_stacks g);
     Some (stacks = [], g\<lparr>gm_stacks := stacks, gm_partial := partial\<rparr>) }"

text \<open>Where the constrained text starts: the first group that matched something, else the whole match.\<close>

definition trigger_start :: "(nat \<times> nat) list \<Rightarrow> nat option" where
  "trigger_start groups = (case List.find (\<lambda>(pos, len). 0 < len) (tl groups) of
     Some (pos, len) \<Rightarrow> Some pos
   | None \<Rightarrow> map_option fst (vget groups 0))"

fun find_trigger :: "(string \<Rightarrow> (nat \<times> nat) list option) list \<Rightarrow> string \<Rightarrow> (nat \<times> nat) list option" where
  "find_trigger [] buf = None"
| "find_trigger (re # res) buf = (case re buf of Some groups \<Rightarrow> Some groups | None \<Rightarrow> find_trigger res buf)"

definition grammar_accept_token :: "(llama_token \<Rightarrow> string) \<Rightarrow> (llama_token \<Rightarrow> bool) \<Rightarrow> grammar \<Rightarrow> llama_token \<Rightarrow> (bool \<times> grammar) option" where
  "grammar_accept_token piece_of is_eog g token = do {
     let piece = piece_of token;
     if gm_awaiting_trigger g then
       if token \<in> set (gm_trigger_tokens g)
       then grammar_accept_str (g\<lparr>gm_awaiting_trigger := False, gm_trigger_buffer := []\<rparr>) piece
       else do {
         let buf = gm_trigger_buffer g @ piece;
         (case find_trigger (gm_trigger_patterns g) buf of
            None \<Rightarrow> Some (False, g\<lparr>gm_trigger_buffer := buf\<rparr>)
          | Some groups \<Rightarrow> do {
              start \<leftarrow> trigger_start groups;
              guard (start \<le> length buf);
              grammar_accept_str (g\<lparr>gm_awaiting_trigger := False, gm_trigger_buffer := []\<rparr>) (drop start buf) }) }
     else if is_eog token then do {
       guard ([] \<in> set (gm_stacks g));
       Some (False, g) }
     else grammar_accept_str g piece }"

subsection \<open>\<open>llama_grammar_apply_impl\<close>\<close>

text \<open>A candidate token with its logit, \<open>None\<close> being minus infinity.\<close>

type_synonym 'l token_data = "llama_token \<times> 'l option"

text \<open>Token \<open>i\<close>: whether it is masked at once, and the candidate to be matched.\<close>

definition apply_candidate :: "(llama_token \<Rightarrow> string) \<Rightarrow> (llama_token \<Rightarrow> bool) \<Rightarrow> partial_utf8 \<Rightarrow> bool \<Rightarrow> nat \<Rightarrow> llama_token \<Rightarrow> bool \<times> grammar_candidate list" where
  "apply_candidate piece_of is_eog partial allow_eog i token =
     (let piece = piece_of token in
      if is_eog token then (\<not> allow_eog, [])
      else if piece = [] \<or> byte (hd piece) = 0 then (True, [])
      else (case decode_piece piece partial of (cps, pu) \<Rightarrow>
        (False, [\<lparr>gc_index = i, gc_code_points = cps, gc_at = 0, gc_partial = pu\<rparr>])))"

definition grammar_apply :: "(llama_token \<Rightarrow> string) \<Rightarrow> (llama_token \<Rightarrow> bool) \<Rightarrow> grammar \<Rightarrow> 'l token_data list \<Rightarrow> 'l token_data list option" where
  "grammar_apply piece_of is_eog g cur =
     (if gm_awaiting_trigger g then Some cur
      else do {
        let allow_eog = ([] \<in> set (gm_stacks g));
        let here = map (\<lambda>i. apply_candidate piece_of is_eog (gm_partial g) allow_eog i (fst (cur ! i))) [0..<length cur];
        rejects \<leftarrow> reject_candidates (gm_rules g) (gm_stacks g) (concat (map snd here));
        Some (map (\<lambda>i. if fst (here ! i) \<or> i \<in> gc_index ` set rejects then (fst (cur ! i), None) else cur ! i) [0..<length cur]) })"

end
