(* ===== verification/GrammarAdvance.thy ===== *)
theory GrammarAdvance
  imports GrammarLang GrammarRun
begin

text \<open>
  \<open>advance_stack\<close> and \<open>accept\<close> against the language: what they return, when they return.
\<close>

text \<open>A stack that is empty or starts with a character class.\<close>

definition stack_ready :: "grammar_rules \<Rightarrow> grammar_stack \<Rightarrow> bool" where
  "stack_ready rs s \<longleftrightarrow> stack_ok rs s \<and> (s = [] \<or> char_pos rs (hd s))"

text \<open>\<open>out\<close> adds to \<open>acc\<close> stacks that are ready and stand for the words of \<open>L\<close>.\<close>

definition advances :: "grammar_rules \<Rightarrow> nat list set \<Rightarrow> grammar_stacks \<Rightarrow> grammar_stacks \<Rightarrow> bool" where
  "advances rs L acc out \<longleftrightarrow> stacks_lang rs out = stacks_lang rs acc \<union> L \<and> set acc \<subseteq> set out \<and>
     (\<forall>s \<in> set out - set acc. stack_ready rs s) \<and> (distinct acc \<longrightarrow> distinct out)"

lemma advances_refl [simp]: "advances rs {} acc acc"
  by (simp add: advances_def)

lemma advances_trans: "advances rs L acc mid \<Longrightarrow> advances rs M mid out \<Longrightarrow> advances rs (L \<union> M) acc out"
  unfolding advances_def by blast

lemma advances_add: "stack_ready rs s \<Longrightarrow> advances rs (stack_lang rs s) acc (add_stack s acc)"
  by (auto simp: advances_def add_stack_def stacks_lang_def)

lemma add_stack_nonempty: "add_stack s acc \<noteq> []"
  by (auto simp: add_stack_def)

text \<open>The loop over the alternates.\<close>

lemma advance_loop:
  assumes ok: "rules_ok rs" and s1: "push_pos rs q rest = Some s1" "stack_ok rs s1"
    and f: "\<And>s acc out. f s acc = Some out \<Longrightarrow> stack_ok rs s \<Longrightarrow> advances rs (stack_lang rs s) acc out \<and> out \<noteq> []"
    and offs: "\<forall>i \<in> set offs. alt_start rs r i"
    and run: "foldM (\<lambda>i acc. do { s \<leftarrow> push_pos rs q rest; s \<leftarrow> push_pos rs (r, i) s; f s acc }) offs acc = Some out"
  shows "advances rs (\<Union>i \<in> set offs. {u @ v | u v. derives rs (r, i) u \<and> v \<in> stack_lang rs s1}) acc out \<and> (offs \<noteq> [] \<longrightarrow> out \<noteq> [])"
  using offs run
proof (induction offs arbitrary: acc)
  case (Cons i offs)
  have p: "pos_ok rs (r, i)" using alt_start_ok [OF ok] Cons.prems(1) by simp
  obtain s2 where s2: "push_pos rs (r, i) s1 = Some s2" "stack_ok rs s2"
    "stack_lang rs s2 = {u @ v | u v. derives rs (r, i) u \<and> v \<in> stack_lang rs s1}"
    using push_pos_lang [OF p s1(2)] by blast
  obtain mid where mid: "f s2 acc = Some mid"
    "foldM (\<lambda>i acc. do { s \<leftarrow> push_pos rs q rest; s \<leftarrow> push_pos rs (r, i) s; f s acc }) offs mid = Some out"
    using Cons.prems(2) s1(1) s2(1) by (auto split: option.splits)
  have a: "advances rs (stack_lang rs s2) acc mid" "mid \<noteq> []" using f [OF mid(1) s2(2)] by auto
  have b: "advances rs (\<Union>i \<in> set offs. {u @ v | u v. derives rs (r, i) u \<and> v \<in> stack_lang rs s1}) mid out"
    using Cons.IH [OF _ mid(2)] Cons.prems(1) by auto
  have "out \<noteq> []" using a(2) b by (auto simp: advances_def)
  then show ?case using advances_trans [OF a(1) b] s2(3) by simp
qed simp

lemma stack_lang_ref:
  assumes ok: "rules_ok rs" and e: "elem_at rs p = Some e" "ge_type e = GR_RULE_REF" and s1: "stack_lang rs s1 = {u @ v | u v. derives rs (gnext p) u \<and> v \<in> stack_lang rs rest}"
  shows "(\<Union>i \<in> {i. alt_start rs (ge_value e) i}. {u @ v | u v. derives rs (ge_value e, i) u \<and> v \<in> stack_lang rs s1}) = stack_lang rs (p # rest)"
proof (rule set_eqI)
  fix w
  show "w \<in> (\<Union>i \<in> {i. alt_start rs (ge_value e) i}. {u @ v | u v. derives rs (ge_value e, i) u \<and> v \<in> stack_lang rs s1}) \<longleftrightarrow> w \<in> stack_lang rs (p # rest)"
    unfolding s1 stack_lang.simps derives_at_ref [OF e] rule_lang_def by (auto, metis append_assoc, metis append_assoc)
qed

lemma advance_stack_lang:
  assumes "rules_ok rs" "stack_ok rs stack" "advance_stack rs stack acc = Some out"
  shows "advances rs (stack_lang rs stack) acc out \<and> out \<noteq> []"
proof -
  let ?P = "\<lambda>rs stack acc out. rules_ok rs \<longrightarrow> stack_ok rs stack \<longrightarrow> advances rs (stack_lang rs stack) acc out \<and> out \<noteq> []"
  have "?P rs stack acc out"
  proof (rule advance_stack.raw_induct [where P = ?P, OF _ assms(3)], intro impI)
    fix f :: "grammar_rules \<Rightarrow> grammar_stack \<Rightarrow> grammar_stacks \<Rightarrow> grammar_stacks option" and rs stack acc out
    assume IH: "\<And>rs stack acc out. f rs stack acc = Some out \<Longrightarrow> ?P rs stack acc out"
      and run: "(case stack of [] \<Rightarrow> Some (add_stack stack acc)
        | pos # rest \<Rightarrow> do {
            e \<leftarrow> elem_at rs pos;
            if ge_type e = GR_RULE_REF then do {
              rule \<leftarrow> vget rs (ge_value e);
              alts \<leftarrow> alt_offsets rule 0 0;
              foldM (\<lambda>i new_stacks. do {
                s \<leftarrow> push_pos rs (gnext pos) rest;
                s \<leftarrow> push_pos rs (ge_value e, i) s;
                f rs s new_stacks }) alts acc }
            else if ge_type e = GR_CHAR \<or> ge_type e = GR_CHAR_NOT \<or> ge_type e = GR_CHAR_ANY
            then Some (add_stack stack acc)
            else None }) = Some out"
      and ok: "rules_ok rs" and st: "stack_ok rs stack"
    show "advances rs (stack_lang rs stack) acc out \<and> out \<noteq> []"
    proof (cases stack)
      case Nil
      then have out: "out = add_stack stack acc" using run by simp
      have "stack_ready rs stack" using Nil by (simp add: stack_ready_def stack_ok_def)
      then show ?thesis unfolding out using advances_add add_stack_nonempty by blast
    next
      case (Cons p rest)
      obtain e where e: "elem_at rs p = Some e" using st Cons by (auto simp: stack_ok_def pos_ok_def)
      have rest: "stack_ok rs rest" using st Cons by (simp add: stack_ok_def)
      show ?thesis
      proof (cases "ge_type e = GR_RULE_REF")
        case True
        have r: "ge_value e < length rs" and n: "pos_ok rs (gnext p)" using after_ref_ok [OF ok e True] by auto
        obtain offs where offs: "alt_offsets (rs ! ge_value e) 0 0 = Some offs" "set offs = {i. alt_start rs (ge_value e) i}"
          using alt_offsets_rule [OF ok r] by blast
        obtain s1 where s1: "push_pos rs (gnext p) rest = Some s1" "stack_ok rs s1"
          "stack_lang rs s1 = {u @ v | u v. derives rs (gnext p) u \<and> v \<in> stack_lang rs rest}"
          using push_pos_lang [OF n rest] by blast
        have run: "foldM (\<lambda>i acc. do { s \<leftarrow> push_pos rs (gnext p) rest; s \<leftarrow> push_pos rs (ge_value e, i) s; f rs s acc }) offs acc = Some out"
          using run Cons e True r offs(1) by simp
        have "rs ! ge_value e \<noteq> []" using ok r by (auto simp: rules_ok_def rule_ok_def)
        then have "alt_start rs (ge_value e) 0" using r by (simp add: alt_start_def)
        then have "offs \<noteq> []" using offs(2) by auto
        moreover have "\<And>s acc out. f rs s acc = Some out \<Longrightarrow> stack_ok rs s \<Longrightarrow> advances rs (stack_lang rs s) acc out \<and> out \<noteq> []"
          using IH ok by blast
        ultimately show ?thesis
          using advance_loop [OF ok s1(1,2), where f = "f rs" and offs = offs and r = "ge_value e", OF _ _ run] offs(2) stack_lang_ref [OF ok e True s1(3)] Cons
          by simp
      next
        case False
        have "is_end_of_sequence rs p = Some False" using st Cons by (simp add: stack_ok_def)
        then have "is_char_start e" using False st Cons e run
          by (auto simp: is_end_of_elem is_end_elem_def is_char_start_def split: if_splits)
        then have "stack_ready rs stack" using st Cons e by (auto simp: stack_ready_def char_pos_def)
        moreover have "out = add_stack stack acc" using run Cons e False by (auto split: if_splits)
        ultimately show ?thesis using advances_add add_stack_nonempty by simp
      qed
    qed
  qed
  then show ?thesis using assms(1,2) by blast
qed

subsection \<open>\<open>accept\<close>\<close>

definition stacks_ready :: "grammar_rules \<Rightarrow> grammar_stacks \<Rightarrow> bool" where
  "stacks_ready rs ss \<longleftrightarrow> (\<forall>s \<in> set ss. stack_ready rs s)"

text \<open>The words that can follow \<open>c\<close>.\<close>

definition derivative :: "nat \<Rightarrow> nat list set \<Rightarrow> nat list set" where
  "derivative c L = {w. c # w \<in> L}"

lemma derivative_Un [simp]: "derivative c (L \<union> M) = derivative c L \<union> derivative c M"
  by (auto simp: derivative_def)

lemma advances_ready: "advances rs L acc out \<Longrightarrow> stacks_ready rs acc \<Longrightarrow> stacks_ready rs out"
  unfolding advances_def stacks_ready_def by blast

lemma stack_derivative:
  fixes c :: nat
  assumes "char_pos rs p"
  shows "derivative c (stack_lang rs (p # rest)) =
    (if class_has (class_at rs p) c then {u @ v | u v. derives rs (after_class rs p) u \<and> v \<in> stack_lang rs rest} else {})"
proof (rule set_eqI)
  fix w
  have "c # w \<in> stack_lang rs (p # rest) \<longleftrightarrow> class_has (class_at rs p) c \<and> (\<exists>u v. w = u @ v \<and> derives rs (after_class rs p) u \<and> v \<in> stack_lang rs rest)"
  proof
    assume "c # w \<in> stack_lang rs (p # rest)"
    then obtain a v where a: "c # w = a @ v" "derives rs p a" "v \<in> stack_lang rs rest" by auto
    then obtain d u where "a = d # u" "class_has (class_at rs p) d" "derives rs (after_class rs p) u" using derives_at_char [OF assms] by blast
    then show "class_has (class_at rs p) c \<and> (\<exists>u v. w = u @ v \<and> derives rs (after_class rs p) u \<and> v \<in> stack_lang rs rest)" using a by auto
  next
    assume "class_has (class_at rs p) c \<and> (\<exists>u v. w = u @ v \<and> derives rs (after_class rs p) u \<and> v \<in> stack_lang rs rest)"
    then obtain u v where u: "w = u @ v" "derives rs p (c # u)" "v \<in> stack_lang rs rest" using derives_at_char [OF assms] by blast
    then have "c # w = (c # u) @ v" by simp
    then show "c # w \<in> stack_lang rs (p # rest)" unfolding stack_lang.simps using u(2,3) by blast
  qed
  then show "w \<in> derivative c (stack_lang rs (p # rest)) \<longleftrightarrow>
      w \<in> (if class_has (class_at rs p) c then {u @ v | u v. derives rs (after_class rs p) u \<and> v \<in> stack_lang rs rest} else {})"
    by (auto simp: derivative_def simp del: stack_lang.simps)
qed

lemma accept_one_lang:
  assumes ok: "rules_ok rs" and s: "stack_ready rs s" and run: "accept_one rs c s acc = Some out"
  shows "advances rs (derivative c (stack_lang rs s)) acc out"
proof (cases s)
  case Nil
  then have "derivative c (stack_lang rs s) = {}" by (simp add: derivative_def)
  then show ?thesis using run Nil by (simp add: accept_one_def)
next
  case (Cons p rest)
  have p: "char_pos rs p" and rest: "stack_ok rs rest" using s Cons by (auto simp: stack_ready_def stack_ok_def)
  note m = match_char_class(1) [OF ok p, of c] match_char_class(2) [OF ok p]
  show ?thesis
  proof (cases "class_has (class_at rs p) c")
    case True
    obtain s' where s': "push_pos rs (after_class rs p) rest = Some s'" "stack_ok rs s'"
      "stack_lang rs s' = {u @ v | u v. derives rs (after_class rs p) u \<and> v \<in> stack_lang rs rest}"
      using push_pos_lang [OF m(2) rest] by blast
    have "advance_stack rs s' acc = Some out" using run Cons m(1) s'(1) True by (simp add: accept_one_def)
    then show ?thesis using advance_stack_lang [OF ok s'(2)] stack_derivative [OF p] s'(3) True Cons by simp
  next
    case False
    then have "out = acc" "derivative c (stack_lang rs s) = {}"
      using run Cons m(1) stack_derivative [OF p, of c rest] by (simp_all add: accept_one_def)
    then show ?thesis by simp
  qed
qed

lemma grammar_accept_lang:
  assumes ok: "rules_ok rs" and ss: "stacks_ready rs ss" and run: "grammar_accept rs ss c = Some out"
  shows "stacks_ready rs out" and "stacks_lang rs out = derivative c (stacks_lang rs ss)" and "distinct out"
proof -
  have "advances rs (derivative c (stacks_lang rs ss)) acc out" if "foldM (accept_one rs c) ss acc = Some out" for acc
    using ss that
  proof (induction ss arbitrary: acc)
    case Nil
    then show ?case by (simp add: stacks_lang_def derivative_def)
  next
    case (Cons s ss)
    obtain mid where mid: "accept_one rs c s acc = Some mid" "foldM (accept_one rs c) ss mid = Some out"
      using Cons.prems(2) by (auto split: option.splits)
    have "advances rs (derivative c (stack_lang rs s)) acc mid"
      using accept_one_lang [OF ok _ mid(1)] Cons.prems(1) by (simp add: stacks_ready_def)
    moreover have "advances rs (derivative c (stacks_lang rs ss)) mid out"
      using Cons.IH [OF _ mid(2)] Cons.prems(1) by (simp add: stacks_ready_def)
    ultimately have "advances rs (derivative c (stack_lang rs s) \<union> derivative c (stacks_lang rs ss)) acc out" by (rule advances_trans)
    then show ?case by (simp add: stacks_lang_def)
  qed
  from this [of "[]"] have adv: "advances rs (derivative c (stacks_lang rs ss)) [] out" using run by (simp add: grammar_accept_def)
  show "stacks_ready rs out" using advances_ready [OF adv] by (simp add: stacks_ready_def)
  show "stacks_lang rs out = derivative c (stacks_lang rs ss)" "distinct out" using adv by (simp_all add: advances_def stacks_lang_def)
qed

text \<open>A whole string, and what the stacks of a language with the empty word look like.\<close>

definition accept_all :: "grammar_rules \<Rightarrow> grammar_stacks \<Rightarrow> nat list \<Rightarrow> grammar_stacks option" where
  "accept_all rs ss cs = foldM (\<lambda>c ss. grammar_accept rs ss c) cs ss"

lemma accept_all_lang:
  assumes ok: "rules_ok rs" and ss: "stacks_ready rs ss" and run: "accept_all rs ss cs = Some out"
  shows "stacks_ready rs out \<and> stacks_lang rs out = {w. cs @ w \<in> stacks_lang rs ss}"
  using ss run
proof (induction cs arbitrary: ss)
  case (Cons c cs)
  then obtain mid where mid: "grammar_accept rs ss c = Some mid" "accept_all rs mid cs = Some out"
    by (auto simp: accept_all_def split: option.splits)
  note g = grammar_accept_lang [OF ok Cons.prems(1) mid(1)]
  show ?case using Cons.IH [OF g(1) mid(2)] g(2) by (simp add: derivative_def)
qed (simp add: accept_all_def)

lemma empty_stack_iff:
  assumes "stacks_ready rs ss"
  shows "[] \<in> set ss \<longleftrightarrow> [] \<in> stacks_lang rs ss"
proof
  assume "[] \<in> stacks_lang rs ss"
  then obtain s where s: "s \<in> set ss" "[] \<in> stack_lang rs s" by (auto simp: stacks_lang_def)
  have "s = []"
  proof (cases s)
    case (Cons p rest)
    then have "char_pos rs p" using assms s(1) by (auto simp: stacks_ready_def stack_ready_def)
    then show ?thesis using s(2) Cons derives_at_char [of rs p] by auto
  qed
  then show "[] \<in> set ss" using s(1) by simp
qed (force simp: stacks_lang_def)

lemma init_stacks_lang:
  assumes ok: "rules_ok rs" and run: "init_stacks rs start = Some out"
  shows "stacks_ready rs out \<and> stacks_lang rs out = rule_lang rs start \<and> out \<noteq> []"
proof -
  have r: "start < length rs" using run by (auto simp: init_stacks_def vget_def split: if_splits option.splits Option.bind_splits)
  obtain offs where offs: "alt_offsets (rs ! start) 0 0 = Some offs" "set offs = {i. alt_start rs start i}"
    using alt_offsets_rule [OF ok r] by blast
  have "\<exists>L. advances rs L acc out \<and> L = (\<Union>i \<in> set offs. {w. derives rs (start, i) w}) \<and> (offs \<noteq> [] \<longrightarrow> out \<noteq> [])"
    if "\<forall>i \<in> set offs. alt_start rs start i"
      "foldM (\<lambda>i stacks. do { s \<leftarrow> push_pos rs (start, i) []; advance_stack rs s stacks }) offs acc = Some out" for acc offs
    using that
  proof (induction offs arbitrary: acc)
    case (Cons i offs)
    have p: "pos_ok rs (start, i)" using alt_start_ok [OF ok] Cons.prems(1) by simp
    have nil: "stack_ok rs []" by (simp add: stack_ok_def)
    obtain s where s: "push_pos rs (start, i) [] = Some s" "stack_ok rs s" "stack_lang rs s = {w. derives rs (start, i) w}"
      using push_pos_lang [OF p nil] by auto
    obtain mid where mid: "advance_stack rs s acc = Some mid"
      "foldM (\<lambda>i stacks. do { s \<leftarrow> push_pos rs (start, i) []; advance_stack rs s stacks }) offs mid = Some out"
      using Cons.prems(2) s(1) by (auto split: option.splits)
    have a: "advances rs (stack_lang rs s) acc mid" "mid \<noteq> []" using advance_stack_lang [OF ok s(2) mid(1)] by auto
    have b: "advances rs (\<Union>i \<in> set offs. {w. derives rs (start, i) w}) mid out" using Cons.IH [OF _ mid(2)] Cons.prems(1) by auto
    have "out \<noteq> []" using a(2) b by (auto simp: advances_def)
    then show ?case using advances_trans [OF a(1) b] s(3) by auto
  qed simp
  from this [of offs "[]"] obtain L where L: "advances rs L [] out" "L = (\<Union>i \<in> set offs. {w. derives rs (start, i) w})" "offs \<noteq> [] \<longrightarrow> out \<noteq> []"
    using run r offs by (auto simp: init_stacks_def)
  have "rs ! start \<noteq> []" using ok r by (auto simp: rules_ok_def rule_ok_def)
  then have "0 \<in> set offs" using offs(2) r by (simp add: alt_start_def)
  moreover have "L = rule_lang rs start" unfolding L(2) offs(2) rule_lang_def by blast
  ultimately show ?thesis using L advances_ready [OF L(1)] by (auto simp: advances_def stacks_lang_def stacks_ready_def)
qed

text \<open>
  Left recursion: \<open>advance_stack\<close> ends on every stack when no rule can reach itself at its left end,
  and what \<open>detect_left_recursion\<close> finds out about that.
\<close>

subsection \<open>When \<open>advance_stack\<close> ends\<close>

text \<open>The positions that \<open>advance_stack\<close> looks at after \<open>p\<close> before it has read a character.\<close>

inductive left_step :: "grammar_rules \<Rightarrow> gpos \<Rightarrow> gpos \<Rightarrow> bool" for rs where
  left_into: "elem_at rs p = Some e \<Longrightarrow> ge_type e = GR_RULE_REF \<Longrightarrow> alt_start rs (ge_value e) i \<Longrightarrow> left_step rs (ge_value e, i) p"
| left_over: "elem_at rs p = Some e \<Longrightarrow> ge_type e = GR_RULE_REF \<Longrightarrow> [] \<in> rule_lang rs (ge_value e) \<Longrightarrow> left_step rs (gnext p) p"

definition advance_ends :: "grammar_rules \<Rightarrow> grammar_stack \<Rightarrow> bool" where
  "advance_ends rs s \<longleftrightarrow> (\<forall>acc. advance_stack rs s acc \<noteq> None)"

lemma foldM_ends: "(\<And>x t. x \<in> set xs \<Longrightarrow> f x t \<noteq> None) \<Longrightarrow> foldM f xs s \<noteq> None"
proof (induction xs arbitrary: s)
  case (Cons x xs)
  then obtain t where "f x s = Some t" by fastforce
  then show ?case using Cons by simp
qed simp

lemma advance_ends_at:
  assumes ok: "rules_ok rs" and acc: "Wellfounded.accp (left_step rs) p"
  shows "pos_ok rs p \<Longrightarrow> stack_ok rs rest \<Longrightarrow> (derives rs p [] \<Longrightarrow> advance_ends rs rest) \<Longrightarrow> push_pos rs p rest = Some s \<Longrightarrow> advance_ends rs s"
  using acc
proof (induction p arbitrary: rest s rule: accp.induct)
  case (accI p)
  obtain e where e: "elem_at rs p = Some e" "\<not> is_cont e" using accI.prems(1) by (auto simp: pos_ok_def)
  show ?case
  proof (cases "is_end_elem e")
    case True
    then have "is_end_of_sequence rs p = Some True" using e(1) by (simp add: is_end_of_elem)
    then show ?thesis using accI.prems(3,4) derives_end by (auto simp: push_pos_def)
  next
    case False
    then have s: "s = p # rest" using accI.prems(4) e(1) by (simp add: push_pos_def is_end_of_elem)
    show ?thesis
    proof (cases "ge_type e = GR_RULE_REF")
      case False
      then have "is_char_start e" using \<open>\<not> is_end_elem e\<close> e(2) by (cases "ge_type e") (auto simp: is_end_elem_def is_cont_def is_char_start_def)
      then show ?thesis using e(1) False by (auto simp: advance_ends_def s advance_stack.simps is_char_start_def)
    next
      case True
      have r: "ge_value e < length rs" and n: "pos_ok rs (gnext p)" using after_ref_ok [OF ok e(1) True] by auto
      obtain offs where offs: "alt_offsets (rs ! ge_value e) 0 0 = Some offs" "set offs = {i. alt_start rs (ge_value e) i}"
        using alt_offsets_rule [OF ok r] by blast
      obtain s1 where s1: "push_pos rs (gnext p) rest = Some s1" "stack_ok rs s1" using push_pos_lang [OF n accI.prems(2)] by blast
      have body: "(do { s \<leftarrow> push_pos rs (gnext p) rest; s \<leftarrow> push_pos rs (ge_value e, i) s; advance_stack rs s t }) \<noteq> None"
        if i: "i \<in> set offs" for i t
      proof -
        have st: "alt_start rs (ge_value e) i" using i offs(2) by simp
        note q = alt_start_ok [OF ok st]
        obtain s2 where s2: "push_pos rs (ge_value e, i) s1 = Some s2" using push_pos_lang [OF q s1(2)] by blast
        have "advance_ends rs s1" if d: "derives rs (ge_value e, i) []"
        proof (rule accI.IH [OF left_over [OF e(1) True] n accI.prems(2) _ s1(1)])
          show nul: "[] \<in> rule_lang rs (ge_value e)" using d st by (auto simp: rule_lang_def)
          assume "derives rs (gnext p) []"
          then have "derives rs p []" using derives_at_ref [OF e(1) True, of "[]"] nul by auto
          then show "advance_ends rs rest" by (rule accI.prems(3))
        qed
        then have "advance_ends rs s2" by (rule accI.IH [OF left_into [OF e(1) True st] q s1(2) _ s2])
        then show ?thesis using s1(1) s2 by (simp add: advance_ends_def)
      qed
      have "advance_stack rs (p # rest) acc \<noteq> None" for acc
        using foldM_ends [of offs "\<lambda>i t. do { s \<leftarrow> push_pos rs (gnext p) rest; s \<leftarrow> push_pos rs (ge_value e, i) s; advance_stack rs s t }" acc, OF body]
          e(1) True r offs(1) by (simp add: advance_stack.simps [of rs "p # rest"])
      then show ?thesis unfolding s advance_ends_def by blast
    qed
  qed
qed

definition left_wf :: "grammar_rules \<Rightarrow> bool" where
  "left_wf rs \<longleftrightarrow> (\<forall>p. Wellfounded.accp (left_step rs) p)"

lemma advance_ends_all:
  assumes ok: "rules_ok rs" and wf: "left_wf rs"
  shows "stack_ok rs s \<Longrightarrow> advance_ends rs s"
proof (induction s)
  case Nil
  then show ?case by (simp add: advance_ends_def advance_stack.simps)
next
  case (Cons p rest)
  have rest: "stack_ok rs rest" and p: "pos_ok rs p" "is_end_of_sequence rs p = Some False" using Cons.prems by (auto simp: stack_ok_def)
  have push: "push_pos rs p rest = Some (p # rest)" using p(2) by (simp add: push_pos_def)
  have "Wellfounded.accp (left_step rs) p" using wf unfolding left_wf_def by blast
  from advance_ends_at [OF ok this p(1) rest Cons.IH [OF rest] push] show ?case .
qed

lemma accept_one_ends:
  assumes ok: "rules_ok rs" and wf: "left_wf rs" and s: "stack_ready rs s"
  shows "accept_one rs c s acc \<noteq> None"
proof (cases s)
  case (Cons p rest)
  have p: "char_pos rs p" and rest: "stack_ok rs rest" using s Cons by (auto simp: stack_ready_def stack_ok_def)
  note m = match_char_class(1) [OF ok p, of c] match_char_class(2) [OF ok p]
  obtain s' where s': "push_pos rs (after_class rs p) rest = Some s'" "stack_ok rs s'" using push_pos_lang [OF m(2) rest] by blast
  show ?thesis using m(1) s'(1) advance_ends_all [OF ok wf s'(2)] Cons by (simp add: accept_one_def advance_ends_def)
qed (simp add: accept_one_def)

lemma grammar_accept_ends:
  assumes "rules_ok rs" "left_wf rs" "stacks_ready rs ss"
  shows "\<exists>out. grammar_accept rs ss c = Some out"
  using foldM_ends [of ss "accept_one rs c" "[]"] accept_one_ends [OF assms(1,2)] assms(3) by (auto simp: grammar_accept_def stacks_ready_def)

lemma accept_all_ends:
  assumes ok: "rules_ok rs" "left_wf rs" and ss: "stacks_ready rs ss"
  shows "\<exists>out. accept_all rs ss cs = Some out"
  using ss
proof (induction cs arbitrary: ss)
  case (Cons c cs)
  obtain mid where mid: "grammar_accept rs ss c = Some mid" using grammar_accept_ends [OF ok Cons.prems] by blast
  show ?case using Cons.IH [OF grammar_accept_lang(1) [OF ok(1) Cons.prems mid]] mid by (simp add: accept_all_def)
qed (simp add: accept_all_def)

lemma init_stacks_ends:
  assumes ok: "rules_ok rs" "left_wf rs" and r: "r < length rs"
  shows "\<exists>out. init_stacks rs r = Some out"
proof -
  obtain offs where offs: "alt_offsets (rs ! r) 0 0 = Some offs" "set offs = {i. alt_start rs r i}"
    using alt_offsets_rule [OF ok(1) r] by blast
  have "(do { s \<leftarrow> push_pos rs (r, i) []; advance_stack rs s stacks }) \<noteq> None" if "i \<in> set offs" for i stacks
  proof -
    have p: "pos_ok rs (r, i)" using alt_start_ok [OF ok(1)] offs(2) that by simp
    have nil: "stack_ok rs []" by (simp add: stack_ok_def)
    obtain s where s: "push_pos rs (r, i) [] = Some s" "stack_ok rs s" using push_pos_lang [OF p nil] by auto
    then show ?thesis using advance_ends_all [OF ok s(2)] by (simp add: advance_ends_def)
  qed
  then show ?thesis using foldM_ends [of offs "\<lambda>i stacks. do { s \<leftarrow> push_pos rs (r, i) []; advance_stack rs s stacks }" "[]"] r offs(1)
    by (auto simp: init_stacks_def)
qed

end
