(* ===== verification/GrammarCheck.thy ===== *)
theory GrammarCheck
  imports GrammarAdvance
begin

text \<open>
  \<open>llama_grammar_detect_left_recursion\<close> is right about its own notion of left recursion: it returns on
  every grammar, and it answers yes exactly when the graph of leftmost references has a cycle, where
  a reference is leftmost when every reference before it in its alternate has an empty alternate.
\<close>

subsection \<open>Leftmost references\<close>

text \<open>Some alternate of the rule has no elements: it starts at the bar or at the end that closes it.\<close>

definition direct_empty :: "grammar_rules \<Rightarrow> nat \<Rightarrow> bool" where
  "direct_empty rs r \<longleftrightarrow> (\<exists>i. alt_start rs r i \<and> ge_type (rs ! r ! i) \<in> {GR_ALT, GR_END})"

inductive left_pos :: "grammar_rules \<Rightarrow> nat \<Rightarrow> nat \<Rightarrow> bool" for rs where
  left_pos_start: "alt_start rs r i \<Longrightarrow> left_pos rs r i"
| left_pos_next: "left_pos rs r i \<Longrightarrow> elem_at rs (r, i) = Some e \<Longrightarrow> ge_type e = GR_RULE_REF \<Longrightarrow>
    direct_empty rs (ge_value e) \<Longrightarrow> left_pos rs r (Suc i)"

inductive left_edge :: "grammar_rules \<Rightarrow> nat \<Rightarrow> nat \<Rightarrow> bool" for rs where
  left_edgeI: "left_pos rs a i \<Longrightarrow> elem_at rs (a, i) = Some e \<Longrightarrow> ge_type e = GR_RULE_REF \<Longrightarrow> left_edge rs a (ge_value e)"

text \<open>The first loop of the code finds exactly that.\<close>

lemma has_empty_alternate_iff:
  "has_empty_alternate es start \<longleftrightarrow>
    (\<exists>i < length es. is_end_elem (es ! i) \<and> (if i = 0 then start else is_end_elem (es ! (i - 1))))"
proof (induction es start rule: has_empty_alternate.induct)
  case (2 e es start)
  have "(\<exists>i < length (e # es). is_end_elem ((e # es) ! i) \<and> (if i = 0 then start else is_end_elem ((e # es) ! (i - 1)))) \<longleftrightarrow>
      (is_end_elem e \<and> start) \<or> (\<exists>i < length es. is_end_elem (es ! i) \<and> (if i = 0 then is_end_elem e else is_end_elem (es ! (i - 1))))"
    unfolding length_Cons Ex_less_Suc2 by (auto simp: nth_Cons')
  then show ?case using "2.IH" by (cases "is_end_elem e") auto
qed simp

lemma direct_empty_iff:
  assumes ok: "rules_ok rs" and r: "r < length rs"
  shows "has_empty_alternate (rs ! r) True \<longleftrightarrow> direct_empty rs r"
proof -
  have rule: "rule_ok (length rs) (rs ! r)" using ok r by (simp add: rules_ok_def)
  have "ge_type (rs ! r ! (i - 1)) \<noteq> GR_END" if "0 < i" "i < length (rs ! r)" for i
  proof -
    have "rs ! r ! (i - 1) \<in> set (butlast (rs ! r))" using that by (auto simp: in_set_conv_nth nth_butlast intro!: exI [of _ "i - 1"])
    then show ?thesis using rule by (auto simp: rule_ok_def)
  qed
  then have "is_end_elem (rs ! r ! i) \<and> (if i = 0 then True else is_end_elem (rs ! r ! (i - 1))) \<longleftrightarrow>
      (i = 0 \<or> ge_type (rs ! r ! (i - 1)) = GR_ALT) \<and> ge_type (rs ! r ! i) \<in> {GR_ALT, GR_END}" if "i < length (rs ! r)" for i
    using that by (cases "i = 0") (auto simp: is_end_elem_def)
  then show ?thesis using r unfolding has_empty_alternate_iff direct_empty_def alt_start_def by blast
qed

text \<open>The references the second loop recurses into.\<close>

fun left_refs :: "(nat \<Rightarrow> bool) \<Rightarrow> grammar_rule \<Rightarrow> bool \<Rightarrow> nat list" where
  "left_refs E [] recurse = []"
| "left_refs E (e # es) recurse =
     (if ge_type e = GR_RULE_REF \<and> recurse then ge_value e # left_refs E es (E (ge_value e))
      else left_refs E es (is_end_elem e))"

lemma left_pos_0: "r < length rs \<Longrightarrow> rs ! r \<noteq> [] \<Longrightarrow> left_pos rs r 0"
  by (simp add: left_pos_start alt_start_def)

lemma left_pos_Suc:
  assumes "r < length rs" "Suc i < length (rs ! r)"
  shows "left_pos rs r (Suc i) \<longleftrightarrow> ge_type (rs ! r ! i) = GR_ALT \<or>
    (left_pos rs r i \<and> ge_type (rs ! r ! i) = GR_RULE_REF \<and> direct_empty rs (ge_value (rs ! r ! i)))" (is "?l \<longleftrightarrow> ?r")
proof
  assume ?l
  then show ?r by cases (auto simp: alt_start_def elem_at_Some)
next
  assume ?r
  then show ?l using assms by (auto intro: left_pos_start left_pos_next simp: alt_start_def elem_at_Some)
qed

lemma from_split: "{f i | i. k \<le> i \<and> Q i} = (if Q k then {f k} else {}) \<union> {f i | i. Suc k \<le> i \<and> Q i}"
proof -
  have "k \<le> i \<longleftrightarrow> i = k \<or> Suc k \<le> i" for i by auto
  then show ?thesis by auto
qed

lemma left_refs_from:
  assumes ok: "rules_ok rs" and r: "r < length rs"
  shows "k \<le> length (rs ! r) \<Longrightarrow> (k < length (rs ! r) \<longrightarrow> recurse = left_pos rs r k) \<Longrightarrow>
    set (left_refs (direct_empty rs) (drop k (rs ! r)) recurse) =
      {ge_value (rs ! r ! i) | i. k \<le> i \<and> i < length (rs ! r) \<and> left_pos rs r i \<and> ge_type (rs ! r ! i) = GR_RULE_REF}"
proof (induction "length (rs ! r) - k" arbitrary: k recurse)
  case (Suc n)
  let ?es = "rs ! r"
  have k: "k < length ?es" and rec: "recurse = left_pos rs r k" using Suc.hyps(2) Suc.prems by auto
  have d: "drop k ?es = ?es ! k # drop (Suc k) ?es" using k by (simp add: Cons_nth_drop_Suc)
  have rule: "rule_ok (length rs) ?es" using ok r by (simp add: rules_ok_def)
  have not_end: "ge_type (?es ! k) \<noteq> GR_END" if "Suc k < length ?es"
  proof -
    have "?es ! k \<in> set (butlast ?es)" using that by (auto simp: in_set_conv_nth nth_butlast intro!: exI [of _ k])
    then show ?thesis using rule by (auto simp: rule_ok_def)
  qed
  let ?S = "\<lambda>k. {ge_value (?es ! i) | i. k \<le> i \<and> i < length ?es \<and> left_pos rs r i \<and> ge_type (?es ! i) = GR_RULE_REF}"
  have split: "?S k = (if left_pos rs r k \<and> ge_type (?es ! k) = GR_RULE_REF then {ge_value (?es ! k)} else {}) \<union> ?S (Suc k)"
    using from_split [of "\<lambda>i. ge_value (?es ! i)" k "\<lambda>i. i < length ?es \<and> left_pos rs r i \<and> ge_type (?es ! i) = GR_RULE_REF"] k by simp
  have IH: "set (left_refs (direct_empty rs) (drop (Suc k) ?es) b) = ?S (Suc k)" if "Suc k < length ?es \<longrightarrow> b = left_pos rs r (Suc k)" for b
    by (rule Suc.hyps(1)) (use Suc.hyps(2) k that in auto)
  show ?case
  proof (cases "left_pos rs r k \<and> ge_type (?es ! k) = GR_RULE_REF")
    case True
    then show ?thesis using IH [of "direct_empty rs (ge_value (?es ! k))"] left_pos_Suc [OF r, of k] unfolding split d by (auto simp: rec)
  next
    case False
    have "Suc k < length ?es \<longrightarrow> is_end_elem (?es ! k) = left_pos rs r (Suc k)"
      using left_pos_Suc [OF r, of k] not_end False by (auto simp: is_end_elem_def)
    then show ?thesis using IH False unfolding split d by (auto simp: rec)
  qed
qed simp

lemma left_refs_rule:
  assumes ok: "rules_ok rs" and r: "r < length rs"
  shows "set (left_refs (direct_empty rs) (rs ! r) True) = {b. left_edge rs r b}"
proof -
  have "rs ! r \<noteq> []" using ok r by (auto simp: rules_ok_def rule_ok_def)
  then have "set (left_refs (direct_empty rs) (rs ! r) True) =
      {ge_value (rs ! r ! i) | i. i < length (rs ! r) \<and> left_pos rs r i \<and> ge_type (rs ! r ! i) = GR_RULE_REF}"
    using left_refs_from [OF ok r, of 0 True] left_pos_0 [OF r] by simp
  also have "\<dots> = {b. left_edge rs r b}"
    using r by (auto simp: left_edge.simps elem_at_Some)
  finally show ?thesis .
qed

lemma left_edge_less: "rules_ok rs \<Longrightarrow> left_edge rs a b \<Longrightarrow> a < length rs \<and> b < length rs"
  using after_ref_ok(2) by (fastforce simp: left_edge.simps elem_at_Some)

subsection \<open>The depth-first search\<close>

abbreviation left_acc :: "grammar_rules \<Rightarrow> nat \<Rightarrow> bool" where
  "left_acc rs \<equiv> Wellfounded.accp (\<lambda>b a. left_edge rs a b)"

definition lr_ok :: "grammar_rules \<Rightarrow> lr_state \<Rightarrow> bool" where
  "lr_ok rs st \<longleftrightarrow> length (lr_visited st) = length rs \<and> length (lr_in_progress st) = length rs \<and>
     length (lr_may_be_empty st) = length rs \<and> (\<forall>x < length rs. lr_may_be_empty st ! x \<longrightarrow> direct_empty rs x) \<and>
     (\<forall>x < length rs. lr_visited st ! x \<longrightarrow> left_acc rs x)"

text \<open>No cycle below \<open>r\<close> and no rule of \<open>ip\<close> either; a cycle below \<open>r\<close>, or a rule of \<open>ip\<close>.\<close>

definition clean_below :: "grammar_rules \<Rightarrow> bool list \<Rightarrow> nat \<Rightarrow> bool" where
  "clean_below rs ip r \<longleftrightarrow> left_acc rs r \<and> (\<forall>x. (left_edge rs)\<^sup>*\<^sup>* r x \<longrightarrow> \<not> ip ! x)"

definition cycle_below :: "grammar_rules \<Rightarrow> bool list \<Rightarrow> nat \<Rightarrow> bool" where
  "cycle_below rs ip r \<longleftrightarrow> (\<exists>x. (left_edge rs)\<^sup>*\<^sup>* r x \<and> (ip ! x \<or> (left_edge rs)\<^sup>+\<^sup>+ x x))"

definition may_be_empty_kept :: "grammar_rules \<Rightarrow> lr_state \<Rightarrow> lr_state \<Rightarrow> bool" where
  "may_be_empty_kept rs st st' \<longleftrightarrow> (\<forall>x < length rs. lr_may_be_empty st ! x \<longrightarrow> lr_may_be_empty st' ! x)"

definition detects :: "grammar_rules \<Rightarrow> nat \<Rightarrow> lr_state \<Rightarrow> bool \<Rightarrow> lr_state \<Rightarrow> bool" where
  "detects rs r st b st' \<longleftrightarrow> lr_ok rs st' \<and> may_be_empty_kept rs st st' \<and>
     (if b then cycle_below rs (lr_in_progress st) r
      else lr_in_progress st' = lr_in_progress st \<and> lr_may_be_empty st' ! r = direct_empty rs r \<and> clean_below rs (lr_in_progress st) r)"

definition detector :: "grammar_rules \<Rightarrow> bool list \<Rightarrow> (nat \<Rightarrow> lr_state \<Rightarrow> (bool \<times> lr_state) option) \<Rightarrow> bool" where
  "detector rs ip f \<longleftrightarrow> (\<forall>v st. v < length rs \<longrightarrow> lr_ok rs st \<longrightarrow> lr_in_progress st = ip \<longrightarrow> (\<exists>b st'. f v st = Some (b, st') \<and> detects rs v st b st'))"

lemma may_be_empty_kept_trans: "may_be_empty_kept rs a b \<Longrightarrow> may_be_empty_kept rs b c \<Longrightarrow> may_be_empty_kept rs a c"
  by (simp add: may_be_empty_kept_def)

text \<open>The second loop, for any function in place of the recursive call.\<close>

definition lr_scan :: "(nat \<Rightarrow> lr_state \<Rightarrow> (bool \<times> lr_state) option) \<Rightarrow> grammar_element \<Rightarrow> bool \<times> bool \<times> lr_state \<Rightarrow> (bool \<times> bool \<times> lr_state) option" where
  "lr_scan f e t = (case t of (found, recurse, st) \<Rightarrow>
     if found then Some t
     else if ge_type e = GR_RULE_REF \<and> recurse then do {
       (rec, st) \<leftarrow> f (ge_value e) st;
       if rec then Some (True, recurse, st) else do {
         m \<leftarrow> vget (lr_may_be_empty st) (ge_value e);
         Some (False, m, st) } }
     else Some (False, is_end_elem e, st))"

lemma lr_scan_found: "foldM (lr_scan f) es (True, t) = Some (True, t)"
  by (rule foldM_skip) (simp add: lr_scan_def split: prod.splits)

text \<open>What the loop has found out at its end.\<close>

definition scans :: "grammar_rules \<Rightarrow> nat set \<Rightarrow> lr_state \<Rightarrow> bool \<Rightarrow> lr_state \<Rightarrow> bool" where
  "scans rs refs st b st' \<longleftrightarrow> lr_ok rs st' \<and> may_be_empty_kept rs st st' \<and>
     (if b then \<exists>v \<in> refs. cycle_below rs (lr_in_progress st) v
      else lr_in_progress st' = lr_in_progress st \<and> (\<forall>v \<in> refs. clean_below rs (lr_in_progress st) v))"

lemma lr_scan_loop:
  assumes f: "detector rs ip f"
  shows "\<forall>v \<in> set (left_refs (direct_empty rs) es recurse). v < length rs \<Longrightarrow> lr_ok rs st \<Longrightarrow> lr_in_progress st = ip \<Longrightarrow>
    \<exists>found rec' st'. foldM (lr_scan f) es (False, recurse, st) = Some (found, rec', st') \<and>
      scans rs (set (left_refs (direct_empty rs) es recurse)) st found st'"
proof (induction es arbitrary: recurse st)
  case Nil
  have "scans rs {} st False st" using Nil by (simp add: scans_def may_be_empty_kept_def)
  then show ?case by auto
next
  case (Cons e es)
  show ?case
  proof (cases "ge_type e = GR_RULE_REF \<and> recurse")
    case True
    let ?v = "ge_value e"
    have v: "?v < length rs" using Cons.prems(1) True by simp
    have refs: "set (left_refs (direct_empty rs) (e # es) recurse) = insert ?v (set (left_refs (direct_empty rs) es (direct_empty rs ?v)))"
      using True by simp
    obtain b st1 where st1: "f ?v st = Some (b, st1)" "detects rs ?v st b st1" using f v Cons.prems(2,3) unfolding detector_def by blast
    show ?thesis
    proof (cases b)
      case b: True
      have step: "lr_scan f e (False, recurse, st) = Some (True, recurse, st1)" using st1(1) True b by (simp add: lr_scan_def)
      then have "foldM (lr_scan f) (e # es) (False, recurse, st) = Some (True, recurse, st1)" by (simp add: lr_scan_found)
      moreover have "scans rs (insert ?v X) st True st1" for X using st1(2) b by (simp add: detects_def scans_def)
      ultimately show ?thesis unfolding refs by blast
    next
      case b: False
      have d: "lr_ok rs st1" "lr_in_progress st1 = ip" "lr_may_be_empty st1 ! ?v = direct_empty rs ?v" "clean_below rs ip ?v"
        "may_be_empty_kept rs st st1"
        using st1(2) b Cons.prems(3) by (simp_all add: detects_def)
      have "vget (lr_may_be_empty st1) ?v = Some (direct_empty rs ?v)" using d v by (simp add: vget_def lr_ok_def)
      then have step: "lr_scan f e (False, recurse, st) = Some (False, direct_empty rs ?v, st1)"
        using st1(1) True b by (simp add: lr_scan_def)
      obtain found rec' st' where out: "foldM (lr_scan f) es (False, direct_empty rs ?v, st1) = Some (found, rec', st')"
        "scans rs (set (left_refs (direct_empty rs) es (direct_empty rs ?v))) st1 found st'"
        using Cons.IH [OF _ d(1,2)] Cons.prems(1) unfolding refs by blast
      have "foldM (lr_scan f) (e # es) (False, recurse, st) = Some (found, rec', st')" using out(1) by (simp add: step)
      moreover have "scans rs (insert ?v (set (left_refs (direct_empty rs) es (direct_empty rs ?v)))) st found st'"
        using out(2) d Cons.prems(3) may_be_empty_kept_trans [OF d(5)] by (auto simp: scans_def)
      ultimately show ?thesis unfolding refs by blast
    qed
  next
    case False
    then have step: "lr_scan f e (False, recurse, st) = Some (False, is_end_elem e, st)" by (auto simp: lr_scan_def)
    have refs: "left_refs (direct_empty rs) (e # es) recurse = left_refs (direct_empty rs) es (is_end_elem e)" using False by auto
    have "foldM (lr_scan f) (e # es) (False, recurse, st) = foldM (lr_scan f) es (False, is_end_elem e, st)" by (simp add: step)
    then show ?thesis using Cons.IH [of "is_end_elem e" st] Cons.prems unfolding refs by simp
  qed
qed

lemma detect_unfold:
  "detect_left_recursion rs r st = do {
     in_progress \<leftarrow> vget (lr_in_progress st) r;
     if in_progress then Some (True, st) else do {
       st \<leftarrow> lr_flag r True st;
       rule \<leftarrow> vget rs r;
       may_be_empty \<leftarrow> (if has_empty_alternate rule True then vset (lr_may_be_empty st) r True else Some (lr_may_be_empty st));
       (found, _, st) \<leftarrow> foldM (lr_scan (detect_left_recursion rs)) rule (False, True, st\<lparr>lr_may_be_empty := may_be_empty\<rparr>);
       if found then Some (True, st) else do {
         st \<leftarrow> lr_flag r False st;
         visited \<leftarrow> vset (lr_visited st) r True;
         Some (False, st\<lparr>lr_visited := visited\<rparr>) } } }"
  unfolding detect_left_recursion.simps [of rs r st] lr_scan_def [abs_def] ..

text \<open>The flags of the state that the recursion starts from.\<close>

lemma clean_below_step:
  assumes "\<forall>v. left_edge rs r v \<longrightarrow> clean_below rs (ip[r := True]) v" and r: "r < length ip" "\<not> ip ! r"
  shows "clean_below rs ip r"
proof -
  have acc: "left_acc rs r"
  proof (rule accpI)
    fix v assume "left_edge rs r v"
    then have "clean_below rs (ip[r := True]) v" using assms(1) by blast
    then show "left_acc rs v" by (simp add: clean_below_def)
  qed
  have "\<not> ip ! x" if "(left_edge rs)\<^sup>*\<^sup>* r x" for x
    using that
  proof (cases rule: converse_rtranclpE)
    case base
    then show ?thesis using r by simp
  next
    case (step v)
    then have n: "\<not> ip[r := True] ! x" using assms(1) by (simp add: clean_below_def)
    then have "x \<noteq> r" using r by auto
    then show ?thesis using n by simp
  qed
  then show ?thesis using acc by (simp add: clean_below_def)
qed

lemma cycle_below_step:
  assumes v: "left_edge rs r v" "cycle_below rs (ip[r := True]) v"
  shows "cycle_below rs ip r"
proof -
  obtain x where x: "(left_edge rs)\<^sup>*\<^sup>* v x" "ip[r := True] ! x \<or> (left_edge rs)\<^sup>+\<^sup>+ x x" using v(2) by (auto simp: cycle_below_def)
  have rx: "(left_edge rs)\<^sup>*\<^sup>* r x" using v(1) x(1) by (rule converse_rtranclp_into_rtranclp)
  show ?thesis
  proof (cases "x = r")
    case True
    then have "(left_edge rs)\<^sup>+\<^sup>+ r r" using v(1) x(1) by (auto intro: rtranclp_into_tranclp2)
    then show ?thesis unfolding cycle_below_def by blast
  next
    case False
    then have "ip ! x \<or> (left_edge rs)\<^sup>+\<^sup>+ x x" using x(2) by simp
    then show ?thesis using rx unfolding cycle_below_def by blast
  qed
qed

lemma detect_step:
  assumes ok: "rules_ok rs" and r: "r < length rs" and st: "lr_ok rs st" and new: "\<not> lr_in_progress st ! r"
    and rec: "detector rs ((lr_in_progress st)[r := True]) (detect_left_recursion rs)"
  shows "\<exists>b st'. detect_left_recursion rs r st = Some (b, st') \<and> detects rs r st b st'"
proof -
  let ?ip = "lr_in_progress st"
  let ?ip1 = "?ip[r := True]"
  let ?me1 = "if direct_empty rs r then (lr_may_be_empty st)[r := True] else lr_may_be_empty st"
  let ?st1 = "st\<lparr>lr_in_progress := ?ip1, lr_may_be_empty := ?me1\<rparr>"
  have len: "length ?ip = length rs" "length (lr_visited st) = length rs" "length (lr_may_be_empty st) = length rs"
    using st by (simp_all add: lr_ok_def)
  have st1: "lr_ok rs ?st1" "may_be_empty_kept rs st ?st1" "direct_empty rs r \<longrightarrow> ?me1 ! r"
    using st r by (auto simp: lr_ok_def may_be_empty_kept_def nth_list_update)
  have refs: "set (left_refs (direct_empty rs) (rs ! r) True) = {b. left_edge rs r b}" using left_refs_rule [OF ok r] .
  have refs_less: "\<forall>v \<in> set (left_refs (direct_empty rs) (rs ! r) True). v < length rs"
    unfolding refs using left_edge_less [OF ok] by blast
  obtain found rec' st' where loop: "foldM (lr_scan (detect_left_recursion rs)) (rs ! r) (False, True, ?st1) = Some (found, rec', st')"
    "scans rs {b. left_edge rs r b} ?st1 found st'"
    using lr_scan_loop [OF rec refs_less st1(1)] unfolding refs by auto
  have ok': "lr_ok rs st'" and kept: "may_be_empty_kept rs ?st1 st'" using loop(2) by (simp_all add: scans_def)
  have start: "detect_left_recursion rs r st = (if found then Some (True, st') else do {
      st \<leftarrow> lr_flag r False st';
      visited \<leftarrow> vset (lr_visited st) r True;
      Some (False, st\<lparr>lr_visited := visited\<rparr>) })"
    using r len new loop(1) by (simp add: detect_unfold lr_flag_def vset_def direct_empty_iff [OF ok r] split: if_splits)
  show ?thesis
  proof (cases found)
    case True
    then have "cycle_below rs ?ip r" using loop(2) cycle_below_step by (auto simp: scans_def)
    then have "detects rs r st True st'" using ok' may_be_empty_kept_trans [OF st1(2) kept] by (simp add: detects_def)
    then show ?thesis using start True by auto
  next
    case False
    let ?out = "st'\<lparr>lr_in_progress := (lr_in_progress st')[r := False], lr_visited := (lr_visited st')[r := True]\<rparr>"
    have len': "length (lr_in_progress st') = length rs" "length (lr_visited st') = length rs" using ok' by (simp_all add: lr_ok_def)
    have eq: "detect_left_recursion rs r st = Some (False, ?out)"
      using start False r len' by (simp add: lr_flag_def vset_def)
    have ip': "lr_in_progress st' = ?ip1" and below: "\<forall>v. left_edge rs r v \<longrightarrow> clean_below rs ?ip1 v"
      using loop(2) False by (simp_all add: scans_def)
    have clean: "clean_below rs ?ip r" using below r new len by (intro clean_below_step) simp_all
    have "left_acc rs x" if "x < length rs" "(lr_visited st')[r := True] ! x" for x
    proof (cases "x = r")
      case True
      then show ?thesis using clean by (simp add: clean_below_def)
    next
      case False
      then have "lr_visited st' ! x" using that(2) by simp
      then show ?thesis using ok' that(1) by (simp add: lr_ok_def)
    qed
    then have "lr_ok rs ?out" using ok' unfolding lr_ok_def by simp
    moreover have "(?ip1)[r := False] = ?ip" using new by (simp add: list_update_same_conv r len)
    moreover have "lr_may_be_empty st' ! r = direct_empty rs r"
    proof
      assume "lr_may_be_empty st' ! r"
      then show "direct_empty rs r" using ok' r by (simp add: lr_ok_def)
    next
      assume "direct_empty rs r"
      then have "lr_may_be_empty ?st1 ! r" using st1(3) by simp
      then show "lr_may_be_empty st' ! r" using kept r unfolding may_be_empty_kept_def by blast
    qed
    moreover have "may_be_empty_kept rs st ?out" using may_be_empty_kept_trans [OF st1(2) kept] by (simp add: may_be_empty_kept_def)
    ultimately have "detects rs r st False ?out" using ip' clean by (simp add: detects_def)
    then show ?thesis using eq by blast
  qed
qed

lemma detect_detects:
  assumes ok: "rules_ok rs"
  shows "r < length rs \<Longrightarrow> lr_ok rs st \<Longrightarrow> \<exists>b st'. detect_left_recursion rs r st = Some (b, st') \<and> detects rs r st b st'"
proof (induction "card {i. i < length rs \<and> \<not> lr_in_progress st ! i}" arbitrary: r st rule: less_induct)
  case less
  let ?ip = "lr_in_progress st"
  have len: "length ?ip = length rs" using less.prems(2) by (simp add: lr_ok_def)
  show ?case
  proof (cases "?ip ! r")
    case True
    then have "detect_left_recursion rs r st = Some (True, st)" using less.prems len by (simp add: detect_unfold)
    moreover have "cycle_below rs ?ip r" using True by (auto simp: cycle_below_def)
    ultimately have "detects rs r st True st" using less.prems(2) by (simp add: detects_def may_be_empty_kept_def)
    then show ?thesis using \<open>detect_left_recursion rs r st = Some (True, st)\<close> by blast
  next
    case False
    let ?ip1 = "?ip[r := True]"
    have sub: "{i. i < length rs \<and> \<not> ?ip1 ! i} \<subset> {i. i < length rs \<and> \<not> ?ip ! i}"
      using False less.prems(1) len by (auto simp: nth_list_update)
    have "card {i. i < length rs \<and> \<not> ?ip1 ! i} < card {i. i < length rs \<and> \<not> ?ip ! i}"
      by (rule psubset_card_mono [OF _ sub]) simp
    then have "detector rs ?ip1 (detect_left_recursion rs)" unfolding detector_def using less.hyps by auto
    then show ?thesis using detect_step [OF ok less.prems False] by blast
  qed
qed

subsection \<open>The check of a whole grammar\<close>

lemma acc_not_cyclic: "left_acc rs r \<Longrightarrow> \<not> (left_edge rs)\<^sup>+\<^sup>+ r r"
proof (induction r rule: accp.induct)
  case (accI r)
  show ?case
  proof
    assume "(left_edge rs)\<^sup>+\<^sup>+ r r"
    then obtain v where v: "left_edge rs r v" "(left_edge rs)\<^sup>*\<^sup>* v r" by (meson tranclpD)
    then have "(left_edge rs)\<^sup>+\<^sup>+ v v" by (meson rtranclp_into_tranclp1)
    then show False using accI.IH [OF v(1)] by blast
  qed
qed

lemma left_recursive_iff:
  assumes ok: "rules_ok rs"
  shows "left_recursive rs = Some (\<exists>r. (left_edge rs)\<^sup>+\<^sup>+ r r)" and "left_recursive rs = Some False \<Longrightarrow> left_acc rs r"
proof -
  let ?st0 = "\<lparr>lr_visited = replicate (length rs) False, lr_in_progress = replicate (length rs) False, lr_may_be_empty = replicate (length rs) False\<rparr>"
  let ?cyc = "\<exists>r. (left_edge rs)\<^sup>+\<^sup>+ r r"
  let ?P = "\<lambda>ys t. case t of (b, st) \<Rightarrow> if b then ?cyc else
      lr_ok rs st \<and> lr_in_progress st = replicate (length rs) False \<and> (\<forall>i \<in> set ys. left_acc rs i)"
  have base: "?P [] (False, ?st0)" by (simp add: lr_ok_def)
  have step: "\<exists>t'. lr_check_rule rs i t = Some t' \<and> ?P (ys @ [i]) t'"
    if i: "\<exists>zs. [0..<length rs] = ys @ i # zs" and t: "?P ys t" for ys i t
  proof -
    obtain b st where bt: "t = (b, st)" by (cases t)
    have "i \<in> set [0..<length rs]" using i by (metis in_set_conv_decomp)
    then have i': "i < length rs" by simp
    show ?thesis
    proof (cases "b \<or> lr_visited st ! i")
      case True
      then show ?thesis using t i' by (auto simp: bt lr_check_rule_def lr_ok_def)
    next
      case False
      then have st: "lr_ok rs st" "lr_in_progress st = replicate (length rs) False" "\<forall>i \<in> set ys. left_acc rs i" using t by (auto simp: bt)
      obtain b' st' where d: "detect_left_recursion rs i st = Some (b', st')" "detects rs i st b' st'"
        using detect_detects [OF ok i' st(1)] by blast
      have eq: "lr_check_rule rs i t = Some (b', st')" using False d(1) i' st(1) by (simp add: bt lr_check_rule_def lr_ok_def)
      show ?thesis
      proof (cases b')
        case True
        then obtain x where x: "(left_edge rs)\<^sup>*\<^sup>* i x" "replicate (length rs) False ! x \<or> (left_edge rs)\<^sup>+\<^sup>+ x x"
          using d(2) st(2) by (auto simp: detects_def cycle_below_def)
        have "x < length rs" using x(1) i' left_edge_less [OF ok] by (metis rtranclp.cases)
        then have ?cyc using x(2) by auto
        then show ?thesis using eq True by simp
      next
        case False
        then show ?thesis using eq d(2) st by (simp add: detects_def clean_below_def)
      qed
    qed
  qed
  have "\<exists>t. foldM (lr_check_rule rs) [0..<length rs] (False, ?st0) = Some t \<and> ?P [0..<length rs] t"
    by (rule foldM_rule [where P = ?P]) (rule base, rule step)
  then obtain t where t: "foldM (lr_check_rule rs) [0..<length rs] (False, ?st0) = Some t" "?P [0..<length rs] t"
    by (elim exE conjE)
  have all: "left_acc rs r" if "\<not> fst t" for r
  proof (cases "r < length rs")
    case True
    then show ?thesis using t(2) that by (auto split: prod.splits if_splits)
  next
    case False
    then have "\<not> left_edge rs r v" for v using left_edge_less [OF ok] by blast
    show ?thesis
    proof (rule accpI)
      fix v assume "left_edge rs r v"
      then show "left_acc rs v" using \<open>\<And>v. \<not> left_edge rs r v\<close> by blast
    qed
  qed
  have eq: "left_recursive rs = Some (fst t)" using t(1) by (simp add: left_recursive_def)
  have "?cyc" if "fst t" using t(2) that by (cases t) simp
  then have "fst t = ?cyc" using all acc_not_cyclic by blast
  then show "left_recursive rs = Some ?cyc" using eq by simp
  show "left_acc rs r" if "left_recursive rs = Some False" using all eq that by simp
qed

subsection \<open>What the check is worth\<close>

text \<open>Every rule that derives the empty word has an alternate without elements.\<close>

definition empties_direct :: "grammar_rules \<Rightarrow> bool" where
  "empties_direct rs \<longleftrightarrow> (\<forall>r < length rs. [] \<in> rule_lang rs r \<longrightarrow> direct_empty rs r)"

lemma left_pos_accp:
  assumes ok: "rules_ok rs" and ed: "empties_direct rs" and acc: "left_acc rs r"
  shows "left_pos rs r i \<Longrightarrow> Wellfounded.accp (left_step rs) (r, i)"
  using acc
proof (induction r arbitrary: i rule: accp.induct)
  case (accI r)
  show ?case
    using accI.prems
  proof (induction "length (rs ! r) - i" arbitrary: i rule: less_induct)
    case less
    show ?case
    proof (rule accpI)
      fix y assume "left_step rs y (r, i)"
      then show "Wellfounded.accp (left_step rs) y"
      proof cases
        case (left_into e j)
        have "left_edge rs r (ge_value e)" using less.prems left_into(2,3) by (rule left_edgeI)
        then show ?thesis unfolding left_into(1) by (rule accI.IH) (rule left_pos_start [OF left_into(4)])
      next
        case (left_over e)
        have "ge_value e < length rs" using after_ref_ok(2) [OF ok left_over(2,3)] .
        then have "direct_empty rs (ge_value e)" using ed left_over(4) by (simp add: empties_direct_def)
        then have "left_pos rs r (Suc i)" using left_pos_next [OF less.prems left_over(2,3)] by blast
        moreover have "i < length (rs ! r)" using left_over(2) by (simp add: elem_at_Some)
        ultimately have "Wellfounded.accp (left_step rs) (r, Suc i)" by (intro less.hyps) simp_all
        then show ?thesis by (simp add: left_over(1) gnext_def)
      qed
    qed
  qed
qed

lemma left_wf_checked:
  assumes ok: "rules_ok rs" and ed: "empties_direct rs" and lr: "left_recursive rs = Some False"
  shows "left_wf rs"
proof -
  have "Wellfounded.accp (left_step rs) (r, i)" for r i
  proof (induction "length (rs ! r) - i" arbitrary: i rule: less_induct)
    case less
    show ?case
    proof (rule accpI)
      fix y assume "left_step rs y (r, i)"
      then show "Wellfounded.accp (left_step rs) y"
      proof cases
        case (left_into e j)
        show ?thesis unfolding left_into(1)
          by (rule left_pos_accp [OF ok ed left_recursive_iff(2) [OF ok lr]]) (rule left_pos_start [OF left_into(4)])
      next
        case (left_over e)
        then have "i < length (rs ! r)" by (simp add: elem_at_Some)
        then have "Wellfounded.accp (left_step rs) (r, Suc i)" by (intro less.hyps) simp
        then show ?thesis by (simp add: left_over(1) gnext_def)
      qed
    qed
  qed
  then show ?thesis unfolding left_wf_def by auto
qed

end
