(* ===== verification/GrammarReject.thy ===== *)
theory GrammarReject
  imports GrammarCheck
begin

text \<open>
  \<open>llama_grammar_reject_candidates\<close> against \<open>llama_grammar_accept\<close>: a candidate is rejected exactly when
  accepting its code points one by one leaves no stack that its trailing partial character fits.
\<close>

subsection \<open>The stacks that \<open>advance_stack\<close> and \<open>accept\<close> produce\<close>

inductive expands :: "grammar_rules \<Rightarrow> grammar_stack \<Rightarrow> grammar_stack \<Rightarrow> bool" for rs where
  expands_nil: "expands rs [] []"
| expands_char: "char_pos rs p \<Longrightarrow> expands rs (p # rest) (p # rest)"
| expands_ref: "elem_at rs p = Some e \<Longrightarrow> ge_type e = GR_RULE_REF \<Longrightarrow> alt_start rs (ge_value e) i \<Longrightarrow>
    push_pos rs (gnext p) rest = Some s1 \<Longrightarrow> push_pos rs (ge_value e, i) s1 = Some s2 \<Longrightarrow> expands rs s2 s' \<Longrightarrow> expands rs (p # rest) s'"

inductive_cases expands_nilE: "expands rs [] s'"
inductive_cases expands_ConsE: "expands rs (p # rest) s'"

lemma expands_at_char: "char_pos rs p \<Longrightarrow> expands rs (p # rest) s' \<longleftrightarrow> s' = p # rest"
  by (auto intro: expands_char elim!: expands_ConsE simp: char_pos_def is_char_start_def)

lemma expands_at_ref:
  assumes "elem_at rs p = Some e" "ge_type e = GR_RULE_REF" "push_pos rs (gnext p) rest = Some s1"
  shows "expands rs (p # rest) s' \<longleftrightarrow> (\<exists>i s2. alt_start rs (ge_value e) i \<and> push_pos rs (ge_value e, i) s1 = Some s2 \<and> expands rs s2 s')"
proof
  assume "expands rs (p # rest) s'"
  then show "\<exists>i s2. alt_start rs (ge_value e) i \<and> push_pos rs (ge_value e, i) s1 = Some s2 \<and> expands rs s2 s'"
    by (rule expands_ConsE) (use assms in \<open>auto simp: char_pos_def is_char_start_def\<close>)
qed (use assms expands_ref in blast)

lemma set_add_stack: "set (add_stack s ss) = insert s (set ss)"
  by (auto simp: add_stack_def)

lemma expands_loop:
  assumes ok: "rules_ok rs" and s1: "push_pos rs q rest = Some s1" "stack_ok rs s1"
    and f: "\<forall>s acc out. f s acc = Some out \<longrightarrow> stack_ok rs s \<longrightarrow> set out = set acc \<union> {s'. expands rs s s'}"
    and offs: "\<forall>i \<in> set offs. alt_start rs r i"
    and run: "foldM (\<lambda>i acc. do { s \<leftarrow> push_pos rs q rest; s \<leftarrow> push_pos rs (r, i) s; f s acc }) offs acc = Some out"
  shows "set out = set acc \<union> {s'. \<exists>i s2. i \<in> set offs \<and> push_pos rs (r, i) s1 = Some s2 \<and> expands rs s2 s'}"
  using offs run
proof (induction offs arbitrary: acc)
  case (Cons i offs)
  have p: "pos_ok rs (r, i)" using alt_start_ok [OF ok] Cons.prems(1) by simp
  obtain s2 where s2: "push_pos rs (r, i) s1 = Some s2" "stack_ok rs s2" using push_pos_lang [OF p s1(2)] by blast
  obtain mid where mid: "f s2 acc = Some mid"
    "foldM (\<lambda>i acc. do { s \<leftarrow> push_pos rs q rest; s \<leftarrow> push_pos rs (r, i) s; f s acc }) offs mid = Some out"
    using Cons.prems(2) s1(1) s2(1) by (auto split: option.splits)
  have a: "set mid = set acc \<union> {s'. expands rs s2 s'}" using f mid(1) s2(2) by blast
  have b: "set out = set mid \<union> {s'. \<exists>i s2. i \<in> set offs \<and> push_pos rs (r, i) s1 = Some s2 \<and> expands rs s2 s'}"
    using Cons.IH [OF _ mid(2)] Cons.prems(1) by simp
  show ?case unfolding a b using s2(1) by auto
qed simp

lemma advance_stack_expands:
  assumes ok: "rules_ok rs" and st: "stack_ok rs stack" and ret: "advance_stack rs stack acc = Some out"
  shows "set out = set acc \<union> {s'. expands rs stack s'}"
proof -
  let ?P = "\<lambda>rs stack acc out. rules_ok rs \<longrightarrow> stack_ok rs stack \<longrightarrow> set out = set acc \<union> {s'. expands rs stack s'}"
  have "?P rs stack acc out"
  proof (rule advance_stack.raw_induct [where P = ?P, OF _ ret], intro impI)
    fix f rs stack acc out
    assume IH: "\<And>rs stack acc out. f rs stack acc = Some out \<Longrightarrow> ?P rs stack acc out" and ok: "rules_ok rs" and st: "stack_ok rs stack"
      and run: "(case stack of
        [] \<Rightarrow> Some (add_stack stack acc)
      | pos # rest \<Rightarrow> do {
          e \<leftarrow> elem_at rs pos;
          if ge_type e = GR_RULE_REF then do {
            rule \<leftarrow> vget rs (ge_value e);
            alts \<leftarrow> alt_offsets rule 0 0;
            foldM (\<lambda>i new_stacks. do {
              s \<leftarrow> push_pos rs (gnext pos) rest;
              s \<leftarrow> push_pos rs (ge_value e, i) s;
              f rs s new_stacks }) alts acc }
          else if ge_type e = GR_CHAR \<or> ge_type e = GR_CHAR_NOT \<or> ge_type e = GR_CHAR_ANY
          then Some (add_stack stack acc)
          else None }) = Some out"
    show "set out = set acc \<union> {s'. expands rs stack s'}"
    proof (cases stack)
      case Nil
      have "{s'. expands rs [] s'} = {[]}" using expands_nil expands_nilE by blast
      then show ?thesis using run Nil set_add_stack [of "[]" acc] by simp
    next
      case (Cons p rest)
      obtain e where e: "elem_at rs p = Some e" using run Cons by (auto split: Option.bind_splits)
      show ?thesis
      proof (cases "ge_type e = GR_RULE_REF")
        case True
        have r: "ge_value e < length rs" and n: "pos_ok rs (gnext p)" using after_ref_ok [OF ok e True] by auto
        have rest: "stack_ok rs rest" using st Cons by (simp add: stack_ok_def)
        obtain s1 where s1: "push_pos rs (gnext p) rest = Some s1" "stack_ok rs s1" using push_pos_lang [OF n rest] by blast
        obtain offs where offs: "alt_offsets (rs ! ge_value e) 0 0 = Some offs" "set offs = {i. alt_start rs (ge_value e) i}"
          using alt_offsets_rule [OF ok r] by blast
        have loop: "foldM (\<lambda>i new_stacks. do { s \<leftarrow> push_pos rs (gnext p) rest; s \<leftarrow> push_pos rs (ge_value e, i) s; f rs s new_stacks }) offs acc = Some out"
          using run Cons e True r offs(1) by simp
        have "\<forall>s acc out. f rs s acc = Some out \<longrightarrow> stack_ok rs s \<longrightarrow> set out = set acc \<union> {s'. expands rs s s'}"
          using IH ok by blast
        from expands_loop [OF ok s1 this _ loop] offs(2) expands_at_ref [OF e True s1(1)] show ?thesis by (simp add: Cons)
      next
        case False
        then have "char_pos rs p" "out = add_stack stack acc" using run Cons e by (auto simp: char_pos_def is_char_start_def split: if_splits)
        then show ?thesis using expands_at_char [of rs p rest] by (auto simp: Cons set_add_stack)
      qed
    qed
  qed
  then show ?thesis using ok st by blast
qed

text \<open>One character.\<close>

definition consumes :: "grammar_rules \<Rightarrow> nat \<Rightarrow> grammar_stack \<Rightarrow> grammar_stack \<Rightarrow> bool" where
  "consumes rs c s s' \<longleftrightarrow> (\<exists>p rest s2. s = p # rest \<and> class_has (class_at rs p) c \<and> push_pos rs (after_class rs p) rest = Some s2 \<and> expands rs s2 s')"

lemma accept_one_consumes:
  assumes ok: "rules_ok rs" and s: "stack_ready rs s" and run: "accept_one rs c s acc = Some out"
  shows "set out = set acc \<union> {s'. consumes rs c s s'}"
proof (cases s)
  case Nil
  then show ?thesis using run by (simp add: accept_one_def consumes_def)
next
  case (Cons p rest)
  have p: "char_pos rs p" and rest: "stack_ok rs rest" using s Cons by (auto simp: stack_ready_def stack_ok_def)
  note m = match_char_class(1) [OF ok p, of c] match_char_class(2) [OF ok p]
  obtain s' where s': "push_pos rs (after_class rs p) rest = Some s'" "stack_ok rs s'" using push_pos_lang [OF m(2) rest] by blast
  show ?thesis
  proof (cases "class_has (class_at rs p) c")
    case True
    then have "advance_stack rs s' acc = Some out" using run Cons m(1) s'(1) by (simp add: accept_one_def)
    then show ?thesis using advance_stack_expands [OF ok s'(2)] True s'(1) Cons by (simp add: consumes_def)
  next
    case False
    then show ?thesis using run Cons m(1) by (simp add: accept_one_def consumes_def)
  qed
qed

lemma grammar_accept_consumes:
  assumes ok: "rules_ok rs" and ss: "stacks_ready rs ss" and run: "grammar_accept rs ss c = Some out"
  shows "set out = {s'. \<exists>s \<in> set ss. consumes rs c s s'}"
proof -
  have "set out = set acc \<union> {s'. \<exists>s \<in> set ss. consumes rs c s s'}" if "foldM (accept_one rs c) ss acc = Some out" for acc
    using ss that
  proof (induction ss arbitrary: acc)
    case (Cons s ss)
    then obtain mid where mid: "accept_one rs c s acc = Some mid" "foldM (accept_one rs c) ss mid = Some out"
      by (auto split: option.splits)
    have "stack_ready rs s" "stacks_ready rs ss" using Cons.prems(1) by (simp_all add: stacks_ready_def)
    then show ?case using Cons.IH [OF _ mid(2)] accept_one_consumes [OF ok _ mid(1)] by auto
  qed simp
  then show ?thesis using run by (simp add: grammar_accept_def)
qed

subsection \<open>Partial characters\<close>

definition class_overlaps :: "grammar_rule \<Rightarrow> nat \<Rightarrow> nat \<Rightarrow> bool" where
  "class_overlaps es low high \<longleftrightarrow> (\<exists>(a, b) \<in> set (class_ranges es). a \<le> high \<and> low \<le> b)"

lemma match_partial_loop_class:
  assumes "successively adj_ok es" "es \<noteq> []" "ge_type (last es) = GR_END" "ge_type (hd es) \<in> {GR_CHAR, GR_CHAR_NOT, GR_CHAR_ALT}"
  shows "match_partial_loop es low high positive = Some (if class_overlaps es low high then positive else \<not> positive)"
  using assms
proof (induction es low high positive rule: match_partial_loop.induct)
  case (1 e u es low high positive)
  show ?case
  proof (cases "ge_type u = GR_CHAR_RNG_UPPER")
    case True
    then obtain f es' where es: "es = f # es'" using "1.prems"(3) by (cases es) auto
    have "ge_type f \<noteq> GR_CHAR_RNG_UPPER" using "1.prems"(1) True by (auto simp: es adj_ok_def)
    then show ?thesis using 1 True by (cases "ge_type f = GR_CHAR_ALT") (auto simp: es class_overlaps_def)
  next
    case False
    then show ?thesis using 1 by (cases "ge_type u = GR_CHAR_ALT") (auto simp: class_overlaps_def)
  qed
qed auto

text \<open>What \<open>match_partial_char\<close> returns at the start of a class.\<close>

definition partial_ok :: "partial_utf8 \<Rightarrow> bool" where
  "partial_ok pu \<longleftrightarrow> pu_n_remain pu \<le> 5"

definition class_partial :: "grammar_rule \<Rightarrow> partial_utf8 \<Rightarrow> bool" where
  "class_partial es pu \<longleftrightarrow> \<not> (pu_n_remain pu < 0 \<or> (pu_n_remain pu = 1 \<and> pu_value pu < 2)) \<and>
     (case partial_range (pu_value pu) (nat (pu_n_remain pu)) of (low, high) \<Rightarrow>
       (case ge_type (hd es) of GR_CHAR_ANY \<Rightarrow> True | GR_CHAR_NOT \<Rightarrow> \<not> class_overlaps es low high | _ \<Rightarrow> class_overlaps es low high))"

lemma match_partial_char_class:
  assumes ok: "rules_ok rs" and p: "char_pos rs p" and pu: "partial_ok pu"
  shows "match_partial_char rs p pu = Some (class_partial (class_at rs p) pu)"
proof -
  obtain r i where pi: "p = (r, i)" by (cases p)
  obtain e where e: "r < length rs" "i < length (rs ! r)" "rs ! r ! i = e" "is_char_start e" using p by (auto simp: char_pos_def elem_at_Some pi)
  have rule: "rule_ok (length rs) (rs ! r)" using ok e(1) by (simp add: rules_ok_def)
  note suf = rule_suffix [OF rule e(2)]
  let ?es = "drop i (rs ! r)"
  have hd: "hd ?es = e" using suf(4) e(3) by simp
  obtain low high where lh: "partial_range (pu_value pu) (nat (pu_n_remain pu)) = (low, high)" by (cases "partial_range (pu_value pu) (nat (pu_n_remain pu))")
  have any: "match_partial_loop ?es low high True = Some True" if a: "ge_type e = GR_CHAR_ANY"
  proof -
    obtain e' u es' where es: "?es = e' # u # es'" using suf(3) hd suf(2) a by (cases ?es rule: class_len.cases) auto
    then have "ge_type u \<noteq> GR_CHAR_RNG_UPPER" using suf(1) a hd by (auto simp: adj_ok_def)
    then show ?thesis using a hd by (simp add: es)
  qed
  show ?thesis
    using e pu match_partial_loop_class [OF suf(1-3), of low high] hd lh any
    by (auto simp: match_partial_char_def pi class_at_def class_partial_def is_char_start_def is_positive_def partial_ok_def)
qed

subsection \<open>The candidates that stay\<close>

definition partial_fits :: "grammar_rules \<Rightarrow> grammar_stack \<Rightarrow> partial_utf8 \<Rightarrow> bool" where
  "partial_fits rs s pu \<longleftrightarrow> pu_n_remain pu = 0 \<or> (s \<noteq> [] \<and> class_partial (class_at rs (hd s)) pu)"

fun word_fits :: "grammar_rules \<Rightarrow> grammar_stack \<Rightarrow> nat list \<Rightarrow> partial_utf8 \<Rightarrow> bool" where
  "word_fits rs s [] pu = partial_fits rs s pu"
| "word_fits rs s (c # w) pu = (\<exists>s'. consumes rs c s s' \<and> word_fits rs s' w pu)"

lemma word_fits_accept_all:
  assumes ok: "rules_ok rs"
  shows "stacks_ready rs ss \<Longrightarrow> accept_all rs ss w = Some out \<Longrightarrow> (\<exists>s \<in> set ss. word_fits rs s w pu) \<longleftrightarrow> (\<exists>s \<in> set out. partial_fits rs s pu)"
proof (induction w arbitrary: ss)
  case (Cons c w)
  then obtain mid where mid: "grammar_accept rs ss c = Some mid" "accept_all rs mid w = Some out"
    by (auto simp: accept_all_def split: option.splits)
  have "(\<exists>s \<in> set ss. word_fits rs s (c # w) pu) \<longleftrightarrow> (\<exists>s \<in> set mid. word_fits rs s w pu)"
    using grammar_accept_consumes [OF ok Cons.prems(1) mid(1)] by auto
  then show ?case using Cons.IH [OF grammar_accept_lang(1) [OF ok Cons.prems(1) mid(1)] mid(2)] by simp
qed (simp add: accept_all_def)

text \<open>The code points of a candidate that are still to be matched.\<close>

definition cand_word :: "grammar_candidate \<Rightarrow> nat list" where
  "cand_word tok = takeWhile (\<lambda>c. c \<noteq> 0) (drop (gc_at tok) (gc_code_points tok))"

definition cand_ok :: "grammar_candidate \<Rightarrow> bool" where
  "cand_ok tok \<longleftrightarrow> 0 \<in> set (drop (gc_at tok) (gc_code_points tok)) \<and> partial_ok (gc_partial tok)"

definition cand_fits :: "grammar_rules \<Rightarrow> grammar_stack \<Rightarrow> grammar_candidate \<Rightarrow> bool" where
  "cand_fits rs s tok \<longleftrightarrow> word_fits rs s (cand_word tok) (gc_partial tok)"

definition cand_next :: "grammar_candidate \<Rightarrow> grammar_candidate" where
  "cand_next tok = tok\<lparr>gc_at := gc_at tok + 1\<rparr>"

lemma cand_next_back [simp]: "(cand_next tok)\<lparr>gc_at := gc_at (cand_next tok) - 1\<rparr> = tok"
  by (simp add: cand_next_def)

lemma cand_back_image:
  "(\<lambda>tok. tok\<lparr>gc_at := gc_at tok - 1\<rparr>) ` {u \<in> {cand_next t | t. A t}. \<not> B u} = {t. A t \<and> \<not> B (cand_next t)}" (is "?f ` _ = _")
proof -
  have eq: "{u \<in> {cand_next t | t. A t}. \<not> B u} = cand_next ` {t. A t \<and> \<not> B (cand_next t)}" by blast
  show ?thesis unfolding eq image_image cand_next_back by simp
qed

lemma cand_head:
  assumes "cand_ok tok"
  shows "\<exists>c. vget (gc_code_points tok) (gc_at tok) = Some c \<and>
    (if c = 0 then cand_word tok = []
     else cand_word tok = c # cand_word (cand_next tok) \<and> cand_ok (cand_next tok) \<and> gc_partial (cand_next tok) = gc_partial tok)"
proof -
  have l: "gc_at tok < length (gc_code_points tok)"
  proof (rule ccontr)
    assume "\<not> gc_at tok < length (gc_code_points tok)"
    then show False using assms by (simp add: cand_ok_def)
  qed
  have d: "drop (gc_at tok) (gc_code_points tok) = gc_code_points tok ! gc_at tok # drop (Suc (gc_at tok)) (gc_code_points tok)"
    using l by (simp add: Cons_nth_drop_Suc)
  show ?thesis
    using l assms unfolding cand_ok_def cand_word_def cand_next_def d by auto
qed

text \<open>A list of rejects that is right for a stack, as a set.\<close>

definition rejects_for :: "grammar_rules \<Rightarrow> grammar_stack \<Rightarrow> grammar_candidate list \<Rightarrow> grammar_candidate list \<Rightarrow> bool" where
  "rejects_for rs s cands rejects \<longleftrightarrow> set rejects = {t \<in> set cands. \<not> cand_fits rs s t}"

lemma reject_ended_nil:
  "\<forall>t \<in> set cands. cand_ok t \<Longrightarrow> \<exists>rejects. reject_ended cands = Some rejects \<and> rejects_for rs [] cands rejects"
proof (induction cands)
  case (Cons tok toks)
  obtain rejects where IH: "reject_ended toks = Some rejects" "rejects_for rs [] toks rejects" using Cons by auto
  obtain c where c: "vget (gc_code_points tok) (gc_at tok) = Some c" "if c = 0 then cand_word tok = [] else cand_word tok \<noteq> []"
    using cand_head [of tok] Cons.prems by (auto split: if_splits)
  have "cand_fits rs [] tok \<longleftrightarrow> \<not> (c \<noteq> 0 \<or> pu_n_remain (gc_partial tok) \<noteq> 0)"
    using c(2) by (cases "c = 0"; cases "cand_word tok") (auto simp: cand_fits_def partial_fits_def consumes_def)
  then show ?case using IH c(1) by (auto simp: rejects_for_def)
qed (simp add: rejects_for_def)


lemma reject_step_splits:
  assumes ok: "rules_ok rs" and p: "char_pos rs p"
  shows "\<forall>t \<in> set cands. cand_ok t \<Longrightarrow> \<exists>nexts rejects. reject_step rs p cands = Some (nexts, rejects) \<and>
    set nexts = {cand_next t | t. t \<in> set cands \<and> (\<exists>c w. cand_word t = c # w \<and> class_has (class_at rs p) c)} \<and>
    set rejects = {t \<in> set cands. case cand_word t of [] \<Rightarrow> pu_n_remain (gc_partial t) \<noteq> 0 \<and> \<not> class_partial (class_at rs p) (gc_partial t)
      | c # w \<Rightarrow> \<not> class_has (class_at rs p) c}"
proof (induction cands)
  case (Cons tok toks)
  obtain nexts rejects where IH: "reject_step rs p toks = Some (nexts, rejects)"
    "set nexts = {cand_next t | t. t \<in> set toks \<and> (\<exists>c w. cand_word t = c # w \<and> class_has (class_at rs p) c)}"
    "set rejects = {t \<in> set toks. case cand_word t of [] \<Rightarrow> pu_n_remain (gc_partial t) \<noteq> 0 \<and> \<not> class_partial (class_at rs p) (gc_partial t)
      | c # w \<Rightarrow> \<not> class_has (class_at rs p) c}"
    using Cons by auto
  have tok: "cand_ok tok" using Cons.prems by simp
  then have pu: "partial_ok (gc_partial tok)" by (simp add: cand_ok_def)
  obtain c where c: "vget (gc_code_points tok) (gc_at tok) = Some c"
    "if c = 0 then cand_word tok = [] else cand_word tok = c # cand_word (cand_next tok)"
    using cand_head [OF tok] by (auto split: if_splits)
  note m = match_char_class(1) [OF ok p] match_partial_char_class [OF ok p pu]
  show ?case
  proof (cases "c = 0")
    case True
    then show ?thesis using c IH m by auto
  next
    case False
    then have w: "cand_word tok = c # cand_word (cand_next tok)" using c(2) by simp
    then show ?thesis using c(1) False IH m(1) [of c] by (cases "class_has (class_at rs p) c") (auto simp: cand_next_def)
  qed
qed simp

lemma reject_all_stacks:
  assumes f: "\<forall>s cands'. s \<in> set stacks \<longrightarrow> set cands' \<subseteq> set cands \<longrightarrow> (\<exists>rejects. f s cands' = Some rejects \<and> rejects_for rs s cands' rejects)"
  shows "\<exists>rejects. foldM f stacks cands = Some rejects \<and> set rejects = {t \<in> set cands. \<not> (\<exists>s \<in> set stacks. cand_fits rs s t)}"
  using f
proof (induction stacks arbitrary: cands)
  case (Cons s stacks)
  obtain mid where mid: "f s cands = Some mid" "rejects_for rs s cands mid" using Cons.prems by force
  have sub: "set mid \<subseteq> set cands" using mid(2) by (auto simp: rejects_for_def)
  have "\<forall>s' cands'. s' \<in> set stacks \<longrightarrow> set cands' \<subseteq> set mid \<longrightarrow> (\<exists>rejects. f s' cands' = Some rejects \<and> rejects_for rs s' cands' rejects)"
    using Cons.prems sub order_trans [of _ "set mid" "set cands"] by simp
  then obtain rejects where r: "foldM f stacks mid = Some rejects" "set rejects = {t \<in> set mid. \<not> (\<exists>s \<in> set stacks. cand_fits rs s t)}"
    using Cons.IH [of mid] by blast
  show ?case using mid r by (auto simp: rejects_for_def)
qed simp

text \<open>A candidate fits a stack when it fits at the top and its rest fits one of the stacks that follow.\<close>

lemma cand_fits_Cons:
  assumes p: "char_pos rs p" and s2: "push_pos rs (after_class rs p) rest = Some s2" and t: "cand_ok t"
  shows "cand_fits rs (p # rest) t \<longleftrightarrow> (case cand_word t of
      [] \<Rightarrow> pu_n_remain (gc_partial t) = 0 \<or> class_partial (class_at rs p) (gc_partial t)
    | c # w \<Rightarrow> class_has (class_at rs p) c \<and> (\<exists>s'. expands rs s2 s' \<and> cand_fits rs s' (cand_next t)))"
proof (cases "cand_word t")
  case Nil
  then show ?thesis by (simp add: cand_fits_def partial_fits_def)
next
  case (Cons c w)
  have "w = cand_word (cand_next t) \<and> gc_partial (cand_next t) = gc_partial t"
    using cand_head [OF t] Cons by (auto split: if_splits)
  then show ?thesis using s2 Cons by (auto simp: cand_fits_def consumes_def)
qed

lemma reject_for_stack_total:
  assumes ok: "rules_ok rs" and wf: "left_wf rs"
  shows "stack_ready rs s \<Longrightarrow> \<forall>t \<in> set cands. cand_ok t \<and> length (cand_word t) < n \<Longrightarrow>
    \<exists>rejects. reject_for_stack rs s cands = Some rejects \<and> rejects_for rs s cands rejects"
proof (induction n arbitrary: s cands rule: less_induct)
  case (less n)
  show ?case
  proof (cases s)
    case Nil
    then show ?thesis using reject_ended_nil less.prems(2) by (simp add: reject_for_stack.simps)
  next
    case (Cons p rest)
    have p: "char_pos rs p" and rest: "stack_ok rs rest" using less.prems(1) Cons by (auto simp: stack_ready_def stack_ok_def)
    note m = match_char_class(1) [OF ok p, of 0] match_char_class(2) [OF ok p]
    obtain s2 where s2: "push_pos rs (after_class rs p) rest = Some s2" "stack_ok rs s2" using push_pos_lang [OF m(2) rest] by blast
    obtain next_stacks where ns: "advance_stack rs s2 [] = Some next_stacks" using advance_ends_all [OF ok wf s2(2)] by (auto simp: advance_ends_def)
    have ns_set: "set next_stacks = {s'. expands rs s2 s'}" using advance_stack_expands [OF ok s2(2) ns] by simp
    have ns_ready: "\<forall>s' \<in> set next_stacks. stack_ready rs s'" and ns_ne: "next_stacks \<noteq> []"
      using advance_stack_lang [OF ok s2(2) ns] by (auto simp: advances_def)
    have cands: "\<forall>t \<in> set cands. cand_ok t" using less.prems(2) by blast
    obtain nexts rejects where step: "reject_step rs p cands = Some (nexts, rejects)"
      "set nexts = {cand_next t | t. t \<in> set cands \<and> (\<exists>c w. cand_word t = c # w \<and> class_has (class_at rs p) c)}"
      "set rejects = {t \<in> set cands. case cand_word t of [] \<Rightarrow> pu_n_remain (gc_partial t) \<noteq> 0 \<and> \<not> class_partial (class_at rs p) (gc_partial t)
        | c # w \<Rightarrow> \<not> class_has (class_at rs p) c}"
      using reject_step_splits [OF ok p cands] by blast
    have "\<exists>next_rejects. reject_all (reject_for_stack rs) next_stacks nexts = Some next_rejects \<and>
        set next_rejects = {t \<in> set nexts. \<not> (\<exists>s' \<in> set next_stacks. cand_fits rs s' t)}"
    proof (cases "nexts = []")
      case True
      then show ?thesis using ns_ne by (simp add: reject_all_def)
    next
      case False
      have shorter: "cand_ok u \<and> length (cand_word u) < n - 1" if u: "u \<in> set nexts" for u
      proof -
        obtain t c w where t: "u = cand_next t" "t \<in> set cands" "cand_word t = c # w" using u step(2) by blast
        have "cand_ok u \<and> cand_word u = w" using cand_head [of t] cands t by (auto split: if_splits)
        moreover have "length (cand_word t) < n" using less.prems(2) t(2) by blast
        ultimately show ?thesis using t(3) by simp
      qed
      obtain u where "u \<in> set nexts" using False by (cases nexts) auto
      then have "n - 1 < n" using shorter by fastforce
      note IH = less.IH [OF this]
      have "\<forall>s' cands'. s' \<in> set next_stacks \<longrightarrow> set cands' \<subseteq> set nexts \<longrightarrow>
          (\<exists>rejects. reject_for_stack rs s' cands' = Some rejects \<and> rejects_for rs s' cands' rejects)"
        using IH ns_ready shorter by (simp add: subset_iff)
      from reject_all_stacks [OF this] show ?thesis using False ns_ne by (simp add: reject_all_def)
    qed
    then obtain next_rejects where nr: "reject_all (reject_for_stack rs) next_stacks nexts = Some next_rejects"
      "set next_rejects = {t \<in> set nexts. \<not> (\<exists>s' \<in> set next_stacks. cand_fits rs s' t)}" by blast
    let ?out = "rejects @ map (\<lambda>tok. tok\<lparr>gc_at := gc_at tok - 1\<rparr>) next_rejects"
    have run: "reject_for_stack rs s cands = Some ?out"
      using Cons step(1) m(1) s2(1) ns nr(1) by (simp add: reject_for_stack.simps [of rs "p # rest"])
    have out: "set ?out = set rejects \<union> {t \<in> set cands. (\<exists>c w. cand_word t = c # w \<and> class_has (class_at rs p) c) \<and>
        \<not> (\<exists>s'. expands rs s2 s' \<and> cand_fits rs s' (cand_next t))}" (is "_ = _ \<union> ?N")
    proof -
      have "(\<lambda>tok. tok\<lparr>gc_at := gc_at tok - 1\<rparr>) ` set next_rejects = ?N" unfolding nr(2) step(2) ns_set cand_back_image by simp
      then show ?thesis by simp
    qed
    have "t \<in> set ?out \<longleftrightarrow> \<not> cand_fits rs s t" if t: "t \<in> set cands" for t
    proof -
      have "cand_ok t" using cands t by blast
      then show ?thesis unfolding out step(3) Cons cand_fits_Cons [OF p s2(1) \<open>cand_ok t\<close>]
        using t by (cases "cand_word t") auto
    qed
    moreover have "set ?out \<subseteq> set cands" unfolding out step(3) by blast
    ultimately have "rejects_for rs s cands ?out" unfolding rejects_for_def by blast
    then show ?thesis using run by blast
  qed
qed

lemma reject_candidates_total:
  assumes ok: "rules_ok rs" and wf: "left_wf rs" and ss: "stacks_ready rs stacks" "stacks \<noteq> []" and cands: "\<forall>t \<in> set cands. cand_ok t"
  shows "\<exists>rejects. reject_candidates rs stacks cands = Some rejects \<and> set rejects = {t \<in> set cands. \<not> (\<exists>s \<in> set stacks. cand_fits rs s t)}"
proof -
  have n: "\<forall>t \<in> set cands. length (cand_word t) < Suc (sum_list (map (\<lambda>t. length (cand_word t)) cands))"
    using member_le_sum_list [of _ "map (\<lambda>t. length (cand_word t)) cands"] by (simp add: less_Suc_eq_le)
  have "\<forall>s cands'. s \<in> set stacks \<longrightarrow> set cands' \<subseteq> set cands \<longrightarrow>
      (\<exists>rejects. reject_for_stack rs s cands' = Some rejects \<and> rejects_for rs s cands' rejects)"
    using reject_for_stack_total [OF ok wf, of _ _ "Suc (sum_list (map (\<lambda>t. length (cand_word t)) cands))"] ss(1) cands n by (simp add: stacks_ready_def subset_iff)
  from reject_all_stacks [OF this] show ?thesis using ss(2) by (auto simp: reject_candidates_def reject_all_def)
qed

text \<open>The same in terms of \<open>accept\<close>.\<close>

lemma reject_candidates_accept:
  assumes ok: "rules_ok rs" and wf: "left_wf rs" and ss: "stacks_ready rs stacks" and t: "accept_all rs stacks (cand_word t) = Some out"
  shows "(\<exists>s \<in> set stacks. cand_fits rs s t) \<longleftrightarrow> (\<exists>s \<in> set out. partial_fits rs s (gc_partial t))"
  using word_fits_accept_all [OF ok ss t] by (simp add: cand_fits_def)

end
