(* ===== verification/GrammarDecode.thy ===== *)
theory GrammarDecode
  imports GrammarRun
begin

text \<open>
  The decoder of pieces as a machine that reads one byte at a time, hence independent of how a text is
  cut into pieces, and its inverse: the UTF-8 encoding of a code point.
\<close>

subsection \<open>One byte at a time\<close>

definition lead_len :: "char \<Rightarrow> nat" where
  "lead_len c = utf8_lookup_partial (byte c div 16)"

definition lead_value :: "char \<Rightarrow> nat" where
  "lead_value c = byte c mod 2 ^ (8 - lead_len c)"

definition cont_value :: "nat \<Rightarrow> char \<Rightarrow> nat" where
  "cont_value v c = (v * 64 + byte c mod 64) mod 2 ^ 32"

definition emit :: "bool \<Rightarrow> nat \<Rightarrow> (nat list \<times> nat \<times> nat) option \<Rightarrow> (nat list \<times> nat \<times> nat) option" where
  "emit b v = map_option (\<lambda>(cps, r). (if b then v # cps else cps, r))"

text \<open>The code points completed, the last value and the bytes missing, from a value with \<open>n\<close> bytes missing.\<close>

fun utf8_run :: "nat \<Rightarrow> nat \<Rightarrow> string \<Rightarrow> (nat list \<times> nat \<times> nat) option" where
  "utf8_run v n [] = Some ([], v, n)"
| "utf8_run v 0 (c # cs) =
     (if lead_len c = 0 \<or> byte c = 0 then None
      else emit (lead_len c = 1) (lead_value c) (utf8_run (lead_value c) (lead_len c - 1) cs))"
| "utf8_run v (Suc n) (c # cs) =
     (if byte c div 64 \<noteq> 2 then None else emit (n = 0) (cont_value v c) (utf8_run (cont_value v c) n cs))"

lemma emit_eq_Some: "emit b v r = Some (cps, x) \<longleftrightarrow> (\<exists>cps'. r = Some (cps', x) \<and> cps = (if b then v # cps' else cps'))"
proof (cases r)
  case (Some a)
  obtain c y where "a = (c, y)" by (cases a)
  then show ?thesis by (auto simp: emit_def Some)
qed (simp add: emit_def)

lemma emit_append:
  "emit e w (Option.bind y (\<lambda>(c1, s). map_option (\<lambda>(c2, r). (c1 @ c2, r)) (f s))) =
   Option.bind (emit e w y) (\<lambda>(c1, s). map_option (\<lambda>(c2, r). (c1 @ c2, r)) (f s))"
proof (cases y)
  case (Some cs)
  then show ?thesis by (cases cs; cases "f (snd cs)") (auto simp: emit_def)
qed (simp add: emit_def)

lemma utf8_run_append:
  "utf8_run v n (a @ b) = Option.bind (utf8_run v n a) (\<lambda>(c1, s). map_option (\<lambda>(c2, r). (c1 @ c2, r)) (case s of (v1, n1) \<Rightarrow> utf8_run v1 n1 b))"
proof (induction v n a rule: utf8_run.induct)
  case (1 v n)
  then show ?case by (cases "utf8_run v n b") auto
next
  case (2 v c cs)
  then show ?case by (simp add: emit_append)
next
  case (3 v n c cs)
  then show ?case by (simp add: emit_append)
qed

subsection \<open>The decoder is this machine\<close>

lemma utf8_run_no_nul: "utf8_run v n cs = Some r \<Longrightarrow> c_str cs = cs"
  by (induction v n cs arbitrary: r rule: utf8_run.induct) (auto simp: c_str_def emit_def split: if_splits)

lemma decode_continue_run:
  "utf8_run v (Suc n) cs = Some (out, v', n') \<Longrightarrow>
   \<exists>v1 n1 rest out1. decode_continue cs v (Suc n) = Some (v1, n1, rest) \<and> out = (if n1 = 0 then v1 # out1 else out1) \<and>
     (if n1 = 0 then utf8_run v1 0 rest = Some (out1, v', n') else rest = [] \<and> out1 = [] \<and> v' = v1 \<and> n' = n1)"
proof (induction cs arbitrary: v n out)
  case Nil
  then have "v' = v" "n' = Suc n" "out = []" by auto
  then show ?case by simp
next
  case (Cons c cs)
  then obtain out1 where run: "byte c div 64 = 2" "utf8_run (cont_value v c) n cs = Some (out1, v', n')"
    "out = (if n = 0 then cont_value v c # out1 else out1)"
    by (auto simp: emit_eq_Some split: if_splits)
  show ?case
  proof (cases n)
    case 0
    then show ?thesis using run by (simp add: cont_value_def)
  next
    case (Suc m)
    then show ?thesis using Cons.IH [of "cont_value v c" m out1] run by (simp add: cont_value_def)
  qed
qed

lemma decode_inner_run:
  "utf8_run v (Suc n) cs = Some (out, v', n') \<Longrightarrow>
   \<exists>v1 n1 rest out1. decode_inner cs v (Suc n) = (v1, n1, rest) \<and> out = (if n1 = 0 then v1 # out1 else out1) \<and>
     (if n1 = 0 then utf8_run v1 0 rest = Some (out1, v', n') else rest = [] \<and> out1 = [] \<and> v' = v1 \<and> n' = n1)"
proof (induction cs arbitrary: v n out)
  case Nil
  then have "v' = v" "n' = Suc n" "out = []" by auto
  then show ?case by simp
next
  case (Cons c cs)
  then obtain out1 where run: "utf8_run (cont_value v c) n cs = Some (out1, v', n')"
    "out = (if n = 0 then cont_value v c # out1 else out1)"
    by (auto simp: emit_eq_Some split: if_splits)
  show ?case
  proof (cases n)
    case 0
    then show ?thesis using run by (simp add: cont_value_def)
  next
    case (Suc m)
    then show ?thesis using Cons.IH [of "cont_value v c" m out1] run by (simp add: cont_value_def)
  qed
qed

lemma decode_seqs_run:
  "utf8_run v 0 cs = Some (out, v', n') \<Longrightarrow> decode_seqs cs cps v 0 = Some (cps @ out, v', int n')"
proof (induction "length cs" arbitrary: cs cps v out rule: less_induct)
  case less
  show ?case
  proof (cases cs)
    case Nil
    then show ?thesis using less.prems by simp
  next
    case (Cons c cs')
    let ?l = "lead_len c"
    have l: "?l \<noteq> 0" using less.prems Cons by (auto split: if_splits)
    obtain out1 where run: "utf8_run (lead_value c) (?l - 1) cs' = Some (out1, v', n')" "out = (if ?l = 1 then lead_value c # out1 else out1)"
      using less.prems Cons by (auto simp: emit_eq_Some split: if_splits)
    have start: "decode_seqs cs cps v 0 = (case decode_inner cs' (lead_value c) (?l - 1) of
        (v, n, rest) \<Rightarrow> decode_seqs rest (if n = 0 then cps @ [v] else cps) v (int n))"
      using l by (simp add: Cons lead_len_def lead_value_def Let_def)
    show ?thesis
    proof (cases "?l - 1")
      case 0
      then have "?l = 1" using l by simp
      then show ?thesis using less.hyps [of cs' "lead_value c" out1 "cps @ [lead_value c]"] run start Cons by simp
    next
      case (Suc m)
      obtain v1 n1 rest out2 where d: "decode_inner cs' (lead_value c) (Suc m) = (v1, n1, rest)" "out1 = (if n1 = 0 then v1 # out2 else out2)"
        "if n1 = 0 then utf8_run v1 0 rest = Some (out2, v', n') else rest = [] \<and> out2 = [] \<and> v' = v1 \<and> n' = n1"
        using decode_inner_run [of "lead_value c" m cs' out1] run(1) Suc by auto
      have "length rest < length cs" using decode_inner_shorter [OF d(1)] Cons by simp
      then have IH: "utf8_run v1 0 rest = Some (out2, v', n') \<Longrightarrow> decode_seqs rest (cps @ [v1]) v1 0 = Some ((cps @ [v1]) @ out2, v', int n')"
        by (rule less.hyps)
      show ?thesis using d IH run(2) start Suc by (cases "n1 = 0") auto
    qed
  qed
qed

lemma decode_piece_run:
  assumes "utf8_run v n src = Some (out, v', n')"
  shows "decode_piece src \<lparr>pu_value = v, pu_n_remain = int n\<rparr> = (out @ [0], \<lparr>pu_value = v', pu_n_remain = int n'\<rparr>)"
proof (cases n)
  case 0
  then show ?thesis using decode_seqs_run [of v src out v' n' "[]"] assms utf8_run_no_nul [OF assms] by (simp add: decode_piece_def Let_def)
next
  case (Suc m)
  obtain v1 n1 rest out1 where d: "decode_continue src v (Suc m) = Some (v1, n1, rest)" "out = (if n1 = 0 then v1 # out1 else out1)"
    "if n1 = 0 then utf8_run v1 0 rest = Some (out1, v', n') else rest = [] \<and> out1 = [] \<and> v' = v1 \<and> n' = n1"
    using decode_continue_run [of v m src out v' n'] assms Suc by auto
  have n: "nat (1 + int m) = Suc m" by simp
  show ?thesis
  proof (cases "n1 = 0")
    case True
    then show ?thesis using d decode_seqs_run [of v1 rest out1 v' n' "[v1]"] utf8_run_no_nul [OF assms]
      by (simp add: decode_piece_def Let_def Suc n)
  next
    case False
    then show ?thesis using d utf8_run_no_nul [OF assms] by (simp add: decode_piece_def Let_def Suc n)
  qed
qed

subsection \<open>Encoding\<close>

definition utf8_encode :: "nat \<Rightarrow> string" where
  "utf8_encode c = map char_of
     (if c < 2 ^ 7 then [c]
      else if c < 2 ^ 11 then [192 + c div 64, 128 + c mod 64]
      else if c < 2 ^ 16 then [224 + c div 4096, 128 + c div 64 mod 64, 128 + c mod 64]
      else [240 + c div 262144, 128 + c div 4096 mod 64, 128 + c div 64 mod 64, 128 + c mod 64])"

definition code_point_ok :: "nat \<Rightarrow> bool" where
  "code_point_ok c \<longleftrightarrow> 0 < c \<and> c < 1114112"

lemma byte_char_of: "k < 256 \<Longrightarrow> byte (char_of k) = k"
  by (simp add: byte_def)

lemma lead_ascii:
  assumes "(c :: nat) < 128"
  shows "lead_len (char_of c) = 1"
proof -
  have "c div 16 < 8" using assms by (simp add: div_less_iff_less_mult)
  then have "c div 16 \<in> {0, 1, 2, 3, 4, 5, 6, 7}" by auto
  then show ?thesis using assms by (auto simp: lead_len_def byte_char_of utf8_lookup_partial_def)
qed

lemma lead_two:
  assumes "(k :: nat) < 32"
  shows "lead_len (char_of (192 + k)) = 2"
proof -
  have "k div 16 < 2" using assms by (simp add: div_less_iff_less_mult)
  then have "(192 + k) div 16 = 12 \<or> (192 + k) div 16 = 13" using div_mult_self3 [of 16 12 k] by auto
  then show ?thesis using assms by (auto simp: lead_len_def byte_char_of utf8_lookup_partial_def)
qed

lemma lead_three:
  assumes "(k :: nat) < 16"
  shows "lead_len (char_of (224 + k)) = 3"
proof -
  have "(224 + k) div 16 = 14" using assms div_mult_self3 [of 16 14 k] by simp
  then show ?thesis using assms by (simp add: lead_len_def byte_char_of utf8_lookup_partial_def)
qed

lemma lead_four:
  assumes "(k :: nat) < 16"
  shows "lead_len (char_of (240 + k)) = 4"
proof -
  have "(240 + k) div 16 = 15" using assms div_mult_self3 [of 16 15 k] by simp
  then show ?thesis using assms by (simp add: lead_len_def byte_char_of utf8_lookup_partial_def)
qed

lemma emit_False: "emit False w r = r"
  by (cases r) (simp_all add: emit_def)

lemma lead_value_multi:
  fixes k :: nat
  shows "k < 32 \<Longrightarrow> lead_value (char_of (192 + k)) = k" and "k < 16 \<Longrightarrow> lead_value (char_of (224 + k)) = k"
    and "k < 16 \<Longrightarrow> lead_value (char_of (240 + k)) = k"
  using mod_mult_self3 [of 3 64 k] mod_mult_self3 [of 7 32 k] mod_mult_self3 [of 15 16 k]
  by (simp_all add: lead_value_def lead_two lead_three lead_four byte_char_of)

lemma cont_byte: "(k :: nat) < 64 \<Longrightarrow> byte (char_of (128 + k)) div 64 = 2"
  by (simp add: byte_char_of)

lemma cont_value_char: "k < 64 \<Longrightarrow> v * 64 + k < 2 ^ 32 \<Longrightarrow> cont_value v (char_of (128 + k)) = v * 64 + k"
  using mod_mult_self3 [of 2 64 k] by (simp add: cont_value_def byte_char_of)

text \<open>A continuation byte, and the lead bytes.\<close>

lemma utf8_run_cont:
  assumes k: "k < 64" "v * 64 + k < 2 ^ 32"
  shows "utf8_run v 1 (char_of (128 + k) # s) = emit True (v * 64 + k) (utf8_run (v * 64 + k) 0 s)"
    and "1 < n \<Longrightarrow> utf8_run v n (char_of (128 + k) # s) = utf8_run (v * 64 + k) (n - 1) s"
proof -
  show "utf8_run v 1 (char_of (128 + k) # s) = emit True (v * 64 + k) (utf8_run (v * 64 + k) 0 s)"
    using cont_value_char [OF k] k by (simp add: cont_byte)
  show "utf8_run v n (char_of (128 + k) # s) = utf8_run (v * 64 + k) (n - 1) s" if "1 < n"
    using cont_value_char [OF k] k that by (cases n) (simp_all add: cont_byte emit_False)
qed

lemma utf8_run_lead:
  fixes k :: nat
  shows "k < 32 \<Longrightarrow> utf8_run v 0 (char_of (192 + k) # s) = utf8_run k 1 s"
    and "k < 16 \<Longrightarrow> utf8_run v 0 (char_of (224 + k) # s) = utf8_run k 2 s"
    and "k < 16 \<Longrightarrow> utf8_run v 0 (char_of (240 + k) # s) = utf8_run k 3 s"
proof -
  show "k < 32 \<Longrightarrow> utf8_run v 0 (char_of (192 + k) # s) = utf8_run k 1 s"
    and "k < 16 \<Longrightarrow> utf8_run v 0 (char_of (224 + k) # s) = utf8_run k 2 s"
    and "k < 16 \<Longrightarrow> utf8_run v 0 (char_of (240 + k) # s) = utf8_run k 3 s"
    by (simp_all add: lead_value_multi lead_two lead_three lead_four byte_char_of emit_False)
qed

lemma utf8_run_encode:
  assumes "code_point_ok c"
  shows "utf8_run v 0 (utf8_encode c @ s) = emit True c (utf8_run c 0 s)"
proof -
  have small: "c < 1114112" using assms by (simp add: code_point_ok_def)
  consider (one) "c < 2 ^ 7" | (two) "2 ^ 7 \<le> c" "c < 2 ^ 11" | (three) "2 ^ 11 \<le> c" "c < 2 ^ 16" | (four) "2 ^ 16 \<le> c"
    by force
  then show ?thesis
  proof cases
    case one
    then show ?thesis using assms lead_ascii [of c] byte_char_of [of c] by (simp add: utf8_encode_def lead_value_def code_point_ok_def)
  next
    case two
    define k r where kr: "k = c div 64" "r = c mod 64"
    have k: "k < 32" using two by (simp add: kr div_less_iff_less_mult)
    have r: "r < 64" by (simp add: kr)
    have "k * 64 + r = c" by (simp add: kr)
    then show ?thesis using two utf8_run_lead(1) [OF k] utf8_run_cont(1) [OF r, of k] k r
      by (simp add: utf8_encode_def emit_False flip: kr)
  next
    case three
    define a b r where abr: "a = c div 4096" "b = c div 64 mod 64" "r = c mod 64"
    have lt: "a < 16" "b < 64" "r < 64" using three by (simp_all add: abr div_less_iff_less_mult)
    have ab: "a * 64 + b = c div 64" unfolding abr using div_mult_mod_eq [of "c div 64" 64] by (simp add: div_mult2_eq [symmetric])
    have c: "(a * 64 + b) * 64 + r = c" unfolding ab unfolding abr by simp
    have enc: "utf8_encode c = [char_of (224 + a), char_of (128 + b), char_of (128 + r)]" using three by (simp add: utf8_encode_def abr)
    have "utf8_run v 0 (utf8_encode c @ s) = utf8_run a 2 (char_of (128 + b) # char_of (128 + r) # s)"
      unfolding enc using utf8_run_lead(2) [OF lt(1)] by simp
    also have "\<dots> = utf8_run (a * 64 + b) 1 (char_of (128 + r) # s)"
      using utf8_run_cont(2) [OF lt(2), of a 2] lt by (simp del: utf8_run.simps)
    also have "\<dots> = emit True c (utf8_run c 0 s)"
      using utf8_run_cont(1) [OF lt(3), of "a * 64 + b"] c lt small by simp
    finally show ?thesis .
  next
    case four
    define a b d r where abr: "a = c div 262144" "b = c div 4096 mod 64" "d = c div 64 mod 64" "r = c mod 64"
    have lt: "a < 16" "b < 64" "d < 64" "r < 64" using small by (simp_all add: abr div_less_iff_less_mult)
    have ab: "a * 64 + b = c div 4096" unfolding abr using div_mult_mod_eq [of "c div 4096" 64] by (simp add: div_mult2_eq [symmetric])
    have abd: "(a * 64 + b) * 64 + d = c div 64" unfolding ab unfolding abr using div_mult_mod_eq [of "c div 64" 64] by (simp add: div_mult2_eq [symmetric])
    have c: "((a * 64 + b) * 64 + d) * 64 + r = c" unfolding abd unfolding abr by simp
    have enc: "utf8_encode c = [char_of (240 + a), char_of (128 + b), char_of (128 + d), char_of (128 + r)]" using four by (simp add: utf8_encode_def abr)
    have "utf8_run v 0 (utf8_encode c @ s) = utf8_run a 3 (char_of (128 + b) # char_of (128 + d) # char_of (128 + r) # s)"
      unfolding enc using utf8_run_lead(3) [OF lt(1)] by simp
    also have "\<dots> = utf8_run (a * 64 + b) 2 (char_of (128 + d) # char_of (128 + r) # s)"
      using utf8_run_cont(2) [OF lt(2), of a 3] lt by (simp del: utf8_run.simps)
    also have "\<dots> = utf8_run ((a * 64 + b) * 64 + d) 1 (char_of (128 + r) # s)"
      using utf8_run_cont(2) [OF lt(3), of "a * 64 + b" 2] lt by (simp del: utf8_run.simps)
    also have "\<dots> = emit True c (utf8_run c 0 s)"
      using utf8_run_cont(1) [OF lt(4), of "(a * 64 + b) * 64 + d"] c lt small by simp
    finally show ?thesis .
  qed
qed

lemma utf8_run_encode_all:
  "\<forall>c \<in> set cps. code_point_ok c \<Longrightarrow> \<exists>v'. utf8_run v 0 (concat (map utf8_encode cps)) = Some (cps, v', 0)"
proof (induction cps arbitrary: v)
  case (Cons c cps)
  then obtain v' where "utf8_run c 0 (concat (map utf8_encode cps)) = Some (cps, v', 0)" by fastforce
  then show ?case using Cons.prems utf8_run_encode [of c v] by (simp add: emit_def)
qed simp

subsection \<open>A text in pieces\<close>

text \<open>What \<open>accept_str\<close> does with the pieces one after the other: the code points it accepts.\<close>

fun decode_pieces :: "string list \<Rightarrow> partial_utf8 \<Rightarrow> nat list \<times> partial_utf8" where
  "decode_pieces [] pu = ([], pu)"
| "decode_pieces (s # ss) pu = (case decode_piece s pu of (cps, pu1) \<Rightarrow> (case decode_pieces ss pu1 of (cps', pu2) \<Rightarrow> (butlast cps @ cps', pu2)))"

lemma decode_pieces_run:
  "utf8_run v n (concat ss) = Some (out, v', n') \<Longrightarrow>
   decode_pieces ss \<lparr>pu_value = v, pu_n_remain = int n\<rparr> = (out, \<lparr>pu_value = v', pu_n_remain = int n'\<rparr>)"
proof (induction ss arbitrary: v n out)
  case (Cons s ss)
  obtain c1 v1 n1 where s: "utf8_run v n s = Some (c1, v1, n1)" using Cons.prems by (cases "utf8_run v n s") (auto simp: utf8_run_append)
  obtain c2 where ss: "utf8_run v1 n1 (concat ss) = Some (c2, v', n')" "out = c1 @ c2"
    using Cons.prems s by (auto simp: utf8_run_append)
  show ?case using decode_piece_run [OF s] Cons.IH [OF ss(1)] ss(2) by simp
qed simp

end
