(* ===== verification/GrammarSample.thy ===== *)
theory GrammarSample
  imports GrammarReject GrammarDecode
begin

text \<open>
  Masking and accepting fit together: \<open>llama_grammar_apply_impl\<close> leaves exactly the tokens whose text the
  stacks can read, and \<open>llama_grammar_accept_impl\<close> on such a token does not throw.
\<close>

definition grammar_ok :: "grammar \<Rightarrow> bool" where
  "grammar_ok g \<longleftrightarrow> rules_ok (gm_rules g) \<and> left_wf (gm_rules g) \<and> stacks_ready (gm_rules g) (gm_stacks g) \<and> partial_ok (gm_partial g)"

subsection \<open>The decoder's output\<close>

lemma decode_inner_bound: "decode_inner cs v n = (v', n', rest) \<Longrightarrow> n' \<le> n"
  by (induction cs v n rule: decode_inner.induct) auto

lemma decode_continue_bound: "decode_continue cs v n = Some (v', n', rest) \<Longrightarrow> n' \<le> n"
  by (induction cs v n rule: decode_continue.induct) (auto split: if_splits)

lemma lookup_partial_le: "utf8_lookup_partial (byte c div 16) \<le> 4"
proof -
  have "byte c div 16 < 16" using byte_less [of c] by (simp add: div_less_iff_less_mult)
  then have "utf8_lookup_partial (byte c div 16) \<in> set [1, 1, 1, 1, 1, 1, 1, 1, 0, 0, 0, 0, 2, 2, 3, 4]"
    unfolding utf8_lookup_partial_def by (intro nth_mem) simp
  then show ?thesis by auto
qed

lemma decode_seqs_bound: "decode_seqs cs cps v n = Some (out, v', n') \<Longrightarrow> n \<le> 5 \<Longrightarrow> n' \<le> 5"
proof (induction cs cps v n rule: decode_seqs.induct)
  case (2 c cs cps v n)
  let ?l = "utf8_lookup_partial (byte c div 16)"
  obtain v1 n1 rest where d: "decode_inner cs (byte c mod 2 ^ (8 - ?l)) (?l - 1) = (v1, n1, rest)"
    by (cases "decode_inner cs (byte c mod 2 ^ (8 - ?l)) (?l - 1)")
  have l: "?l \<noteq> 0" using "2.prems"(1) by (intro notI) simp
  have "int n1 \<le> 5" using decode_inner_bound [OF d] lookup_partial_le [of c] by simp
  then show ?case using 2 d l by (simp add: Let_def)
qed simp

lemma decode_piece_shape:
  assumes "decode_piece s pu = (cps, pu')" "partial_ok pu"
  shows "\<exists>cps'. cps = cps' @ [0]" and "partial_ok pu'"
proof -
  have "(\<exists>cps'. cps = cps' @ [0]) \<and> partial_ok pu'"
  proof (cases "if 0 < pu_n_remain pu
      then map_option (\<lambda>(v, n, rest). (if n = 0 then [v] else [], v, int n, rest)) (decode_continue (c_str s) (pu_value pu) (nat (pu_n_remain pu)))
      else Some ([], pu_value pu, pu_n_remain pu, c_str s)")
    case None
    then show ?thesis using assms(1) by (auto simp: decode_piece_def partial_ok_def)
  next
    case (Some a)
    obtain cps1 v n rest where a: "a = (cps1, v, n, rest)" by (cases a)
    have n: "n \<le> 5" using Some assms(2) decode_continue_bound [of "c_str s" "pu_value pu" "nat (pu_n_remain pu)"]
      by (fastforce simp: a partial_ok_def split: if_splits)
    show ?thesis
    proof (cases "decode_seqs rest cps1 v n")
      case None
      then show ?thesis using assms(1) \<open>_ = Some a\<close> by (auto simp: a decode_piece_def partial_ok_def)
    next
      case (Some r)
      obtain out v' n' where r: "r = (out, v', n')" by (cases r)
      then have "n' \<le> 5" using decode_seqs_bound Some n by blast
      then show ?thesis using assms(1) \<open>_ = Some a\<close> Some by (auto simp: a r decode_piece_def partial_ok_def)
    qed
  qed
  then show "\<exists>cps'. cps = cps' @ [0]" "partial_ok pu'" by blast+
qed

subsection \<open>The tokens that are left\<close>

text \<open>The piece leads somewhere: after its code points (up to a first 0) some stack fits the bytes left over.\<close>

definition piece_fits :: "grammar \<Rightarrow> string \<Rightarrow> bool" where
  "piece_fits g piece \<longleftrightarrow> (case decode_piece piece (gm_partial g) of (cps, pu) \<Rightarrow>
     (case accept_all (gm_rules g) (gm_stacks g) (takeWhile (\<lambda>c. c \<noteq> 0) cps) of None \<Rightarrow> False
      | Some ss \<Rightarrow> \<exists>s \<in> set ss. partial_fits (gm_rules g) s pu))"

definition token_allowed :: "(llama_token \<Rightarrow> string) \<Rightarrow> (llama_token \<Rightarrow> bool) \<Rightarrow> grammar \<Rightarrow> llama_token \<Rightarrow> bool" where
  "token_allowed piece_of is_eog g t \<longleftrightarrow> (if is_eog t then [] \<in> set (gm_stacks g)
     else piece_of t \<noteq> [] \<and> byte (hd (piece_of t)) \<noteq> 0 \<and> piece_fits g (piece_of t))"

lemma piece_fits_cand:
  assumes g: "grammar_ok g" and d: "decode_piece piece (gm_partial g) = (cps, pu)"
  shows "(\<exists>s \<in> set (gm_stacks g). cand_fits (gm_rules g) s \<lparr>gc_index = i, gc_code_points = cps, gc_at = 0, gc_partial = pu\<rparr>) \<longleftrightarrow> piece_fits g piece"
proof -
  let ?t = "\<lparr>gc_index = i, gc_code_points = cps, gc_at = 0, gc_partial = pu\<rparr>"
  have w: "cand_word ?t = takeWhile (\<lambda>c. c \<noteq> 0) cps" by (simp add: cand_word_def)
  have ok: "rules_ok (gm_rules g)" "left_wf (gm_rules g)" "stacks_ready (gm_rules g) (gm_stacks g)" using g by (simp_all add: grammar_ok_def)
  obtain out where out: "accept_all (gm_rules g) (gm_stacks g) (cand_word ?t) = Some out" using accept_all_ends [OF ok] by blast
  show ?thesis using reject_candidates_accept [OF ok(1,2,3) out] d out by (simp add: piece_fits_def w)
qed

lemma grammar_apply_allowed:
  assumes g: "grammar_ok g" "gm_stacks g \<noteq> []" "\<not> gm_awaiting_trigger g"
  shows "grammar_apply piece_of is_eog g cur =
    Some (map (\<lambda>(t, l). (t, if token_allowed piece_of is_eog g t then l else None)) cur)"
proof -
  let ?A = "apply_candidate piece_of is_eog (gm_partial g) ([] \<in> set (gm_stacks g))"
  let ?here = "map (\<lambda>i. ?A i (fst (cur ! i))) [0..<length cur]"
  let ?cands = "concat (map snd ?here)"
  have ok: "rules_ok (gm_rules g)" "left_wf (gm_rules g)" "stacks_ready (gm_rules g) (gm_stacks g)" "partial_ok (gm_partial g)"
    using g(1) by (simp_all add: grammar_ok_def)
  have at: "snd (?A i t) = (if is_eog t \<or> piece_of t = [] \<or> byte (hd (piece_of t)) = 0 then []
      else [\<lparr>gc_index = i, gc_code_points = fst (decode_piece (piece_of t) (gm_partial g)), gc_at = 0, gc_partial = snd (decode_piece (piece_of t) (gm_partial g))\<rparr>])"
    "fst (?A i t) = (if is_eog t then [] \<notin> set (gm_stacks g) else piece_of t = [] \<or> byte (hd (piece_of t)) = 0)" for i t
    by (simp_all add: apply_candidate_def Let_def split: prod.splits)
  have cand_set: "set ?cands = (\<Union>i < length cur. set (snd (?A i (fst (cur ! i)))))" by (auto simp: atLeast0LessThan)
  have "cand_ok c" if c: "c \<in> set ?cands" for c
  proof -
    obtain i where i: "c \<in> set (snd (?A i (fst (cur ! i))))" using c unfolding cand_set by blast
    let ?d = "decode_piece (piece_of (fst (cur ! i))) (gm_partial g)"
    obtain cps where "fst ?d = cps @ [0]" "partial_ok (snd ?d)" using decode_piece_shape [of _ _ "fst ?d" "snd ?d"] ok(4) by (metis prod.collapse)
    then show ?thesis using i by (simp add: at cand_ok_def split: if_splits)
  qed
  then obtain rejects where rejects: "reject_candidates (gm_rules g) (gm_stacks g) ?cands = Some rejects"
    "set rejects = {t \<in> set ?cands. \<not> (\<exists>s \<in> set (gm_stacks g). cand_fits (gm_rules g) s t)}"
    using reject_candidates_total [OF ok(1-3) g(2)] by blast
  have masked: "fst (?A i (fst (cur ! i))) \<or> i \<in> gc_index ` set rejects \<longleftrightarrow> \<not> token_allowed piece_of is_eog g (fst (cur ! i))"
    if i: "i < length cur" for i
  proof -
    let ?t = "fst (cur ! i)"
    have idx: "gc_index c = j" if "c \<in> set (snd (?A j t))" for c j t using that by (simp add: at split: if_splits)
    have rej: "i \<in> gc_index ` set rejects \<longleftrightarrow> (\<exists>c \<in> set (snd (?A i ?t)). \<not> (\<exists>s \<in> set (gm_stacks g). cand_fits (gm_rules g) s c))"
      unfolding rejects(2) cand_set using i idx by (auto simp: image_iff)
    show ?thesis
    proof (cases "is_eog ?t \<or> piece_of ?t = [] \<or> byte (hd (piece_of ?t)) = 0")
      case True
      then show ?thesis unfolding rej by (auto simp: at token_allowed_def)
    next
      case False
      have "(\<exists>s \<in> set (gm_stacks g). cand_fits (gm_rules g) s \<lparr>gc_index = i, gc_code_points = fst (decode_piece (piece_of ?t) (gm_partial g)), gc_at = 0,
          gc_partial = snd (decode_piece (piece_of ?t) (gm_partial g))\<rparr>) \<longleftrightarrow> piece_fits g (piece_of ?t)"
        by (rule piece_fits_cand [OF g(1)]) simp
      then show ?thesis using False unfolding rej by (simp add: at token_allowed_def)
    qed
  qed
  have "grammar_apply piece_of is_eog g cur =
      Some (map (\<lambda>i. if fst (?A i (fst (cur ! i))) \<or> i \<in> gc_index ` set rejects then (fst (cur ! i), None) else cur ! i) [0..<length cur])"
    using g(3) rejects(1) unfolding grammar_apply_def Let_def by simp
  also have "map (\<lambda>i. if fst (?A i (fst (cur ! i))) \<or> i \<in> gc_index ` set rejects then (fst (cur ! i), None) else cur ! i) [0..<length cur] =
      map (\<lambda>(t, l). (t, if token_allowed piece_of is_eog g t then l else None)) cur"
    by (rule nth_equalityI) (simp_all add: masked split: prod.splits)
  finally show ?thesis .
qed

subsection \<open>Accepting an allowed token\<close>

text \<open>No code point 0 inside the piece (an overlong encoding), which would end its candidate too early.\<close>

definition piece_clean :: "partial_utf8 \<Rightarrow> string \<Rightarrow> bool" where
  "piece_clean pu piece \<longleftrightarrow> 0 \<notin> set (butlast (fst (decode_piece piece pu)))"

lemma accept_str_fits:
  assumes g: "grammar_ok g" and fits: "piece_fits g piece" and clean: "piece_clean (gm_partial g) piece"
  shows "\<exists>cps pu ss. decode_piece piece (gm_partial g) = (cps @ [0], pu) \<and> accept_all (gm_rules g) (gm_stacks g) cps = Some ss \<and> ss \<noteq> [] \<and>
    grammar_accept_str g piece = Some (False, g\<lparr>gm_stacks := ss, gm_partial := pu\<rparr>) \<and> grammar_ok (g\<lparr>gm_stacks := ss, gm_partial := pu\<rparr>)"
proof -
  obtain cps0 pu where d0: "decode_piece piece (gm_partial g) = (cps0, pu)" by (cases "decode_piece piece (gm_partial g)")
  have ok: "rules_ok (gm_rules g)" "left_wf (gm_rules g)" "stacks_ready (gm_rules g) (gm_stacks g)" "partial_ok (gm_partial g)"
    using g by (simp_all add: grammar_ok_def)
  obtain cps where cps: "cps0 = cps @ [0]" "partial_ok pu" using decode_piece_shape [OF d0 ok(4)] by blast
  have nz: "0 \<notin> set cps" using clean by (simp add: piece_clean_def d0 cps(1))
  have "takeWhile (\<lambda>c. c \<noteq> 0) (cps @ [0]) = cps @ takeWhile (\<lambda>c. c \<noteq> 0) [0]" by (rule takeWhile_append2) (use nz in metis)
  then have tw: "takeWhile (\<lambda>c. c \<noteq> 0) cps0 = cps" by (simp add: cps(1))
  obtain ss where ss: "accept_all (gm_rules g) (gm_stacks g) cps = Some ss" using accept_all_ends [OF ok(1-3)] by blast
  have "\<exists>s \<in> set ss. partial_fits (gm_rules g) s pu" using fits ss unfolding piece_fits_def d0 prod.case tw by simp
  then have ne: "ss \<noteq> []" by auto
  have "stacks_ready (gm_rules g) ss" using accept_all_lang [OF ok(1,3) ss] by blast
  moreover have "grammar_accept_str g piece = Some (False, g\<lparr>gm_stacks := ss, gm_partial := pu\<rparr>)"
    using ss ne by (simp add: grammar_accept_str_def d0 cps(1) accept_all_def)
  ultimately show ?thesis using d0 cps ss ne ok by (simp add: grammar_ok_def)
qed

lemma accept_token_allowed:
  assumes g: "grammar_ok g" "\<not> gm_awaiting_trigger g" and t: "token_allowed piece_of is_eog g t" "is_eog t \<or> piece_clean (gm_partial g) (piece_of t)"
  shows "\<exists>g'. grammar_accept_token piece_of is_eog g t = Some (False, g') \<and> grammar_ok g' \<and> gm_stacks g' \<noteq> []"
proof (cases "is_eog t")
  case True
  then show ?thesis using g t(1) by (auto simp: grammar_accept_token_def token_allowed_def)
next
  case False
  then have "piece_fits g (piece_of t)" "piece_clean (gm_partial g) (piece_of t)" using t by (simp_all add: token_allowed_def)
  from accept_str_fits [OF g(1) this] show ?thesis using g(2) False by (auto simp: grammar_accept_token_def)
qed

subsection \<open>Sampling under a grammar\<close>

text \<open>A run of the sampler that picks, each time, a token the mask has left and that does not end the
  generation, from any candidates.\<close>

inductive sampled :: "(llama_token \<Rightarrow> string) \<Rightarrow> (llama_token \<Rightarrow> bool) \<Rightarrow> grammar \<Rightarrow> llama_token list \<Rightarrow> grammar \<Rightarrow> bool"
  for piece_of is_eog g0 where
  sampled_start: "sampled piece_of is_eog g0 [] g0"
| sampled_token: "sampled piece_of is_eog g0 ts g \<Longrightarrow>
    grammar_apply piece_of is_eog g cur = Some out \<Longrightarrow> (t, Some (l :: nat)) \<in> set out \<Longrightarrow> \<not> is_eog t \<Longrightarrow>
    piece_clean (gm_partial g) (piece_of t) \<Longrightarrow> grammar_accept_token piece_of is_eog g t = Some (thrown, g') \<Longrightarrow>
    sampled piece_of is_eog g0 (ts @ [t]) g'"

inductive_cases sampled_cases: "sampled piece_of is_eog g0 ts g"

lemma decode_pieces_append:
  "decode_pieces (a @ b) pu = (case decode_pieces a pu of (c1, pu1) \<Rightarrow> (case decode_pieces b pu1 of (c2, pu2) \<Rightarrow> (c1 @ c2, pu2)))"
  by (induction a arbitrary: pu) (auto split: prod.splits)

lemma accept_all_append: "accept_all rs ss (a @ b) = Option.bind (accept_all rs ss a) (\<lambda>ss. accept_all rs ss b)"
  by (simp add: accept_all_def foldM_append)

text \<open>The state of a run: the stacks are those that accepting the text so far leads to.\<close>

definition reads :: "grammar \<Rightarrow> nat list \<Rightarrow> grammar \<Rightarrow> bool" where
  "reads g0 u g \<longleftrightarrow> grammar_ok g \<and> \<not> gm_awaiting_trigger g \<and> gm_stacks g \<noteq> [] \<and> gm_rules g = gm_rules g0 \<and>
     accept_all (gm_rules g0) (gm_stacks g0) u = Some (gm_stacks g)"

lemma sampled_reads:
  assumes g0: "grammar_ok g0" "\<not> gm_awaiting_trigger g0" "gm_stacks g0 \<noteq> []" and run: "sampled piece_of is_eog g0 ts g"
  shows "\<exists>u. decode_pieces (map piece_of ts) (gm_partial g0) = (u, gm_partial g) \<and> reads g0 u g"
  using run
proof (induction rule: sampled.induct)
  case sampled_start
  then show ?case using g0 by (simp add: reads_def accept_all_def)
next
  case (sampled_token ts g cur out t l thrown g')
  obtain u where u: "decode_pieces (map piece_of ts) (gm_partial g0) = (u, gm_partial g)" "reads g0 u g" using sampled_token.IH by blast
  have g: "grammar_ok g" "gm_stacks g \<noteq> []" "\<not> gm_awaiting_trigger g" using u(2) by (simp_all add: reads_def)
  have "token_allowed piece_of is_eog g t"
    using sampled_token.hyps(2,3) unfolding grammar_apply_allowed [OF g] by (auto split: if_splits prod.splits)
  then have "piece_fits g (piece_of t)" using sampled_token.hyps(4) by (simp add: token_allowed_def)
  from accept_str_fits [OF g(1) this sampled_token.hyps(5)] obtain cps pu ss where
    s: "decode_piece (piece_of t) (gm_partial g) = (cps @ [0], pu)" "accept_all (gm_rules g) (gm_stacks g) cps = Some ss" "ss \<noteq> []"
      "grammar_accept_str g (piece_of t) = Some (False, g\<lparr>gm_stacks := ss, gm_partial := pu\<rparr>)" "grammar_ok (g\<lparr>gm_stacks := ss, gm_partial := pu\<rparr>)" by blast
  have g': "g' = g\<lparr>gm_stacks := ss, gm_partial := pu\<rparr>" using sampled_token.hyps(4,6) g(3) s(4) by (simp add: grammar_accept_token_def)
  have "decode_pieces (map piece_of (ts @ [t])) (gm_partial g0) = (u @ cps, gm_partial g')" using u(1) s(1) by (simp add: decode_pieces_append g')
  moreover have "reads g0 (u @ cps) g'" using u(2) s(2,3,5) by (simp add: reads_def g' accept_all_append)
  ultimately show ?case by blast
qed

end
