(* ===== verification/GrammarParse.thy ===== *)
theory GrammarParse
  imports GrammarRun "HOL-Library.AList"
begin

text \<open>
  The parser of GBNF grammars (\<open>llama_grammar_parser\<close> in src/llama-grammar.cpp).

  The input is the C string from \<open>pos\<close> on: \<open>*pos\<close> is the head and the terminating 0 is the empty list.
  A result is the exception of the parser (\<open>Throw\<close>), a signed overflow (\<open>Undefined\<close>), a value, or
  \<open>Fuel\<close> when the bound on the recursion runs out: the functions that call each other take one, and
  the bound that \<open>parse_rule\<close> passes is enough for every input.
\<close>

datatype 'a parsed = Fuel | Undefined | Throw | Parsed 'a

fun pbind :: "'a parsed \<Rightarrow> ('a \<Rightarrow> 'b parsed) \<Rightarrow> 'b parsed" where
  "pbind Fuel f = Fuel"
| "pbind Undefined f = Undefined"
| "pbind Throw f = Throw"
| "pbind (Parsed x) f = f x"

subsection \<open>Characters, names and numbers\<close>

definition is_digit_char :: "char \<Rightarrow> bool" where
  "is_digit_char c \<longleftrightarrow> 48 \<le> byte c \<and> byte c \<le> 57"

definition is_word_char :: "char \<Rightarrow> bool" where
  "is_word_char c \<longleftrightarrow> (97 \<le> byte c \<and> byte c \<le> 122) \<or> (65 \<le> byte c \<and> byte c \<le> 90) \<or> c = CHR ''-'' \<or> is_digit_char c"

definition hex_digit :: "char \<Rightarrow> nat option" where
  "hex_digit c =
     (if 97 \<le> byte c \<and> byte c \<le> 102 then Some (byte c - 97 + 10)
      else if 65 \<le> byte c \<and> byte c \<le> 70 then Some (byte c - 65 + 10)
      else if 48 \<le> byte c \<and> byte c \<le> 57 then Some (byte c - 48)
      else None)"

fun parse_hex :: "nat \<Rightarrow> nat \<Rightarrow> string \<Rightarrow> (nat \<times> string) parsed" where
  "parse_hex 0 value cs = Parsed (value, cs)"
| "parse_hex (Suc n) value [] = Throw"
| "parse_hex (Suc n) value (c # cs) =
     (case hex_digit c of None \<Rightarrow> Throw | Some d \<Rightarrow> parse_hex n ((value * 16 + d) mod 2 ^ 32) cs)"

definition is_newline :: "char \<Rightarrow> bool" where
  "is_newline c \<longleftrightarrow> c = CHR 0x0D \<or> c = CHR 0x0A"

definition skip_comment :: "string \<Rightarrow> string" where
  "skip_comment cs = dropWhile (\<lambda>c. \<not> is_newline c) cs"

function parse_space :: "string \<Rightarrow> bool \<Rightarrow> string" where
  "parse_space [] newline_ok = []"
| "parse_space (c # cs) newline_ok =
     (if c = CHR '' '' \<or> c = CHR 0x09 \<or> (newline_ok \<and> is_newline c) then parse_space cs newline_ok
      else if c = CHR ''#'' then parse_space (skip_comment cs) newline_ok
      else c # cs)"
  by pat_completeness auto
termination
  by (relation "measure (\<lambda>(cs, _). length cs)") (auto simp: skip_comment_def less_Suc_eq_le length_dropWhile_le)

text \<open>The name or the digits at the start, and what follows.\<close>

definition parse_name :: "string \<Rightarrow> (string \<times> string) parsed" where
  "parse_name src = (if takeWhile is_word_char src = [] then Throw
     else Parsed (takeWhile is_word_char src, dropWhile is_word_char src))"

definition parse_int :: "string \<Rightarrow> (string \<times> string) parsed" where
  "parse_int src = (if takeWhile is_digit_char src = [] then Throw
     else Parsed (takeWhile is_digit_char src, dropWhile is_digit_char src))"

text \<open>\<open>std::stoul\<close>, which throws when the value does not fit \<open>unsigned long\<close>, converted to \<open>int\<close>.\<close>

definition digits_value :: "string \<Rightarrow> int" where
  "digits_value ds = foldl (\<lambda>v d. v * 10 + (of_char d - 48)) 0 ds"

definition stoul_int :: "string \<Rightarrow> int parsed" where
  "stoul_int ds = (let v = digits_value ds in
     if 2 ^ 64 \<le> v then Throw else Parsed (let w = v mod 2 ^ 32 in if w < 2 ^ 31 then w else w - 2 ^ 32))"

definition parse_char :: "string \<Rightarrow> (nat \<times> string) parsed" where
  "parse_char src = (case src of
     [] \<Rightarrow> Throw
   | c # cs \<Rightarrow>
       if c = CHR 0x5C then
         (case cs of
            [] \<Rightarrow> Throw
          | e # cs \<Rightarrow>
              if e = CHR ''x'' then parse_hex 2 0 cs
              else if e = CHR ''u'' then parse_hex 4 0 cs
              else if e = CHR ''U'' then parse_hex 8 0 cs
              else if e = CHR ''t'' then Parsed (9, cs)
              else if e = CHR ''r'' then Parsed (13, cs)
              else if e = CHR ''n'' then Parsed (10, cs)
              else if e = CHR 0x5C \<or> e = CHR 0x22 \<or> e = CHR ''['' \<or> e = CHR '']'' then Parsed (byte e, cs)
              else Throw)
       else Parsed (decode_utf8 c cs))"

lemma parse_hex_shorter: "parse_hex n v cs = Parsed (x, rest) \<Longrightarrow> length rest \<le> length cs"
  by (induction n v cs rule: parse_hex.induct) (auto split: option.splits)

lemma decode_rest_shorter: "decode_rest n v cs = (x, rest) \<Longrightarrow> length rest \<le> length cs"
  by (induction n v cs rule: decode_rest.induct) auto

lemma parse_char_shorter: "parse_char src = Parsed (x, rest) \<Longrightarrow> length rest < length src"
  by (auto simp: parse_char_def decode_utf8_def Let_def split: list.splits if_splits dest: parse_hex_shorter decode_rest_shorter)

subsection \<open>Terminals\<close>

text \<open>The characters of a literal up to its closing quote, and the ranges of a class up to its bracket.\<close>

function parse_literal :: "string \<Rightarrow> grammar_rule \<Rightarrow> (string \<times> grammar_rule) parsed" where
  "parse_literal [] rule = Throw"
| "parse_literal (c # cs) rule =
     (if c = CHR 0x22 then Parsed (cs, rule)
      else (case parse_char (c # cs) of
          Parsed (v, pos) \<Rightarrow> parse_literal pos (rule @ [\<lparr>ge_type = GR_CHAR, ge_value = v\<rparr>])
        | Fuel \<Rightarrow> Fuel | Undefined \<Rightarrow> Undefined | Throw \<Rightarrow> Throw))"
  by pat_completeness auto
termination
  by (relation "measure (\<lambda>(cs, _). length cs)") (auto dest: parse_char_shorter)

text \<open>The upper end of a range, when one follows.\<close>

definition parse_upper :: "string \<Rightarrow> grammar_rule \<Rightarrow> (string \<times> grammar_rule) parsed" where
  "parse_upper pos rule = (case pos of
     c # pos' \<Rightarrow>
       if c = CHR ''-'' \<and> \<not> (pos' \<noteq> [] \<and> hd pos' = CHR '']'') then
         (if pos' = [] then Throw
          else (case parse_char pos' of
              Parsed (v, pos) \<Rightarrow> Parsed (pos, rule @ [\<lparr>ge_type = GR_CHAR_RNG_UPPER, ge_value = v\<rparr>])
            | Fuel \<Rightarrow> Fuel | Undefined \<Rightarrow> Undefined | Throw \<Rightarrow> Throw))
       else Parsed (pos, rule)
   | [] \<Rightarrow> Parsed (pos, rule))"

lemma parse_upper_shorter: "parse_upper pos rule = Parsed (pos', rule') \<Longrightarrow> length pos' \<le> length pos"
  by (auto simp: parse_upper_def split: list.splits if_splits parsed.splits prod.splits dest: parse_char_shorter)

function parse_class :: "gretype \<Rightarrow> nat \<Rightarrow> string \<Rightarrow> grammar_rule \<Rightarrow> (string \<times> grammar_rule) parsed" where
  "parse_class start_type last_sym_start [] rule = Throw"
| "parse_class start_type last_sym_start (c # cs) rule =
     (if c = CHR '']'' then Parsed (cs, rule)
      else (case parse_char (c # cs) of
          Parsed (v, pos) \<Rightarrow>
            (case parse_upper pos (rule @ [\<lparr>ge_type = (if last_sym_start < length rule then GR_CHAR_ALT else start_type), ge_value = v\<rparr>]) of
               Parsed (pos, rule) \<Rightarrow> parse_class start_type last_sym_start pos rule
             | Fuel \<Rightarrow> Fuel | Undefined \<Rightarrow> Undefined | Throw \<Rightarrow> Throw)
        | Fuel \<Rightarrow> Fuel | Undefined \<Rightarrow> Undefined | Throw \<Rightarrow> Throw))"
  by pat_completeness auto
termination
  by (relation "measure (\<lambda>(_, _, cs, _). length cs)") (auto dest!: parse_char_shorter parse_upper_shorter)

text \<open>The numbers in braces: \<open>m\<close>, \<open>m,\<close> and \<open>m,n\<close>.\<close>

definition starts_with :: "(char \<Rightarrow> bool) \<Rightarrow> string \<Rightarrow> bool" where
  "starts_with P pos \<longleftrightarrow> pos \<noteq> [] \<and> P (hd pos)"

definition parse_upper_bound :: "bool \<Rightarrow> string \<Rightarrow> (int \<times> string) parsed" where
  "parse_upper_bound nested pos =
     (if starts_with is_digit_char pos
      then pbind (parse_int pos) (\<lambda>(ds, pos). pbind (stoul_int ds) (\<lambda>max_times. Parsed (max_times, parse_space pos nested)))
      else Parsed (- 1, pos))"

definition parse_bounds :: "bool \<Rightarrow> string \<Rightarrow> (int \<times> int \<times> string) parsed" where
  "parse_bounds nested pos =
     (if \<not> starts_with is_digit_char pos then Throw
      else pbind (parse_int pos) (\<lambda>(ds, pos). pbind (stoul_int ds) (\<lambda>min_times.
        let pos = parse_space pos nested in
        if starts_with (\<lambda>c. c = CHR ''}'') pos then Parsed (min_times, min_times, parse_space (tl pos) nested)
        else if starts_with (\<lambda>c. c = CHR '','') pos then
          pbind (parse_upper_bound nested (parse_space (tl pos) nested)) (\<lambda>(max_times, pos).
            if starts_with (\<lambda>c. c = CHR ''}'') pos then Parsed (min_times, max_times, parse_space (tl pos) nested) else Throw)
        else Throw)))"

subsection \<open>Symbols and rules\<close>

text \<open>\<open>symbol_ids\<close> is an association list without duplicate keys, in order of insertion.\<close>

record grammar_parser =
  gp_symbol_ids :: "(string \<times> nat) list"
  gp_rules :: grammar_rules

definition get_symbol_id :: "string \<Rightarrow> grammar_parser \<Rightarrow> nat \<times> grammar_parser" where
  "get_symbol_id name st = (case map_of (gp_symbol_ids st) name of
     Some i \<Rightarrow> (i, st)
   | None \<Rightarrow> (length (gp_symbol_ids st), st\<lparr>gp_symbol_ids := gp_symbol_ids st @ [(name, length (gp_symbol_ids st))]\<rparr>))"

text \<open>\<open>std::to_string\<close>\<close>

fun to_string_nat :: "nat \<Rightarrow> string" where
  "to_string_nat n = (if n < 10 then [char_of (48 + n)] else to_string_nat (n div 10) @ [char_of (48 + n mod 10)])"

declare to_string_nat.simps [simp del]

definition generate_symbol_id :: "string \<Rightarrow> grammar_parser \<Rightarrow> nat \<times> grammar_parser" where
  "generate_symbol_id base_name st =
     (let next_id = length (gp_symbol_ids st) in
      (next_id, st\<lparr>gp_symbol_ids := AList.update (base_name @ ''_'' @ to_string_nat next_id) next_id (gp_symbol_ids st)\<rparr>))"

definition add_rule :: "nat \<Rightarrow> grammar_rule \<Rightarrow> grammar_parser \<Rightarrow> grammar_parser" where
  "add_rule rule_id rule st =
     (let rules = gp_rules st; rules = (if length rules \<le> rule_id then rules @ replicate (rule_id + 1 - length rules) [] else rules) in
      st\<lparr>gp_rules := rules[rule_id := rule]\<rparr>)"

subsection \<open>Repetitions\<close>

abbreviation elem_end :: grammar_element where
  "elem_end \<equiv> \<lparr>ge_type = GR_END, ge_value = 0\<rparr>"

abbreviation elem_alt :: grammar_element where
  "elem_alt \<equiv> \<lparr>ge_type = GR_ALT, ge_value = 0\<rparr>"

abbreviation elem_ref :: "nat \<Rightarrow> grammar_element" where
  "elem_ref i \<equiv> \<lparr>ge_type = GR_RULE_REF, ge_value = i\<rparr>"

text \<open>The loop over the \<open>n_opt\<close> optional copies: \<open>i\<close> counts up, the last rule made is the inner one.\<close>

fun add_rec_rules :: "nat \<Rightarrow> nat \<Rightarrow> string \<Rightarrow> grammar_rule \<Rightarrow> bool \<Rightarrow> nat \<Rightarrow> grammar_parser \<Rightarrow> nat \<times> grammar_parser" where
  "add_rec_rules 0 i rule_name prev_rule unbounded last_id st = (last_id, st)"
| "add_rec_rules (Suc n) i rule_name prev_rule unbounded last_id st =
     (case generate_symbol_id rule_name st of (rec_rule_id, st) \<Rightarrow>
        let rec_rule = prev_rule @ (if 0 < i \<or> unbounded then [elem_ref (if unbounded then rec_rule_id else last_id)] else []) @ [elem_alt, elem_end] in
        add_rec_rules n (Suc i) rule_name prev_rule unbounded rec_rule_id (add_rule rec_rule_id rec_rule st))"

definition handle_repetitions :: "string \<Rightarrow> nat \<Rightarrow> int \<Rightarrow> int \<Rightarrow> grammar_rule \<Rightarrow> grammar_parser \<Rightarrow> (grammar_rule \<times> grammar_parser) parsed" where
  "handle_repetitions rule_name last_sym_start min_times max_times rule st =
     (if last_sym_start = length rule then Throw
      else
        let prev_rule = drop last_sym_start rule;
            rule = (if min_times = 0 then take last_sym_start rule
                    else rule @ concat (replicate (nat (min_times - 1)) prev_rule));
            n_opt = (if max_times < 0 then 1 else max_times - min_times)
        in if \<not> i32_ok n_opt then Undefined
           else (case add_rec_rules (nat n_opt) 0 rule_name prev_rule (max_times < 0) 0 st of (last_rec_rule_id, st) \<Rightarrow>
             Parsed (if 0 < n_opt then rule @ [elem_ref last_rec_rule_id] else rule, st)))"

subsection \<open>Sequences, alternates and rules\<close>

definition class_start :: "string \<Rightarrow> gretype \<times> string" where
  "class_start pos = (if starts_with (\<lambda>c. c = CHR 0x5E) pos then (GR_CHAR_NOT, tl pos) else (GR_CHAR, pos))"

text \<open>One item of a sequence that is not a group: what is left, the rule, where its last symbol starts and
  the parser; nothing when the sequence ends.\<close>

definition parse_item :: "string \<Rightarrow> bool \<Rightarrow> char \<Rightarrow> string \<Rightarrow> grammar_rule \<Rightarrow> nat \<Rightarrow> grammar_parser \<Rightarrow> (string \<times> grammar_rule \<times> nat \<times> grammar_parser) option parsed" where
  "parse_item rule_name nested c rest rule last_sym_start st =
     (if c = CHR 0x22 then
        pbind (parse_literal rest rule) (\<lambda>(pos, rule').
          Parsed (Some (parse_space pos nested, rule', length rule, st)))
      else if c = CHR ''['' then
        pbind (parse_class (fst (class_start rest)) (length rule) (snd (class_start rest)) rule) (\<lambda>(pos, rule').
          Parsed (Some (parse_space pos nested, rule', length rule, st)))
      else if is_word_char c then
        pbind (parse_name (c # rest)) (\<lambda>(name, name_end). case get_symbol_id name st of (ref_rule_id, st) \<Rightarrow>
          Parsed (Some (parse_space name_end nested, rule @ [elem_ref ref_rule_id], length rule, st)))
      else if c = CHR ''.'' then
        Parsed (Some (parse_space rest nested, rule @ [\<lparr>ge_type = GR_CHAR_ANY, ge_value = 0\<rparr>], length rule, st))
      else if c = CHR ''*'' then
        pbind (handle_repetitions rule_name last_sym_start 0 (- 1) rule st) (\<lambda>(rule, st).
          Parsed (Some (parse_space rest nested, rule, last_sym_start, st)))
      else if c = CHR ''+'' then
        pbind (handle_repetitions rule_name last_sym_start 1 (- 1) rule st) (\<lambda>(rule, st).
          Parsed (Some (parse_space rest nested, rule, last_sym_start, st)))
      else if c = CHR ''?'' then
        pbind (handle_repetitions rule_name last_sym_start 0 1 rule st) (\<lambda>(rule, st).
          Parsed (Some (parse_space rest nested, rule, last_sym_start, st)))
      else if c = CHR ''{'' then
        pbind (parse_bounds nested (parse_space rest nested)) (\<lambda>(min_times, max_times, pos).
        pbind (handle_repetitions rule_name last_sym_start min_times max_times rule st) (\<lambda>(rule, st).
          Parsed (Some (pos, rule, last_sym_start, st))))
      else Parsed None)"

function (sequential) parse_alternates :: "nat \<Rightarrow> string \<Rightarrow> nat \<Rightarrow> bool \<Rightarrow> string \<Rightarrow> grammar_parser \<Rightarrow> (string \<times> grammar_parser) parsed"
  and parse_more_alternates :: "nat \<Rightarrow> string \<Rightarrow> bool \<Rightarrow> string \<Rightarrow> grammar_rule \<Rightarrow> grammar_parser \<Rightarrow> (string \<times> grammar_rule \<times> grammar_parser) parsed"
  and parse_sequence :: "nat \<Rightarrow> string \<Rightarrow> bool \<Rightarrow> string \<Rightarrow> grammar_rule \<Rightarrow> nat \<Rightarrow> grammar_parser \<Rightarrow> (string \<times> grammar_rule \<times> grammar_parser) parsed" where
  "parse_alternates 0 rule_name rule_id nested pos st = Fuel"
| "parse_alternates (Suc k) rule_name rule_id nested pos st =
     pbind (parse_sequence k rule_name nested pos [] 0 st) (\<lambda>(pos, rule, st).
     pbind (parse_more_alternates k rule_name nested pos rule st) (\<lambda>(pos, rule, st).
       Parsed (pos, add_rule rule_id (rule @ [elem_end]) st)))"
| "parse_more_alternates 0 rule_name nested pos rule st = Fuel"
| "parse_more_alternates (Suc k) rule_name nested pos rule st =
     (if starts_with (\<lambda>c. c = CHR ''|'') pos then
        pbind (parse_sequence k rule_name nested (parse_space (tl pos) True) (rule @ [elem_alt]) (length rule + 1) st) (\<lambda>(pos, rule, st).
          parse_more_alternates k rule_name nested pos rule st)
      else Parsed (pos, rule, st))"
| "parse_sequence 0 rule_name nested pos rule last_sym_start st = Fuel"
| "parse_sequence (Suc k) rule_name nested pos rule last_sym_start st = (case pos of
     [] \<Rightarrow> Parsed (pos, rule, st)
   | c # rest \<Rightarrow>
       if c = CHR ''('' then
         (case generate_symbol_id rule_name st of (sub_rule_id, st) \<Rightarrow>
           pbind (parse_alternates k rule_name sub_rule_id True (parse_space rest True) st) (\<lambda>(pos, st).
             if starts_with (\<lambda>c. c = CHR '')'') pos
             then parse_sequence k rule_name nested (parse_space (tl pos) nested) (rule @ [elem_ref sub_rule_id]) (length rule) st
             else Throw))
       else pbind (parse_item rule_name nested c rest rule last_sym_start st) (\<lambda>item. case item of
           None \<Rightarrow> Parsed (pos, rule, st)
         | Some (pos, rule, last_sym_start, st) \<Rightarrow> parse_sequence k rule_name nested pos rule last_sym_start st))"

  by pat_completeness auto
termination by (relation "measure (\<lambda>x. case x of Inl (k, _) \<Rightarrow> k | Inr (Inl (k, _)) \<Rightarrow> k | Inr (Inr (k, _)) \<Rightarrow> k)") auto

text \<open>Enough for any sequence of \<open>pos\<close> (lemma \<open>parse_fuel_enough\<close>).\<close>

definition parse_fuel :: "string \<Rightarrow> nat" where
  "parse_fuel pos = 2 * length pos + 2"

definition parse_rule_end :: "string \<Rightarrow> string parsed" where
  "parse_rule_end pos = (case pos of
     [] \<Rightarrow> Parsed pos
   | c # cs \<Rightarrow> if c = CHR 0x0D then Parsed (if starts_with (\<lambda>c. c = CHR 0x0A) cs then tl cs else cs)
     else if c = CHR 0x0A then Parsed cs else Throw)"

definition parse_rule :: "string \<Rightarrow> grammar_parser \<Rightarrow> (string \<times> grammar_parser) parsed" where
  "parse_rule src st =
     pbind (parse_name src) (\<lambda>(name, name_end).
       let pos = parse_space name_end False in
       (case get_symbol_id name st of (rule_id, st) \<Rightarrow>
         if take 3 pos \<noteq> ''::='' then Throw
         else let pos = parse_space (drop 3 pos) True in
           pbind (parse_alternates (parse_fuel pos) name rule_id False pos st) (\<lambda>(pos, st).
           pbind (parse_rule_end pos) (\<lambda>pos. Parsed (parse_space pos True, st)))))"

fun parse_rules :: "nat \<Rightarrow> string \<Rightarrow> grammar_parser \<Rightarrow> grammar_parser parsed" where
  "parse_rules 0 pos st = Fuel"
| "parse_rules (Suc k) pos st = (if pos = [] then Parsed st
     else pbind (parse_rule pos st) (\<lambda>(pos, st). parse_rules k pos st))"

text \<open>The validation at the end: a rule that is empty, or a reference to no rule, by a symbol that exists.\<close>

definition ref_undefined :: "grammar_parser \<Rightarrow> grammar_element \<Rightarrow> bool" where
  "ref_undefined st e \<longleftrightarrow> ge_type e = GR_RULE_REF \<and>
     (length (gp_rules st) \<le> ge_value e \<or> gp_rules st ! ge_value e = []) \<and> ge_value e \<in> snd ` set (gp_symbol_ids st)"

definition parse_valid :: "grammar_parser \<Rightarrow> bool" where
  "parse_valid st \<longleftrightarrow> (\<forall>rule \<in> set (gp_rules st). rule \<noteq> [] \<and> (\<forall>e \<in> set rule. \<not> ref_undefined st e))"

text \<open>\<open>parse\<close>: an exception is caught; its rules are dropped and the result is false.\<close>

definition parser_parse :: "string \<Rightarrow> grammar_parser parsed" where
  "parser_parse src =
     pbind (let pos = parse_space (c_str src) True in parse_rules (length pos + 1) pos \<lparr>gp_symbol_ids = [], gp_rules = []\<rparr>) (\<lambda>st.
       if parse_valid st then Parsed st else Throw)"

text \<open>The second \<open>llama_grammar_init_impl\<close>; \<open>Some None\<close> is the null pointer, \<open>None\<close> an exception that escapes
  (\<open>at\<close> of an unknown root) or undefined behaviour.\<close>

definition grammar_init_str :: "string \<Rightarrow> string \<Rightarrow> bool \<Rightarrow> (string \<Rightarrow> (nat \<times> nat) list option) list \<Rightarrow> llama_token list \<Rightarrow> grammar option option" where
  "grammar_init_str grammar_str grammar_root lazy trigger_patterns trigger_tokens = (case parser_parse grammar_str of
     Parsed st \<Rightarrow>
       if gp_rules st = [] \<or> map_of (gp_symbol_ids st) ''root'' = None then Some None
       else (case map_of (gp_symbol_ids st) grammar_root of
           None \<Rightarrow> None
         | Some start \<Rightarrow> grammar_build (gp_rules st) start lazy trigger_tokens trigger_patterns)
   | Throw \<Rightarrow> Some None
   | _ \<Rightarrow> None)"

end
