(* ===== verification/GrammarParseInv.thy ===== *)
theory GrammarParseInv
  imports GrammarParse GrammarLang
begin

text \<open>
  The parser: its recursion bound suffices, and the grammar it returns is well formed.
\<close>

subsection \<open>The bound\<close>

lemma pbind_Parsed: "pbind m f = Parsed x \<longleftrightarrow> (\<exists>a. m = Parsed a \<and> f a = Parsed x)"
  by (cases m) auto

lemma pbind_Fuel: "pbind m f = Fuel \<longleftrightarrow> m = Fuel \<or> (\<exists>a. m = Parsed a \<and> f a = Fuel)"
  by (cases m) auto

named_theorems no_fuel "parts of the parser that do not recurse"

lemma parse_hex_fuel [no_fuel]: "parse_hex n v cs \<noteq> Fuel"
  by (induction n v cs rule: parse_hex.induct) (auto split: option.splits)

lemma parse_char_fuel [no_fuel]: "parse_char src \<noteq> Fuel"
  by (auto simp: parse_char_def no_fuel split: list.splits)

lemma parse_name_fuel [no_fuel]: "parse_name src \<noteq> Fuel" and parse_int_fuel [no_fuel]: "parse_int src \<noteq> Fuel"
  and stoul_int_fuel [no_fuel]: "stoul_int ds \<noteq> Fuel"
  by (auto simp: parse_name_def parse_int_def stoul_int_def Let_def)

lemma parse_literal_fuel [no_fuel]: "parse_literal cs rule \<noteq> Fuel"
  by (induction cs rule rule: parse_literal.induct) (auto simp: no_fuel split: parsed.splits)

lemma parse_upper_fuel [no_fuel]: "parse_upper pos rule \<noteq> Fuel"
  by (auto simp: parse_upper_def no_fuel split: list.splits parsed.splits)

lemma parse_class_fuel [no_fuel]: "parse_class t l cs rule \<noteq> Fuel"
  by (induction t l cs rule rule: parse_class.induct) (auto simp: no_fuel split: parsed.splits)

lemma parse_bounds_fuel [no_fuel]: "parse_bounds nested pos \<noteq> Fuel"
  by (auto simp: parse_bounds_def parse_upper_bound_def pbind_Fuel no_fuel Let_def)

lemma handle_repetitions_fuel [no_fuel]: "handle_repetitions name l a b rule st \<noteq> Fuel"
  by (auto simp: handle_repetitions_def Let_def split: prod.splits)

lemma parse_item_fuel [no_fuel]: "parse_item name nested c rest rule l st \<noteq> Fuel"
  unfolding parse_item_def by (auto simp: pbind_Fuel no_fuel split: prod.splits if_splits)

lemma parse_rule_end_fuel [no_fuel]: "parse_rule_end pos \<noteq> Fuel"
  by (auto simp: parse_rule_end_def split: list.splits)

text \<open>What is left never grows.\<close>

lemma parse_space_length: "length (parse_space cs nl) \<le> length cs"
proof (induction cs nl rule: parse_space.induct)
  case (2 c cs nl)
  have "length (skip_comment cs) \<le> length cs" by (simp add: skip_comment_def length_dropWhile_le)
  then show ?case using 2 by auto
qed simp

lemma parse_literal_length: "parse_literal cs rule = Parsed (pos, r) \<Longrightarrow> length pos \<le> length cs"
proof (induction cs rule rule: parse_literal.induct)
  case (2 c cs rule)
  show ?case
  proof (cases "c = CHR 0x22")
    case False
    then obtain v p where p: "parse_char (c # cs) = Parsed (v, p)" "parse_literal p (rule @ [\<lparr>ge_type = GR_CHAR, ge_value = v\<rparr>]) = Parsed (pos, r)"
      using "2.prems" by (auto split: parsed.splits)
    then show ?thesis using "2.IH" [OF False p(1) refl p(2)] parse_char_shorter [OF p(1)] by simp
  qed (use "2.prems" in simp)
qed simp

lemma parse_class_length: "parse_class t l cs rule = Parsed (pos, r) \<Longrightarrow> length pos \<le> length cs"
proof (induction t l cs rule rule: parse_class.induct)
  case (2 t l c cs rule)
  show ?case
  proof (cases "c = CHR '']''")
    case False
    let ?rule = "\<lambda>v. rule @ [\<lparr>ge_type = (if l < length rule then GR_CHAR_ALT else t), ge_value = v\<rparr>]"
    obtain v p where p: "parse_char (c # cs) = Parsed (v, p)" using "2.prems" False by (auto split: parsed.splits)
    obtain p' r' where p': "parse_upper p (?rule v) = Parsed (p', r')" "parse_class t l p' r' = Parsed (pos, r)"
      using "2.prems" False p by (auto split: parsed.splits)
    then show ?thesis using "2.IH" [OF False p refl p'(1) refl p'(2)] parse_char_shorter [OF p] parse_upper_shorter [OF p'(1)] by simp
  qed (use "2.prems" in simp)
qed simp

lemma dropWhile_tl_length: "length (dropWhile P xs) \<le> length xs"
  by (rule length_dropWhile_le)

lemma parse_upper_bound_length: "parse_upper_bound nested pos = Parsed (m, pos') \<Longrightarrow> length pos' \<le> length pos"
  using parse_space_length dropWhile_tl_length
  by (fastforce simp: parse_upper_bound_def pbind_Parsed parse_int_def split: if_splits intro: order_trans)

lemma parse_bounds_length:
  assumes "parse_bounds nested pos = Parsed (m, n, pos')"
  shows "length pos' \<le> length pos"
proof -
  let ?p = "parse_space (dropWhile is_digit_char pos) nested"
  have p: "length ?p \<le> length pos" using parse_space_length [of "dropWhile is_digit_char pos" nested] dropWhile_tl_length [of is_digit_char pos] by simp
  have t: "length (parse_space (tl q) nested) \<le> length q" for q using parse_space_length [of "tl q" nested] by simp
  from assms consider "pos' = parse_space (tl ?p) nested"
    | q where "parse_upper_bound nested (parse_space (tl ?p) nested) = Parsed (n, q)" "pos' = parse_space (tl q) nested"
    by (auto simp: parse_bounds_def pbind_Parsed parse_int_def Let_def split: if_splits)
  then show ?thesis
  proof cases
    case 1
    then show ?thesis using t [of ?p] p by simp
  next
    case 2
    show ?thesis using parse_upper_bound_length [OF 2(1)] 2(2) t [of ?p] t [of q] p by simp
  qed
qed

lemma class_start_length: "length (snd (class_start rest)) \<le> length rest"
  by (simp add: class_start_def)

text \<open>The kinds of item.\<close>

lemma parse_item_cases:
  assumes "parse_item name nested c rest rule l st = Parsed (Some (pos, rule', l', st'))"
  obtains (literal) p where "parse_literal rest rule = Parsed (p, rule')" "pos = parse_space p nested" "l' = length rule" "st' = st"
  | (char_class) p where "parse_class (fst (class_start rest)) (length rule) (snd (class_start rest)) rule = Parsed (p, rule')"
      "pos = parse_space p nested" "l' = length rule" "st' = st"
  | (rule_ref) i where "is_word_char c" "get_symbol_id (takeWhile is_word_char (c # rest)) st = (i, st')"
      "pos = parse_space (dropWhile is_word_char (c # rest)) nested" "rule' = rule @ [elem_ref i]" "l' = length rule"
  | (any_char) "pos = parse_space rest nested" "rule' = rule @ [\<lparr>ge_type = GR_CHAR_ANY, ge_value = 0\<rparr>]" "l' = length rule" "st' = st"
  | (repetition) m n where "handle_repetitions name l m n rule st = Parsed (rule', st')" "l' = l"
      "pos = parse_space rest nested \<or> parse_bounds nested (parse_space rest nested) = Parsed (m, n, pos)"
proof -
  note a = assms [unfolded parse_item_def]
  have "parse_item name nested c rest rule l st = Parsed None"
    if "c \<noteq> CHR 0x22" "c \<noteq> CHR ''[''" "\<not> is_word_char c" "c \<noteq> CHR ''.''" "c \<noteq> CHR ''*''" "c \<noteq> CHR ''+''" "c \<noteq> CHR ''?''" "c \<noteq> CHR ''{''"
    using that by (simp add: parse_item_def)
  then consider "c = CHR 0x22" | "c = CHR ''[''" | "c \<noteq> CHR 0x22" "c \<noteq> CHR ''[''" "is_word_char c"
    | "c = CHR ''.''" | "c = CHR ''*''" | "c = CHR ''+''" | "c = CHR ''?''" | "c = CHR ''{''"
    using assms by fastforce
  then show thesis
  proof cases
    case 1
    then obtain p where "parse_literal rest rule = Parsed (p, rule')" "pos = parse_space p nested" "l' = length rule" "st' = st"
      using a by (auto simp: pbind_Parsed)
    then show ?thesis by (rule literal)
  next
    case 2
    then obtain p where "parse_class (fst (class_start rest)) (length rule) (snd (class_start rest)) rule = Parsed (p, rule')"
      "pos = parse_space p nested" "l' = length rule" "st' = st"
      using a by (auto simp: pbind_Parsed)
    then show ?thesis by (rule char_class)
  next
    case 3
    then obtain i st1 where i: "get_symbol_id (takeWhile is_word_char (c # rest)) st = (i, st1)" by (metis surj_pair)
    show ?thesis using a 3 i by (intro rule_ref [of i]) (auto simp: pbind_Parsed parse_name_def)
  next
    case 4
    then show ?thesis using a by (intro any_char) (auto simp: is_word_char_def is_digit_char_def byte_def)
  next
    case 5
    then show ?thesis using a by (intro repetition [of 0 "- 1"]) (auto simp: pbind_Parsed is_word_char_def is_digit_char_def byte_def)
  next
    case 6
    then show ?thesis using a by (intro repetition [of 1 "- 1"]) (auto simp: pbind_Parsed is_word_char_def is_digit_char_def byte_def)
  next
    case 7
    then show ?thesis using a by (intro repetition [of 0 1]) (auto simp: pbind_Parsed is_word_char_def is_digit_char_def byte_def)
  next
    case 8
    then obtain m n where "parse_bounds nested (parse_space rest nested) = Parsed (m, n, pos)" "handle_repetitions name l m n rule st = Parsed (rule', st')" "l' = l"
      using a by (auto simp: pbind_Parsed is_word_char_def is_digit_char_def byte_def)
    then show ?thesis using repetition by blast
  qed
qed

lemma parse_item_length:
  assumes "parse_item name nested c rest rule l st = Parsed (Some (pos, rule', l', st'))"
  shows "length pos \<le> length rest"
proof -
  have sp: "length (parse_space p nested) \<le> length rest" if "length p \<le> length rest" for p
    using parse_space_length [of p nested] that by simp
  from assms show ?thesis
  proof (cases rule: parse_item_cases)
    case (literal p)
    then show ?thesis using parse_literal_length sp by blast
  next
    case (char_class p)
    then show ?thesis using parse_class_length [OF char_class(1)] class_start_length [of rest] sp [of p] by simp
  next
    case (rule_ref i)
    then show ?thesis using dropWhile_tl_length [of is_word_char rest] sp by simp
  next
    case any_char
    then show ?thesis using sp by simp
  next
    case (repetition m n)
    then show ?thesis using sp [of rest] parse_bounds_length by fastforce
  qed
qed

lemma parse_length:
  "parse_alternates k name i nested pos st = Parsed (pos', st') \<Longrightarrow> length pos' \<le> length pos"
  "parse_more_alternates k name nested pos rule st = Parsed (pos', rule', st') \<Longrightarrow> length pos' \<le> length pos"
  "parse_sequence k name nested pos rule l st = Parsed (pos', rule', st') \<Longrightarrow> length pos' \<le> length pos"
proof (induction k arbitrary: name i nested pos rule l st pos' rule' st')
  case (Suc k)
  {
    case 1
    then show ?case using Suc.IH(2,3) by (fastforce simp: pbind_Parsed intro: order_trans)
  next
    case 2
    show ?case
    proof (cases "starts_with (\<lambda>c. c = CHR ''|'') pos")
      case True
      then obtain p1 rule1 st1 where p1: "parse_sequence k name nested (parse_space (tl pos) True) (rule @ [elem_alt]) (length rule + 1) st = Parsed (p1, rule1, st1)"
        "parse_more_alternates k name nested p1 rule1 st1 = Parsed (pos', rule', st')"
        using 2 by (auto simp: pbind_Parsed)
      show ?thesis using Suc.IH(3) [OF p1(1)] Suc.IH(2) [OF p1(2)] parse_space_length [of "tl pos" True] by simp
    next
      case False
      then show ?thesis using 2 by simp
    qed
  next
    case 3
    show ?case
    proof (cases pos)
      case Nil
      then show ?thesis using 3 by simp
    next
      case (Cons c rest)
      show ?thesis
      proof (cases "c = CHR ''(''")
        case True
        obtain j st1 where j: "generate_symbol_id name st = (j, st1)" by (metis surj_pair)
        then obtain p2 st2 where p2: "parse_alternates k name j True (parse_space rest True) st1 = Parsed (p2, st2)" "starts_with (\<lambda>c. c = CHR '')'') p2"
          "parse_sequence k name nested (parse_space (tl p2) nested) (rule @ [elem_ref j]) (length rule) st2 = Parsed (pos', rule', st')"
          using 3 Cons True by (auto simp: pbind_Parsed split: if_splits)
        show ?thesis using Suc.IH(1) [OF p2(1)] Suc.IH(3) [OF p2(3)] parse_space_length [of rest True] parse_space_length [of "tl p2" nested] Cons by simp
      next
        case False
        then obtain item where item: "parse_item name nested c rest rule l st = Parsed item"
          "(case item of None \<Rightarrow> Parsed (pos, rule, st) | Some (pos, rule, l, st) \<Rightarrow> parse_sequence k name nested pos rule l st) = Parsed (pos', rule', st')"
          using 3 Cons by (auto simp: pbind_Parsed)
        show ?thesis
        proof (cases item)
          case None
          then show ?thesis using item(2) by simp
        next
          case (Some q)
          obtain p1 rule1 l1 st1 where q: "q = (p1, rule1, l1, st1)" by (metis prod.collapse)
          have "length p1 \<le> length rest" using parse_item_length item(1) unfolding Some q by blast
          then show ?thesis using Suc.IH(3) [of name nested p1 rule1 l1 st1 pos' rule' st'] item(2) Cons by (simp add: Some q)
        qed
      qed
    qed
  }
qed simp_all

text \<open>Two calls for each byte that is left, and two more.\<close>

lemma parse_fuel_enough:
  "2 * length pos + 2 \<le> k \<Longrightarrow> parse_alternates k name i nested pos st \<noteq> Fuel"
  "2 * length pos + 1 \<le> k \<Longrightarrow> parse_more_alternates k name nested pos rule st \<noteq> Fuel"
  "2 * length pos + 1 \<le> k \<Longrightarrow> parse_sequence k name nested pos rule l st \<noteq> Fuel"
proof (induction k arbitrary: name i nested pos rule l st)
  case (Suc k)
  {
    case 1
    have "parse_more_alternates k name nested p rule st \<noteq> Fuel" if r: "parse_sequence k name nested pos [] 0 st0 = Parsed (p, rule, st)" for p rule st st0
    proof -
      have "length p \<le> length pos" using parse_length(3) [OF r] .
      then show ?thesis using Suc.IH(2) 1 by simp
    qed
    then show ?case using Suc.IH(3) [of pos name nested "[]" 0 st] 1 by (auto simp: pbind_Fuel)
  next
    case 2
    show ?case
    proof (cases "starts_with (\<lambda>c. c = CHR ''|'') pos")
      case True
      then have shorter: "length (parse_space (tl pos) True) < length pos"
        using parse_space_length [of "tl pos" True] by (cases pos) (auto simp: starts_with_def)
      have "parse_more_alternates k name nested p rule1 st1 \<noteq> Fuel"
        if r: "parse_sequence k name nested (parse_space (tl pos) True) (rule @ [elem_alt]) (length rule + 1) st = Parsed (p, rule1, st1)" for p rule1 st1
        by (rule Suc.IH(2)) (use parse_length(3) [OF r] shorter 2 in simp)
      moreover have "parse_sequence k name nested (parse_space (tl pos) True) (rule @ [elem_alt]) (length rule + 1) st \<noteq> Fuel"
        by (rule Suc.IH(3)) (use shorter 2 in simp)
      ultimately show ?thesis using True by (auto simp: pbind_Fuel)
    qed simp
  next
    case 3
    show ?case
    proof (cases pos)
      case (Cons c rest)
      have k: "2 * length rest + 2 \<le> k" using 3 Cons by simp
      have next_ok: "parse_sequence k name nested p rule l st \<noteq> Fuel" if "length p \<le> length rest" for p rule l st
        by (rule Suc.IH(3)) (use that k in simp)
      show ?thesis
      proof (cases "c = CHR ''(''")
        case True
        obtain j st1 where j: "generate_symbol_id name st = (j, st1)" by (metis surj_pair)
        have "length (parse_space rest True) \<le> length rest" by (rule parse_space_length)
        then have g: "parse_alternates k name j True (parse_space rest True) st1 \<noteq> Fuel" by (intro Suc.IH(1)) (use k in simp)
        have "length (parse_space (tl p) nested) \<le> length rest" if r: "parse_alternates k name j True (parse_space rest True) st1 = Parsed (p, st2)" for p st2
          using parse_length(1) [OF r] parse_space_length [of rest True] parse_space_length [of "tl p" nested] by simp
        then have "parse_sequence k name nested (parse_space (tl p) nested) (rule @ [elem_ref j]) (length rule) st2 \<noteq> Fuel"
          if "parse_alternates k name j True (parse_space rest True) st1 = Parsed (p, st2)" for p st2 using next_ok that by blast
        then show ?thesis using g True j Cons by (auto simp: pbind_Fuel)
      next
        case False
        have "parse_sequence k name nested p rule1 l1 st1 \<noteq> Fuel"
          if "parse_item name nested c rest rule l st = Parsed (Some (p, rule1, l1, st1))" for p rule1 l1 st1
          using next_ok parse_item_length [OF that] by blast
        then show ?thesis using False Cons parse_item_fuel [of name nested c rest rule l st] by (auto simp: pbind_Fuel split: option.splits)
      qed
    qed simp
  }
qed simp_all

lemma parse_rule_result:
  assumes "parse_rule src st = Parsed (pos, st')"
  obtains i st1 p st2 p2 where "takeWhile is_word_char src \<noteq> []" "get_symbol_id (takeWhile is_word_char src) st = (i, st1)"
    "length p \<le> length (dropWhile is_word_char src)"
    "parse_alternates (parse_fuel p) (takeWhile is_word_char src) i False p st1 = Parsed (p2, st')"
    "length pos \<le> length p2"
proof -
  let ?name = "takeWhile is_word_char src" and ?p = "parse_space (dropWhile is_word_char src) False"
  obtain i st1 where i: "get_symbol_id ?name st = (i, st1)" by (metis surj_pair)
  let ?q = "parse_space (drop 3 ?p) True"
  obtain p2 p3 where r: "parse_name src = Parsed (?name, dropWhile is_word_char src)"
    "parse_alternates (parse_fuel ?q) ?name i False ?q st1 = Parsed (p2, st')" "parse_rule_end p2 = Parsed p3" "pos = parse_space p3 True"
    using assms i by (auto simp: parse_rule_def pbind_Parsed parse_name_def Let_def split: if_splits)
  have "?name \<noteq> []" using r(1) by (auto simp: parse_name_def split: if_splits)
  moreover have "length ?q \<le> length (dropWhile is_word_char src)"
    using parse_space_length [of "drop 3 ?p" True] parse_space_length [of "dropWhile is_word_char src" False] by simp
  moreover have "length p3 \<le> length p2" using r(3) by (auto simp: parse_rule_end_def split: list.splits if_splits)
  then have "length pos \<le> length p2" using r(4) parse_space_length [of p3 True] by simp
  ultimately show thesis using that i r(2) by blast
qed

lemma parse_rule_fuel: "parse_rule src st \<noteq> Fuel"
proof -
  have "parse_alternates (parse_fuel p) name i False p st' \<noteq> Fuel" for p name i st'
    by (rule parse_fuel_enough(1)) (simp add: parse_fuel_def)
  then show ?thesis by (auto simp: parse_rule_def pbind_Fuel no_fuel Let_def simp del: parse_alternates.simps split: prod.splits)
qed

lemma parse_rule_shorter: "parse_rule src st = Parsed (pos, st') \<Longrightarrow> length pos < length src"
proof (erule parse_rule_result)
  fix i st1 p st2 p2
  assume a: "takeWhile is_word_char src \<noteq> []" "length p \<le> length (dropWhile is_word_char src)"
    "parse_alternates (parse_fuel p) (takeWhile is_word_char src) i False p st1 = Parsed (p2, st')" "length pos \<le> length p2"
  have "length (takeWhile is_word_char src) + length (dropWhile is_word_char src) = length src"
    by (metis length_append takeWhile_dropWhile_id)
  moreover have "length (takeWhile is_word_char src) > 0" using a(1) by simp
  ultimately show "length pos < length src" using a(2,4) parse_length(1) [OF a(3)] by linarith
qed

lemma parse_rules_fuel: "length pos < k \<Longrightarrow> parse_rules k pos st \<noteq> Fuel"
proof (induction k arbitrary: pos st)
  case (Suc k)
  have "parse_rules k p st1 \<noteq> Fuel" if r: "parse_rule pos st = Parsed (p, st1)" for p st1
    by (rule Suc.IH) (use parse_rule_shorter [OF r] Suc.prems in simp)
  then show ?case using parse_rule_fuel [of pos st] by (auto simp: pbind_Fuel)
qed simp

lemma parser_parse_fuel: "parser_parse src \<noteq> Fuel"
  using parse_rules_fuel [of "parse_space (c_str src) True" "length (parse_space (c_str src) True) + 1"]
  by (auto simp: parser_parse_def pbind_Fuel Let_def simp del: parse_rules.simps)

end
