(* ===== verification/GrammarParseOk.thy ===== *)
theory GrammarParseOk
  imports GrammarParseInv
begin

text \<open>
  The grammar that the parser returns is well formed: the symbols are numbered in order, the names it
  makes up never collide with the names of the source, and the rules meet the conditions that matching
  relies on.
\<close>

subsection \<open>Symbols\<close>

lemma to_string_digits: "set (to_string_nat n) \<subseteq> {c. is_digit_char c}"
proof (induction n rule: to_string_nat.induct)
  case (1 n)
  have d: "is_digit_char (char_of (48 + m))" if "m < 10" for m :: nat using that by (simp add: is_digit_char_def byte_def)
  show ?case
  proof (cases "n < 10")
    case True
    then show ?thesis using d [of n] by (simp add: to_string_nat.simps [of n])
  next
    case False
    then show ?thesis using 1 d [of "n mod 10"] by (simp add: to_string_nat.simps [of n])
  qed
qed

lemma to_string_value: "digits_value (to_string_nat n) = int n"
proof (induction n rule: to_string_nat.induct)
  case (1 n)
  have c: "(of_char (char_of (48 + m :: nat)) :: int) = 48 + int m" if "m < 10" for m
  proof -
    have "(of_char (char_of (48 + m)) :: nat) = 48 + m" using that by simp
    then show ?thesis using of_nat_of_char [of "char_of (48 + m)", where ?'a = int] by simp
  qed
  show ?case
  proof (cases "n < 10")
    case True
    then show ?thesis using c [of n] by (simp add: to_string_nat.simps [of n] digits_value_def)
  next
    case False
    then have "digits_value (to_string_nat (n div 10)) = int (n div 10)" using 1 by blast
    moreover have "digits_value (xs @ [d]) = digits_value xs * 10 + (of_char d - 48)" for xs d by (simp add: digits_value_def)
    ultimately have "digits_value (to_string_nat n) = int (n div 10) * 10 + int (n mod 10)"
      using False c [of "n mod 10"] by (simp add: to_string_nat.simps [of n])
    also have "\<dots> = int (n div 10 * 10 + n mod 10)" by (simp only: of_nat_add of_nat_mult of_nat_numeral)
    finally show ?thesis by (simp only: div_mult_mod_eq)
  qed
qed

lemma to_string_inject: "to_string_nat m = to_string_nat n \<Longrightarrow> m = n"
  using to_string_value by (metis of_nat_eq_iff)

definition word_name :: "string \<Rightarrow> bool" where
  "word_name nm \<longleftrightarrow> (\<forall>c \<in> set nm. is_word_char c)"

text \<open>A name of the source, or one made up for symbol \<open>i\<close>.\<close>

definition name_key :: "string \<Rightarrow> nat \<Rightarrow> bool" where
  "name_key nm i \<longleftrightarrow> word_name nm \<or> (\<exists>base. word_name base \<and> nm = base @ ''_'' @ to_string_nat i)"

definition symbols_ok :: "(string \<times> nat) list \<Rightarrow> bool" where
  "symbols_ok ids \<longleftrightarrow> map snd ids = [0..<length ids] \<and> distinct (map fst ids) \<and> (\<forall>(nm, i) \<in> set ids. name_key nm i)"

lemma underscore: "\<not> is_word_char CHR ''_''"
  by (simp add: is_word_char_def is_digit_char_def byte_def)

lemma split_at_underscore:
  assumes "word_name a" "word_name b" "a @ ''_'' @ x = b @ ''_'' @ y"
  shows "x = y"
proof -
  have tw: "dropWhile is_word_char (c @ ''_'' @ z) = ''_'' @ z" if "word_name c" for c z
    using that underscore by (simp add: word_name_def dropWhile_append3)
  show ?thesis using tw [OF assms(1)] tw [OF assms(2)] assms(3) by (metis append_Cons append_Nil list.inject)
qed

lemma symbols_ids:
  assumes "symbols_ok ids"
  shows "snd ` set ids = {..<length ids}"
proof -
  have "map snd ids = [0..<length ids]" using assms by (simp add: symbols_ok_def)
  then have "set (map snd ids) = {..<length ids}" by (simp only: set_upt lessThan_atLeast0)
  then show ?thesis by simp
qed

lemma symbols_id_less: "symbols_ok ids \<Longrightarrow> (nm, i) \<in> set ids \<Longrightarrow> i < length ids"
  using symbols_ids by force

lemma symbols_add:
  assumes "symbols_ok ids" "nm \<notin> fst ` set ids" "name_key nm (length ids)"
  shows "symbols_ok (ids @ [(nm, length ids)])"
  using assms by (auto simp: symbols_ok_def)

lemma fresh_key:
  assumes ok: "symbols_ok ids" and base: "word_name base"
  shows "base @ ''_'' @ to_string_nat (length ids) \<notin> fst ` set ids"
proof
  assume "base @ ''_'' @ to_string_nat (length ids) \<in> fst ` set ids"
  then obtain i where i: "(base @ ''_'' @ to_string_nat (length ids), i) \<in> set ids" by auto
  then have "name_key (base @ ''_'' @ to_string_nat (length ids)) i" using ok by (auto simp: symbols_ok_def)
  moreover have "\<not> word_name (base @ ''_'' @ to_string_nat (length ids))" using underscore by (auto simp: word_name_def)
  ultimately obtain base' where "word_name base'" "base @ ''_'' @ to_string_nat (length ids) = base' @ ''_'' @ to_string_nat i"
    by (auto simp: name_key_def)
  then have "i = length ids" using split_at_underscore [OF base] to_string_inject by blast
  then show False using symbols_id_less [OF ok i] by simp
qed

lemma update_fresh: "k \<notin> fst ` set al \<Longrightarrow> AList.update k v al = al @ [(k, v)]"
  by (induction al) auto

subsection \<open>Rules\<close>

text \<open>A part of a rule: it starts with no continuation and refers to symbols below \<open>n\<close>.\<close>

definition part_ok :: "nat \<Rightarrow> grammar_rule \<Rightarrow> bool" where
  "part_ok n es \<longleftrightarrow> (\<forall>e \<in> set es. ge_type e \<noteq> GR_END \<and> (ge_type e = GR_RULE_REF \<longrightarrow> ge_value e < n)) \<and>
     successively adj_ok es \<and> (es \<noteq> [] \<longrightarrow> \<not> is_cont (hd es))"

definition whole_ok :: "nat \<Rightarrow> grammar_rule \<Rightarrow> bool" where
  "whole_ok n es \<longleftrightarrow> es = [] \<or> (\<exists>body. es = body @ [elem_end] \<and> part_ok n body)"

definition parser_ok :: "grammar_parser \<Rightarrow> bool" where
  "parser_ok st \<longleftrightarrow> symbols_ok (gp_symbol_ids st) \<and> (\<forall>rule \<in> set (gp_rules st). whole_ok (length (gp_symbol_ids st)) rule)"

text \<open>A rule under construction with the start of its last symbol.\<close>

definition rule_at :: "nat \<Rightarrow> grammar_rule \<Rightarrow> nat \<Rightarrow> bool" where
  "rule_at n rule l \<longleftrightarrow> l \<le> length rule \<and> part_ok n (take l rule) \<and> part_ok n (drop l rule)"

lemma adj_ok_start: "\<not> is_cont b \<Longrightarrow> adj_ok a b"
  by (auto simp: adj_ok_def is_cont_def)

lemma part_ok_Nil [simp]: "part_ok n []"
  by (simp add: part_ok_def)

lemma part_ok_append: "part_ok n a \<Longrightarrow> part_ok n b \<Longrightarrow> part_ok n (a @ b)"
  by (cases "a = []"; cases "b = []") (auto simp: part_ok_def successively_append_iff adj_ok_start)

lemma part_ok_concat: "\<forall>p \<in> set ps. part_ok n p \<Longrightarrow> part_ok n (concat ps)"
  by (induction ps) (auto intro: part_ok_append)

lemma part_ok_single: "ge_type e \<noteq> GR_END \<Longrightarrow> \<not> is_cont e \<Longrightarrow> (ge_type e = GR_RULE_REF \<Longrightarrow> ge_value e < n) \<Longrightarrow> part_ok n [e]"
  by (simp add: part_ok_def)

lemma part_ok_ref: "i < n \<Longrightarrow> part_ok n [elem_ref i]"
  and part_ok_alt: "part_ok n [elem_alt]"
  and part_ok_any: "part_ok n [\<lparr>ge_type = GR_CHAR_ANY, ge_value = 0\<rparr>]"
  and part_ok_char: "part_ok n [\<lparr>ge_type = GR_CHAR, ge_value = v\<rparr>]"
  by (auto intro!: part_ok_single simp: is_cont_def)

lemma part_ok_mono: "part_ok m es \<Longrightarrow> m \<le> n \<Longrightarrow> part_ok n es"
  by (fastforce simp: part_ok_def)

lemma whole_ok_mono: "whole_ok m es \<Longrightarrow> m \<le> n \<Longrightarrow> whole_ok n es"
  using part_ok_mono by (fastforce simp: whole_ok_def)

lemma rule_at_whole: "rule_at n rule l \<Longrightarrow> part_ok n rule"
  using part_ok_append [of n "take l rule" "drop l rule"] by (simp add: rule_at_def)

lemma rule_at_append: "part_ok n rule \<Longrightarrow> part_ok n b \<Longrightarrow> rule_at n (rule @ b) (length rule)"
  by (simp add: rule_at_def)

lemma rule_at_mono: "rule_at m rule l \<Longrightarrow> m \<le> n \<Longrightarrow> rule_at n rule l"
  using part_ok_mono by (auto simp: rule_at_def)

subsection \<open>The parser keeps both\<close>

definition grows :: "grammar_parser \<Rightarrow> grammar_parser \<Rightarrow> bool" where
  "grows st st' \<longleftrightarrow> parser_ok st' \<and> length (gp_symbol_ids st) \<le> length (gp_symbol_ids st')"

abbreviation n_symbols :: "grammar_parser \<Rightarrow> nat" where
  "n_symbols st \<equiv> length (gp_symbol_ids st)"

lemma grows_refl: "parser_ok st \<Longrightarrow> grows st st"
  by (simp add: grows_def)

lemma grows_trans: "grows a b \<Longrightarrow> grows b c \<Longrightarrow> grows a c"
  by (simp add: grows_def)

lemma parser_ok_symbols:
  assumes st: "parser_ok st" and ids: "symbols_ok ids" "n_symbols st \<le> length ids"
  shows "grows st (st\<lparr>gp_symbol_ids := ids\<rparr>)"
  using st ids whole_ok_mono by (fastforce simp: grows_def parser_ok_def)

lemma get_symbol_grows:
  assumes st: "parser_ok st" and nm: "word_name nm" and get: "get_symbol_id nm st = (i, st')"
  shows "grows st st' \<and> i < n_symbols st'"
proof (cases "map_of (gp_symbol_ids st) nm")
  case None
  then have "nm \<notin> fst ` set (gp_symbol_ids st)" by (simp add: map_of_eq_None_iff)
  then have "symbols_ok (gp_symbol_ids st @ [(nm, n_symbols st)])"
    using st nm by (intro symbols_add) (auto simp: parser_ok_def name_key_def)
  then have "grows st (st\<lparr>gp_symbol_ids := gp_symbol_ids st @ [(nm, n_symbols st)]\<rparr>)" by (intro parser_ok_symbols [OF st]) simp_all
  then show ?thesis using get None by (auto simp: get_symbol_id_def)
next
  case (Some j)
  then have "j < n_symbols st" using symbols_id_less [of "gp_symbol_ids st"] st map_of_SomeD by (fastforce simp: parser_ok_def)
  then show ?thesis using get Some grows_refl [OF st] by (simp add: get_symbol_id_def)
qed

lemma generate_symbol_grows:
  assumes st: "parser_ok st" and nm: "word_name nm" and gen: "generate_symbol_id nm st = (i, st')"
  shows "grows st st' \<and> i < n_symbols st'"
proof -
  let ?k = "nm @ ''_'' @ to_string_nat (n_symbols st)"
  have ok: "symbols_ok (gp_symbol_ids st)" using st by (simp add: parser_ok_def)
  have fresh: "?k \<notin> fst ` set (gp_symbol_ids st)" by (rule fresh_key [OF ok nm])
  have "symbols_ok (gp_symbol_ids st @ [(?k, n_symbols st)])"
    using nm by (intro symbols_add [OF ok fresh]) (auto simp: name_key_def)
  then have "grows st (st\<lparr>gp_symbol_ids := gp_symbol_ids st @ [(?k, n_symbols st)]\<rparr>)" by (intro parser_ok_symbols [OF st]) simp_all
  then show ?thesis using gen update_fresh [OF fresh] by (auto simp: generate_symbol_id_def Let_def)
qed

lemma add_rule_grows:
  assumes st: "parser_ok st" and rule: "whole_ok (n_symbols st) rule"
  shows "grows st (add_rule i rule st)"
proof -
  let ?rs = "if length (gp_rules st) \<le> i then gp_rules st @ replicate (i + 1 - length (gp_rules st)) [] else gp_rules st"
  have "whole_ok (n_symbols st) r" if "r \<in> set ?rs" for r
    using that st by (auto simp: parser_ok_def whole_ok_def split: if_splits)
  moreover have "set (?rs[i := rule]) \<subseteq> insert rule (set ?rs)" by (rule set_update_subset_insert)
  ultimately show ?thesis using st rule unfolding grows_def parser_ok_def add_rule_def Let_def by auto
qed

lemma whole_okI: "part_ok n body \<Longrightarrow> whole_ok n (body @ [elem_end])"
  by (auto simp: whole_ok_def)

lemma add_rec_rules_grows:
  assumes "word_name nm"
  shows "parser_ok st \<Longrightarrow> part_ok (n_symbols st) prev \<Longrightarrow> (0 < i \<Longrightarrow> last_id < n_symbols st) \<Longrightarrow>
    add_rec_rules n i nm prev unbounded last_id st = (j, st') \<Longrightarrow> grows st st' \<and> (0 < n \<or> 0 < i \<longrightarrow> j < n_symbols st')"
proof (induction n arbitrary: i last_id st)
  case 0
  then show ?case using grows_refl by simp
next
  case (Suc n)
  obtain r st1 where gen: "generate_symbol_id nm st = (r, st1)" by (metis surj_pair)
  have g1: "grows st st1" "r < n_symbols st1" using generate_symbol_grows [OF Suc.prems(1) assms gen] by auto
  let ?ref = "if 0 < i \<or> unbounded then [elem_ref (if unbounded then r else last_id)] else []"
  have mono: "n_symbols st \<le> n_symbols st1" using g1(1) by (simp add: grows_def)
  have prev: "part_ok (n_symbols st1) prev" using part_ok_mono [OF Suc.prems(2) mono] .
  have "part_ok (n_symbols st1) ?ref" using Suc.prems(3) g1(2) mono by (auto intro!: part_ok_ref)
  then have "part_ok (n_symbols st1) (prev @ ?ref @ [elem_alt])" using prev part_ok_alt by (intro part_ok_append)
  from whole_okI [OF this] have whole: "whole_ok (n_symbols st1) (prev @ ?ref @ [elem_alt, elem_end])" by simp
  let ?st2 = "add_rule r (prev @ ?ref @ [elem_alt, elem_end]) st1"
  have g2: "grows st1 ?st2" using add_rule_grows [OF _ whole] g1(1) by (simp add: grows_def)
  have n2: "n_symbols ?st2 = n_symbols st1" by (simp add: add_rule_def Let_def)
  have "add_rec_rules n (Suc i) nm prev unbounded r ?st2 = (j, st')" using Suc.prems(4) gen by (simp add: Let_def)
  from Suc.IH [OF _ _ _ this] have "grows ?st2 st' \<and> j < n_symbols st'"
    using g2 prev g1(2) by (simp add: n2 grows_def)
  then show ?case using g1 g2 grows_trans by blast
qed

lemma handle_repetitions_ok:
  assumes nm: "word_name nm" and st: "parser_ok st" and rule: "rule_at (n_symbols st) rule l"
    and run: "handle_repetitions nm l a b rule st = Parsed (rule', st')"
  shows "grows st st' \<and> rule_at (n_symbols st') rule' l"
proof -
  let ?prev = "drop l rule"
  let ?rule = "if a = 0 then take l rule else rule @ concat (replicate (nat (a - 1)) ?prev)"
  define n_opt where n_opt: "n_opt = (if b < 0 then 1 else b - a)"
  have l: "l \<noteq> length rule" using run by (auto simp: handle_repetitions_def)
  obtain j st1 where rec: "add_rec_rules (nat n_opt) 0 nm ?prev (b < 0) 0 st = (j, st1)" by (metis surj_pair)
  have out: "rule' = (if 0 < n_opt then ?rule @ [elem_ref j] else ?rule)" "st' = st1"
    using run l rec unfolding handle_repetitions_def Let_def n_opt [symmetric] by (auto split: if_splits)
  have prev: "part_ok (n_symbols st) ?prev" using rule by (simp add: rule_at_def)
  have g: "grows st st1" "0 < n_opt \<longrightarrow> j < n_symbols st1" using add_rec_rules_grows [OF nm st prev _ rec] by auto
  have "rule_at (n_symbols st1) rule l" using rule_at_mono [OF rule] g(1) by (simp add: grows_def)
  then have l': "l \<le> length rule" "part_ok (n_symbols st1) (take l rule)" "part_ok (n_symbols st1) ?prev" by (simp_all add: rule_at_def)
  have "part_ok (n_symbols st1) (concat (replicate k ?prev))" for k using l'(3) by (intro part_ok_concat) simp
  then have "rule_at (n_symbols st1) ?rule l" using l' part_ok_append by (simp add: rule_at_def)
  moreover have "rule_at (n_symbols st1) (r @ [elem_ref j]) l" if "rule_at (n_symbols st1) r l" "0 < n_opt" for r
    using that g(2) part_ok_append [OF _ part_ok_ref] by (simp add: rule_at_def)
  ultimately show ?thesis unfolding out using g(1) by simp
qed

subsection \<open>Terminals\<close>

lemma parse_literal_ok: "parse_literal cs rule = Parsed (pos, rule') \<Longrightarrow> \<exists>es. rule' = rule @ es \<and> part_ok n es"
proof (induction cs rule rule: parse_literal.induct)
  case (2 c cs rule)
  show ?case
  proof (cases "c = CHR 0x22")
    case False
    then obtain v p where p: "parse_char (c # cs) = Parsed (v, p)" "parse_literal p (rule @ [\<lparr>ge_type = GR_CHAR, ge_value = v\<rparr>]) = Parsed (pos, rule')"
      using "2.prems" by (auto split: parsed.splits)
    then obtain es where "rule' = (rule @ [\<lparr>ge_type = GR_CHAR, ge_value = v\<rparr>]) @ es" "part_ok n es"
      using "2.IH" [OF False p(1) refl p(2)] by blast
    then have "rule' = rule @ ([\<lparr>ge_type = GR_CHAR, ge_value = v\<rparr>] @ es) \<and> part_ok n ([\<lparr>ge_type = GR_CHAR, ge_value = v\<rparr>] @ es)"
      using part_ok_append [OF part_ok_char] by simp
    then show ?thesis by blast
  qed (use "2.prems" in auto)
qed simp

text \<open>The elements of a class so far: an alternative may follow the last of them.\<close>

definition class_part :: "nat \<Rightarrow> grammar_rule \<Rightarrow> bool" where
  "class_part n es \<longleftrightarrow> part_ok n es \<and> (es \<noteq> [] \<longrightarrow> ge_type (last es) \<in> {GR_CHAR, GR_CHAR_NOT, GR_CHAR_ALT, GR_CHAR_RNG_UPPER})"

lemma class_part_char:
  assumes "class_part n es" "t = GR_CHAR \<or> t = GR_CHAR_NOT"
  shows "class_part n (es @ [\<lparr>ge_type = (if es \<noteq> [] then GR_CHAR_ALT else t), ge_value = v\<rparr>])"
  using assms by (cases "es = []") (auto simp: class_part_def part_ok_def successively_append_iff adj_ok_def is_cont_def)

lemma class_part_upper:
  assumes "class_part n es" "es \<noteq> []" "ge_type (last es) \<noteq> GR_CHAR_RNG_UPPER"
  shows "class_part n (es @ [\<lparr>ge_type = GR_CHAR_RNG_UPPER, ge_value = v\<rparr>])"
  using assms by (auto simp: class_part_def part_ok_def successively_append_iff adj_ok_def)

lemma parse_upper_ok:
  assumes up: "parse_upper pos rule = Parsed (pos', rule')"
  shows "rule' = rule \<or> (\<exists>v. rule' = rule @ [\<lparr>ge_type = GR_CHAR_RNG_UPPER, ge_value = v\<rparr>])"
  using up by (auto simp: parse_upper_def split: list.splits if_splits parsed.splits prod.splits)

lemma parse_class_ok:
  assumes "t = GR_CHAR \<or> t = GR_CHAR_NOT"
  shows "parse_class t (length r0) cs (r0 @ es) = Parsed (pos, rule') \<Longrightarrow> class_part n es \<Longrightarrow> \<exists>es'. rule' = r0 @ es' \<and> class_part n es'"
proof (induction "length cs" arbitrary: cs es rule: less_induct)
  case less
  show ?case
  proof (cases cs)
    case (Cons c cs')
    show ?thesis
    proof (cases "c = CHR '']''")
      case True
      then show ?thesis using less.prems Cons by auto
    next
      case False
      let ?e = "\<lambda>v. \<lparr>ge_type = (if es \<noteq> [] then GR_CHAR_ALT else t), ge_value = v\<rparr>"
      have len: "length r0 < length (r0 @ es) \<longleftrightarrow> es \<noteq> []" by simp
      obtain v p where p: "parse_char (c # cs') = Parsed (v, p)" using less.prems(1) Cons False by (auto split: parsed.splits)
      obtain p' r' where p': "parse_upper p (r0 @ es @ [?e v]) = Parsed (p', r')" "parse_class t (length r0) p' r' = Parsed (pos, rule')"
        using less.prems(1) Cons False p by (auto simp: len split: parsed.splits)
      have c1: "class_part n (es @ [?e v])" by (rule class_part_char [OF less.prems(2) assms])
      obtain es1 where es1: "r' = r0 @ es1" "class_part n es1"
        using parse_upper_ok [OF p'(1)]
      proof
        assume "r' = r0 @ es @ [?e v]"
        then show thesis using that c1 by blast
      next
        assume "\<exists>w. r' = (r0 @ es @ [?e v]) @ [\<lparr>ge_type = GR_CHAR_RNG_UPPER, ge_value = w\<rparr>]"
        then obtain w where "r' = r0 @ ((es @ [?e v]) @ [\<lparr>ge_type = GR_CHAR_RNG_UPPER, ge_value = w\<rparr>])" by auto
        moreover have "class_part n ((es @ [?e v]) @ [\<lparr>ge_type = GR_CHAR_RNG_UPPER, ge_value = w\<rparr>])"
          by (rule class_part_upper [OF c1]) (use assms in auto)
        ultimately show thesis using that by blast
      qed
      have "length p' < length cs" using parse_char_shorter [OF p] parse_upper_shorter [OF p'(1)] Cons by simp
      then show ?thesis using less.hyps [of p' es1] p'(2) es1 by blast
    qed
  qed (use less.prems in simp)
qed

subsection \<open>Sequences and rules\<close>

lemma word_name_takeWhile: "word_name (takeWhile is_word_char cs)"
  by (auto simp: word_name_def dest: set_takeWhileD)

lemma parse_item_ok:
  assumes nm: "word_name nm" and st: "parser_ok st" and rule: "rule_at (n_symbols st) rule l"
    and run: "parse_item nm nested c rest rule l st = Parsed (Some (pos, rule', l', st'))"
  shows "grows st st' \<and> rule_at (n_symbols st') rule' l'"
  using run
proof (cases rule: parse_item_cases)
  case (literal p)
  obtain es where "rule' = rule @ es" "part_ok (n_symbols st) es" using parse_literal_ok [OF literal(1)] by blast
  then show ?thesis using literal grows_refl [OF st] rule_at_append [OF rule_at_whole [OF rule]] by simp
next
  case (char_class p)
  have "fst (class_start rest) = GR_CHAR \<or> fst (class_start rest) = GR_CHAR_NOT" by (simp add: class_start_def)
  moreover have "class_part (n_symbols st) []" by (simp add: class_part_def)
  ultimately obtain es where "rule' = rule @ es" "class_part (n_symbols st) es"
    using parse_class_ok [of _ rule _ "[]"] char_class(1) by (metis append_Nil2)
  then show ?thesis using char_class grows_refl [OF st] rule_at_append [OF rule_at_whole [OF rule]] by (simp add: class_part_def)
next
  case (rule_ref i)
  have g: "grows st st'" "i < n_symbols st'" using get_symbol_grows [OF st word_name_takeWhile rule_ref(2)] by auto
  have "rule_at (n_symbols st') rule l" using rule_at_mono [OF rule] g(1) by (simp add: grows_def)
  then show ?thesis using rule_ref g rule_at_append [OF rule_at_whole part_ok_ref] by simp
next
  case any_char
  then show ?thesis using grows_refl [OF st] rule_at_append [OF rule_at_whole [OF rule] part_ok_any] by simp
next
  case (repetition m n)
  then show ?thesis using handle_repetitions_ok [OF nm st rule repetition(1)] by simp
qed

lemma parse_ok:
  "word_name nm \<Longrightarrow> parser_ok st \<Longrightarrow> parse_alternates k nm i nested pos st = Parsed (pos', st') \<Longrightarrow> grows st st'"
  "word_name nm \<Longrightarrow> parser_ok st \<Longrightarrow> part_ok (n_symbols st) rule \<Longrightarrow> parse_more_alternates k nm nested pos rule st = Parsed (pos', rule', st') \<Longrightarrow>
    grows st st' \<and> part_ok (n_symbols st') rule'"
  "word_name nm \<Longrightarrow> parser_ok st \<Longrightarrow> rule_at (n_symbols st) rule l \<Longrightarrow> parse_sequence k nm nested pos rule l st = Parsed (pos', rule', st') \<Longrightarrow>
    grows st st' \<and> part_ok (n_symbols st') rule'"
proof (induction k arbitrary: nm i nested pos rule l st pos' rule' st')
  case (Suc k)
  {
    case 1
    obtain p1 rule1 st1 p2 rule2 st2 where r: "parse_sequence k nm nested pos [] 0 st = Parsed (p1, rule1, st1)"
      "parse_more_alternates k nm nested p1 rule1 st1 = Parsed (p2, rule2, st2)" "st' = add_rule i (rule2 @ [elem_end]) st2"
      using 1 by (auto simp: pbind_Parsed)
    have a: "grows st st1" "part_ok (n_symbols st1) rule1" using Suc.IH(3) [OF 1(1,2) _ r(1)] by (auto simp: rule_at_def)
    have b: "grows st1 st2" "part_ok (n_symbols st2) rule2" using Suc.IH(2) [OF 1(1) _ a(2) r(2)] a(1) by (auto simp: grows_def)
    have "grows st2 st'" unfolding r(3) using b by (intro add_rule_grows whole_okI) (simp_all add: grows_def)
    then show ?case using a(1) b(1) grows_trans by blast
  next
    case 2
    show ?case
    proof (cases "starts_with (\<lambda>c. c = CHR ''|'') pos")
      case True
      then obtain p1 rule1 st1 where r: "parse_sequence k nm nested (parse_space (tl pos) True) (rule @ [elem_alt]) (length rule + 1) st = Parsed (p1, rule1, st1)"
        "parse_more_alternates k nm nested p1 rule1 st1 = Parsed (pos', rule', st')"
        using 2 by (auto simp: pbind_Parsed)
      have "rule_at (n_symbols st) (rule @ [elem_alt]) (length rule + 1)" using part_ok_append [OF 2(3) part_ok_alt] by (simp add: rule_at_def)
      from Suc.IH(3) [OF 2(1,2) this r(1)] have a: "grows st st1" "part_ok (n_symbols st1) rule1" by auto
      have b: "grows st1 st'" "part_ok (n_symbols st') rule'" using Suc.IH(2) [OF 2(1) _ a(2) r(2)] a(1) by (auto simp: grows_def)
      show ?thesis using grows_trans [OF a(1) b(1)] b(2) by simp
    next
      case False
      then show ?thesis using 2 grows_refl by simp
    qed
  next
    case 3
    show ?case
    proof (cases pos)
      case Nil
      then show ?thesis using 3 grows_refl rule_at_whole by auto
    next
      case (Cons c rest)
      show ?thesis
      proof (cases "c = CHR ''(''")
        case True
        obtain j st1 where j: "generate_symbol_id nm st = (j, st1)" by (metis surj_pair)
        then obtain p2 st2 where r: "parse_alternates k nm j True (parse_space rest True) st1 = Parsed (p2, st2)"
          "parse_sequence k nm nested (parse_space (tl p2) nested) (rule @ [elem_ref j]) (length rule) st2 = Parsed (pos', rule', st')"
          using 3 Cons True by (auto simp: pbind_Parsed split: if_splits)
        have a: "grows st st1" "j < n_symbols st1" using generate_symbol_grows [OF 3(2,1) j] by auto
        have b: "grows st1 st2" using Suc.IH(1) [OF 3(1) _ r(1)] a(1) by (simp add: grows_def)
        have j2: "j < n_symbols st2" and le: "n_symbols st \<le> n_symbols st2" using a b by (auto simp: grows_def)
        have "rule_at (n_symbols st2) (rule @ [elem_ref j]) (length rule)"
          using rule_at_append [OF rule_at_whole [OF rule_at_mono [OF 3(3) le]] part_ok_ref [OF j2]] .
        from Suc.IH(3) [OF 3(1) _ this r(2)] have "grows st2 st' \<and> part_ok (n_symbols st') rule'" using b by (simp add: grows_def)
        then show ?thesis using grows_trans [OF grows_trans [OF a(1) b]] by blast
      next
        case False
        then obtain item where item: "parse_item nm nested c rest rule l st = Parsed item"
          "(case item of None \<Rightarrow> Parsed (pos, rule, st) | Some (pos, rule, l, st) \<Rightarrow> parse_sequence k nm nested pos rule l st) = Parsed (pos', rule', st')"
          using 3 Cons by (auto simp: pbind_Parsed)
        show ?thesis
        proof (cases item)
          case None
          then show ?thesis using item(2) 3 grows_refl rule_at_whole by auto
        next
          case (Some q)
          obtain p1 rule1 l1 st1 where q: "q = (p1, rule1, l1, st1)" by (metis prod.collapse)
          have a: "grows st st1" "rule_at (n_symbols st1) rule1 l1" using parse_item_ok [OF 3(1,2,3)] item(1) unfolding Some q by blast+
          have "grows st1 st' \<and> part_ok (n_symbols st') rule'"
            using Suc.IH(3) [OF 3(1) _ a(2), of nested p1 pos' rule' st'] item(2) a(1) by (simp add: Some q grows_def)
          then show ?thesis using grows_trans [OF a(1)] by blast
        qed
      qed
    qed
  }
qed simp_all

lemma parse_rules_ok: "parser_ok st \<Longrightarrow> parse_rules k pos st = Parsed st' \<Longrightarrow> parser_ok st'"
proof (induction k arbitrary: pos st)
  case (Suc k)
  show ?case
  proof (cases "pos = []")
    case False
    then obtain p st1 where r: "parse_rule pos st = Parsed (p, st1)" "parse_rules k p st1 = Parsed st'" using Suc.prems(2) by (auto simp: pbind_Parsed)
    have "parser_ok st1"
      using r(1)
    proof (rule parse_rule_result)
      fix i st0 p0 st2 p2
      assume g: "get_symbol_id (takeWhile is_word_char pos) st = (i, st0)"
        and a: "parse_alternates (parse_fuel p0) (takeWhile is_word_char pos) i False p0 st0 = Parsed (p2, st1)"
      have "parser_ok st0" using get_symbol_grows [OF Suc.prems(1) word_name_takeWhile g] by (simp add: grows_def)
      from parse_ok(1) [OF word_name_takeWhile this a] show "parser_ok st1" by (simp add: grows_def)
    qed
    then show ?thesis using Suc.IH r(2) by blast
  qed (use Suc.prems in simp)
qed simp

text \<open>A valid state of the parser is a well-formed grammar.\<close>

lemma part_ok_rule_ok:
  assumes "part_ok m body" "\<forall>e \<in> set body. ge_type e = GR_RULE_REF \<longrightarrow> ge_value e < n"
  shows "rule_ok n (body @ [elem_end])"
  using assms by (cases "body = []") (auto simp: part_ok_def rule_ok_def successively_append_iff adj_ok_def is_cont_def)

lemma parser_rules_ok:
  assumes st: "parser_ok st" and valid: "parse_valid st"
  shows "rules_ok (gp_rules st)"
proof -
  have "rule_ok (length (gp_rules st)) rule" if r: "rule \<in> set (gp_rules st)" for rule
  proof -
    obtain body where body: "rule = body @ [elem_end]" "part_ok (n_symbols st) body"
      using st valid r by (fastforce simp: parser_ok_def parse_valid_def whole_ok_def)
    have "ge_value e < length (gp_rules st)" if e: "e \<in> set body" "ge_type e = GR_RULE_REF" for e
    proof -
      have "ge_value e < n_symbols st" using body(2) e by (simp add: part_ok_def)
      then have "ge_value e \<in> snd ` set (gp_symbol_ids st)" using symbols_ids st by (simp add: parser_ok_def)
      moreover have "\<not> ref_undefined st e" using valid r e(1) body(1) by (simp add: parse_valid_def)
      ultimately show ?thesis using e(2) by (auto simp: ref_undefined_def)
    qed
    then show ?thesis unfolding body(1) by (intro part_ok_rule_ok [OF body(2)]) blast
  qed
  then show ?thesis by (simp add: rules_ok_def)
qed

lemma parser_parse_ok:
  assumes "parser_parse src = Parsed st"
  shows "parser_ok st" and "rules_ok (gp_rules st)"
proof -
  have init: "parser_ok \<lparr>gp_symbol_ids = [], gp_rules = []\<rparr>" by (simp add: parser_ok_def symbols_ok_def)
  obtain st0 where "parse_rules (length (parse_space (c_str src) True) + 1) (parse_space (c_str src) True) \<lparr>gp_symbol_ids = [], gp_rules = []\<rparr> = Parsed st0"
    "parse_valid st0" "st0 = st"
    using assms by (auto simp: parser_parse_def pbind_Parsed Let_def simp del: parse_rules.simps split: if_splits)
  then have ok: "parser_ok st" "parse_valid st" using parse_rules_ok [OF init] by blast+
  then show "parser_ok st" "rules_ok (gp_rules st)" using parser_rules_ok by blast+
qed

end
