(* ===== verification/GrammarProps.thy ===== *)
theory GrammarProps
  imports GrammarSample GrammarParseOk
begin

text \<open>
  The properties of the grammar: parsing, the check for left recursion, decoding, masking and accepting,
  and sampling under a grammar from its source on.
\<close>

subsection \<open>From the source to the grammar object\<close>

lemma copy_rule_whole: "\<forall>e \<in> set body. ge_type e \<noteq> GR_END \<Longrightarrow> copy_rule (body @ [elem_end]) = Some (body @ [elem_end])"
  by (induction body) auto

lemma copy_rules_parsed:
  assumes st: "parser_ok st" and valid: "parse_valid st"
  shows "mapM copy_rule (gp_rules st) = Some (gp_rules st)"
proof -
  have "copy_rule rule = Some rule" if r: "rule \<in> set (gp_rules st)" for rule
  proof -
    obtain body where "rule = body @ [elem_end]" "part_ok (n_symbols st) body"
      using st valid r by (fastforce simp: parser_ok_def parse_valid_def whole_ok_def)
    then show ?thesis using copy_rule_whole by (simp add: part_ok_def)
  qed
  then show ?thesis using mapM_ok [of "gp_rules st" copy_rule "\<lambda>r. r"] by simp
qed

lemma parser_parse_copies:
  assumes p: "parser_parse src = Parsed st"
  shows "mapM copy_rule (gp_rules st) = Some (gp_rules st)"
proof -
  have "parse_valid st" using p by (auto simp: parser_parse_def pbind_Parsed Let_def simp del: parse_rules.simps split: if_splits)
  then show ?thesis by (rule copy_rules_parsed [OF parser_parse_ok(1) [OF p]])
qed

text \<open>The grammar of the rules \<open>rs\<close> that starts with rule \<open>start\<close>.\<close>

definition starts_at :: "grammar \<Rightarrow> grammar_rules \<Rightarrow> nat \<Rightarrow> bool" where
  "starts_at g rs start \<longleftrightarrow> gm_rules g = rs \<and> rules_ok rs \<and> left_recursive rs = Some False \<and> stacks_ready rs (gm_stacks g) \<and>
     gm_stacks g \<noteq> [] \<and> stacks_lang rs (gm_stacks g) = rule_lang rs start \<and> gm_partial g = \<lparr>pu_value = 0, pu_n_remain = 0\<rparr>"

lemma grammar_build_starts:
  assumes rs: "rules_ok rs" "mapM copy_rule rs = Some rs" and b: "grammar_build rs start lazy tokens patterns = Some (Some g)"
  shows "starts_at g rs start \<and> gm_awaiting_trigger g = lazy"
proof -
  obtain stacks where s: "left_recursive rs = Some False" "init_stacks rs start = Some stacks" "gm_rules g = rs" "gm_stacks g = stacks"
    "gm_partial g = \<lparr>pu_value = 0, pu_n_remain = 0\<rparr>" "gm_awaiting_trigger g = lazy"
    using b rs(2) by (auto simp: grammar_build_def bind_eq_Some_conv split: if_splits)
  show ?thesis using init_stacks_lang [OF rs(1) s(2)] s rs(1) by (simp add: starts_at_def)
qed

lemma grammar_init_str_starts:
  assumes init: "grammar_init_str src root lazy patterns tokens = Some (Some g)"
  shows "\<exists>st start. parser_parse src = Parsed st \<and> map_of (gp_symbol_ids st) root = Some start \<and> starts_at g (gp_rules st) start \<and>
    gm_awaiting_trigger g = lazy"
proof -
  obtain st start where st: "parser_parse src = Parsed st" "map_of (gp_symbol_ids st) root = Some start"
    "grammar_build (gp_rules st) start lazy tokens patterns = Some (Some g)"
    using init by (auto simp: grammar_init_str_def split: parsed.splits option.splits if_splits)
  show ?thesis using grammar_build_starts [OF parser_parse_ok(2) [OF st(1)] parser_parse_copies [OF st(1)] st(3)] st(1,2) by blast
qed

lemma starts_at_ok: "starts_at g rs start \<Longrightarrow> left_wf rs \<Longrightarrow> grammar_ok g"
  by (auto simp: starts_at_def grammar_ok_def partial_ok_def)

lemma reads_lang:
  assumes g0: "starts_at g0 rs start" and r: "reads g0 u g"
  shows "stacks_lang rs (gm_stacks g) = {w. u @ w \<in> rule_lang rs start}" and "[] \<in> set (gm_stacks g) \<longleftrightarrow> u \<in> rule_lang rs start"
proof -
  have g: "rules_ok rs" "stacks_ready rs (gm_stacks g0)" "accept_all rs (gm_stacks g0) u = Some (gm_stacks g)"
    using g0 r by (auto simp: starts_at_def reads_def)
  have all: "stacks_ready rs (gm_stacks g)" "stacks_lang rs (gm_stacks g) = {w. u @ w \<in> stacks_lang rs (gm_stacks g0)}"
    using accept_all_lang [OF g] by auto
  then show "stacks_lang rs (gm_stacks g) = {w. u @ w \<in> rule_lang rs start}" using g0 by (simp add: starts_at_def)
  then show "[] \<in> set (gm_stacks g) \<longleftrightarrow> u \<in> rule_lang rs start" using empty_stack_iff [OF all(1)] by simp
qed

subsection \<open>A small grammar\<close>

text \<open>One with the usual rule for white space: it is empty through the rule of its repetition only.\<close>

definition demo_src :: string where
  "demo_src = ''root ::= ws [b]'' @ [CHR 0x0A] @ ''ws ::= [a]*''"

definition demo_rules :: grammar_rules where
  "demo_rules = [[elem_ref 1, \<lparr>ge_type = GR_CHAR, ge_value = 98\<rparr>, elem_end], [elem_ref 2, elem_end],
     [\<lparr>ge_type = GR_CHAR, ge_value = 97\<rparr>, elem_ref 2, elem_alt, elem_end]]"

definition demo_grammar :: grammar where
  "demo_grammar = \<lparr>gm_rules = demo_rules, gm_stacks = [[(2, 0), (0, 1)], [(0, 1)]], gm_partial = \<lparr>pu_value = 0, pu_n_remain = 0\<rparr>,
     gm_lazy = False, gm_awaiting_trigger = False, gm_trigger_buffer = [], gm_trigger_tokens = [], gm_trigger_patterns = []\<rparr>"

text \<open>Three tokens of text, and one that ends the generation.\<close>

definition demo_piece :: "llama_token \<Rightarrow> string" where
  "demo_piece t = (if t = 0 then ''a'' else if t = 1 then ''ab'' else if t = 2 then ''ba'' else [])"

definition demo_eog :: "llama_token \<Rightarrow> bool" where
  "demo_eog t \<longleftrightarrow> t = 3"

lemma demo_parse: "parser_parse demo_src = Parsed \<lparr>gp_symbol_ids = [(''root'', 0), (''ws'', 1), (''ws_2'', 2)], gp_rules = demo_rules\<rparr>"
  by code_simp

lemma demo_checked: "left_recursive demo_rules = Some False"
  by code_simp

lemma demo_stacks: "init_stacks demo_rules 0 = Some [[(2, 0), (0, 1)], [(0, 1)]]"
  by code_simp

lemma demo_copy: "mapM copy_rule demo_rules = Some demo_rules"
  by code_simp

lemma demo_init: "grammar_init_str demo_src ''root'' False [] [] = Some (Some demo_grammar)"
  by (simp add: grammar_init_str_def demo_parse grammar_build_def demo_copy demo_checked demo_stacks demo_grammar_def)
    (simp add: demo_rules_def)

lemma demo_starts: "starts_at demo_grammar demo_rules 0"
  using grammar_init_str_starts [OF demo_init] by (auto simp: demo_parse)

text \<open>Its leftmost positions do not come back to themselves.\<close>

lemma left_wf_rank:
  assumes "\<And>p q. left_step rs q p \<Longrightarrow> (rank q :: nat) < rank p"
  shows "left_wf rs"
proof -
  have "Wellfounded.accp (left_step rs) p" for p
  proof (induction "rank p" arbitrary: p rule: less_induct)
    case less
    show ?case by (rule accpI) (rule less [OF assms])
  qed
  then show ?thesis by (simp add: left_wf_def)
qed

lemma demo_refs:
  assumes "elem_at demo_rules p = Some e" "ge_type e = GR_RULE_REF"
  shows "p = (0, 0) \<and> ge_value e = 1 \<or> p = (1, 0) \<and> ge_value e = 2 \<or> p = (2, 1) \<and> ge_value e = 2"
proof -
  have "fst p < 3" "snd p < length (demo_rules ! fst p)" "e = demo_rules ! fst p ! snd p"
    using assms(1) by (auto simp: elem_at_Some demo_rules_def)
  then show ?thesis using assms(2) by (cases p) (auto simp: demo_rules_def numeral_eq_Suc less_Suc_eq)
qed

definition demo_rank :: "gpos \<Rightarrow> nat" where
  "demo_rank p = (if p = (0, 0) then 2 else if p = (1, 0) \<or> p = (2, 1) then 1 else 0)"

lemma demo_left_wf: "left_wf demo_rules"
proof (rule left_wf_rank [of _ demo_rank])
  fix p q assume "left_step demo_rules q p"
  then show "demo_rank q < demo_rank p"
  proof cases
    case (left_into e i)
    have "i \<noteq> 1 \<or> ge_value e \<noteq> 2" using left_into(4) by (auto simp: alt_start_def demo_rules_def)
    then show ?thesis using demo_refs [OF left_into(2,3)] left_into(1) by (auto simp: demo_rank_def)
  next
    case (left_over e)
    then show ?thesis using demo_refs [OF left_over(2,3)] by (auto simp: demo_rank_def gnext_def)
  qed
qed

subsection \<open>A rule that is empty only through another\<close>

text \<open>\<open>root ::= a root | "x"\<close> with \<open>a ::= b\<close> and \<open>b ::= | "y"\<close>: the rule \<open>a\<close> derives the empty word but has no
  empty alternate of its own.\<close>

definition hidden_rules :: grammar_rules where
  "hidden_rules = [[elem_ref 1, elem_ref 0, elem_alt, \<lparr>ge_type = GR_CHAR, ge_value = 120\<rparr>, elem_end],
     [elem_ref 2, elem_end], [elem_alt, \<lparr>ge_type = GR_CHAR, ge_value = 121\<rparr>, elem_end]]"

lemma hidden_checked: "left_recursive hidden_rules = Some False"
  by code_simp

lemma hidden_elems:
  "elem_at hidden_rules (0, 0) = Some (elem_ref 1)" "elem_at hidden_rules (0, Suc 0) = Some (elem_ref 0)"
  "elem_at hidden_rules (0, 2) = Some elem_alt" "elem_at hidden_rules (0, 3) = Some \<lparr>ge_type = GR_CHAR, ge_value = 120\<rparr>"
  "elem_at hidden_rules (Suc 0, 0) = Some (elem_ref 2)" "elem_at hidden_rules (Suc 0, Suc 0) = Some elem_end"
  "elem_at hidden_rules (2, 0) = Some elem_alt" "elem_at hidden_rules (2, Suc 0) = Some \<lparr>ge_type = GR_CHAR, ge_value = 121\<rparr>"
  by code_simp+

lemma hidden_alts:
  "vget hidden_rules 0 = Some (hidden_rules ! 0)" "alt_offsets (hidden_rules ! 0) 0 0 = Some [0, 3]"
  "vget hidden_rules (Suc 0) = Some (hidden_rules ! 1)" "alt_offsets (hidden_rules ! Suc 0) 0 0 = Some [0]"
  "vget hidden_rules 2 = Some (hidden_rules ! 2)" "alt_offsets (hidden_rules ! 2) 0 0 = Some [0, Suc 0]"
  by code_simp+

lemma hidden_diverges: "advance_stack hidden_rules [(0, 0)] acc = None"
proof (rule ccontr)
  assume "advance_stack hidden_rules [(0, 0)] acc \<noteq> None"
  then obtain out where ret: "advance_stack hidden_rules [(0, 0)] acc = Some out" by blast
  let ?P = "\<lambda>rs stack acc (out :: grammar_stacks). rs = hidden_rules \<longrightarrow> stack \<notin> {[(0, 0)], [(Suc 0, 0), (0, Suc 0)], [(0, Suc 0)]}"
  have "?P hidden_rules [(0, 0)] acc out"
  proof (rule advance_stack.raw_induct [where P = ?P, OF _ ret], intro impI notI)
    fix f rs stack acc out
    assume IH: "\<And>rs stack acc out. f rs stack acc = Some out \<Longrightarrow> ?P rs stack acc out" and rs: "rs = hidden_rules"
      and st: "stack \<in> {[(0, 0)], [(Suc 0, 0), (0, Suc 0)], [(0, Suc 0)]}"
      and run: "(case stack of
        [] \<Rightarrow> Some (add_stack stack acc)
      | pos # rest \<Rightarrow> do {
          e \<leftarrow> elem_at rs pos;
          if ge_type e = GR_RULE_REF then do {
            rule \<leftarrow> vget rs (ge_value e);
            alts \<leftarrow> alt_offsets rule 0 0;
            foldM (\<lambda>i new_stacks. do {
              s \<leftarrow> push_pos rs (gnext pos) rest;
              s \<leftarrow> push_pos rs (ge_value e, i) s;
              f rs s new_stacks }) alts acc }
          else if ge_type e = GR_CHAR \<or> ge_type e = GR_CHAR_NOT \<or> ge_type e = GR_CHAR_ANY
          then Some (add_stack stack acc)
          else None }) = Some out"
    have no: "f hidden_rules s acc \<noteq> Some t" if "s \<in> {[(0, 0)], [(Suc 0, 0), (0, Suc 0)], [(0, Suc 0)]}" for s acc t
      using IH [of hidden_rules s acc t] that by blast
    have none: "f hidden_rules s acc = None" if "s \<in> {[(0, 0)], [(Suc 0, 0), (0, Suc 0)], [(0, Suc 0)]}" for s acc
      using no [OF that, of acc] by (cases "f hidden_rules s acc") auto
    have f: "f hidden_rules [(0, 0)] acc = None" "f hidden_rules [(Suc 0, 0), (0, Suc 0)] acc = None" "f hidden_rules [(0, Suc 0)] acc = None"
      for acc by (rule none, simp)+
    show False
      using st run unfolding rs
      by (auto simp: hidden_elems hidden_alts f push_pos_def is_end_of_sequence_def is_end_elem_def gnext_def numeral_2_eq_2 [symmetric])
  qed
  then show False by simp
qed

subsection \<open>Partial characters\<close>

text \<open>The code points that \<open>n\<close> more bytes can complete the value \<open>v\<close> to, overlong encodings left out.\<close>

definition completions :: "nat \<Rightarrow> nat \<Rightarrow> nat set" where
  "completions v n = {c. c div 64 ^ n = v \<and> (if n = 1 then 2 ^ 7 else if n = 2 then 2 ^ 11 else 2 ^ 16) \<le> c}"

lemma div_eq_range:
  fixes c d v :: nat
  assumes d: "0 < d"
  shows "c div d = v \<longleftrightarrow> v * d \<le> c \<and> c \<le> v * d + (d - 1)"
proof
  assume v: "c div d = v"
  have "c = v * d + c mod d" using div_mult_mod_eq [of c d] v by simp
  moreover have "c mod d \<le> d - 1" using mod_less_divisor [OF d, of c] by simp
  ultimately show "v * d \<le> c \<and> c \<le> v * d + (d - 1)" by linarith
next
  assume "v * d \<le> c \<and> c \<le> v * d + (d - 1)"
  then show "c div d = v" using d by (intro div_nat_eqI) (auto simp: mult.commute)
qed

lemma partial_range_completions:
  assumes n: "0 < n" "n \<le> 3" and v: "v * 64 ^ n < 2 ^ 32" and ok: "\<not> (n = 1 \<and> v < 2)" and r: "partial_range v n = (low, high)"
  shows "completions v n = {low..high}" and "low \<le> high"
proof -
  consider "n = 1" | "n = 2" | "n = 3" using n by linarith
  then have "completions v n = {low..high} \<and> low \<le> high"
  proof cases
    case 1
    have "u32 (int (v * 64)) = v * 64" using v 1 by (intro u32_id) simp
    then have r: "low = v * 64" "high = v * 64 + 63" using r 1 ok by (auto simp: partial_range_def Let_def split: if_splits)
    then show ?thesis using 1 ok by (auto simp: completions_def div_eq_range)
  next
    case 2
    have "u32 (int (v * 4096)) = v * 4096" using v 2 by (intro u32_id) simp
    then have r: "low = (if v = 0 then 2048 else v * 4096)" "high = v * 4096 + 4095" using r 2 by (auto simp: partial_range_def Let_def split: if_splits)
    then show ?thesis using 2 by (auto simp: completions_def div_eq_range)
  next
    case 3
    have "u32 (int (v * 262144)) = v * 262144" using v 3 by (intro u32_id) simp
    then have r: "low = (if v = 0 then 65536 else v * 262144)" "high = v * 262144 + 262143" using r 3 by (auto simp: partial_range_def Let_def split: if_splits)
    then show ?thesis using 3 by (auto simp: completions_def div_eq_range)
  qed
  then show "completions v n = {low..high}" "low \<le> high" by blast+
qed

text \<open>Every range of the class is written in order.\<close>

definition class_ordered :: "grammar_rule \<Rightarrow> bool" where
  "class_ordered es \<longleftrightarrow> (\<forall>(a, b) \<in> set (class_ranges es). a \<le> b)"

lemma class_overlaps_iff:
  assumes "class_ordered es" "low \<le> high"
  shows "class_overlaps es low high \<longleftrightarrow> (\<exists>c \<in> {low..high}. in_ranges c (class_ranges es))"
proof
  assume "class_overlaps es low high"
  then obtain a b where ab: "(a, b) \<in> set (class_ranges es)" "a \<le> high" "low \<le> b" by (auto simp: class_overlaps_def)
  then have "a \<le> b" using assms(1) by (auto simp: class_ordered_def)
  then have "max a low \<in> {low..high} \<and> in_ranges (max a low) (class_ranges es)" using ab assms(2) unfolding in_ranges_def by (auto intro!: bexI [OF _ ab(1)])
  then show "\<exists>c \<in> {low..high}. in_ranges c (class_ranges es)" by blast
next
  assume "\<exists>c \<in> {low..high}. in_ranges c (class_ranges es)"
  then obtain c a b where "low \<le> c" "c \<le> high" "(a, b) \<in> set (class_ranges es)" "a \<le> c" "c \<le> b" by (auto simp: in_ranges_def)
  then show "class_overlaps es low high" unfolding class_overlaps_def by (intro bexI [of _ "(a, b)"]) simp_all
qed

lemma class_partial_iff:
  assumes es: "class_ordered es" "is_char_start (hd es)" and n: "0 < n" "n \<le> 3" and v: "v * 64 ^ n < 2 ^ 32"
  shows "class_partial es \<lparr>pu_value = v, pu_n_remain = int n\<rparr> \<longleftrightarrow>
    (if ge_type (hd es) = GR_CHAR_NOT then completions v n \<noteq> {} \<and> (\<forall>c \<in> completions v n. class_has es c)
     else \<exists>c \<in> completions v n. class_has es c)"
proof (cases "n = 1 \<and> v < 2")
  case True
  then have "completions v n = {}" by (auto simp: completions_def div_eq_range)
  then show ?thesis using True by (simp add: class_partial_def)
next
  case False
  obtain low high where r: "partial_range v n = (low, high)" by (metis surj_pair)
  note lh = partial_range_completions [OF n v False r]
  have c: "class_partial es \<lparr>pu_value = v, pu_n_remain = int n\<rparr> \<longleftrightarrow> (case ge_type (hd es) of GR_CHAR_ANY \<Rightarrow> True
      | GR_CHAR_NOT \<Rightarrow> \<not> class_overlaps es low high | _ \<Rightarrow> class_overlaps es low high)"
    using False r n by (auto simp: class_partial_def)
  have ne: "completions v n \<noteq> {}" using lh by simp
  show ?thesis unfolding c class_overlaps_iff [OF es(1) lh(2)] lh(1) [symmetric]
    using es(2) ne by (auto simp: class_has_def is_char_start_def)
qed

section \<open>The properties\<close>

text \<open>C36: whatever a grammar's source is, parsing ends: in a grammar, in an exception, or in undefined behaviour,
  which the model has where the difference of the bounds of a repetition overflows an \<open>int\<close>, as in \<open>.{2147483648,1}\<close>.  And the rules of a grammar that
  was parsed are well formed: each ends with its only \<open>END\<close>, every reference is to a rule, and ranges and
  alternatives only continue a character.\<close>

theorem parser_well_formed:
  "parser_parse src \<noteq> Fuel \<and> (\<forall>st. parser_parse src = Parsed st \<longrightarrow> rules_ok (gp_rules st))"
  using parser_parse_fuel parser_parse_ok(2) by blast

theorem parser_well_formed_witness: "rules_ok demo_rules"
  using parser_well_formed [of demo_src] demo_parse by simp

text \<open>C34: the check for left recursion ends on every well-formed grammar, and it rejects exactly those in which a rule
  leads back to itself through leftmost references, where an element counts as leftmost when every reference
  before it in its alternate is to a rule one of whose alternates has no elements.\<close>

theorem left_recursion_exact:
  assumes "rules_ok rs"
  shows "left_recursive rs = Some (\<exists>r. (left_edge rs)\<^sup>+\<^sup>+ r r)"
  using left_recursive_iff(1) [OF assms] .

theorem left_recursion_exact_witness: "\<not> (\<exists>r. (left_edge demo_rules)\<^sup>+\<^sup>+ r r)"
  using left_recursion_exact [of demo_rules] demo_checked demo_starts by (simp add: starts_at_def)

text \<open>C35: the check is not enough for matching to end.  A grammar passes it in which a rule is empty only through
  another rule, and expanding its first stack never returns; so its construction does not either.\<close>

theorem hidden_left_recursion:
  "left_recursive hidden_rules = Some False \<and> rules_ok hidden_rules \<and> advance_stack hidden_rules [(0, 0)] acc = None \<and>
   grammar_init hidden_rules 0 = None"
proof -
  have "init_stacks hidden_rules 0 = None"
    by (simp add: init_stacks_def hidden_alts push_pos_def is_end_of_sequence_def hidden_elems is_end_elem_def hidden_diverges)
  moreover have "mapM copy_rule hidden_rules = Some hidden_rules" by code_simp
  ultimately have "grammar_init hidden_rules 0 = None" by (simp add: grammar_init_def grammar_build_def hidden_checked)
  moreover have "rules_ok hidden_rules" by (simp add: rules_ok_def rule_ok_def hidden_rules_def adj_ok_def is_cont_def)
  ultimately show ?thesis using hidden_checked hidden_diverges by blast
qed

text \<open>C27: under a grammar in use, the mask is exactly what accepting allows: it leaves a candidate when accepting its
  code points one after the other leaves a stack that its trailing partial character fits, or, for a token that
  ends the generation, when some stack is empty; and it touches nothing else.\<close>

theorem mask_agrees_with_accept:
  assumes "grammar_ok g" "gm_stacks g \<noteq> []" "\<not> gm_awaiting_trigger g"
  shows "grammar_apply piece_of is_eog g cur = Some (map (\<lambda>(t, l). (t, if token_allowed piece_of is_eog g t then l else None)) cur)"
  using grammar_apply_allowed [OF assms] .

theorem mask_agrees_with_accept_witness:
  "grammar_apply demo_piece demo_eog demo_grammar [(0, Some (5 :: nat)), (2, Some 7), (3, Some 8)] =
   Some (map (\<lambda>(t, l). (t, if token_allowed demo_piece demo_eog demo_grammar t then l else None)) [(0, Some 5), (2, Some 7), (3, Some 8)])"
  by (rule mask_agrees_with_accept [OF starts_at_ok [OF demo_starts demo_left_wf]]) (simp_all add: demo_grammar_def)

text \<open>C25: sampling under a grammar without left recursion is sound, from the source on.  Without left recursion means that no
  position leads back to itself through references before which everything can be empty (\<open>left_wf\<close>); the check of the
  code does not catch all of these, as \<open>hidden_rules\<close> shows.  Then, whatever tokens were picked among those the mask left,
  the stacks stand for the ways to complete the text so far to a word of the root rule, and a token that ends the
  generation is left exactly when the text is such a word.\<close>

theorem sampled_text_in_language:
  assumes "grammar_init_str src root False patterns tokens = Some (Some g0)" and "left_wf (gm_rules g0)"
    and "sampled piece_of is_eog g0 ts g" and "is_eog eog"
  shows "\<exists>st start u. parser_parse src = Parsed st \<and> map_of (gp_symbol_ids st) root = Some start \<and>
    decode_pieces (map piece_of ts) (gm_partial g0) = (u, gm_partial g) \<and>
    stacks_lang (gp_rules st) (gm_stacks g) = {w. u @ w \<in> rule_lang (gp_rules st) start} \<and>
    grammar_apply piece_of is_eog g [(eog, Some l)] = Some [(eog, if u \<in> rule_lang (gp_rules st) start then Some l else None)]"
proof -
  obtain st start where st: "parser_parse src = Parsed st" "map_of (gp_symbol_ids st) root = Some start" "starts_at g0 (gp_rules st) start"
    "\<not> gm_awaiting_trigger g0" using grammar_init_str_starts [OF assms(1)] by blast
  have "left_wf (gp_rules st)" "gm_stacks g0 \<noteq> []" using assms(2) st(3) by (auto simp: starts_at_def)
  then obtain u where u: "decode_pieces (map piece_of ts) (gm_partial g0) = (u, gm_partial g)" "reads g0 u g"
    using sampled_reads [OF starts_at_ok [OF st(3)] st(4) _ assms(3)] by blast
  have "grammar_apply piece_of is_eog g [(eog, Some l)] = Some [(eog, if token_allowed piece_of is_eog g eog then Some l else None)]"
    using u(2) by (subst grammar_apply_allowed) (auto simp: reads_def)
  then show ?thesis using st(1,2) u reads_lang [OF st(3) u(2)] assms(4) by (auto simp: token_allowed_def)
qed

theorem sampled_text_in_language_witness:
  "\<exists>st start u. parser_parse demo_src = Parsed st \<and> map_of (gp_symbol_ids st) ''root'' = Some start \<and>
    decode_pieces (map demo_piece []) (gm_partial demo_grammar) = (u, gm_partial demo_grammar) \<and>
    stacks_lang (gp_rules st) (gm_stacks demo_grammar) = {w. u @ w \<in> rule_lang (gp_rules st) start} \<and>
    grammar_apply demo_piece demo_eog demo_grammar [(3, Some (1 :: nat))] = Some [(3, if u \<in> rule_lang (gp_rules st) start then Some 1 else None)]"
  by (rule sampled_text_in_language [OF demo_init _ sampled_start])
    (use demo_left_wf in \<open>simp_all add: demo_grammar_def demo_eog_def\<close>)

text \<open>C26: sampling under a grammar without left recursion (as above) never gets stuck or throws: at every point the mask
  returns, and accepting any token it left returns without the exception of an empty grammar stack, with
  stacks left for the next token.  A token of text must not decode to a code point 0 before its end, where the mask
  stops reading and \<open>accept\<close> goes on.\<close>

theorem unmasked_token_accepted:
  assumes "grammar_init_str src root False patterns tokens = Some (Some g0)" and "left_wf (gm_rules g0)"
    and "sampled piece_of is_eog g0 ts g"
  shows "\<exists>out. grammar_apply piece_of is_eog g cur = Some out \<and> (\<forall>t l. (t, Some l) \<in> set out \<longrightarrow>
    is_eog t \<or> piece_clean (gm_partial g) (piece_of t) \<longrightarrow> (\<exists>g'. grammar_accept_token piece_of is_eog g t = Some (False, g') \<and> gm_stacks g' \<noteq> []))"
proof -
  obtain rs start where st: "starts_at g0 rs start" "\<not> gm_awaiting_trigger g0" using grammar_init_str_starts [OF assms(1)] by blast
  have "left_wf rs" "gm_stacks g0 \<noteq> []" using assms(2) st(1) by (auto simp: starts_at_def)
  then obtain u where u: "reads g0 u g"
    using sampled_reads [OF starts_at_ok [OF st(1)] st(2) _ assms(3)] by blast
  then have g: "grammar_ok g" "gm_stacks g \<noteq> []" "\<not> gm_awaiting_trigger g" by (simp_all add: reads_def)
  have "token_allowed piece_of is_eog g t" if "(t, Some l) \<in> set (map (\<lambda>(t, l). (t, if token_allowed piece_of is_eog g t then l else None)) cur)" for t l
    using that by (auto split: if_splits)
  note allowed = this
  show ?thesis
  proof (intro exI conjI, rule grammar_apply_allowed [OF g], intro allI impI)
    fix t l
    assume "(t, Some l) \<in> set (map (\<lambda>(t, l). (t, if token_allowed piece_of is_eog g t then l else None)) cur)"
      and clean: "is_eog t \<or> piece_clean (gm_partial g) (piece_of t)"
    from accept_token_allowed [OF g(1,3) allowed [OF this(1)] clean]
    show "\<exists>g'. grammar_accept_token piece_of is_eog g t = Some (False, g') \<and> gm_stacks g' \<noteq> []" by blast
  qed
qed

theorem unmasked_token_accepted_witness:
  "\<exists>out. grammar_apply demo_piece demo_eog demo_grammar [(1, Some (4 :: nat))] = Some out \<and> (\<forall>t l. (t, Some l) \<in> set out \<longrightarrow>
    demo_eog t \<or> piece_clean (gm_partial demo_grammar) (demo_piece t) \<longrightarrow>
      (\<exists>g'. grammar_accept_token demo_piece demo_eog demo_grammar t = Some (False, g') \<and> gm_stacks g' \<noteq> []))"
  by (rule unmasked_token_accepted [OF demo_init _ sampled_start]) (use demo_left_wf in \<open>simp add: demo_grammar_def\<close>)

text \<open>C37: text survives being cut into tokens: however the UTF-8 encoding of some code points is split into pieces, also in
  the middle of a character, decoding the pieces one after the other gives those code points and no partial
  character.\<close>

theorem decode_pieces_roundtrip:
  assumes "\<forall>c \<in> set cps. code_point_ok c" and "concat pieces = concat (map utf8_encode cps)"
  shows "\<exists>v. decode_pieces pieces \<lparr>pu_value = 0, pu_n_remain = 0\<rparr> = (cps, \<lparr>pu_value = v, pu_n_remain = 0\<rparr>)"
proof -
  obtain v where "utf8_run 0 0 (concat pieces) = Some (cps, v, 0)" using utf8_run_encode_all [OF assms(1), of 0] assms(2) by auto
  from decode_pieces_run [OF this] show ?thesis by auto
qed

theorem decode_pieces_roundtrip_witness:
  "\<exists>v. decode_pieces [[CHR 0xC3], [CHR 0xA9, CHR ''x'']] \<lparr>pu_value = 0, pu_n_remain = 0\<rparr> = ([233, 120], \<lparr>pu_value = v, pu_n_remain = 0\<rparr>)"
  by (rule decode_pieces_roundtrip) (simp add: code_point_ok_def, code_simp)

text \<open>C38: what the mask decides about a character that a token cuts short: a class or a dot is taken as matched when some
  way to complete the bytes is in it, a negated class only when every way is.  The class is one whose ranges are written in order, and the
  bits read so far, shifted by those to come, fit 32 bits, as they do after any lead byte.\<close>

theorem partial_char_exact:
  assumes "rules_ok rs" "char_pos rs p" "class_ordered (class_at rs p)" "0 < n" "n \<le> 3" "v * 64 ^ n < 2 ^ 32"
  shows "match_partial_char rs p \<lparr>pu_value = v, pu_n_remain = int n\<rparr> =
    Some (if ge_type (hd (class_at rs p)) = GR_CHAR_NOT
      then completions v n \<noteq> {} \<and> (\<forall>c \<in> completions v n. class_has (class_at rs p) c)
      else \<exists>c \<in> completions v n. class_has (class_at rs p) c)"
proof -
  have "is_char_start (hd (class_at rs p))" using assms(2) by (auto simp: char_pos_def elem_at_Some class_at_def hd_drop_conv_nth)
  from class_partial_iff [OF assms(3) this assms(4-6)] show ?thesis
    using match_partial_char_class [OF assms(1,2)] assms(5) by (simp add: partial_ok_def)
qed

text \<open>\<open>[^\<close> e acute \<open>]\<close> and its lead byte, which starts 63 other characters.\<close>

definition not_e_acute :: grammar_rules where
  "not_e_acute = [[\<lparr>ge_type = GR_CHAR_NOT, ge_value = 233\<rparr>, elem_end]]"

text \<open>A range around the character U+1F600, which is cut before its last byte.\<close>

definition an_emoji :: grammar_rules where
  "an_emoji = [[\<lparr>ge_type = GR_CHAR, ge_value = 0x1F5FF\<rparr>, \<lparr>ge_type = GR_CHAR_RNG_UPPER, ge_value = 0x1F600\<rparr>, elem_end]]"

theorem partial_char_exact_witness:
  "match_partial_char not_e_acute (0, 0) \<lparr>pu_value = 3, pu_n_remain = int 1\<rparr> =
    Some (completions 3 1 \<noteq> {} \<and> (\<forall>c \<in> completions 3 1. class_has (class_at not_e_acute (0, 0)) c)) \<and>
   match_partial_char not_e_acute (0, 0) \<lparr>pu_value = 3, pu_n_remain = int 1\<rparr> = Some False \<and>
   232 \<in> completions 3 1 \<and> class_has (class_at not_e_acute (0, 0)) 232 \<and>
   match_partial_char an_emoji (0, 0) \<lparr>pu_value = 2008, pu_n_remain = int 1\<rparr> = Some True"
proof -
  have "rules_ok not_e_acute" "char_pos not_e_acute (0, 0)" "class_ordered (class_at not_e_acute (0, 0))"
    by (simp_all add: rules_ok_def rule_ok_def not_e_acute_def adj_ok_def is_cont_def char_pos_def elem_at_def is_char_start_def class_ordered_def class_at_def)
  then have "match_partial_char not_e_acute (0, 0) \<lparr>pu_value = 3, pu_n_remain = int 1\<rparr> =
      Some (completions 3 1 \<noteq> {} \<and> (\<forall>c \<in> completions 3 1. class_has (class_at not_e_acute (0, 0)) c))"
    by (subst partial_char_exact) (simp_all add: not_e_acute_def class_at_def)
  moreover have "233 \<in> completions 3 1" "\<not> class_has (class_at not_e_acute (0, 0)) 233"
    by (simp_all add: completions_def class_has_def class_at_def not_e_acute_def in_ranges_def)
  moreover have "232 \<in> completions 3 1" "class_has (class_at not_e_acute (0, 0)) 232"
    by (simp_all add: completions_def class_has_def class_at_def not_e_acute_def in_ranges_def)
  moreover have "match_partial_char an_emoji (0, 0) \<lparr>pu_value = 2008, pu_n_remain = int 1\<rparr> =
      Some (\<exists>c \<in> completions 2008 1. class_has (class_at an_emoji (0, 0)) c)"
    by (subst partial_char_exact) (simp_all add: rules_ok_def rule_ok_def an_emoji_def adj_ok_def is_cont_def char_pos_def
      elem_at_def is_char_start_def class_ordered_def class_at_def)
  moreover have "128512 \<in> completions 2008 1" "class_has (class_at an_emoji (0, 0)) 128512"
    by (simp_all add: completions_def class_has_def class_at_def an_emoji_def in_ranges_def)
  ultimately show ?thesis by auto
qed

section \<open>Concrete runs\<close>

text \<open>A bound that does not fit an \<open>int\<close> wraps around, so that \<open>{4294967295}\<close> means one or more.\<close>

theorem repetition_wraps: "parser_parse ''root ::= .{4294967295}'' = parser_parse ''root ::= .+''"
  by code_simp

text \<open>With the bounds the wrong way round there is no error.\<close>

theorem repetition_swapped: "parser_parse ''root ::= .{3,1}'' = parser_parse ''root ::= .{3}''"
  by code_simp

text \<open>A symbol that is only referenced, and the reference dropped: the root has no rule, and constructing the
  grammar reads outside the rules.\<close>

theorem root_without_rule:
  "parser_parse ''x ::= root{0}'' = Parsed \<lparr>gp_symbol_ids = [(''x'', 0), (''root'', 1)], gp_rules = [[elem_end]]\<rparr> \<and>
   grammar_init_str ''x ::= root{0}'' ''root'' False [] [] = None"
proof -
  have p: "parser_parse ''x ::= root{0}'' = Parsed \<lparr>gp_symbol_ids = [(''x'', 0), (''root'', 1)], gp_rules = [[elem_end]]\<rparr>"
    by code_simp
  have "left_recursive [[elem_end]] = Some False" "mapM copy_rule [[elem_end]] = Some [[elem_end]]" by code_simp+
  then have "grammar_build [[elem_end]] 1 False [] [] = None" by (simp add: grammar_build_def init_stacks_def vget_def)
  then show ?thesis using p by (simp add: grammar_init_str_def)
qed

text \<open>Words of e acute, one byte of it as a token: the token is accepted, and then the end is allowed.\<close>

definition e_acutes :: grammar_rules where
  "e_acutes = [[\<lparr>ge_type = GR_CHAR, ge_value = 233\<rparr>, elem_ref 0, elem_alt, elem_end]]"

theorem eog_inside_character:
  "\<exists>g g'. grammar_init e_acutes 0 = Some (Some g) \<and> grammar_accept_str g [CHR 0xC3] = Some (False, g') \<and>
    pu_n_remain (gm_partial g') = 1 \<and> grammar_apply (\<lambda>t. []) (\<lambda>t. True) g' [(3, Some (1 :: nat))] = Some [(3, Some 1)]"
proof -
  have "left_recursive e_acutes = Some False" "mapM copy_rule e_acutes = Some e_acutes" "init_stacks e_acutes 0 = Some [[(0, 0)], []]"
    by code_simp+
  moreover have "decode_piece [CHR 0xC3] \<lparr>pu_value = 0, pu_n_remain = 0\<rparr> = ([0], \<lparr>pu_value = 3, pu_n_remain = 1\<rparr>)" by code_simp
  ultimately show ?thesis
    by (simp add: grammar_init_def grammar_build_def grammar_accept_str_def grammar_apply_def reject_candidates_def reject_all_def apply_candidate_def)
qed

end
