(* ===== verification/Unicode.thy ===== *)
theory Unicode
  imports Prelude
begin

text \<open>
  UTF-8 and the encoding of bytes as visible characters (src/unicode.cpp), with \<open>llama_decode_text\<close>.

  Code points are \<open>nat\<close>.  Masks and shifts of bytes are \<open>mod\<close>, \<open>div\<close> and sums; \<open>std::invalid_argument\<close>
  is \<open>None\<close>.  Decoding reads the rest of the string from the offset on and returns the code point and
  by how much the offset grows; the callers stay inside the string.
\<close>

abbreviation ubyte :: "char \<Rightarrow> nat" where
  "ubyte c \<equiv> of_char c"

definition unicode_len_utf8 :: "char \<Rightarrow> nat" where
  "unicode_len_utf8 src = [1, 1, 1, 1, 1, 1, 1, 1, 1, 1, 1, 1, 2, 2, 3, 4] ! (ubyte src div 16)"

lemma ubyte_less: "ubyte c < 256"
proof -
  have "ubyte c = ubyte c mod 256" by simp
  then show ?thesis by simp
qed

lemma unicode_len_pos [simp]: "0 < unicode_len_utf8 c"
proof -
  have "ubyte c div 16 < 16" using ubyte_less [of c] by (simp add: less_mult_imp_div_less)
  moreover have "\<forall>i \<in> {..<16}. 0 < [1, 1, 1, 1, 1, 1, 1, 1, 1, 1, 1, 1, 2, 2, 3, 4 :: nat] ! i" by code_simp
  ultimately show ?thesis unfolding unicode_len_utf8_def by blast
qed

subsection \<open>Code points\<close>

text \<open>\<open>(b & 0xc0) == 0x80\<close>.\<close>

definition is_cont_byte :: "char \<Rightarrow> bool" where
  "is_cont_byte c \<longleftrightarrow> ubyte c div 64 = 2"

definition cont_at :: "string \<Rightarrow> nat \<Rightarrow> bool" where
  "cont_at s i \<longleftrightarrow> i < length s \<and> is_cont_byte (s ! i)"

definition unicode_cpt_from_utf8 :: "string \<Rightarrow> (nat \<times> nat) option" where
  "unicode_cpt_from_utf8 s = do {
     c \<leftarrow> vget s 0;
     let b = ubyte c;
     if b < 0x80 then Some (b, 1)
     else if b < 0xC0 then None
     else if b < 0xE0 then
       (if \<not> cont_at s 1 then None else Some (b mod 32 * 64 + ubyte (s ! 1) mod 64, 2))
     else if b < 0xF0 then
       (if \<not> cont_at s 1 \<or> \<not> cont_at s 2 then None
        else Some (b mod 16 * 4096 + ubyte (s ! 1) mod 64 * 64 + ubyte (s ! 2) mod 64, 3))
     else if b < 0xF8 then
       (if \<not> cont_at s 1 \<or> \<not> cont_at s 2 \<or> \<not> cont_at s 3 then None
        else Some (b mod 8 * 262144 + ubyte (s ! 1) mod 64 * 4096 + ubyte (s ! 2) mod 64 * 64 + ubyte (s ! 3) mod 64, 4))
     else None }"

definition unicode_cpt_to_utf8 :: "nat \<Rightarrow> string option" where
  "unicode_cpt_to_utf8 cpt =
     (if cpt \<le> 0x7F then Some [char_of cpt]
      else if cpt \<le> 0x7FF then Some [char_of (0xC0 + cpt div 64 mod 32), char_of (0x80 + cpt mod 64)]
      else if cpt \<le> 0xFFFF then
        Some [char_of (0xE0 + cpt div 4096 mod 16), char_of (0x80 + cpt div 64 mod 64), char_of (0x80 + cpt mod 64)]
      else if cpt \<le> 0x10FFFF then
        Some [char_of (0xF0 + cpt div 262144 mod 8), char_of (0x80 + cpt div 4096 mod 64),
          char_of (0x80 + cpt div 64 mod 64), char_of (0x80 + cpt mod 64)]
      else None)"

text \<open>What \<open>unicode_cpt_to_utf8\<close> returns where it returns.\<close>

definition enc :: "nat \<Rightarrow> string" where
  "enc cpt = the (unicode_cpt_to_utf8 cpt)"

lemma ubyte_char_of: "n < 256 \<Longrightarrow> ubyte (char_of n) = n"
  by simp

lemma enc_Some: "cpt \<le> 0x10FFFF \<Longrightarrow> unicode_cpt_to_utf8 cpt = Some (enc cpt)"
  by (simp add: enc_def unicode_cpt_to_utf8_def)

lemma enc_nonempty: "cpt \<le> 0x10FFFF \<Longrightarrow> enc cpt \<noteq> []"
  by (auto simp: enc_def unicode_cpt_to_utf8_def)

lemma lead_mod: "a < m \<Longrightarrow> (k * m + a) mod m = (a :: nat)"
  by simp

lemma lead_div: "a < m \<Longrightarrow> (k * m + a) div m = (k :: nat)"
  by simp

lemma ucont_byte: "b < 64 \<Longrightarrow> is_cont_byte (char_of (0x80 + b)) \<and> ubyte (char_of (0x80 + b)) mod 64 = b"
proof -
  assume b: "b < 64"
  then have "ubyte (char_of (0x80 + b)) = 2 * 64 + b" by (simp only: ubyte_char_of)
  moreover have "(2 * 64 + b) mod 64 = b" "(2 * 64 + b) div 64 = 2" using b lead_mod lead_div by blast+
  ultimately show ?thesis by (simp only: is_cont_byte_def)
qed

lemma digits64: "(n :: nat) = n div 4096 * 4096 + n div 64 mod 64 * 64 + n mod 64"
proof -
  have "n div 64 = n div 64 div 64 * 64 + n div 64 mod 64" by simp
  then have "n div 64 = n div 4096 * 64 + n div 64 mod 64" by (simp only: div_mult2_eq [symmetric]) simp
  then have "n div 64 * 64 = n div 4096 * 4096 + n div 64 mod 64 * 64" by linarith
  then show ?thesis using div_mult_mod_eq [of n 64] by linarith
qed

text \<open>Decoding gives back the code point that was encoded, whatever follows.\<close>

lemma cpt_roundtrip:
  assumes "cpt \<le> 0x10FFFF"
  shows "unicode_cpt_from_utf8 (enc cpt @ s) = Some (cpt, length (enc cpt))"
proof -
  consider "cpt \<le> 0x7F" | "0x7F < cpt" "cpt \<le> 0x7FF" | "0x7FF < cpt" "cpt \<le> 0xFFFF" | "0xFFFF < cpt" "cpt \<le> 0x10FFFF"
    using assms by linarith
  then show ?thesis
  proof cases
    case 1
    then show ?thesis by (simp add: enc_def unicode_cpt_to_utf8_def unicode_cpt_from_utf8_def)
  next
    case 2
    define a b where "a = cpt div 64 mod 32" and "b = cpt mod 64"
    have a: "a < 32" "b < 64" by (simp_all add: a_def b_def)
    have "cpt div 64 < 32" using 2 by (simp add: less_mult_imp_div_less)
    then have c: "cpt = a * 64 + b" by (simp add: a_def b_def)
    have e: "enc cpt = [char_of (0xC0 + a), char_of (0x80 + b)]" using 2 by (simp add: enc_def unicode_cpt_to_utf8_def a_def b_def)
    have "ubyte (char_of (0xC0 + a)) = 0xC0 + a" using a by (simp only: ubyte_char_of)
    moreover have "(0xC0 + a) mod 32 = a" using lead_mod [of a 32 6] a by simp
    ultimately show ?thesis unfolding e using a c [symmetric] ucont_byte [OF a(2)] by (simp add: unicode_cpt_from_utf8_def cont_at_def del: of_char_of)
  next
    case 3
    define a b d where "a = cpt div 4096 mod 16" and "b = cpt div 64 mod 64" and "d = cpt mod 64"
    have a: "a < 16" "b < 64" "d < 64" by (simp_all add: a_def b_def d_def)
    have "cpt div 4096 < 16" using 3 by (simp add: less_mult_imp_div_less)
    then have c: "cpt = a * 4096 + b * 64 + d" using digits64 [of cpt] by (simp add: a_def b_def d_def)
    have e: "enc cpt = [char_of (0xE0 + a), char_of (0x80 + b), char_of (0x80 + d)]"
      using 3 by (simp add: enc_def unicode_cpt_to_utf8_def a_def b_def d_def)
    have "ubyte (char_of (0xE0 + a)) = 0xE0 + a" using a by (simp only: ubyte_char_of)
    moreover have "(0xE0 + a) mod 16 = a" using lead_mod [of a 16 14] a by simp
    ultimately show ?thesis unfolding e using a c [symmetric] ucont_byte [OF a(2)] ucont_byte [OF a(3)]
      by (simp add: unicode_cpt_from_utf8_def cont_at_def del: of_char_of)
  next
    case 4
    define a b d f where "a = cpt div 262144 mod 8" and "b = cpt div 4096 mod 64" and "d = cpt div 64 mod 64" and "f = cpt mod 64"
    have a: "a < 8" "b < 64" "d < 64" "f < 64" by (simp_all add: a_def b_def d_def f_def)
    have "cpt div 262144 < 8" using 4 by (simp add: less_mult_imp_div_less)
    then have "cpt div 262144 = a" by (simp add: a_def)
    then have c: "cpt = a * 262144 + b * 4096 + d * 64 + f"
      using digits64 [of cpt] div_mult_mod_eq [of "cpt div 4096" 64] by (simp add: b_def d_def f_def div_mult2_eq [of cpt 4096 64, simplified])
    have e: "enc cpt = [char_of (0xF0 + a), char_of (0x80 + b), char_of (0x80 + d), char_of (0x80 + f)]"
      using 4 by (simp add: enc_def unicode_cpt_to_utf8_def a_def b_def d_def f_def)
    have "ubyte (char_of (0xF0 + a)) = 0xF0 + a" using a by (simp only: ubyte_char_of)
    moreover have "(0xF0 + a) mod 8 = a" using lead_mod [of a 8 30] a by simp
    ultimately show ?thesis unfolding e using a c [symmetric] ucont_byte [OF a(2)] ucont_byte [OF a(3)] ucont_byte [OF a(4)]
      by (simp add: unicode_cpt_from_utf8_def cont_at_def del: of_char_of)
  qed
qed

lemma cpt_from_length: "unicode_cpt_from_utf8 s = Some (cpt, n) \<Longrightarrow> 0 < n \<and> n \<le> length s"
  by (auto simp: unicode_cpt_from_utf8_def cont_at_def bind_eq_Some_conv vget_eq_Some Let_def Suc_le_eq split: if_splits)

lemma enc_inj: "c \<le> 0x10FFFF \<Longrightarrow> d \<le> 0x10FFFF \<Longrightarrow> enc c = enc d \<Longrightarrow> c = d"
  using cpt_roundtrip [of c "[]"] cpt_roundtrip [of d "[]"] by simp

text \<open>\<open>unicode_cpts_from_utf8\<close>: bytes that are not valid become U+FFFD.\<close>

function unicode_cpts_from_utf8 :: "string \<Rightarrow> nat list" where
  "unicode_cpts_from_utf8 s =
     (if s = [] then []
      else case unicode_cpt_from_utf8 s of
        Some r \<Rightarrow> fst r # unicode_cpts_from_utf8 (drop (snd r) s)
      | None \<Rightarrow> 0xFFFD # unicode_cpts_from_utf8 (drop 1 s))"
  by pat_completeness auto
termination
proof (relation "measure length", simp)
  fix s :: string and r assume "s \<noteq> []" "unicode_cpt_from_utf8 s = Some r"
  then show "(drop (snd r) s, s) \<in> measure length" using cpt_from_length [of s "fst r" "snd r"] by simp
qed simp

declare unicode_cpts_from_utf8.simps [simp del]

lemma cpts_from_enc: "c \<le> 0x10FFFF \<Longrightarrow> unicode_cpts_from_utf8 (enc c @ s) = c # unicode_cpts_from_utf8 s"
  using cpt_roundtrip [of c s] enc_nonempty [of c] by (subst unicode_cpts_from_utf8.simps) simp

lemma cpts_from_encs: "\<forall>c \<in> set cs. c \<le> 0x10FFFF \<Longrightarrow> unicode_cpts_from_utf8 (concat (map enc cs)) = cs"
  by (induction cs) (simp_all add: cpts_from_enc, simp add: unicode_cpts_from_utf8.simps)

subsection \<open>Bytes as visible characters\<close>

definition visible_bytes :: "nat list" where
  "visible_bytes = [0x21..<0x7F] @ [0xA1..<0xAD] @ [0xAE..<0x100]"

text \<open>The two maps; \<open>n\<close> counts the bytes that got a code point above 255.\<close>

definition unicode_byte_to_utf8_map :: "nat \<Rightarrow> string option" where
  "unicode_byte_to_utf8_map =
     (let m = fold (\<lambda>ch m. m(ch \<mapsto> enc ch)) visible_bytes (\<lambda>_. None) in
      fst (fold (\<lambda>ch (m, n). if m ch = None then (m(ch \<mapsto> enc (256 + n)), Suc n) else (m, n)) [0..<256] (m, 0)))"

definition unicode_utf8_to_byte_map :: "string \<Rightarrow> nat option" where
  "unicode_utf8_to_byte_map =
     (let m = fold (\<lambda>ch m. m(enc ch \<mapsto> ch)) visible_bytes (\<lambda>_. None) in
      fst (fold (\<lambda>ch (m, n). if m (enc ch) = None then (m(enc (256 + n) \<mapsto> ch), Suc n) else (m, n)) [0..<256] (m, 0)))"

definition unicode_byte_to_utf8 :: "char \<Rightarrow> string option" where
  "unicode_byte_to_utf8 c = unicode_byte_to_utf8_map (ubyte c)"

definition unicode_utf8_to_byte :: "string \<Rightarrow> char option" where
  "unicode_utf8_to_byte s = map_option char_of (unicode_utf8_to_byte_map s)"

text \<open>The code point of a byte.\<close>

definition byte_cpt :: "nat \<Rightarrow> nat" where
  "byte_cpt b = (if b \<in> set visible_bytes then b else 256 + length (filter (\<lambda>i. i \<notin> set visible_bytes) [0..<b]))"

subsection \<open>The maps are inverse to each other\<close>

definition n_hidden :: "nat \<Rightarrow> nat" where
  "n_hidden b = length (filter (\<lambda>i. i \<notin> set visible_bytes) [0..<b])"

lemma byte_cpt_hidden: "byte_cpt b = (if b \<in> set visible_bytes then b else 256 + n_hidden b)"
  by (simp add: byte_cpt_def n_hidden_def)

lemma n_hidden_Suc: "n_hidden (Suc b) = n_hidden b + (if b \<in> set visible_bytes then 0 else 1)"
  by (simp add: n_hidden_def)

lemma n_hidden_le: "n_hidden b \<le> b"
  by (induction b) (simp_all add: n_hidden_Suc, simp add: n_hidden_def)

lemma n_hidden_mono: "a \<le> b \<Longrightarrow> n_hidden a \<le> n_hidden b"
  by (induction rule: dec_induct) (simp_all add: n_hidden_Suc)

lemma n_hidden_less: "a < b \<Longrightarrow> a \<notin> set visible_bytes \<Longrightarrow> n_hidden a < n_hidden b"
  using n_hidden_mono [of "Suc a" b] by (simp add: n_hidden_Suc)

lemma visible_less: "b \<in> set visible_bytes \<Longrightarrow> b < 256"
  by (auto simp: visible_bytes_def)

lemma byte_cpt_le: "b < 256 \<Longrightarrow> byte_cpt b \<le> 0x10FFFF"
  using n_hidden_le [of b] by (simp add: byte_cpt_hidden)

lemma fold_upd_id: "fold (\<lambda>ch m. m(ch \<mapsto> g ch)) xs m = (\<lambda>k. if k \<in> set xs then Some (g k) else m k)"
  by (induction xs arbitrary: m) (auto simp: fun_eq_iff)

lemma byte_map_fold:
  assumes "n \<le> 256"
  shows "fold (\<lambda>ch (m, n). if m ch = None then (m(ch \<mapsto> enc (256 + n)), Suc n) else (m, n)) [0..<n]
      (\<lambda>k. if k \<in> set visible_bytes then Some (enc k) else None, 0) =
    (\<lambda>k. if k \<in> set visible_bytes then Some (enc k) else if k < n then Some (enc (256 + n_hidden k)) else None, n_hidden n)"
  using assms
proof (induction n)
  case 0
  then show ?case by (auto simp: n_hidden_def fun_eq_iff)
next
  case (Suc n)
  show ?case
    using Suc by (simp add: n_hidden_Suc) (auto simp: fun_eq_iff less_Suc_eq)
qed

lemma byte_to_utf8_map: "b < 256 \<Longrightarrow> unicode_byte_to_utf8_map b = Some (enc (byte_cpt b))"
  using byte_map_fold [of 256] by (simp add: unicode_byte_to_utf8_map_def fold_upd_id byte_cpt_hidden)

lemma fold_upd_enc:
  assumes "\<forall>x \<in> set xs. x < 256"
  shows "x \<le> 0x10FFFF \<Longrightarrow> fold (\<lambda>ch m. m(enc ch \<mapsto> ch)) xs m (enc x) = (if x \<in> set xs then Some x else m (enc x))"
  using assms
proof (induction xs arbitrary: m)
  case (Cons a xs)
  then show ?case using enc_inj [of x a] by auto
qed simp

lemma utf8_map_fold:
  assumes "n \<le> 256" and m0: "\<And>x. x \<le> 0x10FFFF \<Longrightarrow> m0 (enc x) = (if x \<in> set visible_bytes then Some x else None)"
  shows "\<exists>m. fold (\<lambda>ch (m, n). if m (enc ch) = None then (m(enc (256 + n) \<mapsto> ch), Suc n) else (m, n)) [0..<n] (m0, 0) = (m, n_hidden n) \<and>
    (\<forall>b. b \<in> set visible_bytes \<longrightarrow> m (enc b) = Some b) \<and> (\<forall>b < n. b \<notin> set visible_bytes \<longrightarrow> m (enc (256 + n_hidden b)) = Some b) \<and>
    (\<forall>b < 256. b \<notin> set visible_bytes \<longrightarrow> m (enc b) = None)"
  using assms(1)
proof (induction n)
  case 0
  then show ?case using m0 visible_less by (intro exI [of _ m0]) (fastforce simp: n_hidden_def)
next
  case (Suc n)
  then obtain m where f: "fold (\<lambda>ch (m, n). if m (enc ch) = None then (m(enc (256 + n) \<mapsto> ch), Suc n) else (m, n)) [0..<n] (m0, 0) = (m, n_hidden n)"
    and v: "\<And>b. b \<in> set visible_bytes \<Longrightarrow> m (enc b) = Some b"
    and h: "\<And>b. b < n \<Longrightarrow> b \<notin> set visible_bytes \<Longrightarrow> m (enc (256 + n_hidden b)) = Some b"
    and u: "\<And>b. b < 256 \<Longrightarrow> b \<notin> set visible_bytes \<Longrightarrow> m (enc b) = None" by auto
  have small: "enc b \<noteq> enc (256 + n_hidden n)" if "b < 256" for b
    using enc_inj [of b "256 + n_hidden n"] n_hidden_le [of n] that Suc(2) by auto
  have other: "enc (256 + n_hidden b) \<noteq> enc (256 + n_hidden n)" if "b < n" "b \<notin> set visible_bytes" for b
    using enc_inj [of "256 + n_hidden b" "256 + n_hidden n"] n_hidden_less [OF that] n_hidden_le [of n] Suc(2) by auto
  show ?case
  proof (cases "n \<in> set visible_bytes")
    case True
    then show ?thesis using f v h u by (intro exI [of _ m]) (auto simp: n_hidden_Suc less_Suc_eq)
  next
    case False
    then show ?thesis
      using f v h u Suc(2) small other visible_less
      by (intro exI [of _ "m(enc (256 + n_hidden n) \<mapsto> n)"]) (auto simp: n_hidden_Suc less_Suc_eq)
  qed
qed

lemma utf8_to_byte_map: "b < 256 \<Longrightarrow> unicode_utf8_to_byte_map (enc (byte_cpt b)) = Some b"
proof -
  assume b: "b < 256"
  let ?m0 = "fold (\<lambda>ch m. m(enc ch \<mapsto> ch)) visible_bytes (\<lambda>_. None)"
  have "?m0 (enc x) = (if x \<in> set visible_bytes then Some x else None)" if "x \<le> 0x10FFFF" for x
    using fold_upd_enc [of visible_bytes x "\<lambda>_. None"] visible_less that by auto
  then show ?thesis
    using utf8_map_fold [of 256 ?m0] b by (auto simp: unicode_utf8_to_byte_map_def byte_cpt_hidden Let_def)
qed

subsection \<open>Encoding the bytes of a word, and decoding a token\<close>

text \<open>One word of \<open>unicode_byte_encoding_process\<close>.\<close>

definition unicode_byte_encoding :: "string \<Rightarrow> string option" where
  "unicode_byte_encoding word = do {
     text_utf \<leftarrow> mapM unicode_cpt_to_utf8 (unicode_cpts_from_utf8 word);
     encoded \<leftarrow> mapM unicode_byte_to_utf8 (concat text_utf);
     Some (concat encoded) }"

text \<open>
  The end of \<open>unicode_regex_split\<close>: the text is cut into words of the sizes \<open>bpe_offsets\<close>, counted in code
  points, and the bytes of each word are encoded.  What the regular expressions compute, the sizes, is a
  parameter \<open>split\<close>, a function of the code points.
\<close>

fun bpe_words_from :: "nat list \<Rightarrow> nat \<Rightarrow> nat list \<Rightarrow> string list option" where
  "bpe_words_from cpts start [] = Some []"
| "bpe_words_from cpts start (offset # bpe_offsets) = do {
     word \<leftarrow> foldM (\<lambda>i word. do {
       c \<leftarrow> vget cpts i;
       utf8 \<leftarrow> unicode_cpt_to_utf8 c;
       Some (word @ utf8) }) [start..<start + offset] [];
     bpe_words \<leftarrow> bpe_words_from cpts (start + offset) bpe_offsets;
     Some (word # bpe_words) }"

definition unicode_regex_split :: "(nat list \<Rightarrow> nat list) \<Rightarrow> string \<Rightarrow> string list option" where
  "unicode_regex_split split text = do {
     let cpts = unicode_cpts_from_utf8 text;
     bpe_words \<leftarrow> bpe_words_from cpts 0 (split cpts);
     mapM unicode_byte_encoding bpe_words }"

definition hex_lower :: "char \<Rightarrow> string" where
  "hex_lower c = [''0123456789abcdef'' ! (ubyte c div 16), ''0123456789abcdef'' ! (ubyte c mod 16)]"

definition llama_decode_text :: "string \<Rightarrow> string option" where
  "llama_decode_text text = do {
     decoded \<leftarrow> mapM (\<lambda>cpt. do {
       utf8 \<leftarrow> unicode_cpt_to_utf8 cpt;
       Some (case unicode_utf8_to_byte utf8 of
           Some b \<Rightarrow> [b]
         | None \<Rightarrow> ''[UNK_BYTE_0x'' @ concat (map hex_lower utf8) @ text @ '']'') }) (unicode_cpts_from_utf8 text);
     Some (concat decoded) }"

lemma byte_to_utf8_enc: "unicode_byte_to_utf8 c = Some (enc (byte_cpt (ubyte c)))"
  by (simp add: unicode_byte_to_utf8_def byte_to_utf8_map ubyte_less)

lemma concat_singles: "concat (map (\<lambda>x. [x]) xs) = xs"
  by (induction xs) auto

lemma decode_encoded: "llama_decode_text (concat (map (\<lambda>c. enc (byte_cpt (ubyte c))) s)) = Some s"
proof -
  let ?cs = "map (\<lambda>c. byte_cpt (ubyte c)) s" and ?text = "concat (map (\<lambda>c. enc (byte_cpt (ubyte c))) s)"
  have le: "byte_cpt (ubyte c) \<le> 0x10FFFF" for c using byte_cpt_le ubyte_less by blast
  have "unicode_cpts_from_utf8 (concat (map enc ?cs)) = ?cs" by (rule cpts_from_encs) (use le in auto)
  then have cpts: "unicode_cpts_from_utf8 ?text = ?cs" by (simp add: comp_def)
  let ?f = "\<lambda>cpt. do {
       utf8 \<leftarrow> unicode_cpt_to_utf8 cpt;
       Some (case unicode_utf8_to_byte utf8 of
           Some b \<Rightarrow> [b]
         | None \<Rightarrow> ''[UNK_BYTE_0x'' @ concat (map hex_lower utf8) @ ?text @ '']'') }"
  have one: "?f (byte_cpt (ubyte c)) = Some [c]" for c
    using enc_Some [OF le] utf8_to_byte_map [OF ubyte_less] by (simp add: unicode_utf8_to_byte_def)
  have "mapM ?f ?cs = Some (map (\<lambda>c. [c]) s)"
    using one by (auto simp only: mapM_Some_iff length_map nth_map)
  then show ?thesis by (simp only: llama_decode_text_def cpts) (simp add: concat_singles)
qed

text \<open>Valid UTF-8 survives the encoding of its bytes and the decoding of what it is cut into.\<close>

lemma encoding_valid:
  assumes "\<forall>c \<in> set cs. c \<le> 0x10FFFF"
  shows "unicode_byte_encoding (concat (map enc cs)) = Some (concat (map (\<lambda>c. enc (byte_cpt (ubyte c))) (concat (map enc cs))))"
proof -
  have "mapM unicode_cpt_to_utf8 cs = Some (map enc cs)" by (rule mapM_ok) (use assms enc_Some in auto)
  moreover have "mapM unicode_byte_to_utf8 (concat (map enc cs)) = Some (map (\<lambda>c. enc (byte_cpt (ubyte c))) (concat (map enc cs)))"
    by (rule mapM_ok) (rule byte_to_utf8_enc)
  ultimately show ?thesis by (simp add: unicode_byte_encoding_def cpts_from_encs [OF assms])
qed

end
