(* ===== verification/TokMerge.thy ===== *)
theory TokMerge
  imports Unicode
begin

text \<open>
  The tokenizers that merge pairs of symbols (src/llama-vocab.cpp): \<open>llm_tokenizer_spm_session\<close> and
  \<open>llm_tokenizer_bpe_session\<close>, with the tables of the vocabulary they read.
\<close>

subsection \<open>The vocabulary\<close>

text \<open>
  The tables of \<open>llama_vocab::impl\<close> that the two sessions read.  Strings are lists of bytes, a \<open>char\<close> each.
  The scores of tokens are of a type of their own, \<open>'s\<close>, with a linear order where they are compared, so
  \<open>NaN\<close> is left out.  \<open>unordered_map\<close>s are functions into \<open>option\<close>; \<open>at\<close> on a missing key throws, which is
  \<open>None\<close>, as is a failed assertion.
\<close>

datatype token_attr = ATTR_UNKNOWN | ATTR_UNUSED | ATTR_NORMAL | ATTR_CONTROL | ATTR_USER_DEFINED
  | ATTR_BYTE | ATTR_NORMALIZED | ATTR_LSTRIP | ATTR_RSTRIP | ATTR_SINGLE_WORD

datatype vocab_type = VOCAB_NONE | VOCAB_SPM | VOCAB_BPE | VOCAB_WPM | VOCAB_UGM | VOCAB_RWKV | VOCAB_PLAMO2

text \<open>The bits of \<open>llama_token_attr\<close> are a set.\<close>

record 's vocab_token =
  td_text :: string
  td_score :: 's
  td_attr :: "token_attr set"

record 's vocab =
  vc_type :: vocab_type
  vc_ignore_merges :: bool
  vc_token_to_id :: "string \<Rightarrow> llama_token option"
  vc_id_to_token :: "'s vocab_token list"
  vc_bpe_ranks :: "string \<times> string \<Rightarrow> int option"

abbreviation (input) LLAMA_TOKEN_NULL :: llama_token where
  "LLAMA_TOKEN_NULL \<equiv> - 1"

definition n_tokens :: "('s, 'm) vocab_scheme \<Rightarrow> nat" where
  "n_tokens v = length (vc_id_to_token v)"

text \<open>The two tables are inverse to each other, which loading asserts.\<close>

definition vocab_wf :: "('s, 'm) vocab_scheme \<Rightarrow> bool" where
  "vocab_wf v \<longleftrightarrow> vc_type v \<noteq> VOCAB_NONE \<and> n_tokens v < 2 ^ 31 \<and>
     (\<forall>s t. vc_token_to_id v s = Some t \<longleftrightarrow> 0 \<le> t \<and> nat t < n_tokens v \<and> td_text (vc_id_to_token v ! nat t) = s)"

text \<open>An access to a vector with an \<open>int\<close> index: a negative one is a huge \<open>size_t\<close>.\<close>

definition iget :: "'a list \<Rightarrow> int \<Rightarrow> 'a option" where
  "iget xs i = (if 0 \<le> i then vget xs (nat i) else None)"

definition text_to_token :: "('s, 'm) vocab_scheme \<Rightarrow> string \<Rightarrow> llama_token option" where
  "text_to_token v text = do {
     guard (vc_type v \<noteq> VOCAB_NONE);
     Some (case vc_token_to_id v text of Some i \<Rightarrow> i | None \<Rightarrow> LLAMA_TOKEN_NULL) }"

definition get_token_data :: "('s, 'm) vocab_scheme \<Rightarrow> llama_token \<Rightarrow> 's vocab_token option" where
  "get_token_data v i = do { guard (vc_type v \<noteq> VOCAB_NONE); iget (vc_id_to_token v) i }"

definition hex_upper :: "nat \<Rightarrow> char" where
  "hex_upper d = ''0123456789ABCDEF'' ! d"

definition byte_text :: "char \<Rightarrow> string" where
  "byte_text ch = (let b = of_char ch :: nat in [CHR ''<'', CHR ''0'', CHR ''x'', hex_upper (b div 16), hex_upper (b mod 16), CHR ''>''])"

text \<open>\<open>find_bpe_rank\<close>, with its assertions.\<close>

definition find_bpe_rank :: "('s, 'm) vocab_scheme \<Rightarrow> string \<Rightarrow> string \<Rightarrow> int option" where
  "find_bpe_rank v left right = do {
     guard (CHR '' '' \<notin> set left \<and> CHR 0x0A \<notin> set left \<and> CHR '' '' \<notin> set right \<and> CHR 0x0A \<notin> set right);
     Some (case vc_bpe_ranks v (left, right) of Some r \<Rightarrow> r | None \<Rightarrow> - 1) }"

subsection \<open>Symbols\<close>

text \<open>
  A symbol points into the text it is part of, \<open>sy_base\<close>, at \<open>sy_off\<close>; reading past its end is
  \<open>None\<close>.  \<open>prev\<close> and \<open>next\<close> are indices into the vector of symbols, \<open>- 1\<close> at the ends; a symbol
  that was merged into its left neighbour has \<open>n = 0\<close> and stays in the vector.
  \<open>std::priority_queue\<close> is a list whose first greatest element is the top.
\<close>

record llm_symbol =
  sy_prev :: int
  sy_next :: int
  sy_base :: string
  sy_off :: nat
  sy_n :: nat

definition cstr :: "string \<Rightarrow> nat \<Rightarrow> nat \<Rightarrow> string option" where
  "cstr base off n = (if off + n \<le> length base then Some (take n (drop off base)) else None)"

definition sym_str :: "llm_symbol \<Rightarrow> string option" where
  "sym_str s = cstr (sy_base s) (sy_off s) (sy_n s)"

subsection \<open>What the two sessions share\<close>

text \<open>Split a string into UTF-8 characters.\<close>

function split_symbols :: "string \<Rightarrow> nat \<Rightarrow> int \<Rightarrow> llm_symbol list" where
  "split_symbols text offs index =
     (if offs < length text then
        let n = min (unicode_len_utf8 (text ! offs)) (length text - offs) in
        \<lparr>sy_prev = index - 1, sy_next = (if offs + n = length text then - 1 else index + 1),
         sy_base = text, sy_off = offs, sy_n = n\<rparr> # split_symbols text (offs + n) (index + 1)
      else [])"
  by pat_completeness auto
termination
proof (relation "measure (\<lambda>(text, offs, index). length text - offs)", simp)
  fix t :: string and offs x :: nat and i :: int
  assume "offs < length t" and x: "x = min (unicode_len_utf8 (t ! offs)) (length t - offs)"
  moreover have "0 < unicode_len_utf8 (t ! offs)" by simp
  ultimately have "0 < x" "x \<le> length t - offs" by auto
  then show "((t, offs + x, i + 1), t, offs, i) \<in> measure (\<lambda>(text, offs, index). length text - offs)"
    by simp
qed

declare split_symbols.simps [simp del]

text \<open>Merge the right symbol into the left one and take it out of the chain.\<close>

definition merge_symbols :: "int \<Rightarrow> int \<Rightarrow> llm_symbol list \<Rightarrow> llm_symbol list option" where
  "merge_symbols left right syms = do {
     l \<leftarrow> iget syms left;
     r \<leftarrow> iget syms right;
     let syms = syms[nat left := l\<lparr>sy_n := sy_n l + sy_n r, sy_next := sy_next r\<rparr>];
     let syms = syms[nat right := (syms ! nat right)\<lparr>sy_n := 0\<rparr>];
     if 0 \<le> sy_next r then do {
       x \<leftarrow> iget syms (sy_next r);
       Some (syms[nat (sy_next r) := x\<lparr>sy_prev := left\<rparr>]) }
     else Some syms }"

fun pq_top :: "('b \<Rightarrow> 'b \<Rightarrow> bool) \<Rightarrow> 'b \<Rightarrow> 'b list \<Rightarrow> 'b" where
  "pq_top lt x [] = x"
| "pq_top lt x (y # ys) = (let z = pq_top lt y ys in if lt x z then z else x)"

definition pq_pop :: "('b \<Rightarrow> 'b \<Rightarrow> bool) \<Rightarrow> 'b list \<Rightarrow> ('b \<times> 'b list) option" where
  "pq_pop lt q = (case q of [] \<Rightarrow> None | x # xs \<Rightarrow> let y = pq_top lt x xs in Some (y, remove1 y q))"

lemma pq_top_in: "pq_top lt x xs \<in> set (x # xs)"
  by (induction xs arbitrary: x) (auto simp: Let_def)

lemma pq_pop_length: "pq_pop lt q = Some (y, q') \<Longrightarrow> y \<in> set q \<and> length q' < length q"
proof (cases q)
  case (Cons x xs)
  assume "pq_pop lt q = Some (y, q')"
  then have "y = pq_top lt x xs" "q' = remove1 y (x # xs)" using Cons by (auto simp: pq_pop_def Let_def)
  moreover have "pq_top lt x xs \<in> set (x # xs)" by (rule pq_top_in)
  ultimately show ?thesis using Cons length_remove1 [of y "x # xs"] by simp
qed (simp add: pq_pop_def)

lemma pq_pop_ex: "q \<noteq> [] \<Longrightarrow> \<exists>b q'. pq_pop lt q = Some (b, q')"
  by (cases q) (simp_all add: pq_pop_def Let_def)

text \<open>Symbols that are not merged away.\<close>

definition n_live :: "llm_symbol list \<Rightarrow> nat" where
  "n_live syms = length (filter (\<lambda>s. 0 < sy_n s) syms)"

lemma n_live_update:
  "i < length syms \<Longrightarrow> n_live (syms[i := s]) + (if 0 < sy_n (syms ! i) then 1 else 0) = n_live syms + (if 0 < sy_n s then 1 else 0)"
proof (induction syms arbitrary: i)
  case (Cons a syms)
  show ?case
  proof (cases i)
    case (Suc j)
    then show ?thesis using Cons.IH [of j] Cons.prems by (simp add: n_live_def)
  qed (simp add: n_live_def)
qed simp

lemma merge_symbols_live:
  assumes m: "merge_symbols left right syms = Some syms'"
    and l: "iget syms left = Some l" "sy_n l \<noteq> 0" and r: "iget syms right = Some r" "sy_n r \<noteq> 0"
  shows "n_live syms' < n_live syms"
proof -
  have ll: "nat left < length syms" "syms ! nat left = l" and rr: "nat right < length syms" "syms ! nat right = r"
    using l r by (auto simp: iget_def vget_eq_Some split: if_splits)
  let ?s1 = "syms[nat left := l\<lparr>sy_n := sy_n l + sy_n r, sy_next := sy_next r\<rparr>]"
  let ?s2 = "?s1[nat right := (?s1 ! nat right)\<lparr>sy_n := 0\<rparr>]"
  have s1: "n_live ?s1 = n_live syms" using n_live_update [OF ll(1), of "l\<lparr>sy_n := sy_n l + sy_n r, sy_next := sy_next r\<rparr>"] ll l by simp
  have "0 < sy_n (?s1 ! nat right)" using rr r l by (cases "nat right = nat left") auto
  then have s2: "n_live ?s2 < n_live syms"
    using n_live_update [of "nat right" ?s1 "(?s1 ! nat right)\<lparr>sy_n := 0\<rparr>"] rr s1 by simp
  show ?thesis
  proof (cases "0 \<le> sy_next r")
    case True
    then obtain x where x: "iget ?s2 (sy_next r) = Some x" and s': "syms' = ?s2[nat (sy_next r) := x\<lparr>sy_prev := left\<rparr>]"
      using m l r by (auto simp: merge_symbols_def bind_eq_Some_conv Let_def)
    have xl: "nat (sy_next r) < length ?s2" "?s2 ! nat (sy_next r) = x" using x True by (auto simp: iget_def vget_eq_Some)
    have "n_live syms' = n_live ?s2" unfolding s' using n_live_update [OF xl(1), of "x\<lparr>sy_prev := left\<rparr>"] xl by simp
    then show ?thesis using s2 by simp
  next
    case False
    then have "syms' = ?s2" using m l r by (simp add: merge_symbols_def Let_def)
    then show ?thesis using s2 by simp
  qed
qed

subsection \<open>\<open>byte_to_token\<close>\<close>

definition byte_to_token :: "('s, 'm) vocab_scheme \<Rightarrow> char \<Rightarrow> llama_token option" where
  "byte_to_token v ch = (case vc_type v of
     VOCAB_SPM \<Rightarrow> (case vc_token_to_id v (byte_text ch) of
         Some token \<Rightarrow> Some token
       | None \<Rightarrow> vc_token_to_id v (if ch = CHR 0x00 then [] else [ch]))
   | VOCAB_UGM \<Rightarrow> (case vc_token_to_id v (byte_text ch) of
         Some token \<Rightarrow> Some token
       | None \<Rightarrow> vc_token_to_id v (if ch = CHR 0x00 then [] else [ch]))
   | VOCAB_WPM \<Rightarrow> Option.bind (unicode_byte_to_utf8 ch) (vc_token_to_id v)
   | VOCAB_BPE \<Rightarrow> Option.bind (unicode_byte_to_utf8 ch) (vc_token_to_id v)
   | VOCAB_PLAMO2 \<Rightarrow> vc_token_to_id v (byte_text ch)
   | _ \<Rightarrow> None)"

subsection \<open>\<open>llm_tokenizer_spm_session\<close>\<close>

record 's bigram_spm =
  bs_left :: int
  bs_right :: int
  bs_score :: 's
  bs_size :: nat

record 's spm_session =
  sp_symbols :: "llm_symbol list"
  sp_queue :: "'s bigram_spm list"
  sp_rev_merge :: "string \<Rightarrow> (int \<times> int) option"

definition spm_less :: "('s :: linorder) bigram_spm \<Rightarrow> 's bigram_spm \<Rightarrow> bool" where
  "spm_less l r \<longleftrightarrow> bs_score l < bs_score r \<or> (bs_score l = bs_score r \<and> bs_left l > bs_left r)"

definition try_add_bigram :: "('s :: linorder, 'm) vocab_scheme \<Rightarrow> int \<Rightarrow> int \<Rightarrow> 's spm_session \<Rightarrow> 's spm_session option" where
  "try_add_bigram v left right s =
     (if left = - 1 \<or> right = - 1 then Some s
      else do {
        l \<leftarrow> iget (sp_symbols s) left;
        r \<leftarrow> iget (sp_symbols s) right;
        text \<leftarrow> cstr (sy_base l) (sy_off l) (sy_n l + sy_n r);
        token \<leftarrow> text_to_token v text;
        if token = LLAMA_TOKEN_NULL then Some s
        else if n_tokens v \<le> u32 token then Some s
        else do {
          tok_data \<leftarrow> get_token_data v token;
          Some (s\<lparr>sp_queue := sp_queue s @ [\<lparr>bs_left = left, bs_right = right, bs_score = td_score tok_data, bs_size = length text\<rparr>],
                  sp_rev_merge := (sp_rev_merge s)(text \<mapsto> (left, right))\<rparr>) } })"

text \<open>One round of the loop over the work queue.\<close>

definition spm_step :: "('s :: linorder, 'm) vocab_scheme \<Rightarrow> 's spm_session \<Rightarrow> 's spm_session option" where
  "spm_step v s = do {
     (bigram, q) \<leftarrow> pq_pop spm_less (sp_queue s);
     let s = s\<lparr>sp_queue := q\<rparr>;
     l \<leftarrow> iget (sp_symbols s) (bs_left bigram);
     r \<leftarrow> iget (sp_symbols s) (bs_right bigram);
     if sy_n l = 0 \<or> sy_n r = 0 \<or> sy_n l + sy_n r \<noteq> bs_size bigram then Some s
     else do {
       syms \<leftarrow> merge_symbols (bs_left bigram) (bs_right bigram) (sp_symbols s);
       let s = s\<lparr>sp_symbols := syms\<rparr>;
       l \<leftarrow> iget (sp_symbols s) (bs_left bigram);
       s \<leftarrow> try_add_bigram v (sy_prev l) (bs_left bigram) s;
       try_add_bigram v (bs_left bigram) (sy_next l) s } }"

lemma try_add_bigram_symbols: "try_add_bigram v left right s = Some s' \<Longrightarrow> sp_symbols s' = sp_symbols s"
  by (auto simp: try_add_bigram_def bind_eq_Some_conv split: if_splits)

lemma spm_step_less:
  assumes "spm_step v s = Some s'"
  shows "n_live (sp_symbols s') < n_live (sp_symbols s) \<or>
    (sp_symbols s' = sp_symbols s \<and> length (sp_queue s') < length (sp_queue s))"
proof -
  obtain b q l r where p: "pq_pop spm_less (sp_queue s) = Some (b, q)"
    and l: "iget (sp_symbols s) (bs_left b) = Some l" and r: "iget (sp_symbols s) (bs_right b) = Some r"
    using assms by (auto simp: spm_step_def bind_eq_Some_conv Let_def)
  show ?thesis
  proof (cases "sy_n l = 0 \<or> sy_n r = 0 \<or> sy_n l + sy_n r \<noteq> bs_size b")
    case True
    then show ?thesis using assms p l r pq_pop_length [OF p] by (auto simp: spm_step_def)
  next
    case False
    then obtain syms where "merge_symbols (bs_left b) (bs_right b) (sp_symbols s) = Some syms" "sp_symbols s' = syms"
      using assms p l r by (auto simp: spm_step_def bind_eq_Some_conv Let_def dest!: try_add_bigram_symbols)
    then show ?thesis using merge_symbols_live [OF _ l _ r] False by auto
  qed
qed

function spm_loop :: "('s :: linorder, 'm) vocab_scheme \<Rightarrow> 's spm_session \<Rightarrow> 's spm_session option" where
  "spm_loop v s = (if sp_queue s = [] then Some s else case spm_step v s of None \<Rightarrow> None | Some s' \<Rightarrow> spm_loop v s')"
  by pat_completeness auto
termination
  by (relation "measures [\<lambda>(v, s). n_live (sp_symbols s), \<lambda>(v, s). length (sp_queue s)]") (use spm_step_less in fastforce)+

declare spm_loop.simps [simp del]

partial_function (option) resegment ::
    "('s :: linorder, 'm) vocab_scheme \<Rightarrow> 's spm_session \<Rightarrow> llm_symbol \<Rightarrow> llama_token list \<Rightarrow> llama_token list option" where
  "resegment v s symbol out = do {
     text \<leftarrow> sym_str symbol;
     token \<leftarrow> text_to_token v text;
     if token \<noteq> LLAMA_TOKEN_NULL then Some (out @ [token])
     else case sp_rev_merge s text of
       None \<Rightarrow> foldM (\<lambda>c out. do { i \<leftarrow> byte_to_token v c; Some (out @ [i]) }) text out
     | Some p \<Rightarrow> do {
         x \<leftarrow> iget (sp_symbols s) (fst p);
         out \<leftarrow> resegment v s x out;
         y \<leftarrow> iget (sp_symbols s) (snd p);
         resegment v s y out } }"

text \<open>The walk along the chain that produces the tokens.\<close>

partial_function (option) spm_emit ::
    "('s :: linorder, 'm) vocab_scheme \<Rightarrow> 's spm_session \<Rightarrow> int \<Rightarrow> llama_token list \<Rightarrow> llama_token list option" where
  "spm_emit v s i out =
     (if i = - 1 then Some out
      else do {
        symbol \<leftarrow> iget (sp_symbols s) i;
        out \<leftarrow> resegment v s symbol out;
        spm_emit v s (sy_next symbol) out })"

definition spm_start :: "('s :: linorder, 'm) vocab_scheme \<Rightarrow> string \<Rightarrow> 's spm_session option" where
  "spm_start v text =
     (let s = \<lparr>sp_symbols = split_symbols text 0 0, sp_queue = [], sp_rev_merge = (\<lambda>_. None)\<rparr> in
      foldM (\<lambda>i. try_add_bigram v (int i - 1) (int i)) [1..<length (sp_symbols s)] s)"

definition spm_tokenize :: "('s :: linorder, 'm) vocab_scheme \<Rightarrow> string \<Rightarrow> llama_token list \<Rightarrow> llama_token list option" where
  "spm_tokenize v text out = do {
     s \<leftarrow> spm_start v text;
     s \<leftarrow> spm_loop v s;
     spm_emit v s 0 out }"

declare resegment.simps [code] spm_emit.simps [code]

subsection \<open>\<open>llm_tokenizer_bpe_session\<close>\<close>

record bigram_bpe =
  bb_left :: int
  bb_right :: int
  bb_text :: string
  bb_rank :: int
  bb_size :: nat

definition bpe_less :: "bigram_bpe \<Rightarrow> bigram_bpe \<Rightarrow> bool" where
  "bpe_less l r \<longleftrightarrow> bb_rank l > bb_rank r \<or> (bb_rank l = bb_rank r \<and> bb_left l > bb_left r)"

definition add_new_bigram :: "('s, 'm) vocab_scheme \<Rightarrow> llm_symbol list \<Rightarrow> int \<Rightarrow> int \<Rightarrow> bigram_bpe list \<Rightarrow> bigram_bpe list option" where
  "add_new_bigram v syms left right q =
     (if left = - 1 \<or> right = - 1 then Some q
      else do {
        l \<leftarrow> iget syms left;
        left_token \<leftarrow> sym_str l;
        r \<leftarrow> iget syms right;
        right_token \<leftarrow> sym_str r;
        rank_found \<leftarrow> find_bpe_rank v left_token right_token;
        if rank_found < 0 then Some q
        else Some (q @ [\<lparr>bb_left = left, bb_right = right, bb_text = left_token @ right_token, bb_rank = rank_found,
          bb_size = length left_token + length right_token\<rparr>]) })"

definition bpe_step :: "('s, 'm) vocab_scheme \<Rightarrow> llm_symbol list \<times> bigram_bpe list \<Rightarrow> (llm_symbol list \<times> bigram_bpe list) option" where
  "bpe_step v s = (case s of (syms, q) \<Rightarrow> do {
     (bigram, q) \<leftarrow> pq_pop bpe_less q;
     l \<leftarrow> iget syms (bb_left bigram);
     r \<leftarrow> iget syms (bb_right bigram);
     if sy_n l = 0 \<or> sy_n r = 0 then Some (syms, q)
     else do {
       left_token \<leftarrow> sym_str l;
       right_token \<leftarrow> sym_str r;
       if left_token @ right_token \<noteq> bb_text bigram then Some (syms, q)
       else do {
         syms \<leftarrow> merge_symbols (bb_left bigram) (bb_right bigram) syms;
         l \<leftarrow> iget syms (bb_left bigram);
         q \<leftarrow> add_new_bigram v syms (sy_prev l) (bb_left bigram) q;
         q \<leftarrow> add_new_bigram v syms (bb_left bigram) (sy_next l) q;
         Some (syms, q) } } })"

lemma bpe_step_less:
  assumes "bpe_step v (syms, q) = Some (syms', q')"
  shows "n_live syms' < n_live syms \<or> (syms' = syms \<and> length q' < length q)"
proof -
  obtain b q1 l r where p: "pq_pop bpe_less q = Some (b, q1)"
    and l: "iget syms (bb_left b) = Some l" and r: "iget syms (bb_right b) = Some r"
    using assms by (auto simp: bpe_step_def bind_eq_Some_conv)
  have "(syms' = syms \<and> q' = q1) \<or> (sy_n l \<noteq> 0 \<and> sy_n r \<noteq> 0 \<and> merge_symbols (bb_left b) (bb_right b) syms = Some syms')"
    using assms p l r by (auto simp: bpe_step_def bind_eq_Some_conv split: if_splits)
  then show ?thesis using pq_pop_length [OF p] merge_symbols_live [OF _ l _ r] by auto
qed

function bpe_loop :: "('s, 'm) vocab_scheme \<Rightarrow> llm_symbol list \<times> bigram_bpe list \<Rightarrow> (llm_symbol list \<times> bigram_bpe list) option" where
  "bpe_loop v s = (if snd s = [] then Some s else case bpe_step v s of None \<Rightarrow> None | Some s' \<Rightarrow> bpe_loop v s')"
  by pat_completeness auto
termination
  by (relation "measures [\<lambda>(v, s). n_live (fst s), \<lambda>(v, s). length (snd s)]") (use bpe_step_less in fastforce)+

declare bpe_loop.simps [simp del]

text \<open>The symbols of one word: one symbol when the vocabulary ignores merges and has the word as a token.\<close>

definition bpe_word :: "('s, 'm) vocab_scheme \<Rightarrow> string \<Rightarrow> llm_symbol list option" where
  "bpe_word v word = do {
     whole \<leftarrow> (if vc_ignore_merges v then map_option (\<lambda>t. t \<noteq> LLAMA_TOKEN_NULL) (text_to_token v word) else Some False);
     let syms = (if whole then [\<lparr>sy_prev = - 1, sy_next = - 1, sy_base = word, sy_off = 0, sy_n = length word\<rparr>]
       else split_symbols word 0 0);
     q \<leftarrow> foldM (\<lambda>i. add_new_bigram v syms (int i - 1) (int i)) [1..<length syms] [];
     (syms, q) \<leftarrow> bpe_loop v (syms, q);
     Some syms }"

text \<open>The symbols of the words in one chain: \<open>symbols_final\<close> and \<open>final_prev_index\<close>.\<close>

definition fin_push :: "llm_symbol \<Rightarrow> llm_symbol list \<Rightarrow> llm_symbol list" where
  "fin_push sy fin =
     (let prev = int (length fin) - 1;
          fin = (if prev \<noteq> - 1 then fin[nat prev := (fin ! nat prev)\<lparr>sy_next := int (length fin)\<rparr>] else fin) in
      fin @ [sy\<lparr>sy_prev := prev, sy_next := - 1\<rparr>])"

fun bpe_final :: "llm_symbol list \<Rightarrow> llm_symbol list \<Rightarrow> llm_symbol list" where
  "bpe_final [] fin = fin"
| "bpe_final (sy # syms) fin = bpe_final syms (if 0 < sy_n sy then fin_push sy fin else fin)"

definition bpe_symbol_tokens :: "('s, 'm) vocab_scheme \<Rightarrow> string \<Rightarrow> llama_token list \<Rightarrow> llama_token list option" where
  "bpe_symbol_tokens v str out = do {
     token \<leftarrow> text_to_token v str;
     if token = LLAMA_TOKEN_NULL then
       foldM (\<lambda>c out. do {
         token_multibyte \<leftarrow> text_to_token v [c];
         Some (if token_multibyte \<noteq> LLAMA_TOKEN_NULL then out @ [token_multibyte] else out) }) str out
     else Some (out @ [token]) }"

partial_function (option) bpe_emit :: "('s, 'm) vocab_scheme \<Rightarrow> llm_symbol list \<Rightarrow> int \<Rightarrow> llama_token list \<Rightarrow> llama_token list option" where
  "bpe_emit v syms i out =
     (if i = - 1 then Some out
      else do {
        symbol \<leftarrow> iget syms i;
        if sy_n symbol = 0 then bpe_emit v syms (sy_next symbol) out
        else do {
          str \<leftarrow> sym_str symbol;
          out \<leftarrow> bpe_symbol_tokens v str out;
          bpe_emit v syms (sy_next symbol) out } })"

text \<open>\<open>tokenize\<close>, from the collection of words on.\<close>

definition bpe_tokenize :: "('s, 'm) vocab_scheme \<Rightarrow> string list \<Rightarrow> llama_token list \<Rightarrow> llama_token list option" where
  "bpe_tokenize v words out = do {
     syms \<leftarrow> foldM (\<lambda>word fin. do { syms \<leftarrow> bpe_word v word; Some (bpe_final syms fin) }) words [];
     if syms = [] then Some out else bpe_emit v syms 0 out }"

definition bpe_session_tokenize :: "('s, 'm) vocab_scheme \<Rightarrow> (nat list \<Rightarrow> nat list) \<Rightarrow> string \<Rightarrow> llama_token list \<Rightarrow> llama_token list option" where
  "bpe_session_tokenize v split text out = do {
     word_collection \<leftarrow> unicode_regex_split split text;
     bpe_tokenize v word_collection out }"

declare bpe_emit.simps [code]

end
