(* ===== verification/TokMergeInv.thy ===== *)
theory TokMergeInv
  imports TokMerge
begin

text \<open>
  Merging pairs, best first, against its reference: \<open>best_pair\<close> looks for the best pair of neighbours in a
  list of strings, the leftmost of the best ones, and \<open>merge_all\<close> merges it until there is none left.

  The locale \<open>pair_queue\<close> states what the two sessions have in common, an order of the entries of the
  queue and how they are made, and shows that a queue in which outdated entries stay gives the next
  best pair.
\<close>

subsection \<open>The reference\<close>

fun best_pair :: "('k \<Rightarrow> 'k \<Rightarrow> bool) \<Rightarrow> (string \<Rightarrow> string \<Rightarrow> 'k option) \<Rightarrow> string list \<Rightarrow> (nat \<times> 'k) option" where
  "best_pair better key (s # t # ss) =
     (case best_pair better key (t # ss) of
        None \<Rightarrow> map_option (\<lambda>k. (0, k)) (key s t)
      | Some (p, k') \<Rightarrow> (case key s t of
            None \<Rightarrow> Some (Suc p, k')
          | Some k \<Rightarrow> if better k' k then Some (Suc p, k') else Some (0, k)))"
| "best_pair better key _ = None"

definition merge_nth :: "nat \<Rightarrow> string list \<Rightarrow> string list" where
  "merge_nth p ss = take p ss @ (ss ! p @ ss ! Suc p) # drop (p + 2) ss"

lemma best_pair_Some: "best_pair better key ss = Some (p, k) \<Longrightarrow> Suc p < length ss \<and> key (ss ! p) (ss ! Suc p) = Some k"
  by (induction better key ss arbitrary: p k rule: best_pair.induct) (fastforce split: option.splits if_splits)+

lemma best_pair_None:
  "best_pair better key ss = None \<longleftrightarrow> (\<forall>p. Suc p < length ss \<longrightarrow> key (ss ! p) (ss ! Suc p) = None)"
proof (induction better key ss rule: best_pair.induct)
  case (1 better key s t ss)
  have split_nat: "(\<forall>p. P p) \<longleftrightarrow> P 0 \<and> (\<forall>p. P (Suc p))" for P
    by (metis not0_implies_Suc)
  have "(\<forall>p. Suc p < length (s # t # ss) \<longrightarrow> key ((s # t # ss) ! p) ((s # t # ss) ! Suc p) = None) \<longleftrightarrow>
      key s t = None \<and> (\<forall>p. Suc p < length (t # ss) \<longrightarrow> key ((t # ss) ! p) ((t # ss) ! Suc p) = None)"
    by (subst split_nat) auto
  then show ?case using 1 by (auto split: option.splits)
qed auto

lemma length_merge_nth: "Suc p < length ss \<Longrightarrow> length (merge_nth p ss) = length ss - 1"
  by (simp add: merge_nth_def)

lemma concat_merge_nth: "Suc p < length ss \<Longrightarrow> concat (merge_nth p ss) = concat ss"
proof -
  assume p: "Suc p < length ss"
  have "concat ss = concat (take p ss @ ss ! p # ss ! Suc p # drop (p + 2) ss)"
    using p by (metis Cons_nth_drop_Suc Suc_lessD add_2_eq_Suc' append_take_drop_id)
  then show ?thesis by (simp add: merge_nth_def)
qed

function merge_all :: "('k \<Rightarrow> 'k \<Rightarrow> bool) \<Rightarrow> (string \<Rightarrow> string \<Rightarrow> 'k option) \<Rightarrow> string list \<Rightarrow> string list" where
  "merge_all better key ss = (case best_pair better key ss of None \<Rightarrow> ss | Some r \<Rightarrow> merge_all better key (merge_nth (fst r) ss))"
  by pat_completeness auto
termination
proof (relation "measure (\<lambda>(better, key, ss). length ss)", simp)
  fix better :: "'k \<Rightarrow> 'k \<Rightarrow> bool" and key ss and r :: "nat \<times> 'k"
  assume "best_pair better key ss = Some r"
  then have "Suc (fst r) < length ss" using best_pair_Some [of better key ss "fst r" "snd r"] by simp
  then show "((better, key, merge_nth (fst r) ss), better, key, ss) \<in> measure (\<lambda>(better, key, ss). length ss)"
    by (simp add: length_merge_nth)
qed

declare merge_all.simps [simp del]

lemma concat_merge_all: "concat (merge_all better key ss) = concat ss"
proof (induction better key ss rule: merge_all.induct)
  case (1 better key ss)
  show ?case
  proof (cases "best_pair better key ss")
    case (Some r)
    then have "Suc (fst r) < length ss" using best_pair_Some [of better key ss "fst r" "snd r"] by simp
    then show ?thesis using 1 [OF Some] Some by (subst merge_all.simps) (simp add: concat_merge_nth)
  qed (subst merge_all.simps, simp)
qed

subsection \<open>Chains of symbols\<close>

definition piece :: "llm_symbol \<Rightarrow> string" where
  "piece s = take (sy_n s) (drop (sy_off s) (sy_base s))"

definition nxt_of :: "int \<Rightarrow> nat list \<Rightarrow> int" where
  "nxt_of nx L = (case L of [] \<Rightarrow> nx | j # _ \<Rightarrow> int j)"

definition lst_of :: "int \<Rightarrow> nat list \<Rightarrow> int" where
  "lst_of p L = (if L = [] then p else int (List.last L))"

text \<open>The symbols at \<open>L\<close> are linked from \<open>p\<close> to \<open>nx\<close> and cover the base from \<open>b\<close> to \<open>e\<close>.\<close>

fun seg :: "string \<Rightarrow> llm_symbol list \<Rightarrow> int \<Rightarrow> nat \<Rightarrow> nat list \<Rightarrow> int \<Rightarrow> nat \<Rightarrow> bool" where
  "seg base ss p b [] nx e \<longleftrightarrow> b = e"
| "seg base ss p b (i # L) nx e \<longleftrightarrow>
     i < length ss \<and> 0 < sy_n (ss ! i) \<and> sy_base (ss ! i) = base \<and> sy_off (ss ! i) = b \<and> sy_prev (ss ! i) = p \<and>
     sy_next (ss ! i) = nxt_of nx L \<and> seg base ss (int i) (b + sy_n (ss ! i)) L nx e"

lemma seg_append:
  "seg base ss p b (A @ B) nx e \<longleftrightarrow> (\<exists>m. seg base ss p b A (nxt_of nx B) m \<and> seg base ss (lst_of p A) m B nx e)"
proof (induction A arbitrary: p b)
  case Nil
  then show ?case by (simp add: lst_of_def)
next
  case (Cons a A)
  have "nxt_of nx (A @ B) = nxt_of (nxt_of nx B) A" by (simp add: nxt_of_def split: list.splits)
  moreover have "lst_of (int a) A = lst_of p (a # A)" by (simp add: lst_of_def)
  ultimately show ?case using Cons by auto
qed

lemma seg_frame:
  "\<forall>i \<in> set L. ss' ! i = ss ! i \<Longrightarrow> length ss' = length ss \<Longrightarrow> seg base ss' p b L nx e = seg base ss p b L nx e"
  by (induction L arbitrary: p b) auto

lemma seg_mono: "seg base ss p b L nx e \<Longrightarrow> b \<le> e"
  by (induction L arbitrary: p b) fastforce+

lemma seg_bounds:
  "seg base ss p b L nx e \<Longrightarrow> i \<in> set L \<Longrightarrow> i < length ss \<and> 0 < sy_n (ss ! i) \<and> sy_base (ss ! i) = base \<and>
     b \<le> sy_off (ss ! i) \<and> sy_off (ss ! i) + sy_n (ss ! i) \<le> e"
  by (induction L arbitrary: p b) (fastforce dest: seg_mono)+

lemma seg_concat:
  "seg base ss p b L nx e \<Longrightarrow> e \<le> length base \<Longrightarrow> concat (map (\<lambda>i. piece (ss ! i)) L) = take (e - b) (drop b base)"
proof (induction L arbitrary: p b)
  case (Cons i L)
  let ?n = "sy_n (ss ! i)"
  have s: "seg base ss (int i) (b + ?n) L nx e" and pc: "piece (ss ! i) = take ?n (drop b base)"
    using Cons.prems by (auto simp: piece_def)
  have le: "b + ?n \<le> e" using seg_mono [OF s] .
  have "take (e - b) (drop b base) = take (?n + (e - (b + ?n))) (drop b base)" using le by simp
  also have "\<dots> = take ?n (drop b base) @ take (e - (b + ?n)) (drop (b + ?n) base)"
    by (simp only: take_add drop_drop add.commute)
  finally show ?case using Cons.IH [OF s Cons.prems(2)] pc by simp
qed simp

definition chain :: "string \<Rightarrow> llm_symbol list \<Rightarrow> nat list \<Rightarrow> bool" where
  "chain base ss L \<longleftrightarrow> seg base ss (- 1) 0 L (- 1) (length base) \<and> sorted_wrt (<) L \<and>
     (\<forall>i < length ss. 0 < sy_n (ss ! i) \<longleftrightarrow> i \<in> set L)"

definition parts :: "llm_symbol list \<Rightarrow> nat list \<Rightarrow> string list" where
  "parts ss L = map (\<lambda>i. piece (ss ! i)) L"

lemma chain_bounds:
  assumes "chain base ss L" "i \<in> set L"
  shows "i < length ss" "0 < sy_n (ss ! i)" "sy_base (ss ! i) = base" "sy_off (ss ! i) + sy_n (ss ! i) \<le> length base"
  using assms seg_bounds [of base ss "- 1" 0 L "- 1" "length base" i] by (auto simp: chain_def)

lemma chain_piece:
  assumes "chain base ss L" "i \<in> set L"
  shows "sym_str (ss ! i) = Some (piece (ss ! i))" "length (piece (ss ! i)) = sy_n (ss ! i)"
  using chain_bounds [OF assms] by (auto simp: sym_str_def cstr_def piece_def)

lemma chain_concat: "chain base ss L \<Longrightarrow> concat (parts ss L) = base"
  using seg_concat [of base ss "- 1" 0 L "- 1" "length base"] by (simp add: chain_def parts_def)

subsection \<open>Merging\<close>

lemma iget_Some: "iget xs i = Some x \<longleftrightarrow> 0 \<le> i \<and> nat i < length xs \<and> xs ! nat i = x"
  by (auto simp: iget_def vget_eq_Some)

lemma iget_int [simp]: "i < length xs \<Longrightarrow> iget xs (int i) = Some (xs ! i)"
  by (simp add: iget_Some)

text \<open>The symbols after \<open>merge_symbols\<close>.\<close>

definition merged :: "llm_symbol list \<Rightarrow> nat \<Rightarrow> nat \<Rightarrow> llm_symbol list" where
  "merged ss i j =
     (let l = ss ! i; r = ss ! j;
          ss = ss[i := l\<lparr>sy_n := sy_n l + sy_n r, sy_next := sy_next r\<rparr>, j := r\<lparr>sy_n := 0\<rparr>] in
      if 0 \<le> sy_next r then ss[nat (sy_next r) := (ss ! nat (sy_next r))\<lparr>sy_prev := int i\<rparr>] else ss)"

lemma chain_pair:
  assumes "chain base ss (A @ i # j # B)"
  shows "sy_next (ss ! i) = int j" and "sy_next (ss ! j) = nxt_of (- 1) B" and "sy_prev (ss ! i) = lst_of (- 1) A"
    and "sy_off (ss ! j) = sy_off (ss ! i) + sy_n (ss ! i)" and "i < j"
  using assms by (auto simp: chain_def seg_append nxt_of_def sorted_wrt_append)

lemma merge_symbols_merged:
  assumes c: "chain base ss (A @ i # j # B)"
  shows "merge_symbols (int i) (int j) ss = Some (merged ss i j)"
proof -
  have il: "i < length ss" and jl: "j < length ss" using chain_bounds(1) [OF c] by auto
  have ij: "i < j" and nj: "sy_next (ss ! j) = nxt_of (- 1) B" using chain_pair [OF c] by auto
  have "0 \<le> sy_next (ss ! j) \<Longrightarrow> nat (sy_next (ss ! j)) < length ss"
    using chain_bounds(1) [OF c] nj by (auto simp: nxt_of_def split: list.splits)
  then show ?thesis
    using il jl ij by (auto simp: merge_symbols_def merged_def Let_def iget_def)
qed

text \<open>What is merged: everything else keeps its bytes and its place in the chain.\<close>

lemma merged_sym:
  assumes c: "chain base ss (A @ i # j # B)" and k: "k < length ss"
  shows "sy_n (merged ss i j ! k) = (if k = i then sy_n (ss ! i) + sy_n (ss ! j) else if k = j then 0 else sy_n (ss ! k))"
    and "sy_base (merged ss i j ! k) = sy_base (ss ! k)" and "sy_off (merged ss i j ! k) = sy_off (ss ! k)"
    and "sy_next (merged ss i j ! k) = (if k = i then sy_next (ss ! j) else sy_next (ss ! k))"
    and "sy_prev (merged ss i j ! k) = (if int k = nxt_of (- 1) B then int i else sy_prev (ss ! k))"
proof -
  have il: "i < length ss" and jl: "j < length ss" using chain_bounds(1) [OF c] by auto
  have ij: "i < j" and nj: "sy_next (ss ! j) = nxt_of (- 1) B" using chain_pair [OF c] by auto
  have nn: "nxt_of (- 1) B \<noteq> int i" "nxt_of (- 1) B \<noteq> int j"
    using c by (auto simp: chain_def sorted_wrt_append nxt_of_def split: list.splits)
  note d = merged_def Let_def nth_list_update nj
  show "sy_n (merged ss i j ! k) = (if k = i then sy_n (ss ! i) + sy_n (ss ! j) else if k = j then 0 else sy_n (ss ! k))"
    and "sy_base (merged ss i j ! k) = sy_base (ss ! k)" and "sy_off (merged ss i j ! k) = sy_off (ss ! k)"
    and "sy_next (merged ss i j ! k) = (if k = i then sy_next (ss ! j) else sy_next (ss ! k))"
    and "sy_prev (merged ss i j ! k) = (if int k = nxt_of (- 1) B then int i else sy_prev (ss ! k))"
    using il jl ij k nn by (cases "k = nat (nxt_of (- 1) B)"; auto simp: d)+
qed

lemma length_merged [simp]: "length (merged ss i j) = length ss"
  by (simp add: merged_def Let_def)

lemma merged_same:
  assumes c: "chain base ss (A @ i # j # B)" and k: "k < length ss" "k \<noteq> i" "k \<noteq> j" "int k \<noteq> nxt_of (- 1) B"
  shows "merged ss i j ! k = ss ! k"
  using merged_sym [OF c k(1)] k by (intro llm_symbol.equality) auto

lemma chain_merged:
  assumes c: "chain base ss (A @ i # j # B)"
  shows "chain base (merged ss i j) (A @ i # B)"
proof -
  let ?ss = "merged ss i j"
  note cb = chain_bounds(1) [OF c]
  have il: "i < length ss" and jl: "j < length ss" using cb by auto
  have srt: "sorted_wrt (<) (A @ i # j # B)" using c by (simp add: chain_def)
  have s: "seg base ss (- 1) 0 (A @ i # j # B) (- 1) (length base)" using c by (simp add: chain_def)
  obtain m where A: "seg base ss (- 1) 0 A (int i) m" and i: "seg base ss (lst_of (- 1) A) m (i # j # B) (- 1) (length base)"
    using s by (auto simp: seg_append [of base ss "- 1" 0 A] nxt_of_def)
  have A': "seg base ?ss (- 1) 0 A (int i) m"
  proof (subst seg_frame)
    show "\<forall>k \<in> set A. ?ss ! k = ss ! k"
      using merged_same [OF c] cb srt by (fastforce simp: sorted_wrt_append nxt_of_def split: list.splits)
  qed (use A in simp_all)
  have B': "seg base ?ss (int i) b B (- 1) (length base)" if "seg base ss (int j) b B (- 1) (length base)" for b
  proof (cases B)
    case (Cons k B')
    have kl: "k < length ss" "k \<noteq> i" "k \<noteq> j" using cb srt Cons by (auto simp: sorted_wrt_append)
    have "seg base ?ss (int k) e B' (- 1) (length base) = seg base ss (int k) e B' (- 1) (length base)" for e
    proof (rule seg_frame)
      show "\<forall>l \<in> set B'. ?ss ! l = ss ! l"
        using merged_same [OF c] cb srt Cons by (fastforce simp: sorted_wrt_append nxt_of_def)
    qed simp
    then show ?thesis using that Cons merged_sym [OF c kl(1)] kl by (simp add: nxt_of_def)
  qed (use that in simp)
  have "seg base ?ss (lst_of (- 1) A) m (i # B) (- 1) (length base)"
    using i B' merged_sym [OF c il] il srt by (auto simp: sorted_wrt_append nxt_of_def add.assoc split: list.splits)
  then have "seg base ?ss (- 1) 0 (A @ i # B) (- 1) (length base)"
    using A' by (subst seg_append) (auto simp: nxt_of_def)
  moreover have "sorted_wrt (<) (A @ i # B)" using srt by (auto simp: sorted_wrt_append)
  moreover have "0 < sy_n (?ss ! k) \<longleftrightarrow> k \<in> set (A @ i # B)" if "k < length ?ss" for k
    using that merged_sym(1) [OF c, of k] c srt by (auto simp: chain_def sorted_wrt_append)
  ultimately show ?thesis by (simp add: chain_def)
qed

lemma piece_merged:
  assumes c: "chain base ss (A @ i # j # B)" and k: "k \<in> set (A @ i # B)"
  shows "piece (merged ss i j ! k) = (if k = i then piece (ss ! i) @ piece (ss ! j) else piece (ss ! k))"
proof -
  have kl: "k < length ss" using chain_bounds(1) [OF c] k by auto
  have "k \<noteq> j" using c k by (auto simp: chain_def sorted_wrt_append)
  moreover have "sy_base (ss ! i) = base" "sy_base (ss ! j) = base" using chain_bounds(3) [OF c] by auto
  ultimately show ?thesis
    using merged_sym [OF c kl] chain_pair(4) [OF c] by (auto simp: piece_def take_add add.commute)
qed

lemma parts_merged:
  assumes c: "chain base ss (A @ i # j # B)"
  shows "parts (merged ss i j) (A @ i # B) = merge_nth (length A) (parts ss (A @ i # j # B))"
proof -
  have "i \<notin> set A" "i \<notin> set B" using c by (auto simp: chain_def sorted_wrt_append)
  then have "map (\<lambda>k. piece (merged ss i j ! k)) A = map (\<lambda>k. piece (ss ! k)) A"
    and "map (\<lambda>k. piece (merged ss i j ! k)) B = map (\<lambda>k. piece (ss ! k)) B"
    and "piece (merged ss i j ! i) = piece (ss ! i) @ piece (ss ! j)"
    using piece_merged [OF c] by auto
  then show ?thesis by (simp add: parts_def merge_nth_def nth_append)
qed

text \<open>The neighbour of a symbol is the next one of the chain.\<close>

lemma chain_adjacent:
  assumes c: "chain base ss L" and k: "k \<in> set L" and n: "sy_next (ss ! k) = int l"
  shows "\<exists>A B. L = A @ k # l # B"
proof -
  obtain A R where L: "L = A @ k # R" using k by (meson split_list)
  have "sy_next (ss ! k) = nxt_of (- 1) R" using c by (auto simp: chain_def L seg_append)
  then obtain B where "R = l # B" using n by (auto simp: nxt_of_def split: list.splits)
  then show ?thesis using L by blast
qed

subsection \<open>A queue of pairs\<close>

locale pair_queue =
  fixes left :: "'b \<Rightarrow> int" and right :: "'b \<Rightarrow> int" and bsize :: "'b \<Rightarrow> nat" and lt :: "'b \<Rightarrow> 'b \<Rightarrow> bool"
    and mk :: "int \<Rightarrow> int \<Rightarrow> string \<Rightarrow> string \<Rightarrow> 'b option" and key :: "string \<Rightarrow> string \<Rightarrow> 'k option"
    and bkey :: "'b \<Rightarrow> 'k" and better :: "'k \<Rightarrow> 'k \<Rightarrow> bool"
  assumes mk_key: "map_option bkey (mk x y s t) = key s t"
    and mk_proj: "mk x y s t = Some b \<Longrightarrow> left b = x \<and> right b = y \<and> bsize b = length s + length t"
    and lt_iff: "lt a b \<longleftrightarrow> better (bkey b) (bkey a) \<or> (bkey b = bkey a \<and> left b < left a)"
    and better_irrefl: "\<not> better k k"
    and better_trans: "better k l \<Longrightarrow> better l m \<Longrightarrow> better k m"
    and better_total: "better k l \<or> k = l \<or> better l k"
begin

lemma better_asym: "better k l \<Longrightarrow> \<not> better l k"
  using better_trans better_irrefl by blast

lemma not_lt_trans: "\<not> lt a b \<Longrightarrow> \<not> lt b c \<Longrightarrow> \<not> lt a c"
  unfolding lt_iff using better_total [of "bkey a" "bkey b"] better_total [of "bkey b" "bkey c"] better_trans better_asym
  by (metis linorder_not_less order_less_trans order_le_less_trans)

lemma pq_top_greatest: "y \<in> set (x # xs) \<Longrightarrow> \<not> lt (pq_top lt x xs) y"
proof (induction xs arbitrary: x y)
  case Nil
  then show ?case using better_irrefl by (simp add: lt_iff)
next
  case (Cons a xs)
  let ?z = "pq_top lt a xs"
  show ?case
  proof (cases "lt x ?z")
    case True
    then have "\<not> lt ?z x" using better_asym by (auto simp: lt_iff better_irrefl dest: better_trans)
    then show ?thesis using Cons True by (auto simp: Let_def)
  next
    case False
    moreover have "\<not> lt x x" using better_irrefl by (simp add: lt_iff)
    ultimately show ?thesis using Cons not_lt_trans [OF False] by (auto simp: Let_def)
  qed
qed

lemma pq_pop_law:
  "pq_pop lt q = Some (b, q') \<Longrightarrow> b \<in> set q \<and> q' = remove1 b q \<and> (\<forall>y \<in> set q. \<not> lt b y)"
proof (cases q)
  case (Cons x xs)
  assume "pq_pop lt q = Some (b, q')"
  then have "b = pq_top lt x xs" "q' = remove1 b q" using Cons by (auto simp: pq_pop_def Let_def)
  then show ?thesis using pq_top_in [of lt x xs] pq_top_greatest [of _ x xs] Cons by metis
qed (simp add: pq_pop_def)

lemma best_pair_best:
  "best_pair better key ss = Some (p, k) \<Longrightarrow> Suc q < length ss \<Longrightarrow> key (ss ! q) (ss ! Suc q) = Some l \<Longrightarrow>
     better k l \<or> (k = l \<and> p \<le> q)"
proof (induction better\<equiv>better key\<equiv>key ss arbitrary: p k q rule: best_pair.induct)
  case (1 s t ss)
  show ?case
  proof (cases "best_pair better key (t # ss)")
    case None
    then have "q = 0" using 1(3,4) best_pair_None [of better key "t # ss"] by (cases q) auto
    then show ?thesis using 1 None by auto
  next
    case (Some r)
    obtain p' k' where r: "r = (p', k')" by (cases r)
    have tl: "better k' l \<or> (k' = l \<and> Suc p' \<le> q)" if "q = Suc q'" for q'
      using 1(1) [of p' k' q'] Some r that 1(3,4) by auto
    show ?thesis using 1(2-4) Some r tl better_total [of k k'] better_trans [of k k' l]
      by (cases q) (auto split: option.splits if_splits)
  qed
qed auto

lemma best_pair_unique:
  assumes p: "Suc p < length ss" "key (ss ! p) (ss ! Suc p) = Some k"
    and best: "\<And>q l. Suc q < length ss \<Longrightarrow> key (ss ! q) (ss ! Suc q) = Some l \<Longrightarrow> better k l \<or> (k = l \<and> p \<le> q)"
  shows "best_pair better key ss = Some (p, k)"
proof -
  have "best_pair better key ss \<noteq> None" using p best_pair_None [of better key ss] by auto
  then obtain p' k' where r: "best_pair better key ss = Some (p', k')" by auto
  have "Suc p' < length ss" "key (ss ! p') (ss ! Suc p') = Some k'" using best_pair_Some [OF r] by auto
  then have "better k k' \<or> (k = k' \<and> p \<le> p')" by (rule best)
  moreover have "better k' k \<or> (k' = k \<and> p' \<le> p)" by (rule best_pair_best [OF r p])
  ultimately show ?thesis using r better_asym better_irrefl by (metis order_antisym)
qed

definition entry :: "llm_symbol list \<Rightarrow> nat \<Rightarrow> nat \<Rightarrow> 'b \<Rightarrow> bool" where
  "entry ss i j b \<longleftrightarrow> mk (int i) (int j) (piece (ss ! i)) (piece (ss ! j)) = Some b"

text \<open>
  An entry is never larger than its symbols, and when it is as large as them, it is the entry of two
  neighbours.
\<close>

definition bg_ok :: "llm_symbol list \<Rightarrow> 'b \<Rightarrow> bool" where
  "bg_ok ss b \<longleftrightarrow> (\<exists>i j. left b = int i \<and> right b = int j \<and> i < length ss \<and> j < length ss \<and>
     (0 < sy_n (ss ! i) \<and> 0 < sy_n (ss ! j) \<longrightarrow> bsize b \<le> sy_n (ss ! i) + sy_n (ss ! j) \<and>
       (bsize b = sy_n (ss ! i) + sy_n (ss ! j) \<longrightarrow> sy_next (ss ! i) = int j \<and> entry ss i j b)))"

definition qinv :: "string \<Rightarrow> llm_symbol list \<Rightarrow> nat list \<Rightarrow> 'b list \<Rightarrow> bool" where
  "qinv base ss L q \<longleftrightarrow> chain base ss L \<and> (\<forall>b \<in> set q. bg_ok ss b) \<and>
     (\<forall>A i j B b. L = A @ i # j # B \<longrightarrow> entry ss i j b \<longrightarrow> b \<in> set q)"

definition new_entries :: "llm_symbol list \<Rightarrow> int \<Rightarrow> int \<Rightarrow> 'b list" where
  "new_entries ss x y = (if x = - 1 \<or> y = - 1 then []
     else case mk x y (piece (ss ! nat x)) (piece (ss ! nat y)) of None \<Rightarrow> [] | Some b \<Rightarrow> [b])"

lemma entry_law:
  assumes "chain base ss (A @ i # j # B)" and "entry ss i j b"
  shows "left b = int i" "right b = int j" "bsize b = sy_n (ss ! i) + sy_n (ss ! j)" "bg_ok ss b"
proof -
  note cb = chain_bounds [OF assms(1)] and cp = chain_piece [OF assms(1)]
  show lr: "left b = int i" "right b = int j" using mk_proj assms(2) by (auto simp: entry_def)
  show bs: "bsize b = sy_n (ss ! i) + sy_n (ss ! j)"
    using mk_proj assms(2) cp(2) [of i] cp(2) [of j] by (auto simp: entry_def)
  show "bg_ok ss b"
    unfolding bg_ok_def using lr bs cb(1) chain_pair(1) [OF assms(1)] assms(2) by (intro exI [of _ i] exI [of _ j]) simp
qed

lemma entry_key: "key (piece (ss ! i)) (piece (ss ! j)) = Some k \<longleftrightarrow> (\<exists>b. entry ss i j b \<and> bkey b = k)"
  using mk_key [of "int i" "int j" "piece (ss ! i)" "piece (ss ! j)", symmetric] by (auto simp: entry_def)

lemma new_entries_in: "x = int i \<Longrightarrow> y = int j \<Longrightarrow> b \<in> set (new_entries ss x y) \<longleftrightarrow> entry ss i j b"
  by (auto simp: new_entries_def entry_def split: option.splits)

lemma qinv_entry: "qinv base ss (A @ i # j # B) q \<Longrightarrow> entry ss i j b \<Longrightarrow> b \<in> set q"
  by (simp only: qinv_def)

lemma qinv_chain: "qinv base ss L q \<Longrightarrow> chain base ss L"
  by (simp add: qinv_def)

lemma qinv_subset:
  assumes "qinv base ss L q" "set q' \<subseteq> set q" "\<And>A i j B b. L = A @ i # j # B \<Longrightarrow> entry ss i j b \<Longrightarrow> b \<in> set q'"
  shows "qinv base ss L q'"
  using assms by (simp only: qinv_def) blast

lemma nth_split: "Suc p < length L \<Longrightarrow> L = take p L @ L ! p # L ! Suc p # drop (Suc (Suc p)) L"
  by (metis Cons_nth_drop_Suc Suc_lessD append_take_drop_id)

lemma parts_nth: "p < length L \<Longrightarrow> parts ss L ! p = piece (ss ! (L ! p))"
  by (simp add: parts_def)

text \<open>An outdated entry is not needed.\<close>

lemma qinv_stale:
  assumes q: "qinv base ss L q" and b: "left b = int i" "right b = int j"
    and st: "sy_n (ss ! i) = 0 \<or> sy_n (ss ! j) = 0 \<or> sy_n (ss ! i) + sy_n (ss ! j) \<noteq> bsize b"
  shows "qinv base ss L (remove1 b q)"
proof (rule qinv_subset [OF q set_remove1_subset])
  fix A k l B b' assume L: "L = A @ k # l # B" and e: "entry ss k l b'"
  have c: "chain base ss (A @ k # l # B)" using qinv_chain [OF q] L by simp
  have "b' \<noteq> b" using entry_law [OF c e] b st chain_bounds(2) [OF c] by force
  moreover have "b' \<in> set q" using qinv_entry q L e by blast
  ultimately show "b' \<in> set (remove1 b q)" by simp
qed

text \<open>An entry that is not outdated is the entry of neighbours, and the top of the queue is the best pair.\<close>

lemma qinv_fresh:
  assumes q: "qinv base ss L q" and b: "b \<in> set q" "left b = int i" "right b = int j"
    and fr: "sy_n (ss ! i) \<noteq> 0" "sy_n (ss ! j) \<noteq> 0" "sy_n (ss ! i) + sy_n (ss ! j) = bsize b"
  shows "\<exists>A B. L = A @ i # j # B \<and> entry ss i j b"
proof -
  have "bg_ok ss b" using q b by (auto simp: qinv_def)
  then have n: "sy_next (ss ! i) = int j" and e: "entry ss i j b" and il: "i < length ss" using b fr by (auto simp: bg_ok_def)
  have c: "chain base ss L" using q by (simp add: qinv_def)
  have "i \<in> set L" using c il fr(1) by (auto simp: chain_def)
  then show ?thesis using chain_adjacent [OF c _ n] e by blast
qed

lemma qinv_best:
  assumes q: "qinv base ss (A @ i # j # B) q" and e: "entry ss i j b" and top: "\<forall>y \<in> set q. \<not> lt b y"
  shows "best_pair better key (parts ss (A @ i # j # B)) = Some (length A, bkey b)"
proof -
  let ?L = "A @ i # j # B"
  have c: "chain base ss ?L" using q by (simp add: qinv_def)
  show ?thesis
  proof (rule best_pair_unique)
    show "Suc (length A) < length (parts ss ?L)" by (simp add: parts_def)
    show "key (parts ss ?L ! length A) (parts ss ?L ! Suc (length A)) = Some (bkey b)"
      using entry_key e by (auto simp: parts_def nth_append)
  next
    fix p l
    assume p: "Suc p < length (parts ss ?L)" and k: "key (parts ss ?L ! p) (parts ss ?L ! Suc p) = Some l"
    then have pl: "Suc p < length ?L" by (simp add: parts_def)
    obtain b' where e': "entry ss (?L ! p) (?L ! Suc p) b'" and l: "bkey b' = l"
      using k entry_key parts_nth [of _ ?L ss] pl by (metis Suc_lessD)
    have L: "?L = take p ?L @ ?L ! p # ?L ! Suc p # drop (Suc (Suc p)) ?L" by (rule nth_split [OF pl])
    then have "b' \<in> set q" using qinv_entry q e' by metis
    then have "\<not> lt b b'" using top by blast
    moreover have "left b' = int (?L ! p)" using entry_law(1) [of base ss "take p ?L"] c L e' by metis
    moreover have "left b = int (?L ! length A)" using entry_law(1) [OF c e] by (simp add: nth_append)
    moreover have "p < length A \<Longrightarrow> ?L ! p < ?L ! length A"
      using c sorted_wrt_nth_less [of "(<)" ?L p "length A"] by (simp add: chain_def)
    ultimately show "better (bkey b) l \<or> (bkey b = l \<and> length A \<le> p)"
      using better_total [of "bkey b" l] l by (fastforce simp: lt_iff not_le)
  qed
qed

lemma qinv_empty:
  assumes "qinv base ss L []"
  shows "best_pair better key (parts ss L) = None"
proof -
  have "key (parts ss L ! p) (parts ss L ! Suc p) = None" if p: "Suc p < length (parts ss L)" for p
  proof -
    have pl: "Suc p < length L" using p by (simp add: parts_def)
    then have "\<not> entry ss (L ! p) (L ! Suc p) b" for b
      using assms qinv_entry [of base ss "take p L"] nth_split [OF pl] by (metis empty_iff empty_set)
    then show ?thesis using entry_key pl parts_nth [of _ L ss] by (metis Suc_lessD not_Some_eq)
  qed
  then show ?thesis by (simp add: best_pair_None)
qed

text \<open>Merging the two symbols of an entry, with the entries of the new neighbours added.\<close>

lemma qinv_merge:
  assumes q: "qinv base ss (A @ i # j # B) q" and b: "left b = int i"
    and new: "set new = set (new_entries (merged ss i j) (lst_of (- 1) A) (int i)) \<union> set (new_entries (merged ss i j) (int i) (nxt_of (- 1) B))"
  shows "qinv base (merged ss i j) (A @ i # B) (remove1 b q @ new)"
proof -
  let ?ss = "merged ss i j" and ?L = "A @ i # B"
  have c: "chain base ss (A @ i # j # B)" by (rule qinv_chain [OF q])
  have c': "chain base ?ss ?L" by (rule chain_merged [OF c])
  have il: "i < length ss" "j < length ss" using chain_bounds(1) [OF c] by auto
  note ms = merged_sym [OF c]
  have ipos: "0 < sy_n (ss ! j)" "i \<noteq> j" using chain_bounds(2) [OF c] chain_pair(5) [OF c] by auto
  have kept: "bg_ok ?ss b'" if b': "b' \<in> set q" for b'
  proof -
    obtain k l where kl: "left b' = int k" "right b' = int l" "k < length ss" "l < length ss"
      and ok: "0 < sy_n (ss ! k) \<Longrightarrow> 0 < sy_n (ss ! l) \<Longrightarrow> bsize b' \<le> sy_n (ss ! k) + sy_n (ss ! l) \<and>
        (bsize b' = sy_n (ss ! k) + sy_n (ss ! l) \<longrightarrow> sy_next (ss ! k) = int l \<and> entry ss k l b')"
    proof -
      have "bg_ok ss b'" using q b' by (simp only: qinv_def)
      then show thesis unfolding bg_ok_def by (elim exE conjE) (rule that, assumption+, blast)
    qed
    have "bsize b' \<le> sy_n (?ss ! k) + sy_n (?ss ! l) \<and>
        (bsize b' = sy_n (?ss ! k) + sy_n (?ss ! l) \<longrightarrow> sy_next (?ss ! k) = int l \<and> entry ?ss k l b')"
      if pos: "0 < sy_n (?ss ! k)" "0 < sy_n (?ss ! l)"
    proof -
      have nj: "k \<noteq> j" "l \<noteq> j" using pos ms(1) kl ipos by auto
      have pos0: "0 < sy_n (ss ! k)" "0 < sy_n (ss ! l)"
        using pos nj ms(1) kl chain_bounds(2) [OF c, of i] by (auto split: if_splits)
      have le: "sy_n (ss ! k) \<le> sy_n (?ss ! k)" "sy_n (ss ! l) \<le> sy_n (?ss ! l)" using nj ms(1) kl by auto
      have eq: "sy_next (?ss ! k) = int l \<and> entry ?ss k l b'" if sz: "bsize b' = sy_n (?ss ! k) + sy_n (?ss ! l)"
      proof -
        have same: "sy_n (?ss ! k) = sy_n (ss ! k)" "sy_n (?ss ! l) = sy_n (ss ! l)" using ok [OF pos0] sz le by auto
        then have ni: "k \<noteq> i" "l \<noteq> i" using ms(1) kl ipos by auto
        have "k \<in> set ?L" "l \<in> set ?L" using c' pos kl by (auto simp: chain_def)
        then show ?thesis
          using ok [OF pos0] sz same ni piece_merged [OF c] ms(4) [OF kl(3)] by (simp add: entry_def)
      qed
      show ?thesis using ok [OF pos0] le eq by auto
    qed
    then show ?thesis unfolding bg_ok_def using kl by (intro exI [of _ k] exI [of _ l]) simp
  qed
  have lastA: "A = butlast A @ [List.last A]" if "A \<noteq> []" using that by simp
  have left_new: "entry ?ss (List.last A) i b'" if "b' \<in> set (new_entries ?ss (lst_of (- 1) A) (int i))" "A \<noteq> []" for b'
    using that new_entries_in [of "lst_of (- 1) A" "List.last A" "int i" i] by (simp add: lst_of_def)
  have added: "bg_ok ?ss b'" if "b' \<in> set new" for b'
  proof (cases "b' \<in> set (new_entries ?ss (lst_of (- 1) A) (int i))")
    case True
    then have A: "A \<noteq> []" by (auto simp: lst_of_def new_entries_def)
    have "chain base ?ss (butlast A @ List.last A # i # B)" using c' lastA [OF A] by (metis append_Cons append_Nil append_assoc)
    then show ?thesis using entry_law(4) left_new [OF True A] by blast
  next
    case False
    then have r: "b' \<in> set (new_entries ?ss (int i) (nxt_of (- 1) B))" using that new by auto
    then obtain k B' where B: "B = k # B'" by (auto simp: nxt_of_def new_entries_def split: list.splits)
    then have "entry ?ss i k b'" using r new_entries_in [of "int i" i "nxt_of (- 1) B" k] by (simp add: nxt_of_def)
    then show ?thesis using entry_law(4) c' B by blast
  qed
  have complete: "b' \<in> set (remove1 b q @ new)" if L: "?L = A' @ k # l # B'" and e: "entry ?ss k l b'" for A' k l B' b'
  proof -
    have ck: "chain base ?ss (A' @ k # l # B')" using c' L by simp
    have kL: "k \<in> set ?L" "l \<in> set ?L" unfolding L by auto
    then have klen: "k < length ss" "l < length ss" using chain_bounds(1) [OF c'] by auto
    consider "k = i" | "l = i" | "k \<noteq> i" "l \<noteq> i" by blast
    then show ?thesis
    proof cases
      case 1
      then have "nxt_of (- 1) B = int l" using chain_pair(1) [OF ck] chain_pair(2) [OF c] ms(4) [OF il(1)] by simp
      then show ?thesis using e new new_entries_in [of "int i" i "nxt_of (- 1) B" l] 1 by auto
    next
      case 2
      have "sy_prev (?ss ! l) = int k"
        using ck by (auto simp: chain_def seg_append)
      moreover have "sy_prev (?ss ! i) = lst_of (- 1) A" using c' by (auto simp: chain_def seg_append)
      ultimately have "lst_of (- 1) A = int k" using 2 by simp
      then show ?thesis using e new new_entries_in [of "lst_of (- 1) A" k "int i" i] 2 by auto
    next
      case 3
      have "sy_next (ss ! k) = int l" using chain_pair(1) [OF ck] ms(4) [OF klen(1)] 3 by simp
      moreover have "k \<in> set (A @ i # j # B)" using kL 3 by auto
      ultimately obtain A1 B1 where L1: "A @ i # j # B = A1 @ k # l # B1" using chain_adjacent [OF c] by blast
      have "entry ss k l b'" using e piece_merged [OF c] kL 3 by (simp add: entry_def)
      then have "b' \<in> set q" using qinv_entry [of base ss A1 k l B1 q] q L1 by simp
      moreover have "b' \<noteq> b" using entry_law(1) [OF ck e] b 3 by auto
      ultimately show ?thesis by simp
    qed
  qed
  show ?thesis
    unfolding qinv_def using c' kept added complete set_remove1_subset [of b q] by (auto dest!: subsetD)
qed

text \<open>One round: the top entry is outdated, or it is the best pair and its symbols are merged.\<close>

lemma qinv_pop:
  assumes q: "qinv base ss L q" and pop: "pq_pop lt q = Some (b, q')"
  obtains (stale) i j where "left b = int i" "right b = int j" "i < length ss" "j < length ss" "qinv base ss L q'" "b \<in> set q"
      "sy_n (ss ! i) = 0 \<or> sy_n (ss ! j) = 0 \<or> sy_n (ss ! i) + sy_n (ss ! j) \<noteq> bsize b"
    | (fresh) A i j B where "left b = int i" "right b = int j" "L = A @ i # j # B" "entry ss i j b"
      "sy_n (ss ! i) + sy_n (ss ! j) = bsize b" "best_pair better key (parts ss L) = Some (length A, bkey b)"
      "\<And>new. set new = set (new_entries (merged ss i j) (lst_of (- 1) A) (int i)) \<union> set (new_entries (merged ss i j) (int i) (nxt_of (- 1) B)) \<Longrightarrow>
         qinv base (merged ss i j) (A @ i # B) (q' @ new)"
proof -
  have p: "b \<in> set q" "q' = remove1 b q" "\<forall>y \<in> set q. \<not> lt b y" using pq_pop_law [OF pop] by auto
  then have "bg_ok ss b" using q by (simp only: qinv_def)
  then obtain i j where ij: "left b = int i" "right b = int j" "i < length ss" "j < length ss"
    unfolding bg_ok_def by (elim exE conjE) (rule that)
  show thesis
  proof (cases "sy_n (ss ! i) = 0 \<or> sy_n (ss ! j) = 0 \<or> sy_n (ss ! i) + sy_n (ss ! j) \<noteq> bsize b")
    case True
    show thesis by (rule stale [OF ij _ p(1) True]) (use qinv_stale [OF q ij(1,2) True] p(2) in simp)
  next
    case False
    then obtain A B where L: "L = A @ i # j # B" and e: "entry ss i j b" using qinv_fresh [OF q p(1) ij(1,2)] by auto
    show thesis
    proof (rule fresh [OF ij(1,2) L e])
      show "sy_n (ss ! i) + sy_n (ss ! j) = bsize b" using False by simp
      show "best_pair better key (parts ss L) = Some (length A, bkey b)" using qinv_best q e p(3) L by blast
    qed (use qinv_merge [of base ss A i j B q b] q ij L p(2) in simp)
  qed
qed

text \<open>The queue that the seeding loop makes is complete.\<close>

lemma qinv_seed:
  assumes c: "chain base ss [0..<length ss]"
  shows "qinv base ss [0..<length ss] (concat (map (\<lambda>i. new_entries ss (int i - 1) (int i)) [1..<length ss]))"
proof -
  let ?q = "concat (map (\<lambda>i. new_entries ss (int i - 1) (int i)) [1..<length ss])"
  have pos: "j = Suc i \<and> j < length ss" if "[0..<length ss] = A @ i # j # B" for A i j B
  proof -
    have i: "i = length A" using upt_prefix [OF that] by (rule conjunct1)
    have "[0..<length ss] = (A @ [i]) @ j # B" using that by (simp only: append_assoc append_Cons append_Nil)
    note upt_prefix [OF this]
    then have "j = length (A @ [i])" "j < length ss" by blast+
    then show ?thesis using i by simp
  qed
  have new: "b \<in> set (new_entries ss (int i - 1) (int i)) \<longleftrightarrow> entry ss (i - 1) i b" if "1 \<le> i" for i b
    by (rule new_entries_in) (use that in auto)
  have ent: "b \<in> set ?q \<longleftrightarrow> (\<exists>i. 1 \<le> i \<and> i < length ss \<and> entry ss (i - 1) i b)" for b
  proof -
    have "b \<in> set ?q \<longleftrightarrow> (\<exists>i. 1 \<le> i \<and> i < length ss \<and> b \<in> set (new_entries ss (int i - 1) (int i)))" by auto
    then show ?thesis using new by blast
  qed
  have "bg_ok ss b" if b: "b \<in> set ?q" for b
  proof -
    obtain i where i: "1 \<le> i" "i < length ss" "entry ss (i - 1) i b"
      using ent [THEN iffD1, OF b] by (elim exE conjE)
    let ?L = "[0..<length ss]"
    have "?L = take (i - 1) ?L @ ?L ! (i - 1) # ?L ! Suc (i - 1) # drop (Suc (Suc (i - 1))) ?L"
      by (rule nth_split) (use i(1,2) in simp)
    moreover have "?L ! (i - 1) = i - 1" "?L ! Suc (i - 1) = i" using i(1,2) by simp_all
    ultimately obtain A B where L: "?L = A @ (i - 1) # i # B" by metis
    have "chain base ss (A @ (i - 1) # i # B)" using c by (simp only: L)
    then show ?thesis using i(3) by (rule entry_law(4))
  qed
  moreover have "b \<in> set ?q" if "[0..<length ss] = A @ i # j # B" "entry ss i j b" for A i j B b
    using pos [OF that(1)] that(2) by (intro ent [THEN iffD2] exI [of _ j]) auto
  ultimately show ?thesis using c unfolding qinv_def by blast
qed

end

end
