(* ===== verification/TokMergeOk.thy ===== *)
theory TokMergeOk
  imports TokMergeInv
begin

text \<open>
  The two sessions against the reference: both give \<open>pair_queue\<close> their entries, and what they
  compute is \<open>merge_all\<close> of the characters of the text.
\<close>

subsection \<open>Splitting\<close>

fun utf8_pieces :: "string \<Rightarrow> string list" where
  "utf8_pieces [] = []"
| "utf8_pieces (c # cs) = take (unicode_len_utf8 c) (c # cs) # utf8_pieces (drop (unicode_len_utf8 c - 1) cs)"

lemma concat_utf8_pieces [simp]: "concat (utf8_pieces s) = s"
proof (induction s rule: utf8_pieces.induct)
  case (2 c cs)
  obtain n where "unicode_len_utf8 c = Suc n" using unicode_len_pos [of c] by (cases "unicode_len_utf8 c") auto
  then show ?case using 2 by simp
qed simp

lemma utf8_pieces_Nil [simp]: "utf8_pieces s = [] \<longleftrightarrow> s = []"
  by (cases s) auto

lemma split_symbols_pieces: "map piece (split_symbols base b i) = utf8_pieces (drop b base)"
proof (induction base b i rule: split_symbols.induct)
  case (1 base b i)
  show ?case
  proof (cases "b < length base")
    case True
    let ?u = "unicode_len_utf8 (base ! b)" and ?n = "min (unicode_len_utf8 (base ! b)) (length base - b)"
    have d: "drop b base = base ! b # drop (Suc b) base" using True by (rule Cons_nth_drop_Suc [symmetric])
    have u: "0 < ?u" by simp
    have "utf8_pieces (drop b base) = take ?u (drop b base) # utf8_pieces (drop (?u - 1) (drop (Suc b) base))"
      by (simp add: d)
    also have "drop (?u - 1) (drop (Suc b) base) = drop (b + ?n) base" proof (cases "?u \<le> length base - b")
      case True
      then have "?n = ?u" by simp
      moreover have "?u - 1 + Suc b = b + ?u" using u by linarith
      ultimately show ?thesis by (simp only: drop_drop)
    qed (use \<open>b < length base\<close> in simp)
    also have "take ?u (drop b base) = take ?n (drop b base)" using True by (cases "?u \<le> length base - b") auto
    finally show ?thesis using 1 True by (subst split_symbols.simps) (simp add: Let_def, simp add: piece_def)
  qed (subst split_symbols.simps, simp)
qed

lemma split_symbols_seg:
  "b \<le> length base \<Longrightarrow> ss = pre @ split_symbols base b (int (length pre)) \<Longrightarrow>
   seg base ss (int (length pre) - 1) b [length pre..<length ss] (- 1) (length base)"
proof (induction base b "int (length pre)" arbitrary: pre rule: split_symbols.induct)
  case (1 base b)
  show ?case
  proof (cases "b < length base")
    case True
    define n where "n = min (unicode_len_utf8 (base ! b)) (length base - b)"
    let ?s = "\<lparr>sy_prev = int (length pre) - 1, sy_next = (if b + n = length base then - 1 else int (length pre) + 1),
         sy_base = base, sy_off = b, sy_n = n\<rparr>"
    have n: "0 < n" "b + n \<le> length base" using True unicode_len_pos [of "base ! b"] by (auto simp: n_def)
    have eq: "split_symbols base b (int (length pre)) = ?s # split_symbols base (b + n) (int (length pre) + 1)"
      using True by (subst split_symbols.simps) (simp add: n_def Let_def)
    have ss: "ss = (pre @ [?s]) @ split_symbols base (b + n) (int (length (pre @ [?s])))" using 1(3) eq by (simp add: add.commute)
    have IH: "seg base ss (int (length (pre @ [?s])) - 1) (b + n) [length (pre @ [?s])..<length ss] (- 1) (length base)"
      by (rule 1(1) [OF True n_def _ n(2) ss]) (simp add: add.commute)
    have nx: "nxt_of (- 1) [Suc (length pre)..<length ss] = (if b + n = length base then - 1 else int (length pre) + 1)"
    proof (cases "b + n = length base")
      case True
      then have "split_symbols base (b + n) (int (length pre) + 1) = []" by (subst split_symbols.simps) simp
      then have "length ss = Suc (length pre)" using 1(3) eq by simp
      then show ?thesis using True by (simp add: nxt_of_def)
    next
      case False
      then have "b + n < length base" using n by simp
      then have "split_symbols base (b + n) (int (length pre) + 1) \<noteq> []" by (subst split_symbols.simps) (simp add: Let_def)
      then have "Suc (length pre) < length ss" using 1(3) eq by (cases "split_symbols base (b + n) (int (length pre) + 1)") auto
      then have "[Suc (length pre)..<length ss] = Suc (length pre) # [Suc (Suc (length pre))..<length ss]" by (rule upt_conv_Cons)
      then show ?thesis using False by (simp add: nxt_of_def)
    qed
    have "length pre < length ss" using ss by simp
    then have up: "[length pre..<length ss] = length pre # [Suc (length pre)..<length ss]" by (rule upt_conv_Cons)
    have "ss ! length pre = ?s" using ss by (simp add: nth_append)
    then show ?thesis using IH n nx \<open>length pre < length ss\<close> by (simp add: up)
  next
    case False
    then have "split_symbols base b (int (length pre)) = []" by (subst split_symbols.simps) simp
    then show ?thesis using 1 False by simp
  qed
qed

lemma split_symbols_chain:
  assumes "ss = split_symbols base 0 0"
  shows "chain base ss [0..<length ss]" and "parts ss [0..<length ss] = utf8_pieces base"
proof -
  have s: "seg base ss (- 1) 0 [0..<length ss] (- 1) (length base)"
    using split_symbols_seg [of 0 base ss "[]"] assms by simp
  moreover have "0 < sy_n (ss ! i)" if "i < length ss" for i using seg_bounds [OF s, of i] that by simp
  ultimately show "chain base ss [0..<length ss]" by (simp add: chain_def)
  have "parts ss [0..<length ss] = map piece (map (nth ss) [0..<length ss])" unfolding parts_def by simp
  also have "map (nth ss) [0..<length ss] = ss" by (rule map_nth)
  finally show "parts ss [0..<length ss] = utf8_pieces base" using split_symbols_pieces [of base 0 0] assms by simp
qed

text \<open>A loop that only appends.\<close>

lemma foldM_collect:
  "(\<And>x q. x \<in> set xs \<Longrightarrow> f x q = Some (q @ g x)) \<Longrightarrow> foldM f xs q = Some (q @ concat (map g xs))"
  by (induction xs arbitrary: q) auto

lemma chain_nat: "chain base ss L \<Longrightarrow> x = int i \<Longrightarrow> i \<in> set L \<Longrightarrow> iget ss x = Some (ss ! i)"
  using chain_bounds(1) by simp

subsection \<open>Byte pairs\<close>

definition bpe_key :: "(string \<times> string \<Rightarrow> int option) \<Rightarrow> string \<Rightarrow> string \<Rightarrow> int option" where
  "bpe_key ranks s t = (case ranks (s, t) of None \<Rightarrow> None | Some r \<Rightarrow> if r < 0 then None else Some r)"

definition bpe_mk :: "(string \<times> string \<Rightarrow> int option) \<Rightarrow> int \<Rightarrow> int \<Rightarrow> string \<Rightarrow> string \<Rightarrow> bigram_bpe option" where
  "bpe_mk ranks x y s t = map_option (\<lambda>r. \<lparr>bb_left = x, bb_right = y, bb_text = s @ t, bb_rank = r, bb_size = length s + length t\<rparr>) (bpe_key ranks s t)"

interpretation bpq: pair_queue bb_left bb_right bb_size bpe_less "bpe_mk ranks" "bpe_key ranks" bb_rank "(<)"
  for ranks :: "string \<times> string \<Rightarrow> int option"
proof unfold_locales
  show "map_option bb_rank (bpe_mk ranks x y s t) = bpe_key ranks s t" for x y s t
    by (cases "bpe_key ranks s t") (simp_all add: bpe_mk_def)
qed (auto simp: bpe_mk_def bpe_less_def)

definition no_space :: "string \<Rightarrow> bool" where
  "no_space s \<longleftrightarrow> CHR '' '' \<notin> set s \<and> CHR 0x0A \<notin> set s"

lemma piece_set: "sy_base s = base \<Longrightarrow> set (piece s) \<subseteq> set base"
  by (auto simp: piece_def dest!: in_set_takeD in_set_dropD)

lemma add_new_bigram_entries:
  assumes c: "chain base ss L" and ns: "no_space base"
    and x: "x = - 1 \<or> (\<exists>i \<in> set L. x = int i)" and y: "y = - 1 \<or> (\<exists>i \<in> set L. y = int i)"
  shows "add_new_bigram v ss x y q = Some (q @ bpq.new_entries (vc_bpe_ranks v) ss x y)"
proof (cases "x = - 1 \<or> y = - 1")
  case True
  then show ?thesis by (auto simp: add_new_bigram_def bpq.new_entries_def)
next
  case False
  then obtain i j where ij: "x = int i" "y = int j" "i \<in> set L" "j \<in> set L" using x y by auto
  have "no_space (piece (ss ! k))" if "k \<in> set L" for k
    using piece_set [of "ss ! k" base] chain_bounds(3) [OF c that] ns by (auto simp: no_space_def)
  then have "no_space (piece (ss ! i))" "no_space (piece (ss ! j))" using ij by auto
  then have "find_bpe_rank v (piece (ss ! i)) (piece (ss ! j)) =
      Some (case vc_bpe_ranks v (piece (ss ! i), piece (ss ! j)) of Some r \<Rightarrow> r | None \<Rightarrow> - 1)"
    by (simp add: find_bpe_rank_def no_space_def)
  then show ?thesis
    using ij chain_nat [OF c ij(1,3)] chain_nat [OF c ij(2,4)] chain_piece(1) [OF c ij(3)] chain_piece(1) [OF c ij(4)]
    by (auto simp: add_new_bigram_def bpq.new_entries_def bpe_mk_def bpe_key_def split: option.splits)
qed

lemma bpe_entries_text:
  "b \<in> set (bpq.new_entries ranks ss x y) \<Longrightarrow> length (bb_text b) = bb_size b"
  by (auto simp: bpq.new_entries_def bpe_mk_def split: option.splits if_splits)

lemma lst_of_in: "lst_of (- 1) A = - 1 \<or> (\<exists>i \<in> set A. lst_of (- 1) A = int i)"
  by (simp add: lst_of_def)

lemma nxt_of_in: "nxt_of (- 1) B = - 1 \<or> (\<exists>i \<in> set B. nxt_of (- 1) B = int i)"
  by (simp add: nxt_of_def split: list.splits)

lemma bpe_loop_merges:
  assumes "bpq.qinv (vc_bpe_ranks v) base (fst s) L (snd s)" and "no_space base"
    and "\<forall>b \<in> set (snd s). length (bb_text b) = bb_size b"
  shows "\<exists>ss' L'. bpe_loop v s = Some (ss', []) \<and> chain base ss' L' \<and>
    parts ss' L' = merge_all (<) (bpe_key (vc_bpe_ranks v)) (parts (fst s) L)"
  using assms
proof (induction v s arbitrary: L rule: bpe_loop.induct)
  case (1 v s)
  obtain ss q where s: "s = (ss, q)" by (cases s)
  note q = 1(2) [unfolded s fst_conv snd_conv] and ns = 1(3)
  have c: "chain base ss L" by (rule bpq.qinv_chain [OF q])
  show ?case
  proof (cases "q = []")
    case True
    then have "merge_all (<) (bpe_key (vc_bpe_ranks v)) (parts ss L) = parts ss L"
      using bpq.qinv_empty q by (subst merge_all.simps) simp
    moreover have "bpe_loop v s = Some (ss, [])" using True s by (subst bpe_loop.simps) simp
    ultimately show ?thesis using c s by auto
  next
    case False
    then obtain b q' where pop: "pq_pop bpe_less q = Some (b, q')" using pq_pop_ex by blast
    have q'q: "set q' \<subseteq> set q" using bpq.pq_pop_law [OF pop] set_remove1_subset by metis
    show ?thesis using q pop
    proof (cases rule: bpq.qinv_pop)
      case (stale i j)
      have tx: "length (bb_text b) = bb_size b" using 1(4) stale(6) s by simp
      have "bpe_step v s = Some (ss, q')"
      proof (cases "sy_n (ss ! i) = 0 \<or> sy_n (ss ! j) = 0")
        case True
        then show ?thesis using stale(1-4) pop s by (auto simp: bpe_step_def)
      next
        case live: False
        then have "i \<in> set L" "j \<in> set L" using c stale(3,4) by (auto simp: chain_def)
        note pi = chain_piece [OF c this(1)] and pj = chain_piece [OF c this(2)]
        have "length (piece (ss ! i) @ piece (ss ! j)) \<noteq> length (bb_text b)" using pi(2) pj(2) stale(7) live tx by simp
        then have "piece (ss ! i) @ piece (ss ! j) \<noteq> bb_text b" by metis
        then show ?thesis using stale(1-4) pop s live pi pj by (auto simp: bpe_step_def)
      qed
      then show ?thesis
        using 1(1) [of "(ss, q')" L] False s stale(5) ns 1(4) q'q by (subst bpe_loop.simps) auto
    next
      case (fresh A i j B)
      let ?ss = "merged ss i j" and ?ranks = "vc_bpe_ranks v"
      have c0: "chain base ss (A @ i # j # B)" using c fresh(3) by simp
      have c': "chain base ?ss (A @ i # B)" by (rule chain_merged [OF c0])
      have ij: "i < length ss" "j < length ss" "0 < sy_n (ss ! i)" "0 < sy_n (ss ! j)" using chain_bounds [OF c0] by auto
      let ?new1 = "bpq.new_entries ?ranks ?ss (lst_of (- 1) A) (int i)"
      let ?new2 = "bpq.new_entries ?ranks ?ss (int i) (nxt_of (- 1) B)"
      have btx: "bb_text b = piece (ss ! i) @ piece (ss ! j)"
        using fresh(4) by (auto simp: bpq.entry_def bpe_mk_def)
      have prv: "sy_prev (?ss ! i) = lst_of (- 1) A" and nxt: "sy_next (?ss ! i) = nxt_of (- 1) B"
        using c' by (auto simp: chain_def seg_append)
      have add1: "add_new_bigram v ?ss (lst_of (- 1) A) (int i) q0 = Some (q0 @ ?new1)" for q0
        by (rule add_new_bigram_entries [OF c' ns]) (use lst_of_in [of A] in auto)
      have add2: "add_new_bigram v ?ss (int i) (nxt_of (- 1) B) q0 = Some (q0 @ ?new2)" for q0
        by (rule add_new_bigram_entries [OF c' ns]) (use nxt_of_in [of B] in auto)
      have pp: "sym_str (ss ! i) = Some (piece (ss ! i))" "sym_str (ss ! j) = Some (piece (ss ! j))"
        using chain_piece [OF c0] by auto
      have step: "bpe_step v s = Some (?ss, q' @ ?new1 @ ?new2)"
        using pop s fresh(1,2) ij pp btx merge_symbols_merged [OF c0] prv nxt add1 add2 by (simp add: bpe_step_def)
      have qn: "bpq.qinv ?ranks base ?ss (A @ i # B) (q' @ ?new1 @ ?new2)" by (rule fresh(7)) simp
      have tx: "\<forall>b \<in> set (q' @ ?new1 @ ?new2). length (bb_text b) = bb_size b"
        using 1(4) s q'q bpe_entries_text by auto
      have "merge_all (<) (bpe_key ?ranks) (parts ss L) = merge_all (<) (bpe_key ?ranks) (parts ?ss (A @ i # B))"
        using fresh(6) parts_merged [OF c0] fresh(3) by (subst merge_all.simps) simp
      then show ?thesis
        using 1(1) [of "(?ss, q' @ ?new1 @ ?new2)" "A @ i # B"] False s step qn ns tx by (subst bpe_loop.simps) auto
    qed
  qed
qed

text \<open>The strings of one word.\<close>

definition bpe_whole :: "('s, 'm) vocab_scheme \<Rightarrow> string \<Rightarrow> bool" where
  "bpe_whole v word \<longleftrightarrow> vc_ignore_merges v \<and> vc_token_to_id v word \<noteq> None \<and> vc_token_to_id v word \<noteq> Some LLAMA_TOKEN_NULL"

definition bpe_ref :: "('s, 'm) vocab_scheme \<Rightarrow> string \<Rightarrow> string list" where
  "bpe_ref v word = (if word = [] then []
     else if bpe_whole v word then [word]
     else merge_all (<) (bpe_key (vc_bpe_ranks v)) (utf8_pieces word))"

lemma bpe_word_ref:
  assumes ns: "no_space word" and ty: "vc_type v \<noteq> VOCAB_NONE"
  shows "\<exists>ss L. bpe_word v word = Some ss \<and> chain word ss L \<and> parts ss L = bpe_ref v word"
proof (cases "bpe_whole v word")
  case True
  let ?ss = "[\<lparr>sy_prev = - 1, sy_next = - 1, sy_base = word, sy_off = 0, sy_n = length word\<rparr>]"
  have "bpe_word v word = Some ?ss"
    using True ty by (auto simp: bpe_word_def bpe_whole_def text_to_token_def bpe_loop.simps)
  moreover have "chain word ?ss (if word = [] then [] else [0])" by (simp add: chain_def nxt_of_def)
  moreover have "parts ?ss (if word = [] then [] else [0]) = bpe_ref v word" using True by (simp add: parts_def piece_def bpe_ref_def)
  ultimately show ?thesis by blast
next
  case False
  let ?ss = "split_symbols word 0 0" and ?ranks = "vc_bpe_ranks v"
  let ?q = "concat (map (\<lambda>i. bpq.new_entries ?ranks ?ss (int i - 1) (int i)) [1..<length ?ss])"
  note c = split_symbols_chain [OF refl, of word]
  have seed: "foldM (\<lambda>i. add_new_bigram v ?ss (int i - 1) (int i)) [1..<length ?ss] [] = Some ([] @ ?q)"
  proof (rule foldM_collect)
    fix i q assume i: "i \<in> set [1..<length ?ss]"
    then have "int i - 1 = int (i - 1)" "i - 1 \<in> set [0..<length ?ss]" "i \<in> set [0..<length ?ss]" by auto
    then show "add_new_bigram v ?ss (int i - 1) (int i) q = Some (q @ bpq.new_entries ?ranks ?ss (int i - 1) (int i))"
      using add_new_bigram_entries [OF c(1) ns] by blast
  qed
  have "\<forall>b \<in> set ?q. length (bb_text b) = bb_size b" using bpe_entries_text by fastforce
  then obtain ss' L' where l: "bpe_loop v (?ss, ?q) = Some (ss', [])" "chain word ss' L'"
      "parts ss' L' = merge_all (<) (bpe_key ?ranks) (parts ?ss [0..<length ?ss])"
    using bpe_loop_merges [of v word "(?ss, ?q)" "[0..<length ?ss]"] bpq.qinv_seed [OF c(1), of ?ranks] ns by auto
  have "bpe_word v word = Some ss'"
    using False ty seed l(1) by (auto simp: bpe_word_def bpe_whole_def text_to_token_def split: option.splits)
  moreover have "parts ss' L' = bpe_ref v word"
    using l(3) c(2) False by (cases "word = []") (simp_all add: bpe_ref_def merge_all.simps)
  ultimately show ?thesis using l(2) by blast
qed

subsection \<open>The words in one chain, and their tokens\<close>

definition fin_ok :: "llm_symbol list \<Rightarrow> bool" where
  "fin_ok fin \<longleftrightarrow> (\<forall>i < length fin. 0 < sy_n (fin ! i) \<and> sym_str (fin ! i) = Some (piece (fin ! i)) \<and>
     sy_next (fin ! i) = (if Suc i < length fin then int (Suc i) else - 1))"

lemma piece_update [simp]: "piece (s\<lparr>sy_prev := p\<rparr>) = piece s" "piece (s\<lparr>sy_next := x\<rparr>) = piece s"
  by (simp_all add: piece_def)

lemma sym_str_update [simp]: "sym_str (s\<lparr>sy_prev := p\<rparr>) = sym_str s" "sym_str (s\<lparr>sy_next := x\<rparr>) = sym_str s"
  by (simp_all add: sym_str_def)

lemma fin_push_ok:
  assumes ok: "fin_ok fin" and sy: "0 < sy_n sy" "sym_str sy = Some (piece sy)"
  shows "fin_ok (fin_push sy fin)" and "map piece (fin_push sy fin) = map piece fin @ [piece sy]"
proof -
  define k where "k = length fin"
  have len: "length (fin_push sy fin) = Suc k" by (simp add: fin_push_def k_def Let_def)
  have nth: "fin_push sy fin ! i = (if i = k then sy\<lparr>sy_prev := int k - 1, sy_next := - 1\<rparr>
      else if i = k - 1 then (fin ! i)\<lparr>sy_next := int k\<rparr> else fin ! i)" if "i < Suc k" for i
    using that by (cases k) (auto simp: fin_push_def k_def nth_append Let_def nat_diff_distrib)
  show "fin_ok (fin_push sy fin)"
    unfolding fin_ok_def len
  proof (intro allI impI)
    fix i assume i: "i < Suc k"
    show "0 < sy_n (fin_push sy fin ! i) \<and> sym_str (fin_push sy fin ! i) = Some (piece (fin_push sy fin ! i)) \<and>
        sy_next (fin_push sy fin ! i) = (if Suc i < Suc k then int (Suc i) else - 1)"
      using i ok sy unfolding nth [OF i] fin_ok_def k_def [symmetric] by auto
  qed
  show "map piece (fin_push sy fin) = map piece fin @ [piece sy]"
    by (rule nth_equalityI) (use nth len in \<open>auto simp: k_def nth_append\<close>)
qed

lemma bpe_final_ok:
  assumes "fin_ok fin" and "\<forall>s \<in> set syms. 0 < sy_n s \<longrightarrow> sym_str s = Some (piece s)"
  shows "fin_ok (bpe_final syms fin) \<and>
    map piece (bpe_final syms fin) = map piece fin @ map piece (filter (\<lambda>s. 0 < sy_n s) syms)"
  using assms
proof (induction syms arbitrary: fin)
  case (Cons sy syms)
  then show ?case using fin_push_ok [of fin sy] by simp
qed simp

lemma chain_live: "chain base ss L \<Longrightarrow> map piece (filter (\<lambda>s. 0 < sy_n s) ss) = parts ss L"
proof -
  assume c: "chain base ss L"
  have "set L = set (filter (\<lambda>i. 0 < sy_n (ss ! i)) [0..<length ss])"
    using c chain_bounds(1) [OF c] by (auto simp: chain_def)
  moreover have "sorted_wrt (<) (filter (\<lambda>i. 0 < sy_n (ss ! i)) [0..<length ss])" by (simp add: sorted_wrt_filter)
  ultimately have L: "L = filter (\<lambda>i. 0 < sy_n (ss ! i)) [0..<length ss]"
    using c by (intro strict_sorted_equal) (auto simp: chain_def)
  have "filter (\<lambda>s. 0 < sy_n s) (map (nth ss) [0..<length ss]) = map (nth ss) L"
    unfolding L by (simp add: filter_map comp_def)
  then have "filter (\<lambda>s. 0 < sy_n s) ss = map (nth ss) L" by (simp add: map_nth)
  then show ?thesis by (simp add: parts_def)
qed

text \<open>The tokens of a string: its own, or those of its bytes, where bytes that are no token are left out.\<close>

definition bpe_lookup :: "('s, 'm) vocab_scheme \<Rightarrow> string \<Rightarrow> llama_token list" where
  "bpe_lookup v str = (case vc_token_to_id v str of None \<Rightarrow> [] | Some t \<Rightarrow> if t = LLAMA_TOKEN_NULL then [] else [t])"

definition bpe_tokens :: "('s, 'm) vocab_scheme \<Rightarrow> string \<Rightarrow> llama_token list" where
  "bpe_tokens v str = (if bpe_lookup v str = [] then concat (map (\<lambda>c. bpe_lookup v [c]) str) else bpe_lookup v str)"

lemma bpe_symbol_tokens_eq:
  assumes "vc_type v \<noteq> VOCAB_NONE"
  shows "bpe_symbol_tokens v str out = Some (out @ bpe_tokens v str)"
proof -
  have "foldM (\<lambda>c out. do {
         token_multibyte \<leftarrow> text_to_token v [c];
         Some (if token_multibyte \<noteq> LLAMA_TOKEN_NULL then out @ [token_multibyte] else out) }) str out =
       Some (out @ concat (map (\<lambda>c. bpe_lookup v [c]) str))"
    by (rule foldM_collect) (use assms in \<open>auto simp: text_to_token_def bpe_lookup_def split: option.splits\<close>)
  then show ?thesis
    using assms by (auto simp: bpe_symbol_tokens_def bpe_tokens_def text_to_token_def bpe_lookup_def split: option.splits)
qed

lemma bpe_emit_eq:
  assumes "fin_ok fin" "vc_type v \<noteq> VOCAB_NONE" "i \<le> length fin"
  shows "bpe_emit v fin (if i < length fin then int i else - 1) out = Some (out @ concat (map (bpe_tokens v) (map piece (drop i fin))))"
  using assms(3)
proof (induction "length fin - i" arbitrary: i out)
  case 0
  then show ?case by (subst bpe_emit.simps) simp
next
  case (Suc n)
  then have i: "i < length fin" by simp
  have d: "drop i fin = fin ! i # drop (Suc i) fin" using i by (rule Cons_nth_drop_Suc [symmetric])
  have f: "0 < sy_n (fin ! i)" "sym_str (fin ! i) = Some (piece (fin ! i))"
      "sy_next (fin ! i) = (if Suc i < length fin then int (Suc i) else - 1)"
    using assms(1) i by (auto simp: fin_ok_def)
  have "bpe_emit v fin (int i) out = bpe_emit v fin (sy_next (fin ! i)) (out @ bpe_tokens v (piece (fin ! i)))"
    using i f(1,2) bpe_symbol_tokens_eq [OF assms(2)] by (subst bpe_emit.simps) simp
  also have "\<dots> = Some ((out @ bpe_tokens v (piece (fin ! i))) @ concat (map (bpe_tokens v) (map piece (drop (Suc i) fin))))"
    unfolding f(3) using Suc(1) [of "Suc i"] Suc(2,3) i by (simp del: append_assoc)
  finally show ?case using i by (simp add: d)
qed

lemma bpe_tokenize_ref:
  assumes ns: "\<forall>w \<in> set words. no_space w" and ty: "vc_type v \<noteq> VOCAB_NONE"
  shows "bpe_tokenize v words out = Some (out @ concat (map (bpe_tokens v) (concat (map (bpe_ref v) words))))"
proof -
  let ?f = "\<lambda>word fin. do { syms \<leftarrow> bpe_word v word; Some (bpe_final syms fin) }"
  have "\<exists>fin'. foldM ?f words [] = Some fin' \<and> (fin_ok fin' \<and> map piece fin' = concat (map (bpe_ref v) words))"
  proof (rule foldM_rule [where P = "\<lambda>ws fin. fin_ok fin \<and> map piece fin = concat (map (bpe_ref v) ws)"])
    fix ys x t
    assume x: "\<exists>zs. words = ys @ x # zs" and t: "fin_ok t \<and> map piece t = concat (map (bpe_ref v) ys)"
    then obtain ss L where w: "bpe_word v x = Some ss" and c: "chain x ss L" and p: "parts ss L = bpe_ref v x"
      using bpe_word_ref [of x v] ns ty by auto
    have "\<forall>s \<in> set ss. 0 < sy_n s \<longrightarrow> sym_str s = Some (piece s)"
    proof (intro ballI impI)
      fix s assume "s \<in> set ss" "0 < sy_n s"
      then obtain i where "i < length ss" "s = ss ! i" by (auto simp: in_set_conv_nth)
      then show "sym_str s = Some (piece s)" using c chain_piece(1) [OF c, of i] \<open>0 < sy_n s\<close> by (simp add: chain_def)
    qed
    then have "fin_ok (bpe_final ss t) \<and> map piece (bpe_final ss t) = map piece t @ parts ss L"
      using bpe_final_ok [of t ss] t chain_live [OF c] by simp
    then show "\<exists>t'. ?f x t = Some t' \<and> (fin_ok t' \<and> map piece t' = concat (map (bpe_ref v) (ys @ [x])))"
      using w p t by simp
  qed (simp add: fin_ok_def)
  then obtain fin where f: "foldM ?f words [] = Some fin" "fin_ok fin" "map piece fin = concat (map (bpe_ref v) words)" by blast
  show ?thesis
  proof (cases "fin = []")
    case True
    then have "concat (map (bpe_ref v) words) = []" using f(3) by simp
    then show ?thesis using True f(1) by (simp only: bpe_tokenize_def) simp
  next
    case False
    then have "bpe_emit v fin 0 out = Some (out @ concat (map (bpe_tokens v) (map piece fin)))"
      using bpe_emit_eq [OF f(2) ty, of 0 out] by simp
    then show ?thesis using False f(1,3) by (simp add: bpe_tokenize_def)
  qed
qed

subsection \<open>SPM\<close>

definition spm_score :: "('s, 'm) vocab_scheme \<Rightarrow> string \<Rightarrow> 's option" where
  "spm_score v str = (case vc_token_to_id v str of None \<Rightarrow> None | Some t \<Rightarrow> Some (td_score (vc_id_to_token v ! nat t)))"

definition spm_mk :: "(string \<Rightarrow> 's option) \<Rightarrow> int \<Rightarrow> int \<Rightarrow> string \<Rightarrow> string \<Rightarrow> 's bigram_spm option" where
  "spm_mk sc x y s t = map_option (\<lambda>r. \<lparr>bs_left = x, bs_right = y, bs_score = r, bs_size = length s + length t\<rparr>) (sc (s @ t))"

interpretation spq: pair_queue bs_left bs_right bs_size spm_less "spm_mk sc" "\<lambda>s t. sc (s @ t)" bs_score "(>)"
  for sc :: "string \<Rightarrow> 's :: linorder option"
proof unfold_locales
  show "map_option bs_score (spm_mk sc x y s t) = sc (s @ t)" for x y s t
    by (cases "sc (s @ t)") (simp_all add: spm_mk_def)
qed (auto simp: spm_mk_def spm_less_def)

text \<open>Strings that \<open>rev_merge\<close> knows are tokens.\<close>

definition rev_ok :: "('s, 'm) vocab_scheme \<Rightarrow> 's spm_session \<Rightarrow> bool" where
  "rev_ok v s \<longleftrightarrow> (\<forall>str. sp_rev_merge s str \<noteq> None \<longrightarrow> vc_token_to_id v str \<noteq> None)"

lemma vocab_wf_token:
  assumes "vocab_wf v" "vc_token_to_id v str = Some t"
  shows "0 \<le> t" "nat t < n_tokens v" "u32 t < n_tokens v" "t \<noteq> - 1" "td_text (vc_id_to_token v ! nat t) = str"
    "get_token_data v t = Some (vc_id_to_token v ! nat t)" "text_to_token v str = Some t"
proof -
  show t: "0 \<le> t" "nat t < n_tokens v" "td_text (vc_id_to_token v ! nat t) = str" using assms by (auto simp: vocab_wf_def)
  then show "t \<noteq> - 1" by simp
  have "u32 (int (nat t)) = nat t" using t assms(1) by (intro u32_id) (auto simp: vocab_wf_def)
  then show "u32 t < n_tokens v" using t by simp
  have ty: "vc_type v \<noteq> VOCAB_NONE" using assms(1) by (simp add: vocab_wf_def)
  then show "get_token_data v t = Some (vc_id_to_token v ! nat t)"
    using t by (simp add: get_token_data_def iget_Some n_tokens_def)
  show "text_to_token v str = Some t" using ty assms(2) by (simp add: text_to_token_def)
qed

lemma text_to_token_None: "vocab_wf v \<Longrightarrow> vc_token_to_id v str = None \<Longrightarrow> text_to_token v str = Some (- 1)"
  by (simp add: text_to_token_def vocab_wf_def)

lemma chain_cstr:
  assumes c: "chain base ss (A @ i # j # B)"
  shows "cstr (sy_base (ss ! i)) (sy_off (ss ! i)) (sy_n (ss ! i) + sy_n (ss ! j)) = Some (piece (ss ! i) @ piece (ss ! j))"
proof -
  have "sy_base (ss ! i) = base" "sy_base (ss ! j) = base" "sy_off (ss ! j) + sy_n (ss ! j) \<le> length base"
    using chain_bounds [OF c] by auto
  then show ?thesis using chain_pair(4) [OF c] by (simp add: cstr_def piece_def take_add add.commute)
qed

lemma try_add_bigram_entries:
  assumes wf: "vocab_wf v" and rev: "rev_ok v s"
    and xy: "x = - 1 \<or> y = - 1 \<or> (\<exists>A i j B. x = int i \<and> y = int j \<and> chain base (sp_symbols s) (A @ i # j # B))"
  shows "\<exists>rm. try_add_bigram v x y s = Some (s\<lparr>sp_queue := sp_queue s @ spq.new_entries (spm_score v) (sp_symbols s) x y, sp_rev_merge := rm\<rparr>) \<and>
    rev_ok v (s\<lparr>sp_queue := sp_queue s @ spq.new_entries (spm_score v) (sp_symbols s) x y, sp_rev_merge := rm\<rparr>)"
proof (cases "x = - 1 \<or> y = - 1")
  case True
  then show ?thesis using rev by (intro exI [of _ "sp_rev_merge s"]) (auto simp: try_add_bigram_def spq.new_entries_def)
next
  case False
  then obtain A i j B where ij: "x = int i" "y = int j" and c: "chain base (sp_symbols s) (A @ i # j # B)" using xy by blast
  let ?ss = "sp_symbols s" and ?str = "piece (sp_symbols s ! i) @ piece (sp_symbols s ! j)"
  have len: "i < length ?ss" "j < length ?ss" using chain_bounds(1) [OF c] by auto
  have "length ?str = sy_n (?ss ! i) + sy_n (?ss ! j)" using chain_piece(2) [OF c] by simp
  show ?thesis
  proof (cases "vc_token_to_id v ?str")
    case None
    have "try_add_bigram v x y s = Some s"
      using ij len chain_cstr [OF c] text_to_token_None [OF wf None] by (simp add: try_add_bigram_def)
    moreover have "spq.new_entries (spm_score v) ?ss x y = []" using ij None by (simp add: spq.new_entries_def spm_mk_def spm_score_def)
    ultimately show ?thesis using rev by (intro exI [of _ "sp_rev_merge s"]) simp
  next
    case (Some t)
    note t = vocab_wf_token [OF wf Some]
    have "try_add_bigram v x y s = Some (s\<lparr>sp_queue := sp_queue s @ [\<lparr>bs_left = x, bs_right = y,
        bs_score = td_score (vc_id_to_token v ! nat t), bs_size = length ?str\<rparr>], sp_rev_merge := (sp_rev_merge s)(?str \<mapsto> (x, y))\<rparr>)"
      using ij len chain_cstr [OF c] t by (simp add: try_add_bigram_def not_le)
    moreover have "spq.new_entries (spm_score v) ?ss x y =
        [\<lparr>bs_left = x, bs_right = y, bs_score = td_score (vc_id_to_token v ! nat t), bs_size = length ?str\<rparr>]"
      using ij Some by (simp add: spq.new_entries_def spm_mk_def spm_score_def)
    moreover have "rev_ok v (s\<lparr>sp_queue := q, sp_rev_merge := (sp_rev_merge s)(?str \<mapsto> (x, y))\<rparr>)" for q
      using rev Some by (simp add: rev_ok_def)
    ultimately show ?thesis by (intro exI [of _ "(sp_rev_merge s)(?str \<mapsto> (x, y))"]) simp
  qed
qed

lemma spm_loop_merges:
  assumes "spq.qinv (spm_score v) base (sp_symbols s) L (sp_queue s)" and "vocab_wf v" and "rev_ok v s"
  shows "\<exists>s' L'. spm_loop v s = Some s' \<and> chain base (sp_symbols s') L' \<and> rev_ok v s' \<and> nxt_of (- 1) L' = nxt_of (- 1) L \<and>
    parts (sp_symbols s') L' = merge_all (>) (\<lambda>s t. spm_score v (s @ t)) (parts (sp_symbols s) L)"
  using assms
proof (induction v s arbitrary: L rule: spm_loop.induct)
  case (1 v s)
  let ?ss = "sp_symbols s" and ?q = "sp_queue s" and ?key = "\<lambda>s t. spm_score v (s @ t)"
  note q = 1(2) and wf = 1(3) and rev = 1(4)
  have c: "chain base ?ss L" by (rule spq.qinv_chain [OF q])
  show ?case
  proof (cases "?q = []")
    case True
    then have "merge_all (>) ?key (parts ?ss L) = parts ?ss L"
      using spq.qinv_empty [of "spm_score v" base ?ss L] q by (subst merge_all.simps) simp
    moreover have "spm_loop v s = Some s" using True by (subst spm_loop.simps) simp
    ultimately show ?thesis using c rev by auto
  next
    case False
    then obtain b q' where pop: "pq_pop spm_less ?q = Some (b, q')" using pq_pop_ex by blast
    show ?thesis using q pop
    proof (cases rule: spq.qinv_pop)
      case (stale i j)
      have "spm_step v s = Some (s\<lparr>sp_queue := q'\<rparr>)" using stale(1-4,7) pop by (auto simp: spm_step_def Let_def)
      moreover have "rev_ok v (s\<lparr>sp_queue := q'\<rparr>)" using rev by (simp add: rev_ok_def)
      ultimately show ?thesis using 1(1) [of "s\<lparr>sp_queue := q'\<rparr>" L] False stale(5) wf by (subst spm_loop.simps) auto
    next
      case (fresh A i j B)
      let ?ms = "merged ?ss i j" and ?L = "A @ i # B"
      have c0: "chain base ?ss (A @ i # j # B)" using c fresh(3) by simp
      have c': "chain base ?ms ?L" by (rule chain_merged [OF c0])
      have ij: "i < length ?ss" "j < length ?ss" "0 < sy_n (?ss ! i)" "0 < sy_n (?ss ! j)" using chain_bounds [OF c0] by auto
      let ?new1 = "spq.new_entries (spm_score v) ?ms (lst_of (- 1) A) (int i)"
      let ?new2 = "spq.new_entries (spm_score v) ?ms (int i) (nxt_of (- 1) B)"
      have prv: "sy_prev (?ms ! i) = lst_of (- 1) A" and nxt: "sy_next (?ms ! i) = nxt_of (- 1) B"
        using c' by (auto simp: chain_def seg_append)
      have adj1: "lst_of (- 1) A = - 1 \<or> int i = - 1 \<or> (\<exists>A1 k l B1. lst_of (- 1) A = int k \<and> int i = int l \<and> chain base ?ms (A1 @ k # l # B1))"
      proof (cases "A = []")
        case False
        then have "?L = butlast A @ List.last A # i # B" by simp
        then show ?thesis using c' False by (metis lst_of_def)
      qed (simp add: lst_of_def)
      have adj2: "int i = - 1 \<or> nxt_of (- 1) B = - 1 \<or> (\<exists>A1 k l B1. int i = int k \<and> nxt_of (- 1) B = int l \<and> chain base ?ms (A1 @ k # l # B1))"
        using c' by (cases B) (auto simp: nxt_of_def)
      let ?s0 = "s\<lparr>sp_queue := q', sp_symbols := ?ms\<rparr>"
      have "rev_ok v ?s0" using rev by (simp add: rev_ok_def)
      then obtain rm1 where r1: "try_add_bigram v (lst_of (- 1) A) (int i) ?s0 = Some (?s0\<lparr>sp_queue := q' @ ?new1, sp_rev_merge := rm1\<rparr>)"
          "rev_ok v (?s0\<lparr>sp_queue := q' @ ?new1, sp_rev_merge := rm1\<rparr>)"
        using try_add_bigram_entries [OF wf, of ?s0 "lst_of (- 1) A" "int i" base] adj1 by auto
      then obtain rm2 where r2: "try_add_bigram v (int i) (nxt_of (- 1) B) (?s0\<lparr>sp_queue := q' @ ?new1, sp_rev_merge := rm1\<rparr>) =
            Some (?s0\<lparr>sp_queue := q' @ ?new1 @ ?new2, sp_rev_merge := rm2\<rparr>)"
          "rev_ok v (?s0\<lparr>sp_queue := q' @ ?new1 @ ?new2, sp_rev_merge := rm2\<rparr>)"
        using try_add_bigram_entries [OF wf r1(2), of "int i" "nxt_of (- 1) B" base] adj2 by auto
      let ?s2 = "?s0\<lparr>sp_queue := q' @ ?new1 @ ?new2, sp_rev_merge := rm2\<rparr>"
      have step: "spm_step v s = Some ?s2"
        using pop fresh(1,2,5) ij merge_symbols_merged [OF c0] prv nxt r1(1) r2(1) by (simp add: spm_step_def Let_def)
      have qn: "spq.qinv (spm_score v) base ?ms ?L (q' @ ?new1 @ ?new2)" by (rule fresh(7)) simp
      have "merge_all (>) ?key (parts ?ss L) = merge_all (>) ?key (parts ?ms ?L)"
        using fresh(6) parts_merged [OF c0] fresh(3) by (subst merge_all.simps) simp
      moreover have "nxt_of (- 1) ?L = nxt_of (- 1) L" using fresh(3) by (cases A) (simp_all add: nxt_of_def)
      ultimately show ?thesis
        using 1(1) [of ?s2 ?L] False step qn wf r2(2) by (subst spm_loop.simps) auto
    qed
  qed
qed

text \<open>The tokens of a string, and the whole session.\<close>

definition spm_str_tokens :: "('s, 'm) vocab_scheme \<Rightarrow> string \<Rightarrow> llama_token list option" where
  "spm_str_tokens v str = (case vc_token_to_id v str of None \<Rightarrow> mapM (byte_to_token v) str | Some t \<Rightarrow> Some [t])"

lemma foldM_append_mapM:
  "foldM (\<lambda>c out. do { i \<leftarrow> f c; Some (out @ [i]) }) xs out = map_option (\<lambda>ys. out @ ys) (mapM f xs)"
proof (induction xs arbitrary: out)
  case (Cons x xs)
  then show ?case by (cases "f x"; cases "mapM f xs") auto
qed simp

lemma resegment_eq:
  assumes wf: "vocab_wf v" and rev: "rev_ok v s" and sy: "sym_str symbol = Some str"
  shows "resegment v s symbol out = map_option (\<lambda>ts. out @ ts) (spm_str_tokens v str)"
proof (cases "vc_token_to_id v str")
  case None
  then have "sp_rev_merge s str = None" using rev unfolding rev_ok_def by blast
  then show ?thesis
    using None sy text_to_token_None [OF wf None] by (subst resegment.simps) (simp add: spm_str_tokens_def foldM_append_mapM)
next
  case (Some t)
  then show ?thesis using sy vocab_wf_token [OF wf Some] by (subst resegment.simps) (simp add: spm_str_tokens_def)
qed

lemma spm_emit_eq:
  assumes wf: "vocab_wf v" and rev: "rev_ok v s"
  shows "seg base (sp_symbols s) p b L (- 1) e \<Longrightarrow> e \<le> length base \<Longrightarrow>
    spm_emit v s (nxt_of (- 1) L) out =
      map_option (\<lambda>tss. out @ concat tss) (mapM (spm_str_tokens v) (parts (sp_symbols s) L))"
proof (induction L arbitrary: p b out)
  case Nil
  then show ?case by (subst spm_emit.simps) (simp add: nxt_of_def parts_def)
next
  case (Cons i L)
  let ?y = "sp_symbols s ! i"
  have y: "i < length (sp_symbols s)" "sy_next ?y = nxt_of (- 1) L"
    and sg: "seg base (sp_symbols s) (int i) (b + sy_n ?y) L (- 1) e" using Cons.prems by auto
  have "sym_str ?y = Some (piece ?y)"
    using seg_bounds [OF Cons.prems(1), of i] Cons.prems(2) by (auto simp: sym_str_def cstr_def piece_def)
  note r = resegment_eq [OF wf rev this]
  have "spm_emit v s (nxt_of (- 1) (i # L)) out =
      Option.bind (map_option (\<lambda>ts. out @ ts) (spm_str_tokens v (piece ?y))) (spm_emit v s (nxt_of (- 1) L))"
    using y r by (subst spm_emit.simps) (simp add: nxt_of_def)
  then show ?case
    using Cons.IH [OF sg Cons.prems(2)]
    by (cases "spm_str_tokens v (piece ?y)"; cases "mapM (spm_str_tokens v) (parts (sp_symbols s) L)") (auto simp: parts_def)
qed

definition spm_ref :: "('s :: linorder, 'm) vocab_scheme \<Rightarrow> string \<Rightarrow> string list" where
  "spm_ref v str = merge_all (>) (\<lambda>s t. spm_score v (s @ t)) (utf8_pieces str)"

lemma spm_start_entries:
  assumes wf: "vocab_wf v"
  shows "\<exists>s. spm_start v str = Some s \<and> sp_symbols s = split_symbols str 0 0 \<and> rev_ok v s \<and>
    spq.qinv (spm_score v) str (sp_symbols s) [0..<length (sp_symbols s)] (sp_queue s)"
proof -
  let ?ss = "split_symbols str 0 0" and ?new = "spq.new_entries (spm_score v) (split_symbols str 0 0)"
  let ?s = "\<lparr>sp_symbols = ?ss, sp_queue = [], sp_rev_merge = (\<lambda>_. None)\<rparr>"
  let ?f = "\<lambda>i. try_add_bigram v (int i - 1) (int i)"
  note c = split_symbols_chain(1) [OF refl, of str]
  have "\<exists>s. foldM ?f [1..<length ?ss] ?s = Some s \<and>
      (sp_symbols s = ?ss \<and> rev_ok v s \<and> sp_queue s = concat (map (\<lambda>i. ?new (int i - 1) (int i)) [1..<length ?ss]))"
  proof (rule foldM_rule [where P = "\<lambda>ys s. sp_symbols s = ?ss \<and> rev_ok v s \<and> sp_queue s = concat (map (\<lambda>i. ?new (int i - 1) (int i)) ys)"])
    fix ys x s
    assume x: "\<exists>zs. [1..<length ?ss] = ys @ x # zs"
      and s: "sp_symbols s = ?ss \<and> rev_ok v s \<and> sp_queue s = concat (map (\<lambda>i. ?new (int i - 1) (int i)) ys)"
    then have "x \<in> set [1..<length ?ss]" by (metis in_set_conv_decomp)
    then have xl: "1 \<le> x" "Suc (x - 1) < length ?ss" and x1: "int x - 1 = int (x - 1)" by auto
    have nx: "[0..<length ?ss] ! (x - 1) = x - 1" "[0..<length ?ss] ! Suc (x - 1) = x" using xl by simp_all
    have "Suc (x - 1) < length [0..<length ?ss]" using xl by simp
    from spq.nth_split [OF this, unfolded nx] obtain A B where "[0..<length ?ss] = A @ (x - 1) # x # B" by metis
    then have "chain str (sp_symbols s) (A @ (x - 1) # x # B)" using c s by simp
    then have "\<exists>A i j B. int x - 1 = int i \<and> int x = int j \<and> chain str (sp_symbols s) (A @ i # j # B)" using x1 by blast
    then obtain rm where "?f x s = Some (s\<lparr>sp_queue := sp_queue s @ ?new (int x - 1) (int x), sp_rev_merge := rm\<rparr>)"
        "rev_ok v (s\<lparr>sp_queue := sp_queue s @ ?new (int x - 1) (int x), sp_rev_merge := rm\<rparr>)"
      using try_add_bigram_entries [OF wf, of s "int x - 1" "int x" str] s by auto
    then show "\<exists>s'. ?f x s = Some s' \<and> (sp_symbols s' = ?ss \<and> rev_ok v s' \<and>
        sp_queue s' = concat (map (\<lambda>i. ?new (int i - 1) (int i)) (ys @ [x])))"
      using s by simp
  qed (simp add: rev_ok_def)
  then obtain s where s: "foldM ?f [1..<length ?ss] ?s = Some s" "sp_symbols s = ?ss" "rev_ok v s"
      "sp_queue s = concat (map (\<lambda>i. ?new (int i - 1) (int i)) [1..<length ?ss])" by blast
  have "spm_start v str = Some s" using s(1) by (simp add: spm_start_def Let_def)
  moreover have "spq.qinv (spm_score v) str ?ss [0..<length ?ss] (sp_queue s)" unfolding s(4) by (rule spq.qinv_seed [OF c])
  ultimately show ?thesis using s(2,3) by auto
qed

lemma spm_tokenize_ref:
  assumes wf: "vocab_wf v" and ne: "str \<noteq> []"
  shows "spm_tokenize v str out = map_option (\<lambda>tss. out @ concat tss) (mapM (spm_str_tokens v) (spm_ref v str))"
proof -
  let ?ss = "split_symbols str 0 0"
  note c = split_symbols_chain [OF refl, of str]
  obtain s where s: "spm_start v str = Some s" "sp_symbols s = ?ss" "rev_ok v s"
      "spq.qinv (spm_score v) str (sp_symbols s) [0..<length ?ss] (sp_queue s)"
    using spm_start_entries [OF wf, of str] by auto
  obtain s' L' where l: "spm_loop v s = Some s'" "chain str (sp_symbols s') L'" "rev_ok v s'" "nxt_of (- 1) L' = nxt_of (- 1) [0..<length ?ss]"
      "parts (sp_symbols s') L' = spm_ref v str"
    using spm_loop_merges [OF s(4) wf s(3)] s(2) c(2) by (auto simp: spm_ref_def)
  have "?ss \<noteq> []" using ne by (subst split_symbols.simps) (simp add: Let_def)
  then have "nxt_of (- 1) L' = 0" using l(4) by (simp add: nxt_of_def upt_conv_Cons)
  then have "spm_tokenize v str out = spm_emit v s' (nxt_of (- 1) L') out" using s(1) l(1) by (simp add: spm_tokenize_def)
  also have "\<dots> = map_option (\<lambda>tss. out @ concat tss) (mapM (spm_str_tokens v) (spm_ref v str))"
    using spm_emit_eq [OF wf l(3), of str "- 1" 0 L' "length str" out] l(2,5) by (simp add: chain_def)
  finally show ?thesis .
qed

text \<open>The text is not empty where the session is called; it would read a symbol that is not there.\<close>

lemma spm_tokenize_empty: "spm_tokenize v [] out = None"
proof -
  have "split_symbols [] 0 0 = []" by (subst split_symbols.simps) simp
  then have "spm_start v [] = Some \<lparr>sp_symbols = [], sp_queue = [], sp_rev_merge = (\<lambda>_. None)\<rparr>" by (simp add: spm_start_def)
  then show ?thesis by (simp add: spm_tokenize_def spm_loop.simps spm_emit.simps iget_def vget_def)
qed

end
