(* ===== verification/Spec2Isabelle.thy ===== *)
theory Spec2Isabelle
  imports GraphProps GraphBuildProps CtxProps InputProps StateProps PairState MemProps BatchProps GrammarProps TokProps
begin

text \<open>
  Four parts of llama.cpp: the memory, the grammar that constrains sampling, the compute graph, how it
  is built and the planner that gives its tensors their memory, and two tokenizers.

  The memory is the batch allocator (src/llama-batch.h and .cpp) and the four kinds of
  memory behind \<open>llama_memory_i\<close> (src/llama-memory.h): the unified KV cache
  (src/llama-kv-cells.h, src/llama-kv-cache-unified.h and .cpp), the pair of caches of models with
  a sliding window (src/llama-kv-cache-unified-iswa.cpp), the recurrent memory
  (src/llama-memory-recurrent.cpp) and the hybrid memory (src/llama-memory-hybrid.cpp).

  How the parts interact.  \<open>llama_context\<close> gives a batch to \<open>llama_batch_allocr::init\<close>, which checks
  it against the positions of the memory and fills in what is missing.  The memory's \<open>init_batch\<close>
  lets the allocator split the batch into micro-batches, looks for cells for each (\<open>prepare\<close>) and
  returns a memory context; \<open>next\<close> and \<open>apply\<close> of the context walk through the micro-batches and
  write their cells.  The graph inputs (row indices, shifts, attention mask) are read off the
  cells.  Between batches the user changes sequences (\<open>seq_rm\<close>, \<open>seq_cp\<close>, \<open>seq_keep\<close>, \<open>seq_add\<close>,
  \<open>seq_div\<close>, \<open>clear\<close>), saves and restores states (\<open>state_write\<close>, \<open>state_read\<close>).

  The theories, in the order of the code:

  \<^item> \<open>Prelude\<close>: assertions and undefined behaviour as \<open>option\<close>, counting loops (\<open>foldM\<close>) and their
    rules, 32-bit wrap-around, C++ division; \<open>OrdMap\<close>: \<open>std::map\<close> and \<open>std::set\<close> as ordered lists.
  \<^item> \<open>KvCells\<close>: every member function of \<open>llama_kv_cells_unified\<close>; \<open>KvCellsInv\<close>: its invariant, that
    the used set and the per-sequence position maps are what the cells say, kept by every operation.
  \<^item> \<open>KvCache\<close>: construction and the sequence operations of the unified cache; \<open>KvCacheOps\<close>,
    \<open>KvCacheSeq\<close>: the invariant \<open>kv_wf\<close> and what each operation does to \<open>kv_positions\<close>, the set of
    positions of a sequence, which is the abstract state of the cache.
  \<^item> \<open>Batch\<close>: the batch allocator, its three ways to split and its checks; \<open>BatchInv\<close>: its invariant and
    what adding a micro-batch does; \<open>BatchSplit\<close>: the contract of a split as a locale, with the simple and
    the sequential split; \<open>BatchEqual\<close>: the equal split; \<open>BatchInit\<close>: what the checks of \<open>init\<close> establish.
  \<^item> \<open>KvSlot\<close>, \<open>KvSlotInv\<close>, \<open>KvApply\<close>, \<open>KvPrepare\<close>: \<open>find_slot\<close>, \<open>apply_ubatch\<close>, \<open>prepare\<close> and their
    correctness.
  \<^item> \<open>KvUpdate\<close>: defragmentation, pending shifts and copies, the memory context; \<open>KvInput\<close>: the
    graph inputs; \<open>InputProps\<close>: the mask against its reference, and the properties of the inputs.
  \<^item> \<open>Memory\<close>: the memory status; \<open>Recurrent\<close>, \<open>RecurrentSlot\<close>: the recurrent memory; \<open>RecurrentInv\<close>:
    its invariant and sequence operations; \<open>RecurrentSpec\<close>: the refinement of the map from sequences
    to positions.
  \<^item> \<open>Iswa\<close>, \<open>Hybrid\<close>: the two memories that are pairs; \<open>HybridMemory\<close>: when the halves of the hybrid
    memory agree, and that its operations keep them in agreement.
  \<^item> \<open>StateIO\<close>, \<open>KvState\<close>, \<open>RecurrentState\<close>, \<open>PairState\<close>: saving and restoring sequences as bytes;
    \<open>KvStateInv\<close>, \<open>KvStateRead\<close>, \<open>KvRestore\<close>: the bytes that are written, and what reading them does.
  \<^item> \<open>MemoryIface\<close>: the interface as a locale with the laws its clients rely on; \<open>KvMemory\<close>,
    \<open>RecurrentMemory\<close> and \<open>HybridMemory\<close> interpret it.
  \<^item> \<open>KvDemo\<close>, \<open>KvProps\<close>, \<open>MemProps\<close>, \<open>BatchProps\<close>, \<open>InputProps\<close>, \<open>StateProps\<close>: concrete memories and
    the properties.

  The grammar (src/llama-grammar.h and .cpp) is independent of the memory: a GBNF source is parsed
  into rules, rules without left recursion become a grammar object with the stacks of its root
  rule, \<open>llama_grammar_apply_impl\<close> masks the candidates of a sampler that the stacks cannot read, and
  \<open>llama_grammar_accept_impl\<close> advances the stacks over the token that was picked.

  \<^item> \<open>Grammar\<close>: elements, matching a character, advancing stacks, rejecting candidates; \<open>GrammarRun\<close>: the
    two decoders, the check for left recursion, construction, accepting tokens and
    triggers, masking; \<open>GrammarParse\<close>: the parser and construction from a source.
  \<^item> \<open>GrammarLang\<close>: the language of a grammar, the abstract specification; \<open>GrammarAdvance\<close>: advancing
    keeps the language of the stacks and accepting takes its derivative, and when advancing
    ends; \<open>GrammarCheck\<close>: what the check for left recursion finds out, by induction on the
    rules that are not in progress.
  \<^item> \<open>GrammarReject\<close>: rejecting candidates against accepting them; \<open>GrammarDecode\<close>: the decoder as a
    machine that reads bytes, and its inverse; \<open>GrammarSample\<close>: masking and accepting in turns.
  \<^item> \<open>GrammarParseInv\<close>: the parser's recursion bound; \<open>GrammarParseOk\<close>: parsed rules are well formed.
  \<^item> \<open>GrammarProps\<close>: the properties, and concrete runs that show what the code does in corner cases.

  The memory planner (src/ggml/src/ggml-alloc.c, with the functions of ggml-backend.cpp that attach a
  tensor to a buffer).  \<open>ggml_gallocr_reserve_n\<close> goes through a graph in the order it is computed, with
  an allocator that only measures: a tensor is given an offset when it is first needed, in place of
  a source if possible, and its memory is returned after its last use; then buffers of the measured
  sizes are allocated.  \<open>ggml_gallocr_alloc_graph\<close> gives the tensors of a graph that fits the plan
  their addresses.  \<open>ggml_backend_alloc_ctx_tensors_from_buft\<close> places the tensors of a context one
  after the other.

  \<^item> \<open>Tallocr\<close>: the two allocators; \<open>RangeAlloc\<close>: an allocator of ranges as a locale, with the account of
    the ranges in use; \<open>TallocrInv\<close>: the free blocks are canonical, the interpretation, and runs of
    requests.
  \<^item> \<open>Tensor\<close>: tensors, buffers, attaching; \<open>GraphAlloc\<close>: planning a graph; \<open>GraphReserve\<close>: the tables of
    the plan, buffers, using the plan.
  \<^item> \<open>GraphPlan\<close>, \<open>GraphSafe\<close>, \<open>GraphMain\<close>: the invariant of planning: the
    counters are the uses still to come, every range in use has one owner, and nothing that is still
    needed is overwritten.
  \<^item> \<open>GraphAttach\<close>, \<open>GraphPlace\<close>: buffers as large as the plan, and the tensors in them, live ones apart.
  \<^item> \<open>CtxAlloc\<close>: the tensors of a context.
  \<^item> \<open>GraphDemo\<close>, \<open>GraphProps\<close>, \<open>CtxProps\<close>: concrete graphs and the properties.

  The graph is built before (src/ggml/src/ggml.c and ggml-impl.h): \<open>ggml_build_forward_expand\<close> visits the
  sources of a tensor and appends leafs and nodes; a hash set remembers the tensors that were visited,
  and the position of a tensor in it is the index of its use count, which backends ask for before they
  fuse nodes.

  \<^item> \<open>HashSet\<close>: \<open>ggml_hash_set\<close>, linear probing and the bitset; a table of slots as a locale, the
    invariant of probing, and the interpretation.
  \<^item> \<open>GraphBuild\<close>: building, copying and reading a graph; \<open>GraphBuildInv\<close>: visiting returns, by induction on
    the tensors that can be reached, and what it adds; \<open>GraphBuildOk\<close>: built graphs, what they give to
    the planner, fusing, copies; \<open>GraphBuildProps\<close>: a concrete graph and the properties.

  The tokenizers (src/llama-vocab.cpp and src/unicode.cpp).  Both sessions cut a string into UTF-8
  characters, a chain of symbols in a vector, and merge neighbours, best pair first, with a queue in
  which entries stay when their symbols change.  The SPM session takes the scores of the tokens, the
  BPE session the ranks of the merges; BPE works on words whose bytes \<open>unicode_regex_split\<close> has encoded
  as visible characters, which \<open>llama_decode_text\<close> turns back.

  \<^item> \<open>Unicode\<close>: UTF-8, the two maps between bytes and characters and that they are inverse; \<open>TokMerge\<close>: the
    vocabulary and the two sessions.
  \<^item> \<open>TokMergeInv\<close>: the reference \<open>merge_all\<close>, which has no queue, the chain of symbols, and the locale
    \<open>pair_queue\<close> with the law that the next entry that is not outdated is the best pair; \<open>TokMergeOk\<close>: both
    sessions interpret it and compute the reference; \<open>TokProps\<close>: two vocabularies and the properties.

  Conventions.  \<open>None\<close> is an abort: a failed assertion, an exception nothing catches, an index out
  of a vector or a signed overflow.  Values the code returns to report a failure are values in
  \<open>Some\<close>.  Positions, tokens and sequence ids are \<open>int\<close>, with the 32-bit range checked where the
  code can leave it; unsigned members are \<open>nat\<close> with \<open>u32\<close> where they wrap.  Assertions guarded by
  \<open>NDEBUG\<close> are not part of the model.

  Bounds.  Every loop with a bound known beforehand is a fold over its range.  \<open>split_loop\<close>, which
  calls the allocator until it returns an empty micro-batch, is a partial function whose
  divergence is \<open>None\<close>; \<open>slot_loop\<close>, \<open>simple_loop\<close> and the other scans carry fuel equal to the
  number of steps the code can take.  In the grammar \<open>advance_stack\<close>, \<open>reject_for_stack\<close> and
  \<open>detect_left_recursion\<close> are partial functions whose divergence is \<open>None\<close>, with theorems on when they
  return, and so is \<open>visit_parents\<close>; the loops of linear probing count the entries that are left; the
  parser takes a bound on its recursion, two calls for each byte left and two more,
  which is proved to suffice.  The queues of the tokenizers end because every round merges two symbols or
  removes an entry; the walks along their symbols are partial functions, proved to return.

  Widths.  Some counters are kept as \<open>nat\<close> where the code has 32 bits and can only differ from them beyond
  the sizes named: \<open>head + n_test\<close> of \<open>slot_loop\<close> from 2^32 on, with more than 2^31 cells; the size given to
  \<open>new_graph_custom\<close>, an \<open>int\<close> in the graph, from 2^31 on.  The offsets of transposed values that the
  state functions compute wrap at 2^32, as the code's do; a round trip of a state is stated for layers
  below 4 GiB (\<open>layer_wf\<close>).  The guarantees for advancing a grammar are stated for grammars without left
  recursion in the semantic sense (\<open>left_wf\<close>), since the check in the code does not find all of it.

  Not modelled.  The K, V, R and S tensors are abstract except for the bytes the state functions
  copy; the ggml graphs of \<open>build_rope_shift\<close>, \<open>build_graph_shift\<close> and \<open>build_graph_defrag\<close>, the
  backends, the model loader, the other tokenizers, the other samplers, and the programs on top of the
  library are left out.  Of the grammar: printing, and \<open>llama_grammar_clone_impl\<close>, which relocates
  pointers that are positions here.  The pieces of the tokens and the regular expressions of the
  triggers are parameters.  Of the planner: the hash table from tensors to their counters, a
  \<open>ggml_hash_set\<close> with an array, is a function; the sizes tensors need, alignments and the memory of the backends are parameters; the
  multi-buffer made of several buffers, freeing, and the debug version of the allocator are left out.
  Of the graph: the names of tensors, the backward graph and printing are left out.
  Of the tokenizers: the sizes of the words, which the regular expressions compute, are a parameter; scores
  are of a linear order, without \<open>NaN\<close>; of entries of a queue that compare equal the one inserted first
  is taken; partitioning at special tokens, loading, and turning tokens into pieces beyond
  \<open>llama_decode_text\<close> are left out.
\<close>

end
